(* ===== verification/Prelude.thy ===== *)
theory Prelude
  imports Main "HOL-Library.Word"
begin

text \<open>
  What every part of the model shares: the machine integers of the 68020 build (an int and a
  long are 32 bits, a short is 16 bits, values are kept as \<open>int\<close> with the truncation of each
  store written out), the error numbers, the part of the user area the modelled system calls
  read, the outcome of a system call that may sleep, and the generic lemmas on lists,
  intervals and truncation that the component theories use.
\<close>

unbundle bit_operations_syntax

section \<open>Machine integers\<close>

text \<open>
  \<open>i32\<close>, \<open>s16\<close> and \<open>u16\<close> are the values an int (or long), a short and an
  unsigned short keep of a mathematical integer; \<open>u32\<close> reads an int as unsigned.
\<close>

definition i32 :: "int \<Rightarrow> int" where
  "i32 x = (x + 2 ^ 31) mod 2 ^ 32 - 2 ^ 31"

definition s16 :: "int \<Rightarrow> int" where
  "s16 x = (x + 2 ^ 15) mod 2 ^ 16 - 2 ^ 15"

definition u16 :: "int \<Rightarrow> int" where
  "u16 x = x mod 2 ^ 16"

definition u32 :: "int \<Rightarrow> int" where
  "u32 x = x mod 2 ^ 32"

named_theorems trunc_simps "truncation is the identity on values in range"

lemma i32_id [trunc_simps]: "\<lbrakk>- (2 ^ 31) \<le> x; x < 2 ^ 31\<rbrakk> \<Longrightarrow> i32 x = x"
  by (simp add: i32_def)

lemma s16_id [trunc_simps]: "\<lbrakk>- (2 ^ 15) \<le> x; x < 2 ^ 15\<rbrakk> \<Longrightarrow> s16 x = x"
  by (simp add: s16_def)

lemma u16_id [trunc_simps]: "\<lbrakk>0 \<le> x; x < 2 ^ 16\<rbrakk> \<Longrightarrow> u16 x = x"
  by (simp add: u16_def)

lemma u32_id [trunc_simps]: "\<lbrakk>0 \<le> x; x < 2 ^ 32\<rbrakk> \<Longrightarrow> u32 x = x"
  by (simp add: u32_def)

lemma u16_range: "0 \<le> u16 x \<and> u16 x < 65536"
  by (simp add: u16_def)

lemma s16_range: "- 32768 \<le> s16 x \<and> s16 x < 32768"
  by (simp add: s16_def)

lemma i32_range: "- 2147483648 \<le> i32 x \<and> i32 x < 2147483648"
  by (simp add: i32_def)

section \<open>Error numbers and the user area\<close>

text \<open>The values of \<open>u.u_error\<close> (include/sys/errno.h) the modelled code stores.\<close>

datatype errno =
    EPERM | ENOENT | EINTR | E2BIG | EBADF | EAGAIN | ENOMEM | EACCES | EFAULT | EEXIST
  | EINVAL | EMFILE | EFBIG | ENOSPC | ERANGE | ENOMSG | EIDRM | EDEADLK | EOPNOTSUPP | EREMOTE

text \<open>
  The fields of the user area and of the process table entry the code reads: the effective
  ids, \<open>u.u_procp->p_pid\<close> and the index \<open>u.u_procp - proc\<close>.
\<close>

record user =
  u_uid :: int
  u_gid :: int
  u_pid :: int
  u_proc :: nat

text \<open>\<open>suser()\<close>: the error it leaves in \<open>u.u_error\<close> when it answers no.\<close>

definition suser :: "user \<Rightarrow> bool" where
  "suser u = (u_uid u = 0)"

text \<open>
  A system call runs until it returns or until it calls \<open>sleep\<close>. The kernel is not
  preempted, so this stretch is one step (as long as no copy of user memory faults, see below): \<open>Return\<close> carries \<open>u.u_rval1\<close> or the error,
  \<open>Sleeping\<close> the channel slept on.
\<close>

datatype 'c outcome = Return "errno + int" | Sleeping 'c

abbreviation Fail :: "errno \<Rightarrow> 'c outcome" where
  "Fail e \<equiv> Return (Inl e)"

abbreviation Ok :: "int \<Rightarrow> 'c outcome" where
  "Ok v \<equiv> Return (Inr v)"

text \<open>
  How a kernel routine over linked structures ends otherwise than by returning: a panic, the use of a
  pointer that is null or outside its object, no fuel left; and the sequencing of such routines.
\<close>

datatype kerr = Panic string | Fault | NoFuel

fun andthen :: "kerr + 'a \<Rightarrow> ('a \<Rightarrow> kerr + 'b) \<Rightarrow> kerr + 'b" where
  "andthen (Inl e) f = Inl e"
| "andthen (Inr v) f = f v"

section \<open>User memory\<close>

text \<open>
  A process's address space: \<open>None\<close> at an address that faults. \<open>copyin\<close> and
  \<open>copyout\<close> (PAGING/os/umove.c, and \<open>uiomove\<close> through them) are kept as far as their
  callers rely on them: the bytes are moved, or the call fails and its caller stores EFAULT. A failed
  \<open>copyout\<close> leaves the model's user memory as it was. The user's pages are taken to be resident:
  on a page that is not, the copy faults in the kernel, \<open>vfault\<close> sleeps, and other processes run in
  the middle of the copy. No step of the model is interrupted there.
\<close>

type_synonym byte = "8 word"
type_synonym umem = "int \<Rightarrow> byte option"

fun copyin :: "umem \<Rightarrow> int \<Rightarrow> nat \<Rightarrow> byte list option" where
  "copyin um a 0 = Some []"
| "copyin um a (Suc n) =
     (case um a of None \<Rightarrow> None
      | Some b \<Rightarrow> (case copyin um (a + 1) n of None \<Rightarrow> None | Some bs \<Rightarrow> Some (b # bs)))"

fun umapped :: "umem \<Rightarrow> int \<Rightarrow> nat \<Rightarrow> bool" where
  "umapped um a 0 = True"
| "umapped um a (Suc n) = (um a \<noteq> None \<and> umapped um (a + 1) n)"

fun ustore :: "umem \<Rightarrow> int \<Rightarrow> byte list \<Rightarrow> umem" where
  "ustore um a [] = um"
| "ustore um a (b # bs) = ustore (um(a \<mapsto> b)) (a + 1) bs"

definition copyout :: "umem \<Rightarrow> int \<Rightarrow> byte list \<Rightarrow> umem option" where
  "copyout um a bs = (if umapped um a (length bs) then Some (ustore um a bs) else None)"

lemma ustore_other: "c < a \<or> a + int (length bs) \<le> c \<Longrightarrow> ustore um a bs c = um c"
  by (induction bs arbitrary: um a) auto

lemma copyin_ustore: "copyin (ustore um a bs) a (length bs) = Some bs"
proof (induction bs arbitrary: um a)
  case Nil
  then show ?case by simp
next
  case (Cons b bs)
  have "ustore (um(a \<mapsto> b)) (a + 1) bs a = Some b"
    by (simp add: ustore_other)
  with Cons.IH show ?case by simp
qed

lemma copyin_cong:
  "(\<And>c. a \<le> c \<Longrightarrow> c < a + int n \<Longrightarrow> um' c = um c) \<Longrightarrow> copyin um' a n = copyin um a n"
proof (induction n arbitrary: a)
  case (Suc n)
  have "copyin um' (a + 1) n = copyin um (a + 1) n" by (rule Suc.IH) (rule Suc.prems, simp_all)
  moreover have "um' a = um a" using Suc.prems by simp
  ultimately show ?case by (simp split: option.split)
qed simp

lemma copyin_length: "copyin um a n = Some bs \<Longrightarrow> length bs = n"
  by (induction n arbitrary: a bs) (auto split: option.splits)

lemma copyin_umapped: "copyin um a n = Some bs \<Longrightarrow> umapped um a n"
  by (induction n arbitrary: a bs) (auto split: option.splits)

text \<open>A long in memory: four bytes, most significant first (the 68020's order).\<close>

definition long_bytes :: "int \<Rightarrow> byte list" where
  "long_bytes x =
     [word_of_int (x div 2 ^ 24), word_of_int (x div 2 ^ 16), word_of_int (x div 2 ^ 8), word_of_int x]"

fun bytes_long :: "byte list \<Rightarrow> int" where
  "bytes_long [a, b, c, d] = i32 (uint a * 2 ^ 24 + uint b * 2 ^ 16 + uint c * 2 ^ 8 + uint d)"
| "bytes_long _ = 0"

lemma length_long_bytes [simp]: "length (long_bytes x) = 4"
  by (simp add: long_bytes_def)

lemma uint_word_of_int8: "uint (word_of_int x :: byte) = x mod 256"
  by (simp add: uint_word_of_int)

lemma byte_split:
  fixes x :: int
  shows "(x div 2 ^ 24) mod 256 * 2 ^ 24 + (x div 2 ^ 16) mod 256 * 2 ^ 16
      + (x div 2 ^ 8) mod 256 * 2 ^ 8 + x mod 256 = x mod 2 ^ 32"
proof -
  have "x mod 2 ^ 32 = x mod (2 ^ 24 * 256)" by simp
  also have "\<dots> = 2 ^ 24 * (x div 2 ^ 24 mod 256) + x mod (2 ^ 16 * 256)"
    by (subst zmod_zmult2_eq) simp_all
  also have "x mod (2 ^ 16 * 256) = 2 ^ 16 * (x div 2 ^ 16 mod 256) + x mod (2 ^ 8 * 256)"
    by (subst zmod_zmult2_eq) simp_all
  also have "x mod (2 ^ 8 * 256) = 2 ^ 8 * (x div 2 ^ 8 mod 256) + x mod 256"
    by (subst zmod_zmult2_eq) simp_all
  finally show ?thesis by (simp only: ac_simps)
qed

lemma bytes_long_bytes: "bytes_long (long_bytes x) = i32 x"
proof -
  have "bytes_long (long_bytes x) = i32 (x mod 2 ^ 32)"
    by (simp only: long_bytes_def bytes_long.simps uint_word_of_int8 byte_split)
  also have "\<dots> = i32 x"
    by (simp add: i32_def mod_simps)
  finally show ?thesis .
qed

section \<open>Lists\<close>

lemma takeWhile_stop: "\<not> P z \<Longrightarrow> takeWhile P (xs @ z # zs) = takeWhile P xs"
  by (induction xs) auto

lemma dropWhile_stop: "\<not> P z \<Longrightarrow> dropWhile P (xs @ z # zs) = dropWhile P xs @ z # zs"
  by (induction xs) auto

text \<open>One step of a bounded universal statement over indices.\<close>

lemma all_from_step:
  fixes i :: nat
  shows "(\<forall>j. i \<le> j \<and> P j \<longrightarrow> Q j) = ((P i \<longrightarrow> Q i) \<and> (\<forall>j. Suc i \<le> j \<and> P j \<longrightarrow> Q j))"
  by (metis Suc_leD le_antisym le_refl not_less_eq_eq)

section \<open>Words\<close>

lemma word_nonzero_bit: "(x \<noteq> 0) = (\<exists>n. bit x n)" for x :: "'a::len word"
proof -
  have "(x = 0) = (\<forall>n. \<not> bit x n)"
    by (rule iffI, simp, rule bit_eqI, simp)
  then show ?thesis by blast
qed

end
