(* ===== verification/Rmap.thy ===== *)
theory Rmap
  imports Prelude
begin

text \<open>
  The resource maps of PAGING/os/malloc.c and include/sys/map.h: \<open>malloc\<close> and
  \<open>mfree\<close> over an array of (size, address) slots, the invariant that the live slots are
  sorted, apart and coalesced, the set of free units a map stands for, first fit, completeness
  of the search, and the interface (\<open>resource_map\<close>) its clients rely on.
\<close>

section \<open>The map and its two operations\<close>

record mapent =
  m_size :: int
  m_addr :: int

text \<open>
  \<open>mapsize\<close> and \<open>mapwant\<close> are the two halves of \<open>X[0]\<close>; \<open>slots\<close> is
  \<open>X[1]\<close> and up, the terminator (size 0) and the unused slots behind it included.
\<close>

record rmap =
  mapsize :: int
  mapwant :: int
  slots :: "mapent list"

definition mapzero :: mapent where
  "mapzero = \<lparr>m_size = 0, m_addr = 0\<rparr>"

text \<open>\<open>mapinit(X, Y)\<close> on an array of Y zeroed slots, the header included.\<close>

definition mapinit :: "nat \<Rightarrow> rmap" where
  "mapinit y = \<lparr>mapsize = int y - 2, mapwant = 0, slots = replicate (y - 1) mapzero\<rparr>"

text \<open>
  The loop \<open>do { bp++; (bp-1)->m_addr = bp->m_addr; } while ((bp-1)->m_size = bp->m_size)\<close>
  on the slots from \<open>bp\<close> on.
\<close>

fun shift_down :: "mapent list \<Rightarrow> mapent list" where
  "shift_down (e # f # es) = f # (if m_size f = 0 then f # es else shift_down (f # es))"
| "shift_down es = es"

text \<open>The first-fit loop: the address (0 for none), the slots, and whether a slot was emptied.\<close>

fun malloc_loop :: "int \<Rightarrow> mapent list \<Rightarrow> int \<times> mapent list \<times> bool" where
  "malloc_loop sz [] = (0, [], False)"
| "malloc_loop sz (e # es) =
     (if m_size e = 0 then (0, e # es, False)
      else if m_size e \<ge> sz then
        (let a = m_addr e;
             e' = e\<lparr>m_addr := m_addr e + sz, m_size := m_size e - sz\<rparr>
         in if m_size e' = 0 then (a, shift_down (e' # es), True) else (a, e' # es, False))
      else (case malloc_loop sz es of (a, es', f) \<Rightarrow> (a, e # es', f)))"

definition malloc :: "int \<Rightarrow> rmap \<Rightarrow> int \<times> rmap" where
  "malloc sz mp =
     (if sz \<le> 0 then (0, mp)
      else (case malloc_loop sz (slots mp) of
              (a, es, f) \<Rightarrow>
                (a, mp\<lparr>slots := es, mapsize := mapsize mp + (if f then 1 else 0)\<rparr>)))"

text \<open>The swapping loop that inserts (size, a) and moves the later slots up.\<close>

fun map_insert :: "int \<Rightarrow> int \<Rightarrow> mapent list \<Rightarrow> mapent list" where
  "map_insert a sz [] = []"
| "map_insert a sz (e # es) =
     \<lparr>m_size = sz, m_addr = a\<rparr> #
     (if m_size e = 0 then es else map_insert (m_addr e) (m_size e) es)"

text \<open>\<open>if (mapwant(mp)) { mapwant(mp) = 0; wakeup(mp); }\<close>: the flag says a wakeup was done.\<close>

definition map_wake :: "rmap \<Rightarrow> rmap \<times> bool" where
  "map_wake mp = (if mapwant mp \<noteq> 0 then (mp\<lparr>mapwant := 0\<rparr>, True) else (mp, False))"

definition mfree :: "int \<Rightarrow> int \<Rightarrow> rmap \<Rightarrow> rmap \<times> bool" where
  "mfree sz a mp =
     (if sz \<le> 0 then (mp, False)
      else
        let pre = takeWhile (\<lambda>e. m_addr e \<le> a \<and> m_size e \<noteq> 0) (slots mp);
            rest = dropWhile (\<lambda>e. m_addr e \<le> a \<and> m_size e \<noteq> 0) (slots mp)
        in case rest of
             [] \<Rightarrow> (mp, False)
           | b # bs \<Rightarrow>
               if pre \<noteq> [] \<and> m_addr (last pre) + m_size (last pre) = a then
                 let p = (last pre)\<lparr>m_size := m_size (last pre) + sz\<rparr>
                 in if a + sz = m_addr b then
                      map_wake (mp\<lparr>slots := butlast pre @ p\<lparr>m_size := m_size p + m_size b\<rparr> #
                                     (if m_size b = 0 then rest else shift_down rest),
                                   mapsize := mapsize mp + 1\<rparr>)
                    else map_wake (mp\<lparr>slots := butlast pre @ p # rest\<rparr>)
               else if a + sz = m_addr b \<and> m_size b \<noteq> 0 then
                 map_wake (mp\<lparr>slots := pre @
                   b\<lparr>m_addr := m_addr b - sz, m_size := m_size b + sz\<rparr> # bs\<rparr>)
               else if mapsize mp = 0 then (mp, False)
               else map_wake (mp\<lparr>slots := pre @ map_insert a sz rest,
                                 mapsize := mapsize mp - 1\<rparr>))"

section \<open>Well-formed maps and the units they hold\<close>

definition ent_end :: "mapent \<Rightarrow> int" where
  "ent_end e = m_addr e + m_size e"

text \<open>Live slots: sizes positive, and a gap between each slot and the next (so coalesced).\<close>

fun live_ok :: "int \<Rightarrow> mapent list \<Rightarrow> bool" where
  "live_ok lo [] = True"
| "live_ok lo (e # es) = (lo < m_addr e \<and> 0 < m_size e \<and> live_ok (ent_end e) es)"

fun units_of :: "mapent list \<Rightarrow> int set" where
  "units_of [] = {}"
| "units_of (e # es) = {m_addr e ..< ent_end e} \<union> units_of es"

definition live :: "rmap \<Rightarrow> mapent list" where
  "live mp = takeWhile (\<lambda>e. m_size e \<noteq> 0) (slots mp)"

definition units :: "rmap \<Rightarrow> int set" where
  "units mp = units_of (live mp)"

definition rmap_ok :: "rmap \<Rightarrow> bool" where
  "rmap_ok mp =
     (live_ok 0 (live mp) \<and> 0 \<le> mapsize mp \<and>
      slots mp = live mp @ replicate (Suc (nat (mapsize mp))) mapzero)"

fun last_end :: "int \<Rightarrow> mapent list \<Rightarrow> int" where
  "last_end lo [] = lo"
| "last_end lo (e # es) = last_end (ent_end e) es"

lemma live_ok_append: "live_ok lo (xs @ ys) = (live_ok lo xs \<and> live_ok (last_end lo xs) ys)"
  by (induction xs arbitrary: lo) auto

lemma units_of_append [simp]: "units_of (xs @ ys) = units_of xs \<union> units_of ys"
  by (induction xs) auto

lemma last_end_snoc [simp]: "last_end lo (xs @ [e]) = ent_end e"
  by (induction xs arbitrary: lo) auto

lemma live_ok_weaken: "live_ok lo xs \<Longrightarrow> lo' \<le> lo \<Longrightarrow> live_ok lo' xs"
  by (cases xs) auto

lemma live_ok_sizes: "live_ok lo xs \<Longrightarrow> e \<in> set xs \<Longrightarrow> 0 < m_size e"
  by (induction xs arbitrary: lo) auto

lemma units_of_above: "live_ok lo xs \<Longrightarrow> u \<in> units_of xs \<Longrightarrow> lo < u"
proof (induction xs arbitrary: lo)
  case (Cons e es)
  show ?case
  proof (cases "u \<in> units_of es")
    case True
    with Cons have "ent_end e < u" by simp
    with Cons.prems show ?thesis by (simp add: ent_end_def)
  next
    case False
    with Cons.prems show ?thesis by simp
  qed
qed simp

lemma last_end_ge: "live_ok lo xs \<Longrightarrow> lo \<le> last_end lo xs"
proof (induction xs arbitrary: lo)
  case (Cons e es)
  then have "ent_end e \<le> last_end (ent_end e) es" by simp
  with Cons.prems show ?case by (simp add: ent_end_def)
qed simp

lemma units_of_below: "live_ok lo xs \<Longrightarrow> u \<in> units_of xs \<Longrightarrow> u < last_end lo xs"
proof (induction xs arbitrary: lo)
  case (Cons e es)
  show ?case
  proof (cases "u \<in> units_of es")
    case True
    with Cons show ?thesis by simp
  next
    case False
    with Cons.prems have "u < ent_end e" by simp
    moreover have "ent_end e \<le> last_end (ent_end e) es"
      using Cons.prems by (simp add: last_end_ge)
    ultimately show ?thesis by simp
  qed
qed simp

lemma ent_units: "e \<in> set xs \<Longrightarrow> {m_addr e ..< ent_end e} \<subseteq> units_of xs"
  by (induction xs) auto

text \<open>A run of free units lies inside one slot: what makes a first-fit search complete.\<close>

lemma run_in_slot:
  assumes "live_ok lo xs" "0 < n" "{a ..< a + n} \<subseteq> units_of xs"
  shows "\<exists>e \<in> set xs. m_addr e \<le> a \<and> a + n \<le> ent_end e"
  using assms
proof (induction xs arbitrary: lo)
  case Nil
  then show ?case by auto
next
  case (Cons e es)
  have above: "u \<in> units_of es \<Longrightarrow> ent_end e < u" for u
    using units_of_above [of "ent_end e" es u] Cons.prems(1) by simp
  have "a \<in> {a ..< a + n}" using Cons.prems(2) by simp
  with Cons.prems(3) have a: "a \<in> units_of (e # es)" by blast
  show ?case
  proof (cases "a \<in> {m_addr e ..< ent_end e}")
    case True
    have "a + n \<le> ent_end e"
    proof (rule ccontr)
      assume "\<not> ?thesis"
      with True have "ent_end e \<in> {a ..< a + n}" by simp
      with Cons.prems(3) have "ent_end e \<in> units_of es" by auto
      with above show False by blast
    qed
    with True show ?thesis by auto
  next
    case False
    with a above have "ent_end e < a" by auto
    with Cons.prems(3) have "{a ..< a + n} \<subseteq> units_of es" by fastforce
    with Cons show ?thesis by (meson list.set_intros(2) live_ok.simps(2))
  qed
qed

section \<open>malloc: first fit\<close>

lemma shift_down_live:
  "(\<forall>y \<in> set ys. m_size y \<noteq> 0) \<Longrightarrow>
   shift_down (e # ys @ replicate (Suc n) mapzero) = ys @ replicate (Suc (Suc n)) mapzero"
  by (induction ys arbitrary: e) (auto simp: mapzero_def)

lemma malloc_loop_none:
  "(\<forall>x \<in> set xs. 0 < m_size x \<and> m_size x < sz) \<Longrightarrow> m_size z = 0 \<Longrightarrow>
   malloc_loop sz (xs @ z # zs) = (0, xs @ z # zs, False)"
  by (induction xs) auto

lemma malloc_loop_found:
  "(\<forall>x \<in> set xs. 0 < m_size x \<and> m_size x < sz) \<Longrightarrow> 0 < sz \<Longrightarrow> sz \<le> m_size e \<Longrightarrow>
   malloc_loop sz (xs @ e # es) =
     (m_addr e,
      xs @ (if m_size e = sz then shift_down (e\<lparr>m_addr := m_addr e + sz, m_size := 0\<rparr> # es)
            else e\<lparr>m_addr := m_addr e + sz, m_size := m_size e - sz\<rparr> # es),
      m_size e = sz)"
  by (induction xs) (auto simp: Let_def)

text \<open>The slots of a well-formed map, split at the first slot that is large enough.\<close>

lemma first_fit_split:
  assumes "\<exists>e \<in> set xs. sz \<le> m_size e" and "live_ok lo xs"
  obtains ys e zs where "xs = ys @ e # zs" "sz \<le> m_size e"
    "\<forall>y \<in> set ys. 0 < m_size y \<and> m_size y < sz"
proof -
  from assms(1) obtain ys e zs where *: "xs = ys @ e # zs" "sz \<le> m_size e" "\<forall>y \<in> set ys. \<not> sz \<le> m_size y"
    using split_list_first_prop [of xs "\<lambda>e. sz \<le> m_size e"] by blast
  have "0 < m_size y" if "y \<in> set ys" for y
    using live_ok_sizes [OF assms(2)] that by (simp add: *(1))
  with *(3) have "\<forall>y \<in> set ys. 0 < m_size y \<and> m_size y < sz" by auto
  with * that show thesis by blast
qed

lemma live_append_zero:
  "live_ok lo xs \<Longrightarrow> live (mp\<lparr>slots := xs @ replicate (Suc n) mapzero, mapsize := k\<rparr>) = xs"
  by (auto simp: live_def takeWhile_append mapzero_def dest: live_ok_sizes)

lemma live_append_zero' [simp]:
  "live_ok lo xs \<Longrightarrow> live (mp\<lparr>slots := xs @ mapzero # zs\<rparr>) = xs"
  by (auto simp: live_def takeWhile_append mapzero_def dest: live_ok_sizes)

lemma live_mapsize [simp]: "live (mp\<lparr>mapsize := k\<rparr>) = live mp"
  by (simp add: live_def)

lemma live_mapwant [simp]: "live (mp\<lparr>mapwant := k\<rparr>) = live mp"
  by (simp add: live_def)

text \<open>What a successful \<open>malloc\<close> does to the slots: the two cases of the code.\<close>

definition carve :: "int \<Rightarrow> mapent \<Rightarrow> mapent list" where
  "carve sz e = (if m_size e = sz then []
                 else [e\<lparr>m_addr := m_addr e + sz, m_size := m_size e - sz\<rparr>])"

lemma rmap_okE:
  assumes "rmap_ok mp"
  obtains n where "slots mp = live mp @ replicate (Suc n) mapzero" "mapsize mp = int n" "live_ok 0 (live mp)"
  using assms by (auto simp: rmap_ok_def intro: that [of "nat (mapsize mp)"])

lemma rmap_okI:
  assumes "slots mp = xs @ replicate (Suc n) mapzero" "mapsize mp = int n" "live_ok 0 xs"
  shows "rmap_ok mp" and "live mp = xs"
proof -
  show "live mp = xs"
    using assms by (auto simp: live_def takeWhile_append mapzero_def dest: live_ok_sizes)
  with assms show "rmap_ok mp" by (simp add: rmap_ok_def)
qed

lemma malloc_found:
  assumes "rmap_ok mp" "0 < sz" "live mp = ys @ e # zs" "sz \<le> m_size e"
    and "\<forall>y \<in> set ys. 0 < m_size y \<and> m_size y < sz"
  shows "fst (malloc sz mp) = m_addr e \<and> rmap_ok (snd (malloc sz mp)) \<and>
         live (snd (malloc sz mp)) = ys @ carve sz e @ zs \<and>
         mapwant (snd (malloc sz mp)) = mapwant mp \<and>
         mapsize mp \<le> mapsize (snd (malloc sz mp))"
proof -
  from assms(1) obtain n where s: "slots mp = live mp @ replicate (Suc n) mapzero"
    and n: "mapsize mp = int n" and ok: "live_ok 0 (live mp)" by (rule rmap_okE)
  have zs: "\<forall>y \<in> set zs. m_size y \<noteq> 0"
    using ok assms(3) live_ok_sizes by fastforce
  have loop: "malloc_loop sz (slots mp) =
      (m_addr e, ys @ carve sz e @ zs @ replicate (if m_size e = sz then Suc (Suc n) else Suc n) mapzero,
       m_size e = sz)"
    using malloc_loop_found [OF assms(5) assms(2) assms(4), of "zs @ replicate (Suc n) mapzero"]
    by (simp add: s assms(3) carve_def shift_down_live [OF zs] del: replicate_Suc)
  have okc: "live_ok 0 (ys @ carve sz e @ zs)"
    using ok assms(2,4) by (auto simp: assms(3) live_ok_append carve_def ent_end_def elim: live_ok_weaken)
  have m: "malloc sz mp = (m_addr e, mp\<lparr>slots := (ys @ carve sz e @ zs) @
      replicate (Suc (if m_size e = sz then Suc n else n)) mapzero,
      mapsize := int (if m_size e = sz then Suc n else n)\<rparr>)"
    using assms(2) by (simp add: malloc_def loop n del: replicate_Suc)
  show ?thesis
    using rmap_okI [of "snd (malloc sz mp)" "ys @ carve sz e @ zs"] okc n
    by (simp add: m del: replicate_Suc)
qed

lemma malloc_none:
  assumes "rmap_ok mp" "\<forall>e \<in> set (live mp). m_size e < sz"
  shows "malloc sz mp = (0, mp)"
proof -
  from assms(1) obtain n where s: "slots mp = live mp @ replicate (Suc n) mapzero"
    and ok: "live_ok 0 (live mp)" by (rule rmap_okE)
  have "malloc_loop sz (slots mp) = (0, slots mp, False)" if "0 < sz"
    using malloc_loop_none [of "live mp" sz mapzero "replicate n mapzero"] assms(2) live_ok_sizes [OF ok]
    by (simp add: s mapzero_def)
  then show ?thesis by (cases "sz \<le> 0") (auto simp: malloc_def)
qed

lemma carve_units:
  assumes "live_ok 0 (ys @ e # zs)" "0 < sz" "sz \<le> m_size e"
  shows "units_of (ys @ carve sz e @ zs) = units_of (ys @ e # zs) - {m_addr e ..< m_addr e + sz}"
proof -
  have 1: "u < m_addr e" if "u \<in> units_of ys" for u
    using assms(1) units_of_below [of 0 ys u] that by (auto simp: live_ok_append)
  have 2: "m_addr e + sz \<le> u" if "u \<in> units_of zs" for u
    using assms(1,3) units_of_above [of "ent_end e" zs u] that by (auto simp: live_ok_append ent_end_def)
  show ?thesis
  proof (rule set_eqI)
    fix u
    show "u \<in> units_of (ys @ carve sz e @ zs) \<longleftrightarrow>
          u \<in> units_of (ys @ e # zs) - {m_addr e ..< m_addr e + sz}"
      using 1 [of u] 2 [of u] assms(2,3) by (auto simp: carve_def ent_end_def)
  qed
qed

text \<open>Every call of \<open>malloc\<close> on a well-formed map is one of these two.\<close>

lemma malloc_cases:
  assumes "rmap_ok mp" "0 < sz"
  obtains (none) "malloc sz mp = (0, mp)" "\<forall>e \<in> set (live mp). m_size e < sz"
  | (found) ys e zs where "live mp = ys @ e # zs" "sz \<le> m_size e" "fst (malloc sz mp) = m_addr e"
      "\<forall>y \<in> set ys. 0 < m_size y \<and> m_size y < sz" "rmap_ok (snd (malloc sz mp))"
      "live (snd (malloc sz mp)) = ys @ carve sz e @ zs" "0 < m_addr e"
      "mapsize mp \<le> mapsize (snd (malloc sz mp))" "mapwant (snd (malloc sz mp)) = mapwant mp"
proof (cases "\<exists>e \<in> set (live mp). sz \<le> m_size e")
  case False
  then have "\<forall>e \<in> set (live mp). m_size e < sz" by auto
  with malloc_none [OF assms(1)] none show ?thesis by blast
next
  case True
  from assms(1) have ok: "live_ok 0 (live mp)" by (simp add: rmap_ok_def)
  obtain ys e zs where *: "live mp = ys @ e # zs" "sz \<le> m_size e"
    "\<forall>y \<in> set ys. 0 < m_size y \<and> m_size y < sz"
    using first_fit_split [OF True ok] by blast
  have "0 \<le> last_end 0 ys" "last_end 0 ys < m_addr e"
    using ok last_end_ge [of 0 ys] by (auto simp: * live_ok_append)
  with malloc_found [OF assms *] * found show ?thesis by auto
qed

lemma malloc_units:
  assumes "rmap_ok mp" "0 < sz" "fst (malloc sz mp) \<noteq> 0"
  shows "rmap_ok (snd (malloc sz mp)) \<and>
         {fst (malloc sz mp) ..< fst (malloc sz mp) + sz} \<subseteq> units mp \<and>
         units (snd (malloc sz mp)) = units mp - {fst (malloc sz mp) ..< fst (malloc sz mp) + sz}"
  using assms(1,2)
proof (cases rule: malloc_cases)
  case none
  with assms(3) show ?thesis by simp
next
  case (found ys e zs)
  have "live_ok 0 (ys @ e # zs)" using assms(1) found by (simp add: rmap_ok_def)
  with found assms(2) carve_units [of ys e zs sz] show ?thesis
    by (auto simp: units_def ent_end_def)
qed

lemma malloc_zero:
  assumes "rmap_ok mp" "0 < sz"
  shows "(fst (malloc sz mp) = 0) = (\<nexists>a. {a ..< a + sz} \<subseteq> units mp)"
  using assms
proof (cases rule: malloc_cases)
  case none
  have "\<nexists>a. {a ..< a + sz} \<subseteq> units mp"
  proof
    assume "\<exists>a. {a ..< a + sz} \<subseteq> units mp"
    then obtain a where a: "{a ..< a + sz} \<subseteq> units_of (live mp)" by (auto simp: units_def)
    have "live_ok 0 (live mp)" using assms(1) by (simp add: rmap_ok_def)
    from run_in_slot [OF this assms(2) a] obtain e where
      "e \<in> set (live mp)" "m_addr e \<le> a" "a + sz \<le> ent_end e" by blast
    with none(2) show False by (fastforce simp: ent_end_def)
  qed
  with none show ?thesis by simp
next
  case (found ys e zs)
  then have "fst (malloc sz mp) \<noteq> 0" by simp
  with malloc_units [OF assms] show ?thesis by auto
qed

lemma malloc_zero_same:
  assumes "rmap_ok mp" "fst (malloc sz mp) = 0"
  shows "snd (malloc sz mp) = mp"
proof (cases "0 < sz")
  case True
  from assms(1) True show ?thesis
    by (cases rule: malloc_cases) (use assms in auto)
qed (simp add: malloc_def)

lemma malloc_least:
  assumes "rmap_ok mp" "0 < sz" "fst (malloc sz mp) \<noteq> 0" "{b ..< b + sz} \<subseteq> units mp"
  shows "fst (malloc sz mp) \<le> b"
  using assms(1,2)
proof (cases rule: malloc_cases)
  case none
  with assms(3) show ?thesis by simp
next
  case (found ys e zs)
  have ok: "live_ok 0 (ys @ e # zs)" using assms(1) found by (simp add: rmap_ok_def)
  from run_in_slot [of 0 "live mp" sz b] obtain f where
    f: "f \<in> set (live mp)" "m_addr f \<le> b" "b + sz \<le> ent_end f"
    using assms(2,4) ok found(1) by (auto simp: units_def)
  then have "sz \<le> m_size f" by (simp add: ent_end_def)
  with found(4) have "f \<notin> set ys" by auto
  then consider "f = e" | "f \<in> set zs" using f found(1) by auto
  then show ?thesis
  proof cases
    case 1
    with f found show ?thesis by simp
  next
    case 2
    then have "m_addr f \<in> units_of zs"
      using ok live_ok_sizes [of _ zs f] ent_units [of f zs] by (force simp: live_ok_append ent_end_def)
    then have "ent_end e < m_addr f" using ok units_of_above by (auto simp: live_ok_append)
    moreover have "m_addr e < ent_end e" using ok by (auto simp: live_ok_append ent_end_def)
    ultimately show ?thesis using f found by simp
  qed
qed

section \<open>mfree: sorted insertion with coalescing\<close>

lemma map_insert_live:
  "(\<forall>y \<in> set ys. m_size y \<noteq> 0) \<Longrightarrow>
   map_insert a sz (ys @ mapzero # zs) = \<lparr>m_size = sz, m_addr = a\<rparr> # ys @ zs"
  by (induction ys arbitrary: a sz) (auto simp: mapzero_def)

lemma map_wake_fst [simp]: "fst (map_wake mp) = mp\<lparr>mapwant := 0\<rparr>"
  by (cases mp) (simp add: map_wake_def)

lemma mapwant_live [simp]: "rmap_ok (mp\<lparr>mapwant := w\<rparr>) = rmap_ok mp"
  by (simp add: rmap_ok_def)

text \<open>A free fits between the slots \<open>pre\<close> and \<open>post\<close>: the split the scanning loop finds.\<close>

lemma mfree_split:
  assumes "rmap_ok mp" "0 < sz" "0 < a" "{a ..< a + sz} \<inter> units mp = {}"
  obtains pre post n where
    "live mp = pre @ post" "mapsize mp = int n"
    "takeWhile (\<lambda>e. m_addr e \<le> a \<and> m_size e \<noteq> 0) (slots mp) = pre"
    "dropWhile (\<lambda>e. m_addr e \<le> a \<and> m_size e \<noteq> 0) (slots mp) = post @ mapzero # replicate n mapzero"
    "live_ok 0 pre" "last_end 0 pre \<le> a" "live_ok (a + sz - 1) post" "live_ok (last_end 0 pre) post"
proof -
  let ?P = "\<lambda>e. m_addr e \<le> a \<and> m_size e \<noteq> 0"
  from assms(1) obtain n where s: "slots mp = live mp @ mapzero # replicate n mapzero"
    and n: "mapsize mp = int n" and ok: "live_ok 0 (live mp)" by (auto elim: rmap_okE)
  define pre post where "pre = takeWhile ?P (live mp)" and "post = dropWhile ?P (live mp)"
  have l: "live mp = pre @ post" by (simp add: pre_def post_def)
  have z: "\<not> ?P mapzero" by (simp add: mapzero_def)
  have 1: "takeWhile ?P (slots mp) = pre"
    unfolding s pre_def by (rule takeWhile_stop) (rule z)
  have 2: "dropWhile ?P (slots mp) = post @ mapzero # replicate n mapzero"
    unfolding s post_def by (rule dropWhile_stop) (rule z)
  have okp: "live_ok 0 pre" and okq: "live_ok (last_end 0 pre) post"
    using ok by (simp_all add: l live_ok_append)
  have free: "u \<notin> {a ..< a + sz}" if "u \<in> units_of (live mp)" for u
    using assms(4) that by (auto simp: units_def)
  have 3: "last_end 0 pre \<le> a"
  proof (cases pre rule: rev_cases)
    case Nil
    with assms(3) show ?thesis by simp
  next
    case (snoc ps q)
    then have "q \<in> set pre" by simp
    then have "m_addr q \<le> a" by (auto simp: pre_def dest: set_takeWhileD)
    moreover have "{m_addr q ..< ent_end q} \<subseteq> units_of (live mp)"
      using snoc by (auto simp: l)
    ultimately have "\<not> a < ent_end q"
      using free [of a] assms(2) by auto
    with snoc show ?thesis by simp
  qed
  have 4: "live_ok (a + sz - 1) post"
  proof (cases post)
    case (Cons q qs)
    then have "\<not> ?P q" using hd_dropWhile [of ?P "live mp"] by (simp add: post_def [symmetric])
    moreover have "0 < m_size q" using okq Cons by simp
    ultimately have "a < m_addr q" by simp
    moreover have "m_addr q \<in> units_of (live mp)"
      using Cons \<open>0 < m_size q\<close> by (simp add: l ent_end_def)
    ultimately have "a + sz \<le> m_addr q" using free [of "m_addr q"] by auto
    with okq Cons show ?thesis by simp
  qed simp
  show thesis using that [OF l n 1 2 okp 3 4 okq] .
qed

text \<open>Whether a free can be recorded: a slot to spare, or a neighbour to merge with.\<close>

definition map_room :: "rmap \<Rightarrow> int \<Rightarrow> int \<Rightarrow> bool" where
  "map_room mp sz a =
     (0 < mapsize mp \<or> (\<exists>e \<in> set (live mp). ent_end e = a \<or> m_addr e = a + sz))"

lemma last_end_last: "xs \<noteq> [] \<Longrightarrow> last_end lo xs = ent_end (last xs)"
  by (induction xs arbitrary: lo) auto

lemma live_ok_join:
  "live_ok 0 pre \<Longrightarrow> last_end 0 pre < m_addr e \<Longrightarrow> 0 < m_size e \<Longrightarrow> live_ok (ent_end e) post \<Longrightarrow>
   live_ok 0 (pre @ e # post)"
  by (simp add: live_ok_append)

lemma mfree_low_merge:
  assumes "slots mp = s0" "live_ok 0 (ps @ [q])" "ent_end q = a" "0 < sz"
    and "live_ok (a + sz - 1) post" "mapsize mp = int n"
    and tw: "takeWhile (\<lambda>e. m_addr e \<le> a \<and> m_size e \<noteq> 0) (slots mp) = ps @ [q]"
    and dw: "dropWhile (\<lambda>e. m_addr e \<le> a \<and> m_size e \<noteq> 0) (slots mp) = post @ mapzero # replicate n mapzero"
    and "0 < a"
  shows "rmap_ok (fst (mfree sz a mp)) \<and>
         units_of (live (fst (mfree sz a mp))) = units_of (ps @ [q]) \<union> {a ..< a + sz} \<union> units_of post"
proof (cases "\<exists>r rs. post = r # rs \<and> m_addr r = a + sz")
  case True
  then obtain r rs where r: "post = r # rs" "m_addr r = a + sz" by blast
  with assms have rpos: "0 < m_size r" by simp
  have rs: "\<forall>y \<in> set rs. m_size y \<noteq> 0"
    using assms(5) r live_ok_sizes by fastforce
  let ?q = "q\<lparr>m_size := m_size q + sz + m_size r\<rparr>"
  have sd: "shift_down (r # rs @ mapzero # replicate n mapzero) = rs @ replicate (Suc (Suc n)) mapzero"
    using shift_down_live [OF rs, of r n] by simp
  have m: "fst (mfree sz a mp) = mp\<lparr>slots := (ps @ ?q # rs) @ replicate (Suc (Suc n)) mapzero,
      mapsize := int (Suc n), mapwant := 0\<rparr>"
    using assms(3,4,6) rpos
    by (simp add: mfree_def tw dw r sd ent_end_def del: replicate_Suc)
  have "live_ok 0 (ps @ ?q # rs)"
    using assms(2-5) r by (auto simp: live_ok_append ent_end_def add.assoc)
  from rmap_okI [OF _ _ this, of "fst (mfree sz a mp)" "Suc n"]
  have "rmap_ok (fst (mfree sz a mp))" "live (fst (mfree sz a mp)) = ps @ ?q # rs"
    by (simp_all add: m del: replicate_Suc)
  then show ?thesis
    using assms(2-4) r rpos by (auto simp: ent_end_def live_ok_append)
next
  case False
  let ?q = "q\<lparr>m_size := m_size q + sz\<rparr>"
  have "a + sz \<noteq> m_addr (hd (post @ [mapzero]))"
    using False assms(4,9) by (cases post) (auto simp: mapzero_def)
  then have m: "fst (mfree sz a mp) = mp\<lparr>slots := (ps @ ?q # post) @ replicate (Suc n) mapzero, mapwant := 0\<rparr>"
    using assms(3,4) by (cases post) (simp_all add: mfree_def tw dw ent_end_def)
  have "live_ok (a + sz) post"
    using assms(5) False by (cases post) auto
  then have "live_ok 0 (ps @ ?q # post)"
    using assms(2-4) by (auto simp: live_ok_append ent_end_def add.assoc)
  from rmap_okI [OF _ _ this, of "fst (mfree sz a mp)" n]
  have "rmap_ok (fst (mfree sz a mp))" "live (fst (mfree sz a mp)) = ps @ ?q # post"
    by (simp_all add: m assms(6) del: replicate_Suc)
  then show ?thesis
    using assms(2-4) by (auto simp: ent_end_def live_ok_append)
qed

lemma mfree_no_low:
  assumes ok: "live_ok 0 pre" "last_end 0 pre < a" "live_ok (a + sz - 1) post" "0 < sz" "0 < a"
    and l: "slots mp = pre @ post @ mapzero # replicate n mapzero" and n: "mapsize mp = int n"
    and tw: "takeWhile (\<lambda>e. m_addr e \<le> a \<and> m_size e \<noteq> 0) (slots mp) = pre"
    and dw: "dropWhile (\<lambda>e. m_addr e \<le> a \<and> m_size e \<noteq> 0) (slots mp) = post @ mapzero # replicate n mapzero"
    and room: "0 < n \<or> (\<exists>r rs. post = r # rs \<and> m_addr r = a + sz)"
  shows "rmap_ok (fst (mfree sz a mp)) \<and>
         units_of (live (fst (mfree sz a mp))) = units_of pre \<union> {a ..< a + sz} \<union> units_of post"
proof -
  have nolow: "\<not> (pre \<noteq> [] \<and> m_addr (last pre) + m_size (last pre) = a)"
    using ok(2) last_end_last [of pre 0] by (auto simp: ent_end_def)
  have posz: "\<forall>y \<in> set post. m_size y \<noteq> 0" using ok(3) live_ok_sizes by fastforce
  show ?thesis
  proof (cases "\<exists>r rs. post = r # rs \<and> m_addr r = a + sz")
    case True
    then obtain r rs where r: "post = r # rs" "m_addr r = a + sz" by blast
    let ?r = "r\<lparr>m_addr := m_addr r - sz, m_size := m_size r + sz\<rparr>"
    have m: "fst (mfree sz a mp) = mp\<lparr>slots := (pre @ ?r # rs) @ replicate (Suc n) mapzero, mapwant := 0\<rparr>"
      using r posz nolow ok(4) by (simp add: mfree_def tw dw Let_def del: de_Morgan_conj)
    have "live_ok 0 (pre @ ?r # rs)"
      using ok r by (intro live_ok_join) (auto simp: ent_end_def ac_simps)
    from rmap_okI [OF _ _ this, of "fst (mfree sz a mp)" n]
    have "rmap_ok (fst (mfree sz a mp))" "live (fst (mfree sz a mp)) = pre @ ?r # rs"
      by (simp_all add: m n del: replicate_Suc)
    then show ?thesis
      using ok r posz by (auto simp: ent_end_def)
  next
    case False
    with room obtain k where k: "n = Suc k" using gr0_implies_Suc by blast
    let ?e = "\<lparr>m_size = sz, m_addr = a\<rparr>"
    have nohigh: "a + sz \<noteq> m_addr (hd (post @ [mapzero])) \<or> m_size (hd (post @ [mapzero])) = 0"
      using False by (cases post) (auto simp: mapzero_def)
    have m: "fst (mfree sz a mp) = mp\<lparr>slots := (pre @ ?e # post) @ replicate (Suc k) mapzero, mapsize := int k, mapwant := 0\<rparr>"
      using nolow nohigh ok(4) map_insert_live [OF posz, of a sz "replicate n mapzero"] n k
      by (cases post) (auto simp: mfree_def tw dw Let_def simp del: map_insert.simps)
    have "live_ok (a + sz) post"
      using ok(3) False by (cases post) auto
    then have "live_ok 0 (pre @ ?e # post)"
      using ok by (intro live_ok_join) (auto simp: ent_end_def)
    from rmap_okI [OF _ _ this, of "fst (mfree sz a mp)" k]
    have "rmap_ok (fst (mfree sz a mp))" "live (fst (mfree sz a mp)) = pre @ ?e # post"
      by (simp_all add: m del: replicate_Suc)
    then show ?thesis by (auto simp: ent_end_def)
  qed
qed

lemma live_ok_bounds: "live_ok lo xs \<Longrightarrow> e \<in> set xs \<Longrightarrow> lo < m_addr e \<and> ent_end e \<le> last_end lo xs"
proof (induction xs arbitrary: lo)
  case (Cons x xs)
  show ?case
  proof (cases "e = x")
    case True
    with Cons.prems last_end_ge [of "ent_end x" xs] show ?thesis by simp
  next
    case False
    with Cons have "ent_end x < m_addr e \<and> ent_end e \<le> last_end (ent_end x) xs" by simp
    with Cons.prems(1) show ?thesis by (auto simp: ent_end_def)
  qed
qed simp

lemma mfree_room:
  assumes "rmap_ok mp" "0 < sz" "0 < a" "{a ..< a + sz} \<inter> units mp = {}" "map_room mp sz a"
  shows "rmap_ok (fst (mfree sz a mp)) \<and> units (fst (mfree sz a mp)) = units mp \<union> {a ..< a + sz}"
proof -
  obtain pre post n where
    l: "live mp = pre @ post" and n: "mapsize mp = int n" and
    tw: "takeWhile (\<lambda>e. m_addr e \<le> a \<and> m_size e \<noteq> 0) (slots mp) = pre" and
    dw: "dropWhile (\<lambda>e. m_addr e \<le> a \<and> m_size e \<noteq> 0) (slots mp) = post @ mapzero # replicate n mapzero" and
    ok: "live_ok 0 pre" "last_end 0 pre \<le> a" "live_ok (a + sz - 1) post" "live_ok (last_end 0 pre) post"
    by (rule mfree_split [OF assms(1-4)])
  have s: "slots mp = pre @ post @ mapzero # replicate n mapzero"
    using takeWhile_dropWhile_id [of "\<lambda>e. m_addr e \<le> a \<and> m_size e \<noteq> 0" "slots mp"]
    by (simp only: tw dw)
  have "rmap_ok (fst (mfree sz a mp)) \<and>
        units_of (live (fst (mfree sz a mp))) = units_of pre \<union> {a ..< a + sz} \<union> units_of post"
  proof (cases "last_end 0 pre = a")
    case True
    with assms(3) obtain ps q where pq: "pre = ps @ [q]"
      by (cases pre rule: rev_cases) auto
    with True have "ent_end q = a" by simp
    with mfree_low_merge [OF refl, of ps q a sz post mp n] ok n tw dw pq assms(2,3) show ?thesis
      by simp
  next
    case False
    with ok(2) have lt: "last_end 0 pre < a" by simp
    have "0 < n \<or> (\<exists>r rs. post = r # rs \<and> m_addr r = a + sz)"
    proof (rule disjCI)
      assume no: "\<nexists>r rs. post = r # rs \<and> m_addr r = a + sz"
      have "\<not> (ent_end e = a \<or> m_addr e = a + sz)" if "e \<in> set pre" for e
        using live_ok_bounds [OF ok(1) that] live_ok_sizes [OF ok(1) that] lt assms(2)
        by (auto simp: ent_end_def)
      moreover have "\<not> (ent_end e = a \<or> m_addr e = a + sz)" if "e \<in> set post" for e
      proof -
        have "live_ok (a + sz) post" using ok(3) no by (cases post) auto
        from live_ok_bounds [OF this that] live_ok_sizes [OF this that] assms(2)
        show ?thesis by (auto simp: ent_end_def)
      qed
      ultimately show "0 < n"
        using assms(5) n by (auto simp: map_room_def l)
    qed
    with mfree_no_low [OF ok(1) lt ok(3) assms(2,3) s n tw dw] show ?thesis .
  qed
  then show ?thesis by (auto simp: units_def l)
qed

lemma mfree_lost:
  assumes "rmap_ok mp" "0 < sz" "0 < a" "{a ..< a + sz} \<inter> units mp = {}" "\<not> map_room mp sz a"
  shows "mfree sz a mp = (mp, False)"
proof -
  obtain pre post n where
    l: "live mp = pre @ post" and n: "mapsize mp = int n" and
    tw: "takeWhile (\<lambda>e. m_addr e \<le> a \<and> m_size e \<noteq> 0) (slots mp) = pre" and
    dw: "dropWhile (\<lambda>e. m_addr e \<le> a \<and> m_size e \<noteq> 0) (slots mp) = post @ mapzero # replicate n mapzero"
    by (rule mfree_split [OF assms(1-4)])
  have "pre \<noteq> [] \<Longrightarrow> m_addr (last pre) + m_size (last pre) \<noteq> a"
    using assms(5) by (auto simp: map_room_def l ent_end_def)
  moreover have "\<not> (a + sz = m_addr (hd (post @ [mapzero])) \<and> m_size (hd (post @ [mapzero])) \<noteq> 0)"
    using assms(5) by (cases post) (auto simp: map_room_def l mapzero_def)
  moreover have "mapsize mp = 0"
    using assms(5) n by (auto simp: map_room_def)
  ultimately show ?thesis
    using assms(2) by (cases post) (auto simp: mfree_def tw dw Let_def)
qed

lemma mfree_ok:
  assumes "rmap_ok mp" "0 < a" "{a ..< a + sz} \<inter> units mp = {}"
  shows "rmap_ok (fst (mfree sz a mp))" and "units (fst (mfree sz a mp)) \<subseteq> units mp \<union> {a ..< a + sz}"
proof -
  have "rmap_ok (fst (mfree sz a mp)) \<and> units (fst (mfree sz a mp)) \<subseteq> units mp \<union> {a ..< a + sz}"
  proof (cases "0 < sz")
    case True
    with assms mfree_room mfree_lost show ?thesis by (cases "map_room mp sz a") auto
  next
    case False
    with assms show ?thesis by (simp add: mfree_def)
  qed
  then show "rmap_ok (fst (mfree sz a mp))" "units (fst (mfree sz a mp)) \<subseteq> units mp \<union> {a ..< a + sz}"
    by simp_all
qed

section \<open>The representation is canonical\<close>

lemma units_of_nonempty: "live_ok lo (x # xs) \<Longrightarrow> m_addr x \<in> units_of (x # xs)"
  by (simp add: ent_end_def)

lemma units_of_hd_le: "live_ok lo (x # xs) \<Longrightarrow> u \<in> units_of (x # xs) \<Longrightarrow> m_addr x \<le> u"
  using units_of_above [of "ent_end x" xs u] by (auto simp: ent_end_def)

lemma ent_end_gap: "live_ok lo (x # xs) \<Longrightarrow> ent_end x \<notin> units_of (x # xs)"
  using units_of_above [of "ent_end x" xs "ent_end x"] by auto

lemma ent_end_le:
  assumes "live_ok lo (x # xs)" "live_ok lo (y # ys)" "units_of (x # xs) = units_of (y # ys)" "m_addr x = m_addr y"
  shows "ent_end y \<le> ent_end x"
proof (rule ccontr)
  assume "\<not> ?thesis"
  then have "ent_end x \<in> units_of (y # ys)"
    using assms(1,4) by (auto simp: ent_end_def)
  with ent_end_gap [OF assms(1)] show False unfolding assms(3) by contradiction
qed

lemma live_unique:
  "live_ok lo xs \<Longrightarrow> live_ok lo ys \<Longrightarrow> units_of xs = units_of ys \<Longrightarrow> xs = ys"
proof (induction xs arbitrary: lo ys)
  case Nil
  then show ?case by (cases ys) (use units_of_nonempty in force)+
next
  case (Cons x xs)
  then obtain y ys' where y: "ys = y # ys'"
    by (cases ys) (use units_of_nonempty [of lo x xs] in auto)
  have "m_addr y \<le> m_addr x" "m_addr x \<le> m_addr y"
    using units_of_hd_le units_of_nonempty Cons.prems unfolding y by metis+
  then have a: "m_addr x = m_addr y" by simp
  have e: "ent_end x = ent_end y"
    using ent_end_le [of lo x xs y ys'] ent_end_le [of lo y ys' x xs] a Cons.prems unfolding y by fastforce
  with a have xy: "x = y" by (cases x, cases y) (simp add: ent_end_def)
  have sub: "units_of zs = units_of (x # zs) - {m_addr x ..< ent_end x}" if "live_ok lo (x # zs)" for zs
    using that units_of_above [of "ent_end x" zs] by fastforce
  have "units_of xs = units_of ys'"
    using sub [of xs] sub [of ys'] Cons.prems unfolding y xy by simp
  with Cons.IH [of "ent_end x" ys'] Cons.prems xy y show ?case by simp
qed

lemma length_shift_down [simp]: "length (shift_down es) = length es"
  by (induction es rule: shift_down.induct) auto

lemma length_map_insert [simp]: "length (map_insert a sz es) = length es"
  by (induction es arbitrary: a sz) auto

lemma length_malloc_loop: "malloc_loop sz es = (a, es', f) \<Longrightarrow> length es' = length es"
  by (induction es arbitrary: a es' f) (auto simp: Let_def split: if_splits prod.splits)

lemma length_malloc: "length (slots (snd (malloc sz mp))) = length (slots mp)"
  by (auto simp: malloc_def dest: length_malloc_loop split: prod.splits)

lemma length_mfree: "length (slots (fst (mfree sz a mp))) = length (slots mp)"
proof -
  let ?P = "\<lambda>e. m_addr e \<le> a \<and> m_size e \<noteq> 0"
  obtain pre rest where tw: "takeWhile ?P (slots mp) = pre" and dw: "dropWhile ?P (slots mp) = rest"
    by blast
  have l: "length (slots mp) = length pre + length rest"
    using tw dw by (metis length_append takeWhile_dropWhile_id)
  show ?thesis
    by (cases pre rule: rev_cases; cases rest) (use l in \<open>simp_all add: mfree_def tw dw Let_def\<close>)
qed

lemma rmap_ok_capacity: "rmap_ok mp \<Longrightarrow> mapsize mp = int (length (slots mp)) - int (length (live mp)) - 1"
  by (elim rmap_okE) (metis add_diff_cancel_left' diff_diff_eq length_append length_replicate of_nat_Suc of_nat_add)

lemma rmap_eqI:
  assumes "rmap_ok m" "rmap_ok m'" "units m = units m'" "length (slots m) = length (slots m')"
  shows "m\<lparr>mapwant := w\<rparr> = m'\<lparr>mapwant := w\<rparr>"
proof -
  have l: "live m = live m'"
    using assms live_unique [of 0 "live m" "live m'"] by (simp add: rmap_ok_def units_def)
  then have n: "mapsize m = mapsize m'"
    using assms rmap_ok_capacity by simp
  from assms(1,2) l n have "slots m = slots m'"
    by (metis rmap_ok_def)
  with n show ?thesis by (cases m, cases m') simp
qed

section \<open>What the clients of a map rely on\<close>

text \<open>
  A ledger says which units each client object holds: no held unit is free, and no unit is held
  twice. The message pool (one holder per message header) and the semaphore table (one per
  semaphore set) are clients.
\<close>

definition ledger :: "int set \<Rightarrow> ('i \<Rightarrow> int set) \<Rightarrow> bool" where
  "ledger fr h = ((\<forall>i. h i \<inter> fr = {}) \<and> (\<forall>i j. i \<noteq> j \<longrightarrow> h i \<inter> h j = {}))"

lemma ledger_shrink: "ledger fr h \<Longrightarrow> fr' \<subseteq> fr \<Longrightarrow> ledger fr' h"
  by (auto simp: ledger_def)

lemma ledger_drop: "ledger fr h \<Longrightarrow> ledger fr (h(i := {}))"
  by (simp add: ledger_def)

locale resource_map =
  fixes alloc :: "int \<Rightarrow> 'm \<Rightarrow> int \<times> 'm"
    and release :: "int \<Rightarrow> int \<Rightarrow> 'm \<Rightarrow> 'm \<times> bool"
    and free_units :: "'m \<Rightarrow> int set"
    and okm :: "'m \<Rightarrow> bool"
  assumes alloc_units: "\<lbrakk>okm m; 0 < n; fst (alloc n m) \<noteq> 0\<rbrakk> \<Longrightarrow>
      okm (snd (alloc n m)) \<and> {fst (alloc n m) ..< fst (alloc n m) + n} \<subseteq> free_units m \<and>
      free_units (snd (alloc n m)) = free_units m - {fst (alloc n m) ..< fst (alloc n m) + n}"
    and alloc_none: "\<lbrakk>okm m; fst (alloc n m) = 0\<rbrakk> \<Longrightarrow> snd (alloc n m) = m"
    and release_ok: "\<lbrakk>okm m; 0 < a; {a ..< a + n} \<inter> free_units m = {}\<rbrakk> \<Longrightarrow>
      okm (fst (release n a m)) \<and> free_units (fst (release n a m)) \<subseteq> free_units m \<union> {a ..< a + n}"
    and free_pos: "\<lbrakk>okm m; u \<in> free_units m\<rbrakk> \<Longrightarrow> 0 < u"
begin

lemma alloc_ok: "okm m \<Longrightarrow> 0 < n \<Longrightarrow> okm (snd (alloc n m))"
  using alloc_units [of m n] alloc_none [of m n] by metis

lemma alloc_positive: "okm m \<Longrightarrow> 0 < n \<Longrightarrow> fst (alloc n m) \<noteq> 0 \<Longrightarrow> 0 < fst (alloc n m)"
  using alloc_units [of m n] free_pos [of m "fst (alloc n m)"] by (simp add: subset_iff)

lemma alloc_run:
  "okm m \<Longrightarrow> 0 < n \<Longrightarrow> fst (alloc n m) \<noteq> 0 \<Longrightarrow>
   free_units (snd (alloc n m)) \<union> {fst (alloc n m) ..< fst (alloc n m) + n} \<subseteq> free_units m"
  using alloc_units [of m n] by auto

lemma alloc_shrinks: "okm m \<Longrightarrow> 0 < n \<Longrightarrow> free_units (snd (alloc n m)) \<subseteq> free_units m"
  using alloc_units [of m n] alloc_none [of m n] by (cases "fst (alloc n m) = 0") auto

lemma ledger_alloc:
  assumes "okm m" "0 < n" "fst (alloc n m) \<noteq> 0" "ledger (free_units m) h" "h i = {}"
  shows "ledger (free_units (snd (alloc n m))) (h(i := {fst (alloc n m) ..< fst (alloc n m) + n}))"
proof -
  have "{fst (alloc n m) ..< fst (alloc n m) + n} \<inter> h j = {}" for j
  proof -
    have "h j \<inter> free_units m = {}" using assms(4) by (simp add: ledger_def)
    with alloc_units [OF assms(1-3)] show ?thesis by blast
  qed
  with assms(4) alloc_units [OF assms(1-3)] show ?thesis
    by (auto simp: ledger_def)
qed

lemma ledger_release:
  assumes "okm m" "0 < a" "ledger (free_units m) h" "h i = {a ..< a + n}"
  shows "okm (fst (release n a m)) \<and> ledger (free_units (fst (release n a m))) (h(i := {}))"
proof -
  have "{a ..< a + n} \<inter> free_units m = {}"
    using assms(3,4) by (auto simp: ledger_def)
  from release_ok [OF assms(1,2) this]
  have ok: "okm (fst (release n a m))"
    and sub: "free_units (fst (release n a m)) \<subseteq> free_units m \<union> {a ..< a + n}" by simp_all
  have "h j \<inter> free_units (fst (release n a m)) = {}" if "j \<noteq> i" for j
  proof -
    have "h j \<inter> h i = {}" "h j \<inter> free_units m = {}" using assms(3) that by (auto simp: ledger_def)
    with sub assms(4) show ?thesis by blast
  qed
  with ok assms(3) show ?thesis by (simp add: ledger_def)
qed

end

lemma units_positive: "rmap_ok mp \<Longrightarrow> u \<in> units mp \<Longrightarrow> 0 < u"
  using units_of_above [of 0 "live mp" u] by (simp add: rmap_ok_def units_def)

interpretation rm: resource_map malloc mfree units rmap_ok
proof unfold_locales
  fix m :: rmap and n
  assume "rmap_ok m" "0 < n" "fst (malloc n m) \<noteq> 0"
  then show "rmap_ok (snd (malloc n m)) \<and> {fst (malloc n m) ..< fst (malloc n m) + n} \<subseteq> units m \<and>
      units (snd (malloc n m)) = units m - {fst (malloc n m) ..< fst (malloc n m) + n}"
    by (rule malloc_units)
qed (use malloc_zero_same mfree_ok units_positive in \<open>simp_all\<close>)

section \<open>Properties\<close>

lemma map_room_after_malloc:
  assumes "rmap_ok mp" "0 < sz" "fst (malloc sz mp) \<noteq> 0"
  shows "map_room (snd (malloc sz mp)) sz (fst (malloc sz mp))"
  using assms(1,2)
proof (cases rule: malloc_cases)
  case none
  with assms(3) show ?thesis by simp
next
  case (found ys e zs)
  show ?thesis
  proof (cases "m_size e = sz")
    case True
    have "rmap_ok mp" by fact
    then have "mapsize (snd (malloc sz mp)) = mapsize mp + 1"
      using rmap_ok_capacity [of mp] rmap_ok_capacity [of "snd (malloc sz mp)"] found True
      by (simp add: length_malloc carve_def)
    moreover have "0 \<le> mapsize mp" using assms(1) by (simp add: rmap_ok_def)
    ultimately show ?thesis by (simp add: map_room_def)
  next
    case False
    with found show ?thesis by (auto simp: map_room_def carve_def)
  qed
qed

text \<open>
  C21: an allocation from a well-formed map takes a run of units that were all free, removes
  exactly that run from the free units, and leaves the map sorted, coalesced and terminated.
\<close>

theorem malloc_takes_free_run:
  assumes "rmap_ok mp" "0 < sz" "fst (malloc sz mp) \<noteq> 0"
  shows "rmap_ok (snd (malloc sz mp)) \<and>
         {fst (malloc sz mp) ..< fst (malloc sz mp) + sz} \<subseteq> units mp \<and>
         units (snd (malloc sz mp)) = units mp - {fst (malloc sz mp) ..< fst (malloc sz mp) + sz}"
  by (rule malloc_units [OF assms])

text \<open>The map a fresh \<open>mapinit\<close> of y slots leaves after the first \<open>mfree\<close> of n units at 1.\<close>

definition fresh_map :: "nat \<Rightarrow> int \<Rightarrow> rmap" where
  "fresh_map y n = fst (mfree n 1 (mapinit y))"

lemma mapinit_ok: "2 \<le> y \<Longrightarrow> rmap_ok (mapinit y) \<and> units (mapinit y) = {}"
  by (cases y; cases "y - 1") (auto simp: mapinit_def rmap_ok_def live_def units_def mapzero_def)

lemma fresh_map_ok: "3 \<le> y \<Longrightarrow> 0 < n \<Longrightarrow> rmap_ok (fresh_map y n) \<and> units (fresh_map y n) = {1 ..< 1 + n}"
  using mfree_room [of "mapinit y" n 1] mapinit_ok [of y]
  by (simp add: fresh_map_def map_room_def mapinit_def)

theorem malloc_takes_free_run_witness:
  "rmap_ok (fresh_map 4 8) \<and> fst (malloc 3 (fresh_map 4 8)) = 1 \<and>
   units (snd (malloc 3 (fresh_map 4 8))) = units (fresh_map 4 8) - {1 ..< 1 + 3}"
proof -
  have v: "fst (malloc 3 (fresh_map 4 8)) = 1" by code_simp
  have "rmap_ok (fresh_map 4 8)" using fresh_map_ok [of 4 8] by simp
  from malloc_takes_free_run [OF this, of 3] v this show ?thesis by simp
qed

text \<open>
  C29: the first-fit search is complete and takes the lowest address. \<open>malloc\<close> answers 0
  exactly when no run of the requested length is free, and then leaves the map alone. Otherwise
  its address starts a free run of that length, no smaller address starts one, and exactly that
  run leaves the free units.
\<close>

theorem malloc_complete_first_fit:
  assumes "rmap_ok mp" "0 < sz"
  shows "(fst (malloc sz mp) = 0) = (\<nexists>a. {a ..< a + sz} \<subseteq> units mp) \<and>
    (if fst (malloc sz mp) = 0 then snd (malloc sz mp) = mp
     else {fst (malloc sz mp) ..< fst (malloc sz mp) + sz} \<subseteq> units mp \<and>
       (\<nexists>b. b < fst (malloc sz mp) \<and> {b ..< b + sz} \<subseteq> units mp) \<and>
       units (snd (malloc sz mp)) = units mp - {fst (malloc sz mp) ..< fst (malloc sz mp) + sz})"
proof (cases "fst (malloc sz mp) = 0")
  case True
  then show ?thesis using malloc_zero [OF assms] malloc_zero_same [OF assms(1)] by simp
next
  case False
  have "\<nexists>b. b < fst (malloc sz mp) \<and> {b ..< b + sz} \<subseteq> units mp"
    using malloc_least [OF assms] False by (meson not_le)
  then show ?thesis using False malloc_zero [OF assms] malloc_units [OF assms False] by simp
qed

theorem malloc_complete_first_fit_witness:
  "fst (malloc 9 (fresh_map 4 8)) = 0 \<and> (\<nexists>a. {a ..< a + 9} \<subseteq> units (fresh_map 4 8)) \<and>
   snd (malloc 9 (fresh_map 4 8)) = fresh_map 4 8 \<and> fst (malloc 3 (fresh_map 4 8)) = 1 \<and>
   units (snd (malloc 3 (fresh_map 4 8))) = units (fresh_map 4 8) - {1 ..< 1 + 3}"
proof -
  have v: "fst (malloc 9 (fresh_map 4 8)) = 0" "fst (malloc 3 (fresh_map 4 8)) = 1" by code_simp+
  have "rmap_ok (fresh_map 4 8)" using fresh_map_ok [of 4 8] by simp
  from malloc_complete_first_fit [OF this, of 9] malloc_complete_first_fit [OF this, of 3] v show ?thesis by simp
qed

text \<open>
  C26: freeing a run that is not free adds exactly that run to the free units and keeps the map
  well formed, whenever a slot is left or a neighbour takes the run; otherwise the map is
  unchanged and the units are lost, as the warning \<open>mfree\<close> prints says.
\<close>

theorem mfree_returns_units:
  assumes "rmap_ok mp" "0 < sz" "0 < a" "{a ..< a + sz} \<inter> units mp = {}"
  shows "rmap_ok (fst (mfree sz a mp)) \<and>
         units (fst (mfree sz a mp)) = (if map_room mp sz a then units mp \<union> {a ..< a + sz} else units mp)"
  using mfree_room [OF assms] mfree_lost [OF assms] assms(1) by auto

theorem mfree_returns_units_witness:
  "rmap_ok (fst (mfree 2 20 (fresh_map 4 8))) \<and>
   units (fst (mfree 2 20 (fresh_map 4 8))) = units (fresh_map 4 8) \<union> {20 ..< 22}"
proof -
  have m: "rmap_ok (fresh_map 4 8)" and u: "units (fresh_map 4 8) = {1 ..< 9}"
    using fresh_map_ok [of 4 8] by simp_all
  have "mapsize (fresh_map 4 8) = 1" by code_simp
  then have "map_room (fresh_map 4 8) 2 20" by (simp add: map_room_def)
  with mfree_returns_units [OF m, of 2 20] u show ?thesis by simp
qed

text \<open>
  Freeing what was just allocated gives back the very same map, slot for slot and with the
  same number of spare slots; only the want flag is cleared.
\<close>

theorem malloc_mfree_restores:
  assumes "rmap_ok mp" "0 < sz" "fst (malloc sz mp) \<noteq> 0"
  shows "(fst (mfree sz (fst (malloc sz mp)) (snd (malloc sz mp))))\<lparr>mapwant := 0\<rparr> = mp\<lparr>mapwant := 0\<rparr>"
proof -
  let ?a = "fst (malloc sz mp)" and ?m = "snd (malloc sz mp)"
  have m: "rmap_ok ?m" "{?a ..< ?a + sz} \<subseteq> units mp" "units ?m = units mp - {?a ..< ?a + sz}"
    using malloc_units [OF assms] by simp_all
  have "0 < ?a" using rm.alloc_positive [OF assms] .
  with m mfree_room [of ?m sz ?a] map_room_after_malloc [OF assms] assms(2)
  have "rmap_ok (fst (mfree sz ?a ?m))" "units (fst (mfree sz ?a ?m)) = units mp" by auto
  then show ?thesis
    using assms(1) by (intro rmap_eqI) (simp_all add: length_mfree length_malloc)
qed

theorem malloc_mfree_restores_witness:
  "fst (malloc 3 (fresh_map 4 8)) = 1 \<and>
   (fst (mfree 3 1 (snd (malloc 3 (fresh_map 4 8)))))\<lparr>mapwant := 0\<rparr> = (fresh_map 4 8)\<lparr>mapwant := 0\<rparr>"
proof -
  have v: "fst (malloc 3 (fresh_map 4 8)) = 1" by code_simp
  have "rmap_ok (fresh_map 4 8)" using fresh_map_ok [of 4 8] by simp
  from malloc_mfree_restores [OF this, of 3] v show ?thesis by simp
qed

end
