(* ===== verification/Ipc.thy ===== *)
theory Ipc
  imports Prelude
begin

text \<open>
  The routines the three System V facilities share (PAGING/os/ipc.c, include/sys/ipc.h): the
  permission check \<open>ipcaccess\<close>, the search for a key or a free slot \<open>ipcget\<close>, and the
  contract between an identifier, its slot and the slot's sequence number, stated once as the
  locale \<open>ipc_class\<close> and interpreted by messages and semaphores.
\<close>

section \<open>The permission structure and its bits\<close>

record ipc_perm =
  p_uid :: int
  p_gid :: int
  p_cuid :: int
  p_cgid :: int
  p_mode :: "16 word"
  p_seq :: int
  p_key :: int

abbreviation (input) IPC_ALLOC :: "16 word" where "IPC_ALLOC \<equiv> 0x8000"
abbreviation (input) IPC_CREAT :: "32 word" where "IPC_CREAT \<equiv> 0x200"
abbreviation (input) IPC_EXCL :: "32 word" where "IPC_EXCL \<equiv> 0x400"
abbreviation (input) IPC_NOWAIT :: "32 word" where "IPC_NOWAIT \<equiv> 0x800"
abbreviation (input) IPC_PRIVATE :: int where "IPC_PRIVATE \<equiv> 0"

definition ipc_alloc :: "ipc_perm \<Rightarrow> bool" where
  "ipc_alloc p = (p_mode p AND IPC_ALLOC \<noteq> 0)"

section \<open>ipcaccess\<close>

text \<open>\<open>None\<close> is the answer 0, access granted; the error is what is left in \<open>u.u_error\<close>.\<close>

definition ipcaccess :: "user \<Rightarrow> ipc_perm \<Rightarrow> 16 word \<Rightarrow> errno option" where
  "ipcaccess u p md =
     (if u_uid u = 0 then None
      else
        let md1 = (if u_uid u \<noteq> p_uid p \<and> u_uid u \<noteq> p_cuid p
                   then (if u_gid u \<noteq> p_gid p \<and> u_gid u \<noteq> p_cgid p
                         then drop_bit 3 (drop_bit 3 md) else drop_bit 3 md)
                   else md)
        in if md1 AND p_mode p \<noteq> 0 then None else Some EACCES)"

section \<open>ipcget\<close>

text \<open>
  \<open>ipcfcn(i, &base)\<close> answers true exactly for the slots below the facility's table size
  \<open>n\<close>, so the two search loops run over \<open>i < n\<close>.
\<close>

function ipc_free_slot :: "(nat \<Rightarrow> ipc_perm) \<Rightarrow> nat \<Rightarrow> nat \<Rightarrow> nat option" where
  "ipc_free_slot tbl n i =
     (if i < n then (if ipc_alloc (tbl i) then ipc_free_slot tbl n (Suc i) else Some i) else None)"
  by pat_completeness auto
termination
  by (relation "measure (\<lambda>(tbl, n, i). n - i)") auto

text \<open>The key loop: the slot that holds the key, if any, and the first free slot seen before it.\<close>

function ipc_key_slot :: "(nat \<Rightarrow> ipc_perm) \<Rightarrow> nat \<Rightarrow> int \<Rightarrow> nat \<Rightarrow> nat option \<Rightarrow> nat option \<times> nat option" where
  "ipc_key_slot tbl n k i a =
     (if i < n then
        (if ipc_alloc (tbl i) then
           (if p_key (tbl i) = k then (Some i, a) else ipc_key_slot tbl n k (Suc i) a)
         else ipc_key_slot tbl n k (Suc i) (case a of None \<Rightarrow> Some i | Some j \<Rightarrow> Some j))
      else (None, a))"
  by pat_completeness auto
termination
  by (relation "measure (\<lambda>(tbl, n, k, i, a). n - i)") auto

declare ipc_free_slot.simps [simp del] ipc_key_slot.simps [simp del]

text \<open>The entry as the code at \<open>init\<close> leaves it: ids are stored in unsigned shorts.\<close>

definition ipc_init :: "user \<Rightarrow> int \<Rightarrow> 32 word \<Rightarrow> ipc_perm \<Rightarrow> ipc_perm" where
  "ipc_init u k fl p =
     p\<lparr>p_mode := IPC_ALLOC OR ucast (fl AND 0x1FF), p_key := k,
       p_cuid := u16 (u_uid u), p_uid := u16 (u_uid u),
       p_cgid := u16 (u_gid u), p_gid := u16 (u_gid u)\<rparr>"

text \<open>
  The result is the status (true for a new entry), the slot, and the entry to store there.
\<close>

definition ipcget :: "user \<Rightarrow> int \<Rightarrow> 32 word \<Rightarrow> (nat \<Rightarrow> ipc_perm) \<Rightarrow> nat \<Rightarrow> errno + bool \<times> nat \<times> ipc_perm" where
  "ipcget u k fl tbl n =
     (if k = IPC_PRIVATE then
        (case ipc_free_slot tbl n 0 of
           None \<Rightarrow> Inl ENOSPC
         | Some i \<Rightarrow> Inr (True, i, ipc_init u k fl (tbl i)))
      else
        (case ipc_key_slot tbl n k 0 None of
           (Some i, a) \<Rightarrow>
             if fl AND (IPC_CREAT OR IPC_EXCL) = IPC_CREAT OR IPC_EXCL then Inl EEXIST
             else if (fl AND 0x1FF) AND NOT (ucast (p_mode (tbl i))) \<noteq> 0 then Inl EACCES
             else Inr (False, i, tbl i)
         | (None, a) \<Rightarrow>
             if fl AND IPC_CREAT = 0 then Inl ENOENT
             else (case a of
                     None \<Rightarrow> Inl ENOSPC
                   | Some i \<Rightarrow> Inr (True, i, ipc_init u k fl (tbl i)))))"

section \<open>The searches\<close>

definition least_free :: "(nat \<Rightarrow> ipc_perm) \<Rightarrow> nat \<Rightarrow> nat \<Rightarrow> nat \<Rightarrow> bool" where
  "least_free tbl n i j = (i \<le> j \<and> j < n \<and> \<not> ipc_alloc (tbl j) \<and> (\<forall>k. i \<le> k \<and> k < j \<longrightarrow> ipc_alloc (tbl k)))"

lemma ipc_free_slot_spec:
  "(case ipc_free_slot tbl n i of
      None \<Rightarrow> \<forall>j. i \<le> j \<and> j < n \<longrightarrow> ipc_alloc (tbl j)
    | Some j \<Rightarrow> least_free tbl n i j)"
proof (induction tbl n i rule: ipc_free_slot.induct)
  case (1 tbl n i)
  show ?case
  proof (cases "i < n \<and> ipc_alloc (tbl i)")
    case True
    with "1.IH" have "case ipc_free_slot tbl n (Suc i) of
        None \<Rightarrow> \<forall>j. Suc i \<le> j \<and> j < n \<longrightarrow> ipc_alloc (tbl j) | Some j \<Rightarrow> least_free tbl n (Suc i) j" by simp
    with True show ?thesis
      by (auto simp: ipc_free_slot.simps [of tbl n i] least_free_def all_from_step [of i] split: option.splits)
  next
    case False
    then show ?thesis by (auto simp: ipc_free_slot.simps [of tbl n i] least_free_def)
  qed
qed

text \<open>The key search: the lowest slot with the key, and the running first free slot.\<close>

definition least_key :: "(nat \<Rightarrow> ipc_perm) \<Rightarrow> nat \<Rightarrow> int \<Rightarrow> nat \<Rightarrow> nat \<Rightarrow> bool" where
  "least_key tbl n k i j = (i \<le> j \<and> j < n \<and> ipc_alloc (tbl j) \<and> p_key (tbl j) = k \<and>
     (\<forall>l. i \<le> l \<and> l < j \<longrightarrow> \<not> (ipc_alloc (tbl l) \<and> p_key (tbl l) = k)))"

lemma least_key_step:
  "least_key tbl n k (Suc i) j \<Longrightarrow> \<not> (ipc_alloc (tbl i) \<and> p_key (tbl i) = k) \<Longrightarrow> least_key tbl n k i j"
  unfolding least_key_def by (metis Suc_leD le_antisym not_less_eq_eq)

lemma ipc_key_slot_found:
  "fst (ipc_key_slot tbl n k i a) = Some j \<Longrightarrow> least_key tbl n k i j"
proof (induction tbl n k i a rule: ipc_key_slot.induct)
  case (1 tbl n k i a)
  show ?case
  proof (cases "i < n \<and> ipc_alloc (tbl i) \<and> p_key (tbl i) = k")
    case True
    then have "j = i" using "1.prems" by (subst (asm) ipc_key_slot.simps) auto
    then show ?thesis using True by (auto simp: least_key_def)
  next
    case False
    have n: "i < n" using "1.prems" by (subst (asm) ipc_key_slot.simps) (auto split: if_splits)
    have "least_key tbl n k (Suc i) j"
    proof (cases "ipc_alloc (tbl i)")
      case al: True
      with False n have k: "p_key (tbl i) \<noteq> k" by simp
      have "ipc_key_slot tbl n k i a = ipc_key_slot tbl n k (Suc i) a" by (subst ipc_key_slot.simps) (simp add: n al k)
      then show ?thesis using "1.prems" by (intro "1.IH"(1) [OF n al k]) simp
    next
      case fr: False
      let ?a = "case a of None \<Rightarrow> Some i | Some j \<Rightarrow> Some j"
      have "ipc_key_slot tbl n k i a = ipc_key_slot tbl n k (Suc i) ?a" by (subst ipc_key_slot.simps) (simp add: n fr)
      then show ?thesis using "1.prems" by (intro "1.IH"(2) [OF n fr]) simp
    qed
    then show ?thesis using False n least_key_step [of tbl n k i j] by blast
  qed
qed

lemma ipc_key_slot_none:
  "fst (ipc_key_slot tbl n k i a) = None \<Longrightarrow>
   (\<forall>j. i \<le> j \<and> j < n \<and> ipc_alloc (tbl j) \<longrightarrow> p_key (tbl j) \<noteq> k) \<and>
   (case a of Some b \<Rightarrow> snd (ipc_key_slot tbl n k i a) = Some b
    | None \<Rightarrow> snd (ipc_key_slot tbl n k i a) = ipc_free_slot tbl n i)"
proof (induction tbl n k i a rule: ipc_key_slot.induct)
  case (1 tbl n k i a)
  show ?case
  proof (cases "i < n")
    case False
    then show ?thesis
      by (auto simp: ipc_key_slot.simps [of tbl n k i] ipc_free_slot.simps [of tbl n i] split: option.splits)
  next
    case True
    show ?thesis
    proof (cases "ipc_alloc (tbl i)")
      case alloc: True
      with True "1.prems" have nk: "p_key (tbl i) \<noteq> k"
        and eq: "ipc_key_slot tbl n k i a = ipc_key_slot tbl n k (Suc i) a"
        by (auto simp: ipc_key_slot.simps [of tbl n k i a] split: if_splits)
      have fs: "ipc_free_slot tbl n i = ipc_free_slot tbl n (Suc i)"
        using True alloc by (simp add: ipc_free_slot.simps [of tbl n i])
      from "1.IH"(1) [OF True alloc nk] "1.prems" show ?thesis
        unfolding eq fs using nk alloc by (simp add: conj_assoc all_from_step [of i])
    next
      case free: False
      let ?a = "case a of None \<Rightarrow> Some i | Some j \<Rightarrow> Some j"
      have eq: "ipc_key_slot tbl n k i a = ipc_key_slot tbl n k (Suc i) ?a"
        using True free by (simp add: ipc_key_slot.simps [of tbl n k i a])
      have fs: "ipc_free_slot tbl n i = Some i"
        using True free by (simp add: ipc_free_slot.simps [of tbl n i])
      from "1.IH"(2) [OF True free] "1.prems" show ?thesis
        unfolding eq fs using free by (cases a) (simp_all add: conj_assoc all_from_step [of i])
    qed
  qed
qed

section \<open>Identifiers: slot, sequence number, and staleness\<close>

text \<open>
  \<open>msgconv\<close>, \<open>semconv\<close> and \<open>shmconv\<close> are the same test on three tables, and the three
  get calls return the same \<open>seq * n + slot\<close>. The locale states what they have in common.
\<close>

locale ipc_class =
  fixes nslots :: "'s \<Rightarrow> int"
    and perm :: "'s \<Rightarrow> nat \<Rightarrow> ipc_perm"
    and conv :: "'s \<Rightarrow> int \<Rightarrow> errno + nat"
    and mkid :: "'s \<Rightarrow> nat \<Rightarrow> int"
    and okc :: "'s \<Rightarrow> bool"
  assumes slots_range: "okc s \<Longrightarrow> 0 < nslots s \<and> nslots s \<le> 32768"
    and seq_range: "okc s \<Longrightarrow> int i < nslots s \<Longrightarrow> 0 \<le> p_seq (perm s i) \<and> p_seq (perm s i) < 65536"
    and conv_law: "okc s \<Longrightarrow> conv s d =
        (if d < 0 then Inl EINVAL
         else if \<not> ipc_alloc (perm s (nat (d mod nslots s))) \<or> d div nslots s \<noteq> p_seq (perm s (nat (d mod nslots s)))
         then Inl EINVAL else Inr (nat (d mod nslots s)))"
    and mkid_law: "okc s \<Longrightarrow> mkid s i = i32 (p_seq (perm s i) * nslots s + int i)"
begin

lemma mkid_eq:
  assumes "okc s" "int i < nslots s"
  shows "mkid s i = p_seq (perm s i) * nslots s + int i"
proof -
  have r: "0 < nslots s" "nslots s \<le> 32768" "0 \<le> p_seq (perm s i)" "p_seq (perm s i) \<le> 65535"
    using slots_range [OF assms(1)] seq_range [OF assms] by simp_all
  have "p_seq (perm s i) * nslots s \<le> 65535 * 32768"
    using r by (intro mult_mono) simp_all
  moreover have "0 \<le> p_seq (perm s i) * nslots s" using r by simp
  ultimately have "0 \<le> p_seq (perm s i) * nslots s + int i"
    "p_seq (perm s i) * nslots s + int i < 2147483648"
    using assms(2) r by linarith+
  then show ?thesis
    using mkid_law [OF assms(1), of i] by (simp add: i32_id)
qed

lemma conv_mkid:
  assumes "okc s" "int i < nslots s" "ipc_alloc (perm s i)"
  shows "conv s (mkid s i) = Inr i"
proof -
  have r: "0 < nslots s" "0 \<le> p_seq (perm s i)"
    using slots_range [OF assms(1)] seq_range [OF assms(1,2)] by simp_all
  have "(p_seq (perm s i) * nslots s + int i) mod nslots s = int i"
    "(p_seq (perm s i) * nslots s + int i) div nslots s = p_seq (perm s i)"
    using r assms(2) by (simp_all add: mod_pos_pos_trivial)
  moreover have "0 \<le> p_seq (perm s i) * nslots s + int i" using r by simp
  ultimately show ?thesis
    using conv_law [OF assms(1), of "mkid s i"] mkid_eq [OF assms(1,2)] assms(3) by simp
qed

lemma conv_slot:
  assumes "okc s" "conv s d = Inr i"
  shows "int i < nslots s" and "ipc_alloc (perm s i)" and "d = mkid s i"
proof -
  have n: "0 < nslots s" using slots_range [OF assms(1)] by simp
  from assms conv_law [OF assms(1), of d] have d: "0 \<le> d" "ipc_alloc (perm s i)"
    "i = nat (d mod nslots s)" "d div nslots s = p_seq (perm s i)"
    by (auto split: if_splits)
  then have i: "int i = d mod nslots s" using n by simp
  then show "int i < nslots s" using n by simp
  with mkid_eq [OF assms(1)] d(4) i show "d = mkid s i"
    by (metis div_mult_mod_eq)
  show "ipc_alloc (perm s i)" by fact
qed

lemma conv_stale:
  assumes "okc s" "okc s'" "nslots s' = nslots s" "conv s d = Inr i"
    and "p_seq (perm s' i) \<noteq> p_seq (perm s i) \<or> \<not> ipc_alloc (perm s' i)"
  shows "conv s' d = Inl EINVAL"
proof -
  from assms(4) conv_law [OF assms(1), of d] have
    "i = nat (d mod nslots s)" "d div nslots s = p_seq (perm s i)"
    by (auto split: if_splits)
  with assms(5) conv_law [OF assms(2), of d] assms(3) show ?thesis by auto
qed

end

section \<open>Properties\<close>

lemma single_bit_and: "r < 16 \<Longrightarrow> (2 ^ r AND m \<noteq> (0 :: 16 word)) = bit m r"
  by (auto simp: word_nonzero_bit bit_simps)

lemma drop_single_bit: "3 \<le> r \<Longrightarrow> r < 16 \<Longrightarrow> drop_bit 3 (2 ^ r :: 16 word) = 2 ^ (r - 3)"
  by (intro bit_word_eqI) (auto simp: bit_simps)

lemma ipcaccess_bit:
  assumes "6 \<le> r" "r < 9"
  shows "(ipcaccess u p (2 ^ r) = None) =
     (u_uid u = 0 \<or>
      bit (p_mode p) (if u_uid u = p_uid p \<or> u_uid u = p_cuid p then r
                      else if u_gid u = p_gid p \<or> u_gid u = p_cgid p then r - 3 else r - 6))"
proof -
  have "drop_bit 3 (drop_bit 3 (2 ^ r)) = (2 ^ (r - 6) :: 16 word)"
    using assms drop_single_bit [of r] drop_single_bit [of "r - 3"] by simp
  then show ?thesis
    using assms drop_single_bit [of r]
    by (simp add: ipcaccess_def single_bit_and Let_def)
qed

text \<open>
  For one access bit (0400 read is bit 8, 0200 write or alter is bit 7), the super-user always
  passes, the owner and the creator are judged by the owner bit alone, a member of either group
  by the group bit alone, everyone else by the bit for others.
\<close>

theorem ipcaccess_classes:
  assumes "6 \<le> r" "r < 9"
  shows "(ipcaccess u p (2 ^ r) = None) =
     (u_uid u = 0 \<or>
      bit (p_mode p) (if u_uid u = p_uid p \<or> u_uid u = p_cuid p then r
                      else if u_gid u = p_gid p \<or> u_gid u = p_cgid p then r - 3 else r - 6))"
  by (rule ipcaccess_bit [OF assms])

theorem ipcaccess_classes_witness:
  "ipcaccess \<lparr>u_uid = 7, u_gid = 3, u_pid = 1, u_proc = 0\<rparr>
     \<lparr>p_uid = 5, p_gid = 3, p_cuid = 5, p_cgid = 3, p_mode = 0x8020, p_seq = 0, p_key = 1\<rparr> (2 ^ 8) = None"
  by (subst ipcaccess_classes) (simp_all add: bit_simps)

definition keys_unique :: "(nat \<Rightarrow> ipc_perm) \<Rightarrow> nat \<Rightarrow> bool" where
  "keys_unique tbl n = (\<forall>i j. i < n \<and> j < n \<and> i \<noteq> j \<and> ipc_alloc (tbl i) \<and> ipc_alloc (tbl j) \<and>
     p_key (tbl i) = p_key (tbl j) \<longrightarrow> p_key (tbl i) = IPC_PRIVATE)"

definition key_absent :: "(nat \<Rightarrow> ipc_perm) \<Rightarrow> nat \<Rightarrow> int \<Rightarrow> bool" where
  "key_absent tbl n k = (\<forall>j<n. ipc_alloc (tbl j) \<longrightarrow> p_key (tbl j) \<noteq> k)"

definition all_taken :: "(nat \<Rightarrow> ipc_perm) \<Rightarrow> nat \<Rightarrow> bool" where
  "all_taken tbl n = (\<forall>j<n. ipc_alloc (tbl j))"

definition ipcget_post :: "user \<Rightarrow> int \<Rightarrow> 32 word \<Rightarrow> (nat \<Rightarrow> ipc_perm) \<Rightarrow> nat \<Rightarrow> errno + bool \<times> nat \<times> ipc_perm \<Rightarrow> bool" where
  "ipcget_post u k fl tbl n r =
     (case r of
        Inr (False, i, p) \<Rightarrow> k \<noteq> IPC_PRIVATE \<and> least_key tbl n k 0 i \<and> p = tbl i \<and>
          fl AND (IPC_CREAT OR IPC_EXCL) \<noteq> IPC_CREAT OR IPC_EXCL \<and> (fl AND 0x1FF) AND NOT (ucast (p_mode p)) = 0
      | Inr (True, i, p) \<Rightarrow> least_free tbl n 0 i \<and> p = ipc_init u k fl (tbl i) \<and> ipc_alloc p \<and>
          (k = IPC_PRIVATE \<or> key_absent tbl n k \<and> fl AND IPC_CREAT \<noteq> 0)
      | Inl e \<Rightarrow> e = ENOSPC \<and> all_taken tbl n \<and> (k = IPC_PRIVATE \<or> key_absent tbl n k \<and> fl AND IPC_CREAT \<noteq> 0) \<or>
          e = ENOENT \<and> k \<noteq> IPC_PRIVATE \<and> key_absent tbl n k \<and> fl AND IPC_CREAT = 0 \<or>
          e = EEXIST \<and> k \<noteq> IPC_PRIVATE \<and> \<not> key_absent tbl n k \<and>
            fl AND (IPC_CREAT OR IPC_EXCL) = IPC_CREAT OR IPC_EXCL \<or>
          e = EACCES \<and> k \<noteq> IPC_PRIVATE \<and> fl AND (IPC_CREAT OR IPC_EXCL) \<noteq> IPC_CREAT OR IPC_EXCL \<and>
            (\<exists>j. least_key tbl n k 0 j \<and> (fl AND 0x1FF) AND NOT (ucast (p_mode (tbl j))) \<noteq> 0))"

lemma ipc_init_alloc: "ipc_alloc (ipc_init u k fl p)"
proof -
  have "bit (p_mode (ipc_init u k fl p) AND IPC_ALLOC) 15"
    by (simp add: ipc_init_def bit_simps)
  then show ?thesis unfolding ipc_alloc_def by (metis bit_0_eq bot_apply bot_bool_def)
qed

lemma ipc_init_key [simp]: "p_key (ipc_init u k fl p) = k"
  by (simp add: ipc_init_def)

lemma ipcget_ans: "ipcget_post u k fl tbl n (ipcget u k fl tbl n)"
proof (cases "k = IPC_PRIVATE")
  case True
  then show ?thesis
    using ipc_free_slot_spec [where tbl = tbl and n = n and i = 0]
    by (auto simp: ipcget_def ipcget_post_def all_taken_def ipc_init_alloc split: option.splits)
next
  case False
  obtain m a where r: "ipc_key_slot tbl n k 0 None = (m, a)" by (cases "ipc_key_slot tbl n k 0 None")
  show ?thesis
  proof (cases m)
    case None
    with ipc_key_slot_none [of tbl n k 0 None] r
    have "key_absent tbl n k" "a = ipc_free_slot tbl n 0" by (auto simp: key_absent_def)
    with ipc_free_slot_spec [where tbl = tbl and n = n and i = 0] False r None show ?thesis
      by (auto simp: ipcget_def ipcget_post_def all_taken_def ipc_init_alloc split: option.splits)
  next
    case (Some i)
    with ipc_key_slot_found [of tbl n k 0 None i] r
    have l: "least_key tbl n k 0 i" by simp
    then have "\<not> key_absent tbl n k" by (auto simp: least_key_def key_absent_def)
    with False r Some l show ?thesis
      by (auto simp: ipcget_def ipcget_post_def)
  qed
qed

lemma ipcget_post_slot: "ipcget_post u k fl tbl n (Inr (st, i, p)) \<Longrightarrow> i < n \<and> ipc_alloc p \<and> p_key p = k"
  by (cases st) (simp_all add: ipcget_post_def least_key_def least_free_def ipc_init_alloc)

text \<open>The description admits one answer only.\<close>

lemma least_free_unique: "least_free tbl n i j \<Longrightarrow> least_free tbl n i j' \<Longrightarrow> j = j'"
  unfolding least_free_def by (metis linorder_neqE_nat)

lemma least_key_unique: "least_key tbl n k i j \<Longrightarrow> least_key tbl n k i j' \<Longrightarrow> j = j'"
  unfolding least_key_def by (metis linorder_neqE_nat)

lemma least_free_taken: "least_free tbl n 0 j \<Longrightarrow> \<not> all_taken tbl n"
  by (auto simp: least_free_def all_taken_def)

lemma least_key_present: "least_key tbl n k 0 j \<Longrightarrow> \<not> key_absent tbl n k"
  by (auto simp: least_key_def key_absent_def)

lemma ipcget_post_unique:
  assumes a: "ipcget_post u k fl tbl n r" and b: "ipcget_post u k fl tbl n r'"
  shows "r = r'"
proof (cases r)
  case (Inl e)
  with a b show ?thesis
    by (cases r') (auto simp: ipcget_post_def split: bool.splits dest: least_key_unique least_free_taken least_key_present)
next
  case (Inr x)
  obtain st i p where x: "x = (st, i, p)" by (cases x) auto
  with a b Inr show ?thesis
    by (cases r'; cases st)
      (auto simp: ipcget_post_def split: bool.splits
        dest: least_key_unique least_free_unique least_free_taken least_key_present)
qed

text \<open>
  C33: the answer of \<open>ipcget\<close> is \<open>r\<close> exactly when \<open>r\<close> is the answer its description allows. The lowest
  slot with the key is returned unchanged when creation was not exclusive and the requested bits are
  within its mode; a new entry takes the lowest free slot, for a private key or for a key no slot
  holds with creation asked for; EEXIST, EACCES, ENOENT and ENOSPC each have their own cause, so a key
  that is absent without creation is ENOENT also when the table is full.
\<close>

theorem ipcget_outcome: "(ipcget u k fl tbl n = r) = ipcget_post u k fl tbl n r"
  using ipcget_ans [of u k fl tbl n] ipcget_post_unique by blast

text \<open>
  No two slots ever hold the same key, private ones apart: storing the entry \<open>ipcget\<close> returns
  keeps keys unique.
\<close>

theorem ipcget_keys_unique:
  assumes "keys_unique tbl n" "ipcget u k fl tbl n = Inr (st, i, p)"
  shows "keys_unique (tbl(i := p)) n"
proof -
  have post: "ipcget_post u k fl tbl n (Inr (st, i, p))"
    using ipcget_ans [of u k fl tbl n] assms(2) by simp
  show ?thesis
  proof (cases st)
    case False
    with post have "p = tbl i" by (simp add: ipcget_post_def)
    then have "tbl(i := p) = tbl" by simp
    with assms(1) show ?thesis by simp
  next
    case True
    with post have k: "p_key p = k" "k = IPC_PRIVATE \<or> key_absent tbl n k"
      by (auto simp: ipcget_post_def)
    with assms(1) show ?thesis
      unfolding keys_unique_def key_absent_def by (auto simp del: not_gr_zero)
  qed
qed

theorem ipcget_keys_unique_witness:
  "keys_unique ((\<lambda>i. \<lparr>p_uid = 0, p_gid = 0, p_cuid = 0, p_cgid = 0, p_mode = 0, p_seq = 0, p_key = 9\<rparr>)
     (0 := ipc_init \<lparr>u_uid = 1, u_gid = 1, u_pid = 1, u_proc = 0\<rparr> 9 0x3B0
        \<lparr>p_uid = 0, p_gid = 0, p_cuid = 0, p_cgid = 0, p_mode = 0, p_seq = 0, p_key = 9\<rparr>)) 2"
proof -
  let ?t = "\<lambda>i::nat. \<lparr>p_uid = 0, p_gid = 0, p_cuid = 0, p_cgid = 0, p_mode = 0, p_seq = 0, p_key = 9\<rparr>"
  let ?u = "\<lparr>u_uid = 1, u_gid = 1, u_pid = 1, u_proc = 0\<rparr>"
  have "keys_unique ?t 2" by (simp add: keys_unique_def ipc_alloc_def)
  moreover have "ipcget ?u 9 0x3B0 ?t 2 = Inr (True, 0, ipc_init ?u 9 0x3B0 (?t 0))"
    by (simp add: ipcget_def ipc_key_slot.simps ipc_alloc_def)
  ultimately show ?thesis by (rule ipcget_keys_unique)
qed

text \<open>
  Ids are compared across types. The user id is a signed short, the entry's an unsigned one, so
  a process whose user id is negative is never the owner of the entry it has just created: with the
  mode limited to the owner it is refused its own queue, set or segment.
\<close>

theorem ipc_negative_owner:
  assumes "- 32768 \<le> u_uid u" "u_uid u < 0" "fl AND 0x3F = 0" "r = 7 \<or> r = 8"
  shows "ipcaccess u (ipc_init u k fl p) (2 ^ r) = Some EACCES"
proof -
  have ne: "u_uid u \<noteq> u16 (u_uid u)" using assms(2) u16_range [of "u_uid u"] by linarith
  have "\<not> bit fl i" if "i < 6" for i
  proof -
    have "bit (0x3F :: 32 word) i" using that by (auto simp: bit_simps less_Suc_eq numeral_eq_Suc)
    then show ?thesis using assms(3) by (metis bit_and_iff bit_0_eq bot_apply bot_bool_def)
  qed
  then have "\<not> bit (p_mode (ipc_init u k fl p)) (r - 3)" "\<not> bit (p_mode (ipc_init u k fl p)) (r - 6)"
    using assms(4) by (auto simp: ipc_init_def bit_simps)
  with ipcaccess_bit [of r u "ipc_init u k fl p"] assms ne show ?thesis
    by (cases "ipcaccess u (ipc_init u k fl p) (2 ^ r)") (auto simp: ipc_init_def ipcaccess_def split: if_splits)
qed

theorem ipc_negative_owner_witness:
  "ipcaccess \<lparr>u_uid = - 2, u_gid = 3, u_pid = 1, u_proc = 0\<rparr>
     (ipc_init \<lparr>u_uid = - 2, u_gid = 3, u_pid = 1, u_proc = 0\<rparr> 9 0x380
        \<lparr>p_uid = 0, p_gid = 0, p_cuid = 0, p_cgid = 0, p_mode = 0, p_seq = 0, p_key = 0\<rparr>) (2 ^ 8) = Some EACCES"
  by (rule ipc_negative_owner) simp_all

end
