(* ===== verification/Msg.thy ===== *)
theory Msg
  imports Rmap Ipc
begin

text \<open>
  System V message queues (PAGING/os/msg.c, include/sys/msg.h): the header table with its free
  list and its queues as pointer chains, the text pool carved up by the resource map, the four
  system calls with each \<open>sleep\<close> of this file as the end of a step (a copy of user memory does not
  sleep, see Prelude) and each wakeup as its own entry, the
  invariant that ties chains, counters and pool together, and the refinement to queues of
  (type, text) pairs.
\<close>

section \<open>The tables\<close>

record msqid_ds =
  msg_perm :: ipc_perm
  msg_first :: "nat option"
  msg_last :: "nat option"
  msg_cbytes :: int
  msg_qnum :: int
  msg_qbytes :: int
  msg_lspid :: int
  msg_lrpid :: int
  msg_stime :: int
  msg_rtime :: int
  msg_ctime :: int

record msg =
  msg_next :: "nat option"
  msg_type :: int
  msg_ts :: int
  msg_spot :: int

record msginfo =
  mi_map :: nat
  msgmax :: int
  msgmnb :: int
  msgmni :: int
  msgssz :: int
  msgtql :: nat
  msgseg :: int

text \<open>
  The sleep channels of this file: \<open>qp\<close>, \<open>&qp->msg_qnum\<close>, \<open>&msgfp\<close> and \<open>msgmap\<close>.
\<close>

datatype mchan = ChQ nat | ChQnum nat | ChFp | ChMap

text \<open>
  A pointer to a queue slot or to a message header is its index; \<open>msgpool\<close> is the text buffer
  at \<open>msg\<close>; \<open>msgnow\<close> is \<open>time.tv_sec\<close>; \<open>mwakes\<close> lists the wakeups done.
\<close>

record msgsys =
  mi :: msginfo
  msgque :: "nat \<Rightarrow> msqid_ds"
  msgh :: "nat \<Rightarrow> msg"
  msgfp :: "nat option"
  msgmap :: rmap
  msgpool :: "int \<Rightarrow> byte"
  msgnow :: int
  mwakes :: "mchan list"

abbreviation (input) MSG_R :: "16 word" where "MSG_R \<equiv> 0x100"
abbreviation (input) MSG_W :: "16 word" where "MSG_W \<equiv> 0x80"
abbreviation (input) MSG_RWAIT :: "16 word" where "MSG_RWAIT \<equiv> 0x200"
abbreviation (input) MSG_WWAIT :: "16 word" where "MSG_WWAIT \<equiv> 0x400"
abbreviation (input) MSG_NOERROR :: "32 word" where "MSG_NOERROR \<equiv> 0x1000"

definition btoq :: "msgsys \<Rightarrow> int \<Rightarrow> int" where
  "btoq s x = (x + msgssz (mi s) - 1) div msgssz (mi s)"

definition upd_q :: "nat \<Rightarrow> (msqid_ds \<Rightarrow> msqid_ds) \<Rightarrow> msgsys \<Rightarrow> msgsys" where
  "upd_q q f s = s\<lparr>msgque := (msgque s)(q := f (msgque s q))\<rparr>"

definition upd_h :: "nat \<Rightarrow> (msg \<Rightarrow> msg) \<Rightarrow> msgsys \<Rightarrow> msgsys" where
  "upd_h m f s = s\<lparr>msgh := (msgh s)(m := f (msgh s m))\<rparr>"

definition mwake :: "mchan \<Rightarrow> msgsys \<Rightarrow> msgsys" where
  "mwake c s = s\<lparr>mwakes := c # mwakes s\<rparr>"

definition set_mode :: "16 word \<Rightarrow> msqid_ds \<Rightarrow> msqid_ds" where
  "set_mode w q = q\<lparr>msg_perm := (msg_perm q)\<lparr>p_mode := w\<rparr>\<rparr>"

definition q_mode :: "msgsys \<Rightarrow> nat \<Rightarrow> 16 word" where
  "q_mode s q = p_mode (msg_perm (msgque s q))"

section \<open>msgconv, msgipcget, msginit\<close>

definition msgconv :: "msgsys \<Rightarrow> int \<Rightarrow> errno + nat" where
  "msgconv s d =
     (if d < 0 then Inl EINVAL
      else
        let q = nat (d mod msgmni (mi s))
        in if q_mode s q AND IPC_ALLOC = 0 \<or> d div msgmni (mi s) \<noteq> p_seq (msg_perm (msgque s q))
           then Inl EINVAL else Inr q)"

definition msgipcget :: "msgsys \<Rightarrow> int \<Rightarrow> ipc_perm option" where
  "msgipcget s i = (if i < 0 \<or> i \<ge> msgmni (mi s) then None else Some (msg_perm (msgque s (nat i))))"

definition zero_perm :: ipc_perm where
  "zero_perm = \<lparr>p_uid = 0, p_gid = 0, p_cuid = 0, p_cgid = 0, p_mode = 0, p_seq = 0, p_key = 0\<rparr>"

definition zero_queue :: msqid_ds where
  "zero_queue = \<lparr>msg_perm = zero_perm, msg_first = None, msg_last = None, msg_cbytes = 0, msg_qnum = 0,
     msg_qbytes = 0, msg_lspid = 0, msg_lrpid = 0, msg_stime = 0, msg_rtime = 0, msg_ctime = 0\<rparr>"

text \<open>
  The state at boot: the static tables are zero, \<open>sptalloc\<close> (a parameter: whether it succeeds)
  gives the pool, the map holds the segments from 1 on, the headers are linked in order.
\<close>

definition msginit :: "bool \<Rightarrow> msginfo \<Rightarrow> (int \<Rightarrow> byte) \<Rightarrow> int \<Rightarrow> msgsys" where
  "msginit spt cfg pool t =
     (let cfg' = (if spt then cfg else cfg\<lparr>msgseg := 0\<rparr>)
      in \<lparr>mi = cfg', msgque = (\<lambda>_. zero_queue),
          msgh = (\<lambda>i. \<lparr>msg_next = (if Suc i < msgtql cfg' then Some (Suc i) else None),
                       msg_type = 0, msg_ts = 0, msg_spot = 0\<rparr>),
          msgfp = Some 0, msgmap = fst (mfree (msgseg cfg') 1 (mapinit (mi_map cfg'))),
          msgpool = pool, msgnow = t, mwakes = []\<rparr>)"

section \<open>msgfree\<close>

text \<open>
  \<open>msgfree(qp, pmp, mp)\<close>: unlink \<open>mp\<close> whose predecessor is \<open>pmp\<close> and wake the
  writers, give the text segments back, put the header on the free list. The local names follow
  the order of the assignments.
\<close>

definition msg_unlink :: "nat \<Rightarrow> nat option \<Rightarrow> nat \<Rightarrow> msgsys \<Rightarrow> msgsys" where
  "msg_unlink q pmp m s =
     (let s1 = (case pmp of
                  None \<Rightarrow> upd_q q (msg_first_update (\<lambda>_. msg_next (msgh s m))) s
                | Some p \<Rightarrow> upd_h p (msg_next_update (\<lambda>_. msg_next (msgh s m))) s);
          s2 = (if msg_next (msgh s1 m) = None then upd_q q (msg_last_update (\<lambda>_. pmp)) s1 else s1);
          s3 = upd_q q (msg_qnum_update (\<lambda>n. u16 (n - 1))) s2
      in if q_mode s3 q AND MSG_WWAIT \<noteq> 0
         then mwake (ChQ q) (upd_q q (set_mode (q_mode s3 q AND NOT MSG_WWAIT)) s3) else s3)"

definition msg_text_free :: "nat \<Rightarrow> msgsys \<Rightarrow> msgsys" where
  "msg_text_free m s =
     (if msg_ts (msgh s m) \<noteq> 0
      then (case mfree (btoq s (msg_ts (msgh s m))) (msg_spot (msgh s m) + 1) (msgmap s) of
              (mp, w) \<Rightarrow> (if w then mwake ChMap (s\<lparr>msgmap := mp\<rparr>) else s\<lparr>msgmap := mp\<rparr>))
      else s)"

definition msg_hdr_free :: "nat \<Rightarrow> msgsys \<Rightarrow> msgsys" where
  "msg_hdr_free m s =
     (let s1 = upd_h m (msg_next_update (\<lambda>_. msgfp s)) s;
          s2 = (if msgfp s1 = None then mwake ChFp s1 else s1)
      in s2\<lparr>msgfp := Some m\<rparr>)"

definition msgfree :: "nat \<Rightarrow> nat option \<Rightarrow> nat \<Rightarrow> msgsys \<Rightarrow> msgsys" where
  "msgfree q pmp m s = msg_hdr_free m (msg_text_free m (msg_unlink q pmp m s))"

text \<open>The loop \<open>while (qp->msg_first) msgfree(qp, NULL, qp->msg_first)\<close>; \<open>None\<close> is no end.\<close>

fun msg_drain :: "nat \<Rightarrow> nat \<Rightarrow> msgsys \<Rightarrow> msgsys option" where
  "msg_drain 0 q s = None"
| "msg_drain (Suc f) q s =
     (case msg_first (msgque s q) of
        None \<Rightarrow> Some s
      | Some m \<Rightarrow> msg_drain f q (msgfree q None m s))"

section \<open>msgctl and msgget\<close>

definition ipc_owner :: "user \<Rightarrow> ipc_perm \<Rightarrow> bool" where
  "ipc_owner u p = (u_uid u = p_uid p \<or> u_uid u = p_cuid p \<or> suser u)"

definition msgctl_rmid :: "user \<Rightarrow> int \<Rightarrow> nat \<Rightarrow> msgsys \<Rightarrow> (mchan outcome \<times> msgsys) option" where
  "msgctl_rmid u d q s =
     (if \<not> ipc_owner u (msg_perm (msgque s q)) then Some (Fail EPERM, s)
      else (case msg_drain (Suc (msgtql (mi s))) q s of
              None \<Rightarrow> None
            | Some s1 \<Rightarrow>
                let s2 = upd_q q (msg_cbytes_update (\<lambda>_. 0)) s1;
                    s3 = upd_q q (\<lambda>qp. qp\<lparr>msg_perm := (msg_perm qp)\<lparr>p_seq :=
                           (if i32 (d + msgmni (mi s2)) < 0 then 0 else u16 (p_seq (msg_perm qp) + 1))\<rparr>\<rparr>) s2;
                    s4 = (if q_mode s3 q AND MSG_RWAIT \<noteq> 0 then mwake (ChQnum q) s3 else s3);
                    s5 = (if q_mode s4 q AND MSG_WWAIT \<noteq> 0 then mwake (ChQ q) s4 else s4)
                in Some (Ok 0, upd_q q (set_mode 0) s5)))"

text \<open>\<open>ds\<close> is what \<open>copyin\<close> delivers, \<open>None\<close> for a fault.\<close>

definition msgctl_set :: "user \<Rightarrow> nat \<Rightarrow> msqid_ds option \<Rightarrow> msgsys \<Rightarrow> mchan outcome \<times> msgsys" where
  "msgctl_set u q ds s =
     (if \<not> ipc_owner u (msg_perm (msgque s q)) then (Fail EPERM, s)
      else (case ds of
              None \<Rightarrow> (Fail EFAULT, s)
            | Some ds \<Rightarrow>
                if msg_qbytes ds > msg_qbytes (msgque s q) \<and> \<not> suser u then (Fail EPERM, s)
                else (Ok 0, upd_q q (\<lambda>qp. qp\<lparr>
                        msg_perm := (msg_perm qp)\<lparr>p_uid := p_uid (msg_perm ds), p_gid := p_gid (msg_perm ds),
                          p_mode := (p_mode (msg_perm qp) AND NOT 0x1FF) OR (p_mode (msg_perm ds) AND 0x1FF)\<rparr>,
                        msg_qbytes := msg_qbytes ds, msg_ctime := msgnow s\<rparr>) s)))"

text \<open>
  The switch of \<open>msgctl\<close>. \<open>wr\<close> says whether the \<open>copyout\<close> of IPC_STAT succeeds; the
  middle component is the structure it delivers.
\<close>

definition msgctl :: "user \<Rightarrow> int \<Rightarrow> int \<Rightarrow> msqid_ds option \<Rightarrow> bool \<Rightarrow> msgsys \<Rightarrow>
    (mchan outcome \<times> msqid_ds option \<times> msgsys) option" where
  "msgctl u d cmd ds wr s =
     (case msgconv s d of
        Inl e \<Rightarrow> Some (Fail e, None, s)
      | Inr q \<Rightarrow>
          if cmd = 0 then
            (case msgctl_rmid u d q s of None \<Rightarrow> None | Some (r, s') \<Rightarrow> Some (r, None, s'))
          else if cmd = 1 then
            (case msgctl_set u q ds s of (r, s') \<Rightarrow> Some (r, None, s'))
          else if cmd = 2 then
            (case ipcaccess u (msg_perm (msgque s q)) MSG_R of
               Some e \<Rightarrow> Some (Fail e, None, s)
             | None \<Rightarrow> if wr then Some (Ok 0, Some (msgque s q), s) else Some (Fail EFAULT, None, s))
          else Some (Fail EINVAL, None, s))"

definition msqid_of :: "msgsys \<Rightarrow> nat \<Rightarrow> int" where
  "msqid_of s q = i32 (p_seq (msg_perm (msgque s q)) * msgmni (mi s) + int q)"

definition msgget :: "user \<Rightarrow> int \<Rightarrow> 32 word \<Rightarrow> msgsys \<Rightarrow> mchan outcome \<times> msgsys" where
  "msgget u k flg s =
     (case ipcget u k flg (\<lambda>i. msg_perm (msgque s i)) (nat (msgmni (mi s))) of
        Inl e \<Rightarrow> (Fail e, s)
      | Inr (st, q, p) \<Rightarrow>
          let s1 = upd_q q (msg_perm_update (\<lambda>_. p)) s;
              s2 = (if st then upd_q q (\<lambda>qp. qp\<lparr>msg_first := None, msg_last := None, msg_qnum := 0,
                           msg_qbytes := u16 (msgmnb (mi s1)), msg_lspid := 0, msg_lrpid := 0,
                           msg_stime := 0, msg_rtime := 0, msg_ctime := msgnow s1\<rparr>) s1
                    else s1)
          in (Ok (msqid_of s2 q), s2))"

section \<open>msgrcv\<close>

record rcvargs =
  r_id :: int
  r_msgp :: int
  r_sz :: int
  r_typ :: int
  r_flg :: "32 word"

text \<open>
  The search loop, from the header \<open>mp\<close> on with predecessor \<open>pmp\<close> and best message so far
  \<open>smp\<close>, \<open>spmp\<close>; the fuel bounds the headers visited.
\<close>

fun findmsg :: "nat \<Rightarrow> (nat \<Rightarrow> msg) \<Rightarrow> int \<Rightarrow> nat option \<Rightarrow> nat option \<Rightarrow> nat option \<Rightarrow> nat option \<Rightarrow>
    (nat option \<times> nat option) option" where
  "findmsg 0 h typ pmp mp smp spmp = None"
| "findmsg (Suc f) h typ pmp mp smp spmp =
     (case mp of
        None \<Rightarrow> Some (smp, spmp)
      | Some m \<Rightarrow>
          if typ > 0 then
            (if typ \<noteq> msg_type (h m) then findmsg f h typ (Some m) (msg_next (h m)) smp spmp
             else Some (Some m, pmp))
          else if msg_type (h m) \<le> i32 (- typ) then
            (case smp of
               Some k \<Rightarrow>
                 if msg_type (h k) \<le> msg_type (h m) then findmsg f h typ (Some m) (msg_next (h m)) smp spmp
                 else findmsg f h typ (Some m) (msg_next (h m)) (Some m) pmp
             | None \<Rightarrow> findmsg f h typ (Some m) (msg_next (h m)) (Some m) pmp)
          else findmsg f h typ (Some m) (msg_next (h m)) smp spmp)"

definition pool_text :: "msgsys \<Rightarrow> int \<Rightarrow> nat \<Rightarrow> byte list" where
  "pool_text s spot n = map (\<lambda>i. msgpool s (msgssz (mi s) * spot + int i)) [0..<n]"

text \<open>From the label \<open>findmsg\<close> to the return or to the \<open>sleep\<close>.\<close>

definition msgrcv_find :: "user \<Rightarrow> umem \<Rightarrow> rcvargs \<Rightarrow> nat \<Rightarrow> msgsys \<Rightarrow> (mchan outcome \<times> umem \<times> msgsys) option" where
  "msgrcv_find u um a q s =
     (if msgconv s (r_id a) \<noteq> Inr q then Some (Fail EIDRM, um, s)
      else
        (case (if r_typ a = 0 then Some (msg_first (msgque s q), None)
               else findmsg (Suc (msgtql (mi s))) (msgh s) (r_typ a) None (msg_first (msgque s q)) None None) of
           None \<Rightarrow> None
         | Some (Some m, spmp) \<Rightarrow>
             let ts = msg_ts (msgh s m)
             in if r_sz a < ts \<and> r_flg a AND MSG_NOERROR = 0 then Some (Fail E2BIG, um, s)
                else
                  let sz = (if r_sz a < ts then r_sz a else ts)
                  in (case copyout um (r_msgp a) (long_bytes (msg_type (msgh s m))) of
                        None \<Rightarrow> Some (Fail EFAULT, um, s)
                      | Some um1 \<Rightarrow>
                          (case (if sz = 0 then Some um1
                                 else copyout um1 (r_msgp a + 4) (pool_text s (msg_spot (msgh s m)) (nat sz))) of
                             None \<Rightarrow> Some (Fail EFAULT, um1, s)
                           | Some um2 \<Rightarrow>
                               let s1 = upd_q q (\<lambda>qp. qp\<lparr>msg_cbytes := u16 (msg_cbytes qp - ts),
                                          msg_lrpid := u16 (u_pid u), msg_rtime := msgnow s\<rparr>) s
                               in Some (Ok sz, um2, msgfree q spmp m s1)))
         | Some (None, _) \<Rightarrow>
             if r_flg a AND IPC_NOWAIT \<noteq> 0 then Some (Fail ENOMSG, um, s)
             else Some (Sleeping (ChQnum q), um, upd_q q (set_mode (q_mode s q OR MSG_RWAIT)) s)))"

definition msgrcv :: "user \<Rightarrow> umem \<Rightarrow> rcvargs \<Rightarrow> msgsys \<Rightarrow> (mchan outcome \<times> umem \<times> msgsys) option" where
  "msgrcv u um a s =
     (case msgconv s (r_id a) of
        Inl e \<Rightarrow> Some (Fail e, um, s)
      | Inr q \<Rightarrow>
          (case ipcaccess u (msg_perm (msgque s q)) MSG_R of
             Some e \<Rightarrow> Some (Fail e, um, s)
           | None \<Rightarrow> if r_sz a < 0 then Some (Fail EINVAL, um, s) else msgrcv_find u um a q s))"

text \<open>What happens when the \<open>sleep\<close> returns; \<open>intr\<close> is its answer.\<close>

definition msgrcv_resume :: "bool \<Rightarrow> user \<Rightarrow> umem \<Rightarrow> rcvargs \<Rightarrow> nat \<Rightarrow> msgsys \<Rightarrow> (mchan outcome \<times> umem \<times> msgsys) option" where
  "msgrcv_resume intr u um a q s =
     (if intr then Some (Fail EINTR, um, s)
      else (case msgconv s (r_id a) of
              Inl _ \<Rightarrow> Some (Fail EIDRM, um, s)
            | Inr _ \<Rightarrow> msgrcv_find u um a q s))"

text \<open>
  The two stretches of \<open>msgrcv_find\<close> that a page fault in the copies separates: the choice of a
  message with the copies, and what follows them, which relies on the choice.
\<close>

datatype picked = Picked nat "nat option" int | PickErr errno | PickNone

definition msgrcv_pick :: "umem \<Rightarrow> rcvargs \<Rightarrow> nat \<Rightarrow> msgsys \<Rightarrow> (picked \<times> umem) option" where
  "msgrcv_pick um a q s =
     (case (if r_typ a = 0 then Some (msg_first (msgque s q), None)
            else findmsg (Suc (msgtql (mi s))) (msgh s) (r_typ a) None (msg_first (msgque s q)) None None) of
        None \<Rightarrow> None
      | Some (None, _) \<Rightarrow> Some (PickNone, um)
      | Some (Some m, spmp) \<Rightarrow>
          let ts = msg_ts (msgh s m); sz = (if r_sz a < ts then r_sz a else ts)
          in if r_sz a < ts \<and> r_flg a AND MSG_NOERROR = 0 then Some (PickErr E2BIG, um)
             else (case copyout um (r_msgp a) (long_bytes (msg_type (msgh s m))) of
                     None \<Rightarrow> Some (PickErr EFAULT, um)
                   | Some um1 \<Rightarrow>
                       (case (if sz = 0 then Some um1
                              else copyout um1 (r_msgp a + 4) (pool_text s (msg_spot (msgh s m)) (nat sz))) of
                          None \<Rightarrow> Some (PickErr EFAULT, um1)
                        | Some um2 \<Rightarrow> Some (Picked m spmp sz, um2))))"

definition msgrcv_finish :: "user \<Rightarrow> nat \<Rightarrow> nat \<Rightarrow> nat option \<Rightarrow> msgsys \<Rightarrow> msgsys" where
  "msgrcv_finish u q m spmp s =
     msgfree q spmp m (upd_q q (\<lambda>qp. qp\<lparr>msg_cbytes := u16 (msg_cbytes qp - msg_ts (msgh s m)),
       msg_lrpid := u16 (u_pid u), msg_rtime := msgnow s\<rparr>) s)"

lemma msgrcv_find_stretches:
  "msgrcv_find u um a q s =
     (if msgconv s (r_id a) \<noteq> Inr q then Some (Fail EIDRM, um, s)
      else (case msgrcv_pick um a q s of
              None \<Rightarrow> None
            | Some (Picked m p sz, um') \<Rightarrow> Some (Ok sz, um', msgrcv_finish u q m p s)
            | Some (PickErr e, um') \<Rightarrow> Some (Fail e, um', s)
            | Some (PickNone, um') \<Rightarrow>
                if r_flg a AND IPC_NOWAIT \<noteq> 0 then Some (Fail ENOMSG, um', s)
                else Some (Sleeping (ChQnum q), um', upd_q q (set_mode (q_mode s q OR MSG_RWAIT)) s)))"
proof -
  define c where "c = (if r_typ a = 0 then Some (msg_first (msgque s q), None)
    else findmsg (Suc (msgtql (mi s))) (msgh s) (r_typ a) None (msg_first (msgque s q)) None None)"
  note D = msgrcv_find_def msgrcv_pick_def msgrcv_finish_def c_def [symmetric] Let_def
  consider "c = None" | p where "c = Some (None, p)" | m p where "c = Some (Some m, p)"
    by (cases c) (auto, metis option.exhaust)
  then show ?thesis
  proof cases
    case (3 m p)
    define sz where "sz = (if r_sz a < msg_ts (msgh s m) then r_sz a else msg_ts (msgh s m))"
    show ?thesis
    proof (cases "r_sz a < msg_ts (msgh s m) \<and> r_flg a AND MSG_NOERROR = 0")
      case True
      then show ?thesis by (simp add: D 3)
    next
      case big: False
      show ?thesis
      proof (cases "copyout um (r_msgp a) (long_bytes (msg_type (msgh s m)))")
        case None
        with big show ?thesis by (simp only: D 3 option.case prod.case picked.case if_False)
      next
        case (Some um1)
        show ?thesis
          by (cases "sz = 0"; cases "copyout um1 (r_msgp a + 4) (pool_text s (msg_spot (msgh s m)) (nat sz))")
            (use big Some in \<open>simp_all only: D 3 sz_def [symmetric] option.case prod.case picked.case simp_thms if_True if_False\<close>)
      qed
    qed
  qed (simp_all add: D)
qed

section \<open>msgsnd\<close>

record sndargs =
  s_id :: int
  s_msgp :: int
  s_sz :: int
  s_flg :: "32 word"

definition pool_store :: "(int \<Rightarrow> byte) \<Rightarrow> int \<Rightarrow> byte list \<Rightarrow> int \<Rightarrow> byte" where
  "pool_store pool b bs = (\<lambda>i. if b \<le> i \<and> i < b + int (length bs) then bs ! nat (i - b) else pool i)"

text \<open>The assignments that put the header \<open>m\<close>, taken off the free list, on the queue.\<close>

definition msg_enqueue :: "user \<Rightarrow> nat \<Rightarrow> nat \<Rightarrow> int \<Rightarrow> int \<Rightarrow> int \<Rightarrow> msgsys \<Rightarrow> msgsys" where
  "msg_enqueue u q m ty cnt spot s =
     (let s1 = upd_q q (\<lambda>qp. qp\<lparr>msg_qnum := u16 (msg_qnum qp + 1), msg_cbytes := u16 (msg_cbytes qp + cnt),
                 msg_lspid := u16 (u_pid u), msg_stime := msgnow s\<rparr>) s;
          s2 = s1\<lparr>msgfp := msg_next (msgh s1 m)\<rparr>;
          s3 = upd_h m (\<lambda>_. \<lparr>msg_next = None, msg_type = ty, msg_ts = s16 cnt,
                            msg_spot = s16 (if cnt \<noteq> 0 then spot else - 1)\<rparr>) s2;
          s4 = (case msg_last (msgque s3 q) of
                  None \<Rightarrow> upd_q q (\<lambda>qp. qp\<lparr>msg_first := Some m, msg_last := Some m\<rparr>) s3
                | Some l \<Rightarrow> upd_q q (msg_last_update (\<lambda>_. Some m))
                              (upd_h l (msg_next_update (\<lambda>_. Some m)) s3))
      in if q_mode s4 q AND MSG_RWAIT \<noteq> 0
         then mwake (ChQnum q) (upd_q q (set_mode (q_mode s4 q AND NOT MSG_RWAIT)) s4)
         else s4)"

text \<open>
  From the label \<open>getres\<close> to the return or to one of the two sleeps. When the text faults, what
  the interrupted \<open>uiomove\<close> may have stored lies in segments that are freed at once; the model
  leaves them as they were.
\<close>

definition msgsnd_getres :: "user \<Rightarrow> umem \<Rightarrow> sndargs \<Rightarrow> int \<Rightarrow> nat \<Rightarrow> msgsys \<Rightarrow> mchan outcome \<times> msgsys" where
  "msgsnd_getres u um a ty q s =
     (let cnt = s_sz a
      in if msgconv s (s_id a) \<noteq> Inr q then (Fail EIDRM, s)
         else if cnt + msg_cbytes (msgque s q) > msg_qbytes (msgque s q) then
           (if s_flg a AND IPC_NOWAIT \<noteq> 0 then (Fail EAGAIN, s)
            else (Sleeping (ChQ q), upd_q q (set_mode (q_mode s q OR MSG_WWAIT)) s))
         else
           (case (if cnt \<noteq> 0 then malloc (btoq s cnt) (msgmap s) else (0, msgmap s)) of
              (sp, mp) \<Rightarrow>
                let s1 = s\<lparr>msgmap := mp\<rparr>
                in (case (if cnt \<noteq> 0 \<and> sp = 0 then None else msgfp s1) of
                      None \<Rightarrow>
                        if s_flg a AND IPC_NOWAIT \<noteq> 0 then (Fail EAGAIN, s1)
                        else (Sleeping ChMap, s1\<lparr>msgmap := mp\<lparr>mapwant := i32 (mapwant mp + 1)\<rparr>\<rparr>)
                    | Some m \<Rightarrow>
                        if cnt = 0 then (Ok 0, msg_enqueue u q m ty cnt 0 s1)
                        else
                          (case copyin um (s_msgp a + 4) (nat cnt) of
                             None \<Rightarrow>
                               (case mfree (btoq s1 cnt) (sp - 1 + 1) (msgmap s1) of
                                  (mp', w) \<Rightarrow>
                                    (Fail EFAULT, if w then mwake ChMap (s1\<lparr>msgmap := mp'\<rparr>) else s1\<lparr>msgmap := mp'\<rparr>))
                           | Some bs \<Rightarrow>
                               (Ok 0, msg_enqueue u q m ty cnt (sp - 1)
                                        (s1\<lparr>msgpool := pool_store (msgpool s1) (msgssz (mi s1) * (sp - 1)) bs\<rparr>))))))"

definition msgsnd :: "user \<Rightarrow> umem \<Rightarrow> sndargs \<Rightarrow> msgsys \<Rightarrow> mchan outcome \<times> msgsys" where
  "msgsnd u um a s =
     (case msgconv s (s_id a) of
        Inl e \<Rightarrow> (Fail e, s)
      | Inr q \<Rightarrow>
          (case ipcaccess u (msg_perm (msgque s q)) MSG_W of
             Some e \<Rightarrow> (Fail e, s)
           | None \<Rightarrow>
               if s_sz a < 0 \<or> s_sz a > msgmax (mi s) then (Fail EINVAL, s)
               else (case copyin um (s_msgp a) 4 of
                       None \<Rightarrow> (Fail EFAULT, s)
                     | Some bs \<Rightarrow>
                         if bytes_long bs < 1 then (Fail EINVAL, s)
                         else msgsnd_getres u um a (bytes_long bs) q s)))"

definition msgsnd_resume_q :: "bool \<Rightarrow> user \<Rightarrow> umem \<Rightarrow> sndargs \<Rightarrow> int \<Rightarrow> nat \<Rightarrow> msgsys \<Rightarrow> mchan outcome \<times> msgsys" where
  "msgsnd_resume_q intr u um a ty q s =
     (if intr then (Fail EINTR, mwake (ChQ q) (upd_q q (set_mode (q_mode s q AND NOT MSG_WWAIT)) s))
      else msgsnd_getres u um a ty q s)"

definition msgsnd_resume_map :: "bool \<Rightarrow> user \<Rightarrow> umem \<Rightarrow> sndargs \<Rightarrow> int \<Rightarrow> nat \<Rightarrow> msgsys \<Rightarrow> mchan outcome \<times> msgsys" where
  "msgsnd_resume_map intr u um a ty q s =
     (if intr then (Fail EINTR, s) else msgsnd_getres u um a ty q s)"

text \<open>The resumption for either of the two channels \<open>msgsnd\<close> sleeps on.\<close>

definition msgsnd_resume :: "mchan \<Rightarrow> bool \<Rightarrow> user \<Rightarrow> umem \<Rightarrow> sndargs \<Rightarrow> int \<Rightarrow> nat \<Rightarrow> msgsys \<Rightarrow> mchan outcome \<times> msgsys" where
  "msgsnd_resume c intr u um a ty q s =
     (if c = ChMap then msgsnd_resume_map intr u um a ty q s else msgsnd_resume_q intr u um a ty q s)"

section \<open>msgsys\<close>

text \<open>
  The entry point: \<open>k\<close>, the call number, is \<open>u.u_arg[0]\<close>, an unsigned, \<open>arg i\<close> is \<open>u.u_arg[i]\<close>; \<open>ds\<close> and
  \<open>wr\<close> are what \<open>copyin\<close> and \<open>copyout\<close> of the structure at \<open>buf\<close> do in \<open>msgctl\<close>.
\<close>

definition msgrcv_args :: "(nat \<Rightarrow> int) \<Rightarrow> rcvargs" where
  "msgrcv_args arg = \<lparr>r_id = arg 1, r_msgp = arg 2, r_sz = arg 3, r_typ = arg 4, r_flg = word_of_int (arg 5)\<rparr>"

definition msgsnd_args :: "(nat \<Rightarrow> int) \<Rightarrow> sndargs" where
  "msgsnd_args arg = \<lparr>s_id = arg 1, s_msgp = arg 2, s_sz = arg 3, s_flg = word_of_int (arg 4)\<rparr>"

definition msgsys_call :: "user \<Rightarrow> umem \<Rightarrow> int \<Rightarrow> (nat \<Rightarrow> int) \<Rightarrow> msqid_ds option \<Rightarrow> bool \<Rightarrow> msgsys \<Rightarrow>
    (mchan outcome \<times> umem \<times> msgsys) option" where
  "msgsys_call u um k arg ds wr s =
     (if u32 k > 3 then Some (Fail EINVAL, um, s)
      else if k = 0 then (case msgget u (arg 1) (word_of_int (arg 2)) s of (r, s') \<Rightarrow> Some (r, um, s'))
      else if k = 1 then
        (case msgctl u (arg 1) (arg 2) ds wr s of None \<Rightarrow> None | Some (r, _, s') \<Rightarrow> Some (r, um, s'))
      else if k = 2 then msgrcv u um (msgrcv_args arg) s
      else (case msgsnd u um (msgsnd_args arg) s of (r, s') \<Rightarrow> Some (r, um, s')))"

end
