(* ===== verification/Msg_Inv.thy ===== *)
theory Msg_Inv
  imports Msg
begin

text \<open>
  The invariant of the message tables and its preservation by every call and every resumption
  after a sleep, and termination of the two pointer loops (enough fuel). The chains are related
  to lists of header indices: \<open>fl\<close> is the free list, \<open>Q q\<close> the messages of queue \<open>q\<close>.
\<close>

section \<open>Pointer chains\<close>

fun chain :: "(nat \<Rightarrow> msg) \<Rightarrow> nat option \<Rightarrow> nat list \<Rightarrow> bool" where
  "chain h p [] = (p = None)"
| "chain h p (x # xs) = (p = Some x \<and> chain h (msg_next (h x)) xs)"

definition last_opt :: "'a list \<Rightarrow> 'a option" where
  "last_opt xs = (if xs = [] then None else Some (last xs))"

lemma chain_cong:
  "(\<And>x. x \<in> set xs \<Longrightarrow> msg_next (h' x) = msg_next (h x)) \<Longrightarrow> chain h' p xs = chain h p xs"
  by (induction xs arbitrary: p) auto

lemma chain_upd [simp]: "x \<notin> set xs \<Longrightarrow> chain (h(x := v)) p xs = chain h p xs"
  by (rule chain_cong) auto

lemma chain_None [simp]: "chain h None xs = (xs = [])"
  by (cases xs) auto

lemma chain_Some: "chain h (Some m) xs = (\<exists>ys. xs = m # ys \<and> chain h (msg_next (h m)) ys)"
  by (cases xs) auto

lemma chain_suffix: "chain h p (xs @ m # ys) \<Longrightarrow> chain h (msg_next (h m)) ys"
  by (induction xs arbitrary: p) auto

lemma chain_unlink:
  "chain h p (xs @ m # ys) \<Longrightarrow> distinct (xs @ m # ys) \<Longrightarrow> xs \<noteq> [] \<Longrightarrow>
   chain (h(last xs := (h (last xs))\<lparr>msg_next := msg_next (h m)\<rparr>)) p (xs @ ys)"
proof (induction xs arbitrary: p)
  case Nil
  then show ?case by simp
next
  case (Cons x xs)
  show ?case
  proof (cases "xs = []")
    case True
    with Cons.prems have "chain h (msg_next (h m)) ys" "x \<notin> set ys" "p = Some x" by auto
    with True show ?thesis by (simp del: fun_upd_apply) (simp add: fun_upd_apply)
  next
    case False
    with Cons show ?thesis by (auto simp: last_in_set)
  qed
qed

lemma chain_link:
  "chain h p xs \<Longrightarrow> distinct xs \<Longrightarrow> xs \<noteq> [] \<Longrightarrow> m \<notin> set xs \<Longrightarrow> msg_next (h m) = None \<Longrightarrow>
   chain (h(last xs := (h (last xs))\<lparr>msg_next := Some m\<rparr>)) p (xs @ [m])"
proof (induction xs arbitrary: p)
  case Nil
  then show ?case by simp
next
  case (Cons x xs)
  then show ?case by (cases "xs = []") (auto simp: last_in_set)
qed

section \<open>The invariant\<close>

definition seg :: "msgsys \<Rightarrow> nat \<Rightarrow> int set" where
  "seg s m = (if 0 < msg_ts (msgh s m)
              then {msg_spot (msgh s m) + 1 ..< msg_spot (msgh s m) + 1 + btoq s (msg_ts (msgh s m))} else {})"

definition held :: "msgsys \<Rightarrow> (nat \<Rightarrow> nat list) \<Rightarrow> nat \<Rightarrow> int set" where
  "held s Q m = (if \<exists>q. m \<in> set (Q q) then seg s m else {})"

definition msg_ok :: "msgsys \<Rightarrow> nat \<Rightarrow> bool" where
  "msg_ok s m = (1 \<le> msg_type (msgh s m) \<and> 0 \<le> msg_ts (msgh s m) \<and> msg_ts (msgh s m) \<le> 32767 \<and>
     (0 < msg_ts (msgh s m) \<longrightarrow> 0 \<le> msg_spot (msgh s m)) \<and> seg s m \<subseteq> {..<32768})"

definition queue_ok :: "msgsys \<Rightarrow> nat \<Rightarrow> nat list \<Rightarrow> bool" where
  "queue_ok s q xs = (chain (msgh s) (msg_first (msgque s q)) xs \<and> msg_last (msgque s q) = last_opt xs \<and>
     msg_qnum (msgque s q) = int (length xs) \<and> (xs \<noteq> [] \<longrightarrow> ipc_alloc (msg_perm (msgque s q))) \<and>
     0 \<le> p_seq (msg_perm (msgque s q)) \<and> p_seq (msg_perm (msgque s q)) < 65536)"

definition placed :: "nat list \<Rightarrow> (nat \<Rightarrow> nat list) \<Rightarrow> nat \<Rightarrow> bool" where
  "placed fl Q n = (distinct fl \<and> (\<forall>q. distinct (Q q)) \<and> (\<forall>q. \<forall>x \<in> set (Q q). x \<notin> set fl) \<and>
     (\<forall>q q' x. x \<in> set (Q q) \<and> x \<in> set (Q q') \<longrightarrow> q = q') \<and>
     (\<forall>x. x < n \<longleftrightarrow> x \<in> set fl \<or> (\<exists>q. x \<in> set (Q q))))"

definition cfg_ok :: "msginfo \<Rightarrow> bool" where
  "cfg_ok c = (0 < msgmni c \<and> msgmni c \<le> 32768 \<and> 0 < msgssz c \<and> msgmax c \<le> 32767 \<and> msgtql c < 65536)"

definition msg_struct :: "msgsys \<Rightarrow> nat list \<Rightarrow> (nat \<Rightarrow> nat list) \<Rightarrow> bool" where
  "msg_struct s fl Q = (cfg_ok (mi s) \<and> placed fl Q (msgtql (mi s)) \<and> chain (msgh s) (msgfp s) fl \<and>
     (\<forall>q. queue_ok s q (Q q)) \<and> (\<forall>q. \<forall>m \<in> set (Q q). msg_ok s m) \<and>
     rmap_ok (msgmap s) \<and> units (msgmap s) \<subseteq> {..<32768} \<and> ledger (units (msgmap s)) (held s Q))"

definition q_bytes :: "msgsys \<Rightarrow> nat list \<Rightarrow> int" where
  "q_bytes s xs = sum_list (map (\<lambda>m. msg_ts (msgh s m)) xs)"

definition bytes_ok :: "msgsys \<Rightarrow> (nat \<Rightarrow> nat list) \<Rightarrow> bool" where
  "bytes_ok s Q = (\<forall>q. msg_cbytes (msgque s q) = q_bytes s (Q q) \<and> msg_cbytes (msgque s q) < 65536 \<and>
     0 \<le> msg_qbytes (msgque s q) \<and> msg_qbytes (msgque s q) < 65536)"

definition msg_inv :: "msgsys \<Rightarrow> nat list \<Rightarrow> (nat \<Rightarrow> nat list) \<Rightarrow> bool" where
  "msg_inv s fl Q = (msg_struct s fl Q \<and> bytes_ok s Q)"

section \<open>The effect of msgfree\<close>

lemma clear_idle: "w AND k = 0 \<Longrightarrow> w AND NOT k = w" for w :: "16 word"
proof (rule bit_word_eqI)
  fix n
  assume "w AND k = 0" "n < LENGTH(16)"
  then have "\<not> (bit w n \<and> bit k n)" by (metis bit_and_iff bit_0_eq bot_apply bot_bool_def)
  with \<open>n < LENGTH(16)\<close> show "bit (w AND NOT k) n = bit w n" by (auto simp: bit_simps)
qed

definition relink :: "nat option \<Rightarrow> nat option \<Rightarrow> (nat \<Rightarrow> msg) \<Rightarrow> nat \<Rightarrow> msg" where
  "relink pmp nx h = (case pmp of None \<Rightarrow> h | Some p \<Rightarrow> h(p := (h p)\<lparr>msg_next := nx\<rparr>))"

lemmas clear_idle_wwait = clear_idle [of _ MSG_WWAIT, simplified]

lemma relink_same: "pmp \<noteq> Some m \<Longrightarrow> relink pmp nx h m = h m"
  by (auto simp: relink_def split: option.split)

lemma relink_other [simp]:
  "msg_ts (relink pmp nx h x) = msg_ts (h x)" "msg_type (relink pmp nx h x) = msg_type (h x)"
  "msg_spot (relink pmp nx h x) = msg_spot (h x)"
  by (simp_all add: relink_def split: option.split)

definition unlinked :: "nat option \<Rightarrow> nat option \<Rightarrow> msqid_ds \<Rightarrow> msqid_ds" where
  "unlinked pmp nx qp = qp\<lparr>
     msg_first := (if pmp = None then nx else msg_first qp),
     msg_last := (if nx = None then pmp else msg_last qp),
     msg_qnum := u16 (msg_qnum qp - 1),
     msg_perm := (msg_perm qp)\<lparr>p_mode := p_mode (msg_perm qp) AND NOT MSG_WWAIT\<rparr>\<rparr>"

text \<open>The rest of a state, the wakeup log aside: what a step over the queues leaves alone.\<close>

lemma msg_unlink_fields:
  assumes "pmp \<noteq> Some m"
  shows "mi (msg_unlink q pmp m s) = mi s"
    and "msgpool (msg_unlink q pmp m s) = msgpool s"
    and "msgnow (msg_unlink q pmp m s) = msgnow s"
    and "msgfp (msg_unlink q pmp m s) = msgfp s"
    and "msgmap (msg_unlink q pmp m s) = msgmap s"
    and "msgh (msg_unlink q pmp m s) = relink pmp (msg_next (msgh s m)) (msgh s)"
    and "msgque (msg_unlink q pmp m s) = (msgque s)(q := unlinked pmp (msg_next (msgh s m)) (msgque s q))"
proof -
  note d = msg_unlink_def Let_def upd_q_def upd_h_def mwake_def set_mode_def q_mode_def
  show "mi (msg_unlink q pmp m s) = mi s" "msgpool (msg_unlink q pmp m s) = msgpool s"
    "msgnow (msg_unlink q pmp m s) = msgnow s" "msgfp (msg_unlink q pmp m s) = msgfp s"
    "msgmap (msg_unlink q pmp m s) = msgmap s"
    by (simp_all add: d split: option.split)
  show "msgh (msg_unlink q pmp m s) = relink pmp (msg_next (msgh s m)) (msgh s)"
    by (simp add: d relink_def split: option.split)
  show "msgque (msg_unlink q pmp m s) = (msgque s)(q := unlinked pmp (msg_next (msgh s m)) (msgque s q))"
  proof (cases "msgque s q")
    case (fields pm)
    with assms show ?thesis
      by (cases pm; cases pmp) (simp_all add: d relink_def unlinked_def clear_idle_wwait)
  qed
qed

lemma msg_text_free_fields:
  "mi (msg_text_free m s) = mi s" "msgpool (msg_text_free m s) = msgpool s"
  "msgnow (msg_text_free m s) = msgnow s" "msgfp (msg_text_free m s) = msgfp s"
  "msgh (msg_text_free m s) = msgh s" "msgque (msg_text_free m s) = msgque s"
  "msgmap (msg_text_free m s) =
     (if msg_ts (msgh s m) \<noteq> 0
      then fst (mfree (btoq s (msg_ts (msgh s m))) (msg_spot (msgh s m) + 1) (msgmap s)) else msgmap s)"
  by (simp_all add: msg_text_free_def mwake_def split: prod.split)

lemma msg_hdr_free_fields:
  "mi (msg_hdr_free m s) = mi s" "msgpool (msg_hdr_free m s) = msgpool s"
  "msgnow (msg_hdr_free m s) = msgnow s" "msgfp (msg_hdr_free m s) = Some m"
  "msgh (msg_hdr_free m s) = (msgh s)(m := (msgh s m)\<lparr>msg_next := msgfp s\<rparr>)"
  "msgque (msg_hdr_free m s) = msgque s" "msgmap (msg_hdr_free m s) = msgmap s"
  by (simp_all add: msg_hdr_free_def mwake_def upd_h_def Let_def)

lemma msgfree_fields:
  assumes "pmp \<noteq> Some m"
  shows "mi (msgfree q pmp m s) = mi s"
    and "msgpool (msgfree q pmp m s) = msgpool s"
    and "msgnow (msgfree q pmp m s) = msgnow s"
    and "msgfp (msgfree q pmp m s) = Some m"
    and "msgh (msgfree q pmp m s) =
      (relink pmp (msg_next (msgh s m)) (msgh s))(m := (msgh s m)\<lparr>msg_next := msgfp s\<rparr>)"
    and "msgque (msgfree q pmp m s) = (msgque s)(q := unlinked pmp (msg_next (msgh s m)) (msgque s q))"
    and "msgmap (msgfree q pmp m s) =
      (if msg_ts (msgh s m) \<noteq> 0
       then fst (mfree (btoq s (msg_ts (msgh s m))) (msg_spot (msgh s m) + 1) (msgmap s)) else msgmap s)"
  using assms relink_same [OF assms, of "msg_next (msgh s m)" "msgh s"]
  by (simp_all add: btoq_def msgfree_def msg_hdr_free_fields msg_text_free_fields msg_unlink_fields)

section \<open>msgfree keeps the structure\<close>

lemma last_opt_append: "ys \<noteq> [] \<Longrightarrow> last_opt (xs @ ys) = last_opt ys"
  by (simp add: last_opt_def)

lemma placedD:
  assumes "placed fl Q n"
  shows "distinct fl" "distinct (Q q)" "x \<in> set (Q q) \<Longrightarrow> x \<notin> set fl"
    "x \<in> set (Q q) \<Longrightarrow> x \<in> set (Q q') \<Longrightarrow> q = q'" "x \<in> set (Q q) \<Longrightarrow> x < n" "x \<in> set fl \<Longrightarrow> x < n"
  using assms unfolding placed_def by blast+

lemma placed_length: "placed fl Q n \<Longrightarrow> length (Q q) \<le> n"
proof -
  assume p: "placed fl Q n"
  have "card (set (Q q)) \<le> card {..<n}"
    by (rule card_mono) (use placedD(5) [OF p] in auto)
  with placedD(2) [OF p, of q] show ?thesis by (simp add: distinct_card)
qed

lemma placed_free:
  assumes p: "placed fl Q n" and q: "Q q = xs @ m # ys"
  shows "placed (m # fl) (Q(q := xs @ ys)) n"
proof -
  have m: "m \<notin> set fl" "m < n" using placedD(3,5) [OF p, of m q] q by auto
  have d: "distinct (xs @ m # ys)" using placedD(2) [OF p, of q] q by simp
  have ne: "m \<notin> set (Q q')" if "q' \<noteq> q" for q' using placedD(4) [OF p, of m q q'] q that by auto
  have mem: "x \<in> set ((Q(q := xs @ ys)) q') \<longleftrightarrow> x \<in> set (Q q') \<and> x \<noteq> m" for x q'
    using q d ne [of q'] by auto
  have u: "x \<in> set (Q q') \<Longrightarrow> x \<in> set (Q q'') \<Longrightarrow> q' = q''" for x q' q''
    by (rule placedD(4) [OF p])
  have iff: "x < n \<longleftrightarrow> x \<in> set fl \<or> (\<exists>q'. x \<in> set (Q q'))" for x
    using p by (simp add: placed_def)
  have mq: "m \<in> set (Q q)" using q by simp
  show ?thesis
    unfolding placed_def mem
  proof (intro conjI allI ballI impI)
    show "distinct (m # fl)" using m placedD(1) [OF p] by simp
    show "distinct ((Q(q := xs @ ys)) q')" for q' using d placedD(2) [OF p, of q'] by simp
    show "x \<notin> set (m # fl)" if "x \<in> set ((Q(q := xs @ ys)) q')" for q' x
      using that placedD(3) [OF p, of x q'] unfolding mem by simp
    show "q' = q''" if "(x \<in> set (Q q') \<and> x \<noteq> m) \<and> x \<in> set (Q q'') \<and> x \<noteq> m" for q' q'' x
      using that u [of x q' q''] by blast
    show "(x < n) = (x \<in> set (m # fl) \<or> (\<exists>q'. x \<in> set (Q q') \<and> x \<noteq> m))" for x
      using iff [of x] mq by auto
  qed
qed

lemma q_mode_alloc: "ipc_alloc (p\<lparr>p_mode := p_mode p AND NOT MSG_WWAIT\<rparr>) = ipc_alloc p"
  "ipc_alloc (p\<lparr>p_mode := p_mode p AND NOT MSG_RWAIT\<rparr>) = ipc_alloc p"
  "ipc_alloc (p\<lparr>p_mode := p_mode p OR MSG_WWAIT\<rparr>) = ipc_alloc p"
  "ipc_alloc (p\<lparr>p_mode := p_mode p OR MSG_RWAIT\<rparr>) = ipc_alloc p"
  by (simp_all add: ipc_alloc_def word_bw_assocs word_bw_comms bit.conj_disj_distrib2
        bit.conj_disj_distrib)

lemma seg_cong:
  "mi s' = mi s \<Longrightarrow> msg_ts (msgh s' m) = msg_ts (msgh s m) \<Longrightarrow> msg_spot (msgh s' m) = msg_spot (msgh s m) \<Longrightarrow>
   seg s' m = seg s m"
  by (simp add: seg_def btoq_def)

lemma placed_take:
  assumes p: "placed (m # fl) Q n"
  shows "placed fl (Q(q := Q q @ [m])) n"
proof -
  have m: "m \<notin> set fl" "m < n" and ne: "m \<notin> set (Q q')" for q'
    using placedD(1) [OF p] placedD(6) [OF p, of m] placedD(3) [OF p, of m q'] by auto
  have mem: "x \<in> set ((Q(q := Q q @ [m])) q') \<longleftrightarrow> x \<in> set (Q q') \<or> (x = m \<and> q' = q)" for x q'
    by auto
  have u: "x \<in> set (Q q') \<Longrightarrow> x \<in> set (Q q'') \<Longrightarrow> q' = q''" for x q' q''
    by (rule placedD(4) [OF p])
  have iff: "x < n \<longleftrightarrow> x = m \<or> x \<in> set fl \<or> (\<exists>q'. x \<in> set (Q q'))" for x
    using p by (simp add: placed_def disj_assoc)
  show ?thesis
    unfolding placed_def mem
  proof (intro conjI allI ballI impI)
    show "distinct fl" using placedD(1) [OF p] by simp
    show "distinct ((Q(q := Q q @ [m])) q')" for q' using ne placedD(2) [OF p, of q'] by auto
    show "x \<notin> set fl" if "x \<in> set ((Q(q := Q q @ [m])) q')" for q' x
      using that placedD(3) [OF p, of x q'] m unfolding mem by auto
    show "q' = q''" if "(x \<in> set (Q q') \<or> x = m \<and> q' = q) \<and> (x \<in> set (Q q'') \<or> x = m \<and> q'' = q)" for q' q'' x
      using that u [of x q' q''] ne by blast
    show "(x < n) = (x \<in> set fl \<or> (\<exists>q'. x \<in> set (Q q') \<or> x = m \<and> q' = q))" for x
      using iff [of x] by auto
  qed
qed

lemma placed_last:
  assumes p: "placed fl Q n" and q: "Q q = xs @ m # ys"
  shows "last_opt xs \<noteq> Some m"
  using placedD(2) [OF p, of q] q by (auto simp: last_opt_def split: if_splits)

text \<open>The chains of the free list and of the other queues do not see the unlinking.\<close>

lemma chain_relink:
  assumes "set zs \<inter> set xs = {}"
  shows "chain (relink (last_opt xs) nx h) p zs = chain h p zs"
  using assms by (intro chain_cong) (auto simp: relink_def last_opt_def disjoint_iff)

lemma queue_ok_free:
  assumes ok: "queue_ok s q (xs @ m # ys)" and d: "distinct (xs @ m # ys)" and n: "length (xs @ m # ys) \<le> 65535"
  shows "queue_ok (msgfree q (last_opt xs) m s) q (xs @ ys)"
proof -
  let ?h = "msgh s" and ?r = "msgque s q"
  have p: "last_opt xs \<noteq> Some m" using d by (auto simp: last_opt_def split: if_splits)
  have c: "chain ?h (msg_first ?r) (xs @ m # ys)" and l: "msg_last ?r = last_opt (xs @ m # ys)"
    and k: "msg_qnum ?r = int (length (xs @ m # ys))" and a: "ipc_alloc (msg_perm ?r)"
    using ok by (simp_all add: queue_ok_def)
  have t: "chain ?h (msg_next (?h m)) ys" using chain_suffix [OF c] .
  then have ne: "(msg_next (?h m) = None) = (ys = [])" by (cases ys) auto
  have "chain (relink (last_opt xs) (msg_next (?h m)) ?h)
          (if last_opt xs = None then msg_next (?h m) else msg_first ?r) (xs @ ys)"
  proof (cases "xs = []")
    case True
    with t show ?thesis by (simp add: last_opt_def relink_def)
  next
    case False
    with chain_unlink [OF c d] show ?thesis by (simp add: last_opt_def relink_def)
  qed
  then have "chain (msgh (msgfree q (last_opt xs) m s)) (msg_first (msgque (msgfree q (last_opt xs) m s) q)) (xs @ ys)"
    using d by (simp add: msgfree_fields [OF p] unlinked_def)
  moreover have "ys \<noteq> [] \<longrightarrow> last_opt (xs @ m # ys) = last_opt (xs @ ys)"
    by (simp add: last_opt_def)
  moreover have "u16 (int (length xs) + int (length ys)) = int (length xs) + int (length ys)"
    using n by (intro u16_id) simp_all
  ultimately show ?thesis
    using ok a l k ne q_mode_alloc(1) [of "msg_perm ?r"]
    by (simp add: queue_ok_def msgfree_fields [OF p] unlinked_def)
qed

lemma held_other:
  assumes "mi s' = mi s" "msg_ts (msgh s' x) = msg_ts (msgh s x)" "msg_spot (msgh s' x) = msg_spot (msgh s x)"
    "(\<exists>q. x \<in> set (Q' q)) = (\<exists>q. x \<in> set (Q q))"
  shows "held s' Q' x = held s Q x"
  using assms by (simp add: held_def seg_cong [of s' s])

text \<open>Freeing the text of a message returns exactly what its header held.\<close>

lemma release_held:
  assumes ok: "rmap_ok (msgmap s)" and b: "units (msgmap s) \<subseteq> {..<32768}"
    and l: "ledger (units (msgmap s)) h" and h: "h m = seg s m" and m: "msg_ok s m"
  shows "let mp = (if msg_ts (msgh s m) \<noteq> 0
           then fst (mfree (btoq s (msg_ts (msgh s m))) (msg_spot (msgh s m) + 1) (msgmap s)) else msgmap s)
         in rmap_ok mp \<and> units mp \<subseteq> {..<32768} \<and> ledger (units mp) (h(m := {}))"
proof (cases "msg_ts (msgh s m) = 0")
  case True
  then show ?thesis using ok b ledger_drop [OF l] by simp
next
  case False
  let ?a = "msg_spot (msgh s m) + 1" and ?n = "btoq s (msg_ts (msgh s m))"
  have r: "0 < msg_ts (msgh s m)" "0 < ?a" using m False by (auto simp: msg_ok_def)
  then have sg: "seg s m = {?a ..< ?a + ?n}" by (simp add: seg_def)
  have "{?a ..< ?a + ?n} \<inter> units (msgmap s) = {}"
    using l h sg by (auto simp: ledger_def)
  then have "units (fst (mfree ?n ?a (msgmap s))) \<subseteq> units (msgmap s) \<union> {?a ..< ?a + ?n}"
    using mfree_ok(2) [OF ok r(2)] by simp
  with m sg b have "units (fst (mfree ?n ?a (msgmap s))) \<subseteq> {..<32768}" by (auto simp: msg_ok_def)
  with False rm.ledger_release [OF ok r(2) l h [unfolded sg]] show ?thesis by simp
qed

lemma msgfree_struct:
  assumes st: "msg_struct s fl Q" and q: "Q q = xs @ m # ys"
  shows "msg_struct (msgfree q (last_opt xs) m s) (m # fl) (Q(q := xs @ ys))"
proof -
  let ?s = "msgfree q (last_opt xs) m s"
  from st have p: "placed fl Q (msgtql (mi s))" and cf: "cfg_ok (mi s)" and fc: "chain (msgh s) (msgfp s) fl"
    and qk: "queue_ok s q' (Q q')" and mk: "x \<in> set (Q q') \<Longrightarrow> msg_ok s x"
    and mp: "rmap_ok (msgmap s)" "units (msgmap s) \<subseteq> {..<32768}" "ledger (units (msgmap s)) (held s Q)" for q' x
    by (auto simp: msg_struct_def)
  have l: "last_opt xs \<noteq> Some m" by (rule placed_last [OF p q])
  note f = msgfree_fields [OF l]
  have d: "distinct (xs @ m # ys)" using placedD(2) [OF p, of q] q by simp
  have np: "placed (m # fl) (Q(q := xs @ ys)) (msgtql (mi s))" by (rule placed_free [OF p q])
  have mem: "m \<notin> set ((Q(q := xs @ ys)) q')" for q' using placedD(3) [OF np, of m q'] by auto
  have ts: "msg_ts (msgh ?s x) = msg_ts (msgh s x)" "msg_type (msgh ?s x) = msg_type (msgh s x)"
    "msg_spot (msgh ?s x) = msg_spot (msgh s x)" for x
    using relink_same [OF l] by (simp_all add: f)
  have inq: "x \<in> set (Q q)" if "x \<in> set (xs @ ys)" for x using that q by auto
  have "chain (msgh ?s) (msgfp ?s) (m # fl)"
  proof -
    have "m \<notin> set fl" "set fl \<inter> set xs = {}"
      using placedD(1) [OF np] placedD(3) [OF p] inq by auto
    with fc show ?thesis by (simp add: f chain_relink)
  qed
  moreover have "queue_ok ?s q' ((Q(q := xs @ ys)) q')" for q'
  proof (cases "q' = q")
    case True
    with queue_ok_free [OF qk [of q, unfolded q] d] placed_length [OF p, of q] cf q show ?thesis
      by (simp add: cfg_ok_def)
  next
    case False
    have "set (Q q') \<inter> set xs = {}" "m \<notin> set (Q q')"
      using placedD(4) [OF p, of _ q' q] inq False mem [of q'] by auto
    with qk [of q'] False show ?thesis by (simp add: queue_ok_def f chain_relink)
  qed
  moreover have "msg_ok ?s x" if "x \<in> set ((Q(q := xs @ ys)) q')" for x q'
  proof -
    have "msg_ok s x" using that mk inq by (auto split: if_splits)
    then show ?thesis unfolding msg_ok_def ts seg_cong [OF f(1) ts(1,3)] .
  qed
  moreover have "held ?s (Q(q := xs @ ys)) = (held s Q)(m := {})"
  proof
    fix x
    have "x \<noteq> m \<Longrightarrow> (\<exists>q'. x \<in> set ((Q(q := xs @ ys)) q')) = (\<exists>q'. x \<in> set (Q q'))"
      using q by (metis (no_types, opaque_lifting) Un_iff fun_upd_other fun_upd_same list.set_intros(2) set_ConsD set_append)
    then show "held ?s (Q(q := xs @ ys)) x = ((held s Q)(m := {})) x"
      using held_other [of ?s s x "Q(q := xs @ ys)" Q] mem by (auto simp: ts f held_def [of _ _ m])
  qed
  moreover have "held s Q m = seg s m"
  proof -
    have "m \<in> set (Q q)" using q by simp
    then show ?thesis unfolding held_def by metis
  qed
  ultimately show ?thesis
    using release_held [OF mp, of m] mk [of m q] np cf q
    by (simp add: msg_struct_def f Let_def)
qed

section \<open>Linking a new message\<close>

lemmas clear_idle_rwait = clear_idle [of _ MSG_RWAIT, simplified]

definition linked :: "user \<Rightarrow> int \<Rightarrow> nat \<Rightarrow> int \<Rightarrow> msqid_ds \<Rightarrow> msqid_ds" where
  "linked u t m cnt qp = qp\<lparr>
     msg_first := (if msg_last qp = None then Some m else msg_first qp), msg_last := Some m,
     msg_qnum := u16 (msg_qnum qp + 1), msg_cbytes := u16 (msg_cbytes qp + cnt),
     msg_lspid := u16 (u_pid u), msg_stime := t,
     msg_perm := (msg_perm qp)\<lparr>p_mode := p_mode (msg_perm qp) AND NOT MSG_RWAIT\<rparr>\<rparr>"

definition new_msg :: "int \<Rightarrow> int \<Rightarrow> int \<Rightarrow> msg" where
  "new_msg ty cnt spot = \<lparr>msg_next = None, msg_type = ty, msg_ts = s16 cnt,
     msg_spot = s16 (if cnt \<noteq> 0 then spot else - 1)\<rparr>"

lemma msg_enqueue_fields:
  "mi (msg_enqueue u q m ty cnt spot s) = mi s" "msgpool (msg_enqueue u q m ty cnt spot s) = msgpool s"
  "msgnow (msg_enqueue u q m ty cnt spot s) = msgnow s" "msgmap (msg_enqueue u q m ty cnt spot s) = msgmap s"
  "msgfp (msg_enqueue u q m ty cnt spot s) = msg_next (msgh s m)"
  "msgh (msg_enqueue u q m ty cnt spot s) =
     relink (msg_last (msgque s q)) (Some m) ((msgh s)(m := new_msg ty cnt spot))"
  "msgque (msg_enqueue u q m ty cnt spot s) = (msgque s)(q := linked u (msgnow s) m cnt (msgque s q))"
proof -
  note d = msg_enqueue_def Let_def upd_q_def upd_h_def mwake_def set_mode_def q_mode_def
  show "mi (msg_enqueue u q m ty cnt spot s) = mi s" "msgpool (msg_enqueue u q m ty cnt spot s) = msgpool s"
    "msgnow (msg_enqueue u q m ty cnt spot s) = msgnow s" "msgmap (msg_enqueue u q m ty cnt spot s) = msgmap s"
    "msgfp (msg_enqueue u q m ty cnt spot s) = msg_next (msgh s m)"
    by (simp_all add: d split: option.split)
  show "msgh (msg_enqueue u q m ty cnt spot s) =
     relink (msg_last (msgque s q)) (Some m) ((msgh s)(m := new_msg ty cnt spot))"
    by (simp add: d relink_def new_msg_def split: option.split)
  show "msgque (msg_enqueue u q m ty cnt spot s) = (msgque s)(q := linked u (msgnow s) m cnt (msgque s q))"
  proof (cases "msgque s q")
    case (fields pm)
    then show ?thesis
      by (cases pm; cases "msg_last (msgque s q)") (simp_all add: d linked_def clear_idle_rwait)
  qed
qed

lemma queue_ok_link:
  assumes ok: "queue_ok s q xs" and d: "distinct xs" "m \<notin> set xs" and n: "length xs < 65535"
    and a: "ipc_alloc (msg_perm (msgque s q))"
  shows "queue_ok (msg_enqueue u q m ty cnt spot s) q (xs @ [m])"
proof -
  let ?h = "(msgh s)(m := new_msg ty cnt spot)"
  have c: "chain ?h (msg_first (msgque s q)) xs" and l: "msg_last (msgque s q) = last_opt xs"
    and k: "msg_qnum (msgque s q) = int (length xs)"
    using ok d by (simp_all add: queue_ok_def)
  have "chain (relink (last_opt xs) (Some m) ?h) (if last_opt xs = None then Some m else msg_first (msgque s q)) (xs @ [m])"
  proof (cases "xs = []")
    case True
    then show ?thesis by (simp add: last_opt_def relink_def new_msg_def)
  next
    case False
    then show ?thesis using chain_link [OF c d(1) False d(2)] by (simp add: last_opt_def relink_def new_msg_def)
  qed
  moreover have "u16 (int (length xs) + 1) = int (length xs) + 1" using n by (intro u16_id) simp_all
  ultimately show ?thesis
    using ok a l k q_mode_alloc(2) [of "msg_perm (msgque s q)"]
    by (simp add: queue_ok_def msg_enqueue_fields linked_def last_opt_def)
qed

text \<open>The segments a message of \<open>cnt\<close> bytes at \<open>spot\<close> takes, as map units.\<close>

definition text_units :: "msgsys \<Rightarrow> int \<Rightarrow> int \<Rightarrow> int set" where
  "text_units s cnt spot = (if 0 < cnt then {spot + 1 ..< spot + 1 + btoq s cnt} else {})"

lemma seg_text_units: "seg s m = text_units s (msg_ts (msgh s m)) (msg_spot (msgh s m))"
  by (simp add: seg_def text_units_def)

lemma msg_enqueue_struct:
  assumes st: "msg_struct s (m # fl) Q" and a: "ipc_alloc (msg_perm (msgque s q))"
    and cnt: "0 \<le> cnt" "cnt \<le> 32767" and ty: "1 \<le> ty"
    and sp: "0 < cnt \<Longrightarrow> 0 \<le> spot \<and> spot \<le> 32767"
    and R: "text_units s cnt spot \<subseteq> {..<32768}" "text_units s cnt spot \<inter> units (msgmap s) = {}"
      "\<And>x. text_units s cnt spot \<inter> held s Q x = {}"
  shows "msg_struct (msg_enqueue u q m ty cnt spot s) fl (Q(q := Q q @ [m]))"
proof -
  let ?s = "msg_enqueue u q m ty cnt spot s"
  note f = msg_enqueue_fields [of u q m ty cnt spot s]
  from st have p: "placed (m # fl) Q (msgtql (mi s))" and cf: "cfg_ok (mi s)"
    and fc: "chain (msgh s) (msg_next (msgh s m)) fl"
    and qk: "queue_ok s q' (Q q')" and mk: "x \<in> set (Q q') \<Longrightarrow> msg_ok s x"
    and mp: "rmap_ok (msgmap s)" "units (msgmap s) \<subseteq> {..<32768}" "ledger (units (msgmap s)) (held s Q)" for q' x
    by (auto simp: msg_struct_def)
  have np: "placed fl (Q(q := Q q @ [m])) (msgtql (mi s))" by (rule placed_take [OF p])
  have mq: "m \<notin> set (Q q')" for q' using placedD(3) [OF p, of m q'] by auto
  have mf: "m \<notin> set fl" using placedD(1) [OF p] by simp
  have lst: "msg_last (msgque s q) = last_opt (Q q)" using qk [of q] by (simp add: queue_ok_def)
  have h: "msg_ts (msgh ?s x) = (if x = m then cnt else msg_ts (msgh s x))"
    "msg_type (msgh ?s x) = (if x = m then ty else msg_type (msgh s x))"
    "x \<noteq> m \<Longrightarrow> msg_spot (msgh ?s x) = msg_spot (msgh s x)"
    "x = m \<Longrightarrow> 0 < cnt \<Longrightarrow> msg_spot (msgh ?s x) = spot" for x
    using cnt sp by (auto simp: f new_msg_def trunc_simps)
  have sg: "seg ?s x = (if x = m then text_units s cnt spot else seg s x)" for x
    using h [of x] by (auto simp: seg_text_units text_units_def f btoq_def)
  have "chain (msgh ?s) (msgfp ?s) fl"
  proof -
    have "set fl \<inter> set (Q q) = {}" using placedD(3) [OF p, of _ q] by auto
    then show ?thesis using fc mf by (simp add: f lst chain_relink)
  qed
  moreover have "queue_ok ?s q' ((Q(q := Q q @ [m])) q')" for q'
  proof (cases "q' = q")
    case True
    have "length (Q q @ [m]) \<le> msgtql (mi s)" using placed_length [OF np, of q] by simp
    then have "length (Q q) < 65535" using cf by (simp add: cfg_ok_def)
    with queue_ok_link [OF qk [of q] placedD(2) [OF p] mq _ a] True show ?thesis by simp
  next
    case False
    have "set (Q q') \<inter> set (Q q) = {}" using placedD(4) [OF p, of _ q' q] False by auto
    with qk [of q'] False mq [of q'] show ?thesis by (simp add: queue_ok_def f lst chain_relink)
  qed
  moreover have "msg_ok ?s x" if "x \<in> set ((Q(q := Q q @ [m])) q')" for x q'
  proof (cases "x = m")
    case True
    with h [of m] sg [of m] cnt ty sp R(1) show ?thesis by (simp add: msg_ok_def)
  next
    case False
    with that have "msg_ok s x" using mk by (auto split: if_splits)
    with h [of x] sg [of x] False show ?thesis by (simp add: msg_ok_def)
  qed
  moreover have "held ?s (Q(q := Q q @ [m])) = (held s Q)(m := text_units s cnt spot)"
  proof
    fix x
    have "m \<in> set ((Q(q := Q q @ [m])) q)" by simp
    then have "\<exists>q'. m \<in> set ((Q(q := Q q @ [m])) q')" by blast
    moreover have "x \<noteq> m \<Longrightarrow> (\<exists>q'. x \<in> set ((Q(q := Q q @ [m])) q')) = (\<exists>q'. x \<in> set (Q q'))"
      by (metis (no_types, opaque_lifting) Un_iff fun_upd_other fun_upd_same empty_iff list.set(1) set_ConsD set_append)
    ultimately show "held ?s (Q(q := Q q @ [m])) x = ((held s Q)(m := text_units s cnt spot)) x"
      using sg [of x] unfolding held_def by auto
  qed
  moreover have "ledger (units (msgmap s)) ((held s Q)(m := text_units s cnt spot))"
    using mp(3) R by (auto simp: ledger_def)
  ultimately show ?thesis
    using np cf mp by (simp add: msg_struct_def f)
qed

section \<open>Steps that leave the chains alone\<close>

definition same_queue :: "msqid_ds \<Rightarrow> msqid_ds \<Rightarrow> bool" where
  "same_queue r r' = (msg_first r' = msg_first r \<and> msg_last r' = msg_last r \<and> msg_qnum r' = msg_qnum r \<and>
     (ipc_alloc (msg_perm r) \<longrightarrow> ipc_alloc (msg_perm r') \<or> msg_first r = None) \<and>
     0 \<le> p_seq (msg_perm r') \<and> p_seq (msg_perm r') < 65536)"

lemma msg_struct_frame:
  assumes st: "msg_struct s fl Q"
    and f: "mi s' = mi s" "msgh s' = msgh s" "msgfp s' = msgfp s"
    and q: "\<And>q. same_queue (msgque s q) (msgque s' q)"
    and mp: "rmap_ok (msgmap s')" "units (msgmap s') \<subseteq> units (msgmap s)"
  shows "msg_struct s' fl Q"
proof -
  have sg: "seg s' = seg s" by (simp add: seg_def btoq_def f fun_eq_iff)
  then have mk: "msg_ok s' = msg_ok s" by (simp add: msg_ok_def f fun_eq_iff)
  have h: "held s' Q = held s Q" using sg by (simp add: held_def fun_eq_iff)
  have "queue_ok s' q' (Q q')" for q'
  proof -
    have "queue_ok s q' (Q q')" using st by (simp add: msg_struct_def)
    with q [of q'] show ?thesis
      by (cases "Q q'") (auto simp: queue_ok_def same_queue_def f)
  qed
  with st mp ledger_shrink [OF _ mp(2)] show ?thesis
    unfolding msg_struct_def h mk f by blast
qed

lemma units_want [simp]: "units (mp\<lparr>mapwant := n\<rparr>) = units mp"
  "rmap_ok (mp\<lparr>mapwant := n\<rparr>) = rmap_ok mp"
  by (simp_all add: units_def live_def rmap_ok_def)

lemma same_queue_refl: "queue_ok s q xs \<Longrightarrow> same_queue (msgque s q) (msgque s q)"
  by (simp add: queue_ok_def same_queue_def)

lemma msg_struct_queue: "msg_struct s fl Q \<Longrightarrow> queue_ok s q (Q q)"
  by (simp add: msg_struct_def)

lemma msg_struct_upd_q:
  assumes "msg_struct s fl Q" "same_queue (msgque s q) (f (msgque s q))"
  shows "msg_struct (upd_q q f s) fl Q"
  using assms same_queue_refl [OF msg_struct_queue [OF assms(1)]]
  by (intro msg_struct_frame [OF assms(1)]) (auto simp: upd_q_def msg_struct_def)

section \<open>The queues as lists of (type, text)\<close>

definition msg_text :: "msgsys \<Rightarrow> nat \<Rightarrow> byte list" where
  "msg_text s m = pool_text s (msg_spot (msgh s m)) (nat (msg_ts (msgh s m)))"

definition contents :: "msgsys \<Rightarrow> nat list \<Rightarrow> (int \<times> byte list) list" where
  "contents s xs = map (\<lambda>m. (msg_type (msgh s m), msg_text s m)) xs"

text \<open>
  The abstraction: the tables satisfy the invariant for some free list and queues, and
  \<open>A q\<close> lists the (type, text) pairs of queue \<open>q\<close> in order.
\<close>

definition mq_abs :: "msgsys \<Rightarrow> (nat \<Rightarrow> (int \<times> byte list) list) \<Rightarrow> bool" where
  "mq_abs s A = (\<exists>fl Q. msg_inv s fl Q \<and> (\<forall>q. A q = contents s (Q q)))"

definition same_stats :: "msqid_ds \<Rightarrow> msqid_ds \<Rightarrow> bool" where
  "same_stats r r' = (same_queue r r' \<and> msg_cbytes r' = msg_cbytes r \<and>
     0 \<le> msg_qbytes r' \<and> msg_qbytes r' < 65536)"

lemma same_stats_refl: "msg_inv s fl Q \<Longrightarrow> same_stats (msgque s q) (msgque s q)"
  using same_queue_refl [OF msg_struct_queue, of s fl Q q] by (simp add: msg_inv_def bytes_ok_def same_stats_def)

lemma contents_cong:
  assumes "mi s' = mi s" "msgpool s' = msgpool s"
    "\<And>x. x \<in> set xs \<Longrightarrow> msg_type (msgh s' x) = msg_type (msgh s x) \<and> msg_ts (msgh s' x) = msg_ts (msgh s x) \<and>
      msg_spot (msgh s' x) = msg_spot (msgh s x)"
  shows "contents s' xs = contents s xs"
  using assms by (simp add: contents_def msg_text_def pool_text_def)

lemma msg_inv_frame:
  assumes iv: "msg_inv s fl Q"
    and f: "mi s' = mi s" "msgh s' = msgh s" "msgfp s' = msgfp s"
    and q: "\<And>q. same_stats (msgque s q) (msgque s' q)"
    and mp: "rmap_ok (msgmap s')" "units (msgmap s') \<subseteq> units (msgmap s)"
  shows "msg_inv s' fl Q"
proof -
  have "msg_struct s' fl Q"
    using iv q mp by (intro msg_struct_frame [of s, OF _ f]) (simp_all add: msg_inv_def same_stats_def)
  moreover have "bytes_ok s' Q"
  proof -
    have "msg_cbytes (msgque s q') = q_bytes s (Q q') \<and> msg_cbytes (msgque s q') < 65536" for q'
      using iv unfolding msg_inv_def bytes_ok_def by blast
    with q show ?thesis unfolding bytes_ok_def same_stats_def q_bytes_def f by metis
  qed
  ultimately show ?thesis by (simp add: msg_inv_def)
qed

lemma mq_abs_frame:
  assumes a: "mq_abs s A"
    and f: "mi s' = mi s" "msgh s' = msgh s" "msgfp s' = msgfp s" "msgpool s' = msgpool s"
    and q: "\<And>q. msgque s' q \<noteq> msgque s q \<Longrightarrow> same_stats (msgque s q) (msgque s' q)"
    and mp: "rmap_ok (msgmap s')" "units (msgmap s') \<subseteq> units (msgmap s)"
  shows "mq_abs s' A"
proof -
  from a obtain fl Q where iv: "msg_inv s fl Q" and A: "\<forall>q. A q = contents s (Q q)"
    by (auto simp: mq_abs_def)
  have "same_stats (msgque s q) (msgque s' q)" for q
    using q [of q] same_stats_refl [OF iv, of q] by (cases "msgque s' q = msgque s q") auto
  then have "msg_inv s' fl Q" by (rule msg_inv_frame [OF iv f(1-3) _ mp])
  moreover have "contents s' xs = contents s xs" for xs by (rule contents_cong) (simp_all add: f)
  ultimately show ?thesis using A by (auto simp: mq_abs_def)
qed

lemma mq_abs_map_ok: "mq_abs s A \<Longrightarrow> rmap_ok (msgmap s)"
  by (auto simp: mq_abs_def msg_inv_def msg_struct_def)

lemma mq_abs_wake: "mq_abs s A \<Longrightarrow> mq_abs (mwake c s) A"
  by (rule mq_abs_frame) (auto simp: mwake_def mq_abs_map_ok)

lemma mq_abs_map:
  assumes "mq_abs s A" "rmap_ok mp" "units mp \<subseteq> units (msgmap s)"
  shows "mq_abs (s\<lparr>msgmap := mp\<rparr>) A"
  by (rule mq_abs_frame [OF assms(1)]) (use assms in auto)

lemma mq_abs_malloc:
  assumes "mq_abs s A" "0 < n"
  shows "mq_abs (s\<lparr>msgmap := snd (malloc n (msgmap s))\<rparr>) A"
  using assms mq_abs_map_ok [OF assms(1)] rm.alloc_ok [of "msgmap s" n] rm.alloc_shrinks [of "msgmap s" n]
  by (intro mq_abs_map) simp_all

lemma mq_abs_upd_q:
  assumes "mq_abs s A" "same_stats (msgque s q) (f (msgque s q))"
  shows "mq_abs (upd_q q f s) A"
  by (rule mq_abs_frame [OF assms(1)]) (use assms mq_abs_map_ok in \<open>auto simp: upd_q_def split: if_splits\<close>)

lemma mq_abs_mode:
  assumes "mq_abs s A" and k: "k = MSG_WWAIT \<or> k = MSG_RWAIT"
  shows "mq_abs (upd_q q (set_mode (q_mode s q OR k)) s) A"
    and "mq_abs (upd_q q (set_mode (q_mode s q AND NOT k)) s) A"
proof -
  from assms obtain fl Q where "msg_inv s fl Q" by (auto simp: mq_abs_def)
  then have "same_stats (msgque s q) (msgque s q)" by (rule same_stats_refl)
  then have "same_stats (msgque s q) (set_mode (q_mode s q OR k) (msgque s q))"
    "same_stats (msgque s q) (set_mode (q_mode s q AND NOT k) (msgque s q))"
    using k q_mode_alloc [of "msg_perm (msgque s q)"]
    by (auto simp: same_stats_def same_queue_def set_mode_def q_mode_def)
  then show "mq_abs (upd_q q (set_mode (q_mode s q OR k)) s) A"
    "mq_abs (upd_q q (set_mode (q_mode s q AND NOT k)) s) A"
    using mq_abs_upd_q [OF assms(1)] by blast+
qed

end
