(* ===== verification/Msg_Spec.thy ===== *)
theory Msg_Spec
  imports Msg_Inv
begin

text \<open>
  The message operations over the abstraction: sending appends a (type, text) pair, receiving
  selects and deletes one, no loop of the code runs past the chains, and every reachable state,
  calls parked in a \<open>sleep\<close> included, satisfies the invariant. The properties of the message
  component stand at the end.
\<close>

section \<open>The bytes of a message and its segments\<close>

lemma byte_unit:
  fixes z :: int
  assumes "0 < z" "0 \<le> j" "j < n"
  shows "(z * sp + j) div z + 1 \<in> {sp + 1 ..< sp + 1 + (n + z - 1) div z}"
proof -
  have "n + z - 1 = (n - 1) + z" by simp
  then have "(n + z - 1) div z = (n - 1) div z + 1" using assms by (metis div_add_self2 less_irrefl)
  moreover have "j div z \<le> (n - 1) div z" using assms by (intro zdiv_mono1) simp_all
  moreover have "0 \<le> j div z" using assms by (simp add: pos_imp_zdiv_nonneg_iff)
  ultimately show ?thesis using assms by simp
qed

text \<open>Storing the text of a new message does not touch a message with other segments.\<close>

lemma pool_store_other:
  assumes z: "0 < msgssz (mi s)" and d: "text_units s (int (length bs)) spot \<inter> text_units s (int n) sp' = {}"
  shows "pool_text (s\<lparr>msgpool := pool_store (msgpool s) (msgssz (mi s) * spot) bs\<rparr>) sp' n = pool_text s sp' n"
proof -
  have "pool_store (msgpool s) (msgssz (mi s) * spot) bs (msgssz (mi s) * sp' + int i) = msgpool s (msgssz (mi s) * sp' + int i)"
    if i: "i < n" for i
  proof -
    let ?b = "msgssz (mi s) * sp' + int i"
    have "?b div msgssz (mi s) + 1 \<in> text_units s (int n) sp'"
      using byte_unit [OF z, of "int i" "int n" sp'] i by (simp add: text_units_def btoq_def)
    moreover have "?b div msgssz (mi s) + 1 \<in> text_units s (int (length bs)) spot"
      if "msgssz (mi s) * spot \<le> ?b" "?b < msgssz (mi s) * spot + int (length bs)"
      using byte_unit [OF z, of "?b - msgssz (mi s) * spot" "int (length bs)" spot] that
      by (auto simp: text_units_def btoq_def)
    ultimately show ?thesis using d by (auto simp: pool_store_def)
  qed
  then show ?thesis by (simp add: pool_text_def)
qed

lemma pool_store_same:
  "pool_text (s\<lparr>msgpool := pool_store (msgpool s) (msgssz (mi s) * spot) bs\<rparr>) spot (length bs) = bs"
  by (rule nth_equalityI) (simp_all add: pool_text_def pool_store_def)

lemma pool_text_cong: "mi s' = mi s \<Longrightarrow> msgpool s' = msgpool s \<Longrightarrow> pool_text s' = pool_text s"
  by (simp add: pool_text_def fun_eq_iff)

lemma pool_store_Nil [simp]: "pool_store p b [] = p"
  by (auto simp: pool_store_def fun_eq_iff)

section \<open>Sending appends\<close>

text \<open>
  What \<open>msgsnd\<close> does once it has a header and its segments: the text into the pool, the
  header onto the queue.
\<close>

lemma send_inv:
  fixes u :: user
  assumes iv: "msg_inv s fl Q" and fp: "msgfp s = Some m" and al: "ipc_alloc (msg_perm (msgque s q))"
    and cnt: "0 \<le> cnt" "cnt \<le> 32767" "length bs = nat cnt" and ty: "1 \<le> ty"
    and room: "cnt + msg_cbytes (msgque s q) \<le> msg_qbytes (msgque s q)"
    and mp: "cnt \<noteq> 0 \<Longrightarrow> malloc (btoq s cnt) (msgmap s) = (spot + 1, mp) \<and> spot \<noteq> - 1"
    and mp0: "cnt = 0 \<Longrightarrow> mp = msgmap s"
  defines "s1 \<equiv> s\<lparr>msgmap := mp, msgpool := pool_store (msgpool s) (msgssz (mi s) * spot) bs\<rparr>"
  defines "s' \<equiv> msg_enqueue u q m ty cnt spot s1"
  shows "\<exists>fl'. fl = m # fl' \<and> msg_inv s' fl' (Q(q := Q q @ [m])) \<and>
           contents s' (Q q @ [m]) = contents s (Q q) @ [(ty, bs)] \<and>
           (\<forall>q'. q' \<noteq> q \<longrightarrow> contents s' (Q q') = contents s (Q q'))"
proof -
  have st: "msg_struct s fl Q" using iv by (simp add: msg_inv_def)
  then have cf: "0 < msgssz (mi s)" by (simp add: msg_struct_def cfg_ok_def)
  from st have ok: "rmap_ok (msgmap s)" "units (msgmap s) \<subseteq> {..<32768}" "ledger (units (msgmap s)) (held s Q)"
    by (simp_all add: msg_struct_def)
  from st fp obtain fl' where fl: "fl = m # fl'" by (auto simp: msg_struct_def chain_Some)
  have pos: "0 < btoq s cnt" if "cnt \<noteq> 0"
  proof -
    have "btoq s cnt = (cnt - 1) div msgssz (mi s) + 1"
      using cf by (simp add: btoq_def) (metis add.commute add_diff_eq div_add_self2 less_irrefl)
    moreover have "0 \<le> (cnt - 1) div msgssz (mi s)" using cf cnt that by (simp add: pos_imp_zdiv_nonneg_iff)
    ultimately show ?thesis by simp
  qed
  have R: "rmap_ok mp" "units mp \<subseteq> units (msgmap s)" "text_units s cnt spot \<subseteq> units (msgmap s)"
    "text_units s cnt spot \<inter> units mp = {}"
  proof -
    have "rmap_ok mp \<and> units mp \<subseteq> units (msgmap s) \<and> text_units s cnt spot \<subseteq> units (msgmap s) \<and>
      text_units s cnt spot \<inter> units mp = {}"
    proof (cases "cnt = 0")
      case True
      with mp0 ok show ?thesis by (simp add: text_units_def)
    next
      case False
      with malloc_units [OF ok(1) pos] mp [OF False] show ?thesis by (auto simp: text_units_def)
    qed
    then show "rmap_ok mp" "units mp \<subseteq> units (msgmap s)" "text_units s cnt spot \<subseteq> units (msgmap s)"
      "text_units s cnt spot \<inter> units mp = {}" by simp_all
  qed
  have sp: "0 \<le> spot \<and> spot \<le> 32767" if "0 < cnt"
  proof -
    have "spot + 1 \<in> text_units s cnt spot" using that pos by (simp add: text_units_def)
    then have "spot + 1 \<in> units (msgmap s)" using R(3) by blast
    with units_positive [OF ok(1)] ok(2) show ?thesis by force
  qed
  have hd: "text_units s cnt spot \<inter> held s Q x = {}" for x
    using R(3) ok(3) by (auto simp: ledger_def)
  have tu: "text_units s1 = text_units s" by (simp add: s1_def text_units_def btoq_def fun_eq_iff)
  have sg: "held s1 Q = held s Q" by (simp add: s1_def held_def seg_def btoq_def fun_eq_iff)
  have st1: "msg_struct s1 (m # fl') Q"
    by (rule msg_struct_frame [OF st [unfolded fl]])
      (use R same_queue_refl [OF msg_struct_queue [OF st]] in \<open>simp_all add: s1_def\<close>)
  have "msg_struct s' fl' (Q(q := Q q @ [m]))"
    unfolding s'_def
  proof (rule msg_enqueue_struct [OF st1 _ cnt(1,2) ty])
    show "ipc_alloc (msg_perm (msgque s1 q))" using al by (simp add: s1_def)
    show "text_units s1 cnt spot \<subseteq> {..<32768}" using R(3) ok(2) unfolding tu by blast
    show "text_units s1 cnt spot \<inter> units (msgmap s1) = {}" using R(4) unfolding tu by (simp add: s1_def)
    show "text_units s1 cnt spot \<inter> held s1 Q x = {}" for x using hd unfolding tu sg .
  qed (rule sp)
  have p: "placed (m # fl') Q (msgtql (mi s))" and mk: "x \<in> set (Q q') \<Longrightarrow> msg_ok s x" for x q'
    using st by (simp_all add: msg_struct_def fl)
  have mq: "x \<noteq> m" if "x \<in> set (Q q')" for x q' using placedD(3) [OF p that] by auto
  have h: "msg_ts (msgh s' x) = (if x = m then cnt else msg_ts (msgh s x))"
    "msg_type (msgh s' x) = (if x = m then ty else msg_type (msgh s x))"
    "x \<noteq> m \<Longrightarrow> msg_spot (msgh s' x) = msg_spot (msgh s x)"
    "x = m \<Longrightarrow> 0 < cnt \<Longrightarrow> msg_spot (msgh s' x) = spot" for x
    using cnt sp by (auto simp: s'_def s1_def msg_enqueue_fields new_msg_def trunc_simps)
  have qb: "q_bytes s' (Q q') = q_bytes s (Q q')" for q'
    unfolding q_bytes_def using h mq [of _ q'] by (intro arg_cong [where f = sum_list]) simp
  have by': "bytes_ok s' (Q(q := Q q @ [m]))"
    unfolding bytes_ok_def
  proof
    fix q'
    have b: "msg_cbytes (msgque s q') = q_bytes s (Q q')" "msg_cbytes (msgque s q') < 65536"
      "0 \<le> msg_qbytes (msgque s q')" "msg_qbytes (msgque s q') < 65536"
      using iv unfolding msg_inv_def bytes_ok_def by blast+
    have "0 \<le> q_bytes s (Q q')"
      unfolding q_bytes_def using mk [of _ q'] by (intro sum_list_nonneg) (auto simp: msg_ok_def)
    moreover have "q_bytes s' (Q q @ [m]) = q_bytes s (Q q) + cnt"
      using qb [of q] h(1) [of m] by (simp add: q_bytes_def)
    ultimately show "msg_cbytes (msgque s' q') = q_bytes s' ((Q(q := Q q @ [m])) q') \<and> msg_cbytes (msgque s' q') < 65536 \<and>
        0 \<le> msg_qbytes (msgque s' q') \<and> msg_qbytes (msgque s' q') < 65536"
      using b qb [of q'] room cnt
      by (cases "q' = q") (simp_all add: s'_def s1_def msg_enqueue_fields linked_def u16_id)
  qed
  have tx: "msg_text s' x = msg_text s x" if "x \<in> set (Q q')" for x q'
  proof -
    have "held s Q x = text_units s (msg_ts (msgh s x)) (msg_spot (msgh s x))"
      using that unfolding held_def seg_text_units by metis
    moreover have "0 \<le> msg_ts (msgh s x)" using mk [OF that] by (simp add: msg_ok_def)
    ultimately have "text_units s (int (length bs)) spot \<inter> text_units s (int (nat (msg_ts (msgh s x)))) (msg_spot (msgh s x)) = {}"
      using hd [of x] cnt by simp
    from pool_store_other [OF cf this] show ?thesis
      using h [of x] mq [OF that]
      by (simp add: msg_text_def s'_def s1_def msg_enqueue_fields pool_text_def)
  qed
  have "msg_text s' m = bs"
    using pool_store_same [of s spot bs] h(1,4) [of m] cnt
    by (cases "cnt = 0") (simp_all add: msg_text_def s'_def s1_def msg_enqueue_fields pool_text_def)
  then have "contents s' (Q q @ [m]) = contents s' (Q q) @ [(ty, bs)]"
    using h(2) [of m] by (simp add: contents_def)
  moreover have "contents s' (Q q') = contents s (Q q')" for q'
    using h(2) mq [of _ q'] tx [of _ q'] by (simp add: contents_def)
  ultimately show ?thesis
    using fl by' \<open>msg_struct s' fl' (Q(q := Q q @ [m]))\<close> by (simp add: msg_inv_def)
qed

section \<open>Receiving: which message\<close>

text \<open>
  The selection rule of msgop(2): type 0 takes the first message, a positive type the first of
  that type, a negative type the first of the lowest type not above its absolute value (negated
  as a 32-bit long).
\<close>

definition first_at :: "(int \<Rightarrow> bool) \<Rightarrow> (int \<times> 'a) list \<Rightarrow> nat option" where
  "first_at P xs =
     (if list_ex (\<lambda>x. P (fst x)) xs then Some (length (takeWhile (\<lambda>x. \<not> P (fst x)) xs)) else None)"

definition msg_select :: "int \<Rightarrow> (int \<times> 'a) list \<Rightarrow> nat option" where
  "msg_select typ xs =
     (if typ = 0 then first_at (\<lambda>_. True) xs
      else if typ > 0 then first_at (\<lambda>t. t = typ) xs
      else (case filter (\<lambda>t. t \<le> i32 (- typ)) (map fst xs) of
              [] \<Rightarrow> None
            | t # ts \<Rightarrow> first_at (\<lambda>t'. t' = fold min ts t) xs))"

lemma first_at_split:
  "P (fst k) \<Longrightarrow> \<forall>x \<in> set as. \<not> P (fst x) \<Longrightarrow> first_at P (as @ k # bs) = Some (length as)"
  by (simp add: first_at_def takeWhile_stop)

lemma first_at_none: "\<forall>x \<in> set xs. \<not> P (fst x) \<Longrightarrow> first_at P xs = None"
  by (auto simp: first_at_def list_ex_iff)

lemma msg_select_least:
  assumes "typ < 0" "fst k \<le> i32 (- typ)" "\<forall>x \<in> set as. fst k < fst x" "\<forall>x \<in> set bs. fst k \<le> fst x"
  shows "msg_select typ (as @ k # bs) = Some (length as)"
proof -
  let ?c = "filter (\<lambda>t. t \<le> i32 (- typ)) (map fst (as @ k # bs))"
  have m: "Min (set ?c) = fst k" using assms by (intro Min_eqI) auto
  have "?c \<noteq> []" using assms(2) by simp
  then obtain t ts where c: "?c = t # ts" by (cases ?c) auto
  with m have "fold min ts t = fst k" by (simp only: Min.set_eq_fold)
  moreover have "first_at (\<lambda>t'. t' = fst k) (as @ k # bs) = Some (length as)"
    using assms(3) by (intro first_at_split) auto
  ultimately show ?thesis using assms(1) c by (simp add: msg_select_def)
qed

lemma msg_select_none_neg: "typ < 0 \<Longrightarrow> \<forall>x \<in> set xs. i32 (- typ) < fst x \<Longrightarrow> msg_select typ xs = None"
proof -
  assume "typ < 0" and a: "\<forall>x \<in> set xs. i32 (- typ) < fst x"
  have "filter (\<lambda>t. t \<le> i32 (- typ)) (map fst xs) = []" using a by (auto simp: filter_empty_conv)
  with \<open>typ < 0\<close> show ?thesis by (simp add: msg_select_def)
qed

text \<open>What the scan of a negative type knows about the headers passed.\<close>

definition best_ok :: "(nat \<Rightarrow> msg) \<Rightarrow> int \<Rightarrow> nat list \<Rightarrow> nat option \<Rightarrow> nat option \<Rightarrow> bool" where
  "best_ok h lim pre smp spmp =
     (case smp of
        None \<Rightarrow> \<forall>x \<in> set pre. lim < msg_type (h x)
      | Some k \<Rightarrow> \<exists>as bs. pre = as @ k # bs \<and> spmp = last_opt as \<and> msg_type (h k) \<le> lim \<and>
          (\<forall>x \<in> set as. msg_type (h k) < msg_type (h x)) \<and> (\<forall>x \<in> set bs. msg_type (h k) \<le> msg_type (h x)))"

lemma best_ok_pass:
  "best_ok h lim pre smp spmp \<Longrightarrow> (case smp of None \<Rightarrow> lim < msg_type (h m) | Some k \<Rightarrow> msg_type (h k) \<le> msg_type (h m)) \<Longrightarrow>
   best_ok h lim (pre @ [m]) smp spmp"
proof (cases smp)
  case (Some k)
  assume "best_ok h lim pre smp spmp" and le: "case smp of None \<Rightarrow> lim < msg_type (h m) | Some k \<Rightarrow> msg_type (h k) \<le> msg_type (h m)"
  with Some obtain as bs where "pre = as @ k # bs" "spmp = last_opt as" "msg_type (h k) \<le> lim"
    "\<forall>x \<in> set as. msg_type (h k) < msg_type (h x)" "\<forall>x \<in> set bs. msg_type (h k) \<le> msg_type (h x)"
    by (auto simp: best_ok_def)
  with Some le have "pre @ [m] = as @ k # (bs @ [m]) \<and> spmp = last_opt as \<and> msg_type (h k) \<le> lim \<and>
    (\<forall>x \<in> set as. msg_type (h k) < msg_type (h x)) \<and> (\<forall>x \<in> set (bs @ [m]). msg_type (h k) \<le> msg_type (h x))" by auto
  with Some show ?thesis unfolding best_ok_def by (simp only: option.case) blast
qed (auto simp: best_ok_def)

lemma best_ok_take:
  assumes "best_ok h lim pre smp spmp" "msg_type (h m) \<le> lim"
    "case smp of None \<Rightarrow> True | Some k \<Rightarrow> msg_type (h m) < msg_type (h k)"
  shows "best_ok h lim (pre @ [m]) (Some m) (last_opt pre)"
proof -
  have "\<forall>x \<in> set pre. msg_type (h m) < msg_type (h x)"
    using assms by (cases smp) (force simp: best_ok_def)+
  with assms(2) have "pre @ [m] = pre @ m # [] \<and> last_opt pre = last_opt pre \<and> msg_type (h m) \<le> lim \<and>
    (\<forall>x \<in> set pre. msg_type (h m) < msg_type (h x)) \<and> (\<forall>x \<in> set []. msg_type (h m) \<le> msg_type (h x))" by simp
  then show ?thesis unfolding best_ok_def by (simp only: option.case) blast
qed

lemma findmsg_neg:
  "chain h mp rest \<Longrightarrow> best_ok h (i32 (- typ)) pre smp spmp \<Longrightarrow> length rest < f \<Longrightarrow> typ < 0 \<Longrightarrow>
   \<exists>a b. findmsg f h typ (last_opt pre) mp smp spmp = Some (a, b) \<and> best_ok h (i32 (- typ)) (pre @ rest) a b"
proof (induction rest arbitrary: f pre mp smp spmp)
  case Nil
  then show ?case by (cases f) auto
next
  case (Cons m rest)
  from Cons.prems obtain f' where f: "f = Suc f'" "length rest < f'" by (cases f) auto
  from Cons.prems have c: "mp = Some m" "chain h (msg_next (h m)) rest" by auto
  have l: "last_opt (pre @ [m]) = Some m" by (simp add: last_opt_def)
  have ih: "best_ok h (i32 (- typ)) (pre @ [m]) a b \<Longrightarrow>
      \<exists>a' b'. findmsg f' h typ (Some m) (msg_next (h m)) a b = Some (a', b') \<and>
        best_ok h (i32 (- typ)) (pre @ m # rest) a' b'" for a b
    using Cons.IH [OF c(2), of "pre @ [m]" a b f'] f(2) Cons.prems(4) by (simp add: l)
  show ?case
  proof (cases "msg_type (h m) \<le> i32 (- typ) \<and> (case smp of None \<Rightarrow> True | Some k \<Rightarrow> msg_type (h m) < msg_type (h k))")
    case True
    with best_ok_take [OF Cons.prems(2)] have "best_ok h (i32 (- typ)) (pre @ [m]) (Some m) (last_opt pre)" by simp
    from ih [OF this] True c f(1) Cons.prems(4) show ?thesis by (cases smp) (auto simp: not_le)
  next
    case False
    have "case smp of None \<Rightarrow> i32 (- typ) < msg_type (h m) | Some k \<Rightarrow> msg_type (h k) \<le> msg_type (h m)"
      using False Cons.prems(2) by (cases smp) (auto simp: best_ok_def)
    with best_ok_pass [OF Cons.prems(2)] have "best_ok h (i32 (- typ)) (pre @ [m]) smp spmp" by simp
    from ih [OF this] False c f(1) Cons.prems(4) show ?thesis by (cases smp) (auto simp: not_le)
  qed
qed

lemma findmsg_pos:
  "chain h mp (as @ k # bs) \<Longrightarrow> msg_type (h k) = typ \<Longrightarrow> \<forall>x \<in> set as. msg_type (h x) \<noteq> typ \<Longrightarrow>
   length as < f \<Longrightarrow> 0 < typ \<Longrightarrow>
   findmsg f h typ (last_opt pre) mp None None = Some (Some k, last_opt (pre @ as))"
proof (induction as arbitrary: f pre mp)
  case Nil
  then show ?case by (cases f) auto
next
  case (Cons m as)
  from Cons.prems obtain f' where f: "f = Suc f'" "length as < f'" by (cases f) auto
  have "last_opt (pre @ [m]) = Some m" by (simp add: last_opt_def)
  with Cons.IH [of "msg_next (h m)" f' "pre @ [m]"] Cons.prems f show ?case by auto
qed

lemma findmsg_pos_none:
  "chain h mp xs \<Longrightarrow> \<forall>x \<in> set xs. msg_type (h x) \<noteq> typ \<Longrightarrow> length xs < f \<Longrightarrow> 0 < typ \<Longrightarrow>
   findmsg f h typ pmp mp None None = Some (None, None)"
proof (induction xs arbitrary: f pmp mp)
  case Nil
  then show ?case by (cases f) auto
next
  case (Cons m xs)
  from Cons.prems obtain f' where f: "f = Suc f'" "length xs < f'" by (cases f) auto
  with Cons show ?case by auto
qed

lemma first_at_cases:
  "first_at P xs = None \<Longrightarrow> \<forall>x \<in> set xs. \<not> P (fst x)"
  "first_at P xs = Some i \<Longrightarrow> \<exists>as k bs. xs = as @ k # bs \<and> i = length as \<and> P (fst k) \<and> (\<forall>x \<in> set as. \<not> P (fst x))"
proof -
  show "first_at P xs = None \<Longrightarrow> \<forall>x \<in> set xs. \<not> P (fst x)"
    by (auto simp: first_at_def list_ex_iff split: if_splits)
  show "\<exists>as k bs. xs = as @ k # bs \<and> i = length as \<and> P (fst k) \<and> (\<forall>x \<in> set as. \<not> P (fst x))"
    if s: "first_at P xs = Some i"
  proof -
    from s have e: "\<exists>x \<in> set xs. P (fst x)" and i: "i = length (takeWhile (\<lambda>x. \<not> P (fst x)) xs)"
      by (auto simp: first_at_def list_ex_iff split: if_splits)
    from split_list_first_prop [OF e] obtain as k bs where "xs = as @ k # bs" "P (fst k)" "\<forall>x \<in> set as. \<not> P (fst x)" by blast
    with i show ?thesis by (intro exI [of _ as] exI [of _ k] exI [of _ bs]) (simp add: takeWhile_stop)
  qed
qed

text \<open>
  The search of \<open>msgrcv\<close> ends, and finds the message the rule names together with its
  predecessor.
\<close>

lemma findmsg_select:
  assumes c: "chain (msgh s) (msg_first (msgque s q)) xs" and f: "length xs < f"
    and t: "typ \<noteq> 0"
  shows "(case msg_select typ (contents s xs) of
            None \<Rightarrow> \<exists>p. findmsg f (msgh s) typ None (msg_first (msgque s q)) None None = Some (None, p)
          | Some i \<Rightarrow> \<exists>as k bs. xs = as @ k # bs \<and> i = length as \<and>
              findmsg f (msgh s) typ None (msg_first (msgque s q)) None None = Some (Some k, last_opt as))"
proof -
  have l: "last_opt [] = None" by (simp add: last_opt_def)
  show ?thesis
  proof (cases "0 < typ")
    case True
    then have sel: "msg_select typ (contents s xs) = first_at (\<lambda>t. t = typ) (contents s xs)"
      by (simp add: msg_select_def)
    show ?thesis
    proof (cases "\<exists>x \<in> set xs. msg_type (msgh s x) = typ")
      case False
      then have "first_at (\<lambda>t. t = typ) (contents s xs) = None"
        by (intro first_at_none) (auto simp: contents_def)
      with findmsg_pos_none [OF c _ f True] False sel show ?thesis by auto
    next
      case ex: True
      from split_list_first_prop [OF ex] obtain as k bs where
        x: "xs = as @ k # bs" "msg_type (msgh s k) = typ" "\<forall>x \<in> set as. msg_type (msgh s x) \<noteq> typ" by blast
      have "contents s xs = contents s as @ (msg_type (msgh s k), msg_text s k) # contents s bs"
        by (simp add: contents_def x)
      then have "first_at (\<lambda>t. t = typ) (contents s xs) = Some (length as)"
        using x first_at_split [of "\<lambda>t. t = typ" "(msg_type (msgh s k), msg_text s k)" "contents s as" "contents s bs"]
        by (auto simp: contents_def)
      moreover have "findmsg f (msgh s) typ None (msg_first (msgque s q)) None None = Some (Some k, last_opt as)"
        using findmsg_pos [where pre = "[]" and h = "msgh s"] c f x True by (simp add: l)
      ultimately show ?thesis using x sel by auto
    qed
  next
    case False
    with t have neg: "typ < 0" by simp
    have "best_ok (msgh s) (i32 (- typ)) [] None None" by (simp add: best_ok_def)
    from findmsg_neg [OF c this f neg] obtain a b where
      r: "findmsg f (msgh s) typ None (msg_first (msgque s q)) None None = Some (a, b)"
      and ok: "best_ok (msgh s) (i32 (- typ)) xs a b" by (auto simp: l)
    show ?thesis
    proof (cases a)
      case None
      with ok have "msg_select typ (contents s xs) = None"
        by (intro msg_select_none_neg [OF neg]) (auto simp: best_ok_def contents_def)
      with None r show ?thesis by simp
    next
      case (Some k)
      with ok obtain as bs where x: "xs = as @ k # bs" "b = last_opt as" "msg_type (msgh s k) \<le> i32 (- typ)"
        "\<forall>x \<in> set as. msg_type (msgh s k) < msg_type (msgh s x)" "\<forall>x \<in> set bs. msg_type (msgh s k) \<le> msg_type (msgh s x)"
        by (auto simp: best_ok_def)
      have "contents s xs = contents s as @ (msg_type (msgh s k), msg_text s k) # contents s bs"
        by (simp add: contents_def x)
      then have "msg_select typ (contents s xs) = Some (length as)"
        using x msg_select_least [OF neg, of "(msg_type (msgh s k), msg_text s k)" "contents s as" "contents s bs"]
        by (simp add: contents_def)
      with Some r x show ?thesis by auto
    qed
  qed
qed

section \<open>Receiving deletes\<close>

lemma msgfree_contents:
  assumes "pmp \<noteq> Some m"
  shows "contents (msgfree q pmp m s) xs = contents s xs" "q_bytes (msgfree q pmp m s) xs = q_bytes s xs"
proof -
  have h: "msg_ts (msgh (msgfree q pmp m s) x) = msg_ts (msgh s x)"
    "msg_type (msgh (msgfree q pmp m s) x) = msg_type (msgh s x)"
    "msg_spot (msgh (msgfree q pmp m s) x) = msg_spot (msgh s x)" for x
    by (simp_all add: msgfree_fields [OF assms])
  show "contents (msgfree q pmp m s) xs = contents s xs"
    by (rule contents_cong) (simp_all add: h, simp_all add: msgfree_fields [OF assms])
  show "q_bytes (msgfree q pmp m s) xs = q_bytes s xs"
    by (simp add: q_bytes_def h)
qed

lemma rcv_inv:
  fixes lp t :: int
  assumes iv: "msg_inv s fl Q" and q: "Q q = xs @ m # ys"
  defines "s1 \<equiv> upd_q q (\<lambda>qp. qp\<lparr>msg_cbytes := u16 (msg_cbytes qp - msg_ts (msgh s m)), msg_lrpid := lp, msg_rtime := t\<rparr>) s"
  defines "s' \<equiv> msgfree q (last_opt xs) m s1"
  shows "msg_inv s' (m # fl) (Q(q := xs @ ys)) \<and> contents s' = contents s"
proof -
  have st: "msg_struct s fl Q" using iv by (simp add: msg_inv_def)
  have p: "placed fl Q (msgtql (mi s))" and mk: "x \<in> set (Q q') \<Longrightarrow> msg_ok s x" for x q'
    using st by (simp_all add: msg_struct_def)
  have l: "last_opt xs \<noteq> Some m" by (rule placed_last [OF p q])
  have "same_queue (msgque s q) ((msgque s q)\<lparr>msg_cbytes := u16 (msg_cbytes (msgque s q) - msg_ts (msgh s m)), msg_lrpid := lp, msg_rtime := t\<rparr>)"
    for lp t using same_queue_refl [OF msg_struct_queue [OF st, of q]] by (simp add: same_queue_def)
  then have st1: "msg_struct s1 fl Q" unfolding s1_def by (rule msg_struct_upd_q [OF st])
  have c1: "contents s1 xs = contents s xs" "q_bytes s1 xs = q_bytes s xs" for xs
    by (simp_all add: s1_def upd_q_def contents_def q_bytes_def msg_text_def pool_text_def)
  have cs: "contents s' = contents s"
    using msgfree_contents(1) [OF l] c1(1) by (simp add: s'_def fun_eq_iff)
  have "bytes_ok s' (Q(q := xs @ ys))"
    unfolding bytes_ok_def
  proof
    fix q'
    have b: "msg_cbytes (msgque s q') = q_bytes s (Q q')" "msg_cbytes (msgque s q') < 65536"
      "0 \<le> msg_qbytes (msgque s q')" "msg_qbytes (msgque s q') < 65536"
      using iv unfolding msg_inv_def bytes_ok_def by blast+
    have n: "0 \<le> q_bytes s zs" if "set zs \<subseteq> set (Q q)" for zs
      unfolding q_bytes_def using mk [of _ q] that by (intro sum_list_nonneg) (auto simp: msg_ok_def)
    have "q_bytes s (Q q) = q_bytes s (xs @ ys) + msg_ts (msgh s m)" by (simp add: q_bytes_def q)
    moreover have "0 \<le> q_bytes s (xs @ ys)" using n [of "xs @ ys"] q by auto
    moreover have "0 \<le> msg_ts (msgh s m)" using mk [of m q] q by (simp add: msg_ok_def)
    ultimately show "msg_cbytes (msgque s' q') = q_bytes s' ((Q(q := xs @ ys)) q') \<and> msg_cbytes (msgque s' q') < 65536 \<and>
        0 \<le> msg_qbytes (msgque s' q') \<and> msg_qbytes (msgque s' q') < 65536"
      using b msgfree_contents(2) [OF l, of q s1] c1(2)
      by (cases "q' = q") (simp_all add: s'_def msgfree_fields [OF l] unlinked_def s1_def upd_q_def u16_id)
  qed
  with msgfree_struct [where q = q and m = m and xs = xs and ys = ys, OF st1] q cs show ?thesis
    by (simp add: msg_inv_def s'_def)
qed

section \<open>Removing a queue\<close>

text \<open>What draining a queue leaves of its slot and of everything else.\<close>

definition drained :: "nat \<Rightarrow> msgsys \<Rightarrow> msgsys \<Rightarrow> bool" where
  "drained q s s' = (mi s' = mi s \<and> contents s' = contents s \<and> q_bytes s' = q_bytes s \<and> msgnow s' = msgnow s \<and>
     (\<forall>q'. q' \<noteq> q \<longrightarrow> msgque s' q' = msgque s q') \<and>
     msg_qbytes (msgque s' q) = msg_qbytes (msgque s q) \<and>
     p_seq (msg_perm (msgque s' q)) = p_seq (msg_perm (msgque s q)))"

lemma drained_trans: "drained q s s' \<Longrightarrow> drained q s' s'' \<Longrightarrow> drained q s s''"
  by (simp add: drained_def)

lemma drain_struct:
  "msg_struct s fl Q \<Longrightarrow> length (Q q) < f \<Longrightarrow>
   \<exists>s' fl'. msg_drain f q s = Some s' \<and> msg_struct s' fl' (Q(q := [])) \<and> drained q s s'"
proof (induction "Q q" arbitrary: f s fl Q)
  case Nil
  then have e: "Q q = []" by simp
  have "msg_first (msgque s q) = None"
    using msg_struct_queue [OF Nil.prems(1), of q] e by (simp add: queue_ok_def)
  moreover have "Q(q := []) = Q" using e by (auto simp: fun_eq_iff)
  ultimately show ?case using Nil.prems by (cases f) (auto simp: drained_def)
next
  case (Cons m ys)
  note q = Cons.hyps(2) [symmetric]
  from Cons.prems(2) q obtain f' where f: "f = Suc f'" "length ys < f'" by (cases f) auto
  have "msg_first (msgque s q) = Some m"
    using msg_struct_queue [OF Cons.prems(1), of q] q by (simp add: queue_ok_def)
  then have step: "msg_drain f q s = msg_drain f' q (msgfree q None m s)" by (simp add: f)
  have st: "msg_struct (msgfree q None m s) (m # fl) (Q(q := ys))"
    using msgfree_struct [OF Cons.prems(1), of q "[]" m ys] q by (simp add: last_opt_def)
  have "drained q s (msgfree q None m s)"
    using msgfree_contents [of None m q s]
    by (simp add: drained_def fun_eq_iff) (simp add: msgfree_fields unlinked_def)
  with Cons.hyps(1) [of "Q(q := ys)" "msgfree q None m s" "m # fl" f'] st f show ?case
    unfolding step by (auto intro: drained_trans)
qed

lemma mode_zero_free: "\<not> ipc_alloc (msg_perm (set_mode 0 r))"
  by (simp add: ipc_alloc_def set_mode_def)

lemma rmid_abs:
  assumes iv: "msg_inv s fl Q" and own: "ipc_owner u (msg_perm (msgque s q))"
  shows "\<exists>s' fl'. msgctl_rmid u d q s = Some (Ok 0, s') \<and> msg_inv s' fl' (Q(q := [])) \<and>
    contents s' = contents s \<and> mi s' = mi s \<and> \<not> ipc_alloc (msg_perm (msgque s' q)) \<and>
    (\<forall>q'. q' \<noteq> q \<longrightarrow> msgque s' q' = msgque s q') \<and>
    p_seq (msg_perm (msgque s' q)) =
      (if i32 (d + msgmni (mi s)) < 0 then 0 else u16 (p_seq (msg_perm (msgque s q)) + 1))"
proof -
  have st: "msg_struct s fl Q" using iv by (simp add: msg_inv_def)
  have "length (Q q) < Suc (msgtql (mi s))"
    using placed_length [of fl Q "msgtql (mi s)" q] st by (simp add: msg_struct_def)
  from drain_struct [OF st this] obtain s1 fl' where
    dr: "msg_drain (Suc (msgtql (mi s))) q s = Some s1" and st1: "msg_struct s1 fl' (Q(q := []))"
    and d1: "drained q s s1" by blast
  let ?sq = "if i32 (d + msgmni (mi s)) < 0 then 0 else u16 (p_seq (msg_perm (msgque s q)) + 1)"
  let ?f = "\<lambda>qp. set_mode 0 (qp\<lparr>msg_cbytes := 0, msg_perm := (msg_perm qp)\<lparr>p_seq := ?sq\<rparr>\<rparr>)"
  obtain s' where r: "msgctl_rmid u d q s = Some (Ok 0, s')"
    and f: "mi s' = mi s1" "msgh s' = msgh s1" "msgfp s' = msgfp s1" "msgmap s' = msgmap s1" "msgpool s' = msgpool s1"
      "msgque s' = (msgque s1)(q := ?f (msgque s1 q))"
    using own dr d1
    by (auto simp: msgctl_rmid_def Let_def upd_q_def mwake_def set_mode_def drained_def)
  have e: "msg_first (msgque s1 q) = None"
    using msg_struct_queue [OF st1, of q] by (simp add: queue_ok_def)
  have "same_queue (msgque s1 q') (msgque s' q')" for q'
    using same_queue_refl [OF msg_struct_queue [OF st1, of q']] u16_range [of "p_seq (msg_perm (msgque s q)) + 1"] e
    by (cases "q' = q") (simp_all add: f same_queue_def set_mode_def)
  moreover have "rmap_ok (msgmap s1)" using st1 by (simp add: msg_struct_def)
  ultimately have "msg_struct s' fl' (Q(q := []))"
    by (intro msg_struct_frame [OF st1]) (simp_all add: f)
  moreover have "bytes_ok s' (Q(q := []))"
  proof -
    have b: "msg_cbytes (msgque s q') = q_bytes s (Q q')" "msg_cbytes (msgque s q') < 65536"
      "0 \<le> msg_qbytes (msgque s q')" "msg_qbytes (msgque s q') < 65536" for q'
      using iv unfolding msg_inv_def bytes_ok_def by blast+
    have "q_bytes s' = q_bytes s" using d1 by (simp add: drained_def q_bytes_def f fun_eq_iff)
    then show ?thesis
      using b d1 by (simp add: bytes_ok_def f set_mode_def drained_def) (simp add: q_bytes_def)
  qed
  moreover have "contents s' = contents s1"
    by (simp add: contents_def msg_text_def pool_text_def f fun_eq_iff)
  moreover have "\<not> ipc_alloc (msg_perm (msgque s' q))" by (simp add: f mode_zero_free)
  ultimately show ?thesis
    using r d1 by (auto simp: msg_inv_def drained_def f set_mode_def)
qed

section \<open>The calls over the abstraction\<close>

text \<open>What a send may do: append one message on success, nothing otherwise.\<close>

definition send_spec :: "umem \<Rightarrow> sndargs \<Rightarrow> int \<Rightarrow> nat \<Rightarrow> (nat \<Rightarrow> (int \<times> byte list) list) \<Rightarrow> mchan outcome \<Rightarrow>
    (nat \<Rightarrow> (int \<times> byte list) list) \<Rightarrow> bool" where
  "send_spec um a ty q A r A' =
     (case r of
        Return (Inr v) \<Rightarrow> v = 0 \<and> (\<exists>bs. copyin um (s_msgp a + 4) (nat (s_sz a)) = Some bs \<and> A' = A(q := A q @ [(ty, bs)]))
      | _ \<Rightarrow> A' = A)"

lemma btoq_pos: "0 < msgssz (mi s) \<Longrightarrow> 0 < n \<Longrightarrow> 0 < btoq s n"
proof -
  assume z: "0 < msgssz (mi s)" and n: "0 < n"
  have "btoq s n = (n - 1) div msgssz (mi s) + 1"
    using z by (simp add: btoq_def) (metis add.commute add_diff_eq div_add_self2 less_irrefl)
  moreover have "0 \<le> (n - 1) div msgssz (mi s)" using z n by (simp add: pos_imp_zdiv_nonneg_iff)
  ultimately show ?thesis by simp
qed

lemma mq_abs_cfg: "mq_abs s A \<Longrightarrow> cfg_ok (mi s)"
  by (auto simp: mq_abs_def msg_inv_def msg_struct_def)

lemma msgconv_alloc: "msgconv s d = Inr q \<Longrightarrow> ipc_alloc (msg_perm (msgque s q))"
  by (auto simp: msgconv_def ipc_alloc_def q_mode_def Let_def split: if_splits)

text \<open>The success branch of the send, whatever the size.\<close>

lemma send_abs:
  assumes a: "mq_abs s A" and fp: "msgfp s = Some m" and al: "ipc_alloc (msg_perm (msgque s q))"
    and cnt: "0 \<le> cnt" "cnt \<le> 32767" "length bs = nat cnt" and ty: "1 \<le> ty"
    and room: "cnt + msg_cbytes (msgque s q) \<le> msg_qbytes (msgque s q)"
    and mp: "cnt \<noteq> 0 \<Longrightarrow> malloc (btoq s cnt) (msgmap s) = (spot + 1, mp) \<and> spot \<noteq> - 1"
    and mp0: "cnt = 0 \<Longrightarrow> mp = msgmap s"
  shows "mq_abs (msg_enqueue u q m ty cnt spot
           (s\<lparr>msgmap := mp, msgpool := pool_store (msgpool s) (msgssz (mi s) * spot) bs\<rparr>)) (A(q := A q @ [(ty, bs)]))"
proof -
  from a obtain fl Q where iv: "msg_inv s fl Q" and A: "\<forall>q. A q = contents s (Q q)" by (auto simp: mq_abs_def)
  from send_inv [OF iv fp al cnt ty room, of spot mp u] mp mp0
  obtain fl' where f: "msg_inv (msg_enqueue u q m ty cnt spot
      (s\<lparr>msgmap := mp, msgpool := pool_store (msgpool s) (msgssz (mi s) * spot) bs\<rparr>)) fl' (Q(q := Q q @ [m]))"
    "contents (msg_enqueue u q m ty cnt spot
      (s\<lparr>msgmap := mp, msgpool := pool_store (msgpool s) (msgssz (mi s) * spot) bs\<rparr>)) (Q q @ [m]) = contents s (Q q) @ [(ty, bs)]"
    "\<forall>q'. q' \<noteq> q \<longrightarrow> contents (msg_enqueue u q m ty cnt spot
      (s\<lparr>msgmap := mp, msgpool := pool_store (msgpool s) (msgssz (mi s) * spot) bs\<rparr>)) (Q q') = contents s (Q q')" by blast
  then show ?thesis unfolding mq_abs_def using A
    by (intro exI [of _ fl'] exI [of _ "Q(q := Q q @ [m])"]) auto
qed

lemma getres_abs:
  assumes a: "mq_abs s A" and sz: "0 \<le> s_sz a" "s_sz a \<le> msgmax (mi s)" and ty: "1 \<le> ty"
    and r: "msgsnd_getres u um a ty q s = (r, s')"
  shows "mi s' = mi s \<and> (\<exists>A'. mq_abs s' A' \<and> send_spec um a ty q A r A')"
proof -
  let ?cnt = "s_sz a"
  have cf: "cfg_ok (mi s)" by (rule mq_abs_cfg [OF a])
  then have small: "?cnt \<le> 32767" "0 < msgssz (mi s)" using sz by (simp_all add: cfg_ok_def)
  obtain sp mp where al: "(if ?cnt \<noteq> 0 then malloc (btoq s ?cnt) (msgmap s) else (0, msgmap s)) = (sp, mp)"
    by (meson surj_pair)
  let ?s1 = "s\<lparr>msgmap := mp\<rparr>"
  have a1: "mq_abs ?s1 A"
  proof (cases "?cnt = 0")
    case True
    then show ?thesis using al a by auto
  next
    case False
    then show ?thesis using al mq_abs_malloc [OF a btoq_pos [of s ?cnt]] small sz by auto
  qed
  show ?thesis
  proof (cases "msgconv s (s_id a) \<noteq> Inr q \<or> ?cnt + msg_cbytes (msgque s q) > msg_qbytes (msgque s q)")
    case True
    then show ?thesis
      using r a mq_abs_mode(1) [OF a, of MSG_WWAIT q]
      by (auto simp: msgsnd_getres_def Let_def send_spec_def upd_q_def split: if_splits)
  next
    case False
    then have cv: "msgconv s (s_id a) = Inr q" and room: "?cnt + msg_cbytes (msgque s q) \<le> msg_qbytes (msgque s q)" by auto
    show ?thesis
    proof (cases "if ?cnt \<noteq> 0 \<and> sp = 0 then None else msgfp s")
      case None
      have "mq_abs (?s1\<lparr>msgmap := mp\<lparr>mapwant := n\<rparr>\<rparr>) A" for n
        using mq_abs_map [OF a1, of "mp\<lparr>mapwant := n\<rparr>"] mq_abs_map_ok [OF a1] by simp
      with None r a1 cv room al show ?thesis
        by (auto simp: msgsnd_getres_def Let_def send_spec_def split: if_splits)
    next
      case (Some m)
      then have fp: "msgfp s = Some m" and sp: "?cnt \<noteq> 0 \<longrightarrow> sp \<noteq> 0" by (auto split: if_splits)
      note send = send_abs [OF a fp msgconv_alloc [OF cv] sz(1) small(1) _ ty room]
      show ?thesis
      proof (cases "?cnt = 0")
        case True
        with send [where bs = "[]" and spot = 0 and mp = mp and u = u] al r cv room fp show ?thesis
          by (auto simp: msgsnd_getres_def Let_def send_spec_def msg_enqueue_fields)
      next
        case nz: False
        show ?thesis
        proof (cases "copyin um (s_msgp a + 4) (nat ?cnt)")
          case None
          obtain mp' w where fr: "mfree (btoq s ?cnt) sp mp = (mp', w)" by fastforce
          have ml: "malloc (btoq s ?cnt) (msgmap s) = (sp, mp)" using al nz by simp
          have ok: "rmap_ok (msgmap s)" by (rule mq_abs_map_ok [OF a])
          have n: "0 < btoq s ?cnt" using btoq_pos [of s ?cnt] small sz nz by simp
          have mu: "rmap_ok mp" "{sp ..< sp + btoq s ?cnt} \<subseteq> units (msgmap s)"
            "units mp = units (msgmap s) - {sp ..< sp + btoq s ?cnt}" "0 < sp"
            using malloc_units [OF ok n] rm.alloc_positive [OF ok n] ml sp nz by simp_all
          have "rmap_ok mp'" "units mp' \<subseteq> units mp \<union> {sp ..< sp + btoq s ?cnt}"
            using mfree_ok [OF mu(1,4), of "btoq s ?cnt"] mu(3) fr by auto
          moreover have "units mp \<union> {sp ..< sp + btoq s ?cnt} \<subseteq> units (msgmap s)" using mu by blast
          ultimately have ab: "mq_abs (s\<lparr>msgmap := mp'\<rparr>) A" by (intro mq_abs_map [OF a]) auto
          then show ?thesis
            using None r cv room al sp nz fp fr mq_abs_wake [OF ab, of ChMap]
            by (auto simp: msgsnd_getres_def Let_def send_spec_def btoq_def mwake_def split: if_splits)
        next
          case (Some bs)
          have "length bs = nat ?cnt" by (rule copyin_length [OF Some])
          with send [where bs = bs and spot = "sp - 1" and mp = mp and u = u] al nz sp r cv room fp Some show ?thesis
            by (auto simp: msgsnd_getres_def Let_def send_spec_def msg_enqueue_fields)
        qed
      qed
    qed
  qed
qed

text \<open>What a receive may do: deliver and delete the selected message, nothing otherwise.\<close>

definition recv_spec :: "umem \<Rightarrow> rcvargs \<Rightarrow> nat \<Rightarrow> (nat \<Rightarrow> (int \<times> byte list) list) \<Rightarrow> mchan outcome \<Rightarrow> umem \<Rightarrow>
    (nat \<Rightarrow> (int \<times> byte list) list) \<Rightarrow> bool" where
  "recv_spec um a q A r um' A' =
     (case r of
        Return (Inr n) \<Rightarrow>
          (\<exists>as ty bs cs um1. A q = as @ (ty, bs) # cs \<and> msg_select (r_typ a) (A q) = Some (length as) \<and>
             n = min (r_sz a) (int (length bs)) \<and> (int (length bs) \<le> r_sz a \<or> r_flg a AND MSG_NOERROR \<noteq> 0) \<and>
             copyout um (r_msgp a) (long_bytes ty) = Some um1 \<and>
             copyout um1 (r_msgp a + 4) (take (nat n) bs) = Some um' \<and> A' = A(q := as @ cs))
      | Sleeping c \<Rightarrow> c = ChQnum q \<and> msg_select (r_typ a) (A q) = None \<and> um' = um \<and> A' = A
      | Return (Inl e) \<Rightarrow> A' = A \<and> (e = ENOMSG \<longrightarrow> msg_select (r_typ a) (A q) = None))"

lemma select_search:
  assumes "chain (msgh s) (msg_first (msgque s q)) xs" "length xs < f"
  obtains (none) p where "msg_select typ (contents s xs) = None"
      "(if typ = 0 then Some (msg_first (msgque s q), None)
        else findmsg f (msgh s) typ None (msg_first (msgque s q)) None None) = Some (None, p)"
  | (some) as k bs where "xs = as @ k # bs" "msg_select typ (contents s xs) = Some (length as)"
      "(if typ = 0 then Some (msg_first (msgque s q), None)
        else findmsg f (msgh s) typ None (msg_first (msgque s q)) None None) = Some (Some k, last_opt as)"
proof (cases "typ = 0")
  case True
  show thesis
  proof (cases xs)
    case Nil
    with assms True have "msg_select typ (contents s xs) = None" "msg_first (msgque s q) = None"
      by (simp_all add: msg_select_def first_at_def contents_def)
    with True show ?thesis by (intro none [of None]) simp_all
  next
    case (Cons k bs)
    with assms True have "msg_select typ (contents s xs) = Some 0" "msg_first (msgque s q) = Some k"
      by (simp_all add: msg_select_def first_at_def contents_def)
    with True Cons show ?thesis by (intro some [of "[]" k bs]) (simp_all add: last_opt_def)
  qed
next
  case False
  show thesis
  proof (cases "msg_select typ (contents s xs)")
    case None
    with findmsg_select [OF assms False] obtain p where
      "findmsg f (msgh s) typ None (msg_first (msgque s q)) None None = Some (None, p)" by auto
    with None False show ?thesis by (intro none [of p]) simp_all
  next
    case (Some i)
    with findmsg_select [OF assms False] obtain as k bs where "xs = as @ k # bs" "i = length as"
      "findmsg f (msgh s) typ None (msg_first (msgque s q)) None None = Some (Some k, last_opt as)" by auto
    with Some False show ?thesis by (intro some [of as k bs]) simp_all
  qed
qed

lemma take_pool_text: "0 \<le> n \<Longrightarrow> n \<le> ts \<Longrightarrow> take (nat n) (pool_text s sp (nat ts)) = pool_text s sp (nat n)"
  by (simp add: pool_text_def take_map min_def)

lemma length_pool_text [simp]: "length (pool_text s sp n) = n"
  by (simp add: pool_text_def)

lemma find_abs:
  assumes a: "mq_abs s A" and sz: "0 \<le> r_sz a"
  shows "\<exists>r um' s' A'. msgrcv_find u um a q s = Some (r, um', s') \<and> mi s' = mi s \<and> mq_abs s' A' \<and>
           recv_spec um a q A r um' A'"
proof (cases "msgconv s (r_id a) = Inr q")
  case False
  then show ?thesis using a by (auto simp: msgrcv_find_def recv_spec_def)
next
  case cv: True
  from a obtain fl Q where iv: "msg_inv s fl Q" and A: "\<forall>q. A q = contents s (Q q)" by (auto simp: mq_abs_def)
  then have st: "msg_struct s fl Q" by (simp add: msg_inv_def)
  then have c: "chain (msgh s) (msg_first (msgque s q)) (Q q)"
    using msg_struct_queue [OF st, of q] by (simp add: queue_ok_def)
  have ln: "length (Q q) < Suc (msgtql (mi s))"
    using placed_length [of fl Q "msgtql (mi s)" q] st by (simp add: msg_struct_def)
  show ?thesis
  proof (rule select_search [OF c ln, of "r_typ a"], goal_cases)
    case (1 p)
    then show ?case
      using cv a A mq_abs_mode(1) [OF a, of MSG_RWAIT q]
      by (auto simp: msgrcv_find_def recv_spec_def upd_q_def split: if_splits)
  next
    case (2 as m bs)
    let ?ts = "msg_ts (msgh s m)" and ?sz = "if r_sz a < msg_ts (msgh s m) then r_sz a else msg_ts (msgh s m)"
    have "m \<in> set (Q q)" using 2(1) by simp
    then have mok: "msg_ok s m" using st unfolding msg_struct_def by blast
    then have ts: "0 \<le> ?ts" by (simp add: msg_ok_def)
    have tk: "pool_text s (msg_spot (msgh s m)) (nat ?sz) = take (nat ?sz) (msg_text s m)"
      using ts sz by (simp add: msg_text_def take_pool_text)
    have Aq: "A q = contents s as @ (msg_type (msgh s m), msg_text s m) # contents s bs"
      using A 2(1) by (simp add: contents_def)
    have lt: "length (msg_text s m) = nat ?ts" by (simp add: msg_text_def)
    let ?s1 = "upd_q q (\<lambda>qp. qp\<lparr>msg_cbytes := u16 (msg_cbytes qp - ?ts), msg_lrpid := u16 (u_pid u), msg_rtime := msgnow s\<rparr>) s"
    have rv: "msg_inv (msgfree q (last_opt as) m ?s1) (m # fl) (Q(q := as @ bs)) \<and>
        contents (msgfree q (last_opt as) m ?s1) = contents s"
      by (rule rcv_inv [OF iv 2(1)])
    have np: "last_opt as \<noteq> Some m" by (rule placed_last [of fl Q _ q]) (use st 2(1) in \<open>auto simp: msg_struct_def\<close>)
    have ab: "mq_abs (msgfree q (last_opt as) m ?s1) (A(q := contents s as @ contents s bs))"
      unfolding mq_abs_def
      by (intro exI [of _ "m # fl"] exI [of _ "Q(q := as @ bs)"]) (use rv A in \<open>auto simp: contents_def\<close>)
    have mi': "mi (msgfree q (last_opt as) m ?s1) = mi s"
      by (simp add: msgfree_fields [OF np] upd_q_def)
    show ?case
    proof (cases "r_sz a < ?ts \<and> r_flg a AND MSG_NOERROR = 0")
      case True
      with cv a 2(3) show ?thesis by (auto simp: msgrcv_find_def recv_spec_def)
    next
      case ok: False
      show ?thesis
      proof (cases "copyout um (r_msgp a) (long_bytes (msg_type (msgh s m)))")
        case None
        with cv a 2(3) ok show ?thesis by (auto simp: msgrcv_find_def recv_spec_def Let_def)
      next
        case um1: (Some um1)
        have e: "(if ?sz = 0 then Some um1 else copyout um1 (r_msgp a + 4) (pool_text s (msg_spot (msgh s m)) (nat ?sz)))
            = copyout um1 (r_msgp a + 4) (take (nat ?sz) (msg_text s m))"
          unfolding tk by (simp add: copyout_def)
        have res: "msgrcv_find u um a q s = (case copyout um1 (r_msgp a + 4) (take (nat ?sz) (msg_text s m)) of
            None \<Rightarrow> Some (Fail EFAULT, um1, s) | Some um2 \<Rightarrow> Some (Ok ?sz, um2, msgfree q (last_opt as) m ?s1))"
          unfolding msgrcv_find_def 2(3) using cv ok um1 e by (simp only: Let_def) (auto split: option.split)
        show ?thesis
        proof (cases "copyout um1 (r_msgp a + 4) (take (nat ?sz) (msg_text s m))")
          case None
          with a show ?thesis unfolding res by (auto simp: recv_spec_def)
        next
          case (Some um2)
          have "recv_spec um a q A (Ok ?sz) um2 (A(q := contents s as @ contents s bs))"
            unfolding recv_spec_def using 2(2) A Aq ok um1 Some ts lt
            by (auto intro!: exI [of _ "contents s as"] simp: contents_def)
          with Some ab mi' show ?thesis unfolding res by (simp only: option.case) blast
        qed
      qed
    qed
  qed
qed

section \<open>Control, creation, and the state at boot\<close>

lemma mode_set_alloc: "ipc_alloc (p\<lparr>p_uid := a, p_gid := b, p_mode := (p_mode p AND NOT 0x1FF) OR (m AND 0x1FF)\<rparr>) = ipc_alloc p"
proof -
  have "((p_mode p AND NOT 0x1FF) OR (m AND 0x1FF)) AND IPC_ALLOC = p_mode p AND IPC_ALLOC" for m
    by (simp add: bit.conj_disj_distrib2 word_bw_assocs)
  then show ?thesis by (simp add: ipc_alloc_def)
qed

lemma msgctl_set_abs:
  assumes a: "mq_abs s A" and t: "\<And>d. ds = Some d \<Longrightarrow> 0 \<le> msg_qbytes d \<and> msg_qbytes d < 65536"
  shows "mq_abs (snd (msgctl_set u q ds s)) A \<and> mi (snd (msgctl_set u q ds s)) = mi s"
proof -
  from a obtain fl Q where iv: "msg_inv s fl Q" by (auto simp: mq_abs_def)
  show ?thesis
  proof (cases ds)
    case None
    then show ?thesis using a by (simp add: msgctl_set_def)
  next
    case (Some d)
    let ?f = "\<lambda>qp. qp\<lparr>msg_perm := (msg_perm qp)\<lparr>p_uid := p_uid (msg_perm d), p_gid := p_gid (msg_perm d),
        p_mode := (p_mode (msg_perm qp) AND NOT 0x1FF) OR (p_mode (msg_perm d) AND 0x1FF)\<rparr>,
        msg_qbytes := msg_qbytes d, msg_ctime := msgnow s\<rparr>"
    have "same_stats (msgque s q) (?f (msgque s q))"
      using same_stats_refl [OF iv, of q] t [OF Some]
        mode_set_alloc [where p = "msg_perm (msgque s q)" and a = "p_uid (msg_perm d)" and b = "p_gid (msg_perm d)"
          and m = "p_mode (msg_perm d)"]
      by (simp add: same_stats_def same_queue_def)
    then have ab: "mq_abs (upd_q q ?f s) A" by (rule mq_abs_upd_q [OF a, where f = ?f])
    show ?thesis
    proof (cases "ipc_owner u (msg_perm (msgque s q)) \<and> \<not> (msg_qbytes d > msg_qbytes (msgque s q) \<and> \<not> suser u)")
      case True
      then have "snd (msgctl_set u q ds s) = upd_q q ?f s" using Some by (auto simp: msgctl_set_def)
      then show ?thesis using ab by (simp only: upd_q_def) simp
    next
      case False
      then have "snd (msgctl_set u q ds s) = s" using Some by (auto simp: msgctl_set_def)
      then show ?thesis using a by simp
    qed
  qed
qed

lemma msgctl_abs:
  assumes a: "mq_abs s A" and t: "\<And>d. ds = Some d \<Longrightarrow> 0 \<le> msg_qbytes d \<and> msg_qbytes d < 65536"
  shows "\<exists>r o' s' A'. msgctl u d cmd ds wr s = Some (r, o', s') \<and> mi s' = mi s \<and> mq_abs s' A' \<and>
           (A' = A \<or> (\<exists>q. cmd = 0 \<and> msgconv s d = Inr q \<and> r = Ok 0 \<and> A' = A(q := [])))"
proof (cases "msgconv s d")
  case (Inl e)
  then show ?thesis using a by (auto simp: msgctl_def)
next
  case (Inr q)
  consider (rm) "cmd = 0" | (set) "cmd = 1" | (other) "cmd \<noteq> 0 \<and> cmd \<noteq> 1" by blast
  then show ?thesis
  proof cases
    case rm
    show ?thesis
    proof (cases "ipc_owner u (msg_perm (msgque s q))")
      case False
      then show ?thesis using a Inr rm by (auto simp: msgctl_def msgctl_rmid_def)
    next
      case True
      from a obtain fl Q where iv: "msg_inv s fl Q" and A: "\<forall>q. A q = contents s (Q q)" by (auto simp: mq_abs_def)
      from rmid_abs [OF iv True, of d] obtain s' fl' where
        r: "msgctl_rmid u d q s = Some (Ok 0, s')" "msg_inv s' fl' (Q(q := []))" "contents s' = contents s" "mi s' = mi s" by blast
      have "mq_abs s' (A(q := []))"
        unfolding mq_abs_def
        by (intro exI [of _ fl'] exI [of _ "Q(q := [])"]) (use r A in \<open>auto simp: contents_def\<close>)
      with r Inr rm show ?thesis by (auto simp: msgctl_def)
    qed
  next
    case set
    obtain r s' where e: "msgctl_set u q ds s = (r, s')" by fastforce
    have "mq_abs s' A \<and> mi s' = mi s" using msgctl_set_abs [where u = u and q = q and ds = ds, OF a] t e by (metis snd_conv)
    with e Inr set show ?thesis by (auto simp: msgctl_def)
  next
    case other
    then show ?thesis using a Inr by (auto simp: msgctl_def split: option.splits)
  qed
qed

lemma msgget_abs:
  assumes a: "mq_abs s A"
  shows "mq_abs (snd (msgget u k fl s)) A \<and> mi (snd (msgget u k fl s)) = mi s"
proof (cases "ipcget u k fl (\<lambda>i. msg_perm (msgque s i)) (nat (msgmni (mi s)))")
  case (Inl e)
  then show ?thesis using a by (simp add: msgget_def)
next
  case (Inr x)
  obtain st q p where x: "x = (st, q, p)" by (cases x) auto
  have post: "ipcget_post u k fl (\<lambda>i. msg_perm (msgque s i)) (nat (msgmni (mi s))) (Inr (st, q, p))"
    using ipcget_ans [of u k fl "\<lambda>i. msg_perm (msgque s i)" "nat (msgmni (mi s))"] Inr x by simp
  from a obtain fl' Q where iv: "msg_inv s fl' Q" by (auto simp: mq_abs_def)
  have qk: "queue_ok s q (Q q)" using iv by (simp add: msg_inv_def msg_struct_def)
  show ?thesis
  proof (cases st)
    case False
    with post have "p = msg_perm (msgque s q)" by (simp add: ipcget_post_def)
    then have "upd_q q (msg_perm_update (\<lambda>_. p)) s = s" by (simp add: upd_q_def)
    then show ?thesis using a Inr x False by (simp add: msgget_def Let_def)
  next
    case True
    with post have fr: "\<not> ipc_alloc (msg_perm (msgque s q))" "ipc_alloc p" "p_seq p = p_seq (msg_perm (msgque s q))"
      by (auto simp: ipcget_post_def least_free_def ipc_init_def)
    with qk have e: "Q q = []" by (auto simp: queue_ok_def)
    let ?f = "\<lambda>qp. qp\<lparr>msg_perm := p, msg_first := None, msg_last := None, msg_qnum := 0,
        msg_qbytes := u16 (msgmnb (mi s)), msg_lspid := 0, msg_lrpid := 0,
        msg_stime := 0, msg_rtime := 0, msg_ctime := msgnow s\<rparr>"
    have "same_stats (msgque s q) (?f (msgque s q))"
      using same_stats_refl [OF iv, of q] qk fr e u16_range [of "msgmnb (mi s)"]
      by (simp add: same_stats_def same_queue_def queue_ok_def last_opt_def)
    then have ab: "mq_abs (upd_q q ?f s) A" by (rule mq_abs_upd_q [OF a, where f = ?f])
    have "snd (msgget u k fl s) = upd_q q ?f s"
      using Inr x True by (simp add: msgget_def Let_def upd_q_def)
    with ab show ?thesis by (simp add: upd_q_def)
  qed
qed

lemma chain_upt:
  "chain (\<lambda>i. \<lparr>msg_next = (if Suc i < n then Some (Suc i) else None), msg_type = a, msg_ts = b, msg_spot = c\<rparr>)
     (if i < n then Some i else None) [i..<n]"
proof (induction "n - i" arbitrary: i)
  case 0
  then show ?case by simp
next
  case (Suc k)
  then have "i < n" "k = n - Suc i" by simp_all
  with Suc.hyps(1) [of "Suc i"] show ?case by (simp add: upt_conv_Cons)
qed

lemma msginit_abs:
  assumes "cfg_ok c" "0 < msgtql c" "2 \<le> mi_map c" "0 \<le> msgseg c" "msgseg c \<le> 32767"
  shows "mq_abs (msginit spt c pool t) (\<lambda>_. [])"
proof -
  let ?s = "msginit spt c pool t" and ?n = "if spt then msgseg c else 0"
  have mi': "mi_map (mi ?s) = mi_map c" "cfg_ok (mi ?s)" "msgtql (mi ?s) = msgtql c"
    using assms(1) by (simp_all add: msginit_def Let_def cfg_ok_def)
  have mp: "msgmap ?s = fst (mfree ?n 1 (mapinit (mi_map c)))" by (simp add: msginit_def Let_def)
  have ok: "rmap_ok (msgmap ?s)" "units (msgmap ?s) \<subseteq> {1 ..< 1 + ?n}"
    using mfree_ok [of "mapinit (mi_map c)" 1 ?n] mapinit_ok [OF assms(3)] unfolding mp by simp_all
  have "chain (msgh ?s) (msgfp ?s) [0..<msgtql c]"
    using chain_upt [of "msgtql c" 0 0 0 0] assms(2) by (simp add: msginit_def Let_def)
  moreover have "queue_ok ?s q []" for q
    by (simp add: queue_ok_def msginit_def Let_def zero_queue_def zero_perm_def last_opt_def)
  moreover have "placed [0..<msgtql c] (\<lambda>_. []) (msgtql c)" by (auto simp: placed_def)
  moreover have "units (msgmap ?s) \<subseteq> {..<32768}" using ok(2) assms(5) by (auto split: if_splits)
  ultimately have "msg_struct ?s [0..<msgtql c] (\<lambda>_. [])"
    using mi' ok(1) by (simp add: msg_struct_def ledger_def held_def)
  moreover have "bytes_ok ?s (\<lambda>_. [])"
    by (simp add: bytes_ok_def msginit_def Let_def zero_queue_def q_bytes_def)
  ultimately show ?thesis
    unfolding mq_abs_def msg_inv_def
    by (intro exI [of _ "[0..<msgtql c]"] exI [of _ "\<lambda>_. []"]) (simp add: contents_def)
qed

end
