(* ===== verification/Msg_Props.thy ===== *)
theory Msg_Props
  imports Msg_Spec
begin

text \<open>
  The identifier contract instantiated for message queues, the reachable states of the message
  system (calls interleaved with the resumptions of calls parked in a \<open>sleep\<close>), and the
  properties of the component.
\<close>

section \<open>Queue identifiers\<close>

definition msg_ids_ok :: "msgsys \<Rightarrow> bool" where
  "msg_ids_ok s = (0 < msgmni (mi s) \<and> msgmni (mi s) \<le> 32768 \<and>
     (\<forall>q. 0 \<le> p_seq (msg_perm (msgque s q)) \<and> p_seq (msg_perm (msgque s q)) < 65536))"

interpretation mid: ipc_class "\<lambda>s. msgmni (mi s)" "\<lambda>s q. msg_perm (msgque s q)" msgconv msqid_of msg_ids_ok
proof unfold_locales
  fix s d
  assume "msg_ids_ok s"
  show "msgconv s d =
        (if d < 0 then Inl EINVAL
         else if \<not> ipc_alloc (msg_perm (msgque s (nat (d mod msgmni (mi s))))) \<or>
                 d div msgmni (mi s) \<noteq> p_seq (msg_perm (msgque s (nat (d mod msgmni (mi s)))))
         then Inl EINVAL else Inr (nat (d mod msgmni (mi s))))"
    by (simp add: msgconv_def ipc_alloc_def q_mode_def Let_def)
qed (simp_all add: msg_ids_ok_def msqid_of_def)

lemma mq_abs_ids: "mq_abs s A \<Longrightarrow> msg_ids_ok s"
  by (auto simp: mq_abs_def msg_inv_def msg_struct_def cfg_ok_def queue_ok_def msg_ids_ok_def)

text \<open>A \<open>msgget\<close> changes no sequence number.\<close>

lemma msgget_seq: "p_seq (msg_perm (msgque (snd (msgget v k fl s)) q)) = p_seq (msg_perm (msgque s q))"
proof (cases "ipcget v k fl (\<lambda>i. msg_perm (msgque s i)) (nat (msgmni (mi s)))")
  case (Inr x)
  obtain st i p where x: "x = (st, i, p)" by (cases x) auto
  have "p_seq p = p_seq (msg_perm (msgque s i))"
    using ipcget_ans [of v k fl "\<lambda>i. msg_perm (msgque s i)" "nat (msgmni (mi s))"] Inr x
    by (cases st) (auto simp: ipcget_post_def ipc_init_def)
  then show ?thesis using Inr x by (simp add: msgget_def Let_def upd_q_def)
qed (simp add: msgget_def)

section \<open>Calls over the abstraction\<close>

lemma msgsnd_abs:
  assumes a: "mq_abs s A" and r: "msgsnd u um a s = (r, s')"
  shows "mi s' = mi s \<and>
    (case r of
       Return (Inr v) \<Rightarrow> v = 0 \<and> (\<exists>q tb bs. msgconv s (s_id a) = Inr q \<and> ipcaccess u (msg_perm (msgque s q)) MSG_W = None \<and>
         copyin um (s_msgp a) 4 = Some tb \<and> 1 \<le> bytes_long tb \<and>
         copyin um (s_msgp a + 4) (nat (s_sz a)) = Some bs \<and> mq_abs s' (A(q := A q @ [(bytes_long tb, bs)])))
     | Return (Inl e) \<Rightarrow> mq_abs s' A
     | Sleeping c \<Rightarrow> mq_abs s' A \<and> 0 \<le> s_sz a \<and> s_sz a \<le> msgmax (mi s) \<and>
         (\<exists>q tb. msgconv s (s_id a) = Inr q \<and> copyin um (s_msgp a) 4 = Some tb \<and> 1 \<le> bytes_long tb))"
proof (cases "\<exists>q tb. msgconv s (s_id a) = Inr q \<and> ipcaccess u (msg_perm (msgque s q)) MSG_W = None \<and>
    0 \<le> s_sz a \<and> s_sz a \<le> msgmax (mi s) \<and> copyin um (s_msgp a) 4 = Some tb \<and> 1 \<le> bytes_long tb")
  case True
  then obtain q tb where p: "msgconv s (s_id a) = Inr q" "ipcaccess u (msg_perm (msgque s q)) MSG_W = None"
    "0 \<le> s_sz a" "s_sz a \<le> msgmax (mi s)" "copyin um (s_msgp a) 4 = Some tb" "1 \<le> bytes_long tb" by blast
  with r have g: "msgsnd_getres u um a (bytes_long tb) q s = (r, s')" by (simp add: msgsnd_def)
  from getres_abs [OF a p(3,4,6) g] obtain A' where
    "mi s' = mi s" "mq_abs s' A'" "send_spec um a (bytes_long tb) q A r A'" by blast
  with p show ?thesis by (auto simp: send_spec_def split: outcome.splits sum.splits)
next
  case False
  then have "s' = s \<and> (\<exists>e. r = Fail e)"
    using r by (auto simp: msgsnd_def not_less not_le split: sum.splits option.splits if_splits)
  with a show ?thesis by auto
qed

lemma msgrcv_abs:
  assumes a: "mq_abs s A"
  shows "\<exists>r um' s' A'. msgrcv u um a s = Some (r, um', s') \<and> mi s' = mi s \<and> mq_abs s' A' \<and>
    (A' = A \<and> (\<exists>e. r = Fail e) \<or>
     (\<exists>q. msgconv s (r_id a) = Inr q \<and> ipcaccess u (msg_perm (msgque s q)) MSG_R = None \<and> 0 \<le> r_sz a \<and>
        recv_spec um a q A r um' A'))"
proof (cases "\<exists>q. msgconv s (r_id a) = Inr q \<and> ipcaccess u (msg_perm (msgque s q)) MSG_R = None \<and> 0 \<le> r_sz a")
  case True
  then obtain q where q: "msgconv s (r_id a) = Inr q" "ipcaccess u (msg_perm (msgque s q)) MSG_R = None" "0 \<le> r_sz a" by blast
  then have e: "msgrcv u um a s = msgrcv_find u um a q s" by (simp add: msgrcv_def)
  from find_abs [OF a q(3), of u um q] obtain r um' s' A' where
    "msgrcv_find u um a q s = Some (r, um', s')" "mi s' = mi s" "mq_abs s' A'" "recv_spec um a q A r um' A'" by blast
  with q show ?thesis unfolding e by blast
next
  case False
  then have "\<exists>e. msgrcv u um a s = Some (Fail e, um, s)"
    by (auto simp: msgrcv_def not_less not_le split: sum.splits option.splits)
  with a show ?thesis by blast
qed

lemma msgrcv_resume_abs:
  assumes a: "mq_abs s A" and sz: "0 \<le> r_sz a"
  shows "\<exists>r um' s' A'. msgrcv_resume intr u um a q s = Some (r, um', s') \<and> mi s' = mi s \<and> mq_abs s' A'"
  using a find_abs [OF a sz, of u um q]
  by (cases intr; cases "msgconv s (r_id a)") (auto simp: msgrcv_resume_def)

lemma msgsnd_resume_abs:
  assumes a: "mq_abs s A" and sz: "0 \<le> s_sz a" "s_sz a \<le> msgmax (mi s)" and ty: "1 \<le> ty"
    and r: "msgsnd_resume c intr u um a ty q s = (r, s')"
  shows "mi s' = mi s \<and> (\<exists>A'. mq_abs s' A')"
proof (cases intr)
  case True
  with r a mq_abs_wake [OF mq_abs_mode(2) [OF a, of MSG_WWAIT q], of "ChQ q"] show ?thesis
    by (auto simp: msgsnd_resume_def msgsnd_resume_map_def msgsnd_resume_q_def mwake_def upd_q_def split: if_splits)
next
  case False
  with r have "msgsnd_getres u um a ty q s = (r, s')"
    by (simp add: msgsnd_resume_def msgsnd_resume_map_def msgsnd_resume_q_def split: if_splits)
  from getres_abs [OF a sz ty this] show ?thesis by blast
qed

section \<open>Reachable states\<close>

text \<open>
  A call that sleeps is parked with what its frame keeps across the \<open>sleep\<close>: the arguments,
  for a send the type already copied in, the queue pointer and the channel. It may be resumed at
  any time, with or without a signal, and may park again.
\<close>

datatype parked = PSnd user sndargs int nat mchan | PRcv user rcvargs nat

definition parked_call :: "user \<Rightarrow> umem \<Rightarrow> int \<Rightarrow> (nat \<Rightarrow> int) \<Rightarrow> msgsys \<Rightarrow> mchan \<Rightarrow> parked" where
  "parked_call u um k arg s c =
     (let q = (case msgconv s (arg 1) of Inr q \<Rightarrow> q | Inl _ \<Rightarrow> 0)
      in if k = 2 then PRcv u (msgrcv_args arg) q
         else PSnd u (msgsnd_args arg) (case copyin um (arg 2) 4 of Some tb \<Rightarrow> bytes_long tb | None \<Rightarrow> 0) q c)"

fun repark :: "parked \<Rightarrow> mchan outcome \<Rightarrow> parked list \<Rightarrow> parked list" where
  "repark p (Return _) ps = remove1 p ps"
| "repark (PSnd u a ty q c) (Sleeping c') ps = PSnd u a ty q c' # remove1 (PSnd u a ty q c) ps"
| "repark (PRcv u a q) (Sleeping c) ps = ps"

definition ds_typed :: "msqid_ds option \<Rightarrow> bool" where
  "ds_typed ds = (case ds of None \<Rightarrow> True | Some d \<Rightarrow> 0 \<le> msg_qbytes d \<and> msg_qbytes d < 65536)"

inductive mq_reach :: "msgsys \<Rightarrow> msgsys \<Rightarrow> parked list \<Rightarrow> bool" for s0 where
  boot: "mq_reach s0 s0 []"
| call: "mq_reach s0 s ps \<Longrightarrow> ds_typed ds \<Longrightarrow> msgsys_call u um k arg ds wr s = Some (r, um', s') \<Longrightarrow>
    mq_reach s0 s' (case r of Return _ \<Rightarrow> ps | Sleeping c \<Rightarrow> parked_call u um k arg s c # ps)"
| resume_snd: "mq_reach s0 s ps \<Longrightarrow> PSnd u a ty q c \<in> set ps \<Longrightarrow> msgsnd_resume c intr u um a ty q s = (r, s') \<Longrightarrow>
    mq_reach s0 s' (repark (PSnd u a ty q c) r ps)"
| resume_rcv: "mq_reach s0 s ps \<Longrightarrow> PRcv u a q \<in> set ps \<Longrightarrow> msgrcv_resume intr u um a q s = Some (r, um', s') \<Longrightarrow>
    mq_reach s0 s' (repark (PRcv u a q) r ps)"
| tick: "mq_reach s0 s ps \<Longrightarrow> mq_reach s0 (s\<lparr>msgnow := t\<rparr>) ps"

definition parked_ok :: "msginfo \<Rightarrow> parked \<Rightarrow> bool" where
  "parked_ok c p =
     (case p of
        PSnd u a ty q ch \<Rightarrow> 0 \<le> s_sz a \<and> s_sz a \<le> msgmax c \<and> 1 \<le> ty
      | PRcv u a q \<Rightarrow> 0 \<le> r_sz a)"

lemma repark_ok: "\<forall>p \<in> set ps. parked_ok c p \<Longrightarrow> p \<in> set ps \<Longrightarrow> \<forall>p' \<in> set (repark p r ps). parked_ok c p'"
  by (induction p r ps rule: repark.induct) (auto simp: parked_ok_def dest: notin_set_remove1)

lemma msgsys_call_abs:
  assumes a: "mq_abs s A" and t: "ds_typed ds"
  shows "\<exists>r um' s' A'. msgsys_call u um k arg ds wr s = Some (r, um', s') \<and> mi s' = mi s \<and> mq_abs s' A' \<and>
    (\<forall>c. r = Sleeping c \<longrightarrow> parked_ok (mi s) (parked_call u um k arg s c))"
proof -
  consider "u32 k > 3" | "\<not> u32 k > 3" "k = 0" | "\<not> u32 k > 3" "k = 1" | "\<not> u32 k > 3" "k = 2"
    | "\<not> u32 k > 3" "k \<noteq> 0" "k \<noteq> 1" "k \<noteq> 2" by blast
  then show ?thesis
  proof cases
    case 1
    then show ?thesis using a by (auto simp: msgsys_call_def)
  next
    case 2
    obtain r s' where e: "msgget u (arg 1) (word_of_int (arg 2)) s = (r, s')" by fastforce
    have "\<nexists>c. r = Sleeping c"
      using e by (auto simp: msgget_def Let_def split: sum.splits)
    with msgget_abs [OF a, of u "arg 1" "word_of_int (arg 2)"] e 2 show ?thesis by (auto simp: msgsys_call_def)
  next
    case 3
    have "0 \<le> msg_qbytes d \<and> msg_qbytes d < 65536" if "ds = Some d" for d
      using t that by (simp add: ds_typed_def)
    from msgctl_abs [where u = u and d = "arg 1" and cmd = "arg 2" and wr = wr and ds = ds, OF a this]
    obtain r o' s' A' where e: "msgctl u (arg 1) (arg 2) ds wr s = Some (r, o', s')" "mi s' = mi s" "mq_abs s' A'" by blast
    have "\<nexists>c. r = Sleeping c"
      using e(1) by (auto simp: msgctl_def msgctl_rmid_def msgctl_set_def Let_def
          split: sum.splits if_splits option.splits prod.splits)
    with e 3 show ?thesis by (auto simp: msgsys_call_def)
  next
    case 4
    from msgrcv_abs [OF a, of u um "msgrcv_args arg"] obtain r um' s' A' where
      e: "msgrcv u um (msgrcv_args arg) s = Some (r, um', s')" "mi s' = mi s" "mq_abs s' A'"
      "(\<exists>e. r = Fail e) \<or> 0 \<le> r_sz (msgrcv_args arg)" by blast
    with 4 show ?thesis by (auto simp: msgsys_call_def parked_ok_def parked_call_def Let_def)
  next
    case 5
    obtain r s' where e: "msgsnd u um (msgsnd_args arg) s = (r, s')" by fastforce
    from msgsnd_abs [OF a e] e 5 show ?thesis
      by (cases r) (auto simp: msgsys_call_def parked_ok_def parked_call_def Let_def msgsnd_args_def split: sum.splits)
  qed
qed

lemma reach_abs:
  assumes "mq_reach s0 s ps" "mq_abs s0 A0"
  shows "mi s = mi s0 \<and> (\<exists>A. mq_abs s A) \<and> (\<forall>p \<in> set ps. parked_ok (mi s0) p)"
  using assms(1)
proof (induction rule: mq_reach.induct)
  case boot
  then show ?case using assms(2) by auto
next
  case (call s ps ds u um k arg wr r um' s')
  then obtain A where "mq_abs s A" by blast
  from msgsys_call_abs [OF this call.hyps(2), of u um k arg wr] call show ?case
    by (auto split: outcome.splits)
next
  case (resume_snd s ps u a ty q c intr um r s')
  then obtain A where a: "mq_abs s A" by blast
  have "parked_ok (mi s0) (PSnd u a ty q c)" using resume_snd by blast
  with msgsnd_resume_abs [OF a _ _ _ resume_snd.hyps(3)] resume_snd.IH
    repark_ok [of ps "mi s0" "PSnd u a ty q c" r] resume_snd.hyps(2) show ?case
    by (auto simp: parked_ok_def)
next
  case (resume_rcv s ps u a q intr um r um' s')
  then obtain A where a: "mq_abs s A" by blast
  have "parked_ok (mi s0) (PRcv u a q)" using resume_rcv by blast
  with msgrcv_resume_abs [OF a, of a intr u um q] resume_rcv.IH resume_rcv.hyps(3)
    repark_ok [of ps "mi s0" "PRcv u a q" r] resume_rcv.hyps(2) show ?case
    by (auto simp: parked_ok_def)
next
  case (tick s ps t)
  then obtain A where a: "mq_abs s A" by blast
  have "mq_abs (s\<lparr>msgnow := t\<rparr>) A"
    by (rule mq_abs_frame [OF a]) (use mq_abs_map_ok [OF a] in auto)
  with tick show ?case by auto
qed

section \<open>Properties\<close>

text \<open>A small system at boot, one queue created by the super-user, and a user's memory.\<close>

definition demo_root :: user where
  "demo_root = \<lparr>u_uid = 0, u_gid = 0, u_pid = 1, u_proc = 0\<rparr>"

definition demo_mem :: umem where
  "demo_mem = (\<lambda>i. if 0 \<le> i \<and> i < 64 then Some (if i < 3 then 0 else if i = 3 then 2 else 9) else None)"

definition demo_cfg :: msginfo where
  "demo_cfg = \<lparr>mi_map = 10, msgmax = 100, msgmnb = 200, msgmni = 2, msgssz = 8, msgtql = 1, msgseg = 20\<rparr>"

definition demo_boot :: msgsys where
  "demo_boot = msginit True demo_cfg (\<lambda>_. 0) 0"

definition demo_msg :: msgsys where
  "demo_msg = snd (msgget demo_root 5 0x3B0 demo_boot)"

definition demo_snd :: sndargs where
  "demo_snd = \<lparr>s_id = 0, s_msgp = 0, s_sz = 10, s_flg = 0\<rparr>"

definition demo_rcv :: rcvargs where
  "demo_rcv = \<lparr>r_id = 0, r_msgp = 20, r_sz = 16, r_typ = 0, r_flg = 0\<rparr>"

definition demo_sent :: msgsys where
  "demo_sent = snd (msgsnd demo_root demo_mem demo_snd demo_msg)"

lemma demo_boot_ok: "mq_abs demo_boot (\<lambda>_. [])"
  unfolding demo_boot_def by (rule msginit_abs) (simp_all add: demo_cfg_def cfg_ok_def)

lemma demo_msg_ok: "mq_abs demo_msg (\<lambda>_. [])"
  using msgget_abs [OF demo_boot_ok, of demo_root 5 "0x3B0"] by (simp add: demo_msg_def)

lemma demo_send_result: "msgsnd demo_root demo_mem demo_snd demo_msg = (Ok 0, demo_sent)"
proof -
  have "fst (msgsnd demo_root demo_mem demo_snd demo_msg) = Ok 0" by code_simp
  then show ?thesis by (simp add: demo_sent_def prod_eq_iff)
qed

text \<open>
  C10: a successful \<open>msgsnd\<close> appends exactly one message, with the type and the bytes found in the
  sender's memory, to the one queue the identifier names, and only with write permission; the
  messages of every other queue, and all messages when the call fails or sleeps, are as before.
  The abstract queues stand for the chains, counters, text segments and header list of the tables.
\<close>

theorem msgsnd_appends:
  assumes "mq_abs s A" "msgsnd u um a s = (r, s')"
  shows "case r of
       Return (Inr v) \<Rightarrow> v = 0 \<and> (\<exists>q tb bs. msgconv s (s_id a) = Inr q \<and>
         ipcaccess u (msg_perm (msgque s q)) MSG_W = None \<and>
         copyin um (s_msgp a) 4 = Some tb \<and> 1 \<le> bytes_long tb \<and>
         copyin um (s_msgp a + 4) (nat (s_sz a)) = Some bs \<and> mq_abs s' (A(q := A q @ [(bytes_long tb, bs)])))
     | _ \<Rightarrow> mq_abs s' A"
  using msgsnd_abs [OF assms] by (auto split: outcome.splits sum.splits)

theorem msgsnd_appends_witness:
  "\<exists>q tb bs. msgconv demo_msg 0 = Inr q \<and> copyin demo_mem 4 10 = Some bs \<and>
     mq_abs demo_sent ((\<lambda>_. [])(q := [(bytes_long tb, bs)]))"
  using msgsnd_appends [OF demo_msg_ok demo_send_result] by (auto simp: demo_snd_def)

text \<open>
  C11: \<open>msgrcv\<close> always ends, and what it delivers is the message the selection rule names (type 0:
  the first; positive: the first of that type; negative: the first of the lowest type up to its
  absolute value), type and bytes cut to the size asked for, after which exactly that message is
  gone; it sleeps, or answers ENOMSG, only when the rule names none; in every other case the
  queues are as before.
\<close>

theorem msgrcv_selects:
  assumes "mq_abs s A"
  shows "\<exists>r um' s' A'. msgrcv u um a s = Some (r, um', s') \<and> mq_abs s' A' \<and>
    (A' = A \<and> (\<exists>e. r = Fail e) \<or>
     (\<exists>q. msgconv s (r_id a) = Inr q \<and> ipcaccess u (msg_perm (msgque s q)) MSG_R = None \<and> 0 \<le> r_sz a \<and>
        recv_spec um a q A r um' A'))"
  using msgrcv_abs [OF assms, of u um a] by blast

theorem msgrcv_selects_witness:
  "\<exists>r um' s' A'. msgrcv demo_root demo_mem demo_rcv demo_msg = Some (r, um', s') \<and> mq_abs s' A'"
  using msgrcv_selects [OF demo_msg_ok, of demo_root demo_mem demo_rcv] by blast

text \<open>
  C32: on an empty queue a message sent is the message received. After a successful send, a
  receive of any message with room for it that returns delivers the sent type and the sent bytes
  into the receiver's memory and leaves the queue empty again.
\<close>

theorem msg_send_receive:
  assumes "mq_abs s A" "msgsnd u um a s = (Ok 0, s1)" "msgconv s (s_id a) = Inr q" "A q = []"
    and "copyin um (s_msgp a) 4 = Some tb" "copyin um (s_msgp a + 4) (nat (s_sz a)) = Some bs"
    and "r_id b = s_id a" "r_typ b = 0" "s_sz a \<le> r_sz b"
    and "msgrcv v vm b s1 = Some (Ok n, vm', s2)"
  shows "copyin vm' (r_msgp b) 4 = Some (long_bytes (bytes_long tb)) \<and>
         copyin vm' (r_msgp b + 4) (length bs) = Some bs \<and> n = int (length bs) \<and> mq_abs s2 A"
proof -
  from msgsnd_abs [OF assms(1,2)] assms(3,5,6)
  have a1: "mq_abs s1 (A(q := [(bytes_long tb, bs)]))" and m1: "mi s1 = mi s"
    using assms(4) by auto
  from msgrcv_abs [OF a1, of v vm b] assms(10) obtain A2 q' where
    c1: "msgconv s1 (r_id b) = Inr q'" and sp: "recv_spec vm b q' (A(q := [(bytes_long tb, bs)])) (Ok n) vm' A2"
    and a2: "mq_abs s2 A2" by auto
  have "q' = q"
    using assms(3,7) c1 m1 by (auto simp: msgconv_def Let_def split: if_splits)
  with sp obtain as ty bs' cs um1 where
    e: "[(bytes_long tb, bs)] = as @ (ty, bs') # cs" and n: "n = min (r_sz b) (int (length bs'))"
    and o1: "copyout vm (r_msgp b) (long_bytes ty) = Some um1"
    and o2: "copyout um1 (r_msgp b + 4) (take (nat n) bs') = Some vm'"
    and A2: "A2 = (A(q := [(bytes_long tb, bs)]))(q := as @ cs)"
    by (auto simp: recv_spec_def)
  from e have l: "as = []" "cs = []" "ty = bytes_long tb" "bs' = bs" by (auto simp: Cons_eq_append_conv)
  have len: "length bs = nat (s_sz a)" by (rule copyin_length [OF assms(6)])
  have n': "nat n = length bs" "n = int (length bs)"
  proof -
    have "0 \<le> s_sz a" using assms(2) by (auto simp: msgsnd_def not_less split: sum.splits option.splits if_splits)
    with n l len assms(9) show "n = int (length bs)" "nat n = length bs" by simp_all
  qed
  have um1: "um1 = ustore vm (r_msgp b) (long_bytes ty)" using o1 by (simp add: copyout_def split: if_splits)
  have vm': "vm' = ustore um1 (r_msgp b + 4) bs" using o2 n' l by (simp add: copyout_def split: if_splits)
  have "copyin vm' (r_msgp b) 4 = copyin um1 (r_msgp b) 4"
    unfolding vm' by (rule copyin_cong) (simp add: ustore_other)
  also have "\<dots> = Some (long_bytes ty)"
    using copyin_ustore [of vm "r_msgp b" "long_bytes ty"] by (simp add: um1)
  finally have "copyin vm' (r_msgp b) 4 = Some (long_bytes ty)" .
  moreover have "copyin vm' (r_msgp b + 4) (length bs) = Some bs" unfolding vm' by (rule copyin_ustore)
  moreover have "A2 = A" using A2 l assms(4) by (auto simp: fun_eq_iff)
  ultimately show ?thesis using a2 l n' by simp
qed

lemma demo_receive_result:
  "\<exists>vm s2. msgrcv demo_root demo_mem demo_rcv demo_sent = Some (Ok 10, vm, s2)"
proof -
  have "map_option fst (msgrcv demo_root demo_mem demo_rcv demo_sent) = Some (Ok 10)" by code_simp
  then show ?thesis by (cases "msgrcv demo_root demo_mem demo_rcv demo_sent") auto
qed

theorem msg_send_receive_witness:
  "\<exists>vm s2. msgrcv demo_root demo_mem demo_rcv demo_sent = Some (Ok 10, vm, s2) \<and>
     copyin vm 20 4 = Some (long_bytes 2) \<and> copyin vm 24 10 = Some (replicate 10 9) \<and> mq_abs s2 (\<lambda>_. [])"
proof -
  obtain vm s2 where r: "msgrcv demo_root demo_mem demo_rcv demo_sent = Some (Ok 10, vm, s2)"
    using demo_receive_result by blast
  have c: "msgconv demo_msg (s_id demo_snd) = Inr 0" by code_simp
  have i: "copyin demo_mem (s_msgp demo_snd) 4 = Some [0, 0, 0, 2]"
    "copyin demo_mem (s_msgp demo_snd + 4) (nat (s_sz demo_snd)) = Some (replicate 10 9)" by code_simp+
  have t: "bytes_long [0, 0, 0, 2] = 2" by code_simp
  from msg_send_receive [OF demo_msg_ok demo_send_result c refl i _ _ _ r] r t
  show ?thesis by (auto simp: demo_snd_def demo_rcv_def)
qed

text \<open>
  C5: in every state the system can reach from boot, by any sequence of calls of any users and
  any resumption of sleeping calls, interrupted or not, with the user's pages resident, so that calls
  interleave at the sleeps of msg.c only and no copy sleeps on a page fault, the tables still
  represent queues of messages (chains, counters, header list, byte counts and text segments agree),
  and no further call can loop: every one of the four calls returns or sleeps.
\<close>

theorem msg_reachable:
  assumes "cfg_ok c" "0 < msgtql c" "2 \<le> mi_map c" "0 \<le> msgseg c" "msgseg c \<le> 32767"
    and "mq_reach (msginit spt c pool t) s ps"
  shows "(\<exists>A. mq_abs s A) \<and> (ds_typed ds \<longrightarrow> msgsys_call u um k arg ds wr s \<noteq> None)"
proof -
  from reach_abs [OF assms(6) msginit_abs [OF assms(1-5)]] obtain A where a: "mq_abs s A" by blast
  then show ?thesis using msgsys_call_abs [OF a, of ds u um k arg wr] by auto
qed

theorem msg_reachable_witness:
  "\<exists>A. mq_abs (snd (msgget demo_root 5 0x3B0 demo_boot)) A"
proof -
  obtain r s' where e: "msgget demo_root 5 0x3B0 demo_boot = (r, s')" by fastforce
  have "msgsys_call demo_root demo_mem 0 (\<lambda>i. if i = 1 then 5 else 0x3B0) None True demo_boot = Some (r, demo_mem, s')"
    using e by (simp add: msgsys_call_def u32_def)
  from mq_reach.call [OF mq_reach.boot _ this] have
    "mq_reach demo_boot s' (case r of Return _ \<Rightarrow> [] | Sleeping c \<Rightarrow> [parked_call demo_root demo_mem 0
       (\<lambda>i. if i = 1 then 5 else 0x3B0) demo_boot c])" by (simp add: ds_typed_def)
  from msg_reachable [OF _ _ _ _ _ this [unfolded demo_boot_def]] e show ?thesis
    by (simp add: demo_cfg_def cfg_ok_def)
qed

text \<open>The sequence number after a removal: the reset never matters, the short wraps.\<close>

lemma rmid_seq:
  assumes "0 \<le> p" "p < 65536" "0 < n" "n \<le> 32768" "0 \<le> k" "k < n"
  shows "(if i32 (p * n + k + n) < 0 then 0 else u16 (p + 1)) = (p + 1) mod 65536"
proof (cases "p = 65535")
  case False
  then have "p + 2 \<le> 65536" using assms(2) by simp
  then have "(p + 2) * n \<le> 65536 * 32768" using assms(1,3,4) by (intro mult_mono) simp_all
  moreover have "p * n + k + n < (p + 2) * n" using assms(6) by (simp add: algebra_simps)
  moreover have "0 \<le> p * n" using assms(1,3) by simp
  ultimately have "i32 (p * n + k + n) = p * n + k + n" using assms(3,5) by (intro i32_id) simp_all
  then have "\<not> i32 (p * n + k + n) < 0" using \<open>0 \<le> p * n\<close> assms(3,5) by simp
  then show ?thesis by (simp add: u16_def)
qed (simp add: u16_def)

text \<open>
  C31: \<open>msgctl\<close> with IPC_RMID by the owner, the creator or the super-user succeeds, empties the
  queue whatever it held, frees the slot and counts one more removal of it modulo 65536. The
  identifier is refused at once, also after the next \<open>msgget\<close> has given the slot to a new queue,
  and in every later state as long as the count has not come back to the identifier's.
\<close>

theorem msg_rmid_stale:
  assumes "mq_abs s A" "msgconv s d = Inr q" "ipc_owner u (msg_perm (msgque s q))"
  shows "\<exists>s'. msgctl u d 0 ds wr s = Some (Ok 0, None, s') \<and> mq_abs s' (A(q := [])) \<and>
    \<not> ipc_alloc (msg_perm (msgque s' q)) \<and>
    p_seq (msg_perm (msgque s' q)) = (p_seq (msg_perm (msgque s q)) + 1) mod 65536 \<and>
    msgconv s' d = Inl EINVAL \<and> msgconv (snd (msgget v k fl s')) d = Inl EINVAL \<and>
    (\<forall>t B. mq_abs t B \<and> mi t = mi s \<and> p_seq (msg_perm (msgque t q)) \<noteq> p_seq (msg_perm (msgque s q)) \<longrightarrow>
       msgconv t d = Inl EINVAL)"
proof -
  from assms(1) obtain fl0 Q where iv: "msg_inv s fl0 Q" and A: "\<forall>q. A q = contents s (Q q)" by (auto simp: mq_abs_def)
  let ?p = "p_seq (msg_perm (msgque s q))" and ?n = "msgmni (mi s)"
  note ids = mq_abs_ids [OF assms(1)]
  have p: "0 \<le> ?p" "?p < 65536" and n: "0 < ?n" "?n \<le> 32768" using ids by (simp_all add: msg_ids_ok_def)
  have q: "int q < ?n" "d = msqid_of s q" using mid.conv_slot [OF ids assms(2)] by simp_all
  then have d: "d = ?p * ?n + int q" using mid.mkid_eq [OF ids, of q] by simp
  from rmid_abs [OF iv assms(3), of d] obtain s' fl' where
    r: "msgctl_rmid u d q s = Some (Ok 0, s')" "msg_inv s' fl' (Q(q := []))" "contents s' = contents s"
      "mi s' = mi s" "\<not> ipc_alloc (msg_perm (msgque s' q))"
    and q': "p_seq (msg_perm (msgque s' q)) = (if i32 (d + ?n) < 0 then 0 else u16 (?p + 1))"
    by blast
  have sq: "p_seq (msg_perm (msgque s' q)) = (?p + 1) mod 65536"
    using rmid_seq [OF p n, of "int q"] q(1) q' unfolding d by simp
  have ne: "(?p + 1) mod 65536 \<noteq> ?p" using p by (cases "?p = 65535") simp_all
  have ab: "mq_abs s' (A(q := []))"
    unfolding mq_abs_def
    by (intro exI [of _ fl'] exI [of _ "Q(q := [])"]) (use r A in \<open>auto simp: contents_def\<close>)
  let ?s2 = "snd (msgget v k fl s')"
  have g: "mq_abs ?s2 (A(q := []))" "mi ?s2 = mi s'" using msgget_abs [OF ab, of v k fl] by simp_all
  have other: "msgconv t d = Inl EINVAL" if "mq_abs t B" "mi t = mi s" "p_seq (msg_perm (msgque t q)) \<noteq> ?p" for t B
    using mid.conv_stale [OF ids mq_abs_ids [OF that(1)] _ assms(2)] that(2,3) by simp
  have "msgconv ?s2 d = Inl EINVAL"
    using other [OF g(1)] g(2) r(4) msgget_seq [of v k fl s' q] sq ne by simp
  moreover have "msgconv s' d = Inl EINVAL" using other [OF ab] r(4) sq ne by simp
  ultimately show ?thesis using r(1,5) ab assms(2) sq other by (simp add: msgctl_def) blast
qed

theorem msg_rmid_stale_witness:
  "\<exists>s'. msgctl demo_root 0 0 None True demo_sent = Some (Ok 0, None, s') \<and> mq_abs s' (\<lambda>_. []) \<and>
     msgconv s' 0 = Inl EINVAL \<and> msgconv (snd (msgget demo_root 5 0x3B0 s')) 0 = Inl EINVAL"
proof -
  obtain A where a: "mq_abs demo_sent A" "\<forall>q. q \<noteq> 0 \<longrightarrow> A q = []"
  proof -
    have "msgconv demo_msg 0 = Inr 0" by code_simp
    with msgsnd_abs [OF demo_msg_ok demo_send_result] that show ?thesis by (auto simp: demo_snd_def)
  qed
  have c: "msgconv demo_sent 0 = Inr 0" by code_simp
  have o: "ipc_owner demo_root (msg_perm (msgque demo_sent 0))"
    by (simp add: ipc_owner_def demo_root_def suser_def)
  have "A(0 := []) = (\<lambda>_. [])" using a(2) by (auto simp: fun_eq_iff)
  with msg_rmid_stale [OF a(1) c o, of None True demo_root 5 "0x3B0"] show ?thesis by auto
qed

text \<open>
  The identifier \<open>msgget\<close> returns is accepted by the other calls and leads to the slot that
  holds the key asked for; it is not negative, so \<open>id % msgmni\<close> and \<open>id / msgmni\<close> decode it.
\<close>

theorem msgget_id_decodes:
  assumes "mq_abs s A" "msgget u k fl s = (Ok v, s')"
  shows "0 \<le> v \<and> (\<exists>q. int q < msgmni (mi s) \<and> msgconv s' v = Inr q \<and> p_key (msg_perm (msgque s' q)) = k)"
proof -
  have s': "s' = snd (msgget u k fl s)" using assms(2) by simp
  have g: "mq_abs s' A" "mi s' = mi s" using msgget_abs [OF assms(1), of u k fl] by (simp_all add: s')
  from assms(2) obtain st q p where i: "ipcget u k fl (\<lambda>i. msg_perm (msgque s i)) (nat (msgmni (mi s))) = Inr (st, q, p)"
    by (auto simp: msgget_def split: sum.splits)
  then have post: "ipcget_post u k fl (\<lambda>i. msg_perm (msgque s i)) (nat (msgmni (mi s))) (Inr (st, q, p))"
    using ipcget_ans [of u k fl "\<lambda>i. msg_perm (msgque s i)" "nat (msgmni (mi s))"] by simp
  then have q: "int q < msgmni (mi s)" "ipc_alloc p" "p_key p = k"
    using ipcget_post_slot [OF post] by (simp_all add: zless_nat_eq_int_zless)
  have v: "v = msqid_of s' q" and p: "msg_perm (msgque s' q) = p"
    using assms(2) i by (auto simp: msgget_def Let_def upd_q_def)
  have o: "msg_ids_ok s'" by (rule mq_abs_ids [OF g(1)])
  have "0 \<le> v"
    using mid.mkid_eq [OF o, of q] q(1) g(2) o v by (simp add: msg_ids_ok_def)
  then show ?thesis using mid.conv_mkid [OF o, of q] q p g(2) v by auto
qed

theorem msgget_id_decodes_witness:
  "\<exists>q. int q < 2 \<and> msgconv demo_msg 0 = Inr q \<and> p_key (msg_perm (msgque demo_msg q)) = 5"
proof -
  have "fst (msgget demo_root 5 0x3B0 demo_boot) = Ok 0" by code_simp
  then have "msgget demo_root 5 0x3B0 demo_boot = (Ok 0, demo_msg)" by (simp add: demo_msg_def prod_eq_iff)
  from msgget_id_decodes [OF demo_boot_ok this] show ?thesis
    by (simp add: demo_boot_def msginit_def demo_cfg_def)
qed

text \<open>
  C35: when a send finds segments for its text but no free header, it keeps the segments: it
  answers EAGAIN or sleeps, and the run taken from the map is afterwards neither free nor held by
  any message of any queue. Each retry takes another run.
\<close>

theorem msgsnd_loses_segments:
  assumes "msg_inv s fl Q" "msgconv s (s_id a) = Inr q" "0 < s_sz a"
    and "s_sz a + msg_cbytes (msgque s q) \<le> msg_qbytes (msgque s q)" "msgfp s = None"
    and "malloc (btoq s (s_sz a)) (msgmap s) = (sp, mp)" "sp \<noteq> 0"
  shows "\<exists>r s'. msgsnd_getres u um a ty q s = (r, s') \<and> (r = Fail EAGAIN \<or> r = Sleeping ChMap) \<and>
    (\<forall>q. msgque s' q = msgque s q) \<and> {sp ..< sp + btoq s (s_sz a)} \<subseteq> units (msgmap s) \<and>
    {sp ..< sp + btoq s (s_sz a)} \<inter> units (msgmap s') = {} \<and>
    (\<forall>m. {sp ..< sp + btoq s (s_sz a)} \<inter> held s' Q m = {})"
proof -
  let ?R = "{sp ..< sp + btoq s (s_sz a)}"
  have st: "msg_struct s fl Q" using assms(1) by (simp add: msg_inv_def)
  then have ok: "rmap_ok (msgmap s)" and l: "ledger (units (msgmap s)) (held s Q)" and z: "0 < msgssz (mi s)"
    by (simp_all add: msg_struct_def cfg_ok_def)
  have u: "?R \<subseteq> units (msgmap s)" "units mp = units (msgmap s) - ?R"
    using malloc_units [OF ok btoq_pos [OF z assms(3)]] assms(6,7) by simp_all
  have h: "?R \<inter> held s Q m = {}" for m using u(1) l by (auto simp: ledger_def)
  obtain r s' where e: "msgsnd_getres u um a ty q s = (r, s')" by fastforce
  have r: "r = Fail EAGAIN \<or> r = Sleeping ChMap" and f: "msgque s' = msgque s" "units (msgmap s') = units mp"
    "mi s' = mi s" "msgh s' = msgh s"
    using e assms by (auto simp: msgsnd_getres_def Let_def split: if_splits)
  have "held s' Q = held s Q" by (simp add: held_def seg_def btoq_def f fun_eq_iff)
  with e r f u h show ?thesis by auto
qed

theorem msgsnd_loses_segments_witness:
  "\<exists>r s'. msgsnd_getres demo_root demo_mem demo_snd 2 0 demo_sent = (r, s') \<and>
     {3 ..< 5} \<subseteq> units (msgmap demo_sent) \<and> {3 ..< 5} \<inter> units (msgmap s') = {}"
proof -
  obtain A where "mq_abs demo_sent A"
    using msgsnd_abs [OF demo_msg_ok demo_send_result] by auto
  then obtain fl Q where i: "msg_inv demo_sent fl Q" by (auto simp: mq_abs_def)
  have c: "msgconv demo_sent (s_id demo_snd) = Inr 0" "msgfp demo_sent = None"
    "s_sz demo_snd + msg_cbytes (msgque demo_sent 0) \<le> msg_qbytes (msgque demo_sent 0)"
    "fst (malloc (btoq demo_sent (s_sz demo_snd)) (msgmap demo_sent)) = 3"
    "btoq demo_sent (s_sz demo_snd) = 2" by code_simp+
  then have m: "malloc (btoq demo_sent (s_sz demo_snd)) (msgmap demo_sent) =
      (3, snd (malloc (btoq demo_sent (s_sz demo_snd)) (msgmap demo_sent)))" by (simp add: prod_eq_iff)
  from msgsnd_loses_segments [OF i c(1) _ c(3,2) m, of demo_root demo_mem 2] c(5) show ?thesis
    by (auto simp: demo_snd_def)
qed

text \<open>
  A lost wakeup. A send that finds no free header sleeps on the map, but freeing a message
  without text makes a header available and wakes only the queue's writers and \<open>&msgfp\<close>, on which
  nothing sleeps.
\<close>

theorem msg_header_wakeup_lost:
  assumes "msgconv s (s_id a) = Inr q" "0 < s_sz a" "s_flg a AND IPC_NOWAIT = 0" "msgfp s = None"
    and "s_sz a + msg_cbytes (msgque s q) \<le> msg_qbytes (msgque s q)"
    and "msg_ts (msgh s m) = 0" "pmp \<noteq> Some m"
  shows "fst (msgsnd_getres u um a ty q s) = Sleeping ChMap \<and>
    (\<exists>ws. mwakes (msgfree q' pmp m s) = ws @ mwakes s \<and> ChMap \<notin> set ws) \<and> msgfp (msgfree q' pmp m s) = Some m"
proof -
  have "fst (msgsnd_getres u um a ty q s) = Sleeping ChMap"
    using assms by (auto simp: msgsnd_getres_def Let_def split: prod.split)
  moreover have "\<exists>ws. mwakes (msg_unlink q' pmp m s) = ws @ mwakes s \<and> ChMap \<notin> set ws"
  proof -
    have "mwakes (msg_unlink q' pmp m s) = [ChQ q'] @ mwakes s \<or> mwakes (msg_unlink q' pmp m s) = [] @ mwakes s"
      by (auto simp: msg_unlink_def Let_def mwake_def upd_q_def upd_h_def split: option.split)
    then show ?thesis by (metis empty_iff list.set(1) mchan.distinct(5) set_ConsD)
  qed
  moreover have "msg_text_free m (msg_unlink q' pmp m s) = msg_unlink q' pmp m s"
    using assms(6,7) by (simp add: msg_text_free_def msg_unlink_fields)
  moreover have "mwakes (msg_hdr_free m t) = ChFp # mwakes t \<or> mwakes (msg_hdr_free m t) = mwakes t" for t
    by (auto simp: msg_hdr_free_def mwake_def upd_h_def Let_def)
  ultimately show ?thesis
    by (auto simp: msgfree_def msg_hdr_free_fields)
      (metis Cons_eq_appendI mchan.distinct(11) set_ConsD)
qed

definition demo_empty_sent :: msgsys where
  "demo_empty_sent = snd (msgsnd demo_root demo_mem (demo_snd\<lparr>s_sz := 0\<rparr>) demo_msg)"

theorem msg_header_wakeup_lost_witness:
  "fst (msgsnd_getres demo_root demo_mem demo_snd 2 0 demo_empty_sent) = Sleeping ChMap \<and>
   msgfp (msgfree 0 None 0 demo_empty_sent) = Some 0"
proof -
  have "msgconv demo_empty_sent (s_id demo_snd) = Inr 0" "s_flg demo_snd AND IPC_NOWAIT = 0"
    "msgfp demo_empty_sent = None"
    "s_sz demo_snd + msg_cbytes (msgque demo_empty_sent 0) \<le> msg_qbytes (msgque demo_empty_sent 0)"
    "msg_ts (msgh demo_empty_sent 0) = 0" "0 < s_sz demo_snd" by code_simp+
  from msg_header_wakeup_lost [OF this(1,6,2,3,4,5), of None demo_root demo_mem 2 0] show ?thesis by simp
qed


section \<open>When a copy sleeps\<close>

lemma text_free_keeps: "msgh (msg_text_free m s) = msgh s" "msgque (msg_text_free m s) = msgque s" "msgfp (msg_text_free m s) = msgfp s"
  by (simp_all add: msg_text_free_def mwake_def split: prod.split)

lemma msgfree_first:
  assumes "msg_next (msgh s m) = nx"
  shows "msg_next (msgh (msgfree q None m s) m) = msgfp s" "msgfp (msgfree q None m s) = Some m"
    "msg_first (msgque (msgfree q None m s) q) = nx" "msg_qnum (msgque (msgfree q None m s) q) = u16 (msg_qnum (msgque s q) - 1)"
  using assms
  by (simp_all add: msgfree_def msg_hdr_free_def msg_unlink_def text_free_keeps upd_q_def upd_h_def mwake_def set_mode_def Let_def)

text \<open>
  What the theorems on reachable states leave out by taking copies not to sleep. Two readers of a queue
  with one message both choose it before either has finished its copies. The first to finish frees it;
  the second then frees it again: its header is linked to itself as the whole free list, the queue
  begins with the header that was free before, and its number of messages wraps to 65535.
\<close>

theorem msgrcv_double_free:
  assumes "mq_abs s A" "A q = [x]" "r_typ a = 0" "r_typ b = 0"
    and "msgrcv_pick um a q s = Some (Picked m p z, um')" "msgrcv_pick vm b q s = Some (Picked m' p' z', vm')"
  shows "let t = msgrcv_finish v q m' p' (msgrcv_finish u q m p s) in
    msgfp t = Some m \<and> msg_next (msgh t m) = Some m \<and> msg_first (msgque t q) = msgfp s \<and>
    msg_qnum (msgque t q) = 65535"
proof -
  from assms(1,2) obtain fl Q where iv: "msg_inv s fl Q" and "[x] = contents s (Q q)" by (auto simp: mq_abs_def)
  then have "length (Q q) = 1" by (simp add: contents_def) (metis length_map One_nat_def length_Cons list.size(3))
  then obtain k where Q: "Q q = [k]" by (auto simp: length_Suc_conv)
  have "queue_ok s q (Q q)" using iv by (simp add: msg_inv_def msg_struct_def)
  then have k: "msg_first (msgque s q) = Some k" "msg_next (msgh s k) = None" "msg_qnum (msgque s q) = 1"
    by (simp_all add: queue_ok_def Q)
  have m: "m = k" "p = None" "m' = k" "p' = None"
    using assms(3-6) k(1) by (simp_all add: msgrcv_pick_def Let_def split: if_splits option.splits)
  define s1 where "s1 = msgrcv_finish u q k None s"
  have "msg_next (msgh s1 k) = msgfp s" "msg_qnum (msgque s1 q) = 0" "msgfp s1 = Some k"
    using k by (simp_all add: s1_def msgrcv_finish_def msgfree_first upd_q_def u16_def)
  then have "msgfp (msgrcv_finish v q k None s1) = Some k" "msg_next (msgh (msgrcv_finish v q k None s1) k) = Some k"
    "msg_first (msgque (msgrcv_finish v q k None s1) q) = msgfp s" "msg_qnum (msgque (msgrcv_finish v q k None s1) q) = 65535"
    by (simp_all add: msgrcv_finish_def msgfree_first upd_q_def u16_def)
  then show ?thesis unfolding m s1_def by (simp add: Let_def)
qed

theorem msgrcv_double_free_witness:
  "\<exists>m um'. msgrcv_pick demo_mem demo_rcv 0 demo_sent = Some (Picked m None 10, um') \<and>
    (let t = msgrcv_finish demo_root 0 m None (msgrcv_finish demo_root 0 m None demo_sent) in
      msgfp t = Some m \<and> msg_next (msgh t m) = Some m \<and> msg_qnum (msgque t 0) = 65535)"
proof -
  have c: "msgconv demo_msg 0 = Inr 0" by code_simp
  with msgsnd_abs [OF demo_msg_ok demo_send_result]
  obtain x where a: "mq_abs demo_sent ((\<lambda>_. [])(0 := [x]))" by (auto simp: demo_snd_def)
  have "map_option fst (msgrcv_pick demo_mem demo_rcv 0 demo_sent) = Some (Picked 0 None 10)" by code_simp
  then obtain um' where p: "msgrcv_pick demo_mem demo_rcv 0 demo_sent = Some (Picked 0 None 10, um')" by auto
  from msgrcv_double_free [OF a _ _ _ p p, of x demo_root demo_root] p show ?thesis by (auto simp: demo_rcv_def Let_def)
qed

end
