(* ===== verification/Sem.thy ===== *)
theory Sem
  imports Rmap Ipc
begin

text \<open>
  System V semaphores (PAGING/os/sem.c, include/sys/sem.h): the table of sets over one array of
  semaphores carved up by the resource map, the per-process adjust-on-exit structures, and the
  calls. The chains \<open>semunp\<close> and \<open>semfup\<close> are the lists of the structures linked through
  \<open>un_np\<close>, and a structure is the list of its \<open>un_cnt\<close> active entries; a pointer to a structure, a
  set or a semaphore is its index. \<open>sems\<close> is a total function: that the indices used lie inside the
  array \<open>sem[]\<close> is part of the invariant of Sem_Reach, and fails only for a resumed \<open>semop\<close> whose
  list the user has changed. The static buffer \<open>semtmp\<close>, into which a call copies its list or the
  values of SETALL, is a value of the call: no copy sleeps (Prelude), so no call finds it overwritten.
\<close>

section \<open>The tables\<close>

record sem =
  semval :: int
  sempid :: int
  semncnt :: int
  semzcnt :: int

record semid_ds =
  sem_perm :: ipc_perm
  sem_base :: nat
  sem_nsems :: int
  sem_otime :: int
  sem_ctime :: int

record undo =
  un_aoe :: int
  un_num :: int
  un_id :: int

record seminfo =
  mi_semmap :: nat
  semmni :: int
  semmns :: int
  semmnu :: nat
  semmsl :: int
  semopm :: int
  semume :: int
  semvmx :: int
  semaem :: int

record sembuf =
  sem_num :: int
  sem_op :: int
  sem_flg :: "16 word"

text \<open>The two sleep channels of a semaphore: \<open>&semp->semncnt\<close> and \<open>&semp->semzcnt\<close>.\<close>

datatype schan = ChN nat | ChZ nat

record semst =
  si :: seminfo
  sema :: "nat \<Rightarrow> semid_ds"
  sems :: "nat \<Rightarrow> sem"
  semmap :: rmap
  undo_tab :: "nat \<Rightarrow> nat option"
  semu :: "nat \<Rightarrow> undo list"
  semunp :: "nat list"
  semfup :: "nat list"
  semnow :: int
  swakes :: "schan list"

abbreviation (input) SEM_A :: "16 word" where "SEM_A \<equiv> 0x80"
abbreviation (input) SEM_R :: "16 word" where "SEM_R \<equiv> 0x100"
abbreviation (input) SEM_UNDO :: "16 word" where "SEM_UNDO \<equiv> 0x1000"
abbreviation (input) SEM_NOWAIT :: "16 word" where "SEM_NOWAIT \<equiv> 0x800"

definition upd_sem :: "nat \<Rightarrow> (sem \<Rightarrow> sem) \<Rightarrow> semst \<Rightarrow> semst" where
  "upd_sem j f s = s\<lparr>sems := (sems s)(j := f (sems s j))\<rparr>"

definition upd_set :: "nat \<Rightarrow> (semid_ds \<Rightarrow> semid_ds) \<Rightarrow> semst \<Rightarrow> semst" where
  "upd_set k f s = s\<lparr>sema := (sema s)(k := f (sema s k))\<rparr>"

definition set_ents :: "nat \<Rightarrow> undo list \<Rightarrow> semst \<Rightarrow> semst" where
  "set_ents i es s = s\<lparr>semu := (semu s)(i := es)\<rparr>"

definition swake :: "schan \<Rightarrow> semst \<Rightarrow> semst" where
  "swake c s = s\<lparr>swakes := c # swakes s\<rparr>"

text \<open>\<open>if (p->semncnt) { p->semncnt = 0; wakeup(&p->semncnt); }\<close> and the same for zero.\<close>

definition wake_n :: "nat \<Rightarrow> semst \<Rightarrow> semst" where
  "wake_n j s = (if semncnt (sems s j) \<noteq> 0 then swake (ChN j) (upd_sem j (semncnt_update (\<lambda>_. 0)) s) else s)"

definition wake_z :: "nat \<Rightarrow> semst \<Rightarrow> semst" where
  "wake_z j s = (if semzcnt (sems s j) \<noteq> 0 then swake (ChZ j) (upd_sem j (semzcnt_update (\<lambda>_. 0)) s) else s)"

section \<open>semaoe: adjust on exit entries\<close>

definition before :: "int \<Rightarrow> int \<Rightarrow> undo \<Rightarrow> bool" where
  "before i n e = (un_id e < i \<or> (un_id e = i \<and> un_num e < n))"

text \<open>The structure of the calling process, taken from the free chain when it has none.\<close>

definition undo_slot :: "user \<Rightarrow> semst \<Rightarrow> (nat \<times> semst) option" where
  "undo_slot u s =
     (case undo_tab s (u_proc u) of
        Some i \<Rightarrow> Some (i, s)
      | None \<Rightarrow> (case semfup s of
                   [] \<Rightarrow> None
                 | i # fr \<Rightarrow> Some (i, s\<lparr>semfup := fr, undo_tab := (undo_tab s)(u_proc u := Some i)\<rparr>)))"

text \<open>The insertion or update of the entry for semaphore \<open>n\<close> of set \<open>d\<close> in structure \<open>i\<close>.\<close>

definition semaoe_at :: "nat \<Rightarrow> int \<Rightarrow> int \<Rightarrow> int \<Rightarrow> semst \<Rightarrow> errno option \<times> semst" where
  "semaoe_at i v d n s =
     (let pre = takeWhile (before d n) (semu s i); post = dropWhile (before d n) (semu s i);
          found = (case post of [] \<Rightarrow> False | e # _ \<Rightarrow> un_id e = d \<and> un_num e = n)
      in if \<not> found then
           if int (length (semu s i)) \<ge> semume (si s) then (Some EINVAL, s)
           else
             let s1 = (if semu s i = [] then s\<lparr>semunp := i # semunp s\<rparr> else s)
             in (None, set_ents i (pre @ \<lparr>un_aoe = s16 (- v), un_num = n, un_id = d\<rparr> # post) s1)
         else
           let e = hd post; a = s16 (un_aoe e - v)
           in if a > semaem (si s) \<or> a < - semaem (si s) then
                (Some ERANGE, set_ents i (pre @ e\<lparr>un_aoe := s16 (a + v)\<rparr> # tl post) s)
              else if a = 0 then
                let s1 = set_ents i (pre @ tl post) s
                in (None, if pre @ tl post = [] then s1\<lparr>semunp := remove1 i (semunp s1)\<rparr> else s1)
              else (None, set_ents i (pre @ e\<lparr>un_aoe := a\<rparr> # tl post) s))"

text \<open>The answer is the error left in \<open>u.u_error\<close>, \<open>None\<close> when it returns 0.\<close>

definition semaoe :: "user \<Rightarrow> int \<Rightarrow> int \<Rightarrow> int \<Rightarrow> semst \<Rightarrow> errno option \<times> semst" where
  "semaoe u v d n s =
     (if v = 0 then (None, s)
      else if v > semaem (si s) \<or> v < - semaem (si s) then (Some ERANGE, s)
      else (case undo_slot u s of
              None \<Rightarrow> (Some ENOSPC, s)
            | Some (i, s1) \<Rightarrow> semaoe_at i v d n s1))"

section \<open>semunrm\<close>

text \<open>The inner loop over the entries of one structure.\<close>

fun unrm_scan :: "int \<Rightarrow> int \<Rightarrow> int \<Rightarrow> undo list \<Rightarrow> undo list" where
  "unrm_scan d low high [] = []"
| "unrm_scan d low high (e # es) =
     (if d < un_id e then e # es
      else if d > un_id e \<or> low > un_num e then e # unrm_scan d low high es
      else if high < un_num e then e # es
      else unrm_scan d low high es)"

text \<open>The walk along \<open>semunp\<close>; a structure left without entries is unlinked.\<close>

fun unrm_walk :: "int \<Rightarrow> int \<Rightarrow> int \<Rightarrow> nat list \<Rightarrow> (nat \<Rightarrow> undo list) \<Rightarrow> (nat \<Rightarrow> undo list) \<times> nat list" where
  "unrm_walk d low high [] m = (m, [])"
| "unrm_walk d low high (i # is) m =
     (let es = unrm_scan d low high (m i)
      in case unrm_walk d low high is (m(i := es)) of
           (m', act) \<Rightarrow> (m', if es = [] then act else i # act))"

definition semunrm :: "int \<Rightarrow> int \<Rightarrow> int \<Rightarrow> semst \<Rightarrow> semst" where
  "semunrm d low high s =
     (case unrm_walk d (u16 low) (u16 high) (semunp s) (semu s) of
        (m, act) \<Rightarrow> s\<lparr>semu := m, semunp := act\<rparr>)"

section \<open>semconv, semipcget, seminit, semget\<close>

definition semconv :: "semst \<Rightarrow> int \<Rightarrow> errno + nat" where
  "semconv s d =
     (if d < 0 then Inl EINVAL
      else
        let k = nat (d mod semmni (si s))
        in if \<not> ipc_alloc (sem_perm (sema s k)) \<or> d div semmni (si s) \<noteq> p_seq (sem_perm (sema s k))
           then Inl EINVAL else Inr k)"

definition semipcget :: "semst \<Rightarrow> int \<Rightarrow> ipc_perm option" where
  "semipcget s i = (if i < 0 \<or> i \<ge> semmni (si s) then None else Some (sem_perm (sema s (nat i))))"

text \<open>At boot the static tables are zero.\<close>

definition seminit :: "seminfo \<Rightarrow> int \<Rightarrow> semst" where
  "seminit cfg t =
     \<lparr>si = cfg,
      sema = (\<lambda>_. \<lparr>sem_perm = \<lparr>p_uid = 0, p_gid = 0, p_cuid = 0, p_cgid = 0, p_mode = 0, p_seq = 0, p_key = 0\<rparr>,
                   sem_base = 0, sem_nsems = 0, sem_otime = 0, sem_ctime = 0\<rparr>),
      sems = (\<lambda>_. \<lparr>semval = 0, sempid = 0, semncnt = 0, semzcnt = 0\<rparr>),
      semmap = fst (mfree (semmns cfg) 1 (mapinit (mi_semmap cfg))),
      undo_tab = (\<lambda>_. None), semu = (\<lambda>_. []), semunp = [], semfup = [0..<semmnu cfg],
      semnow = t, swakes = []\<rparr>"

definition semid_of :: "semst \<Rightarrow> nat \<Rightarrow> int" where
  "semid_of s k = i32 (p_seq (sem_perm (sema s k)) * semmni (si s) + int k)"

text \<open>\<open>ipcget\<close> has stored the new entry before the size is looked at.\<close>

definition semget :: "user \<Rightarrow> int \<Rightarrow> int \<Rightarrow> 32 word \<Rightarrow> semst \<Rightarrow> schan outcome \<times> semst" where
  "semget u key nsems flg s =
     (case ipcget u key flg (\<lambda>i. sem_perm (sema s i)) (nat (semmni (si s))) of
        Inl e \<Rightarrow> (Fail e, s)
      | Inr (st, k, p) \<Rightarrow>
          let s1 = upd_set k (sem_perm_update (\<lambda>_. p)) s
          in if st then
               if nsems \<le> 0 \<or> nsems > semmsl (si s1) then
                 (Fail EINVAL, upd_set k (sem_perm_update (p_mode_update (\<lambda>_. 0))) s1)
               else
                 (case malloc nsems (semmap s1) of
                    (i, mp) \<Rightarrow>
                      if i = 0 then
                        (Fail ENOSPC, upd_set k (sem_perm_update (p_mode_update (\<lambda>_. 0))) (s1\<lparr>semmap := mp\<rparr>))
                      else
                        let s2 = upd_set k (\<lambda>sp. sp\<lparr>sem_base := nat (i - 1), sem_nsems := u16 nsems,
                                   sem_ctime := semnow s1, sem_otime := 0\<rparr>) (s1\<lparr>semmap := mp\<rparr>)
                        in (Ok (semid_of s2 k), s2))
             else if nsems \<noteq> 0 \<and> sem_nsems (sema s1 k) < nsems then (Fail EINVAL, s1)
             else (Ok (semid_of s1 k), s1))"

section \<open>semctl\<close>

definition sem_owner :: "user \<Rightarrow> ipc_perm \<Rightarrow> bool" where
  "sem_owner u p = (u_uid u = p_uid p \<or> u_uid u = p_cuid p \<or> suser u)"

text \<open>The loop over the semaphores of a removed set, from index \<open>j\<close>, \<open>n\<close> of them.\<close>

fun rmid_sems :: "nat \<Rightarrow> nat \<Rightarrow> semst \<Rightarrow> semst" where
  "rmid_sems 0 j s = s"
| "rmid_sems (Suc n) j s =
     rmid_sems n (Suc j) (wake_z j (wake_n j (upd_sem j (\<lambda>p. p\<lparr>semval := 0, sempid := 0\<rparr>) s)))"

definition semctl_rmid :: "user \<Rightarrow> int \<Rightarrow> nat \<Rightarrow> semst \<Rightarrow> schan outcome \<times> semst" where
  "semctl_rmid u d k s =
     (if \<not> sem_owner u (sem_perm (sema s k)) then (Fail EPERM, s)
      else
        let n = sem_nsems (sema s k); b = sem_base (sema s k);
            s1 = rmid_sems (nat n) b (semunrm d 0 n s);
            s2 = s1\<lparr>semmap := fst (mfree n (int b + 1) (semmap s1))\<rparr>;
            s3 = upd_set k (sem_perm_update (\<lambda>p. p\<lparr>
                   p_seq := (if i32 (d + semmni (si s2)) < 0 then 0 else u16 (p_seq p + 1)), p_mode := 0\<rparr>)) s2
        in (Ok 0, s3))"

definition semctl_set :: "user \<Rightarrow> nat \<Rightarrow> semid_ds option \<Rightarrow> semst \<Rightarrow> schan outcome \<times> semst" where
  "semctl_set u k ds s =
     (if \<not> sem_owner u (sem_perm (sema s k)) then (Fail EPERM, s)
      else (case ds of
              None \<Rightarrow> (Fail EFAULT, s)
            | Some ds \<Rightarrow>
                (Ok 0, upd_set k (\<lambda>sp. sp\<lparr>
                   sem_perm := (sem_perm sp)\<lparr>p_uid := p_uid (sem_perm ds), p_gid := p_gid (sem_perm ds),
                     p_mode := (p_mode (sem_perm ds) AND 0x1FF) OR IPC_ALLOC\<rparr>, sem_ctime := semnow s\<rparr>) s)))"

text \<open>GETNCNT, GETPID, GETVAL and GETZCNT read one field.\<close>

definition semctl_get :: "user \<Rightarrow> nat \<Rightarrow> int \<Rightarrow> (sem \<Rightarrow> int) \<Rightarrow> semst \<Rightarrow> schan outcome" where
  "semctl_get u k num f s =
     (case ipcaccess u (sem_perm (sema s k)) SEM_R of
        Some e \<Rightarrow> Fail e
      | None \<Rightarrow> if u32 num \<ge> sem_nsems (sema s k) then Fail EINVAL
                else Ok (f (sems s (sem_base (sema s k) + nat (u32 num)))))"

definition short_bytes :: "int \<Rightarrow> byte list" where
  "short_bytes x = [word_of_int (x div 2 ^ 8), word_of_int x]"

fun bytes_short :: "byte list \<Rightarrow> int" where
  "bytes_short [a, b] = uint a * 2 ^ 8 + uint b"
| "bytes_short _ = 0"

text \<open>GETALL moves the values one by one; a fault ends it.\<close>

fun getall :: "umem \<Rightarrow> int \<Rightarrow> int list \<Rightarrow> bool \<times> umem" where
  "getall um a [] = (True, um)"
| "getall um a (v # vs) =
     (case copyout um a (short_bytes v) of
        None \<Rightarrow> (False, um)
      | Some um1 \<Rightarrow> getall um1 (a + 2) vs)"

definition set_vals :: "semst \<Rightarrow> nat \<Rightarrow> int list" where
  "set_vals s k = map (\<lambda>i. semval (sems s (sem_base (sema s k) + i))) [0..<nat (sem_nsems (sema s k))]"

definition semctl_getall :: "user \<Rightarrow> umem \<Rightarrow> nat \<Rightarrow> int \<Rightarrow> semst \<Rightarrow> schan outcome \<times> umem" where
  "semctl_getall u um k a s =
     (case ipcaccess u (sem_perm (sema s k)) SEM_R of
        Some e \<Rightarrow> (Fail e, um)
      | None \<Rightarrow> (case getall um a (set_vals s k) of
                   (ok, um1) \<Rightarrow> (if ok then Ok 0 else Fail EFAULT, um1)))"

text \<open>The assignment of SETVAL and SETALL to semaphore \<open>j\<close> with its wakeups.\<close>

definition sem_assign :: "nat \<Rightarrow> int \<Rightarrow> semst \<Rightarrow> semst" where
  "sem_assign j v s =
     (let s1 = upd_sem j (semval_update (\<lambda>_. u16 v)) s
      in if u16 v \<noteq> 0 then wake_n j s1 else wake_z j s1)"

definition set_pid :: "user \<Rightarrow> nat \<Rightarrow> semst \<Rightarrow> semst" where
  "set_pid u j s = upd_sem j (sempid_update (\<lambda>_. s16 (u_pid u))) s"

definition semctl_setval :: "user \<Rightarrow> int \<Rightarrow> nat \<Rightarrow> int \<Rightarrow> int \<Rightarrow> semst \<Rightarrow> schan outcome \<times> semst" where
  "semctl_setval u d k num arg s =
     (case ipcaccess u (sem_perm (sema s k)) SEM_A of
        Some e \<Rightarrow> (Fail e, s)
      | None \<Rightarrow>
          if u32 num \<ge> sem_nsems (sema s k) then (Fail EINVAL, s)
          else if u32 arg > semvmx (si s) then (Fail ERANGE, s)
          else
            let j = sem_base (sema s k) + nat (u32 num)
            in (Ok 0, semunrm d (u32 num) (u32 num) (set_pid u j (sem_assign j arg s))))"

text \<open>The list of unsigned shorts at an address.\<close>

fun shorts_of :: "byte list \<Rightarrow> int list" where
  "shorts_of (a # b # bs) = bytes_short [a, b] # shorts_of bs"
| "shorts_of _ = []"

fun setall :: "user \<Rightarrow> nat \<Rightarrow> int list \<Rightarrow> semst \<Rightarrow> semst" where
  "setall u j [] s = s"
| "setall u j (v # vs) s = setall u (Suc j) vs (set_pid u j (sem_assign j v s))"

definition semctl_setall :: "user \<Rightarrow> umem \<Rightarrow> int \<Rightarrow> nat \<Rightarrow> int \<Rightarrow> semst \<Rightarrow> schan outcome \<times> semst" where
  "semctl_setall u um d k a s =
     (case ipcaccess u (sem_perm (sema s k)) SEM_A of
        Some e \<Rightarrow> (Fail e, s)
      | None \<Rightarrow>
          (case copyin um a (2 * nat (sem_nsems (sema s k))) of
             None \<Rightarrow> (Fail EFAULT, s)
           | Some bs \<Rightarrow>
               if list_ex (\<lambda>v. v > semvmx (si s)) (shorts_of bs) then (Fail ERANGE, s)
               else (Ok 0, setall u (sem_base (sema s k)) (shorts_of bs)
                             (semunrm d 0 (sem_nsems (sema s k)) s))))"

text \<open>
  The switch. \<open>ds\<close> and \<open>wr\<close> are what \<open>copyin\<close> and \<open>copyout\<close> of a structure do; the structure
  IPC_STAT delivers is the second component.
\<close>

definition semctl :: "user \<Rightarrow> umem \<Rightarrow> int \<Rightarrow> int \<Rightarrow> int \<Rightarrow> int \<Rightarrow> semid_ds option \<Rightarrow> bool \<Rightarrow> semst \<Rightarrow>
    schan outcome \<times> semid_ds option \<times> umem \<times> semst" where
  "semctl u um d num cmd arg ds wr s =
     (case semconv s d of
        Inl e \<Rightarrow> (Fail e, None, um, s)
      | Inr k \<Rightarrow>
          if cmd = 0 then (case semctl_rmid u d k s of (r, s') \<Rightarrow> (r, None, um, s'))
          else if cmd = 1 then (case semctl_set u k ds s of (r, s') \<Rightarrow> (r, None, um, s'))
          else if cmd = 2 then
            (case ipcaccess u (sem_perm (sema s k)) SEM_R of
               Some e \<Rightarrow> (Fail e, None, um, s)
             | None \<Rightarrow> if wr then (Ok 0, Some (sema s k), um, s) else (Fail EFAULT, None, um, s))
          else if cmd = 3 then (semctl_get u k num semncnt s, None, um, s)
          else if cmd = 4 then (semctl_get u k num sempid s, None, um, s)
          else if cmd = 5 then (semctl_get u k num semval s, None, um, s)
          else if cmd = 6 then (case semctl_getall u um k arg s of (r, um1) \<Rightarrow> (r, None, um1, s))
          else if cmd = 7 then (semctl_get u k num semzcnt s, None, um, s)
          else if cmd = 8 then (case semctl_setval u d k num arg s of (r, s') \<Rightarrow> (r, None, um, s'))
          else if cmd = 9 then (case semctl_setall u um d k arg s of (r, s') \<Rightarrow> (r, None, um, s'))
          else (Fail EINVAL, None, um, s))"

section \<open>semop\<close>

text \<open>The operations as \<open>uiomove\<close> brings them in: six bytes each.\<close>

fun semops_of :: "byte list \<Rightarrow> sembuf list" where
  "semops_of (a # b # c # d # e # f # bs) =
     \<lparr>sem_num = bytes_short [a, b], sem_op = s16 (bytes_short [c, d]),
      sem_flg = word_of_int (bytes_short [e, f])\<rparr> # semops_of bs"
| "semops_of _ = []"

text \<open>
  \<open>semundo\<close> runs backwards over the operations done, here given last first. The error is the one
  a call of \<open>semaoe\<close> leaves in \<open>u.u_error\<close>.
\<close>

fun semundo :: "user \<Rightarrow> int \<Rightarrow> nat \<Rightarrow> sembuf list \<Rightarrow> semst \<Rightarrow> errno option \<times> semst" where
  "semundo u d k [] s = (None, s)"
| "semundo u d k (op # done) s =
     (if sem_op op = 0 then semundo u d k done s
      else
        let s1 = upd_sem (sem_base (sema s k) + nat (sem_num op)) (semval_update (\<lambda>v. u16 (v - sem_op op))) s
        in case (if sem_flg op AND SEM_UNDO \<noteq> 0 then semaoe u (s16 (- sem_op op)) d (s16 (sem_num op)) s1
                 else (None, s1)) of
             (e, s2) \<Rightarrow> (case semundo u d k done s2 of
                           (e', s3) \<Rightarrow> (case e' of None \<Rightarrow> e | Some x \<Rightarrow> Some x, s3)))"

text \<open>How the loop over the operations ends: all done, an error, or a \<open>sleep\<close>.\<close>

datatype passed = AllDone | PassErr errno | PassSleep schan

text \<open>The error an abandoned pass leaves: that of \<open>semaoe\<close> in \<open>semundo\<close>, if any, is the last.\<close>

definition pass_fail :: "errno \<Rightarrow> errno option \<times> semst \<Rightarrow> passed \<times> semst" where
  "pass_fail e r = (PassErr (case fst r of None \<Rightarrow> e | Some x \<Rightarrow> x), snd r)"

fun semop_loop :: "user \<Rightarrow> int \<Rightarrow> nat \<Rightarrow> sembuf list \<Rightarrow> sembuf list \<Rightarrow> semst \<Rightarrow> passed \<times> semst" where
  "semop_loop u d k done [] s = (AllDone, s)"
| "semop_loop u d k done (op # ops) s =
     (let j = sem_base (sema s k) + nat (sem_num op)
      in if sem_op op > 0 then
           if sem_op op + semval (sems s j) > semvmx (si s) then pass_fail ERANGE (semundo u d k done s)
           else
             (case (if sem_flg op AND SEM_UNDO \<noteq> 0 then semaoe u (sem_op op) d (s16 (sem_num op)) s else (None, s)) of
                (Some e, s1) \<Rightarrow> pass_fail e (semundo u d k done s1)
              | (None, s1) \<Rightarrow>
                  semop_loop u d k (op # done) ops
                    (wake_n j (upd_sem j (semval_update (\<lambda>v. u16 (v + sem_op op))) s1)))
         else if sem_op op < 0 then
           if semval (sems s j) \<ge> - sem_op op then
             (case (if sem_flg op AND SEM_UNDO \<noteq> 0 then semaoe u (sem_op op) d (s16 (sem_num op)) s else (None, s)) of
                (Some e, s1) \<Rightarrow> pass_fail e (semundo u d k done s1)
              | (None, s1) \<Rightarrow>
                  let s2 = upd_sem j (semval_update (\<lambda>v. u16 (v + sem_op op))) s1
                  in semop_loop u d k (op # done) ops (if semval (sems s2 j) = 0 then wake_z j s2 else s2))
           else
             let s1 = snd (semundo u d k done s)
             in if sem_flg op AND SEM_NOWAIT \<noteq> 0 then (PassErr EAGAIN, s1)
                else (PassSleep (ChN j), upd_sem j (semncnt_update (\<lambda>n. s16 (n + 1))) s1)
         else if semval (sems s j) \<noteq> 0 then
           let s1 = snd (semundo u d k done s)
           in if sem_flg op AND SEM_NOWAIT \<noteq> 0 then (PassErr EAGAIN, s1)
              else (PassSleep (ChZ j), upd_sem j (semzcnt_update (\<lambda>n. s16 (n + 1))) s1)
         else semop_loop u d k (op # done) ops s)"

fun mark_pids :: "user \<Rightarrow> nat \<Rightarrow> sembuf list \<Rightarrow> semst \<Rightarrow> semst" where
  "mark_pids u k [] s = s"
| "mark_pids u k (op # ops) s = mark_pids u k ops (set_pid u (sem_base (sema s k) + nat (sem_num op)) s)"

text \<open>From the loop to the return or the \<open>sleep\<close>.\<close>

definition semop_pass :: "user \<Rightarrow> int \<Rightarrow> nat \<Rightarrow> sembuf list \<Rightarrow> semst \<Rightarrow> schan outcome \<times> semst" where
  "semop_pass u d k ops s =
     (case semop_loop u d k [] ops s of
        (PassErr e, s1) \<Rightarrow> (Fail e, s1)
      | (PassSleep c, s1) \<Rightarrow> (Sleeping c, s1)
      | (AllDone, s1) \<Rightarrow> (Ok 0, upd_set k (sem_otime_update (\<lambda>_. semnow s1)) (mark_pids u k ops s1)))"

text \<open>The verification loop: the error of the first operation refused.\<close>

fun semop_check :: "user \<Rightarrow> semid_ds \<Rightarrow> sembuf list \<Rightarrow> errno option" where
  "semop_check u sp [] = None"
| "semop_check u sp (op # ops) =
     (case ipcaccess u (sem_perm sp) (if sem_op op \<noteq> 0 then SEM_A else SEM_R) of
        Some e \<Rightarrow> Some e
      | None \<Rightarrow> if sem_num op \<ge> sem_nsems sp then Some EFBIG else semop_check u sp ops)"

definition semop :: "user \<Rightarrow> umem \<Rightarrow> int \<Rightarrow> int \<Rightarrow> int \<Rightarrow> semst \<Rightarrow> schan outcome \<times> semst" where
  "semop u um d sops nsops s =
     (case semconv s d of
        Inl e \<Rightarrow> (Fail e, s)
      | Inr k \<Rightarrow>
          if u32 nsops > semopm (si s) then (Fail E2BIG, s)
          else (case copyin um sops (6 * nat (u32 nsops)) of
                  None \<Rightarrow> (Fail EFAULT, s)
                | Some bs \<Rightarrow>
                    (case semop_check u (sema s k) (semops_of bs) of
                       Some e \<Rightarrow> (Fail e, s)
                     | None \<Rightarrow> semop_pass u d k (semops_of bs) s)))"

text \<open>
  What follows the return of \<open>sleep\<close> on channel \<open>c\<close>. The operations are copied in again from the
  user's memory and not verified again.
\<close>

definition semop_intr :: "schan \<Rightarrow> semst \<Rightarrow> semst" where
  "semop_intr c s =
     (case c of
        ChN j \<Rightarrow>
          let s1 = upd_sem j (semncnt_update (\<lambda>n. s16 (n - 1))) s
          in if semncnt (sems s1 j) \<le> 0 then swake (ChN j) (upd_sem j (semncnt_update (\<lambda>_. 0)) s1) else s1
      | ChZ j \<Rightarrow>
          let s1 = upd_sem j (semzcnt_update (\<lambda>n. s16 (n - 1))) s
          in if semzcnt (sems s1 j) \<le> 0 then swake (ChZ j) (upd_sem j (semzcnt_update (\<lambda>_. 0)) s1) else s1)"

definition semop_resume :: "bool \<Rightarrow> schan \<Rightarrow> user \<Rightarrow> umem \<Rightarrow> int \<Rightarrow> int \<Rightarrow> int \<Rightarrow> nat \<Rightarrow> semst \<Rightarrow> schan outcome \<times> semst" where
  "semop_resume intr c u um d sops nsops k s =
     (if intr then (Fail EINTR, semop_intr c s)
      else (case semconv s d of
              Inl _ \<Rightarrow> (Fail EIDRM, s)
            | Inr _ \<Rightarrow> (case copyin um sops (6 * nat (u32 nsops)) of
                          None \<Rightarrow> (Fail EFAULT, s)
                        | Some bs \<Rightarrow> semop_pass u d k (semops_of bs) s)))"

section \<open>semexit\<close>

text \<open>One entry: skipped when its set is gone or the value would leave its range.\<close>

definition exit_entry :: "undo \<Rightarrow> semst \<Rightarrow> semst" where
  "exit_entry e s =
     (case semconv s (un_id e) of
        Inl _ \<Rightarrow> s
      | Inr k \<Rightarrow>
          let j = sem_base (sema s k) + nat (un_num e); v = semval (sems s j) + un_aoe e
          in if v < 0 \<or> v > semvmx (si s) then s
             else
               let s1 = upd_sem j (semval_update (\<lambda>_. u16 v)) s;
                   s2 = (if v = 0 then wake_z j s1 else s1)
               in if un_aoe e > 0 then wake_n j s2 else s2)"

text \<open>The entries are taken from the last to the first.\<close>

definition semexit :: "user \<Rightarrow> semst \<Rightarrow> semst" where
  "semexit u s =
     (case undo_tab s (u_proc u) of
        None \<Rightarrow> s
      | Some i \<Rightarrow>
          let s1 = (if semu s i = [] then s
                    else (let s0 = fold exit_entry (rev (semu s i)) s
                          in (set_ents i [] s0)\<lparr>semunp := remove1 i (semunp s0)\<rparr>))
          in s1\<lparr>semfup := i # semfup s1, undo_tab := (undo_tab s1)(u_proc u := None)\<rparr>)"

section \<open>semsys\<close>

definition semsys_call :: "user \<Rightarrow> umem \<Rightarrow> int \<Rightarrow> (nat \<Rightarrow> int) \<Rightarrow> semid_ds option \<Rightarrow> bool \<Rightarrow> semst \<Rightarrow>
    schan outcome \<times> umem \<times> semst" where
  "semsys_call u um c arg ds wr s =
     (if u32 c > 2 then (Fail EINVAL, um, s)
      else if c = 0 then
        (case semctl u um (arg 1) (arg 2) (arg 3) (arg 4) ds wr s of (r, _, um', s') \<Rightarrow> (r, um', s'))
      else if c = 1 then
        (case semget u (arg 1) (arg 2) (word_of_int (arg 3)) s of (r, s') \<Rightarrow> (r, um, s'))
      else (case semop u um (arg 1) (arg 2) (arg 3) s of (r, s') \<Rightarrow> (r, um, s')))"

end
