(* ===== verification/Sem_Undo.thy ===== *)
theory Sem_Undo
  imports Sem
begin

text \<open>
  The adjust-on-exit structures: their invariant, the adjustment a process has for a semaphore as
  a function, the effect of \<open>semaoe\<close> and \<open>semunrm\<close> on it, and when \<open>semaoe\<close> succeeds.
\<close>

section \<open>The entries of one structure\<close>

definition same_key :: "int \<Rightarrow> int \<Rightarrow> undo \<Rightarrow> bool" where
  "same_key d n e = (un_id e = d \<and> un_num e = n)"

fun aoe_in :: "undo list \<Rightarrow> int \<Rightarrow> int \<Rightarrow> int" where
  "aoe_in [] d n = 0"
| "aoe_in (e # es) d n = (if same_key d n e then un_aoe e else aoe_in es d n)"

definition key_less :: "undo \<Rightarrow> undo \<Rightarrow> bool" where
  "key_less a b = before (un_id b) (un_num b) a"

definition ents_ok :: "int \<Rightarrow> int \<Rightarrow> undo list \<Rightarrow> bool" where
  "ents_ok amax cmax es = (sorted_wrt key_less es \<and> int (length es) \<le> cmax \<and>
     (\<forall>e \<in> set es. un_aoe e \<noteq> 0 \<and> - amax \<le> un_aoe e \<and> un_aoe e \<le> amax))"

lemma aoe_in_none: "\<forall>e \<in> set es. \<not> same_key d n e \<Longrightarrow> aoe_in es d n = 0"
  by (induction es) auto

lemma aoe_in_insert:
  "same_key d n x \<Longrightarrow> \<forall>y \<in> set pre. \<not> same_key d n y \<Longrightarrow>
   aoe_in (pre @ x # post) d' n' = (if d' = d \<and> n' = n then un_aoe x else aoe_in (pre @ post) d' n')"
  by (induction pre) (auto simp: same_key_def)

text \<open>The split the search loop makes.\<close>

lemma aoe_split:
  fixes d n :: int
  assumes "sorted_wrt key_less es"
  defines "pre \<equiv> takeWhile (before d n) es" and "post \<equiv> dropWhile (before d n) es"
  shows "es = pre @ post" "\<forall>e \<in> set pre. before d n e"
    "post = e # es' \<Longrightarrow> \<not> before d n e" "post = e # es' \<Longrightarrow> x \<in> set es' \<Longrightarrow> key_less e x"
    "x \<in> set pre \<Longrightarrow> y \<in> set post \<Longrightarrow> key_less x y"
proof -
  show es: "es = pre @ post" by (simp add: pre_def post_def)
  show "\<forall>e \<in> set pre. before d n e" by (auto simp: pre_def dest: set_takeWhileD)
  show "post = e # es' \<Longrightarrow> \<not> before d n e"
    unfolding post_def using hd_dropWhile [of "before d n" es] by (metis list.discI list.sel(1))
  have s: "sorted_wrt key_less (pre @ post)" using assms(1) es by simp
  show "post = e # es' \<Longrightarrow> x \<in> set es' \<Longrightarrow> key_less e x" using s by (auto simp: sorted_wrt_append)
  show "x \<in> set pre \<Longrightarrow> y \<in> set post \<Longrightarrow> key_less x y" using s by (auto simp: sorted_wrt_append)
qed

definition aoe_found :: "int \<Rightarrow> int \<Rightarrow> undo list \<Rightarrow> bool" where
  "aoe_found d n post = (case post of [] \<Rightarrow> False | e # _ \<Rightarrow> un_id e = d \<and> un_num e = n)"

lemma aoe_not_found:
  assumes "sorted_wrt key_less es" "\<not> aoe_found d n (dropWhile (before d n) es)"
  shows "\<forall>e \<in> set es. \<not> same_key d n e" "\<forall>e \<in> set (dropWhile (before d n) es). before (un_id e) (un_num e) \<lparr>un_aoe = a, un_num = n, un_id = d\<rparr>"
proof -
  let ?pre = "takeWhile (before d n) es" and ?post = "dropWhile (before d n) es"
  have post: "\<forall>e \<in> set ?post. d < un_id e \<or> d = un_id e \<and> n < un_num e"
  proof (cases ?post)
    case (Cons e es')
    with aoe_split(3) [OF assms(1) Cons] assms(2) have e: "d < un_id e \<or> d = un_id e \<and> n < un_num e"
      by (auto simp: aoe_found_def before_def)
    have "d < un_id x \<or> d = un_id x \<and> n < un_num x" if "x \<in> set es'" for x
      using aoe_split(4) [OF assms(1) Cons that] e by (auto simp: key_less_def before_def)
    with e Cons show ?thesis by auto
  qed (simp del: dropWhile_eq_Nil_conv)
  then show "\<forall>e \<in> set ?post. before (un_id e) (un_num e) \<lparr>un_aoe = a, un_num = n, un_id = d\<rparr>"
    by (auto simp: before_def)
  have "\<forall>e \<in> set ?pre. \<not> same_key d n e"
    using aoe_split(2) [OF assms(1), of d n] by (auto simp: before_def same_key_def)
  moreover have "\<forall>e \<in> set ?post. \<not> same_key d n e" using post by (auto simp: same_key_def)
  moreover have "set es = set ?pre \<union> set ?post" using aoe_split(1) [OF assms(1), of d n] by (metis set_append)
  ultimately show "\<forall>e \<in> set es. \<not> same_key d n e" by blast
qed

lemma aoe_is_found:
  assumes "sorted_wrt key_less es" "aoe_found d n (dropWhile (before d n) es)"
  obtains e post where "dropWhile (before d n) es = e # post" "same_key d n e"
    "\<forall>x \<in> set (takeWhile (before d n) es). \<not> same_key d n x" "\<forall>x \<in> set post. \<not> same_key d n x"
    "es = takeWhile (before d n) es @ e # post"
proof -
  obtain e post where p: "dropWhile (before d n) es = e # post" "same_key d n e"
    using assms(2) by (auto simp: aoe_found_def same_key_def split: list.splits)
  have "\<forall>x \<in> set (takeWhile (before d n) es). \<not> same_key d n x"
    using aoe_split(2) [OF assms(1), of d n] by (auto simp: before_def same_key_def)
  moreover have "\<not> same_key d n x" if "x \<in> set post" for x
    using aoe_split(4) [OF assms(1) p(1) that] p(2)
    unfolding key_less_def before_def same_key_def by linarith
  moreover have "es = takeWhile (before d n) es @ e # post"
    using aoe_split(1) [OF assms(1), of d n] p(1) by simp
  ultimately show ?thesis using that [OF p] by blast
qed

section \<open>All structures\<close>

definition undo_ok :: "semst \<Rightarrow> bool" where
  "undo_ok s = (0 \<le> semaem (si s) \<and> semaem (si s) \<le> 16384 \<and> 0 \<le> semume (si s) \<and>
     distinct (semfup s) \<and> distinct (semunp s) \<and>
     (\<forall>p i. undo_tab s p = Some i \<longrightarrow> i \<notin> set (semfup s)) \<and>
     (\<forall>p q i. undo_tab s p = Some i \<and> undo_tab s q = Some i \<longrightarrow> p = q) \<and>
     (\<forall>i. i \<in> set (semunp s) \<longleftrightarrow> semu s i \<noteq> []) \<and>
     (\<forall>i. semu s i \<noteq> [] \<longrightarrow> (\<exists>p. undo_tab s p = Some i)) \<and>
     (\<forall>i. ents_ok (semaem (si s)) (semume (si s)) (semu s i)))"

text \<open>The adjustment process \<open>p\<close> has for semaphore \<open>n\<close> of set \<open>d\<close>, and how many entries it uses.\<close>

definition ents_of :: "semst \<Rightarrow> nat \<Rightarrow> undo list" where
  "ents_of s p = (case undo_tab s p of None \<Rightarrow> [] | Some i \<Rightarrow> semu s i)"

definition aoe_of :: "semst \<Rightarrow> nat \<Rightarrow> int \<Rightarrow> int \<Rightarrow> int" where
  "aoe_of s p d n = aoe_in (ents_of s p) d n"

definition cnt_of :: "semst \<Rightarrow> nat \<Rightarrow> int" where
  "cnt_of s p = int (length (ents_of s p))"

text \<open>Everything \<open>semaoe\<close> and \<open>semunrm\<close> leave alone.\<close>

definition undo_frame :: "semst \<Rightarrow> semst \<Rightarrow> bool" where
  "undo_frame s s' = (si s' = si s \<and> sema s' = sema s \<and> sems s' = sems s \<and> semmap s' = semmap s \<and>
     semnow s' = semnow s \<and> swakes s' = swakes s)"

lemma undo_frame_refl [simp]: "undo_frame s s"
  by (simp add: undo_frame_def)

lemma undo_frame_trans: "undo_frame s t \<Longrightarrow> undo_frame t v \<Longrightarrow> undo_frame s v"
  by (simp add: undo_frame_def)

lemma undo_okD:
  assumes "undo_ok s"
  shows "0 \<le> semaem (si s)" "semaem (si s) \<le> 16384" "distinct (semfup s)" "distinct (semunp s)"
    "undo_tab s p = Some i \<Longrightarrow> i \<notin> set (semfup s)"
    "undo_tab s p = Some i \<Longrightarrow> undo_tab s q = Some i \<Longrightarrow> p = q"
    "i \<in> set (semunp s) \<longleftrightarrow> semu s i \<noteq> []" "semu s i \<noteq> [] \<Longrightarrow> \<exists>p. undo_tab s p = Some i"
    "ents_ok (semaem (si s)) (semume (si s)) (semu s i)"
  using assms unfolding undo_ok_def by blast+

text \<open>Replacing the entries of one owned structure, with the chain of active ones kept in step.\<close>

lemma undo_ok_set_ents:
  assumes ok: "undo_ok s" and own: "undo_tab s p = Some i" and es: "ents_ok (semaem (si s)) (semume (si s)) es"
    and act: "set act = (if es = [] then set (semunp s) - {i} else insert i (set (semunp s)))" "distinct act"
  shows "undo_ok (s\<lparr>semu := (semu s)(i := es), semunp := act\<rparr>)"
proof -
  let ?s = "s\<lparr>semu := (semu s)(i := es), semunp := act\<rparr>"
  note d = undo_okD [OF ok]
  have "\<forall>j. j \<in> set act \<longleftrightarrow> semu ?s j \<noteq> []"
    using d(7) act(1) by simp
  moreover have "\<forall>j. semu ?s j \<noteq> [] \<longrightarrow> (\<exists>p. undo_tab ?s p = Some j)"
    using d(8) own by auto
  moreover have "\<forall>j. ents_ok (semaem (si s)) (semume (si s)) (semu ?s j)"
    using d(9) es by simp
  moreover have "\<forall>p j. undo_tab s p = Some j \<longrightarrow> j \<notin> set (semfup s)" "0 \<le> semume (si s)"
    "\<forall>p q j. undo_tab s p = Some j \<and> undo_tab s q = Some j \<longrightarrow> p = q"
    using ok unfolding undo_ok_def by blast+
  ultimately show ?thesis using d(1-4) act(2) by (simp add: undo_ok_def)
qed

lemma aoe_set_ents:
  assumes ok: "undo_ok s" and own: "undo_tab s p = Some i"
  shows "ents_of (s\<lparr>semu := (semu s)(i := es), semunp := act\<rparr>) q = (if q = p then es else ents_of s q)"
proof (cases "q = p")
  case True
  with own show ?thesis by (simp add: ents_of_def)
next
  case False
  then have "undo_tab s q \<noteq> Some i" using undo_okD(6) [OF ok own, of q] by blast
  with False show ?thesis by (auto simp: ents_of_def split: option.split)
qed

section \<open>The effect of semaoe\<close>

text \<open>The three lists \<open>semaoe\<close> can leave, and why each is well formed.\<close>

lemma ents_insert:
  assumes ok: "ents_ok A C es" and nf: "\<not> aoe_found d n (dropWhile (before d n) es)"
    and a: "a \<noteq> 0" "- A \<le> a" "a \<le> A" and c: "int (length es) < C"
  defines "es' \<equiv> takeWhile (before d n) es @ \<lparr>un_aoe = a, un_num = n, un_id = d\<rparr> # dropWhile (before d n) es"
  shows "ents_ok A C es' \<and> aoe_in es d n = 0 \<and> length es' = Suc (length es) \<and>
    (\<forall>d' n'. aoe_in es' d' n' = (if d' = d \<and> n' = n then a else aoe_in es d' n'))"
proof -
  have s: "sorted_wrt key_less es" using ok by (simp add: ents_ok_def)
  let ?pre = "takeWhile (before d n) es" and ?post = "dropWhile (before d n) es"
    and ?x = "\<lparr>un_aoe = a, un_num = n, un_id = d\<rparr>"
  have es: "es = ?pre @ ?post" by simp
  note nk = aoe_not_found(1) [OF s nf] aoe_not_found(2) [OF s nf, of a]
  have pre: "\<forall>e \<in> set ?pre. key_less e ?x" using aoe_split(2) [OF s, of d n] by (simp add: key_less_def)
  have post: "\<forall>e \<in> set ?post. key_less ?x e" using nk(2) by (simp add: key_less_def)
  have "sorted_wrt key_less (?pre @ ?post)" using s es by simp
  then have "sorted_wrt key_less ?pre" "sorted_wrt key_less ?post" "\<forall>x \<in> set ?pre. \<forall>y \<in> set ?post. key_less x y"
    unfolding sorted_wrt_append by blast+
  with pre post have "sorted_wrt key_less es'" by (simp add: es'_def sorted_wrt_append)
  moreover have len: "length es' = Suc (length es)"
    unfolding es'_def by (metis add_Suc_right es length_append length_Cons)
  moreover have "set es' = insert ?x (set es)"
    unfolding es'_def by (metis Un_insert_right es list.simps(15) set_append)
  ultimately have "ents_ok A C es'" using ok a c by (auto simp: ents_ok_def)
  moreover have "aoe_in es' d' n' = (if d' = d \<and> n' = n then a else aoe_in es d' n')" for d' n'
  proof -
    have "\<forall>y \<in> set ?pre. \<not> same_key d n y" using nk(1) by (meson set_takeWhileD)
    from aoe_in_insert [OF _ this, of ?x ?post d' n'] show ?thesis
      by (simp add: es'_def same_key_def)
  qed
  ultimately show ?thesis using len aoe_in_none [OF nk(1)] by simp
qed

lemma ents_update:
  assumes ok: "ents_ok A C (pre @ e # post)" and k: "same_key d n e" "\<forall>x \<in> set pre. \<not> same_key d n x"
    and a: "a \<noteq> 0" "- A \<le> a" "a \<le> A"
  defines "es' \<equiv> pre @ e\<lparr>un_aoe := a\<rparr> # post"
  shows "ents_ok A C es' \<and> aoe_in (pre @ e # post) d n = un_aoe e \<and>
    (\<forall>d' n'. aoe_in es' d' n' = (if d' = d \<and> n' = n then a else aoe_in (pre @ e # post) d' n'))"
proof -
  have "sorted_wrt key_less es'"
    using ok by (simp add: es'_def ents_ok_def sorted_wrt_append key_less_def before_def)
  moreover have "\<forall>x \<in> set es'. un_aoe x \<noteq> 0 \<and> - A \<le> un_aoe x \<and> un_aoe x \<le> A"
    using ok a by (auto simp: es'_def ents_ok_def)
  ultimately have "ents_ok A C es'" using ok by (simp add: ents_ok_def es'_def)
  then show ?thesis
    using aoe_in_insert [OF _ k(2), of "e\<lparr>un_aoe := a\<rparr>" post] aoe_in_insert [OF k, of post] k(1)
    by (simp add: es'_def same_key_def)
qed

lemma ents_remove:
  assumes ok: "ents_ok A C (pre @ e # post)" and k: "same_key d n e" "\<forall>x \<in> set pre. \<not> same_key d n x"
    "\<forall>x \<in> set post. \<not> same_key d n x"
  shows "ents_ok A C (pre @ post) \<and> aoe_in (pre @ e # post) d n = un_aoe e \<and>
    (\<forall>d' n'. aoe_in (pre @ post) d' n' = (if d' = d \<and> n' = n then 0 else aoe_in (pre @ e # post) d' n'))"
proof -
  have "ents_ok A C (pre @ post)" using ok by (auto simp: ents_ok_def sorted_wrt_append)
  moreover have "aoe_in (pre @ post) d n = 0" by (rule aoe_in_none) (use k in auto)
  ultimately show ?thesis using aoe_in_insert [OF k(1,2), of post] by simp
qed

text \<open>When the update of one structure fits: the entry's range, or a place for a new entry.\<close>

definition aoe_fits :: "semst \<Rightarrow> nat \<Rightarrow> int \<Rightarrow> int \<Rightarrow> int \<Rightarrow> bool" where
  "aoe_fits s p v d n =
     (if aoe_of s p d n = 0 then cnt_of s p < semume (si s)
      else - semaem (si s) \<le> aoe_of s p d n - v \<and> aoe_of s p d n - v \<le> semaem (si s))"

text \<open>What a successful adjustment does, and what none does.\<close>

definition adjusted :: "nat \<Rightarrow> int \<Rightarrow> int \<Rightarrow> int \<Rightarrow> semst \<Rightarrow> semst \<Rightarrow> bool" where
  "adjusted p v d n s s' = (undo_ok s' \<and> undo_frame s s' \<and>
     (\<forall>q d' n'. aoe_of s' q d' n' = aoe_of s q d' n' - (if q = p \<and> d' = d \<and> n' = n then v else 0)) \<and>
     (\<forall>q. cnt_of s' q = cnt_of s q +
        (if q = p then (if aoe_of s p d n = 0 then 1 else 0) - (if aoe_of s p d n = v then 1 else 0) else 0)))"

lemma adjusted_set_ents:
  assumes ok: "undo_ok s" and own: "undo_tab s p = Some i" and v: "v \<noteq> 0"
    and es: "ents_ok (semaem (si s)) (semume (si s)) es"
      "\<forall>d' n'. aoe_in es d' n' = aoe_in (semu s i) d' n' - (if d' = d \<and> n' = n then v else 0)"
      "int (length es) = int (length (semu s i)) +
         ((if aoe_in (semu s i) d n = 0 then 1 else 0) - (if aoe_in (semu s i) d n = v then 1 else 0))"
    and act: "set act = (if es = [] then set (semunp s) - {i} else insert i (set (semunp s)))" "distinct act"
  shows "adjusted p v d n s (s\<lparr>semu := (semu s)(i := es), semunp := act\<rparr>)"
proof -
  let ?s = "s\<lparr>semu := (semu s)(i := es), semunp := act\<rparr>"
  have "undo_ok ?s" by (rule undo_ok_set_ents [OF ok own es(1) act])
  moreover have "ents_of ?s q = (if q = p then es else ents_of s q)" for q
    by (rule aoe_set_ents [OF ok own])
  moreover have "ents_of s p = semu s i" using own by (simp add: ents_of_def)
  ultimately show ?thesis using es(2,3)
    by (simp add: adjusted_def undo_frame_def aoe_of_def cnt_of_def)
qed

lemma semaoe_at_ok:
  assumes ok: "undo_ok s" and own: "undo_tab s p = Some i" and v: "v \<noteq> 0" "- semaem (si s) \<le> v" "v \<le> semaem (si s)"
  shows "(if aoe_fits s p v d n
          then fst (semaoe_at i v d n s) = None \<and> adjusted p v d n s (snd (semaoe_at i v d n s)) \<and>
            undo_tab (snd (semaoe_at i v d n s)) = undo_tab s
          else fst (semaoe_at i v d n s) \<noteq> None \<and> snd (semaoe_at i v d n s) = s)"
proof -
  let ?es = "semu s i" and ?A = "semaem (si s)" and ?C = "semume (si s)"
  let ?pre = "takeWhile (before d n) ?es" and ?post = "dropWhile (before d n) ?es"
  note D = undo_okD [OF ok]
  have eo: "ents_ok ?A ?C ?es" by (rule D(9))
  then have srt: "sorted_wrt key_less ?es" by (simp add: ents_ok_def)
  have ents: "aoe_of s p d n = aoe_in ?es d n" "cnt_of s p = int (length ?es)"
    using own by (simp_all add: aoe_of_def cnt_of_def ents_of_def)
  have mv: "s16 (- v) = - v" using v D(1,2) by (intro s16_id) simp_all
  show ?thesis
  proof (cases "aoe_found d n ?post")
    case False
    have z: "aoe_in ?es d n = 0" by (rule aoe_in_none [OF aoe_not_found(1) [OF srt False]])
    show ?thesis
    proof (cases "int (length ?es) < ?C")
      case True
      let ?es' = "?pre @ \<lparr>un_aoe = - v, un_num = n, un_id = d\<rparr> # ?post"
      let ?act = "if ?es = [] then i # semunp s else semunp s"
      have act: "set ?act = insert i (set (semunp s))" "distinct ?act" using D(4) D(7) [of i] by auto
      have "fst (semaoe_at i v d n s) = None" "snd (semaoe_at i v d n s) = s\<lparr>semu := (semu s)(i := ?es'), semunp := ?act\<rparr>"
        using True False mv by (simp_all add: semaoe_at_def aoe_found_def set_ents_def)
      moreover have "adjusted p v d n s (s\<lparr>semu := (semu s)(i := ?es'), semunp := ?act\<rparr>)"
        using ents_insert [OF eo False _ _ _ True, of "- v"] v z act
        by (intro adjusted_set_ents [OF ok own v(1)]) simp_all
      ultimately show ?thesis using True z ents by (simp add: aoe_fits_def)
    next
      case full: False
      then show ?thesis using False z ents by (simp add: aoe_fits_def semaoe_at_def aoe_found_def)
    qed
  next
    case True
    from aoe_is_found [OF srt True] obtain e post where p: "?post = e # post" "same_key d n e"
      "\<forall>x \<in> set ?pre. \<not> same_key d n x" "\<forall>x \<in> set post. \<not> same_key d n x" "?es = ?pre @ e # post" by blast
    have eo': "ents_ok ?A ?C (?pre @ e # post)" using eo p(5) by metis
    have old: "aoe_in ?es d n = un_aoe e" using aoe_in_insert [OF p(2,3), of post d n] p(5) by simp
    have e: "un_aoe e \<noteq> 0" "- ?A \<le> un_aoe e" "un_aoe e \<le> ?A"
      using eo arg_cong [OF p(5), of set] by (auto simp: ents_ok_def)
    let ?a = "un_aoe e - v"
    have wrap: "s16 ?a = (if ?a = 32768 then - 32768 else ?a)"
      using e v D(1,2) by (auto simp: s16_def mod_pos_pos_trivial)
    have ne: "?es \<noteq> []" using p(5) by (metis append_is_Nil_conv list.discI)
    have cond: "(s16 ?a > ?A \<or> s16 ?a < - ?A) = (\<not> (- ?A \<le> ?a \<and> ?a \<le> ?A))"
      using wrap D(1,2) by auto
    have fits: "aoe_fits s p v d n = (- ?A \<le> ?a \<and> ?a \<le> ?A)" using ents old e(1) by (simp add: aoe_fits_def)
    have fnd: "(case ?post of [] \<Rightarrow> False | e # _ \<Rightarrow> un_id e = d \<and> un_num e = n)"
      using True by (simp add: aoe_found_def)
    show ?thesis
    proof (cases "- ?A \<le> ?a \<and> ?a \<le> ?A")
      case False
      have "s16 (s16 ?a + v) = un_aoe e"
      proof (cases "?a = 32768")
        case True
        then have "un_aoe e = 16384" "v = - 16384" using e v D(1,2) by linarith+
        with wrap show ?thesis by (simp add: s16_def)
      next
        case False
        with wrap e D(1,2) show ?thesis by (simp add: s16_id)
      qed
      moreover have "(semu s)(i := ?pre @ e # post) = semu s" using p(5) by simp
      ultimately have "semaoe_at i v d n s = (Some ERANGE, s)"
        unfolding semaoe_at_def Let_def using fnd cond False p(1) by (simp add: set_ents_def)
      then show ?thesis using fits False by simp
    next
      case in_range: True
      then have a: "s16 ?a = ?a" using wrap D(1,2) by auto
      show ?thesis
      proof (cases "?a = 0")
        case True
        let ?act = "if ?pre @ post = [] then remove1 i (semunp s) else semunp s"
        have act: "set ?act = (if ?pre @ post = [] then set (semunp s) - {i} else insert i (set (semunp s)))" "distinct ?act"
          using D(4) D(7) [of i] ne by auto
        have r: "fst (semaoe_at i v d n s) = None"
          "snd (semaoe_at i v d n s) = s\<lparr>semu := (semu s)(i := ?pre @ post), semunp := ?act\<rparr>"
          unfolding semaoe_at_def Let_def using fnd cond in_range p(1) True a by (simp_all add: set_ents_def)
        have l: "length ?es = Suc (length (?pre @ post))" using p(5) by (metis add_Suc_right length_Cons length_append)
        have "adjusted p v d n s (s\<lparr>semu := (semu s)(i := ?pre @ post), semunp := ?act\<rparr>)"
          using ents_remove [OF eo' p(2-4)] arg_cong [OF p(5), of aoe_in] True act l old e(1)
          by (intro adjusted_set_ents [OF ok own v(1)]) (simp_all add: fun_eq_iff del: takeWhile_eq_Nil_iff)
        then show ?thesis using r fits in_range by simp
      next
        case False
        let ?es' = "?pre @ e\<lparr>un_aoe := ?a\<rparr> # post"
        have act: "set (semunp s) = insert i (set (semunp s))" "distinct (semunp s)"
          using D(4) D(7) [of i] ne by auto
        have r: "fst (semaoe_at i v d n s) = None"
          "snd (semaoe_at i v d n s) = s\<lparr>semu := (semu s)(i := ?es')\<rparr>"
          unfolding semaoe_at_def Let_def using fnd cond in_range p(1) False a by (simp_all add: set_ents_def)
        have l: "length ?es' = length ?es" using p(5) by (metis length_Cons length_append)
        have "adjusted p v d n s (s\<lparr>semu := (semu s)(i := ?es'), semunp := semunp s\<rparr>)"
          using ents_update [OF eo' p(2,3) False] arg_cong [OF p(5), of aoe_in] in_range False act l old e(1)
          by (intro adjusted_set_ents [OF ok own v(1)]) (simp_all add: fun_eq_iff)
        then show ?thesis using r fits in_range by simp
      qed
    qed
  qed
qed

text \<open>What leaves every adjustment as it is.\<close>

definition quiet :: "semst \<Rightarrow> semst \<Rightarrow> bool" where
  "quiet s s' = (undo_ok s' \<and> undo_frame s s' \<and> aoe_of s' = aoe_of s \<and> cnt_of s' = cnt_of s)"

lemma quiet_refl: "undo_ok s \<Longrightarrow> quiet s s"
  by (simp add: quiet_def)

lemma undo_slot_ok:
  assumes ok: "undo_ok s" and r: "undo_slot u s = Some (i, s1)"
  shows "quiet s s1 \<and> undo_tab s1 (u_proc u) = Some i \<and> (\<forall>p. undo_tab s p \<noteq> None \<longrightarrow> undo_tab s1 p = undo_tab s p)"
proof (cases "undo_tab s (u_proc u)")
  case (Some j)
  with r ok show ?thesis by (simp add: undo_slot_def quiet_def)
next
  case None
  with r obtain fr where f: "semfup s = i # fr"
    "s1 = s\<lparr>semfup := fr, undo_tab := (undo_tab s)(u_proc u := Some i)\<rparr>"
    by (auto simp: undo_slot_def split: list.splits)
  note D = undo_okD [OF ok]
  have no: "undo_tab s p \<noteq> Some i" for p using D(5) [of p i] f(1) by auto
  then have e: "semu s i = []" using D(8) [of i] by blast
  let ?tab = "(undo_tab s)(u_proc u := Some i)"
  have di: "i \<notin> set fr" "distinct fr" using D(3) f(1) by simp_all
  have "?tab p = Some j \<Longrightarrow> j \<notin> set fr" for p j using D(5) [of p j] f(1) di by (auto split: if_splits)
  moreover have "?tab p = Some j \<Longrightarrow> ?tab q = Some j \<Longrightarrow> p = q" for p q j
    using no D(6) [of p j q] by (auto split: if_splits)
  moreover have "\<exists>p. ?tab p = Some j" if "semu s j \<noteq> []" for j
  proof -
    obtain p where "undo_tab s p = Some j" using D(8) \<open>semu s j \<noteq> []\<close> by blast
    with None show ?thesis by (intro exI [of _ p]) auto
  qed
  ultimately have "undo_ok s1"
    using ok di(2) unfolding undo_ok_def f(2) by (simp del: fun_upd_apply)
  moreover have "ents_of s1 p = ents_of s p" for p
    using None e by (simp add: ents_of_def f(2) split: option.split)
  ultimately show ?thesis
    using None f by (auto simp: quiet_def undo_frame_def aoe_of_def cnt_of_def fun_eq_iff)
qed

definition aoe_possible :: "semst \<Rightarrow> user \<Rightarrow> int \<Rightarrow> int \<Rightarrow> int \<Rightarrow> bool" where
  "aoe_possible s u v d n = (v = 0 \<or> - semaem (si s) \<le> v \<and> v \<le> semaem (si s) \<and>
     (undo_tab s (u_proc u) \<noteq> None \<or> semfup s \<noteq> []) \<and> aoe_fits s (u_proc u) v d n)"

lemma semaoe_spec:
  assumes ok: "undo_ok s"
  shows "(fst (semaoe u v d n s) = None) = aoe_possible s u v d n"
    and "fst (semaoe u v d n s) = None \<Longrightarrow> adjusted (u_proc u) v d n s (snd (semaoe u v d n s))"
    and "fst (semaoe u v d n s) \<noteq> None \<Longrightarrow> quiet s (snd (semaoe u v d n s))"
    and "undo_tab s p \<noteq> None \<Longrightarrow> undo_tab (snd (semaoe u v d n s)) p \<noteq> None"
    and "fst (semaoe u v d n s) = None \<Longrightarrow> v \<noteq> 0 \<Longrightarrow> undo_tab (snd (semaoe u v d n s)) (u_proc u) \<noteq> None"
proof -
  let ?p = "u_proc u" and ?r = "semaoe u v d n s"
  have "(fst ?r = None) = aoe_possible s u v d n \<and> (fst ?r = None \<longrightarrow> adjusted ?p v d n s (snd ?r)) \<and>
    (fst ?r \<noteq> None \<longrightarrow> quiet s (snd ?r)) \<and> (\<forall>p. undo_tab s p \<noteq> None \<longrightarrow> undo_tab (snd ?r) p \<noteq> None) \<and>
    (fst ?r = None \<and> v \<noteq> 0 \<longrightarrow> undo_tab (snd ?r) ?p \<noteq> None)"
  proof (cases "v = 0 \<or> v > semaem (si s) \<or> v < - semaem (si s)")
    case True
    then show ?thesis using ok by (auto simp: semaoe_def aoe_possible_def adjusted_def quiet_def)
  next
    case False
    show ?thesis
    proof (cases "undo_slot u s")
      case None
      then have "undo_tab s ?p = None" "semfup s = []" by (auto simp: undo_slot_def split: option.splits list.splits)
      with None False ok show ?thesis by (auto simp: semaoe_def aoe_possible_def quiet_def)
    next
      case (Some x)
      then obtain i s1 where x: "undo_slot u s = Some (i, s1)" by (cases x) auto
      from undo_slot_ok [OF ok x] have q: "quiet s s1" "undo_tab s1 ?p = Some i"
        "\<And>p. undo_tab s p \<noteq> None \<Longrightarrow> undo_tab s1 p = undo_tab s p" by auto
      then have s1: "undo_ok s1" "si s1 = si s" "aoe_of s1 = aoe_of s" "cnt_of s1 = cnt_of s" "undo_frame s s1"
        by (simp_all add: quiet_def undo_frame_def)
      have r: "?r = semaoe_at i v d n s1" using x False by (simp add: semaoe_def)
      have have_slot: "undo_tab s ?p \<noteq> None \<or> semfup s \<noteq> []"
        using x by (auto simp: undo_slot_def split: option.splits list.splits)
      have fit: "aoe_fits s1 ?p v d n = aoe_fits s ?p v d n" by (simp add: aoe_fits_def s1)
      have poss: "aoe_possible s u v d n = aoe_fits s ?p v d n" using False have_slot by (auto simp: aoe_possible_def)
      have at: "(if aoe_fits s1 ?p v d n
          then fst ?r = None \<and> adjusted ?p v d n s1 (snd ?r) \<and> undo_tab (snd ?r) = undo_tab s1
          else fst ?r \<noteq> None \<and> snd ?r = s1)"
        unfolding r by (rule semaoe_at_ok [OF s1(1) q(2)]) (use False s1(2) in simp_all)
      have tr: "adjusted ?p v d n s1 t \<Longrightarrow> adjusted ?p v d n s t" for t
        using s1 undo_frame_trans [OF s1(5)] by (simp add: adjusted_def)
      show ?thesis
      proof (cases "aoe_fits s ?p v d n")
        case True
        with at fit tr poss q show ?thesis by auto
      next
        case False
        with at fit poss q show ?thesis by auto
      qed
    qed
  qed
  then show "(fst ?r = None) = aoe_possible s u v d n" "fst ?r = None \<Longrightarrow> adjusted ?p v d n s (snd ?r)"
    "fst ?r \<noteq> None \<Longrightarrow> quiet s (snd ?r)" "undo_tab s p \<noteq> None \<Longrightarrow> undo_tab (snd ?r) p \<noteq> None"
    "fst ?r = None \<Longrightarrow> v \<noteq> 0 \<Longrightarrow> undo_tab (snd ?r) ?p \<noteq> None" by blast+
qed

lemma aoe_range:
  assumes ok: "undo_ok s"
  shows "- semaem (si s) \<le> aoe_of s p d n" "aoe_of s p d n \<le> semaem (si s)" "cnt_of s p \<le> semume (si s)"
proof -
  have z: "0 \<le> semaem (si s)" "0 \<le> semume (si s)" using ok by (simp_all add: undo_ok_def)
  have e: "ents_of s p = [] \<or> (\<exists>i. ents_of s p = semu s i)"
    by (auto simp: ents_of_def split: option.split)
  then have o: "ents_ok (semaem (si s)) (semume (si s)) (ents_of s p)"
    using undo_okD(9) [OF ok] z by (auto simp: ents_ok_def)
  have "- A \<le> aoe_in es d n \<and> aoe_in es d n \<le> A" if "\<forall>e \<in> set es. - A \<le> un_aoe e \<and> un_aoe e \<le> A" "0 \<le> A" for es A
    using that by (induction es) auto
  with o z show "- semaem (si s) \<le> aoe_of s p d n" "aoe_of s p d n \<le> semaem (si s)" "cnt_of s p \<le> semume (si s)"
    by (auto simp: aoe_of_def cnt_of_def ents_ok_def)
qed

text \<open>The change of adjustments alone, and the opposite adjustment: it always succeeds.\<close>

definition adj_num :: "nat \<Rightarrow> int \<Rightarrow> int \<Rightarrow> int \<Rightarrow> semst \<Rightarrow> semst \<Rightarrow> bool" where
  "adj_num p v d n s s' =
     ((\<forall>q d' n'. aoe_of s' q d' n' = aoe_of s q d' n' - (if q = p \<and> d' = d \<and> n' = n then v else 0)) \<and>
      (\<forall>q. cnt_of s' q = cnt_of s q +
        (if q = p then (if aoe_of s p d n = 0 then 1 else 0) - (if aoe_of s p d n = v then 1 else 0) else 0)))"

lemma adjusted_num: "adjusted p v d n s s' \<Longrightarrow> adj_num p v d n s s'"
  by (simp add: adjusted_def adj_num_def)

lemma semaoe_reverse:
  assumes ok: "undo_ok s" and adj: "adj_num (u_proc u) v d n s s'" and v: "- semaem (si s) \<le> v" "v \<le> semaem (si s)"
    and t: "undo_ok t" "si t = si s" "aoe_of t = aoe_of s'" "cnt_of t = cnt_of s'" "v \<noteq> 0 \<Longrightarrow> undo_tab t (u_proc u) \<noteq> None"
  shows "fst (semaoe u (- v) d n t) = None \<and> undo_ok (snd (semaoe u (- v) d n t)) \<and>
    undo_frame t (snd (semaoe u (- v) d n t)) \<and>
    aoe_of (snd (semaoe u (- v) d n t)) = aoe_of s \<and> cnt_of (snd (semaoe u (- v) d n t)) = cnt_of s"
proof -
  let ?p = "u_proc u"
  have a: "aoe_of t q d' n' = aoe_of s q d' n' - (if q = ?p \<and> d' = d \<and> n' = n then v else 0)" for q d' n'
    using adj t(3) by (simp add: adj_num_def)
  have c: "cnt_of t q = cnt_of s q +
        (if q = ?p then (if aoe_of s ?p d n = 0 then 1 else 0) - (if aoe_of s ?p d n = v then 1 else 0) else 0)" for q
    using adj t(4) by (simp add: adj_num_def)
  note R = aoe_range(1,2) [OF ok, of ?p d n] aoe_range(3) [OF ok, of ?p]
  have "aoe_possible t u (- v) d n"
    using R v t(2,5) a [of ?p d n] c [of ?p] by (auto simp: aoe_possible_def aoe_fits_def)
  then have s: "fst (semaoe u (- v) d n t) = None" using semaoe_spec(1) [OF t(1)] by blast
  from semaoe_spec(2) [OF t(1) this] have adj': "adjusted ?p (- v) d n t (snd (semaoe u (- v) d n t))" .
  moreover have "aoe_of (snd (semaoe u (- v) d n t)) q d' n' = aoe_of s q d' n'" for q d' n'
    using adj' a by (simp add: adjusted_def)
  moreover have "cnt_of (snd (semaoe u (- v) d n t)) q = cnt_of s q" for q
    using adj' a [of ?p d n] c [of q] by (auto simp: adjusted_def)
  ultimately show ?thesis using s by (simp add: adjusted_def fun_eq_iff)
qed

section \<open>The effect of semunrm\<close>

definition unrm_hit :: "int \<Rightarrow> int \<Rightarrow> int \<Rightarrow> undo \<Rightarrow> bool" where
  "unrm_hit d low high e = (un_id e = d \<and> low \<le> un_num e \<and> un_num e \<le> high)"

lemma unrm_filter: "sorted_wrt key_less es \<Longrightarrow> unrm_scan d low high es = filter (\<lambda>e. \<not> unrm_hit d low high e) es"
proof (induction es)
  case Nil
  then show ?case by simp
next
  case (Cons e es)
  have ih: "unrm_scan d low high es = filter (\<lambda>e. \<not> unrm_hit d low high e) es" using Cons by simp
  have later: "un_id e < un_id x \<or> un_id e = un_id x \<and> un_num e < un_num x" if "x \<in> set es" for x
    using Cons.prems that by (simp add: key_less_def before_def)
  have keep: "filter (\<lambda>e. \<not> unrm_hit d low high e) es = es"
    if "d < un_id e \<or> \<not> (d > un_id e \<or> low > un_num e) \<and> high < un_num e"
  proof -
    have "\<not> unrm_hit d low high x" if "x \<in> set es" for x
      using later [OF that] \<open>d < un_id e \<or> \<not> (d > un_id e \<or> low > un_num e) \<and> high < un_num e\<close>
      unfolding unrm_hit_def by linarith
    then show ?thesis by (simp add: filter_id_conv)
  qed
  show ?case
    using ih keep by (simp add: unrm_hit_def not_less)
qed

lemma unrm_walk_eq:
  "distinct act \<Longrightarrow> unrm_walk d low high act m =
     ((\<lambda>i. if i \<in> set act then unrm_scan d low high (m i) else m i),
      filter (\<lambda>i. unrm_scan d low high (m i) \<noteq> []) act)"
proof (induction act arbitrary: m)
  case Nil
  then show ?case by simp
next
  case (Cons i act)
  then have i: "i \<notin> set act" and ih: "distinct act" by simp_all
  let ?m = "m(i := unrm_scan d low high (m i))"
  have f: "filter (\<lambda>j. unrm_scan d low high (?m j) \<noteq> []) act = filter (\<lambda>j. unrm_scan d low high (m j) \<noteq> []) act"
    using i by (intro filter_cong) auto
  have g: "(\<lambda>j. if j \<in> set act then unrm_scan d low high (?m j) else ?m j) =
      (\<lambda>j. if j \<in> set (i # act) then unrm_scan d low high (m j) else m j)"
    using i by (auto simp: fun_eq_iff)
  have w: "unrm_walk d low high act ?m =
      ((\<lambda>j. if j \<in> set (i # act) then unrm_scan d low high (m j) else m j),
       filter (\<lambda>j. unrm_scan d low high (m j) \<noteq> []) act)"
    using Cons.IH [OF ih, of ?m] unfolding f g .
  show ?case by (simp only: unrm_walk.simps Let_def w prod.case) simp
qed

lemma aoe_in_filter:
  "(\<And>e e'. un_id e = un_id e' \<Longrightarrow> un_num e = un_num e' \<Longrightarrow> P e = P e') \<Longrightarrow>
   aoe_in (filter P es) d n = (if P \<lparr>un_aoe = 0, un_num = n, un_id = d\<rparr> then aoe_in es d n else 0)"
proof (induction es)
  case (Cons e es)
  have "same_key d n e \<Longrightarrow> P e = P \<lparr>un_aoe = 0, un_num = n, un_id = d\<rparr>"
    by (rule Cons.prems) (simp_all add: same_key_def)
  moreover have "aoe_in (filter P es) d n = (if P \<lparr>un_aoe = 0, un_num = n, un_id = d\<rparr> then aoe_in es d n else 0)"
    by (rule Cons.IH) (rule Cons.prems)
  ultimately show ?case by (cases "P e"; cases "same_key d n e") simp_all
qed simp

lemma semunrm_spec:
  assumes ok: "undo_ok s"
  shows "undo_ok (semunrm d low high s)" "undo_frame s (semunrm d low high s)"
    "undo_tab (semunrm d low high s) = undo_tab s" "semfup (semunrm d low high s) = semfup s"
    "aoe_of (semunrm d low high s) p d' n' =
       (if d' = d \<and> u16 low \<le> n' \<and> n' \<le> u16 high then 0 else aoe_of s p d' n')"
proof -
  note D = undo_okD [OF ok]
  let ?P = "\<lambda>e. \<not> unrm_hit d (u16 low) (u16 high) e" and ?t = "semunrm d low high s"
  have srt: "sorted_wrt key_less (semu s i)" for i using D(9) [of i] by (simp add: ents_ok_def)
  have scan: "unrm_scan d (u16 low) (u16 high) (semu s i) = filter ?P (semu s i)" for i
    by (rule unrm_filter [OF srt])
  have m: "semu ?t = (\<lambda>i. filter ?P (semu s i))"
  proof
    fix i
    show "semu ?t i = filter ?P (semu s i)"
      using D(7) [of i] unrm_walk_eq [OF D(4)] by (auto simp: semunrm_def scan)
  qed
  have act: "semunp ?t = filter (\<lambda>i. filter ?P (semu s i) \<noteq> []) (semunp s)"
    using unrm_walk_eq [OF D(4)] by (simp add: semunrm_def scan)
  have rest: "undo_frame s ?t" "undo_tab ?t = undo_tab s" "semfup ?t = semfup s"
    by (simp_all add: semunrm_def undo_frame_def split: prod.split)
  then show "undo_frame s ?t" "undo_tab ?t = undo_tab s" "semfup ?t = semfup s" by simp_all
  have "si ?t = si s" using rest(1) by (simp add: undo_frame_def)
  moreover have "ents_ok (semaem (si s)) (semume (si s)) (semu ?t i)" for i
  proof -
    have "int (length (semu s i)) \<le> C \<Longrightarrow> int (length (filter ?P (semu s i))) \<le> C" for C
      using length_filter_le [of ?P "semu s i"] by linarith
    with D(9) [of i] show ?thesis unfolding ents_ok_def m by (auto intro: sorted_wrt_filter)
  qed
  moreover have "i \<in> set (semunp ?t) \<longleftrightarrow> semu ?t i \<noteq> []" for i
    using D(7) [of i] unfolding act m by auto
  moreover have "\<exists>p. undo_tab s p = Some i" if "semu ?t i \<noteq> []" for i
  proof -
    have "semu s i \<noteq> []" using that unfolding m by auto
    then show ?thesis by (rule D(8))
  qed
  moreover have "distinct (semunp ?t)" using D(4) unfolding act by simp
  ultimately show "undo_ok ?t"
    using ok rest(2,3) unfolding undo_ok_def by auto
  have "ents_of ?t p = filter ?P (ents_of s p)"
    using rest(2) by (simp add: ents_of_def m split: option.split)
  then show "aoe_of ?t p d' n' = (if d' = d \<and> u16 low \<le> n' \<and> n' \<le> u16 high then 0 else aoe_of s p d' n')"
    using aoe_in_filter [of ?P "ents_of s p" d' n'] by (simp add: aoe_of_def unrm_hit_def)
qed

end
