(* ===== verification/Sem_Op.thy ===== *)
theory Sem_Op
  imports Sem_Undo
begin

text \<open>
  Semaphore operations: what one operation of a \<open>semop\<close> list does, that \<open>semundo\<close> takes a
  part of a list back exactly, and the abstract semantics of a whole list.
\<close>

section \<open>Values and adjustments, the rest aside\<close>

definition vals_ok :: "semst \<Rightarrow> bool" where
  "vals_ok s = (0 \<le> semvmx (si s) \<and> semvmx (si s) \<le> 32767 \<and>
     (\<forall>j. 0 \<le> semval (sems s j) \<and> semval (sems s j) \<le> semvmx (si s)))"

definition same_sems :: "semst \<Rightarrow> semst \<Rightarrow> bool" where
  "same_sems s t = (si t = si s \<and> sema t = sema s \<and> semmap t = semmap s \<and> semnow t = semnow s \<and>
     (\<forall>j. semval (sems t j) = semval (sems s j)) \<and> aoe_of t = aoe_of s \<and> cnt_of t = cnt_of s)"

lemma same_sems_refl [simp]: "same_sems s s"
  by (simp add: same_sems_def)

lemma same_sems_trans: "same_sems s t \<Longrightarrow> same_sems t v \<Longrightarrow> same_sems s v"
  by (simp add: same_sems_def)

lemma same_sems_vals: "same_sems s t \<Longrightarrow> vals_ok t = vals_ok s"
  by (simp add: same_sems_def vals_ok_def)

lemma quiet_same: "quiet s t \<Longrightarrow> same_sems s t \<and> undo_ok t"
  by (simp add: quiet_def same_sems_def undo_frame_def)

text \<open>The undo part of a state: what an update of the semaphore array leaves alone.\<close>

lemma upd_sem_undo [simp]:
  "undo_ok (upd_sem j f s) = undo_ok s" "aoe_of (upd_sem j f s) = aoe_of s" "cnt_of (upd_sem j f s) = cnt_of s"
  "undo_tab (upd_sem j f s) = undo_tab s" "si (upd_sem j f s) = si s" "sema (upd_sem j f s) = sema s"
  "semmap (upd_sem j f s) = semmap s" "semnow (upd_sem j f s) = semnow s"
  by (simp_all add: upd_sem_def undo_ok_def aoe_of_def cnt_of_def ents_of_def fun_eq_iff split: option.split)

lemma swake_undo [simp]:
  "undo_ok (swake c s) = undo_ok s" "aoe_of (swake c s) = aoe_of s" "cnt_of (swake c s) = cnt_of s"
  "undo_tab (swake c s) = undo_tab s" "si (swake c s) = si s" "sema (swake c s) = sema s"
  "semmap (swake c s) = semmap s" "semnow (swake c s) = semnow s" "sems (swake c s) = sems s"
  by (simp_all add: swake_def undo_ok_def aoe_of_def cnt_of_def ents_of_def fun_eq_iff split: option.split)

lemma sems_upd_sem [simp]: "sems (upd_sem j f s) = (sems s)(j := f (sems s j))"
  by (simp add: upd_sem_def)

definition same_undo :: "semst \<Rightarrow> semst \<Rightarrow> bool" where
  "same_undo s t = (same_sems s t \<and> undo_ok t = undo_ok s \<and> undo_tab t = undo_tab s)"

lemma wake_same: "same_undo s (wake_n j s)" "same_undo s (wake_z j s)"
  by (simp_all add: wake_n_def wake_z_def same_undo_def same_sems_def)

lemma cnt_same:
  "same_undo s (upd_sem j (semncnt_update f) s)" "same_undo s (upd_sem j (semzcnt_update f) s)"
  "same_undo s (set_pid u j s)"
  by (simp_all add: same_undo_def same_sems_def set_pid_def)

lemma same_undo_trans: "same_undo s t \<Longrightarrow> same_undo t v \<Longrightarrow> same_undo s v"
  by (simp add: same_undo_def same_sems_def)

section \<open>One operation\<close>

definition op_idx :: "semst \<Rightarrow> nat \<Rightarrow> sembuf \<Rightarrow> nat" where
  "op_idx s k op = sem_base (sema s k) + nat (sem_num op)"

definition op_adj :: "sembuf \<Rightarrow> int" where
  "op_adj op = (if sem_flg op AND SEM_UNDO \<noteq> 0 then sem_op op else 0)"

definition op_typed :: "sembuf \<Rightarrow> bool" where
  "op_typed op = (- 32768 \<le> sem_op op \<and> sem_op op \<le> 32767)"

definition moved :: "user \<Rightarrow> int \<Rightarrow> nat \<Rightarrow> sembuf \<Rightarrow> semst \<Rightarrow> semst \<Rightarrow> bool" where
  "moved u d k op s s' = (undo_ok s' \<and> vals_ok s' \<and> si s' = si s \<and> sema s' = sema s \<and> semmap s' = semmap s \<and>
     semnow s' = semnow s \<and> op_typed op \<and>
     (\<forall>j. semval (sems s' j) = semval (sems s j) + (if j = op_idx s k op then sem_op op else 0)) \<and>
     adj_num (u_proc u) (op_adj op) d (s16 (sem_num op)) s s' \<and>
     (op_adj op \<noteq> 0 \<longrightarrow> undo_tab s' (u_proc u) \<noteq> None \<and> - semaem (si s) \<le> op_adj op \<and> op_adj op \<le> semaem (si s)) \<and>
     (\<forall>p. undo_tab s p \<noteq> None \<longrightarrow> undo_tab s' p \<noteq> None))"

lemma adj_num_zero: "aoe_of s' = aoe_of s \<Longrightarrow> cnt_of s' = cnt_of s \<Longrightarrow> adj_num p 0 d n s s'"
  by (simp add: adj_num_def)

lemma moved_same:
  assumes "moved u d k op s s1" "same_undo s1 s'"
  shows "moved u d k op s s'"
  using assms same_sems_vals [of s1 s'] unfolding moved_def same_undo_def
  by (auto simp: same_sems_def adj_num_def)

text \<open>The two halves of an operation that goes through: the adjustment, then the value.\<close>

definition op_aoe :: "user \<Rightarrow> int \<Rightarrow> sembuf \<Rightarrow> semst \<Rightarrow> errno option \<times> semst" where
  "op_aoe u d op s =
     (if sem_flg op AND SEM_UNDO \<noteq> 0 then semaoe u (sem_op op) d (s16 (sem_num op)) s else (None, s))"

lemma op_aoe_ok:
  assumes ok: "undo_ok s" and r: "op_aoe u d op s = (None, s1)"
  shows "undo_ok s1 \<and> undo_frame s s1 \<and> adj_num (u_proc u) (op_adj op) d (s16 (sem_num op)) s s1 \<and>
    (op_adj op \<noteq> 0 \<longrightarrow> undo_tab s1 (u_proc u) \<noteq> None \<and> - semaem (si s) \<le> op_adj op \<and> op_adj op \<le> semaem (si s)) \<and>
    (\<forall>p. undo_tab s p \<noteq> None \<longrightarrow> undo_tab s1 p \<noteq> None)"
proof (cases "sem_flg op AND SEM_UNDO \<noteq> 0")
  case False
  with r ok show ?thesis by (simp add: op_aoe_def op_adj_def adj_num_zero)
next
  case True
  with r have e: "semaoe u (sem_op op) d (s16 (sem_num op)) s = (None, s1)" and v: "op_adj op = sem_op op"
    by (simp_all add: op_aoe_def op_adj_def)
  note S = semaoe_spec [OF ok, where u = u and v = "sem_op op" and d = d and n = "s16 (sem_num op)", unfolded e, simplified]
  from S(1) have "sem_op op \<noteq> 0 \<Longrightarrow> - semaem (si s) \<le> sem_op op \<and> sem_op op \<le> semaem (si s)"
    by (auto simp: aoe_possible_def)
  with S(2,4,5) v adjusted_num [OF S(2)] show ?thesis by (auto simp: adjusted_def)
qed

lemma op_aoe_fail:
  assumes ok: "undo_ok s" and r: "op_aoe u d op s = (Some e, s1)"
  shows "quiet s s1 \<and> (\<forall>p. undo_tab s p \<noteq> None \<longrightarrow> undo_tab s1 p \<noteq> None)"
proof -
  have e: "semaoe u (sem_op op) d (s16 (sem_num op)) s = (Some e, s1)"
    using r by (auto simp: op_aoe_def split: if_splits)
  show ?thesis
    using semaoe_spec(3,4) [OF ok, where u = u and v = "sem_op op" and d = d and n = "s16 (sem_num op)"] unfolding e by simp
qed

lemma op_moved:
  assumes ok: "undo_ok s" "vals_ok s" and r: "op_aoe u d op s = (None, s1)" and t: "op_typed op"
    and v: "0 \<le> semval (sems s (op_idx s k op)) + sem_op op" "semval (sems s (op_idx s k op)) + sem_op op \<le> semvmx (si s)"
  shows "moved u d k op s (upd_sem (op_idx s k op) (semval_update (\<lambda>v. u16 (v + sem_op op))) s1)"
proof -
  have f: "undo_ok s1" "undo_frame s s1" "adj_num (u_proc u) (op_adj op) d (s16 (sem_num op)) s s1"
    "op_adj op \<noteq> 0 \<longrightarrow> undo_tab s1 (u_proc u) \<noteq> None \<and> - semaem (si s) \<le> op_adj op \<and> op_adj op \<le> semaem (si s)"
    "\<forall>p. undo_tab s p \<noteq> None \<longrightarrow> undo_tab s1 p \<noteq> None"
    using op_aoe_ok [OF ok(1) r] by blast+
  have "u16 (semval (sems s (op_idx s k op)) + sem_op op) = semval (sems s (op_idx s k op)) + sem_op op"
    using v ok(2) by (intro u16_id) (simp_all add: vals_ok_def)
  with f ok(2) t v show ?thesis
    by (simp add: moved_def undo_frame_def vals_ok_def adj_num_def)
qed

section \<open>semundo takes operations back\<close>

text \<open>The states passed on the way: the operations done are given last first.\<close>

fun trail :: "user \<Rightarrow> int \<Rightarrow> nat \<Rightarrow> sembuf list \<Rightarrow> semst \<Rightarrow> semst \<Rightarrow> bool" where
  "trail u d k [] s0 s = (s = s0)"
| "trail u d k (op # done) s0 s = (\<exists>s1. trail u d k done s0 s1 \<and> moved u d k op s1 s)"

lemma trail_keeps:
  "trail u d k done s0 s \<Longrightarrow> undo_ok s0 \<Longrightarrow> vals_ok s0 \<Longrightarrow>
   undo_ok s \<and> vals_ok s \<and> si s = si s0 \<and> sema s = sema s0 \<and> semmap s = semmap s0 \<and> semnow s = semnow s0 \<and>
   ((\<exists>op \<in> set done. op_adj op \<noteq> 0) \<longrightarrow> undo_tab s (u_proc u) \<noteq> None) \<and>
   (\<forall>p. undo_tab s0 p \<noteq> None \<longrightarrow> undo_tab s p \<noteq> None)"
proof (induction "done" arbitrary: s)
  case Nil
  then show ?case by simp
next
  case (Cons op "done")
  then obtain s1 where s1: "trail u d k done s0 s1" "moved u d k op s1 s" by auto
  from Cons.IH [OF s1(1) Cons.prems(2,3)] s1(2) show ?case by (auto simp: moved_def)
qed

lemma semundo_back:
  assumes m: "moved u d k op s1 s" and ok1: "undo_ok s1" "vals_ok s1"
    and t: "same_sems s t" "undo_ok t" "op_adj op \<noteq> 0 \<longrightarrow> undo_tab t (u_proc u) \<noteq> None"
    and nz: "sem_op op \<noteq> 0"
  shows "case (if sem_flg op AND SEM_UNDO \<noteq> 0 then semaoe u (s16 (- sem_op op)) d (s16 (sem_num op))
        (upd_sem (op_idx t k op) (semval_update (\<lambda>v. u16 (v - sem_op op))) t)
      else (None, upd_sem (op_idx t k op) (semval_update (\<lambda>v. u16 (v - sem_op op))) t)) of
    (e, t2) \<Rightarrow> e = None \<and> same_sems s1 t2 \<and> undo_ok t2 \<and> (\<forall>p. undo_tab t p \<noteq> None \<longrightarrow> undo_tab t2 p \<noteq> None)"
proof -
  let ?j = "op_idx t k op"
  let ?t1 = "upd_sem ?j (semval_update (\<lambda>v. u16 (v - sem_op op))) t"
  have j: "op_idx s1 k op = ?j" using m t(1) by (simp add: op_idx_def moved_def same_sems_def)
  have v: "semval (sems t i) = semval (sems s1 i) + (if i = ?j then sem_op op else 0)" for i
    using m t(1) j by (simp add: moved_def same_sems_def)
  have "u16 (semval (sems t ?j) - sem_op op) = semval (sems s1 ?j)"
  proof -
    have "0 \<le> semval (sems s1 ?j)" "semval (sems s1 ?j) < 65536"
      using ok1(2) unfolding vals_ok_def by (metis, smt (verit))
    then show ?thesis using v [of ?j] by (simp add: u16_id)
  qed
  then have vals: "semval (sems ?t1 i) = semval (sems s1 i)" for i using v [of i] by auto
  have fr: "si ?t1 = si s1" "sema ?t1 = sema s1" "semmap ?t1 = semmap s1" "semnow ?t1 = semnow s1"
    "undo_ok ?t1" "aoe_of ?t1 = aoe_of s" "cnt_of ?t1 = cnt_of s" "undo_tab ?t1 = undo_tab t"
    using m t by (simp_all add: moved_def same_sems_def)
  have adj: "adj_num (u_proc u) (op_adj op) d (s16 (sem_num op)) s1 s" using m by (simp add: moved_def)
  show ?thesis
  proof (cases "sem_flg op AND SEM_UNDO \<noteq> 0")
    case False
    then have "op_adj op = 0" by (simp add: op_adj_def)
    with adj have "aoe_of s = aoe_of s1" "cnt_of s = cnt_of s1" by (simp_all add: adj_num_def fun_eq_iff)
    with False fr vals show ?thesis by (simp add: same_sems_def)
  next
    case True
    then have a: "op_adj op = sem_op op" by (simp add: op_adj_def)
    have lim: "- semaem (si s1) \<le> sem_op op" "sem_op op \<le> semaem (si s1)"
      using m nz a by (simp_all add: moved_def)
    have "s16 (- sem_op op) = - sem_op op"
      using lim undo_okD(2) [OF ok1(1)] by (intro s16_id) simp_all
    moreover have "fst (semaoe u (- sem_op op) d (s16 (sem_num op)) ?t1) = None \<and>
        undo_ok (snd (semaoe u (- sem_op op) d (s16 (sem_num op)) ?t1)) \<and>
        undo_frame ?t1 (snd (semaoe u (- sem_op op) d (s16 (sem_num op)) ?t1)) \<and>
        aoe_of (snd (semaoe u (- sem_op op) d (s16 (sem_num op)) ?t1)) = aoe_of s1 \<and>
        cnt_of (snd (semaoe u (- sem_op op) d (s16 (sem_num op)) ?t1)) = cnt_of s1"
      by (rule semaoe_reverse [OF ok1(1) adj [unfolded a] lim fr(5,1,6,7)]) (use t(3) a nz fr(8) in simp)
    moreover have "undo_tab t p \<noteq> None \<Longrightarrow> undo_tab (snd (semaoe u (- sem_op op) d (s16 (sem_num op)) ?t1)) p \<noteq> None" for p
      using semaoe_spec(4) [OF fr(5), of p] fr(8) by simp
    ultimately show ?thesis
      using True fr vals by (auto simp: same_sems_def undo_frame_def split: prod.split)
  qed
qed

lemma semundo_restores:
  "trail u d k done s0 s \<Longrightarrow> undo_ok s0 \<Longrightarrow> vals_ok s0 \<Longrightarrow> same_sems s t \<Longrightarrow> undo_ok t \<Longrightarrow>
   ((\<exists>op \<in> set done. op_adj op \<noteq> 0) \<longrightarrow> undo_tab t (u_proc u) \<noteq> None) \<Longrightarrow>
   fst (semundo u d k done t) = None \<and> same_sems s0 (snd (semundo u d k done t)) \<and> undo_ok (snd (semundo u d k done t))"
proof (induction "done" arbitrary: s t)
  case Nil
  then show ?case by simp
next
  case (Cons op "done")
  then obtain s1 where s1: "trail u d k done s0 s1" "moved u d k op s1 s" by auto
  have ok1: "undo_ok s1" "vals_ok s1" using trail_keeps [OF s1(1) Cons.prems(2,3)] by simp_all
  show ?case
  proof (cases "sem_op op = 0")
    case True
    then have "same_sems s1 s"
      using s1(2) by (simp add: moved_def same_sems_def adj_num_def op_adj_def fun_eq_iff)
    then have "same_sems s1 t" using Cons.prems(4) by (rule same_sems_trans)
    with Cons.IH [OF s1(1) Cons.prems(2,3)] Cons.prems(5,6) True show ?thesis by auto
  next
    case False
    let ?t1 = "upd_sem (op_idx t k op) (semval_update (\<lambda>v. u16 (v - sem_op op))) t"
    obtain e t2 where r: "(if sem_flg op AND SEM_UNDO \<noteq> 0 then semaoe u (s16 (- sem_op op)) d (s16 (sem_num op)) ?t1
        else (None, ?t1)) = (e, t2)" by fastforce
    have b: "e = None" "same_sems s1 t2" "undo_ok t2" "\<forall>p. undo_tab t p \<noteq> None \<longrightarrow> undo_tab t2 p \<noteq> None"
      using semundo_back [OF s1(2) ok1 Cons.prems(4,5) _ False] Cons.prems(6) unfolding r by auto
    have ih: "fst (semundo u d k done t2) = None \<and> same_sems s0 (snd (semundo u d k done t2)) \<and> undo_ok (snd (semundo u d k done t2))"
      by (rule Cons.IH [OF s1(1) Cons.prems(2,3) b(2,3)]) (use Cons.prems(6) b(4) in auto)
    have "semundo u d k (op # done) t = (case semundo u d k done t2 of (e', s3) \<Rightarrow> (case e' of None \<Rightarrow> e | Some x \<Rightarrow> Some x, s3))"
      using False by (simp only: semundo.simps Let_def op_idx_def [symmetric] r if_False prod.case)
    with ih b(1) show ?thesis by (auto split: prod.splits)
  qed
qed

section \<open>A whole pass\<close>

text \<open>
  The abstract meaning of a list of operations on the values alone: all of them in order, or
  none when one of them cannot be done.
\<close>

fun sem_run :: "int \<Rightarrow> (nat \<Rightarrow> int) \<Rightarrow> (nat \<times> int) list \<Rightarrow> (nat \<Rightarrow> int) option" where
  "sem_run vmx f [] = Some f"
| "sem_run vmx f ((j, x) # xs) =
     (if (x > 0 \<and> f j + x \<le> vmx) \<or> (x < 0 \<and> - x \<le> f j) \<or> (x = 0 \<and> f j = 0)
      then sem_run vmx (f(j := f j + x)) xs else None)"

definition vals :: "semst \<Rightarrow> nat \<Rightarrow> int" where
  "vals s = (\<lambda>j. semval (sems s j))"

definition op_list :: "semst \<Rightarrow> nat \<Rightarrow> sembuf list \<Rightarrow> (nat \<times> int) list" where
  "op_list s k ops = map (\<lambda>op. (op_idx s k op, sem_op op)) ops"

lemma moved_vals: "moved u d k op s s' \<Longrightarrow> vals s' = (vals s)(op_idx s k op := vals s (op_idx s k op) + sem_op op)"
  by (auto simp: moved_def vals_def fun_eq_iff)

lemma moved_op_list: "moved u d k op s s' \<Longrightarrow> op_list s' k ops = op_list s k ops"
  by (simp add: moved_def op_list_def op_idx_def)

text \<open>An abandoned pass has taken everything back.\<close>

lemma pass_back:
  assumes tr: "trail u d k done s0 s" "undo_ok s0" "vals_ok s0" and q: "same_sems s t" "undo_ok t"
    "\<forall>p. undo_tab s p \<noteq> None \<longrightarrow> undo_tab t p \<noteq> None"
  shows "same_sems s0 (snd (semundo u d k done t)) \<and> undo_ok (snd (semundo u d k done t)) \<and>
    fst (semundo u d k done t) = None"
  using semundo_restores [OF tr q(1,2)] trail_keeps [OF tr] q(3) by blast

lemma same_undo_back: "same_sems s0 s \<and> undo_ok s \<Longrightarrow> same_undo s s' \<Longrightarrow> same_sems s0 s' \<and> undo_ok s'"
  using same_sems_trans by (auto simp: same_undo_def)

text \<open>One turn of the loop: either the operation moves on, or the pass is abandoned.\<close>

lemma semop_turn:
  assumes tr: "trail u d k done s0 s" "undo_ok s0" "vals_ok s0" and t: "op_typed op"
  shows "(\<exists>s1. moved u d k op s s1 \<and> semop_loop u d k done (op # ops) s = semop_loop u d k (op # done) ops s1 \<and>
            sem_run (semvmx (si s)) (vals s) [(op_idx s k op, sem_op op)] = Some (vals s1)) \<or>
         (\<exists>p s'. semop_loop u d k done (op # ops) s = (p, s') \<and> p \<noteq> AllDone \<and> same_sems s0 s' \<and> undo_ok s' \<and>
            (op_adj op = 0 \<longrightarrow> sem_run (semvmx (si s)) (vals s) [(op_idx s k op, sem_op op)] = None) \<and>
            (\<forall>c. p = PassSleep c \<longrightarrow> sem_flg op AND SEM_NOWAIT = 0 \<and>
               sem_run (semvmx (si s)) (vals s) [(op_idx s k op, sem_op op)] = None))"
proof -
  have ok: "undo_ok s" "vals_ok s" using trail_keeps [OF tr] by simp_all
  let ?j = "op_idx s k op" and ?x = "sem_op op"
  let ?upd = "\<lambda>s1. upd_sem ?j (semval_update (\<lambda>v. u16 (v + ?x))) s1"
  have pos: "0 \<le> semval (sems s ?j)" "semval (sems s ?j) \<le> semvmx (si s)" using ok(2) by (simp_all add: vals_ok_def)
  have undone: "same_sems s0 (snd (semundo u d k done s)) \<and> undo_ok (snd (semundo u d k done s)) \<and> fst (semundo u d k done s) = None"
    by (rule pass_back [OF tr same_sems_refl ok(1)]) simp
  have back_fail: "same_sems s0 (snd (semundo u d k done s1)) \<and> undo_ok (snd (semundo u d k done s1)) \<and> fst (semundo u d k done s1) = None"
    if "op_aoe u d op s = (Some e, s1)" for e s1
    using op_aoe_fail [OF ok(1) that] quiet_same [of s s1] by (intro pass_back [OF tr]) auto
  have adj: "op_adj op \<noteq> 0" if "op_aoe u d op s = (Some e, s1)" for e s1
    using that by (auto simp: op_aoe_def op_adj_def semaoe_def split: if_splits)
  consider (plus) "?x > 0" | (minus) "?x < 0" | (zero) "?x = 0" by linarith
  then show ?thesis
  proof cases
    case plus
    show ?thesis
    proof (cases "?x + semval (sems s ?j) > semvmx (si s)")
      case True
      then have "semop_loop u d k done (op # ops) s = pass_fail ERANGE (semundo u d k done s)"
        using plus by (simp add: Let_def op_idx_def)
      with undone True plus show ?thesis
        by (intro disjI2) (auto simp: pass_fail_def vals_def)
    next
      case False
      show ?thesis
      proof (cases "op_aoe u d op s")
        case (Pair e s1)
        have loop: "semop_loop u d k done (op # ops) s = (case e of
            Some e \<Rightarrow> pass_fail e (semundo u d k done s1)
          | None \<Rightarrow> semop_loop u d k (op # done) ops (wake_n ?j (?upd s1)))"
          using plus False Pair unfolding op_aoe_def by (simp add: Let_def op_idx_def split: option.split)
        show ?thesis
        proof (cases e)
          case None
          have "moved u d k op s (wake_n ?j (?upd s1))"
            by (rule moved_same [OF op_moved [OF ok Pair [unfolded None] t] wake_same(1)])
              (use plus pos False in simp_all)
          with loop None plus False moved_vals show ?thesis
            by (intro disjI1 exI [of _ "wake_n ?j (?upd s1)"]) (auto simp: vals_def)
        next
          case (Some x)
          with loop back_fail [OF Pair [unfolded Some]] adj [OF Pair [unfolded Some]] show ?thesis
            by (intro disjI2) (auto simp: pass_fail_def)
        qed
      qed
    qed
  next
    case minus
    show ?thesis
    proof (cases "semval (sems s ?j) \<ge> - ?x")
      case True
      show ?thesis
      proof (cases "op_aoe u d op s")
        case (Pair e s1)
        let ?s2 = "if semval (sems (?upd s1) ?j) = 0 then wake_z ?j (?upd s1) else ?upd s1"
        have loop: "semop_loop u d k done (op # ops) s = (case e of
            Some e \<Rightarrow> pass_fail e (semundo u d k done s1)
          | None \<Rightarrow> semop_loop u d k (op # done) ops ?s2)"
          using minus True Pair unfolding op_aoe_def by (simp add: Let_def op_idx_def split: option.split)
        show ?thesis
        proof (cases e)
          case None
          have m: "moved u d k op s (?upd s1)"
            by (rule op_moved [OF ok Pair [unfolded None] t]) (use minus pos True in simp_all)
          then have "moved u d k op s ?s2" using moved_same [OF m wake_same(2)] by simp
          with loop None minus True moved_vals show ?thesis
            by (intro disjI1 exI [of _ ?s2]) (auto simp: vals_def simp del: sems_upd_sem)
        next
          case (Some x)
          with loop back_fail [OF Pair [unfolded Some]] adj [OF Pair [unfolded Some]] show ?thesis
            by (intro disjI2) (auto simp: pass_fail_def)
        qed
      qed
    next
      case False
      let ?s1 = "snd (semundo u d k done s)"
      have "semop_loop u d k done (op # ops) s =
          (if sem_flg op AND SEM_NOWAIT \<noteq> 0 then (PassErr EAGAIN, ?s1)
           else (PassSleep (ChN ?j), upd_sem ?j (semncnt_update (\<lambda>n. s16 (n + 1))) ?s1))"
        using minus False by (simp add: Let_def op_idx_def)
      with undone minus False same_undo_back [OF _ cnt_same(1), of s0 ?s1] show ?thesis
        by (intro disjI2) (auto simp: vals_def)
    qed
  next
    case zero
    show ?thesis
    proof (cases "semval (sems s ?j) = 0")
      case True
      have "adj_num (u_proc u) (op_adj op) d (s16 (sem_num op)) s s" "op_adj op = 0"
        using zero by (simp_all add: op_adj_def adj_num_def)
      then have "moved u d k op s s" using ok t zero by (simp add: moved_def)
      moreover have "semop_loop u d k done (op # ops) s = semop_loop u d k (op # done) ops s"
        using zero True by (simp add: Let_def op_idx_def)
      moreover have "sem_run (semvmx (si s)) (vals s) [(?j, ?x)] = Some (vals s)"
        using zero True by (simp add: vals_def fun_upd_idem)
      ultimately show ?thesis by blast
    next
      case False
      let ?s1 = "snd (semundo u d k done s)"
      have "semop_loop u d k done (op # ops) s =
          (if sem_flg op AND SEM_NOWAIT \<noteq> 0 then (PassErr EAGAIN, ?s1)
           else (PassSleep (ChZ ?j), upd_sem ?j (semzcnt_update (\<lambda>n. s16 (n + 1))) ?s1))"
        using zero False by (simp add: Let_def op_idx_def)
      with undone zero False same_undo_back [OF _ cnt_same(2), of s0 ?s1] show ?thesis
        by (intro disjI2) (auto simp: vals_def)
    qed
  qed
qed

lemma sem_run_Cons:
  "sem_run vmx f (x # xs) = (case sem_run vmx f [x] of None \<Rightarrow> None | Some g \<Rightarrow> sem_run vmx g xs)"
  by (cases x) simp

lemma semop_loop_spec:
  "trail u d k done s0 s \<Longrightarrow> undo_ok s0 \<Longrightarrow> vals_ok s0 \<Longrightarrow> \<forall>op \<in> set ops. op_typed op \<Longrightarrow>
   semop_loop u d k done ops s = (p, s') \<Longrightarrow>
   (p = AllDone \<longrightarrow> trail u d k (rev ops @ done) s0 s' \<and>
      sem_run (semvmx (si s)) (vals s) (op_list s k ops) = Some (vals s')) \<and>
   (p \<noteq> AllDone \<longrightarrow> same_sems s0 s' \<and> undo_ok s' \<and>
      ((\<forall>op \<in> set ops. op_adj op = 0) \<longrightarrow> sem_run (semvmx (si s)) (vals s) (op_list s k ops) = None)) \<and>
   (\<forall>c. p = PassSleep c \<longrightarrow> sem_run (semvmx (si s)) (vals s) (op_list s k ops) = None \<and>
      (\<exists>op \<in> set ops. sem_flg op AND SEM_NOWAIT = 0))"
proof (induction ops arbitrary: "done" s)
  case Nil
  then show ?case by (auto simp: op_list_def)
next
  case (Cons op ops)
  have t: "op_typed op" using Cons.prems(4) by simp
  have l: "op_list s k (op # ops) = (op_idx s k op, sem_op op) # op_list s k ops" by (simp add: op_list_def)
  from semop_turn [OF Cons.prems(1-3) t, of ops] show ?case
  proof (elim disjE exE conjE)
    fix s1
    assume m: "moved u d k op s s1" and e: "semop_loop u d k done (op # ops) s = semop_loop u d k (op # done) ops s1"
      and r: "sem_run (semvmx (si s)) (vals s) [(op_idx s k op, sem_op op)] = Some (vals s1)"
    have tr: "trail u d k (op # done) s0 s1" using Cons.prems(1) m by auto
    have run: "sem_run (semvmx (si s)) (vals s) (op_list s k (op # ops)) = sem_run (semvmx (si s1)) (vals s1) (op_list s1 k ops)"
      unfolding l by (subst sem_run_Cons) (use m r moved_op_list [OF m, of ops] in \<open>simp add: moved_def\<close>)
    from Cons.IH [OF tr Cons.prems(2,3) _ Cons.prems(5) [unfolded e]] Cons.prems(4) show ?thesis
      unfolding run by auto
  next
    fix p' s''
    assume "semop_loop u d k done (op # ops) s = (p', s'')" "p' \<noteq> AllDone" "same_sems s0 s''" "undo_ok s''"
      "op_adj op = 0 \<longrightarrow> sem_run (semvmx (si s)) (vals s) [(op_idx s k op, sem_op op)] = None"
      "\<forall>c. p' = PassSleep c \<longrightarrow> sem_flg op AND SEM_NOWAIT = 0 \<and>
         sem_run (semvmx (si s)) (vals s) [(op_idx s k op, sem_op op)] = None"
    moreover have "sem_run (semvmx (si s)) (vals s) (op_list s k (op # ops)) = None"
      if "sem_run (semvmx (si s)) (vals s) [(op_idx s k op, sem_op op)] = None"
      unfolding l by (subst sem_run_Cons) (simp only: that option.case)
    ultimately show ?thesis using Cons.prems(5) by auto
  qed
qed

section \<open>The whole call\<close>

text \<open>What the process's adjustments become: less what the list did under SEM_UNDO.\<close>

fun adj_sum :: "int \<Rightarrow> sembuf list \<Rightarrow> int" where
  "adj_sum n [] = 0"
| "adj_sum n (op # ops) = (if s16 (sem_num op) = n then op_adj op else 0) + adj_sum n ops"

lemma adj_sum_append: "adj_sum n (xs @ ys) = adj_sum n xs + adj_sum n ys"
  by (induction xs) auto

lemma trail_aoe:
  "trail u d k done s0 s \<Longrightarrow>
   aoe_of s q d' n' = aoe_of s0 q d' n' - (if q = u_proc u \<and> d' = d then adj_sum n' done else 0)"
proof (induction "done" arbitrary: s)
  case (Cons op "done")
  then obtain s1 where s1: "trail u d k done s0 s1" "moved u d k op s1 s" by auto
  have a: "aoe_of s q d' n' =
      aoe_of s1 q d' n' - (if q = u_proc u \<and> d' = d \<and> n' = s16 (sem_num op) then op_adj op else 0)"
    using s1(2) by (simp add: moved_def adj_num_def)
  show ?case unfolding a Cons.IH [OF s1(1)] by auto
qed simp

lemma adj_sum_rev: "adj_sum n (rev ops) = adj_sum n ops"
  by (induction ops) (auto simp: adj_sum_append)

lemma mark_pids_same: "same_undo s (mark_pids u k ops s)"
proof (induction ops arbitrary: s)
  case (Cons op ops)
  have "same_undo s (set_pid u (sem_base (sema s k) + nat (sem_num op)) s)" by (rule cnt_same(3))
  from same_undo_trans [OF this Cons.IH] show ?case by simp
qed (simp add: same_undo_def)

lemma semops_typed: "\<forall>op \<in> set (semops_of bs). op_typed op"
proof (induction bs rule: semops_of.induct)
  case (1 a b c d e f bs)
  then show ?case using s16_range [of "bytes_short [c, d]"] by (auto simp: op_typed_def)
qed simp_all

text \<open>
  The outcome of one pass, sets and values: on success the values are those of the abstract run
  and the adjustments record what has to be undone at exit; otherwise nothing has changed.
\<close>

definition pass_spec :: "user \<Rightarrow> int \<Rightarrow> nat \<Rightarrow> sembuf list \<Rightarrow> semst \<Rightarrow> schan outcome \<Rightarrow> semst \<Rightarrow> bool" where
  "pass_spec u d k ops s r s' =
     (case r of
        Return (Inr v) \<Rightarrow> v = 0 \<and> sem_run (semvmx (si s)) (vals s) (op_list s k ops) = Some (vals s') \<and>
          (\<forall>q d' n'. aoe_of s' q d' n' =
             aoe_of s q d' n' - (if q = u_proc u \<and> d' = d then adj_sum n' ops else 0))
      | Return (Inl e) \<Rightarrow> vals s' = vals s \<and> aoe_of s' = aoe_of s \<and>
          ((\<forall>op \<in> set ops. op_adj op = 0) \<longrightarrow> sem_run (semvmx (si s)) (vals s) (op_list s k ops) = None)
      | Sleeping c \<Rightarrow> vals s' = vals s \<and> aoe_of s' = aoe_of s \<and>
          sem_run (semvmx (si s)) (vals s) (op_list s k ops) = None)"

lemma upd_set_undo [simp]:
  "undo_ok (upd_set j f s) = undo_ok s" "aoe_of (upd_set j f s) = aoe_of s" "cnt_of (upd_set j f s) = cnt_of s"
  "undo_tab (upd_set j f s) = undo_tab s" "si (upd_set j f s) = si s" "sems (upd_set j f s) = sems s"
  "semmap (upd_set j f s) = semmap s" "semnow (upd_set j f s) = semnow s" "vals (upd_set j f s) = vals s"
  "vals_ok (upd_set j f s) = vals_ok s"
  by (simp_all add: upd_set_def undo_ok_def aoe_of_def cnt_of_def ents_of_def fun_eq_iff vals_def vals_ok_def
      split: option.split)

lemma semmap_undo [simp]:
  "undo_ok (s\<lparr>semmap := mp\<rparr>) = undo_ok s" "vals_ok (s\<lparr>semmap := mp\<rparr>) = vals_ok s"
  "aoe_of (s\<lparr>semmap := mp\<rparr>) = aoe_of s" "vals (s\<lparr>semmap := mp\<rparr>) = vals s"
  by (simp_all add: undo_ok_def vals_ok_def aoe_of_def ents_of_def vals_def fun_eq_iff split: option.split)

lemma same_sems_valsD: "same_sems s t \<Longrightarrow> vals t = vals s"
  by (simp add: same_sems_def vals_def)

lemma semop_pass_spec:
  assumes ok: "undo_ok s" "vals_ok s" and t: "\<forall>op \<in> set ops. op_typed op" and r: "semop_pass u d k ops s = (r, s')"
  shows "pass_spec u d k ops s r s' \<and> undo_ok s' \<and> vals_ok s' \<and> si s' = si s \<and> semmap s' = semmap s \<and>
    (\<forall>k'. sem_perm (sema s' k') = sem_perm (sema s k') \<and> sem_base (sema s' k') = sem_base (sema s k') \<and>
       sem_nsems (sema s' k') = sem_nsems (sema s k'))"
proof -
  obtain p s1 where l: "semop_loop u d k [] ops s = (p, s1)" by fastforce
  have tr: "trail u d k [] s s" by simp
  note S = semop_loop_spec [OF tr ok t l]
  show ?thesis
  proof (cases "p = AllDone")
    case False
    then have sm: "same_sems s s1" "undo_ok s1" using S by simp_all
    have "s' = s1" "(\<exists>e. p = PassErr e \<and> r = Fail e) \<or> (\<exists>c. p = PassSleep c \<and> r = Sleeping c)"
      using r l False by (auto simp: semop_pass_def split: passed.splits)
    then show ?thesis
      using S False sm same_sems_valsD [OF sm(1)] same_sems_vals [OF sm(1)] ok
      by (auto simp: pass_spec_def same_sems_def)
  next
    case True
    with S have tr1: "trail u d k (rev ops) s s1" and run: "sem_run (semvmx (si s)) (vals s) (op_list s k ops) = Some (vals s1)"
      by simp_all
    let ?s2 = "mark_pids u k ops s1"
    have e: "r = Ok 0" "s' = upd_set k (sem_otime_update (\<lambda>_. semnow s1)) ?s2"
      using r l True by (auto simp: semop_pass_def)
    have k1: "undo_ok s1" "vals_ok s1" "si s1 = si s" "sema s1 = sema s" "semmap s1 = semmap s"
      using trail_keeps [OF tr1 ok] by simp_all
    have m: "same_sems s1 ?s2" "undo_ok ?s2 = undo_ok s1" using mark_pids_same [of s1 u k ops] by (simp_all add: same_undo_def)
    have "vals s' = vals s1" using same_sems_valsD [OF m(1)] by (simp add: e)
    moreover have "aoe_of s' q d' n' = aoe_of s q d' n' - (if q = u_proc u \<and> d' = d then adj_sum n' ops else 0)" for q d' n'
      using trail_aoe [OF tr1, of q d' n'] m(1) by (simp add: e same_sems_def adj_sum_rev)
    moreover have "vals_ok s'" using same_sems_vals [OF m(1)] k1(2) by (simp add: e)
    moreover have "sema s' k' = (if k' = k then (sema s k)\<lparr>sem_otime := semnow s1\<rparr> else sema s k')" for k'
      using m(1) k1(4) by (simp add: e upd_set_def same_sems_def)
    ultimately show ?thesis
      using run k1 m by (simp add: pass_spec_def e same_sems_def)
  qed
qed

end
