(* ===== verification/Sem_Reach.thy ===== *)
theory Sem_Reach
  imports Sem_Op
begin

text \<open>
  The invariant of the semaphore tables and its preservation by every call, by the resumption of
  a sleeping \<open>semop\<close> and by process exit; identifiers; what exit does to the values; and the reachable
  states. A resumed \<open>semop\<close> reads its list again without a check; the runs considered are those
  in which that list still names semaphores of the set.
\<close>

section \<open>The invariant\<close>

definition set_units :: "semst \<Rightarrow> nat \<Rightarrow> int set" where
  "set_units s k = (if ipc_alloc (sem_perm (sema s k))
     then {int (sem_base (sema s k)) + 1 ..< int (sem_base (sema s k)) + 1 + sem_nsems (sema s k)} else {})"

definition sem_ids_ok :: "semst \<Rightarrow> bool" where
  "sem_ids_ok s = (0 < semmni (si s) \<and> semmni (si s) \<le> 32768 \<and>
     (\<forall>k. 0 \<le> p_seq (sem_perm (sema s k)) \<and> p_seq (sem_perm (sema s k)) < 65536))"

text \<open>All units, free or held by a set, are semaphores of the array.\<close>

definition in_array :: "int \<Rightarrow> int set \<Rightarrow> (nat \<Rightarrow> int set) \<Rightarrow> bool" where
  "in_array n fr h = (fr \<subseteq> {1..n} \<and> (\<forall>k. h k \<subseteq> {1..n}))"

lemma in_array_take: "in_array n fr h \<Longrightarrow> fr' \<union> r \<subseteq> fr \<Longrightarrow> in_array n fr' (h(i := r))"
  unfolding in_array_def by (metis Un_subset_iff fun_upd_apply order_trans)

lemma in_array_give: "in_array n fr h \<Longrightarrow> fr' \<subseteq> fr \<union> h i \<Longrightarrow> in_array n fr' (h(i := {}))"
  unfolding in_array_def by (metis Un_subset_iff empty_subsetI fun_upd_apply order_trans)

definition sets_ok :: "semst \<Rightarrow> bool" where
  "sets_ok s = (sem_ids_ok s \<and> semmsl (si s) \<le> 32767 \<and> rmap_ok (semmap s) \<and>
     ledger (units (semmap s)) (set_units s) \<and> in_array (semmns (si s)) (units (semmap s)) (set_units s) \<and>
     (\<forall>k. ipc_alloc (sem_perm (sema s k)) \<longrightarrow> 0 < sem_nsems (sema s k) \<and> sem_nsems (sema s k) \<le> 32767))"

definition sem_inv :: "semst \<Rightarrow> bool" where
  "sem_inv s = (undo_ok s \<and> vals_ok s \<and> sets_ok s)"

interpretation sid: ipc_class "\<lambda>s. semmni (si s)" "\<lambda>s k. sem_perm (sema s k)" semconv semid_of sem_ids_ok
proof unfold_locales
  fix s d
  assume "sem_ids_ok s"
  show "semconv s d =
        (if d < 0 then Inl EINVAL
         else if \<not> ipc_alloc (sem_perm (sema s (nat (d mod semmni (si s))))) \<or>
                 d div semmni (si s) \<noteq> p_seq (sem_perm (sema s (nat (d mod semmni (si s)))))
         then Inl EINVAL else Inr (nat (d mod semmni (si s))))"
    by (simp add: semconv_def Let_def)
qed (simp_all add: sem_ids_ok_def semid_of_def)

lemma sem_inv_ids: "sem_inv s \<Longrightarrow> sem_ids_ok s"
  by (simp add: sem_inv_def sets_ok_def)

lemma sets_ok_cong:
  assumes "si s' = si s" "semmap s' = semmap s"
    and "\<And>k. sem_perm (sema s' k) = sem_perm (sema s k) \<and> sem_base (sema s' k) = sem_base (sema s k) \<and>
       sem_nsems (sema s' k) = sem_nsems (sema s k)"
  shows "sets_ok s' = sets_ok s"
proof -
  have "set_units s' = set_units s" using assms(3) by (simp add: set_units_def fun_eq_iff)
  then show ?thesis using assms by (simp add: sets_ok_def sem_ids_ok_def)
qed

lemma sem_inv_same:
  assumes "sem_inv s" "same_undo s s'"
  shows "sem_inv s'"
proof -
  from assms(2) have "undo_ok s' = undo_ok s" "same_sems s s'" by (simp_all add: same_undo_def)
  moreover have "sets_ok s' = sets_ok s"
    using \<open>same_sems s s'\<close> by (intro sets_ok_cong) (simp_all add: same_sems_def)
  ultimately show ?thesis using assms(1) same_sems_vals [of s s'] by (simp add: sem_inv_def)
qed

section \<open>semop\<close>

lemma semop_pass_inv:
  assumes iv: "sem_inv s" and t: "\<forall>op \<in> set ops. op_typed op" and r: "semop_pass u d k ops s = (r, s')"
  shows "sem_inv s' \<and> si s' = si s"
proof -
  from iv have ok: "undo_ok s" "vals_ok s" and sets: "sets_ok s" by (simp_all add: sem_inv_def)
  note S = semop_pass_spec [OF ok t r]
  have "sets_ok s' = sets_ok s" using S by (intro sets_ok_cong) blast+
  with S sets show ?thesis by (simp add: sem_inv_def)
qed

lemma semop_inv: "sem_inv s \<Longrightarrow> sem_inv (snd (semop u um d a n s)) \<and> si (snd (semop u um d a n s)) = si s"
proof -
  assume iv: "sem_inv s"
  have "sem_inv (snd (semop_pass u d k (semops_of bs) s)) \<and> si (snd (semop_pass u d k (semops_of bs) s)) = si s" for k bs
    using semop_pass_inv [OF iv semops_typed, of u d k bs] by (metis prod.collapse)
  with iv show ?thesis by (auto simp: semop_def split: sum.splits option.splits)
qed

lemma semop_intr_same: "same_undo s (semop_intr c s)"
  by (auto simp: semop_intr_def Let_def same_undo_def same_sems_def split: schan.split)

lemma semop_resume_inv:
  assumes iv: "sem_inv s"
  shows "sem_inv (snd (semop_resume intr c u um d a n k s)) \<and> si (snd (semop_resume intr c u um d a n k s)) = si s"
proof -
  have "sem_inv (snd (semop_pass u d k (semops_of bs) s)) \<and> si (snd (semop_pass u d k (semops_of bs) s)) = si s" for bs
    using semop_pass_inv [OF iv semops_typed, of u d k bs] by (metis prod.collapse)
  moreover have "sem_inv (semop_intr c s) \<and> si (semop_intr c s) = si s"
    using sem_inv_same [OF iv semop_intr_same] semop_intr_same [of s c] by (simp add: same_undo_def same_sems_def)
  ultimately show ?thesis using iv by (auto simp: semop_resume_def split: sum.splits option.splits)
qed

section \<open>semget\<close>

lemma upd_set_sema: "sema (upd_set k f s) = (sema s)(k := f (sema s k))"
  by (simp add: upd_set_def)

lemma sets_ok_closed:
  assumes ok: "sets_ok s" and na: "\<not> ipc_alloc (sem_perm (sema s k))" "\<not> ipc_alloc p"
    and sq: "0 \<le> p_seq p" "p_seq p < 65536"
  shows "sets_ok (upd_set k (sem_perm_update (\<lambda>_. p)) s)"
proof -
  have "set_units (upd_set k (sem_perm_update (\<lambda>_. p)) s) = set_units s"
    using na by (simp add: set_units_def upd_set_sema fun_eq_iff)
  then show ?thesis using ok na sq by (simp add: sets_ok_def sem_ids_ok_def upd_set_sema)
qed

lemma mode_zero: "\<not> ipc_alloc (p\<lparr>p_mode := 0\<rparr>)"
  by (simp add: ipc_alloc_def)

lemma semget_inv:
  assumes iv: "sem_inv s"
  shows "sem_inv (snd (semget u key n fl s)) \<and> si (snd (semget u key n fl s)) = si s"
proof (cases "ipcget u key fl (\<lambda>i. sem_perm (sema s i)) (nat (semmni (si s)))")
  case (Inl e)
  then show ?thesis using iv by (simp add: semget_def)
next
  case (Inr x)
  obtain st k p where x: "x = (st, k, p)" by (cases x) auto
  have post: "ipcget_post u key fl (\<lambda>i. sem_perm (sema s i)) (nat (semmni (si s))) (Inr (st, k, p))"
    using ipcget_ans [of u key fl "\<lambda>i. sem_perm (sema s i)" "nat (semmni (si s))"] Inr x by simp
  from iv have sets: "sets_ok s" and un: "undo_ok s" "vals_ok s" by (simp_all add: sem_inv_def)
  show ?thesis
  proof (cases st)
    case False
    with post have "p = sem_perm (sema s k)" by (simp add: ipcget_post_def)
    then have "upd_set k (sem_perm_update (\<lambda>_. p)) s = s" by (simp add: upd_set_def)
    then show ?thesis using iv Inr x False by (simp add: semget_def Let_def)
  next
    case True
    with post have p: "\<not> ipc_alloc (sem_perm (sema s k))" "ipc_alloc p" "p_seq p = p_seq (sem_perm (sema s k))"
      by (auto simp: ipcget_post_def least_free_def ipc_init_def)
    have sq: "0 \<le> p_seq p" "p_seq p < 65536" using sets p(3) by (simp_all add: sets_ok_def sem_ids_ok_def)
    let ?s1 = "upd_set k (sem_perm_update (\<lambda>_. p)) s"
    have closed: "upd_set k (sem_perm_update (p_mode_update (\<lambda>_. 0))) ?s1 = upd_set k (sem_perm_update (\<lambda>_. p\<lparr>p_mode := 0\<rparr>)) s"
      by (simp add: upd_set_def comp_def)
    have c: "sem_inv (upd_set k (sem_perm_update (\<lambda>_. p\<lparr>p_mode := 0\<rparr>)) s)"
      using sets_ok_closed [OF sets p(1) mode_zero [of p]] sq un by (simp add: sem_inv_def)
    show ?thesis
    proof (cases "n \<le> 0 \<or> n > semmsl (si s)")
      case True
      then show ?thesis using Inr x \<open>st\<close> c closed by (simp add: semget_def Let_def)
    next
      case n: False
      obtain i mp where m: "malloc n (semmap s) = (i, mp)" by fastforce
      have rm: "rmap_ok (semmap s)" and l: "ledger (units (semmap s)) (set_units s)" using sets by (simp_all add: sets_ok_def)
      show ?thesis
      proof (cases "i = 0")
        case True
        with m malloc_zero_same [OF rm, of n] have "mp = semmap s" by simp
        then have "snd (semget u key n fl s) = upd_set k (sem_perm_update (\<lambda>_. p\<lparr>p_mode := 0\<rparr>)) s"
          using Inr x \<open>st\<close> n m True by (simp add: semget_def Let_def upd_set_def comp_def)
        then show ?thesis using c by simp
      next
        case False
        let ?s2 = "upd_set k (\<lambda>sp. sp\<lparr>sem_perm := p, sem_base := nat (i - 1), sem_nsems := u16 n,
            sem_ctime := semnow s, sem_otime := 0\<rparr>) (s\<lparr>semmap := mp\<rparr>)"
        have res: "snd (semget u key n fl s) = ?s2"
          using Inr x \<open>st\<close> n m False by (simp add: semget_def Let_def upd_set_def)
        have nn: "0 < n" "n \<le> 32767" using n sets by (simp_all add: sets_ok_def)
        then have un16: "u16 n = n" by (intro u16_id) simp_all
        have ip: "0 < i" using rm.alloc_positive [OF rm nn(1)] m False by simp
        have "set_units s k = {}" using p(1) by (simp add: set_units_def)
        from rm.ledger_alloc [OF rm nn(1) _ l this] m False
        have l': "ledger (units mp) ((set_units s)(k := {i ..< i + n}))" by simp
        have "set_units ?s2 = (set_units s)(k := {i ..< i + n})"
          using p(2) ip un16 by (auto simp: set_units_def upd_set_sema fun_eq_iff)
        moreover have "rmap_ok mp" using rm.alloc_ok [OF rm nn(1)] m by simp
        moreover have "in_array (semmns (si s)) (units mp) ((set_units s)(k := {i ..< i + n}))"
        proof (rule in_array_take)
          show "in_array (semmns (si s)) (units (semmap s)) (set_units s)" using sets by (simp add: sets_ok_def)
          show "units mp \<union> {i ..< i + n} \<subseteq> units (semmap s)" using rm.alloc_run [OF rm nn(1)] m False by simp
        qed
        ultimately have "sets_ok ?s2"
          using sets l' sq un16 nn by (simp add: sets_ok_def sem_ids_ok_def upd_set_sema)
        moreover have "undo_ok ?s2" "vals_ok ?s2" using un by simp_all
        ultimately show ?thesis unfolding res sem_inv_def by simp
      qed
    qed
  qed
qed

section \<open>semctl\<close>

lemma semunrm_inv: "sem_inv s \<Longrightarrow> sem_inv (semunrm d low high s) \<and> si (semunrm d low high s) = si s"
proof -
  assume iv: "sem_inv s"
  then have ok: "undo_ok s" by (simp add: sem_inv_def)
  note U = semunrm_spec(1,2) [OF ok, of d low high]
  have "sets_ok (semunrm d low high s) = sets_ok s" using U(2) by (intro sets_ok_cong) (simp_all add: undo_frame_def)
  with U iv show ?thesis by (simp add: sem_inv_def undo_frame_def vals_ok_def)
qed

lemma sem_inv_val:
  assumes "sem_inv s" "0 \<le> v" "v \<le> semvmx (si s)"
  shows "sem_inv (upd_sem j (semval_update (\<lambda>_. v)) s)"
proof -
  have "sets_ok (upd_sem j (semval_update (\<lambda>_. v)) s) = sets_ok s" by (rule sets_ok_cong) simp_all
  with assms show ?thesis by (simp add: sem_inv_def vals_ok_def)
qed

lemma sem_assign_inv:
  assumes "sem_inv s" "0 \<le> u16 v" "u16 v \<le> semvmx (si s)"
  shows "sem_inv (sem_assign j v s) \<and> si (sem_assign j v s) = si s \<and> sema (sem_assign j v s) = sema s \<and>
    vals (sem_assign j v s) = (vals s)(j := u16 v)"
proof -
  let ?s = "upd_sem j (semval_update (\<lambda>_. u16 v)) s"
  have "sem_inv ?s" by (rule sem_inv_val [OF assms])
  moreover have "vals ?s = (vals s)(j := u16 v)" by (simp add: vals_def fun_eq_iff)
  moreover have "same_undo ?s (sem_assign j v s)" using wake_same by (simp add: sem_assign_def Let_def)
  ultimately show ?thesis
    using sem_inv_same [of ?s "sem_assign j v s"] same_sems_valsD [of ?s "sem_assign j v s"]
    by (simp add: same_undo_def same_sems_def)
qed

lemma set_pid_inv: "sem_inv s \<Longrightarrow> sem_inv (set_pid u j s) \<and> si (set_pid u j s) = si s \<and> sema (set_pid u j s) = sema s \<and>
    vals (set_pid u j s) = vals s"
  using sem_inv_same [OF _ cnt_same(3)] cnt_same(3) [of s u j] same_sems_valsD [of s "set_pid u j s"]
  by (simp add: same_undo_def same_sems_def)

lemma setall_inv:
  "sem_inv s \<Longrightarrow> \<forall>v \<in> set vs. 0 \<le> v \<and> v \<le> semvmx (si s) \<Longrightarrow>
   sem_inv (setall u j vs s) \<and> si (setall u j vs s) = si s \<and>
   vals (setall u j vs s) = (\<lambda>i. if j \<le> i \<and> i < j + length vs then vs ! (i - j) else vals s i)"
proof (induction vs arbitrary: j s)
  case (Cons v vs)
  have v: "u16 v = v" "0 \<le> v" "v \<le> semvmx (si s)"
    using Cons.prems by (simp_all add: u16_id sem_inv_def vals_ok_def)
  let ?s = "set_pid u j (sem_assign j v s)"
  have "sem_inv ?s \<and> si ?s = si s \<and> vals ?s = (vals s)(j := v)"
    using sem_assign_inv [OF Cons.prems(1), of v j] set_pid_inv [of "sem_assign j v s" u j] v by simp
  with Cons.IH [of ?s "Suc j"] Cons.prems(2) show ?case
    by (auto simp: fun_eq_iff nth_Cons' not_less_eq_eq Suc_le_eq)
qed (auto simp: fun_eq_iff)

lemma rmid_sems_spec:
  "sem_inv s \<Longrightarrow>
   sem_inv (rmid_sems n j s) \<and> si (rmid_sems n j s) = si s \<and> sema (rmid_sems n j s) = sema s \<and>
   semmap (rmid_sems n j s) = semmap s \<and> aoe_of (rmid_sems n j s) = aoe_of s \<and>
   vals (rmid_sems n j s) = (\<lambda>i. if j \<le> i \<and> i < j + n then 0 else vals s i)"
proof (induction n arbitrary: j s)
  case (Suc n)
  let ?s1 = "upd_sem j (\<lambda>p. p\<lparr>semval := 0, sempid := 0\<rparr>) s"
  let ?s = "wake_z j (wake_n j ?s1)"
  have u: "same_undo ?s1 ?s" using same_undo_trans [OF wake_same(1) wake_same(2)] .
  have "sets_ok ?s1 = sets_ok s" by (rule sets_ok_cong) simp_all
  with Suc.prems have "sem_inv ?s1" by (simp add: sem_inv_def vals_ok_def)
  then have "sem_inv ?s" using u by (rule sem_inv_same)
  moreover have "si ?s = si s" "sema ?s = sema s" "semmap ?s = semmap s" "aoe_of ?s = aoe_of s"
    using u by (simp_all add: same_undo_def same_sems_def)
  moreover have "vals ?s = (vals s)(j := 0)"
    using u same_sems_valsD [of ?s1 ?s] by (simp add: same_undo_def) (simp add: vals_def fun_eq_iff)
  ultimately show ?case using Suc.IH [of ?s "Suc j"] by (auto simp: fun_eq_iff)
qed (auto simp: fun_eq_iff)

lemma semctl_rmid_spec:
  assumes iv: "sem_inv s" and al: "ipc_alloc (sem_perm (sema s k))" and own: "sem_owner u (sem_perm (sema s k))"
  shows "\<exists>s'. semctl_rmid u d k s = (Ok 0, s') \<and> sem_inv s' \<and> si s' = si s \<and>
    \<not> ipc_alloc (sem_perm (sema s' k)) \<and> (\<forall>k'. k' \<noteq> k \<longrightarrow> sema s' k' = sema s k') \<and>
    p_seq (sem_perm (sema s' k)) = (if i32 (d + semmni (si s)) < 0 then 0 else u16 (p_seq (sem_perm (sema s k)) + 1)) \<and>
    (\<forall>p d' n. aoe_of s' p d' n = (if d' = d \<and> 0 \<le> n \<and> n \<le> sem_nsems (sema s k) then 0 else aoe_of s p d' n)) \<and>
    (\<forall>i. sem_base (sema s k) \<le> i \<and> i < sem_base (sema s k) + nat (sem_nsems (sema s k)) \<longrightarrow> vals s' i = 0) \<and>
    (\<forall>i. \<not> (sem_base (sema s k) \<le> i \<and> i < sem_base (sema s k) + nat (sem_nsems (sema s k))) \<longrightarrow> vals s' i = vals s i) \<and>
    units (semmap s') \<subseteq> units (semmap s) \<union> set_units s k"
proof -
  let ?n = "sem_nsems (sema s k)" and ?b = "sem_base (sema s k)"
  let ?s0 = "semunrm d 0 ?n s" and ?sq = "if i32 (d + semmni (si s)) < 0 then 0 else u16 (p_seq (sem_perm (sema s k)) + 1)"
  have ok: "undo_ok s" using iv by (simp add: sem_inv_def)
  note U = semunrm_spec [OF ok, of d 0 ?n]
  have i0: "sem_inv ?s0" "si ?s0 = si s" using semunrm_inv [OF iv] by simp_all
  have f0: "sema ?s0 = sema s" "semmap ?s0 = semmap s" "vals ?s0 = vals s" using U(2) by (simp_all add: undo_frame_def vals_def)
  let ?s1 = "rmid_sems (nat ?n) ?b ?s0"
  note R = rmid_sems_spec [OF i0(1), of "nat ?n" ?b]
  let ?mp = "fst (mfree ?n (int ?b + 1) (semmap s))"
  let ?f = "sem_perm_update (\<lambda>p. p\<lparr>p_seq := (if i32 (d + semmni (si s)) < 0 then 0 else u16 (p_seq p + 1)), p_mode := 0\<rparr>)"
  let ?s' = "upd_set k ?f (?s1\<lparr>semmap := ?mp\<rparr>)"
  have res: "semctl_rmid u d k s = (Ok 0, ?s')"
    using own R f0 i0 by (simp add: semctl_rmid_def Let_def comp_def)
  from iv have sets: "sets_ok s" by (simp add: sem_inv_def)
  then have rm: "rmap_ok (semmap s)" and l: "ledger (units (semmap s)) (set_units s)" by (simp_all add: sets_ok_def)
  have n: "0 < ?n" "?n \<le> 32767" using sets al by (simp_all add: sets_ok_def)
  have su: "set_units s k = {int ?b + 1 ..< int ?b + 1 + ?n}" using al by (simp add: set_units_def)
  from rm.ledger_release [OF rm _ l su] have rel: "rmap_ok ?mp" "ledger (units ?mp) ((set_units s)(k := {}))" by simp_all
  have su': "set_units ?s' = (set_units s)(k := {})"
    using R f0 by (simp add: set_units_def upd_set_sema fun_eq_iff mode_zero)
  have fu: "units ?mp \<subseteq> units (semmap s) \<union> set_units s k"
  proof -
    have "{int ?b + 1 ..< int ?b + 1 + ?n} \<inter> units (semmap s) = {}" using l su by (auto simp: ledger_def)
    then show ?thesis unfolding su using mfree_ok(2) [OF rm, of "int ?b + 1" ?n] by simp
  qed
  have "in_array (semmns (si s)) (units (semmap s)) (set_units s)" using sets by (simp add: sets_ok_def)
  from in_array_give [OF this fu] have "in_array (semmns (si s)) (units ?mp) ((set_units s)(k := {}))" .
  moreover note su'
  moreover have "0 \<le> ?sq" "?sq < 65536" using u16_range by (simp_all add: order_less_imp_le)
  ultimately have "sets_ok ?s'"
    using sets rel R f0 i0 mode_zero by (simp add: sets_ok_def sem_ids_ok_def upd_set_sema)
  moreover have "undo_ok ?s' = undo_ok ?s1" "vals_ok ?s' = vals_ok ?s1" "aoe_of ?s' = aoe_of ?s1" "vals ?s' = vals ?s1"
    by simp_all
  ultimately have "sem_inv ?s'" using R by (simp add: sem_inv_def)
  moreover have "aoe_of ?s' p d' m = (if d' = d \<and> 0 \<le> m \<and> m \<le> ?n then 0 else aoe_of s p d' m)" for p d' m
    using U(5) [of p d' m] R n \<open>aoe_of ?s' = aoe_of ?s1\<close> by (simp add: u16_id)
  moreover note fu
  ultimately show ?thesis
    using res R f0 i0 \<open>vals ?s' = vals ?s1\<close> mode_zero
    by (intro exI [of _ ?s']) (simp add: upd_set_sema)
qed

lemma alloc_or: "p_mode p = (m AND 0x1FF) OR IPC_ALLOC \<Longrightarrow> ipc_alloc p"
proof -
  assume "p_mode p = (m AND 0x1FF) OR IPC_ALLOC"
  then have "bit (p_mode p AND IPC_ALLOC) 15" by (simp add: bit_simps)
  then show ?thesis unfolding ipc_alloc_def by (metis bit_0_eq bot_apply bot_bool_def)
qed

lemma semctl_set_inv:
  assumes iv: "sem_inv s" and al: "ipc_alloc (sem_perm (sema s k))"
  shows "sem_inv (snd (semctl_set u k ds s)) \<and> si (snd (semctl_set u k ds s)) = si s"
proof -
  let ?f = "\<lambda>(ds :: semid_ds) (sp :: semid_ds). sp\<lparr>sem_perm := (sem_perm sp)\<lparr>p_uid := p_uid (sem_perm ds), p_gid := p_gid (sem_perm ds),
      p_mode := (p_mode (sem_perm ds) AND 0x1FF) OR IPC_ALLOC\<rparr>, sem_ctime := semnow s\<rparr>"
  have al': "ipc_alloc (sem_perm (?f d (sema s k)))" for d by (rule alloc_or) simp
  have "sets_ok (upd_set k (?f d) s)" for d
  proof -
    have "set_units (upd_set k (?f d) s) = set_units s"
      using al al' [of d] by (simp add: set_units_def upd_set_sema fun_eq_iff)
    then show ?thesis using iv al by (simp add: sem_inv_def sets_ok_def sem_ids_ok_def upd_set_sema)
  qed
  then have "sem_inv (upd_set k (?f d) s)" for d using iv by (simp add: sem_inv_def)
  then show ?thesis using iv by (simp add: semctl_set_def split: option.split)
qed

lemma u16_u32: "u32 x \<le> 32767 \<Longrightarrow> u16 x = u32 x"
proof -
  assume "u32 x \<le> 32767"
  have "u16 x = u32 x mod 65536" by (simp add: u16_def u32_def mod_mod_cancel)
  also have "\<dots> = u32 x" using \<open>u32 x \<le> 32767\<close> by (simp add: u32_def)
  finally show ?thesis .
qed

lemma assign_arg_inv:
  assumes iv: "sem_inv s" and v: "u32 arg \<le> semvmx (si s)"
  shows "sem_inv (set_pid u j (sem_assign j arg s)) \<and> si (set_pid u j (sem_assign j arg s)) = si s"
proof -
  have "semvmx (si s) \<le> 32767" using iv by (simp add: sem_inv_def vals_ok_def)
  then have "u16 arg = u32 arg" using v by (intro u16_u32) simp
  with sem_assign_inv [OF iv, of arg j] u16_range [of arg] v
  have "sem_inv (sem_assign j arg s) \<and> si (sem_assign j arg s) = si s" by simp
  with set_pid_inv [of "sem_assign j arg s" u j] show ?thesis by simp
qed

lemma semctl_setval_inv:
  assumes iv: "sem_inv s"
  shows "sem_inv (snd (semctl_setval u d k num arg s)) \<and> si (snd (semctl_setval u d k num arg s)) = si s"
proof -
  have "sem_inv (semunrm d x x (set_pid u j (sem_assign j arg s))) \<and> si (semunrm d x x (set_pid u j (sem_assign j arg s))) = si s"
    if "u32 arg \<le> semvmx (si s)" for j x
    using assign_arg_inv [OF iv that, of u j] semunrm_inv [of "set_pid u j (sem_assign j arg s)"] by simp
  with iv show ?thesis by (simp add: semctl_setval_def Let_def split: option.split)
qed

lemma shorts_range: "\<forall>v \<in> set (shorts_of bs). 0 \<le> v"
  by (induction bs rule: shorts_of.induct) auto

lemma semctl_setall_inv:
  assumes iv: "sem_inv s"
  shows "sem_inv (snd (semctl_setall u um d k a s)) \<and> si (snd (semctl_setall u um d k a s)) = si s"
proof -
  have "sem_inv (setall u b (shorts_of bs) (semunrm d 0 n s)) \<and> si (setall u b (shorts_of bs) (semunrm d 0 n s)) = si s"
    if "\<not> list_ex (\<lambda>v. v > semvmx (si s)) (shorts_of bs)" for b bs n
    using setall_inv [of "semunrm d 0 n s" "shorts_of bs" u b] semunrm_inv [OF iv, of d 0 n] shorts_range [of bs] that
    by (auto simp: list_ex_iff not_less)
  with iv show ?thesis by (simp add: semctl_setall_def split: option.split)
qed

lemma semconv_alloc: "semconv s d = Inr k \<Longrightarrow> ipc_alloc (sem_perm (sema s k))"
  by (auto simp: semconv_def Let_def split: if_splits)

lemma semctl_inv:
  assumes iv: "sem_inv s" and r: "semctl u um d num cmd arg ds wr s = (r, o', um', s')"
  shows "sem_inv s' \<and> si s' = si s"
proof (cases "semconv s d")
  case (Inl e)
  with r iv show ?thesis by (auto simp: semctl_def)
next
  case (Inr k)
  have al: "ipc_alloc (sem_perm (sema s k))" by (rule semconv_alloc [OF Inr])
  consider "s' = s" | "s' = snd (semctl_rmid u d k s)" | "s' = snd (semctl_set u k ds s)"
    | "s' = snd (semctl_setval u d k num arg s)" | "s' = snd (semctl_setall u um d k arg s)"
    using r Inr by (auto simp: semctl_def split: if_splits prod.splits option.splits)
  then show ?thesis
  proof cases
    case 2
    show ?thesis
    proof (cases "sem_owner u (sem_perm (sema s k))")
      case True
      from semctl_rmid_spec [OF iv al True, of d] obtain s1 where "semctl_rmid u d k s = (Ok 0, s1)" "sem_inv s1" "si s1 = si s"
        by blast
      with 2 show ?thesis by simp
    next
      case False
      with 2 iv show ?thesis by (simp add: semctl_rmid_def)
    qed
  next
    case 3
    with semctl_set_inv [OF iv al, of u ds] show ?thesis by simp
  next
    case 4
    with semctl_setval_inv [OF iv, of u d k num arg] show ?thesis by simp
  next
    case 5
    with semctl_setall_inv [OF iv, of u um d k arg] show ?thesis by simp
  qed (use iv in simp)
qed

section \<open>semexit\<close>

text \<open>What one entry does to the values: add it where the result is in range.\<close>

definition exit_idx :: "semst \<Rightarrow> undo \<Rightarrow> nat option" where
  "exit_idx s e = (case semconv s (un_id e) of Inl _ \<Rightarrow> None | Inr k \<Rightarrow> Some (sem_base (sema s k) + nat (un_num e)))"

definition clipped :: "int \<Rightarrow> int \<Rightarrow> int \<Rightarrow> int" where
  "clipped vmx v a = (if v + a < 0 \<or> v + a > vmx then v else v + a)"

lemma semconv_cong: "si s' = si s \<Longrightarrow> sema s' = sema s \<Longrightarrow> semconv s' = semconv s"
  by (simp add: semconv_def fun_eq_iff)

lemma exit_entry_spec:
  assumes iv: "sem_inv s"
  shows "sem_inv (exit_entry e s) \<and> si (exit_entry e s) = si s \<and> sema (exit_entry e s) = sema s \<and>
    semmap (exit_entry e s) = semmap s \<and> aoe_of (exit_entry e s) = aoe_of s \<and> undo_tab (exit_entry e s) = undo_tab s \<and>
    vals (exit_entry e s) = (case exit_idx s e of None \<Rightarrow> vals s
      | Some j \<Rightarrow> (vals s)(j := clipped (semvmx (si s)) (vals s j) (un_aoe e)))"
proof (cases "semconv s (un_id e)")
  case (Inl x)
  then show ?thesis using iv by (simp add: exit_entry_def exit_idx_def)
next
  case (Inr k)
  let ?j = "sem_base (sema s k) + nat (un_num e)"
  let ?v = "semval (sems s ?j) + un_aoe e"
  show ?thesis
  proof (cases "?v < 0 \<or> ?v > semvmx (si s)")
    case True
    then have "exit_entry e s = s" using Inr by (simp add: exit_entry_def Let_def)
    then show ?thesis using Inr True iv by (auto simp: exit_idx_def clipped_def vals_def fun_eq_iff)
  next
    case False
    have w: "u16 ?v = ?v" using False iv by (intro u16_id) (simp_all add: sem_inv_def vals_ok_def)
    let ?s1 = "upd_sem ?j (semval_update (\<lambda>_. ?v)) s"
    let ?s2 = "if ?v = 0 then wake_z ?j ?s1 else ?s1"
    let ?s3 = "if un_aoe e > 0 then wake_n ?j ?s2 else ?s2"
    have e: "exit_entry e s = ?s3" using Inr False w by (simp add: exit_entry_def Let_def)
    have "same_undo ?s1 ?s2" using wake_same(2) by (simp add: same_undo_def)
    then have u: "same_undo ?s1 ?s3" using same_undo_trans [OF _ wake_same(1)] by simp
    have "sem_inv ?s1" by (rule sem_inv_val [OF iv]) (use False in simp_all)
    then have "sem_inv ?s3" using u by (rule sem_inv_same)
    moreover have "vals ?s1 = (vals s)(?j := clipped (semvmx (si s)) (vals s ?j) (un_aoe e))"
      using False by (simp add: vals_def clipped_def fun_eq_iff)
    ultimately show ?thesis
      unfolding e using u same_sems_valsD [of ?s1 ?s3] Inr
      by (simp add: same_undo_def same_sems_def exit_idx_def)
  qed
qed

lemma exit_fold:
  "sem_inv s \<Longrightarrow>
   sem_inv (fold exit_entry es s) \<and> si (fold exit_entry es s) = si s \<and> sema (fold exit_entry es s) = sema s \<and>
   semmap (fold exit_entry es s) = semmap s \<and> aoe_of (fold exit_entry es s) = aoe_of s \<and>
   undo_tab (fold exit_entry es s) = undo_tab s \<and>
   (distinct (map (exit_idx s) (filter (\<lambda>e. exit_idx s e \<noteq> None) es)) \<longrightarrow>
    (\<forall>e j. e \<in> set es \<and> exit_idx s e = Some j \<longrightarrow> vals (fold exit_entry es s) j = clipped (semvmx (si s)) (vals s j) (un_aoe e)) \<and>
    (\<forall>j. Some j \<notin> exit_idx s ` set es \<longrightarrow> vals (fold exit_entry es s) j = vals s j))"
proof (induction es arbitrary: s)
  case (Cons e es)
  let ?s = "exit_entry e s"
  note E = exit_entry_spec [OF Cons.prems, of e]
  have ix: "exit_idx ?s = exit_idx s"
    using E semconv_cong [of ?s s] by (simp add: exit_idx_def fun_eq_iff split: sum.split)
  have ih: "sem_inv ?s" using E by simp
  show ?case
    using Cons.IH [OF ih] E unfolding ix
    by (cases "exit_idx s e") (auto simp: image_iff, metis option.distinct(1))
qed auto

lemma undo_ok_release:
  assumes ok: "undo_ok s" and own: "undo_tab s p = Some i" and e: "semu s i = []"
  shows "undo_ok (s\<lparr>semfup := i # semfup s, undo_tab := (undo_tab s)(p := None)\<rparr>)"
proof -
  note D = undo_okD [OF ok]
  let ?tab = "(undo_tab s)(p := None)"
  have "?tab q = Some j \<Longrightarrow> j \<notin> set (i # semfup s)" for q j
    using D(5) [of q j] D(6) [OF own, of q] by (auto split: if_splits)
  moreover have "?tab q = Some j \<Longrightarrow> ?tab q' = Some j \<Longrightarrow> q = q'" for q q' j
    using D(6) [of q j q'] by (auto split: if_splits)
  moreover have "\<exists>q. ?tab q = Some j" if "semu s j \<noteq> []" for j
  proof -
    obtain q where "undo_tab s q = Some j" using D(8) \<open>semu s j \<noteq> []\<close> by blast
    then show ?thesis using own e that by (intro exI [of _ q]) auto
  qed
  moreover have "distinct (i # semfup s)" using D(3) D(5) [OF own] by simp
  ultimately show ?thesis using ok unfolding undo_ok_def by (simp del: fun_upd_apply)
qed

lemma ents_release:
  assumes ok: "undo_ok s" and own: "undo_tab s p = Some i"
  shows "ents_of (s\<lparr>semu := (semu s)(i := []), semunp := a, semfup := b, undo_tab := (undo_tab s)(p := None)\<rparr>) q =
    (if q = p then [] else ents_of s q)"
proof -
  have "q \<noteq> p \<Longrightarrow> undo_tab s q \<noteq> Some i" using undo_okD(6) [OF ok own, of q] by blast
  then show ?thesis by (auto simp: ents_of_def split: option.split)
qed

text \<open>Process exit as a whole.\<close>

lemma semexit_spec:
  assumes iv: "sem_inv s"
  shows "sem_inv (semexit u s) \<and> si (semexit u s) = si s \<and> sema (semexit u s) = sema s \<and>
    undo_tab (semexit u s) (u_proc u) = None \<and>
    (\<forall>q. aoe_of (semexit u s) q = (if q = u_proc u then (\<lambda>_ _. 0) else aoe_of s q)) \<and>
    vals (semexit u s) = (case undo_tab s (u_proc u) of None \<Rightarrow> vals s
      | Some i \<Rightarrow> vals (fold exit_entry (rev (semu s i)) s))"
proof (cases "undo_tab s (u_proc u)")
  case None
  then show ?thesis using iv by (auto simp: semexit_def aoe_of_def ents_of_def fun_eq_iff)
next
  case (Some i)
  define s0 where "s0 = (if semu s i = [] then s else fold exit_entry (rev (semu s i)) s)"
  let ?s0 = s0
  let ?s1 = "?s0\<lparr>semu := (semu ?s0)(i := []), semunp := remove1 i (semunp ?s0)\<rparr>"
  let ?s2 = "?s1\<lparr>semfup := i # semfup ?s1, undo_tab := (undo_tab ?s1)(u_proc u := None)\<rparr>"
  note F = exit_fold [OF iv, of "rev (semu s i)"]
  have f: "sem_inv ?s0" "si ?s0 = si s" "sema ?s0 = sema s" "semmap ?s0 = semmap s" "aoe_of ?s0 = aoe_of s" "undo_tab ?s0 = undo_tab s"
    using F iv by (simp_all add: s0_def)
  then have ok0: "undo_ok ?s0" and own: "undo_tab ?s0 (u_proc u) = Some i" using Some by (simp_all add: sem_inv_def)
  note D = undo_okD [OF ok0]
  have act: "set (remove1 i (semunp ?s0)) = (if [] = [] then set (semunp ?s0) - {i} else insert i (set (semunp ?s0)))"
    "distinct (remove1 i (semunp ?s0))" using D(4) by simp_all
  have "ents_ok (semaem (si ?s0)) (semume (si ?s0)) []" using ok0 by (simp add: ents_ok_def undo_ok_def)
  from undo_ok_set_ents [OF ok0 own this act] have ok1: "undo_ok ?s1" .
  have ok2: "undo_ok ?s2" by (rule undo_ok_release [OF ok1]) (use own in simp_all)
  have ents: "ents_of ?s2 q = (if q = u_proc u then [] else ents_of ?s0 q)" for q
    using ents_release [OF ok0 own] by simp
  have e: "semexit u s = ?s2"
  proof (cases "semu s i = []")
    case True
    have "i \<notin> set (semunp s)" using D(7) [of i] True by (simp add: s0_def)
    then have "remove1 i (semunp s) = semunp s" by (rule remove1_idem)
    moreover have "(semu s)(i := []) = semu s" using True by (simp add: fun_upd_idem)
    ultimately show ?thesis using Some True by (simp add: semexit_def Let_def s0_def)
  next
    case False
    then show ?thesis using Some f(6) by (simp add: semexit_def Let_def set_ents_def s0_def)
  qed
  have "sets_ok ?s2 = sets_ok ?s0" by (rule sets_ok_cong) simp_all
  then have "sem_inv ?s2" using ok2 f(1) by (simp add: sem_inv_def vals_ok_def)
  moreover have "aoe_of ?s2 q = (if q = u_proc u then (\<lambda>_ _. 0) else aoe_of s q)" for q
    using ents [of q] f(5) by (simp add: aoe_of_def fun_eq_iff)
  moreover have "vals ?s2 = vals (fold exit_entry (rev (semu s i)) s)" by (simp add: vals_def s0_def)
  ultimately show ?thesis unfolding e using f Some by simp
qed

text \<open>Entries of one structure have different keys, and live entries different semaphores.\<close>

lemma ents_key_unique:
  "sorted_wrt key_less es \<Longrightarrow> e \<in> set es \<Longrightarrow> same_key d n e \<Longrightarrow> aoe_in es d n = un_aoe e \<and>
   (\<forall>e' \<in> set es. same_key d n e' \<longrightarrow> e' = e)"
proof (induction es)
  case (Cons x es)
  have later: "\<not> same_key d n y" if "same_key d n x" "y \<in> set es" for y
  proof -
    have "key_less x y" using Cons.prems(1) that(2) by simp
    with that(1) show ?thesis unfolding key_less_def before_def same_key_def by linarith
  qed
  show ?case
  proof (cases "same_key d n x")
    case True
    have only: "e' = x" if "e' \<in> set (x # es)" "same_key d n e'" for e'
      using that later [OF True] by (metis set_ConsD)
    then have "e = x" using Cons.prems(2,3) by blast
    then have "aoe_in (x # es) d n = un_aoe e" using True by simp
    moreover have "e' = e" if "e' \<in> set (x # es)" "same_key d n e'" for e'
      using only [OF that] \<open>e = x\<close> by simp
    ultimately show ?thesis by blast
  next
    case False
    then have e: "e \<in> set es" using Cons.prems(2,3) by auto
    have "sorted_wrt key_less es" using Cons.prems(1) by simp
    from Cons.IH [OF this e Cons.prems(3)]
    have ih: "aoe_in es d n = un_aoe e" "\<And>e'. e' \<in> set es \<Longrightarrow> same_key d n e' \<Longrightarrow> e' = e" by blast+
    have "aoe_in (x # es) d n = un_aoe e" using False ih(1) by simp
    moreover have "e' = e" if "e' \<in> set (x # es)" "same_key d n e'" for e'
      using that False ih(2) by (metis set_ConsD)
    ultimately show ?thesis by blast
  qed
qed simp

lemma sorted_key_distinct: "sorted_wrt key_less es \<Longrightarrow> distinct es"
  by (induction es) (auto simp: key_less_def before_def)

lemma live_idx_key:
  assumes iv: "sem_inv s" and k: "semconv s d = Inr k" "0 \<le> n" "n < sem_nsems (sema s k)"
    and k': "semconv s d' = Inr k'" "0 \<le> n'" "n' < sem_nsems (sema s k')"
    and eq: "sem_base (sema s k) + nat n = sem_base (sema s k') + nat n'"
  shows "d = d' \<and> n = n' \<and> k = k'"
proof -
  have al: "ipc_alloc (sem_perm (sema s k))" "ipc_alloc (sem_perm (sema s k'))"
    using semconv_alloc k(1) k'(1) by blast+
  let ?j = "int (sem_base (sema s k) + nat n) + 1"
  have "?j \<in> set_units s k" "?j \<in> set_units s k'"
    using al k k' eq by (auto simp: set_units_def)
  moreover have "k \<noteq> k' \<Longrightarrow> set_units s k \<inter> set_units s k' = {}"
    using iv by (simp add: sem_inv_def sets_ok_def ledger_def)
  ultimately have "k = k'" by blast
  moreover have "d = semid_of s k" "d' = semid_of s k'"
    using sid.conv_slot(3) [OF sem_inv_ids [OF iv]] k(1) k'(1) by blast+
  ultimately show ?thesis using eq k k' by simp
qed

lemma semexit_values:
  assumes iv: "sem_inv s" and i: "undo_tab s (u_proc u) = Some i"
    and ins: "\<And>e k. e \<in> set (semu s i) \<Longrightarrow> semconv s (un_id e) = Inr k \<Longrightarrow> 0 \<le> un_num e \<and> un_num e < sem_nsems (sema s k)"
    and k: "semconv s d = Inr k" "0 \<le> n" "n < sem_nsems (sema s k)"
  shows "vals (semexit u s) (sem_base (sema s k) + nat n) =
    clipped (semvmx (si s)) (vals s (sem_base (sema s k) + nat n)) (aoe_of s (u_proc u) d n)"
proof -
  let ?es = "semu s i" and ?j = "sem_base (sema s k) + nat n"
  have ok: "undo_ok s" using iv by (simp add: sem_inv_def)
  have eo: "sorted_wrt key_less ?es" "\<forall>e \<in> set ?es. un_aoe e \<noteq> 0"
    using undo_okD(9) [OF ok, of i] by (simp_all add: ents_ok_def)
  have key: "same_key d n e" if "e \<in> set ?es" "exit_idx s e = Some ?j" for e
  proof -
    from that(2) obtain k' where k': "semconv s (un_id e) = Inr k'" "?j = sem_base (sema s k') + nat (un_num e)"
      by (auto simp: exit_idx_def split: sum.splits)
    have "0 \<le> un_num e" "un_num e < sem_nsems (sema s k')" using ins [OF that(1) k'(1)] by simp_all
    from live_idx_key [OF iv k k'(1) this k'(2)] show ?thesis by (simp add: same_key_def)
  qed
  have inj: "e = e'" if e: "e \<in> set ?es" "e' \<in> set ?es" and x: "exit_idx s e = exit_idx s e'" "exit_idx s e \<noteq> None" for e e'
  proof -
    obtain k1 k2 where a: "semconv s (un_id e) = Inr k1" "semconv s (un_id e') = Inr k2"
      "sem_base (sema s k1) + nat (un_num e) = sem_base (sema s k2) + nat (un_num e')"
      using x by (auto simp: exit_idx_def split: sum.splits)
    have "un_id e = un_id e' \<and> un_num e = un_num e'"
      using live_idx_key [OF iv a(1) _ _ a(2) _ _ a(3)] ins [OF e(1) a(1)] ins [OF e(2) a(2)] by simp
    then have "same_key (un_id e) (un_num e) e" "same_key (un_id e) (un_num e) e'" by (simp_all add: same_key_def)
    with ents_key_unique [OF eo(1) e(1)] e(2) show ?thesis by auto
  qed
  have dist: "distinct (map (exit_idx s) (filter (\<lambda>e. exit_idx s e \<noteq> None) (rev ?es)))"
    using sorted_key_distinct [OF eo(1)] by (auto simp: distinct_map inj_on_def intro!: inj)
  note F = exit_fold [OF iv, of "rev ?es"]
  have v: "vals (semexit u s) = vals (fold exit_entry (rev ?es) s)" using semexit_spec [OF iv, of u] i by simp
  have aoe: "aoe_of s (u_proc u) d n = aoe_in ?es d n" using i by (simp add: aoe_of_def ents_of_def)
  show ?thesis
  proof (cases "\<exists>e \<in> set ?es. same_key d n e")
    case True
    then obtain e where e: "e \<in> set ?es" "same_key d n e" by blast
    then have "exit_idx s e = Some ?j" using k(1) by (simp add: exit_idx_def same_key_def)
    then have "vals (semexit u s) ?j = clipped (semvmx (si s)) (vals s ?j) (un_aoe e)"
      using F dist e(1) unfolding v by auto
    then show ?thesis using ents_key_unique [OF eo(1) e] aoe by simp
  next
    case False
    then have "Some ?j \<notin> exit_idx s ` set (rev ?es)" using key by (metis imageE set_rev)
    then have "vals (semexit u s) ?j = vals s ?j" using F dist unfolding v by blast
    moreover have "aoe_in ?es d n = 0" by (rule aoe_in_none) (use False in blast)
    ultimately show ?thesis using aoe by (simp add: clipped_def)
  qed
qed

section \<open>Boot and reachable states\<close>

lemma seminit_inv:
  assumes "0 < semmni c" "semmni c \<le> 32768" "semmsl c \<le> 32767" "2 \<le> mi_semmap c"
    "0 \<le> semvmx c" "semvmx c \<le> 32767" "0 \<le> semaem c" "semaem c \<le> 16384" "0 \<le> semume c"
  shows "sem_inv (seminit c t)"
proof -
  have "rmap_ok (semmap (seminit c t))"
    using mfree_ok(1) [of "mapinit (mi_semmap c)" 1 "semmns c"] mapinit_ok [OF assms(4)]
    by (simp add: seminit_def)
  moreover have "units (semmap (seminit c t)) \<subseteq> {1..semmns c}"
    using mfree_ok(2) [of "mapinit (mi_semmap c)" 1 "semmns c"] mapinit_ok [OF assms(4)]
    by (auto simp: seminit_def)
  moreover have "set_units (seminit c t) = (\<lambda>_. {})" by (simp add: set_units_def seminit_def ipc_alloc_def fun_eq_iff)
  ultimately have "sets_ok (seminit c t)"
    using assms by (simp add: sets_ok_def sem_ids_ok_def ledger_def in_array_def) (simp add: seminit_def ipc_alloc_def)
  then show ?thesis
    using assms by (simp add: sem_inv_def undo_ok_def vals_ok_def) (simp add: seminit_def ents_ok_def)
qed

text \<open>
  A sleeping \<open>semop\<close> keeps its arguments, the set and the channel. The list it finds in the
  user's memory when it wakes names semaphores of its set.
\<close>

datatype sparked = SPark user int int int nat schan

definition list_within :: "semst \<Rightarrow> umem \<Rightarrow> int \<Rightarrow> int \<Rightarrow> nat \<Rightarrow> bool" where
  "list_within s um a n k = (case copyin um a (6 * nat (u32 n)) of None \<Rightarrow> True
     | Some bs \<Rightarrow> list_all (\<lambda>op. sem_num op < sem_nsems (sema s k)) (semops_of bs))"

inductive sem_reach :: "semst \<Rightarrow> semst \<Rightarrow> sparked list \<Rightarrow> bool" for s0 where
  boot: "sem_reach s0 s0 []"
| call: "sem_reach s0 s ps \<Longrightarrow> semsys_call u um c arg ds wr s = (r, um', s') \<Longrightarrow>
    sem_reach s0 s' (case r of Return _ \<Rightarrow> ps
      | Sleeping ch \<Rightarrow> SPark u (arg 1) (arg 2) (arg 3) (case semconv s (arg 1) of Inr k \<Rightarrow> k | Inl _ \<Rightarrow> 0) ch # ps)"
| resume: "sem_reach s0 s ps \<Longrightarrow> SPark u d a n k ch \<in> set ps \<Longrightarrow> list_within s um a n k \<Longrightarrow> semop_resume intr ch u um d a n k s = (r, s') \<Longrightarrow>
    sem_reach s0 s' (case r of Return _ \<Rightarrow> remove1 (SPark u d a n k ch) ps
      | Sleeping ch' \<Rightarrow> SPark u d a n k ch' # remove1 (SPark u d a n k ch) ps)"
| exit: "sem_reach s0 s ps \<Longrightarrow> sem_reach s0 (semexit u s) ps"
| tick: "sem_reach s0 s ps \<Longrightarrow> sem_reach s0 (s\<lparr>semnow := t\<rparr>) ps"

lemma semsys_call_inv:
  assumes iv: "sem_inv s" and r: "semsys_call u um c arg ds wr s = (r, um', s')"
  shows "sem_inv s' \<and> si s' = si s"
proof -
  consider "s' = s" | o' where "semctl u um (arg 1) (arg 2) (arg 3) (arg 4) ds wr s = (r, o', um', s')"
    | "s' = snd (semget u (arg 1) (arg 2) (word_of_int (arg 3)) s)"
    | "s' = snd (semop u um (arg 1) (arg 2) (arg 3) s)"
    using r by (auto simp: semsys_call_def split: if_splits prod.splits)
  then show ?thesis
  proof cases
    case 2
    with semctl_inv [OF iv] show ?thesis by blast
  qed (use iv semget_inv [OF iv] semop_inv [OF iv] in simp_all)
qed

lemma sem_inv_tick: "sem_inv s \<Longrightarrow> sem_inv (s\<lparr>semnow := t\<rparr>)"
proof -
  assume "sem_inv s"
  moreover have "sets_ok (s\<lparr>semnow := t\<rparr>) = sets_ok s" by (rule sets_ok_cong) simp_all
  ultimately show ?thesis by (simp add: sem_inv_def undo_ok_def vals_ok_def)
qed

lemma semget_seq: "p_seq (sem_perm (sema (snd (semget u key n fl s)) k)) = p_seq (sem_perm (sema s k))"
proof (cases "ipcget u key fl (\<lambda>i. sem_perm (sema s i)) (nat (semmni (si s)))")
  case (Inr x)
  obtain st i p where x: "x = (st, i, p)" by (cases x) auto
  have "p_seq p = p_seq (sem_perm (sema s i))"
    using ipcget_ans [of u key fl "\<lambda>i. sem_perm (sema s i)" "nat (semmni (si s))"] Inr x
    by (cases st) (auto simp: ipcget_post_def ipc_init_def)
  then show ?thesis using Inr x by (simp add: semget_def Let_def upd_set_def split: prod.split)
qed (simp add: semget_def)

section \<open>Adjustments name semaphores of live sets\<close>

definition undo_in :: "semst \<Rightarrow> bool" where
  "undo_in s = (\<forall>p d n. aoe_of s p d n \<noteq> 0 \<longrightarrow> (\<exists>k. semconv s d = Inr k \<and> 0 \<le> n \<and> n < sem_nsems (sema s k)))"

text \<open>Live sets stay as they are, and no adjustment appears.\<close>

definition sets_kept :: "semst \<Rightarrow> semst \<Rightarrow> bool" where
  "sets_kept s s' = (si s' = si s \<and> (\<forall>k. ipc_alloc (sem_perm (sema s k)) \<longrightarrow> ipc_alloc (sem_perm (sema s' k)) \<and>
     p_seq (sem_perm (sema s' k)) = p_seq (sem_perm (sema s k)) \<and> sem_nsems (sema s' k) = sem_nsems (sema s k)))"

lemma sets_kept_conv:
  assumes "sets_kept s s'" "semconv s d = Inr k"
  shows "semconv s' d = Inr k" "sem_nsems (sema s' k) = sem_nsems (sema s k)"
  using assms by (auto simp: sets_kept_def semconv_def Let_def split: if_splits)

lemma undo_in_keep:
  assumes u: "undo_in s" and k: "sets_kept s s'" and a: "\<And>p d n. aoe_of s' p d n \<noteq> 0 \<Longrightarrow> aoe_of s p d n \<noteq> 0"
  shows "undo_in s'"
  unfolding undo_in_def
proof (intro allI impI)
  fix p d n assume "aoe_of s' p d n \<noteq> 0"
  with a u obtain j where j: "semconv s d = Inr j" "0 \<le> n" "n < sem_nsems (sema s j)" unfolding undo_in_def by blast
  with sets_kept_conv [OF k j(1)] show "\<exists>k. semconv s' d = Inr k \<and> 0 \<le> n \<and> n < sem_nsems (sema s' k)" by auto
qed

lemma same_undo_in: "undo_in s \<Longrightarrow> same_undo s s' \<Longrightarrow> undo_in s'"
  by (rule undo_in_keep [of s s']) (simp_all add: same_undo_def same_sems_def sets_kept_def)

lemma bytes_short_range: "0 \<le> bytes_short bs"
  by (induction bs rule: bytes_short.induct) auto

lemma semops_num: "op \<in> set (semops_of bs) \<Longrightarrow> 0 \<le> sem_num op"
  by (induction bs rule: semops_of.induct) (auto simp: bytes_short_range simp del: bytes_short.simps)

lemma adj_sum_nonzero: "adj_sum n ops \<noteq> 0 \<Longrightarrow> \<exists>op \<in> set ops. s16 (sem_num op) = n"
  by (induction ops) (auto split: if_splits)

lemma semop_check_nums: "semop_check u sp ops = None \<Longrightarrow> list_all (\<lambda>op. sem_num op < sem_nsems sp) ops"
  by (induction ops) (auto split: option.splits if_splits)

lemma semop_pass_in:
  assumes iv: "sem_inv s" and un: "undo_in s" and k: "semconv s d = Inr k"
    and ops: "list_all (\<lambda>op. sem_num op < sem_nsems (sema s k)) (semops_of bs)"
    and r: "semop_pass u d k (semops_of bs) s = (r, s')"
  shows "undo_in s'"
proof -
  from iv have ok: "undo_ok s" "vals_ok s" and sets: "sets_ok s" by (simp_all add: sem_inv_def)
  note S = semop_pass_spec [OF ok semops_typed r]
  have kept: "sets_kept s s'" using S by (simp add: sets_kept_def)
  have live: "ipc_alloc (sem_perm (sema s k))" by (rule semconv_alloc [OF k])
  have num: "0 \<le> n \<and> n < sem_nsems (sema s k)" if nz: "adj_sum n (semops_of bs) \<noteq> 0" for n
  proof -
    obtain op where op: "op \<in> set (semops_of bs)" "s16 (sem_num op) = n" using adj_sum_nonzero [OF nz] by blast
    have "0 \<le> sem_num op" "sem_num op < sem_nsems (sema s k)" using semops_num [OF op(1)] ops op(1) by (simp_all add: list_all_iff)
    moreover have "sem_nsems (sema s k) \<le> 32767" using sets live by (simp add: sets_ok_def)
    ultimately show ?thesis using op(2) by (simp add: s16_id)
  qed
  have aoe: "aoe_of s p d' n \<noteq> 0 \<or> d' = d \<and> adj_sum n (semops_of bs) \<noteq> 0" if "aoe_of s' p d' n \<noteq> 0" for p d' n
    using S that by (auto simp: pass_spec_def split: outcome.splits sum.splits if_splits)
  show ?thesis
    unfolding undo_in_def
  proof (intro allI impI)
    fix p d' n assume "aoe_of s' p d' n \<noteq> 0"
    from aoe [OF this] obtain j where "semconv s d' = Inr j" "0 \<le> n" "n < sem_nsems (sema s j)"
      using un num k unfolding undo_in_def by blast
    with sets_kept_conv [OF kept this(1)] show "\<exists>k. semconv s' d' = Inr k \<and> 0 \<le> n \<and> n < sem_nsems (sema s' k)" by auto
  qed
qed

lemma semop_in: "sem_inv s \<Longrightarrow> undo_in s \<Longrightarrow> undo_in (snd (semop u um d a n s))"
  by (auto simp: semop_def split: sum.splits option.splits)
    (metis semop_pass_in semop_check_nums prod.collapse)

lemma semop_resume_in:
  assumes "sem_inv s" "undo_in s" "list_within s um a n k" "semconv s d = Inr k \<or> (\<exists>e. semconv s d = Inl e)"
  shows "undo_in (snd (semop_resume intr c u um d a n k s))"
proof -
  have "undo_in (semop_intr c s)" by (rule same_undo_in [OF assms(2) semop_intr_same])
  moreover have "undo_in (snd (semop_pass u d k (semops_of bs) s))"
    if "semconv s d = Inr k" "copyin um a (6 * nat (u32 n)) = Some bs" for bs
    using semop_pass_in [OF assms(1,2) that(1)] assms(3) that(2) by (simp add: list_within_def) (metis prod.collapse)
  ultimately show ?thesis using assms(2,4) by (auto simp: semop_resume_def split: sum.splits option.splits)
qed

lemma semget_in:
  assumes "sem_inv s" "undo_in s"
  shows "undo_in (snd (semget u key n fl s))"
proof (cases "ipcget u key fl (\<lambda>i. sem_perm (sema s i)) (nat (semmni (si s)))")
  case (Inl e)
  then show ?thesis using assms(2) by (simp add: semget_def)
next
  case (Inr x)
  obtain st k p where x: "x = (st, k, p)" by (cases x) auto
  have post: "ipcget_post u key fl (\<lambda>i. sem_perm (sema s i)) (nat (semmni (si s))) (Inr (st, k, p))"
    using ipcget_ans [of u key fl "\<lambda>i. sem_perm (sema s i)" "nat (semmni (si s))"] Inr x by simp
  have "sets_kept s (snd (semget u key n fl s)) \<and> aoe_of (snd (semget u key n fl s)) = aoe_of s"
  proof (cases st)
    case False
    with post have "p = sem_perm (sema s k)" by (simp add: ipcget_post_def)
    then have "upd_set k (sem_perm_update (\<lambda>_. p)) s = s" by (simp add: upd_set_def)
    then show ?thesis using Inr x False by (simp add: semget_def Let_def sets_kept_def)
  next
    case True
    with post have "\<not> ipc_alloc (sem_perm (sema s k))" by (auto simp: ipcget_post_def least_free_def)
    then show ?thesis using Inr x True by (auto simp: semget_def Let_def sets_kept_def upd_set_sema split: prod.split)
  qed
  then show ?thesis by (intro undo_in_keep [OF assms(2)]) simp_all
qed

lemma semunrm_aoe:
  assumes "sem_inv s"
  shows "aoe_of (semunrm d low high s) p d' n \<noteq> 0 \<Longrightarrow> aoe_of s p d' n \<noteq> 0"
    "sema (semunrm d low high s) = sema s" "si (semunrm d low high s) = si s"
proof -
  have ok: "undo_ok s" using assms by (simp add: sem_inv_def)
  show "aoe_of (semunrm d low high s) p d' n \<noteq> 0 \<Longrightarrow> aoe_of s p d' n \<noteq> 0"
    using semunrm_spec(5) [OF ok, of d low high p d' n] by (simp split: if_splits)
  show "sema (semunrm d low high s) = sema s" "si (semunrm d low high s) = si s"
    using semunrm_spec(2) [OF ok, of d low high] by (simp_all add: undo_frame_def)
qed

lemma semunrm_in: "sem_inv s \<Longrightarrow> undo_in s \<Longrightarrow> undo_in (semunrm d low high s)"
  by (rule undo_in_keep [of s]) (auto simp: sets_kept_def semunrm_aoe)

lemma upd_sem_in: "undo_in (upd_sem j f s) = undo_in s"
  by (simp add: undo_in_def semconv_def Let_def)

lemma assign_in: "undo_in s \<Longrightarrow> undo_in (set_pid u j (sem_assign j v s))"
proof -
  let ?s = "upd_sem j (semval_update (\<lambda>_. u16 v)) s"
  assume "undo_in s"
  then have "undo_in ?s" by (simp add: upd_sem_in)
  moreover have "same_undo ?s (sem_assign j v s)" using wake_same by (simp add: sem_assign_def Let_def)
  ultimately show ?thesis by (metis same_undo_in cnt_same(3))
qed

lemma setall_in: "undo_in s \<Longrightarrow> undo_in (setall u j vs s)"
  by (induction vs arbitrary: j s) (simp_all add: assign_in)

lemma semctl_rmid_in:
  assumes iv: "sem_inv s" and un: "undo_in s" and k: "semconv s d = Inr k"
  shows "undo_in (snd (semctl_rmid u d k s))"
proof (cases "sem_owner u (sem_perm (sema s k))")
  case False
  then show ?thesis using un by (simp add: semctl_rmid_def)
next
  case True
  from semctl_rmid_spec [OF iv semconv_alloc [OF k] True, of d] obtain s' where
    s': "semctl_rmid u d k s = (Ok 0, s')" "si s' = si s" "\<forall>k'. k' \<noteq> k \<longrightarrow> sema s' k' = sema s k'"
      "\<forall>p d' n. aoe_of s' p d' n = (if d' = d \<and> 0 \<le> n \<and> n \<le> sem_nsems (sema s k) then 0 else aoe_of s p d' n)" by blast
  have "undo_in s'"
    unfolding undo_in_def
  proof (intro allI impI)
    fix p d' n assume nz: "aoe_of s' p d' n \<noteq> 0"
    then have old: "aoe_of s p d' n \<noteq> 0" and out: "\<not> (d' = d \<and> 0 \<le> n \<and> n \<le> sem_nsems (sema s k))"
      using s'(4) by (simp_all split: if_splits)
    from un old obtain j where j: "semconv s d' = Inr j" "0 \<le> n" "n < sem_nsems (sema s j)" unfolding undo_in_def by blast
    have "d' \<noteq> d" using out j k by auto
    moreover have "d' = semid_of s j" "d = semid_of s k"
      using sid.conv_slot(3) [OF sem_inv_ids [OF iv]] j(1) k by blast+
    ultimately have "j \<noteq> k" by blast
    with s'(3) have "sema s' j = sema s j" by simp
    moreover have "j = nat (d' mod semmni (si s))" using j(1) by (auto simp: semconv_def Let_def split: if_splits)
    ultimately have "semconv s' d' = semconv s d'" using s'(2) by (simp add: semconv_def Let_def)
    with j \<open>sema s' j = sema s j\<close> show "\<exists>k. semconv s' d' = Inr k \<and> 0 \<le> n \<and> n < sem_nsems (sema s' k)" by auto
  qed
  with s'(1) show ?thesis by simp
qed

lemma semctl_set_in:
  assumes "undo_in s"
  shows "undo_in (snd (semctl_set u k ds s))"
proof -
  have "ipc_alloc (p\<lparr>p_uid := a, p_gid := b, p_mode := (m AND 0x1FF) OR IPC_ALLOC\<rparr>)" for p a b and m :: "16 word"
    by (rule alloc_or) simp
  then have "sets_kept s (snd (semctl_set u k ds s))"
    by (auto simp: semctl_set_def sets_kept_def upd_set_sema split: option.split)
  then show ?thesis by (rule undo_in_keep [OF assms]) (simp add: semctl_set_def split: if_splits option.splits)
qed

lemma semctl_in:
  assumes iv: "sem_inv s" "undo_in s" and r: "semctl u um d num cmd arg ds wr s = (r, o', um', s')"
  shows "undo_in s'"
proof (cases "semconv s d")
  case (Inl e)
  with r iv show ?thesis by (auto simp: semctl_def)
next
  case (Inr k)
  have v: "undo_in (snd (semctl_setval u d k num arg s))"
    using iv assign_arg_inv [OF iv(1), of arg u]
    by (auto simp: semctl_setval_def Let_def split: option.split intro!: semunrm_in assign_in)
  have a: "undo_in (snd (semctl_setall u um d k arg s))"
    using iv by (auto simp: semctl_setall_def split: option.split intro!: semunrm_in setall_in)
  consider "s' = s" | "s' = snd (semctl_rmid u d k s)" | "s' = snd (semctl_set u k ds s)"
    | "s' = snd (semctl_setval u d k num arg s)" | "s' = snd (semctl_setall u um d k arg s)"
    using r Inr by (auto simp: semctl_def split: if_splits prod.splits option.splits)
  then show ?thesis
    using iv v a semctl_rmid_in [OF iv Inr, of u] semctl_set_in [OF iv(2), of u k ds] by cases simp_all
qed

lemma semsys_call_in:
  assumes iv: "sem_inv s" "undo_in s" and r: "semsys_call u um c arg ds wr s = (r, um', s')"
  shows "undo_in s'"
proof -
  consider "s' = s" | o' where "semctl u um (arg 1) (arg 2) (arg 3) (arg 4) ds wr s = (r, o', um', s')"
    | "s' = snd (semget u (arg 1) (arg 2) (word_of_int (arg 3)) s)"
    | "s' = snd (semop u um (arg 1) (arg 2) (arg 3) s)"
    using r by (auto simp: semsys_call_def split: if_splits prod.splits)
  then show ?thesis
  proof cases
    case 2
    with semctl_in [OF iv] show ?thesis by blast
  qed (use iv semget_in [OF iv] semop_in [OF iv] in simp_all)
qed

lemma semexit_in: "sem_inv s \<Longrightarrow> undo_in s \<Longrightarrow> undo_in (semexit u s)"
  using semexit_spec [of s u] by (intro undo_in_keep [of s "semexit u s"]) (auto simp: sets_kept_def split: if_splits)

lemma tick_in: "undo_in s \<Longrightarrow> undo_in (s\<lparr>semnow := t\<rparr>)"
  by (rule undo_in_keep [of s]) (simp_all add: sets_kept_def aoe_of_def ents_of_def split: option.splits)

lemma seminit_in: "undo_in (seminit c t)"
  by (simp add: undo_in_def seminit_def aoe_of_def ents_of_def)

section \<open>The invariant in every reachable state\<close>

text \<open>Only a \<open>semop\<close> on a live set sleeps, so the slot it keeps is that of its identifier.\<close>

lemma semsys_sleep_live:
  assumes "semsys_call u um c arg ds wr s = (Sleeping ch, um', s')"
  shows "\<exists>k. semconv s (arg 1) = Inr k"
proof (cases "semconv s (arg 1)")
  case (Inl e)
  have "fst (semget u (arg 1) (arg 2) (word_of_int (arg 3)) s) \<noteq> Sleeping ch"
    by (auto simp: semget_def Let_def split: sum.split prod.split)
  with assms Inl show ?thesis by (auto simp: semsys_call_def semctl_def semop_def split: if_splits prod.splits)
qed simp

definition parked_slots :: "semst \<Rightarrow> sparked list \<Rightarrow> bool" where
  "parked_slots s ps = (\<forall>u d a n k ch. SPark u d a n k ch \<in> set ps \<longrightarrow> k = nat (d mod semmni (si s)))"

lemma semconv_slot: "semconv s d = Inr k \<Longrightarrow> k = nat (d mod semmni (si s))"
  by (auto simp: semconv_def Let_def split: if_splits)

lemma parked_slots_cong: "si s' = si s \<Longrightarrow> parked_slots s' ps = parked_slots s ps"
  by (simp add: parked_slots_def)

lemma sem_reach_inv:
  assumes "sem_reach s0 s ps" "sem_inv s0" "undo_in s0"
  shows "sem_inv s \<and> undo_in s \<and> si s = si s0 \<and> parked_slots s ps"
  using assms(1)
proof (induction rule: sem_reach.induct)
  case boot
  then show ?case using assms(2,3) by (simp add: parked_slots_def)
next
  case (call s ps u um c arg ds wr r um' s')
  have "si s' = si s" using call semsys_call_inv [of s u um c arg ds wr r um' s'] by simp
  moreover from this have "parked_slots s' ps = parked_slots s ps" by (rule parked_slots_cong)
  moreover have "k = nat (arg 1 mod semmni (si s))" if "r = Sleeping ch" "semconv s (arg 1) = Inr k" for ch k
    using semconv_slot [OF that(2)] .
  ultimately show ?case
    using call semsys_call_inv [of s u um c arg ds wr r um' s'] semsys_call_in [of s u um c arg ds wr r um' s']
      semsys_sleep_live [of u um c arg ds wr s _ um' s']
    by (fastforce simp: parked_slots_def split: outcome.split)
next
  case (resume s ps u d a n k ch um intr r s')
  from resume.IH resume.hyps(2) have k: "k = nat (d mod semmni (si s))" unfolding parked_slots_def by blast
  then have conv: "semconv s d = Inr k \<or> (\<exists>e. semconv s d = Inl e)"
    using semconv_slot [of s d] by (cases "semconv s d") auto
  have "sem_inv s'" "si s' = si s" "undo_in s'"
    using resume semop_resume_inv [of s intr ch u um d a n k] semop_resume_in [OF _ _ resume.hyps(3) conv, of intr ch u] by simp_all
  moreover have "parked_slots s' (remove1 x ps)" for x
    using resume.IH \<open>si s' = si s\<close> set_remove1_subset [of x ps] unfolding parked_slots_def by fastforce
  moreover have "parked_slots s' (SPark u d a n k ch' # remove1 x ps)" for x ch'
    using calculation(4) [of x] k \<open>si s' = si s\<close> by (auto simp: parked_slots_def)
  ultimately show ?case using resume.IH by (simp split: outcome.split)
next
  case (exit s ps u)
  with semexit_spec [of s u] semexit_in [of s u] parked_slots_cong [of "semexit u s" s ps] show ?case by simp
next
  case (tick s ps t)
  with sem_inv_tick [of s t] tick_in [of s t] parked_slots_cong [of "s\<lparr>semnow := t\<rparr>" s ps] show ?case by simp
qed

text \<open>Every entry of a process names a semaphore of the live set it belongs to.\<close>

lemma undo_in_ents:
  assumes iv: "sem_inv s" "undo_in s" and i: "undo_tab s p = Some i" and e: "e \<in> set (semu s i)" "semconv s (un_id e) = Inr k"
  shows "0 \<le> un_num e \<and> un_num e < sem_nsems (sema s k)"
proof -
  have ok: "undo_ok s" using iv(1) by (simp add: sem_inv_def)
  have eo: "sorted_wrt key_less (semu s i)" "\<forall>e \<in> set (semu s i). un_aoe e \<noteq> 0"
    using undo_okD(9) [OF ok, of i] by (simp_all add: ents_ok_def)
  have "aoe_in (semu s i) (un_id e) (un_num e) = un_aoe e"
    using ents_key_unique [OF eo(1) e(1)] by (simp add: same_key_def)
  then have "aoe_of s p (un_id e) (un_num e) \<noteq> 0" using i e(1) eo(2) by (simp add: aoe_of_def ents_of_def)
  with iv(2) e(2) show ?thesis unfolding undo_in_def by fastforce
qed

end
