(* ===== verification/Sem_Props.thy ===== *)
theory Sem_Props
  imports Sem_Reach
begin

text \<open>The properties of the semaphore component, with their witnesses.\<close>

section \<open>Properties\<close>

text \<open>A small system with one set of two semaphores, and a process with a list of operations.\<close>

definition sdemo_user :: user where
  "sdemo_user = \<lparr>u_uid = 0, u_gid = 0, u_pid = 4, u_proc = 2\<rparr>"

definition sdemo_cfg :: seminfo where
  "sdemo_cfg = \<lparr>mi_semmap = 10, semmni = 4, semmns = 8, semmnu = 2, semmsl = 5, semopm = 4, semume = 3,
     semvmx = 100, semaem = 50\<rparr>"

definition sdemo :: semst where
  "sdemo = snd (semget sdemo_user 7 2 0x380 (seminit sdemo_cfg 0))"

text \<open>At 0 the list (1, +3, SEM_UNDO), at 6 the list (2, +1, 0): number 2 is beyond the set.\<close>

definition sdemo_mem :: umem where
  "sdemo_mem = (\<lambda>i. if i < 0 \<or> i > 11 then None
     else Some (if i = 1 then 1 else if i = 3 then 3 else if i = 4 then 0x10 else if i = 7 then 2 else if i = 9 then 1 else 0))"

definition sdemo_up :: semst where
  "sdemo_up = snd (semop sdemo_user sdemo_mem 0 0 1 sdemo)"

lemma sdemo_inv: "sem_inv sdemo"
proof -
  have "sem_inv (seminit sdemo_cfg 0)" by (rule seminit_inv) (simp_all add: sdemo_cfg_def)
  then show ?thesis using semget_inv unfolding sdemo_def by blast
qed

lemma sdemo_in: "undo_in sdemo"
proof -
  have "sem_inv (seminit sdemo_cfg 0)" by (rule seminit_inv) (simp_all add: sdemo_cfg_def)
  then show ?thesis using semget_in [OF _ seminit_in] unfolding sdemo_def by blast
qed

lemma sdemo_up_inv: "sem_inv sdemo_up"
  using semop_inv [OF sdemo_inv] unfolding sdemo_up_def by blast

lemma sdemo_up_in: "undo_in sdemo_up"
  using semop_in [OF sdemo_inv sdemo_in] unfolding sdemo_up_def by blast

lemma sdemo_up_result: "semop sdemo_user sdemo_mem 0 0 1 sdemo = (Ok 0, sdemo_up)"
proof -
  have "fst (semop sdemo_user sdemo_mem 0 0 1 sdemo) = Ok 0" by code_simp
  then show ?thesis by (simp add: sdemo_up_def prod_eq_iff)
qed

text \<open>
  C4: a \<open>semop\<close> is atomic. When it succeeds, every operation was allowed by its set, and the
  values are those of performing the list in order (each addition within semvmx, each subtraction
  covered, each zero test passed), with the adjustments of the calling process reduced by exactly
  the operations marked SEM_UNDO; when it fails or sleeps, no value and no adjustment of any
  process has changed, and it sleeps only when the list cannot be performed.
\<close>

theorem semop_atomic:
  assumes "sem_inv s" "semop u um d a n s = (r, s')"
  shows "(s' = s \<and> (\<exists>e. r = Fail e)) \<or>
    (\<exists>k bs. semconv s d = Inr k \<and> copyin um a (6 * nat (u32 n)) = Some bs \<and>
       semop_check u (sema s k) (semops_of bs) = None \<and> pass_spec u d k (semops_of bs) s r s')"
proof -
  from assms(1) have ok: "undo_ok s" "vals_ok s" by (simp_all add: sem_inv_def)
  have "pass_spec u d k (semops_of bs) s r s'" if "semop_pass u d k (semops_of bs) s = (r, s')" for k bs
    using semop_pass_spec [OF ok semops_typed that] by blast
  with assms(2) show ?thesis
    by (auto simp: semop_def split: sum.splits option.splits if_splits)
qed

theorem semop_atomic_witness:
  "\<exists>bs. copyin sdemo_mem 0 6 = Some bs \<and> pass_spec sdemo_user 0 0 (semops_of bs) sdemo (Ok 0) sdemo_up"
proof -
  have c: "semconv sdemo 0 = Inr 0" by code_simp
  from semop_atomic [OF sdemo_inv sdemo_up_result] c show ?thesis by (auto simp: u32_def)
qed

text \<open>
  \<open>semaoe\<close> is exact and reversible. A successful call subtracts its value from one adjustment of
  the calling process, all others untouched; the opposite call then succeeds (the structure, the
  room and the range are there) and restores every adjustment of every process.
\<close>

theorem semaoe_reversible:
  assumes "undo_ok s" "semaoe u v d n s = (None, s')"
  shows "(\<forall>q d' n'. aoe_of s' q d' n' = aoe_of s q d' n' - (if q = u_proc u \<and> d' = d \<and> n' = n then v else 0)) \<and>
    (\<exists>s''. semaoe u (- v) d n s' = (None, s'') \<and> undo_ok s'' \<and> aoe_of s'' = aoe_of s)"
proof -
  have f: "fst (semaoe u v d n s) = None" using assms(2) by simp
  from semaoe_spec(2) [OF assms(1) f] have adj: "adjusted (u_proc u) v d n s s'" using assms(2) by simp
  have slot: "v \<noteq> 0 \<Longrightarrow> undo_tab s' (u_proc u) \<noteq> None"
    using semaoe_spec(5) [OF assms(1) f] assms(2) by simp
  have lim: "- semaem (si s) \<le> v" "v \<le> semaem (si s)"
    using semaoe_spec(1) [OF assms(1), of u v d n] f assms(1) by (auto simp: aoe_possible_def undo_ok_def)
  have s': "undo_ok s'" "si s' = si s" using adj by (simp_all add: adjusted_def undo_frame_def)
  from semaoe_reverse [OF assms(1) adjusted_num [OF adj] lim s' refl refl slot] adj show ?thesis
    by (intro conjI exI [of _ "snd (semaoe u (- v) d n s')"]) (simp_all add: adjusted_def prod_eq_iff)
qed

theorem semaoe_reversible_witness:
  "\<exists>s''. semaoe sdemo_user (- 3) 0 1 (snd (semaoe sdemo_user 3 0 1 sdemo)) = (None, s'') \<and> aoe_of s'' = aoe_of sdemo"
proof -
  have "fst (semaoe sdemo_user 3 0 1 sdemo) = None" by code_simp
  then have "semaoe sdemo_user 3 0 1 sdemo = (None, snd (semaoe sdemo_user 3 0 1 sdemo))" by (simp add: prod_eq_iff)
  with semaoe_reversible [OF _ this] sdemo_inv show ?thesis by (auto simp: sem_inv_def)
qed

text \<open>
  \<open>semunrm\<close> clears the adjustments of every process for the semaphores of the given range of the
  given set, and no other, and keeps the structures, their order and the chain well formed.
\<close>

theorem semunrm_exact:
  assumes "undo_ok s" "0 \<le> low" "low < 65536" "0 \<le> high" "high < 65536"
  shows "undo_ok (semunrm d low high s) \<and> vals (semunrm d low high s) = vals s \<and>
    (\<forall>p d' n. aoe_of (semunrm d low high s) p d' n = (if d' = d \<and> low \<le> n \<and> n \<le> high then 0 else aoe_of s p d' n))"
  using semunrm_spec(1,2,5) [OF assms(1), of d low high] assms(2-5)
  by (simp add: u16_id undo_frame_def vals_def)

theorem semunrm_exact_witness:
  "aoe_of (semunrm 0 1 1 sdemo_up) 2 0 1 = 0"
proof -
  have "undo_ok sdemo_up" using sdemo_up_inv by (simp add: sem_inv_def)
  from semunrm_exact [OF this, of 1 1 0] show ?thesis by simp
qed

text \<open>
  C30: process exit applies what was recorded. In every state of the invariant that holds in all
  reachable states (adjustments name semaphores of live sets), every semaphore of every live set is
  changed by the adjustment the exiting process has for it when the result is within 0 and semvmx,
  and is otherwise left alone; afterwards the process has no adjustment and no structure, and those
  of the others are unchanged.
\<close>

theorem semexit_applies:
  assumes "sem_inv s" "undo_in s" "undo_tab s (u_proc u) = Some i"
    and "semconv s d = Inr k" "0 \<le> n" "n < sem_nsems (sema s k)"
  shows "vals (semexit u s) (sem_base (sema s k) + nat n) =
      clipped (semvmx (si s)) (vals s (sem_base (sema s k) + nat n)) (aoe_of s (u_proc u) d n) \<and>
    undo_tab (semexit u s) (u_proc u) = None \<and> aoe_of (semexit u s) (u_proc u) = (\<lambda>_ _. 0) \<and>
    (\<forall>q. q \<noteq> u_proc u \<longrightarrow> aoe_of (semexit u s) q = aoe_of s q) \<and>
    sem_inv (semexit u s) \<and> undo_in (semexit u s)"
  using semexit_values [OF assms(1,3) undo_in_ents [OF assms(1,2,3)] assms(4-6)] semexit_spec [OF assms(1), of u]
    semexit_in [OF assms(1,2), of u] by simp

theorem semexit_applies_witness:
  "vals sdemo_up 1 = 3 \<and> vals (semexit sdemo_user sdemo_up) 1 = 0"
proof -
  have a: "undo_tab sdemo_up (u_proc sdemo_user) = Some 0" "semconv sdemo_up 0 = Inr 0" "vals sdemo_up 1 = 3"
    "sem_nsems (sema sdemo_up 0) = 2"
    "sem_base (sema sdemo_up 0) = 0" "aoe_of sdemo_up (u_proc sdemo_user) 0 1 = - 3" "semvmx (si sdemo_up) = 100"
    by code_simp+
  from semexit_applies [OF sdemo_up_inv sdemo_up_in a(1,2), of 1] a show ?thesis by (simp add: clipped_def)
qed

text \<open>
  C13: in every state reachable from boot by calls, resumptions of sleeping calls and process exits,
  where the list a resumed \<open>semop\<close> reads again still names semaphores of its set, the values are
  within 0 and semvmx, the allocated sets occupy disjoint runs of the array \<open>sem[]\<close> none of which
  is free in the map, every structure holds sorted, non-zero, bounded adjustments, belongs to one process
  and is chained exactly when it is active, and every adjustment names a semaphore inside a live set.
\<close>

theorem sem_reachable:
  assumes "0 < semmni c" "semmni c \<le> 32768" "semmsl c \<le> 32767" "2 \<le> mi_semmap c"
    "0 \<le> semvmx c" "semvmx c \<le> 32767" "0 \<le> semaem c" "semaem c \<le> 16384" "0 \<le> semume c"
    and "sem_reach (seminit c t) s ps"
  shows "sem_inv s \<and> undo_in s"
  using sem_reach_inv [OF assms(10) seminit_inv [OF assms(1-9)] seminit_in] by blast

theorem sem_reachable_witness:
  "sem_inv (semexit sdemo_user (seminit sdemo_cfg 0)) \<and> undo_in (semexit sdemo_user (seminit sdemo_cfg 0))"
  by (rule sem_reachable [OF _ _ _ _ _ _ _ _ _ sem_reach.exit [OF sem_reach.boot]])
    (simp_all add: sdemo_cfg_def)

text \<open>
  C36: the list is verified before the first attempt only. A \<open>semop\<close> that resumes after a sleep copies
  the list in again and uses it unchecked: an operation whose number lies beyond the set, written
  by the user in the meantime, changes a semaphore outside the set.
\<close>

theorem semop_resume_unchecked:
  assumes "sem_inv s" "semconv s d = Inr k" "copyin um a 6 = Some bs" "semops_of bs = [op]"
    and "sem_nsems (sema s k) \<le> sem_num op" "sem_op op = 1" "sem_flg op = 0"
    and "vals s (sem_base (sema s k) + nat (sem_num op)) < semvmx (si s)"
  shows "\<exists>s'. semop_resume False c u um d a 1 k s = (Ok 0, s') \<and>
    semop_check u (sema s k) [op] \<noteq> None \<and>
    vals s' (sem_base (sema s k) + nat (sem_num op)) = vals s (sem_base (sema s k) + nat (sem_num op)) + 1"
proof -
  let ?j = "sem_base (sema s k) + nat (sem_num op)"
  obtain r s' where e: "semop_pass u d k [op] s = (r, s')" by fastforce
  have t: "\<forall>op \<in> set [op]. op_typed op" using assms(6) by (simp add: op_typed_def)
  from assms(1) have ok: "undo_ok s" "vals_ok s" by (simp_all add: sem_inv_def)
  have ps: "pass_spec u d k [op] s r s'" using semop_pass_spec [OF ok t e] by blast
  have run: "sem_run (semvmx (si s)) (vals s) (op_list s k [op]) = Some ((vals s)(?j := vals s ?j + 1))"
    using assms(6,8) by (simp add: op_list_def op_idx_def)
  have "op_adj op = 0" using assms(7) by (simp add: op_adj_def)
  with ps run have "r = Ok 0 \<and> vals s' = (vals s)(?j := vals s ?j + 1)"
    by (auto simp: pass_spec_def split: outcome.splits sum.splits)
  moreover have "semop_resume False c u um d a 1 k s = semop_pass u d k [op] s"
    using assms(2-4) by (simp add: semop_resume_def u32_def)
  moreover have "semop_check u (sema s k) [op] \<noteq> None" using assms(5) by (simp split: option.split)
  ultimately show ?thesis using e by auto
qed

theorem semop_resume_unchecked_witness:
  "sem_nsems (sema sdemo 0) = 2 \<and>
   (\<exists>s'. semop_resume False (ChN 0) sdemo_user sdemo_mem 0 6 1 0 sdemo = (Ok 0, s') \<and> vals s' 2 = 1)"
proof -
  let ?op = "\<lparr>sem_num = 2, sem_op = 1, sem_flg = 0\<rparr>"
  have a: "semconv sdemo 0 = Inr 0" "copyin sdemo_mem 6 6 = Some [0, 2, 0, 1, 0, 0]" "semops_of [0, 2, 0, 1, 0, 0] = [?op]"
    "sem_nsems (sema sdemo 0) = 2" "sem_base (sema sdemo 0) = 0" "vals sdemo 2 = 0" "semvmx (si sdemo) = 100"
    by code_simp+
  from semop_resume_unchecked [OF sdemo_inv a(1-3), of "ChN 0" sdemo_user] a show ?thesis
    by (auto simp: numeral_2_eq_2)
qed

end
