(* ===== verification/Xdr_Stream.thy ===== *)
theory Xdr_Stream
  imports Prelude
begin

text \<open>
  The XDR handle and its two implementations in the kernel: streams over a flat buffer
  (RPC/sys/xdr_mem.c) and over a chain of mbufs (RPC/sys/xdr_mbuf.c), with the operations
  vector of include/rpc/xdr.h as a dispatch on \<open>x_ops\<close>. Addresses, lengths and
  \<open>x_handy\<close> are 32-bit words, so that the unsigned arithmetic of \<open>x_handy -= len\<close> and the
  signed test that follows it are the code's. \<open>bcopy\<close> and \<open>kmem_alloc\<close> are modelled by
  what they do to memory.
\<close>

section \<open>Memory\<close>

type_synonym addr = "32 word"
type_synonym memory = "addr \<Rightarrow> byte"

definition rdmem :: "memory \<Rightarrow> addr \<Rightarrow> nat \<Rightarrow> byte list" where
  "rdmem m p n = map (\<lambda>i. m (p + of_nat i)) [0..<n]"

definition wrmem :: "memory \<Rightarrow> addr \<Rightarrow> byte list \<Rightarrow> memory" where
  "wrmem m p bs = (\<lambda>a. if unat (a - p) < length bs then bs ! unat (a - p) else m a)"

text \<open>\<open>htonl\<close> and \<open>ntohl\<close> are the identity on the 68020: a long is stored as it is sent.\<close>

definition be32 :: "32 word \<Rightarrow> byte list" where
  "be32 w = long_bytes (sint w)"

definition un_be32 :: "byte list \<Rightarrow> 32 word" where
  "un_be32 bs = word_of_int (bytes_long bs)"

section \<open>The handle\<close>

datatype xdr_op = XDR_ENCODE | XDR_DECODE | XDR_FREE | XDR_BADOP

datatype xdr_ops = Xdrmem_ops | Xdrmbuf_ops

text \<open>An mbuf: the address of its data (\<open>mtod\<close>) and \<open>m_len\<close>, a short.\<close>

record mbuf =
  m_dat :: addr
  m_len :: "16 word"

datatype kmem_event = KAlloc "32 word" | KFree "32 word"

text \<open>
  \<open>x_base\<close> is used in two ways: the memory stream keeps an address in it, the mbuf stream the
  current mbuf, here \<open>x_chain\<close>, the mbufs from the current one on (NULL is the empty list).
  \<open>x_past\<close> are the mbufs already passed, which the owner of the chain still reaches. The
  memory, the calls to \<open>kmem_alloc\<close> and \<open>kmem_free\<close> and the bytes a fresh block
  happens to hold are carried with the handle.
\<close>

record xdr =
  x_op :: xdr_op
  x_ops :: xdr_ops
  x_public :: addr
  x_private :: addr
  x_base :: addr
  x_chain :: "mbuf list"
  x_past :: "mbuf list"
  x_handy :: "32 word"
  x_mem :: memory
  x_kmem :: "kmem_event list"
  x_fresh :: "nat \<Rightarrow> byte"

section \<open>Streams over a flat buffer\<close>

definition xdrmem_create :: "xdr \<Rightarrow> addr \<Rightarrow> 32 word \<Rightarrow> xdr_op \<Rightarrow> xdr" where
  "xdrmem_create x a sz op =
     x\<lparr>x_op := op, x_ops := Xdrmem_ops, x_private := a, x_base := a, x_handy := sz\<rparr>"

text \<open>The second argument is the long at \<open>lp\<close>, returned unchanged when the call fails.\<close>

definition xdrmem_getlong :: "xdr \<Rightarrow> 32 word \<Rightarrow> bool \<times> 32 word \<times> xdr" where
  "xdrmem_getlong x v =
     (let x1 = x\<lparr>x_handy := x_handy x - 4\<rparr> in
      if sint (x_handy x1) < 0 then (False, v, x1)
      else (True, un_be32 (rdmem (x_mem x1) (x_private x1) 4), x1\<lparr>x_private := x_private x1 + 4\<rparr>))"

definition xdrmem_putlong :: "xdr \<Rightarrow> 32 word \<Rightarrow> bool \<times> xdr" where
  "xdrmem_putlong x v =
     (let x1 = x\<lparr>x_handy := x_handy x - 4\<rparr> in
      if sint (x_handy x1) < 0 then (False, x1)
      else (True, x1\<lparr>x_mem := wrmem (x_mem x1) (x_private x1) (be32 v), x_private := x_private x1 + 4\<rparr>))"

text \<open>The list returned holds the bytes the call copied out, also when it fails half-way.\<close>

definition xdrmem_getbytes :: "xdr \<Rightarrow> 32 word \<Rightarrow> bool \<times> byte list \<times> xdr" where
  "xdrmem_getbytes x n =
     (let x1 = x\<lparr>x_handy := x_handy x - n\<rparr> in
      if sint (x_handy x1) < 0 then (False, [], x1)
      else (True, rdmem (x_mem x1) (x_private x1) (unat n), x1\<lparr>x_private := x_private x1 + n\<rparr>))"

text \<open>The bytes at \<open>addr\<close>; \<open>len\<close> is their number.\<close>

definition xdrmem_putbytes :: "xdr \<Rightarrow> byte list \<Rightarrow> bool \<times> xdr" where
  "xdrmem_putbytes x bs =
     (let n = of_nat (length bs); x1 = x\<lparr>x_handy := x_handy x - n\<rparr> in
      if sint (x_handy x1) < 0 then (False, x1)
      else (True, x1\<lparr>x_mem := wrmem (x_mem x1) (x_private x1) bs, x_private := x_private x1 + n\<rparr>))"

definition xdrmem_getpos :: "xdr \<Rightarrow> 32 word" where
  "xdrmem_getpos x = x_private x - x_base x"

definition xdrmem_setpos :: "xdr \<Rightarrow> 32 word \<Rightarrow> bool \<times> xdr" where
  "xdrmem_setpos x pos =
     (let newaddr = x_base x + pos; lastaddr = x_private x + x_handy x in
      if sint newaddr > sint lastaddr then (False, x)
      else (True, x\<lparr>x_private := newaddr, x_handy := lastaddr - newaddr\<rparr>))"

text \<open>\<open>None\<close> is the null pointer.\<close>

definition xdrmem_inline :: "xdr \<Rightarrow> 32 word \<Rightarrow> addr option \<times> xdr" where
  "xdrmem_inline x n =
     (if sint (x_handy x) \<ge> sint n
      then (Some (x_private x), x\<lparr>x_handy := x_handy x - n, x_private := x_private x + n\<rparr>)
      else (None, x))"

section \<open>Streams over an mbuf chain\<close>

definition xdrmbuf_init :: "xdr \<Rightarrow> mbuf list \<Rightarrow> xdr_op \<Rightarrow> xdr" where
  "xdrmbuf_init x ms op =
     x\<lparr>x_op := op, x_ops := Xdrmbuf_ops, x_chain := ms, x_past := [],
       x_private := m_dat (hd ms), x_public := 0, x_handy := scast (m_len (hd ms))\<rparr>"

text \<open>The step to the next mbuf the four transfer operations share.\<close>

fun xdrmbuf_next :: "xdr \<Rightarrow> mbuf list \<Rightarrow> bool \<times> xdr" where
  "xdrmbuf_next x [] = (False, x)"
| "xdrmbuf_next x [m] = (False, x\<lparr>x_chain := [], x_past := x_past x @ [m]\<rparr>)"
| "xdrmbuf_next x (m # m' # ms) =
     (True, x\<lparr>x_chain := m' # ms, x_past := x_past x @ [m],
              x_private := m_dat m', x_handy := scast (m_len m')\<rparr>)"

definition xdrmbuf_getlong :: "xdr \<Rightarrow> 32 word \<Rightarrow> bool \<times> 32 word \<times> xdr" where
  "xdrmbuf_getlong x v =
     (let x1 = x\<lparr>x_handy := x_handy x - 4\<rparr>;
          (ok, x2) = (if sint (x_handy x1) < 0
                      then (let (ok, y) = xdrmbuf_next x1 (x_chain x1) in
                            (ok, if ok then y\<lparr>x_handy := x_handy y - 4\<rparr> else y))
                      else (True, x1)) in
      if \<not> ok then (False, v, x2)
      else (True, un_be32 (rdmem (x_mem x2) (x_private x2) 4), x2\<lparr>x_private := x_private x2 + 4\<rparr>))"

definition xdrmbuf_putlong :: "xdr \<Rightarrow> 32 word \<Rightarrow> bool \<times> xdr" where
  "xdrmbuf_putlong x v =
     (let x1 = x\<lparr>x_handy := x_handy x - 4\<rparr>;
          (ok, x2) = (if sint (x_handy x1) < 0
                      then (let (ok, y) = xdrmbuf_next x1 (x_chain x1) in
                            (ok, if ok then y\<lparr>x_handy := x_handy y - 4\<rparr> else y))
                      else (True, x1)) in
      if \<not> ok then (False, x2)
      else (True, x2\<lparr>x_mem := wrmem (x_mem x2) (x_private x2) (be32 v), x_private := x_private x2 + 4\<rparr>))"

lemma xdrmbuf_next_chain:
  "xdrmbuf_next x ms = (True, y) \<Longrightarrow> length (x_chain y) < length ms"
  by (cases "(x, ms)" rule: xdrmbuf_next.cases) auto

text \<open>
  The loop of \<open>getbytes\<close>, entered at its test with \<open>len\<close> already taken from
  \<open>x_handy\<close>; \<open>acc\<close> are the bytes copied so far.
\<close>

function xdrmbuf_get_loop ::
    "xdr \<Rightarrow> byte list \<Rightarrow> 32 word \<Rightarrow> bool \<times> byte list \<times> 32 word \<times> xdr" where
  "xdrmbuf_get_loop x acc n =
     (if 0 \<le> sint (x_handy x) then (True, acc, n, x)
      else
        (let h = x_handy x + n; x1 = x\<lparr>x_handy := h\<rparr>;
             acc1 = (if 0 < sint h then acc @ rdmem (x_mem x) (x_private x) (unat h) else acc);
             n1 = (if 0 < sint h then n - h else n);
             (ok, x2) = xdrmbuf_next x1 (x_chain x) in
         if \<not> ok then (False, acc1, n1, x2)
         else xdrmbuf_get_loop (x2\<lparr>x_handy := x_handy x2 - n1\<rparr>) acc1 n1))"
  by pat_completeness auto

termination
  by (relation "measure (\<lambda>(x, acc, n). length (x_chain x))")
     (auto dest!: xdrmbuf_next_chain sym[where s = "(True, _)"])

declare xdrmbuf_get_loop.simps [simp del]

definition xdrmbuf_getbytes :: "xdr \<Rightarrow> 32 word \<Rightarrow> bool \<times> byte list \<times> xdr" where
  "xdrmbuf_getbytes x n =
     (let (ok, acc, n1, x1) = xdrmbuf_get_loop (x\<lparr>x_handy := x_handy x - n\<rparr>) [] n in
      if \<not> ok then (False, acc, x1)
      else (True, acc @ rdmem (x_mem x1) (x_private x1) (unat n1), x1\<lparr>x_private := x_private x1 + n1\<rparr>))"

function xdrmbuf_put_loop :: "xdr \<Rightarrow> byte list \<Rightarrow> bool \<times> byte list \<times> xdr" where
  "xdrmbuf_put_loop x bs =
     (if 0 \<le> sint (x_handy x) then (True, bs, x)
      else
        (let h = x_handy x + of_nat (length bs); x1 = x\<lparr>x_handy := h\<rparr>;
             x2 = (if 0 < sint h
                   then x1\<lparr>x_mem := wrmem (x_mem x) (x_private x) (take (unat h) bs)\<rparr> else x1);
             bs1 = (if 0 < sint h then drop (unat h) bs else bs);
             (ok, x3) = xdrmbuf_next x2 (x_chain x) in
         if \<not> ok then (False, bs1, x3)
         else xdrmbuf_put_loop (x3\<lparr>x_handy := x_handy x3 - of_nat (length bs1)\<rparr>) bs1))"
  by pat_completeness auto

termination
  by (relation "measure (\<lambda>(x, bs). length (x_chain x))")
     (auto dest!: xdrmbuf_next_chain sym[where s = "(True, _)"])

declare xdrmbuf_put_loop.simps [simp del]

definition xdrmbuf_putbytes :: "xdr \<Rightarrow> byte list \<Rightarrow> bool \<times> xdr" where
  "xdrmbuf_putbytes x bs =
     (let (ok, bs1, x1) = xdrmbuf_put_loop (x\<lparr>x_handy := x_handy x - of_nat (length bs)\<rparr>) bs in
      if \<not> ok then (False, x1)
      else (True, x1\<lparr>x_mem := wrmem (x_mem x1) (x_private x1) bs1,
                     x_private := x_private x1 + of_nat (length bs1)\<rparr>))"

text \<open>
  \<open>mclgetx\<close> (NET/sys/uipc_mbuf.c): an mbuf on memory the caller owns; \<open>got\<close> is whether
  \<open>MGET\<close> found an mbuf.
\<close>

definition mclgetx :: "addr \<Rightarrow> 32 word \<Rightarrow> bool \<Rightarrow> mbuf option" where
  "mclgetx a n got = (if \<not> got then None else Some \<lparr>m_dat = a, m_len = ucast n\<rparr>)"

definition xdrmbuf_putbuf :: "xdr \<Rightarrow> addr \<Rightarrow> 32 word \<Rightarrow> bool \<Rightarrow> bool \<times> xdr" where
  "xdrmbuf_putbuf x a n got =
     (let x1 = snd (xdrmbuf_putlong x n);
          n1 = (n + 3) AND NOT 3;
          cur = hd (x_chain x1);
          cur1 = cur\<lparr>m_len := m_len cur - ucast (x_handy x1)\<rparr> in
      case mclgetx a n1 got of
        None \<Rightarrow> (False, x1\<lparr>x_chain := cur1 # tl (x_chain x1)\<rparr>)
      | Some m \<Rightarrow> (True, x1\<lparr>x_chain := [cur1, m], x_handy := 0\<rparr>))"

definition xdrmbuf_getpos :: "xdr \<Rightarrow> 32 word" where
  "xdrmbuf_getpos x = x_private x - m_dat (hd (x_chain x))"

definition xdrmbuf_setpos :: "xdr \<Rightarrow> 32 word \<Rightarrow> bool \<times> xdr" where
  "xdrmbuf_setpos x pos =
     (let newaddr = m_dat (hd (x_chain x)) + pos; lastaddr = x_private x + x_handy x in
      if sint newaddr > sint lastaddr then (False, x)
      else (True, x\<lparr>x_private := newaddr, x_handy := lastaddr - newaddr\<rparr>))"

definition xdrmbuf_inline :: "xdr \<Rightarrow> 32 word \<Rightarrow> addr option \<times> xdr" where
  "xdrmbuf_inline x n =
     (if sint (x_handy x) \<ge> sint n
      then (Some (x_private x), x\<lparr>x_handy := x_handy x - n, x_private := x_private x + n\<rparr>)
      else (None, x))"

section \<open>The operations vector\<close>

definition XDR_GETLONG :: "xdr \<Rightarrow> 32 word \<Rightarrow> bool \<times> 32 word \<times> xdr" where
  "XDR_GETLONG x = (case x_ops x of Xdrmem_ops \<Rightarrow> xdrmem_getlong x | Xdrmbuf_ops \<Rightarrow> xdrmbuf_getlong x)"

definition XDR_PUTLONG :: "xdr \<Rightarrow> 32 word \<Rightarrow> bool \<times> xdr" where
  "XDR_PUTLONG x = (case x_ops x of Xdrmem_ops \<Rightarrow> xdrmem_putlong x | Xdrmbuf_ops \<Rightarrow> xdrmbuf_putlong x)"

definition XDR_GETBYTES :: "xdr \<Rightarrow> 32 word \<Rightarrow> bool \<times> byte list \<times> xdr" where
  "XDR_GETBYTES x = (case x_ops x of Xdrmem_ops \<Rightarrow> xdrmem_getbytes x | Xdrmbuf_ops \<Rightarrow> xdrmbuf_getbytes x)"

definition XDR_PUTBYTES :: "xdr \<Rightarrow> byte list \<Rightarrow> bool \<times> xdr" where
  "XDR_PUTBYTES x = (case x_ops x of Xdrmem_ops \<Rightarrow> xdrmem_putbytes x | Xdrmbuf_ops \<Rightarrow> xdrmbuf_putbytes x)"

definition XDR_GETPOS :: "xdr \<Rightarrow> 32 word" where
  "XDR_GETPOS x = (case x_ops x of Xdrmem_ops \<Rightarrow> xdrmem_getpos x | Xdrmbuf_ops \<Rightarrow> xdrmbuf_getpos x)"

definition XDR_SETPOS :: "xdr \<Rightarrow> 32 word \<Rightarrow> bool \<times> xdr" where
  "XDR_SETPOS x = (case x_ops x of Xdrmem_ops \<Rightarrow> xdrmem_setpos x | Xdrmbuf_ops \<Rightarrow> xdrmbuf_setpos x)"

definition XDR_INLINE :: "xdr \<Rightarrow> 32 word \<Rightarrow> addr option \<times> xdr" where
  "XDR_INLINE x = (case x_ops x of Xdrmem_ops \<Rightarrow> xdrmem_inline x | Xdrmbuf_ops \<Rightarrow> xdrmbuf_inline x)"

section \<open>In-line access to the buffer\<close>

definition IXDR_GET_LONG :: "xdr \<Rightarrow> addr \<Rightarrow> 32 word \<times> addr" where
  "IXDR_GET_LONG x buf = (un_be32 (rdmem (x_mem x) buf 4), buf + 4)"

definition IXDR_PUT_LONG :: "xdr \<Rightarrow> addr \<Rightarrow> 32 word \<Rightarrow> xdr \<times> addr" where
  "IXDR_PUT_LONG x buf v = (x\<lparr>x_mem := wrmem (x_mem x) buf (be32 v)\<rparr>, buf + 4)"

section \<open>The kernel heap\<close>

definition mem_alloc :: "xdr \<Rightarrow> 32 word \<Rightarrow> byte list \<times> xdr" where
  "mem_alloc x n = (map (x_fresh x) [0..<unat n], x\<lparr>x_kmem := x_kmem x @ [KAlloc n]\<rparr>)"

definition mem_free :: "xdr \<Rightarrow> 32 word \<Rightarrow> xdr" where
  "mem_free x n = x\<lparr>x_kmem := x_kmem x @ [KFree n]\<rparr>"

section \<open>Lemmas on memory and on the byte order\<close>

lemma length_rdmem [simp]: "length (rdmem m p n) = n"
  by (simp add: rdmem_def)

lemma length_be32 [simp]: "length (be32 w) = 4"
  by (simp add: be32_def)

lemma nth_rdmem [simp]: "i < n \<Longrightarrow> rdmem m p n ! i = m (p + of_nat i)"
  by (simp add: rdmem_def)

lemma rdmem_0 [simp]: "rdmem m p 0 = []"
  by (simp add: rdmem_def)

lemma rdmem_add: "rdmem m p (k + n) = rdmem m p k @ rdmem m (p + of_nat k) n"
  by (rule nth_equalityI) (auto simp: nth_append algebra_simps)

lemma take_rdmem: "k \<le> n \<Longrightarrow> take k (rdmem m p n) = rdmem m p k"
  by (rule nth_equalityI) auto

lemma drop_rdmem: "k \<le> n \<Longrightarrow> drop k (rdmem m p n) = rdmem m (p + of_nat k) (n - k)"
  by (rule nth_equalityI) (auto simp: algebra_simps)

lemma wrmem_Nil [simp]: "wrmem m p [] = m"
  by (simp add: wrmem_def)

lemma unat_offset:
  fixes p :: addr
  assumes "k \<le> i" "i < 2 ^ 32"
  shows "unat (p + of_nat i - (p + of_nat k)) = i - k"
proof -
  have "p + of_nat i - (p + of_nat k) = of_nat (i - k)"
    using assms(1) by (simp add: of_nat_diff)
  moreover have "unat (of_nat (i - k) :: addr) = i - k"
    using assms by (subst unat_of_nat) auto
  ultimately show ?thesis by simp
qed

lemma unat_offset_below:
  fixes p :: addr
  assumes "i < k" "k \<le> 2 ^ 32"
  shows "unat (p + of_nat i - (p + of_nat k)) = 2 ^ 32 - (k - i)"
proof -
  have "p + of_nat i - (p + of_nat k) = (of_nat (2 ^ 32 - (k - i)) :: addr)"
  proof -
    have "(of_nat (2 ^ 32 - (k - i)) :: addr) = of_nat (2 ^ 32) - of_nat (k - i)"
      using assms by (subst of_nat_diff) auto
    also have "\<dots> = - of_nat (k - i)" by simp
    also have "\<dots> = of_nat i - of_nat k" using assms by (subst of_nat_diff) auto
    finally show ?thesis by simp
  qed
  moreover have "unat (of_nat (2 ^ 32 - (k - i)) :: addr) = 2 ^ 32 - (k - i)"
    using assms by (subst unat_of_nat) auto
  ultimately show ?thesis by (simp only:)
qed

lemma wrmem_at:
  assumes "k \<le> i" "i < k + length bs" "k + length bs \<le> 2 ^ 32"
  shows "wrmem m (p + of_nat k) bs (p + of_nat i) = bs ! (i - k)"
proof -
  have "unat (p + of_nat i - (p + of_nat k)) = i - k" using assms by (intro unat_offset) auto
  moreover have "i - k < length bs" using assms by simp
  ultimately show ?thesis unfolding wrmem_def by presburger
qed

lemma wrmem_below:
  assumes "i < k" "k + length bs \<le> 2 ^ 32"
  shows "wrmem m (p + of_nat k) bs (p + of_nat i) = m (p + of_nat i)"
proof -
  have "unat (p + of_nat i - (p + of_nat k)) = 2 ^ 32 - (k - i)"
    using assms by (intro unat_offset_below) auto
  moreover have "\<not> 2 ^ 32 - (k - i) < length bs" using assms by linarith
  ultimately show ?thesis unfolding wrmem_def by presburger
qed

lemma wrmem_above:
  assumes "k + length bs \<le> i" "i < 2 ^ 32"
  shows "wrmem m (p + of_nat k) bs (p + of_nat i) = m (p + of_nat i)"
proof -
  have "unat (p + of_nat i - (p + of_nat k)) = i - k" using assms by (intro unat_offset) auto
  moreover have "\<not> i - k < length bs" using assms by simp
  ultimately show ?thesis unfolding wrmem_def by presburger
qed

lemma rdmem_wrmem_same:
  "length bs \<le> 2 ^ 32 \<Longrightarrow> rdmem (wrmem m p bs) p (length bs) = bs"
  by (rule nth_equalityI) (use wrmem_at[of 0 _ bs m p] in auto)

lemma rdmem_wrmem_append:
  assumes "k + length bs \<le> 2 ^ 32"
  shows "rdmem (wrmem m (p + of_nat k) bs) p (k + length bs) = rdmem m p k @ bs"
  using assms
  by (intro nth_equalityI) (auto simp: nth_append wrmem_at wrmem_below not_less)

lemma rdmem_cong: "(\<And>i. i < n \<Longrightarrow> m' (p + of_nat i) = m (p + of_nat i)) \<Longrightarrow> rdmem m' p n = rdmem m p n"
  by (rule nth_equalityI) auto

lemma sint_word_of_int_in_range:
  "- 2147483648 \<le> z \<and> z < 2147483648 \<Longrightarrow> sint (word_of_int z :: 32 word) = z"
  by (simp add: signed_of_int signed_take_bit_int_eq_self)

lemma div_mod_256:
  fixes x t :: int
  shows "(x + t * 2 ^ 32) div 2 ^ 24 mod 256 = x div 2 ^ 24 mod 256"
    "(x + t * 2 ^ 32) div 2 ^ 16 mod 256 = x div 2 ^ 16 mod 256"
    "(x + t * 2 ^ 32) div 2 ^ 8 mod 256 = x div 2 ^ 8 mod 256"
    "(x + t * 2 ^ 32) mod 256 = x mod 256"
proof -
  have "(x + t * 2 ^ 32) div 2 ^ 24 = x div 2 ^ 24 + t * 256"
    using div_mult_self1[of "2 ^ 24" x "t * 256"] by (simp add: algebra_simps)
  then show "(x + t * 2 ^ 32) div 2 ^ 24 mod 256 = x div 2 ^ 24 mod 256" by simp
  have "(x + t * 2 ^ 32) div 2 ^ 16 = x div 2 ^ 16 + (t * 256) * 256"
    using div_mult_self1[of "2 ^ 16" x "t * 65536"] by (simp add: algebra_simps)
  then show "(x + t * 2 ^ 32) div 2 ^ 16 mod 256 = x div 2 ^ 16 mod 256"
    by (simp only: mod_mult_self1)
  have "(x + t * 2 ^ 32) div 2 ^ 8 = x div 2 ^ 8 + (t * 65536) * 256"
    using div_mult_self1[of "2 ^ 8" x "t * 16777216"] by (simp add: algebra_simps)
  then show "(x + t * 2 ^ 32) div 2 ^ 8 mod 256 = x div 2 ^ 8 mod 256"
    by (simp only: mod_mult_self1)
  have "x + t * 2 ^ 32 = x + (t * 16777216) * 256" by simp
  then show "(x + t * 2 ^ 32) mod 256 = x mod 256"
    by (simp only: mod_mult_self1)
qed

lemma i32_wrap: "i32 s = s + (- ((s + 2 ^ 31) div 2 ^ 32)) * 2 ^ 32"
  unfolding i32_def by (simp add: minus_mult_div_eq_mod [symmetric] minus_div_mult_eq_mod[symmetric])

lemma i32_digits:
  "i32 s div 2 ^ 24 mod 256 = s div 2 ^ 24 mod 256"
  "i32 s div 2 ^ 16 mod 256 = s div 2 ^ 16 mod 256"
  "i32 s div 2 ^ 8 mod 256 = s div 2 ^ 8 mod 256"
  "i32 s mod 256 = s mod 256"
  by (subst i32_wrap, rule div_mod_256)+

lemma base256:
  fixes a b c d :: int
  assumes "0 \<le> a" "a < 256" "0 \<le> b" "b < 256" "0 \<le> c" "c < 256" "0 \<le> d" "d < 256"
  shows "(a * 2 ^ 24 + b * 2 ^ 16 + c * 2 ^ 8 + d) div 2 ^ 24 mod 256 = a"
    "(a * 2 ^ 24 + b * 2 ^ 16 + c * 2 ^ 8 + d) div 2 ^ 16 mod 256 = b"
    "(a * 2 ^ 24 + b * 2 ^ 16 + c * 2 ^ 8 + d) div 2 ^ 8 mod 256 = c"
    "(a * 2 ^ 24 + b * 2 ^ 16 + c * 2 ^ 8 + d) mod 256 = d"
proof -
  have "(a * 2 ^ 24 + b * 2 ^ 16 + c * 2 ^ 8 + d) div 2 ^ 24 = a"
    using assms by (intro int_div_pos_eq[where r = "b * 2 ^ 16 + c * 2 ^ 8 + d"]) auto
  then show "(a * 2 ^ 24 + b * 2 ^ 16 + c * 2 ^ 8 + d) div 2 ^ 24 mod 256 = a"
    using assms by (simp only: mod_pos_pos_trivial)
  have "(a * 2 ^ 24 + b * 2 ^ 16 + c * 2 ^ 8 + d) div 2 ^ 16 = b + a * 256"
    using assms by (intro int_div_pos_eq[where r = "c * 2 ^ 8 + d"]) auto
  then show "(a * 2 ^ 24 + b * 2 ^ 16 + c * 2 ^ 8 + d) div 2 ^ 16 mod 256 = b"
    using assms by (simp only: mod_mult_self1 mod_pos_pos_trivial)
  have "(a * 2 ^ 24 + b * 2 ^ 16 + c * 2 ^ 8 + d) div 2 ^ 8 = c + (a * 256 + b) * 256"
    using assms by (intro int_div_pos_eq[where r = "d"]) auto
  then show "(a * 2 ^ 24 + b * 2 ^ 16 + c * 2 ^ 8 + d) div 2 ^ 8 mod 256 = c"
    using assms by (simp only: mod_mult_self1 mod_pos_pos_trivial)
  have "a * 2 ^ 24 + b * 2 ^ 16 + c * 2 ^ 8 + d = d + (a * 65536 + b * 256 + c) * 256" by simp
  then show "(a * 2 ^ 24 + b * 2 ^ 16 + c * 2 ^ 8 + d) mod 256 = d"
    using assms by (simp only: mod_mult_self1 mod_pos_pos_trivial)
qed

lemma long_bytes_bytes_long: "long_bytes (bytes_long [a, b, c, d]) = [a, b, c, d]"
proof -
  define s where "s = uint a * 2 ^ 24 + uint b * 2 ^ 16 + uint c * 2 ^ 8 + uint d"
  have r: "0 \<le> uint a" "uint a < 256" "0 \<le> uint b" "uint b < 256" "0 \<le> uint c" "uint c < 256"
    "0 \<le> uint d" "uint d < 256"
    using uint_lt2p[of a] uint_lt2p[of b] uint_lt2p[of c] uint_lt2p[of d] by auto
  have e: "i32 s div 2 ^ 24 mod 256 = uint a" "i32 s div 2 ^ 16 mod 256 = uint b"
    "i32 s div 2 ^ 8 mod 256 = uint c" "i32 s mod 256 = uint d"
    unfolding i32_digits using base256[OF r] by (simp_all only: s_def)
  have w: "word_of_int x = (word_of_int (x mod 256) :: byte)" for x
    by (simp add: word_of_int_eq_iff take_bit_eq_mod)
  have "long_bytes (i32 s) = [a, b, c, d]"
    unfolding long_bytes_def
    by (subst (1 2 3 4) w) (simp only: e word_of_int_uint)
  then show ?thesis by (simp add: s_def)
qed

lemma un_be32_be32 [simp]: "un_be32 (be32 w) = w"
proof -
  have "i32 (sint w) = sint w"
    using sint_ge[of w] sint_lt[of w] by (intro i32_id) auto
  then show ?thesis by (simp add: un_be32_def be32_def bytes_long_bytes)
qed

lemma be32_un_be32: "length bs = 4 \<Longrightarrow> be32 (un_be32 bs) = bs"
proof -
  assume "length bs = 4"
  then obtain a b c d where bs: "bs = [a, b, c, d]"
    by (auto simp: length_Suc_conv numeral_eq_Suc)
  have "sint (word_of_int (bytes_long bs) :: 32 word) = bytes_long bs"
    using i32_range unfolding bs bytes_long.simps
    by (subst sint_word_of_int_in_range) blast+
  then show ?thesis
    by (simp only: be32_def un_be32_def) (simp only: bs long_bytes_bytes_long)
qed

end
