(* ===== verification/Xdr.thy ===== *)
theory Xdr
  imports Xdr_Stream
begin

text \<open>
  The generic XDR routines: RPC/sys/xdr.c, RPC/sys/xdr_array.c and RPC/sys/xdr_ref.c. A
  routine takes the handle and the object's value and returns the code's \<open>bool_t\<close>, the
  object's value afterwards and the handle, one routine for the three operations as in the
  source. A pointer to a counted object is \<open>None\<close> when NULL. Objects are taken to be as
  large as the code's accesses assume; an access outside one reads an unspecified value.
\<close>

type_synonym 'a xdrproc = "xdr \<Rightarrow> 'a \<Rightarrow> bool \<times> 'a \<times> xdr"

section \<open>Scalars (RPC/sys/xdr.c)\<close>

text \<open>\<open>sizeof\<close> in the 68020 build: \<open>int\<close>, \<open>long\<close> and an \<open>enum\<close> have four bytes.\<close>

definition sizeof_short :: nat where "sizeof_short = 2"
definition sizeof_int :: nat where "sizeof_int = 4"
definition sizeof_long :: nat where "sizeof_long = 4"
definition sizeof_enum :: nat where "sizeof_enum = 4"

definition LASTUNSIGNED :: "32 word" where "LASTUNSIGNED = 0 - 1"

definition BYTES_PER_XDR_UNIT :: "32 word" where "BYTES_PER_XDR_UNIT = 4"

definition xdr_void :: "'a xdrproc" where
  "xdr_void x v = (True, v, x)"

definition xdr_long :: "(32 word) xdrproc" where
  "xdr_long x v =
     (if x_op x = XDR_ENCODE then (let (ok, x') = XDR_PUTLONG x v in (ok, v, x'))
      else if x_op x = XDR_DECODE then XDR_GETLONG x v
      else if x_op x = XDR_FREE then (True, v, x)
      else (False, v, x))"

definition xdr_u_long :: "(32 word) xdrproc" where
  "xdr_u_long x v =
     (if x_op x = XDR_DECODE then XDR_GETLONG x v
      else if x_op x = XDR_ENCODE then (let (ok, x') = XDR_PUTLONG x v in (ok, v, x'))
      else if x_op x = XDR_FREE then (True, v, x)
      else (False, v, x))"

definition xdr_short :: "(16 word) xdrproc" where
  "xdr_short x v =
     (case x_op x of
        XDR_ENCODE \<Rightarrow> (let (ok, x') = XDR_PUTLONG x (scast v) in (ok, v, x'))
      | XDR_DECODE \<Rightarrow> (let (ok, l, x') = XDR_GETLONG x 0 in (ok, if ok then ucast l else v, x'))
      | XDR_FREE \<Rightarrow> (True, v, x)
      | XDR_BADOP \<Rightarrow> (False, v, x))"

definition xdr_u_short :: "(16 word) xdrproc" where
  "xdr_u_short x v =
     (case x_op x of
        XDR_ENCODE \<Rightarrow> (let (ok, x') = XDR_PUTLONG x (ucast v) in (ok, v, x'))
      | XDR_DECODE \<Rightarrow> (let (ok, l, x') = XDR_GETLONG x 0 in (ok, if ok then ucast l else v, x'))
      | XDR_FREE \<Rightarrow> (True, v, x)
      | XDR_BADOP \<Rightarrow> (False, v, x))"

text \<open>
  Where \<open>int\<close> and \<open>long\<close> differ in size the code goes through \<open>xdr_short\<close>; the value it would
  touch is then the leading half of the int.
\<close>

definition via_short :: "(16 word) xdrproc \<Rightarrow> (32 word) xdrproc" where
  "via_short p x v =
     (let (ok, s, x') = p x (ucast (drop_bit 16 v)) in
      (ok, (push_bit 16 (ucast s)) OR (v AND 0xFFFF), x'))"

definition xdr_int :: "(32 word) xdrproc" where
  "xdr_int x v = (if sizeof_int = sizeof_long then xdr_long x v else via_short xdr_short x v)"

definition xdr_u_int :: "(32 word) xdrproc" where
  "xdr_u_int x v = (if sizeof_int = sizeof_long then xdr_u_long x v else via_short xdr_short x v)"

definition xdr_bool :: "(32 word) xdrproc" where
  "xdr_bool x v =
     (case x_op x of
        XDR_ENCODE \<Rightarrow> (let (ok, x') = XDR_PUTLONG x (if v \<noteq> 0 then 1 else 0) in (ok, v, x'))
      | XDR_DECODE \<Rightarrow> (let (ok, l, x') = XDR_GETLONG x 0 in
                       (ok, if ok then (if l = 0 then 0 else 1) else v, x'))
      | XDR_FREE \<Rightarrow> (True, v, x)
      | XDR_BADOP \<Rightarrow> (False, v, x))"

definition xdr_enum :: "(32 word) xdrproc" where
  "xdr_enum x v =
     (if sizeof_enum = sizeof_long then xdr_long x v
      else if sizeof_enum = sizeof_short then via_short xdr_short x v
      else (False, v, x))"

section \<open>Opaque data and counted bytes\<close>

text \<open>
  \<open>rdbuf\<close> reads \<open>n\<close> bytes of an object, \<open>wrbuf\<close> stores bytes at its start.
\<close>

definition rdbuf :: "byte list \<Rightarrow> nat \<Rightarrow> byte list" where
  "rdbuf bs n = (if n \<le> length bs then take n bs else map (\<lambda>i. bs ! i) [0..<n])"

definition wrbuf :: "byte list \<Rightarrow> byte list \<Rightarrow> byte list" where
  "wrbuf bs ds = ds @ drop (length ds) bs"

definition xdr_zero :: "byte list" where
  "xdr_zero = [0, 0, 0, 0]"

text \<open>The number of bytes that fill up the last unit.\<close>

definition xdr_rndup :: "32 word \<Rightarrow> 32 word" where
  "xdr_rndup cnt =
     (let r = cnt mod BYTES_PER_XDR_UNIT in if r > 0 then BYTES_PER_XDR_UNIT - r else r)"

definition xdr_opaque :: "xdr \<Rightarrow> byte list \<Rightarrow> 32 word \<Rightarrow> bool \<times> byte list \<times> xdr" where
  "xdr_opaque x cp cnt =
     (if cnt = 0 then (True, cp, x)
      else
        (let rndup = xdr_rndup cnt in
         if x_op x = XDR_DECODE then
           (let (ok, ds, x1) = XDR_GETBYTES x cnt; cp1 = wrbuf cp ds in
            if \<not> ok then (False, cp1, x1)
            else if rndup = 0 then (True, cp1, x1)
            else (let (ok2, crud, x2) = XDR_GETBYTES x1 rndup in (ok2, cp1, x2)))
         else if x_op x = XDR_ENCODE then
           (let (ok, x1) = XDR_PUTBYTES x (rdbuf cp (unat cnt)) in
            if \<not> ok then (False, cp, x1)
            else if rndup = 0 then (True, cp, x1)
            else (let (ok2, x2) = XDR_PUTBYTES x1 (rdbuf xdr_zero (unat rndup)) in (ok2, cp, x2)))
         else if x_op x = XDR_FREE then (True, cp, x)
         else (False, cp, x)))"

definition bytes_at :: "byte list option \<Rightarrow> byte list" where
  "bytes_at p = (case p of None \<Rightarrow> [] | Some bs \<Rightarrow> bs)"

definition xdr_bytes :: "32 word \<Rightarrow> (byte list option \<times> 32 word) xdrproc" where
  "xdr_bytes maxsize x v =
     (let (cpp, size0) = v;
          (ok, nodesize, x1) = xdr_u_int x size0 in
      if \<not> ok then (False, (cpp, nodesize), x1)
      else if nodesize > maxsize \<and> x_op x1 \<noteq> XDR_FREE then (False, (cpp, nodesize), x1)
      else case x_op x1 of
        XDR_DECODE \<Rightarrow>
          (let (sp, x2) = (case cpp of None \<Rightarrow> mem_alloc x1 nodesize | Some bs \<Rightarrow> (bs, x1));
               (ok2, sp2, x3) = xdr_opaque x2 sp nodesize in
           (ok2, (Some sp2, nodesize), x3))
      | XDR_ENCODE \<Rightarrow>
          (let (ok2, sp2, x3) = xdr_opaque x1 (bytes_at cpp) nodesize in (ok2, (cpp, nodesize), x3))
      | XDR_FREE \<Rightarrow>
          (case cpp of None \<Rightarrow> (True, (None, nodesize), x1)
           | Some sp \<Rightarrow> (True, (None, nodesize), mem_free x1 nodesize))
      | XDR_BADOP \<Rightarrow> (False, (cpp, nodesize), x1))"

section \<open>Unions, strings, references and arrays\<close>

text \<open>The table of arms: the list ends where the code's table has its null procedure.\<close>

fun union_arm :: "(32 word \<times> 'u xdrproc) list \<Rightarrow> 32 word \<Rightarrow> 'u xdrproc option" where
  "union_arm [] d = None"
| "union_arm ((c, p) # ps) d = (if c = d then Some p else union_arm ps d)"

definition xdr_union ::
    "(32 word \<times> 'u xdrproc) list \<Rightarrow> 'u xdrproc option \<Rightarrow> (32 word \<times> 'u) xdrproc" where
  "xdr_union choices dfault x v =
     (let (dscmp, unp) = v;
          (ok, dscm, x1) = xdr_enum x dscmp in
      if \<not> ok then (False, (dscm, unp), x1)
      else case union_arm choices dscm of
        Some p \<Rightarrow> (let (ok2, unp2, x2) = p x1 unp in (ok2, (dscm, unp2), x2))
      | None \<Rightarrow>
          (case dfault of None \<Rightarrow> (False, (dscm, unp), x1)
           | Some p \<Rightarrow> (let (ok2, unp2, x2) = p x1 unp in (ok2, (dscm, unp2), x2))))"

text \<open>The arm that is taken: the table's, or else the default one.\<close>

definition pick_arm :: "(32 word \<times> 'u xdrproc) list \<Rightarrow> 'u xdrproc option \<Rightarrow> 32 word \<Rightarrow> 'u xdrproc option" where
  "pick_arm cs df d = (case union_arm cs d of Some p \<Rightarrow> Some p | None \<Rightarrow> df)"

lemma xdr_union_pick:
  "xdr_union cs df x v = (let (d0, u) = v; (ok, d, x1) = xdr_enum x d0 in
     if \<not> ok then (False, (d, u), x1)
     else case pick_arm cs df d of
       Some p \<Rightarrow> (let (ok2, u2, x2) = p x1 u in (ok2, (d, u2), x2))
     | None \<Rightarrow> (False, (d, u), x1))"
  by (auto simp: xdr_union_def pick_arm_def split: prod.split option.split)

lemma pick_arm_None [simp]: "pick_arm cs None d = union_arm cs d"
  by (simp add: pick_arm_def split: option.split)

definition strlen :: "byte list \<Rightarrow> nat" where
  "strlen bs = length (takeWhile (\<lambda>b. b \<noteq> 0) bs)"

text \<open>\<open>size\<close> is uninitialised when decoding: 0 here, and always overwritten.\<close>

definition xdr_string :: "32 word \<Rightarrow> (byte list option) xdrproc" where
  "xdr_string maxsize x cpp =
     (let size0 = (if x_op x \<noteq> XDR_DECODE then of_nat (strlen (bytes_at cpp)) else 0);
          (ok, sz, x1) = xdr_u_int x size0 in
      if \<not> ok then (False, cpp, x1)
      else if sz > maxsize then (False, cpp, x1)
      else
        (let nodesize = sz + 1 in
         case x_op x1 of
           XDR_DECODE \<Rightarrow>
             (let (sp, x2) = (case cpp of None \<Rightarrow> mem_alloc x1 nodesize | Some bs \<Rightarrow> (bs, x1));
                  sp1 = sp[unat sz := 0];
                  (ok2, sp2, x3) = xdr_opaque x2 sp1 sz in
              (ok2, Some sp2, x3))
         | XDR_ENCODE \<Rightarrow>
             (let (ok2, sp2, x3) = xdr_opaque x1 (bytes_at cpp) sz in (ok2, cpp, x3))
         | XDR_FREE \<Rightarrow>
             (case cpp of None \<Rightarrow> (True, None, x1)
              | Some sp \<Rightarrow> (True, None, mem_free x1 nodesize))
         | XDR_BADOP \<Rightarrow> (False, cpp, x1)))"

text \<open>
  \<open>bzero\<close> on a fresh object: \<open>z\<close> is the value of an object of zero bytes.
\<close>

definition xdr_reference :: "32 word \<Rightarrow> 'a \<Rightarrow> 'a xdrproc \<Rightarrow> ('a option) xdrproc" where
  "xdr_reference sz z proc x pp =
     (case pp of
        None \<Rightarrow>
          (case x_op x of
             XDR_FREE \<Rightarrow> (True, None, x)
           | XDR_DECODE \<Rightarrow>
               (let (_, x1) = mem_alloc x sz; (stat, v, x2) = proc x1 z in (stat, Some v, x2))
           | _ \<Rightarrow> (let (stat, v, x2) = proc x undefined in (stat, None, x2)))
      | Some w \<Rightarrow>
          (let (stat, v, x2) = proc x w in
           if x_op x2 = XDR_FREE then (stat, None, mem_free x2 sz) else (stat, Some v, x2)))"

text \<open>The loop over the elements: \<open>i\<close> to \<open>c\<close> while the element routine answers TRUE.\<close>

function xdr_elems :: "'a xdrproc \<Rightarrow> xdr \<Rightarrow> 'a list \<Rightarrow> nat \<Rightarrow> nat \<Rightarrow> bool \<times> 'a list \<times> xdr" where
  "xdr_elems proc x xs i c =
     (if i < c
      then (let (stat, v, x1) = proc x (xs ! i); xs1 = xs[i := v] in
            if stat then xdr_elems proc x1 xs1 (Suc i) c else (False, xs1, x1))
      else (True, xs, x))"
  by pat_completeness auto

termination by (relation "measure (\<lambda>(proc, x, xs, i, c). c - i)") auto

declare xdr_elems.simps [simp del]

definition xdr_array ::
    "32 word \<Rightarrow> 32 word \<Rightarrow> 'a \<Rightarrow> 'a xdrproc \<Rightarrow> ('a list option \<times> 32 word) xdrproc" where
  "xdr_array maxsize elsize z elproc x v =
     (let (addrp, size0) = v;
          (ok, c, x1) = xdr_u_int x size0 in
      if \<not> ok then (False, (addrp, c), x1)
      else if c > maxsize \<and> x_op x1 \<noteq> XDR_FREE then (False, (addrp, c), x1)
      else
        (let nodesize = c * elsize in
         if addrp = None \<and> x_op x1 = XDR_DECODE \<and> c = 0 then (True, (None, c), x1)
         else if addrp = None \<and> x_op x1 = XDR_FREE then (True, (None, c), x1)
         else
           (let (target, x2) =
                  (case addrp of
                     Some xs \<Rightarrow> (xs, x1)
                   | None \<Rightarrow> if x_op x1 = XDR_DECODE
                             then (replicate (unat c) z, snd (mem_alloc x1 nodesize)) else ([], x1));
                addrp1 = (if addrp = None \<and> x_op x1 \<noteq> XDR_DECODE then None else Some target);
                (stat, target1, x3) = xdr_elems elproc x2 target 0 (unat c);
                addrp2 = (if addrp1 = None then None else Some target1) in
            if x_op x3 = XDR_FREE then (stat, (None, c), mem_free x3 nodesize)
            else (stat, (addrp2, c), x3))))"

section \<open>Routines on records\<close>

text \<open>
  A routine on one field, \<open>&&\<close> between routines, and a test between them, the three forms the
  record routines of the source are built from.
\<close>

definition fld :: "'a xdrproc \<Rightarrow> ('r \<Rightarrow> 'a) \<Rightarrow> ('a \<Rightarrow> 'r \<Rightarrow> 'r) \<Rightarrow> 'r xdrproc" where
  "fld p get put x r = (let (ok, v, x') = p x (get r) in (ok, put v r, x'))"

definition seqp :: "'r xdrproc \<Rightarrow> 'r xdrproc \<Rightarrow> 'r xdrproc" where
  "seqp p q x r = (let (ok, r1, x1) = p x r in if ok then q x1 r1 else (False, r1, x1))"

definition testp :: "('r \<Rightarrow> bool) \<Rightarrow> 'r xdrproc" where
  "testp b x r = (b r, r, x)"

text \<open>
  A routine applied to a member of a structure, which is replaced, and a row of routines joined by
  \<open>&&\<close>.
\<close>

definition membr :: "'a xdrproc \<Rightarrow> ('r \<Rightarrow> 'a) \<Rightarrow> (('a \<Rightarrow> 'a) \<Rightarrow> 'r \<Rightarrow> 'r) \<Rightarrow> 'r xdrproc" where
  "membr p get upd = fld p get (\<lambda>v. upd (\<lambda>_. v))"

definition seqps :: "'r xdrproc list \<Rightarrow> 'r xdrproc" where
  "seqps ps = foldr seqp ps xdr_void"

end
