(* ===== verification/Rpc_Prot.thy ===== *)
theory Rpc_Prot
  imports Xdr
begin

text \<open>
  The RPC message protocol: RPC/sys/rpc_prot.c over the types of include/rpc/rpc_msg.h,
  include/rpc/auth.h and include/rpc/clnt.h, and the credentials of RPC/sys/auth_uprot.c. An enum
  read from the network can hold any 32 bits, so enum fields are words with named values. The
  members of a C union are separate fields: each routine reads the member its discriminant
  selects.
\<close>

section \<open>Types and constants\<close>

definition MAX_AUTH_BYTES :: "32 word" where "MAX_AUTH_BYTES = 400"
definition RPC_MSG_VERSION :: "32 word" where "RPC_MSG_VERSION = 2"

text \<open>\<open>enum msg_type\<close>, \<open>reply_stat\<close>, \<open>accept_stat\<close> and \<open>reject_stat\<close>.\<close>

definition CALL :: "32 word" where "CALL = 0"
definition REPLY :: "32 word" where "REPLY = 1"
definition MSG_ACCEPTED :: "32 word" where "MSG_ACCEPTED = 0"
definition MSG_DENIED :: "32 word" where "MSG_DENIED = 1"
definition SUCCESS :: "32 word" where "SUCCESS = 0"
definition PROG_UNAVAIL :: "32 word" where "PROG_UNAVAIL = 1"
definition PROG_MISMATCH :: "32 word" where "PROG_MISMATCH = 2"
definition PROC_UNAVAIL :: "32 word" where "PROC_UNAVAIL = 3"
definition GARBAGE_ARGS :: "32 word" where "GARBAGE_ARGS = 4"
definition SYSTEM_ERR :: "32 word" where "SYSTEM_ERR = 5"
definition RPC_MISMATCH :: "32 word" where "RPC_MISMATCH = 0"
definition AUTH_ERROR :: "32 word" where "AUTH_ERROR = 1"

lemmas rpc_consts = MAX_AUTH_BYTES_def RPC_MSG_VERSION_def CALL_def REPLY_def MSG_ACCEPTED_def
  MSG_DENIED_def SUCCESS_def PROG_UNAVAIL_def PROG_MISMATCH_def PROC_UNAVAIL_def GARBAGE_ARGS_def
  SYSTEM_ERR_def RPC_MISMATCH_def AUTH_ERROR_def

text \<open>\<open>enum clnt_stat\<close>, the values the reply side stores.\<close>

definition RPC_SUCCESS :: "32 word" where "RPC_SUCCESS = 0"
definition RPC_VERSMISMATCH :: "32 word" where "RPC_VERSMISMATCH = 6"
definition RPC_AUTHERROR :: "32 word" where "RPC_AUTHERROR = 7"
definition RPC_PROGUNAVAIL :: "32 word" where "RPC_PROGUNAVAIL = 8"
definition RPC_PROGVERSMISMATCH :: "32 word" where "RPC_PROGVERSMISMATCH = 9"
definition RPC_PROCUNAVAIL :: "32 word" where "RPC_PROCUNAVAIL = 10"
definition RPC_CANTDECODEARGS :: "32 word" where "RPC_CANTDECODEARGS = 11"
definition RPC_SYSTEMERROR :: "32 word" where "RPC_SYSTEMERROR = 12"
definition RPC_FAILED :: "32 word" where "RPC_FAILED = 16"

lemmas clnt_consts = RPC_SUCCESS_def RPC_VERSMISMATCH_def RPC_AUTHERROR_def RPC_PROGUNAVAIL_def
  RPC_PROGVERSMISMATCH_def RPC_PROCUNAVAIL_def RPC_CANTDECODEARGS_def RPC_SYSTEMERROR_def RPC_FAILED_def

record opaque_auth =
  oa_flavor :: "32 word"
  oa_base :: "byte list option"
  oa_length :: "32 word"

record 'r accepted_reply =
  ar_verf :: opaque_auth
  ar_stat :: "32 word"
  ar_low :: "32 word"
  ar_high :: "32 word"
  ar_where :: 'r
  ar_proc :: "'r xdrproc"

record rejected_reply =
  rj_stat :: "32 word"
  rj_low :: "32 word"
  rj_high :: "32 word"
  rj_why :: "32 word"

record 'r reply_body =
  rp_stat :: "32 word"
  rp_acpt :: "'r accepted_reply"
  rp_rjct :: rejected_reply

record call_body =
  cb_rpcvers :: "32 word"
  cb_prog :: "32 word"
  cb_vers :: "32 word"
  cb_proc :: "32 word"
  cb_cred :: opaque_auth
  cb_verf :: opaque_auth

record 'r rpc_msg =
  rm_xid :: "32 word"
  rm_direction :: "32 word"
  rm_call :: call_body
  rm_reply :: "'r reply_body"

record rpc_err =
  re_status :: "32 word"
  re_why :: "32 word"
  re_low :: "32 word"
  re_high :: "32 word"
  re_s1 :: "32 word"
  re_s2 :: "32 word"

section \<open>The parts of a message\<close>

definition xdr_opaque_auth :: "opaque_auth xdrproc" where
  "xdr_opaque_auth =
     seqp (fld xdr_enum oa_flavor (\<lambda>v ap. ap\<lparr>oa_flavor := v\<rparr>))
          (fld (xdr_bytes MAX_AUTH_BYTES) (\<lambda>ap. (oa_base ap, oa_length ap))
               (\<lambda>(b, n) ap. ap\<lparr>oa_base := b, oa_length := n\<rparr>))"

text \<open>The switch on \<open>ar_stat\<close>, the same in \<open>xdr_accepted_reply\<close> and in both fast paths.\<close>

definition accepted_arm :: "('r accepted_reply) xdrproc" where
  "accepted_arm x ar =
     (if ar_stat ar = SUCCESS then fld (ar_proc ar) ar_where (\<lambda>v r. r\<lparr>ar_where := v\<rparr>) x ar
      else if ar_stat ar = PROG_MISMATCH then
        seqp (fld xdr_u_long ar_low (\<lambda>v r. r\<lparr>ar_low := v\<rparr>))
             (fld xdr_u_long ar_high (\<lambda>v r. r\<lparr>ar_high := v\<rparr>)) x ar
      else (True, ar, x))"

definition xdr_accepted_reply :: "('r accepted_reply) xdrproc" where
  "xdr_accepted_reply =
     seqp (fld xdr_opaque_auth ar_verf (\<lambda>v r. r\<lparr>ar_verf := v\<rparr>))
       (seqp (fld xdr_enum ar_stat (\<lambda>v r. r\<lparr>ar_stat := v\<rparr>)) accepted_arm)"

definition rejected_arm :: "rejected_reply xdrproc" where
  "rejected_arm x rr =
     (if rj_stat rr = RPC_MISMATCH then
        seqp (fld xdr_u_long rj_low (\<lambda>v r. r\<lparr>rj_low := v\<rparr>))
             (fld xdr_u_long rj_high (\<lambda>v r. r\<lparr>rj_high := v\<rparr>)) x rr
      else if rj_stat rr = AUTH_ERROR then fld xdr_enum rj_why (\<lambda>v r. r\<lparr>rj_why := v\<rparr>) x rr
      else (False, rr, x))"

definition xdr_rejected_reply :: "rejected_reply xdrproc" where
  "xdr_rejected_reply = seqp (fld xdr_enum rj_stat (\<lambda>v r. r\<lparr>rj_stat := v\<rparr>)) rejected_arm"

definition RNDUP :: "32 word \<Rightarrow> 32 word" where
  "RNDUP x = ((x + BYTES_PER_XDR_UNIT - 1) div BYTES_PER_XDR_UNIT) * BYTES_PER_XDR_UNIT"

text \<open>The union of the reply body is the pair of its two members.\<close>

definition reply_dscrm :: "(32 word \<times> ('r accepted_reply \<times> rejected_reply) xdrproc) list" where
  "reply_dscrm =
     [(MSG_ACCEPTED, fld xdr_accepted_reply fst (\<lambda>v u. (v, snd u))),
      (MSG_DENIED, fld xdr_rejected_reply snd (\<lambda>v u. (fst u, v)))]"

section \<open>Fast paths\<close>

text \<open>A run of \<open>IXDR_PUT_LONG\<close>, and of \<open>IXDR_GET_LONG\<close>.\<close>

fun ixdr_puts :: "xdr \<Rightarrow> addr \<Rightarrow> 32 word list \<Rightarrow> xdr \<times> addr" where
  "ixdr_puts x buf [] = (x, buf)"
| "ixdr_puts x buf (v # vs) = (let (x1, buf1) = IXDR_PUT_LONG x buf v in ixdr_puts x1 buf1 vs)"

text \<open>Flavor and length, then the bytes; the buffer pointer advances by whole units.\<close>

definition ixdr_put_auth :: "xdr \<Rightarrow> addr \<Rightarrow> opaque_auth \<Rightarrow> xdr \<times> addr" where
  "ixdr_put_auth x buf oa =
     (let (x1, buf1) = ixdr_puts x buf [oa_flavor oa, oa_length oa] in
      if oa_length oa \<noteq> 0
      then (x1\<lparr>x_mem := wrmem (x_mem x1) buf1 (rdbuf (bytes_at (oa_base oa)) (unat (oa_length oa)))\<rparr>,
            buf1 + ((oa_length oa + BYTES_PER_XDR_UNIT - 1) div 4) * 4)
      else (x1, buf1))"

definition set_acpt :: "('r accepted_reply \<Rightarrow> 'r accepted_reply) \<Rightarrow> 'r rpc_msg \<Rightarrow> 'r rpc_msg" where
  "set_acpt f m = m\<lparr>rm_reply := (rm_reply m)\<lparr>rp_acpt := f (rp_acpt (rm_reply m))\<rparr>\<rparr>"

definition set_rjct :: "rejected_reply \<Rightarrow> 'r rpc_msg \<Rightarrow> 'r rpc_msg" where
  "set_rjct v m = m\<lparr>rm_reply := (rm_reply m)\<lparr>rp_rjct := v\<rparr>\<rparr>"

definition fld_acpt :: "('r accepted_reply) xdrproc \<Rightarrow> ('r rpc_msg) xdrproc" where
  "fld_acpt p = fld p (\<lambda>m. rp_acpt (rm_reply m)) (\<lambda>v. set_acpt (\<lambda>_. v))"

definition replymsg_put :: "xdr \<Rightarrow> addr \<Rightarrow> 'r rpc_msg \<Rightarrow> bool \<times> 'r rpc_msg \<times> xdr" where
  "replymsg_put x buf rmsg =
     (let ar = rp_acpt (rm_reply rmsg);
          (x1, buf1) = ixdr_puts x buf [rm_xid rmsg, rm_direction rmsg, rp_stat (rm_reply rmsg)];
          (x2, buf2) = ixdr_put_auth x1 buf1 (ar_verf ar);
          (x3, buf3) = ixdr_puts x2 buf2 [ar_stat ar] in
      fld_acpt accepted_arm x3 rmsg)"

text \<open>
  The head of an authenticator: two longs in line, or through the generic routines when fewer
  than eight bytes are at hand.
\<close>

definition get_auth_head :: "opaque_auth xdrproc" where
  "get_auth_head x oa =
     (case XDR_INLINE x (2 * BYTES_PER_XDR_UNIT) of
        (Some buf, x1) \<Rightarrow>
          (let (v1, buf1) = IXDR_GET_LONG x1 buf; (v2, buf2) = IXDR_GET_LONG x1 buf1 in
           (True, oa\<lparr>oa_flavor := v1, oa_length := v2\<rparr>, x1))
      | (None, x1) \<Rightarrow>
          seqp (fld xdr_enum oa_flavor (\<lambda>v r. r\<lparr>oa_flavor := v\<rparr>))
               (fld xdr_u_int oa_length (\<lambda>v r. r\<lparr>oa_length := v\<rparr>)) x1 oa)"

text \<open>The body of an authenticator of nonzero length.\<close>

definition get_auth_body :: "opaque_auth xdrproc" where
  "get_auth_body x oa =
     (if oa_length oa = 0 then (True, oa, x)
      else if oa_length oa > MAX_AUTH_BYTES then (False, oa, x)
      else
        (let (base, x1) = (case oa_base oa of
                             None \<Rightarrow> mem_alloc x (oa_length oa)
                           | Some b \<Rightarrow> (b, x)) in
         case XDR_INLINE x1 (RNDUP (oa_length oa)) of
           (None, x2) \<Rightarrow>
             (let (ok, base1, x3) = xdr_opaque x2 base (oa_length oa) in
              (ok, oa\<lparr>oa_base := Some base1\<rparr>, x3))
         | (Some buf, x2) \<Rightarrow>
             (True, oa\<lparr>oa_base := Some (wrbuf base (rdmem (x_mem x2) buf (unat (oa_length oa))))\<rparr>, x2)))"

text \<open>The result of \<open>xdr_enum\<close> on \<open>ar_stat\<close> is not looked at.\<close>

definition ignoring :: "'a xdrproc \<Rightarrow> 'a xdrproc" where
  "ignoring p x v = (let (ok, v1, x1) = p x v in (True, v1, x1))"

definition replymsg_get :: "xdr \<Rightarrow> addr \<Rightarrow> 'r rpc_msg \<Rightarrow> bool \<times> 'r rpc_msg \<times> xdr" where
  "replymsg_get x buf rmsg0 =
     (let (xid, buf1) = IXDR_GET_LONG x buf;
          (dir, buf2) = IXDR_GET_LONG x buf1;
          rmsg1 = rmsg0\<lparr>rm_xid := xid, rm_direction := dir\<rparr> in
      if dir \<noteq> REPLY then (False, rmsg1, x)
      else
        (let (st, buf3) = IXDR_GET_LONG x buf2;
             rmsg = rmsg1\<lparr>rm_reply := (rm_reply rmsg1)\<lparr>rp_stat := st\<rparr>\<rparr> in
         if st \<noteq> MSG_ACCEPTED then
           (if st = MSG_DENIED
            then fld xdr_rejected_reply (\<lambda>m. rp_rjct (rm_reply m)) set_rjct x rmsg
            else (False, rmsg, x))
         else
           fld_acpt
             (seqp (fld (seqp get_auth_head get_auth_body) ar_verf (\<lambda>v r. r\<lparr>ar_verf := v\<rparr>))
                (seqp (ignoring (fld xdr_enum ar_stat (\<lambda>v r. r\<lparr>ar_stat := v\<rparr>))) accepted_arm)) x rmsg))"

definition replymsg_generic :: "('r rpc_msg) xdrproc" where
  "replymsg_generic =
     seqp (fld xdr_u_long rm_xid (\<lambda>v m. m\<lparr>rm_xid := v\<rparr>))
       (seqp (fld xdr_enum rm_direction (\<lambda>v m. m\<lparr>rm_direction := v\<rparr>))
          (seqp (testp (\<lambda>m. rm_direction m = REPLY))
             (fld (xdr_union reply_dscrm None)
                (\<lambda>m. (rp_stat (rm_reply m), rp_acpt (rm_reply m), rp_rjct (rm_reply m)))
                (\<lambda>(s, a, d) m. m\<lparr>rm_reply := \<lparr>rp_stat = s, rp_acpt = a, rp_rjct = d\<rparr>\<rparr>))))"

definition xdr_replymsg :: "('r rpc_msg) xdrproc" where
  "xdr_replymsg x rmsg =
     (if x_op x = XDR_ENCODE \<and> rp_stat (rm_reply rmsg) = MSG_ACCEPTED \<and> rm_direction rmsg = REPLY then
        (case XDR_INLINE x (6 * BYTES_PER_XDR_UNIT + oa_length (ar_verf (rp_acpt (rm_reply rmsg)))) of
           (Some buf, x1) \<Rightarrow> replymsg_put x1 buf rmsg
         | (None, x1) \<Rightarrow> replymsg_generic x1 rmsg)
      else if x_op x = XDR_DECODE then
        (case XDR_INLINE x (3 * BYTES_PER_XDR_UNIT) of
           (Some buf, x1) \<Rightarrow> replymsg_get x1 buf rmsg
         | (None, x1) \<Rightarrow> replymsg_generic x1 rmsg)
      else replymsg_generic x rmsg)"

section \<open>Call messages\<close>

definition callmsg_put :: "xdr \<Rightarrow> addr \<Rightarrow> 'r rpc_msg \<Rightarrow> bool \<times> 'r rpc_msg \<times> xdr" where
  "callmsg_put x buf cmsg =
     (let cb = rm_call cmsg;
          (x1, buf1) = ixdr_puts x buf [rm_xid cmsg, rm_direction cmsg] in
      if rm_direction cmsg \<noteq> CALL then (False, cmsg, x1)
      else
        (let (x2, buf2) = ixdr_puts x1 buf1 [cb_rpcvers cb] in
         if cb_rpcvers cb \<noteq> RPC_MSG_VERSION then (False, cmsg, x2)
         else
           (let (x3, buf3) = ixdr_puts x2 buf2 [cb_prog cb, cb_vers cb, cb_proc cb];
                (x4, buf4) = ixdr_put_auth x3 buf3 (cb_cred cb);
                (x5, buf5) = ixdr_put_auth x4 buf4 (cb_verf cb) in
            (True, cmsg, x5))))"

definition fld_call :: "call_body xdrproc \<Rightarrow> ('r rpc_msg) xdrproc" where
  "fld_call p = fld p rm_call (\<lambda>v m. m\<lparr>rm_call := v\<rparr>)"

definition callmsg_get :: "xdr \<Rightarrow> addr \<Rightarrow> 'r rpc_msg \<Rightarrow> bool \<times> 'r rpc_msg \<times> xdr" where
  "callmsg_get x buf cmsg0 =
     (let (xid, buf1) = IXDR_GET_LONG x buf;
          (dir, buf2) = IXDR_GET_LONG x buf1;
          cmsg1 = cmsg0\<lparr>rm_xid := xid, rm_direction := dir\<rparr> in
      if dir \<noteq> CALL then (False, cmsg1, x)
      else
        (let (vers, buf3) = IXDR_GET_LONG x buf2;
             cb1 = (rm_call cmsg1)\<lparr>cb_rpcvers := vers\<rparr> in
         if vers \<noteq> RPC_MSG_VERSION then (False, cmsg1\<lparr>rm_call := cb1\<rparr>, x)
         else
           (let (prog, buf4) = IXDR_GET_LONG x buf3;
                (pvers, buf5) = IXDR_GET_LONG x buf4;
                (proc, buf6) = IXDR_GET_LONG x buf5;
                (fl, buf7) = IXDR_GET_LONG x buf6;
                (len, buf8) = IXDR_GET_LONG x buf7;
                cb2 = cb1\<lparr>cb_prog := prog, cb_vers := pvers, cb_proc := proc,
                          cb_cred := (cb_cred cb1)\<lparr>oa_flavor := fl, oa_length := len\<rparr>\<rparr> in
            fld_call
              (seqp (fld get_auth_body cb_cred (\<lambda>v r. r\<lparr>cb_cred := v\<rparr>))
                 (fld (seqp get_auth_head get_auth_body) cb_verf (\<lambda>v r. r\<lparr>cb_verf := v\<rparr>)))
              x (cmsg1\<lparr>rm_call := cb2\<rparr>))))"

definition callmsg_generic :: "('r rpc_msg) xdrproc" where
  "callmsg_generic =
     seqp (fld xdr_u_long rm_xid (\<lambda>v m. m\<lparr>rm_xid := v\<rparr>))
       (seqp (fld xdr_enum rm_direction (\<lambda>v m. m\<lparr>rm_direction := v\<rparr>))
         (seqp (testp (\<lambda>m. rm_direction m = CALL))
           (fld_call
             (seqp (fld xdr_u_long cb_rpcvers (\<lambda>v r. r\<lparr>cb_rpcvers := v\<rparr>))
               (seqp (testp (\<lambda>r. cb_rpcvers r = RPC_MSG_VERSION))
                 (seqp (fld xdr_u_long cb_prog (\<lambda>v r. r\<lparr>cb_prog := v\<rparr>))
                   (seqp (fld xdr_u_long cb_vers (\<lambda>v r. r\<lparr>cb_vers := v\<rparr>))
                     (seqp (fld xdr_u_long cb_proc (\<lambda>v r. r\<lparr>cb_proc := v\<rparr>))
                       (seqp (fld xdr_opaque_auth cb_cred (\<lambda>v r. r\<lparr>cb_cred := v\<rparr>))
                         (fld xdr_opaque_auth cb_verf (\<lambda>v r. r\<lparr>cb_verf := v\<rparr>)))))))))))"

definition xdr_callmsg :: "('r rpc_msg) xdrproc" where
  "xdr_callmsg x cmsg =
     (let cred = cb_cred (rm_call cmsg); verf = cb_verf (rm_call cmsg) in
      if x_op x = XDR_ENCODE then
        (if oa_length cred > MAX_AUTH_BYTES then (False, cmsg, x)
         else if oa_length verf > MAX_AUTH_BYTES then (False, cmsg, x)
         else
           (case XDR_INLINE x (8 * BYTES_PER_XDR_UNIT + RNDUP (oa_length cred)
                               + 2 * BYTES_PER_XDR_UNIT + RNDUP (oa_length verf)) of
              (Some buf, x1) \<Rightarrow> callmsg_put x1 buf cmsg
            | (None, x1) \<Rightarrow> callmsg_generic x1 cmsg))
      else if x_op x = XDR_DECODE then
        (case XDR_INLINE x (8 * BYTES_PER_XDR_UNIT) of
           (Some buf, x1) \<Rightarrow> callmsg_get x1 buf cmsg
         | (None, x1) \<Rightarrow> callmsg_generic x1 cmsg)
      else callmsg_generic x cmsg)"

definition xdr_callhdr :: "('r rpc_msg) xdrproc" where
  "xdr_callhdr x cmsg0 =
     (let cmsg = cmsg0\<lparr>rm_direction := CALL, rm_call := (rm_call cmsg0)\<lparr>cb_rpcvers := RPC_MSG_VERSION\<rparr>\<rparr> in
      if x_op x \<noteq> XDR_ENCODE then (False, cmsg, x)
      else
        seqp (fld xdr_u_long rm_xid (\<lambda>v m. m\<lparr>rm_xid := v\<rparr>))
          (seqp (fld xdr_enum rm_direction (\<lambda>v m. m\<lparr>rm_direction := v\<rparr>))
             (fld_call
               (seqp (fld xdr_u_long cb_rpcvers (\<lambda>v r. r\<lparr>cb_rpcvers := v\<rparr>))
                  (seqp (fld xdr_u_long cb_prog (\<lambda>v r. r\<lparr>cb_prog := v\<rparr>))
                     (fld xdr_u_long cb_vers (\<lambda>v r. r\<lparr>cb_vers := v\<rparr>)))))) x cmsg)"

section \<open>The error of a reply\<close>

definition accepted :: "32 word \<Rightarrow> rpc_err \<Rightarrow> rpc_err" where
  "accepted acpt_stat e =
     (if acpt_stat = PROG_UNAVAIL then e\<lparr>re_status := RPC_PROGUNAVAIL\<rparr>
      else if acpt_stat = PROG_MISMATCH then e\<lparr>re_status := RPC_PROGVERSMISMATCH\<rparr>
      else if acpt_stat = PROC_UNAVAIL then e\<lparr>re_status := RPC_PROCUNAVAIL\<rparr>
      else if acpt_stat = GARBAGE_ARGS then e\<lparr>re_status := RPC_CANTDECODEARGS\<rparr>
      else if acpt_stat = SYSTEM_ERR then e\<lparr>re_status := RPC_SYSTEMERROR\<rparr>
      else if acpt_stat = SUCCESS then e\<lparr>re_status := RPC_SUCCESS\<rparr>
      else e\<lparr>re_status := RPC_FAILED, re_s1 := MSG_ACCEPTED, re_s2 := acpt_stat\<rparr>)"

definition rejected :: "32 word \<Rightarrow> rpc_err \<Rightarrow> rpc_err" where
  "rejected rjct_stat e =
     (if rjct_stat = RPC_VERSMISMATCH then e\<lparr>re_status := RPC_VERSMISMATCH\<rparr>
      else if rjct_stat = AUTH_ERROR then e\<lparr>re_status := RPC_AUTHERROR\<rparr>
      else e\<lparr>re_status := RPC_FAILED, re_s1 := MSG_DENIED, re_s2 := rjct_stat\<rparr>)"

definition seterr_reply :: "'r rpc_msg \<Rightarrow> rpc_err \<Rightarrow> rpc_err" where
  "seterr_reply msg e0 =
     (let rp = rm_reply msg in
      if rp_stat rp = MSG_ACCEPTED \<and> ar_stat (rp_acpt rp) = SUCCESS then e0\<lparr>re_status := RPC_SUCCESS\<rparr>
      else
        (let e = (if rp_stat rp = MSG_ACCEPTED then accepted (ar_stat (rp_acpt rp)) e0
                  else if rp_stat rp = MSG_DENIED then rejected (rj_stat (rp_rjct rp)) e0
                  else e0\<lparr>re_status := RPC_FAILED, re_s1 := rp_stat rp\<rparr>) in
         if re_status e = RPC_VERSMISMATCH
         then e\<lparr>re_low := rj_low (rp_rjct rp), re_high := rj_high (rp_rjct rp)\<rparr>
         else if re_status e = RPC_AUTHERROR then e\<lparr>re_why := rj_why (rp_rjct rp)\<rparr>
         else if re_status e = RPC_PROGVERSMISMATCH
         then e\<lparr>re_low := ar_low (rp_acpt rp), re_high := ar_high (rp_acpt rp)\<rparr>
         else e))"

section \<open>UNIX credentials (RPC/sys/auth_uprot.c)\<close>

definition MAX_MACHINE_NAME :: "32 word" where "MAX_MACHINE_NAME = 255"
definition NGRPS :: "32 word" where "NGRPS = 8"

record authunix_parms =
  aup_time :: "32 word"
  aup_machname :: "byte list option"
  aup_uid :: "32 word"
  aup_gid :: "32 word"
  aup_len :: "32 word"
  aup_gids :: "32 word list option"

definition xdr_authunix_parms :: "authunix_parms xdrproc" where
  "xdr_authunix_parms =
     seqp (fld xdr_u_long aup_time (\<lambda>v p. p\<lparr>aup_time := v\<rparr>))
       (seqp (fld (xdr_string MAX_MACHINE_NAME) aup_machname (\<lambda>v p. p\<lparr>aup_machname := v\<rparr>))
         (seqp (fld xdr_int aup_uid (\<lambda>v p. p\<lparr>aup_uid := v\<rparr>))
           (seqp (fld xdr_int aup_gid (\<lambda>v p. p\<lparr>aup_gid := v\<rparr>))
             (fld (xdr_array NGRPS 4 0 xdr_int) (\<lambda>p. (aup_gids p, aup_len p))
                  (\<lambda>(g, n) p. p\<lparr>aup_gids := g, aup_len := n\<rparr>)))))"

text \<open>
  \<open>xdr_authkern\<close> sends the caller's credentials: \<open>time.tv_sec\<close>, \<open>hostname\<close>, the user and group
  ids of the user area and the group list up to its last entry that is not negative.
\<close>

fun group_len :: "32 word list \<Rightarrow> nat \<Rightarrow> nat" where
  "group_len gs 0 = 0"
| "group_len gs (Suc n) = (if 0 \<le> sint (gs ! n) then Suc n else group_len gs n)"

definition xdr_authkern ::
    "32 word \<Rightarrow> byte list \<Rightarrow> 32 word \<Rightarrow> 32 word \<Rightarrow> 32 word list \<Rightarrow> xdr \<Rightarrow> bool \<times> xdr" where
  "xdr_authkern now hostname uid gid groups x =
     (if x_op x \<noteq> XDR_ENCODE then (False, x)
      else
        (let len = of_nat (group_len groups (unat NGRPS)) in
         let (ok, p, x') = xdr_authunix_parms x
               \<lparr>aup_time = now, aup_machname = Some hostname, aup_uid = uid, aup_gid = gid,
                aup_len = len, aup_gids = Some groups\<rparr> in
         (ok, x')))"

end
