(* ===== verification/Xdr_Laws.thy ===== *)
theory Xdr_Laws
  imports Xdr
begin

text \<open>
  The contract between the XDR routines and the streams. The wire format is given by reference
  parsers and encoders on byte lists; \<open>xdr_decoder\<close> and \<open>xdr_encoder\<close> are what a stream
  implementation promises of its operations vector, and under them every routine of xdr.c,
  xdr_array.c and xdr_ref.c is shown to implement its parser and its encoder.
\<close>

section \<open>The wire format\<close>

text \<open>A parser gets the object's value before, since decoding into an existing buffer keeps its tail.\<close>

type_synonym 'a parser = "byte list \<Rightarrow> 'a \<Rightarrow> ('a \<times> byte list) option"
type_synonym 'a encoder = "'a \<Rightarrow> byte list option"

definition padlen :: "nat \<Rightarrow> nat" where
  "padlen n = (4 - n mod 4) mod 4"

definition p_long :: "(32 word) parser" where
  "p_long inp v = (if length inp < 4 then None else Some (un_be32 (take 4 inp), drop 4 inp))"

definition e_long :: "(32 word) encoder" where
  "e_long v = Some (be32 v)"

definition p_short :: "(16 word) parser" where
  "p_short inp v = (case p_long inp 0 of None \<Rightarrow> None | Some (l, r) \<Rightarrow> Some (ucast l, r))"

definition p_bool :: "(32 word) parser" where
  "p_bool inp v = (case p_long inp 0 of None \<Rightarrow> None | Some (l, r) \<Rightarrow> Some (if l = 0 then 0 else 1, r))"

definition p_opaque :: "nat \<Rightarrow> (byte list) parser" where
  "p_opaque n inp cp =
     (if length inp < n + padlen n then None else Some (wrbuf cp (take n inp), drop (n + padlen n) inp))"

definition e_opaque :: "nat \<Rightarrow> (byte list) encoder" where
  "e_opaque n cp = Some (rdbuf cp n @ replicate (padlen n) 0)"

definition p_bytes :: "32 word \<Rightarrow> (byte list option \<times> 32 word) parser" where
  "p_bytes maxsize inp v =
     (case p_long inp (snd v) of
        None \<Rightarrow> None
      | Some (n, r) \<Rightarrow>
          if n > maxsize then None
          else (case p_opaque (unat n) r (bytes_at (fst v)) of
                  None \<Rightarrow> None | Some (bs, r') \<Rightarrow> Some ((Some bs, n), r')))"

definition e_bytes :: "32 word \<Rightarrow> (byte list option \<times> 32 word) encoder" where
  "e_bytes maxsize v =
     (if snd v > maxsize then None
      else Some (be32 (snd v) @ rdbuf (bytes_at (fst v)) (unat (snd v)) @ replicate (padlen (unat (snd v))) 0))"

definition p_union :: "(32 word \<Rightarrow> 'u parser option) \<Rightarrow> (32 word \<times> 'u) parser" where
  "p_union arm inp v =
     (case p_long inp (fst v) of
        None \<Rightarrow> None
      | Some (d, r) \<Rightarrow>
          (case arm d of None \<Rightarrow> None
           | Some P \<Rightarrow> (case P r (snd v) of None \<Rightarrow> None | Some (u, r') \<Rightarrow> Some ((d, u), r'))))"

definition e_union :: "(32 word \<Rightarrow> 'u encoder option) \<Rightarrow> (32 word \<times> 'u) encoder" where
  "e_union arm v =
     (case arm (fst v) of None \<Rightarrow> None
      | Some E \<Rightarrow> (case E (snd v) of None \<Rightarrow> None | Some bs \<Rightarrow> Some (be32 (fst v) @ bs)))"

definition p_string :: "32 word \<Rightarrow> (byte list option) parser" where
  "p_string maxsize inp cpp =
     (case p_long inp 0 of
        None \<Rightarrow> None
      | Some (n, r) \<Rightarrow>
          if n > maxsize then None
          else if length r < unat n + padlen (unat n) then None
          else Some (Some (wrbuf ((case cpp of None \<Rightarrow> replicate (Suc (unat n)) 0 | Some b \<Rightarrow> b)[unat n := 0])
                             (take (unat n) r)),
                     drop (unat n + padlen (unat n)) r))"

definition e_string :: "32 word \<Rightarrow> (byte list option) encoder" where
  "e_string maxsize cpp =
     (let n = strlen (bytes_at cpp) in
      if (of_nat n :: 32 word) > maxsize then None
      else Some (be32 (of_nat n) @ take n (bytes_at cpp) @ replicate (padlen n) 0))"

definition p_reference :: "'a \<Rightarrow> 'a parser \<Rightarrow> ('a option) parser" where
  "p_reference z P inp pp =
     (case P inp (case pp of None \<Rightarrow> z | Some v \<Rightarrow> v) of None \<Rightarrow> None | Some (v, r) \<Rightarrow> Some (Some v, r))"

fun p_elems :: "'a parser \<Rightarrow> byte list \<Rightarrow> 'a list \<Rightarrow> ('a list \<times> byte list) option" where
  "p_elems P inp [] = Some ([], inp)"
| "p_elems P inp (v # vs) =
     (case P inp v of None \<Rightarrow> None
      | Some (v', r) \<Rightarrow> (case p_elems P r vs of None \<Rightarrow> None | Some (vs', r') \<Rightarrow> Some (v' # vs', r')))"

fun e_elems :: "'a encoder \<Rightarrow> 'a list encoder" where
  "e_elems E [] = Some []"
| "e_elems E (v # vs) =
     (case E v of None \<Rightarrow> None
      | Some b \<Rightarrow> (case e_elems E vs of None \<Rightarrow> None | Some bs \<Rightarrow> Some (b @ bs)))"

text \<open>An array decoded into a NULL pointer: \<open>c\<close> fresh elements, or NULL again when \<open>c = 0\<close>.\<close>

definition p_array :: "32 word \<Rightarrow> 'a \<Rightarrow> 'a parser \<Rightarrow> ('a list option \<times> 32 word) parser" where
  "p_array maxsize z P inp v =
     (case p_long inp (snd v) of
        None \<Rightarrow> None
      | Some (c, r) \<Rightarrow>
          if c > maxsize then None
          else if fst v = None \<and> c = 0 then Some ((None, c), r)
          else (case p_elems P r (take (unat c) (case fst v of None \<Rightarrow> replicate (unat c) z | Some xs \<Rightarrow> xs)) of
                  None \<Rightarrow> None
                | Some (vs, r') \<Rightarrow>
                    Some ((Some (vs @ drop (unat c) (case fst v of None \<Rightarrow> [] | Some xs \<Rightarrow> xs)), c), r')))"

definition e_array :: "32 word \<Rightarrow> 'a encoder \<Rightarrow> ('a list option \<times> 32 word) encoder" where
  "e_array maxsize E v =
     (if snd v > maxsize then None
      else (case e_elems E (take (unat (snd v)) (case fst v of None \<Rightarrow> [] | Some xs \<Rightarrow> xs)) of
              None \<Rightarrow> None | Some bs \<Rightarrow> Some (be32 (snd v) @ bs)))"

text \<open>Records, field by field.\<close>

definition p_fld :: "'a parser \<Rightarrow> ('r \<Rightarrow> 'a) \<Rightarrow> ('a \<Rightarrow> 'r \<Rightarrow> 'r) \<Rightarrow> 'r parser" where
  "p_fld P get put inp r = (case P inp (get r) of None \<Rightarrow> None | Some (v, rest) \<Rightarrow> Some (put v r, rest))"

definition p_seq :: "'r parser \<Rightarrow> 'r parser \<Rightarrow> 'r parser" where
  "p_seq P Q inp r = (case P inp r of None \<Rightarrow> None | Some (r1, rest) \<Rightarrow> Q rest r1)"

definition p_test :: "('r \<Rightarrow> bool) \<Rightarrow> 'r parser" where
  "p_test b inp r = (if b r then Some (r, inp) else None)"

definition e_fld :: "'a encoder \<Rightarrow> ('r \<Rightarrow> 'a) \<Rightarrow> 'r encoder" where
  "e_fld E get r = E (get r)"

definition e_seq :: "'r encoder \<Rightarrow> 'r encoder \<Rightarrow> 'r encoder" where
  "e_seq E F r = (case E r of None \<Rightarrow> None
     | Some a \<Rightarrow> (case F r of None \<Rightarrow> None | Some b \<Rightarrow> Some (a @ b)))"

definition e_test :: "('r \<Rightarrow> bool) \<Rightarrow> 'r encoder" where
  "e_test b r = (if b r then Some [] else None)"

definition p_void :: "'r parser" where
  "p_void inp r = Some (r, inp)"

definition e_void :: "'r encoder" where
  "e_void r = Some []"

definition p_membr :: "'a parser \<Rightarrow> ('r \<Rightarrow> 'a) \<Rightarrow> (('a \<Rightarrow> 'a) \<Rightarrow> 'r \<Rightarrow> 'r) \<Rightarrow> 'r parser" where
  "p_membr P get upd = p_fld P get (\<lambda>v. upd (\<lambda>_. v))"

definition p_seqs :: "'r parser list \<Rightarrow> 'r parser" where
  "p_seqs Ps = foldr p_seq Ps p_void"

definition e_seqs :: "'r encoder list \<Rightarrow> 'r encoder" where
  "e_seqs Es = foldr e_seq Es e_void"

section \<open>What it means to implement a parser or an encoder\<close>

definition parses ::
    "(xdr \<Rightarrow> bool) \<Rightarrow> (xdr \<Rightarrow> byte list) \<Rightarrow> 'a xdrproc \<Rightarrow> 'a parser \<Rightarrow> 'a \<Rightarrow> bool" where
  "parses good inp proc P v =
     (\<forall>x. good x \<and> 4 dvd length (inp x) \<longrightarrow>
        (case P (inp x) v of
           None \<Rightarrow> \<not> fst (proc x v)
         | Some (v', r) \<Rightarrow>
             (\<exists>x'. proc x v = (True, v', x') \<and> good x' \<and> inp x' = r \<and> 4 dvd length r)))"

definition encodes ::
    "(xdr \<Rightarrow> bool) \<Rightarrow> (xdr \<Rightarrow> byte list) \<Rightarrow> (xdr \<Rightarrow> nat) \<Rightarrow> 'a xdrproc \<Rightarrow> 'a encoder \<Rightarrow> 'a \<Rightarrow> bool" where
  "encodes good out room proc E v =
     (\<forall>x. good x \<and> 4 dvd room x \<longrightarrow>
        (case E v of
           None \<Rightarrow> \<not> fst (proc x v)
         | Some bs \<Rightarrow>
             if length bs \<le> room x
             then (\<exists>x'. proc x v = (True, v, x') \<and> good x' \<and> out x' = out x @ bs
                        \<and> room x' + length bs = room x \<and> 4 dvd length bs)
             else \<not> fst (proc x v)))"

lemma parsesD:
  assumes "parses good inp proc P v" "good x" "4 dvd length (inp x)"
  shows "case P (inp x) v of None \<Rightarrow> \<not> fst (proc x v)
    | Some (v', r) \<Rightarrow> (\<exists>x'. proc x v = (True, v', x') \<and> good x' \<and> inp x' = r \<and> 4 dvd length r)"
  using assms unfolding parses_def by blast

lemma parses_Some:
  assumes "parses good inp proc P v" "good x" "4 dvd length (inp x)" "P (inp x) v = Some (v', r)"
  obtains x' where "proc x v = (True, v', x')" "good x'" "inp x' = r" "4 dvd length r"
  using parsesD[OF assms(1-3)] assms(4) by auto

lemma parses_None:
  assumes "parses good inp proc P v" "good x" "4 dvd length (inp x)" "P (inp x) v = None"
  shows "\<not> fst (proc x v)"
  using parsesD[OF assms(1-3)] assms(4) by simp

lemma parsesI:
  assumes "\<And>x. \<lbrakk>good x; 4 dvd length (inp x); P (inp x) v = None\<rbrakk> \<Longrightarrow> \<not> fst (proc x v)"
    and "\<And>x v' r. \<lbrakk>good x; 4 dvd length (inp x); P (inp x) v = Some (v', r)\<rbrakk>
           \<Longrightarrow> \<exists>x'. proc x v = (True, v', x') \<and> good x' \<and> inp x' = r \<and> 4 dvd length r"
  shows "parses good inp proc P v"
  unfolding parses_def using assms by (auto split: option.split)

lemma encodesD:
  assumes "encodes good out room proc E v" "good x" "4 dvd room x"
  shows "case E v of None \<Rightarrow> \<not> fst (proc x v)
    | Some bs \<Rightarrow>
        if length bs \<le> room x
        then (\<exists>x'. proc x v = (True, v, x') \<and> good x' \<and> out x' = out x @ bs
                   \<and> room x' + length bs = room x \<and> 4 dvd length bs)
        else \<not> fst (proc x v)"
  using assms unfolding encodes_def by blast

lemma encodes_Some:
  assumes "encodes good out room proc E v" "good x" "4 dvd room x" "E v = Some bs" "length bs \<le> room x"
  obtains x' where "proc x v = (True, v, x')" "good x'" "out x' = out x @ bs"
    "room x' + length bs = room x" "4 dvd length bs" "4 dvd room x'"
proof -
  obtain x' where x': "proc x v = (True, v, x')" "good x'" "out x' = out x @ bs"
    "room x' + length bs = room x" "4 dvd length bs"
    using encodesD[OF assms(1-3)] assms(4,5) by auto
  have "4 dvd room x' + length bs" using x'(4) assms(3) by simp
  then have "4 dvd room x'" using x'(5) by (simp add: dvd_add_left_iff)
  with x' that show ?thesis by blast
qed

lemma encodes_full:
  assumes "encodes good out room proc E v" "good x" "4 dvd room x" "E v = Some bs" "room x < length bs"
  shows "\<not> fst (proc x v)"
  using encodesD[OF assms(1-3)] assms(4,5) by simp

lemma encodes_None:
  assumes "encodes good out room proc E v" "good x" "4 dvd room x" "E v = None"
  shows "\<not> fst (proc x v)"
  using encodesD[OF assms(1-3)] assms(4) by simp

lemma encodesI:
  assumes "\<And>x. \<lbrakk>good x; 4 dvd room x; E v = None\<rbrakk> \<Longrightarrow> \<not> fst (proc x v)"
    and "\<And>x bs. \<lbrakk>good x; 4 dvd room x; E v = Some bs; room x < length bs\<rbrakk> \<Longrightarrow> \<not> fst (proc x v)"
    and "\<And>x bs. \<lbrakk>good x; 4 dvd room x; E v = Some bs; length bs \<le> room x\<rbrakk>
           \<Longrightarrow> \<exists>x'. proc x v = (True, v, x') \<and> good x' \<and> out x' = out x @ bs
                   \<and> room x' + length bs = room x \<and> 4 dvd length bs"
  shows "encodes good out room proc E v"
  unfolding encodes_def using assms by (auto split: option.split)

section \<open>Routines on records\<close>

lemma parses_fld [intro]:
  assumes "parses good inp p P (get r)"
  shows "parses good inp (fld p get put) (p_fld P get put) r"
proof (rule parsesI)
  fix x assume x: "good x" "4 dvd length (inp x)" "p_fld P get put (inp x) r = None"
  then have "\<not> fst (p x (get r))"
    by (intro parses_None[OF assms x(1,2)]) (auto simp: p_fld_def split: option.splits)
  then show "\<not> fst (fld p get put x r)" by (auto simp: fld_def split: prod.split)
next
  fix x v' rest assume x: "good x" "4 dvd length (inp x)" "p_fld P get put (inp x) r = Some (v', rest)"
  then obtain v where v: "P (inp x) (get r) = Some (v, rest)" "v' = put v r"
    by (auto simp: p_fld_def split: option.splits)
  from parses_Some[OF assms x(1,2) v(1)] obtain x' where "p x (get r) = (True, v, x')" "good x'"
    "inp x' = rest" "4 dvd length rest" by blast
  with v(2) show "\<exists>x'. fld p get put x r = (True, v', x') \<and> good x' \<and> inp x' = rest \<and> 4 dvd length rest"
    by (auto simp: fld_def)
qed

lemma parses_seq_if:
  assumes "parses good inp p P r" "\<And>i r1 rest. P i r = Some (r1, rest) \<Longrightarrow> parses good inp q Q r1"
  shows "parses good inp (seqp p q) (p_seq P Q) r"
proof (rule parsesI)
  fix x assume x: "good x" "4 dvd length (inp x)" and no: "p_seq P Q (inp x) r = None"
  show "\<not> fst (seqp p q x r)"
  proof (cases "P (inp x) r")
    case None
    from parses_None[OF assms(1) x None] show ?thesis by (auto simp: seqp_def split: prod.split)
  next
    case (Some vr)
    then obtain r1 rest where s: "P (inp x) r = Some (r1, rest)" by (cases vr) auto
    from parses_Some[OF assms(1) x s] obtain x1 where
      x1: "p x r = (True, r1, x1)" "good x1" "inp x1 = rest" "4 dvd length rest" by blast
    from no s x1(3) have "Q (inp x1) r1 = None" by (simp add: p_seq_def)
    from parses_None[OF assms(2)[OF s] x1(2) _ this] x1 show ?thesis by (simp add: seqp_def)
  qed
next
  fix x v' rest' assume x: "good x" "4 dvd length (inp x)" and y: "p_seq P Q (inp x) r = Some (v', rest')"
  then obtain r1 rest where s: "P (inp x) r = Some (r1, rest)" "Q rest r1 = Some (v', rest')"
    by (auto simp: p_seq_def split: option.splits)
  from parses_Some[OF assms(1) x s(1)] obtain x1 where
    x1: "p x r = (True, r1, x1)" "good x1" "inp x1 = rest" "4 dvd length rest" by blast
  have "4 dvd length (inp x1)" "Q (inp x1) r1 = Some (v', rest')" using x1 s(2) by simp_all
  from parses_Some[OF assms(2)[OF s(1)] x1(2) this] obtain x' where "q x1 r1 = (True, v', x')" "good x'"
    "inp x' = rest'" "4 dvd length rest'" by blast
  with x1(1) show "\<exists>x'. seqp p q x r = (True, v', x') \<and> good x' \<and> inp x' = rest' \<and> 4 dvd length rest'"
    by (auto simp: seqp_def)
qed

lemma parses_seq [intro]:
  assumes "parses good inp p P r" "\<And>r1. parses good inp q Q r1"
  shows "parses good inp (seqp p q) (p_seq P Q) r"
  using assms by (rule parses_seq_if)

lemma parses_test [intro]: "parses good inp (testp b) (p_test b) r"
  by (auto simp: parses_def testp_def p_test_def)

lemma encodes_fld [intro]:
  assumes "encodes good out room p E (get r)" "put (get r) r = r"
  shows "encodes good out room (fld p get put) (e_fld E get) r"
proof (rule encodesI)
  fix x assume x: "good x" "4 dvd room x" "e_fld E get r = None"
  then have "\<not> fst (p x (get r))" by (intro encodes_None[OF assms(1) x(1,2)]) (simp add: e_fld_def)
  then show "\<not> fst (fld p get put x r)" by (auto simp: fld_def split: prod.split)
next
  fix x bs assume x: "good x" "4 dvd room x" "e_fld E get r = Some bs" and full: "room x < length bs"
  then have "\<not> fst (p x (get r))" by (intro encodes_full[OF assms(1) x(1,2) _ full]) (simp add: e_fld_def)
  then show "\<not> fst (fld p get put x r)" by (auto simp: fld_def split: prod.split)
next
  fix x bs assume x: "good x" "4 dvd room x" "e_fld E get r = Some bs" and fits: "length bs \<le> room x"
  then have "E (get r) = Some bs" by (simp add: e_fld_def)
  from encodes_Some[OF assms(1) x(1,2) this fits] obtain x' where "p x (get r) = (True, get r, x')" "good x'"
    "out x' = out x @ bs" "room x' + length bs = room x" "4 dvd length bs" by blast
  with assms(2) show "\<exists>x'. fld p get put x r = (True, r, x') \<and> good x' \<and> out x' = out x @ bs
      \<and> room x' + length bs = room x \<and> 4 dvd length bs"
    by (auto simp: fld_def)
qed

lemma encodes_seq [intro]:
  assumes "encodes good out room p E r" "encodes good out room q F r"
  shows "encodes good out room (seqp p q) (e_seq E F) r"
proof -
  have stop: "\<not> fst (seqp p q x r)" if "\<not> fst (p x r)" for x
    using that by (auto simp: seqp_def split: prod.split)
  show ?thesis
  proof (rule encodesI)
    fix x assume x: "good x" "4 dvd room x" and no: "e_seq E F r = None"
    show "\<not> fst (seqp p q x r)"
    proof (cases "E r")
      case None
      then show ?thesis by (intro stop encodes_None[OF assms(1) x])
    next
      case (Some a)
      then have F: "F r = None" using no by (auto simp: e_seq_def split: option.splits)
      show ?thesis
      proof (cases "length a \<le> room x")
        case True
        from encodes_Some[OF assms(1) x Some True] obtain x1 where
          x1: "p x r = (True, r, x1)" "good x1" "4 dvd room x1" by blast
        from encodes_None[OF assms(2) x1(2,3) F] x1(1) show ?thesis by (simp add: seqp_def)
      next
        case False
        then show ?thesis using encodes_full[OF assms(1) x Some] by (intro stop) simp
      qed
    qed
  next
    fix x bs assume x: "good x" "4 dvd room x" and s: "e_seq E F r = Some bs"
    then obtain a b where E: "E r = Some a" and F: "F r = Some b" and bs: "bs = a @ b"
      by (auto simp: e_seq_def split: option.splits)
    { assume full: "room x < length bs"
      show "\<not> fst (seqp p q x r)"
      proof (cases "length a \<le> room x")
        case True
        from encodes_Some[OF assms(1) x E True] obtain x1 where
          x1: "p x r = (True, r, x1)" "good x1" "room x1 + length a = room x" "4 dvd room x1" by blast
        have "room x1 < length b" using full bs x1(3) by simp
        from encodes_full[OF assms(2) x1(2,4) F this] x1(1) show ?thesis by (simp add: seqp_def)
      next
        case False
        then show ?thesis using encodes_full[OF assms(1) x E] by (intro stop) simp
      qed }
    { assume fits: "length bs \<le> room x"
      then have "length a \<le> room x" using bs by simp
      from encodes_Some[OF assms(1) x E this] obtain x1 where
        x1: "p x r = (True, r, x1)" "good x1" "out x1 = out x @ a" "room x1 + length a = room x"
        "4 dvd length a" "4 dvd room x1" by blast
      have "length b \<le> room x1" using fits bs x1(4) by simp
      from encodes_Some[OF assms(2) x1(2,6) F this] obtain x2 where
        "q x1 r = (True, r, x2)" "good x2" "out x2 = out x1 @ b" "room x2 + length b = room x1"
        "4 dvd length b" by blast
      then show "\<exists>x'. seqp p q x r = (True, r, x') \<and> good x' \<and> out x' = out x @ bs
          \<and> room x' + length bs = room x \<and> 4 dvd length bs"
        using x1 bs by (simp add: seqp_def) }
  qed
qed

lemma encodes_test [intro]: "encodes good out room (testp b) (e_test b) r"
  by (auto simp: encodes_def testp_def e_test_def)

lemma parses_void [intro]: "parses good inp xdr_void p_void r"
  by (auto simp: parses_def xdr_void_def p_void_def)

lemma encodes_void [intro]: "encodes good out room xdr_void e_void r"
  by (auto simp: encodes_def xdr_void_def e_void_def)

lemma parses_membr [intro]:
  "parses good inp p P (get r) \<Longrightarrow> parses good inp (membr p get upd) (p_membr P get upd) r"
  unfolding membr_def p_membr_def by (rule parses_fld)

lemma encodes_membr [intro]:
  assumes "encodes good out room p E (get r)" "upd (\<lambda>_. get r) r = r"
  shows "encodes good out room (membr p get upd) (e_fld E get) r"
  unfolding membr_def using assms by (rule encodes_fld)

text \<open>A routine that implements a parser at every value, and a row of them.\<close>

definition decodes :: "(xdr \<Rightarrow> bool) \<Rightarrow> (xdr \<Rightarrow> byte list) \<Rightarrow> 'a xdrproc \<Rightarrow> 'a parser \<Rightarrow> bool" where
  "decodes good inp proc P = (\<forall>v. parses good inp proc P v)"

lemma decodesI: "(\<And>v. parses good inp proc P v) \<Longrightarrow> decodes good inp proc P"
  by (simp add: decodes_def)

lemma decodesD: "decodes good inp proc P \<Longrightarrow> parses good inp proc P v"
  by (simp add: decodes_def)

lemma decodes_membr: "decodes good inp p P \<Longrightarrow> decodes good inp (membr p get upd) (p_membr P get upd)"
  unfolding decodes_def by (intro allI parses_membr) blast

lemma decodes_fld: "decodes good inp p P \<Longrightarrow> decodes good inp (fld p get put) (p_fld P get put)"
  unfolding decodes_def by (intro allI parses_fld) blast

lemma decodes_seqps:
  "list_all2 (decodes good inp) ps Ps \<Longrightarrow> decodes good inp (seqps ps) (p_seqs Ps)"
proof (induction rule: list_all2_induct)
  case Nil
  then show ?case by (auto simp: seqps_def p_seqs_def decodes_def)
next
  case (Cons p ps P Ps)
  then show ?case by (auto simp: seqps_def p_seqs_def decodes_def)
qed

lemma encodes_seqps:
  "list_all2 (\<lambda>p E. encodes good out room p E r) ps Es \<Longrightarrow> encodes good out room (seqps ps) (e_seqs Es) r"
proof (induction rule: list_all2_induct)
  case Nil
  then show ?case by (auto simp: seqps_def e_seqs_def)
next
  case (Cons p ps E Es)
  then show ?case by (auto simp: seqps_def e_seqs_def)
qed

section \<open>Arithmetic of the padding\<close>

lemma padlen_dvd: "4 dvd n + padlen n"
proof -
  have "n mod 4 = 0 \<or> n mod 4 = 1 \<or> n mod 4 = 2 \<or> n mod 4 = 3" by linarith
  then have "(n mod 4 + padlen n) mod 4 = 0" by (elim disjE) (simp_all add: padlen_def)
  then have "(n + padlen n) mod 4 = 0" by (simp only: mod_add_left_eq)
  then show ?thesis by (simp only: dvd_eq_mod_eq_0)
qed

lemma padlen_less: "padlen n < 4"
  by (simp add: padlen_def)

lemma word_mod4: "unat ((n :: 32 word) mod 4) = unat n mod 4"
  by (simp add: unat_mod)

lemma rndup_padlen: "unat (xdr_rndup n) = padlen (unat n)"
proof -
  have lt: "unat (n mod 4) < 4" by (simp add: word_mod4)
  show ?thesis
  proof (cases "n mod 4 = 0")
    case True
    then have "unat n mod 4 = 0" by (metis word_mod4 unat_0)
    then show ?thesis using True by (simp add: padlen_def xdr_rndup_def BYTES_PER_XDR_UNIT_def)
  next
    case False
    then have ne: "unat n mod 4 \<noteq> 0" by (metis word_mod4 unat_eq_zero)
    have "n mod 4 \<le> 4" using lt by (simp add: word_le_nat_alt)
    then have "unat (4 - n mod 4) = 4 - unat n mod 4"
      by (simp add: unat_sub word_mod4)
    moreover have "n mod 4 > 0" using False by (simp add: word_neq_0_conv)
    ultimately show ?thesis using ne by (simp add: padlen_def xdr_rndup_def BYTES_PER_XDR_UNIT_def)
  qed
qed

lemma length_rdbuf [simp]: "length (rdbuf bs n) = n"
  by (simp add: rdbuf_def)

lemma rdbuf_all [simp]: "rdbuf bs (length bs) = bs"
  by (simp add: rdbuf_def)

lemma rdbuf_zero: "n \<le> 4 \<Longrightarrow> rdbuf xdr_zero n = replicate n 0"
  by (auto simp: rdbuf_def xdr_zero_def numeral_eq_Suc le_Suc_eq)

lemma drop_terminator: "length (l :: byte list) = Suc n \<Longrightarrow> drop n (l[n := 0]) = [0]"
  by (intro nth_equalityI) auto

lemma wrbuf_full: "length ds = length bs \<Longrightarrow> wrbuf bs ds = ds"
  by (simp add: wrbuf_def)

end
