(* ===== verification/Xdr_Dec.thy ===== *)
theory Xdr_Dec
  imports Xdr_Laws
begin

text \<open>
  Decoding: the laws a stream in decode mode keeps (\<open>inp\<close> is what is left to read) and, under
  them, the proof that each generic routine implements its reference parser.
\<close>

locale xdr_decoder =
  fixes good :: "xdr \<Rightarrow> bool" and inp :: "xdr \<Rightarrow> byte list"
  assumes dec_op: "good x \<Longrightarrow> x_op x = XDR_DECODE"
    and dec_kmem: "good x \<Longrightarrow> good (x\<lparr>x_kmem := k\<rparr>) \<and> inp (x\<lparr>x_kmem := k\<rparr>) = inp x"
    and getlong_ok: "\<lbrakk>good x; 4 dvd length (inp x); 4 \<le> length (inp x)\<rbrakk>
      \<Longrightarrow> \<exists>x'. XDR_GETLONG x v = (True, un_be32 (take 4 (inp x)), x')
                \<and> good x' \<and> inp x' = drop 4 (inp x)"
    and getlong_end: "\<lbrakk>good x; length (inp x) < 4\<rbrakk> \<Longrightarrow> \<exists>x'. XDR_GETLONG x v = (False, v, x')"
    and getbytes_ok: "\<lbrakk>good x; unat n \<le> length (inp x); unat n < 2 ^ 31\<rbrakk>
      \<Longrightarrow> \<exists>x'. XDR_GETBYTES x n = (True, take (unat n) (inp x), x')
                \<and> good x' \<and> inp x' = drop (unat n) (inp x)"
    and getbytes_end: "\<lbrakk>good x; length (inp x) < unat n; unat n < 2 ^ 31\<rbrakk>
      \<Longrightarrow> \<not> fst (XDR_GETBYTES x n)"
    and inline_some: "\<lbrakk>good x; XDR_INLINE x n = (Some b, x'); unat n < 2 ^ 31\<rbrakk>
      \<Longrightarrow> unat n \<le> length (inp x) \<and> rdmem (x_mem x') b (unat n) = take (unat n) (inp x)
           \<and> good x' \<and> inp x' = drop (unat n) (inp x)"
    and inline_none: "\<lbrakk>good x; XDR_INLINE x n = (None, x')\<rbrakk> \<Longrightarrow> x' = x"
begin

lemma dec_alloc:
  assumes "good x" "mem_alloc x n = (bs, x')"
  shows "good x' \<and> inp x' = inp x \<and> length bs = unat n"
  using dec_kmem[OF assms(1)] assms(2) by (auto simp: mem_alloc_def)

lemma parses_long: "parses good inp xdr_long p_long v"
proof (rule parsesI)
  fix x assume x: "good x" "4 dvd length (inp x)" and "p_long (inp x) v = None"
  then have "length (inp x) < 4" by (simp add: p_long_def split: if_splits)
  then show "\<not> fst (xdr_long x v)"
    using getlong_end[OF x(1), of v] dec_op[OF x(1)] by (auto simp: xdr_long_def)
next
  fix x v' r assume x: "good x" "4 dvd length (inp x)" and p: "p_long (inp x) v = Some (v', r)"
  from p have "4 \<le> length (inp x)" "v' = un_be32 (take 4 (inp x))" "r = drop 4 (inp x)"
    by (auto simp: p_long_def split: if_splits)
  with getlong_ok[OF x this(1), of v] dec_op[OF x(1)] x(2)
  show "\<exists>x'. xdr_long x v = (True, v', x') \<and> good x' \<and> inp x' = r \<and> 4 dvd length r"
    by (auto simp: xdr_long_def dvd_diff_nat)
qed

lemma u_long_long: "good x \<Longrightarrow> xdr_u_long x v = xdr_long x v"
  using dec_op by (simp add: xdr_long_def xdr_u_long_def)

lemma parses_cong:
  assumes "parses good inp p P v" "\<And>x. good x \<Longrightarrow> q x v = p x v"
  shows "parses good inp q P v"
proof (rule parsesI)
  fix x assume x: "good x" "4 dvd length (inp x)" "P (inp x) v = None"
  then show "\<not> fst (q x v)" using parses_None[OF assms(1) x] assms(2)[OF x(1)] by simp
next
  fix x v' r assume x: "good x" "4 dvd length (inp x)" "P (inp x) v = Some (v', r)"
  then show "\<exists>x'. q x v = (True, v', x') \<and> good x' \<and> inp x' = r \<and> 4 dvd length r"
    using parses_Some[OF assms(1) x] assms(2)[OF x(1)] by metis
qed

lemma parses_u_long: "parses good inp xdr_u_long p_long v"
  by (rule parses_cong[OF parses_long]) (rule u_long_long)

lemma parses_int: "parses good inp xdr_int p_long v"
  by (rule parses_cong[OF parses_long]) (simp add: xdr_int_def sizeof_int_def sizeof_long_def)

lemma parses_u_int: "parses good inp xdr_u_int p_long v"
  by (rule parses_cong[OF parses_u_long]) (simp add: xdr_u_int_def sizeof_int_def sizeof_long_def)

lemma parses_enum: "parses good inp xdr_enum p_long v"
  by (rule parses_cong[OF parses_long]) (simp add: xdr_enum_def sizeof_enum_def sizeof_long_def)

text \<open>A routine that reads a long and converts it.\<close>

lemma parses_conv:
  assumes "\<And>x. good x \<Longrightarrow> proc x v = (let (ok, l, x') = xdr_long x 0 in (ok, if ok then f l else v, x'))"
    and "\<And>inp. P inp v = (case p_long inp 0 of None \<Rightarrow> None | Some (l, r) \<Rightarrow> Some (f l, r))"
  shows "parses good inp proc P v"
proof (rule parsesI)
  fix x assume x: "good x" "4 dvd length (inp x)" and "P (inp x) v = None"
  then have "\<not> fst (xdr_long x 0)"
    by (intro parses_None[OF parses_long x]) (auto simp: assms(2) split: option.splits)
  then show "\<not> fst (proc x v)" using assms(1)[OF x(1)] by (auto split: prod.split)
next
  fix x v' r assume x: "good x" "4 dvd length (inp x)" and "P (inp x) v = Some (v', r)"
  then obtain l where l: "p_long (inp x) 0 = Some (l, r)" "v' = f l"
    by (auto simp: assms(2) split: option.splits)
  from parses_Some[OF parses_long x l(1)]
  obtain x' where "xdr_long x 0 = (True, l, x')" "good x'" "inp x' = r" "4 dvd length r" by blast
  then show "\<exists>x'. proc x v = (True, v', x') \<and> good x' \<and> inp x' = r \<and> 4 dvd length r"
    using assms(1)[OF x(1)] l(2) by simp
qed

lemma parses_short: "parses good inp xdr_short p_short v"
  by (rule parses_conv[where f = ucast]) (auto simp: xdr_short_def xdr_long_def p_short_def dec_op)

lemma parses_u_short: "parses good inp xdr_u_short p_short v"
  by (rule parses_conv[where f = ucast]) (auto simp: xdr_u_short_def xdr_long_def p_short_def dec_op)

lemma parses_bool: "parses good inp xdr_bool p_bool v"
  by (rule parses_conv[where f = "\<lambda>l. if l = 0 then 0 else 1"])
    (auto simp: xdr_bool_def xdr_long_def p_bool_def dec_op)

lemma getbytes_opaque:
  assumes x: "good x" and n: "unat n < 2 ^ 31 - 4"
  defines "k \<equiv> unat n + padlen (unat n)"
  shows "if length (inp x) < k then \<not> fst (xdr_opaque x cp n)
    else \<exists>x'. xdr_opaque x cp n = (True, wrbuf cp (take (unat n) (inp x)), x')
               \<and> good x' \<and> inp x' = drop k (inp x)"
proof (cases "n = 0")
  case True
  then show ?thesis using x by (simp add: k_def padlen_def xdr_opaque_def wrbuf_def)
next
  case False
  define rn where "rn = xdr_rndup n"
  have rn: "unat rn = padlen (unat n)" by (simp add: rn_def rndup_padlen)
  have op: "x_op x = XDR_DECODE" by (rule dec_op[OF x])
  have e: "xdr_opaque x cp n =
      (let (ok, ds, x1) = XDR_GETBYTES x n; cp1 = wrbuf cp ds in
       if \<not> ok then (False, cp1, x1)
       else if rn = 0 then (True, cp1, x1)
       else (let (ok2, crud, x2) = XDR_GETBYTES x1 rn in (ok2, cp1, x2)))"
    unfolding rn_def using False op by (simp add: xdr_opaque_def Let_def)
  have n31: "unat n < 2 ^ 31" "unat rn < 2 ^ 31"
    using n padlen_less[of "unat n"] by (auto simp: rn)
  show ?thesis
  proof (cases "unat n \<le> length (inp x)")
    case le: True
    from getbytes_ok[OF x le n31(1)]
    obtain x1 where x1: "XDR_GETBYTES x n = (True, take (unat n) (inp x), x1)"
      "good x1" "inp x1 = drop (unat n) (inp x)" by blast
    show ?thesis
    proof (cases "rn = 0")
      case True
      then have "padlen (unat n) = 0" using rn by simp
      then show ?thesis using True le x1 by (simp add: e k_def)
    next
      case rn0: False
      show ?thesis
      proof (cases "unat rn \<le> length (inp x1)")
        case True
        from getbytes_ok[OF x1(2) True n31(2)]
        obtain x2 where "XDR_GETBYTES x1 rn = (True, take (unat rn) (inp x1), x2)"
          "good x2" "inp x2 = drop (unat rn) (inp x1)" by blast
        then show ?thesis using True rn0 le x1 rn by (simp add: e k_def drop_drop add.commute)
      next
        case f: False
        have "\<not> fst (XDR_GETBYTES x1 rn)" using f by (intro getbytes_end x1 n31) simp
        moreover have "length (inp x) < k" using f x1(3) rn by (simp add: k_def)
        ultimately show ?thesis using x1 rn0 by (auto simp: e split: prod.split)
      qed
    qed
  next
    case f: False
    have "\<not> fst (XDR_GETBYTES x n)" using f by (intro getbytes_end x n31) simp
    then show ?thesis using f by (auto simp: e k_def split: prod.split)
  qed
qed

lemma opaque_some:
  assumes "good x" "unat n < 2 ^ 31 - 4" "4 dvd length (inp x)" "p_opaque (unat n) (inp x) cp = Some (bs, r)"
  obtains x' where "xdr_opaque x cp n = (True, bs, x')" "good x'" "inp x' = r" "4 dvd length r"
proof -
  from assms(4) have s: "\<not> length (inp x) < unat n + padlen (unat n)"
      "bs = wrbuf cp (take (unat n) (inp x))" "r = drop (unat n + padlen (unat n)) (inp x)"
    by (auto simp: p_opaque_def split: if_splits)
  have "4 dvd length r" using assms(3) padlen_dvd[of "unat n"] s(3) by (simp add: dvd_diff_nat)
  then show ?thesis using getbytes_opaque[OF assms(1,2), of cp] s that by auto
qed

lemma opaque_none:
  assumes "good x" "unat n < 2 ^ 31 - 4" "p_opaque (unat n) (inp x) cp = None"
  shows "\<not> fst (xdr_opaque x cp n)"
  using getbytes_opaque[OF assms(1,2), of cp] assms(3) by (auto simp: p_opaque_def split: if_splits)

text \<open>Sequencing: a routine that starts by reading a long.\<close>

lemma u_int_some:
  assumes "good x" "4 dvd length (inp x)" "p_long (inp x) v = Some (n, r)"
  obtains x' where "xdr_u_int x v = (True, n, x')" "good x'" "inp x' = r" "4 dvd length r"
  using parses_Some[OF parses_u_int assms] by blast

lemma u_int_none:
  assumes "good x" "4 dvd length (inp x)" "p_long (inp x) v = None"
  shows "\<not> fst (xdr_u_int x v)"
  by (rule parses_None[OF parses_u_int assms])

lemma xdr_bytes_decode:
  assumes "xdr_u_int x sz = (True, n, x1)" "good x1"
  shows "xdr_bytes m x (p, sz) =
    (if n > m then (False, (p, n), x1)
     else (let (sp, x2) = (case p of None \<Rightarrow> mem_alloc x1 n | Some bs \<Rightarrow> (bs, x1));
               (ok2, sp2, x3) = xdr_opaque x2 sp n in (ok2, (Some sp2, n), x3)))"
  using dec_op[OF assms(2)] by (simp add: xdr_bytes_def assms(1))

lemma parses_bytes:
  assumes m: "unat m < 2 ^ 31 - 4"
  shows "parses good inp (xdr_bytes m) (p_bytes m) v"
proof (cases v)
  case (Pair p sz)
  have buf: "\<exists>x2 sp. (case p of None \<Rightarrow> mem_alloc x1 n | Some bs \<Rightarrow> (bs, x1)) = (sp, x2) \<and> good x2
        \<and> inp x2 = inp x1 \<and> (\<forall>ds. length ds = unat n \<longrightarrow> wrbuf sp ds = wrbuf (bytes_at p) ds)"
    if "good x1" for x1 n
  proof (cases p)
    case None
    obtain bs x2 where a: "mem_alloc x1 n = (bs, x2)" by fastforce
    with dec_alloc[OF that a] None show ?thesis by (auto simp: bytes_at_def wrbuf_def)
  qed (auto simp: bytes_at_def that)
  have len: "unat n < 2 ^ 31 - 4" if "\<not> n > m" for n
    using that m by (simp add: word_less_nat_alt)
  show ?thesis
  proof (rule parsesI)
    fix x assume x: "good x" "4 dvd length (inp x)" and no: "p_bytes m (inp x) v = None"
    show "\<not> fst (xdr_bytes m x v)"
    proof (cases "p_long (inp x) sz")
      case None
      then show ?thesis using u_int_none[OF x None] by (auto simp: xdr_bytes_def Pair split: prod.split)
    next
      case (Some nr)
      then obtain n r where nr: "p_long (inp x) sz = Some (n, r)" by (cases nr) auto
      obtain x1 where x1: "xdr_u_int x sz = (True, n, x1)" "good x1" "inp x1 = r" "4 dvd length r"
        by (rule u_int_some[OF x nr])
      obtain sp x2 where b: "(case p of None \<Rightarrow> mem_alloc x1 n | Some bs \<Rightarrow> (bs, x1)) = (sp, x2)"
        "good x2" "inp x2 = inp x1" using buf[OF x1(2)] by blast
      show ?thesis
      proof (cases "n > m")
        case True
        then show ?thesis by (simp add: Pair xdr_bytes_decode[OF x1(1,2)])
      next
        case False
        then have "p_opaque (unat n) (inp x2) sp = None"
          using no nr b(3) x1(3) by (auto simp: p_bytes_def Pair p_opaque_def split: if_splits)
        from opaque_none[OF b(2) len[OF False] this] show ?thesis using False
          by (auto simp: Pair xdr_bytes_decode[OF x1(1,2)] b(1) split: prod.split)
      qed
    qed
  next
    fix x v' r' assume x: "good x" "4 dvd length (inp x)" and p: "p_bytes m (inp x) v = Some (v', r')"
    from p obtain n r where nr: "p_long (inp x) sz = Some (n, r)" and le: "\<not> n > m"
      and q: "\<not> length r < unat n + padlen (unat n)"
      "v' = (Some (wrbuf (bytes_at p) (take (unat n) r)), n)" "r' = drop (unat n + padlen (unat n)) r"
      by (auto simp: p_bytes_def Pair p_opaque_def split: option.splits if_splits)
    obtain x1 where x1: "xdr_u_int x sz = (True, n, x1)" "good x1" "inp x1 = r" "4 dvd length r"
      by (rule u_int_some[OF x nr])
    obtain sp x2 where b: "(case p of None \<Rightarrow> mem_alloc x1 n | Some bs \<Rightarrow> (bs, x1)) = (sp, x2)"
      "good x2" "inp x2 = inp x1" "\<And>ds. length ds = unat n \<Longrightarrow> wrbuf sp ds = wrbuf (bytes_at p) ds"
      using buf[OF x1(2)] by blast
    have "p_opaque (unat n) (inp x2) sp = Some (wrbuf (bytes_at p) (take (unat n) r), r')"
      using q b(3,4) x1(3) by (simp add: p_opaque_def)
    from opaque_some[OF b(2) len[OF le] _ this] b(3) x1(3,4)
    obtain x3 where "xdr_opaque x2 sp n = (True, wrbuf (bytes_at p) (take (unat n) r), x3)"
      "good x3" "inp x3 = r'" "4 dvd length r'" by auto
    then show "\<exists>x'. xdr_bytes m x v = (True, v', x') \<and> good x' \<and> inp x' = r' \<and> 4 dvd length r'"
      using le by (simp add: Pair xdr_bytes_decode[OF x1(1,2)] b(1) q(2))
  qed
qed

lemma parses_union:
  assumes "\<And>d p. pick_arm cs df d = Some p \<Longrightarrow> \<exists>P. arm d = Some P \<and> parses good inp p P u"
    and "\<And>d. pick_arm cs df d = None \<Longrightarrow> arm d = None"
  shows "parses good inp (xdr_union cs df) (p_union arm) (d0, u)"
proof (rule parsesI)
  fix x assume x: "good x" "4 dvd length (inp x)" and no: "p_union arm (inp x) (d0, u) = None"
  show "\<not> fst (xdr_union cs df x (d0, u))"
  proof (cases "p_long (inp x) d0")
    case None
    then show ?thesis using parses_None[OF parses_enum x None]
      by (auto simp: xdr_union_pick split: prod.split)
  next
    case (Some nr)
    then obtain d r where nr: "p_long (inp x) d0 = Some (d, r)" by (cases nr) auto
    obtain x1 where x1: "xdr_enum x d0 = (True, d, x1)" "good x1" "inp x1 = r" "4 dvd length r"
      by (rule parses_Some[OF parses_enum x nr])
    show ?thesis
    proof (cases "pick_arm cs df d")
      case None
      then show ?thesis using x1 by (simp add: xdr_union_pick)
    next
      case (Some p)
      then obtain P where P: "arm d = Some P" "parses good inp p P u" using assms(1) by blast
      have "P (inp x1) u = None" using no nr P(1) x1(3) by (auto simp: p_union_def split: option.splits)
      from parses_None[OF P(2) x1(2) _ this] x1(3,4) have "\<not> fst (p x1 u)" by simp
      then show ?thesis using x1 Some by (auto simp: xdr_union_pick split: prod.split)
    qed
  qed
next
  fix x v' r' assume x: "good x" "4 dvd length (inp x)" and y: "p_union arm (inp x) (d0, u) = Some (v', r')"
  from y obtain d r P u' where nr: "p_long (inp x) d0 = Some (d, r)" and P: "arm d = Some P"
    and u: "P r u = Some (u', r')" "v' = (d, u')"
    by (auto simp: p_union_def split: option.splits)
  obtain x1 where x1: "xdr_enum x d0 = (True, d, x1)" "good x1" "inp x1 = r" "4 dvd length r"
    by (rule parses_Some[OF parses_enum x nr])
  obtain p where p: "pick_arm cs df d = Some p" using assms(2)[of d] P by (cases "pick_arm cs df d") auto
  with assms(1) P have pp: "parses good inp p P u" by fastforce
  obtain x2 where "p x1 u = (True, u', x2)" "good x2" "inp x2 = r'" "4 dvd length r'"
    by (rule parses_Some[OF pp x1(2), where v' = u' and r = r']) (use x1 u in auto)
  then show "\<exists>x'. xdr_union cs df x (d0, u) = (True, v', x') \<and> good x' \<and> inp x' = r' \<and> 4 dvd length r'"
    using x1 p u(2) by (simp add: xdr_union_pick)
qed

lemma union_arm_parses:
  assumes "\<And>d p. union_arm cs d = Some p \<Longrightarrow> \<exists>P. arm d = Some P \<and> parses good inp p P u"
    and "\<And>d. union_arm cs d = None \<Longrightarrow> arm d = None"
  shows "parses good inp (xdr_union cs None) (p_union arm) (d0, u)"
  by (rule parses_union) (use assms in auto)

lemma xdr_string_decode:
  assumes "good x" "xdr_u_int x 0 = (True, n, x1)" "good x1"
  shows "xdr_string m x p =
    (if n > m then (False, p, x1)
     else (let (sp, x2) = (case p of None \<Rightarrow> mem_alloc x1 (n + 1) | Some bs \<Rightarrow> (bs, x1));
               (ok2, sp2, x3) = xdr_opaque x2 (sp[unat n := 0]) n in (ok2, Some sp2, x3)))"
  using dec_op[OF assms(1)] dec_op[OF assms(3)] by (simp add: xdr_string_def assms(2) Let_def)

lemma wrbuf_fresh:
  assumes "length sp = Suc n" "length ds = n"
  shows "wrbuf (sp[n := 0]) ds = wrbuf ((replicate (Suc n) 0)[n := 0]) ds"
proof -
  have "drop n ((replicate (Suc n) (0 :: byte))[n := 0]) = [0]" by (rule drop_terminator) simp
  with drop_terminator[OF assms(1)] assms(2) show ?thesis by (simp only: wrbuf_def)
qed

lemma parses_string:
  assumes m: "unat m < 2 ^ 31 - 4"
  shows "parses good inp (xdr_string m) (p_string m) p"
proof -
  have len: "unat n < 2 ^ 31 - 4" if "\<not> n > m" for n
    using that m by (simp add: word_less_nat_alt)
  have suc: "unat (n + 1) = Suc (unat n)" if "\<not> n > m" for n
    using len[OF that] by (simp add: unat_word_ariths)
  define old where "old n = (case p of None \<Rightarrow> replicate (Suc (unat (n :: 32 word))) 0 | Some b \<Rightarrow> b)" for n
  have buf: "\<exists>x2 sp. (case p of None \<Rightarrow> mem_alloc x1 (n + 1) | Some bs \<Rightarrow> (bs, x1)) = (sp, x2) \<and> good x2
        \<and> inp x2 = inp x1 \<and> (\<forall>ds. length ds = unat n
            \<longrightarrow> wrbuf (sp[unat n := 0]) ds = wrbuf ((old n)[unat n := 0]) ds)"
    if g: "good x1" and n: "\<not> n > m" for x1 n
  proof (cases p)
    case None
    obtain bs x2 where a: "mem_alloc x1 (n + 1) = (bs, x2)" by fastforce
    have "length bs = Suc (unat n)" using dec_alloc[OF g a] suc[OF n] by simp
    with dec_alloc[OF g a] a None wrbuf_fresh show ?thesis by (auto simp: old_def)
  qed (auto simp: old_def that)
  have P: "p_string m inpt p = (case p_long inpt 0 of None \<Rightarrow> None | Some (n, r) \<Rightarrow>
      if n > m then None else if length r < unat n + padlen (unat n) then None
      else Some (Some (wrbuf ((old n)[unat n := 0]) (take (unat n) r)), drop (unat n + padlen (unat n)) r))" for inpt
    unfolding p_string_def old_def ..
  show ?thesis
  proof (rule parsesI)
    fix x assume x: "good x" "4 dvd length (inp x)" and no: "p_string m (inp x) p = None"
    show "\<not> fst (xdr_string m x p)"
    proof (cases "p_long (inp x) 0")
      case None
      then show ?thesis using u_int_none[OF x None] dec_op[OF x(1)]
        by (auto simp: xdr_string_def split: prod.split)
    next
      case (Some nr)
      then obtain n r where nr: "p_long (inp x) 0 = Some (n, r)" by (cases nr) auto
      obtain x1 where x1: "xdr_u_int x 0 = (True, n, x1)" "good x1" "inp x1 = r" "4 dvd length r"
        by (rule u_int_some[OF x nr])
      show ?thesis
      proof (cases "n > m")
        case True
        then show ?thesis by (simp add: xdr_string_decode[OF x(1) x1(1,2)])
      next
        case False
        obtain sp x2 where b: "(case p of None \<Rightarrow> mem_alloc x1 (n + 1) | Some bs \<Rightarrow> (bs, x1)) = (sp, x2)"
          "good x2" "inp x2 = inp x1" using buf[OF x1(2) False] by blast
        have "p_opaque (unat n) (inp x2) (sp[unat n := 0]) = None"
          using no nr b(3) x1(3) False by (auto simp: P p_opaque_def split: if_splits)
        from opaque_none[OF b(2) len[OF False] this] show ?thesis using False
          by (auto simp: xdr_string_decode[OF x(1) x1(1,2)] b(1) split: prod.split)
      qed
    qed
  next
    fix x v' r' assume x: "good x" "4 dvd length (inp x)" and y: "p_string m (inp x) p = Some (v', r')"
    from y obtain n r where nr: "p_long (inp x) 0 = Some (n, r)" and le: "\<not> n > m"
      and q: "\<not> length r < unat n + padlen (unat n)"
      "v' = Some (wrbuf ((old n)[unat n := 0]) (take (unat n) r))" "r' = drop (unat n + padlen (unat n)) r"
      by (auto simp: P split: option.splits if_splits)
    obtain x1 where x1: "xdr_u_int x 0 = (True, n, x1)" "good x1" "inp x1 = r" "4 dvd length r"
      by (rule u_int_some[OF x nr])
    obtain sp x2 where b: "(case p of None \<Rightarrow> mem_alloc x1 (n + 1) | Some bs \<Rightarrow> (bs, x1)) = (sp, x2)"
      "good x2" "inp x2 = inp x1"
      "\<And>ds. length ds = unat n \<Longrightarrow> wrbuf (sp[unat n := 0]) ds = wrbuf ((old n)[unat n := 0]) ds"
      using buf[OF x1(2) le] by blast
    have "p_opaque (unat n) (inp x2) (sp[unat n := 0])
        = Some (wrbuf ((old n)[unat n := 0]) (take (unat n) r), r')"
      using q b(3,4) x1(3) by (simp add: p_opaque_def)
    from opaque_some[OF b(2) len[OF le] _ this] b(3) x1(3,4)
    obtain x3 where "xdr_opaque x2 (sp[unat n := 0]) n
        = (True, wrbuf ((old n)[unat n := 0]) (take (unat n) r), x3)"
      "good x3" "inp x3 = r'" "4 dvd length r'" by auto
    then show "\<exists>x'. xdr_string m x p = (True, v', x') \<and> good x' \<and> inp x' = r' \<and> 4 dvd length r'"
      using le by (simp add: xdr_string_decode[OF x(1) x1(1,2)] b(1) q(2))
  qed
qed

lemma parses_reference:
  assumes p: "\<And>v. parses good inp proc P v"
  shows "parses good inp (xdr_reference sz z proc) (p_reference z P) pp"
proof -
  have step: "\<exists>y. good y \<and> inp y = inp x \<and> xdr_reference sz z proc x pp =
      (let (stat, v, x2) = proc y (case pp of None \<Rightarrow> z | Some w \<Rightarrow> w) in
       if x_op x2 = XDR_FREE \<and> pp \<noteq> None then (stat, None, mem_free x2 sz) else (stat, Some v, x2))"
    if "good x" for x
  proof (cases pp)
    case None
    obtain bs y where a: "mem_alloc x sz = (bs, y)" by fastforce
    from dec_alloc[OF that a] None a dec_op[OF that] show ?thesis
      by (auto simp: xdr_reference_def split: prod.split)
  next
    case (Some w)
    show ?thesis by (rule exI[where x = x]) (simp add: Some xdr_reference_def that)
  qed
  show ?thesis
  proof (rule parsesI)
    fix x assume x: "good x" "4 dvd length (inp x)" and no: "p_reference z P (inp x) pp = None"
    obtain y where y: "good y" "inp y = inp x" "xdr_reference sz z proc x pp =
      (let (stat, v, x2) = proc y (case pp of None \<Rightarrow> z | Some w \<Rightarrow> w) in
       if x_op x2 = XDR_FREE \<and> pp \<noteq> None then (stat, None, mem_free x2 sz) else (stat, Some v, x2))"
      using step[OF x(1)] by blast
    have "P (inp y) (case pp of None \<Rightarrow> z | Some w \<Rightarrow> w) = None"
      using no y(2) by (auto simp: p_reference_def split: option.splits)
    from parses_None[OF p y(1) _ this] x(2) y(2)
    have "\<not> fst (proc y (case pp of None \<Rightarrow> z | Some w \<Rightarrow> w))" by simp
    then show "\<not> fst (xdr_reference sz z proc x pp)"
      by (cases "proc y (case pp of None \<Rightarrow> z | Some w \<Rightarrow> w)") (simp add: y(3))
  next
    fix x v' r assume x: "good x" "4 dvd length (inp x)" and s: "p_reference z P (inp x) pp = Some (v', r)"
    obtain y where y: "good y" "inp y = inp x" "xdr_reference sz z proc x pp =
      (let (stat, v, x2) = proc y (case pp of None \<Rightarrow> z | Some w \<Rightarrow> w) in
       if x_op x2 = XDR_FREE \<and> pp \<noteq> None then (stat, None, mem_free x2 sz) else (stat, Some v, x2))"
      using step[OF x(1)] by blast
    from s y(2) obtain w where w: "P (inp y) (case pp of None \<Rightarrow> z | Some w \<Rightarrow> w) = Some (w, r)" "v' = Some w"
      by (auto simp: p_reference_def split: option.splits)
    from x(2) y(2) have "4 dvd length (inp y)" by simp
    from parses_Some[OF p y(1) this w(1)]
    obtain x' where x': "proc y (case pp of None \<Rightarrow> z | Some w \<Rightarrow> w) = (True, w, x')" "good x'" "inp x' = r"
      "4 dvd length r" by blast
    show "\<exists>x'. xdr_reference sz z proc x pp = (True, v', x') \<and> good x' \<and> inp x' = r \<and> 4 dvd length r"
      using x' w(2) dec_op[OF x'(2)] by (simp add: y(3))
  qed
qed

lemma elems_parse:
  assumes p: "\<And>v. parses good inp proc P v"
  shows "\<lbrakk>good x; 4 dvd length (inp x); i \<le> c; c \<le> length xs\<rbrakk> \<Longrightarrow>
    (case p_elems P (inp x) (take (c - i) (drop i xs)) of
       None \<Rightarrow> \<not> fst (xdr_elems proc x xs i c)
     | Some (vs, r) \<Rightarrow> (\<exists>x'. xdr_elems proc x xs i c = (True, take i xs @ vs @ drop c xs, x')
                              \<and> good x' \<and> inp x' = r \<and> 4 dvd length r))"
proof (induction "c - i" arbitrary: x xs i)
  case 0
  then show ?case by (simp add: xdr_elems.simps)
next
  case (Suc k)
  have i: "i < c" "k = c - Suc i" using Suc.hyps(2) by auto
  have split: "take (c - i) (drop i xs) = xs ! i # take (c - Suc i) (drop (Suc i) xs)"
    using i(1) Suc.prems(4) by (simp add: Cons_nth_drop_Suc[symmetric] Suc_diff_Suc[symmetric])
  note x = Suc.prems(1,2)
  show ?case
  proof (cases "P (inp x) (xs ! i)")
    case None
    then show ?thesis using parses_None[OF p x None] i(1)
      by (auto simp: split xdr_elems.simps[of _ _ _ i] split: prod.split)
  next
    case (Some vr)
    then obtain v r where vr: "P (inp x) (xs ! i) = Some (v, r)" by (cases vr) auto
    from parses_Some[OF p x vr] obtain x1 where
      x1: "proc x (xs ! i) = (True, v, x1)" "good x1" "inp x1 = r" "4 dvd length r" by blast
    have run: "xdr_elems proc x xs i c = xdr_elems proc x1 (xs[i := v]) (Suc i) c"
      using x1(1) i(1) by (simp add: xdr_elems.simps[of _ x _ i])
    have lst: "take (Suc i) (xs[i := v]) = take i xs @ [v]" "drop c (xs[i := v]) = drop c xs"
      "drop (Suc i) (xs[i := v]) = drop (Suc i) xs"
      using i(1) Suc.prems(4) by (auto simp: take_Suc_conv_app_nth)
    have "4 dvd length (inp x1)" "Suc i \<le> c" "c \<le> length (xs[i := v])" using x1 i Suc.prems by auto
    from Suc.hyps(1)[OF i(2) x1(2) this] show ?thesis
      by (auto simp: split vr run lst x1(3) split: option.splits)
  qed
qed

lemma array_parse:
  assumes p: "\<And>v. parses good inp elproc P v"
    and cap: "\<And>xs. p0 = Some xs \<Longrightarrow> unat m \<le> length xs"
  shows "parses good inp (xdr_array m elsize z elproc) (p_array m z P) (p0, sz)"
proof -
  define old where "old c = (case p0 of None \<Rightarrow> replicate (unat (c :: 32 word)) z | Some xs \<Rightarrow> xs)" for c
  have long: "unat c \<le> length (old c)" if "\<not> c > m" for c
    using that cap by (auto simp: old_def word_le_nat_alt not_less split: option.split)
  have run: "\<exists>x2. good x2 \<and> inp x2 = inp x1 \<and> xdr_array m elsize z elproc x (p0, sz) =
      (let (stat, t, x3) = xdr_elems elproc x2 (old c) 0 (unat c) in
       if x_op x3 = XDR_FREE then (stat, (None, c), mem_free x3 (c * elsize)) else (stat, (Some t, c), x3))"
    if "xdr_u_int x sz = (True, c, x1)" "good x1" "\<not> c > m" "\<not> (p0 = None \<and> c = 0)" for x x1 c
  proof (cases p0)
    case None
    obtain bs y where a: "mem_alloc x1 (c * elsize) = (bs, y)" by fastforce
    from dec_alloc[OF that(2) a] None a dec_op[OF that(2)] that show ?thesis
      by (intro exI[where x = y]) (auto simp: xdr_array_def old_def Let_def split: prod.split)
  next
    case (Some xs)
    show ?thesis using that dec_op[OF that(2)]
      by (intro exI[where x = x1]) (auto simp: xdr_array_def old_def Some Let_def split: prod.split)
  qed
  have small: "xdr_array m elsize z elproc x (p0, sz) = (c \<le> m, (p0, c), x1)"
    if "xdr_u_int x sz = (True, c, x1)" "good x1" "c > m \<or> p0 = None \<and> c = 0" for x x1 c
    using that dec_op[OF that(2)] by (auto simp: xdr_array_def not_le)
  have PA: "p_array m z P i (p0, sz) = (case p_long i sz of None \<Rightarrow> None | Some (c, r) \<Rightarrow>
      if c > m then None else if p0 = None \<and> c = 0 then Some ((None, c), r)
      else (case p_elems P r (take (unat c) (old c)) of None \<Rightarrow> None
            | Some (vs, r') \<Rightarrow> Some ((Some (vs @ drop (unat c) (old c)), c), r')))" for i
    unfolding p_array_def old_def by (auto split: option.split)
  show ?thesis
  proof (rule parsesI)
    fix x assume x: "good x" "4 dvd length (inp x)" and no: "p_array m z P (inp x) (p0, sz) = None"
    show "\<not> fst (xdr_array m elsize z elproc x (p0, sz))"
    proof (cases "p_long (inp x) sz")
      case None
      then show ?thesis using u_int_none[OF x None] by (auto simp: xdr_array_def split: prod.split)
    next
      case (Some nr)
      then obtain c r where nr: "p_long (inp x) sz = Some (c, r)" by (cases nr) auto
      obtain x1 where x1: "xdr_u_int x sz = (True, c, x1)" "good x1" "inp x1 = r" "4 dvd length r"
        by (rule u_int_some[OF x nr])
      show ?thesis
      proof (cases "c > m")
        case True
        then show ?thesis using small[OF x1(1,2)] by (simp add: not_le)
      next
        case False
        with no nr have ne: "\<not> (p0 = None \<and> c = 0)" and e: "p_elems P r (take (unat c) (old c)) = None"
          by (auto simp: PA split: option.splits if_splits)
        obtain x2 where x2: "good x2" "inp x2 = inp x1" "xdr_array m elsize z elproc x (p0, sz) =
            (let (stat, t, x3) = xdr_elems elproc x2 (old c) 0 (unat c) in
             if x_op x3 = XDR_FREE then (stat, (None, c), mem_free x3 (c * elsize)) else (stat, (Some t, c), x3))"
          using run[OF x1(1,2) False ne] by blast
        have "4 dvd length (inp x2)" using x2(2) x1(3,4) by simp
        from elems_parse[OF p x2(1) this _ long[OF False], of 0] e x2(2) x1(3)
        have "\<not> fst (xdr_elems elproc x2 (old c) 0 (unat c))" by simp
        then show ?thesis
          by (cases "xdr_elems elproc x2 (old c) 0 (unat c)") (simp add: x2(3))
      qed
    qed
  next
    fix x v' r' assume x: "good x" "4 dvd length (inp x)" and y: "p_array m z P (inp x) (p0, sz) = Some (v', r')"
    from y obtain c r where nr: "p_long (inp x) sz = Some (c, r)" and le: "\<not> c > m"
      by (auto simp: PA split: option.splits if_splits)
    obtain x1 where x1: "xdr_u_int x sz = (True, c, x1)" "good x1" "inp x1 = r" "4 dvd length r"
      by (rule u_int_some[OF x nr])
    show "\<exists>x'. xdr_array m elsize z elproc x (p0, sz) = (True, v', x') \<and> good x' \<and> inp x' = r' \<and> 4 dvd length r'"
    proof (cases "p0 = None \<and> c = 0")
      case True
      then have "v' = (None, c)" "r' = r" using y nr le unfolding PA by auto
      then show ?thesis using True small[OF x1(1,2)] le x1 by (simp add: not_less)
    next
      case False
      with y nr le obtain vs where e: "p_elems P r (take (unat c) (old c)) = Some (vs, r')"
        "v' = (Some (vs @ drop (unat c) (old c)), c)" by (auto simp: PA split: option.splits)
      obtain x2 where x2: "good x2" "inp x2 = inp x1" "xdr_array m elsize z elproc x (p0, sz) =
          (let (stat, t, x3) = xdr_elems elproc x2 (old c) 0 (unat c) in
           if x_op x3 = XDR_FREE then (stat, (None, c), mem_free x3 (c * elsize)) else (stat, (Some t, c), x3))"
        using run[OF x1(1,2) le False] by blast
      have "4 dvd length (inp x2)" using x2(2) x1(3,4) by simp
      from elems_parse[OF p x2(1) this _ long[OF le], of 0] e x2(2) x1(3)
      obtain x3 where "xdr_elems elproc x2 (old c) 0 (unat c) = (True, vs @ drop (unat c) (old c), x3)"
        "good x3" "inp x3 = r'" "4 dvd length r'" by auto
      then show ?thesis using dec_op by (simp add: x2(3) e(2))
    qed
  qed
qed

end

end
