(* ===== verification/Xdr_Inst.thy ===== *)
theory Xdr_Inst
  imports Xdr_Dec
begin

text \<open>
  Both stream implementations in decode mode keep the laws of \<open>xdr_decoder\<close>: the flat buffer
  always, the mbuf chain when every mbuf after the current one holds a positive multiple of four
  bytes.
\<close>

section \<open>The sign test on \<open>x_handy\<close>\<close>

lemma uint_unat31: "(uint (w :: 32 word) < 2 ^ 31) = (unat w < 2 ^ 31)"
  using nat_less_eq_zless[of "uint w" "2 ^ 31"] by simp

lemma sint_cases: "sint (w :: 32 word) = (if unat w < 2 ^ 31 then uint w else uint w - 2 ^ 32)"
proof -
  have r: "- (2 ^ 31) \<le> sint w" "sint w < 2 ^ 31" "0 \<le> uint w" "uint w < 2 ^ 32"
    using sint_ge[of w] sint_lt[of w] uint_lt2p[of w] by auto
  have "sint w = take_bit 32 (uint w) - 2 ^ 32 * of_bool (bit (uint w) 31)"
    by (simp add: sint_uint signed_take_bit_eq_take_bit_minus)
  moreover have "take_bit 32 (uint w) = uint w"
    using r(3,4) by (simp only: take_bit_int_eq_self_iff)
  ultimately have "sint w = uint w - (if bit (uint w) 31 then 2 ^ 32 else 0)" by simp
  then show ?thesis using r unfolding uint_unat31[symmetric] by (cases "bit (uint w) 31") auto
qed

lemma unat_lt32: "unat (w :: 32 word) < 2 ^ 32"
  using unsigned_less[of w] by simp

lemma sint_nonneg: "(0 \<le> sint (w :: 32 word)) = (unat w < 2 ^ 31)"
  using uint_lt2p[of w] by (simp add: sint_cases)

lemma sint_neg: "(sint (w :: 32 word) < 0) = (2 ^ 31 \<le> unat w)"
  using sint_nonneg[of w] by linarith

text \<open>The outcome of \<open>x_handy -= len\<close> when both are below \<open>2\<^sup>3\<^sup>1\<close>.\<close>

lemma handy_sub:
  fixes h n :: "32 word"
  assumes "unat h < 2 ^ 31" "unat n < 2 ^ 31"
  shows "(sint (h - n) < 0) = (unat h < unat n)"
    and "unat n \<le> unat h \<Longrightarrow> unat (h - n) = unat h - unat n"
proof -
  show s: "unat (h - n) = unat h - unat n" if "unat n \<le> unat h"
    using that by (simp add: unat_sub word_le_nat_alt)
  have "2 ^ 31 \<le> unat (h - n)" if "unat h < unat n"
  proof -
    have "unat (h - n) = 2 ^ 32 + unat h - unat n"
      using that unat_lt32[of n] by (subst unat_sub_if') (simp add: not_le)
    then show ?thesis using assms by simp
  qed
  with s show "(sint (h - n) < 0) = (unat h < unat n)"
    using assms by (cases "unat n \<le> unat h") (auto simp: sint_neg)
qed

lemma handy_ge:
  fixes h n :: "32 word"
  assumes "unat h < 2 ^ 31" "unat n < 2 ^ 31"
  shows "(sint n \<le> sint h) = (unat n \<le> unat h)"
  using assms by (simp add: sint_cases word_le_nat_alt[symmetric] word_le_def)

lemmas handy4 = handy_sub[where n = 4, simplified]

section \<open>Flat buffers\<close>

definition memdec_good :: "xdr \<Rightarrow> bool" where
  "memdec_good x = (x_op x = XDR_DECODE \<and> x_ops x = Xdrmem_ops \<and> unat (x_handy x) < 2 ^ 31)"

definition mem_inp :: "xdr \<Rightarrow> byte list" where
  "mem_inp x = rdmem (x_mem x) (x_private x) (unat (x_handy x))"

interpretation memdec: xdr_decoder memdec_good mem_inp
proof unfold_locales
  fix x k assume "memdec_good x"
  then show "x_op x = XDR_DECODE" and
    "memdec_good (x\<lparr>x_kmem := k\<rparr>) \<and> mem_inp (x\<lparr>x_kmem := k\<rparr>) = mem_inp x"
    by (auto simp: memdec_good_def mem_inp_def)
next
  fix x v assume g: "memdec_good x" and len: "4 \<le> length (mem_inp x)"
  then show "\<exists>x'. XDR_GETLONG x v = (True, un_be32 (take 4 (mem_inp x)), x')
      \<and> memdec_good x' \<and> mem_inp x' = drop 4 (mem_inp x)"
    using handy4[of "x_handy x"]
    by (auto simp: memdec_good_def mem_inp_def XDR_GETLONG_def xdrmem_getlong_def Let_def take_rdmem drop_rdmem)
next
  fix x v assume "memdec_good x" "length (mem_inp x) < 4"
  then show "\<exists>x'. XDR_GETLONG x v = (False, v, x')"
    using handy4[of "x_handy x"]
    by (auto simp: memdec_good_def mem_inp_def XDR_GETLONG_def xdrmem_getlong_def Let_def)
next
  fix x and n :: "32 word" assume "memdec_good x" "unat n \<le> length (mem_inp x)" "unat n < 2 ^ 31"
  then show "\<exists>x'. XDR_GETBYTES x n = (True, take (unat n) (mem_inp x), x')
      \<and> memdec_good x' \<and> mem_inp x' = drop (unat n) (mem_inp x)"
    using handy_sub[of "x_handy x" n]
    by (auto simp: memdec_good_def mem_inp_def XDR_GETBYTES_def xdrmem_getbytes_def Let_def take_rdmem drop_rdmem)
next
  fix x and n :: "32 word" assume "memdec_good x" "length (mem_inp x) < unat n" "unat n < 2 ^ 31"
  then show "\<not> fst (XDR_GETBYTES x n)"
    using handy_sub[of "x_handy x" n]
    by (auto simp: memdec_good_def mem_inp_def XDR_GETBYTES_def xdrmem_getbytes_def Let_def)
next
  fix x b x' and n :: "32 word" assume "memdec_good x" "XDR_INLINE x n = (Some b, x')" "unat n < 2 ^ 31"
  then show "unat n \<le> length (mem_inp x) \<and> rdmem (x_mem x') b (unat n) = take (unat n) (mem_inp x)
      \<and> memdec_good x' \<and> mem_inp x' = drop (unat n) (mem_inp x)"
    using handy_sub[of "x_handy x" n] handy_ge[of "x_handy x" n]
    by (auto simp: memdec_good_def mem_inp_def XDR_INLINE_def xdrmem_inline_def take_rdmem drop_rdmem
        split: if_splits)
next
  fix x x' and n :: "32 word" assume "memdec_good x" "XDR_INLINE x n = (None, x')"
  then show "x' = x" by (auto simp: memdec_good_def XDR_INLINE_def xdrmem_inline_def split: if_splits)
qed

section \<open>Mbuf chains\<close>

definition mbuf_size :: "mbuf \<Rightarrow> nat" where
  "mbuf_size m = unat (scast (m_len m) :: 32 word)"

definition mbuf_data :: "memory \<Rightarrow> mbuf \<Rightarrow> byte list" where
  "mbuf_data mem m = rdmem mem (m_dat m) (mbuf_size m)"

definition mbuf_ok :: "mbuf \<Rightarrow> bool" where
  "mbuf_ok m = (0 < mbuf_size m \<and> 4 dvd mbuf_size m \<and> mbuf_size m < 2 ^ 31)"

definition mbufdec_good :: "xdr \<Rightarrow> bool" where
  "mbufdec_good x =
     (x_op x = XDR_DECODE \<and> x_ops x = Xdrmbuf_ops \<and> unat (x_handy x) < 2 ^ 31
      \<and> x_chain x \<noteq> [] \<and> (\<forall>m \<in> set (tl (x_chain x)). mbuf_ok m))"

definition mbuf_inp :: "xdr \<Rightarrow> byte list" where
  "mbuf_inp x = rdmem (x_mem x) (x_private x) (unat (x_handy x))
                @ concat (map (mbuf_data (x_mem x)) (tl (x_chain x)))"

lemma tail_dvd: "\<forall>m \<in> set ms. mbuf_ok m \<Longrightarrow> 4 dvd length (concat (map (mbuf_data mem) ms))"
  by (induction ms) (auto simp: mbuf_ok_def mbuf_data_def)

lemma mbuf_next_Cons:
  assumes "x_chain x = m # m' # ms"
  shows "xdrmbuf_next x (x_chain x) =
    (True, x\<lparr>x_chain := m' # ms, x_past := x_past x @ [m],
             x_private := m_dat m', x_handy := scast (m_len m')\<rparr>)"
  by (simp add: assms)

text \<open>The state the step to the next mbuf leaves, and what is left to read in it.\<close>

abbreviation mbuf_step :: "xdr \<Rightarrow> mbuf \<Rightarrow> mbuf \<Rightarrow> mbuf list \<Rightarrow> xdr" where
  "mbuf_step x m m' ms \<equiv> x\<lparr>x_chain := m' # ms, x_past := x_past x @ [m],
     x_private := m_dat m', x_handy := scast (m_len m')\<rparr>"

lemma mbuf_step_inp:
  assumes "x_chain x = m # m' # ms"
  shows "mbuf_inp x = rdmem (x_mem x) (x_private x) (unat (x_handy x)) @ mbuf_inp (mbuf_step x m m' ms)"
  using assms by (simp add: mbuf_inp_def mbuf_data_def mbuf_size_def)

lemma mbuf_step_good:
  assumes "mbufdec_good x" "x_chain x = m # m' # ms"
  shows "mbufdec_good (mbuf_step x m m' ms)"
  using assms by (auto simp: mbufdec_good_def mbuf_ok_def mbuf_size_def)

lemma get_loop_step:
  fixes n :: "32 word" and acc :: "byte list"
  assumes "x_chain x = m # ms" "unat (x_handy x) < unat n" "unat n < 2 ^ 31"
  defines "h \<equiv> x_handy x"
  defines "acc1 \<equiv> acc @ rdmem (x_mem x) (x_private x) (unat h)"
  shows "xdrmbuf_get_loop (x\<lparr>x_handy := h - n\<rparr>) acc n =
    (case ms of
       [] \<Rightarrow> (False, acc1, n - h, x\<lparr>x_chain := [], x_past := x_past x @ [m]\<rparr>)
     | m' # ms' \<Rightarrow>
         xdrmbuf_get_loop ((mbuf_step x m m' ms')\<lparr>x_handy := scast (m_len m') - (n - h)\<rparr>) acc1 (n - h))"
proof -
  have h31: "unat h < 2 ^ 31" using assms by simp
  have neg: "\<not> 0 \<le> sint (h - n)" using handy_sub(1)[OF h31 assms(3)] assms(2) by (simp add: h_def not_le)
  have h0: "0 < sint h \<or> h = 0"
    using h31 unsigned_greater_eq[of h] by (auto simp: sint_cases less_le unsigned_eq_0_iff)
  have x1: "x\<lparr>x_handy := h\<rparr> = x" by (simp add: h_def)
  from h0 show ?thesis
  proof
    assume "0 < sint h"
    then show ?thesis
      by (subst xdrmbuf_get_loop.simps)
        (simp add: neg acc1_def x1 assms(1) Let_def split: list.split)
  next
    assume "h = 0"
    then show ?thesis using neg x1
      by (subst xdrmbuf_get_loop.simps)
        (simp add: acc1_def assms(1) Let_def split: list.split)
  qed
qed

lemma get_loop_inp:
  assumes "mbufdec_good x" "x_chain x = m # ms" "unat n < 2 ^ 31"
  shows "if unat n \<le> length (mbuf_inp x)
    then (\<exists>acc' n' x'. xdrmbuf_get_loop (x\<lparr>x_handy := x_handy x - n\<rparr>) acc n = (True, acc', n', x')
            \<and> acc' @ rdmem (x_mem x') (x_private x') (unat n') = acc @ take (unat n) (mbuf_inp x)
            \<and> mbufdec_good (x'\<lparr>x_private := x_private x' + n'\<rparr>)
            \<and> mbuf_inp (x'\<lparr>x_private := x_private x' + n'\<rparr>) = drop (unat n) (mbuf_inp x))
    else \<not> fst (xdrmbuf_get_loop (x\<lparr>x_handy := x_handy x - n\<rparr>) acc n)"
  using assms
proof (induction ms arbitrary: x m n acc)
  case Nil
  have h31: "unat (x_handy x) < 2 ^ 31" using Nil.prems(1) by (simp add: mbufdec_good_def)
  note hs = handy_sub[OF h31 Nil.prems(3)]
  show ?case
  proof (cases "unat (x_handy x) < unat n")
    case True
    then show ?thesis using Nil.prems
      by (simp add: get_loop_step[OF Nil.prems(2) True Nil.prems(3)] mbuf_inp_def)
  next
    case False
    then show ?thesis using Nil.prems hs
      by (simp add: xdrmbuf_get_loop.simps not_less mbuf_inp_def take_rdmem drop_rdmem mbufdec_good_def
          less_imp_diff_less)
  qed
next
  case (Cons m' ms)
  have h31: "unat (x_handy x) < 2 ^ 31" using Cons.prems(1) by (simp add: mbufdec_good_def)
  note hs = handy_sub[OF h31 Cons.prems(3)]
  show ?case
  proof (cases "unat (x_handy x) < unat n")
    case True
    define y where "y = mbuf_step x m m' ms"
    define k where "k = n - x_handy x"
    have k: "unat k = unat n - unat (x_handy x)"
      using True by (simp add: k_def unat_sub word_le_nat_alt)
    have y: "mbufdec_good y" "x_chain y = m' # ms" "unat k < 2 ^ 31"
      using mbuf_step_good[OF Cons.prems(1,2)] Cons.prems(3) by (auto simp: y_def k)
    have i: "mbuf_inp x = rdmem (x_mem x) (x_private x) (unat (x_handy x)) @ mbuf_inp y"
      unfolding y_def by (rule mbuf_step_inp[OF Cons.prems(2)])
    have run: "xdrmbuf_get_loop (x\<lparr>x_handy := x_handy x - n\<rparr>) acc n =
        xdrmbuf_get_loop (y\<lparr>x_handy := x_handy y - k\<rparr>)
          (acc @ rdmem (x_mem x) (x_private x) (unat (x_handy x))) k"
      by (simp add: get_loop_step[OF Cons.prems(2) True Cons.prems(3)] y_def k_def)
    from Cons.IH[OF y, of "acc @ rdmem (x_mem x) (x_private x) (unat (x_handy x))"] True
    show ?thesis unfolding run by (auto simp: i k split: if_splits)
  next
    case False
    then show ?thesis using Cons.prems hs
      by (simp add: xdrmbuf_get_loop.simps not_less mbuf_inp_def take_rdmem drop_rdmem mbufdec_good_def
          less_imp_diff_less)
  qed
qed

text \<open>A long never crosses mbufs: what is left of the current one is a multiple of four.\<close>

lemma mbuf_handy_dvd:
  assumes "mbufdec_good x" "4 dvd length (mbuf_inp x)"
  shows "4 dvd unat (x_handy x)"
  using assms tail_dvd[of "tl (x_chain x)" "x_mem x"]
  by (simp add: mbufdec_good_def mbuf_inp_def dvd_add_left_iff)

lemma dvd4_cases: "4 dvd (n :: nat) \<Longrightarrow> n = 0 \<or> 4 \<le> n"
  by (auto simp: dvd_def)

lemma mbuf_getlong_direct:
  assumes "4 \<le> unat (x_handy x)" "unat (x_handy x) < 2 ^ 31"
  shows "xdrmbuf_getlong x v =
    (True, un_be32 (rdmem (x_mem x) (x_private x) 4),
     x\<lparr>x_handy := x_handy x - 4, x_private := x_private x + 4\<rparr>)"
  using handy4(1)[of "x_handy x"] assms by (simp add: xdrmbuf_getlong_def)

lemma mbuf_getlong_next:
  assumes "x_handy x = 0" "x_chain x = m # m' # ms"
  shows "xdrmbuf_getlong x v =
    (True, un_be32 (rdmem (x_mem x) (m_dat m') 4),
     (mbuf_step x m m' ms)\<lparr>x_handy := scast (m_len m') - 4, x_private := m_dat m' + 4\<rparr>)"
  using handy4(1)[of "x_handy x"] assms by (simp add: xdrmbuf_getlong_def)

interpretation mbufdec: xdr_decoder mbufdec_good mbuf_inp
proof unfold_locales
  fix x k assume "mbufdec_good x"
  then show "x_op x = XDR_DECODE" and
    "mbufdec_good (x\<lparr>x_kmem := k\<rparr>) \<and> mbuf_inp (x\<lparr>x_kmem := k\<rparr>) = mbuf_inp x"
    by (auto simp: mbufdec_good_def mbuf_inp_def)
next
  fix x v assume g: "mbufdec_good x" and d: "4 dvd length (mbuf_inp x)" and len: "4 \<le> length (mbuf_inp x)"
  have h31: "unat (x_handy x) < 2 ^ 31" and o: "x_ops x = Xdrmbuf_ops" using g by (auto simp: mbufdec_good_def)
  show "\<exists>x'. XDR_GETLONG x v = (True, un_be32 (take 4 (mbuf_inp x)), x')
      \<and> mbufdec_good x' \<and> mbuf_inp x' = drop 4 (mbuf_inp x)"
  proof (cases "4 \<le> unat (x_handy x)")
    case True
    then show ?thesis using g h31 handy4(2)[of "x_handy x"]
      by (simp add: XDR_GETLONG_def o mbuf_getlong_direct mbufdec_good_def mbuf_inp_def take_rdmem drop_rdmem
          less_imp_diff_less)
  next
    case False
    then have "unat (x_handy x) = 0" using dvd4_cases[OF mbuf_handy_dvd[OF g d]] by blast
    then have h0: "x_handy x = 0" by (simp only: unat_eq_zero)
    have "tl (x_chain x) \<noteq> []" using len h0 by (auto simp: mbuf_inp_def)
    then obtain m m' ms where c: "x_chain x = m # m' # ms"
      by (metis list.collapse tl_Nil)
    then have ok: "mbuf_ok m'" using g by (simp add: mbufdec_good_def)
    then have s: "4 \<le> mbuf_size m'" "mbuf_size m' < 2 ^ 31"
      using dvd4_cases[of "mbuf_size m'"] by (auto simp: mbuf_ok_def)
    then show ?thesis using g c handy4(2)[of "scast (m_len m')"]
      by (simp add: XDR_GETLONG_def o mbuf_getlong_next[OF h0 c] mbufdec_good_def mbuf_inp_def h0
          mbuf_data_def mbuf_size_def take_rdmem drop_rdmem less_imp_diff_less)
  qed
next
  fix x v assume g: "mbufdec_good x" and len: "length (mbuf_inp x) < 4"
  have o: "x_ops x = Xdrmbuf_ops" using g by (simp add: mbufdec_good_def)
  have h: "unat (x_handy x) < 4" using len by (simp add: mbuf_inp_def)
  obtain m ms where c: "x_chain x = m # ms" using g by (auto simp: mbufdec_good_def neq_Nil_conv)
  have "ms = []"
  proof (rule ccontr)
    assume "ms \<noteq> []"
    then obtain m' ms' where "ms = m' # ms'" by (auto simp: neq_Nil_conv)
    then have "mbuf_ok m'" "mbuf_size m' \<le> length (mbuf_inp x)"
      using g c by (auto simp: mbufdec_good_def mbuf_inp_def mbuf_data_def)
    then show False using len dvd4_cases[of "mbuf_size m'"] by (auto simp: mbuf_ok_def)
  qed
  then show "\<exists>x'. XDR_GETLONG x v = (False, v, x')"
    using h handy4(1)[of "x_handy x"] by (simp add: XDR_GETLONG_def o xdrmbuf_getlong_def c)
next
  fix x and n :: "32 word" assume g: "mbufdec_good x" and n: "unat n \<le> length (mbuf_inp x)" "unat n < 2 ^ 31"
  obtain m ms where c: "x_chain x = m # ms" using g by (auto simp: mbufdec_good_def neq_Nil_conv)
  have o: "x_ops x = Xdrmbuf_ops" using g by (simp add: mbufdec_good_def)
  from get_loop_inp[OF g c n(2), of "[]"] n(1) obtain acc n' x' where
    "xdrmbuf_get_loop (x\<lparr>x_handy := x_handy x - n\<rparr>) [] n = (True, acc, n', x')"
    "acc @ rdmem (x_mem x') (x_private x') (unat n') = take (unat n) (mbuf_inp x)"
    "mbufdec_good (x'\<lparr>x_private := x_private x' + n'\<rparr>)"
    "mbuf_inp (x'\<lparr>x_private := x_private x' + n'\<rparr>) = drop (unat n) (mbuf_inp x)" by auto
  then show "\<exists>x'. XDR_GETBYTES x n = (True, take (unat n) (mbuf_inp x), x')
      \<and> mbufdec_good x' \<and> mbuf_inp x' = drop (unat n) (mbuf_inp x)"
    by (simp add: XDR_GETBYTES_def o xdrmbuf_getbytes_def)
next
  fix x and n :: "32 word" assume g: "mbufdec_good x" and n: "length (mbuf_inp x) < unat n" "unat n < 2 ^ 31"
  obtain m ms where c: "x_chain x = m # ms" using g by (auto simp: mbufdec_good_def neq_Nil_conv)
  have o: "x_ops x = Xdrmbuf_ops" using g by (simp add: mbufdec_good_def)
  from get_loop_inp[OF g c n(2), of "[]"] n(1)
  have "\<not> fst (xdrmbuf_get_loop (x\<lparr>x_handy := x_handy x - n\<rparr>) [] n)" by simp
  then show "\<not> fst (XDR_GETBYTES x n)"
    by (auto simp: XDR_GETBYTES_def o xdrmbuf_getbytes_def split: prod.split)
next
  fix x b x' and n :: "32 word" assume "mbufdec_good x" "XDR_INLINE x n = (Some b, x')" "unat n < 2 ^ 31"
  then show "unat n \<le> length (mbuf_inp x) \<and> rdmem (x_mem x') b (unat n) = take (unat n) (mbuf_inp x)
      \<and> mbufdec_good x' \<and> mbuf_inp x' = drop (unat n) (mbuf_inp x)"
    using handy_sub[of "x_handy x" n] handy_ge[of "x_handy x" n]
    by (auto simp: mbufdec_good_def mbuf_inp_def XDR_INLINE_def xdrmbuf_inline_def take_rdmem drop_rdmem
        split: if_splits)
next
  fix x x' and n :: "32 word" assume "mbufdec_good x" "XDR_INLINE x n = (None, x')"
  then show "x' = x" by (auto simp: mbufdec_good_def XDR_INLINE_def xdrmbuf_inline_def split: if_splits)
qed

end
