(* ===== verification/Xdr_Enc.thy ===== *)
theory Xdr_Enc
  imports Xdr_Laws
begin

text \<open>
  Encoding: the laws a stream in encode mode keeps (\<open>out\<close> is what has been written, \<open>room\<close> the
  number of bytes that still fit) and, under them, the proof that each generic routine implements
  its reference encoder: it appends exactly that encoding, or answers FALSE when the encoding
  does not exist or does not fit.
\<close>

locale xdr_encoder =
  fixes good :: "xdr \<Rightarrow> bool" and out :: "xdr \<Rightarrow> byte list" and room :: "xdr \<Rightarrow> nat"
  assumes enc_op: "good x \<Longrightarrow> x_op x = XDR_ENCODE"
    and putlong_ok: "\<lbrakk>good x; 4 dvd room x; 4 \<le> room x\<rbrakk>
      \<Longrightarrow> \<exists>x'. XDR_PUTLONG x v = (True, x') \<and> good x' \<and> out x' = out x @ be32 v \<and> room x' + 4 = room x"
    and putlong_full: "\<lbrakk>good x; room x < 4\<rbrakk> \<Longrightarrow> \<not> fst (XDR_PUTLONG x v)"
    and putbytes_ok: "\<lbrakk>good x; length bs \<le> room x; length bs < 2 ^ 31\<rbrakk>
      \<Longrightarrow> \<exists>x'. XDR_PUTBYTES x bs = (True, x') \<and> good x' \<and> out x' = out x @ bs
                \<and> room x' + length bs = room x"
    and putbytes_full: "\<lbrakk>good x; room x < length bs; length bs < 2 ^ 31\<rbrakk> \<Longrightarrow> \<not> fst (XDR_PUTBYTES x bs)"
    and inline_some: "\<lbrakk>good x; XDR_INLINE x n = (Some b, x'); unat n < 2 ^ 31;
        \<And>a. unat n \<le> unat (a - b) \<Longrightarrow> m a = x_mem x' a\<rbrakk>
      \<Longrightarrow> unat n \<le> room x \<and> good (x'\<lparr>x_mem := m\<rparr>) \<and> out (x'\<lparr>x_mem := m\<rparr>) = out x @ rdmem m b (unat n)
           \<and> room (x'\<lparr>x_mem := m\<rparr>) + unat n = room x"
    and inline_none: "\<lbrakk>good x; XDR_INLINE x n = (None, x')\<rbrakk> \<Longrightarrow> x' = x"
begin

lemma encodes_put:
  assumes proc: "\<And>x. good x \<Longrightarrow> proc x v = (let (ok, x') = XDR_PUTLONG x w in (ok, v, x'))"
    and E: "E v = Some (be32 w)"
  shows "encodes good out room proc E v"
proof (rule encodesI)
  fix x bs assume x: "good x" "4 dvd room x" "E v = Some bs"
  { assume "room x < length bs"
    then have "room x < 4" using x(3) E by auto
    then have "\<not> fst (XDR_PUTLONG x w)" by (rule putlong_full[OF x(1)])
    then show "\<not> fst (proc x v)" by (auto simp: proc[OF x(1)] split: prod.split) }
  { assume "length bs \<le> room x"
    with x E putlong_ok[OF x(1,2), of w] show "\<exists>x'. proc x v = (True, v, x') \<and> good x'
        \<and> out x' = out x @ bs \<and> room x' + length bs = room x \<and> 4 dvd length bs"
      by (auto simp: proc) }
qed (simp add: E)

lemma encodes_long: "encodes good out room xdr_long e_long v"
  by (rule encodes_put) (auto simp: xdr_long_def enc_op e_long_def)

lemma encodes_u_long: "encodes good out room xdr_u_long e_long v"
  by (rule encodes_put) (auto simp: xdr_u_long_def enc_op e_long_def)

lemma encodes_int: "encodes good out room xdr_int e_long v"
  by (rule encodes_put) (auto simp: xdr_int_def sizeof_int_def sizeof_long_def xdr_long_def enc_op e_long_def)

lemma encodes_u_int: "encodes good out room xdr_u_int e_long v"
  by (rule encodes_put) (auto simp: xdr_u_int_def sizeof_int_def sizeof_long_def xdr_u_long_def enc_op e_long_def)

lemma encodes_enum: "encodes good out room xdr_enum e_long v"
  by (rule encodes_put) (auto simp: xdr_enum_def sizeof_enum_def sizeof_long_def xdr_long_def enc_op e_long_def)

lemma encodes_short: "encodes good out room xdr_short (\<lambda>v. e_long (scast v)) v"
  by (rule encodes_put) (auto simp: xdr_short_def enc_op e_long_def)

lemma encodes_u_short: "encodes good out room xdr_u_short (\<lambda>v. e_long (ucast v)) v"
  by (rule encodes_put) (auto simp: xdr_u_short_def enc_op e_long_def)

lemma encodes_bool: "encodes good out room xdr_bool (\<lambda>v. e_long (if v \<noteq> 0 then 1 else 0)) v"
  by (rule encodes_put) (simp_all add: xdr_bool_def enc_op e_long_def)

lemma opaque_encode:
  fixes cp :: "byte list"
  assumes x: "good x" and n: "unat n < 2 ^ 31 - 4"
  defines "bs \<equiv> rdbuf cp (unat n) @ replicate (padlen (unat n)) 0"
  shows "if length bs \<le> room x
    then \<exists>x'. xdr_opaque x cp n = (True, cp, x') \<and> good x' \<and> out x' = out x @ bs
              \<and> room x' + length bs = room x
    else \<not> fst (xdr_opaque x cp n)"
proof (cases "n = 0")
  case True
  then show ?thesis using x by (simp add: bs_def padlen_def xdr_opaque_def rdbuf_def)
next
  case False
  define rn where "rn = xdr_rndup n"
  have rn: "unat rn = padlen (unat n)" by (simp add: rn_def rndup_padlen)
  have e: "xdr_opaque x cp n =
      (let (ok, x1) = XDR_PUTBYTES x (rdbuf cp (unat n)) in
       if \<not> ok then (False, cp, x1)
       else if rn = 0 then (True, cp, x1)
       else (let (ok2, x2) = XDR_PUTBYTES x1 (rdbuf xdr_zero (unat rn)) in (ok2, cp, x2)))"
    unfolding rn_def using False enc_op[OF x] by (simp add: xdr_opaque_def Let_def)
  have pad: "rdbuf xdr_zero (unat rn) = replicate (padlen (unat n)) 0"
    using padlen_less[of "unat n"] by (simp add: rn rdbuf_zero)
  have len: "length (rdbuf cp (unat n)) < 2 ^ 31" using n by simp
  show ?thesis
  proof (cases "length (rdbuf cp (unat n)) \<le> room x")
    case True
    from putbytes_ok[OF x True len]
    obtain x1 where x1: "XDR_PUTBYTES x (rdbuf cp (unat n)) = (True, x1)" "good x1"
      "out x1 = out x @ rdbuf cp (unat n)" "room x1 + unat n = room x" by auto
    show ?thesis
    proof (cases "rn = 0")
      case True
      then have "padlen (unat n) = 0" using rn by simp
      then show ?thesis using True x1 by (auto simp: e bs_def)
    next
      case rn0: False
      have len2: "length (replicate (padlen (unat n)) (0 :: byte)) < 2 ^ 31"
        using padlen_less[of "unat n"] by simp
      show ?thesis
      proof (cases "padlen (unat n) \<le> room x1")
        case True
        then have "length (replicate (padlen (unat n)) (0 :: byte)) \<le> room x1" by simp
        from putbytes_ok[OF x1(2) this len2] show ?thesis
          using x1 rn0 True by (auto simp: e bs_def pad)
      next
        case f: False
        then have "\<not> fst (XDR_PUTBYTES x1 (replicate (padlen (unat n)) 0))"
          by (intro putbytes_full x1 len2) simp
        then show ?thesis using x1 rn0 f by (auto simp: e bs_def pad split: prod.split)
      qed
    qed
  next
    case f: False
    then have "\<not> fst (XDR_PUTBYTES x (rdbuf cp (unat n)))" by (intro putbytes_full x len) simp
    then show ?thesis using f by (auto simp: e bs_def split: prod.split)
  qed
qed

text \<open>A routine that writes a long and then goes on.\<close>

lemma encodes_after_long:
  assumes hd: "encodes good out room q e_long n"
    and none: "\<And>x. \<lbrakk>good x; 4 dvd room x; E v = None\<rbrakk> \<Longrightarrow> \<not> fst (proc x v)"
    and some: "\<And>bs. E v = Some bs \<Longrightarrow> \<exists>cs. bs = be32 n @ cs \<and> 4 dvd length cs"
    and fail: "\<And>x. \<lbrakk>good x; \<not> fst (q x n)\<rbrakk> \<Longrightarrow> \<not> fst (proc x v)"
    and run: "\<And>x x1 cs. \<lbrakk>good x; q x n = (True, n, x1); good x1; E v = Some (be32 n @ cs)\<rbrakk>
      \<Longrightarrow> if length cs \<le> room x1
          then \<exists>x'. proc x v = (True, v, x') \<and> good x' \<and> out x' = out x1 @ cs \<and> room x' + length cs = room x1
          else \<not> fst (proc x v)"
  shows "encodes good out room proc E v"
proof (rule encodesI)
  fix x assume "good x" "4 dvd room x" "E v = None"
  then show "\<not> fst (proc x v)" by (rule none)
next
  fix x bs assume x: "good x" "4 dvd room x" "E v = Some bs"
  obtain cs where cs: "bs = be32 n @ cs" "4 dvd length cs" using some[OF x(3)] by blast
  have E: "e_long n = Some (be32 n)" by (simp add: e_long_def)
  { assume full: "room x < length bs"
    show "\<not> fst (proc x v)"
    proof (cases "4 \<le> room x")
      case True
      then have "length (be32 n) \<le> room x" by simp
      from encodes_Some[OF hd x(1,2) E this] obtain x1
        where "q x n = (True, n, x1)" "good x1" "room x1 + 4 = room x" by auto
      with run[OF x(1) this(1,2), of cs] full cs x(3) show ?thesis by (auto split: if_splits)
    next
      case False
      then show ?thesis using encodes_full[OF hd x(1,2) E] by (intro fail[OF x(1)]) simp
    qed }
  { assume fits: "length bs \<le> room x"
    then have "length (be32 n) \<le> room x" using cs(1) by simp
    from encodes_Some[OF hd x(1,2) E this] obtain x1
      where "q x n = (True, n, x1)" "good x1" "room x1 + 4 = room x" "out x1 = out x @ be32 n" by auto
    with run[OF x(1) this(1,2), of cs] fits cs x(3) show "\<exists>x'. proc x v = (True, v, x') \<and> good x'
        \<and> out x' = out x @ bs \<and> room x' + length bs = room x \<and> 4 dvd length bs"
      by (auto split: if_splits) }
qed

text \<open>Whatever the outcome, a successful long leaves the object and the laws as they were.\<close>

lemma long_good:
  assumes "encodes good out room q e_long n" "good x" "4 dvd room x" "q x n = (True, w, x1)"
  shows "w = n \<and> good x1"
proof -
  have E: "e_long n = Some (be32 n)" by (simp add: e_long_def)
  show ?thesis
  proof (cases "length (be32 n) \<le> room x")
    case True
    from encodes_Some[OF assms(1-3) E True] assms(4) show ?thesis by auto
  next
    case False
    with encodes_full[OF assms(1-3) E] assms(4) show ?thesis by simp
  qed
qed

lemma encodes_bytes:
  assumes m: "unat m < 2 ^ 31 - 4"
  shows "encodes good out room (xdr_bytes m) (e_bytes m) (p, n)"
proof (rule encodes_after_long[OF encodes_u_int[of n]])
  fix x assume "\<not> fst (xdr_u_int x n)"
  then show "\<not> fst (xdr_bytes m x (p, n))" by (auto simp: xdr_bytes_def split: prod.split)
next
  fix x assume x: "good x" "4 dvd room x" and "e_bytes m (p, n) = None"
  then have "n > m" by (simp add: e_bytes_def split: if_splits)
  then show "\<not> fst (xdr_bytes m x (p, n))"
    using long_good[OF encodes_u_int x] enc_op by (auto simp: xdr_bytes_def split: prod.split)
next
  fix bs assume "e_bytes m (p, n) = Some bs"
  then show "\<exists>cs. bs = be32 n @ cs \<and> 4 dvd length cs"
    using padlen_dvd[of "unat n"] by (auto simp: e_bytes_def split: if_splits)
next
  fix x x1 cs assume g: "good x1" and u: "xdr_u_int x n = (True, n, x1)"
    and e: "e_bytes m (p, n) = Some (be32 n @ cs)"
  from e have le: "\<not> n > m" and cs: "cs = rdbuf (bytes_at p) (unat n) @ replicate (padlen (unat n)) 0"
    by (auto simp: e_bytes_def split: if_splits)
  have "unat n < 2 ^ 31 - 4" using le m by (simp add: word_less_nat_alt)
  from opaque_encode[OF g this, of "bytes_at p"] enc_op[OF g] le show "if length cs \<le> room x1
      then \<exists>x'. xdr_bytes m x (p, n) = (True, (p, n), x') \<and> good x' \<and> out x' = out x1 @ cs
                \<and> room x' + length cs = room x1
      else \<not> fst (xdr_bytes m x (p, n))"
    by (auto simp: xdr_bytes_def u cs split: prod.split)
qed

text \<open>
  Strings shorter than \<open>2\<^sup>3\<^sup>2\<close> bytes, so that \<open>strlen\<close> fits \<open>size\<close>.
\<close>

lemma encodes_string:
  assumes m: "unat m < 2 ^ 31 - 4" and len: "strlen (bytes_at p) < 2 ^ 32"
  shows "encodes good out room (xdr_string m) (e_string m) p"
proof -
  define n where "n = (of_nat (strlen (bytes_at p)) :: 32 word)"
  have un: "unat n = strlen (bytes_at p)" using len by (simp add: n_def unat_of_nat)
  have le: "strlen bs \<le> length bs" for bs
    by (simp add: strlen_def length_takeWhile_le)
  have E: "e_string m p = (if n > m then None
      else Some (be32 n @ rdbuf (bytes_at p) (unat n) @ replicate (padlen (unat n)) 0))"
    using le by (simp add: e_string_def Let_def n_def[symmetric] un rdbuf_def)
  show ?thesis
  proof (rule encodes_after_long[OF encodes_u_int[of n]])
    fix x assume "good x" "\<not> fst (xdr_u_int x n)"
    then show "\<not> fst (xdr_string m x p)"
      by (auto simp: xdr_string_def enc_op n_def[symmetric] split: prod.split)
  next
    fix x assume x: "good x" "4 dvd room x" and "e_string m p = None"
    then have "n > m" by (simp add: E split: if_splits)
    then show "\<not> fst (xdr_string m x p)"
      using long_good[OF encodes_u_int x] enc_op[OF x(1)]
      by (auto simp: xdr_string_def n_def[symmetric] split: prod.split)
  next
    fix bs assume "e_string m p = Some bs"
    then show "\<exists>cs. bs = be32 n @ cs \<and> 4 dvd length cs"
      using padlen_dvd[of "unat n"] by (auto simp: E split: if_splits)
  next
    fix x x1 cs assume g0: "good x" and g: "good x1" and u: "xdr_u_int x n = (True, n, x1)"
      and e: "e_string m p = Some (be32 n @ cs)"
    from e have nm: "\<not> n > m" and cs: "cs = rdbuf (bytes_at p) (unat n) @ replicate (padlen (unat n)) 0"
      by (auto simp: E split: if_splits)
    have "unat n < 2 ^ 31 - 4" using nm m by (simp add: word_less_nat_alt)
    from opaque_encode[OF g this, of "bytes_at p"] enc_op[OF g] enc_op[OF g0] nm
    show "if length cs \<le> room x1
      then \<exists>x'. xdr_string m x p = (True, p, x') \<and> good x' \<and> out x' = out x1 @ cs
                \<and> room x' + length cs = room x1
      else \<not> fst (xdr_string m x p)"
      by (auto simp: xdr_string_def u cs n_def[symmetric] Let_def split: prod.split)
  qed
qed

lemma encodes_pick:
  assumes arm: "\<And>p. pick_arm cs df d = Some p \<Longrightarrow> \<exists>E. arm d = Some E \<and> encodes good out room p E u"
    and noarm: "pick_arm cs df d = None \<Longrightarrow> arm d = None"
  shows "encodes good out room (xdr_union cs df) (e_union arm) (d, u)"
proof (rule encodesI)
  fix x assume x: "good x" "4 dvd room x" and no: "e_union arm (d, u) = None"
  show "\<not> fst (xdr_union cs df x (d, u))"
  proof (cases "xdr_enum x d")
    case (fields ok w x1)
    show ?thesis
    proof (cases ok)
      case True
      with fields have f: "xdr_enum x d = (True, w, x1)" by simp
      have w: "w = d" "good x1" using long_good[OF encodes_enum x f] by auto
      have r1: "4 dvd room x1"
      proof -
        have E: "e_long d = Some (be32 d)" by (simp add: e_long_def)
        have "length (be32 d) \<le> room x"
          using encodes_full[OF encodes_enum x E] f by (simp add: not_less[symmetric]) blast
        from encodes_Some[OF encodes_enum x E this] f show ?thesis by auto
      qed
      show ?thesis
      proof (cases "pick_arm cs df d")
        case None
        then show ?thesis by (simp add: xdr_union_pick f w)
      next
        case (Some p)
        from arm[OF Some] obtain E where E: "arm d = Some E" "encodes good out room p E u" by blast
        from E no have "E u = None" by (auto simp: e_union_def split: option.splits)
        from encodes_None[OF E(2) w(2) r1 this] show ?thesis
          by (auto simp: xdr_union_pick f w Some split: prod.split)
      qed
    qed (simp add: xdr_union_pick fields)
  qed
next
  fix x bs assume x: "good x" "4 dvd room x" and s: "e_union arm (d, u) = Some bs"
  then obtain E cs' where E: "arm d = Some E" "E u = Some cs'" and bs: "bs = be32 d @ cs'"
    by (auto simp: e_union_def split: option.splits)
  obtain p where p: "pick_arm cs df d = Some p" using noarm E(1) by (cases "pick_arm cs df d") auto
  from arm[OF p] E(1) have pe: "encodes good out room p E u" by auto
  have El: "e_long d = Some (be32 d)" by (simp add: e_long_def)
  { assume full: "room x < length bs"
    show "\<not> fst (xdr_union cs df x (d, u))"
    proof (cases "length (be32 d) \<le> room x")
      case True
      from encodes_Some[OF encodes_enum x El True] obtain x1 where
        x1: "xdr_enum x d = (True, d, x1)" "good x1" "room x1 + 4 = room x" "4 dvd room x1" by auto
      from encodes_full[OF pe x1(2,4) E(2)] full bs x1(3) have "\<not> fst (p x1 u)" by simp
      then show ?thesis by (auto simp: xdr_union_pick x1 p split: prod.split)
    next
      case False
      then have "\<not> fst (xdr_enum x d)" using encodes_full[OF encodes_enum x El] by simp
      then show ?thesis by (auto simp: xdr_union_pick split: prod.split)
    qed }
  { assume fits: "length bs \<le> room x"
    then have "length (be32 d) \<le> room x" using bs by simp
    from encodes_Some[OF encodes_enum x El this] obtain x1 where
      x1: "xdr_enum x d = (True, d, x1)" "good x1" "room x1 + 4 = room x" "4 dvd room x1"
      "out x1 = out x @ be32 d" by auto
    have "length cs' \<le> room x1" using fits bs x1(3) by simp
    from encodes_Some[OF pe x1(2,4) E(2) this] obtain x2 where
      "p x1 u = (True, u, x2)" "good x2" "out x2 = out x1 @ cs'" "room x2 + length cs' = room x1"
      "4 dvd length cs'" by blast
    then show "\<exists>x'. xdr_union cs df x (d, u) = (True, (d, u), x') \<and> good x'
        \<and> out x' = out x @ bs \<and> room x' + length bs = room x \<and> 4 dvd length bs"
      using x1 by (simp add: xdr_union_pick p bs) }
qed

lemma encodes_union:
  assumes arm: "\<And>p. union_arm cs d = Some p \<Longrightarrow> \<exists>E. arm d = Some E \<and> encodes good out room p E u"
    and noarm: "union_arm cs d = None \<Longrightarrow> arm d = None"
  shows "encodes good out room (xdr_union cs None) (e_union arm) (d, u)"
  by (rule encodes_pick) (use assms in auto)

lemma encodes_reference:
  assumes "encodes good out room proc E v"
  shows "encodes good out room (xdr_reference sz z proc) (\<lambda>pp. case pp of None \<Rightarrow> None | Some v \<Rightarrow> E v) (Some v)"
proof (rule encodesI)
  fix x assume x: "good x" "4 dvd room x" "(case Some v of None \<Rightarrow> None | Some v \<Rightarrow> E v) = None"
  then have "\<not> fst (proc x v)" using encodes_None[OF assms x(1,2)] by simp
  then show "\<not> fst (xdr_reference sz z proc x (Some v))" by (auto simp: xdr_reference_def split: prod.split)
next
  fix x bs assume x: "good x" "4 dvd room x" "(case Some v of None \<Rightarrow> None | Some v \<Rightarrow> E v) = Some bs"
  then have E: "E v = Some bs" by simp
  { assume "room x < length bs"
    with encodes_full[OF assms x(1,2) E] show "\<not> fst (xdr_reference sz z proc x (Some v))"
      by (auto simp: xdr_reference_def split: prod.split) }
  { assume "length bs \<le> room x"
    from encodes_Some[OF assms x(1,2) E this] obtain x' where "proc x v = (True, v, x')" "good x'"
      "out x' = out x @ bs" "room x' + length bs = room x" "4 dvd length bs" by blast
    then show "\<exists>x'. xdr_reference sz z proc x (Some v) = (True, Some v, x') \<and> good x'
        \<and> out x' = out x @ bs \<and> room x' + length bs = room x \<and> 4 dvd length bs"
      using enc_op by (simp add: xdr_reference_def) }
qed

lemma elems_encode:
  assumes e: "\<And>v. v \<in> set xs \<Longrightarrow> encodes good out room proc E v"
  shows "\<lbrakk>good x; 4 dvd room x; i \<le> length xs\<rbrakk> \<Longrightarrow>
    (case e_elems E (drop i xs) of
       None \<Rightarrow> \<not> fst (xdr_elems proc x xs i (length xs))
     | Some bs \<Rightarrow>
         if length bs \<le> room x
         then (\<exists>x'. xdr_elems proc x xs i (length xs) = (True, xs, x') \<and> good x' \<and> out x' = out x @ bs
                    \<and> room x' + length bs = room x \<and> 4 dvd length bs)
         else \<not> fst (xdr_elems proc x xs i (length xs)))"
proof (induction "length xs - i" arbitrary: x i)
  case 0
  then show ?case by (simp add: xdr_elems.simps)
next
  case (Suc k)
  have i: "i < length xs" "k = length xs - Suc i" "Suc i \<le> length xs" using Suc.hyps(2) by auto
  have sp: "drop i xs = xs ! i # drop (Suc i) xs" using i(1) by (simp add: Cons_nth_drop_Suc)
  have ei: "encodes good out room proc E (xs ! i)" using i(1) by (intro e) simp
  note x = Suc.prems(1,2)
  have stop: "\<not> fst (xdr_elems proc x xs i (length xs))" if "\<not> fst (proc x (xs ! i))"
    using that i(1) by (auto simp: xdr_elems.simps[of _ _ _ i] split: prod.split)
  show ?case
  proof (cases "E (xs ! i)")
    case None
    then show ?thesis using stop[OF encodes_None[OF ei x None]] by (simp add: sp)
  next
    case (Some b)
    show ?thesis
    proof (cases "length b \<le> room x")
      case True
      from encodes_Some[OF ei x Some True] obtain x1 where x1: "proc x (xs ! i) = (True, xs ! i, x1)"
        "good x1" "out x1 = out x @ b" "room x1 + length b = room x" "4 dvd length b" "4 dvd room x1" by blast
      have run: "xdr_elems proc x xs i (length xs) = xdr_elems proc x1 xs (Suc i) (length xs)"
        using x1(1) i(1) by (simp add: xdr_elems.simps[of _ x _ i])
      from Suc.hyps(1)[OF i(2) x1(2,6) i(3)] x1(3,4,5) show ?thesis
        unfolding run by (auto simp: sp Some split: option.splits if_splits)
    next
      case False
      then show ?thesis using stop encodes_full[OF ei x Some]
        by (auto simp: sp Some split: option.splits)
    qed
  qed
qed

lemma encodes_array:
  assumes e: "\<And>v. v \<in> set xs \<Longrightarrow> encodes good out room elproc E v"
    and n: "unat n = length xs"
  shows "encodes good out room (xdr_array m elsize z elproc) (e_array m E) (Some xs, n)"
proof -
  have run: "xdr_array m elsize z elproc x (Some xs, n) =
      (if n > m then (False, (Some xs, n), x1)
       else (let (stat, t, x3) = xdr_elems elproc x1 xs 0 (length xs) in
             if x_op x3 = XDR_FREE then (stat, (None, n), mem_free x3 (n * elsize)) else (stat, (Some t, n), x3)))"
    if "xdr_u_int x n = (True, n, x1)" "good x1" for x x1
    using that enc_op[OF that(2)] n by (simp add: xdr_array_def Let_def split: prod.split)
  show ?thesis
  proof (rule encodesI)
    fix x assume x: "good x" "4 dvd room x" and no: "e_array m E (Some xs, n) = None"
    obtain ok w x1 where f: "xdr_u_int x n = (ok, w, x1)" by (cases "xdr_u_int x n") auto
    show "\<not> fst (xdr_array m elsize z elproc x (Some xs, n))"
    proof (cases ok)
      case True
      with f have f: "xdr_u_int x n = (True, w, x1)" by simp
      have w: "w = n" "good x1" using long_good[OF encodes_u_int x f] by auto
      have E: "e_long n = Some (be32 n)" by (simp add: e_long_def)
      have "length (be32 n) \<le> room x"
        using encodes_full[OF encodes_u_int x E] f by (simp add: not_less[symmetric]) blast
      from encodes_Some[OF encodes_u_int x E this] f have r1: "4 dvd room x1" by auto
      show ?thesis
      proof (cases "n > m")
        case True
        then show ?thesis using run[of x x1] f w by simp
      next
        case False
        with no n have "e_elems E (drop 0 xs) = None" by (auto simp: e_array_def split: option.splits)
        with elems_encode[OF e w(2) r1, of xs 0] have "\<not> fst (xdr_elems elproc x1 xs 0 (length xs))" by simp
        then show ?thesis using run[of x x1] f w False
          by (cases "xdr_elems elproc x1 xs 0 (length xs)") simp
      qed
    qed (simp add: xdr_array_def f)
  next
    fix x bs assume x: "good x" "4 dvd room x" and s: "e_array m E (Some xs, n) = Some bs"
    from s n obtain cs where nm: "\<not> n > m" and cs: "e_elems E (drop 0 xs) = Some cs" "bs = be32 n @ cs"
      by (auto simp: e_array_def split: if_splits option.splits)
    have El: "e_long n = Some (be32 n)" by (simp add: e_long_def)
    { assume full: "room x < length bs"
      show "\<not> fst (xdr_array m elsize z elproc x (Some xs, n))"
      proof (cases "length (be32 n) \<le> room x")
        case True
        from encodes_Some[OF encodes_u_int x El True] obtain x1 where
          x1: "xdr_u_int x n = (True, n, x1)" "good x1" "room x1 + 4 = room x" "4 dvd room x1" by auto
        from elems_encode[OF e x1(2,4), of xs 0] cs full x1(3)
        have "\<not> fst (xdr_elems elproc x1 xs 0 (length xs))" by simp
        then show ?thesis using run[OF x1(1,2)] nm
          by (cases "xdr_elems elproc x1 xs 0 (length xs)") simp
      next
        case False
        then have "\<not> fst (xdr_u_int x n)" using encodes_full[OF encodes_u_int x El] by simp
        then show ?thesis by (auto simp: xdr_array_def split: prod.split)
      qed }
    { assume fits: "length bs \<le> room x"
      then have "length (be32 n) \<le> room x" using cs by simp
      from encodes_Some[OF encodes_u_int x El this] obtain x1 where
        x1: "xdr_u_int x n = (True, n, x1)" "good x1" "room x1 + 4 = room x" "4 dvd room x1"
        "out x1 = out x @ be32 n" by auto
      have "length cs \<le> room x1" using fits cs(2) x1(3) by simp
      with elems_encode[OF e x1(2,4), of xs 0] cs(1) obtain x2 where
        x2: "xdr_elems elproc x1 xs 0 (length xs) = (True, xs, x2)" "good x2" "out x2 = out x1 @ cs"
        "room x2 + length cs = room x1" "4 dvd length cs" by auto
      then show "\<exists>x'. xdr_array m elsize z elproc x (Some xs, n) = (True, (Some xs, n), x') \<and> good x'
          \<and> out x' = out x @ bs \<and> room x' + length bs = room x \<and> 4 dvd length bs"
        using run[OF x1(1,2)] nm x1 enc_op[OF x2(2)] cs(2) by simp }
  qed
qed

end

end
