(* ===== verification/Xdr_Inst_Enc.thy ===== *)
theory Xdr_Inst_Enc
  imports Xdr_Inst Xdr_Enc
begin

text \<open>
  Both stream implementations in encode mode keep the laws of \<open>xdr_encoder\<close>: the flat buffer
  when it does not wrap around the address space, the mbuf chain when the mbufs not yet reached
  hold a positive multiple of four bytes and no two share memory.
\<close>

lemma wrmem_outside:
  assumes "\<And>j. j < length bs \<Longrightarrow> a \<noteq> p + of_nat j"
  shows "wrmem m p bs a = m a"
proof -
  have "a = p + of_nat (unat (a - p))" by simp
  then have "\<not> unat (a - p) < length bs" using assms by blast
  then show ?thesis unfolding wrmem_def by presburger
qed

lemma outside_range:
  fixes a b :: addr
  assumes "\<And>j. j < n \<Longrightarrow> a \<noteq> b + of_nat j"
  shows "n \<le> unat (a - b)"
proof (rule ccontr)
  assume "\<not> n \<le> unat (a - b)"
  moreover have "a = b + of_nat (unat (a - b))" by simp
  ultimately show False using assms not_le by blast
qed

section \<open>Flat buffers\<close>

definition memenc_good :: "xdr \<Rightarrow> bool" where
  "memenc_good x =
     (x_op x = XDR_ENCODE \<and> x_ops x = Xdrmem_ops \<and> unat (x_handy x) < 2 ^ 31
      \<and> unat (x_private x - x_base x) + unat (x_handy x) < 2 ^ 32)"

definition mem_out :: "xdr \<Rightarrow> byte list" where
  "mem_out x = rdmem (x_mem x) (x_base x) (unat (x_private x - x_base x))"

definition mem_room :: "xdr \<Rightarrow> nat" where
  "mem_room x = unat (x_handy x)"

lemma unat_add32:
  fixes a b :: "32 word"
  assumes "unat a + unat b < 2 ^ 32"
  shows "unat (a + b) = unat a + unat b"
  using assms by (simp add: unat_add_lem[THEN iffD1])

text \<open>Moving the pointer over \<open>n\<close> bytes and putting anything there.\<close>

lemma mem_advance:
  assumes g: "memenc_good x" and n: "unat n \<le> unat (x_handy x)"
    and m: "\<And>a. unat n \<le> unat (a - x_private x) \<Longrightarrow> m a = x_mem x a"
  defines "x' \<equiv> x\<lparr>x_handy := x_handy x - n, x_private := x_private x + n, x_mem := m\<rparr>"
  shows "memenc_good x' \<and> mem_out x' = mem_out x @ rdmem m (x_private x) (unat n)
    \<and> mem_room x' + unat n = mem_room x"
proof -
  define k where "k = unat (x_private x - x_base x)"
  have h31: "unat (x_handy x) < 2 ^ 31" and w: "k + unat (x_handy x) < 2 ^ 32"
    using g by (auto simp: memenc_good_def k_def)
  have n31: "unat n < 2 ^ 31" using n h31 by simp
  have p: "x_private x = x_base x + of_nat k" by (simp add: k_def)
  have k': "unat (x_private x + n - x_base x) = k + unat n"
  proof -
    have "x_private x + n - x_base x = (x_private x - x_base x) + n" by simp
    moreover have "unat ((x_private x - x_base x) + n) = k + unat n"
      using unat_add32[of "x_private x - x_base x" n] n w by (simp only: k_def)
    ultimately show ?thesis by (simp only:)
  qed
  have h: "unat (x_handy x - n) = unat (x_handy x) - unat n" by (rule handy_sub(2)[OF h31 n31 n])
  have same: "rdmem m (x_base x) k = rdmem (x_mem x) (x_base x) k"
  proof (rule rdmem_cong)
    fix i assume i: "i < k"
    have "unat (x_base x + of_nat i - x_private x) = 2 ^ 32 - (k - i)"
      unfolding p using i w by (intro unat_offset_below) auto
    then show "m (x_base x + of_nat i) = x_mem x (x_base x + of_nat i)"
      using w n by (intro m) linarith
  qed
  have "rdmem m (x_base x) (k + unat n) = rdmem m (x_base x) k @ rdmem m (x_private x) (unat n)"
    using p by (simp add: rdmem_add)
  then show ?thesis using g n w h31
    by (simp add: x'_def memenc_good_def mem_out_def mem_room_def k' h k_def[symmetric] same
        less_imp_diff_less)
qed

lemma mem_put:
  assumes g: "memenc_good x" and n: "length bs \<le> unat (x_handy x)"
  defines "x' \<equiv> x\<lparr>x_handy := x_handy x - of_nat (length bs), x_mem := wrmem (x_mem x) (x_private x) bs,
                    x_private := x_private x + of_nat (length bs)\<rparr>"
  shows "memenc_good x' \<and> mem_out x' = mem_out x @ bs \<and> mem_room x' + length bs = mem_room x"
proof -
  have len: "length bs < 2 ^ 32" using n unat_lt32[of "x_handy x"] by linarith
  then have u: "unat (of_nat (length bs) :: 32 word) = length bs" by (simp add: unat_of_nat)
  have out: "wrmem (x_mem x) (x_private x) bs a = x_mem x a"
    if "unat (of_nat (length bs) :: 32 word) \<le> unat (a - x_private x)" for a
    using that by (simp add: wrmem_def u)
  have r: "rdmem (wrmem (x_mem x) (x_private x) bs) (x_private x) (length bs) = bs"
    using len by (intro rdmem_wrmem_same) simp
  have x': "x' = x\<lparr>x_handy := x_handy x - of_nat (length bs), x_private := x_private x + of_nat (length bs),
                   x_mem := wrmem (x_mem x) (x_private x) bs\<rparr>"
    unfolding x'_def by (rule xdr.equality) simp_all
  from mem_advance[OF g, of "of_nat (length bs)", OF _ out] n show ?thesis
    by (simp add: x' u r)
qed

interpretation memenc: xdr_encoder memenc_good mem_out mem_room
proof unfold_locales
  fix x assume "memenc_good x"
  then show "x_op x = XDR_ENCODE" by (simp add: memenc_good_def)
next
  fix x v assume g: "memenc_good x" and r: "4 \<le> mem_room x"
  have o: "x_ops x = Xdrmem_ops" "unat (x_handy x) < 2 ^ 31" using g by (auto simp: memenc_good_def)
  show "\<exists>x'. XDR_PUTLONG x v = (True, x') \<and> memenc_good x' \<and> mem_out x' = mem_out x @ be32 v
      \<and> mem_room x' + 4 = mem_room x"
    using mem_put[OF g, of "be32 v"] r handy4(1)[of "x_handy x"] o
    by (simp add: XDR_PUTLONG_def xdrmem_putlong_def mem_room_def)
next
  fix x v assume "memenc_good x" "mem_room x < 4"
  then show "\<not> fst (XDR_PUTLONG x v)" using handy4(1)[of "x_handy x"]
    by (simp add: XDR_PUTLONG_def xdrmem_putlong_def mem_room_def memenc_good_def)
next
  fix x and bs :: "byte list" assume g: "memenc_good x" and r: "length bs \<le> mem_room x" "length bs < 2 ^ 31"
  have o: "x_ops x = Xdrmem_ops" "unat (x_handy x) < 2 ^ 31" using g by (auto simp: memenc_good_def)
  have u: "unat (of_nat (length bs) :: 32 word) = length bs" using r(2) by (simp add: unat_of_nat)
  show "\<exists>x'. XDR_PUTBYTES x bs = (True, x') \<and> memenc_good x' \<and> mem_out x' = mem_out x @ bs
      \<and> mem_room x' + length bs = mem_room x"
    using mem_put[OF g, of bs] r handy_sub(1)[OF o(2), of "of_nat (length bs)"] o(1)
    by (simp add: XDR_PUTBYTES_def xdrmem_putbytes_def mem_room_def u Let_def)
next
  fix x and bs :: "byte list" assume g: "memenc_good x" and r: "mem_room x < length bs" "length bs < 2 ^ 31"
  have o: "x_ops x = Xdrmem_ops" "unat (x_handy x) < 2 ^ 31" using g by (auto simp: memenc_good_def)
  have u: "unat (of_nat (length bs) :: 32 word) = length bs" using r(2) by (simp add: unat_of_nat)
  show "\<not> fst (XDR_PUTBYTES x bs)"
    using r handy_sub(1)[OF o(2), of "of_nat (length bs)"] o(1)
    by (simp add: XDR_PUTBYTES_def xdrmem_putbytes_def mem_room_def u Let_def)
next
  fix x b x' m and n :: "32 word"
  assume g: "memenc_good x" and i: "XDR_INLINE x n = (Some b, x')" and n: "unat n < 2 ^ 31"
    and m: "\<And>a. unat n \<le> unat (a - b) \<Longrightarrow> m a = x_mem x' a"
  have o: "x_ops x = Xdrmem_ops" "unat (x_handy x) < 2 ^ 31" using g by (auto simp: memenc_good_def)
  from i have le: "unat n \<le> unat (x_handy x)" and b: "b = x_private x"
    and x': "x' = x\<lparr>x_handy := x_handy x - n, x_private := x_private x + n\<rparr>"
    using handy_ge[OF o(2) n] by (auto simp: XDR_INLINE_def o(1) xdrmem_inline_def split: if_splits)
  have "\<And>a. unat n \<le> unat (a - x_private x) \<Longrightarrow> m a = x_mem x a" using m by (simp add: b x')
  from mem_advance[OF g le this] show "unat n \<le> mem_room x \<and> memenc_good (x'\<lparr>x_mem := m\<rparr>)
      \<and> mem_out (x'\<lparr>x_mem := m\<rparr>) = mem_out x @ rdmem m b (unat n) \<and> mem_room (x'\<lparr>x_mem := m\<rparr>) + unat n = mem_room x"
    using le by (simp add: x' b mem_room_def)
next
  fix x x' and n :: "32 word" assume "memenc_good x" "XDR_INLINE x n = (None, x')"
  then show "x' = x" by (auto simp: memenc_good_def XDR_INLINE_def xdrmem_inline_def split: if_splits)
qed

section \<open>Mbuf chains\<close>

definition mbuf_area :: "mbuf \<Rightarrow> addr set" where
  "mbuf_area m = (\<lambda>i. m_dat m + of_nat i) ` {..<mbuf_size m}"

definition apart :: "mbuf list \<Rightarrow> bool" where
  "apart ms = sorted_wrt (\<lambda>m m'. mbuf_area m \<inter> mbuf_area m' = {}) ms"

text \<open>The current mbuf is written up to \<open>x_private\<close>; the ones before it are full.\<close>

definition mbufenc_good :: "xdr \<Rightarrow> bool" where
  "mbufenc_good x =
     (x_op x = XDR_ENCODE \<and> x_ops x = Xdrmbuf_ops \<and> unat (x_handy x) < 2 ^ 31 \<and> x_chain x \<noteq> []
      \<and> unat (x_private x - m_dat (hd (x_chain x))) + unat (x_handy x) = mbuf_size (hd (x_chain x))
      \<and> (\<forall>m \<in> set (tl (x_chain x)). mbuf_ok m) \<and> apart (x_past x @ x_chain x))"

definition mbuf_out :: "xdr \<Rightarrow> byte list" where
  "mbuf_out x = concat (map (mbuf_data (x_mem x)) (x_past x))
     @ rdmem (x_mem x) (m_dat (hd (x_chain x))) (unat (x_private x - m_dat (hd (x_chain x))))"

definition mbuf_room :: "xdr \<Rightarrow> nat" where
  "mbuf_room x = unat (x_handy x) + sum_list (map mbuf_size (tl (x_chain x)))"

lemma mbuf_data_other:
  assumes "mbuf_area m' \<inter> mbuf_area m = {}" "\<And>a. a \<notin> mbuf_area m \<Longrightarrow> mem' a = mem a"
  shows "mbuf_data mem' m' = mbuf_data mem m'"
  unfolding mbuf_data_def
proof (rule rdmem_cong)
  fix i assume "i < mbuf_size m'"
  then have "m_dat m' + of_nat i \<in> mbuf_area m'" by (auto simp: mbuf_area_def)
  then show "mem' (m_dat m' + of_nat i) = mem (m_dat m' + of_nat i)" using assms by blast
qed

text \<open>Moving the pointer over \<open>n\<close> bytes of the current mbuf and putting anything there.\<close>

lemma mbuf_advance:
  assumes g: "mbufenc_good x" and n: "unat n \<le> unat (x_handy x)"
    and m: "\<And>a. unat n \<le> unat (a - x_private x) \<Longrightarrow> mem' a = x_mem x a"
  defines "x' \<equiv> x\<lparr>x_handy := x_handy x - n, x_private := x_private x + n, x_mem := mem'\<rparr>"
  shows "mbufenc_good x' \<and> mbuf_out x' = mbuf_out x @ rdmem mem' (x_private x) (unat n)
    \<and> mbuf_room x' + unat n = mbuf_room x"
proof -
  define c where "c = hd (x_chain x)"
  define k where "k = unat (x_private x - m_dat c)"
  have h31: "unat (x_handy x) < 2 ^ 31" and w: "k + unat (x_handy x) = mbuf_size c"
    using g by (auto simp: mbufenc_good_def k_def c_def)
  have sz: "mbuf_size c < 2 ^ 32" unfolding mbuf_size_def by (rule unat_lt32)
  have n31: "unat n < 2 ^ 31" using n h31 by simp
  have p: "x_private x = m_dat c + of_nat k" by (simp add: k_def)
  have k': "unat (x_private x + n - m_dat c) = k + unat n"
  proof -
    have "x_private x + n - m_dat c = (x_private x - m_dat c) + n" by simp
    moreover have "unat ((x_private x - m_dat c) + n) = k + unat n"
      using unat_add32[of "x_private x - m_dat c" n] n w sz by (simp only: k_def)
    ultimately show ?thesis by (simp only:)
  qed
  have h: "unat (x_handy x - n) = unat (x_handy x) - unat n" by (rule handy_sub(2)[OF h31 n31 n])
  have same: "rdmem mem' (m_dat c) k = rdmem (x_mem x) (m_dat c) k"
  proof (rule rdmem_cong)
    fix i assume i: "i < k"
    have "unat (m_dat c + of_nat i - x_private x) = 2 ^ 32 - (k - i)"
      unfolding p using i w sz by (intro unat_offset_below) auto
    then show "mem' (m_dat c + of_nat i) = x_mem x (m_dat c + of_nat i)"
      using w n sz by (intro m) linarith
  qed
  have app: "rdmem mem' (m_dat c) (k + unat n) = rdmem mem' (m_dat c) k @ rdmem mem' (x_private x) (unat n)"
    using p by (simp add: rdmem_add)
  have outside: "mem' a = x_mem x a" if a: "a \<notin> mbuf_area c" for a
  proof (rule m, rule outside_range)
    fix j assume "j < unat n"
    then have "k + j < mbuf_size c" using n w by simp
    then have "m_dat c + of_nat (k + j) \<in> mbuf_area c" unfolding mbuf_area_def by (intro imageI) simp
    then show "a \<noteq> x_private x + of_nat j" using a p by (auto simp: algebra_simps)
  qed
  have past: "concat (map (mbuf_data mem') (x_past x)) = concat (map (mbuf_data (x_mem x)) (x_past x))"
  proof -
    obtain cs where "x_chain x = c # cs" using g by (auto simp: mbufenc_good_def c_def neq_Nil_conv)
    then have "mbuf_area m' \<inter> mbuf_area c = {}" if "m' \<in> set (x_past x)" for m'
      using g that by (simp add: mbufenc_good_def apart_def sorted_wrt_append)
    then have "mbuf_data mem' m' = mbuf_data (x_mem x) m'" if "m' \<in> set (x_past x)" for m'
      using that outside by (intro mbuf_data_other) auto
    then show ?thesis by (metis (no_types, lifting) map_eq_conv)
  qed
  show ?thesis using g n w h31
    by (simp add: x'_def mbufenc_good_def mbuf_out_def mbuf_room_def c_def[symmetric] k' h k_def[symmetric]
        same app past less_imp_diff_less)
qed

lemma mbuf_put:
  assumes g: "mbufenc_good x" and n: "length bs \<le> unat (x_handy x)"
  defines "x' \<equiv> x\<lparr>x_handy := x_handy x - of_nat (length bs), x_mem := wrmem (x_mem x) (x_private x) bs,
                    x_private := x_private x + of_nat (length bs)\<rparr>"
  shows "mbufenc_good x' \<and> mbuf_out x' = mbuf_out x @ bs \<and> mbuf_room x' + length bs = mbuf_room x"
proof -
  have len: "length bs < 2 ^ 32" using n unat_lt32[of "x_handy x"] by linarith
  then have u: "unat (of_nat (length bs) :: 32 word) = length bs" by (simp add: unat_of_nat)
  have out: "wrmem (x_mem x) (x_private x) bs a = x_mem x a"
    if "unat (of_nat (length bs) :: 32 word) \<le> unat (a - x_private x)" for a
    using that by (simp add: wrmem_def u)
  have r: "rdmem (wrmem (x_mem x) (x_private x) bs) (x_private x) (length bs) = bs"
    using len by (intro rdmem_wrmem_same) simp
  have x': "x' = x\<lparr>x_handy := x_handy x - of_nat (length bs), x_private := x_private x + of_nat (length bs),
                   x_mem := wrmem (x_mem x) (x_private x) bs\<rparr>"
    unfolding x'_def by (rule xdr.equality) simp_all
  from mbuf_advance[OF g, of "of_nat (length bs)", OF _ out] n show ?thesis
    by (simp add: x' u r)
qed

text \<open>Once the current mbuf is full the step to the next one changes nothing of the contract.\<close>

lemma mbuf_move:
  assumes g: "mbufenc_good x" and h: "x_handy x = 0" and c: "x_chain x = m # m' # ms"
  defines "y \<equiv> mbuf_step x m m' ms"
  shows "mbufenc_good y \<and> mbuf_out y = mbuf_out x \<and> mbuf_room y = mbuf_room x"
proof -
  have full: "unat (x_private x - m_dat m) = mbuf_size m" using g h c by (simp add: mbufenc_good_def)
  have ok: "mbuf_ok m'" using g c by (simp add: mbufenc_good_def)
  have "mbuf_out y = mbuf_out x"
    using c full by (simp add: y_def mbuf_out_def mbuf_data_def)
  moreover have "mbuf_room y = mbuf_room x"
    using c h by (simp add: y_def mbuf_room_def mbuf_size_def)
  moreover have "mbufenc_good y"
    using g c ok by (auto simp: y_def mbufenc_good_def mbuf_ok_def mbuf_size_def)
  ultimately show ?thesis by blast
qed

lemma put_loop_step:
  fixes bs :: "byte list"
  assumes c: "x_chain x = m # ms" and lt: "unat (x_handy x) < length bs" and b31: "length bs < 2 ^ 31"
  defines "h \<equiv> x_handy x"
  defines "mem' \<equiv> wrmem (x_mem x) (x_private x) (take (unat h) bs)"
  shows "xdrmbuf_put_loop (x\<lparr>x_handy := h - of_nat (length bs)\<rparr>) bs =
    (case ms of
       [] \<Rightarrow> (False, drop (unat h) bs, x\<lparr>x_mem := mem', x_chain := [], x_past := x_past x @ [m]\<rparr>)
     | m' # ms' \<Rightarrow>
         xdrmbuf_put_loop ((mbuf_step (x\<lparr>x_mem := mem'\<rparr>) m m' ms')
             \<lparr>x_handy := scast (m_len m') - of_nat (length bs - unat h)\<rparr>) (drop (unat h) bs))"
proof -
  have u: "unat (of_nat (length bs) :: 32 word) = length bs" using b31 by (simp add: unat_of_nat)
  have h31: "unat h < 2 ^ 31" using lt b31 by (simp add: h_def)
  have neg: "\<not> 0 \<le> sint (h - of_nat (length bs))"
    using handy_sub(1)[OF h31, of "of_nat (length bs)"] lt b31 by (simp add: h_def u not_le)
  have h0: "0 < sint h \<or> h = 0"
    using h31 unsigned_greater_eq[of h] by (auto simp: sint_cases less_le unsigned_eq_0_iff)
  have x1: "x\<lparr>x_handy := h\<rparr> = x" by (simp add: h_def)
  from h0 show ?thesis
  proof
    assume p: "0 < sint h"
    show ?thesis
    proof (cases ms)
      case Nil
      have "x\<lparr>x_handy := h, x_mem := mem', x_chain := [], x_past := x_past x @ [m]\<rparr>
          = x\<lparr>x_mem := mem', x_chain := [], x_past := x_past x @ [m]\<rparr>"
        by (rule xdr.equality) (simp_all add: h_def)
      then show ?thesis using p neg c Nil
        by (subst xdrmbuf_put_loop.simps) (simp add: mem'_def[symmetric] Let_def)
    next
      case (Cons m' ms')
      have "x\<lparr>x_handy := v, x_mem := mem', x_chain := ch, x_past := pa, x_private := pr, x_handy := w\<rparr>
          = x\<lparr>x_mem := mem', x_chain := ch, x_past := pa, x_private := pr, x_handy := w\<rparr>" for v ch pa pr w
        by (rule xdr.equality) simp_all
      then show ?thesis using p neg c Cons
        by (subst xdrmbuf_put_loop.simps) (simp add: mem'_def[symmetric] Let_def)
    qed
  next
    assume "h = 0"
    moreover have "x\<lparr>x_mem := x_mem x\<rparr> = x" by simp
    ultimately show ?thesis using neg x1 c
      by (subst xdrmbuf_put_loop.simps) (simp add: mem'_def Let_def split: list.split)
  qed
qed

lemma put_loop_out:
  assumes "mbufenc_good x" "x_chain x = m # ms" "length bs < 2 ^ 31"
  shows "if length bs \<le> mbuf_room x
    then (\<exists>bs' x'. xdrmbuf_put_loop (x\<lparr>x_handy := x_handy x - of_nat (length bs)\<rparr>) bs = (True, bs', x')
            \<and> (let y = x'\<lparr>x_mem := wrmem (x_mem x') (x_private x') bs', x_private := x_private x' + of_nat (length bs')\<rparr>
               in mbufenc_good y \<and> mbuf_out y = mbuf_out x @ bs \<and> mbuf_room y + length bs = mbuf_room x))
    else \<not> fst (xdrmbuf_put_loop (x\<lparr>x_handy := x_handy x - of_nat (length bs)\<rparr>) bs)"
  using assms
proof (induction ms arbitrary: x m bs)
  case Nil
  have h31: "unat (x_handy x) < 2 ^ 31" using Nil.prems(1) by (simp add: mbufenc_good_def)
  have u: "unat (of_nat (length bs) :: 32 word) = length bs" using Nil.prems(3) by (simp add: unat_of_nat)
  show ?case
  proof (cases "unat (x_handy x) < length bs")
    case True
    then show ?thesis using Nil.prems
      by (simp add: put_loop_step[OF Nil.prems(2) True Nil.prems(3)] mbuf_room_def)
  next
    case False
    then have le: "length bs \<le> unat (x_handy x)" by simp
    then have "0 \<le> sint (x_handy x - of_nat (length bs))"
      using handy_sub(1)[OF h31, of "of_nat (length bs)"] Nil.prems(3) by (simp add: u)
    then show ?thesis using mbuf_put[OF Nil.prems(1) le] le Nil.prems(2)
      by (simp add: xdrmbuf_put_loop.simps mbuf_room_def Let_def)
  qed
next
  case (Cons m' ms)
  have h31: "unat (x_handy x) < 2 ^ 31" using Cons.prems(1) by (simp add: mbufenc_good_def)
  have u: "unat (of_nat (length bs) :: 32 word) = length bs" using Cons.prems(3) by (simp add: unat_of_nat)
  show ?case
  proof (cases "unat (x_handy x) < length bs")
    case True
    define h where "h = unat (x_handy x)"
    define mem' where "mem' = wrmem (x_mem x) (x_private x) (take h bs)"
    define z where "z = x\<lparr>x_handy := 0, x_mem := mem', x_private := x_private x + x_handy x\<rparr>"
    define y where "y = mbuf_step z m m' ms"
    have lt: "length (take h bs) \<le> unat (x_handy x)" "length (take h bs) = h" using True by (auto simp: h_def)
    have z: "mbufenc_good z" "mbuf_out z = mbuf_out x @ take h bs" "mbuf_room z + h = mbuf_room x"
      using mbuf_put[OF Cons.prems(1) lt(1)] lt(2) by (simp_all add: z_def mem'_def h_def)
    have y: "mbufenc_good y" "mbuf_out y = mbuf_out z" "mbuf_room y = mbuf_room z"
      using mbuf_move[OF z(1), of m m' ms] Cons.prems(2) by (simp_all add: y_def z_def)
    have yc: "x_chain y = m' # ms" "x_handy y = scast (m_len m')" by (simp_all add: y_def)
    have b31: "length (drop h bs) < 2 ^ 31" using Cons.prems(3) by simp
    have yx: "y = mbuf_step (x\<lparr>x_mem := mem'\<rparr>) m m' ms"
      unfolding y_def z_def by (rule xdr.equality) simp_all
    have run: "xdrmbuf_put_loop (x\<lparr>x_handy := x_handy x - of_nat (length bs)\<rparr>) bs =
        xdrmbuf_put_loop (y\<lparr>x_handy := x_handy y - of_nat (length (drop h bs))\<rparr>) (drop h bs)"
      unfolding yc(2) unfolding yx
      by (simp add: put_loop_step[OF Cons.prems(2) True Cons.prems(3)] h_def[symmetric] mem'_def)
    have o: "mbuf_out y @ drop h bs = mbuf_out x @ bs" using y z by simp
    have l: "h + length (drop h bs) = length bs" using True by (simp add: h_def)
    have r: "mbuf_room y + h = mbuf_room x" using y(3) z(3) by simp
    note IH = Cons.IH[OF y(1) yc(1) b31]
    show ?thesis
    proof (cases "length bs \<le> mbuf_room x")
      case True
      then have fits: "length (drop h bs) \<le> mbuf_room y" using l r by linarith
      from IH[unfolded if_P[OF fits]] obtain bs' x' where f: "xdrmbuf_put_loop (y\<lparr>x_handy := x_handy y - of_nat (length (drop h bs))\<rparr>)
          (drop h bs) = (True, bs', x')"
        and w: "let w = x'\<lparr>x_mem := wrmem (x_mem x') (x_private x') bs', x_private := x_private x' + of_nat (length bs')\<rparr>
          in mbufenc_good w \<and> mbuf_out w = mbuf_out y @ drop h bs \<and> mbuf_room w + length (drop h bs) = mbuf_room y"
        by blast
      have "let w = x'\<lparr>x_mem := wrmem (x_mem x') (x_private x') bs', x_private := x_private x' + of_nat (length bs')\<rparr>
          in mbufenc_good w \<and> mbuf_out w = mbuf_out x @ bs \<and> mbuf_room w + length bs = mbuf_room x"
        using w l r unfolding Let_def o by linarith
      with f run True show ?thesis by auto
    next
      case False
      then have full: "\<not> length (drop h bs) \<le> mbuf_room y" using l r by linarith
      show ?thesis unfolding if_not_P[OF False] run by (rule IH[unfolded if_not_P[OF full]])
    qed
  next
    case False
    then have le: "length bs \<le> unat (x_handy x)" by simp
    then have "0 \<le> sint (x_handy x - of_nat (length bs))"
      using handy_sub(1)[OF h31, of "of_nat (length bs)"] Cons.prems(3) by (simp add: u)
    then show ?thesis using mbuf_put[OF Cons.prems(1) le] le Cons.prems(2)
      by (simp add: xdrmbuf_put_loop.simps mbuf_room_def Let_def)
  qed
qed

lemma mbuf_room_dvd:
  assumes "mbufenc_good x" "4 dvd mbuf_room x"
  shows "4 dvd unat (x_handy x)"
proof -
  have "4 dvd sum_list (map mbuf_size (tl (x_chain x)))"
  proof -
    have "\<forall>m \<in> set ms. mbuf_ok m \<Longrightarrow> 4 dvd sum_list (map mbuf_size ms)" for ms
      by (induction ms) (auto simp: mbuf_ok_def)
    then show ?thesis using assms(1) by (simp add: mbufenc_good_def)
  qed
  with assms(2) show ?thesis by (simp add: mbuf_room_def dvd_add_left_iff)
qed

interpretation mbufenc: xdr_encoder mbufenc_good mbuf_out mbuf_room
proof unfold_locales
  fix x assume "mbufenc_good x"
  then show "x_op x = XDR_ENCODE" by (simp add: mbufenc_good_def)
next
  fix x v assume g: "mbufenc_good x" and d: "4 dvd mbuf_room x" and r: "4 \<le> mbuf_room x"
  have o: "x_ops x = Xdrmbuf_ops" "unat (x_handy x) < 2 ^ 31" using g by (auto simp: mbufenc_good_def)
  show "\<exists>x'. XDR_PUTLONG x v = (True, x') \<and> mbufenc_good x' \<and> mbuf_out x' = mbuf_out x @ be32 v
      \<and> mbuf_room x' + 4 = mbuf_room x"
  proof (cases "4 \<le> unat (x_handy x)")
    case True
    then show ?thesis using mbuf_put[OF g, of "be32 v"] handy4(1)[of "x_handy x"] o
      by (simp add: XDR_PUTLONG_def xdrmbuf_putlong_def)
  next
    case False
    then have "unat (x_handy x) = 0" using dvd4_cases[OF mbuf_room_dvd[OF g d]] by blast
    then have h0: "x_handy x = 0" by (simp only: unat_eq_zero)
    have "tl (x_chain x) \<noteq> []" using r h0 by (auto simp: mbuf_room_def)
    then obtain m m' ms where c: "x_chain x = m # m' # ms" by (metis list.collapse tl_Nil)
    define y where "y = mbuf_step x m m' ms"
    have y: "mbufenc_good y" "mbuf_out y = mbuf_out x" "mbuf_room y = mbuf_room x"
      using mbuf_move[OF g h0 c] by (simp_all add: y_def)
    have "mbuf_ok m'" using g c by (simp add: mbufenc_good_def)
    then have s: "length (be32 v) \<le> unat (x_handy y)"
      using dvd4_cases[of "mbuf_size m'"] by (auto simp: mbuf_ok_def mbuf_size_def y_def)
    have run: "XDR_PUTLONG x v = (True, y\<lparr>x_handy := x_handy y - 4, x_mem := wrmem (x_mem y) (x_private y) (be32 v),
        x_private := x_private y + 4\<rparr>)"
      using handy4(1)[of "x_handy x"] h0 c by (simp add: XDR_PUTLONG_def o xdrmbuf_putlong_def y_def)
    show ?thesis using mbuf_put[OF y(1) s] y(2,3) by (simp add: run)
  qed
next
  fix x v assume g: "mbufenc_good x" and r: "mbuf_room x < 4"
  obtain m ms where c: "x_chain x = m # ms" using g by (auto simp: mbufenc_good_def neq_Nil_conv)
  have "ms = []"
  proof (rule ccontr)
    assume "ms \<noteq> []"
    then obtain m' ms' where "ms = m' # ms'" by (auto simp: neq_Nil_conv)
    then have "mbuf_ok m'" "mbuf_size m' \<le> mbuf_room x"
      using g c by (auto simp: mbufenc_good_def mbuf_room_def)
    then show False using r dvd4_cases[of "mbuf_size m'"] by (auto simp: mbuf_ok_def)
  qed
  then show "\<not> fst (XDR_PUTLONG x v)" using g r c handy4(1)[of "x_handy x"]
    by (simp add: XDR_PUTLONG_def xdrmbuf_putlong_def mbuf_room_def mbufenc_good_def)
next
  fix x and bs :: "byte list" assume g: "mbufenc_good x" and r: "length bs \<le> mbuf_room x" "length bs < 2 ^ 31"
  obtain m ms where c: "x_chain x = m # ms" using g by (auto simp: mbufenc_good_def neq_Nil_conv)
  have o: "x_ops x = Xdrmbuf_ops" using g by (simp add: mbufenc_good_def)
  from put_loop_out[OF g c r(2)] r(1) obtain bs' x' where
    "xdrmbuf_put_loop (x\<lparr>x_handy := x_handy x - of_nat (length bs)\<rparr>) bs = (True, bs', x')"
    "let y = x'\<lparr>x_mem := wrmem (x_mem x') (x_private x') bs', x_private := x_private x' + of_nat (length bs')\<rparr>
     in mbufenc_good y \<and> mbuf_out y = mbuf_out x @ bs \<and> mbuf_room y + length bs = mbuf_room x"
    by auto
  then show "\<exists>x'. XDR_PUTBYTES x bs = (True, x') \<and> mbufenc_good x' \<and> mbuf_out x' = mbuf_out x @ bs
      \<and> mbuf_room x' + length bs = mbuf_room x"
    by (simp add: XDR_PUTBYTES_def o xdrmbuf_putbytes_def Let_def)
next
  fix x and bs :: "byte list" assume g: "mbufenc_good x" and r: "mbuf_room x < length bs" "length bs < 2 ^ 31"
  obtain m ms where c: "x_chain x = m # ms" using g by (auto simp: mbufenc_good_def neq_Nil_conv)
  have o: "x_ops x = Xdrmbuf_ops" using g by (simp add: mbufenc_good_def)
  from put_loop_out[OF g c r(2)] r(1)
  have "\<not> fst (xdrmbuf_put_loop (x\<lparr>x_handy := x_handy x - of_nat (length bs)\<rparr>) bs)" by simp
  then show "\<not> fst (XDR_PUTBYTES x bs)"
    by (auto simp: XDR_PUTBYTES_def o xdrmbuf_putbytes_def split: prod.split)
next
  fix x b x' m and n :: "32 word"
  assume g: "mbufenc_good x" and i: "XDR_INLINE x n = (Some b, x')" and n: "unat n < 2 ^ 31"
    and m: "\<And>a. unat n \<le> unat (a - b) \<Longrightarrow> m a = x_mem x' a"
  have o: "x_ops x = Xdrmbuf_ops" "unat (x_handy x) < 2 ^ 31" using g by (auto simp: mbufenc_good_def)
  from i have le: "unat n \<le> unat (x_handy x)" and b: "b = x_private x"
    and x': "x' = x\<lparr>x_handy := x_handy x - n, x_private := x_private x + n\<rparr>"
    using handy_ge[OF o(2) n] by (auto simp: XDR_INLINE_def o(1) xdrmbuf_inline_def split: if_splits)
  have "\<And>a. unat n \<le> unat (a - x_private x) \<Longrightarrow> m a = x_mem x a" using m by (simp add: b x')
  from mbuf_advance[OF g le this] show "unat n \<le> mbuf_room x \<and> mbufenc_good (x'\<lparr>x_mem := m\<rparr>)
      \<and> mbuf_out (x'\<lparr>x_mem := m\<rparr>) = mbuf_out x @ rdmem m b (unat n) \<and> mbuf_room (x'\<lparr>x_mem := m\<rparr>) + unat n = mbuf_room x"
    using le by (simp add: x' b mbuf_room_def)
next
  fix x x' and n :: "32 word" assume "mbufenc_good x" "XDR_INLINE x n = (None, x')"
  then show "x' = x" by (auto simp: mbufenc_good_def XDR_INLINE_def xdrmbuf_inline_def split: if_splits)
qed

end
