(* ===== verification/Rpc_Call.thy ===== *)
theory Rpc_Call
  imports Rpc_Prot Xdr_Inst_Enc
begin

text \<open>
  Call messages against a reference: \<open>p_call\<close> reads a call off a byte list with no fast path and
  no pointers. Decoding with \<open>xdr_callmsg\<close> agrees with it on every stream, whichever of the two
  paths is taken, and every encoding \<open>xdr_callmsg\<close> produces is read back by it.
\<close>

section \<open>The reference\<close>

type_synonym auth_abs = "32 word \<times> byte list"

record call_abs =
  ca_xid :: "32 word"
  ca_prog :: "32 word"
  ca_vers :: "32 word"
  ca_proc :: "32 word"
  ca_cred :: auth_abs
  ca_verf :: auth_abs

definition abs_auth :: "opaque_auth \<Rightarrow> auth_abs" where
  "abs_auth oa = (oa_flavor oa, rdbuf (bytes_at (oa_base oa)) (unat (oa_length oa)))"

definition abs_call :: "'r rpc_msg \<Rightarrow> call_abs" where
  "abs_call m = \<lparr>ca_xid = rm_xid m, ca_prog = cb_prog (rm_call m), ca_vers = cb_vers (rm_call m),
     ca_proc = cb_proc (rm_call m), ca_cred = abs_auth (cb_cred (rm_call m)),
     ca_verf = abs_auth (cb_verf (rm_call m))\<rparr>"

definition lw :: "nat \<Rightarrow> byte list \<Rightarrow> 32 word" where
  "lw i inp = un_be32 (take 4 (drop (4 * i) inp))"

definition p_auth :: "byte list \<Rightarrow> (auth_abs \<times> byte list) option" where
  "p_auth inp =
     (if length inp < 8 then None
      else
        (let n = unat (lw 1 inp); body = drop 8 inp in
         if lw 1 inp > MAX_AUTH_BYTES \<or> length body < n + padlen n then None
         else Some ((lw 0 inp, take n body), drop (n + padlen n) body)))"

definition p_call :: "byte list \<Rightarrow> (call_abs \<times> byte list) option" where
  "p_call inp =
     (if length inp < 24 then None
      else if lw 1 inp \<noteq> CALL \<or> lw 2 inp \<noteq> RPC_MSG_VERSION then None
      else
        (case p_auth (drop 24 inp) of
           None \<Rightarrow> None
         | Some (cred, r) \<Rightarrow>
             (case p_auth r of
                None \<Rightarrow> None
              | Some (verf, r') \<Rightarrow>
                  Some (\<lparr>ca_xid = lw 0 inp, ca_prog = lw 3 inp, ca_vers = lw 4 inp, ca_proc = lw 5 inp,
                         ca_cred = cred, ca_verf = verf\<rparr>, r'))))"

section \<open>Parsers of the parts\<close>

definition p_oauth :: "opaque_auth parser" where
  "p_oauth = p_seq (p_fld p_long oa_flavor (\<lambda>v ap. ap\<lparr>oa_flavor := v\<rparr>))
     (p_fld (p_bytes MAX_AUTH_BYTES) (\<lambda>ap. (oa_base ap, oa_length ap))
        (\<lambda>(b, n) ap. ap\<lparr>oa_base := b, oa_length := n\<rparr>))"

definition p_auth_head :: "opaque_auth parser" where
  "p_auth_head = p_seq (p_fld p_long oa_flavor (\<lambda>v r. r\<lparr>oa_flavor := v\<rparr>))
     (p_fld p_long oa_length (\<lambda>v r. r\<lparr>oa_length := v\<rparr>))"

definition p_auth_body :: "opaque_auth parser" where
  "p_auth_body inp oa =
     (if oa_length oa = 0 then Some (oa, inp)
      else if oa_length oa > MAX_AUTH_BYTES then None
      else (case p_opaque (unat (oa_length oa)) inp (bytes_at (oa_base oa)) of
              None \<Rightarrow> None | Some (bs, r) \<Rightarrow> Some (oa\<lparr>oa_base := Some bs\<rparr>, r)))"

definition abs_snd :: "('a \<Rightarrow> 'b) \<Rightarrow> ('a \<times> byte list) option \<Rightarrow> ('b \<times> byte list) option" where
  "abs_snd f = map_option (\<lambda>(a, r). (f a, r))"

lemma rdbuf_wrbuf: "length ds = n \<Longrightarrow> rdbuf (wrbuf bs ds) n = ds"
  by (simp add: rdbuf_def wrbuf_def)

lemma rdbuf_0 [simp]: "rdbuf bs 0 = []"
  by (simp add: rdbuf_def)

lemma p_long_lw: "p_long inp v = (if length inp < 4 then None else Some (lw 0 inp, drop 4 inp))"
  by (simp add: p_long_def lw_def)

lemma lw_drop: "lw i (drop (4 * k) inp) = lw (k + i) inp"
  by (simp add: lw_def algebra_simps)

lemmas lw_drops = lw_drop[of _ 1, simplified] lw_drop[of _ 2, simplified] lw_drop[of _ 3, simplified]
  lw_drop[of _ 4, simplified] lw_drop[of _ 5, simplified] lw_drop[of _ 6, simplified]
  lw_drop[of _ 7, simplified]

lemma padlen_0 [simp]: "padlen 0 = 0"
  by (simp add: padlen_def)

text \<open>A zero length leaves nothing to read on either path.\<close>

lemma abs_oauth: "abs_snd abs_auth (p_oauth inp oa) = p_auth inp"
  by (auto simp: abs_snd_def p_oauth_def p_seq_def p_fld_def p_bytes_def p_opaque_def p_long_lw
      p_auth_def Let_def lw_drops abs_auth_def bytes_at_def rdbuf_wrbuf)

lemma abs_head_body: "abs_snd abs_auth (p_seq p_auth_head p_auth_body inp oa) = p_auth inp"
  by (auto simp: abs_snd_def p_auth_head_def p_auth_body_def p_seq_def p_fld_def p_opaque_def p_long_lw
      p_auth_def Let_def lw_drops abs_auth_def bytes_at_def rdbuf_wrbuf)

definition p_callmsg_generic :: "('r rpc_msg) parser" where
  "p_callmsg_generic =
     p_seq (p_fld p_long rm_xid (\<lambda>v m. m\<lparr>rm_xid := v\<rparr>))
       (p_seq (p_fld p_long rm_direction (\<lambda>v m. m\<lparr>rm_direction := v\<rparr>))
         (p_seq (p_test (\<lambda>m. rm_direction m = CALL))
           (p_fld
             (p_seq (p_fld p_long cb_rpcvers (\<lambda>v r. r\<lparr>cb_rpcvers := v\<rparr>))
               (p_seq (p_test (\<lambda>r. cb_rpcvers r = RPC_MSG_VERSION))
                 (p_seq (p_fld p_long cb_prog (\<lambda>v r. r\<lparr>cb_prog := v\<rparr>))
                   (p_seq (p_fld p_long cb_vers (\<lambda>v r. r\<lparr>cb_vers := v\<rparr>))
                     (p_seq (p_fld p_long cb_proc (\<lambda>v r. r\<lparr>cb_proc := v\<rparr>))
                       (p_seq (p_fld p_oauth cb_cred (\<lambda>v r. r\<lparr>cb_cred := v\<rparr>))
                         (p_fld p_oauth cb_verf (\<lambda>v r. r\<lparr>cb_verf := v\<rparr>))))))))
             rm_call (\<lambda>v m. m\<lparr>rm_call := v\<rparr>))))"

definition p_call_tail :: "call_body parser" where
  "p_call_tail =
     p_seq (p_fld p_auth_body cb_cred (\<lambda>v r. r\<lparr>cb_cred := v\<rparr>))
       (p_fld (p_seq p_auth_head p_auth_body) cb_verf (\<lambda>v r. r\<lparr>cb_verf := v\<rparr>))"

lemma abs_snd_cases:
  assumes "abs_snd f p = q"
  obtains "p = None" "q = None" | a r where "p = Some (a, r)" "q = Some (f a, r)"
  using assms by (cases p) (auto simp: abs_snd_def)

lemma abs_generic: "abs_snd abs_call (p_callmsg_generic inp m) = p_call inp"
proof (cases "length inp < 24 \<or> lw 1 inp \<noteq> CALL \<or> lw 2 inp \<noteq> RPC_MSG_VERSION")
  case True
  then have spec: "p_call inp = None" by (auto simp: p_call_def)
  note g = p_callmsg_generic_def p_seq_def p_fld_def p_test_def p_long_lw lw_drops
    numeral_2_eq_2[symmetric]
  consider "length inp < 8" | "8 \<le> length inp" "lw 1 inp \<noteq> CALL"
    | "8 \<le> length inp" "lw 1 inp = CALL" "length inp < 12"
    | "12 \<le> length inp" "lw 1 inp = CALL" "lw 2 inp \<noteq> RPC_MSG_VERSION"
    | "12 \<le> length inp" "lw 1 inp = CALL" "lw 2 inp = RPC_MSG_VERSION" "length inp < 16"
    | "16 \<le> length inp" "lw 1 inp = CALL" "lw 2 inp = RPC_MSG_VERSION" "length inp < 20"
    | "20 \<le> length inp" "lw 1 inp = CALL" "lw 2 inp = RPC_MSG_VERSION" "length inp < 24"
    using True by linarith
  then have "p_callmsg_generic inp m = None"
    by cases (simp_all add: g)
  then show ?thesis by (simp add: spec abs_snd_def)
next
  case False
  define cb where "cb = (rm_call m)\<lparr>cb_rpcvers := lw 2 inp, cb_prog := lw 3 inp, cb_vers := lw 4 inp,
    cb_proc := lw 5 inp\<rparr>"
  have gen: "p_callmsg_generic inp m =
      (case p_oauth (drop 24 inp) (cb_cred cb) of None \<Rightarrow> None
       | Some (c, r) \<Rightarrow>
          (case p_oauth r (cb_verf cb) of None \<Rightarrow> None
           | Some (v, r') \<Rightarrow> Some (m\<lparr>rm_xid := lw 0 inp, rm_direction := lw 1 inp,
                rm_call := cb\<lparr>cb_cred := c, cb_verf := v\<rparr>\<rparr>, r')))"
  proof -
    have "\<not> length inp < 4" "\<not> length inp - 4 < 4" "\<not> length inp - 8 < 4" "\<not> length inp - 12 < 4"
      "\<not> length inp - 16 < 4" "\<not> length inp - 20 < 4" "lw 1 inp = CALL" "lw 2 inp = RPC_MSG_VERSION"
      using False by auto
    then show ?thesis
      by (simp add: p_callmsg_generic_def p_seq_def p_fld_def p_test_def p_long_lw lw_drops cb_def
          numeral_2_eq_2[symmetric] split: option.split)
  qed
  show ?thesis
  proof (cases rule: abs_snd_cases[OF abs_oauth[of "drop 24 inp" "cb_cred cb"]])
    case 1
    then show ?thesis using False by (simp add: gen p_call_def abs_snd_def)
  next
    case (2 c r)
    show ?thesis
      by (cases rule: abs_snd_cases[OF abs_oauth[of r "cb_verf cb"]])
        (use False 2 in \<open>auto simp: gen p_call_def abs_snd_def abs_call_def cb_def\<close>)
  qed
qed

text \<open>The fast path once the eight longs at its head have been taken.\<close>

lemma abs_tail:
  assumes len: "32 \<le> length inp" and d: "lw 1 inp = CALL" and v: "lw 2 inp = RPC_MSG_VERSION"
    and m: "rm_xid m = lw 0 inp" "cb_prog (rm_call m) = lw 3 inp" "cb_vers (rm_call m) = lw 4 inp"
      "cb_proc (rm_call m) = lw 5 inp"
      "oa_flavor (cb_cred (rm_call m)) = lw 6 inp" "oa_length (cb_cred (rm_call m)) = lw 7 inp"
  shows "abs_snd abs_call (p_fld p_call_tail rm_call (\<lambda>v m. m\<lparr>rm_call := v\<rparr>) (drop 32 inp) m) = p_call inp"
proof -
  define oa where "oa = cb_cred (rm_call m)"
  have hd: "p_seq p_auth_head p_auth_body (drop 24 inp) oa = p_auth_body (drop 32 inp) oa"
  proof -
    have "oa\<lparr>oa_flavor := lw 6 inp, oa_length := lw 7 inp\<rparr> = oa"
      using m(5,6) by (intro opaque_auth.equality) (simp_all add: oa_def)
    moreover have "\<not> length inp - 28 < 4" "\<not> length inp - 24 < 4" using len by auto
    ultimately show ?thesis
      by (simp add: p_auth_head_def p_seq_def p_fld_def p_long_lw lw_drops)
  qed
  have tl: "p_fld p_call_tail rm_call (\<lambda>v m. m\<lparr>rm_call := v\<rparr>) (drop 32 inp) m =
      (case p_seq p_auth_head p_auth_body (drop 24 inp) oa of None \<Rightarrow> None
       | Some (c, r) \<Rightarrow>
          (case p_seq p_auth_head p_auth_body r (cb_verf (rm_call m)) of None \<Rightarrow> None
           | Some (v, r') \<Rightarrow> Some (m\<lparr>rm_call := (rm_call m)\<lparr>cb_cred := c, cb_verf := v\<rparr>\<rparr>, r')))"
    unfolding hd by (auto simp: p_call_tail_def p_fld_def p_seq_def[of "p_fld _ _ _"] oa_def split: option.split)
  show ?thesis
  proof (cases rule: abs_snd_cases[OF abs_head_body[of "drop 24 inp" oa]])
    case 1
    then show ?thesis using len d v by (simp add: tl p_call_def abs_snd_def)
  next
    case (2 c r)
    show ?thesis
      by (cases rule: abs_snd_cases[OF abs_head_body[of r "cb_verf (rm_call m)"]])
        (use len d v m 2 in \<open>auto simp: tl p_call_def abs_snd_def abs_call_def\<close>)
  qed
qed

section \<open>Decoding\<close>

lemma MAX_AUTH_bound: "unat MAX_AUTH_BYTES < 2 ^ 31 - 4"
  by (simp add: MAX_AUTH_BYTES_def)

lemma RNDUP_padlen:
  assumes "n \<le> MAX_AUTH_BYTES"
  shows "unat (RNDUP n) = unat n + padlen (unat n)"
proof -
  have le: "unat n \<le> 400" using assms by (simp add: word_le_nat_alt MAX_AUTH_BYTES_def)
  have "unat (n + 4 - 1) = unat n + 3"
  proof -
    have "unat (n + 3) = unat n + unat (3 :: 32 word)"
      using unat_add_lem[of n "3 :: 32 word"] le by simp
    moreover have "n + 4 - 1 = n + 3" by simp
    ultimately show ?thesis by (simp only:) simp
  qed
  then have "unat ((n + 4 - 1) div 4) = (unat n + 3) div 4" by (simp add: unat_div)
  moreover have "(unat n + 3) div 4 * 4 < 2 ^ 32"
  proof -
    have "(unat n + 3) div 4 * 4 \<le> unat n + 3" by (rule div_times_less_eq_dividend)
    then show ?thesis using le by simp
  qed
  ultimately have "unat (RNDUP n) = (unat n + 3) div 4 * 4"
    using unat_mult_lem[of "(n + 4 - 1) div 4" 4] by (simp add: RNDUP_def BYTES_PER_XDR_UNIT_def)
  moreover have "(k + 3) div 4 * 4 = k + padlen k" for k :: nat
  proof -
    define q r where "q = k div 4" and "r = k mod 4"
    then have k: "k = 4 * q + r" "r < 4" by simp_all
    then have "r = 0 \<or> r = 1 \<or> r = 2 \<or> r = 3" by linarith
    moreover have "padlen k = (4 - r) mod 4" by (simp add: padlen_def r_def)
    ultimately show ?thesis by (elim disjE) (simp_all add: k(1))
  qed
  ultimately show ?thesis by simp
qed

text \<open>Reading longs in line out of a buffer that holds the head of the input.\<close>

lemma get_long_at:
  assumes "rdmem mem buf n = take n inp" "n \<le> length inp" "4 * i + 4 \<le> n" "x_mem x = mem"
  shows "IXDR_GET_LONG x (buf + of_nat (4 * i)) = (lw i inp, buf + of_nat (4 * (i + 1)))"
proof -
  have "rdmem mem (buf + of_nat (4 * i)) 4 = take 4 (drop (4 * i) (rdmem mem buf n))"
    using assms(3) by (simp add: drop_rdmem take_rdmem)
  also have "\<dots> = take 4 (drop (4 * i) inp)"
    using assms(1,3) by (simp add: drop_take min_def)
  finally show ?thesis using assms(4) by (simp add: IXDR_GET_LONG_def lw_def)
qed

lemma get_longs8:
  assumes "rdmem (x_mem x) buf 32 = take 32 inp" "32 \<le> length inp"
  shows "IXDR_GET_LONG x buf = (lw 0 inp, buf + 4)" "IXDR_GET_LONG x (buf + 4) = (lw 1 inp, buf + 8)"
    "IXDR_GET_LONG x (buf + 8) = (lw 2 inp, buf + 12)" "IXDR_GET_LONG x (buf + 12) = (lw 3 inp, buf + 16)"
    "IXDR_GET_LONG x (buf + 16) = (lw 4 inp, buf + 20)" "IXDR_GET_LONG x (buf + 20) = (lw 5 inp, buf + 24)"
    "IXDR_GET_LONG x (buf + 24) = (lw 6 inp, buf + 28)" "IXDR_GET_LONG x (buf + 28) = (lw 7 inp, buf + 32)"
  using get_long_at[OF assms, of 0 x] get_long_at[OF assms, of 1 x] get_long_at[OF assms, of 2 x]
    get_long_at[OF assms, of 3 x] get_long_at[OF assms, of 4 x] get_long_at[OF assms, of 5 x]
    get_long_at[OF assms, of 6 x] get_long_at[OF assms, of 7 x]
  by simp_all

context xdr_decoder
begin

lemma parses_opaque_auth: "parses good inp xdr_opaque_auth p_oauth oa"
  unfolding xdr_opaque_auth_def p_oauth_def
  by (intro parses_seq parses_fld parses_enum parses_bytes[OF MAX_AUTH_bound])

lemma parses_auth_head: "parses good inp get_auth_head p_auth_head oa"
proof -
  have slow: "parses good inp (seqp (fld xdr_enum oa_flavor (\<lambda>v r. r\<lparr>oa_flavor := v\<rparr>))
      (fld xdr_u_int oa_length (\<lambda>v r. r\<lparr>oa_length := v\<rparr>))) p_auth_head oa"
    unfolding p_auth_head_def by (intro parses_seq parses_fld parses_enum parses_u_int)
  have fast: "\<exists>x'. get_auth_head x oa = (True, v', x') \<and> good x' \<and> inp x' = r \<and> 4 dvd length r"
    if x: "good x" "4 dvd length (inp x)" and i: "XDR_INLINE x 8 = (Some buf, x1)"
      and p: "p_auth_head (inp x) oa = Some (v', r)" for x buf x1 v' r
  proof -
    from inline_some[OF x(1) i] have s: "8 \<le> length (inp x)" "rdmem (x_mem x1) buf 8 = take 8 (inp x)"
      "good x1" "inp x1 = drop 8 (inp x)" by simp_all
    have g: "IXDR_GET_LONG x1 buf = (lw 0 (inp x), buf + 4)" "IXDR_GET_LONG x1 (buf + 4) = (lw 1 (inp x), buf + 8)"
      using get_long_at[OF s(2,1), of 0 x1] get_long_at[OF s(2,1), of 1 x1] by simp_all
    from p s(1) have "v' = oa\<lparr>oa_flavor := lw 0 (inp x), oa_length := lw 1 (inp x)\<rparr>" "r = drop 8 (inp x)"
      by (auto simp: p_auth_head_def p_seq_def p_fld_def p_long_lw lw_drops split: if_splits)
    then show ?thesis using s x(2)
      by (simp add: get_auth_head_def BYTES_PER_XDR_UNIT_def i g dvd_diff_nat)
  qed
  have some: "p_auth_head (inp x) oa \<noteq> None" if "good x" "XDR_INLINE x 8 = (Some buf, x1)" for x buf x1
  proof -
    have "\<not> length (inp x) < 4" "\<not> length (inp x) - 4 < 4" using inline_some[OF that] by auto
    then show ?thesis by (simp add: p_auth_head_def p_seq_def p_fld_def p_long_lw)
  qed
  show ?thesis
  proof (rule parsesI)
    fix x assume x: "good x" "4 dvd length (inp x)" "p_auth_head (inp x) oa = None"
    with some have "fst (XDR_INLINE x 8) = None" by (metis option.exhaust prod.collapse)
    then have i: "XDR_INLINE x 8 = (None, x)" using inline_none[OF x(1)] by (metis prod.collapse)
    show "\<not> fst (get_auth_head x oa)"
      using parses_None[OF slow x] by (simp add: get_auth_head_def BYTES_PER_XDR_UNIT_def i)
  next
    fix x v' r assume x: "good x" "4 dvd length (inp x)" and p: "p_auth_head (inp x) oa = Some (v', r)"
    show "\<exists>x'. get_auth_head x oa = (True, v', x') \<and> good x' \<and> inp x' = r \<and> 4 dvd length r"
    proof (cases "fst (XDR_INLINE x 8)")
      case None
      then have i: "XDR_INLINE x 8 = (None, x)" using inline_none[OF x(1)] by (metis prod.collapse)
      from parses_Some[OF slow x p] show ?thesis
        by (simp add: get_auth_head_def BYTES_PER_XDR_UNIT_def i) blast
    next
      case (Some buf)
      then have "XDR_INLINE x 8 = (Some buf, snd (XDR_INLINE x 8))" by (metis prod.collapse)
      from fast[OF x this p] show ?thesis .
    qed
  qed
qed

lemma alloc_wrbuf:
  assumes "good x"
  obtains sp x1 where "(case p of None \<Rightarrow> mem_alloc x n | Some b \<Rightarrow> (b, x)) = (sp, x1)" "good x1" "inp x1 = inp x"
    "\<And>ds. length ds = unat n \<Longrightarrow> wrbuf sp ds = wrbuf (bytes_at p) ds"
proof (cases p)
  case None
  obtain bs x1 where a: "mem_alloc x n = (bs, x1)" by fastforce
  with dec_alloc[OF assms a] None that show ?thesis by (auto simp: bytes_at_def wrbuf_def)
qed (auto simp: bytes_at_def assms intro!: that)

lemma parses_auth_body: "parses good inp get_auth_body p_auth_body oa"
proof (cases "oa_length oa = 0 \<or> oa_length oa > MAX_AUTH_BYTES")
  case True
  then show ?thesis by (auto simp: parses_def get_auth_body_def p_auth_body_def)
next
  case False
  define n where "n = oa_length oa"
  have n: "n \<noteq> 0" "n \<le> MAX_AUTH_BYTES" using False by (auto simp: n_def)
  have n400: "unat n \<le> 400" using n(2) by (simp add: word_le_nat_alt MAX_AUTH_BYTES_def)
  have R: "unat (RNDUP n) = unat n + padlen (unat n)" by (rule RNDUP_padlen[OF n(2)])
  have R31: "unat (RNDUP n) < 2 ^ 31" "unat n < 2 ^ 31 - 4"
    using R n400 padlen_less[of "unat n"] by auto
  have P: "p_auth_body i oa = (if length i < unat n + padlen (unat n) then None
      else Some (oa\<lparr>oa_base := Some (wrbuf (bytes_at (oa_base oa)) (take (unat n) i))\<rparr>,
                 drop (unat n + padlen (unat n)) i))" for i
    using n by (auto simp: p_auth_body_def n_def[symmetric] p_opaque_def)
  have body: "get_auth_body x oa = (case XDR_INLINE x1 (RNDUP n) of
      (None, x2) \<Rightarrow> (let (ok, base1, x3) = xdr_opaque x2 sp n in (ok, oa\<lparr>oa_base := Some base1\<rparr>, x3))
    | (Some buf, x2) \<Rightarrow> (True, oa\<lparr>oa_base := Some (wrbuf sp (rdmem (x_mem x2) buf (unat n)))\<rparr>, x2))"
    if "(case oa_base oa of None \<Rightarrow> mem_alloc x n | Some b \<Rightarrow> (b, x)) = (sp, x1)" for x sp x1
    unfolding get_auth_body_def n_def[symmetric] using n that by (simp add: not_less[symmetric])
  show ?thesis
  proof (rule parsesI)
    fix x assume x: "good x" "4 dvd length (inp x)" and no: "p_auth_body (inp x) oa = None"
    obtain sp x1 where a: "(case oa_base oa of None \<Rightarrow> mem_alloc x n | Some b \<Rightarrow> (b, x)) = (sp, x1)" "good x1" "inp x1 = inp x"
      by (rule alloc_wrbuf[OF x(1)])
    have short: "length (inp x1) < unat n + padlen (unat n)" using no a(3) by (simp add: P split: if_splits)
    have "fst (XDR_INLINE x1 (RNDUP n)) = None"
    proof (rule ccontr)
      assume "fst (XDR_INLINE x1 (RNDUP n)) \<noteq> None"
      then obtain buf x2 where "XDR_INLINE x1 (RNDUP n) = (Some buf, x2)" by (cases "XDR_INLINE x1 (RNDUP n)") auto
      from inline_some[OF a(2) this R31(1)] short R show False by simp
    qed
    then have i: "XDR_INLINE x1 (RNDUP n) = (None, x1)" using inline_none[OF a(2)] by (metis prod.collapse)
    have "p_opaque (unat n) (inp x1) sp = None" using short by (simp add: p_opaque_def)
    from opaque_none[OF a(2) R31(2) this] show "\<not> fst (get_auth_body x oa)"
      by (auto simp: body[OF a(1)] i split: prod.split)
  next
    fix x v' r assume x: "good x" "4 dvd length (inp x)" and p: "p_auth_body (inp x) oa = Some (v', r)"
    obtain sp x1 where a: "(case oa_base oa of None \<Rightarrow> mem_alloc x n | Some b \<Rightarrow> (b, x)) = (sp, x1)" "good x1"
      "inp x1 = inp x" "\<And>ds. length ds = unat n \<Longrightarrow> wrbuf sp ds = wrbuf (bytes_at (oa_base oa)) ds"
      by (rule alloc_wrbuf[OF x(1)]) blast
    from p have l: "unat n + padlen (unat n) \<le> length (inp x1)"
      and v': "v' = oa\<lparr>oa_base := Some (wrbuf (bytes_at (oa_base oa)) (take (unat n) (inp x1)))\<rparr>"
      and r: "r = drop (unat n + padlen (unat n)) (inp x1)" by (auto simp: P a(3) split: if_splits)
    have w: "wrbuf sp (take (unat n) (inp x1)) = wrbuf (bytes_at (oa_base oa)) (take (unat n) (inp x1))"
      using l by (intro a(4)) simp
    show "\<exists>x'. get_auth_body x oa = (True, v', x') \<and> good x' \<and> inp x' = r \<and> 4 dvd length r"
    proof (cases "fst (XDR_INLINE x1 (RNDUP n))")
      case None
      then have i: "XDR_INLINE x1 (RNDUP n) = (None, x1)" using inline_none[OF a(2)] by (metis prod.collapse)
      have "p_opaque (unat n) (inp x1) sp = Some (wrbuf sp (take (unat n) (inp x1)), r)"
        using l r by (simp add: p_opaque_def)
      from opaque_some[OF a(2) R31(2) _ this] x(2) a(3) obtain x' where
        "xdr_opaque x1 sp n = (True, wrbuf sp (take (unat n) (inp x1)), x')" "good x'" "inp x' = r" "4 dvd length r"
        by auto
      then show ?thesis by (simp add: body[OF a(1)] i v' w)
    next
      case (Some buf)
      then obtain x2 where i: "XDR_INLINE x1 (RNDUP n) = (Some buf, x2)" by (metis prod.collapse)
      from inline_some[OF a(2) i R31(1)] R have s: "rdmem (x_mem x2) buf (unat n + padlen (unat n))
          = take (unat n + padlen (unat n)) (inp x1)" "good x2" "inp x2 = r" by (simp_all add: r)
      have "rdmem (x_mem x2) buf (unat n) = take (unat n) (rdmem (x_mem x2) buf (unat n + padlen (unat n)))"
        by (simp add: take_rdmem)
      then have "rdmem (x_mem x2) buf (unat n) = take (unat n) (inp x1)" using s(1) by simp
      moreover have "4 dvd length r" using x(2) a(3) padlen_dvd[of "unat n"] by (simp add: r dvd_diff_nat)
      ultimately show ?thesis using s by (simp add: body[OF a(1)] i v' w)
    qed
  qed
qed

lemma parses_callmsg_generic: "parses good inp callmsg_generic p_callmsg_generic m"
  unfolding callmsg_generic_def p_callmsg_generic_def fld_call_def
  by (intro parses_seq parses_fld parses_test parses_enum parses_u_long parses_opaque_auth)

lemma parses_call_tail:
  "parses good inp (fld_call (seqp (fld get_auth_body cb_cred (\<lambda>v r. r\<lparr>cb_cred := v\<rparr>))
      (fld (seqp get_auth_head get_auth_body) cb_verf (\<lambda>v r. r\<lparr>cb_verf := v\<rparr>))))
    (p_fld p_call_tail rm_call (\<lambda>v m. m\<lparr>rm_call := v\<rparr>)) m"
  unfolding fld_call_def p_call_tail_def
  by (intro parses_seq parses_fld parses_auth_head parses_auth_body)

text \<open>A routine that implements a parser implements the reference the parser abstracts to.\<close>

lemma parses_abs:
  assumes "parses good inp proc P m" "good x" "4 dvd length (inp x)" "abs_snd f (P (inp x) m) = q"
  shows "case q of None \<Rightarrow> \<not> fst (proc x m)
    | Some (a, r) \<Rightarrow> \<exists>m' x'. proc x m = (True, m', x') \<and> f m' = a \<and> good x' \<and> inp x' = r"
proof (cases rule: abs_snd_cases[OF assms(4)])
  case 1
  then show ?thesis using parses_None[OF assms(1-3)] by simp
next
  case (2 m' r)
  from parses_Some[OF assms(1-3) 2(1)] obtain x' where "proc x m = (True, m', x')" "good x'" "inp x' = r"
    by blast
  then show ?thesis by (simp add: 2(2))
qed

lemma callmsg_decode:
  assumes x: "good x" "4 dvd length (inp x)"
  shows "case p_call (inp x) of None \<Rightarrow> \<not> fst (xdr_callmsg x m)
    | Some (a, r) \<Rightarrow> \<exists>m' x'. xdr_callmsg x m = (True, m', x') \<and> abs_call m' = a \<and> good x' \<and> inp x' = r"
proof (cases "fst (XDR_INLINE x 32)")
  case None
  then have i: "XDR_INLINE x 32 = (None, x)" using inline_none[OF x(1)] by (metis prod.collapse)
  have run: "xdr_callmsg x m = callmsg_generic x m"
    using dec_op[OF x(1)] by (simp add: xdr_callmsg_def BYTES_PER_XDR_UNIT_def i)
  show ?thesis unfolding run by (rule parses_abs[OF parses_callmsg_generic x abs_generic])
next
  case (Some buf)
  then obtain x1 where i: "XDR_INLINE x 32 = (Some buf, x1)" by (metis prod.collapse)
  from inline_some[OF x(1) i] have s: "32 \<le> length (inp x)" "rdmem (x_mem x1) buf 32 = take 32 (inp x)"
    "good x1" "inp x1 = drop 32 (inp x)" by simp_all
  note g = get_longs8[OF s(2,1)]
  have run: "xdr_callmsg x m = callmsg_get x1 buf m"
    using dec_op[OF x(1)] by (simp add: xdr_callmsg_def BYTES_PER_XDR_UNIT_def i)
  show ?thesis
  proof (cases "lw 1 (inp x) \<noteq> CALL \<or> lw 2 (inp x) \<noteq> RPC_MSG_VERSION")
    case True
    then have "p_call (inp x) = None" by (simp add: p_call_def)
    moreover have "\<not> fst (callmsg_get x1 buf m)" using True by (auto simp: callmsg_get_def g Let_def)
    ultimately show ?thesis by (simp add: run)
  next
    case False
    define cb where "cb = (rm_call m)\<lparr>cb_rpcvers := lw 2 (inp x), cb_prog := lw 3 (inp x),
      cb_vers := lw 4 (inp x), cb_proc := lw 5 (inp x),
      cb_cred := (cb_cred (rm_call m))\<lparr>oa_flavor := lw 6 (inp x), oa_length := lw 7 (inp x)\<rparr>\<rparr>"
    define m2 where "m2 = m\<lparr>rm_xid := lw 0 (inp x), rm_direction := lw 1 (inp x), rm_call := cb\<rparr>"
    have get: "callmsg_get x1 buf m = fld_call (seqp (fld get_auth_body cb_cred (\<lambda>v r. r\<lparr>cb_cred := v\<rparr>))
        (fld (seqp get_auth_head get_auth_body) cb_verf (\<lambda>v r. r\<lparr>cb_verf := v\<rparr>))) x1 m2"
      using False by (simp add: callmsg_get_def g Let_def m2_def cb_def)
    have d: "4 dvd length (inp x1)" using x(2) s(4) by (simp add: dvd_diff_nat)
    have "abs_snd abs_call (p_fld p_call_tail rm_call (\<lambda>v m. m\<lparr>rm_call := v\<rparr>) (drop 32 (inp x)) m2) = p_call (inp x)"
      by (rule abs_tail[OF s(1)]) (use False in \<open>simp_all add: m2_def cb_def\<close>)
    then have "abs_snd abs_call (p_fld p_call_tail rm_call (\<lambda>v m. m\<lparr>rm_call := v\<rparr>) (inp x1) m2) = p_call (inp x)"
      by (simp add: s(4))
    from parses_abs[OF parses_call_tail s(3) d this] show ?thesis unfolding run get .
  qed
qed

end

section \<open>Encoding\<close>

text \<open>What one authenticator looks like on the wire, the bytes of the padding left open.\<close>

definition auth_wire :: "opaque_auth \<Rightarrow> byte list \<Rightarrow> byte list" where
  "auth_wire oa pad = be32 (oa_flavor oa) @ be32 (oa_length oa)
     @ rdbuf (bytes_at (oa_base oa)) (unat (oa_length oa)) @ pad"

definition call_wire :: "'r rpc_msg \<Rightarrow> byte list \<Rightarrow> byte list \<Rightarrow> byte list" where
  "call_wire m pad1 pad2 =
     be32 (rm_xid m) @ be32 (rm_direction m) @ be32 (cb_rpcvers (rm_call m)) @ be32 (cb_prog (rm_call m))
     @ be32 (cb_vers (rm_call m)) @ be32 (cb_proc (rm_call m))
     @ auth_wire (cb_cred (rm_call m)) pad1 @ auth_wire (cb_verf (rm_call m)) pad2"

definition auth_pad :: "opaque_auth \<Rightarrow> nat" where
  "auth_pad oa = padlen (unat (oa_length oa))"

definition call_sendable :: "'r rpc_msg \<Rightarrow> bool" where
  "call_sendable m =
     (rm_direction m = CALL \<and> cb_rpcvers (rm_call m) = RPC_MSG_VERSION
      \<and> oa_length (cb_cred (rm_call m)) \<le> MAX_AUTH_BYTES \<and> oa_length (cb_verf (rm_call m)) \<le> MAX_AUTH_BYTES)"

lemma un_be32_take: "un_be32 (take 4 (be32 w @ r)) = w"
  by simp

lemma lw_0_be32 [simp]: "lw 0 (be32 w @ r) = w"
  by (simp add: lw_def)

lemma lw_Suc_be32 [simp]: "lw (Suc i) (be32 w @ r) = lw i r"
  by (simp add: lw_def)

lemma lw_num_be32 [simp]: "lw (numeral k) (be32 w @ r) = lw (pred_numeral k) r"
  by (simp add: numeral_eq_Suc)

lemma p_auth_wire:
  assumes "oa_length oa \<le> MAX_AUTH_BYTES" "length pad = auth_pad oa"
  shows "p_auth (auth_wire oa pad @ r) = Some (abs_auth oa, r)"
  using assms by (simp add: p_auth_def auth_wire_def abs_auth_def auth_pad_def Let_def not_less)

lemma p_call_wire:
  assumes "call_sendable m" "length pad1 = auth_pad (cb_cred (rm_call m))"
    "length pad2 = auth_pad (cb_verf (rm_call m))"
  shows "p_call (call_wire m pad1 pad2 @ r) = Some (abs_call m, r)"
proof -
  have "drop 24 (call_wire m pad1 pad2 @ r) = auth_wire (cb_cred (rm_call m)) pad1
      @ auth_wire (cb_verf (rm_call m)) pad2 @ r"
    by (simp add: call_wire_def)
  then show ?thesis using assms p_auth_wire
    by (simp add: p_call_def call_sendable_def abs_call_def) (simp add: call_wire_def)
qed

text \<open>Consecutive writes are one write, and writing back what is there changes nothing.\<close>

lemma wrmem_append:
  assumes "length bs + length cs \<le> 2 ^ 32"
  shows "wrmem (wrmem m p bs) (p + of_nat (length bs)) cs = wrmem m p (bs @ cs)"
proof
  fix a
  define d where "d = unat (a - p)"
  have a: "a = p + of_nat d" by (simp add: d_def)
  have d: "d < 2 ^ 32" unfolding d_def using unsigned_less[of "a - p"] by simp
  consider "d < length bs" | "length bs \<le> d" "d < length bs + length cs" | "length bs + length cs \<le> d"
    by linarith
  then show "wrmem (wrmem m p bs) (p + of_nat (length bs)) cs a = wrmem m p (bs @ cs) a"
  proof cases
    case 1
    have "wrmem (wrmem m p bs) (p + of_nat (length bs)) cs a = wrmem m p bs a"
      unfolding a by (rule wrmem_below[OF 1 assms])
    then show ?thesis using 1 by (simp add: wrmem_def d_def[symmetric] nth_append)
  next
    case 2
    have "wrmem (wrmem m p bs) (p + of_nat (length bs)) cs a = cs ! (d - length bs)"
      unfolding a by (rule wrmem_at[OF 2 assms])
    then show ?thesis using 2 by (simp add: wrmem_def d_def[symmetric] nth_append)
  next
    case 3
    have "wrmem (wrmem m p bs) (p + of_nat (length bs)) cs a = wrmem m p bs a"
      unfolding a by (rule wrmem_above[OF 3 d])
    then show ?thesis using 3 by (simp add: wrmem_def d_def[symmetric])
  qed
qed

lemma wrmem_rdmem: "wrmem m p (rdmem m p n) = m"
proof
  fix a
  have a: "a = p + of_nat (unat (a - p))" by simp
  show "wrmem m p (rdmem m p n) a = m a"
  proof (cases "unat (a - p) < n")
    case True
    then have "wrmem m p (rdmem m p n) a = m (p + of_nat (unat (a - p)))"
      by (simp only: wrmem_def length_rdmem if_True nth_rdmem)
    then show ?thesis by simp
  qed (simp add: wrmem_def)
qed

lemma puts_wrmem:
  assumes "4 * length vs \<le> 2 ^ 32"
  shows "ixdr_puts x buf vs =
    (x\<lparr>x_mem := wrmem (x_mem x) buf (concat (map be32 vs))\<rparr>, buf + of_nat (4 * length vs))"
  using assms
proof (induction vs arbitrary: x buf)
  case (Cons v vs)
  have l: "length (be32 v) + length (concat (map be32 vs)) \<le> 2 ^ 32"
  proof -
    have "length (concat (map be32 vs)) = 4 * length vs" by (induction vs) auto
    then show ?thesis using Cons.prems by simp
  qed
  have "ixdr_puts (x\<lparr>x_mem := wrmem (x_mem x) buf (be32 v)\<rparr>) (buf + 4) vs =
      (x\<lparr>x_mem := wrmem (wrmem (x_mem x) buf (be32 v)) (buf + 4) (concat (map be32 vs))\<rparr>,
       buf + 4 + of_nat (4 * length vs))"
    using Cons.IH[of "x\<lparr>x_mem := wrmem (x_mem x) buf (be32 v)\<rparr>" "buf + 4"] Cons.prems by simp
  then show ?case using wrmem_append[OF l, of "x_mem x" buf]
    by (simp add: IXDR_PUT_LONG_def algebra_simps)
qed simp

text \<open>The pointer moves over the bytes and their padding; the padding keeps what memory held.\<close>

lemma unit_count: "((n + BYTES_PER_XDR_UNIT - 1) div 4) * 4 = RNDUP n"
  by (simp add: RNDUP_def BYTES_PER_XDR_UNIT_def)

lemma put_auth_wrmem:
  assumes "oa_length oa \<le> MAX_AUTH_BYTES"
  shows "\<exists>pad. length pad = auth_pad oa \<and> ixdr_put_auth x buf oa =
    (x\<lparr>x_mem := wrmem (x_mem x) buf (auth_wire oa pad)\<rparr>, buf + of_nat (length (auth_wire oa pad)))"
proof -
  define n where "n = oa_length oa"
  define hdr where "hdr = concat (map be32 [oa_flavor oa, n])"
  define body where "body = rdbuf (bytes_at (oa_base oa)) (unat n)"
  define mem1 where "mem1 = wrmem (x_mem x) buf (hdr @ body)"
  define pad where "pad = rdmem mem1 (buf + of_nat (length (hdr @ body))) (auth_pad oa)"
  have n400: "unat n \<le> 400" using assms by (simp add: n_def word_le_nat_alt MAX_AUTH_BYTES_def)
  have len: "length hdr = 8" "length body = unat n" "length pad = auth_pad oa" "auth_pad oa < 4"
    by (simp_all add: hdr_def body_def pad_def auth_pad_def padlen_less)
  have w1: "wrmem (wrmem (x_mem x) buf hdr) (buf + 8) body = mem1"
    using wrmem_append[of hdr body "x_mem x" buf] n400 len by (simp add: mem1_def)
  have w2: "wrmem (x_mem x) buf (hdr @ body @ pad) = mem1"
    using wrmem_append[of "hdr @ body" pad "x_mem x" buf] n400 len
    by (simp add: mem1_def[symmetric] pad_def wrmem_rdmem)
  have wire: "auth_wire oa pad = hdr @ body @ pad" by (simp add: auth_wire_def hdr_def body_def n_def)
  have R: "RNDUP n = of_nat (unat n + auth_pad oa)"
  proof -
    have "RNDUP n = of_nat (unat (RNDUP n))" by simp
    also have "unat (RNDUP n) = unat n + auth_pad oa"
      using RNDUP_padlen[OF assms] by (simp add: auth_pad_def n_def)
    finally show ?thesis .
  qed
  have hw: "ixdr_puts x buf [oa_flavor oa, n] = (x\<lparr>x_mem := wrmem (x_mem x) buf hdr\<rparr>, buf + 8)"
    using puts_wrmem[of "[oa_flavor oa, n]" x buf] unfolding hdr_def by simp
  have put: "ixdr_put_auth x buf oa = (if n \<noteq> 0 then (x\<lparr>x_mem := mem1\<rparr>, buf + 8 + RNDUP n)
      else (x\<lparr>x_mem := wrmem (x_mem x) buf hdr\<rparr>, buf + 8))"
    using hw w1
    by (simp add: ixdr_put_auth_def n_def[symmetric] body_def[symmetric] unit_count del: ixdr_puts.simps)
  show ?thesis
  proof (intro exI[where x = pad] conjI len(3))
    show "ixdr_put_auth x buf oa =
      (x\<lparr>x_mem := wrmem (x_mem x) buf (auth_wire oa pad)\<rparr>, buf + of_nat (length (auth_wire oa pad)))"
    proof (cases "n = 0")
      case True
      then have "body = []" "pad = []" using len by (simp_all add: auth_pad_def n_def[symmetric])
      then have "auth_wire oa pad = hdr" using wire by simp
      then show ?thesis unfolding put using True len by simp
    next
      case False
      then show ?thesis by (simp add: put wire w2 R len algebra_simps)
    qed
  qed
qed

lemma put_call_wrmem:
  assumes "call_sendable m"
  obtains pad1 pad2 where "length pad1 = auth_pad (cb_cred (rm_call m))"
    "length pad2 = auth_pad (cb_verf (rm_call m))"
    "callmsg_put x buf m = (True, m, x\<lparr>x_mem := wrmem (x_mem x) buf (call_wire m pad1 pad2)\<rparr>)"
proof -
  define cb where "cb = rm_call m"
  have s: "rm_direction m = CALL" "cb_rpcvers cb = RPC_MSG_VERSION"
    "oa_length (cb_cred cb) \<le> MAX_AUTH_BYTES" "oa_length (cb_verf cb) \<le> MAX_AUTH_BYTES"
    using assms by (auto simp: call_sendable_def cb_def)
  define hdr where "hdr = concat (map be32 [rm_xid m, rm_direction m]) @ concat (map be32 [cb_rpcvers cb])
    @ concat (map be32 [cb_prog cb, cb_vers cb, cb_proc cb])"
  define x3 where "x3 = x\<lparr>x_mem := wrmem (x_mem x) buf hdr\<rparr>"
  have n: "unat (oa_length (cb_cred cb)) \<le> 400" "unat (oa_length (cb_verf cb)) \<le> 400"
    using s(3,4) by (simp_all add: word_le_nat_alt MAX_AUTH_BYTES_def)
  obtain pad1 where p1: "length pad1 = auth_pad (cb_cred cb)" "ixdr_put_auth x3 (buf + 24) (cb_cred cb) =
    (x3\<lparr>x_mem := wrmem (x_mem x3) (buf + 24) (auth_wire (cb_cred cb) pad1)\<rparr>,
     buf + 24 + of_nat (length (auth_wire (cb_cred cb) pad1)))"
    using put_auth_wrmem[OF s(3)] by blast
  define w1 where "w1 = auth_wire (cb_cred cb) pad1"
  define x4 where "x4 = x\<lparr>x_mem := wrmem (x_mem x) buf (hdr @ w1)\<rparr>"
  define b4 where "b4 = buf + 24 + of_nat (length w1)"
  obtain pad2 where p2: "length pad2 = auth_pad (cb_verf cb)" "ixdr_put_auth x4 b4 (cb_verf cb) =
    (x4\<lparr>x_mem := wrmem (x_mem x4) b4 (auth_wire (cb_verf cb) pad2)\<rparr>, b4 + of_nat (length (auth_wire (cb_verf cb) pad2)))"
    using put_auth_wrmem[OF s(4)] by blast
  define w2 where "w2 = auth_wire (cb_verf cb) pad2"
  have len: "length hdr = 24" "length w1 \<le> 500" "length w2 \<le> 500"
    using n p1(1) p2(1) padlen_less[of "unat (oa_length (cb_cred cb))"] padlen_less[of "unat (oa_length (cb_verf cb))"]
    by (simp_all add: hdr_def w1_def w2_def auth_wire_def auth_pad_def)
  have hd: "wrmem (wrmem (wrmem (x_mem x) buf (be32 (rm_xid m) @ be32 (rm_direction m))) (buf + 8) (be32 (cb_rpcvers cb)))
      (buf + 12) (be32 (cb_prog cb) @ be32 (cb_vers cb) @ be32 (cb_proc cb)) = wrmem (x_mem x) buf hdr"
    using wrmem_append[of "be32 (rm_xid m) @ be32 (rm_direction m)" "be32 (cb_rpcvers cb)" "x_mem x" buf]
      wrmem_append[of "be32 (rm_xid m) @ be32 (rm_direction m) @ be32 (cb_rpcvers cb)"
        "be32 (cb_prog cb) @ be32 (cb_vers cb) @ be32 (cb_proc cb)" "x_mem x" buf]
    by (simp add: hdr_def)
  have m4: "x3\<lparr>x_mem := wrmem (x_mem x3) (buf + 24) w1\<rparr> = x4"
    using wrmem_append[of hdr w1 "x_mem x" buf] len by (simp add: x3_def x4_def)
  have m5: "x4\<lparr>x_mem := wrmem (x_mem x4) b4 w2\<rparr> = x\<lparr>x_mem := wrmem (x_mem x) buf (hdr @ w1 @ w2)\<rparr>"
    using wrmem_append[of "hdr @ w1" w2 "x_mem x" buf] len by (simp add: x4_def b4_def algebra_simps)
  have wire: "call_wire m pad1 pad2 = hdr @ w1 @ w2"
    by (simp add: call_wire_def hdr_def w1_def w2_def cb_def)
  have "callmsg_put x buf m =
      (let (x4, buf4) = ixdr_put_auth x3 (buf + 24) (cb_cred cb);
           (x5, buf5) = ixdr_put_auth x4 buf4 (cb_verf cb) in (True, m, x5))"
    using s hd
    by (simp add: callmsg_put_def cb_def[symmetric] puts_wrmem x3_def add.commute[of buf] del: ixdr_puts.simps)
  also have "\<dots> = (True, m, x\<lparr>x_mem := wrmem (x_mem x) buf (call_wire m pad1 pad2)\<rparr>)"
    using p1(2) p2(2) m4 m5 by (simp add: w1_def[symmetric] w2_def[symmetric] b4_def[symmetric] wire)
  finally show ?thesis using that p1(1) p2(1) by (simp add: cb_def)
qed

definition zpad :: "opaque_auth \<Rightarrow> byte list" where
  "zpad oa = replicate (auth_pad oa) 0"

definition e_oauth :: "opaque_auth encoder" where
  "e_oauth oa = (if oa_length oa > MAX_AUTH_BYTES then None else Some (auth_wire oa (zpad oa)))"

definition e_call :: "('r rpc_msg) encoder" where
  "e_call m = (if call_sendable m
     then Some (call_wire m (zpad (cb_cred (rm_call m))) (zpad (cb_verf (rm_call m)))) else None)"

lemma e_oauth_seq:
  "e_oauth = e_seq (e_fld e_long oa_flavor) (e_fld (e_bytes MAX_AUTH_BYTES) (\<lambda>ap. (oa_base ap, oa_length ap)))"
  by (rule ext) (simp add: e_oauth_def e_seq_def e_fld_def e_long_def e_bytes_def auth_wire_def zpad_def auth_pad_def)

lemma e_call_seq:
  "e_call = e_seq (e_fld e_long rm_xid)
       (e_seq (e_fld e_long rm_direction)
         (e_seq (e_test (\<lambda>m. rm_direction m = CALL))
           (e_fld
             (e_seq (e_fld e_long cb_rpcvers)
               (e_seq (e_test (\<lambda>r. cb_rpcvers r = RPC_MSG_VERSION))
                 (e_seq (e_fld e_long cb_prog)
                   (e_seq (e_fld e_long cb_vers)
                     (e_seq (e_fld e_long cb_proc)
                       (e_seq (e_fld e_oauth cb_cred) (e_fld e_oauth cb_verf))))))) rm_call)))"
  by (rule ext)
    (simp add: e_call_def call_sendable_def e_seq_def e_fld_def e_test_def e_long_def e_oauth_def call_wire_def
      not_less[symmetric])

context xdr_encoder
begin

lemma encodes_opaque_auth: "encodes good out room xdr_opaque_auth e_oauth oa"
  unfolding xdr_opaque_auth_def e_oauth_seq
  by (intro encodes_seq encodes_fld encodes_enum encodes_bytes[OF MAX_AUTH_bound]) simp_all

lemma encodes_callmsg_generic: "encodes good out room callmsg_generic e_call m"
  unfolding callmsg_generic_def e_call_seq fld_call_def
  by (intro encodes_seq encodes_fld encodes_test encodes_enum encodes_u_long encodes_opaque_auth) simp_all

text \<open>The length the code asks the stream for is the length of the encoding.\<close>

lemma call_size:
  assumes "oa_length c \<le> MAX_AUTH_BYTES" "oa_length v \<le> MAX_AUTH_BYTES"
  shows "unat (8 * BYTES_PER_XDR_UNIT + RNDUP (oa_length c) + 2 * BYTES_PER_XDR_UNIT + RNDUP (oa_length v))
    = 40 + (unat (oa_length c) + auth_pad c) + (unat (oa_length v) + auth_pad v)"
    and "40 + (unat (oa_length c) + auth_pad c) + (unat (oa_length v) + auth_pad v) < 1000"
proof -
  have n: "unat (oa_length c) \<le> 400" "unat (oa_length v) \<le> 400" "auth_pad c < 4" "auth_pad v < 4"
    using assms by (simp_all add: word_le_nat_alt MAX_AUTH_BYTES_def auth_pad_def padlen_less)
  then show "40 + (unat (oa_length c) + auth_pad c) + (unat (oa_length v) + auth_pad v) < 1000" by simp
  have R: "RNDUP (oa_length w) = of_nat (unat (oa_length w) + auth_pad w)" if "oa_length w \<le> MAX_AUTH_BYTES" for w
  proof -
    have "RNDUP (oa_length w) = of_nat (unat (RNDUP (oa_length w)))" by simp
    also have "unat (RNDUP (oa_length w)) = unat (oa_length w) + auth_pad w"
      using RNDUP_padlen[OF that] by (simp add: auth_pad_def)
    finally show ?thesis .
  qed
  have "8 * BYTES_PER_XDR_UNIT + RNDUP (oa_length c) + 2 * BYTES_PER_XDR_UNIT + RNDUP (oa_length v)
      = of_nat (40 + (unat (oa_length c) + auth_pad c) + (unat (oa_length v) + auth_pad v))"
    unfolding R[OF assms(1)] R[OF assms(2)] by (simp add: BYTES_PER_XDR_UNIT_def)
  then show "unat (8 * BYTES_PER_XDR_UNIT + RNDUP (oa_length c) + 2 * BYTES_PER_XDR_UNIT + RNDUP (oa_length v))
    = 40 + (unat (oa_length c) + auth_pad c) + (unat (oa_length v) + auth_pad v)"
    using n by (simp only:) (subst unat_of_nat, simp)
qed

lemma length_call_wire:
  assumes "length pad1 = auth_pad (cb_cred (rm_call m))" "length pad2 = auth_pad (cb_verf (rm_call m))"
  shows "length (call_wire m pad1 pad2) = 40
    + (unat (oa_length (cb_cred (rm_call m))) + auth_pad (cb_cred (rm_call m)))
    + (unat (oa_length (cb_verf (rm_call m))) + auth_pad (cb_verf (rm_call m)))"
  using assms by (simp add: call_wire_def auth_wire_def)

lemma callmsg_encode:
  assumes x: "good x" "4 dvd room x"
  shows "if call_sendable m \<and> length (call_wire m (zpad (cb_cred (rm_call m))) (zpad (cb_verf (rm_call m)))) \<le> room x
    then \<exists>x' pad1 pad2. xdr_callmsg x m = (True, m, x') \<and> good x'
      \<and> length pad1 = auth_pad (cb_cred (rm_call m)) \<and> length pad2 = auth_pad (cb_verf (rm_call m))
      \<and> out x' = out x @ call_wire m pad1 pad2
      \<and> room x' + length (call_wire m pad1 pad2) = room x
    else \<not> fst (xdr_callmsg x m)"
proof -
  define cred verf where "cred = cb_cred (rm_call m)" and "verf = cb_verf (rm_call m)"
  define need where "need = 8 * BYTES_PER_XDR_UNIT + RNDUP (oa_length cred) + 2 * BYTES_PER_XDR_UNIT + RNDUP (oa_length verf)"
  have zlen: "length (zpad cred) = auth_pad cred" "length (zpad verf) = auth_pad verf" by (simp_all add: zpad_def)
  show ?thesis
  proof (cases "oa_length cred > MAX_AUTH_BYTES \<or> oa_length verf > MAX_AUTH_BYTES")
    case True
    then have "\<not> call_sendable m" by (auto simp: call_sendable_def cred_def verf_def)
    moreover have "\<not> fst (xdr_callmsg x m)"
      using True enc_op[OF x(1)] by (auto simp: xdr_callmsg_def Let_def cred_def verf_def)
    ultimately show ?thesis by simp
  next
    case False
    then have le: "oa_length cred \<le> MAX_AUTH_BYTES" "oa_length verf \<le> MAX_AUTH_BYTES" by auto
    have sz: "unat need = length (call_wire m pad1 pad2)"
      if "length pad1 = auth_pad cred" "length pad2 = auth_pad verf" for pad1 pad2
      using call_size(1)[OF le] length_call_wire[of pad1 m pad2] that
      by (simp add: need_def cred_def verf_def)
    have n31: "unat need < 2 ^ 31" using call_size[OF le] by (simp add: need_def)
    have run: "xdr_callmsg x m = (case XDR_INLINE x need of
        (Some buf, x1) \<Rightarrow> callmsg_put x1 buf m | (None, x1) \<Rightarrow> callmsg_generic x1 m)"
      using enc_op[OF x(1)] False by (simp add: xdr_callmsg_def Let_def need_def cred_def verf_def)
    show ?thesis
    proof (cases "fst (XDR_INLINE x need)")
      case None
      then have i: "XDR_INLINE x need = (None, x)" using inline_none[OF x(1)] by (metis prod.collapse)
      have r: "xdr_callmsg x m = callmsg_generic x m" by (simp add: run i)
      show ?thesis
      proof (cases "call_sendable m")
        case True
        then have E: "e_call m = Some (call_wire m (zpad cred) (zpad verf))"
          by (simp add: e_call_def cred_def verf_def)
        show ?thesis
        proof (cases "length (call_wire m (zpad cred) (zpad verf)) \<le> room x")
          case fits: True
          from encodes_Some[OF encodes_callmsg_generic x E fits] obtain x' where
            "callmsg_generic x m = (True, m, x')" "good x'" "out x' = out x @ call_wire m (zpad cred) (zpad verf)"
            "room x' + length (call_wire m (zpad cred) (zpad verf)) = room x" by blast
          then show ?thesis using True fits zlen unfolding r cred_def verf_def by auto
        next
          case nofit: False
          then have "\<not> fst (callmsg_generic x m)"
            by (intro encodes_full[OF encodes_callmsg_generic x E]) simp
          then show ?thesis using nofit unfolding r cred_def verf_def by simp
        qed
      next
        case False
        then have "e_call m = None" by (simp add: e_call_def)
        from encodes_None[OF encodes_callmsg_generic x this] False show ?thesis unfolding r by simp
      qed
    next
      case (Some buf)
      then obtain x1 where i: "XDR_INLINE x need = (Some buf, x1)" by (metis prod.collapse)
      have r: "xdr_callmsg x m = callmsg_put x1 buf m" by (simp add: run i)
      show ?thesis
      proof (cases "call_sendable m")
        case True
        obtain pad1 pad2 where p: "length pad1 = auth_pad cred" "length pad2 = auth_pad verf"
          "callmsg_put x1 buf m = (True, m, x1\<lparr>x_mem := wrmem (x_mem x1) buf (call_wire m pad1 pad2)\<rparr>)"
          using put_call_wrmem[OF True] unfolding cred_def verf_def by blast
        define w where "w = call_wire m pad1 pad2"
        have wlen: "unat need = length w" using sz[OF p(1,2)] by (simp add: w_def)
        have same: "wrmem (x_mem x1) buf w a = x_mem x1 a" if "unat need \<le> unat (a - buf)" for a
          using that by (simp add: wrmem_def wlen)
        have rd: "rdmem (wrmem (x_mem x1) buf w) buf (unat need) = w"
          unfolding wlen using n31 wlen by (intro rdmem_wrmem_same) simp
        from inline_some[OF x(1) i n31 same] rd
        have l: "unat need \<le> room x" "good (x1\<lparr>x_mem := wrmem (x_mem x1) buf w\<rparr>)"
          "out (x1\<lparr>x_mem := wrmem (x_mem x1) buf w\<rparr>) = out x @ w"
          "room (x1\<lparr>x_mem := wrmem (x_mem x1) buf w\<rparr>) + length w = room x"
          using wlen by auto
        have "length (call_wire m (zpad cred) (zpad verf)) \<le> room x" using l(1) sz[OF zlen] by simp
        then show ?thesis using True p l unfolding r cred_def verf_def w_def by auto
      next
        case False
        then have "rm_direction m \<noteq> CALL \<or> cb_rpcvers (rm_call m) \<noteq> RPC_MSG_VERSION"
          using le by (auto simp: call_sendable_def cred_def verf_def)
        then have "\<not> fst (callmsg_put x1 buf m)"
          by (auto simp: callmsg_put_def Let_def split: prod.split)
        then show ?thesis using False unfolding r by simp
      qed
    qed
  qed
qed

end

end
