(* ===== verification/Xdr_Props.thy ===== *)
theory Xdr_Props
  imports Rpc_Call
begin

text \<open>
  The properties of the XDR and RPC message layer, for both streams at once: \<open>reading x i\<close> says
  the handle decodes and has the bytes \<open>i\<close> left, \<open>writing x o r\<close> that it encodes, has written
  \<open>o\<close> and has room for \<open>r\<close> more. They rest on the interpretations of the stream contracts.
\<close>

definition reading :: "xdr \<Rightarrow> byte list \<Rightarrow> bool" where
  "reading x i = (memdec_good x \<and> mem_inp x = i \<or> mbufdec_good x \<and> mbuf_inp x = i)"

definition writing :: "xdr \<Rightarrow> byte list \<Rightarrow> nat \<Rightarrow> bool" where
  "writing x out r = (memenc_good x \<and> mem_out x = out \<and> mem_room x = r
     \<or> mbufenc_good x \<and> mbuf_out x = out \<and> mbuf_room x = r)"

section \<open>Lifting the contracts\<close>

lemma reading_parses:
  assumes mem: "parses memdec_good mem_inp proc P v" and mbuf: "parses mbufdec_good mbuf_inp proc P v"
    and x: "reading x i" "4 dvd length i"
  shows "case P i v of None \<Rightarrow> \<not> fst (proc x v)
    | Some (v', r) \<Rightarrow> \<exists>x'. proc x v = (True, v', x') \<and> reading x' r \<and> 4 dvd length r"
  using x(1) unfolding reading_def
proof (elim disjE conjE)
  assume "memdec_good x" "mem_inp x = i"
  then have "case P i v of None \<Rightarrow> \<not> fst (proc x v)
    | Some (v', r) \<Rightarrow> \<exists>x'. proc x v = (True, v', x') \<and> memdec_good x' \<and> mem_inp x' = r \<and> 4 dvd length r"
    using parsesD[OF mem] x(2) by blast
  then show "case P i v of None \<Rightarrow> \<not> fst (proc x v)
    | Some (v', r) \<Rightarrow> \<exists>x'. proc x v = (True, v', x') \<and> (memdec_good x' \<and> mem_inp x' = r
        \<or> mbufdec_good x' \<and> mbuf_inp x' = r) \<and> 4 dvd length r"
    by (auto split: option.splits)
next
  assume "mbufdec_good x" "mbuf_inp x = i"
  then have "case P i v of None \<Rightarrow> \<not> fst (proc x v)
    | Some (v', r) \<Rightarrow> \<exists>x'. proc x v = (True, v', x') \<and> mbufdec_good x' \<and> mbuf_inp x' = r \<and> 4 dvd length r"
    using parsesD[OF mbuf] x(2) by blast
  then show "case P i v of None \<Rightarrow> \<not> fst (proc x v)
    | Some (v', r) \<Rightarrow> \<exists>x'. proc x v = (True, v', x') \<and> (memdec_good x' \<and> mem_inp x' = r
        \<or> mbufdec_good x' \<and> mbuf_inp x' = r) \<and> 4 dvd length r"
    by (auto split: option.splits)
qed

lemma writing_encodes:
  assumes mem: "encodes memenc_good mem_out mem_room proc E v"
    and mbuf: "encodes mbufenc_good mbuf_out mbuf_room proc E v"
    and x: "writing x out r" "4 dvd r"
  shows "case E v of None \<Rightarrow> \<not> fst (proc x v)
    | Some bs \<Rightarrow>
        if length bs \<le> r then \<exists>x'. proc x v = (True, v, x') \<and> writing x' (out @ bs) (r - length bs)
        else \<not> fst (proc x v)"
  using x(1) unfolding writing_def
proof (elim disjE conjE)
  assume "memenc_good x" "mem_out x = out" "mem_room x = r"
  then have "case E v of None \<Rightarrow> \<not> fst (proc x v)
    | Some bs \<Rightarrow>
        if length bs \<le> r
        then (\<exists>x'. proc x v = (True, v, x') \<and> memenc_good x' \<and> mem_out x' = out @ bs
                   \<and> mem_room x' + length bs = r \<and> 4 dvd length bs)
        else \<not> fst (proc x v)"
    using encodesD[OF mem] x(2) by blast
  then show "case E v of None \<Rightarrow> \<not> fst (proc x v)
    | Some bs \<Rightarrow>
        if length bs \<le> r then \<exists>x'. proc x v = (True, v, x') \<and>
          (memenc_good x' \<and> mem_out x' = out @ bs \<and> mem_room x' = r - length bs
           \<or> mbufenc_good x' \<and> mbuf_out x' = out @ bs \<and> mbuf_room x' = r - length bs)
        else \<not> fst (proc x v)"
    by (fastforce split: option.splits if_splits)
next
  assume "mbufenc_good x" "mbuf_out x = out" "mbuf_room x = r"
  then have "case E v of None \<Rightarrow> \<not> fst (proc x v)
    | Some bs \<Rightarrow>
        if length bs \<le> r
        then (\<exists>x'. proc x v = (True, v, x') \<and> mbufenc_good x' \<and> mbuf_out x' = out @ bs
                   \<and> mbuf_room x' + length bs = r \<and> 4 dvd length bs)
        else \<not> fst (proc x v)"
    using encodesD[OF mbuf] x(2) by blast
  then show "case E v of None \<Rightarrow> \<not> fst (proc x v)
    | Some bs \<Rightarrow>
        if length bs \<le> r then \<exists>x'. proc x v = (True, v, x') \<and>
          (memenc_good x' \<and> mem_out x' = out @ bs \<and> mem_room x' = r - length bs
           \<or> mbufenc_good x' \<and> mbuf_out x' = out @ bs \<and> mbuf_room x' = r - length bs)
        else \<not> fst (proc x v)"
    by (fastforce split: option.splits if_splits)
qed

lemma reading_callmsg:
  assumes x: "reading x i" "4 dvd length i"
  shows "case p_call i of None \<Rightarrow> \<not> fst (xdr_callmsg x m)
    | Some (a, r) \<Rightarrow> \<exists>m' x'. xdr_callmsg x m = (True, m', x') \<and> abs_call m' = a \<and> reading x' r"
proof (cases "memdec_good x \<and> mem_inp x = i")
  case True
  with memdec.callmsg_decode[of x m] x(2)
  have "case p_call i of None \<Rightarrow> \<not> fst (xdr_callmsg x m)
    | Some (a, r) \<Rightarrow> \<exists>m' x'. xdr_callmsg x m = (True, m', x') \<and> abs_call m' = a \<and> memdec_good x' \<and> mem_inp x' = r"
    by simp
  then show ?thesis by (fastforce simp: reading_def split: option.splits)
next
  case False
  with x(1) have "mbufdec_good x" "mbuf_inp x = i" by (auto simp: reading_def)
  with mbufdec.callmsg_decode[of x m] x(2)
  have "case p_call i of None \<Rightarrow> \<not> fst (xdr_callmsg x m)
    | Some (a, r) \<Rightarrow> \<exists>m' x'. xdr_callmsg x m = (True, m', x') \<and> abs_call m' = a \<and> mbufdec_good x' \<and> mbuf_inp x' = r"
    by simp
  then show ?thesis by (fastforce simp: reading_def split: option.splits)
qed

lemma writing_callmsg:
  assumes x: "writing x out r" "4 dvd r" and ok: "fst (xdr_callmsg x m)"
  obtains x' pad1 pad2 where "call_sendable m" "xdr_callmsg x m = (True, m, x')"
    "length pad1 = auth_pad (cb_cred (rm_call m))" "length pad2 = auth_pad (cb_verf (rm_call m))"
    "writing x' (out @ call_wire m pad1 pad2) (r - length (call_wire m pad1 pad2))"
    "length (call_wire m pad1 pad2) \<le> r"
proof (cases "memenc_good x \<and> mem_out x = out \<and> mem_room x = r")
  case True
  with memenc.callmsg_encode[of x m] x(2) ok obtain x' pad1 pad2 where
    "call_sendable m" "xdr_callmsg x m = (True, m, x')" "memenc_good x'"
    "length pad1 = auth_pad (cb_cred (rm_call m))" "length pad2 = auth_pad (cb_verf (rm_call m))"
    "mem_out x' = out @ call_wire m pad1 pad2" "mem_room x' + length (call_wire m pad1 pad2) = r"
    by (auto split: if_splits)
  then show ?thesis by (intro that) (auto simp: writing_def)
next
  case False
  with x(1) have "mbufenc_good x" "mbuf_out x = out" "mbuf_room x = r" by (auto simp: writing_def)
  with mbufenc.callmsg_encode[of x m] x(2) ok obtain x' pad1 pad2 where
    "call_sendable m" "xdr_callmsg x m = (True, m, x')" "mbufenc_good x'"
    "length pad1 = auth_pad (cb_cred (rm_call m))" "length pad2 = auth_pad (cb_verf (rm_call m))"
    "mbuf_out x' = out @ call_wire m pad1 pad2" "mbuf_room x' + length (call_wire m pad1 pad2) = r"
    by (auto split: if_splits)
  then show ?thesis by (intro that) (auto simp: writing_def)
qed

section \<open>UNIX credentials\<close>

definition p_authunix :: "authunix_parms parser" where
  "p_authunix =
     p_seq (p_fld p_long aup_time (\<lambda>v p. p\<lparr>aup_time := v\<rparr>))
       (p_seq (p_fld (p_string MAX_MACHINE_NAME) aup_machname (\<lambda>v p. p\<lparr>aup_machname := v\<rparr>))
         (p_seq (p_fld p_long aup_uid (\<lambda>v p. p\<lparr>aup_uid := v\<rparr>))
           (p_seq (p_fld p_long aup_gid (\<lambda>v p. p\<lparr>aup_gid := v\<rparr>))
             (p_fld (p_array NGRPS 0 p_long) (\<lambda>p. (aup_gids p, aup_len p))
                  (\<lambda>(g, n) p. p\<lparr>aup_gids := g, aup_len := n\<rparr>)))))"

definition e_authunix :: "authunix_parms encoder" where
  "e_authunix =
     e_seq (e_fld e_long aup_time)
       (e_seq (e_fld (e_string MAX_MACHINE_NAME) aup_machname)
         (e_seq (e_fld e_long aup_uid)
           (e_seq (e_fld e_long aup_gid)
             (e_fld (e_array NGRPS e_long) (\<lambda>p. (aup_gids p, aup_len p))))))"

lemma name_bound: "unat MAX_MACHINE_NAME < 2 ^ 31 - 4"
  by (simp add: MAX_MACHINE_NAME_def)

lemma p_fld_some: "p_fld P get put i r = Some (r1, rest) \<Longrightarrow> \<exists>v. r1 = put v r"
  by (auto simp: p_fld_def split: option.splits)

context xdr_decoder
begin

lemma parses_authunix:
  assumes "aup_gids v = None"
  shows "parses good inp xdr_authunix_parms p_authunix v"
  unfolding xdr_authunix_parms_def p_authunix_def
  by (intro parses_seq_if parses_fld parses_u_long parses_string[OF name_bound] parses_int array_parse)
    (use assms in \<open>auto dest!: p_fld_some\<close>)

end

context xdr_encoder
begin

lemma encodes_authunix:
  assumes "strlen (bytes_at (aup_machname v)) < 2 ^ 32"
    and "aup_gids v = Some gs" "unat (aup_len v) = length gs"
  shows "encodes good out room xdr_authunix_parms e_authunix v"
  unfolding xdr_authunix_parms_def e_authunix_def
  by (intro encodes_seq encodes_fld encodes_u_long encodes_string[OF name_bound] encodes_int)
    (use assms encodes_array[OF encodes_int] in simp_all)

end

lemma p_string_roundtrip:
  assumes "e_string m p = Some w" "strlen (bytes_at p) < 2 ^ 32"
  shows "p_string m (w @ rest) None = Some (Some (take (strlen (bytes_at p)) (bytes_at p) @ [0]), rest)"
proof -
  define n where "n = strlen (bytes_at p)"
  have le: "n \<le> length (bytes_at p)" by (simp add: n_def strlen_def length_takeWhile_le)
  have u: "unat (of_nat n :: 32 word) = n" using assms(2) by (simp add: n_def unat_of_nat)
  from assms(1) have nm: "\<not> (of_nat n :: 32 word) > m"
    and w: "w = be32 (of_nat n) @ take n (bytes_at p) @ replicate (padlen n) 0"
    by (auto simp: e_string_def n_def[symmetric] Let_def split: if_splits)
  have d: "drop n ((replicate (Suc n) (0 :: byte))[n := 0]) = [0]"
    by (rule drop_terminator) simp
  show ?thesis using nm le d
    by (simp add: p_string_def p_long_def w u n_def[symmetric] wrbuf_def min_def)
qed

lemma p_elems_long_roundtrip:
  "e_elems e_long xs = Some w \<Longrightarrow> length ys = length xs \<Longrightarrow> p_elems p_long (w @ rest) ys = Some (xs, rest)"
proof (induction xs arbitrary: ys w)
  case (Cons x xs)
  then obtain y ys' w' where "ys = y # ys'" and "w = be32 x @ w'" and "e_elems e_long xs = Some w'" "length ys' = length xs"
    by (cases ys) (auto simp: e_long_def[of x] split: option.splits)
  then show ?case using Cons.IH by (simp add: p_long_def)
qed simp

lemma p_authunix_roundtrip:
  assumes "e_authunix v = Some w" "strlen (bytes_at (aup_machname v)) < 2 ^ 32"
    and gs: "aup_gids v = Some gs" "unat (aup_len v) = length gs" "gs \<noteq> []"
    and v0: "aup_machname v0 = None" "aup_gids v0 = None"
  shows "p_authunix (w @ rest) v0 =
    Some (v\<lparr>aup_machname := Some (take (strlen (bytes_at (aup_machname v))) (bytes_at (aup_machname v)) @ [0])\<rparr>, rest)"
proof -
  obtain w1 w2 where s: "e_string MAX_MACHINE_NAME (aup_machname v) = Some w1"
    and g: "e_array NGRPS e_long (Some gs, aup_len v) = Some w2"
    and w: "w = be32 (aup_time v) @ w1 @ be32 (aup_uid v) @ be32 (aup_gid v) @ w2"
    using assms(1) gs(1) by (auto simp: e_authunix_def e_seq_def e_fld_def e_long_def split: option.splits)
  from g gs obtain w3 where g3: "\<not> aup_len v > NGRPS" "e_elems e_long gs = Some w3" "w2 = be32 (aup_len v) @ w3"
    by (auto simp: e_array_def split: if_splits option.splits)
  have nz: "aup_len v \<noteq> 0" using gs(2,3) by auto
  have arr: "p_array NGRPS 0 p_long (w2 @ rest) (None, n0) = Some ((Some gs, aup_len v), rest)" for n0
    using g3 nz gs(2) p_elems_long_roundtrip[OF g3(2), of "replicate (length gs) 0"]
    by (simp add: p_array_def p_long_def)
  have l: "p_long (be32 a @ r) b = Some (a, r)" for a b r by (simp add: p_long_def)
  show ?thesis using v0 gs
    by (simp add: p_authunix_def w p_seq_def p_fld_def l p_string_roundtrip[OF s assms(2)] arr)
qed

section \<open>Handles and messages for the witnesses\<close>

definition xdr0 :: xdr where
  "xdr0 = \<lparr>x_op = XDR_FREE, x_ops = Xdrmem_ops, x_public = 0, x_private = 0, x_base = 0, x_chain = [], x_past = [],
     x_handy = 0, x_mem = (\<lambda>_. 0), x_kmem = [], x_fresh = (\<lambda>_. 0xAA)\<rparr>"

definition mem_encoder :: "32 word \<Rightarrow> xdr" where
  "mem_encoder n = xdrmem_create xdr0 0x1000 n XDR_ENCODE"

definition mem_decoder :: "byte list \<Rightarrow> xdr" where
  "mem_decoder bs = xdrmem_create (xdr0\<lparr>x_mem := wrmem (\<lambda>_. 0) 0x2000 bs\<rparr>) 0x2000 (of_nat (length bs)) XDR_DECODE"

text \<open>The same bytes in two mbufs, cut after \<open>k\<close> bytes.\<close>

definition mbuf_decoder :: "nat \<Rightarrow> byte list \<Rightarrow> xdr" where
  "mbuf_decoder k bs = xdrmbuf_init
     (xdr0\<lparr>x_mem := wrmem (wrmem (\<lambda>_. 0) 0x2000 (take k bs)) 0x3000 (drop k bs)\<rparr>)
     [\<lparr>m_dat = 0x2000, m_len = of_nat k\<rparr>, \<lparr>m_dat = 0x3000, m_len = of_nat (length bs - k)\<rparr>] XDR_DECODE"

definition auth0 :: opaque_auth where
  "auth0 = \<lparr>oa_flavor = 0, oa_base = None, oa_length = 0\<rparr>"

definition cred5 :: opaque_auth where
  "cred5 = \<lparr>oa_flavor = 1, oa_base = Some [1, 2, 3, 4, 5], oa_length = 5\<rparr>"

definition call0 :: "(32 word) rpc_msg" where
  "call0 = \<lparr>rm_xid = 77, rm_direction = CALL,
     rm_call = \<lparr>cb_rpcvers = RPC_MSG_VERSION, cb_prog = 100003, cb_vers = 2, cb_proc = 4,
                cb_cred = cred5, cb_verf = auth0\<rparr>,
     rm_reply = \<lparr>rp_stat = MSG_ACCEPTED,
                 rp_acpt = \<lparr>ar_verf = auth0, ar_stat = SYSTEM_ERR, ar_low = 0, ar_high = 0, ar_where = 0, ar_proc = xdr_u_long\<rparr>,
                 rp_rjct = \<lparr>rj_stat = 0, rj_low = 0, rj_high = 0, rj_why = 0\<rparr>\<rparr>\<rparr>"

definition wire0 :: "byte list" where
  "wire0 = call_wire call0 [0, 0, 0] []"

lemma mem_encoder_writing: "writing (mem_encoder 64) [] 64"
  by (simp add: writing_def memenc_good_def mem_out_def mem_room_def mem_encoder_def xdrmem_create_def xdr0_def)

lemma mem_decoder_reading:
  assumes "length bs < 2 ^ 31"
  shows "memdec_good (mem_decoder bs) \<and> mem_inp (mem_decoder bs) = bs"
  using assms
  by (simp add: memdec_good_def mem_inp_def mem_decoder_def xdrmem_create_def xdr0_def unat_of_nat rdmem_wrmem_same)

lemma wire0_length: "length wire0 = 48"
  by (simp add: wire0_def call_wire_def auth_wire_def call0_def cred5_def auth0_def)

lemma mbuf_decoder_reading: "mbufdec_good (mbuf_decoder 16 wire0) \<and> mbuf_inp (mbuf_decoder 16 wire0) = wire0"
proof
  show "mbufdec_good (mbuf_decoder 16 wire0)"
    by (simp add: mbufdec_good_def mbuf_decoder_def xdrmbuf_init_def xdr0_def wire0_length mbuf_ok_def mbuf_size_def)
  define m where "m = wrmem (\<lambda>_. 0) 0x2000 (take 16 wire0)"
  have l: "length (take 16 wire0) = 16" "length (drop 16 wire0) = 32" by (simp_all add: wire0_length)
  have "rdmem (wrmem m 0x3000 (drop 16 wire0)) 0x2000 16 = rdmem m 0x2000 16"
    by (rule rdmem_cong) (use wrmem_below[where k = "0x1000" and bs = "drop 16 wire0" and m = m and p = "0x2000"] l in simp)
  moreover have "rdmem m 0x2000 16 = take 16 wire0"
    using rdmem_wrmem_same[of "take 16 wire0" "\<lambda>_. 0" "0x2000"] l by (simp add: m_def)
  moreover have "rdmem (wrmem m 0x3000 (drop 16 wire0)) 0x3000 32 = drop 16 wire0"
    using rdmem_wrmem_same[of "drop 16 wire0" m "0x3000"] l by simp
  ultimately show "mbuf_inp (mbuf_decoder 16 wire0) = wire0"
    by (simp add: mbuf_inp_def mbuf_decoder_def xdrmbuf_init_def xdr0_def mbuf_data_def mbuf_size_def
        wire0_length m_def[symmetric])
qed

lemma call0_sendable: "call_sendable call0"
  by (simp add: call_sendable_def call0_def cred5_def auth0_def MAX_AUTH_BYTES_def)

lemma mem_encoder_call0: "fst (xdr_callmsg (mem_encoder 64) call0)"
proof -
  have "memenc_good (mem_encoder 64)" "mem_room (mem_encoder 64) = 64"
    by (simp_all add: memenc_good_def mem_room_def mem_encoder_def xdrmem_create_def xdr0_def)
  moreover have "length (call_wire call0 (zpad cred5) (zpad auth0)) \<le> 64"
    by (simp add: call_wire_def auth_wire_def zpad_def auth_pad_def padlen_def call0_def cred5_def auth0_def)
  moreover have "cb_cred (rm_call call0) = cred5" "cb_verf (rm_call call0) = auth0" by (simp_all add: call0_def)
  ultimately show ?thesis using memenc.callmsg_encode[of "mem_encoder 64" call0] call0_sendable by auto
qed

lemma wire0_call: "p_call wire0 = Some (abs_call call0, [])"
  using p_call_wire[of call0 "[0, 0, 0]" "[]" "[]"]
  by (simp add: wire0_def call_sendable_def call0_def cred5_def auth0_def auth_pad_def padlen_def MAX_AUTH_BYTES_def)

section \<open>Call messages\<close>

text \<open>
  C6: on a flat buffer and on an mbuf chain alike, \<open>xdr_callmsg\<close> accepts exactly the inputs the
  reference reader of call messages accepts (direction, protocol version and the 400-byte limit on
  both authenticators included), returns the message it reads, and leaves the stream behind it.
\<close>

theorem callmsg_decode_exact:
  assumes "reading x i" "4 dvd length i"
  shows "case p_call i of
      None \<Rightarrow> \<not> fst (xdr_callmsg x m)
    | Some (a, r) \<Rightarrow> \<exists>m' x'. xdr_callmsg x m = (True, m', x') \<and> abs_call m' = a \<and> reading x' r"
  by (rule reading_callmsg[OF assms])

theorem callmsg_decode_exact_witness:
  "\<exists>m' x'. xdr_callmsg (mbuf_decoder 16 wire0) call0 = (True, m', x')
     \<and> abs_call m' = abs_call call0 \<and> reading x' []"
  using callmsg_decode_exact[of "mbuf_decoder 16 wire0" wire0 call0] mbuf_decoder_reading wire0_call
  by (simp add: reading_def wire0_length)

text \<open>
  C16: a call message that \<open>xdr_callmsg\<close> encodes, on either kind of stream and by either of its
  two paths, is decoded from the bytes it appended, on either kind of stream, to the same call:
  transaction id, program, version, procedure, credentials and verifier.
\<close>

theorem callmsg_roundtrip:
  assumes "writing x out r" "4 dvd r" "fst (xdr_callmsg x m)"
  shows "\<exists>x' w. xdr_callmsg x m = (True, m, x') \<and> length w \<le> r \<and> writing x' (out @ w) (r - length w)
    \<and> (\<forall>y rest m0. reading y (w @ rest) \<longrightarrow> 4 dvd length (w @ rest) \<longrightarrow>
         (\<exists>m' y'. xdr_callmsg y m0 = (True, m', y') \<and> abs_call m' = abs_call m \<and> reading y' rest))"
proof -
  obtain x' pad1 pad2 where e: "call_sendable m" "xdr_callmsg x m = (True, m, x')"
    "length pad1 = auth_pad (cb_cred (rm_call m))" "length pad2 = auth_pad (cb_verf (rm_call m))"
    "writing x' (out @ call_wire m pad1 pad2) (r - length (call_wire m pad1 pad2))"
    "length (call_wire m pad1 pad2) \<le> r"
    by (rule writing_callmsg[OF assms])
  have "\<exists>m' y'. xdr_callmsg y m0 = (True, m', y') \<and> abs_call m' = abs_call m \<and> reading y' rest"
    if "reading y (call_wire m pad1 pad2 @ rest)" "4 dvd length (call_wire m pad1 pad2 @ rest)" for y rest m0
    using reading_callmsg[OF that, of m0] by (simp add: p_call_wire[OF e(1,3,4)])
  with e show ?thesis by blast
qed

theorem callmsg_roundtrip_witness:
  "fst (xdr_callmsg (mem_encoder 64) call0) \<and> (\<exists>x' w. xdr_callmsg (mem_encoder 64) call0 = (True, call0, x')
     \<and> length w \<le> 64 \<and> writing x' w (64 - length w))"
  using callmsg_roundtrip[OF mem_encoder_writing _ mem_encoder_call0] mem_encoder_call0 by auto

text \<open>
  C27: how the bytes of a call are split over mbufs makes no difference: from a flat buffer and from
  any mbuf chain with the same bytes (mbufs of a multiple of four bytes), and whatever was in the
  message before, \<open>xdr_callmsg\<close> gives the same answer and the same call.
\<close>

theorem callmsg_split_independent:
  assumes "memdec_good x" "mbufdec_good y" "mbuf_inp y = mem_inp x" "4 dvd length (mem_inp x)"
  shows "fst (xdr_callmsg x m) = fst (xdr_callmsg y m')
    \<and> (fst (xdr_callmsg x m) \<longrightarrow> abs_call (fst (snd (xdr_callmsg x m))) = abs_call (fst (snd (xdr_callmsg y m'))))"
proof -
  have r: "reading x (mem_inp x)" "reading y (mem_inp x)" using assms by (auto simp: reading_def)
  show ?thesis
  proof (cases "p_call (mem_inp x)")
    case None
    then show ?thesis using reading_callmsg[OF r(1) assms(4), of m] reading_callmsg[OF r(2) assms(4), of m'] by simp
  next
    case (Some ar)
    then show ?thesis using reading_callmsg[OF r(1) assms(4), of m] reading_callmsg[OF r(2) assms(4), of m']
      by (cases ar) auto
  qed
qed

theorem callmsg_split_independent_witness:
  "fst (xdr_callmsg (mem_decoder wire0) call0) = fst (xdr_callmsg (mbuf_decoder 16 wire0) call0)"
  using callmsg_split_independent[of "mem_decoder wire0" "mbuf_decoder 16 wire0" call0 call0]
    mem_decoder_reading[of wire0] mbuf_decoder_reading
  by (simp add: wire0_length)

section \<open>Credentials, bounds and errors\<close>

lemma writing_authunix:
  assumes "writing x out r" "4 dvd r" "strlen (bytes_at (aup_machname v)) < 2 ^ 32"
    and "aup_gids v = Some gs" "unat (aup_len v) = length gs"
  shows "case e_authunix v of None \<Rightarrow> \<not> fst (xdr_authunix_parms x v)
    | Some bs \<Rightarrow>
        if length bs \<le> r
        then \<exists>x'. xdr_authunix_parms x v = (True, v, x') \<and> writing x' (out @ bs) (r - length bs)
        else \<not> fst (xdr_authunix_parms x v)"
  by (rule writing_encodes[OF memenc.encodes_authunix[OF assms(3-5)] mbufenc.encodes_authunix[OF assms(3-5)] assms(1,2)])

text \<open>
  UNIX credentials with a nonempty group list that \<open>xdr_authunix_parms\<close> encodes on either kind
  of stream decode, into a structure with null pointers and on either kind of stream, to the same
  time stamp, ids and groups and to the same machine name, null-terminated in fresh memory.
\<close>

theorem authunix_roundtrip:
  assumes "writing x out r" "4 dvd r" "fst (xdr_authunix_parms x v)"
    and "strlen (bytes_at (aup_machname v)) < 2 ^ 32"
    and "aup_gids v = Some gs" "unat (aup_len v) = length gs" "gs \<noteq> []"
  shows "\<exists>x' w. xdr_authunix_parms x v = (True, v, x') \<and> writing x' (out @ w) (r - length w)
    \<and> (\<forall>y rest v0. reading y (w @ rest) \<longrightarrow> 4 dvd length (w @ rest)
          \<longrightarrow> aup_machname v0 = None \<longrightarrow> aup_gids v0 = None \<longrightarrow>
         (\<exists>y'. xdr_authunix_parms y v0 =
            (True, v\<lparr>aup_machname :=
               Some (take (strlen (bytes_at (aup_machname v))) (bytes_at (aup_machname v)) @ [0])\<rparr>, y')
            \<and> reading y' rest))"
proof -
  obtain w where w: "e_authunix v = Some w"
    using writing_authunix[OF assms(1,2,4,5,6)] assms(3) by (cases "e_authunix v") auto
  with writing_authunix[OF assms(1,2,4,5,6)] assms(3) obtain x' where
    x': "xdr_authunix_parms x v = (True, v, x')" "writing x' (out @ w) (r - length w)"
    by (auto split: if_splits)
  have "\<exists>y'. xdr_authunix_parms y v0 = (True, v\<lparr>aup_machname :=
        Some (take (strlen (bytes_at (aup_machname v))) (bytes_at (aup_machname v)) @ [0])\<rparr>, y') \<and> reading y' rest"
    if y: "reading y (w @ rest)" "4 dvd length (w @ rest)" and v0: "aup_machname v0 = None" "aup_gids v0 = None"
    for y rest v0
    using reading_parses[OF memdec.parses_authunix[OF v0(2)] mbufdec.parses_authunix[OF v0(2)] y]
    unfolding p_authunix_roundtrip[OF w assms(4-7) v0] by simp blast
  with x' show ?thesis by blast
qed

definition parms0 :: authunix_parms where
  "parms0 = \<lparr>aup_time = 9, aup_machname = Some [97, 98, 0], aup_uid = 5, aup_gid = 6,
     aup_len = 2, aup_gids = Some [10, 11]\<rparr>"

theorem authunix_roundtrip_witness:
  "\<exists>x' w. xdr_authunix_parms (mem_encoder 64) parms0 = (True, parms0, x') \<and> writing x' w (64 - length w)"
proof -
  have n: "strlen (bytes_at (aup_machname parms0)) = 2" by (simp add: parms0_def strlen_def bytes_at_def)
  have "e_authunix parms0 \<noteq> None \<and> length (the (e_authunix parms0)) \<le> 64"
    by code_simp
  then have ok: "fst (xdr_authunix_parms (mem_encoder 64) parms0)"
    using writing_authunix[OF mem_encoder_writing, of parms0 "[10, 11]"] n
    by (auto simp: parms0_def split: if_splits)
  show ?thesis
    using authunix_roundtrip[OF mem_encoder_writing _ ok, of "[10, 11]"] n by (auto simp: parms0_def)
qed

text \<open>
  C34: \<open>xdrmem_getbytes\<close> answers TRUE exactly for the lengths that fit what is left of the buffer
  and for those so large that \<open>x_handy - len\<close> wraps around to a positive number: the bound holds
  only because every caller limits \<open>len\<close> far below \<open>2\<^sup>3\<^sup>1\<close>.
\<close>

theorem xdrmem_getbytes_bound:
  assumes "unat (x_handy x) < 2 ^ 31"
  shows "fst (xdrmem_getbytes x n) = (unat n \<le> unat (x_handy x) \<or> unat (x_handy x) + 2 ^ 31 < unat n)"
proof -
  have "unat (x_handy x - n) = (if unat n \<le> unat (x_handy x) then unat (x_handy x) - unat n
      else unat (x_handy x) + 2 ^ 32 - unat n)"
    using unat_lt32[of n] by (subst unat_sub_if') simp
  then have "(sint (x_handy x - n) < 0) = (\<not> (unat n \<le> unat (x_handy x) \<or> unat (x_handy x) + 2 ^ 31 < unat n))"
    using assms unat_lt32[of n] by (auto simp: sint_neg)
  then show ?thesis by (simp add: xdrmem_getbytes_def Let_def)
qed

theorem xdrmem_getbytes_bound_witness:
  "fst (xdrmem_getbytes (mem_decoder wire0) 0xFFFFFFF0) \<and> \<not> fst (xdrmem_getbytes (mem_decoder wire0) 49)"
  using xdrmem_getbytes_bound[of "mem_decoder wire0" "0xFFFFFFF0"] xdrmem_getbytes_bound[of "mem_decoder wire0" 49]
  by (simp add: mem_decoder_def xdrmem_create_def wire0_length)

text \<open>
  When a long is read at the end of an mbuf and the next one holds fewer than four bytes (an
  empty one, say), \<open>xdrmbuf_getlong\<close> still answers TRUE with the four bytes at that mbuf's data
  address and leaves \<open>x_handy\<close> negative: it does not go on to the next mbuf with data.
\<close>

theorem xdrmbuf_short_mbuf:
  assumes "x_handy x = 0" "x_chain x = m # m' # ms" "mbuf_size m' < 4"
  shows "fst (xdrmbuf_getlong x v)
    \<and> fst (snd (xdrmbuf_getlong x v)) = un_be32 (rdmem (x_mem x) (m_dat m') 4)
    \<and> sint (x_handy (snd (snd (xdrmbuf_getlong x v)))) < 0"
  using assms(3) handy4(1)[of "scast (m_len m')"]
  by (simp add: mbuf_getlong_next[OF assms(1,2)] mbuf_size_def)

definition short_chain :: xdr where
  "short_chain = xdr0\<lparr>x_op := XDR_DECODE, x_ops := Xdrmbuf_ops,
     x_chain := [\<lparr>m_dat = 0x2000, m_len = 4\<rparr>, \<lparr>m_dat = 0x3000, m_len = 0\<rparr>, \<lparr>m_dat = 0x4000, m_len = 4\<rparr>]\<rparr>"

theorem xdrmbuf_short_mbuf_witness:
  "fst (xdrmbuf_getlong short_chain 7) \<and> sint (x_handy (snd (snd (xdrmbuf_getlong short_chain 7)))) < 0"
  using xdrmbuf_short_mbuf[of short_chain "\<lparr>m_dat = 0x2000, m_len = 4\<rparr>" "\<lparr>m_dat = 0x3000, m_len = 0\<rparr>"
      "[\<lparr>m_dat = 0x4000, m_len = 4\<rparr>]" 7]
  by (simp add: short_chain_def xdr0_def mbuf_size_def)

text \<open>
  \<open>_seterr_reply\<close> turns a reply into the client's status: a reply denied for an RPC version
  mismatch becomes the unspecific \<open>RPC_FAILED\<close> and its version range is dropped, because
  \<open>rejected\<close> switches on the client status \<open>RPC_VERSMISMATCH\<close> (6) where the reject status
  \<open>RPC_MISMATCH\<close> (0) is meant; an authentication error and each accepted status are reported as
  themselves.
\<close>

theorem seterr_reply_status:
  "re_status (seterr_reply msg e) =
     (let rp = rm_reply msg; a = ar_stat (rp_acpt rp); j = rj_stat (rp_rjct rp) in
      if rp_stat rp = MSG_ACCEPTED then
        (if a = 0 then RPC_SUCCESS else if a = 1 then RPC_PROGUNAVAIL else if a = 2 then RPC_PROGVERSMISMATCH
         else if a = 3 then RPC_PROCUNAVAIL else if a = 4 then RPC_CANTDECODEARGS
         else if a = 5 then RPC_SYSTEMERROR else RPC_FAILED)
      else if rp_stat rp = MSG_DENIED then
        (if j = AUTH_ERROR then RPC_AUTHERROR else if j = 6 then RPC_VERSMISMATCH else RPC_FAILED)
      else RPC_FAILED)"
  by (simp add: seterr_reply_def accepted_def rejected_def rpc_consts clnt_consts Let_def)

text \<open>
  A string is freed with the size its bytes up to the first null give: after decoding the three
  bytes a, null, b the code has allocated four bytes and frees two.
\<close>

theorem xdr_string_free_size:
  "let (ok, p, x) = xdr_string 100 (mem_decoder [0, 0, 0, 3, 97, 0, 98, 0]) None;
       (ok', p', x') = xdr_string 100 (x\<lparr>x_op := XDR_FREE\<rparr>) p in
   ok \<and> ok' \<and> p = Some [97, 0, 98, 0] \<and> p' = None \<and> x_kmem x' = [KAlloc 4, KFree 2]"
  by code_simp

section \<open>Replies\<close>

definition reply1 :: "(32 word) rpc_msg" where
  "reply1 = call0\<lparr>rm_direction := REPLY,
     rm_reply := (rm_reply call0)\<lparr>rp_acpt := \<lparr>ar_verf = \<lparr>oa_flavor = 3, oa_base = Some [9], oa_length = 1\<rparr>,
       ar_stat = SUCCESS, ar_low = 0, ar_high = 0, ar_where = 0x11223344, ar_proc = xdr_u_long\<rparr>\<rparr>\<rparr>"

text \<open>
  A reply with a one-byte verifier is sent damaged. \<open>xdr_replymsg\<close> reserves the verifier's
  unrounded length but writes the accept status behind the rounded one, so the result's encoding
  starts three bytes early and overwrites it: the receiver reads status 0x112233 and one byte of
  result.
\<close>

theorem replymsg_verf_overlap:
  "let (ok, m', x') = xdr_replymsg (mem_encoder 64) reply1 in
   ok \<and> length (mem_out x') = 29 \<and> take 20 (mem_out x') = be32 77 @ be32 REPLY @ be32 MSG_ACCEPTED @ be32 3 @ be32 1
   \<and> drop 24 (mem_out x') = be32 0x112233 @ [0x44]"
proof -
  define v where "v = ar_verf (rp_acpt (rm_reply reply1))"
  define hdr where "hdr = be32 77 @ be32 REPLY @ be32 MSG_ACCEPTED"
  define x1 where "x1 = (mem_encoder 64)\<lparr>x_handy := 39, x_private := 0x1019\<rparr>"
  have v: "oa_length v = 1" "oa_flavor v = 3" by (simp_all add: v_def reply1_def)
  have i: "XDR_INLINE (mem_encoder 64) 25 = (Some 0x1000, x1)"
    by (simp add: XDR_INLINE_def mem_encoder_def xdrmem_create_def xdrmem_inline_def xdr0_def x1_def)
  define x2 where "x2 = x1\<lparr>x_mem := wrmem (x_mem x1) 0x1000 hdr\<rparr>"
  obtain pad where pad: "length pad = auth_pad v" "ixdr_put_auth x2 0x100C v =
      (x2\<lparr>x_mem := wrmem (x_mem x2) 0x100C (auth_wire v pad)\<rparr>, 0x100C + of_nat (length (auth_wire v pad)))"
    using put_auth_wrmem[of v x2 "0x100C"] v by (auto simp: MAX_AUTH_BYTES_def)
  define w where "w = hdr @ auth_wire v pad @ be32 SUCCESS"
  have aw: "length (auth_wire v pad) = 12" "length hdr = 12" "length w = 28"
    using pad(1) v by (simp_all add: auth_wire_def auth_pad_def padlen_def w_def hdr_def)
  define x3 where "x3 = x1\<lparr>x_mem := wrmem (x_mem x1) 0x1000 (hdr @ auth_wire v pad)\<rparr>"
  have m3: "x2\<lparr>x_mem := wrmem (x_mem x2) 0x100C (auth_wire v pad)\<rparr> = x3"
    using wrmem_append[of hdr "auth_wire v pad" "x_mem x1" "0x1000"] aw by (simp add: x2_def x3_def)
  have m4: "wrmem (x_mem x3) 0x1018 (be32 SUCCESS) = wrmem (x_mem x1) 0x1000 w"
    using wrmem_append[of "hdr @ auth_wire v pad" "be32 SUCCESS" "x_mem x1" "0x1000"] aw by (simp add: x3_def w_def)
  have h: "ixdr_puts x1 0x1000 [77, REPLY, MSG_ACCEPTED] = (x2, 0x100C)"
    using puts_wrmem[of "[77, REPLY, MSG_ACCEPTED]" x1 "0x1000"] by (simp add: x2_def hdr_def)
  have t: "ixdr_puts x3 0x1018 [SUCCESS] = (x1\<lparr>x_mem := wrmem (x_mem x1) 0x1000 w\<rparr>, 0x101C)"
    using puts_wrmem[of "[SUCCESS]" x3 "0x1018"] m4 by (simp add: x3_def)
  define m where "m = wrmem (wrmem (x_mem x1) 0x1000 w) 0x1019 (be32 0x11223344)"
  define x' where "x' = x1\<lparr>x_handy := 35, x_mem := m, x_private := 0x101D\<rparr>"
  have r: "rm_xid reply1 = 77" "rm_direction reply1 = REPLY" "rp_stat (rm_reply reply1) = MSG_ACCEPTED"
    "ar_stat (rp_acpt (rm_reply reply1)) = SUCCESS" "ar_where (rp_acpt (rm_reply reply1)) = 0x11223344"
    "ar_proc (rp_acpt (rm_reply reply1)) = xdr_u_long" "x_op (mem_encoder 64) = XDR_ENCODE"
    by (simp_all add: reply1_def call0_def mem_encoder_def xdrmem_create_def)
  have put: "xdr_u_long (x1\<lparr>x_mem := wrmem (x_mem x1) 0x1000 w\<rparr>) 0x11223344 = (True, 0x11223344, x')"
    by (simp add: xdr_u_long_def x1_def mem_encoder_def xdrmem_create_def XDR_PUTLONG_def xdrmem_putlong_def
        x'_def m_def)
  have run: "fst (xdr_replymsg (mem_encoder 64) reply1)" "snd (snd (xdr_replymsg (mem_encoder 64) reply1)) = x'"
  proof -
    have "xdr_replymsg (mem_encoder 64) reply1 = fld_acpt accepted_arm (x1\<lparr>x_mem := wrmem (x_mem x1) 0x1000 w\<rparr>) reply1"
      using i h pad(2) t v
      by (simp add: xdr_replymsg_def r replymsg_put_def v_def[symmetric] BYTES_PER_XDR_UNIT_def aw m3
          del: ixdr_puts.simps)
    then show "fst (xdr_replymsg (mem_encoder 64) reply1)" "snd (snd (xdr_replymsg (mem_encoder 64) reply1)) = x'"
      by (simp_all add: fld_acpt_def fld_def accepted_arm_def r put)
  qed
  have "mem_out x' = rdmem m 0x1000 29"
    by (simp add: x'_def x1_def mem_out_def mem_encoder_def xdrmem_create_def)
  also have "\<dots> = rdmem (wrmem (x_mem x1) 0x1000 w) 0x1000 25 @ be32 0x11223344"
    using rdmem_wrmem_append[of 25 "be32 0x11223344" "wrmem (x_mem x1) 0x1000 w" "0x1000"] by (simp add: m_def)
  also have "rdmem (wrmem (x_mem x1) 0x1000 w) 0x1000 25 = take 25 w"
    using rdmem_wrmem_same[of w "x_mem x1" "0x1000"] aw take_rdmem[of 25 28 "wrmem (x_mem x1) 0x1000 w" "0x1000"]
    by simp
  finally have o: "mem_out x' = take 25 w @ be32 0x11223344" .
  have b: "be32 SUCCESS = [0, 0, 0, 0]" "be32 0x11223344 = [0x11, 0x22, 0x33, 0x44]" "be32 0x112233 = [0, 0x11, 0x22, 0x33]"
    by code_simp+
  have ph: "take 20 w = be32 77 @ be32 REPLY @ be32 MSG_ACCEPTED @ be32 3 @ be32 1"
    by (simp add: w_def hdr_def auth_wire_def v)
  have pt: "drop 24 w = be32 SUCCESS" using aw by (simp add: w_def)
  have "length (mem_out x') = 29" "take 20 (mem_out x') = be32 77 @ be32 REPLY @ be32 MSG_ACCEPTED @ be32 3 @ be32 1"
    using aw ph by (simp_all add: o)
  moreover have "drop 24 (mem_out x') = be32 0x112233 @ [0x44]"
    using aw pt by (simp add: o drop_take b)
  ultimately show ?thesis using run by (simp add: Let_def split_beta)
qed

text \<open>
  A reply cut off before its accept status is accepted: \<open>xdr_replymsg\<close> ignores the result of
  \<open>xdr_enum\<close> on that field and goes on with the status the message held before the call.
\<close>

theorem replymsg_truncated_accepted:
  "let (ok, m', x') = xdr_replymsg (mem_decoder (be32 7 @ be32 REPLY @ be32 MSG_ACCEPTED @ be32 0 @ be32 0)) call0 in
   ok \<and> rm_xid m' = 7 \<and> ar_stat (rp_acpt (rm_reply m')) = SYSTEM_ERR"
  by code_simp

end
