(* ===== verification/Flock.thy ===== *)
theory Flock
  imports Prelude
begin

text \<open>
  Record locking: COMMON/os/flock.c over include/sys/flock.h. The lock table \<open>flox\<close> and the file
  identifier table \<open>flinotab\<close> are lists, a pointer into one is an index, and each doubly linked
  chain (the locks of a file, the sleeping locks, the free lists, the identifiers in use) is the list
  of its indices in chain order. A call runs until it returns or sleeps; a sleep ends a step.
\<close>

section \<open>State\<close>

text \<open>\<open>l_end\<close> is \<open>l_len\<close> under another name, as in the source.\<close>

record flock =
  l_type :: int
  l_whence :: int
  l_start :: int
  l_end :: int
  l_pid :: int

definition F_RDLCK :: int where "F_RDLCK = 1"
definition F_WRLCK :: int where "F_WRLCK = 2"
definition F_UNLCK :: int where "F_UNLCK = 3"
definition MAXEND :: int where "MAXEND = 0x7FFFFFFF"

lemmas flock_consts = F_RDLCK_def F_WRLCK_def F_UNLCK_def

text \<open>\<open>fk_stat\<close> is the union of \<open>wakeflg\<close> and, for a sleeping lock, \<open>blkpid\<close>.\<close>

record filock =
  fk_set :: flock
  fk_stat :: int

record flino =
  fl_dev :: int
  fl_number :: int
  fl_refcnt :: int
  fl_flck :: "nat list"

record flcks =
  flox :: "filock list"
  flinotab :: "flino list"
  frlock :: "nat list"
  frfid :: "nat list"
  fids :: "nat list"
  sleeplcks :: "nat list"
  reccnt :: int
  filcnt :: int
  rectot :: int
  filtot :: int
  lk_wakes :: "nat list"

text \<open>What the code reads of an open file and its inode.\<close>

record lfile =
  lf_vnode :: bool
  lf_svfs :: bool
  lf_read :: bool
  lf_write :: bool
  lf_offset :: int
  lf_dev :: int
  lf_number :: int
  lf_size :: int

text \<open>A chain of locks: that of a file identifier or that of \<open>sleeplcks\<close>.\<close>

datatype lchain = FileChain nat | SleepChain

definition lchain :: "flcks \<Rightarrow> lchain \<Rightarrow> nat list" where
  "lchain s c = (case c of FileChain i \<Rightarrow> fl_flck (flinotab s ! i) | SleepChain \<Rightarrow> sleeplcks s)"

definition set_lchain :: "flcks \<Rightarrow> lchain \<Rightarrow> nat list \<Rightarrow> flcks" where
  "set_lchain s c l =
     (case c of
        FileChain i \<Rightarrow> s\<lparr>flinotab := (flinotab s)[i := (flinotab s ! i)\<lparr>fl_flck := l\<rparr>]\<rparr>
      | SleepChain \<Rightarrow> s\<lparr>sleeplcks := l\<rparr>)"

definition fk :: "flcks \<Rightarrow> nat \<Rightarrow> flock" where
  "fk s i = fk_set (flox s ! i)"

section \<open>File identifiers\<close>

fun findfid_in :: "flcks \<Rightarrow> int \<Rightarrow> int \<Rightarrow> nat list \<Rightarrow> nat option" where
  "findfid_in s d n [] = None"
| "findfid_in s d n (i # is) =
     (if fl_dev (flinotab s ! i) = d \<and> fl_number (flinotab s ! i) = n then Some i else findfid_in s d n is)"

definition findfid :: "flcks \<Rightarrow> lfile \<Rightarrow> nat option \<times> flcks" where
  "findfid s fp =
     (case findfid_in s (lf_dev fp) (lf_number fp) (fids s) of
        None \<Rightarrow> (None, s)
      | Some i \<Rightarrow>
          (Some i, s\<lparr>flinotab := (flinotab s)[i := (flinotab s ! i)\<lparr>fl_refcnt := fl_refcnt (flinotab s ! i) + 1\<rparr>]\<rparr>))"

definition allocfid :: "flcks \<Rightarrow> lfile \<Rightarrow> nat option \<times> flcks" where
  "allocfid s fp =
     (case frfid s of
        [] \<Rightarrow> (None, s)
      | i # fr \<Rightarrow>
          (Some i, s\<lparr>frfid := fr, fids := i # fids s, filcnt := filcnt s + 1, filtot := filtot s + 1,
             flinotab := (flinotab s)[i := (flinotab s ! i)
               \<lparr>fl_refcnt := fl_refcnt (flinotab s ! i) + 1, fl_dev := lf_dev fp, fl_number := lf_number fp\<rparr>]\<rparr>))"

definition freefid :: "flcks \<Rightarrow> nat \<Rightarrow> flcks" where
  "freefid s i =
     (let fl = (flinotab s ! i)\<lparr>fl_refcnt := fl_refcnt (flinotab s ! i) - 1\<rparr> in
      if fl_refcnt fl \<le> 0 \<and> fl_flck fl = []
      then s\<lparr>filcnt := filcnt s - 1, fids := remove1 i (fids s), frfid := i # frfid s,
             flinotab := (flinotab s)[i := fl\<lparr>fl_dev := 0, fl_number := 0, fl_refcnt := 0\<rparr>]\<rparr>
      else s\<lparr>flinotab := (flinotab s)[i := fl]\<rparr>)"

text \<open>\<open>flckinit\<close> with \<open>flckinfo.fils\<close> and \<open>flckinfo.recs\<close>.\<close>

fun free_fids :: "flcks \<Rightarrow> nat \<Rightarrow> nat \<Rightarrow> flcks" where
  "free_fids s i 0 = s"
| "free_fids s i (Suc n) = free_fids (freefid s i) (Suc i) n"

fun free_recs :: "flcks \<Rightarrow> nat \<Rightarrow> nat \<Rightarrow> flcks" where
  "free_recs s i 0 = s"
| "free_recs s i (Suc n) = free_recs (s\<lparr>frlock := i # frlock s\<rparr>) (Suc i) n"

definition flckinit :: "flcks \<Rightarrow> nat \<Rightarrow> nat \<Rightarrow> flcks" where
  "flckinit s nfils nrecs = (free_recs ((free_fids s 0 nfils)\<lparr>filcnt := 0\<rparr>) 0 nrecs)\<lparr>reccnt := 0\<rparr>"

section \<open>Insertion and deletion\<close>

fun insert_after :: "nat \<Rightarrow> nat \<Rightarrow> nat list \<Rightarrow> nat list" where
  "insert_after new f [] = []"
| "insert_after new f (g # gs) = (if g = f then g # new # gs else g # insert_after new f gs)"

text \<open>\<open>None\<close> for the lock to insert after is the head of the chain.\<close>

definition insflck :: "int \<Rightarrow> flcks \<Rightarrow> lchain \<Rightarrow> flock \<Rightarrow> nat option \<Rightarrow> nat option \<times> flcks" where
  "insflck pid s c ld after =
     (case frlock s of
        [] \<Rightarrow> (None, s)
      | new # fr \<Rightarrow>
          (let s1 = s\<lparr>frlock := fr, reccnt := reccnt s + 1, rectot := rectot s + 1,
                     flox := (flox s)[new := \<lparr>fk_set = ld\<lparr>l_pid := pid\<rparr>, fk_stat = 0\<rparr>]\<rparr> in
           (Some new,
            set_lchain s1 c
              (case after of None \<Rightarrow> new # lchain s1 c | Some f \<Rightarrow> insert_after new f (lchain s1 c)))))"

definition WAKEUP :: "flcks \<Rightarrow> nat \<Rightarrow> flcks" where
  "WAKEUP s i =
     (if fk_stat (flox s ! i) \<noteq> 0
      then s\<lparr>lk_wakes := lk_wakes s @ [i], flox := (flox s)[i := (flox s ! i)\<lparr>fk_stat := 0\<rparr>]\<rparr> else s)"

definition delflck :: "flcks \<Rightarrow> lchain \<Rightarrow> nat \<Rightarrow> flcks" where
  "delflck s c i =
     (let s1 = WAKEUP (set_lchain s c (remove1 i (lchain s c))) i in
      s1\<lparr>reccnt := reccnt s1 - 1, frlock := i # frlock s1\<rparr>)"

section \<open>Regions\<close>

datatype sregion = S_BEFORE | S_START | S_MIDDLE | S_END | S_AFTER
datatype eregion = E_BEFORE | E_START | E_MIDDLE | E_END | E_AFTER

definition regflck :: "flock \<Rightarrow> flock \<Rightarrow> sregion \<times> eregion" where
  "regflck ld f =
     (let e = (if l_end ld > l_start f
               then (if l_end ld > l_end f then E_AFTER else if l_end ld = l_end f then E_END else E_MIDDLE)
               else if l_end ld = l_start f then E_START else E_BEFORE) in
      if l_start ld > l_start f then
        (if l_start ld > l_end f then (S_AFTER, E_AFTER)
         else if l_start ld = l_end f then (S_END, E_AFTER)
         else (S_MIDDLE, e))
      else if l_start ld = l_start f then (S_START, e)
      else (S_BEFORE, e))"

text \<open>\<open>flp->prev\<close>, and the records from one on.\<close>

fun prev_of :: "nat list \<Rightarrow> nat \<Rightarrow> nat option" where
  "prev_of (g # h # gs) f = (if h = f then Some g else prev_of (h # gs) f)"
| "prev_of _ f = None"

fun from_rec :: "nat list \<Rightarrow> nat \<Rightarrow> nat list" where
  "from_rec [] f = []"
| "from_rec (g # gs) f = (if g = f then g # gs else from_rec gs f)"

text \<open>
  The search for the place of a record: from \<open>f\<close> on, the last one of the run that starts below
  \<open>lim\<close>, or \<open>dflt\<close> when there is none.
\<close>

fun last_below :: "flcks \<Rightarrow> int \<Rightarrow> nat list \<Rightarrow> nat option \<Rightarrow> nat option" where
  "last_below s lim [] dflt = dflt"
| "last_below s lim (g # gs) dflt =
     (if l_start (fk s g) < lim then last_below s lim gs (Some g) else dflt)"

definition set_end :: "flcks \<Rightarrow> nat \<Rightarrow> int \<Rightarrow> flcks" where
  "set_end s i e = s\<lparr>flox := (flox s)[i := (flox s ! i)\<lparr>fk_set := (fk s i)\<lparr>l_end := e\<rparr>\<rparr>]\<rparr>"

text \<open>
  One round of the loop of \<open>flckadj\<close> on an own lock \<open>f\<close>: go on to the next record, leave the loop,
  or return from the function.
\<close>

datatype adj =
    Next flcks "nat option" flock
  | Leave flcks "nat option" flock
  | AdjRet flcks "errno option"

definition back_from :: "flcks \<Rightarrow> lchain \<Rightarrow> nat option \<Rightarrow> nat \<Rightarrow> nat option" where
  "back_from s c insrtp f = (if insrtp = Some f then prev_of (lchain s c) f else insrtp)"

text \<open>The piece of \<open>f\<close> after the end of the region, put in its place; \<open>None\<close> is no record left.\<close>

definition tail_piece :: "int \<Rightarrow> flcks \<Rightarrow> lchain \<Rightarrow> nat \<Rightarrow> flock \<Rightarrow> flcks option" where
  "tail_piece pid s c f ld =
     (let td = (fk s f)\<lparr>l_start := l_end ld\<rparr>;
          tdi = last_below s (l_start ld) (from_rec (lchain s c) f) (Some f) in
      case insflck pid s c td tdi of (None, s1) \<Rightarrow> None | (Some _, s1) \<Rightarrow> Some s1)"

definition adj_step :: "int \<Rightarrow> flcks \<Rightarrow> lchain \<Rightarrow> nat \<Rightarrow> nat option \<Rightarrow> flock \<Rightarrow> adj" where
  "adj_step pid s c f insrtp ld =
     (let F = fk s f; same = (l_type ld = l_type F) in
      case regflck ld F of
        (S_BEFORE, E_BEFORE) \<Rightarrow> Leave s insrtp ld
      | (S_BEFORE, E_START) \<Rightarrow>
          (if same
           then Leave (delflck s c f) (back_from s c insrtp f) (ld\<lparr>l_end := l_end F\<rparr>)
           else Leave s insrtp ld)
      | (S_START, E_END) \<Rightarrow>
          (if same then AdjRet s None else Next (delflck s c f) (prev_of (lchain s c) f) ld)
      | (S_START, E_AFTER) \<Rightarrow> Next (delflck s c f) (prev_of (lchain s c) f) ld
      | (S_BEFORE, E_END) \<Rightarrow>
          (if same then Leave (delflck s c f) (back_from s c insrtp f) ld
           else Next (delflck s c f) (back_from s c insrtp f) ld)
      | (S_BEFORE, E_AFTER) \<Rightarrow> Next (delflck s c f) (back_from s c insrtp f) ld
      | (S_BEFORE, E_MIDDLE) \<Rightarrow>
          (if same then Leave (delflck s c f) (back_from s c insrtp f) (ld\<lparr>l_end := l_end F\<rparr>)
           else (case tail_piece pid s c f ld of
                   None \<Rightarrow> AdjRet s (Some ENOSPC)
                 | Some s1 \<Rightarrow> Leave (delflck s1 c f) (back_from s1 c insrtp f) ld))
      | (S_START, E_MIDDLE) \<Rightarrow>
          (if same then AdjRet s None
           else (case tail_piece pid s c f ld of
                   None \<Rightarrow> AdjRet s (Some ENOSPC)
                 | Some s1 \<Rightarrow> Leave (delflck s1 c f) (prev_of (lchain s1 c) f) ld))
      | (S_MIDDLE, E_MIDDLE) \<Rightarrow>
          (if same then AdjRet s None
           else (case tail_piece pid s c f ld of
                   None \<Rightarrow> AdjRet s (Some ENOSPC)
                 | Some s1 \<Rightarrow> Leave (WAKEUP (set_end s1 f (l_start ld)) f) (Some f) ld))
      | (S_MIDDLE, E_END) \<Rightarrow>
          (if same then AdjRet s None
           else Next (WAKEUP (set_end s f (l_start ld)) f) (Some f) ld)
      | (S_MIDDLE, E_AFTER) \<Rightarrow>
          (if same then Next (delflck s c f) (prev_of (lchain s c) f) (ld\<lparr>l_start := l_start F\<rparr>)
           else Next (WAKEUP (set_end s f (l_start ld)) f) (Some f) ld)
      | (S_END, E_AFTER) \<Rightarrow>
          (if same then Next (delflck s c f) (prev_of (lchain s c) f) (ld\<lparr>l_start := l_start F\<rparr>)
           else Next (WAKEUP (set_end s f (l_start ld)) f) (Some f) ld)
      | (S_AFTER, E_AFTER) \<Rightarrow> Next s (Some f) ld
      | _ \<Rightarrow> Next s insrtp ld)"

text \<open>
  The loop: every round that goes on changes at most the record it is at, so the records still to
  visit are those that followed it when the loop began.
\<close>

fun adj_loop :: "int \<Rightarrow> flcks \<Rightarrow> lchain \<Rightarrow> nat list \<Rightarrow> nat option \<Rightarrow> flock \<Rightarrow> adj" where
  "adj_loop pid s c [] insrtp ld = Leave s insrtp ld"
| "adj_loop pid s c (f # fs) insrtp ld =
     (if l_pid (fk s f) = pid
      then (case adj_step pid s c f insrtp ld of
              Next s1 i1 ld1 \<Rightarrow> adj_loop pid s1 c fs i1 ld1
            | r \<Rightarrow> r)
      else if l_start (fk s f) > l_end ld then Leave s insrtp ld
      else adj_loop pid s c fs insrtp ld)"

definition flckadj :: "int \<Rightarrow> flcks \<Rightarrow> lchain \<Rightarrow> nat option \<Rightarrow> flock \<Rightarrow> errno option \<times> flcks" where
  "flckadj pid s c insrtp ld =
     (case adj_loop pid s c
             (case insrtp of None \<Rightarrow> lchain s c | Some f \<Rightarrow> from_rec (lchain s c) f) insrtp ld of
        AdjRet s1 r \<Rightarrow> (r, s1)
      | Next s1 i1 ld1 \<Rightarrow> (None, s1)
      | Leave s1 i1 ld1 \<Rightarrow>
          (if l_type ld = F_UNLCK then (None, s1)
           else
             (let i2 = (case i1 of None \<Rightarrow> None
                        | Some f \<Rightarrow> last_below s1 (l_start ld1) (from_rec (lchain s1 c) f) (Some f)) in
              case insflck pid s1 c ld1 i2 of
                (None, s2) \<Rightarrow> (Some ENOSPC, s2)
              | (Some _, s2) \<Rightarrow> (None, s2))))"

section \<open>Conflicts\<close>

definition conflicts :: "flock \<Rightarrow> flock \<Rightarrow> bool" where
  "conflicts f ld = (l_start ld < l_end f \<and> l_end ld > l_start f
     \<and> (l_type f = F_WRLCK \<or> l_type f = F_RDLCK \<and> l_type ld = F_WRLCK))"

fun blocked2 :: "int \<Rightarrow> flcks \<Rightarrow> nat list \<Rightarrow> flock \<Rightarrow> nat option" where
  "blocked2 pid s [] ld = None"
| "blocked2 pid s (f # fs) ld =
     (if conflicts (fk s f) ld \<and> l_pid (fk s f) \<noteq> pid then Some f
      else if l_start (fk s f) > l_end ld then None
      else blocked2 pid s fs ld)"

fun blocked1 :: "int \<Rightarrow> flcks \<Rightarrow> nat list \<Rightarrow> flock \<Rightarrow> nat option \<Rightarrow> nat option \<times> nat option" where
  "blocked1 pid s [] ld insrt = (None, insrt)"
| "blocked1 pid s (f # fs) ld insrt =
     (if \<not> l_start (fk s f) < l_start ld then (blocked2 pid s (f # fs) ld, insrt)
      else if l_pid (fk s f) = pid then
        (if l_start ld \<le> l_end (fk s f) \<and> l_end ld \<ge> l_start (fk s f)
         then (blocked2 pid s (f # fs) ld, Some f)
         else blocked1 pid s fs ld (Some f))
      else if conflicts (fk s f) ld then (Some f, Some f)
      else blocked1 pid s fs ld (Some f))"

text \<open>The blocking lock, if any, and \<open>*insrt\<close>.\<close>

definition blocked :: "int \<Rightarrow> flcks \<Rightarrow> nat list \<Rightarrow> flock \<Rightarrow> nat option \<times> nat option" where
  "blocked pid s fs ld = blocked1 pid s fs ld None"

section \<open>Deadlock detection\<close>

fun sleeper_of :: "flcks \<Rightarrow> int \<Rightarrow> nat list \<Rightarrow> nat option" where
  "sleeper_of s pid [] = None"
| "sleeper_of s pid (f # fs) = (if pid = l_pid (fk s f) then Some f else sleeper_of s pid fs)"

text \<open>One round per process followed; \<open>None\<close> when the fuel does not suffice.\<close>

fun deadflck_loop :: "nat \<Rightarrow> int \<Rightarrow> flcks \<Rightarrow> int \<Rightarrow> bool option" where
  "deadflck_loop 0 pid s blckpid = None"
| "deadflck_loop (Suc n) pid s blckpid =
     (if blckpid = pid then Some True
      else (case sleeper_of s blckpid (sleeplcks s) of
              None \<Rightarrow> Some False
            | Some sf \<Rightarrow> deadflck_loop n pid s (fk_stat (flox s ! sf))))"

definition deadflck :: "nat \<Rightarrow> int \<Rightarrow> flcks \<Rightarrow> nat \<Rightarrow> bool option" where
  "deadflck fuel pid s flp = deadflck_loop fuel pid s (l_pid (fk s flp))"

section \<open>The operations\<close>

definition convoff :: "lfile \<Rightarrow> flock \<Rightarrow> int \<Rightarrow> errno option \<times> flock" where
  "convoff fp ld whence =
     (if l_whence ld \<noteq> 0 \<and> l_whence ld \<noteq> 1 \<and> l_whence ld \<noteq> 2 then (Some EINVAL, ld)
      else
        (let ld1 = (if l_whence ld = 1 then ld\<lparr>l_start := i32 (l_start ld + lf_offset fp)\<rparr>
                    else if l_whence ld = 2 then ld\<lparr>l_start := i32 (l_start ld + lf_size fp)\<rparr> else ld) in
         if l_start ld1 < 0 then (Some EINVAL, ld1)
         else if whence = 1 then (None, ld1\<lparr>l_start := i32 (l_start ld1 - lf_offset fp), l_whence := whence\<rparr>)
         else if whence = 2 then (None, ld1\<lparr>l_start := i32 (l_start ld1 - lf_size fp), l_whence := whence\<rparr>)
         else if whence \<noteq> 0 then (Some EINVAL, ld1)
         else (None, ld1\<lparr>l_whence := whence\<rparr>)))"

text \<open>The length turned into an end, and back.\<close>

definition to_end :: "flock \<Rightarrow> flock" where
  "to_end ld = (if l_end ld = 0 then ld\<lparr>l_end := MAXEND\<rparr> else ld\<lparr>l_end := i32 (l_end ld + l_start ld)\<rparr>)"

definition to_len :: "flock \<Rightarrow> flock" where
  "to_len ld = (if l_end ld = MAXEND then ld\<lparr>l_end := 0\<rparr> else ld\<lparr>l_end := i32 (l_end ld - l_start ld)\<rparr>)"

definition getflck :: "int \<Rightarrow> flcks \<Rightarrow> lfile \<Rightarrow> flock \<Rightarrow> (errno option \<times> flock) \<times> flcks" where
  "getflck pid s fp ld =
     (if \<not> lf_vnode fp then ((Some EOPNOTSUPP, ld), s)
      else if \<not> lf_svfs fp then ((Some EREMOTE, ld), s)
      else
        (case findfid s fp of
           (None, s1) \<Rightarrow> ((None, ld\<lparr>l_type := F_UNLCK\<rparr>), s1)
         | (Some i, s1) \<Rightarrow>
             (let inwhence = l_whence ld; (r, ld1) = convoff fp ld 0 in
              case r of
                Some e \<Rightarrow> ((Some e, ld1), s1)
              | None \<Rightarrow>
                  (let ld2 = to_end ld1;
                       ld3 = (case fst (blocked pid s1 (lchain s1 (FileChain i)) ld2) of
                                Some f \<Rightarrow> fk s1 f
                              | None \<Rightarrow> ld2\<lparr>l_type := F_UNLCK\<rparr>) in
                   (convoff fp (to_len ld3) inwhence, freefid s1 i)))))"

text \<open>
  One round of \<open>setflck\<close> on identifier \<open>i\<close>: an answer, or a sleep on the blocking lock with the
  record it left on the chain of sleeping locks.
\<close>

datatype lckres = LckRet "errno option" | LckSleep nat nat

definition setflck_round :: "nat \<Rightarrow> int \<Rightarrow> flcks \<Rightarrow> nat \<Rightarrow> flock \<Rightarrow> bool \<Rightarrow> lckres \<times> flcks" where
  "setflck_round fuel pid s i ld slpflg =
     (let c = FileChain i in
      if l_type ld = F_RDLCK \<or> l_type ld = F_WRLCK then
        (case blocked pid s (lchain s c) ld of
           (None, insrt) \<Rightarrow>
             (let (r, s1) = flckadj pid s c insrt ld in (LckRet r, freefid s1 i))
         | (Some found, insrt) \<Rightarrow>
             (if \<not> slpflg then (LckRet (Some EACCES), freefid s i)
              else if deadflck fuel pid s found = Some True then (LckRet (Some EDEADLK), freefid s i)
              else
                (case insflck pid s SleepChain ld None of
                   (None, s1) \<Rightarrow> (LckRet (Some ENOSPC), freefid s1 i)
                 | (Some sf, s1) \<Rightarrow>
                     (let s2 = s1\<lparr>flox := (flox s1)[found := (flox s1 ! found)\<lparr>fk_stat := fk_stat (flox s1 ! found) + 1\<rparr>]\<rparr>;
                          s3 = s2\<lparr>flox := (flox s2)[sf := (flox s2 ! sf)\<lparr>fk_stat := l_pid (fk s2 found)\<rparr>]\<rparr> in
                      (LckSleep found sf, s3)))))
      else if l_type ld = F_UNLCK then
        (let (r, s1) = flckadj pid s c (case lchain s c of [] \<Rightarrow> None | f # _ \<Rightarrow> Some f) ld in
         (LckRet r, freefid s1 i))
      else (LckRet (Some EINVAL), freefid s i))"

definition setflck :: "nat \<Rightarrow> int \<Rightarrow> flcks \<Rightarrow> lfile \<Rightarrow> flock \<Rightarrow> bool \<Rightarrow> lckres \<times> flcks" where
  "setflck fuel pid s fp ld slpflg =
     (if \<not> lf_vnode fp then (LckRet (Some EOPNOTSUPP), s)
      else if \<not> lf_svfs fp then (LckRet (Some EREMOTE), s)
      else if l_type ld = F_RDLCK \<and> \<not> lf_read fp \<or> l_type ld = F_WRLCK \<and> \<not> lf_write fp
      then (LckRet (Some EBADF), s)
      else
        (case convoff fp ld 0 of
           (Some e, ld1) \<Rightarrow> (LckRet (Some e), s)
         | (None, ld1) \<Rightarrow>
             (let ld2 = to_end ld1 in
              case findfid s fp of
                (Some i, s1) \<Rightarrow> setflck_round fuel pid s1 i ld2 slpflg
              | (None, s1) \<Rightarrow>
                  (if l_type ld2 = F_UNLCK then (LckRet None, s1)
                   else
                     (case allocfid s1 fp of
                        (None, s2) \<Rightarrow> (LckRet (Some EMFILE), s2)
                      | (Some i, s2) \<Rightarrow> setflck_round fuel pid s2 i ld2 slpflg)))))"

text \<open>
  After the sleep: the record on the chain of sleeping locks goes, and the request is tried again
  unless a signal ended the sleep.
\<close>

definition setflck_resume :: "nat \<Rightarrow> int \<Rightarrow> flcks \<Rightarrow> nat \<Rightarrow> nat \<Rightarrow> flock \<Rightarrow> bool \<Rightarrow> lckres \<times> flcks" where
  "setflck_resume fuel pid s i sf ld intr =
     (let s1 = s\<lparr>flox := (flox s)[sf := (flox s ! sf)\<lparr>fk_stat := 0\<rparr>]\<rparr>;
          s2 = delflck s1 SleepChain sf in
      if intr then (LckRet (Some EINTR), freefid s2 i)
      else setflck_round fuel pid s2 i ld True)"

fun clean_walk :: "int \<Rightarrow> flcks \<Rightarrow> lchain \<Rightarrow> nat list \<Rightarrow> flcks" where
  "clean_walk pid s c [] = s"
| "clean_walk pid s c (f # fs) =
     clean_walk pid (if l_pid (fk s f) = pid then delflck s c f else s) c fs"

definition cleanlocks :: "int \<Rightarrow> flcks \<Rightarrow> lfile \<Rightarrow> flcks" where
  "cleanlocks pid s fp =
     (if lf_vnode fp \<and> lf_svfs fp then
        (case findfid s fp of
           (None, s1) \<Rightarrow> s1
         | (Some i, s1) \<Rightarrow> freefid (clean_walk pid s1 (FileChain i) (lchain s1 (FileChain i))) i)
      else s)"

end
