(* ===== verification/Flock_Inv.thy ===== *)
theory Flock_Inv
  imports Flock "HOL-Library.Multiset"
begin

text \<open>
  The structure of the lock table. Every operation on a chain is a sequence of the three edits
  \<open>delflck\<close>, \<open>insflck\<close> and shortening a record (the relation \<open>edits\<close>), each of one process's
  own records; the facts about whole operations follow by rule induction. A record is always on
  exactly one chain or free (\<open>lk_conserved\<close>).
\<close>

section \<open>Chains and records under the elementary operations\<close>

definition lvalid :: "flcks \<Rightarrow> lchain \<Rightarrow> bool" where
  "lvalid s c = (case c of FileChain i \<Rightarrow> i < length (flinotab s) | SleepChain \<Rightarrow> True)"

named_theorems flock_simps "how the elementary operations change the parts of the lock table"

lemma lchain_set_lchain [flock_simps]: "lvalid s c \<Longrightarrow> lchain (set_lchain s c l) c = l"
  by (cases c) (simp_all add: lchain_def set_lchain_def lvalid_def)

lemma set_lchain_fields [flock_simps]:
  "flox (set_lchain s c l) = flox s" "frlock (set_lchain s c l) = frlock s"
  "frfid (set_lchain s c l) = frfid s" "fids (set_lchain s c l) = fids s"
  "reccnt (set_lchain s c l) = reccnt s" "filcnt (set_lchain s c l) = filcnt s"
  "lk_wakes (set_lchain s c l) = lk_wakes s"
  "length (flinotab (set_lchain s c l)) = length (flinotab s)"
  "fk (set_lchain s c l) = fk s" "lvalid (set_lchain s c l) d = lvalid s d"
  by (cases c; cases d; simp add: set_lchain_def fk_def lvalid_def fun_eq_iff)+

lemma fk_flox: "flox s = flox t \<Longrightarrow> fk s = fk t"
  by (simp add: fk_def fun_eq_iff)

lemma fk_WAKEUP: "fk (WAKEUP s i) = fk s"
proof
  show "fk (WAKEUP s i) j = fk s j" for j
    by (cases "i < length (flox s)"; cases "j = i") (simp_all add: fk_def WAKEUP_def list_update_beyond linorder_not_less)
qed

lemma WAKEUP_fields [flock_simps]:
  "lchain (WAKEUP s i) c = lchain s c" "frlock (WAKEUP s i) = frlock s" "frfid (WAKEUP s i) = frfid s"
  "fids (WAKEUP s i) = fids s" "flinotab (WAKEUP s i) = flinotab s" "sleeplcks (WAKEUP s i) = sleeplcks s"
  "reccnt (WAKEUP s i) = reccnt s" "filcnt (WAKEUP s i) = filcnt s"
  "length (flox (WAKEUP s i)) = length (flox s)" "fk (WAKEUP s i) = fk s" "lvalid (WAKEUP s i) c = lvalid s c"
  by (rule fk_WAKEUP | simp add: WAKEUP_def lchain_def lvalid_def split: lchain.split)+

lemma WAKEUP_flox [flock_simps]: "j \<noteq> i \<Longrightarrow> flox (WAKEUP s i) ! j = flox s ! j"
  by (simp add: WAKEUP_def)

lemma lvalid_upd [flock_simps]:
  "lvalid (s\<lparr>frlock := a\<rparr>) c = lvalid s c" "lvalid (s\<lparr>reccnt := x\<rparr>) c = lvalid s c"
  "lvalid (s\<lparr>rectot := x\<rparr>) c = lvalid s c" "lvalid (s\<lparr>flox := b\<rparr>) c = lvalid s c"
  by (cases c; simp add: lvalid_def)+

lemma lchain_upd [flock_simps]:
  "lchain (s\<lparr>frlock := a\<rparr>) c = lchain s c" "lchain (s\<lparr>reccnt := x\<rparr>) c = lchain s c"
  "lchain (s\<lparr>rectot := x\<rparr>) c = lchain s c" "lchain (s\<lparr>flox := b\<rparr>) c = lchain s c"
  by (cases c; simp add: lchain_def)+

lemma fk_upd [flock_simps]:
  "fk (s\<lparr>frlock := a\<rparr>) = fk s" "fk (s\<lparr>reccnt := x\<rparr>) = fk s" "fk (s\<lparr>rectot := x\<rparr>) = fk s"
  by (simp_all add: fk_def fun_eq_iff)

lemma delflck_fields [flock_simps]:
  "frlock (delflck s c i) = i # frlock s" "frfid (delflck s c i) = frfid s" "fids (delflck s c i) = fids s"
  "reccnt (delflck s c i) = reccnt s - 1" "filcnt (delflck s c i) = filcnt s"
  "length (flox (delflck s c i)) = length (flox s)" "fk (delflck s c i) = fk s"
  "lvalid (delflck s c i) d = lvalid s d"
  by (simp_all add: delflck_def Let_def flock_simps)

lemma lchain_delflck [flock_simps]: "lvalid s c \<Longrightarrow> lchain (delflck s c i) c = remove1 i (lchain s c)"
  by (simp add: delflck_def Let_def flock_simps)

lemma delflck_flox [flock_simps]: "j \<noteq> i \<Longrightarrow> flox (delflck s c i) ! j = flox s ! j"
  by (simp add: delflck_def Let_def flock_simps)

lemma set_end_fields [flock_simps]:
  "lchain (set_end s i e) c = lchain s c" "frlock (set_end s i e) = frlock s" "frfid (set_end s i e) = frfid s"
  "fids (set_end s i e) = fids s" "flinotab (set_end s i e) = flinotab s" "sleeplcks (set_end s i e) = sleeplcks s"
  "reccnt (set_end s i e) = reccnt s" "filcnt (set_end s i e) = filcnt s"
  "length (flox (set_end s i e)) = length (flox s)" "lvalid (set_end s i e) c = lvalid s c"
  by (simp_all add: set_end_def lchain_def lvalid_def split: lchain.split)

lemma set_end_fk [flock_simps]:
  "i < length (flox s) \<Longrightarrow> fk (set_end s i e) = (fk s)(i := (fk s i)\<lparr>l_end := e\<rparr>)"
  by (simp add: set_end_def fk_def fun_eq_iff)

lemma set_end_flox [flock_simps]: "j \<noteq> i \<Longrightarrow> flox (set_end s i e) ! j = flox s ! j"
  by (simp add: set_end_def)

text \<open>The frame of a chain: nothing outside it and the free list moves.\<close>

definition same_but :: "lchain \<Rightarrow> flcks \<Rightarrow> flcks \<Rightarrow> bool" where
  "same_but c s t =
     (frfid t = frfid s \<and> fids t = fids s \<and> filcnt t = filcnt s
      \<and> length (flox t) = length (flox s)
      \<and> (case c of
           FileChain i \<Rightarrow> sleeplcks t = sleeplcks s
             \<and> flinotab t = (flinotab s)[i := (flinotab s ! i)\<lparr>fl_flck := lchain t c\<rparr>]
         | SleepChain \<Rightarrow> flinotab t = flinotab s))"

lemma same_but_refl: "same_but c s s"
  by (cases c) (simp_all add: same_but_def lchain_def)

lemma same_but_trans: "\<lbrakk>same_but c s t; same_but c t r\<rbrakk> \<Longrightarrow> same_but c s r"
  by (cases c; cases "case c of FileChain i \<Rightarrow> i < length (flinotab s) | SleepChain \<Rightarrow> True")
     (auto simp: same_but_def list_update_beyond linorder_not_less)

lemma same_but_lvalid: "same_but c s t \<Longrightarrow> lvalid t d = lvalid s d"
  by (cases c; cases d) (auto simp: same_but_def lvalid_def)

lemma same_but_WAKEUP: "same_but c s (WAKEUP s i)"
  by (cases c) (simp_all add: same_but_def flock_simps, simp add: lchain_def)

lemma same_but_set_lchain: "same_but c s (set_lchain s c l)"
  by (cases c; cases "case c of FileChain i \<Rightarrow> i < length (flinotab s) | SleepChain \<Rightarrow> True")
     (simp_all add: same_but_def flock_simps set_lchain_def lchain_def list_update_beyond)

lemma same_but_delflck: "same_but c s (delflck s c i)"
proof -
  let ?t = "WAKEUP (set_lchain s c (remove1 i (lchain s c))) i"
  have "same_but c s ?t" by (rule same_but_trans[OF same_but_set_lchain same_but_WAKEUP])
  moreover have "same_but c ?t (delflck s c i)"
    by (cases c) (simp_all add: same_but_def delflck_def Let_def lchain_def)
  ultimately show ?thesis by (rule same_but_trans)
qed

lemma same_but_set_end: "same_but c s (set_end s i e)"
  by (cases c) (simp_all add: same_but_def flock_simps, simp add: lchain_def)

lemma insflck_Some:
  assumes "insflck pid s c ld after = (Some new, t)"
  obtains fr where "frlock s = new # fr" "frlock t = fr"
    "t = set_lchain (s\<lparr>frlock := fr, reccnt := reccnt s + 1, rectot := rectot s + 1,
            flox := (flox s)[new := \<lparr>fk_set = ld\<lparr>l_pid := pid\<rparr>, fk_stat = 0\<rparr>]\<rparr>) c
          (case after of None \<Rightarrow> new # lchain s c | Some f \<Rightarrow> insert_after new f (lchain s c))"
proof (cases "frlock s")
  case Nil
  with assms show ?thesis by (simp add: insflck_def)
next
  case (Cons n fr)
  with assms have "n = new"
    and t: "t = set_lchain (s\<lparr>frlock := fr, reccnt := reccnt s + 1, rectot := rectot s + 1,
            flox := (flox s)[n := \<lparr>fk_set = ld\<lparr>l_pid := pid\<rparr>, fk_stat = 0\<rparr>]\<rparr>) c
          (case after of None \<Rightarrow> n # lchain s c | Some f \<Rightarrow> insert_after n f (lchain s c))"
    by (cases after; simp add: insflck_def Let_def flock_simps)+
  from t[unfolded \<open>n = new\<close>] show ?thesis
    using Cons \<open>n = new\<close> by (intro that[of fr]) (simp_all add: flock_simps)
qed

lemma insflck_None: "insflck pid s c ld after = (None, t) \<Longrightarrow> t = s \<and> frlock s = []"
  by (auto simp: insflck_def Let_def split: list.splits)

lemma set_insert_after: "set (insert_after n f l) = (if f \<in> set l then insert n (set l) else set l)"
  by (induction l) auto

lemma mset_insert_after: "f \<in> set l \<Longrightarrow> mset (insert_after n f l) = add_mset n (mset l)"
  by (induction l) auto

lemma same_but_insflck: "insflck pid s c ld after = (r, t) \<Longrightarrow> same_but c s t"
proof (cases r)
  case None
  then show "insflck pid s c ld after = (r, t) \<Longrightarrow> ?thesis"
    by (auto dest: insflck_None simp: same_but_refl)
next
  case (Some new)
  assume "insflck pid s c ld after = (r, t)"
  then obtain fr where t: "t = set_lchain (s\<lparr>frlock := fr, reccnt := reccnt s + 1, rectot := rectot s + 1,
            flox := (flox s)[new := \<lparr>fk_set = ld\<lparr>l_pid := pid\<rparr>, fk_stat = 0\<rparr>]\<rparr>) c
          (case after of None \<Rightarrow> new # lchain s c | Some f \<Rightarrow> insert_after new f (lchain s c))"
    using Some by (auto elim: insflck_Some)
  let ?u = "s\<lparr>frlock := fr, reccnt := reccnt s + 1, rectot := rectot s + 1,
            flox := (flox s)[new := \<lparr>fk_set = ld\<lparr>l_pid := pid\<rparr>, fk_stat = 0\<rparr>]\<rparr>"
  have "same_but c s ?u"
    by (cases c) (simp_all add: same_but_def lchain_def)
  then show ?thesis unfolding t by (rule same_but_trans[OF _ same_but_set_lchain])
qed

section \<open>A chain in order\<close>

definition lk_ok :: "flcks \<Rightarrow> lchain \<Rightarrow> bool" where
  "lk_ok s c = (lvalid s c \<and> distinct (lchain s c @ frlock s)
     \<and> (\<forall>j \<in> set (lchain s c) \<union> set (frlock s). j < length (flox s)))"

lemma insflck_effect:
  assumes "insflck pid s c ld after = (Some new, t)" "lk_ok s c" "\<And>f. after = Some f \<Longrightarrow> f \<in> set (lchain s c)"
  shows "new \<notin> set (lchain s c)" "frlock s = new # frlock t"
    "lchain t c = (case after of None \<Rightarrow> new # lchain s c | Some f \<Rightarrow> insert_after new f (lchain s c))"
    "set (lchain t c) = insert new (set (lchain s c))"
    "mset (lchain t c) = add_mset new (mset (lchain s c))"
    "fk t = (fk s)(new := ld\<lparr>l_pid := pid\<rparr>)"
    "\<And>j. j \<noteq> new \<Longrightarrow> flox t ! j = flox s ! j"
    "reccnt t = reccnt s + 1" "length (flox t) = length (flox s)" "lvalid t c"
proof -
  obtain fr where f: "frlock s = new # fr" "frlock t = fr"
    and t: "t = set_lchain (s\<lparr>frlock := fr, reccnt := reccnt s + 1, rectot := rectot s + 1,
            flox := (flox s)[new := \<lparr>fk_set = ld\<lparr>l_pid := pid\<rparr>, fk_stat = 0\<rparr>]\<rparr>) c
          (case after of None \<Rightarrow> new # lchain s c | Some f \<Rightarrow> insert_after new f (lchain s c))"
    using assms(1) by (rule insflck_Some)
  have v: "lvalid s c" and n: "new < length (flox s)" "new \<notin> set (lchain s c)"
    using assms(2) f by (auto simp: lk_ok_def)
  show "new \<notin> set (lchain s c)" "frlock s = new # frlock t" using n f by auto
  show l: "lchain t c = (case after of None \<Rightarrow> new # lchain s c | Some f \<Rightarrow> insert_after new f (lchain s c))"
    using v by (simp add: t flock_simps)
  show "set (lchain t c) = insert new (set (lchain s c))"
    using assms(3) by (auto simp: l set_insert_after split: option.splits)
  show "mset (lchain t c) = add_mset new (mset (lchain s c))"
    using assms(3) by (auto simp: l mset_insert_after split: option.splits)
  show "fk t = (fk s)(new := ld\<lparr>l_pid := pid\<rparr>)"
    using n by (simp add: t flock_simps) (simp add: fk_def fun_eq_iff)
  show "\<And>j. j \<noteq> new \<Longrightarrow> flox t ! j = flox s ! j" by (simp add: t flock_simps)
  show "reccnt t = reccnt s + 1" "length (flox t) = length (flox s)" by (simp_all add: t flock_simps)
  show "lvalid t c" using v by (simp add: t flock_simps)
qed

lemma lk_ok_delflck: "\<lbrakk>lk_ok s c; f \<in> set (lchain s c)\<rbrakk> \<Longrightarrow> lk_ok (delflck s c f) c"
  by (auto simp: lk_ok_def flock_simps distinct_remove1)

lemma set_delflck: "lk_ok s c \<Longrightarrow> set (lchain (delflck s c f) c) = set (lchain s c) - {f}"
  by (simp add: lk_ok_def flock_simps)

lemma mset_delflck:
  "\<lbrakk>lk_ok s c; f \<in> set (lchain s c)\<rbrakk> \<Longrightarrow> mset (lchain s c) = add_mset f (mset (lchain (delflck s c f) c))"
  by (simp add: lk_ok_def flock_simps)

lemma lk_ok_insflck:
  assumes "insflck pid s c ld after = (Some new, t)" "lk_ok s c" "\<And>f. after = Some f \<Longrightarrow> f \<in> set (lchain s c)"
  shows "lk_ok t c"
proof -
  note e = insflck_effect[OF assms]
  have "mset (lchain t c @ frlock t) = mset (lchain s c @ frlock s)"
    by (simp add: e(2,5))
  then have "distinct (lchain t c @ frlock t)"
    using assms(2) by (metis lk_ok_def mset_eq_imp_distinct_iff)
  then show ?thesis using assms(2) e by (auto simp: lk_ok_def)
qed

lemma lk_ok_cut: "\<lbrakk>lk_ok s c; f \<in> set (lchain s c)\<rbrakk> \<Longrightarrow> lk_ok (WAKEUP (set_end s f e) f) c"
  by (simp add: lk_ok_def flock_simps)

section \<open>Edits of a process's own records on a chain\<close>

inductive edits :: "int \<Rightarrow> lchain \<Rightarrow> flcks \<Rightarrow> flcks \<Rightarrow> bool" for pid c s where
  edits_refl: "edits pid c s s"
| edits_del: "\<lbrakk>edits pid c s t; f \<in> set (lchain t c); l_pid (fk t f) = pid\<rbrakk> \<Longrightarrow> edits pid c s (delflck t c f)"
| edits_ins: "\<lbrakk>edits pid c s t; insflck pid t c ld after = (Some new, r);
    \<And>f. after = Some f \<Longrightarrow> f \<in> set (lchain t c)\<rbrakk> \<Longrightarrow> edits pid c s r"
| edits_cut: "\<lbrakk>edits pid c s t; f \<in> set (lchain t c); l_pid (fk t f) = pid\<rbrakk>
    \<Longrightarrow> edits pid c s (WAKEUP (set_end t f e) f)"

lemma edits_trans: "\<lbrakk>edits pid c t r; edits pid c s t\<rbrakk> \<Longrightarrow> edits pid c s r"
  by (induction rule: edits.induct) (auto intro: edits.intros)

lemma edits_ok: "\<lbrakk>edits pid c s t; lk_ok s c\<rbrakk> \<Longrightarrow> lk_ok t c"
  by (induction rule: edits.induct) (auto intro: lk_ok_delflck lk_ok_insflck lk_ok_cut)

lemma edits_same_but: "edits pid c s t \<Longrightarrow> same_but c s t"
  by (induction rule: edits.induct)
    (blast intro: same_but_refl same_but_trans same_but_delflck same_but_insflck same_but_WAKEUP same_but_set_end)+

lemma edits_mset:
  "\<lbrakk>edits pid c s t; lk_ok s c\<rbrakk> \<Longrightarrow> mset (lchain t c) + mset (frlock t) = mset (lchain s c) + mset (frlock s)"
proof (induction rule: edits.induct)
  case (edits_del t f)
  then have "lk_ok t c" by (blast intro: edits_ok)
  note d = mset_delflck[OF this edits_del.hyps(2)]
  from edits_del.IH[OF edits_del.prems] show ?case by (simp add: d flock_simps)
next
  case (edits_ins t ld after new r)
  then have "lk_ok t c" by (blast intro: edits_ok)
  note e = insflck_effect[OF edits_ins.hyps(2) this edits_ins.hyps(3)]
  from e(5) edits_ins.IH[OF edits_ins.prems] show ?case by (simp add: e(2))
qed (simp_all add: flock_simps)

lemma edits_reccnt:
  "\<lbrakk>edits pid c s t; lk_ok s c\<rbrakk> \<Longrightarrow> reccnt t - int (length (lchain t c)) = reccnt s - int (length (lchain s c))"
proof (induction rule: edits.induct)
  case (edits_del t f)
  then have "lk_ok t c" by (blast intro: edits_ok)
  note d = mset_delflck[OF this edits_del.hyps(2)]
  have "length (lchain t c) = Suc (length (lchain (delflck t c f) c))" using arg_cong[OF d, of size] by simp
  with edits_del.IH[OF edits_del.prems] show ?case by (simp add: flock_simps)
next
  case (edits_ins t ld after new r)
  then have "lk_ok t c" by (blast intro: edits_ok)
  note e = insflck_effect[OF edits_ins.hyps(2) this edits_ins.hyps(3)]
  have "length (lchain r c) = Suc (length (lchain t c))" using arg_cong[OF e(5), of size] by simp
  with edits_ins.IH[OF edits_ins.prems] e(8) show ?case by simp
qed (simp_all add: flock_simps)

lemma edits_chain_set:
  "\<lbrakk>edits pid c s t; lk_ok s c\<rbrakk> \<Longrightarrow> set (lchain t c) \<union> set (frlock t) = set (lchain s c) \<union> set (frlock s)"
  using edits_mset[of pid c s t] by (metis set_mset_mset set_mset_union)

text \<open>Records elsewhere, and the records of other processes on the chain, stay as they are.\<close>

lemma edits_elsewhere:
  "\<lbrakk>edits pid c s t; lk_ok s c; j \<notin> set (lchain s c) \<union> set (frlock s)\<rbrakk> \<Longrightarrow> flox t ! j = flox s ! j"
proof (induction rule: edits.induct)
  case (edits_del t f)
  then have "j \<noteq> f" using edits_chain_set[of pid c s t] by auto
  with edits_del show ?case by (simp add: flock_simps)
next
  case (edits_ins t ld after new r)
  then have k: "lk_ok t c" by (blast intro: edits_ok)
  note e = insflck_effect[OF edits_ins.hyps(2) k edits_ins.hyps(3)]
  have "j \<noteq> new" using e(2) edits_chain_set[OF edits_ins.hyps(1) edits_ins.prems(1)] edits_ins.prems(2) by auto
  with edits_ins.IH edits_ins.prems e(7) show ?case by simp
next
  case (edits_cut t f e)
  then have "j \<noteq> f" using edits_chain_set[of pid c s t] by auto
  with edits_cut show ?case by (simp add: flock_simps)
qed simp

lemma edits_foreign:
  "\<lbrakk>edits pid c s t; lk_ok s c\<rbrakk>
   \<Longrightarrow> {(j, fk t j) |j. j \<in> set (lchain t c) \<and> l_pid (fk t j) \<noteq> pid}
     = {(j, fk s j) |j. j \<in> set (lchain s c) \<and> l_pid (fk s j) \<noteq> pid}"
proof (induction rule: edits.induct)
  case (edits_del t f)
  then have "lk_ok t c" by (blast intro: edits_ok)
  then have "{(j, fk (delflck t c f) j) |j. j \<in> set (lchain (delflck t c f) c) \<and> l_pid (fk (delflck t c f) j) \<noteq> pid}
      = {(j, fk t j) |j. j \<in> set (lchain t c) \<and> l_pid (fk t j) \<noteq> pid}"
    using edits_del.hyps(3) by (auto simp: set_delflck flock_simps)
  with edits_del show ?case by simp
next
  case (edits_ins t ld after new r)
  then have k: "lk_ok t c" by (blast intro: edits_ok)
  note e = insflck_effect[OF edits_ins.hyps(2) k edits_ins.hyps(3)]
  have "{(j, fk r j) |j. j \<in> set (lchain r c) \<and> l_pid (fk r j) \<noteq> pid}
      = {(j, fk t j) |j. j \<in> set (lchain t c) \<and> l_pid (fk t j) \<noteq> pid}"
    using e(1) by (auto simp: e(4,6))
  with edits_ins show ?case by simp
next
  case (edits_cut t f e)
  then have "lk_ok t c" by (blast intro: edits_ok)
  then have "f < length (flox t)" using edits_cut.hyps(2) by (simp add: lk_ok_def)
  then have "{(j, fk (WAKEUP (set_end t f e) f) j) |j. j \<in> set (lchain (WAKEUP (set_end t f e) f) c)
        \<and> l_pid (fk (WAKEUP (set_end t f e) f) j) \<noteq> pid}
      = {(j, fk t j) |j. j \<in> set (lchain t c) \<and> l_pid (fk t j) \<noteq> pid}"
    using edits_cut.hyps(3) by (auto simp: flock_simps)
  with edits_cut show ?case by simp
qed simp

end
