(* ===== verification/Flock_Spec.thy ===== *)
theory Flock_Spec
  imports Flock_Inv
begin

text \<open>
  What a chain of locks promises: the set \<open>locks\<close> of triples (process, byte, lock type). A set or
  clear request should replace exactly the caller's triples of its range (\<open>claim\<close>); the lemmas show
  that one round of the loop of \<open>flckadj\<close> keeps the promised outcome (\<open>adj_step_post\<close>), that the loop
  and the final insertion reach it, and what \<open>blocked\<close> has checked when it answers no.
\<close>

section \<open>The bytes locked\<close>

definition rng :: "flock \<Rightarrow> (int \<times> int \<times> int) set" where
  "rng F = {(l_pid F, b, l_type F) |b. l_start F \<le> b \<and> b < l_end F}"

definition locks :: "flcks \<Rightarrow> lchain \<Rightarrow> (int \<times> int \<times> int) set" where
  "locks s c = (\<Union>f \<in> set (lchain s c). rng (fk s f))"

definition claim :: "int \<Rightarrow> flock \<Rightarrow> (int \<times> int \<times> int) set \<Rightarrow> (int \<times> int \<times> int) set" where
  "claim pid ld L =
     {(p, b, t) \<in> L. \<not> (p = pid \<and> l_start ld \<le> b \<and> b < l_end ld)}
     \<union> (if l_type ld = F_UNLCK then {} else rng (ld\<lparr>l_pid := pid\<rparr>))"

lemma rng_iff [simp]: "(p, b, t) \<in> rng F \<longleftrightarrow> p = l_pid F \<and> t = l_type F \<and> l_start F \<le> b \<and> b < l_end F"
  by (auto simp: rng_def)

lemma claim_iff: "(p, b, t) \<in> claim pid ld L \<longleftrightarrow>
    (p, b, t) \<in> L \<and> \<not> (p = pid \<and> l_start ld \<le> b \<and> b < l_end ld)
    \<or> l_type ld \<noteq> F_UNLCK \<and> p = pid \<and> t = l_type ld \<and> l_start ld \<le> b \<and> b < l_end ld"
  by (auto simp: claim_def)

lemma triple_eqI: "(\<And>p b t. (p, b, t) \<in> A \<longleftrightarrow> (p, b, t) \<in> B) \<Longrightarrow> A = (B :: (int \<times> int \<times> int) set)"
  by auto

text \<open>Two records do not meet; the own records of a chain are proper, real locks and apart.\<close>

definition apart :: "flock \<Rightarrow> flock \<Rightarrow> bool" where
  "apart F G = (l_end F \<le> l_start G \<or> l_end G \<le> l_start F)"

lemma apart_sym: "apart F G = apart G F"
  by (auto simp: apart_def)

definition own_ok :: "int \<Rightarrow> flcks \<Rightarrow> lchain \<Rightarrow> bool" where
  "own_ok pid s c =
     (\<forall>f \<in> set (lchain s c). l_pid (fk s f) = pid \<longrightarrow>
        l_start (fk s f) < l_end (fk s f) \<and> l_type (fk s f) \<in> {F_RDLCK, F_WRLCK}
        \<and> (\<forall>g \<in> set (lchain s c). g \<noteq> f \<longrightarrow> l_pid (fk s g) = pid \<longrightarrow> apart (fk s f) (fk s g)))"

lemma own_okD:
  assumes "own_ok pid s c" "f \<in> set (lchain s c)" "l_pid (fk s f) = pid"
  shows "l_start (fk s f) < l_end (fk s f)" "l_type (fk s f) \<noteq> F_UNLCK"
    "\<And>g. \<lbrakk>g \<in> set (lchain s c); g \<noteq> f; l_pid (fk s g) = pid\<rbrakk> \<Longrightarrow> apart (fk s f) (fk s g)"
    "l_type (fk s f) \<in> {F_RDLCK, F_WRLCK}"
  using assms by (auto simp: own_ok_def flock_consts)

text \<open>Own records stay apart when each is a piece of an old one and pieces of one record are apart.\<close>

lemma own_ok_pieces:
  assumes "own_ok pid s c"
    "\<And>j. \<lbrakk>j \<in> set (lchain t c); l_pid (fk t j) = pid\<rbrakk> \<Longrightarrow>
       q j \<in> set (lchain s c) \<and> l_pid (fk s (q j)) = pid \<and> l_start (fk s (q j)) \<le> l_start (fk t j)
       \<and> l_end (fk t j) \<le> l_end (fk s (q j)) \<and> l_type (fk t j) = l_type (fk s (q j))
       \<and> l_start (fk t j) < l_end (fk t j)"
    "\<And>j k. \<lbrakk>j \<in> set (lchain t c); k \<in> set (lchain t c); j \<noteq> k; q j = q k\<rbrakk> \<Longrightarrow> apart (fk t j) (fk t k)"
  shows "own_ok pid t c"
  unfolding own_ok_def
proof (intro ballI impI conjI)
  fix f g assume f: "f \<in> set (lchain t c)" "l_pid (fk t f) = pid"
  note f' = assms(2)[OF f]
  then have fs: "q f \<in> set (lchain s c)" "l_pid (fk s (q f)) = pid" by auto
  show "l_start (fk t f) < l_end (fk t f)" "l_type (fk t f) \<in> {F_RDLCK, F_WRLCK}"
    using f' own_okD(4)[OF assms(1) fs] by auto
  assume g: "g \<in> set (lchain t c)" "g \<noteq> f" "l_pid (fk t g) = pid"
  note g' = assms(2)[OF g(1,3)]
  show "apart (fk t f) (fk t g)"
  proof (cases "q g = q f")
    case True
    with assms(3) f g show ?thesis by metis
  next
    case False
    then have "apart (fk s (q f)) (fk s (q g))" using g' by (intro own_okD(3)[OF assms(1) fs]) auto
    then show ?thesis using f' g' by (auto simp: apart_def)
  qed
qed

lemma own_ok_shrink:
  assumes "own_ok pid s c" "set (lchain t c) \<subseteq> set (lchain s c)"
    "\<And>j. \<lbrakk>j \<in> set (lchain t c); l_pid (fk t j) = pid\<rbrakk> \<Longrightarrow>
       l_pid (fk s j) = pid \<and> l_start (fk s j) \<le> l_start (fk t j) \<and> l_end (fk t j) \<le> l_end (fk s j)
       \<and> l_type (fk t j) = l_type (fk s j) \<and> l_start (fk t j) < l_end (fk t j)"
  shows "own_ok pid t c"
  using assms by (intro own_ok_pieces[where q = "\<lambda>j. j", OF assms(1)]) auto

definition others :: "flcks \<Rightarrow> lchain \<Rightarrow> nat \<Rightarrow> (int \<times> int \<times> int) set" where
  "others s c f = (\<Union>g \<in> set (lchain s c) - {f}. rng (fk s g))"

lemma locks_split: "f \<in> set (lchain s c) \<Longrightarrow> locks s c = others s c f \<union> rng (fk s f)"
  by (auto simp: locks_def others_def)

lemma others_off:
  assumes "own_ok pid s c" "f \<in> set (lchain s c)" "l_pid (fk s f) = pid" "(pid, b, t) \<in> others s c f"
  shows "\<not> (l_start (fk s f) \<le> b \<and> b < l_end (fk s f))"
proof -
  from assms(4) obtain g where "g \<in> set (lchain s c)" "g \<noteq> f" "(pid, b, t) \<in> rng (fk s g)"
    by (auto simp: others_def)
  with own_okD(3)[OF assms(1-3)] show ?thesis by (fastforce simp: apart_def)
qed

section \<open>Claims and single records\<close>

text \<open>
  The four ways the loop treats an own record \<open>F\<close> beside the other locks \<open>O\<close>, seen from the outcome
  promised.
\<close>

lemma claim_drop:
  assumes "l_start ld \<le> l_start F" "l_end F \<le> l_end ld" "l_pid F = pid"
  shows "claim pid ld (L \<union> rng F) = claim pid ld L"
  using assms by (intro triple_eqI) (auto simp: claim_iff)

lemma claim_inside:
  assumes "l_start F \<le> l_start ld" "l_end ld \<le> l_end F" "l_pid F = pid" "l_type ld = l_type F"
    "l_type F \<noteq> F_UNLCK" "\<And>b t. (pid, b, t) \<in> L \<Longrightarrow> \<not> (l_start F \<le> b \<and> b < l_end F)"
  shows "claim pid ld (L \<union> rng F) = L \<union> rng F"
  using assms by (intro triple_eqI) (fastforce simp: claim_iff)

lemma claim_up:
  assumes "l_start F \<le> l_end ld" "l_end ld \<le> l_end F" "l_start ld \<le> l_start F" "l_pid F = pid"
    "l_type ld = l_type F" "l_type F \<noteq> F_UNLCK" "\<And>b t. (pid, b, t) \<in> L \<Longrightarrow> \<not> (l_start F \<le> b \<and> b < l_end F)"
  shows "claim pid (ld\<lparr>l_end := l_end F\<rparr>) L = claim pid ld (L \<union> rng F)"
  using assms by (intro triple_eqI) (fastforce simp: claim_iff)

lemma claim_down:
  assumes "l_start F \<le> l_start ld" "l_start ld \<le> l_end F" "l_end F \<le> l_end ld" "l_pid F = pid"
    "l_type ld = l_type F" "l_type F \<noteq> F_UNLCK" "\<And>b t. (pid, b, t) \<in> L \<Longrightarrow> \<not> (l_start F \<le> b \<and> b < l_end F)"
  shows "claim pid (ld\<lparr>l_start := l_start F\<rparr>) L = claim pid ld (L \<union> rng F)"
  using assms by (intro triple_eqI) (fastforce simp: claim_iff)

lemma claim_cut:
  assumes "l_start F \<le> l_start ld" "l_start ld \<le> l_end F" "l_end F \<le> l_end ld" "l_pid F = pid"
  shows "claim pid ld (L \<union> rng (F\<lparr>l_end := l_start ld\<rparr>)) = claim pid ld (L \<union> rng F)"
  using assms by (intro triple_eqI) (auto simp: claim_iff)

lemma claim_tail:
  assumes "l_start ld \<le> l_start F" "l_start F \<le> l_end ld" "l_end ld \<le> l_end F" "l_pid F = pid"
  shows "claim pid ld (L \<union> rng (F\<lparr>l_start := l_end ld\<rparr>)) = claim pid ld (L \<union> rng F)"
  using assms by (intro triple_eqI) (auto simp: claim_iff)

lemma claim_middle:
  assumes "l_start F \<le> l_start ld" "l_start ld \<le> l_end ld" "l_end ld \<le> l_end F" "l_pid F = pid"
  shows "claim pid ld (L \<union> rng (F\<lparr>l_end := l_start ld\<rparr>) \<union> rng (F\<lparr>l_start := l_end ld\<rparr>))
    = claim pid ld (L \<union> rng F)"
  using assms by (intro triple_eqI) (auto simp: claim_iff)

lemma claim_away:
  assumes "\<And>b t. (pid, b, t) \<in> L \<Longrightarrow> \<not> (l_start ld \<le> b \<and> b < l_end ld)"
  shows "claim pid ld L = L \<union> (if l_type ld = F_UNLCK then {} else rng (ld\<lparr>l_pid := pid\<rparr>))"
  using assms by (intro triple_eqI) (auto simp: claim_iff)

section \<open>The elementary operations\<close>

definition lk_good :: "int \<Rightarrow> flcks \<Rightarrow> lchain \<Rightarrow> bool" where
  "lk_good pid s c = (lk_ok s c \<and> own_ok pid s c)"

lemma del_good:
  assumes "lk_good pid s c" "f \<in> set (lchain s c)" "l_pid (fk s f) = pid"
  shows "lk_good pid (delflck s c f) c" "set (lchain (delflck s c f) c) = set (lchain s c) - {f}"
    "locks (delflck s c f) c = others s c f" "edits pid c s (delflck s c f)"
proof -
  have k: "lk_ok s c" "own_ok pid s c" using assms(1) by (simp_all add: lk_good_def)
  show c: "set (lchain (delflck s c f) c) = set (lchain s c) - {f}" using k by (simp add: set_delflck)
  show "lk_good pid (delflck s c f) c"
    unfolding lk_good_def using k own_okD(1)[OF k(2)]
    by (intro conjI own_ok_shrink[OF k(2)]) (auto simp: c lk_ok_delflck assms(2) flock_simps)
  show "locks (delflck s c f) c = others s c f" by (simp add: locks_def others_def c flock_simps)
  show "edits pid c s (delflck s c f)" using assms by (blast intro: edits.intros)
qed

lemma cut_good:
  assumes "lk_good pid s c" "f \<in> set (lchain s c)" "l_pid (fk s f) = pid"
    "l_start (fk s f) < e" "e \<le> l_end (fk s f)"
  defines "t \<equiv> WAKEUP (set_end s f e) f"
  shows "lk_good pid t c" "lchain t c = lchain s c"
    "fk t = (fk s)(f := (fk s f)\<lparr>l_end := e\<rparr>)"
    "locks t c = others s c f \<union> rng ((fk s f)\<lparr>l_end := e\<rparr>)" "edits pid c s t"
proof -
  have k: "lk_ok s c" "own_ok pid s c" "f < length (flox s)"
    using assms(1,2) by (auto simp: lk_good_def lk_ok_def)
  show l: "lchain t c = lchain s c" by (simp add: t_def flock_simps)
  show f: "fk t = (fk s)(f := (fk s f)\<lparr>l_end := e\<rparr>)" using k(3) by (simp add: t_def flock_simps)
  show "lk_good pid t c"
    unfolding lk_good_def using own_okD(1)[OF k(2)] assms(2-5)
    by (intro conjI own_ok_shrink[OF k(2)]) (auto simp: f l t_def lk_ok_cut k(1) flock_simps k(3) split: if_splits)
  show "locks t c = others s c f \<union> rng ((fk s f)\<lparr>l_end := e\<rparr>)"
  proof -
    have "(\<Union>g \<in> set (lchain s c) - {f}. rng (fk t g)) = others s c f"
      unfolding others_def by (rule SUP_cong) (simp_all add: f)
    moreover have "locks t c = (\<Union>g \<in> set (lchain s c) - {f}. rng (fk t g)) \<union> rng (fk t f)"
      using assms(2) by (auto simp: locks_def l simp del: rng_iff)
    ultimately show ?thesis by (simp add: f)
  qed
  show "edits pid c s t" using assms(2,3) unfolding t_def by (blast intro: edits.intros)
qed

lemma ins_good:
  assumes "insflck pid s c ld after = (Some new, t)" "lk_ok s c" "\<And>f. after = Some f \<Longrightarrow> f \<in> set (lchain s c)"
  shows "lk_ok t c" "new \<notin> set (lchain s c)" "set (lchain t c) = insert new (set (lchain s c))"
    "fk t = (fk s)(new := ld\<lparr>l_pid := pid\<rparr>)"
    "locks t c = locks s c \<union> rng (ld\<lparr>l_pid := pid\<rparr>)" "edits pid c s t"
proof -
  note e = insflck_effect[OF assms]
  show "lk_ok t c" by (rule lk_ok_insflck[OF assms])
  show "new \<notin> set (lchain s c)" "set (lchain t c) = insert new (set (lchain s c))"
    "fk t = (fk s)(new := ld\<lparr>l_pid := pid\<rparr>)" using e by blast+
  show "locks t c = locks s c \<union> rng (ld\<lparr>l_pid := pid\<rparr>)"
  proof -
    have "(\<Union>g \<in> set (lchain s c). rng (fk t g)) = locks s c"
      unfolding locks_def using e(1) by (intro SUP_cong) (auto simp: e(6) simp del: rng_iff)
    then show ?thesis by (simp add: locks_def e(4,6) Un_commute)
  qed
  show "edits pid c s t" by (rule edits_ins[OF edits_refl assms(1,3)])
qed

text \<open>The pieces of a record on both sides of a range taken out of it.\<close>

lemma last_below_in:
  "\<lbrakk>set fs \<subseteq> A; d \<in> A\<rbrakk> \<Longrightarrow> \<exists>g \<in> A. last_below s lim fs (Some d) = Some g"
  by (induction fs arbitrary: d) auto

lemma set_from_rec: "set (from_rec l f) \<subseteq> set l"
  by (induction l) auto

lemma from_rec_split: "f \<in> set l \<Longrightarrow> \<exists>pre post. l = pre @ f # post \<and> f \<notin> set pre \<and> from_rec l f = f # post"
proof (induction l)
  case (Cons a l)
  show ?case
  proof (cases "a = f")
    case True
    then show ?thesis by (intro exI[of _ "[]"] exI[of _ l]) simp
  next
    case False
    with Cons obtain pre post where "l = pre @ f # post" "f \<notin> set pre" "from_rec l f = f # post" by auto
    with False show ?thesis by (intro exI[of _ "a # pre"] exI[of _ post]) simp
  qed
qed simp

lemma tail_pieceD:
  assumes "tail_piece pid s c f ld = Some s1" "lk_ok s c" "f \<in> set (lchain s c)" "l_pid (fk s f) = pid"
  obtains n where "lk_ok s1 c" "n \<notin> set (lchain s c)" "set (lchain s1 c) = insert n (set (lchain s c))"
    "fk s1 = (fk s)(n := (fk s f)\<lparr>l_start := l_end ld\<rparr>)" "edits pid c s s1"
proof -
  let ?td = "(fk s f)\<lparr>l_start := l_end ld\<rparr>"
  let ?a = "last_below s (l_start ld) (from_rec (lchain s c) f) (Some f)"
  obtain n where i: "insflck pid s c ?td ?a = (Some n, s1)"
    using assms(1) by (auto simp: tail_piece_def Let_def split: prod.splits option.splits)
  have a: "g \<in> set (lchain s c)" if "?a = Some g" for g
    using that last_below_in[OF set_from_rec assms(3)] by (metis option.inject)
  note g = ins_good[OF i assms(2) a]
  have "?td\<lparr>l_pid := pid\<rparr> = ?td" using assms(4) by simp
  with g show thesis by (intro that[of n]) simp_all
qed

lemma tail_del_good:
  assumes tp: "tail_piece pid s c f ld = Some s1" and g: "lk_good pid s c" "f \<in> set (lchain s c)" "l_pid (fk s f) = pid"
    and e: "l_start (fk s f) \<le> l_end ld" "l_end ld < l_end (fk s f)"
  defines "t \<equiv> delflck s1 c f"
  obtains n where "lk_good pid t c" "set (lchain t c) = insert n (set (lchain s c) - {f})" "n \<notin> set (lchain s c)"
    "fk t = (fk s)(n := (fk s f)\<lparr>l_start := l_end ld\<rparr>)"
    "locks t c = others s c f \<union> rng ((fk s f)\<lparr>l_start := l_end ld\<rparr>)" "edits pid c s t"
proof -
  have k: "lk_ok s c" "own_ok pid s c" using g(1) by (simp_all add: lk_good_def)
  obtain n where n: "lk_ok s1 c" "n \<notin> set (lchain s c)" "set (lchain s1 c) = insert n (set (lchain s c))"
    "fk s1 = (fk s)(n := (fk s f)\<lparr>l_start := l_end ld\<rparr>)" "edits pid c s s1"
    using tp k(1) g(2,3) by (rule tail_pieceD)
  have nf: "n \<noteq> f" using n(2) g(2) by auto
  have f1: "f \<in> set (lchain s1 c)" using g(2) n(3) by auto
  have ft: "fk t = (fk s)(n := (fk s f)\<lparr>l_start := l_end ld\<rparr>)" by (simp add: t_def flock_simps n(4))
  have ct: "set (lchain t c) = insert n (set (lchain s c) - {f})"
    using nf by (auto simp: t_def set_delflck[OF n(1)] n(3))
  have "own_ok pid t c"
    using own_okD(1)[OF k(2)] g e nf
    by (intro own_ok_pieces[where q = "\<lambda>j. if j = n then f else j", OF k(2)]) (auto simp: ft ct split: if_splits)
  moreover have "lk_ok t c" unfolding t_def by (rule lk_ok_delflck[OF n(1) f1])
  ultimately have 1: "lk_good pid t c" by (simp add: lk_good_def)
  have "(\<Union>g \<in> set (lchain s c) - {f}. rng (fk t g)) = others s c f"
    unfolding others_def using n(2) by (intro SUP_cong) (auto simp: ft simp del: rng_iff)
  then have 2: "locks t c = others s c f \<union> rng ((fk s f)\<lparr>l_start := l_end ld\<rparr>)"
    by (simp add: locks_def ct ft Un_commute)
  have 3: "edits pid c s t" unfolding t_def using n(5) f1 g(3) nf by (intro edits_del) (auto simp: n(4))
  show thesis by (rule that[OF 1 ct n(2) ft 2 3])
qed

lemma tail_cut_good:
  assumes tp: "tail_piece pid s c f ld = Some s1" and g: "lk_good pid s c" "f \<in> set (lchain s c)" "l_pid (fk s f) = pid"
    and e: "l_start (fk s f) < l_start ld" "l_start ld \<le> l_end ld" "l_end ld < l_end (fk s f)"
  defines "t \<equiv> WAKEUP (set_end s1 f (l_start ld)) f"
  obtains n where "lk_good pid t c" "set (lchain t c) = insert n (set (lchain s c))" "n \<notin> set (lchain s c)"
    "fk t = (fk s)(n := (fk s f)\<lparr>l_start := l_end ld\<rparr>, f := (fk s f)\<lparr>l_end := l_start ld\<rparr>)"
    "locks t c = others s c f \<union> rng ((fk s f)\<lparr>l_end := l_start ld\<rparr>) \<union> rng ((fk s f)\<lparr>l_start := l_end ld\<rparr>)"
    "edits pid c s t"
proof -
  have k: "lk_ok s c" "own_ok pid s c" using g(1) by (simp_all add: lk_good_def)
  obtain n where n: "lk_ok s1 c" "n \<notin> set (lchain s c)" "set (lchain s1 c) = insert n (set (lchain s c))"
    "fk s1 = (fk s)(n := (fk s f)\<lparr>l_start := l_end ld\<rparr>)" "edits pid c s s1"
    using tp k(1) g(2,3) by (rule tail_pieceD)
  have nf: "n \<noteq> f" using n(2) g(2) by auto
  have f1: "f \<in> set (lchain s1 c)" "f < length (flox s1)" using g(2) n(1,3) by (auto simp: lk_ok_def)
  have ft: "fk t = (fk s)(n := (fk s f)\<lparr>l_start := l_end ld\<rparr>, f := (fk s f)\<lparr>l_end := l_start ld\<rparr>)"
    using f1 nf by (simp add: t_def flock_simps n(4) fun_upd_twist)
  have ct: "set (lchain t c) = insert n (set (lchain s c))" by (simp add: t_def flock_simps n(3))
  have "own_ok pid t c"
    using own_okD(1)[OF k(2)] g e nf
    by (intro own_ok_pieces[where q = "\<lambda>j. if j = n then f else j", OF k(2)])
      (auto simp: ft ct apart_def split: if_splits)
  moreover have "lk_ok t c" unfolding t_def by (rule lk_ok_cut[OF n(1) f1(1)])
  ultimately have 1: "lk_good pid t c" by (simp add: lk_good_def)
  have "(\<Union>g \<in> set (lchain s c) - {f}. rng (fk t g)) = others s c f"
    unfolding others_def using n(2) by (intro SUP_cong) (auto simp: ft simp del: rng_iff)
  moreover have "locks t c = (\<Union>g \<in> set (lchain s c) - {f}. rng (fk t g)) \<union> rng (fk t f) \<union> rng (fk t n)"
    using g(2) by (auto simp: locks_def ct simp del: rng_iff)
  ultimately have 2: "locks t c = others s c f \<union> rng ((fk s f)\<lparr>l_end := l_start ld\<rparr>) \<union> rng ((fk s f)\<lparr>l_start := l_end ld\<rparr>)"
    using nf by (simp add: ft)
  have 3: "edits pid c s t" unfolding t_def using n(5) f1 g(3) nf by (intro edits_cut) (auto simp: n(4))
  show thesis by (rule that[OF 1 ct n(2) ft 2 3])
qed

section \<open>One round of the loop\<close>

lemma regflckD:
  "regflck ld F = (x, y) \<Longrightarrow> l_start ld < l_end ld \<Longrightarrow> l_start F < l_end F \<Longrightarrow>
     (case x of S_BEFORE \<Rightarrow> l_start ld < l_start F | S_START \<Rightarrow> l_start ld = l_start F
      | S_MIDDLE \<Rightarrow> l_start F < l_start ld \<and> l_start ld < l_end F
      | S_END \<Rightarrow> l_start ld = l_end F | S_AFTER \<Rightarrow> l_end F < l_start ld)
     \<and> (case y of E_BEFORE \<Rightarrow> l_end ld < l_start F | E_START \<Rightarrow> l_end ld = l_start F
      | E_MIDDLE \<Rightarrow> l_start F < l_end ld \<and> l_end ld < l_end F
      | E_END \<Rightarrow> l_end ld = l_end F | E_AFTER \<Rightarrow> l_end F < l_end ld)"
  by (auto simp: regflck_def Let_def split: if_splits)

text \<open>The records an own region does not meet, and what a round of the loop must establish.\<close>

definition off :: "int \<Rightarrow> flcks \<Rightarrow> flock \<Rightarrow> nat set \<Rightarrow> bool" where
  "off pid s ld A = (\<forall>g \<in> A. l_pid (fk s g) = pid \<longrightarrow> apart (fk s g) ld)"

definition adj_inv :: "int \<Rightarrow> lchain \<Rightarrow> flcks \<Rightarrow> nat option \<Rightarrow> flock \<Rightarrow> nat set \<Rightarrow> flcks \<Rightarrow> nat option \<Rightarrow> flock \<Rightarrow> bool" where
  "adj_inv pid c s i ld R t i' ld' =
     (lk_good pid t c \<and> edits pid c s t \<and> claim pid ld' (locks t c) = claim pid ld (locks s c)
      \<and> off pid t ld' (set (lchain t c) - R) \<and> R \<subseteq> set (lchain t c) \<and> (\<forall>g \<in> R. fk t g = fk s g)
      \<and> (\<forall>g. i' = Some g \<longrightarrow> g \<in> set (lchain t c))
      \<and> l_start ld' < l_end ld' \<and> l_type ld' = l_type ld \<and> locks t c \<subseteq> locks s c)"

lemma adj_invI:
  assumes "lk_good pid t c" "edits pid c s t" "claim pid ld' (locks t c) = claim pid ld (locks s c)"
    "off pid t ld' (set (lchain t c) - R)" "R \<subseteq> set (lchain t c)" "\<forall>g \<in> R. fk t g = fk s g"
    "\<forall>g. i' = Some g \<longrightarrow> g \<in> set (lchain t c)" "l_start ld' < l_end ld'" "l_type ld' = l_type ld" "locks t c \<subseteq> locks s c"
  shows "adj_inv pid c s i ld R t i' ld'"
  using assms by (simp add: adj_inv_def)

fun adj_post :: "int \<Rightarrow> lchain \<Rightarrow> flcks \<Rightarrow> nat option \<Rightarrow> flock \<Rightarrow> nat set \<Rightarrow> adj \<Rightarrow> bool" where
  "adj_post pid c s i ld R (Next t i' ld') = adj_inv pid c s i ld R t i' ld'"
| "adj_post pid c s i ld R (Leave t i' ld') = adj_inv pid c s i ld {} t i' ld'"
| "adj_post pid c s i ld R (AdjRet t None) = (t = s \<and> claim pid ld (locks s c) = locks s c)"
| "adj_post pid c s i ld R (AdjRet t (Some e)) = (t = s \<and> e = ENOSPC \<and> frlock s = [])"

lemma prev_of_in: "prev_of l f = Some g \<Longrightarrow> distinct l \<Longrightarrow> g \<in> set l \<and> g \<noteq> f"
  by (induction l f rule: prev_of.induct) (auto split: if_splits)

text \<open>
  The situation at a round: \<open>f\<close> is an own record, \<open>R\<close> the records after it; the own records before
  \<open>f\<close> are off the region, and those after it start no earlier than \<open>f\<close>.
\<close>

definition adj_at :: "int \<Rightarrow> lchain \<Rightarrow> flcks \<Rightarrow> nat option \<Rightarrow> flock \<Rightarrow> nat \<Rightarrow> nat set \<Rightarrow> bool" where
  "adj_at pid c s i ld f R =
     (lk_good pid s c \<and> f \<in> set (lchain s c) \<and> f \<notin> R \<and> R \<subseteq> set (lchain s c)
      \<and> off pid s ld (set (lchain s c) - insert f R)
      \<and> (\<forall>g \<in> R. l_start (fk s f) \<le> l_start (fk s g))
      \<and> (\<forall>g. i = Some g \<longrightarrow> g \<in> set (lchain s c)) \<and> l_start ld < l_end ld)"

lemma adj_at_facts:
  assumes "adj_at pid c s i ld f R" "l_pid (fk s f) = pid"
  shows "lk_good pid s c" "lk_ok s c" "own_ok pid s c" "f \<in> set (lchain s c)" "f \<notin> R" "R \<subseteq> set (lchain s c)"
    "l_start (fk s f) < l_end (fk s f)" "l_type (fk s f) \<noteq> F_UNLCK" "l_start ld < l_end ld"
    "\<And>b t. (pid, b, t) \<in> others s c f \<Longrightarrow> \<not> (l_start (fk s f) \<le> b \<and> b < l_end (fk s f))"
    "locks s c = others s c f \<union> rng (fk s f)"
proof -
  show k: "lk_good pid s c" "f \<in> set (lchain s c)" "f \<notin> R" "R \<subseteq> set (lchain s c)" "l_start ld < l_end ld"
    using assms(1) by (simp_all add: adj_at_def)
  then show o: "lk_ok s c" "own_ok pid s c" by (simp_all add: lk_good_def)
  show "l_start (fk s f) < l_end (fk s f)" "l_type (fk s f) \<noteq> F_UNLCK" by (rule own_okD[OF o(2) k(2) assms(2)])+
  show "\<And>b t. (pid, b, t) \<in> others s c f \<Longrightarrow> \<not> (l_start (fk s f) \<le> b \<and> b < l_end (fk s f))"
    by (rule others_off[OF o(2) k(2) assms(2)])
  show "locks s c = others s c f \<union> rng (fk s f)" by (rule locks_split[OF k(2)])
qed

text \<open>The other own records of the chain: before \<open>f\<close> and off the region, or from the end of \<open>f\<close> on.\<close>

lemma adj_at_other:
  assumes "adj_at pid c s i ld f R" "l_pid (fk s f) = pid" "g \<in> set (lchain s c)" "g \<noteq> f" "l_pid (fk s g) = pid"
  shows "g \<in> R \<Longrightarrow> l_end (fk s f) \<le> l_start (fk s g) \<and> l_start (fk s g) < l_end (fk s g)"
    "g \<notin> R \<Longrightarrow> apart (fk s g) ld \<and> apart (fk s g) (fk s f) \<and> l_start (fk s g) < l_end (fk s g)"
proof -
  note a = adj_at_facts[OF assms(1,2)]
  have p: "apart (fk s f) (fk s g)" "l_start (fk s g) < l_end (fk s g)"
    using own_okD(3)[OF a(3,4) assms(2) assms(3-5)] own_okD(1)[OF a(3) assms(3,5)] by auto
  { assume "g \<in> R"
    then have "l_start (fk s f) \<le> l_start (fk s g)" using assms(1) by (simp add: adj_at_def)
    then show "l_end (fk s f) \<le> l_start (fk s g) \<and> l_start (fk s g) < l_end (fk s g)"
      using p a(7) by (auto simp: apart_def) }
  { assume "g \<notin> R"
    then have "apart (fk s g) ld" using assms by (auto simp: adj_at_def off_def)
    then show "apart (fk s g) ld \<and> apart (fk s g) (fk s f) \<and> l_start (fk s g) < l_end (fk s g)"
      using p by (simp add: apart_sym) }
qed

lemma back_from_in:
  "\<lbrakk>lk_ok s c; \<And>g. i = Some g \<Longrightarrow> g \<in> set (lchain s c); back_from s c i f = Some g\<rbrakk>
   \<Longrightarrow> g \<in> set (lchain s c) \<and> g \<noteq> f"
  by (auto simp: back_from_def lk_ok_def dest: prev_of_in split: if_splits)

lemma adj_at_i: "adj_at pid c s i ld f R \<Longrightarrow> i = Some g \<Longrightarrow> g \<in> set (lchain s c)"
  by (simp add: adj_at_def)

lemma adj_at_back:
  assumes "adj_at pid c s i ld f R" "l_pid (fk s f) = pid"
  shows "back_from s c i f = Some g \<Longrightarrow> g \<in> set (lchain s c) - {f}"
    "prev_of (lchain s c) f = Some g \<Longrightarrow> g \<in> set (lchain s c) - {f}"
  using back_from_in[OF adj_at_facts(2)[OF assms] adj_at_i[OF assms(1)]] adj_at_facts(2)[OF assms]
  by (auto simp: lk_ok_def dest: prev_of_in)

text \<open>The ways a round ends: the record goes, is cut, or is split.\<close>

lemma adj_del:
  assumes a: "adj_at pid c s i ld f R" "l_pid (fk s f) = pid" and "R' \<subseteq> R"
    and i: "\<And>g. i' = Some g \<Longrightarrow> g \<in> set (lchain s c) - {f}"
    and cl: "claim pid ld' (others s c f) = claim pid ld (locks s c)"
    and o: "\<And>g. \<lbrakk>g \<in> set (lchain s c); g \<noteq> f; l_pid (fk s g) = pid; g \<notin> R'\<rbrakk> \<Longrightarrow> apart (fk s g) ld'"
    and "l_start ld' < l_end ld'" "l_type ld' = l_type ld"
  shows "adj_inv pid c s i ld R' (delflck s c f) i' ld'"
proof -
  note f = adj_at_facts[OF a]
  note d = del_good[OF f(1,4) a(2)]
  show ?thesis
    using f(5,6) assms(3,7,8) i o by (intro adj_invI d) (auto simp: d(2,3) cl off_def flock_simps f(11))
qed

lemma adj_cut:
  assumes a: "adj_at pid c s i ld f R" "l_pid (fk s f) = pid"
    and r: "l_start (fk s f) < l_start ld" "l_start ld \<le> l_end (fk s f)" "l_end (fk s f) \<le> l_end ld"
  shows "adj_inv pid c s i ld R (WAKEUP (set_end s f (l_start ld)) f) (Some f) ld"
proof -
  note f = adj_at_facts[OF a]
  note d = cut_good[OF f(1,4) a(2) r(1,2)]
  have "claim pid ld (locks (WAKEUP (set_end s f (l_start ld)) f) c) = claim pid ld (locks s c)"
    using r by (simp add: d(4) f(11) claim_cut a(2))
  moreover have "locks (WAKEUP (set_end s f (l_start ld)) f) c \<subseteq> locks s c"
    unfolding d(4) f(11) using r by auto
  ultimately show ?thesis
    using f(4-6,9) r adj_at_other(2)[OF a]
    by (intro adj_invI d) (auto simp: d(2,3) off_def apart_def[of _ ld])
qed

lemma adj_tail_del:
  assumes a: "adj_at pid c s i ld f R" "l_pid (fk s f) = pid" and tp: "tail_piece pid s c f ld = Some s1"
    and r: "l_start ld \<le> l_start (fk s f)" "l_start (fk s f) < l_end ld" "l_end ld < l_end (fk s f)"
    and i: "\<And>g. i' = Some g \<Longrightarrow> g \<in> set (lchain s1 c) \<and> g \<noteq> f"
  shows "adj_inv pid c s i ld {} (delflck s1 c f) i' ld"
proof -
  note f = adj_at_facts[OF a]
  obtain n where d: "lk_good pid (delflck s1 c f) c"
    "set (lchain (delflck s1 c f) c) = insert n (set (lchain s c) - {f})" "n \<notin> set (lchain s c)"
    "fk (delflck s1 c f) = (fk s)(n := (fk s f)\<lparr>l_start := l_end ld\<rparr>)"
    "locks (delflck s1 c f) c = others s c f \<union> rng ((fk s f)\<lparr>l_start := l_end ld\<rparr>)"
    "edits pid c s (delflck s1 c f)"
    by (rule tail_del_good[OF tp f(1,4) a(2)]) (use r in auto)
  have cl: "claim pid ld (locks (delflck s1 c f) c) = claim pid ld (locks s c)"
    unfolding d(5) f(11) using r a(2) by (intro claim_tail) auto
  have o: "apart (fk s g) ld" if "g \<in> set (lchain s c)" "g \<noteq> f" "l_pid (fk s g) = pid" for g
    using adj_at_other[OF a that] r by (cases "g \<in> R") (auto simp: apart_def)
  have "lk_ok s1 c" by (rule tail_pieceD[OF tp f(2,4) a(2)])
  then have "set (lchain (delflck s1 c f) c) = set (lchain s1 c) - {f}" by (rule set_delflck)
  with i have i: "g \<in> set (lchain (delflck s1 c f) c)" if "i' = Some g" for g using that by auto
  have "locks (delflck s1 c f) c \<subseteq> locks s c"
    unfolding d(5) f(11) using r by auto
  then show ?thesis
    using f(9) o d(3) i by (intro adj_invI d(1,6) cl) (auto simp: d(2,4) off_def apart_def[of "_\<lparr>l_start := _\<rparr>"])
qed

lemma adj_tail_cut:
  assumes a: "adj_at pid c s i ld f R" "l_pid (fk s f) = pid" and tp: "tail_piece pid s c f ld = Some s1"
    and r: "l_start (fk s f) < l_start ld" "l_end ld < l_end (fk s f)"
  shows "adj_inv pid c s i ld {} (WAKEUP (set_end s1 f (l_start ld)) f) (Some f) ld"
proof -
  note f = adj_at_facts[OF a]
  let ?t = "WAKEUP (set_end s1 f (l_start ld)) f"
  obtain n where d: "lk_good pid ?t c"
    "set (lchain ?t c) = insert n (set (lchain s c))" "n \<notin> set (lchain s c)"
    "fk ?t = (fk s)(n := (fk s f)\<lparr>l_start := l_end ld\<rparr>, f := (fk s f)\<lparr>l_end := l_start ld\<rparr>)"
    "locks ?t c = others s c f \<union> rng ((fk s f)\<lparr>l_end := l_start ld\<rparr>) \<union> rng ((fk s f)\<lparr>l_start := l_end ld\<rparr>)"
    "edits pid c s ?t"
    by (rule tail_cut_good[OF tp f(1,4) a(2)]) (use r f(9) in auto)
  have cl: "claim pid ld (locks ?t c) = claim pid ld (locks s c)"
    unfolding d(5) f(11) using r f(9) a(2) by (intro claim_middle) auto
  have o: "apart (fk s g) ld" if "g \<in> set (lchain s c)" "g \<noteq> f" "l_pid (fk s g) = pid" for g
    using adj_at_other[OF a that] r f(9) by (cases "g \<in> R") (auto simp: apart_def)
  have "locks ?t c \<subseteq> locks s c"
    unfolding d(5) f(11) using r f(9) by auto
  then show ?thesis
    using f(4,9) o d(3)
    by (intro adj_invI d(1,6) cl) (auto simp: d(2,4) off_def apart_def[of "_\<lparr>l_start := _\<rparr>"] apart_def[of "_\<lparr>l_end := _\<rparr>"])
qed

lemma adj_stay:
  assumes a: "adj_at pid c s i ld f R" "l_pid (fk s f) = pid" and "R' \<subseteq> R" "apart (fk s f) ld"
    and "i' = i \<or> i' = Some f" and "\<And>g. \<lbrakk>g \<in> R; g \<notin> R'\<rbrakk> \<Longrightarrow> l_end ld \<le> l_end (fk s f)"
  shows "adj_inv pid c s i ld R' s i' ld"
proof -
  note f = adj_at_facts[OF a]
  have "off pid s ld (set (lchain s c) - R')"
    unfolding off_def
  proof (intro ballI impI)
    fix g assume g: "g \<in> set (lchain s c) - R'" "l_pid (fk s g) = pid"
    show "apart (fk s g) ld"
    proof (cases "g = f")
      case False
      then show ?thesis using adj_at_other[OF a _ False g(2)] g(1) assms(6)[of g]
        by (cases "g \<in> R") (auto simp: apart_def)
    qed (use assms(4) in simp)
  qed
  then show ?thesis
    using f(1,4,6,9) assms(3,5) adj_at_i[OF a(1)] by (intro adj_invI edits_refl) auto
qed

lemma tail_piece_None: "tail_piece pid s c f ld = None \<Longrightarrow> frlock s = []"
  by (auto simp: tail_piece_def Let_def split: prod.splits option.splits dest: insflck_None)

lemma tail_piece_back:
  assumes a: "adj_at pid c s i ld f R" "l_pid (fk s f) = pid" and tp: "tail_piece pid s c f ld = Some s1"
  shows "back_from s1 c i f = Some g \<Longrightarrow> g \<in> set (lchain s1 c) \<and> g \<noteq> f"
    "prev_of (lchain s1 c) f = Some g \<Longrightarrow> g \<in> set (lchain s1 c) \<and> g \<noteq> f"
proof -
  note f = adj_at_facts[OF a]
  obtain n where n: "lk_ok s1 c" "set (lchain s1 c) = insert n (set (lchain s c))"
    by (rule tail_pieceD[OF tp f(2,4) a(2)])
  show "back_from s1 c i f = Some g \<Longrightarrow> g \<in> set (lchain s1 c) \<and> g \<noteq> f"
    using back_from_in[OF n(1)] adj_at_i[OF a(1)] n(2) by blast
  show "prev_of (lchain s1 c) f = Some g \<Longrightarrow> g \<in> set (lchain s1 c) \<and> g \<noteq> f"
    using n(1) by (auto simp: lk_ok_def dest: prev_of_in)
qed

text \<open>
  The claims of the rounds that delete the record: dropped, joined from above or from below.
\<close>

lemma adj_drop:
  assumes a: "adj_at pid c s i ld f R" "l_pid (fk s f) = pid" and "R' \<subseteq> R"
    and r: "l_start ld \<le> l_start (fk s f)" "l_end (fk s f) \<le> l_end ld" "R' = R \<or> l_end (fk s f) = l_end ld"
    and i: "\<And>g. i' = Some g \<Longrightarrow> g \<in> set (lchain s c) - {f}"
  shows "adj_inv pid c s i ld R' (delflck s c f) i' ld"
proof (rule adj_del[OF a assms(3) i])
  note f = adj_at_facts[OF a]
  show "claim pid ld (others s c f) = claim pid ld (locks s c)"
    unfolding f(11) using r a(2) by (intro claim_drop[symmetric]) auto
  show "apart (fk s g) ld" if "g \<in> set (lchain s c)" "g \<noteq> f" "l_pid (fk s g) = pid" "g \<notin> R'" for g
    using adj_at_other[OF a that(1-3)] that(4) r by (cases "g \<in> R") (auto simp: apart_def)
qed (use adj_at_facts[OF a] in auto)

lemma adj_up:
  assumes a: "adj_at pid c s i ld f R" "l_pid (fk s f) = pid" and ty: "l_type ld = l_type (fk s f)"
    and r: "l_start ld \<le> l_start (fk s f)" "l_start (fk s f) \<le> l_end ld" "l_end ld \<le> l_end (fk s f)"
    and i: "\<And>g. i' = Some g \<Longrightarrow> g \<in> set (lchain s c) - {f}"
  shows "adj_inv pid c s i ld {} (delflck s c f) i' (ld\<lparr>l_end := l_end (fk s f)\<rparr>)"
proof (rule adj_del[OF a empty_subsetI i])
  note f = adj_at_facts[OF a]
  show "claim pid (ld\<lparr>l_end := l_end (fk s f)\<rparr>) (others s c f) = claim pid ld (locks s c)"
    unfolding f(11) by (rule claim_up[OF r(2,3,1) a(2) ty f(8)]) (rule f(10))
  show "apart (fk s g) (ld\<lparr>l_end := l_end (fk s f)\<rparr>)"
    if "g \<in> set (lchain s c)" "g \<noteq> f" "l_pid (fk s g) = pid" "g \<notin> {}" for g
    using adj_at_other[OF a that(1-3)] r f(7) by (cases "g \<in> R") (auto simp: apart_def)
  show "l_start (ld\<lparr>l_end := l_end (fk s f)\<rparr>) < l_end (ld\<lparr>l_end := l_end (fk s f)\<rparr>)" using r f(7) by simp
qed simp_all

lemma adj_down:
  assumes a: "adj_at pid c s i ld f R" "l_pid (fk s f) = pid" and ty: "l_type ld = l_type (fk s f)"
    and r: "l_start (fk s f) \<le> l_start ld" "l_start ld \<le> l_end (fk s f)" "l_end (fk s f) \<le> l_end ld"
    and i: "\<And>g. i' = Some g \<Longrightarrow> g \<in> set (lchain s c) - {f}"
  shows "adj_inv pid c s i ld R (delflck s c f) i' (ld\<lparr>l_start := l_start (fk s f)\<rparr>)"
proof (rule adj_del[OF a subset_refl i])
  note f = adj_at_facts[OF a]
  show "claim pid (ld\<lparr>l_start := l_start (fk s f)\<rparr>) (others s c f) = claim pid ld (locks s c)"
    unfolding f(11) by (rule claim_down[OF r a(2) ty f(8)]) (rule f(10))
  show "apart (fk s g) (ld\<lparr>l_start := l_start (fk s f)\<rparr>)"
    if "g \<in> set (lchain s c)" "g \<noteq> f" "l_pid (fk s g) = pid" "g \<notin> R" for g
    using adj_at_other(2)[OF a that] r f(7) by (auto simp: apart_def)
  show "l_start (ld\<lparr>l_start := l_start (fk s f)\<rparr>) < l_end (ld\<lparr>l_start := l_start (fk s f)\<rparr>)"
    using r f(9) by simp
qed simp_all

lemma adj_none:
  assumes a: "adj_at pid c s i ld f R" "l_pid (fk s f) = pid" and ty: "l_type ld = l_type (fk s f)"
    and r: "l_start (fk s f) \<le> l_start ld" "l_end ld \<le> l_end (fk s f)"
  shows "claim pid ld (locks s c) = locks s c"
proof -
  note f = adj_at_facts[OF a]
  show ?thesis unfolding f(11) by (rule claim_inside[OF r a(2) ty f(8)]) (rule f(10))
qed

theorem adj_step_post:
  assumes a: "adj_at pid c s i ld f R" and own: "l_pid (fk s f) = pid"
  shows "adj_post pid c s i ld R (adj_step pid s c f i ld)"
proof -
  note f = adj_at_facts[OF a own]
  obtain x y where xy: "regflck ld (fk s f) = (x, y)" by fastforce
  note D = regflckD[OF xy f(9,7)]
  note b = adj_at_back[OF a own]
  consider "x = S_AFTER" "y = E_AFTER" | "x = S_END" "y = E_AFTER" | "x = S_MIDDLE" "y = E_AFTER"
    | "x = S_MIDDLE" "y = E_END" | "x = S_MIDDLE" "y = E_MIDDLE" | "x = S_START" "y = E_MIDDLE"
    | "x = S_START" "y = E_END" | "x = S_START" "y = E_AFTER" | "x = S_BEFORE" "y = E_BEFORE"
    | "x = S_BEFORE" "y = E_START" | "x = S_BEFORE" "y = E_MIDDLE" | "x = S_BEFORE" "y = E_END"
    | "x = S_BEFORE" "y = E_AFTER"
    using D f(7,9) by (cases x; cases y) auto
  then show ?thesis
  proof cases
    case 1
    with D f(7) show ?thesis by (auto simp: adj_step_def Let_def xy apart_def intro!: adj_stay[OF a own])
  next
    case 2
    with D f(7,9) b adj_cut[OF a own] show ?thesis
      by (auto simp: adj_step_def Let_def xy intro!: adj_down[OF a own])
  next
    case 3
    with D f(7,9) b adj_none[OF a own] show ?thesis
      by (auto simp: adj_step_def Let_def xy intro!: adj_down[OF a own] adj_cut[OF a own])
  next
    case 4
    with D f(7,9) b adj_none[OF a own] show ?thesis
      by (auto simp: adj_step_def Let_def xy intro!: adj_cut[OF a own])
  next
    case 5
    with D f(7,9) b adj_none[OF a own] show ?thesis
      by (auto simp: adj_step_def Let_def xy tail_piece_None intro!: adj_tail_cut[OF a own]
          split: option.split)
  next
    case 6
    with D f(7,9) adj_none[OF a own] show ?thesis
      by (auto simp: adj_step_def Let_def xy tail_piece_None intro!: adj_tail_del[OF a own]
          dest: tail_piece_back[OF a own] split: option.split)
  next
    case 7
    with D f(7,9) b adj_none[OF a own] show ?thesis
      by (auto simp: adj_step_def Let_def xy intro!: adj_drop[OF a own])
  next
    case 8
    with D f(7,9) b adj_none[OF a own] show ?thesis by (auto simp: adj_step_def Let_def xy intro!: adj_drop[OF a own])
  next
    case 9
    with D f(7,9) b adj_none[OF a own] show ?thesis by (auto simp: adj_step_def Let_def xy apart_def intro!: adj_stay[OF a own])
  next
    case 10
    with D f(7,9) b adj_none[OF a own] show ?thesis
      by (auto simp: adj_step_def Let_def xy apart_def intro!: adj_stay[OF a own] adj_up[OF a own])
  next
    case 11
    with D f(7,9) b show ?thesis
      by (auto simp: adj_step_def Let_def xy tail_piece_None intro!: adj_up[OF a own] adj_tail_del[OF a own]
          dest: tail_piece_back[OF a own] split: option.split)
  next
    case 12
    with D f(7,9) b adj_none[OF a own] show ?thesis by (auto simp: adj_step_def Let_def xy intro!: adj_drop[OF a own])
  next
    case 13
    with D f(7,9) b adj_none[OF a own] show ?thesis by (auto simp: adj_step_def Let_def xy intro!: adj_drop[OF a own])
  qed
qed

section \<open>The loop and the insertion\<close>

fun loop_post :: "int \<Rightarrow> lchain \<Rightarrow> flcks \<Rightarrow> nat option \<Rightarrow> flock \<Rightarrow> adj \<Rightarrow> bool" where
  "loop_post pid c s i ld (Next t i' ld') = False"
| "loop_post pid c s i ld (Leave t i' ld') = adj_inv pid c s i ld {} t i' ld'"
| "loop_post pid c s i ld (AdjRet t None) =
     (lk_good pid t c \<and> edits pid c s t \<and> locks t c = claim pid ld (locks s c))"
| "loop_post pid c s i ld (AdjRet t (Some e)) =
     (lk_good pid t c \<and> edits pid c s t \<and> e = ENOSPC \<and> frlock t = [] \<and> locks t c \<subseteq> locks s c)"

lemma loop_post_trans:
  assumes "adj_inv pid c s i ld R t i' ld'" "loop_post pid c t i' ld' r"
  shows "loop_post pid c s i ld r"
proof (cases r)
  case (Leave u j m)
  with assms show ?thesis by (auto simp: adj_inv_def intro: edits_trans)
next
  case (AdjRet u e)
  with assms show ?thesis by (cases e) (auto simp: adj_inv_def intro: edits_trans)
qed (use assms in simp)

lemma off_skip: "\<lbrakk>off pid s ld (A - set (f # fs)); l_pid (fk s f) \<noteq> pid\<rbrakk> \<Longrightarrow> off pid s ld (A - set fs)"
  by (auto simp: off_def)

lemma adj_loop_post:
  "\<lbrakk>lk_good pid s c; distinct fs; set fs \<subseteq> set (lchain s c); sorted (map (\<lambda>g. l_start (fk s g)) fs);
    off pid s ld (set (lchain s c) - set fs); \<And>g. i = Some g \<Longrightarrow> g \<in> set (lchain s c);
    l_start ld < l_end ld\<rbrakk>
   \<Longrightarrow> loop_post pid c s i ld (adj_loop pid s c fs i ld)"
proof (induction fs arbitrary: s i ld)
  case Nil
  then show ?case by (simp add: adj_inv_def edits_refl)
next
  case (Cons f fs)
  show ?case
  proof (cases "l_pid (fk s f) = pid")
    case True
    have at: "adj_at pid c s i ld f (set fs)"
      using Cons.prems by (auto simp: adj_at_def)
    note p = adj_step_post[OF at True]
    show ?thesis
    proof (cases "adj_step pid s c f i ld")
      case (Next t i' ld')
      with p have n: "adj_inv pid c s i ld (set fs) t i' ld'" by simp
      have "map (\<lambda>g. l_start (fk t g)) fs = map (\<lambda>g. l_start (fk s g)) fs"
        using n by (simp add: adj_inv_def)
      then have "sorted (map (\<lambda>g. l_start (fk t g)) fs)" using Cons.prems(4) by (metis list.simps(9) sorted_simps(2))
      with n Cons.prems(2) have "loop_post pid c t i' ld' (adj_loop pid t c fs i' ld')"
        by (intro Cons.IH) (simp_all add: adj_inv_def)
      with n have "loop_post pid c s i ld (adj_loop pid t c fs i' ld')" by (rule loop_post_trans)
      with Next True show ?thesis by simp
    next
      case (Leave t i' ld')
      with p True show ?thesis by simp
    next
      case (AdjRet t e)
      with p True Cons.prems(1) show ?thesis by (cases e) (simp_all add: edits_refl)
    qed
  next
    case False
    show ?thesis
    proof (cases "l_start (fk s f) > l_end ld")
      case True
      have "l_end ld \<le> l_start (fk s g)" if "g \<in> set fs" for g
        using Cons.prems(4) that True by fastforce
      then have "off pid s ld (set (lchain s c))"
        unfolding off_def using Cons.prems(5) False by (metis DiffI apart_def off_def set_ConsD)
      with True False Cons.prems show ?thesis by (simp add: adj_inv_def edits_refl)
    next
      case next_rec: False
      have "off pid s ld (set (lchain s c) - set fs)"
        by (rule off_skip[OF Cons.prems(5) False])
      then have "loop_post pid c s i ld (adj_loop pid s c fs i ld)"
        using Cons.prems(2-4) by (intro Cons.IH Cons.prems(1,7) Cons.prems(6)) simp_all
      with False next_rec show ?thesis by simp
    qed
  qed
qed

lemma set_last_below: "last_below s lim fs d = Some g \<Longrightarrow> g \<in> set fs \<or> d = Some g"
  by (induction fs arbitrary: d) (auto split: if_splits)

text \<open>
  \<open>flckadj\<close> makes exactly the claim it is asked for, or fails for want of a free record.
\<close>

definition starts_at :: "int \<Rightarrow> flcks \<Rightarrow> lchain \<Rightarrow> flock \<Rightarrow> nat option \<Rightarrow> bool" where
  "starts_at pid s c ld i =
     (case i of None \<Rightarrow> True
      | Some f \<Rightarrow> f \<in> set (lchain s c)
          \<and> off pid s ld (set (lchain s c) - set (from_rec (lchain s c) f)))"

definition chain_sorted :: "flcks \<Rightarrow> lchain \<Rightarrow> bool" where
  "chain_sorted s c = sorted (map (\<lambda>g. l_start (fk s g)) (lchain s c))"

lemma adj_start:
  assumes "lk_good pid s c" "chain_sorted s c" "starts_at pid s c ld i"
  defines "fs \<equiv> case i of None \<Rightarrow> lchain s c | Some f \<Rightarrow> from_rec (lchain s c) f"
  shows "distinct fs" "set fs \<subseteq> set (lchain s c)" "sorted (map (\<lambda>g. l_start (fk s g)) fs)"
    "off pid s ld (set (lchain s c) - set fs)"
proof -
  have d: "distinct (lchain s c)" using assms(1) by (simp add: lk_good_def lk_ok_def)
  have "distinct fs \<and> set fs \<subseteq> set (lchain s c) \<and> sorted (map (\<lambda>g. l_start (fk s g)) fs)
      \<and> off pid s ld (set (lchain s c) - set fs)"
  proof (cases i)
    case None
    with assms d show ?thesis by (simp add: chain_sorted_def off_def)
  next
    case (Some f)
    with assms(3) have "f \<in> set (lchain s c)" by (simp add: starts_at_def)
    then obtain pre post where "lchain s c = pre @ f # post" "from_rec (lchain s c) f = f # post"
      using from_rec_split by metis
    with assms Some d show ?thesis by (auto simp: chain_sorted_def sorted_append starts_at_def)
  qed
  then show "distinct fs" "set fs \<subseteq> set (lchain s c)" "sorted (map (\<lambda>g. l_start (fk s g)) fs)"
    "off pid s ld (set (lchain s c) - set fs)" by simp_all
qed

theorem flckadj_claims:
  assumes "lk_good pid s c" "chain_sorted s c" "starts_at pid s c ld i" "l_start ld < l_end ld"
    "l_type ld \<in> {F_RDLCK, F_WRLCK, F_UNLCK}" "flckadj pid s c i ld = (r, t)"
  shows "edits pid c s t \<and> (if r = None then lk_good pid t c \<and> locks t c = claim pid ld (locks s c)
           else r = Some ENOSPC \<and> frlock t = [] \<and> lk_good pid t c \<and> locks t c \<subseteq> locks s c)"
proof -
  let ?fs = "case i of None \<Rightarrow> lchain s c | Some f \<Rightarrow> from_rec (lchain s c) f"
  have "loop_post pid c s i ld (adj_loop pid s c ?fs i ld)"
    using assms(3) by (intro adj_loop_post[OF assms(1) adj_start[OF assms(1-3)]] assms(4)) (simp add: starts_at_def)
  then consider (ret) t' e where "adj_loop pid s c ?fs i ld = AdjRet t' e" "loop_post pid c s i ld (AdjRet t' e)"
    | (leave) u j m where "adj_loop pid s c ?fs i ld = Leave u j m" "adj_inv pid c s i ld {} u j m"
    by (cases "adj_loop pid s c ?fs i ld") auto
  then show ?thesis
  proof cases
    case ret
    with assms(6) show ?thesis by (cases e) (auto simp: flckadj_def)
  next
    case leave
    then have a: "lk_good pid u c" "edits pid c s u" "claim pid m (locks u c) = claim pid ld (locks s c)"
      "off pid u m (set (lchain u c))" "l_start m < l_end m" "l_type m = l_type ld" "locks u c \<subseteq> locks s c"
      and j: "\<And>g. j = Some g \<Longrightarrow> g \<in> set (lchain u c)"
      by (auto simp: adj_inv_def)
    have k: "lk_ok u c" "own_ok pid u c" using a(1) by (simp_all add: lk_good_def)
    have "\<not> (l_start m \<le> b \<and> b < l_end m)" if "(pid, b, ty) \<in> locks u c" for b ty
      using that a(4) by (fastforce simp: locks_def off_def apart_def)
    then have cl: "claim pid ld (locks s c) = locks u c \<union> (if l_type m = F_UNLCK then {} else rng (m\<lparr>l_pid := pid\<rparr>))"
      using a(3) claim_away by metis
    show ?thesis
    proof (cases "l_type ld = F_UNLCK")
      case True
      with assms(6) leave a cl show ?thesis by (simp add: flckadj_def)
    next
      case False
      define i2 where "i2 = (case j of None \<Rightarrow> None
          | Some f \<Rightarrow> last_below u (l_start m) (from_rec (lchain u c) f) (Some f))"
      obtain w where ins: "insflck pid u c m i2 = (w, t)" "r = (if w = None then Some ENOSPC else None)"
        using assms(6) leave False by (auto simp: flckadj_def i2_def Let_def split: prod.splits option.splits)
      have i2: "g \<in> set (lchain u c)" if "i2 = Some g" for g
        using that j set_from_rec[of "lchain u c"] by (auto simp: i2_def split: option.splits dest!: set_last_below)
      show ?thesis
      proof (cases w)
        case None
        with ins a(1,2,7) show ?thesis by (auto dest: insflck_None)
      next
        case (Some n)
        note g = ins_good[OF ins(1)[unfolded Some] k(1) i2]
        have "own_ok pid t c"
          using k(2) a(4-6) False g(2) assms(5)
          by (auto simp: own_ok_def g(3,4) off_def apart_def)
        with g ins Some a False cl show ?thesis by (auto simp: lk_good_def intro: edits_trans)
      qed
    qed
  qed
qed

end
