(* ===== verification/Flock_Order.thy ===== *)
theory Flock_Order
  imports Flock_Spec
begin

text \<open>
  The order of a chain, and what rests on it. \<open>blocked\<close> stops at the first record that starts after
  the request, so it is complete only on a chain sorted by start. The lemmas show when \<open>flckadj\<close>
  keeps a chain sorted: always, unless an unlock cuts into an own read lock in whose removed part
  another process's lock starts (\<open>unsplit\<close>); then the piece behind the hole is put too early.
\<close>

section \<open>Sorted chains\<close>

lemma from_rec_after:
  assumes "sorted (map k l)" "distinct l" "f \<in> set l"
  obtains pre post where "l = pre @ f # post" "f \<notin> set pre" "f \<notin> set post" "from_rec l f = f # post"
    "\<forall>g \<in> set pre. k g \<le> k f" "\<forall>g \<in> set post. k f \<le> k g"
proof -
  obtain pre post where p: "l = pre @ f # post" "f \<notin> set pre" "from_rec l f = f # post"
    using from_rec_split[OF assms(3)] by blast
  with assms show thesis by (intro that[of pre post]) (auto simp: sorted_append)
qed

lemma last_below_split:
  "\<lbrakk>l = pre @ f # post; sorted (map (\<lambda>g. l_start (fk s g)) (f # post))\<rbrakk>
   \<Longrightarrow> \<exists>g pre' post'. last_below s lim post (Some f) = Some g \<and> l = pre' @ g # post'
        \<and> (g = f \<or> g \<in> set post \<and> l_start (fk s g) < lim) \<and> set post' \<subseteq> set post
        \<and> (\<forall>h \<in> set post'. lim \<le> l_start (fk s h))"
proof (induction post arbitrary: pre f)
  case Nil
  then show ?case by auto
next
  case (Cons h post)
  show ?case
  proof (cases "l_start (fk s h) < lim")
    case True
    have "\<exists>g pre' post'. last_below s lim post (Some h) = Some g \<and> l = pre' @ g # post'
        \<and> (g = h \<or> g \<in> set post \<and> l_start (fk s g) < lim) \<and> set post' \<subseteq> set post
        \<and> (\<forall>h \<in> set post'. lim \<le> l_start (fk s h))"
      using Cons.prems by (intro Cons.IH[of "pre @ [f]"]) simp_all
    with True show ?thesis by auto
  next
    case False
    with Cons.prems show ?thesis by (intro exI[of _ f] exI[of _ pre] exI[of _ "h # post"]) auto
  qed
qed

text \<open>The place searched from a record \<open>f\<close> of the chain on.\<close>

lemma place_found:
  assumes "lk_ok s c" "chain_sorted s c" "f \<in> set (lchain s c)"
  obtains g pre post where "last_below s lim (from_rec (lchain s c) f) (Some f) = Some g"
    "lchain s c = pre @ g # post" "g = f \<or> l_start (fk s g) < lim"
    "\<forall>h \<in> set post. lim \<le> l_start (fk s h) \<and> h \<in> set (tl (from_rec (lchain s c) f))"
proof -
  have d: "distinct (lchain s c)" using assms(1) by (simp add: lk_ok_def)
  obtain pre post where p: "lchain s c = pre @ f # post" "from_rec (lchain s c) f = f # post"
    "\<forall>g \<in> set post. l_start (fk s f) \<le> l_start (fk s g)"
    using assms(2) d assms(3) unfolding chain_sorted_def by (rule from_rec_after)
  have o: "sorted (map (\<lambda>g. l_start (fk s g)) (f # post))"
    using assms(2) by (simp add: chain_sorted_def p(1) sorted_append)
  show thesis
  proof (cases "l_start (fk s f) < lim")
    case True
    from last_below_split[OF p(1) o, of lim] obtain g pre' post' where
      g: "last_below s lim post (Some f) = Some g" "lchain s c = pre' @ g # post'"
         "g = f \<or> g \<in> set post \<and> l_start (fk s g) < lim" "set post' \<subseteq> set post"
         "\<forall>h \<in> set post'. lim \<le> l_start (fk s h)" by auto
    have "last_below s lim (from_rec (lchain s c) f) (Some f) = Some g" using g(1) True by (simp add: p(2))
    moreover have "\<forall>h \<in> set post'. lim \<le> l_start (fk s h) \<and> h \<in> set (tl (from_rec (lchain s c) f))"
      using g(4,5) by (auto simp: p(2))
    ultimately show thesis using g(2,3) that by blast
  next
    case False
    show thesis by (rule that[OF _ p(1)]) (use p(2,3) False in auto)
  qed
qed

lemma insert_after_split: "f \<notin> set pre \<Longrightarrow> insert_after n f (pre @ f # post) = pre @ f # n # post"
  by (induction pre) auto

lemma ins_sorted:
  assumes i: "insflck pid s c ld (Some g) = (Some n, t)" and k: "lk_ok s c" "chain_sorted s c"
    and l: "lchain s c = pre @ g # post" "l_start (fk s g) \<le> l_start ld" "\<forall>h \<in> set post. l_start ld \<le> l_start (fk s h)"
  shows "chain_sorted t c"
proof -
  have g: "\<And>f. Some g = Some f \<Longrightarrow> f \<in> set (lchain s c)" using l by auto
  note e = insflck_effect[OF i k(1)]
  have fk: "fk t = (fk s)(n := ld\<lparr>l_pid := pid\<rparr>)" by (rule e(6)) (rule g)
  have n: "n \<notin> set (lchain s c)" by (rule e(1)) (rule g)
  have d: "distinct (pre @ g # post)" using k(1) l(1) by (metis distinct_append lk_ok_def)
  then have "g \<notin> set pre" by simp
  then have c: "lchain t c = pre @ g # n # post" using e(3)[OF g] by (simp add: l insert_after_split)
  have "n \<notin> set pre" "n \<notin> set post" "n \<noteq> g" using n l by auto
  then have M: "map (\<lambda>h. l_start (fk t h)) (pre @ g # n # post)
      = map (\<lambda>h. l_start (fk s h)) pre @ l_start (fk s g) # l_start ld # map (\<lambda>h. l_start (fk s h)) post"
    by (auto simp: fk)
  have "sorted (map (\<lambda>h. l_start (fk s h)) (pre @ g # post))"
    using k(2) by (simp add: chain_sorted_def l(1))
  then show ?thesis
    unfolding chain_sorted_def c M using l(2,3) by (auto simp: sorted_append)
qed

lemma ins_head_sorted:
  assumes i: "insflck pid s c ld None = (Some n, t)" and k: "lk_ok s c" "chain_sorted s c"
    and l: "\<forall>h \<in> set (lchain s c). l_start ld \<le> l_start (fk s h)"
  shows "chain_sorted t c"
proof -
  note e = insflck_effect[OF i k(1)]
  have fk: "fk t = (fk s)(n := ld\<lparr>l_pid := pid\<rparr>)" by (rule e(6)) simp
  have n: "n \<notin> set (lchain s c)" by (rule e(1)) simp
  have c: "lchain t c = n # lchain s c" using e(3) by simp
  have M: "map (\<lambda>h. l_start (fk t h)) (n # lchain s c) = l_start ld # map (\<lambda>h. l_start (fk s h)) (lchain s c)"
    using n by (auto simp: fk)
  show ?thesis unfolding chain_sorted_def c M using k(2) l by (simp add: chain_sorted_def)
qed

lemma del_sorted: "\<lbrakk>lk_ok s c; chain_sorted s c\<rbrakk> \<Longrightarrow> chain_sorted (delflck s c f) c"
  by (simp add: chain_sorted_def lk_ok_def flock_simps sorted_map_remove1)

lemma cut_sorted: "\<lbrakk>lk_ok s c; f \<in> set (lchain s c); chain_sorted s c\<rbrakk> \<Longrightarrow> chain_sorted (WAKEUP (set_end s f e) f) c"
proof -
  assume a: "lk_ok s c" "f \<in> set (lchain s c)" "chain_sorted s c"
  then have "f < length (flox s)" by (simp add: lk_ok_def)
  then have "(\<lambda>g. l_start (fk (WAKEUP (set_end s f e) f) g)) = (\<lambda>g. l_start (fk s g))"
    by (auto simp: flock_simps fun_eq_iff)
  with a(3) show ?thesis by (simp add: chain_sorted_def flock_simps)
qed

text \<open>The piece behind a hole goes to its place when no later record starts inside the hole.\<close>

definition clear_after :: "flcks \<Rightarrow> lchain \<Rightarrow> nat \<Rightarrow> flock \<Rightarrow> bool" where
  "clear_after s c f ld =
     (\<forall>g \<in> set (tl (from_rec (lchain s c) f)). \<not> (l_start ld \<le> l_start (fk s g) \<and> l_start (fk s g) < l_end ld))"

lemma tail_sorted:
  assumes tp: "tail_piece pid s c f ld = Some s1" and k: "lk_ok s c" "chain_sorted s c" "f \<in> set (lchain s c)"
    and r: "l_start (fk s f) \<le> l_end ld" "l_start ld \<le> l_end ld" "clear_after s c f ld"
  shows "chain_sorted s1 c"
proof -
  let ?td = "(fk s f)\<lparr>l_start := l_end ld\<rparr>"
  obtain g pre post where g: "last_below s (l_start ld) (from_rec (lchain s c) f) (Some f) = Some g"
    "lchain s c = pre @ g # post" "g = f \<or> l_start (fk s g) < l_start ld"
    "\<forall>h \<in> set post. l_start ld \<le> l_start (fk s h) \<and> h \<in> set (tl (from_rec (lchain s c) f))"
    using k by (rule place_found)
  obtain n where "insflck pid s c ?td (Some g) = (Some n, s1)"
    using tp g(1) by (auto simp: tail_piece_def Let_def split: prod.splits option.splits)
  then show ?thesis
    using g(2) by (rule ins_sorted[OF _ k(1,2)]) (use g r in \<open>auto simp: clear_after_def\<close>)
qed

section \<open>The place of the new record\<close>

text \<open>
  What the loop knows of \<open>insrtp\<close> when it sets a lock: \<open>NULL\<close> means no record starts earlier,
  otherwise the record does not start later.
\<close>

definition ins_ok :: "flcks \<Rightarrow> lchain \<Rightarrow> nat option \<Rightarrow> flock \<Rightarrow> bool" where
  "ins_ok s c i ld =
     (l_type ld \<noteq> F_UNLCK \<longrightarrow>
       (case i of None \<Rightarrow> \<forall>g \<in> set (lchain s c). l_start ld \<le> l_start (fk s g)
        | Some f \<Rightarrow> l_start (fk s f) \<le> l_start ld))"

lemma prev_of_absent: "f \<notin> set (tl l) \<Longrightarrow> prev_of l f = None"
  by (induction l f rule: prev_of.induct) auto

lemma prev_of_split: "\<lbrakk>l = pre @ f # post; f \<notin> set pre; f \<notin> set post\<rbrakk> \<Longrightarrow> prev_of l f = (if pre = [] then None else Some (last pre))"
proof (induction pre arbitrary: l)
  case Nil
  then show ?case by (simp add: prev_of_absent)
next
  case (Cons a pre)
  then show ?case by (cases pre) auto
qed

lemma prev_of_sorted:
  assumes "lk_ok s c" "chain_sorted s c" "f \<in> set (lchain s c)"
  shows "prev_of (lchain s c) f = Some p \<Longrightarrow> l_start (fk s p) \<le> l_start (fk s f)"
    "prev_of (lchain s c) f = None \<Longrightarrow> \<forall>g \<in> set (lchain s c). l_start (fk s f) \<le> l_start (fk s g)"
proof -
  have d: "distinct (lchain s c)" using assms(1) by (simp add: lk_ok_def)
  obtain pre post where p: "lchain s c = pre @ f # post" "f \<notin> set pre" "f \<notin> set post"
    "\<forall>g \<in> set pre. l_start (fk s g) \<le> l_start (fk s f)" "\<forall>g \<in> set post. l_start (fk s f) \<le> l_start (fk s g)"
    using assms(2) d assms(3) unfolding chain_sorted_def by (rule from_rec_after)
  note q = prev_of_split[OF p(1-3)]
  show "prev_of (lchain s c) f = Some p \<Longrightarrow> l_start (fk s p) \<le> l_start (fk s f)"
    using p(4) by (auto simp: q split: if_splits)
  show "prev_of (lchain s c) f = None \<Longrightarrow> \<forall>g \<in> set (lchain s c). l_start (fk s f) \<le> l_start (fk s g)"
    unfolding q using p(5) by (auto simp: p(1) split: if_splits)
qed

lemma ins_ok_prev:
  assumes "lk_ok s c" "chain_sorted s c" "f \<in> set (lchain s c)" "l_start m = l_start (fk s f)"
  shows "ins_ok (delflck s c f) c (prev_of (lchain s c) f) m"
  using prev_of_sorted[OF assms(1-3)] assms(4)
  by (auto simp: ins_ok_def flock_simps set_delflck[OF assms(1)] split: option.split)

section \<open>The loop keeps the order\<close>

text \<open>
  \<open>unsplit\<close>: no other process's record starts in the removed part and behind the start of an own
  record of another type that the request cuts in two or whose head it removes.
\<close>

definition unsplit :: "int \<Rightarrow> flcks \<Rightarrow> lchain \<Rightarrow> flock \<Rightarrow> nat set \<Rightarrow> bool" where
  "unsplit pid s c ld A =
     (\<forall>f \<in> A. l_pid (fk s f) = pid \<longrightarrow> l_type (fk s f) \<noteq> l_type ld \<longrightarrow>
        l_start (fk s f) < l_end ld \<longrightarrow> l_end ld < l_end (fk s f) \<longrightarrow>
        (\<forall>g \<in> set (lchain s c). l_pid (fk s g) \<noteq> pid \<longrightarrow> l_start (fk s f) \<le> l_start (fk s g) \<longrightarrow>
           \<not> (l_start ld \<le> l_start (fk s g) \<and> l_start (fk s g) < l_end ld)))"

lemma clear_afterI:
  assumes k: "lk_good pid s c" "chain_sorted s c" and f: "f \<in> A" "f \<in> set (lchain s c)" "l_pid (fk s f) = pid"
    and u: "unsplit pid s c ld A"
    and r: "l_type (fk s f) \<noteq> l_type ld" "l_start (fk s f) < l_end ld" "l_end ld < l_end (fk s f)"
  shows "clear_after s c f ld"
  unfolding clear_after_def
proof
  fix g assume g: "g \<in> set (tl (from_rec (lchain s c) f))"
  have o: "distinct (lchain s c)" "own_ok pid s c" using k(1) by (simp_all add: lk_good_def lk_ok_def)
  obtain pre post where p: "lchain s c = pre @ f # post" "f \<notin> set pre" "f \<notin> set post"
    "from_rec (lchain s c) f = f # post" "\<forall>g \<in> set post. l_start (fk s f) \<le> l_start (fk s g)"
    using k(2) o(1) f(2) unfolding chain_sorted_def by (rule from_rec_after)
  have m: "g \<in> set post" using g by (simp add: p(4))
  then have gc: "g \<in> set (lchain s c)" "g \<noteq> f" "l_start (fk s f) \<le> l_start (fk s g)"
    using p by auto
  show "\<not> (l_start ld \<le> l_start (fk s g) \<and> l_start (fk s g) < l_end ld)"
  proof (cases "l_pid (fk s g) = pid")
    case True
    have "apart (fk s f) (fk s g)" by (rule own_okD(3)[OF o(2) f(2,3) gc(1,2) True])
    moreover have "l_start (fk s g) < l_end (fk s g)" by (rule own_okD(1)[OF o(2) gc(1) True])
    ultimately show ?thesis using gc(3) r by (auto simp: apart_def)
  next
    case False
    then show ?thesis using u f(1,3) r gc unfolding unsplit_def by blast
  qed
qed

fun order_post :: "lchain \<Rightarrow> adj \<Rightarrow> bool" where
  "order_post c (Next t i' ld') = (chain_sorted t c \<and> ins_ok t c i' ld')"
| "order_post c (Leave t i' ld') = (chain_sorted t c \<and> ins_ok t c i' ld')"
| "order_post c (AdjRet t r) = chain_sorted t c"

lemma ins_ok_shrink:
  "\<lbrakk>ins_ok s c i ld; set (lchain t c) \<subseteq> set (lchain s c); \<And>g. l_start (fk t g) = l_start (fk s g);
    l_start m = l_start ld; l_type m = l_type ld\<rbrakk> \<Longrightarrow> ins_ok t c i m"
  by (auto simp: ins_ok_def split: option.splits)

lemma step_order:
  assumes a: "adj_at pid c s i ld f R" and own: "l_pid (fk s f) = pid"
    and k: "chain_sorted s c" "ins_ok s c i ld"
    and cl: "\<lbrakk>l_type (fk s f) \<noteq> l_type ld; l_start (fk s f) < l_end ld; l_end ld < l_end (fk s f)\<rbrakk> \<Longrightarrow> clear_after s c f ld"
  shows "order_post c (adj_step pid s c f i ld)"
proof -
  note f = adj_at_facts[OF a own]
  obtain x y where xy: "regflck ld (fk s f) = (x, y)" by fastforce
  note D = regflckD[OF xy f(9,7)]
  note dl = del_sorted[OF f(2) k(1), of f]
  have ct: "chain_sorted (WAKEUP (set_end s f (l_start ld)) f) c" by (rule cut_sorted[OF f(2,4) k(1)])
  have pv: "ins_ok (delflck s c f) c (prev_of (lchain s c) f) m" if "l_start m = l_start (fk s f)" for m
    by (rule ins_ok_prev[OF f(2) k(1) f(4) that])
  have self: "ins_ok t c (Some f) ld" if "l_start (fk t f) \<le> l_start ld" for t
    using that by (simp add: ins_ok_def)
  have bk: "ins_ok (delflck u c f) c (back_from u c i f) m"
    if "lk_ok u c" "ins_ok u c i ld" "l_start ld < l_start (fk u f)" "l_start m = l_start ld" "l_type m = l_type ld" for u m
  proof (cases "l_type ld = F_UNLCK")
    case True
    with that show ?thesis by (simp add: ins_ok_def)
  next
    case False
    with that(2,3) have "back_from u c i f = i" by (auto simp: back_from_def ins_ok_def split: option.splits)
    then show ?thesis using that(4,5) ins_ok_shrink[OF that(2)] by (simp add: flock_simps set_delflck[OF that(1)] Diff_subset)
  qed
  have cutf: "l_start (fk (WAKEUP (set_end u f e) f) f) = l_start (fk u f)" if "f < length (flox u)" for u e
    using that by (simp add: flock_simps)
  have fl: "f < length (flox s)" using f(2,4) by (simp add: lk_ok_def)
  have tl: "chain_sorted s1 c \<and> lk_ok s1 c \<and> f \<in> set (lchain s1 c) \<and> l_start (fk s1 f) = l_start (fk s f)
      \<and> ins_ok s1 c i ld"
    if tp: "tail_piece pid s c f ld = Some s1" and r: "l_type (fk s f) \<noteq> l_type ld" "l_start (fk s f) < l_end ld"
      "l_end ld < l_end (fk s f)" for s1
  proof -
    obtain n where n: "lk_ok s1 c" "n \<notin> set (lchain s c)" "set (lchain s1 c) = insert n (set (lchain s c))"
      "fk s1 = (fk s)(n := (fk s f)\<lparr>l_start := l_end ld\<rparr>)"
      by (rule tail_pieceD[OF tp f(2,4) own])
    have "chain_sorted s1 c" using r f(9) cl[OF r] by (intro tail_sorted[OF tp f(2) k(1) f(4)]) auto
    moreover have "ins_ok s1 c i ld"
      using k(2) n(2) f(9) adj_at_i[OF a] unfolding ins_ok_def by (auto simp: n(3,4) split: option.splits)
    ultimately show ?thesis using n f(4) by auto
  qed
  have cut: "order_post c (Next (WAKEUP (set_end s f (l_start ld)) f) (Some f) ld)" if "l_start (fk s f) \<le> l_start ld"
    using ct that cutf[OF fl] by (simp add: self)
  have tcut: "order_post c (Leave (WAKEUP (set_end s1 f (l_start ld)) f) (Some f) ld)"
    if "chain_sorted s1 c \<and> lk_ok s1 c \<and> f \<in> set (lchain s1 c) \<and> l_start (fk s1 f) = l_start (fk s f) \<and> ins_ok s1 c i ld"
      "l_start (fk s f) \<le> l_start ld" for s1
  proof -
    have "f < length (flox s1)" using that(1) by (auto simp: lk_ok_def)
    then show ?thesis using that cut_sorted[of s1 c f] cutf[of s1] by (simp add: self)
  qed
  have tdel: "order_post c (Leave (delflck s1 c f) (prev_of (lchain s1 c) f) ld)"
    if "chain_sorted s1 c \<and> lk_ok s1 c \<and> f \<in> set (lchain s1 c) \<and> l_start (fk s1 f) = l_start (fk s f) \<and> ins_ok s1 c i ld"
      "l_start (fk s f) = l_start ld" for s1
    using that del_sorted[of s1 c f] ins_ok_prev[of s1 c f ld] by simp
  have tback: "order_post c (Leave (delflck s1 c f) (back_from s1 c i f) ld)"
    if "chain_sorted s1 c \<and> lk_ok s1 c \<and> f \<in> set (lchain s1 c) \<and> l_start (fk s1 f) = l_start (fk s f) \<and> ins_ok s1 c i ld"
      "l_start ld < l_start (fk s f)" for s1
    using that del_sorted[of s1 c f] bk[of s1 ld] by simp
  note leaf = dl pv k bk[OF f(2) k(2)] self
  consider "x = S_AFTER" "y = E_AFTER" | "x = S_END" "y = E_AFTER" | "x = S_MIDDLE" "y = E_AFTER"
    | "x = S_MIDDLE" "y = E_END" | "x = S_MIDDLE" "y = E_MIDDLE" | "x = S_START" "y = E_MIDDLE"
    | "x = S_START" "y = E_END" | "x = S_START" "y = E_AFTER" | "x = S_BEFORE" "y = E_BEFORE"
    | "x = S_BEFORE" "y = E_START" | "x = S_BEFORE" "y = E_MIDDLE" | "x = S_BEFORE" "y = E_END"
    | "x = S_BEFORE" "y = E_AFTER"
    using D f(7,9) by (cases x; cases y) auto
  then show ?thesis
  proof cases
    case 1
    with D f(7) show ?thesis by (simp add: adj_step_def Let_def xy leaf)
  next
    case 2
    with D f(7) cut show ?thesis by (simp add: adj_step_def Let_def xy leaf)
  next
    case 3
    with D f(7) cut show ?thesis by (simp add: adj_step_def Let_def xy leaf)
  next
    case 4
    with D f(7) cut show ?thesis by (simp add: adj_step_def Let_def xy leaf)
  next
    case 5
    show ?thesis
    proof (cases "l_type ld = l_type (fk s f)")
      case True
      with 5 D show ?thesis by (simp add: adj_step_def Let_def xy leaf)
    next
      case False
      show ?thesis
      proof (cases "tail_piece pid s c f ld")
        case None
        with 5 False k show ?thesis by (simp add: adj_step_def Let_def xy)
      next
        case (Some s1)
        have "order_post c (Leave (WAKEUP (set_end s1 f (l_start ld)) f) (Some f) ld)"
          by (rule tcut[OF tl[OF Some]]) (use 5 D False f(7) in auto)
        with 5 False Some show ?thesis by (simp add: adj_step_def Let_def xy)
      qed
    qed
  next
    case 6
    show ?thesis
    proof (cases "l_type ld = l_type (fk s f)")
      case True
      with 6 D show ?thesis by (simp add: adj_step_def Let_def xy leaf)
    next
      case False
      show ?thesis
      proof (cases "tail_piece pid s c f ld")
        case None
        with 6 False k show ?thesis by (simp add: adj_step_def Let_def xy)
      next
        case (Some s1)
        have "order_post c (Leave (delflck s1 c f) (prev_of (lchain s1 c) f) ld)"
          by (rule tdel[OF tl[OF Some]]) (use 6 D False f(7) in auto)
        with 6 False Some show ?thesis by (simp add: adj_step_def Let_def xy)
      qed
    qed
  next
    case 7
    with D show ?thesis by (simp add: adj_step_def Let_def xy leaf)
  next
    case 8
    with D show ?thesis by (simp add: adj_step_def Let_def xy leaf)
  next
    case 9
    with D show ?thesis by (simp add: adj_step_def Let_def xy leaf)
  next
    case 10
    with D show ?thesis by (simp add: adj_step_def Let_def xy leaf)
  next
    case 11
    show ?thesis
    proof (cases "l_type ld = l_type (fk s f)")
      case True
      with 11 D show ?thesis by (simp add: adj_step_def Let_def xy leaf)
    next
      case False
      show ?thesis
      proof (cases "tail_piece pid s c f ld")
        case None
        with 11 False k show ?thesis by (simp add: adj_step_def Let_def xy)
      next
        case (Some s1)
        have "order_post c (Leave (delflck s1 c f) (back_from s1 c i f) ld)"
          by (rule tback[OF tl[OF Some]]) (use 11 D False f(7) in auto)
        with 11 False Some show ?thesis by (simp add: adj_step_def Let_def xy)
      qed
    qed
  next
    case 12
    with D show ?thesis by (simp add: adj_step_def Let_def xy leaf)
  next
    case 13
    with D show ?thesis by (simp add: adj_step_def Let_def xy leaf)
  qed
qed

lemma step_next_ld:
  assumes a: "adj_at pid c s i ld f R" and own: "l_pid (fk s f) = pid" and st: "adj_step pid s c f i ld = Next t j m"
  shows "l_end m = l_end ld \<and> l_type m = l_type ld
      \<and> (l_start m = l_start ld \<or> l_start m = l_start (fk s f) \<and> l_start ld \<le> l_end (fk s f))"
proof -
  note f = adj_at_facts[OF a own]
  obtain x y where xy: "regflck ld (fk s f) = (x, y)" by fastforce
  note D = regflckD[OF xy f(9,7)]
  show ?thesis
    using st D by (cases x; cases y) (auto simp: adj_step_def Let_def xy split: if_splits option.splits)
qed

lemma unsplit_next:
  assumes a: "adj_at pid c s i ld f R" and own: "l_pid (fk s f) = pid" and st: "adj_step pid s c f i ld = Next t j m"
    and u: "unsplit pid s c ld R" "R \<subseteq> set (lchain s c)"
  shows "unsplit pid t c m R"
  unfolding unsplit_def
proof (intro ballI impI)
  fix h g
  assume h: "h \<in> R" "l_pid (fk t h) = pid" "l_type (fk t h) \<noteq> l_type m" "l_start (fk t h) < l_end m" "l_end m < l_end (fk t h)"
    and g: "g \<in> set (lchain t c)" "l_pid (fk t g) \<noteq> pid" "l_start (fk t h) \<le> l_start (fk t g)"
  note m = step_next_ld[OF a own st]
  have inv: "adj_inv pid c s i ld R t j m" using adj_step_post[OF a own] st by simp
  then have e: "edits pid c s t" "fk t h = fk s h" using h(1) by (simp_all add: adj_inv_def)
  have "(g, fk t g) \<in> {(j, fk s j) |j. j \<in> set (lchain s c) \<and> l_pid (fk s j) \<noteq> pid}"
    using g edits_foreign[OF e(1) adj_at_facts(2)[OF a own]] by blast
  then have gs: "g \<in> set (lchain s c)" "l_pid (fk s g) \<noteq> pid" "fk t g = fk s g" by auto
  have ho: "h \<in> set (lchain s c)" "h \<noteq> f" using h(1) u(2) adj_at_facts(5)[OF a own] by auto
  have "l_end (fk s f) \<le> l_start (fk s h)"
    using adj_at_other(1)[OF a own ho] h e by simp
  moreover have "\<not> (l_start ld \<le> l_start (fk s g) \<and> l_start (fk s g) < l_end ld)"
    by (rule u(1)[unfolded unsplit_def, rule_format, OF h(1) _ _ _ _ gs(1,2)]) (use h g e(2) gs(3) m in simp_all)
  ultimately show "\<not> (l_start m \<le> l_start (fk t g) \<and> l_start (fk t g) < l_end m)"
    using m g(3) gs(3) e(2) by auto
qed

lemma unsplit_sub: "\<lbrakk>unsplit pid s c ld A; B \<subseteq> A\<rbrakk> \<Longrightarrow> unsplit pid s c ld B"
  by (auto simp: unsplit_def)

lemma adj_loop_order:
  "\<lbrakk>lk_good pid s c; distinct fs; set fs \<subseteq> set (lchain s c); chain_sorted s c;
    sorted (map (\<lambda>g. l_start (fk s g)) fs); ins_ok s c i ld; unsplit pid s c ld (set fs);
    off pid s ld (set (lchain s c) - set fs); \<And>g. i = Some g \<Longrightarrow> g \<in> set (lchain s c);
    l_start ld < l_end ld\<rbrakk>
   \<Longrightarrow> order_post c (adj_loop pid s c fs i ld)"
proof (induction fs arbitrary: s i ld)
  case Nil
  then show ?case by simp
next
  case (Cons f fs)
  show ?case
  proof (cases "l_pid (fk s f) = pid")
    case True
    have at: "adj_at pid c s i ld f (set fs)"
      using Cons.prems by (auto simp: adj_at_def)
    have fc: "f \<in> set (f # fs)" "f \<in> set (lchain s c)" using Cons.prems(3) by simp_all
    have cl: "order_post c (adj_step pid s c f i ld)"
      by (rule step_order[OF at True Cons.prems(4,6) clear_afterI[OF Cons.prems(1,4) fc True Cons.prems(7)]])
    show ?thesis
    proof (cases "adj_step pid s c f i ld")
      case (Next t i' ld')
      have n: "adj_inv pid c s i ld (set fs) t i' ld'" using adj_step_post[OF at True] Next by simp
      have "map (\<lambda>g. l_start (fk t g)) fs = map (\<lambda>g. l_start (fk s g)) fs"
        using n by (simp add: adj_inv_def)
      then have "sorted (map (\<lambda>g. l_start (fk t g)) fs)" using Cons.prems(5) by (metis list.simps(9) sorted_simps(2))
      moreover have "unsplit pid t c ld' (set fs)"
        using Cons.prems(3) by (intro unsplit_next[OF at True Next] unsplit_sub[OF Cons.prems(7)]) auto
      ultimately have "order_post c (adj_loop pid t c fs i' ld')"
        using n cl Next Cons.prems(2) by (intro Cons.IH) (simp_all add: adj_inv_def)
      with Next True show ?thesis by simp
    qed (use cl True in simp_all)
  next
    case False
    have "unsplit pid s c ld (set fs)" by (rule unsplit_sub[OF Cons.prems(7)]) auto
    moreover have "off pid s ld (set (lchain s c) - set fs)" by (rule off_skip[OF Cons.prems(8) False])
    ultimately have "order_post c (adj_loop pid s c fs i ld)"
      using Cons.prems(2,3,5) by (intro Cons.IH Cons.prems(1,4,6,10) Cons.prems(9)) simp_all
    with False Cons.prems(4,6) show ?thesis by simp
  qed
qed

lemma insert_order:
  assumes k: "lk_ok s c" "chain_sorted s c" "ins_ok s c j m" "\<And>g. j = Some g \<Longrightarrow> g \<in> set (lchain s c)"
    "l_type m \<noteq> F_UNLCK"
    and ins: "insflck pid s c m (case j of None \<Rightarrow> None
          | Some f \<Rightarrow> last_below s (l_start m) (from_rec (lchain s c) f) (Some f)) = (w, t)"
  shows "chain_sorted t c"
proof (cases w)
  case None
  with ins k(2) show ?thesis by (auto dest: insflck_None)
next
  case (Some n)
  show ?thesis
  proof (cases j)
    case None
    with k(3,5) have "\<forall>h \<in> set (lchain s c). l_start m \<le> l_start (fk s h)" by (simp add: ins_ok_def)
    with ins None Some k(1,2) show ?thesis by (auto intro: ins_head_sorted)
  next
    case j: (Some f)
    obtain g pre post where g: "last_below s (l_start m) (from_rec (lchain s c) f) (Some f) = Some g"
      "lchain s c = pre @ g # post" "g = f \<or> l_start (fk s g) < l_start m"
      "\<forall>h \<in> set post. l_start m \<le> l_start (fk s h) \<and> h \<in> set (tl (from_rec (lchain s c) f))"
      using k(1,2) k(4)[OF j] by (rule place_found)
    have "l_start (fk s f) \<le> l_start m" using k(3,5) j by (simp add: ins_ok_def)
    with g(3) have "l_start (fk s g) \<le> l_start m" by auto
    then show ?thesis
      using ins Some j g(1,4) by (intro ins_sorted[OF _ k(1,2) g(2)]) auto
  qed
qed

theorem flckadj_order:
  assumes "lk_good pid s c" "chain_sorted s c" "starts_at pid s c ld i" "l_start ld < l_end ld"
    "ins_ok s c i ld" "unsplit pid s c ld (set (lchain s c))" "flckadj pid s c i ld = (r, t)"
  shows "chain_sorted t c"
proof -
  let ?fs = "case i of None \<Rightarrow> lchain s c | Some f \<Rightarrow> from_rec (lchain s c) f"
  have "distinct (lchain s c)" using assms(1) by (simp add: lk_good_def lk_ok_def)
  note fs = adj_start[OF assms(1,2,3)]
  note args = assms(1) fs(1,2) assms(2) fs(3) assms(5) unsplit_sub[OF assms(6) fs(2)] fs(4)
  have i: "\<And>g. i = Some g \<Longrightarrow> g \<in> set (lchain s c)" using assms(3) by (simp add: starts_at_def)
  have o: "order_post c (adj_loop pid s c ?fs i ld)"
    by (rule adj_loop_order[OF args i assms(4)])
  have l: "loop_post pid c s i ld (adj_loop pid s c ?fs i ld)"
    by (rule adj_loop_post[OF assms(1) fs i assms(4)])
  show ?thesis
  proof (cases "adj_loop pid s c ?fs i ld")
    case (Next u j m)
    with l show ?thesis by simp
  next
    case (AdjRet u e)
    with o assms(7) show ?thesis by (simp add: flckadj_def)
  next
    case (Leave u j m)
    with o l have u: "chain_sorted u c" "ins_ok u c j m" "lk_ok u c" "l_type m = l_type ld"
      "\<And>g. j = Some g \<Longrightarrow> g \<in> set (lchain u c)"
      by (auto simp: adj_inv_def lk_good_def)
    show ?thesis
    proof (cases "l_type ld = F_UNLCK")
      case True
      with assms(7) Leave u show ?thesis by (simp add: flckadj_def)
    next
      case False
      define i2 where "i2 = (case j of None \<Rightarrow> None
          | Some f \<Rightarrow> last_below u (l_start m) (from_rec (lchain u c) f) (Some f))"
      obtain w where ins: "insflck pid u c m i2 = (w, t)"
        using assms(7) Leave False by (auto simp: flckadj_def i2_def Let_def split: prod.splits option.splits)
      show ?thesis by (rule insert_order[OF u(3,1,2) u(5) _ ins[unfolded i2_def]]) (simp_all add: False u(4))
    qed
  qed
qed

end
