(* ===== verification/Flock_Table.thy ===== *)
theory Flock_Table
  imports Flock_Order
begin

text \<open>
  The whole table: what \<open>flckadj\<close> does to the structure in any state, the conservation of records and
  identifiers, the reference counts, and the relation \<open>lk_step\<close> of calls and resumptions of
  sleeping calls. The waits of the sleeping processes never form a cycle, so \<open>deadflck\<close> ends.
\<close>

section \<open>flckadj as edits, in any state\<close>

definition struct_ok :: "int \<Rightarrow> lchain \<Rightarrow> flcks \<Rightarrow> nat set \<Rightarrow> flcks \<Rightarrow> nat option \<Rightarrow> bool" where
  "struct_ok pid c s R t i' =
     (edits pid c s t \<and> R \<subseteq> set (lchain t c) \<and> (\<forall>g. i' = Some g \<longrightarrow> g \<in> set (lchain t c)))"

fun struct_post :: "int \<Rightarrow> lchain \<Rightarrow> flcks \<Rightarrow> nat set \<Rightarrow> adj \<Rightarrow> bool" where
  "struct_post pid c s R (Next t i' ld') = struct_ok pid c s R t i'"
| "struct_post pid c s R (Leave t i' ld') = struct_ok pid c s {} t i'"
| "struct_post pid c s R (AdjRet t r) = (t = s \<and> (r = None \<or> r = Some ENOSPC))"

lemma step_struct:
  assumes k: "lk_ok s c" and f: "f \<in> set (lchain s c)" "l_pid (fk s f) = pid"
    and R: "f \<notin> R" "R \<subseteq> set (lchain s c)" and i: "\<And>g. i = Some g \<Longrightarrow> g \<in> set (lchain s c)"
  shows "struct_post pid c s R (adj_step pid s c f i ld)"
proof -
  have d: "distinct (lchain s c)" "f < length (flox s)" using k f by (auto simp: lk_ok_def)
  have del: "struct_ok pid c s R' (delflck s c f) j"
    if "R' \<subseteq> R" "\<And>g. j = Some g \<Longrightarrow> g \<in> set (lchain s c) \<and> g \<noteq> f" for R' j
    using that R f k by (auto simp: struct_ok_def set_delflck intro: edits.intros)
  have cut: "struct_ok pid c s R (WAKEUP (set_end s f e) f) (Some f)" for e
    using R f by (auto simp: struct_ok_def flock_simps intro: edits.intros)
  have stay: "struct_ok pid c s R' s j" if "R' \<subseteq> R" "j = i \<or> j = Some f" for R' j
    using that R f i by (auto simp: struct_ok_def intro: edits.intros)
  have bk: "\<And>g. back_from s c i f = Some g \<Longrightarrow> g \<in> set (lchain s c) \<and> g \<noteq> f"
    and pv: "\<And>g. prev_of (lchain s c) f = Some g \<Longrightarrow> g \<in> set (lchain s c) \<and> g \<noteq> f"
    using back_from_in[OF k] i d by (blast, auto dest: prev_of_in)
  have tl: "struct_ok pid c s {} (delflck s1 c f) (back_from s1 c i f)
      \<and> struct_ok pid c s {} (delflck s1 c f) (prev_of (lchain s1 c) f)
      \<and> struct_ok pid c s {} (WAKEUP (set_end s1 f e) f) (Some f)"
    if tp: "tail_piece pid s c f ld = Some s1" for s1 e
  proof -
    obtain n where n: "lk_ok s1 c" "n \<notin> set (lchain s c)" "set (lchain s1 c) = insert n (set (lchain s c))"
      "fk s1 = (fk s)(n := (fk s f)\<lparr>l_start := l_end ld\<rparr>)" "edits pid c s s1"
      using tp k f by (rule tail_pieceD)
    have f1: "f \<in> set (lchain s1 c)" "l_pid (fk s1 f) = pid" using f n by auto
    have "g \<in> set (lchain s1 c) \<and> g \<noteq> f" if "back_from s1 c i f = Some g" for g
      using back_from_in[OF n(1) _ that] i n(3) by blast
    moreover have "g \<in> set (lchain s1 c) \<and> g \<noteq> f" if "prev_of (lchain s1 c) f = Some g" for g
      using prev_of_in[OF that] n(1) by (simp add: lk_ok_def)
    ultimately show ?thesis
      using f1 edits_del[OF n(5) f1] edits_cut[OF n(5) f1]
      by (auto simp: struct_ok_def set_delflck[OF n(1)] flock_simps)
  qed
  obtain x y where xy: "regflck ld (fk s f) = (x, y)" by fastforce
  show ?thesis
    using tl
    by (cases x; cases y)
      (simp_all add: adj_step_def Let_def xy del cut stay bk pv split: option.split)
qed

definition adj_state :: "adj \<Rightarrow> flcks" where
  "adj_state r = (case r of Next t _ _ \<Rightarrow> t | Leave t _ _ \<Rightarrow> t | AdjRet t _ \<Rightarrow> t)"

fun loop_struct :: "int \<Rightarrow> lchain \<Rightarrow> flcks \<Rightarrow> adj \<Rightarrow> bool" where
  "loop_struct pid c s (Next t i' ld') = False"
| "loop_struct pid c s (Leave t i' ld') = struct_ok pid c s {} t i'"
| "loop_struct pid c s (AdjRet t r) = (edits pid c s t \<and> (r = None \<or> r = Some ENOSPC))"

lemma adj_loop_struct:
  "\<lbrakk>lk_ok s c; distinct fs; set fs \<subseteq> set (lchain s c); \<And>g. i = Some g \<Longrightarrow> g \<in> set (lchain s c)\<rbrakk>
   \<Longrightarrow> loop_struct pid c s (adj_loop pid s c fs i ld)"
proof (induction fs arbitrary: s i ld)
  case Nil
  then show ?case by (simp add: struct_ok_def edits_refl)
next
  case (Cons f fs)
  show ?case
  proof (cases "l_pid (fk s f) = pid")
    case True
    have p: "struct_post pid c s (set fs) (adj_step pid s c f i ld)"
      using Cons.prems True by (intro step_struct) auto
    show ?thesis
    proof (cases "adj_step pid s c f i ld")
      case (Next t i' ld')
      with p have t: "edits pid c s t" "set fs \<subseteq> set (lchain t c)" "\<And>g. i' = Some g \<Longrightarrow> g \<in> set (lchain t c)"
        by (simp_all add: struct_ok_def)
      then have "loop_struct pid c t (adj_loop pid t c fs i' ld')"
        using Cons.prems(2) edits_ok[OF t(1) Cons.prems(1)] by (intro Cons.IH) simp_all
      then have "loop_struct pid c s (adj_loop pid t c fs i' ld')"
        using edits_trans[OF _ t(1)] by (cases "adj_loop pid t c fs i' ld'") (auto simp: struct_ok_def)
      with Next True show ?thesis by simp
    qed (use p True in \<open>auto simp: edits_refl\<close>)
  next
    case False
    have "loop_struct pid c s (adj_loop pid s c fs i ld)"
      using Cons.prems(2,3) by (intro Cons.IH Cons.prems(1) Cons.prems(4)) simp_all
    with False Cons.prems(4) show ?thesis by (simp add: struct_ok_def edits_refl)
  qed
qed

lemma flckadj_edits:
  assumes "lk_ok s c" "\<And>g. i = Some g \<Longrightarrow> g \<in> set (lchain s c)" "flckadj pid s c i ld = (r, t)"
  shows "edits pid c s t" "r = None \<or> r = Some ENOSPC"
proof -
  let ?fs = "case i of None \<Rightarrow> lchain s c | Some f \<Rightarrow> from_rec (lchain s c) f"
  have "distinct (lchain s c)" using assms(1) by (simp add: lk_ok_def)
  then have "distinct ?fs \<and> set ?fs \<subseteq> set (lchain s c)"
    using assms(2) from_rec_split by (cases i) (fastforce simp: set_from_rec)+
  then have l: "loop_struct pid c s (adj_loop pid s c ?fs i ld)"
    by (intro adj_loop_struct assms(1) assms(2)) auto
  have "edits pid c s t \<and> (r = None \<or> r = Some ENOSPC)"
  proof (cases "adj_loop pid s c ?fs i ld")
    case (Next u j m)
    with l show ?thesis by simp
  next
    case (AdjRet u e)
    with l assms(3) show ?thesis by (auto simp: flckadj_def)
  next
    case (Leave u j m)
    with l have u: "edits pid c s u" "\<And>g. j = Some g \<Longrightarrow> g \<in> set (lchain u c)"
      by (simp_all add: struct_ok_def)
    define i2 where "i2 = (case j of None \<Rightarrow> None
        | Some f \<Rightarrow> last_below u (l_start m) (from_rec (lchain u c) f) (Some f))"
    have i2: "g \<in> set (lchain u c)" if "i2 = Some g" for g
      using that u(2) set_from_rec[of "lchain u c"] by (auto simp: i2_def split: option.splits dest!: set_last_below)
    have "t = u \<and> r = None \<or> (\<exists>w. insflck pid u c m i2 = (w, t) \<and> r = (if w = None then Some ENOSPC else None))"
      using assms(3) Leave by (auto simp: flckadj_def i2_def Let_def split: if_splits prod.splits option.splits)
    then show ?thesis
    proof (elim disjE exE conjE)
      fix w assume w: "insflck pid u c m i2 = (w, t)" "r = (if w = None then Some ENOSPC else None)"
      show ?thesis
      proof (cases w)
        case None
        with w u(1) show ?thesis by (auto dest: insflck_None)
      next
        case (Some n)
        with w edits_ins[OF u(1), of m i2 n t] i2 show ?thesis by auto
      qed
    qed (use u(1) in simp)
  qed
  then show "edits pid c s t" "r = None \<or> r = Some ENOSPC" by simp_all
qed

section \<open>The table\<close>

definition all_recs :: "flcks \<Rightarrow> nat multiset" where
  "all_recs s = mset (frlock s) + mset (sleeplcks s) + mset (concat (map fl_flck (flinotab s)))"

definition fid_key :: "flcks \<Rightarrow> nat \<Rightarrow> int \<times> int" where
  "fid_key s i = (fl_dev (flinotab s ! i), fl_number (flinotab s ! i))"

text \<open>
  Every record is in exactly one place, every identifier is in use or free, a free identifier is
  clean, and no two identifiers in use stand for the same file.
\<close>

definition tab_ok :: "flcks \<Rightarrow> bool" where
  "tab_ok s =
     (all_recs s = mset [0..<length (flox s)]
      \<and> mset (fids s) + mset (frfid s) = mset [0..<length (flinotab s)]
      \<and> (\<forall>i \<in> set (frfid s). fl_flck (flinotab s ! i) = [] \<and> fl_refcnt (flinotab s ! i) = 0)
      \<and> inj_on (fid_key s) (set (fids s))
      \<and> reccnt s = int (length (sleeplcks s @ concat (map fl_flck (flinotab s))))
      \<and> filcnt s = int (length (fids s)))"

lemma mset_concat_update:
  assumes "i < length xs"
  shows "mset (concat (map f (xs[i := y]))) + mset (f (xs ! i)) = mset (concat (map f xs)) + mset (f y)"
proof -
  have "xs = take i xs @ xs ! i # drop (Suc i) xs" by (rule id_take_nth_drop[OF assms])
  then have "mset (concat (map f xs)) = mset (concat (map f (take i xs @ xs ! i # drop (Suc i) xs)))" by simp
  moreover have "xs[i := y] = take i xs @ y # drop (Suc i) xs" by (rule upd_conv_take_nth_drop[OF assms])
  ultimately show ?thesis by (simp add: ac_simps)
qed

text \<open>The identifiers, and the chains of a table.\<close>

lemma tab_fids:
  assumes "tab_ok s"
  shows "distinct (fids s)" "distinct (frfid s)" "set (fids s) \<inter> set (frfid s) = {}"
    "set (fids s) \<union> set (frfid s) = {0..<length (flinotab s)}"
proof -
  have m: "mset (fids s @ frfid s) = mset [0..<length (flinotab s)]" using assms by (simp add: tab_ok_def)
  then have "distinct (fids s @ frfid s)" by (metis distinct_upt mset_eq_imp_distinct_iff)
  then show "distinct (fids s)" "distinct (frfid s)" "set (fids s) \<inter> set (frfid s) = {}" by simp_all
  show "set (fids s) \<union> set (frfid s) = {0..<length (flinotab s)}"
    using mset_eq_setD[OF m] by simp
qed

lemma tab_recs:
  assumes "tab_ok s"
  shows "distinct (frlock s @ sleeplcks s @ concat (map fl_flck (flinotab s)))"
    "set (frlock s @ sleeplcks s @ concat (map fl_flck (flinotab s))) = {0..<length (flox s)}"
proof -
  have m: "mset (frlock s @ sleeplcks s @ concat (map fl_flck (flinotab s))) = mset [0..<length (flox s)]"
    using assms by (simp add: tab_ok_def all_recs_def add.assoc)
  then show "distinct (frlock s @ sleeplcks s @ concat (map fl_flck (flinotab s)))"
    by (metis distinct_upt mset_eq_imp_distinct_iff)
  show "set (frlock s @ sleeplcks s @ concat (map fl_flck (flinotab s))) = {0..<length (flox s)}"
    using mset_eq_setD[OF m] by simp
qed

lemma distinct_concat_nth:
  "\<lbrakk>distinct (concat xs); i < length xs; j < length xs; i \<noteq> j\<rbrakk> \<Longrightarrow> set (xs ! i) \<inter> set (xs ! j) = {}"
proof (induction xs arbitrary: i j)
  case (Cons x xs)
  have x: "set x \<inter> set (xs ! k) = {}" if "k < length xs" for k
    using Cons.prems(1) nth_mem[OF that] by auto
  show ?case
  proof (cases "i = 0 \<or> j = 0")
    case True
    with Cons.prems x[of "i - 1"] x[of "j - 1"] show ?thesis by (cases i; cases j) auto
  next
    case False
    then show ?thesis using Cons.IH[of "i - 1" "j - 1"] Cons.prems by (cases i; cases j) auto
  qed
qed simp

lemma chain_in_concat: "i < length (flinotab s) \<Longrightarrow> set (fl_flck (flinotab s ! i)) \<subseteq> set (concat (map fl_flck (flinotab s)))"
  by (auto intro!: bexI[OF _ nth_mem])

lemma tab_chain_ok:
  assumes "tab_ok s" "i < length (flinotab s)"
  shows "lk_ok s (FileChain i)"
proof -
  note r = tab_recs[OF assms(1)]
  have "distinct (fl_flck (flinotab s ! i))" using r(1) assms(2) by (simp add: distinct_concat_iff)
  then show ?thesis using r chain_in_concat[OF assms(2)] assms(2)
    unfolding lk_ok_def lvalid_def lchain_def by (auto simp del: set_concat)
qed

lemma tab_sleep_off:
  assumes "tab_ok s" "i < length (flinotab s)"
  shows "set (sleeplcks s) \<inter> (set (fl_flck (flinotab s ! i)) \<union> set (frlock s)) = {}"
  using tab_recs(1)[OF assms(1)] chain_in_concat[OF assms(2)] by (auto simp del: set_concat)

lemma tab_sleep_ok: "tab_ok s \<Longrightarrow> lk_ok s SleepChain"
  using tab_recs[of s] by (auto simp: lk_ok_def lvalid_def lchain_def)

lemma tab_chains_off:
  assumes "tab_ok s" "i < length (flinotab s)" "j < length (flinotab s)" "i \<noteq> j"
  shows "set (fl_flck (flinotab s ! i)) \<inter> set (fl_flck (flinotab s ! j)) = {}"
  using distinct_concat_nth[of "map fl_flck (flinotab s)" i j] tab_recs(1)[OF assms(1)] assms(2-4) by simp

section \<open>Edits, identifiers and the table\<close>

lemma mset_swap:
  fixes C :: "'a multiset"
  assumes "C' + f = C + l" "l + r' = f + r"
  shows "r' + C' = r + C"
proof -
  have "(r' + C') + (f + l) = (l + r') + (C' + f)" by (simp add: ac_simps)
  also have "\<dots> = (r + C) + (f + l)" by (simp only: assms ac_simps)
  finally show ?thesis by simp
qed

text \<open>What an operation on identifiers leaves alone.\<close>

definition same_recs :: "flcks \<Rightarrow> flcks \<Rightarrow> bool" where
  "same_recs s t =
     (flox t = flox s \<and> frlock t = frlock s \<and> sleeplcks t = sleeplcks s \<and> reccnt t = reccnt s
      \<and> map fl_flck (flinotab t) = map fl_flck (flinotab s))"

lemma same_recs_trans: "\<lbrakk>same_recs s t; same_recs t r\<rbrakk> \<Longrightarrow> same_recs s r"
  by (simp add: same_recs_def)

lemma same_recs_refl [simp]: "same_recs s s"
  by (simp add: same_recs_def)

lemma same_recs_len: "same_recs s t \<Longrightarrow> length (flinotab t) = length (flinotab s)"
  by (metis length_map same_recs_def)

lemma same_recs_chain: "\<lbrakk>same_recs s t; i < length (flinotab s)\<rbrakk> \<Longrightarrow> fl_flck (flinotab t ! i) = fl_flck (flinotab s ! i)"
  by (metis length_map nth_map same_recs_def)

lemma tab_ok_ids:
  assumes "tab_ok s" "same_recs s t" "mset (fids t) + mset (frfid t) = mset (fids s) + mset (frfid s)"
    "\<And>i. i \<in> set (frfid t) \<Longrightarrow> fl_flck (flinotab t ! i) = [] \<and> fl_refcnt (flinotab t ! i) = 0"
    "inj_on (fid_key t) (set (fids t))" "filcnt t = int (length (fids t))"
  shows "tab_ok t"
proof -
  have "length (flinotab t) = length (flinotab s)" using assms(2) by (metis length_map same_recs_def)
  then show ?thesis using assms by (simp add: tab_ok_def same_recs_def all_recs_def)
qed

lemma edits_tab:
  assumes e: "edits pid (FileChain i) s t" and k: "tab_ok s" "i \<in> set (fids s)"
  shows "tab_ok t"
proof -
  note fd = tab_fids[OF k(1)]
  have i: "i < length (flinotab s)" "i \<notin> set (frfid s)" using fd(3,4) k(2) by auto
  note ok = tab_chain_ok[OF k(1) i(1)]
  have sb: "frfid t = frfid s" "fids t = fids s" "filcnt t = filcnt s" "length (flox t) = length (flox s)"
    "sleeplcks t = sleeplcks s"
    "flinotab t = (flinotab s)[i := (flinotab s ! i)\<lparr>fl_flck := lchain t (FileChain i)\<rparr>]"
    using edits_same_but[OF e] by (simp_all add: same_but_def)
  have m: "mset (concat (map fl_flck (flinotab t))) + mset (fl_flck (flinotab s ! i))
      = mset (concat (map fl_flck (flinotab s))) + mset (lchain t (FileChain i))"
    using mset_concat_update[OF i(1), of fl_flck "(flinotab s ! i)\<lparr>fl_flck := lchain t (FileChain i)\<rparr>"]
    by (simp add: sb(6))
  have c: "mset (lchain t (FileChain i)) + mset (frlock t) = mset (fl_flck (flinotab s ! i)) + mset (frlock s)"
    using edits_mset[OF e ok] by (simp add: lchain_def)
  have r: "all_recs t = all_recs s"
    using mset_swap[OF m c] by (simp add: all_recs_def sb(5) ac_simps)
  have l: "int (length (concat (map fl_flck (flinotab t)))) + int (length (fl_flck (flinotab s ! i)))
      = int (length (concat (map fl_flck (flinotab s)))) + int (length (lchain t (FileChain i)))"
    using arg_cong[OF m, of size] by (simp flip: of_nat_add)
  have "reccnt t = int (length (sleeplcks t @ concat (map fl_flck (flinotab t))))"
    using edits_reccnt[OF e ok] l k(1) by (simp add: tab_ok_def sb(5) lchain_def)
  moreover have "inj_on (fid_key t) (set (fids t))"
  proof -
    have "fid_key t j = fid_key s j" for j
      using i(1) by (cases "j = i") (simp_all add: fid_key_def sb(6))
    then have "fid_key t = fid_key s" by (rule ext)
    then show ?thesis using k(1) by (simp add: tab_ok_def sb(2))
  qed
  moreover have "\<forall>j \<in> set (frfid t). fl_flck (flinotab t ! j) = [] \<and> fl_refcnt (flinotab t ! j) = 0"
  proof
    fix j assume j: "j \<in> set (frfid t)"
    then have "flinotab t ! j = flinotab s ! j" using i(2) by (cases "j = i") (auto simp: sb(1,6))
    with j k(1) show "fl_flck (flinotab t ! j) = [] \<and> fl_refcnt (flinotab t ! j) = 0" by (simp add: tab_ok_def sb(1))
  qed
  ultimately show ?thesis using k(1) r by (simp add: tab_ok_def sb(1-4) sb(6))
qed

lemma findfid_in_iff:
  "inj_on (fid_key s) (set l) \<Longrightarrow> findfid_in s d n l = Some i \<longleftrightarrow> i \<in> set l \<and> fid_key s i = (d, n)"
proof (induction l)
  case (Cons j l)
  then show ?case by (auto simp: fid_key_def inj_on_def)
qed simp

lemma findfid_in_None: "findfid_in s d n l = None \<longleftrightarrow> (\<forall>i \<in> set l. fid_key s i \<noteq> (d, n))"
  by (induction l) (auto simp: fid_key_def)

lemma findfid_in_cong: "(\<And>i. i \<in> set l \<Longrightarrow> fid_key t i = fid_key s i) \<Longrightarrow> findfid_in t d n l = findfid_in s d n l"
  by (induction l) (auto simp: fid_key_def)

lemma map_flck_update: "fl_flck y = fl_flck (xs ! i) \<Longrightarrow> map fl_flck (xs[i := y]) = map fl_flck xs"
  by (cases "i < length xs") (simp_all add: map_update list_update_same_conv list_update_beyond linorder_not_less)

lemma findfid_facts:
  assumes "findfid s fp = (Some i, t)" "tab_ok s"
  shows "same_recs s t" "tab_ok t" "fids t = fids s" "i \<in> set (fids s)" "fid_key s i = (lf_dev fp, lf_number fp)"
    "fid_key t = fid_key s" "fl_refcnt (flinotab t ! i) = fl_refcnt (flinotab s ! i) + 1"
    "\<And>j. j \<noteq> i \<Longrightarrow> flinotab t ! j = flinotab s ! j" "frfid t = frfid s"
proof -
  note fd = tab_fids[OF assms(2)]
  have f: "findfid_in s (lf_dev fp) (lf_number fp) (fids s) = Some i"
    and t: "t = s\<lparr>flinotab := (flinotab s)[i := (flinotab s ! i)\<lparr>fl_refcnt := fl_refcnt (flinotab s ! i) + 1\<rparr>]\<rparr>"
    using assms(1) by (auto simp: findfid_def split: option.splits)
  have inj: "inj_on (fid_key s) (set (fids s))" using assms(2) by (simp add: tab_ok_def)
  show i: "i \<in> set (fids s)" "fid_key s i = (lf_dev fp, lf_number fp)"
    using f findfid_in_iff[OF inj] by auto
  then have il: "i < length (flinotab s)" "i \<notin> set (frfid s)" using fd by auto
  show r: "same_recs s t" "fids t = fids s" "frfid t = frfid s" by (simp_all add: t same_recs_def map_flck_update)
  show fk: "fid_key t = fid_key s"
  proof
    show "fid_key t j = fid_key s j" for j
      using il by (cases "j = i") (simp_all add: fid_key_def t)
  qed
  show o: "\<And>j. j \<noteq> i \<Longrightarrow> flinotab t ! j = flinotab s ! j" by (simp add: t)
  show "fl_refcnt (flinotab t ! i) = fl_refcnt (flinotab s ! i) + 1" using il by (simp add: t)
  have z: "flinotab t ! j = flinotab s ! j" if "j \<in> set (frfid s)" for j using that il(2) o by metis
  show "tab_ok t"
    by (rule tab_ok_ids[OF assms(2) r(1)]) (use assms(2) z inj in \<open>simp_all add: r fk tab_ok_def\<close>, simp add: t)
qed

lemma allocfid_facts:
  assumes "allocfid s fp = (Some i, t)" "tab_ok s" "findfid_in s (lf_dev fp) (lf_number fp) (fids s) = None"
  shows "same_recs s t" "tab_ok t" "fids t = i # fids s" "i \<in> set (frfid s)" "i \<notin> set (fids s)"
    "fid_key t i = (lf_dev fp, lf_number fp)" "fl_flck (flinotab t ! i) = []" "fl_refcnt (flinotab t ! i) = 1"
    "\<And>j. j \<noteq> i \<Longrightarrow> flinotab t ! j = flinotab s ! j"
proof -
  note fd = tab_fids[OF assms(2)]
  obtain fr where fr: "frfid s = i # fr"
    and t: "t = s\<lparr>frfid := fr, fids := i # fids s, filcnt := filcnt s + 1, filtot := filtot s + 1,
             flinotab := (flinotab s)[i := (flinotab s ! i)
               \<lparr>fl_refcnt := fl_refcnt (flinotab s ! i) + 1, fl_dev := lf_dev fp, fl_number := lf_number fp\<rparr>]\<rparr>"
    using assms(1) by (auto simp: allocfid_def split: list.splits)
  have i: "i < length (flinotab s)" "fl_flck (flinotab s ! i) = []" "fl_refcnt (flinotab s ! i) = 0"
    using fr fd(4) assms(2) by (auto simp: tab_ok_def)
  show s: "same_recs s t" "fids t = i # fids s" by (simp_all add: t same_recs_def map_flck_update)
  show n: "i \<in> set (frfid s)" "i \<notin> set (fids s)" using fr fd(3) by auto
  show k: "fid_key t i = (lf_dev fp, lf_number fp)" "fl_flck (flinotab t ! i) = []" "fl_refcnt (flinotab t ! i) = 1"
    using i by (simp_all add: t fid_key_def)
  show o: "\<And>j. j \<noteq> i \<Longrightarrow> flinotab t ! j = flinotab s ! j" by (simp add: t)
  then have ks: "fid_key t j = fid_key s j" if "j \<noteq> i" for j using that by (simp add: fid_key_def)
  have "inj_on (fid_key t) (set (fids s))"
    using assms(2) n(2) ks unfolding tab_ok_def by (metis (no_types, lifting) inj_on_cong)
  moreover have "fid_key t i \<notin> fid_key t ` set (fids s)"
  proof
    assume "fid_key t i \<in> fid_key t ` set (fids s)"
    then obtain x where x: "x \<in> set (fids s)" "fid_key t x = fid_key t i" by auto
    then have "fid_key s x = (lf_dev fp, lf_number fp)" using ks[of x] n(2) k(1) by metis
    with x(1) assms(3) show False by (simp add: findfid_in_None)
  qed
  ultimately have inj: "inj_on (fid_key t) (set (fids t))" using n(2) by (simp add: s)
  have fr': "set (frfid t) \<subseteq> set (frfid s) - {i}" using fr fd(2) by (auto simp: t)
  show "tab_ok t"
  proof (rule tab_ok_ids[OF assms(2) s(1) _ _ inj])
    show "mset (fids t) + mset (frfid t) = mset (fids s) + mset (frfid s)" by (simp add: fr s(2)) (simp add: t)
    show "fl_flck (flinotab t ! j) = [] \<and> fl_refcnt (flinotab t ! j) = 0" if "j \<in> set (frfid t)" for j
      using that fr' o assms(2) unfolding tab_ok_def by (metis DiffD1 DiffD2 insertI1 subsetD)
    show "filcnt t = int (length (fids t))" using assms(2) by (simp add: t tab_ok_def)
  qed
qed

lemma freefid_facts:
  assumes "tab_ok s" "i \<in> set (fids s)"
  defines "t \<equiv> freefid s i"
  shows "same_recs s t" "tab_ok t" "\<And>j. j \<noteq> i \<Longrightarrow> flinotab t ! j = flinotab s ! j"
    "fids t = fids s \<and> fid_key t i = fid_key s i \<and> fl_refcnt (flinotab t ! i) = fl_refcnt (flinotab s ! i) - 1
     \<or> fids t = remove1 i (fids s) \<and> fl_refcnt (flinotab s ! i) \<le> 1 \<and> fl_flck (flinotab s ! i) = []"
proof -
  note fd = tab_fids[OF assms(1)]
  have i: "i < length (flinotab s)" "i \<notin> set (frfid s)" using fd assms(2) by auto
  let ?fl = "(flinotab s ! i)\<lparr>fl_refcnt := fl_refcnt (flinotab s ! i) - 1\<rparr>"
  let ?c = "fl_refcnt ?fl \<le> 0 \<and> fl_flck ?fl = []"
  have t: "t = (if ?c
      then s\<lparr>filcnt := filcnt s - 1, fids := remove1 i (fids s), frfid := i # frfid s,
             flinotab := (flinotab s)[i := ?fl\<lparr>fl_dev := 0, fl_number := 0, fl_refcnt := 0\<rparr>]\<rparr>
      else s\<lparr>flinotab := (flinotab s)[i := ?fl]\<rparr>)"
    by (simp add: t_def freefid_def Let_def)
  show s: "same_recs s t" by (simp add: t same_recs_def map_flck_update)
  show o: "\<And>j. j \<noteq> i \<Longrightarrow> flinotab t ! j = flinotab s ! j" by (simp add: t)
  then have ks: "fid_key t j = fid_key s j" if "j \<noteq> i" for j using that by (simp add: fid_key_def)
  show c: "fids t = fids s \<and> fid_key t i = fid_key s i \<and> fl_refcnt (flinotab t ! i) = fl_refcnt (flinotab s ! i) - 1
     \<or> fids t = remove1 i (fids s) \<and> fl_refcnt (flinotab s ! i) \<le> 1 \<and> fl_flck (flinotab s ! i) = []"
    using i by (simp add: t fid_key_def)
  have inj: "inj_on (fid_key s) (set (fids s))" using assms(1) by (simp add: tab_ok_def)
  show "tab_ok t"
  proof (cases ?c)
    case True
    have f: "fids t = remove1 i (fids s)" "frfid t = i # frfid s" "filcnt t = filcnt s - 1"
      "fl_flck (flinotab t ! i) = []" "fl_refcnt (flinotab t ! i) = 0"
      using True i by (simp_all add: t)
    have "inj_on (fid_key t) (set (fids s) - {i})"
      using inj ks by (metis (no_types, lifting) DiffD2 Diff_subset inj_on_cong inj_on_subset insertI1)
    then have inj': "inj_on (fid_key t) (set (fids t))" using fd(1) by (simp add: f(1))
    show ?thesis
    proof (rule tab_ok_ids[OF assms(1) s _ _ inj'])
      show "mset (fids t) + mset (frfid t) = mset (fids s) + mset (frfid s)" using assms(2) by (simp add: f)
      show "fl_flck (flinotab t ! j) = [] \<and> fl_refcnt (flinotab t ! j) = 0" if "j \<in> set (frfid t)" for j
        using that f(4,5) o[of j] assms(1) by (cases "j = i") (auto simp: f(2) tab_ok_def)
      show "filcnt t = int (length (fids t))"
        using assms(1,2) length_pos_if_in_set[OF assms(2)]
        by (simp only: f) (simp add: tab_ok_def length_remove1 of_nat_diff Suc_le_eq)
    qed
  next
    case False
    have t': "t = s\<lparr>flinotab := (flinotab s)[i := ?fl]\<rparr>" unfolding t by (rule if_not_P[OF False])
    have f: "fids t = fids s" "frfid t = frfid s" "filcnt t = filcnt s" by (simp_all add: t')
    have "fid_key t i = fid_key s i" using i by (simp add: t' fid_key_def)
    with ks have "fid_key t = fid_key s" by (metis ext)
    then have inj': "inj_on (fid_key t) (set (fids t))" using inj f by simp
    show ?thesis
    proof (rule tab_ok_ids[OF assms(1) s _ _ inj'])
      show "fl_flck (flinotab t ! j) = [] \<and> fl_refcnt (flinotab t ! j) = 0" if "j \<in> set (frfid t)" for j
        using that o[of j] i(2) assms(1) by (cases "j = i") (auto simp: f tab_ok_def)
    qed (use assms(1) in \<open>simp_all add: f tab_ok_def\<close>)
  qed
qed

text \<open>The chain of sleeping locks, and the flags of a record.\<close>

lemma sleep_edit_tab:
  assumes e: "edits pid SleepChain s t" and k: "tab_ok s"
  shows "tab_ok t"
proof -
  note ok = tab_sleep_ok[OF k]
  have sb: "frfid t = frfid s" "fids t = fids s" "filcnt t = filcnt s" "length (flox t) = length (flox s)"
    "flinotab t = flinotab s"
    using edits_same_but[OF e] by (simp_all add: same_but_def)
  have "mset (sleeplcks t) + mset (frlock t) = mset (sleeplcks s) + mset (frlock s)"
    using edits_mset[OF e ok] by (simp add: lchain_def)
  then have "all_recs t = all_recs s" by (simp add: all_recs_def sb ac_simps)
  moreover have "reccnt t - int (length (sleeplcks t)) = reccnt s - int (length (sleeplcks s))"
    using edits_reccnt[OF e ok] by (simp add: lchain_def)
  moreover have "fid_key t = fid_key s" by (simp add: fid_key_def sb fun_eq_iff)
  ultimately show ?thesis using k by (simp add: tab_ok_def sb)
qed

definition set_stat :: "flcks \<Rightarrow> nat \<Rightarrow> int \<Rightarrow> flcks" where
  "set_stat s j x = s\<lparr>flox := (flox s)[j := (flox s ! j)\<lparr>fk_stat := x\<rparr>]\<rparr>"

lemma set_stat_fields [flock_simps]:
  "frlock (set_stat s j x) = frlock s" "sleeplcks (set_stat s j x) = sleeplcks s"
  "flinotab (set_stat s j x) = flinotab s" "fids (set_stat s j x) = fids s" "frfid (set_stat s j x) = frfid s"
  "length (flox (set_stat s j x)) = length (flox s)" "lchain (set_stat s j x) c = lchain s c"
  by (simp_all add: set_stat_def lchain_def split: lchain.split)

lemma set_stat_fk [flock_simps]: "fk (set_stat s j x) = fk s"
proof
  show "fk (set_stat s j x) k = fk s k" for k
    by (cases "j < length (flox s)"; cases "k = j")
      (simp_all add: fk_def set_stat_def list_update_beyond linorder_not_less)
qed

lemma set_stat_tab: "tab_ok s \<Longrightarrow> tab_ok (set_stat s j x)"
proof -
  have "fid_key (set_stat s j x) = fid_key s" by (simp add: fid_key_def set_stat_def fun_eq_iff)
  then show "tab_ok s \<Longrightarrow> tab_ok (set_stat s j x)" by (simp add: tab_ok_def all_recs_def set_stat_def)
qed

end
