(* ===== verification/Flock_Reach.thy ===== *)
theory Flock_Reach
  imports Flock_Table
begin

text \<open>
  Runs of the lock table: calls of \<open>getflck\<close>, \<open>setflck\<close> and \<open>cleanlocks\<close> and resumptions of sleeping
  \<open>setflck\<close>s in any order (\<open>lk_step\<close>). The state carries the sleeping calls: process, identifier, the
  record on the chain of sleeping locks, request. In every state reached the table is whole, no
  identifier in use by a sleeping call is freed, and the waits have no cycle, so the search of
  \<open>deadflck\<close> ends within one round per sleeping lock.
\<close>

section \<open>The answers of blocked\<close>

lemma blocked2_spec:
  assumes "sorted (map (\<lambda>g. l_start (fk s g)) fs)"
  shows "blocked2 pid s fs ld = None \<Longrightarrow> \<forall>g \<in> set fs. l_pid (fk s g) = pid \<or> \<not> conflicts (fk s g) ld"
  using assms by (induction fs) (auto simp: conflicts_def split: if_splits)

lemma blocked2_Some: "blocked2 pid s fs ld = Some f \<Longrightarrow> f \<in> set fs \<and> l_pid (fk s f) \<noteq> pid \<and> conflicts (fk s f) ld"
  by (induction fs) (auto split: if_splits)

lemma blocked1_Some:
  "blocked1 pid s fs ld i = (Some f, j) \<Longrightarrow> f \<in> set fs \<and> l_pid (fk s f) \<noteq> pid \<and> conflicts (fk s f) ld"
  by (induction fs arbitrary: i) (auto split: if_splits dest!: blocked2_Some)

lemma blocked_Some:
  "blocked pid s fs ld = (Some f, j) \<Longrightarrow> f \<in> set fs \<and> l_pid (fk s f) \<noteq> pid \<and> conflicts (fk s f) ld"
  unfolding blocked_def by (rule blocked1_Some)

lemma blocked1_insrt: "blocked1 pid s fs ld i = (r, Some g) \<Longrightarrow> i = Some g \<or> g \<in> set fs"
  by (induction fs arbitrary: i) (auto split: if_splits)

lemma blocked_insrt: "blocked pid s fs ld = (r, Some g) \<Longrightarrow> g \<in> set fs"
  unfolding blocked_def by (drule blocked1_insrt) simp

section \<open>One round of a set request\<close>

lemma round_cases:
  assumes k: "tab_ok s" "i \<in> set (fids s)" and r: "setflck_round fuel pid s i ld slp = (r, t)"
  obtains (ret) e u where "r = LckRet e" "edits pid (FileChain i) s u" "t = freefid u i"
  | (sleep) f j u where "r = LckSleep f j" "slp" "f \<in> set (lchain s (FileChain i))" "l_pid (fk s f) \<noteq> pid"
      "conflicts (fk s f) ld" "deadflck fuel pid s f \<noteq> Some True" "insflck pid s SleepChain ld None = (Some j, u)"
      "t = set_stat (set_stat u f (fk_stat (flox u ! f) + 1)) j (l_pid (fk u f))"
      "l_type ld = F_RDLCK \<or> l_type ld = F_WRLCK"
proof -
  have il: "i < length (flinotab s)" using tab_fids(4)[OF k(1)] k(2) by auto
  note ok = tab_chain_ok[OF k(1) il]
  let ?c = "FileChain i"
  show thesis
  proof (cases "l_type ld = F_RDLCK \<or> l_type ld = F_WRLCK")
    case lock: True
    obtain o' ins where b: "blocked pid s (lchain s ?c) ld = (o', ins)" by fastforce
    show thesis
    proof (cases o')
      case None
      obtain e u where a: "flckadj pid s ?c ins ld = (e, u)" by fastforce
      have "edits pid ?c s u"
        by (rule flckadj_edits(1)[OF ok _ a]) (use b blocked_insrt in blast)
      with a b None lock r show thesis by (intro ret) (auto simp: setflck_round_def Let_def)
    next
      case (Some f)
      note f = blocked_Some[OF b[unfolded Some]]
      obtain q u where q: "insflck pid s SleepChain ld None = (q, u)" by fastforce
      show thesis
      proof (cases "slp \<and> deadflck fuel pid s f \<noteq> Some True \<and> q \<noteq> None")
        case True
        then obtain j where j: "q = Some j" by auto
        have "r = LckSleep f j" "t = set_stat (set_stat u f (fk_stat (flox u ! f) + 1)) j (l_pid (fk u f))"
          using r lock b Some True q j
          by (auto simp: setflck_round_def Let_def set_stat_fk simp flip: set_stat_def)
        with f True q j lock show thesis by (intro sleep) auto
      next
        case False
        have "u = s" if "q = None" using q that by (auto dest: insflck_None)
        then have "\<exists>e. r = LckRet e \<and> t = freefid s i"
          using r lock b Some False q by (auto simp: setflck_round_def Let_def split: if_splits)
        then show thesis using ret edits_refl by blast
      qed
    qed
  next
    case False
    show thesis
    proof (cases "l_type ld = F_UNLCK")
      case True
      obtain e u where a: "flckadj pid s ?c (case lchain s ?c of [] \<Rightarrow> None | f # _ \<Rightarrow> Some f) ld = (e, u)" by fastforce
      have "edits pid ?c s u"
        by (rule flckadj_edits(1)[OF ok _ a]) (auto split: list.splits)
      with a True False r show thesis by (intro ret) (auto simp: setflck_round_def Let_def)
    next
      case other: False
      with False r show thesis by (intro ret[OF _ edits_refl]) (auto simp: setflck_round_def Let_def)
    qed
  qed
qed

section \<open>Waiting processes\<close>

definition waits :: "flcks \<Rightarrow> (int \<times> int) set" where
  "waits s = (\<lambda>j. (l_pid (fk s j), fk_stat (flox s ! j))) ` set (sleeplcks s)"

definition one_sleep :: "flcks \<Rightarrow> bool" where
  "one_sleep s = inj_on (\<lambda>j. l_pid (fk s j)) (set (sleeplcks s))"

lemma sleeper_of_Some: "sleeper_of s p l = Some j \<Longrightarrow> j \<in> set l \<and> l_pid (fk s j) = p"
  by (induction l) (auto split: if_splits)

lemma sleeper_of_None: "sleeper_of s p l = None \<longleftrightarrow> (\<forall>j \<in> set l. l_pid (fk s j) \<noteq> p)"
  by (induction l) auto

text \<open>The search follows the waits: a round per process, each on a sleeping record not seen before.\<close>

definition ahead :: "flcks \<Rightarrow> int \<Rightarrow> nat set" where
  "ahead s b = {j \<in> set (sleeplcks s). (b, l_pid (fk s j)) \<in> (waits s)\<^sup>*}"

lemma ahead_less:
  assumes "acyclic (waits s)" "j \<in> set (sleeplcks s)" "l_pid (fk s j) = b"
  shows "ahead s (fk_stat (flox s ! j)) \<subset> ahead s b"
proof -
  have e: "(b, fk_stat (flox s ! j)) \<in> waits s" using assms(2,3) by (auto simp: waits_def)
  have "ahead s (fk_stat (flox s ! j)) \<subseteq> ahead s b"
    using converse_rtrancl_into_rtrancl[OF e] by (auto simp: ahead_def)
  moreover have "j \<in> ahead s b" using assms(2,3) by (simp add: ahead_def)
  moreover have "j \<notin> ahead s (fk_stat (flox s ! j))"
  proof
    assume "j \<in> ahead s (fk_stat (flox s ! j))"
    then have "(fk_stat (flox s ! j), b) \<in> (waits s)\<^sup>*" using assms(3) by (simp add: ahead_def)
    with e have "(b, b) \<in> (waits s)\<^sup>+" by (rule rtrancl_into_trancl2)
    with assms(1) show False by (simp add: acyclic_def)
  qed
  ultimately show ?thesis by blast
qed

lemma deadflck_loop_ends:
  "\<lbrakk>acyclic (waits s); card (ahead s b) < n\<rbrakk> \<Longrightarrow> deadflck_loop n pid s b \<noteq> None"
proof (induction n arbitrary: b)
  case (Suc n)
  show ?case
  proof (cases "sleeper_of s b (sleeplcks s)")
    case (Some j)
    note j = sleeper_of_Some[OF Some]
    have "card (ahead s (fk_stat (flox s ! j))) < card (ahead s b)"
      using ahead_less[OF Suc.prems(1)] j by (intro psubset_card_mono) (auto simp: ahead_def)
    with Suc have "deadflck_loop n pid s (fk_stat (flox s ! j)) \<noteq> None" by simp
    with Some show ?thesis by auto
  qed auto
qed simp

lemma card_ahead: "card (ahead s b) \<le> length (sleeplcks s)"
proof -
  have "card (ahead s b) \<le> card (set (sleeplcks s))" by (rule card_mono) (auto simp: ahead_def)
  then show ?thesis using card_length le_trans by blast
qed

lemma deadflck_ends:
  "\<lbrakk>acyclic (waits s); length (sleeplcks s) < fuel\<rbrakk> \<Longrightarrow> deadflck fuel pid s f \<noteq> None"
  unfolding deadflck_def using card_ahead[of s] by (intro deadflck_loop_ends) (auto intro: le_less_trans)

lemma deadflck_loop_exact:
  "\<lbrakk>one_sleep s; deadflck_loop n pid s b = Some r\<rbrakk> \<Longrightarrow> r \<longleftrightarrow> (b, pid) \<in> (waits s)\<^sup>*"
proof (induction n arbitrary: b)
  case (Suc n)
  show ?case
  proof (cases "b = pid \<or> sleeper_of s b (sleeplcks s) = None")
    case True
    have "(b, pid) \<notin> (waits s)\<^sup>*" if "b \<noteq> pid" "sleeper_of s b (sleeplcks s) = None"
    proof
      assume "(b, pid) \<in> (waits s)\<^sup>*"
      then show False
      proof (cases rule: converse_rtranclE)
        case base
        with that(1) show ?thesis by simp
      next
        case (step y)
        with that(2) show ?thesis by (auto simp: waits_def sleeper_of_None)
      qed
    qed
    with True Suc.prems(2) show ?thesis by (auto split: if_splits)
  next
    case False
    then obtain j where j: "sleeper_of s b (sleeplcks s) = Some j" "b \<noteq> pid" by auto
    note js = sleeper_of_Some[OF j(1)]
    have e: "(b, y) \<in> waits s \<longleftrightarrow> y = fk_stat (flox s ! j)" for y
      using js Suc.prems(1) by (auto simp: waits_def one_sleep_def dest: inj_onD)
    have "(b, pid) \<in> (waits s)\<^sup>* \<longleftrightarrow> (fk_stat (flox s ! j), pid) \<in> (waits s)\<^sup>*"
      using j(2) e by (metis converse_rtranclE converse_rtrancl_into_rtrancl)
    with Suc.IH[OF Suc.prems(1), of "fk_stat (flox s ! j)"] Suc.prems(2) j show ?thesis by simp
  qed
qed simp

text \<open>With enough fuel the search answers whether the current process is waited for from \<open>f\<close>'s owner.\<close>

lemma deadflck_exact:
  assumes "acyclic (waits s)" "one_sleep s" "length (sleeplcks s) < fuel"
  shows "deadflck fuel pid s f = Some ((l_pid (fk s f), pid) \<in> (waits s)\<^sup>*)"
proof -
  obtain r where r: "deadflck fuel pid s f = Some r" using deadflck_ends[OF assms(1,3), of pid f] by auto
  then have "r \<longleftrightarrow> (l_pid (fk s f), pid) \<in> (waits s)\<^sup>*"
    unfolding deadflck_def by (rule deadflck_loop_exact[OF assms(2)])
  with r show ?thesis by simp
qed

lemma acyclic_new_wait:
  assumes "acyclic (waits s)" "one_sleep s" "length (sleeplcks s) < fuel" "deadflck fuel pid s f \<noteq> Some True"
  shows "acyclic (insert (pid, l_pid (fk s f)) (waits s))"
  using assms deadflck_exact[OF assms(1-3), of pid f] by (simp add: acyclic_insert)

section \<open>Sleeping calls\<close>

type_synonym waiter = "int \<times> nat \<times> nat \<times> flock"

abbreviation w_pid :: "waiter \<Rightarrow> int" where "w_pid x \<equiv> fst x"
abbreviation w_fid :: "waiter \<Rightarrow> nat" where "w_fid x \<equiv> fst (snd x)"
abbreviation w_rec :: "waiter \<Rightarrow> nat" where "w_rec x \<equiv> fst (snd (snd x))"
abbreviation w_req :: "waiter \<Rightarrow> flock" where "w_req x \<equiv> snd (snd (snd x))"

definition users :: "waiter list \<Rightarrow> nat \<Rightarrow> int" where
  "users w i = int (length (filter (\<lambda>x. w_fid x = i) w))"

definition wait_ok :: "flcks \<Rightarrow> waiter list \<Rightarrow> bool" where
  "wait_ok s w =
     (distinct (map w_pid w) \<and> mset (map w_rec w) = mset (sleeplcks s)
      \<and> (\<forall>x \<in> set w. l_pid (fk s (w_rec x)) = w_pid x \<and> w_fid x \<in> set (fids s))
      \<and> (\<forall>i \<in> set (fids s). users w i \<le> fl_refcnt (flinotab s ! i))
      \<and> acyclic (waits s))"

lemma wait_ok_recs: "wait_ok s w \<Longrightarrow> set (map w_rec w) = set (sleeplcks s)"
proof -
  assume "wait_ok s w"
  then have "mset (map w_rec w) = mset (sleeplcks s)" by (simp add: wait_ok_def)
  then show ?thesis by (rule mset_eq_setD)
qed

lemma wait_ok_one_sleep:
  assumes "wait_ok s w" "tab_ok s"
  shows "one_sleep s"
proof -
  have w: "distinct (map w_pid w)" "\<And>x. x \<in> set w \<Longrightarrow> l_pid (fk s (w_rec x)) = w_pid x"
    using assms(1) by (auto simp: wait_ok_def)
  have "inj_on (\<lambda>j. l_pid (fk s j)) (w_rec ` set w)"
  proof (rule inj_onI, clarify)
    fix a b c d a' b' c' d'
    assume x: "(a, b, c, d) \<in> set w" "(a', b', c', d') \<in> set w"
      "l_pid (fk s (w_rec (a, b, c, d))) = l_pid (fk s (w_rec (a', b', c', d')))"
    then have "w_pid (a, b, c, d) = w_pid (a', b', c', d')" using w(2) by metis
    then have "(a, b, c, d) = (a', b', c', d')"
      using w(1) x(1,2) by (meson distinct_map inj_onD)
    then show "w_rec (a, b, c, d) = w_rec (a', b', c', d')" by simp
  qed
  then show ?thesis using wait_ok_recs[OF assms(1)] by (simp add: one_sleep_def)
qed

lemma waits_cong:
  "\<lbrakk>sleeplcks t = sleeplcks s; \<And>j. j \<in> set (sleeplcks s) \<Longrightarrow> flox t ! j = flox s ! j\<rbrakk> \<Longrightarrow> waits t = waits s"
  by (simp add: waits_def fk_def)

lemma wait_frame:
  assumes "wait_ok s w" "sleeplcks t = sleeplcks s" "\<And>j. j \<in> set (sleeplcks s) \<Longrightarrow> flox t ! j = flox s ! j"
    "\<And>x. x \<in> set w \<Longrightarrow> w_fid x \<in> set (fids t)" "\<And>i. i \<in> set (fids t) \<Longrightarrow> users w i \<le> fl_refcnt (flinotab t ! i)"
  shows "wait_ok t w"
proof -
  have "l_pid (fk t (w_rec x)) = w_pid x" if "x \<in> set w" for x
  proof -
    have "w_rec x \<in> set (sleeplcks s)" using that wait_ok_recs[OF assms(1)] by auto
    then have "fk t (w_rec x) = fk s (w_rec x)" using assms(3) by (simp add: fk_def)
    with that assms(1) show ?thesis by (simp add: wait_ok_def)
  qed
  with assms waits_cong[OF assms(2,3)] show ?thesis by (simp add: wait_ok_def)
qed

text \<open>A call that is running holds a reference to its identifier beside those of the sleeping calls.\<close>

definition hold :: "flcks \<Rightarrow> waiter list \<Rightarrow> nat \<Rightarrow> bool" where
  "hold s w i = (wait_ok s w \<and> i \<in> set (fids s) \<and> users w i + 1 \<le> fl_refcnt (flinotab s ! i))"

lemma same_recs_flox: "same_recs s t \<Longrightarrow> flox t = flox s \<and> sleeplcks t = sleeplcks s \<and> frlock t = frlock s"
  by (simp add: same_recs_def)

lemma users_nonneg: "0 \<le> users w i"
  by (simp add: users_def)

lemma users_0: "\<lbrakk>\<And>x. x \<in> set w \<Longrightarrow> w_fid x \<noteq> i\<rbrakk> \<Longrightarrow> users w i = 0"
  by (simp add: users_def)

lemma users_0D: "\<lbrakk>users w i \<le> 0; x \<in> set w\<rbrakk> \<Longrightarrow> w_fid x \<noteq> i"
  by (auto simp: users_def filter_empty_conv)

lemma findfid_hold:
  assumes "findfid s fp = (Some i, t)" "tab_ok s" "wait_ok s w"
  shows "hold t w i"
proof -
  note f = findfid_facts[OF assms(1,2)]
  have u: "users w j \<le> fl_refcnt (flinotab s ! j)" if "j \<in> set (fids s)" for j
    using assms(3) that by (simp add: wait_ok_def)
  have r: "users w j + (if j = i then 1 else 0) \<le> fl_refcnt (flinotab t ! j)" if "j \<in> set (fids s)" for j
    using u[OF that] f(7) f(8)[of j] by (cases "j = i") simp_all
  have "wait_ok t w"
  proof (rule wait_frame[OF assms(3)])
    show "w_fid x \<in> set (fids t)" if "x \<in> set w" for x using that assms(3) f(3) by (simp add: wait_ok_def)
    show "users w j \<le> fl_refcnt (flinotab t ! j)" if "j \<in> set (fids t)" for j
      using r[of j] that f(3) by (simp split: if_splits)
  qed (use same_recs_flox[OF f(1)] in simp_all)
  then show ?thesis using r[OF f(4)] f(3,4) by (simp add: hold_def)
qed

lemma allocfid_hold:
  assumes "allocfid s fp = (Some i, t)" "tab_ok s" "findfid_in s (lf_dev fp) (lf_number fp) (fids s) = None" "wait_ok s w"
  shows "hold t w i"
proof -
  note f = allocfid_facts[OF assms(1-3)]
  have fi: "w_fid x \<in> set (fids s)" if "x \<in> set w" for x using that assms(4) by (simp add: wait_ok_def)
  then have u: "users w i = 0" using f(5) by (intro users_0) auto
  have "wait_ok t w"
  proof (rule wait_frame[OF assms(4)])
    show "w_fid x \<in> set (fids t)" if "x \<in> set w" for x using fi[OF that] f(3) by simp
    show "users w j \<le> fl_refcnt (flinotab t ! j)" if "j \<in> set (fids t)" for j
      using that u f(3,8) f(9)[of j] assms(4) by (cases "j = i") (auto simp: wait_ok_def)
  qed (use same_recs_flox[OF f(1)] in simp_all)
  then show ?thesis using u f(3,8) by (simp add: hold_def)
qed

lemma edits_file:
  assumes "edits pid (FileChain i) s t" "tab_ok s" "i \<in> set (fids s)"
  shows "fids t = fids s" "frfid t = frfid s" "sleeplcks t = sleeplcks s"
    "\<And>j. j \<in> set (sleeplcks s) \<Longrightarrow> flox t ! j = flox s ! j"
    "\<And>j. fl_refcnt (flinotab t ! j) = fl_refcnt (flinotab s ! j)" "fid_key t = fid_key s"
    "\<And>j. j \<noteq> i \<Longrightarrow> flinotab t ! j = flinotab s ! j"
proof -
  have i: "i < length (flinotab s)" using tab_fids(4)[OF assms(2)] assms(3) by auto
  note ok = tab_chain_ok[OF assms(2) i]
  show s: "fids t = fids s" "frfid t = frfid s" "sleeplcks t = sleeplcks s"
    using edits_same_but[OF assms(1)] by (simp_all add: same_but_def)
  have fl: "flinotab t = (flinotab s)[i := (flinotab s ! i)\<lparr>fl_flck := lchain t (FileChain i)\<rparr>]"
    using edits_same_but[OF assms(1)] by (simp add: same_but_def)
  show "\<And>j. fl_refcnt (flinotab t ! j) = fl_refcnt (flinotab s ! j)"
    using i by (simp add: fl nth_list_update)
  show "fid_key t = fid_key s" using i by (auto simp: fid_key_def fl nth_list_update fun_eq_iff)
  show "\<And>j. j \<noteq> i \<Longrightarrow> flinotab t ! j = flinotab s ! j" by (simp add: fl)
  show "\<And>j. j \<in> set (sleeplcks s) \<Longrightarrow> flox t ! j = flox s ! j"
    using tab_sleep_off[OF assms(2) i] by (intro edits_elsewhere[OF assms(1) ok]) (auto simp: lchain_def)
qed

lemma edits_hold:
  assumes "edits pid (FileChain i) s t" "tab_ok s" "hold s w i"
  shows "hold t w i"
proof -
  have i: "i \<in> set (fids s)" and w: "wait_ok s w" using assms(3) by (simp_all add: hold_def)
  note e = edits_file[OF assms(1,2) i]
  have "wait_ok t w"
    by (rule wait_frame[OF w e(3,4)]) (use w in \<open>auto simp: wait_ok_def e(1,5)\<close>)
  then show ?thesis using assms(3) by (simp add: hold_def e(1,5))
qed

lemma freefid_wait:
  assumes "tab_ok s" "hold s w i"
  shows "tab_ok (freefid s i)" "wait_ok (freefid s i) w"
proof -
  have i: "i \<in> set (fids s)" and w: "wait_ok s w" and u: "users w i + 1 \<le> fl_refcnt (flinotab s ! i)"
    using assms(2) by (simp_all add: hold_def)
  note f = freefid_facts[OF assms(1) i]
  show "tab_ok (freefid s i)" by (rule f(2))
  have fi: "w_fid x \<in> set (fids s)" if "x \<in> set w" for x using that w by (simp add: wait_ok_def)
  have us: "users w j \<le> fl_refcnt (flinotab s ! j)" if "j \<in> set (fids s)" for j
    using w that by (simp add: wait_ok_def)
  show "wait_ok (freefid s i) w"
  proof (rule wait_frame[OF w])
    from f(4) show "w_fid x \<in> set (fids (freefid s i))" if "x \<in> set w" for x
    proof (elim disjE conjE)
      assume "fids (freefid s i) = remove1 i (fids s)" "fl_refcnt (flinotab s ! i) \<le> 1"
      with u users_0D[OF _ that] fi[OF that] show ?thesis by auto
    qed (use fi[OF that] in simp)
    from f(4) show "users w j \<le> fl_refcnt (flinotab (freefid s i) ! j)" if "j \<in> set (fids (freefid s i))" for j
    proof (elim disjE conjE)
      assume "fids (freefid s i) = remove1 i (fids s)"
      then have "j \<noteq> i" "j \<in> set (fids s)" using that tab_fids(1)[OF assms(1)] by auto
      with f(3) us show ?thesis by simp
    qed (use that u us f(3) in \<open>cases "j = i"; simp\<close>)
  qed (use same_recs_flox[OF f(1)] in simp_all)
qed

lemma set_stat_flox: "k \<noteq> j \<Longrightarrow> flox (set_stat s j x) ! k = flox s ! k"
  by (simp add: set_stat_def)

lemma set_stat_stat: "j < length (flox s) \<Longrightarrow> fk_stat (flox (set_stat s j x) ! j) = x"
  by (simp add: set_stat_def)

lemma users_Cons: "users (x # w) i = users w i + (if w_fid x = i then 1 else 0)"
  by (simp add: users_def)

lemma sleep_inv:
  assumes k: "tab_ok s" "hold s w i" "pid \<notin> w_pid ` set w"
    and f: "f \<in> set (lchain s (FileChain i))" "deadflck fuel pid s f \<noteq> Some True" "length (sleeplcks s) < fuel"
    and ins: "insflck pid s SleepChain ld None = (Some j, u)"
    and t: "t = set_stat (set_stat u f x) j (l_pid (fk u f))"
  shows "tab_ok t" "wait_ok t ((pid, i, j, ld) # w)"
proof -
  have w: "wait_ok s w" "i \<in> set (fids s)" using k(2) by (simp_all add: hold_def)
  have il: "i < length (flinotab s)" using tab_fids(4)[OF k(1)] w(2) by auto
  note ok = tab_sleep_ok[OF k(1)]
  have e: "j \<notin> set (sleeplcks s)" "frlock s = j # frlock u" "sleeplcks u = j # sleeplcks s"
    "fk u = (fk s)(j := ld\<lparr>l_pid := pid\<rparr>)" "length (flox u) = length (flox s)"
    and eo: "\<And>m. m \<noteq> j \<Longrightarrow> flox u ! m = flox s ! m"
    using insflck_effect[OF ins ok] by (simp_all add: lchain_def)
  have jl: "j < length (flox u)" using ok e(2,5) by (simp add: lk_ok_def)
  have sb: "fids u = fids s" "frfid u = frfid s" "flinotab u = flinotab s"
    using same_but_insflck[OF ins] by (simp_all add: same_but_def)
  have fj: "f \<noteq> j" "f \<notin> set (sleeplcks s)"
    using tab_sleep_off[OF k(1) il] tab_chain_ok[OF k(1) il] f(1) e(2) by (auto simp: lchain_def lk_ok_def)
  have "edits pid SleepChain s u" by (rule edits_ins[OF edits_refl ins]) simp
  then show "tab_ok t" unfolding t by (rule set_stat_tab[OF set_stat_tab[OF sleep_edit_tab[OF _ k(1)]]])
  have fo: "flox t ! m = flox s ! m" if "m \<in> set (sleeplcks s)" for m
  proof -
    have "m \<noteq> j" "m \<noteq> f" using that e(1) fj by auto
    then show ?thesis by (simp add: t set_stat_flox eo)
  qed
  have fs: "fids t = fids s" "flinotab t = flinotab s" "sleeplcks t = j # sleeplcks s" "fk t = fk u"
    by (simp_all add: t flock_simps sb e(3))
  have "fk_stat (flox t ! j) = l_pid (fk s f)"
    using jl fj(1) by (simp add: t set_stat_stat flock_simps e(4))
  then have "waits t = insert (pid, l_pid (fk s f)) ((\<lambda>j. (l_pid (fk t j), fk_stat (flox t ! j))) ` set (sleeplcks s))"
    by (simp add: waits_def fs e(4))
  also have "(\<lambda>j. (l_pid (fk t j), fk_stat (flox t ! j))) ` set (sleeplcks s) = waits s"
    unfolding waits_def using fo by (intro image_cong) (simp_all add: fk_def)
  finally have wt: "waits t = insert (pid, l_pid (fk s f)) (waits s)" .
  have "acyclic (waits s)" using w(1) by (simp add: wait_ok_def)
  then have "acyclic (waits t)"
    unfolding wt by (rule acyclic_new_wait[OF _ wait_ok_one_sleep[OF w(1) k(1)] f(3,2)])
  moreover have "l_pid (fk t (w_rec y)) = w_pid y" if "y \<in> set w" for y
  proof -
    have "w_rec y \<in> set (sleeplcks s)" using that wait_ok_recs[OF w(1)] by auto
    then have "fk t (w_rec y) = fk s (w_rec y)" using fo by (simp add: fk_def)
    with that w(1) show ?thesis by (simp add: wait_ok_def)
  qed
  ultimately show "wait_ok t ((pid, i, j, ld) # w)"
    using k(2,3) w by (auto simp: wait_ok_def fs e(4) hold_def users_Cons)
qed

lemma round_inv:
  assumes k: "tab_ok s" "hold s w i" "pid \<notin> w_pid ` set w" "length (sleeplcks s) < fuel"
    and r: "setflck_round fuel pid s i ld slp = (r, t)"
  shows "tab_ok t" "case r of LckRet e \<Rightarrow> wait_ok t w | LckSleep f j \<Rightarrow> wait_ok t ((pid, i, j, ld) # w)"
proof -
  have i: "i \<in> set (fids s)" using k(2) by (simp add: hold_def)
  have "tab_ok t \<and> (case r of LckRet e \<Rightarrow> wait_ok t w | LckSleep f j \<Rightarrow> wait_ok t ((pid, i, j, ld) # w))"
  proof (rule round_cases[OF k(1) i r])
    fix e u assume u: "r = LckRet e" "edits pid (FileChain i) s u" "t = freefid u i"
    have "tab_ok u" "hold u w i" using edits_tab[OF u(2) k(1) i] edits_hold[OF u(2) k(1,2)] .
    from freefid_wait[OF this] u show ?thesis by simp
  next
    fix f j u
    assume u: "r = LckSleep f j" "f \<in> set (lchain s (FileChain i))" "deadflck fuel pid s f \<noteq> Some True"
      "insflck pid s SleepChain ld None = (Some j, u)"
      "t = set_stat (set_stat u f (fk_stat (flox u ! f) + 1)) j (l_pid (fk u f))"
    show ?thesis using sleep_inv[OF k(1-3) u(2,3) k(4) u(4,5)] u(1) by simp
  qed
  then show "tab_ok t" "case r of LckRet e \<Rightarrow> wait_ok t w | LckSleep f j \<Rightarrow> wait_ok t ((pid, i, j, ld) # w)"
    by simp_all
qed

text \<open>A sleeping call that runs again first takes its record off the chain of sleeping locks.\<close>

lemma users_remove1: "x \<in> set w \<Longrightarrow> users (remove1 x w) i = users w i - (if w_fid x = i then 1 else 0)"
  by (induction w) (auto simp: users_Cons)

lemma resume_hold:
  assumes k: "tab_ok s" "wait_ok s w" and x: "(pid, i, j, ld) \<in> set w"
  defines "w' \<equiv> remove1 (pid, i, j, ld) w" and "t \<equiv> delflck (set_stat s j 0) SleepChain j"
  shows "tab_ok t" "hold t w' i" "pid \<notin> w_pid ` set w'" "length (sleeplcks t) < length (sleeplcks s)"
proof -
  let ?s = "set_stat s j 0"
  have j: "j \<in> set (sleeplcks s)" using wait_ok_recs[OF k(2)] x by force
  have w: "distinct (map w_pid w)" "mset (map w_rec w) = mset (sleeplcks s)" "acyclic (waits s)"
    "\<And>y. y \<in> set w \<Longrightarrow> l_pid (fk s (w_rec y)) = w_pid y \<and> w_fid y \<in> set (fids s)"
    "\<And>i. i \<in> set (fids s) \<Longrightarrow> users w i \<le> fl_refcnt (flinotab s ! i)"
    using k(2) by (auto simp: wait_ok_def)
  have m: "mset ((pid, i, j, ld) # w') = mset w" using x by (simp add: w'_def)
  have mp: "mset (map g ((pid, i, j, ld) # w')) = mset (map g w)" for g :: "waiter \<Rightarrow> 'b"
    by (simp only: mset_map m)
  have jp: "l_pid (fk s j) = pid" "i \<in> set (fids s)" using w(4)[OF x] by simp_all
  have ts: "tab_ok ?s" by (rule set_stat_tab[OF k(1)])
  have ed: "edits pid SleepChain ?s t"
    unfolding t_def by (rule edits_del[OF edits_refl]) (use j jp in \<open>simp_all add: flock_simps lchain_def\<close>)
  show "tab_ok t" by (rule sleep_edit_tab[OF ed ts])
  have sl: "sleeplcks t = remove1 j (sleeplcks s)"
    using lchain_delflck[of ?s SleepChain j] by (simp add: t_def lchain_def lvalid_def flock_simps)
  show "length (sleeplcks t) < length (sleeplcks s)" using j by (simp add: sl length_remove1) (cases "sleeplcks s"; simp)
  have dp: "distinct (map w_pid ((pid, i, j, ld) # w'))"
    using w(1) mset_eq_imp_distinct_iff[OF mp[of w_pid]] by simp
  then show "pid \<notin> w_pid ` set w'" by simp
  have same: "fids t = fids s" "flinotab t = flinotab s"
    using same_but_delflck[of SleepChain ?s j] by (simp_all add: t_def same_but_def flock_simps)
  have dj: "distinct (sleeplcks s)" using tab_sleep_ok[OF k(1)] by (simp add: lk_ok_def lchain_def)
  have fo: "flox t ! m = flox s ! m" if "m \<noteq> j" for m
    using that by (simp add: t_def flock_simps set_stat_flox)
  have "waits t \<subseteq> waits s"
  proof
    fix y assume "y \<in> waits t"
    then obtain m where m: "m \<in> set (sleeplcks s)" "m \<noteq> j" "y = (l_pid (fk t m), fk_stat (flox t ! m))"
      using dj by (auto simp: waits_def sl)
    then have "y = (l_pid (fk s m), fk_stat (flox s ! m))" by (simp add: fo fk_def)
    with m(1) show "y \<in> waits s" by (simp add: waits_def)
  qed
  then have "acyclic (waits t)" by (rule acyclic_subset[OF w(3)])
  moreover have "mset (map w_rec w') = mset (sleeplcks t)"
  proof -
    have "add_mset j (mset (map w_rec w')) = mset (sleeplcks s)" using mp[of w_rec] w(2) by simp
    then have "mset (sleeplcks s) - {#j#} = mset (map w_rec w')" by (metis add_mset_remove_trivial)
    then show ?thesis by (simp add: sl)
  qed
  moreover have "l_pid (fk t (w_rec y)) = w_pid y \<and> w_fid y \<in> set (fids t)" if "y \<in> set w'" for y
  proof -
    have "y \<in> set w" using that set_remove1_subset[of "(pid, i, j, ld)" w] unfolding w'_def by blast
    from w(4)[OF this] show ?thesis by (simp add: same) (simp add: t_def flock_simps)
  qed
  moreover have "distinct (map w_pid w')" using dp by simp
  moreover have "users w' m \<le> fl_refcnt (flinotab t ! m)" if "m \<in> set (fids t)" for m
    using w(5)[of m] that x by (cases "m = i") (simp_all add: w'_def users_remove1 same)
  moreover have "users w' i + 1 \<le> fl_refcnt (flinotab t ! i)"
    using w(5)[OF jp(2)] x by (simp add: w'_def users_remove1 same)
  ultimately show "hold t w' i" using jp(2) by (simp add: hold_def wait_ok_def same)
qed

section \<open>Runs\<close>

text \<open>
  \<open>deadflck\<close> gets one round of fuel more than there are sleeping locks. \<open>G\<close> restricts the set and
  clear requests a run may contain (\<open>\<lambda>_ _ _ _. True\<close> for none).
\<close>

abbreviation lk_fuel :: "flcks \<Rightarrow> nat" where
  "lk_fuel s \<equiv> Suc (length (sleeplcks s))"

definition request :: "lfile \<Rightarrow> flock \<Rightarrow> flock" where
  "request fp ld = to_end (snd (convoff fp ld 0))"

inductive lk_step :: "(int \<Rightarrow> flcks \<Rightarrow> lfile \<Rightarrow> flock \<Rightarrow> bool) \<Rightarrow> flcks \<times> waiter list \<Rightarrow> flcks \<times> waiter list \<Rightarrow> bool" for G where
  step_get: "pid \<notin> w_pid ` set w \<Longrightarrow> lk_step G (s, w) (snd (getflck pid s fp ld), w)"
| step_set: "\<lbrakk>pid \<notin> w_pid ` set w; G pid s fp ld; setflck (lk_fuel s) pid s fp ld slp = (LckRet e, t)\<rbrakk>
    \<Longrightarrow> lk_step G (s, w) (t, w)"
| step_sleep: "\<lbrakk>pid \<notin> w_pid ` set w; G pid s fp ld; setflck (lk_fuel s) pid s fp ld slp = (LckSleep f j, t);
    findfid_in t (lf_dev fp) (lf_number fp) (fids t) = Some i\<rbrakk>
    \<Longrightarrow> lk_step G (s, w) (t, (pid, i, j, request fp ld) # w)"
| step_wake: "\<lbrakk>(pid, i, j, ld) \<in> set w; setflck_resume (lk_fuel s) pid s i j ld intr = (LckRet e, t)\<rbrakk>
    \<Longrightarrow> lk_step G (s, w) (t, remove1 (pid, i, j, ld) w)"
| step_again: "\<lbrakk>(pid, i, j, ld) \<in> set w; setflck_resume (lk_fuel s) pid s i j ld intr = (LckSleep f m, t)\<rbrakk>
    \<Longrightarrow> lk_step G (s, w) (t, (pid, i, m, ld) # remove1 (pid, i, j, ld) w)"
| step_clean: "pid \<notin> w_pid ` set w \<Longrightarrow> lk_step G (s, w) (cleanlocks pid s fp, w)"

definition flcks0 :: "nat \<Rightarrow> nat \<Rightarrow> flcks" where
  "flcks0 nfils nrecs =
     \<lparr>flox = replicate nrecs \<lparr>fk_set = \<lparr>l_type = 0, l_whence = 0, l_start = 0, l_end = 0, l_pid = 0\<rparr>, fk_stat = 0\<rparr>,
      flinotab = replicate nfils \<lparr>fl_dev = 0, fl_number = 0, fl_refcnt = 0, fl_flck = []\<rparr>,
      frlock = [], frfid = [], fids = [], sleeplcks = [], reccnt = 0, filcnt = 0, rectot = 0, filtot = 0,
      lk_wakes = []\<rparr>"

inductive lk_reach :: "(int \<Rightarrow> flcks \<Rightarrow> lfile \<Rightarrow> flock \<Rightarrow> bool) \<Rightarrow> nat \<Rightarrow> nat \<Rightarrow> flcks \<times> waiter list \<Rightarrow> bool" for G nfils nrecs where
  lk_init: "lk_reach G nfils nrecs (flckinit (flcks0 nfils nrecs) nfils nrecs, [])"
| lk_next: "\<lbrakk>lk_reach G nfils nrecs x; lk_step G x y\<rbrakk> \<Longrightarrow> lk_reach G nfils nrecs y"

definition lk_inv :: "flcks \<times> waiter list \<Rightarrow> bool" where
  "lk_inv x = (tab_ok (fst x) \<and> wait_ok (fst x) (snd x))"

text \<open>The calls.\<close>

lemma convoff_err: "convoff fp ld w = (Some e, ld') \<Longrightarrow> e = EINVAL"
  by (auto simp: convoff_def Let_def split: if_splits)

lemma setflck_cases:
  assumes r: "setflck fuel pid s fp ld slp = (r, t)" and k: "tab_ok s"
  obtains (ret) e where "r = LckRet e" "t = s" "e \<notin> {Some EACCES, Some EDEADLK, Some ENOSPC}"
      "e = None \<longrightarrow> l_type (request fp ld) = F_UNLCK \<and> findfid_in s (lf_dev fp) (lf_number fp) (fids s) = None"
  | (found) i s1 where "findfid s fp = (Some i, s1)" "setflck_round fuel pid s1 i (request fp ld) slp = (r, t)"
  | (new) i s1 where "findfid_in s (lf_dev fp) (lf_number fp) (fids s) = None" "allocfid s fp = (Some i, s1)"
      "setflck_round fuel pid s1 i (request fp ld) slp = (r, t)" "l_type (request fp ld) \<noteq> F_UNLCK"
proof -
  obtain c ld1 where c: "convoff fp ld 0 = (c, ld1)" by fastforce
  obtain q s1 where q: "findfid s fp = (q, s1)" by fastforce
  obtain a s2 where a: "allocfid s fp = (a, s2)" by fastforce
  have rq: "request fp ld = to_end ld1" by (simp add: request_def c)
  have q0: "findfid_in s (lf_dev fp) (lf_number fp) (fids s) = None \<and> s1 = s" if "q = None"
    using q that by (auto simp: findfid_def split: option.splits)
  have a0: "s2 = s" if "a = None" using a that by (auto simp: allocfid_def split: list.splits)
  show thesis
  proof (cases "lf_vnode fp \<and> lf_svfs fp \<and> \<not> (l_type ld = F_RDLCK \<and> \<not> lf_read fp \<or> l_type ld = F_WRLCK \<and> \<not> lf_write fp) \<and> c = None")
    case False
    then have "\<exists>e. r = LckRet (Some e) \<and> t = s \<and> e \<notin> {EACCES, EDEADLK, ENOSPC}"
      using r c convoff_err[of fp ld 0] by (auto simp: setflck_def split: if_splits option.splits)
    then show thesis using ret by auto
  next
    case True
    have nb: "(l_type ld = F_RDLCK \<and> \<not> lf_read fp \<or> l_type ld = F_WRLCK \<and> \<not> lf_write fp) = False"
      using True by blast
    have main: "(case findfid s fp of
                (Some i, s1) \<Rightarrow> setflck_round fuel pid s1 i (to_end ld1) slp
              | (None, s1) \<Rightarrow>
                  (if l_type (to_end ld1) = F_UNLCK then (LckRet None, s1)
                   else
                     (case allocfid s1 fp of
                        (None, s2) \<Rightarrow> (LckRet (Some EMFILE), s2)
                      | (Some i, s2) \<Rightarrow> setflck_round fuel pid s2 i (to_end ld1) slp))) = (r, t)"
      using r True c by (simp add: setflck_def nb Let_def)
    show thesis
    proof (cases q)
      case (Some i)
      with main q rq show thesis by (intro found[of i s1]) simp_all
    next
      case None
      note n = q0[OF None]
      show thesis
      proof (cases "l_type (to_end ld1) = F_UNLCK \<or> a = None")
        case True
        have "\<exists>e. r = LckRet e \<and> t = s \<and> e \<notin> {Some EACCES, Some EDEADLK, Some ENOSPC}
            \<and> (e = None \<longrightarrow> l_type (to_end ld1) = F_UNLCK)"
          using main q None n a a0 True by (auto split: if_splits)
        then show thesis using ret n rq by auto
      next
        case False
        then obtain i where "a = Some i" by auto
        with False n main q None a rq show thesis by (intro new[of i s2]) simp_all
      qed
    qed
  qed
qed

lemma setflck_inv:
  assumes k: "tab_ok s" "wait_ok s w" "pid \<notin> w_pid ` set w"
    and r: "setflck (lk_fuel s) pid s fp ld slp = (r, t)"
  shows "tab_ok t" "r = LckRet e \<Longrightarrow> wait_ok t w"
    "\<lbrakk>r = LckSleep f j; findfid_in t (lf_dev fp) (lf_number fp) (fids t) = Some i\<rbrakk>
       \<Longrightarrow> wait_ok t ((pid, i, j, request fp ld) # w)"
proof -
  have run: "tab_ok t \<and> (\<forall>e. r = LckRet e \<longrightarrow> wait_ok t w)
      \<and> (\<forall>f j. r = LckSleep f j \<longrightarrow> findfid_in t (lf_dev fp) (lf_number fp) (fids t) = Some i
           \<longrightarrow> wait_ok t ((pid, i, j, request fp ld) # w))"
    if u: "tab_ok u" "hold u w m" "same_recs s u" "fid_key u m = (lf_dev fp, lf_number fp)"
      and d: "setflck_round (lk_fuel s) pid u m (request fp ld) slp = (r, t)" for u m
  proof -
    have fu: "length (sleeplcks u) < lk_fuel s" using same_recs_flox[OF u(3)] by simp
    note i = round_inv[OF u(1,2) k(3) fu d]
    have "m = i" if "r = LckSleep f j" "findfid_in t (lf_dev fp) (lf_number fp) (fids t) = Some i" for f j
    proof -
      have mu: "m \<in> set (fids u)" using u(2) by (simp add: hold_def)
      have "flinotab t = flinotab u \<and> fids t = fids u"
      proof (rule round_cases[OF u(1) mu d])
        fix f j v assume "insflck pid u SleepChain (request fp ld) None = (Some j, v)"
          "t = set_stat (set_stat v f (fk_stat (flox v ! f) + 1)) j (l_pid (fk v f))"
        then show ?thesis using same_but_insflck[of pid u SleepChain] by (simp add: flock_simps same_but_def)
      qed (use that(1) in simp)
      then have "findfid_in u (lf_dev fp) (lf_number fp) (fids u) = Some i"
        using that(2) findfid_in_cong[of "fids u" t u] by (simp add: fid_key_def)
      moreover have "inj_on (fid_key u) (set (fids u))" using u(1) by (simp add: tab_ok_def)
      ultimately show ?thesis using u(4) mu by (metis findfid_in_iff inj_onD)
    qed
    with i show ?thesis by (auto split: lckres.splits)
  qed
  have "tab_ok t \<and> (\<forall>e. r = LckRet e \<longrightarrow> wait_ok t w)
      \<and> (\<forall>f j. r = LckSleep f j \<longrightarrow> findfid_in t (lf_dev fp) (lf_number fp) (fids t) = Some i
           \<longrightarrow> wait_ok t ((pid, i, j, request fp ld) # w))"
  proof (rule setflck_cases[OF r k(1)])
    fix m u assume f: "findfid s fp = (Some m, u)" "setflck_round (lk_fuel s) pid u m (request fp ld) slp = (r, t)"
    note g = findfid_facts[OF f(1) k(1)]
    show ?thesis by (rule run[OF g(2) findfid_hold[OF f(1) k(1,2)] g(1) _ f(2)]) (simp add: g(5,6))
  next
    fix m u assume f: "findfid_in s (lf_dev fp) (lf_number fp) (fids s) = None" "allocfid s fp = (Some m, u)"
      "setflck_round (lk_fuel s) pid u m (request fp ld) slp = (r, t)"
    note g = allocfid_facts[OF f(2) k(1) f(1)]
    show ?thesis by (rule run[OF g(2) allocfid_hold[OF f(2) k(1) f(1) k(2)] g(1,6) f(3)])
  qed (use k in simp)
  then show "tab_ok t" "r = LckRet e \<Longrightarrow> wait_ok t w"
    "\<lbrakk>r = LckSleep f j; findfid_in t (lf_dev fp) (lf_number fp) (fids t) = Some i\<rbrakk>
       \<Longrightarrow> wait_ok t ((pid, i, j, request fp ld) # w)" by simp_all
qed

lemma resume_inv:
  assumes k: "tab_ok s" "wait_ok s w" "(pid, i, j, ld) \<in> set w"
    and r: "setflck_resume (lk_fuel s) pid s i j ld intr = (r, t)"
  defines "w' \<equiv> remove1 (pid, i, j, ld) w"
  shows "tab_ok t" "r = LckRet e \<Longrightarrow> wait_ok t w'" "r = LckSleep f m \<Longrightarrow> wait_ok t ((pid, i, m, ld) # w')"
proof -
  let ?u = "delflck (set_stat s j 0) SleepChain j"
  note h = resume_hold[OF k, folded w'_def]
  have d: "(if intr then (LckRet (Some EINTR), freefid ?u i) else setflck_round (lk_fuel s) pid ?u i ld True) = (r, t)"
    using r by (simp only: setflck_resume_def Let_def set_stat_def)
  have "tab_ok t \<and> (case r of LckRet e \<Rightarrow> wait_ok t w' | LckSleep f m \<Rightarrow> wait_ok t ((pid, i, m, ld) # w'))"
  proof (cases intr)
    case True
    with d freefid_wait[OF h(1,2)] show ?thesis by auto
  next
    case False
    with d have "setflck_round (lk_fuel s) pid ?u i ld True = (r, t)" by simp
    from round_inv[OF h(1-3) _ this] h(4) show ?thesis by simp
  qed
  then show "tab_ok t" "r = LckRet e \<Longrightarrow> wait_ok t w'" "r = LckSleep f m \<Longrightarrow> wait_ok t ((pid, i, m, ld) # w')"
    by simp_all
qed

lemma getflck_inv:
  assumes "tab_ok s" "wait_ok s w"
  shows "tab_ok (snd (getflck pid s fp ld)) \<and> wait_ok (snd (getflck pid s fp ld)) w"
proof (cases "lf_vnode fp \<and> lf_svfs fp")
  case True
  obtain q s1 where q: "findfid s fp = (q, s1)" by fastforce
  show ?thesis
  proof (cases q)
    case None
    with q have "s1 = s" by (auto simp: findfid_def split: option.splits)
    with None q True assms show ?thesis by (simp add: getflck_def)
  next
    case (Some i)
    with q have f: "findfid s fp = (Some i, s1)" by simp
    note h = findfid_facts(2)[OF f assms(1)] findfid_hold[OF f assms]
    have "snd (getflck pid s fp ld) = s1 \<or> snd (getflck pid s fp ld) = freefid s1 i"
      using True f by (auto simp: getflck_def Let_def split: prod.splits option.splits)
    with freefid_wait[OF h] h show ?thesis by (auto simp: hold_def)
  qed
qed (use assms in \<open>auto simp: getflck_def\<close>)

lemma clean_walk_edits:
  "\<lbrakk>lk_ok s c; distinct fs; set fs \<subseteq> set (lchain s c)\<rbrakk> \<Longrightarrow> edits pid c s (clean_walk pid s c fs)"
proof (induction fs arbitrary: s)
  case Nil
  then show ?case by (simp add: edits_refl)
next
  case (Cons f fs)
  let ?t = "if l_pid (fk s f) = pid then delflck s c f else s"
  have e: "edits pid c s ?t" using Cons.prems(3) by (auto intro: edits.intros)
  have "set fs \<subseteq> set (lchain ?t c)" using Cons.prems by (auto simp: set_delflck)
  then have "edits pid c ?t (clean_walk pid ?t c fs)"
    using Cons.prems(2) edits_ok[OF e Cons.prems(1)] by (intro Cons.IH) simp_all
  from edits_trans[OF this e] show ?case by simp
qed

lemma cleanlocks_cases:
  assumes "tab_ok s"
  obtains (none) "cleanlocks pid s fp = s"
      "lf_vnode fp \<and> lf_svfs fp \<longrightarrow> findfid_in s (lf_dev fp) (lf_number fp) (fids s) = None"
  | (some) i s1 u where "lf_vnode fp" "lf_svfs fp" "findfid s fp = (Some i, s1)"
      "u = clean_walk pid s1 (FileChain i) (lchain s1 (FileChain i))"
      "edits pid (FileChain i) s1 u" "cleanlocks pid s fp = freefid u i"
proof (cases "lf_vnode fp \<and> lf_svfs fp")
  case True
  obtain q s1 where q: "findfid s fp = (q, s1)" by fastforce
  show thesis
  proof (cases q)
    case None
    with q have "s1 = s" "findfid_in s (lf_dev fp) (lf_number fp) (fids s) = None"
      by (auto simp: findfid_def split: option.splits)
    with None q True show thesis by (intro none) (simp_all add: cleanlocks_def)
  next
    case (Some i)
    with q have f: "findfid s fp = (Some i, s1)" by simp
    note g = findfid_facts[OF f assms]
    have "i < length (flinotab s1)" using tab_fids(4)[OF g(2)] g(3,4) by auto
    note ok = tab_chain_ok[OF g(2) this]
    have "distinct (lchain s1 (FileChain i))" using ok by (simp add: lk_ok_def)
    with ok have "edits pid (FileChain i) s1 (clean_walk pid s1 (FileChain i) (lchain s1 (FileChain i)))"
      by (intro clean_walk_edits) auto
    with True f show thesis by (intro some[OF _ _ f refl]) (auto simp: cleanlocks_def)
  qed
qed (auto simp: cleanlocks_def intro: none)

lemma cleanlocks_inv:
  assumes "tab_ok s" "wait_ok s w"
  shows "tab_ok (cleanlocks pid s fp) \<and> wait_ok (cleanlocks pid s fp) w"
proof (rule cleanlocks_cases[OF assms(1)])
  fix i s1 u assume c: "findfid s fp = (Some i, s1)" "edits pid (FileChain i) s1 u" "cleanlocks pid s fp = freefid u i"
  note h = findfid_facts(2)[OF c(1) assms(1)] findfid_hold[OF c(1) assms]
  have "i \<in> set (fids s1)" using h(2) by (simp add: hold_def)
  from freefid_wait[OF edits_tab[OF c(2) h(1) this] edits_hold[OF c(2) h]] c(3) show ?thesis by simp
qed (use assms in simp)

lemma lk_step_inv: "\<lbrakk>lk_step G x y; lk_inv x\<rbrakk> \<Longrightarrow> lk_inv y"
proof (induction rule: lk_step.induct)
  case (step_get pid w s fp ld)
  then show ?case using getflck_inv[of s w pid fp ld] by (simp add: lk_inv_def)
next
  case (step_set pid w s fp ld slp e t)
  then show ?case using setflck_inv(1,2)[of s w pid] by (fastforce simp: lk_inv_def)
next
  case (step_sleep pid w s fp ld slp f j t i)
  then show ?case using setflck_inv(1,3)[of s w pid] by (fastforce simp: lk_inv_def)
next
  case (step_wake pid i j ld w s intr e t)
  then show ?case using resume_inv(1,2)[of s w pid i j ld] by (fastforce simp: lk_inv_def)
next
  case (step_again pid i j ld w s intr f m t)
  then show ?case using resume_inv(1,3)[of s w pid i j ld] by (fastforce simp: lk_inv_def)
next
  case (step_clean pid w s fp)
  then show ?case using cleanlocks_inv[of s w pid fp] by (simp add: lk_inv_def)
qed

lemma free_fids_init:
  "\<lbrakk>fids s = []; flinotab s = replicate k \<lparr>fl_dev = 0, fl_number = 0, fl_refcnt = 0, fl_flck = []\<rparr>;
    frfid s = rev [0..<i]; i + n \<le> k\<rbrakk>
   \<Longrightarrow> \<exists>x. free_fids s i n = s\<lparr>frfid := rev [0..<i + n], filcnt := x\<rparr>"
proof (induction n arbitrary: s i)
  case 0
  then show ?case by (intro exI[of _ "filcnt s"]) simp
next
  case (Suc n)
  have f: "freefid s i = s\<lparr>frfid := rev [0..<Suc i], filcnt := filcnt s - 1\<rparr>"
    using Suc.prems by (intro flcks.equality) (simp_all add: freefid_def Let_def list_update_same_conv)
  have "\<exists>x. free_fids (freefid s i) (Suc i) n = (freefid s i)\<lparr>frfid := rev [0..<Suc i + n], filcnt := x\<rparr>"
    using Suc.prems by (intro Suc.IH) (simp_all add: f)
  then show ?case by (simp add: f)
qed

lemma free_recs_init: "frlock s = rev [0..<i] \<Longrightarrow> free_recs s i n = s\<lparr>frlock := rev [0..<i + n]\<rparr>"
  by (induction n arbitrary: s i) simp_all

lemma flckinit_init:
  "flckinit (flcks0 nfils nrecs) nfils nrecs = (flcks0 nfils nrecs)\<lparr>frfid := rev [0..<nfils], frlock := rev [0..<nrecs]\<rparr>"
proof -
  obtain x where "free_fids (flcks0 nfils nrecs) 0 nfils = (flcks0 nfils nrecs)\<lparr>frfid := rev [0..<nfils], filcnt := x\<rparr>"
    using free_fids_init[of "flcks0 nfils nrecs" nfils 0 nfils] by (auto simp: flcks0_def)
  then show ?thesis
    unfolding flckinit_def by (subst free_recs_init) (simp_all add: flcks0_def)
qed

lemma lk_init_inv: "lk_inv (flckinit (flcks0 nfils nrecs) nfils nrecs, [])"
proof -
  let ?s = "(flcks0 nfils nrecs)\<lparr>frfid := rev [0..<nfils], frlock := rev [0..<nrecs]\<rparr>"
  have "tab_ok ?s"
    by (simp add: tab_ok_def all_recs_def flcks0_def)
  moreover have "wait_ok ?s []"
    by (simp add: wait_ok_def waits_def flcks0_def acyclic_def)
  ultimately show ?thesis by (simp add: lk_inv_def flckinit_init)
qed

lemma lk_reach_inv: "lk_reach G nfils nrecs x \<Longrightarrow> lk_inv x"
  by (induction rule: lk_reach.induct) (auto intro: lk_init_inv lk_step_inv)

end
