(* ===== verification/Flock_Calls.thy ===== *)
theory Flock_Calls
  imports Flock_Reach
begin

text \<open>
  What a set or clear request does to the locks of the files (\<open>held\<close>, indexed by device and inode
  number), and the invariant of the locks of different processes: two overlapping locks of different
  processes are both read locks.
\<close>

section \<open>Chains of several processes\<close>

definition exclusive :: "flcks \<Rightarrow> lchain \<Rightarrow> bool" where
  "exclusive s c =
     (\<forall>f \<in> set (lchain s c). \<forall>g \<in> set (lchain s c). l_pid (fk s f) \<noteq> l_pid (fk s g) \<longrightarrow>
        \<not> apart (fk s f) (fk s g) \<longrightarrow> l_type (fk s f) = F_RDLCK \<and> l_type (fk s g) = F_RDLCK)"

definition chain_wf :: "flcks \<Rightarrow> lchain \<Rightarrow> bool" where
  "chain_wf s c =
     (chain_sorted s c \<and> (\<forall>f \<in> set (lchain s c). own_ok (l_pid (fk s f)) s c) \<and> exclusive s c)"

lemma own_ok_all: "(\<forall>f \<in> set (lchain s c). own_ok (l_pid (fk s f)) s c) \<longleftrightarrow> (\<forall>p. own_ok p s c)"
proof
  assume a: "\<forall>f \<in> set (lchain s c). own_ok (l_pid (fk s f)) s c"
  show "\<forall>p. own_ok p s c"
  proof
    fix p show "own_ok p s c"
    proof (cases "\<exists>f \<in> set (lchain s c). l_pid (fk s f) = p")
      case True
      with a show ?thesis by auto
    next
      case False
      then show ?thesis by (auto simp: own_ok_def)
    qed
  qed
qed simp

lemma chain_wfD:
  assumes "chain_wf s c"
  shows "chain_sorted s c" "own_ok p s c" "exclusive s c"
  using assms own_ok_all[of s c] by (auto simp: chain_wf_def)

text \<open>Exclusion seen on the bytes.\<close>

definition excl_bytes :: "(int \<times> int \<times> int) set \<Rightarrow> bool" where
  "excl_bytes L = (\<forall>p q b t u. (p, b, t) \<in> L \<longrightarrow> (q, b, u) \<in> L \<longrightarrow> p \<noteq> q \<longrightarrow> t = F_RDLCK \<and> u = F_RDLCK)"

lemma excl_bytesD: "\<lbrakk>excl_bytes L; (p, b, t) \<in> L; (q, b, u) \<in> L; p \<noteq> q\<rbrakk> \<Longrightarrow> t = F_RDLCK \<and> u = F_RDLCK"
  by (auto simp: excl_bytes_def)

lemma mem_locks: "(p, b, t) \<in> locks s c \<longleftrightarrow>
    (\<exists>f \<in> set (lchain s c). l_pid (fk s f) = p \<and> l_type (fk s f) = t \<and> l_start (fk s f) \<le> b \<and> b < l_end (fk s f))"
  by (auto simp: locks_def)

lemma exclusive_bytes:
  assumes "\<And>p. own_ok p s c"
  shows "exclusive s c \<longleftrightarrow> excl_bytes (locks s c)"
proof
  assume e: "exclusive s c"
  show "excl_bytes (locks s c)"
    unfolding excl_bytes_def
  proof (intro allI impI)
    fix p q b t u assume "(p, b, t) \<in> locks s c" "(q, b, u) \<in> locks s c" "p \<noteq> q"
    then obtain f g where fg: "f \<in> set (lchain s c)" "g \<in> set (lchain s c)" "l_pid (fk s f) = p" "l_pid (fk s g) = q"
      "l_type (fk s f) = t" "l_type (fk s g) = u" "l_start (fk s f) \<le> b" "b < l_end (fk s f)"
      "l_start (fk s g) \<le> b" "b < l_end (fk s g)" "p \<noteq> q" by (auto simp: mem_locks)
    then have "\<not> apart (fk s f) (fk s g)" by (auto simp: apart_def)
    with fg e show "t = F_RDLCK \<and> u = F_RDLCK" unfolding exclusive_def by blast
  qed
next
  assume e: "excl_bytes (locks s c)"
  show "exclusive s c"
    unfolding exclusive_def
  proof (intro ballI impI)
    fix f g assume fg: "f \<in> set (lchain s c)" "g \<in> set (lchain s c)" "l_pid (fk s f) \<noteq> l_pid (fk s g)"
      "\<not> apart (fk s f) (fk s g)"
    let ?b = "max (l_start (fk s f)) (l_start (fk s g))"
    have "l_start (fk s f) < l_end (fk s f)" "l_start (fk s g) < l_end (fk s g)"
      using own_okD(1)[OF assms fg(1) refl] own_okD(1)[OF assms fg(2) refl] .
    then have "(l_pid (fk s f), ?b, l_type (fk s f)) \<in> locks s c" "(l_pid (fk s g), ?b, l_type (fk s g)) \<in> locks s c"
      using fg by (auto simp: mem_locks apart_def intro!: bexI)
    from excl_bytesD[OF e this fg(3)] show "l_type (fk s f) = F_RDLCK \<and> l_type (fk s g) = F_RDLCK" .
  qed
qed

text \<open>The request may be granted: no byte of it is locked by another process in a conflicting way.\<close>

definition grantable :: "int \<Rightarrow> flock \<Rightarrow> (int \<times> int \<times> int) set \<Rightarrow> bool" where
  "grantable pid ld L =
     (\<forall>p b t. (p, b, t) \<in> L \<longrightarrow> p \<noteq> pid \<longrightarrow> l_start ld \<le> b \<longrightarrow> b < l_end ld \<longrightarrow> t = F_RDLCK \<and> l_type ld = F_RDLCK)"

lemma claim_excl:
  "\<lbrakk>excl_bytes L; l_type ld \<noteq> F_UNLCK \<Longrightarrow> grantable pid ld L\<rbrakk> \<Longrightarrow> excl_bytes (claim pid ld L)"
  unfolding excl_bytes_def grantable_def by (auto simp: claim_iff)

lemma excl_sub: "\<lbrakk>excl_bytes L; M \<subseteq> L\<rbrakk> \<Longrightarrow> excl_bytes M"
  unfolding excl_bytes_def by blast

section \<open>The answer of blocked on a sorted chain\<close>

lemma blocked1_None:
  "\<lbrakk>sorted (map (\<lambda>g. l_start (fk s g)) fs); blocked1 pid s fs ld i = (None, j)\<rbrakk>
   \<Longrightarrow> (\<forall>g \<in> set fs. l_pid (fk s g) = pid \<or> \<not> conflicts (fk s g) ld)
      \<and> (j = i \<and> (\<forall>g \<in> set fs. l_start ld \<le> l_start (fk s g))
         \<or> (\<exists>pre f post. fs = pre @ f # post \<and> j = Some f \<and> l_start (fk s f) < l_start ld
              \<and> (\<forall>g \<in> set pre. l_pid (fk s g) = pid \<longrightarrow> apart (fk s g) ld)))"
proof (induction fs arbitrary: i)
  case Nil
  then show ?case by simp
next
  case (Cons f fs)
  note so = Cons.prems(1)
  have b2: "\<forall>g \<in> set (f # fs). l_pid (fk s g) = pid \<or> \<not> conflicts (fk s g) ld"
    if "blocked2 pid s (f # fs) ld = None" by (rule blocked2_spec[OF so that])
  have here: "\<exists>pre g post. f # fs = pre @ g # post \<and> Some f = Some g \<and> l_start (fk s g) < l_start ld
      \<and> (\<forall>h \<in> set pre. l_pid (fk s h) = pid \<longrightarrow> apart (fk s h) ld)" if "l_start (fk s f) < l_start ld"
    using that by (intro exI[of _ "[]"] exI[of _ f] exI[of _ fs]) simp
  show ?case
  proof (cases "l_start (fk s f) < l_start ld")
    case False
    then have "\<forall>g \<in> set (f # fs). l_start ld \<le> l_start (fk s g)" using so by fastforce
    with False Cons.prems(2) b2 show ?thesis by (simp del: blocked2.simps)
  next
    case lt: True
    show ?thesis
    proof (cases "l_pid (fk s f) = pid \<and> l_start ld \<le> l_end (fk s f) \<and> l_start (fk s f) \<le> l_end ld")
      case True
      then have "blocked2 pid s (f # fs) ld = None" "j = Some f"
        using lt Cons.prems(2) by (simp_all del: blocked2.simps)
      with b2 here[OF lt] show ?thesis by simp
    next
      case False
      have nc: "l_pid (fk s f) = pid \<or> \<not> conflicts (fk s f) ld" "blocked1 pid s fs ld (Some f) = (None, j)"
        using Cons.prems(2) lt False by (auto split: if_splits)
      have ap: "l_pid (fk s f) = pid \<longrightarrow> apart (fk s f) ld" using False by (auto simp: apart_def)
      from Cons.IH[OF _ nc(2)] so have ih: "\<forall>g \<in> set fs. l_pid (fk s g) = pid \<or> \<not> conflicts (fk s g) ld"
        "j = Some f \<or> (\<exists>pre h post. fs = pre @ h # post \<and> j = Some h \<and> l_start (fk s h) < l_start ld
              \<and> (\<forall>g \<in> set pre. l_pid (fk s g) = pid \<longrightarrow> apart (fk s g) ld))" by auto
      from ih(2) have "\<exists>pre h post. f # fs = pre @ h # post \<and> j = Some h \<and> l_start (fk s h) < l_start ld
              \<and> (\<forall>g \<in> set pre. l_pid (fk s g) = pid \<longrightarrow> apart (fk s g) ld)"
      proof (elim disjE exE conjE)
        assume "j = Some f"
        with here[OF lt] show ?thesis by simp
      next
        fix pre h post assume "fs = pre @ h # post" "j = Some h" "l_start (fk s h) < l_start ld"
          "\<forall>g \<in> set pre. l_pid (fk s g) = pid \<longrightarrow> apart (fk s g) ld"
        with ap show ?thesis by (intro exI[of _ "f # pre"] exI[of _ h] exI[of _ post]) simp
      qed
      with ih(1) nc(1) show ?thesis by simp
    qed
  qed
qed

lemma blocked_None:
  assumes w: "chain_wf s c" and d: "distinct (lchain s c)" and b: "blocked pid s (lchain s c) ld = (None, j)"
  shows "\<forall>g \<in> set (lchain s c). l_pid (fk s g) = pid \<or> \<not> conflicts (fk s g) ld"
    "starts_at pid s c ld j" "ins_ok s c j ld"
proof -
  have so: "sorted (map (\<lambda>g. l_start (fk s g)) (lchain s c))" using chain_wfD(1)[OF w] by (simp add: chain_sorted_def)
  note n = blocked1_None[OF so b[unfolded blocked_def]]
  show "\<forall>g \<in> set (lchain s c). l_pid (fk s g) = pid \<or> \<not> conflicts (fk s g) ld" using n by simp
  from n have "j = None \<and> (\<forall>g \<in> set (lchain s c). l_start ld \<le> l_start (fk s g))
      \<or> (\<exists>pre f post. lchain s c = pre @ f # post \<and> j = Some f \<and> l_start (fk s f) < l_start ld
              \<and> (\<forall>g \<in> set pre. l_pid (fk s g) = pid \<longrightarrow> apart (fk s g) ld))" by simp
  then have "starts_at pid s c ld j \<and> ins_ok s c j ld"
  proof (elim disjE exE conjE)
    fix pre f post
    assume f: "lchain s c = pre @ f # post" "j = Some f" "l_start (fk s f) < l_start ld"
      "\<forall>g \<in> set pre. l_pid (fk s g) = pid \<longrightarrow> apart (fk s g) ld"
    have "f \<notin> set pre" using d f(1) by auto
    then have r: "from_rec (lchain s c) f = f # post" unfolding f(1) by (induction pre) auto
    have "set (lchain s c) - set (f # post) \<subseteq> set pre" by (auto simp: f(1))
    then have "off pid s ld (set (lchain s c) - set (f # post))" using f(4) by (auto simp: off_def)
    moreover have "f \<in> set (lchain s c)" by (simp add: f(1))
    ultimately show ?thesis unfolding starts_at_def ins_ok_def f(2) by (simp only: r option.case) (use f(3) in simp)
  qed (simp add: starts_at_def ins_ok_def)
  then show "starts_at pid s c ld j" "ins_ok s c j ld" by simp_all
qed

lemma free_grantable:
  assumes "chain_wf s c" "\<forall>g \<in> set (lchain s c). l_pid (fk s g) = pid \<or> \<not> conflicts (fk s g) ld"
    "l_type ld = F_RDLCK \<or> l_type ld = F_WRLCK"
  shows "grantable pid ld (locks s c)"
  unfolding grantable_def
proof (intro allI impI)
  fix p b t assume b: "(p, b, t) \<in> locks s c" "p \<noteq> pid" "l_start ld \<le> b" "b < l_end ld"
  then obtain f where f: "f \<in> set (lchain s c)" "l_pid (fk s f) = p" "l_type (fk s f) = t"
    "l_start (fk s f) \<le> b" "b < l_end (fk s f)" by (auto simp: mem_locks)
  have "t \<in> {F_RDLCK, F_WRLCK}" using own_okD(4)[OF chain_wfD(2)[OF assms(1)] f(1) refl] f(3) by simp
  moreover have "\<not> conflicts (fk s f) ld" using assms(2) f(1,2) b(2) by auto
  ultimately show "t = F_RDLCK \<and> l_type ld = F_RDLCK"
    using f b assms(3) by (auto simp: conflicts_def)
qed

lemma conflict_ungrantable:
  assumes "chain_wf s c" "f \<in> set (lchain s c)" "l_pid (fk s f) \<noteq> pid" "conflicts (fk s f) ld" "l_start ld < l_end ld"
  shows "\<not> grantable pid ld (locks s c)"
proof -
  let ?b = "max (l_start (fk s f)) (l_start ld)"
  have "l_start (fk s f) < l_end (fk s f)" using own_okD(1)[OF chain_wfD(2)[OF assms(1)] assms(2) refl] .
  then have "(l_pid (fk s f), ?b, l_type (fk s f)) \<in> locks s c" "l_start ld \<le> ?b" "?b < l_end ld"
    using assms(2,4,5) by (auto simp: mem_locks conflicts_def intro!: bexI[of _ f])
  moreover have "\<not> (l_type (fk s f) = F_RDLCK \<and> l_type ld = F_RDLCK)"
    using assms(4) by (auto simp: conflicts_def flock_consts)
  ultimately show ?thesis using assms(3) unfolding grantable_def by blast
qed

text \<open>A granted lock never splits a lock at a place where another process's lock starts.\<close>

lemma lock_unsplit:
  assumes w: "chain_wf s c" and n: "\<forall>g \<in> set (lchain s c). l_pid (fk s g) = pid \<or> \<not> conflicts (fk s g) ld"
    and ty: "l_type ld = F_RDLCK \<or> l_type ld = F_WRLCK"
  shows "unsplit pid s c ld (set (lchain s c))"
  unfolding unsplit_def
proof (intro ballI impI notI)
  fix f g
  assume f: "f \<in> set (lchain s c)" "l_pid (fk s f) = pid" "l_type (fk s f) \<noteq> l_type ld"
    "l_start (fk s f) < l_end ld" "l_end ld < l_end (fk s f)"
    and g: "g \<in> set (lchain s c)" "l_pid (fk s g) \<noteq> pid" "l_start (fk s f) \<le> l_start (fk s g)"
    "l_start ld \<le> l_start (fk s g) \<and> l_start (fk s g) < l_end ld"
  have gp: "l_start (fk s g) < l_end (fk s g)" "l_type (fk s g) \<in> {F_RDLCK, F_WRLCK}"
    using own_okD(1,4)[OF chain_wfD(2)[OF w] g(1) refl] by auto
  then have "\<not> conflicts (fk s g) ld" using n g by auto
  with gp g(4) ty have "l_type (fk s g) = F_RDLCK" "l_type ld = F_RDLCK" by (auto simp: conflicts_def)
  moreover have "\<not> apart (fk s f) (fk s g)" using f g gp by (auto simp: apart_def)
  then have "l_type (fk s f) = F_RDLCK"
    using chain_wfD(3)[OF w] f(1,2) g(1,2) unfolding exclusive_def by metis
  ultimately show False using f(3) by simp
qed

section \<open>flckadj on a well-formed chain\<close>

lemma own_ok_foreign:
  assumes "edits pid c s t" "lk_ok s c" "q \<noteq> pid" "own_ok q s c"
  shows "own_ok q t c"
proof -
  have "(j, fk t j) \<in> {(j, fk s j) |j. j \<in> set (lchain s c) \<and> l_pid (fk s j) \<noteq> pid}"
    if "j \<in> set (lchain t c)" "l_pid (fk t j) = q" for j
    using that assms(3) edits_foreign[OF assms(1,2)] by blast
  then have j: "j \<in> set (lchain s c) \<and> fk t j = fk s j" if "j \<in> set (lchain t c)" "l_pid (fk t j) = q" for j
    using that by auto
  show ?thesis
    unfolding own_ok_def
  proof (intro ballI impI conjI)
    fix f assume f: "f \<in> set (lchain t c)" "l_pid (fk t f) = q"
    note fs = j[OF f]
    then have fq: "l_pid (fk s f) = q" using f by simp
    show "l_start (fk t f) < l_end (fk t f)" "l_type (fk t f) \<in> {F_RDLCK, F_WRLCK}"
      using own_okD(1,4)[OF assms(4) _ fq] fs by auto
    fix g assume g: "g \<in> set (lchain t c)" "g \<noteq> f" "l_pid (fk t g) = q"
    note gs = j[OF g(1,3)]
    then show "apart (fk t f) (fk t g)"
      using own_okD(3)[OF assms(4) _ fq _ g(2)] fs g(3) by simp
  qed
qed

theorem flckadj_wf:
  assumes k: "lk_ok s c" and w: "chain_wf s c" and ld: "l_start ld < l_end ld"
    "l_type ld \<in> {F_RDLCK, F_WRLCK, F_UNLCK}" "l_type ld \<noteq> F_UNLCK \<Longrightarrow> grantable pid ld (locks s c)"
    and st: "starts_at pid s c ld i" "ins_ok s c i ld" "unsplit pid s c ld (set (lchain s c))"
    and a: "flckadj pid s c i ld = (r, t)"
  shows "chain_wf t c"
    "if r = None then locks t c = claim pid ld (locks s c) else r = Some ENOSPC \<and> locks t c \<subseteq> locks s c"
proof -
  have g: "lk_good pid s c" using k chain_wfD(2)[OF w] by (simp add: lk_good_def)
  note cl = flckadj_claims[OF g chain_wfD(1)[OF w] st(1) ld(1,2) a]
  then have e: "edits pid c s t" by simp
  show x: "if r = None then locks t c = claim pid ld (locks s c) else r = Some ENOSPC \<and> locks t c \<subseteq> locks s c"
    using cl by (simp split: if_splits)
  have "own_ok pid t c" using cl by (simp add: lk_good_def split: if_splits)
  then have own: "own_ok p t c" for p
    using own_ok_foreign[OF e k _ chain_wfD(2)[OF w]] by (cases "p = pid") auto
  have "excl_bytes (locks s c)" using exclusive_bytes[OF chain_wfD(2)[OF w]] chain_wfD(3)[OF w] by simp
  then have "excl_bytes (locks t c)"
    using x claim_excl[OF _ ld(3)] excl_sub by (cases "r = None") auto
  then have "exclusive t c" using exclusive_bytes[OF own] by simp
  moreover have "chain_sorted t c" by (rule flckadj_order[OF g chain_wfD(1)[OF w] st(1) ld(1) st(2,3) a])
  ultimately show "chain_wf t c" using own by (simp add: chain_wf_def)
qed

section \<open>The locks of a file\<close>

definition held :: "flcks \<Rightarrow> int \<Rightarrow> int \<Rightarrow> (int \<times> int \<times> int) set" where
  "held s d n = (case findfid_in s d n (fids s) of None \<Rightarrow> {} | Some i \<Rightarrow> locks s (FileChain i))"

definition files_wf :: "flcks \<Rightarrow> bool" where
  "files_wf s = (\<forall>i \<in> set (fids s). chain_wf s (FileChain i))"

lemma held_eq:
  assumes "tab_ok s" "i \<in> set (fids s)"
  shows "held s (fst (fid_key s i)) (snd (fid_key s i)) = locks s (FileChain i)"
proof -
  have "inj_on (fid_key s) (set (fids s))" using assms(1) by (simp add: tab_ok_def)
  then have "findfid_in s (fst (fid_key s i)) (snd (fid_key s i)) (fids s) = Some i"
    using assms(2) by (simp add: findfid_in_iff)
  then show ?thesis by (simp add: held_def)
qed

lemma held_iff:
  assumes "tab_ok s"
  shows "x \<in> held s d n \<longleftrightarrow> (\<exists>i \<in> set (fids s). fid_key s i = (d, n) \<and> x \<in> locks s (FileChain i))"
proof (cases "\<exists>i \<in> set (fids s). fid_key s i = (d, n)")
  case True
  then obtain i where i: "i \<in> set (fids s)" "fid_key s i = (d, n)" by auto
  have u: "j = i" if "j \<in> set (fids s)" "fid_key s j = (d, n)" for j
  proof -
    have inj: "inj_on (fid_key s) (set (fids s))" using assms by (simp add: tab_ok_def)
    have "fid_key s j = fid_key s i" by (simp only: i(2) that(2))
    from inj_onD[OF inj this that(1) i(1)] show ?thesis .
  qed
  have h: "held s d n = locks s (FileChain i)" using held_eq[OF assms i(1)] by (simp add: i(2))
  show ?thesis unfolding h using i u by metis
next
  case False
  then have "findfid_in s d n (fids s) = None" by (auto simp: findfid_in_None)
  with False show ?thesis by (auto simp: held_def)
qed

lemma locks_cong:
  assumes "lchain t c = lchain s c" "\<And>j. j \<in> set (lchain s c) \<Longrightarrow> fk t j = fk s j"
  shows "locks t c = locks s c" "chain_wf t c = chain_wf s c"
proof -
  show "locks t c = locks s c" using assms by (simp add: locks_def)
  have "map (\<lambda>g. l_start (fk t g)) (lchain t c) = map (\<lambda>g. l_start (fk s g)) (lchain s c)"
    using assms by simp
  then have 1: "chain_sorted t c = chain_sorted s c" by (simp only: chain_sorted_def)
  have 2: "own_ok p t c = own_ok p s c" for p
    unfolding own_ok_def assms(1) using assms(2) by (intro ball_cong refl) (auto simp: own_ok_def)
  have 3: "exclusive t c = exclusive s c"
    unfolding exclusive_def assms(1) using assms(2) by (intro ball_cong refl) auto
  show "chain_wf t c = chain_wf s c"
    unfolding chain_wf_def 1 2 3 assms(1) using assms(2) by (metis (no_types, lifting))
qed

lemma chain_same_recs:
  assumes "same_recs s t" "i < length (flinotab s)"
  shows "locks t (FileChain i) = locks s (FileChain i)" "chain_wf t (FileChain i) = chain_wf s (FileChain i)"
  using same_recs_chain[OF assms] same_recs_flox[OF assms(1)]
  by (intro locks_cong; simp add: lchain_def fk_def)+

lemma locks_empty: "fl_flck (flinotab s ! i) = [] \<Longrightarrow> locks s (FileChain i) = {} \<and> chain_wf s (FileChain i)"
  by (simp add: locks_def lchain_def chain_wf_def chain_sorted_def exclusive_def)

text \<open>Operations on identifiers do not change what is held.\<close>

lemma held_findfid:
  assumes "findfid s fp = (Some i, t)" "tab_ok s" "files_wf s"
  shows "held t d n = held s d n" "files_wf t"
proof -
  note f = findfid_facts[OF assms(1,2)]
  have l: "i < length (flinotab s)" if "i \<in> set (fids s)" for i using that tab_fids(4)[OF assms(2)] by auto
  note c = chain_same_recs[OF f(1) l]
  show "held t d n = held s d n"
    by (rule set_eqI) (auto simp: held_iff[OF f(2)] held_iff[OF assms(2)] f(3,6) c(1))
  show "files_wf t" using assms(3) c(2) by (simp add: files_wf_def f(3))
qed

lemma held_allocfid:
  assumes "allocfid s fp = (Some i, t)" "tab_ok s" "findfid_in s (lf_dev fp) (lf_number fp) (fids s) = None" "files_wf s"
  shows "held t d n = held s d n" "files_wf t"
proof -
  note f = allocfid_facts[OF assms(1-3)]
  have l: "i < length (flinotab s)" if "i \<in> set (fids s)" for i using that tab_fids(4)[OF assms(2)] by auto
  note c = chain_same_recs[OF f(1) l]
  note e = locks_empty[OF f(7)]
  have k: "fid_key t j = fid_key s j" if "j \<in> set (fids s)" for j
    using that f(5) f(9)[of j] by (cases "j = i") (auto simp: fid_key_def)
  show "held t d n = held s d n"
    by (rule set_eqI) (auto simp: held_iff[OF f(2)] held_iff[OF assms(2)] f(3) c(1) e k)
  show "files_wf t" using assms(4) c(2) e by (simp add: files_wf_def f(3))
qed

lemma held_freefid:
  assumes "tab_ok s" "i \<in> set (fids s)" "files_wf s"
  shows "held (freefid s i) d n = held s d n" "files_wf (freefid s i)"
proof -
  note f = freefid_facts[OF assms(1,2)]
  have l: "i < length (flinotab s)" if "i \<in> set (fids s)" for i using that tab_fids(4)[OF assms(1)] by auto
  note c = chain_same_recs[OF f(1) l]
  have k: "fid_key (freefid s i) j = fid_key s j" if "j \<noteq> i" for j using f(3)[OF that] by (simp add: fid_key_def)
  have "(\<exists>j \<in> set (fids (freefid s i)). fid_key (freefid s i) j = (d, n) \<and> x \<in> locks (freefid s i) (FileChain j))
      = (\<exists>j \<in> set (fids s). fid_key s j = (d, n) \<and> x \<in> locks s (FileChain j))" for x
    using f(4)
  proof (elim disjE conjE)
    assume a: "fids (freefid s i) = fids s" "fid_key (freefid s i) i = fid_key s i"
    have "fid_key (freefid s i) j = fid_key s j" for j using a(2) k by (cases "j = i") auto
    then show ?thesis using a(1) c(1) by auto
  next
    assume a: "fids (freefid s i) = remove1 i (fids s)" "fl_flck (flinotab s ! i) = []"
    then have "set (fids (freefid s i)) = set (fids s) - {i}" using tab_fids(1)[OF assms(1)] by simp
    then show ?thesis using c(1) k locks_empty[OF a(2)] by auto
  qed
  then show "held (freefid s i) d n = held s d n"
    by (intro set_eqI) (simp add: held_iff[OF f(2)] held_iff[OF assms(1)])
  have "set (fids (freefid s i)) \<subseteq> set (fids s)" using f(4) set_remove1_subset by fastforce
  then show "files_wf (freefid s i)" using assms(3) c(2) by (auto simp: files_wf_def)
qed

text \<open>Edits of one file's chain leave the other files alone.\<close>

lemma held_edits:
  assumes e: "edits pid (FileChain i) s t" and k: "tab_ok s" "i \<in> set (fids s)" "files_wf s"
    and w: "chain_wf t (FileChain i)"
  shows "held t d n = (if fid_key s i = (d, n) then locks t (FileChain i) else held s d n)" "files_wf t"
proof -
  note f = edits_file[OF e k(1,2)]
  note tk = edits_tab[OF e k(1,2)]
  have l: "i < length (flinotab s)" if "i \<in> set (fids s)" for i using that tab_fids(4)[OF k(1)] by auto
  note ok = tab_chain_ok[OF k(1) l[OF k(2)]]
  have c: "locks t (FileChain j) = locks s (FileChain j)" "chain_wf t (FileChain j) = chain_wf s (FileChain j)"
    if j: "j \<in> set (fids s)" "j \<noteq> i" for j
  proof -
    have "lchain t (FileChain j) = lchain s (FileChain j)" using f(7)[OF j(2)] by (simp add: lchain_def)
    moreover have "fk t m = fk s m" if "m \<in> set (lchain s (FileChain j))" for m
    proof -
      have "m \<notin> set (lchain s (FileChain i))"
        using tab_chains_off[OF k(1) l[OF j(1)] l[OF k(2)] j(2)] that by (auto simp: lchain_def)
      moreover have "m \<notin> set (frlock s)"
        using tab_chain_ok[OF k(1) l[OF j(1)]] that by (auto simp: lk_ok_def)
      ultimately show ?thesis using edits_elsewhere[OF e ok] by (simp add: fk_def)
    qed
    ultimately show "locks t (FileChain j) = locks s (FileChain j)" "chain_wf t (FileChain j) = chain_wf s (FileChain j)"
      using locks_cong by blast+
  qed
  show "files_wf t" using k(3) w c(2) unfolding files_wf_def f(1) by metis
  show "held t d n = (if fid_key s i = (d, n) then locks t (FileChain i) else held s d n)"
  proof (cases "fid_key s i = (d, n)")
    case True
    with held_eq[OF tk, of i] f(1,6) k(2) show ?thesis by simp
  next
    case False
    have "x \<in> held t d n \<longleftrightarrow> x \<in> held s d n" for x
      unfolding held_iff[OF tk] held_iff[OF k(1)] f(1,6) using False c(1) by metis
    with False show ?thesis by auto
  qed
qed

section \<open>A set or clear request\<close>

lemma findfid_in_mem: "findfid_in s d n l = Some i \<Longrightarrow> i \<in> set l"
  by (induction l) (auto split: if_splits)

lemma file_chains_cong:
  assumes "fids t = fids s" "flinotab t = flinotab s"
    "\<And>i j. \<lbrakk>i \<in> set (fids s); j \<in> set (lchain s (FileChain i))\<rbrakk> \<Longrightarrow> fk t j = fk s j"
  shows "held t d n = held s d n" "files_wf t = files_wf s"
proof -
  have c: "locks t (FileChain i) = locks s (FileChain i) \<and> chain_wf t (FileChain i) = chain_wf s (FileChain i)"
    if "i \<in> set (fids s)" for i
  proof -
    have "lchain t (FileChain i) = lchain s (FileChain i)" by (simp add: lchain_def assms(2))
    then show ?thesis using locks_cong assms(3)[OF that] by blast
  qed
  have ft: "findfid_in t d n (fids t) = findfid_in s d n (fids s)"
    unfolding assms(1) by (rule findfid_in_cong) (simp add: fid_key_def assms(2))
  show "held t d n = held s d n"
  proof (cases "findfid_in s d n (fids s)")
    case None
    then show ?thesis by (simp add: held_def ft)
  next
    case (Some i)
    with c[OF findfid_in_mem[OF Some]] show ?thesis by (simp add: held_def ft)
  qed
  show "files_wf t = files_wf s" using c by (simp add: files_wf_def assms(1))
qed

lemma set_stat_held: "held (set_stat s j x) d n = held s d n" "files_wf (set_stat s j x) = files_wf s"
  by (rule file_chains_cong; simp add: flock_simps)+

lemma sleep_edits_held:
  assumes e: "edits pid SleepChain s t" and k: "tab_ok s"
  shows "held t d n = held s d n" "files_wf t = files_wf s"
proof -
  have f: "fids t = fids s" "flinotab t = flinotab s" using edits_same_but[OF e] by (simp_all add: same_but_def)
  have "fk t j = fk s j" if "i \<in> set (fids s)" "j \<in> set (lchain s (FileChain i))" for i j
  proof -
    have il: "i < length (flinotab s)" using that(1) tab_fids(4)[OF k] by auto
    have "j \<notin> set (lchain s SleepChain) \<union> set (frlock s)"
      using tab_sleep_off[OF k il] tab_chain_ok[OF k il] that(2) by (auto simp: lchain_def lk_ok_def)
    from edits_elsewhere[OF e tab_sleep_ok[OF k] this] show ?thesis by (simp add: fk_def)
  qed
  from file_chains_cong[OF f this] show "held t d n = held s d n" "files_wf t = files_wf s" by auto
qed

lemma held_sleep:
  assumes k: "tab_ok s" "files_wf s" and ins: "insflck pid s SleepChain ld None = (Some j, u)"
    and t: "t = set_stat (set_stat u f x) m y"
  shows "held t d n = held s d n" "files_wf t"
proof -
  have "edits pid SleepChain s u" by (rule edits_ins[OF edits_refl ins]) simp
  from sleep_edits_held[OF this k(1)] k(2) show "held t d n = held s d n" "files_wf t"
    by (simp_all add: t set_stat_held)
qed

text \<open>What a request with outcome \<open>r\<close> makes of the locks \<open>L\<close> of its file.\<close>

definition outcome_ok :: "int \<Rightarrow> flock \<Rightarrow> lckres \<Rightarrow> (int \<times> int \<times> int) set \<Rightarrow> (int \<times> int \<times> int) set \<Rightarrow> bool" where
  "outcome_ok pid rq r L M =
     (case r of
        LckRet None \<Rightarrow> M = claim pid rq L \<and> (l_type rq \<noteq> F_UNLCK \<longrightarrow> grantable pid rq L)
      | LckRet (Some e) \<Rightarrow>
          (if e = ENOSPC then M \<subseteq> L \<and> {x \<in> M. fst x \<noteq> pid} = {x \<in> L. fst x \<noteq> pid} else M = L)
          \<and> (e = EACCES \<or> e = EDEADLK \<longrightarrow> \<not> grantable pid rq L)
      | LckSleep f j \<Rightarrow> M = L \<and> \<not> grantable pid rq L)"

lemma foreign_locks:
  assumes "edits pid c s t" "lk_ok s c"
  shows "{x \<in> locks t c. fst x \<noteq> pid} = {x \<in> locks s c. fst x \<noteq> pid}"
proof -
  have e: "{x \<in> locks u c. fst x \<noteq> pid}
      = (\<Union>(j, F) \<in> {(j, fk u j) |j. j \<in> set (lchain u c) \<and> l_pid (fk u j) \<noteq> pid}. rng F)" for u
    by (auto simp: locks_def)
  show ?thesis unfolding e edits_foreign[OF assms] ..
qed

lemma round_claims:
  assumes k: "tab_ok s" "i \<in> set (fids s)" "files_wf s" and ld: "l_start ld < l_end ld"
    and un: "l_type ld = F_UNLCK \<Longrightarrow> unsplit pid s (FileChain i) ld (set (lchain s (FileChain i)))"
    and r: "setflck_round fuel pid s i ld slp = (r, t)"
  shows "files_wf t" "fid_key s i = (d, n) \<Longrightarrow> outcome_ok pid ld r (held s d n) (held t d n)"
    "fid_key s i \<noteq> (d, n) \<Longrightarrow> held t d n = held s d n"
proof -
  let ?c = "FileChain i"
  have il: "i < length (flinotab s)" using tab_fids(4)[OF k(1)] k(2) by auto
  note ok = tab_chain_ok[OF k(1) il]
  have w: "chain_wf s ?c" using k(2,3) by (simp add: files_wf_def)
  have dc: "distinct (lchain s ?c)" using ok by (simp add: lk_ok_def)
  have hs: "held s d n = locks s ?c" if "fid_key s i = (d, n)" using held_eq[OF k(1,2)] that by simp
  have unch: "files_wf t \<and> (fid_key s i = (d, n) \<longrightarrow> outcome_ok pid ld r (held s d n) (held t d n))
      \<and> (fid_key s i \<noteq> (d, n) \<longrightarrow> held t d n = held s d n)"
    if "r = LckRet (Some e)" "t = freefid s i" "e = EACCES \<or> e = EDEADLK \<longrightarrow> \<not> grantable pid ld (locks s ?c)" for e
    using held_freefid[OF k] that hs by (simp add: outcome_ok_def)
  have adj: "files_wf t \<and> (fid_key s i = (d, n) \<longrightarrow> outcome_ok pid ld r (held s d n) (held t d n))
      \<and> (fid_key s i \<noteq> (d, n) \<longrightarrow> held t d n = held s d n)"
    if a: "flckadj pid s ?c j ld = (e, u)" "r = LckRet e" "t = freefid u i"
      and st: "starts_at pid s ?c ld j" "ins_ok s ?c j ld" "unsplit pid s ?c ld (set (lchain s ?c))"
      and ty: "l_type ld \<in> {F_RDLCK, F_WRLCK, F_UNLCK}" "l_type ld \<noteq> F_UNLCK \<Longrightarrow> grantable pid ld (locks s ?c)"
    for e u j
  proof -
    note f = flckadj_wf[OF ok w ld ty st a(1)]
    have jc: "g \<in> set (lchain s ?c)" if "j = Some g" for g using st(1) that by (simp add: starts_at_def)
    have ed: "edits pid ?c s u" by (rule flckadj_edits(1)[OF ok jc a(1)])
    note h = held_edits[OF ed k f(1)]
    have iu: "i \<in> set (fids u)" using edits_file(1)[OF ed k(1,2)] k(2) by simp
    note fr = held_freefid[OF edits_tab[OF ed k(1,2)] iu h(2)]
    have "outcome_ok pid ld r (locks s ?c) (locks u ?c)"
      using f(2) ty(2) foreign_locks[OF ed ok] a(2) by (auto simp: outcome_ok_def split: if_splits option.split)
    then show ?thesis using fr h(1) a(3) hs by auto
  qed
  have "files_wf t \<and> (fid_key s i = (d, n) \<longrightarrow> outcome_ok pid ld r (held s d n) (held t d n))
      \<and> (fid_key s i \<noteq> (d, n) \<longrightarrow> held t d n = held s d n)"
  proof (cases "l_type ld = F_RDLCK \<or> l_type ld = F_WRLCK")
    case lock: True
    obtain q j where b: "blocked pid s (lchain s ?c) ld = (q, j)" by fastforce
    show ?thesis
    proof (cases q)
      case None
      note n = blocked_None[OF w dc b[unfolded None]]
      obtain e u where a: "flckadj pid s ?c j ld = (e, u)" by fastforce
      have "r = LckRet e" "t = freefid u i" using r lock b None a by (auto simp: setflck_round_def Let_def)
      then show ?thesis
        using lock free_grantable[OF w n(1) lock] by (intro adj[OF a _ _ n(2,3) lock_unsplit[OF w n(1) lock]]) auto
    next
      case (Some f)
      note f = blocked_Some[OF b[unfolded Some]]
      have ng: "\<not> grantable pid ld (locks s ?c)"
        using f by (intro conflict_ungrantable[OF w _ _ _ ld]) auto
      show ?thesis
      proof (rule round_cases[OF k(1,2) r])
        fix e u assume u: "r = LckRet e" "edits pid ?c s u" "t = freefid u i"
        have "\<exists>e. r = LckRet (Some e) \<and> t = freefid s i"
        proof -
          obtain q2 v where q2: "insflck pid s SleepChain ld None = (q2, v)" by fastforce
          moreover have "v = s" if "q2 = None" using q2 that by (auto dest: insflck_None)
          ultimately show ?thesis using r u(1) lock b Some by (auto simp: setflck_round_def Let_def split: if_splits option.splits)
        qed
        then show ?thesis using unch ng by blast
      next
        fix f j u
        assume u: "r = LckSleep f j" "insflck pid s SleepChain ld None = (Some j, u)"
          "t = set_stat (set_stat u f (fk_stat (flox u ! f) + 1)) j (l_pid (fk u f))"
        from held_sleep[OF k(1,3) u(2,3)] u(1) ng hs show ?thesis by (simp add: outcome_ok_def)
      qed
    qed
  next
    case False
    show ?thesis
    proof (cases "l_type ld = F_UNLCK")
      case True
      let ?j = "case lchain s ?c of [] \<Rightarrow> None | f # _ \<Rightarrow> Some f"
      obtain e u where a: "flckadj pid s ?c ?j ld = (e, u)" by fastforce
      have "r = LckRet e" "t = freefid u i" using r True False a by (auto simp: setflck_round_def Let_def)
      moreover have "starts_at pid s ?c ld ?j" by (cases "lchain s ?c") (auto simp: starts_at_def off_def)
      moreover have "ins_ok s ?c ?j ld" using True by (simp add: ins_ok_def)
      ultimately show ?thesis using True un by (intro adj[OF a]) auto
    next
      case other: False
      then have "r = LckRet (Some EINVAL) \<and> t = freefid s i" using r False by (auto simp: setflck_round_def Let_def)
      then show ?thesis using unch by blast
    qed
  qed
  then show "files_wf t" "fid_key s i = (d, n) \<Longrightarrow> outcome_ok pid ld r (held s d n) (held t d n)"
    "fid_key s i \<noteq> (d, n) \<Longrightarrow> held t d n = held s d n" by simp_all
qed

text \<open>
  A fair request: its range is not empty, and if it clears, it cuts no own lock at a place where
  another process's lock starts.
\<close>

definition fair_req :: "int \<Rightarrow> flcks \<Rightarrow> lfile \<Rightarrow> flock \<Rightarrow> bool" where
  "fair_req pid s fp ld =
     (l_start (request fp ld) < l_end (request fp ld)
      \<and> (l_type (request fp ld) = F_UNLCK \<longrightarrow>
           (case findfid_in s (lf_dev fp) (lf_number fp) (fids s) of
              None \<Rightarrow> True
            | Some i \<Rightarrow> unsplit pid s (FileChain i) (request fp ld) (set (lchain s (FileChain i))))))"

lemma unsplit_cong:
  assumes "lchain t c = lchain s c" "fk t = fk s"
  shows "unsplit pid t c ld A = unsplit pid s c ld A"
  by (simp add: unsplit_def assms)

lemma call_claims:
  assumes k: "tab_ok s" "files_wf s" and fr: "fair_req pid s fp ld" and r: "setflck fuel pid s fp ld slp = (r, t)"
  shows "files_wf t" "outcome_ok pid (request fp ld) r (held s (lf_dev fp) (lf_number fp)) (held t (lf_dev fp) (lf_number fp))"
    "(d, n) \<noteq> (lf_dev fp, lf_number fp) \<Longrightarrow> held t d n = held s d n"
proof -
  let ?rq = "request fp ld"
  have rng: "l_start ?rq < l_end ?rq" using fr by (simp add: fair_req_def)
  have "files_wf t \<and> outcome_ok pid ?rq r (held s (lf_dev fp) (lf_number fp)) (held t (lf_dev fp) (lf_number fp))
      \<and> ((d, n) \<noteq> (lf_dev fp, lf_number fp) \<longrightarrow> held t d n = held s d n)"
  proof (rule setflck_cases[OF r k(1)])
    fix e assume "r = LckRet e" "t = s" "e \<notin> {Some EACCES, Some EDEADLK, Some ENOSPC}"
      "e = None \<longrightarrow> l_type ?rq = F_UNLCK \<and> findfid_in s (lf_dev fp) (lf_number fp) (fids s) = None"
    with k show ?thesis by (auto simp: outcome_ok_def held_def claim_def split: option.splits)
  next
    fix i u assume f: "findfid s fp = (Some i, u)" "setflck_round fuel pid u i ?rq slp = (r, t)"
    note g = findfid_facts[OF f(1) k(1)]
    note h = held_findfid[OF f(1) k]
    have "i < length (flinotab s)" using g(4) tab_fids(4)[OF k(1)] by auto
    then have c: "lchain u (FileChain i) = lchain s (FileChain i)" "fk u = fk s"
      using same_recs_chain[OF g(1)] same_recs_flox[OF g(1)] by (simp_all add: lchain_def fk_flox[of u s])
    have "inj_on (fid_key s) (set (fids s))" using k(1) by (simp add: tab_ok_def)
    then have "findfid_in s (lf_dev fp) (lf_number fp) (fids s) = Some i" using g(4,5) by (simp add: findfid_in_iff)
    then have un: "unsplit pid u (FileChain i) ?rq (set (lchain u (FileChain i)))" if "l_type ?rq = F_UNLCK"
      using fr that by (simp add: fair_req_def unsplit_cong[OF c] c(1))
    have ui: "i \<in> set (fids u)" using g(3,4) by simp
    note rc = round_claims[OF g(2) ui h(2) rng un f(2)]
    have ky: "fid_key u i = (lf_dev fp, lf_number fp)" using g(5,6) by simp
    show ?thesis using rc(1) rc(2)[OF _ ky] rc(3)[of d n] ky unfolding h(1) by metis
  next
    fix i u assume f: "findfid_in s (lf_dev fp) (lf_number fp) (fids s) = None" "allocfid s fp = (Some i, u)"
      "setflck_round fuel pid u i ?rq slp = (r, t)" "l_type ?rq \<noteq> F_UNLCK"
    note g = allocfid_facts[OF f(2) k(1) f(1)]
    note h = held_allocfid[OF f(2) k(1) f(1) k(2)]
    have ui: "i \<in> set (fids u)" using g(3) by simp
    have un: "unsplit pid u (FileChain i) ?rq (set (lchain u (FileChain i)))" if "l_type ?rq = F_UNLCK"
      using f(4) that by simp
    note rc = round_claims[OF g(2) ui h(2) rng un f(3)]
    show ?thesis using rc(1) rc(2)[OF _ g(6)] rc(3)[of d n] g(6) unfolding h(1) by metis
  qed
  then show "files_wf t" "outcome_ok pid ?rq r (held s (lf_dev fp) (lf_number fp)) (held t (lf_dev fp) (lf_number fp))"
    "(d, n) \<noteq> (lf_dev fp, lf_number fp) \<Longrightarrow> held t d n = held s d n" by simp_all
qed

section \<open>Resumption and cleaning\<close>

definition reqs_ok :: "waiter list \<Rightarrow> bool" where
  "reqs_ok w = (\<forall>x \<in> set w. l_start (w_req x) < l_end (w_req x)
      \<and> (l_type (w_req x) = F_RDLCK \<or> l_type (w_req x) = F_WRLCK))"

lemma resume_files:
  assumes k: "tab_ok s" "wait_ok s w" "files_wf s" "reqs_ok w" and x: "(pid, i, j, ld) \<in> set w"
    and r: "setflck_resume (lk_fuel s) pid s i j ld intr = (r, t)"
  shows "files_wf t"
proof -
  let ?s = "set_stat s j 0" and ?u = "delflck (set_stat s j 0) SleepChain j"
  note h = resume_hold[OF k(1,2) x]
  have i: "i \<in> set (fids ?u)" using h(2) by (simp add: hold_def)
  have j: "j \<in> set (sleeplcks s)" "l_pid (fk s j) = pid"
    using wait_ok_recs[OF k(2)] x k(2) by (force simp: wait_ok_def)+
  have "edits pid SleepChain ?s ?u"
    by (rule edits_del[OF edits_refl]) (use j in \<open>simp_all add: flock_simps lchain_def\<close>)
  then have u: "files_wf ?u" using sleep_edits_held(2) set_stat_tab[OF k(1)] set_stat_held(2) k(3) by blast
  have d: "(if intr then (LckRet (Some EINTR), freefid ?u i) else setflck_round (lk_fuel s) pid ?u i ld True) = (r, t)"
    using r by (simp only: setflck_resume_def Let_def set_stat_def)
  have ld: "l_start ld < l_end ld" "l_type ld \<noteq> F_UNLCK"
    using x k(4) by (fastforce simp: reqs_ok_def flock_consts)+
  show ?thesis
  proof (cases intr)
    case True
    with d held_freefid(2)[OF h(1) i u] show ?thesis by simp
  next
    case False
    with d have "setflck_round (lk_fuel s) pid ?u i ld True = (r, t)" by simp
    from round_claims(1)[OF h(1) i u ld(1) _ this] ld(2) show ?thesis by simp
  qed
qed

lemma del_wf:
  assumes "lk_ok s c" "chain_wf s c"
  shows "chain_wf (delflck s c f) c"
proof -
  have own: "own_ok p (delflck s c f) c" for p
    by (rule own_ok_shrink[OF chain_wfD(2)[OF assms(2)]])
      (use own_okD(1)[OF chain_wfD(2)[OF assms(2)]] in \<open>auto simp: set_delflck[OF assms(1)] flock_simps\<close>)
  moreover have "exclusive (delflck s c f) c"
    using chain_wfD(3)[OF assms(2)]
    unfolding exclusive_def set_delflck[OF assms(1)] delflck_fields(7) by blast
  ultimately show ?thesis using del_sorted[OF assms(1) chain_wfD(1)[OF assms(2)]] by (simp add: chain_wf_def)
qed

lemma clean_walk_wf:
  "\<lbrakk>lk_ok s c; chain_wf s c; distinct fs; set fs \<subseteq> set (lchain s c)\<rbrakk>
   \<Longrightarrow> chain_wf (clean_walk pid s c fs) c
     \<and> set (lchain (clean_walk pid s c fs) c) = set (lchain s c) - {f \<in> set fs. l_pid (fk s f) = pid}
     \<and> fk (clean_walk pid s c fs) = fk s"
proof (induction fs arbitrary: s)
  case (Cons f fs)
  let ?t = "if l_pid (fk s f) = pid then delflck s c f else s"
  have t: "lk_ok ?t c" "chain_wf ?t c" "fk ?t = fk s"
    "set (lchain ?t c) = set (lchain s c) - (if l_pid (fk s f) = pid then {f} else {})"
    using Cons.prems lk_ok_delflck[OF Cons.prems(1)] del_wf[OF Cons.prems(1,2)]
    by (auto simp: set_delflck[OF Cons.prems(1)] flock_simps)
  have "set fs \<subseteq> set (lchain ?t c)" using Cons.prems(3,4) t(4) by auto
  from Cons.IH[OF t(1,2) _ this] Cons.prems(3) show ?case by (auto simp: t(3,4))
qed simp

text \<open>\<open>cleanlocks\<close> takes away exactly the locks the process holds on the file.\<close>

lemma cleanlocks_held:
  assumes k: "tab_ok s" "files_wf s"
  shows "files_wf (cleanlocks pid s fp)"
    "lf_vnode fp \<Longrightarrow> lf_svfs fp \<Longrightarrow> held (cleanlocks pid s fp) d n =
       (if (d, n) = (lf_dev fp, lf_number fp) then {x \<in> held s d n. fst x \<noteq> pid} else held s d n)"
proof -
  have "files_wf (cleanlocks pid s fp)
    \<and> (lf_vnode fp \<longrightarrow> lf_svfs fp \<longrightarrow> held (cleanlocks pid s fp) d n =
       (if (d, n) = (lf_dev fp, lf_number fp) then {x \<in> held s d n. fst x \<noteq> pid} else held s d n))"
  proof (rule cleanlocks_cases[OF k(1)])
    assume c: "cleanlocks pid s fp = s"
      "lf_vnode fp \<and> lf_svfs fp \<longrightarrow> findfid_in s (lf_dev fp) (lf_number fp) (fids s) = None"
    then show ?thesis using k(2) by (auto simp: held_def)
  next
    fix i s1 u
    assume c: "findfid s fp = (Some i, s1)" "u = clean_walk pid s1 (FileChain i) (lchain s1 (FileChain i))"
      "edits pid (FileChain i) s1 u" "cleanlocks pid s fp = freefid u i"
    note g = findfid_facts[OF c(1) k(1)]
    note h = held_findfid[OF c(1) k]
    have i1: "i \<in> set (fids s1)" "fid_key s1 i = (lf_dev fp, lf_number fp)" using g(3-6) by simp_all
    have "i < length (flinotab s1)" using tab_fids(4)[OF g(2)] i1(1) by auto
    note ok = tab_chain_ok[OF g(2) this]
    have w1: "chain_wf s1 (FileChain i)" using h(2) i1(1) by (simp add: files_wf_def)
    have w: "chain_wf u (FileChain i)"
      "set (lchain u (FileChain i)) = {f \<in> set (lchain s1 (FileChain i)). l_pid (fk s1 f) \<noteq> pid}" "fk u = fk s1"
      using clean_walk_wf[OF ok w1 _ subset_refl] ok c(2) by (auto simp: lk_ok_def)
    note e = held_edits[OF c(3) g(2) i1(1) h(2) w(1)]
    have iu: "i \<in> set (fids u)" using edits_file(1)[OF c(3) g(2) i1(1)] i1(1) by simp
    note fr = held_freefid[OF edits_tab[OF c(3) g(2) i1(1)] iu e(2)]
    have lu: "locks u (FileChain i) = {x \<in> locks s1 (FileChain i). fst x \<noteq> pid}"
      by (auto simp: locks_def w(2,3))
    have "held s1 (lf_dev fp) (lf_number fp) = locks s1 (FileChain i)"
      using held_eq[OF g(2) i1(1)] i1(2) by simp
    then show ?thesis using fr e(1) i1(2) lu h(1) c(4) by auto
  qed
  then show "files_wf (cleanlocks pid s fp)"
    "lf_vnode fp \<Longrightarrow> lf_svfs fp \<Longrightarrow> held (cleanlocks pid s fp) d n =
       (if (d, n) = (lf_dev fp, lf_number fp) then {x \<in> held s d n. fst x \<noteq> pid} else held s d n)" by simp_all
qed

section \<open>Runs of fair requests\<close>

text \<open>
  Along a run in which every request is fair, the locks of every file stay sorted, apart for each
  process and exclusive between processes.
\<close>

definition fair_inv :: "flcks \<times> waiter list \<Rightarrow> bool" where
  "fair_inv x = (lk_inv x \<and> files_wf (fst x) \<and> reqs_ok (snd x))"

lemma getflck_files:
  assumes "tab_ok s" "files_wf s"
  shows "files_wf (snd (getflck pid s fp ld))" "held (snd (getflck pid s fp ld)) d n = held s d n"
proof -
  obtain q s1 where q: "findfid s fp = (q, s1)" by fastforce
  have "files_wf (snd (getflck pid s fp ld)) \<and> held (snd (getflck pid s fp ld)) d n = held s d n"
  proof (cases q)
    case None
    with q have "s1 = s" by (auto simp: findfid_def split: option.splits)
    with None q assms show ?thesis by (simp add: getflck_def)
  next
    case (Some i)
    with q have f: "findfid s fp = (Some i, s1)" by simp
    note g = findfid_facts[OF f assms(1)]
    note h = held_findfid[OF f assms]
    have i1: "i \<in> set (fids s1)" using g(3,4) by simp
    note fr = held_freefid[OF g(2) i1 h(2)]
    have "snd (getflck pid s fp ld) \<in> {s, s1, freefid s1 i}"
      using f by (auto simp: getflck_def Let_def split: prod.splits option.splits)
    with fr h assms(2) show ?thesis by auto
  qed
  then show "files_wf (snd (getflck pid s fp ld))" "held (snd (getflck pid s fp ld)) d n = held s d n" by simp_all
qed

lemma sleep_type:
  assumes "tab_ok s" "setflck fuel pid s fp ld slp = (LckSleep f j, t)"
  shows "l_type (request fp ld) = F_RDLCK \<or> l_type (request fp ld) = F_WRLCK"
proof (rule setflck_cases[OF assms(2,1)])
  fix i u assume f: "findfid s fp = (Some i, u)" "setflck_round fuel pid u i (request fp ld) slp = (LckSleep f j, t)"
  note g = findfid_facts[OF f(1) assms(1)]
  have "i \<in> set (fids u)" using g(3,4) by simp
  from round_cases[OF g(2) this f(2)] show ?thesis by blast
next
  fix i u assume f: "findfid_in s (lf_dev fp) (lf_number fp) (fids s) = None" "allocfid s fp = (Some i, u)"
    "setflck_round fuel pid u i (request fp ld) slp = (LckSleep f j, t)"
  note g = allocfid_facts[OF f(2) assms(1) f(1)]
  have "i \<in> set (fids u)" using g(3) by simp
  from round_cases[OF g(2) this f(3)] show ?thesis by blast
qed simp

lemma reqs_ok_remove1: "reqs_ok w \<Longrightarrow> reqs_ok (remove1 x w)"
  using set_remove1_subset[of x w] unfolding reqs_ok_def by blast

lemma reqs_ok_Cons: "reqs_ok (x # w) \<longleftrightarrow> reqs_ok w \<and> l_start (w_req x) < l_end (w_req x)
      \<and> (l_type (w_req x) = F_RDLCK \<or> l_type (w_req x) = F_WRLCK)"
  by (auto simp: reqs_ok_def)

lemma reqs_okD: "\<lbrakk>reqs_ok w; (p, i, j, ld) \<in> set w\<rbrakk> \<Longrightarrow> l_start ld < l_end ld \<and> (l_type ld = F_RDLCK \<or> l_type ld = F_WRLCK)"
  by (fastforce simp: reqs_ok_def)

lemma fair_step:
  assumes "lk_step fair_req x y" "fair_inv x"
  shows "fair_inv y"
proof -
  have i: "lk_inv y" using lk_step_inv[OF assms(1)] assms(2) by (simp add: fair_inv_def)
  have "files_wf (fst y) \<and> reqs_ok (snd y)"
    using assms
  proof (induction rule: lk_step.induct)
    case (step_get pid w s fp ld)
    then show ?case using getflck_files(1)[of s pid fp ld] by (simp add: fair_inv_def lk_inv_def)
  next
    case (step_set pid w s fp ld slp e t)
    then show ?case using call_claims(1)[OF _ _ step_set(2,3)] by (simp add: fair_inv_def lk_inv_def)
  next
    case (step_sleep pid w s fp ld slp f j t i)
    then have k: "tab_ok s" "files_wf s" "reqs_ok w" by (simp_all add: fair_inv_def lk_inv_def)
    from call_claims(1)[OF k(1,2) step_sleep(2,3)] sleep_type[OF k(1) step_sleep(3)] step_sleep(2) k(3)
    show ?case by (simp add: reqs_ok_Cons fair_req_def)
  next
    case (step_wake pid i j ld w s intr e t)
    then have k: "tab_ok s" "wait_ok s w" "files_wf s" "reqs_ok w" by (simp_all add: fair_inv_def lk_inv_def)
    from resume_files[OF k step_wake(1,2)] reqs_ok_remove1[OF k(4)] show ?case by simp
  next
    case (step_again pid i j ld w s intr f m t)
    then have k: "tab_ok s" "wait_ok s w" "files_wf s" "reqs_ok w" by (simp_all add: fair_inv_def lk_inv_def)
    from resume_files[OF k step_again(1,2)] reqs_ok_remove1[OF k(4)] reqs_okD[OF k(4) step_again(1)]
    show ?case by (simp add: reqs_ok_Cons)
  next
    case (step_clean pid w s fp)
    then show ?case using cleanlocks_held(1)[of s pid fp] by (simp add: fair_inv_def lk_inv_def)
  qed
  with i show ?thesis by (simp add: fair_inv_def)
qed

lemma fair_reach: "lk_reach fair_req nfils nrecs x \<Longrightarrow> fair_inv x"
proof (induction rule: lk_reach.induct)
  case lk_init
  have "files_wf (flckinit (flcks0 nfils nrecs) nfils nrecs)" unfolding flckinit_init by (simp add: files_wf_def flcks0_def)
  then show ?case using lk_init_inv by (simp add: fair_inv_def reqs_ok_def)
qed (rule fair_step)

lemma files_excl:
  assumes "files_wf s"
  shows "excl_bytes (held s d n)"
proof (cases "findfid_in s d n (fids s)")
  case None
  then show ?thesis by (simp add: held_def excl_bytes_def)
next
  case (Some i)
  then have "chain_wf s (FileChain i)" using assms findfid_in_mem by (simp add: files_wf_def)
  then have "excl_bytes (locks s (FileChain i))" using exclusive_bytes chain_wfD(2,3) by blast
  with Some show ?thesis by (simp add: held_def)
qed

end
