(* ===== verification/Flock_Props.thy ===== *)
theory Flock_Props
  imports Flock_Calls
begin

text \<open>
  The properties of record locking, over the runs of \<open>Flock_Reach\<close>.
\<close>

section \<open>Sample files and requests\<close>

definition sample_file :: "int \<Rightarrow> lfile" where
  "sample_file n = \<lparr>lf_vnode = True, lf_svfs = True, lf_read = True, lf_write = True, lf_offset = 0,
     lf_dev = 1, lf_number = n, lf_size = 1000\<rparr>"

definition sample_req :: "int \<Rightarrow> int \<Rightarrow> int \<Rightarrow> flock" where
  "sample_req ty a n = \<lparr>l_type = ty, l_whence = 0, l_start = a, l_end = n, l_pid = 0\<rparr>"

definition boot :: "nat \<Rightarrow> nat \<Rightarrow> flcks" where
  "boot nf nr = flckinit (flcks0 nf nr) nf nr"

definition try_lock :: "int \<Rightarrow> flcks \<Rightarrow> flock \<Rightarrow> lckres \<times> flcks" where
  "try_lock pid s ld = setflck (lk_fuel s) pid s (sample_file 7) ld False"

definition sample1 :: flcks where
  "sample1 = snd (try_lock 1 (boot 2 6) (sample_req F_RDLCK 0 100))"

lemma sample1_eval:
  "fst (try_lock 1 (boot 2 6) (sample_req F_RDLCK 0 100)) = LckRet None"
  "fair_req 1 (boot 2 6) (sample_file 7) (sample_req F_RDLCK 0 100)"
  "fair_req 2 sample1 (sample_file 7) (sample_req F_WRLCK 50 10)"
  "fst (try_lock 2 sample1 (sample_req F_WRLCK 50 10)) = LckRet (Some EACCES)"
  by code_simp+

text \<open>Membership in \<open>held\<close> as a search of the chain.\<close>

lemma mem_held:
  "(p, b, t) \<in> held s d n \<longleftrightarrow>
     (case findfid_in s d n (fids s) of None \<Rightarrow> False
      | Some i \<Rightarrow> list_ex (\<lambda>f. l_pid (fk s f) = p \<and> l_type (fk s f) = t
          \<and> l_start (fk s f) \<le> b \<and> b < l_end (fk s f)) (lchain s (FileChain i)))"
  by (auto simp: held_def mem_locks list_ex_iff split: option.split)

section \<open>The properties\<close>

text \<open>
  C1: In every state reached by fair requests, a set or clear request does what record locking
  promises and nothing else: granted, it replaces exactly the caller's locks of its range and no other
  process had a conflicting lock there; refused with EACCES or EDEADLK or put to sleep, there was such a
  lock and nothing has changed; with ENOSPC only the caller's own locks may have shrunk; locks of other
  files never change.
\<close>

theorem setflck_refines_claim:
  assumes "lk_reach fair_req nfils nrecs (s, w)" "fair_req pid s fp ld"
    "setflck fuel pid s fp ld slp = (r, t)"
  shows "outcome_ok pid (request fp ld) r (held s (lf_dev fp) (lf_number fp)) (held t (lf_dev fp) (lf_number fp))
    \<and> (\<forall>d n. (d, n) = (lf_dev fp, lf_number fp) \<or> held t d n = held s d n)"
proof -
  have k: "tab_ok s" "files_wf s" using fair_reach[OF assms(1)] by (simp_all add: fair_inv_def lk_inv_def)
  from call_claims[OF k assms(2,3)] show ?thesis by blast
qed

lemma boot_reach: "lk_reach fair_req nf nr (boot nf nr, [])"
  unfolding boot_def by (rule lk_init)

lemma try_lock_reach:
  assumes "lk_reach fair_req nf nr (s, w)" "pid \<notin> w_pid ` set w" "fair_req pid s (sample_file 7) ld"
    "fst (try_lock pid s ld) = LckRet e"
  shows "lk_reach fair_req nf nr (snd (try_lock pid s ld), w)"
proof -
  have "setflck (lk_fuel s) pid s (sample_file 7) ld False = (LckRet e, snd (try_lock pid s ld))"
    using assms(4) by (simp add: try_lock_def prod_eq_iff)
  with assms(2,3) have "lk_step fair_req (s, w) (snd (try_lock pid s ld), w)"
    by (rule step_set[where G = fair_req])
  with assms(1) show ?thesis by (rule lk_next)
qed

lemma sample1_reach: "lk_reach fair_req 2 6 (sample1, [])"
  unfolding sample1_def by (rule try_lock_reach[OF boot_reach _ sample1_eval(2,1)]) simp

theorem setflck_refines_claim_witness:
  "outcome_ok 2 (request (sample_file 7) (sample_req F_WRLCK 50 10)) (LckRet (Some EACCES))
     (held sample1 1 7) (held (snd (try_lock 2 sample1 (sample_req F_WRLCK 50 10))) 1 7)"
proof -
  have "setflck (lk_fuel sample1) 2 sample1 (sample_file 7) (sample_req F_WRLCK 50 10) False
      = (LckRet (Some EACCES), snd (try_lock 2 sample1 (sample_req F_WRLCK 50 10)))"
    using sample1_eval(4) by (simp add: try_lock_def prod_eq_iff)
  from setflck_refines_claim[OF sample1_reach sample1_eval(3) this] show ?thesis
    by (simp add: sample_file_def)
qed

text \<open>
  C7: Mutual exclusion: in every state reached by fair requests, two processes that hold locks on the
  same byte of a file both hold read locks.
\<close>

theorem lock_exclusion:
  assumes "lk_reach fair_req nfils nrecs (s, w)" "(p, b, t) \<in> held s d n" "(q, b, u) \<in> held s d n" "p \<noteq> q"
  shows "t = F_RDLCK \<and> u = F_RDLCK"
proof -
  have "files_wf s" using fair_reach[OF assms(1)] by (simp add: fair_inv_def)
  from excl_bytesD[OF files_excl[OF this] assms(2-4)] show ?thesis .
qed

definition sample2 :: flcks where
  "sample2 = snd (try_lock 2 sample1 (sample_req F_RDLCK 20 10))"

lemma sample2_eval:
  "fst (try_lock 2 sample1 (sample_req F_RDLCK 20 10)) = LckRet None"
  "fair_req 2 sample1 (sample_file 7) (sample_req F_RDLCK 20 10)"
  by code_simp+

lemma sample2_held: "(1, 25, F_RDLCK) \<in> held sample2 1 7" "(2, 25, F_RDLCK) \<in> held sample2 1 7"
  unfolding mem_held by code_simp+

lemma sample2_reach: "lk_reach fair_req 2 6 (sample2, [])"
  unfolding sample2_def by (rule try_lock_reach[OF sample1_reach _ sample2_eval(2,1)]) simp

theorem lock_exclusion_witness:
  "(1, 25, F_RDLCK) \<in> held sample2 1 7 \<and> (2, 25, F_RDLCK) \<in> held sample2 1 7
   \<and> F_RDLCK = F_RDLCK \<and> F_RDLCK = F_RDLCK"
  using lock_exclusion[OF sample2_reach sample2_held] sample2_held by simp

definition split1 :: flcks where
  "split1 = snd (try_lock 1 sample2 (sample_req F_UNLCK 10 40))"

definition split2 :: flcks where
  "split2 = snd (try_lock 3 split1 (sample_req F_WRLCK 20 10))"

text \<open>
  C37: Exclusion fails without fairness: process 1 holds a read lock on [0,100), process 2 one on
  [20,30); after process 1 clears [10,50) the piece [50,100) stands before the lock of process 2 in the
  chain, so a write lock of process 3 on [20,30) is granted while process 2 still holds its read lock.
\<close>

theorem unlock_breaks_exclusion:
  "fst (try_lock 1 sample2 (sample_req F_UNLCK 10 40)) = LckRet None
   \<and> fst (try_lock 3 split1 (sample_req F_WRLCK 20 10)) = LckRet None
   \<and> (2, 25, F_RDLCK) \<in> held split2 1 7 \<and> (3, 25, F_WRLCK) \<in> held split2 1 7"
  unfolding mem_held by (intro conjI; code_simp)

text \<open>
  C28: Whatever requests are made and however sleeping calls are woken, no record and no identifier is
  lost or in two places, the counts agree, no two identifiers stand for the same file, and the
  identifier of a sleeping call stays in use with a reference for each such call.
\<close>

theorem lock_table_whole:
  assumes "lk_reach G nfils nrecs (s, w)"
  shows "mset (frlock s) + mset (sleeplcks s) + mset (concat (map fl_flck (flinotab s))) = mset [0..<length (flox s)]
    \<and> mset (fids s) + mset (frfid s) = mset [0..<length (flinotab s)]
    \<and> reccnt s = int (length (flox s)) - int (length (frlock s))
    \<and> filcnt s = int (length (fids s)) \<and> inj_on (fid_key s) (set (fids s))
    \<and> mset (map w_rec w) = mset (sleeplcks s)
    \<and> (\<forall>(p, i, j, ld) \<in> set w. i \<in> set (fids s) \<and> l_pid (fk s j) = p
         \<and> int (length (filter (\<lambda>x. w_fid x = i) w)) \<le> fl_refcnt (flinotab s ! i))"
proof -
  have k: "tab_ok s" "wait_ok s w" using lk_reach_inv[OF assms] by (simp_all add: lk_inv_def)
  have m: "mset (frlock s) + mset (sleeplcks s) + mset (concat (map fl_flck (flinotab s))) = mset [0..<length (flox s)]"
    using k(1) by (simp add: tab_ok_def all_recs_def)
  have "reccnt s = int (length (flox s)) - int (length (frlock s))"
    using arg_cong[OF m, of size] k(1) by (simp add: tab_ok_def)
  with m k show ?thesis by (fastforce simp: tab_ok_def wait_ok_def users_def)
qed

theorem lock_table_whole_witness:
  "mset (frlock sample2) + mset (sleeplcks sample2) + mset (concat (map fl_flck (flinotab sample2)))
     = mset [0..<length (flox sample2)] \<and> reccnt sample2 = 2"
proof -
  have l: "length (flox sample2) = 6 \<and> length (frlock sample2) = 4" by code_simp
  note t = lock_table_whole[OF sample2_reach]
  then have "reccnt sample2 = int (length (flox sample2)) - int (length (frlock sample2))" by blast
  with l have "reccnt sample2 = 2" by simp
  with t show ?thesis by blast
qed

text \<open>
  C22: Deadlock detection ends: in every reachable state \<open>deadflck\<close> answers within one round more than
  there are sleeping locks, and its answer is whether the owner of the blocking lock waits, directly or
  through others, for the calling process.
\<close>

theorem deadflck_terminates:
  assumes "lk_reach G nfils nrecs (s, w)"
  shows "deadflck (Suc (length (sleeplcks s))) pid s f = Some ((l_pid (fk s f), pid) \<in> (waits s)\<^sup>*)"
proof -
  have k: "tab_ok s" "wait_ok s w" using lk_reach_inv[OF assms] by (simp_all add: lk_inv_def)
  show ?thesis
    using k(2) by (intro deadflck_exact wait_ok_one_sleep[OF k(2,1)]) (simp_all add: wait_ok_def)
qed

text \<open>Process 2 sleeps on the lock of process 1 and holds one itself.\<close>

definition sample3 :: flcks where
  "sample3 = snd (setflck (lk_fuel sample2) 2 sample2 (sample_file 7) (sample_req F_WRLCK 60 10) True)"

lemma sample3_eval:
  "setflck (lk_fuel sample2) 2 sample2 (sample_file 7) (sample_req F_WRLCK 60 10) True = (LckSleep 5 3, sample3)"
  "findfid_in sample3 1 7 (fids sample3) = Some 1"
  "fair_req 2 sample2 (sample_file 7) (sample_req F_WRLCK 60 10)"
proof -
  have "fst (setflck (lk_fuel sample2) 2 sample2 (sample_file 7) (sample_req F_WRLCK 60 10) True) = LckSleep 5 3"
    by code_simp
  then show "setflck (lk_fuel sample2) 2 sample2 (sample_file 7) (sample_req F_WRLCK 60 10) True = (LckSleep 5 3, sample3)"
    by (simp add: sample3_def prod_eq_iff)
  show "findfid_in sample3 1 7 (fids sample3) = Some 1"
    "fair_req 2 sample2 (sample_file 7) (sample_req F_WRLCK 60 10)" by code_simp+
qed

lemma sample3_reach:
  "lk_reach fair_req 2 6 (sample3, [(2, 1, 3, request (sample_file 7) (sample_req F_WRLCK 60 10))])"
proof -
  have "findfid_in sample3 (lf_dev (sample_file 7)) (lf_number (sample_file 7)) (fids sample3) = Some 1"
    using sample3_eval(2) by (simp add: sample_file_def)
  from step_sleep[where G = fair_req, OF _ sample3_eval(3,1) this, of "[]"]
  show ?thesis by (intro lk_next[OF sample2_reach]) simp
qed

theorem deadflck_terminates_witness:
  "deadflck 2 1 sample3 4 = Some True \<and> (l_pid (fk sample3 4), 1) \<in> (waits sample3)\<^sup>*"
proof -
  have "length (sleeplcks sample3) = 1" "deadflck 2 1 sample3 4 = Some True" by code_simp+
  with deadflck_terminates[OF sample3_reach, of 1 4] show ?thesis by (simp add: numeral_2_eq_2)
qed

text \<open>
  \<open>cleanlocks\<close>, called when a process closes a file, takes away exactly the locks the process
  holds on that file, in every state reached by fair requests.
\<close>

theorem cleanlocks_exact:
  assumes "lk_reach fair_req nfils nrecs (s, w)" "lf_vnode fp" "lf_svfs fp"
  shows "held (cleanlocks pid s fp) d n =
    (if (d, n) = (lf_dev fp, lf_number fp) then {x \<in> held s d n. fst x \<noteq> pid} else held s d n)"
proof -
  have "tab_ok s" "files_wf s" using fair_reach[OF assms(1)] by (simp_all add: fair_inv_def lk_inv_def)
  from cleanlocks_held(2)[OF this assms(2,3)] show ?thesis .
qed

theorem cleanlocks_exact_witness:
  "held (cleanlocks 1 sample2 (sample_file 7)) 1 7 = {x \<in> held sample2 1 7. fst x \<noteq> 1}"
  using cleanlocks_exact[OF sample2_reach, of "sample_file 7" 1 1 7] by (simp add: sample_file_def)

definition leak1 :: flcks where
  "leak1 = snd (try_lock 1 (boot 1 4) (sample_req F_RDLCK 0 10))"

definition leak2 :: "(errno option \<times> flock) \<times> flcks" where
  "leak2 = getflck 1 leak1 (sample_file 7) ((sample_req F_RDLCK 0 10)\<lparr>l_whence := 3\<rparr>)"

definition leak3 :: flcks where
  "leak3 = cleanlocks 1 (snd leak2) (sample_file 7)"

text \<open>
  \<open>getflck\<close> with a bad whence keeps the reference to the file identifier it took: after it fails with
  EINVAL and the only lock is gone, the identifier is still in use, and with one identifier configured a
  lock of another file fails with EMFILE though nothing is locked.
\<close>

theorem getflck_leaks_identifier:
  "fst (fst leak2) = Some EINVAL \<and> concat (map fl_flck (flinotab leak3)) = [] \<and> fids leak3 = [0]
   \<and> fst (setflck (lk_fuel leak3) 1 leak3 (sample_file 8) (sample_req F_RDLCK 0 10) False) = LckRet (Some EMFILE)"
  by (intro conjI; code_simp)

end
