(* ===== verification/Kmem.thy ===== *)
theory Kmem
  imports Prelude
begin

text \<open>
  The kernel memory allocator of COMMON/os/heap_kmem.c and include/sys/heap_kmem.h: Stephenson's
  "Fast Fits". Free blocks are the nodes of a Cartesian tree, ordered by address from left to right
  and by size from the root down. The node headers live in the array \<open>FreeHdr\<close>: a
  \<open>Freehdr\<close> is an index (\<open>None\<close> for NIL), a \<open>Freehdr *\<close> is a \<open>hook\<close>, the place of
  a link. Every loop over links takes a fuel; that \<open>v_maxheader\<close> steps are enough is proved in
  Kmem_Free and Kmem_Alloc.
\<close>

section \<open>Data\<close>

type_synonym hptr = "nat option"

record fhdr =
  left :: hptr
  right :: hptr
  block :: int
  hsize :: int

text \<open>The address of a link: \<open>&kmem_info.free_root\<close>, \<open>&x->left\<close> or \<open>&x->right\<close>.\<close>

datatype hook = Root | LeftOf nat | RightOf nat

record ntf_entry =
  nf_addr :: int
  nf_bytes :: int

text \<open>
  \<open>kmem_info\<close>, the statics of the file and the configuration (\<open>Core\<close>, \<open>v.v_maxcore\<close>,
  \<open>v.v_maxheader\<close>). \<open>kmem_long\<close> is the long at an address of the arena: blocks waiting to be freed
  are chained through their own bytes. \<open>ipl\<close> is the processor's priority level.
\<close>

record kmem =
  free_root :: hptr
  free_hdr_list :: hptr
  need_to_free_list :: ntf_entry
  need_to_free :: "ntf_entry list"
  hdrs :: "nat \<Rightarrow> fhdr"
  Freehdrflag :: int
  core_already_freed :: bool
  CoreEnd :: int
  kmem_long :: "int \<Rightarrow> int"
  ipl :: nat
  Core :: int
  v_maxcore :: int
  v_maxheader :: nat

abbreviation (input) SMALLEST_BLK :: int where "SMALLEST_BLK \<equiv> 1"
abbreviation (input) NEED_TO_FREE_SIZE :: nat where "NEED_TO_FREE_SIZE \<equiv> 10"
abbreviation (input) ALIGN :: int where "ALIGN \<equiv> 4"

section \<open>Links and weights\<close>

fun get_hook :: "kmem \<Rightarrow> hook \<Rightarrow> hptr" where
  "get_hook s Root = free_root s"
| "get_hook s (LeftOf i) = left (hdrs s i)"
| "get_hook s (RightOf i) = right (hdrs s i)"

definition upd_hdr :: "nat \<Rightarrow> (fhdr \<Rightarrow> fhdr) \<Rightarrow> kmem \<Rightarrow> kmem" where
  "upd_hdr i f s = s\<lparr>hdrs := (hdrs s)(i := f (hdrs s i))\<rparr>"

fun set_hook :: "hook \<Rightarrow> hptr \<Rightarrow> kmem \<Rightarrow> kmem" where
  "set_hook Root v s = s\<lparr>free_root := v\<rparr>"
| "set_hook (LeftOf i) v s = upd_hdr i (left_update (\<lambda>_. v)) s"
| "set_hook (RightOf i) v s = upd_hdr i (right_update (\<lambda>_. v)) s"

definition weight :: "kmem \<Rightarrow> hptr \<Rightarrow> int" where
  "weight s x = (case x of None \<Rightarrow> 0 | Some i \<Rightarrow> hsize (hdrs s i))"

definition ALIGNMORE :: "int \<Rightarrow> int" where
  "ALIGNMORE a = ALIGN - a mod ALIGN"

text \<open>The size a free block has for an aligned request.\<close>

definition mweight_of :: "int \<Rightarrow> int \<Rightarrow> int" where
  "mweight_of b n = (if b mod ALIGN \<noteq> 0 \<and> n > ALIGNMORE b then n - ALIGNMORE b else n)"

definition mweight :: "kmem \<Rightarrow> hptr \<Rightarrow> int" where
  "mweight s x = (case x of None \<Rightarrow> 0 | Some i \<Rightarrow> mweight_of (block (hdrs s i)) (hsize (hdrs s i)))"

section \<open>Headers\<close>

definition freehdr :: "nat \<Rightarrow> kmem \<Rightarrow> kmem" where
  "freehdr p s = (upd_hdr p (\<lambda>x. x\<lparr>left := free_hdr_list s, right := None, block := 0\<rparr>) s)
     \<lparr>free_hdr_list := Some p\<rparr>"

definition getfreehdr :: "kmem \<Rightarrow> kerr + nat \<times> kmem" where
  "getfreehdr s =
     (case free_hdr_list s of
        Some r \<Rightarrow> Inr (r, s\<lparr>free_hdr_list := left (hdrs s r)\<rparr>)
      | None \<Rightarrow>
          if Freehdrflag s \<noteq> 0 then Inl (Panic ''getfreehdr'')
          else Inr (0, fold freehdr [1 ..< v_maxheader s] (s\<lparr>Freehdrflag := Freehdrflag s + 1\<rparr>)))"

section \<open>insert, delete and demote\<close>

text \<open>The search for the first link to a node of less weight.\<close>

fun insert_search :: "nat \<Rightarrow> int \<Rightarrow> int \<Rightarrow> kmem \<Rightarrow> hook \<Rightarrow> kerr + hook" where
  "insert_search 0 p len s tree = Inl NoFuel"
| "insert_search (Suc f) p len s tree =
     (let x = get_hook s tree in
      if weight s x \<ge> len
      then (case x of
              None \<Rightarrow> Inl Fault
            | Some i \<Rightarrow> insert_search f p len s (if p < block (hdrs s i) then LeftOf i else RightOf i))
      else Inr tree)"

text \<open>The loop that rewrites the links crossing \<open>p\<close>, and the clearing of the last hooks.\<close>

fun insert_hooks :: "nat \<Rightarrow> int \<Rightarrow> kmem \<Rightarrow> hptr \<Rightarrow> hook \<Rightarrow> hook \<Rightarrow> kerr + kmem" where
  "insert_hooks 0 p s x left_hook right_hook = Inl NoFuel"
| "insert_hooks (Suc f) p s x left_hook right_hook =
     (case x of
        None \<Rightarrow> Inr (set_hook left_hook None (set_hook right_hook None s))
      | Some i \<Rightarrow>
          if block (hdrs s i) < p
          then (let s1 = set_hook left_hook x s
                in insert_hooks f p s1 (right (hdrs s1 i)) (RightOf i) right_hook)
          else (let s1 = set_hook right_hook x s
                in insert_hooks f p s1 (left (hdrs s1 i)) left_hook (LeftOf i)))"

definition insert_at :: "nat \<Rightarrow> int \<Rightarrow> int \<Rightarrow> kmem \<Rightarrow> hook \<Rightarrow> kerr + kmem" where
  "insert_at f p len s tree =
     (let x = get_hook s tree in
      andthen (getfreehdr s) (\<lambda>(newhdr, s1).
        let s2 = upd_hdr newhdr (\<lambda>_. \<lparr>left = None, right = None, block = p, hsize = len\<rparr>)
                   (set_hook tree (Some newhdr) s1)
        in insert_hooks f p s2 x (LeftOf newhdr) (RightOf newhdr)))"

definition kinsert :: "nat \<Rightarrow> int \<Rightarrow> int \<Rightarrow> hook \<Rightarrow> kmem \<Rightarrow> kerr + kmem" where
  "kinsert f p len tree s =
     andthen (insert_search f p len s tree) (\<lambda>tree'. insert_at f p len s tree')"

text \<open>The merge of the two subtrees of a deleted node, below the link \<open>p\<close>.\<close>

fun delete_loop :: "nat \<Rightarrow> kmem \<Rightarrow> hook \<Rightarrow> hptr \<Rightarrow> hptr \<Rightarrow> kerr + kmem" where
  "delete_loop 0 s p lb rb = Inl NoFuel"
| "delete_loop (Suc f) s p lb rb =
     (if lb = rb then Inr (set_hook p None s)
      else if weight s lb \<ge> weight s rb
      then (case lb of
              None \<Rightarrow> Inl Fault
            | Some i \<Rightarrow> (let s1 = set_hook p lb s in delete_loop f s1 (RightOf i) (right (hdrs s1 i)) rb))
      else (case rb of
              None \<Rightarrow> Inl Fault
            | Some i \<Rightarrow> (let s1 = set_hook p rb s in delete_loop f s1 (LeftOf i) lb (left (hdrs s1 i)))))"

definition kdelete :: "nat \<Rightarrow> hook \<Rightarrow> kmem \<Rightarrow> kerr + kmem" where
  "kdelete f p s =
     (case get_hook s p of
        None \<Rightarrow> Inl Fault
      | Some x \<Rightarrow> andthen (delete_loop f s p (left (hdrs s x)) (right (hdrs s x))) (\<lambda>s1. Inr (freehdr x s1)))"

fun demote_loop :: "nat \<Rightarrow> kmem \<Rightarrow> nat \<Rightarrow> int \<Rightarrow> hook \<Rightarrow> hptr \<Rightarrow> hptr \<Rightarrow> kerr + kmem" where
  "demote_loop 0 s x wx p lb rb = Inl NoFuel"
| "demote_loop (Suc f) s x wx p lb rb =
     (if weight s lb > wx \<or> weight s rb > wx
      then (if weight s lb \<ge> weight s rb
            then (case lb of
                    None \<Rightarrow> Inl Fault
                  | Some i \<Rightarrow> (let s1 = set_hook p lb s
                              in demote_loop f s1 x wx (RightOf i) (get_hook s1 (RightOf i)) rb))
            else (case rb of
                    None \<Rightarrow> Inl Fault
                  | Some i \<Rightarrow> (let s1 = set_hook p rb s
                              in demote_loop f s1 x wx (LeftOf i) lb (get_hook s1 (LeftOf i)))))
      else Inr (set_hook (RightOf x) rb (set_hook (LeftOf x) lb (set_hook p (Some x) s))))"

definition demote :: "nat \<Rightarrow> hook \<Rightarrow> kmem \<Rightarrow> kerr + kmem" where
  "demote f p s =
     (case get_hook s p of
        None \<Rightarrow> Inl Fault
      | Some x \<Rightarrow> demote_loop f s x (weight s (Some x)) p (left (hdrs s x)) (right (hdrs s x)))"

section \<open>kmem_free\<close>

text \<open>\<open>splnet\<close> and \<open>splimp\<close> are the same entry (PAGING/ml): they set level 6 and return the old one.\<close>

definition splnet :: "kmem \<Rightarrow> nat \<times> kmem" where
  "splnet s = (ipl s, s\<lparr>ipl := 6\<rparr>)"

definition splx :: "nat \<Rightarrow> kmem \<Rightarrow> kmem" where
  "splx l s = s\<lparr>ipl := l\<rparr>"

primrec kmem_free_loop :: "nat \<Rightarrow> kmem \<Rightarrow> hook \<Rightarrow> int \<Rightarrow> int \<Rightarrow> kerr + (int \<times> int \<times> kmem)" where
  "kmem_free_loop 0 s np ptr nbytes = Inl NoFuel"
| "kmem_free_loop (Suc f) s np ptr nbytes =
     (case get_hook s np of
        None \<Rightarrow> Inr (ptr, nbytes, s)
      | Some neighbor \<Rightarrow>
          let neigh_block = block (hdrs s neighbor); neigh_size = hsize (hdrs s neighbor) in
          if ptr < neigh_block then
            (if u32 (ptr + nbytes) = neigh_block
             then andthen (kdelete f np s) (\<lambda>s1. kmem_free_loop f s1 np ptr (u32 (nbytes + neigh_size)))
             else if u32 (ptr + nbytes) > neigh_block then Inl (Panic ''kmem_free: free block overlap'')
             else kmem_free_loop f s (LeftOf neighbor) ptr nbytes)
          else if ptr > neigh_block then
            (if u32 (neigh_block + neigh_size) = ptr
             then andthen (kdelete f np s) (\<lambda>s1. kmem_free_loop f s1 np neigh_block (u32 (nbytes + neigh_size)))
             else if u32 (neigh_block + neigh_size) > ptr then Inl (Panic ''kmem_free block already free'')
             else kmem_free_loop f s (RightOf neighbor) ptr nbytes)
          else Inl (Panic ''kmem_free: block already free as neighbor''))"

definition kmem_free :: "nat \<Rightarrow> int \<Rightarrow> int \<Rightarrow> kmem \<Rightarrow> kerr + kmem" where
  "kmem_free f ptr nbytes s =
     (if nbytes = 0 then Inr s
      else let (l, s0) = splnet s in
        if ptr < Core s0 \<or> ptr \<ge> CoreEnd s0 then Inl (Panic ''kmem_free'')
        else andthen (kmem_free_loop f s0 Root ptr nbytes) (\<lambda>(ptr', nbytes', s1).
             andthen (kinsert f ptr' nbytes' Root s1) (\<lambda>s2. Inr (splx l s2))))"

section \<open>Blocks freed at interrupt level\<close>

text \<open>The first slot of \<open>kmem_info.need_to_free\<close> with a null or non-null address.\<close>

fun ntf_slot :: "bool \<Rightarrow> ntf_entry list \<Rightarrow> nat option" where
  "ntf_slot used [] = None"
| "ntf_slot used (e # es) =
     (if (nf_addr e \<noteq> 0) = used then Some 0
      else (case ntf_slot used es of None \<Rightarrow> None | Some i \<Rightarrow> Some (Suc i)))"

text \<open>A block of at least 8 bytes keeps the head of the chain and becomes the new head.\<close>

definition ntf_push :: "int \<Rightarrow> int \<Rightarrow> kmem \<Rightarrow> kmem" where
  "ntf_push ptr nbytes s =
     s\<lparr>kmem_long := (kmem_long s)(ptr := nf_addr (need_to_free_list s), ptr + 4 := nf_bytes (need_to_free_list s)),
       need_to_free_list := \<lparr>nf_addr = ptr, nf_bytes = nbytes\<rparr>\<rparr>"

function kmem_free_intr :: "int \<Rightarrow> int \<Rightarrow> kmem \<Rightarrow> kerr + kmem" where
  "kmem_free_intr ptr nbytes s =
     (let (l, s0) = splnet s in
      if nbytes \<ge> 8 then
        (if ptr mod ALIGN \<noteq> 0 then
           (let i = ALIGNMORE ptr in
            andthen (kmem_free_intr ptr i s0) (\<lambda>s1. kmem_free_intr (u32 (ptr + i)) (nbytes - i) s1))
         else Inr (splx l (ntf_push ptr nbytes s0)))
      else (case ntf_slot False (need_to_free s0) of
              Some i \<Rightarrow> Inr (splx l (s0\<lparr>need_to_free :=
                          (need_to_free s0)[i := \<lparr>nf_addr = ptr, nf_bytes = nbytes\<rparr>]\<rparr>))
            | None \<Rightarrow> Inl (Panic ''kmem_free_intr'')))"
  by pat_completeness auto
termination
proof (relation "measure (\<lambda>(ptr, nbytes, s). nat nbytes)", goal_cases)
  case (2 ptr nbytes s l s0 i)
  have "ptr mod 4 < 4" "0 \<le> ptr mod 4" by simp_all
  with 2 show ?case by (simp add: ALIGNMORE_def)
next
  case (3 ptr nbytes s l s0 i s1)
  have "ptr mod 4 < 4" "0 \<le> ptr mod 4" by simp_all
  with 3 show ?case by (simp add: ALIGNMORE_def)
qed simp

declare kmem_free_intr.simps [simp del]

primrec check_need_to_free :: "nat \<Rightarrow> kmem \<Rightarrow> kerr + kmem" where
  "check_need_to_free 0 s = Inl NoFuel"
| "check_need_to_free (Suc f) s =
     (let (l, s0) = splnet s; ntf = need_to_free_list s0 in
      if nf_addr ntf \<noteq> 0 then
        andthen (kmem_free f (nf_addr ntf) (nf_bytes ntf)
           (splx l (s0\<lparr>need_to_free_list := \<lparr>nf_addr = kmem_long s0 (nf_addr ntf),
                                          nf_bytes = kmem_long s0 (nf_addr ntf + 4)\<rparr>\<rparr>)))
          (check_need_to_free f)
      else (case ntf_slot True (need_to_free s0) of
              Some i \<Rightarrow>
                andthen (kmem_free f (nf_addr (need_to_free s0 ! i)) (nf_bytes (need_to_free s0 ! i))
                   (splx l (s0\<lparr>need_to_free := (need_to_free s0)[i := (need_to_free s0 ! i)\<lparr>nf_addr := 0\<rparr>]\<rparr>)))
                  (check_need_to_free f)
            | None \<Rightarrow> Inr (splx l s0)))"

section \<open>kmem_alloc\<close>

text \<open>\<open>CoreBegin\<close>: the address of \<open>Core\<close> rounded up to a multiple of 4.\<close>

definition CoreBegin :: "kmem \<Rightarrow> int" where
  "CoreBegin s = u32 ((Core s + 3) AND NOT 3)"

definition morecore :: "nat \<Rightarrow> int \<Rightarrow> kmem \<Rightarrow> kerr + (bool \<times> kmem)" where
  "morecore f nbytes s =
     (if core_already_freed s then Inr (False, s)
      else let s1 = s\<lparr>core_already_freed := True, CoreEnd := u32 (CoreBegin s + v_maxcore s)\<rparr> in
        andthen (kmem_free f (CoreBegin s) (v_maxcore s) s1) (\<lambda>s2. Inr (True, s2)))"

text \<open>The descent to the better fitting son, until both are too small.\<close>

fun alloc_search :: "nat \<Rightarrow> int \<Rightarrow> kmem \<Rightarrow> hook \<Rightarrow> nat \<Rightarrow> kerr + (hook \<times> nat)" where
  "alloc_search 0 nbytes s p a = Inl NoFuel"
| "alloc_search (Suc f) nbytes s p a =
     (let left_son = left (hdrs s a); right_son = right (hdrs s a);
          left_weight = mweight s left_son; right_weight = mweight s right_son;
          go_left = (case left_son of None \<Rightarrow> Inl Fault | Some i \<Rightarrow> alloc_search f nbytes s (LeftOf a) i);
          go_right = (case right_son of None \<Rightarrow> Inl Fault | Some i \<Rightarrow> alloc_search f nbytes s (RightOf a) i) in
      if left_weight \<ge> nbytes \<or> right_weight \<ge> nbytes
      then (if left_weight \<le> right_weight
            then (if left_weight \<ge> nbytes then go_left else go_right)
            else (if right_weight \<ge> nbytes then go_right else go_left))
      else Inr (p, a))"

text \<open>The allocation from the node \<open>a\<close> the link \<open>p\<close> leads to: whole, from an unaligned, from an aligned address.\<close>

definition alloc_node :: "nat \<Rightarrow> int \<Rightarrow> kmem \<Rightarrow> hook \<Rightarrow> nat \<Rightarrow> kerr + (int \<times> kmem)" where
  "alloc_node f nbytes s p a =
     (let A = hdrs s a in
      if u32 (hsize A - nbytes) < SMALLEST_BLK
      then andthen (kdelete f p s) (\<lambda>s1. Inr (block A, s1))
      else andthen (getfreehdr s) (\<lambda>(x, s1).
        if block A mod ALIGN \<noteq> 0 \<and> hsize A > ALIGNMORE (block A)
        then
          let n1 = u32 (nbytes + ALIGNMORE (block A));
              s2 = upd_hdr x (\<lambda>X. X\<lparr>block := block A, hsize := ALIGNMORE (block A), left := left A, right := right A\<rparr>) s1
          in andthen (demote f p (set_hook p (Some x) s2)) (\<lambda>s3.
             andthen (if hsize A > n1 then kmem_free f (u32 (block A + n1)) (u32 (hsize A - n1)) s3 else Inr s3) (\<lambda>s4.
             Inr (u32 (block A + ALIGNMORE (block A)), freehdr a s4)))
        else
          let s2 = upd_hdr x (\<lambda>X. X\<lparr>block := u32 (block A + nbytes), hsize := u32 (hsize A - nbytes),
                                     left := left A, right := right A\<rparr>) s1
          in andthen (demote f p (set_hook p (Some x) s2)) (\<lambda>s3.
             Inr (block A, freehdr a s3))))"

definition kmem_alloc :: "nat \<Rightarrow> int \<Rightarrow> kmem \<Rightarrow> kerr + (int \<times> kmem)" where
  "kmem_alloc f nbytes s =
     (if nbytes = 0 then Inr (0, s)
      else let (l, s0) = splnet s in
        if nbytes < SMALLEST_BLK then Inl (Panic ''kmem_alloc'')
        else andthen (check_need_to_free f s0) (\<lambda>s1.
          andthen (if mweight s1 (free_root s1) < nbytes then morecore f nbytes s1 else Inr (True, s1)) (\<lambda>(ok, s2).
            if \<not> ok then Inl (Panic ''kmem_alloc'')
            else (case free_root s2 of
                    None \<Rightarrow> Inl Fault
                  | Some a \<Rightarrow>
                      andthen (alloc_search f nbytes s2 Root a) (\<lambda>(p, a').
                        andthen (alloc_node f nbytes s2 p a') (\<lambda>(retblock, s3).
                          Inr (retblock, splx l s3)))))))"

section \<open>kmem_init\<close>

definition kmem_init :: "kmem \<Rightarrow> kmem" where
  "kmem_init s = s\<lparr>free_root := None, free_hdr_list := None,
     need_to_free := map (nf_addr_update (\<lambda>_. 0)) (need_to_free s)\<rparr>"

end
