(* ===== verification/Kmem_Tree.thy ===== *)
theory Kmem_Tree
  imports Kmem "HOL-Library.Multiset"
begin

text \<open>
  Cartesian trees as values, the specification the pointer code of Kmem is refined to: the trees
  themselves (\<open>ctree\<close>), what the loops of \<open>insert\<close>, \<open>delete\<close>, \<open>demote\<close>,
  \<open>kmem_free\<close> and \<open>kmem_alloc\<close> compute on them, the two orders of the source's comment
  (addresses ascend from left to right, sizes descend from the root) and the bytes a tree holds.
\<close>

section \<open>Trees and orders\<close>

datatype ctree = Tip | Br ctree nat int int ctree

fun ids :: "ctree \<Rightarrow> nat list" where
  "ids Tip = []"
| "ids (Br l i b n r) = ids l @ i # ids r"

fun blocks :: "ctree \<Rightarrow> (int \<times> int) list" where
  "blocks Tip = []"
| "blocks (Br l i b n r) = blocks l @ (b, n) # blocks r"

fun bytes :: "ctree \<Rightarrow> int set" where
  "bytes Tip = {}"
| "bytes (Br l i b n r) = bytes l \<union> {b ..< b + n} \<union> bytes r"

fun wt :: "ctree \<Rightarrow> int" where
  "wt Tip = 0"
| "wt (Br l i b n r) = n"

fun mwt :: "ctree \<Rightarrow> int" where
  "mwt Tip = 0"
| "mwt (Br l i b n r) = mweight_of b n"

text \<open>
  Horizontal order, within the bounds lo and hi: blocks are not empty, ascend, and there is a gap
  between any two of them, so that the tree is fully coalesced.
\<close>

fun hor :: "int \<Rightarrow> int \<Rightarrow> ctree \<Rightarrow> bool" where
  "hor lo hi Tip = True"
| "hor lo hi (Br l i b n r) =
     (lo \<le> b \<and> 0 < n \<and> b + n \<le> hi \<and> hor lo (b - 1) l \<and> hor (b + n + 1) hi r)"

text \<open>Vertical order.\<close>

fun ver :: "ctree \<Rightarrow> bool" where
  "ver Tip = True"
| "ver (Br l i b n r) = (0 < n \<and> wt l \<le> n \<and> wt r \<le> n \<and> ver l \<and> ver r)"

text \<open>The run of n bytes at p neither meets nor touches a block of the tree.\<close>

fun apart :: "int \<Rightarrow> int \<Rightarrow> ctree \<Rightarrow> bool" where
  "apart p n Tip = True"
| "apart p n (Br l i b m r) = ((p + n < b \<or> b + m < p) \<and> apart p n l \<and> apart p n r)"

section \<open>The operations on trees\<close>

fun split_t :: "int \<Rightarrow> ctree \<Rightarrow> ctree \<times> ctree" where
  "split_t p Tip = (Tip, Tip)"
| "split_t p (Br l i b n r) =
     (if b < p then (case split_t p r of (a, c) \<Rightarrow> (Br l i b n a, c))
      else (case split_t p l of (a, c) \<Rightarrow> (a, Br c i b n r)))"

definition root_t :: "nat \<Rightarrow> int \<Rightarrow> int \<Rightarrow> ctree \<Rightarrow> ctree" where
  "root_t h p n t = (case split_t p t of (a, c) \<Rightarrow> Br a h p n c)"

fun ins_t :: "nat \<Rightarrow> int \<Rightarrow> int \<Rightarrow> ctree \<Rightarrow> ctree" where
  "ins_t h p n Tip = Br Tip h p n Tip"
| "ins_t h p n (Br l i b m r) =
     (if m \<ge> n then (if p < b then Br (ins_t h p n l) i b m r else Br l i b m (ins_t h p n r))
      else root_t h p n (Br l i b m r))"

fun join_t :: "ctree \<Rightarrow> ctree \<Rightarrow> ctree" where
  "join_t Tip Tip = Tip"
| "join_t Tip (Br l j c k r) = Br (join_t Tip l) j c k r"
| "join_t (Br l i b n r) Tip = Br l i b n (join_t r Tip)"
| "join_t (Br l i b n r) (Br l' j c k r') =
     (if n \<ge> k then Br l i b n (join_t r (Br l' j c k r'))
      else Br (join_t (Br l i b n r) l') j c k r')"

function demote_t :: "nat \<Rightarrow> int \<Rightarrow> int \<Rightarrow> ctree \<Rightarrow> ctree \<Rightarrow> ctree" where
  "demote_t x p n L R =
     (if wt L > n \<or> wt R > n
      then (if wt L \<ge> wt R
            then (case L of Tip \<Rightarrow> Tip | Br l i b m r \<Rightarrow> Br l i b m (demote_t x p n r R))
            else (case R of Tip \<Rightarrow> Tip | Br l i b m r \<Rightarrow> Br (demote_t x p n L l) i b m r))
      else Br L x p n R)"
  by pat_completeness auto
termination by (relation "measure (\<lambda>(x, p, n, L, R). size L + size R)") auto

declare demote_t.simps [simp del]

lemma size_join [simp]: "size (join_t l r) = size l + size r"
  by (induction l r rule: join_t.induct) auto

text \<open>
  The loop of \<open>kmem_free\<close>: \<open>None\<close> for an overlap, otherwise the tree without the neighbours that
  were absorbed, the grown run, and the headers given back (the last one first).
\<close>

function coalesce_t :: "ctree \<Rightarrow> int \<Rightarrow> int \<Rightarrow> (ctree \<times> int \<times> int \<times> nat list) option" where
  "coalesce_t Tip p n = Some (Tip, p, n, [])"
| "coalesce_t (Br l i b m r) p n =
     (if p < b then
        (if p + n = b then map_option (\<lambda>(t, q, k, fr). (t, q, k, fr @ [i])) (coalesce_t (join_t l r) p (n + m))
         else if p + n > b then None
         else map_option (\<lambda>(t, q, k, fr). (Br t i b m r, q, k, fr)) (coalesce_t l p n))
      else if p > b then
        (if b + m = p then map_option (\<lambda>(t, q, k, fr). (t, q, k, fr @ [i])) (coalesce_t (join_t l r) b (n + m))
         else if b + m > p then None
         else map_option (\<lambda>(t, q, k, fr). (Br l i b m t, q, k, fr)) (coalesce_t r p n))
      else None)"
  by pat_completeness auto
termination by (relation "measure (\<lambda>(t, p, n). size t)") auto

text \<open>The subtree \<open>kmem_alloc\<close> descends to, and the tree with that subtree replaced.\<close>

fun best :: "int \<Rightarrow> ctree \<Rightarrow> ctree" where
  "best k Tip = Tip"
| "best k (Br l i b n r) =
     (if mwt l \<ge> k \<or> mwt r \<ge> k
      then (if mwt l \<le> mwt r then (if mwt l \<ge> k then best k l else best k r)
            else (if mwt r \<ge> k then best k r else best k l))
      else Br l i b n r)"

fun at_best :: "int \<Rightarrow> ctree \<Rightarrow> ctree \<Rightarrow> ctree" where
  "at_best k u Tip = Tip"
| "at_best k u (Br l i b n r) =
     (if mwt l \<ge> k \<or> mwt r \<ge> k
      then (if mwt l \<le> mwt r
            then (if mwt l \<ge> k then Br (at_best k u l) i b n r else Br l i b n (at_best k u r))
            else (if mwt r \<ge> k then Br l i b n (at_best k u r) else Br (at_best k u l) i b n r))
      else u)"

section \<open>Elementary facts\<close>

lemma set_bytes_blocks: "bytes t = (\<Union>(b, n) \<in> set (blocks t). {b ..< b + n})"
  by (induction t) auto

lemma apart_blocks: "apart p n t = (\<forall>(b, m) \<in> set (blocks t). p + n < b \<or> b + m < p)"
  by (induction t) auto

lemma hor_weaken: "hor lo hi t \<Longrightarrow> lo' \<le> lo \<Longrightarrow> hi \<le> hi' \<Longrightarrow> hor lo' hi' t"
  by (induction t arbitrary: lo hi lo' hi') fastforce+

lemma hor_bytes: "hor lo hi t \<Longrightarrow> bytes t \<subseteq> {lo ..< hi}"
proof (induction t arbitrary: lo hi)
  case (Br l i b n r)
  then have "bytes l \<subseteq> {lo ..< b - 1}" "bytes r \<subseteq> {b + n + 1 ..< hi}" by auto
  with Br.prems show ?case by auto
qed simp

lemma hor_block: "hor lo hi t \<Longrightarrow> (b, n) \<in> set (blocks t) \<Longrightarrow> lo \<le> b \<and> 0 < n \<and> b + n \<le> hi"
  by (induction t arbitrary: lo hi) (simp, fastforce)

lemma ver_wt: "ver t \<Longrightarrow> 0 \<le> wt t"
  by (cases t) auto

lemma ver_block: "ver t \<Longrightarrow> (b, n) \<in> set (blocks t) \<Longrightarrow> n \<le> wt t"
  by (induction t) fastforce+

lemma apart_left: "hor lo hi t \<Longrightarrow> hi < p \<Longrightarrow> 0 \<le> n \<Longrightarrow> apart p n t"
  unfolding apart_blocks using hor_block by fastforce

lemma apart_right: "hor lo hi t \<Longrightarrow> p + n < lo \<Longrightarrow> apart p n t"
  unfolding apart_blocks using hor_block by fastforce

lemma apart_bytes: "apart p n t \<Longrightarrow> {p ..< p + n} \<inter> bytes t = {}"
  by (induction t) auto

lemma length_ids: "length (ids t) = size t"
  by (induction t) auto

section \<open>What the operations keep\<close>

lemma join_blocks [simp]: "blocks (join_t l r) = blocks l @ blocks r"
  by (induction l r rule: join_t.induct) auto

lemma join_ids [simp]: "ids (join_t l r) = ids l @ ids r"
  by (induction l r rule: join_t.induct) auto

lemma join_bytes [simp]: "bytes (join_t l r) = bytes l \<union> bytes r"
  by (auto simp: set_bytes_blocks)

lemma join_wt: "wt (join_t l r) \<le> max (wt l) (wt r)"
  by (induction l r rule: join_t.induct) auto

lemma join_hor: "hor lo x l \<Longrightarrow> hor y hi r \<Longrightarrow> x < y \<Longrightarrow> lo - 1 \<le> x \<Longrightarrow> y \<le> hi + 1 \<Longrightarrow> hor lo hi (join_t l r)"
proof (induction l r arbitrary: lo hi x y rule: join_t.induct)
  case (4 l i b n r l' j c k r')
  show ?case
  proof (cases "n \<ge> k")
    case True
    have "hor (b + n + 1) hi (join_t r (Br l' j c k r'))"
      using 4(1)[OF True, of "b + n + 1" x y hi] 4(3-) by auto
    with 4(3-) True show ?thesis by auto
  next
    case False
    have "hor lo (c - 1) (join_t (Br l i b n r) l')"
      using 4(2)[OF False, of lo x y "c - 1"] 4(3-) by auto
    with 4(3-) False show ?thesis by auto
  qed
qed (fastforce intro: hor_weaken)+

lemma join_ver: "ver l \<Longrightarrow> ver r \<Longrightarrow> ver (join_t l r)"
proof (induction l r rule: join_t.induct)
  case (4 l i b n r l' j c k r')
  then show ?case
    using join_wt[of r "Br l' j c k r'"] join_wt[of "Br l i b n r" l'] by auto
next
  case (2 l j c k r)
  then show ?case using join_wt[of Tip l] by (cases l) auto
next
  case (3 l i b n r)
  then show ?case using join_wt[of r Tip] by (cases r) auto
qed simp

lemma split_blocks: "split_t p t = (a, c) \<Longrightarrow> blocks t = blocks a @ blocks c"
  by (induction t arbitrary: a c) (auto split: prod.splits if_splits)

lemma split_ids: "split_t p t = (a, c) \<Longrightarrow> ids t = ids a @ ids c"
  by (induction t arbitrary: a c) (auto split: prod.splits if_splits)

lemma split_ver: "split_t p t = (a, c) \<Longrightarrow> ver t \<Longrightarrow> ver a \<and> ver c \<and> wt a \<le> wt t \<and> wt c \<le> wt t"
proof (induction t arbitrary: a c)
  case (Br l i b n r)
  obtain a1 c1 a2 c2 where s: "split_t p r = (a1, c1)" "split_t p l = (a2, c2)" by fastforce
  from Br.IH(2)[OF s(1)] Br.IH(1)[OF s(2)] Br.prems s show ?case
    by (auto split: if_splits)
qed simp

lemma split_hor:
  "split_t p t = (a, c) \<Longrightarrow> hor lo hi t \<Longrightarrow> apart p n t \<Longrightarrow> 0 < n \<Longrightarrow> lo \<le> p \<Longrightarrow> p + n \<le> hi \<Longrightarrow>
   hor lo (p - 1) a \<and> hor (p + n + 1) hi c"
proof (induction t arbitrary: a c lo hi)
  case (Br l i b m r)
  obtain a1 c1 a2 c2 where s: "split_t p r = (a1, c1)" "split_t p l = (a2, c2)" by fastforce
  show ?case
  proof (cases "b < p")
    case True
    with Br.prems have bp: "b + m < p" by auto
    have "hor (b + m + 1) (p - 1) a1 \<and> hor (p + n + 1) hi c1"
      using Br.IH(2)[OF s(1), of "b + m + 1" hi] Br.prems bp by auto
    with Br.prems s True bp show ?thesis by auto
  next
    case False
    with Br.prems have bp: "p + n < b" by auto
    have "hor lo (p - 1) a2 \<and> hor (p + n + 1) (b - 1) c2"
      using Br.IH(1)[OF s(2), of lo "b - 1"] Br.prems bp by auto
    with Br.prems s False bp show ?thesis by auto
  qed
qed simp

lemma root_blocks: "set (blocks (root_t h p n t)) = insert (p, n) (set (blocks t))"
  unfolding root_t_def by (cases "split_t p t") (auto dest: split_blocks)

lemma ins_blocks: "set (blocks (ins_t h p n t)) = insert (p, n) (set (blocks t))"
proof (induction t)
  case (Br l i b m r)
  then show ?case using root_blocks[of h p n "Br l i b m r"] by auto
qed simp

lemma ins_bytes [simp]: "bytes (ins_t h p n t) = bytes t \<union> {p ..< p + n}"
  by (auto simp: set_bytes_blocks ins_blocks)

lemma ins_ids: "mset (ids (ins_t h p n t)) = add_mset h (mset (ids t))"
proof (induction t)
  case (Br l i b m r)
  obtain a c where "split_t p (Br l i b m r) = (a, c)" by fastforce
  then have "mset (ids (root_t h p n (Br l i b m r))) = add_mset h (mset (ids (Br l i b m r)))"
    using split_ids[of p "Br l i b m r" a c] by (simp add: root_t_def)
  with Br show ?case by simp
qed simp

lemma root_hor: "hor lo hi t \<Longrightarrow> apart p n t \<Longrightarrow> 0 < n \<Longrightarrow> lo \<le> p \<Longrightarrow> p + n \<le> hi \<Longrightarrow> hor lo hi (root_t h p n t)"
  using split_hor[of p t _ _ lo hi n] by (auto simp: root_t_def split: prod.split)

lemma ins_hor: "hor lo hi t \<Longrightarrow> apart p n t \<Longrightarrow> 0 < n \<Longrightarrow> lo \<le> p \<Longrightarrow> p + n \<le> hi \<Longrightarrow> hor lo hi (ins_t h p n t)"
proof (induction t arbitrary: lo hi)
  case (Br l i b m r)
  show ?case
  proof (cases "m \<ge> n")
    case True
    have "p < b \<Longrightarrow> hor lo (b - 1) (ins_t h p n l)"
      using Br.prems by (intro Br.IH(1)) auto
    moreover have "\<not> p < b \<Longrightarrow> hor (b + m + 1) hi (ins_t h p n r)"
      using Br.prems by (intro Br.IH(2)) auto
    ultimately show ?thesis using True Br.prems by simp
  next
    case False
    then show ?thesis using root_hor[OF Br.prems] by simp
  qed
qed simp

lemma ins_ver: "ver t \<Longrightarrow> 0 < n \<Longrightarrow> ver (ins_t h p n t) \<and> wt (ins_t h p n t) \<le> max n (wt t)"
proof (induction t)
  case (Br l i b m r)
  obtain a c where s: "split_t p (Br l i b m r) = (a, c)" by fastforce
  have "\<not> m \<ge> n \<Longrightarrow> ver (root_t h p n (Br l i b m r))"
    using split_ver[OF s Br.prems(1)] Br.prems(2) s by (simp add: root_t_def)
  moreover have "wt (root_t h p n (Br l i b m r)) = n" using s by (simp add: root_t_def)
  ultimately show ?case using Br by auto
qed simp

lemma demote_blocks [simp]: "ver L \<Longrightarrow> ver R \<Longrightarrow> 0 < n \<Longrightarrow>
    blocks (demote_t x p n L R) = blocks L @ (p, n) # blocks R"
proof (induction x p n L R rule: demote_t.induct)
  case (1 x p n L R)
  then show ?case
    by (subst demote_t.simps) (auto split: ctree.splits)
qed

lemma demote_ids [simp]: "ver L \<Longrightarrow> ver R \<Longrightarrow> 0 < n \<Longrightarrow> ids (demote_t x p n L R) = ids L @ x # ids R"
proof (induction x p n L R rule: demote_t.induct)
  case (1 x p n L R)
  then show ?case
    by (subst demote_t.simps) (auto split: ctree.splits)
qed

lemma demote_bytes [simp]: "ver L \<Longrightarrow> ver R \<Longrightarrow> 0 < n \<Longrightarrow>
    bytes (demote_t x p n L R) = bytes L \<union> {p ..< p + n} \<union> bytes R"
  by (auto simp: set_bytes_blocks)

lemma demote_hor: "ver L \<Longrightarrow> ver R \<Longrightarrow> 0 < n \<Longrightarrow> hor lo (p - 1) L \<Longrightarrow> hor (p + n + 1) hi R \<Longrightarrow>
    lo \<le> p \<Longrightarrow> p + n \<le> hi \<Longrightarrow> hor lo hi (demote_t x p n L R)"
proof (induction x p n L R arbitrary: lo hi rule: demote_t.induct)
  case (1 x p n L R)
  note IH = "1.IH" and prems = "1.prems"
  show ?case
  proof (cases "wt L > n \<or> wt R > n")
    case top: True
    show ?thesis
    proof (cases "wt L \<ge> wt R")
      case True
      then obtain l i b m r where L: "L = Br l i b m r" using top prems by (cases L) auto
      have "hor (b + m + 1) hi (demote_t x p n r R)"
        using prems L by (intro IH(1)[OF top True L]) auto
      then show ?thesis using prems L top True by (subst demote_t.simps) auto
    next
      case False
      then obtain l i b m r where R: "R = Br l i b m r" using top prems ver_wt[of L] by (cases R) auto
      have "hor lo (b - 1) (demote_t x p n L l)"
        using prems R by (intro IH(2)[OF top False R]) auto
      then show ?thesis using prems R top False by (subst demote_t.simps) auto
    qed
  next
    case False
    then show ?thesis using prems by (subst demote_t.simps) auto
  qed
qed

lemma demote_ver: "ver L \<Longrightarrow> ver R \<Longrightarrow> 0 < n \<Longrightarrow>
    ver (demote_t x p n L R) \<and> wt (demote_t x p n L R) \<le> max n (max (wt L) (wt R))"
proof (induction x p n L R rule: demote_t.induct)
  case (1 x p n L R)
  then show ?case
    by (subst (1 2) demote_t.simps) (auto split: ctree.splits)
qed

section \<open>Coalescing\<close>

lemma join_sub:
  assumes "hor lo hi (Br l i b m r)" "ver (Br l i b m r)"
  shows "hor lo hi (join_t l r)" "ver (join_t l r)" "wt (join_t l r) \<le> m"
    "bytes (join_t l r) \<inter> {b ..< b + m} = {}"
proof -
  show "hor lo hi (join_t l r)" using assms by (intro join_hor[of lo "b - 1" l "b + m + 1" hi r]) auto
  show "ver (join_t l r)" "wt (join_t l r) \<le> m" using assms join_ver join_wt[of l r] by auto
  show "bytes (join_t l r) \<inter> {b ..< b + m} = {}"
    using assms hor_bytes[of lo "b - 1" l] hor_bytes[of "b + m + 1" hi r] by fastforce
qed

lemma coalesce_none:
  "hor lo hi t \<Longrightarrow> ver t \<Longrightarrow> lo \<le> p \<Longrightarrow> p + n \<le> hi \<Longrightarrow> 0 < n \<Longrightarrow>
   (coalesce_t t p n = None) = ({p ..< p + n} \<inter> bytes t \<noteq> {})"
proof (induction t p n arbitrary: lo hi rule: coalesce_t.induct)
  case (2 l i b m r p n)
  note j = join_sub[OF 2(5,6)] and lo = 2(5)
  have lb: "bytes l \<subseteq> {lo ..< b - 1}" "bytes r \<subseteq> {b + m + 1 ..< hi}" using lo hor_bytes by auto
  consider (adjr) "p < b" "p + n = b" | (overr) "p < b" "p + n > b" | (left) "p < b" "p + n < b"
    | (adjl) "p > b" "b + m = p" | (overl) "p > b" "b + m > p" | (right) "p > b" "b + m < p" | (same) "p = b"
    by linarith
  then show ?case
  proof cases
    case adjr
    have "(coalesce_t (join_t l r) p (n + m) = None) = ({p ..< p + (n + m)} \<inter> bytes (join_t l r) \<noteq> {})"
      using 2(5-) adjr j by (intro 2(1)) auto
    moreover have "{p ..< p + (n + m)} = {p ..< p + n} \<union> {b ..< b + m}" using adjr lo by auto
    moreover have "{p ..< p + n} \<inter> {b ..< b + m} = {}" using adjr by auto
    ultimately show ?thesis using adjr j(4) by auto
  next
    case overr
    then have "b \<in> {p ..< p + n} \<inter> bytes (Br l i b m r)" using lo by auto
    then have "{p ..< p + n} \<inter> bytes (Br l i b m r) \<noteq> {}" by blast
    then show ?thesis using overr by simp
  next
    case left
    have "(coalesce_t l p n = None) = ({p ..< p + n} \<inter> bytes l \<noteq> {})"
      using 2(5-) left by (intro 2(2)[of lo "b - 1"]) auto
    moreover have "{p ..< p + n} \<inter> ({b ..< b + m} \<union> bytes r) = {}" using left lb lo by fastforce
    ultimately show ?thesis using left by auto
  next
    case adjl
    have "(coalesce_t (join_t l r) b (n + m) = None) = ({b ..< b + (n + m)} \<inter> bytes (join_t l r) \<noteq> {})"
      using 2(5-) adjl j by (intro 2(3)) auto
    moreover have "{b ..< b + (n + m)} = {p ..< p + n} \<union> {b ..< b + m}" using adjl 2(9) lo by auto
    moreover have "{p ..< p + n} \<inter> {b ..< b + m} = {}" using adjl by auto
    ultimately show ?thesis using adjl j(4) by auto
  next
    case overl
    then have "p \<in> {p ..< p + n} \<inter> bytes (Br l i b m r)" using 2(9) by auto
    then have "{p ..< p + n} \<inter> bytes (Br l i b m r) \<noteq> {}" by blast
    then show ?thesis using overl by simp
  next
    case right
    have "(coalesce_t r p n = None) = ({p ..< p + n} \<inter> bytes r \<noteq> {})"
      using 2(5-) right by (intro 2(4)[of "b + m + 1" hi]) auto
    moreover have "{p ..< p + n} \<inter> ({b ..< b + m} \<union> bytes l) = {}" using right lb lo by fastforce
    ultimately show ?thesis using right by auto
  next
    case same
    then have "p \<in> {p ..< p + n} \<inter> bytes (Br l i b m r)" using 2(9) lo by auto
    then have "{p ..< p + n} \<inter> bytes (Br l i b m r) \<noteq> {}" by blast
    then show ?thesis using same by simp
  qed
qed simp

text \<open>What a successful search leaves: everything in order, the grown run apart from every block.\<close>

definition coalesced :: "int \<Rightarrow> int \<Rightarrow> ctree \<Rightarrow> int \<Rightarrow> int \<Rightarrow> ctree \<times> int \<times> int \<times> nat list \<Rightarrow> bool" where
  "coalesced lo hi t p n = (\<lambda>(t', q, k, fr).
     hor lo hi t' \<and> ver t' \<and> wt t' \<le> wt t \<and> lo \<le> q \<and> q + k \<le> hi \<and> q \<le> p \<and> p + n \<le> q + k \<and> apart q k t' \<and>
     bytes t' \<union> {q ..< q + k} = bytes t \<union> {p ..< p + n} \<and>
     mset (ids t') + mset fr = mset (ids t))"

lemma coalesced_join:
  assumes t: "hor lo hi (Br l i b m r)" "ver (Br l i b m r)"
    and c: "coalesced lo hi (join_t l r) p' n' (t', q, k, fr)"
    and run: "{p' ..< p' + n'} = {p ..< p + n} \<union> {b ..< b + m}" "0 < n" "p' \<le> p" "p + n \<le> p' + n'"
  shows "coalesced lo hi (Br l i b m r) p n (t', q, k, fr @ [i])"
proof -
  have "bytes t' \<union> {q ..< q + k} = bytes (Br l i b m r) \<union> {p ..< p + n}"
    using c run(1) by (auto simp: coalesced_def)
  moreover have "wt t' \<le> wt (Br l i b m r)"
    using c join_sub(3)[OF t] by (simp add: coalesced_def)
  ultimately show ?thesis using c run by (simp add: coalesced_def)
qed

lemma coalesce_some:
  "hor lo hi t \<Longrightarrow> ver t \<Longrightarrow> lo \<le> p \<Longrightarrow> p + n \<le> hi \<Longrightarrow> 0 < n \<Longrightarrow> coalesce_t t p n = Some res \<Longrightarrow>
   coalesced lo hi t p n res"
proof (induction t p n arbitrary: lo hi res rule: coalesce_t.induct)
  case (1 p n)
  then show ?case by (auto simp: coalesced_def)
next
  case (2 l i b m r p n)
  note prems = 2(5-10)
  note j = join_sub[OF prems(1,2)]
  obtain t' q k fr where res: "res = (t', q, k, fr)" by (cases res)
  consider (adjr) "p < b" "p + n = b" | (left) "p < b" "p + n < b"
    | (adjl) "p > b" "b + m = p" | (right) "p > b" "b + m < p"
    using prems(6) by (auto split: if_splits)
  then show ?case
  proof cases
    case adjr
    then obtain fr' where co: "coalesce_t (join_t l r) p (n + m) = Some (t', q, k, fr')" and fr: "fr = fr' @ [i]"
      using prems(6) res by auto
    have "coalesced lo hi (join_t l r) p (n + m) (t', q, k, fr')"
      using prems adjr j co by (intro 2(1)) auto
    then show ?thesis unfolding res fr
      by (rule coalesced_join[OF prems(1,2)]) (use adjr prems in auto)
  next
    case adjl
    then obtain fr' where co: "coalesce_t (join_t l r) b (n + m) = Some (t', q, k, fr')" and fr: "fr = fr' @ [i]"
      using prems(6) res by auto
    have "coalesced lo hi (join_t l r) b (n + m) (t', q, k, fr')"
      using prems adjl j co by (intro 2(3)) auto
    then show ?thesis unfolding res fr
      by (rule coalesced_join[OF prems(1,2)]) (use adjl prems in auto)
  next
    case left
    then obtain u where co: "coalesce_t l p n = Some (u, q, k, fr)" and t': "t' = Br u i b m r"
      using prems(6) res by auto
    have c: "coalesced lo (b - 1) l p n (u, q, k, fr)"
      using prems left co by (intro 2(2)) auto
    then have "apart q k r" using prems left by (intro apart_right[of "b + m + 1" hi]) (auto simp: coalesced_def)
    with c prems show ?thesis unfolding res t' by (auto simp: coalesced_def)
  next
    case right
    then obtain u where co: "coalesce_t r p n = Some (u, q, k, fr)" and t': "t' = Br l i b m u"
      using prems(6) res by auto
    have c: "coalesced (b + m + 1) hi r p n (u, q, k, fr)"
      using prems right co by (intro 2(4)) auto
    then have "apart q k l" using prems right by (intro apart_left[of lo "b - 1"]) (auto simp: coalesced_def)
    with c prems show ?thesis unfolding res t' by (auto simp: coalesced_def)
  qed
qed

section \<open>Freeing a run\<close>

text \<open>\<open>kmem_free\<close> on trees, given the header \<open>insert\<close> takes.\<close>

definition free_t :: "nat \<Rightarrow> ctree \<Rightarrow> int \<Rightarrow> int \<Rightarrow> ctree option" where
  "free_t h t p n = (case coalesce_t t p n of None \<Rightarrow> None | Some (t', q, k, fr) \<Rightarrow> Some (ins_t h q k t'))"

lemma free_t_spec:
  assumes "hor lo hi t" "ver t" "lo \<le> p" "p + n \<le> hi" "0 < n"
  shows "(free_t h t p n = None) = ({p ..< p + n} \<inter> bytes t \<noteq> {})"
    "free_t h t p n = Some t' \<Longrightarrow> hor lo hi t' \<and> ver t' \<and> bytes t' = bytes t \<union> {p ..< p + n}"
proof -
  show "(free_t h t p n = None) = ({p ..< p + n} \<inter> bytes t \<noteq> {})"
    using coalesce_none[OF assms] by (auto simp: free_t_def split: option.splits)
  assume "free_t h t p n = Some t'"
  then obtain u q k fr where co: "coalesce_t t p n = Some (u, q, k, fr)" and t': "t' = ins_t h q k u"
    by (auto simp: free_t_def split: option.splits)
  from coalesce_some[OF assms co] have c: "coalesced lo hi t p n (u, q, k, fr)" .
  then have "0 < k" using assms(5) by (auto simp: coalesced_def)
  with c show "hor lo hi t' \<and> ver t' \<and> bytes t' = bytes t \<union> {p ..< p + n}"
    using ins_hor[of lo hi u q k h] ins_ver[of u k h q] unfolding t' by (simp add: coalesced_def)
qed

section \<open>The block chosen by kmem_alloc\<close>

lemma best_fits: "mwt t \<ge> k \<Longrightarrow> t \<noteq> Tip \<Longrightarrow> 0 < k \<Longrightarrow>
    \<exists>l i b n r. best k t = Br l i b n r \<and> mweight_of b n \<ge> k \<and> \<not> mwt l \<ge> k \<and> \<not> mwt r \<ge> k"
proof (induction t)
  case (Br l i b n r)
  then have "mwt l \<ge> k \<Longrightarrow> l \<noteq> Tip" "mwt r \<ge> k \<Longrightarrow> r \<noteq> Tip" by auto
  with Br show ?case by (simp split: if_splits)
qed simp

lemma best_ver: "ver t \<Longrightarrow> ver (best k t) \<and> wt (best k t) \<le> wt t"
  by (induction t) auto

lemma best_bytes: "bytes (best k t) \<subseteq> bytes t"
  by (induction t) auto

lemma best_blocks: "set (blocks (best k t)) \<subseteq> set (blocks t)"
  by (induction t) auto

lemma best_hor: "hor lo hi t \<Longrightarrow> \<exists>lo hi. hor lo hi (best k t)"
proof (induction t arbitrary: lo hi)
  case (Br l i b n r)
  then have "\<exists>lo hi. hor lo hi (best k l)" "\<exists>lo hi. hor lo hi (best k r)" by (meson hor.simps(2))+
  with Br.prems show ?case by (simp only: best.simps split: if_split) blast
qed auto

lemma at_best_hor:
  "hor lo hi t \<Longrightarrow> (\<And>lo hi. hor lo hi (best k t) \<Longrightarrow> hor lo hi u) \<Longrightarrow> hor lo hi (at_best k u t)"
  by (induction t arbitrary: lo hi) auto

lemma at_best_ver:
  "ver t \<Longrightarrow> ver u \<Longrightarrow> wt u \<le> wt (best k t) \<Longrightarrow> ver (at_best k u t) \<and> wt (at_best k u t) \<le> wt t"
  by (induction t) auto

lemma at_best_ids:
  "mset (ids u) + X = mset (ids (best k t)) + Y \<Longrightarrow> t \<noteq> Tip \<Longrightarrow> 0 < k \<Longrightarrow>
   mset (ids (at_best k u t)) + X = mset (ids t) + Y"
proof (induction t)
  case (Br l i b n r)
  have "mwt l \<ge> k \<Longrightarrow> l \<noteq> Tip" "mwt r \<ge> k \<Longrightarrow> r \<noteq> Tip" using Br.prems(3) by auto
  with Br show ?case by (auto split: if_splits simp: ac_simps)
qed simp

lemma at_best_bytes:
  "hor lo hi t \<Longrightarrow> bytes u = bytes (best k t) - G \<Longrightarrow> G \<subseteq> bytes (best k t) \<Longrightarrow> t \<noteq> Tip \<Longrightarrow> 0 < k \<Longrightarrow>
   bytes (at_best k u t) = bytes t - G"
proof (induction t arbitrary: lo hi)
  case (Br l i b n r)
  have sub: "bytes l \<subseteq> {lo ..< b - 1}" "bytes r \<subseteq> {b + n + 1 ..< hi}" and n: "0 < n"
    using Br.prems(1) hor_bytes by auto
  have dl: "G \<subseteq> bytes l \<Longrightarrow> G \<inter> ({b ..< b + n} \<union> bytes r) = {}"
    and dr: "G \<subseteq> bytes r \<Longrightarrow> G \<inter> ({b ..< b + n} \<union> bytes l) = {}" using sub n by fastforce+
  have "bytes (at_best k u l) = bytes l - G \<and> G \<subseteq> bytes l"
    if "mwt l \<ge> k" "best k (Br l i b n r) = best k l"
    using that Br.IH(1)[of lo "b - 1"] Br.prems best_bytes[of k l] by fastforce
  moreover have "bytes (at_best k u r) = bytes r - G \<and> G \<subseteq> bytes r"
    if "mwt r \<ge> k" "best k (Br l i b n r) = best k r"
    using that Br.IH(2)[of "b + n + 1" hi] Br.prems best_bytes[of k r] by fastforce
  ultimately show ?case using dl dr Br.prems by (auto split: if_splits)
qed simp

end
