(* ===== verification/Kmem_Heap.thy ===== *)
theory Kmem_Heap
  imports Kmem_Tree
begin

text \<open>
  The pointer code of Kmem refines the operations of Kmem_Tree. \<open>tr s p t\<close> says that following
  \<open>p\<close> in the headers of \<open>s\<close> one finds the tree \<open>t\<close>; \<open>hdr_list s L\<close> that the free headers
  are \<open>L\<close>. The lemmas state what each loop leaves at the link it was given and which links and
  headers it may have written.
\<close>

section \<open>Trees and lists in the header array\<close>

fun tr :: "kmem \<Rightarrow> hptr \<Rightarrow> ctree \<Rightarrow> bool" where
  "tr s p Tip = (p = None)"
| "tr s p (Br l i b n r) =
     (p = Some i \<and> block (hdrs s i) = b \<and> hsize (hdrs s i) = n \<and>
      tr s (left (hdrs s i)) l \<and> tr s (right (hdrs s i)) r)"

fun fl :: "kmem \<Rightarrow> hptr \<Rightarrow> nat list \<Rightarrow> bool" where
  "fl s p [] = (p = None)"
| "fl s p (i # L) = (p = Some i \<and> fl s (left (hdrs s i)) L)"

text \<open>Before the first \<open>getfreehdr\<close> every header is free, the array's first one first.\<close>

definition hdr_list :: "kmem \<Rightarrow> nat list \<Rightarrow> bool" where
  "hdr_list s L =
     (if Freehdrflag s \<noteq> 0 then fl s (free_hdr_list s) L
      else free_hdr_list s = None \<and> L = 0 # rev [1 ..< v_maxheader s])"

definition lks :: "nat set \<Rightarrow> hook set" where
  "lks A = LeftOf ` A \<union> RightOf ` A"

abbreviation links :: "ctree \<Rightarrow> hook set" where
  "links t \<equiv> lks (set (ids t))"

lemma lks_simps [simp]:
  "LeftOf i \<in> lks A \<longleftrightarrow> i \<in> A" "RightOf i \<in> lks A \<longleftrightarrow> i \<in> A" "Root \<notin> lks A"
  by (auto simp: lks_def)

lemma lks_union: "lks (A \<union> B) = lks A \<union> lks B" "lks (insert i A) = insert (LeftOf i) (insert (RightOf i) (lks A))"
  "lks {} = {}"
  by (auto simp: lks_def)

lemma lks_mono: "A \<subseteq> B \<Longrightarrow> lks A \<subseteq> lks B"
  by (auto simp: lks_def)

text \<open>Only links of H are written, only headers of N get another block.\<close>

definition alters :: "nat set \<Rightarrow> hook set \<Rightarrow> kmem \<Rightarrow> kmem \<Rightarrow> bool" where
  "alters N H s s' = ((\<forall>k. k \<notin> H \<longrightarrow> get_hook s' k = get_hook s k) \<and>
     (\<forall>i. i \<notin> N \<longrightarrow> block (hdrs s' i) = block (hdrs s i) \<and> hsize (hdrs s' i) = hsize (hdrs s i)))"

text \<open>What is neither a link, a header nor the list of free headers.\<close>

definition env :: "kmem \<Rightarrow> kmem" where
  "env s = s\<lparr>free_root := None, free_hdr_list := None, Freehdrflag := 0,
             hdrs := (\<lambda>_. \<lparr>left = None, right = None, block = 0, hsize = 0\<rparr>)\<rparr>"

definition relinks :: "hook set \<Rightarrow> kmem \<Rightarrow> kmem \<Rightarrow> bool" where
  "relinks H s s' = (alters {} H s s' \<and> env s' = env s \<and>
     free_hdr_list s' = free_hdr_list s \<and> Freehdrflag s' = Freehdrflag s)"

lemma alters_refl [simp]: "alters N H s s"
  by (simp add: alters_def)

lemma alters_get: "alters N H s s' \<Longrightarrow> k \<notin> H \<Longrightarrow> get_hook s' k = get_hook s k"
  by (simp add: alters_def)

lemma alters_block: "alters N H s s' \<Longrightarrow> i \<notin> N \<Longrightarrow>
    block (hdrs s' i) = block (hdrs s i) \<and> hsize (hdrs s' i) = hsize (hdrs s i)"
  by (simp add: alters_def)

lemma alters_trans: "alters N H s s' \<Longrightarrow> alters N' H' s' s'' \<Longrightarrow> alters (N \<union> N') (H \<union> H') s s''"
  by (simp add: alters_def)

lemma alters_mono: "alters N H s s' \<Longrightarrow> N \<subseteq> N' \<Longrightarrow> H \<subseteq> H' \<Longrightarrow> alters N' H' s s'"
  by (auto simp: alters_def)

lemma relinks_trans: "relinks H s s' \<Longrightarrow> relinks H' s' s'' \<Longrightarrow> relinks (H \<union> H') s s''"
  using alters_trans[of "{}" H s s' "{}" H' s''] by (simp add: relinks_def)

lemma relinks_mono: "relinks H s s' \<Longrightarrow> H \<subseteq> H' \<Longrightarrow> relinks H' s s'"
  using alters_mono[of "{}" H s s' "{}" H'] by (simp add: relinks_def)

lemma relinks_via: "relinks H s s1 \<Longrightarrow> relinks H' s1 s' \<Longrightarrow> H \<union> H' \<subseteq> H'' \<Longrightarrow> relinks H'' s s'"
  by (rule relinks_mono[OF relinks_trans])

lemma alters_via:
  "alters N H s s1 \<Longrightarrow> alters N' H' s1 s' \<Longrightarrow> N \<union> N' \<subseteq> N'' \<Longrightarrow> H \<union> H' \<subseteq> H'' \<Longrightarrow> alters N'' H'' s s'"
  by (rule alters_mono[OF alters_trans])

lemma relinks_alters: "relinks H s s' \<Longrightarrow> alters {} H s s'"
  by (simp add: relinks_def)

lemma env_other: "env s' = env s \<Longrightarrow>
    need_to_free_list s' = need_to_free_list s \<and> need_to_free s' = need_to_free s \<and>
    core_already_freed s' = core_already_freed s \<and> CoreEnd s' = CoreEnd s \<and> kmem_long s' = kmem_long s \<and>
    ipl s' = ipl s \<and> Core s' = Core s \<and> v_maxcore s' = v_maxcore s \<and> v_maxheader s' = v_maxheader s"
  by (cases s; cases s') (simp add: env_def)

lemma get_set_hook [simp]: "get_hook (set_hook k v s) j = (if j = k then v else get_hook s j)"
  by (cases k; cases j) (auto simp: upd_hdr_def)

lemma set_hook_block [simp]:
  "block (hdrs (set_hook k v s) i) = block (hdrs s i)" "hsize (hdrs (set_hook k v s) i) = hsize (hdrs s i)"
  by (cases k; simp add: upd_hdr_def)+

lemma set_hook_fields [simp]:
  "free_hdr_list (set_hook k v s) = free_hdr_list s" "Freehdrflag (set_hook k v s) = Freehdrflag s"
  "env (set_hook k v s) = env s"
  by (cases k; simp add: upd_hdr_def env_def)+

lemma relinks_set: "relinks {k} s (set_hook k v s)"
  by (simp add: relinks_def alters_def)

lemma left_set [simp]: "left (hdrs (set_hook k v s) i) = (if k = LeftOf i then v else left (hdrs s i))"
  using get_set_hook[of k v s "LeftOf i"] by (simp del: get_set_hook split: if_splits)

lemma right_set [simp]: "right (hdrs (set_hook k v s) i) = (if k = RightOf i then v else right (hdrs s i))"
  using get_set_hook[of k v s "RightOf i"] by (simp del: get_set_hook split: if_splits)

lemma root_set [simp]: "free_root (set_hook k v s) = (if k = Root then v else free_root s)"
  using get_set_hook[of k v s Root] by (simp del: get_set_hook split: if_splits)

lemma tr_alters:
  "alters N H s s' \<Longrightarrow> set (ids t) \<inter> N = {} \<Longrightarrow> links t \<inter> H = {} \<Longrightarrow> tr s' p t = tr s p t"
proof (induction t arbitrary: p)
  case (Br l i b n r)
  have "LeftOf i \<notin> H" "RightOf i \<notin> H" "i \<notin> N" using Br.prems(2,3) by (auto simp: lks_union)
  then have "get_hook s' (LeftOf i) = get_hook s (LeftOf i)" "get_hook s' (RightOf i) = get_hook s (RightOf i)"
    "block (hdrs s' i) = block (hdrs s i)" "hsize (hdrs s' i) = hsize (hdrs s i)"
    using alters_get[OF Br.prems(1)] alters_block[OF Br.prems(1)] by blast+
  moreover have "links l \<inter> H = {}" "links r \<inter> H = {}" using Br.prems(3) by (auto simp: lks_union)
  moreover have "set (ids l) \<inter> N = {}" "set (ids r) \<inter> N = {}" using Br.prems(2) by auto
  ultimately show ?case using Br.IH Br.prems(1) by simp
qed simp

lemma tr_relinks: "relinks H s s' \<Longrightarrow> links t \<inter> H = {} \<Longrightarrow> tr s p t \<Longrightarrow> tr s' p t"
  using tr_alters[of "{}" H s s' t p] by (simp add: relinks_def)

lemma relinks_get: "relinks H s s' \<Longrightarrow> k \<notin> H \<Longrightarrow> get_hook s' k = get_hook s k"
  by (simp add: relinks_def alters_def)

lemma relinks_block: "relinks H s s' \<Longrightarrow> block (hdrs s' i) = block (hdrs s i) \<and> hsize (hdrs s' i) = hsize (hdrs s i)"
  by (simp add: relinks_def alters_def)

lemma fl_alters: "alters N H s s' \<Longrightarrow> LeftOf ` set L \<inter> H = {} \<Longrightarrow> fl s' p L = fl s p L"
proof (induction L arbitrary: p)
  case (Cons i L)
  then have "get_hook s' (LeftOf i) = get_hook s (LeftOf i)" by (auto simp: alters_def)
  with Cons show ?case by simp
qed simp

lemma hdr_list_alters:
  assumes "alters N H s s'" "LeftOf ` set L \<inter> H = {}" "free_hdr_list s' = free_hdr_list s"
    "Freehdrflag s' = Freehdrflag s" "v_maxheader s' = v_maxheader s"
  shows "hdr_list s' L = hdr_list s L"
  using fl_alters[OF assms(1,2)] assms(3-) by (simp add: hdr_list_def)

lemma hdr_list_relinks: "relinks H s s' \<Longrightarrow> LeftOf ` set L \<inter> H = {} \<Longrightarrow> hdr_list s' L = hdr_list s L"
  using hdr_list_alters[of "{}" H s s' L] env_other[of s' s] by (simp add: relinks_def)

lemma tr_weight: "tr s p t \<Longrightarrow> weight s p = wt t" "tr s p t \<Longrightarrow> mweight s p = mwt t"
  by (cases t; auto simp: weight_def mweight_def)+

lemma tr_None: "tr s None t = (t = Tip)"
  by (cases t) auto

section \<open>Header list\<close>

lemma freehdr_alters: "alters {p} (lks {p}) s (freehdr p s)"
proof -
  have "get_hook (freehdr p s) k = get_hook s k" if "k \<notin> lks {p}" for k
    using that by (cases k) (auto simp: freehdr_def upd_hdr_def)
  then show ?thesis by (simp add: alters_def freehdr_def upd_hdr_def)
qed

lemma freehdr_fields [simp]: "env (freehdr p s) = env s" "Freehdrflag (freehdr p s) = Freehdrflag s"
  "free_hdr_list (freehdr p s) = Some p" "left (hdrs (freehdr p s) p) = free_hdr_list s"
  by (simp_all add: freehdr_def env_def upd_hdr_def)

lemma freehdr_fl: "fl s (free_hdr_list s) L \<Longrightarrow> p \<notin> set L \<Longrightarrow> fl (freehdr p s) (free_hdr_list (freehdr p s)) (p # L)"
  using fl_alters[OF freehdr_alters, of L p s "free_hdr_list s"] by (auto simp: lks_def)

lemma freehdr_list:
  "hdr_list s L \<Longrightarrow> Freehdrflag s \<noteq> 0 \<Longrightarrow> p \<notin> set L \<Longrightarrow> hdr_list (freehdr p s) (p # L)"
  using freehdr_fl[of s L p] by (simp add: hdr_list_def)

lemma fold_freehdr:
  "fl s (free_hdr_list s) L \<Longrightarrow> distinct (ps @ L) \<Longrightarrow>
   (let s' = fold freehdr ps s in fl s' (free_hdr_list s') (rev ps @ L) \<and>
      alters (set ps) (lks (set ps)) s s' \<and> env s' = env s \<and> Freehdrflag s' = Freehdrflag s)"
proof (induction ps arbitrary: s L)
  case (Cons p ps)
  have "fl (freehdr p s) (free_hdr_list (freehdr p s)) (p # L)" using freehdr_fl Cons.prems by simp
  from Cons.IH[OF this] Cons.prems alters_trans[OF freehdr_alters[of p s]]
  show ?case by (simp add: Let_def) (metis insert_is_Un lks_union(1))
qed simp

lemma getfreehdr_some:
  assumes "hdr_list s (h # L)" "distinct (h # L)"
  shows "\<exists>s'. getfreehdr s = Inr (h, s') \<and> hdr_list s' L \<and> alters (set L) (lks (set L)) s s' \<and>
    env s' = env s \<and> Freehdrflag s' \<noteq> 0"
proof (cases "Freehdrflag s = 0")
  case True
  then have h: "h = 0" "L = rev [1 ..< v_maxheader s]" "free_hdr_list s = None"
    using assms(1) by (simp_all add: hdr_list_def)
  define s0 where "s0 = s\<lparr>Freehdrflag := Freehdrflag s + 1\<rparr>"
  have s0: "fl s0 (free_hdr_list s0) []" "env s0 = env s" "Freehdrflag s0 \<noteq> 0" "alters {} {} s s0"
  proof -
    have "get_hook s0 k = get_hook s k" for k by (cases k) (simp_all add: s0_def)
    then show "alters {} {} s s0" by (simp add: alters_def s0_def)
  qed (simp_all add: s0_def h True env_def)
  define s' where "s' = fold freehdr [1 ..< v_maxheader s] s0"
  have "fl s' (free_hdr_list s') L" "alters (set L) (lks (set L)) s0 s'" "env s' = env s" "Freehdrflag s' \<noteq> 0"
    using fold_freehdr[OF s0(1), of "[1 ..< v_maxheader s]"] s0(2,3) h(2) by (simp_all add: s'_def Let_def)
  moreover from this(2) have "alters (set L) (lks (set L)) s s'" using alters_via[OF s0(4)] by blast
  moreover have "getfreehdr s = Inr (h, s')"
    using h True by (simp add: getfreehdr_def s'_def s0_def)
  ultimately show ?thesis by (simp add: hdr_list_def)
next
  case False
  define s' where "s' = s\<lparr>free_hdr_list := left (hdrs s h)\<rparr>"
  have "get_hook s' k = get_hook s k" for k by (cases k) (simp_all add: s'_def)
  then have a: "alters {} {} s s'" by (simp add: alters_def s'_def)
  with False assms(1) fl_alters[OF a, of L] have "hdr_list s' L" by (simp add: hdr_list_def s'_def)
  with False assms(1) alters_mono[OF a] show ?thesis
    by (intro exI[of _ s']) (simp add: getfreehdr_def hdr_list_def s'_def env_def)
qed

lemma getfreehdr_none: "hdr_list s [] \<Longrightarrow> getfreehdr s = Inl (Panic ''getfreehdr'')"
  by (simp add: hdr_list_def getfreehdr_def split: if_splits)

section \<open>insert\<close>

lemma insert_hooks_spec:
  "tr s x t \<Longrightarrow> distinct (ids t) \<Longrightarrow> lh \<notin> links t \<Longrightarrow> rh \<notin> links t \<Longrightarrow> lh \<noteq> rh \<Longrightarrow> size t < f \<Longrightarrow>
   \<exists>s'. insert_hooks f p s x lh rh = Inr s' \<and> tr s' (get_hook s' lh) (fst (split_t p t)) \<and>
        tr s' (get_hook s' rh) (snd (split_t p t)) \<and> relinks ({lh, rh} \<union> links t) s s'"
proof (induction t arbitrary: s x lh rh f)
  case Tip
  then show ?case using relinks_trans[OF relinks_set[of rh s None] relinks_set[of lh "set_hook rh None s" None]]
    by (cases f) (simp_all add: lks_union insert_commute)
next
  case (Br l i b n r)
  then obtain g where f: "f = Suc g" by (cases f) auto
  have x: "x = Some i" "block (hdrs s i) = b" "hsize (hdrs s i) = n" and
    l: "tr s (left (hdrs s i)) l" and r: "tr s (right (hdrs s i)) r" using Br.prems(1) by auto
  have d: "distinct (ids l)" "distinct (ids r)" "i \<notin> set (ids l)" "i \<notin> set (ids r)"
    "set (ids l) \<inter> set (ids r) = {}" using Br.prems(2) by auto
  have disj: "links l \<inter> links r = {}" using d(5) by (auto simp: lks_def)
  have nl: "lh \<notin> links l" "lh \<notin> links r" "lh \<noteq> LeftOf i" "lh \<noteq> RightOf i"
    "rh \<notin> links l" "rh \<notin> links r" "rh \<noteq> LeftOf i" "rh \<noteq> RightOf i" "rh \<noteq> lh"
    using Br.prems(3-5) by (auto simp: lks_union)
  show ?case
  proof (cases "b < p")
    case True
    let ?s1 = "set_hook lh (Some i) s"
    have "tr ?s1 (right (hdrs ?s1 i)) r" using tr_relinks[OF relinks_set, of r lh] r nl by simp
    from Br.IH(2)[OF this d(2), of "RightOf i" rh g] nl d(4) Br.prems(6) f
    obtain s' where s': "insert_hooks g p ?s1 (right (hdrs ?s1 i)) (RightOf i) rh = Inr s'"
      "tr s' (right (hdrs s' i)) (fst (split_t p r))" "tr s' (get_hook s' rh) (snd (split_t p r))"
      "relinks ({RightOf i, rh} \<union> links r) ?s1 s'" by auto
    have "tr s' (left (hdrs s' i)) l"
    proof -
      have "tr ?s1 (left (hdrs s i)) l" using tr_relinks[OF relinks_set, of l lh] l nl by simp
      moreover have "links l \<inter> ({RightOf i, rh} \<union> links r) = {}" using disj nl d(3) by auto
      ultimately have "tr s' (left (hdrs s i)) l" using tr_relinks[OF s'(4)] by blast
      moreover have "get_hook s' (LeftOf i) = left (hdrs s i)"
        using relinks_get[OF s'(4), of "LeftOf i"] nl d by auto
      ultimately show ?thesis by simp
    qed
    moreover have "get_hook s' lh = Some i" using relinks_get[OF s'(4), of lh] nl by auto
    moreover have "relinks ({lh, rh} \<union> links (Br l i b n r)) s s'"
      by (rule relinks_via[OF relinks_set s'(4)]) (auto simp: lks_union)
    ultimately show ?thesis using True f x s' relinks_block[OF s'(4), of i]
      by (auto split: prod.splits)
  next
    case False
    let ?s1 = "set_hook rh (Some i) s"
    have "tr ?s1 (left (hdrs ?s1 i)) l" using tr_relinks[OF relinks_set, of l rh] l nl by simp
    from Br.IH(1)[OF this d(1), of lh "LeftOf i" g] nl d(3) Br.prems(6) f
    obtain s' where s': "insert_hooks g p ?s1 (left (hdrs ?s1 i)) lh (LeftOf i) = Inr s'"
      "tr s' (get_hook s' lh) (fst (split_t p l))" "tr s' (left (hdrs s' i)) (snd (split_t p l))"
      "relinks ({lh, LeftOf i} \<union> links l) ?s1 s'" by auto
    have "tr s' (right (hdrs s' i)) r"
    proof -
      have "tr ?s1 (right (hdrs s i)) r" using tr_relinks[OF relinks_set, of r rh] r nl by simp
      moreover have "links r \<inter> ({lh, LeftOf i} \<union> links l) = {}" using disj nl d(4) by auto
      ultimately have "tr s' (right (hdrs s i)) r" using tr_relinks[OF s'(4)] by blast
      moreover have "get_hook s' (RightOf i) = right (hdrs s i)"
        using relinks_get[OF s'(4), of "RightOf i"] nl d by auto
      ultimately show ?thesis by simp
    qed
    moreover have "get_hook s' rh = Some i" using relinks_get[OF s'(4), of rh] nl by auto
    moreover have "relinks ({lh, rh} \<union> links (Br l i b n r)) s s'"
      by (rule relinks_via[OF relinks_set s'(4)]) (auto simp: lks_union)
    ultimately show ?thesis using False f x s' relinks_block[OF s'(4), of i]
      by (auto split: prod.splits)
  qed
qed

lemma tr_left:
  assumes "tr s p (Br l i b n r)" "distinct (ids (Br l i b n r))" "alters N H s s'" "tr s' (left (hdrs s' i)) l'"
    "RightOf i \<notin> H" "i \<notin> N" "links r \<inter> H = {}" "set (ids r) \<inter> N = {}"
  shows "tr s' p (Br l' i b n r)"
proof -
  have "tr s' (right (hdrs s i)) r" using tr_alters[OF assms(3,8,7)] assms(1) by simp
  moreover have "right (hdrs s' i) = right (hdrs s i)" using alters_get[OF assms(3,5)] by simp
  ultimately show ?thesis using assms(1,4) alters_block[OF assms(3,6)] by simp
qed

lemma tr_right:
  assumes "tr s p (Br l i b n r)" "distinct (ids (Br l i b n r))" "alters N H s s'" "tr s' (right (hdrs s' i)) r'"
    "LeftOf i \<notin> H" "i \<notin> N" "links l \<inter> H = {}" "set (ids l) \<inter> N = {}"
  shows "tr s' p (Br l i b n r')"
proof -
  have "tr s' (left (hdrs s i)) l" using tr_alters[OF assms(3,8,7)] assms(1) by simp
  moreover have "left (hdrs s' i) = left (hdrs s i)" using alters_get[OF assms(3,5)] by simp
  ultimately show ?thesis using assms(1,4) alters_block[OF assms(3,6)] by simp
qed

lemma links_disjoint: "set (ids l) \<inter> A = {} \<Longrightarrow> links l \<inter> lks A = {}"
  by (auto simp: lks_def)

lemma upd_hdr_alters: "alters {h} (lks {h}) s (upd_hdr h f s)"
proof -
  have "get_hook (upd_hdr h f s) k = get_hook s k" if "k \<notin> lks {h}" for k
    using that by (cases k) (auto simp: upd_hdr_def)
  then show ?thesis by (simp add: alters_def upd_hdr_def)
qed

lemma upd_hdr_fields [simp]: "env (upd_hdr h f s) = env s" "Freehdrflag (upd_hdr h f s) = Freehdrflag s"
  "free_hdr_list (upd_hdr h f s) = free_hdr_list s" "hdrs (upd_hdr h f s) h = f (hdrs s h)"
  by (simp_all add: env_def upd_hdr_def)

lemma insert_at_spec:
  assumes t: "tr s (get_hook s hk) t" and L: "hdr_list s (h # L)" and d: "distinct (ids t @ h # L)"
    and hk: "hk \<notin> links t" "hk \<notin> lks (set (h # L))" and f: "size t < f"
  shows "\<exists>s'. insert_at f p n s hk = Inr s' \<and> tr s' (get_hook s' hk) (root_t h p n t) \<and> hdr_list s' L \<and>
     alters (set (h # L)) (insert hk (links t \<union> lks (set (h # L)))) s s' \<and> env s' = env s \<and> Freehdrflag s' \<noteq> 0"
proof -
  obtain s1 where s1: "getfreehdr s = Inr (h, s1)" "hdr_list s1 L" "alters (set L) (lks (set L)) s s1"
    "env s1 = env s" "Freehdrflag s1 \<noteq> 0" using getfreehdr_some[OF L] d by auto
  define s2 where "s2 = upd_hdr h (\<lambda>_. \<lparr>left = None, right = None, block = p, hsize = n\<rparr>) (set_hook hk (Some h) s1)"
  have a2: "alters {h} (insert hk (lks {h})) s1 s2"
    unfolding s2_def by (rule alters_via[OF relinks_alters[OF relinks_set] upd_hdr_alters]) auto
  have t1: "tr s1 (get_hook s hk) t"
    using tr_alters[OF s1(3)] t d links_disjoint[of t "set L"] by auto
  have t2: "tr s2 (get_hook s hk) t"
    using tr_alters[OF a2, of t] t1 d hk links_disjoint[of t "{h}"] by auto
  obtain s' where s': "insert_hooks f p s2 (get_hook s hk) (LeftOf h) (RightOf h) = Inr s'"
    "tr s' (left (hdrs s' h)) (fst (split_t p t))" "tr s' (right (hdrs s' h)) (snd (split_t p t))"
    "relinks ({LeftOf h, RightOf h} \<union> links t) s2 s'"
    using insert_hooks_spec[OF t2, of "LeftOf h" "RightOf h" f p] d f by auto
  have blk: "block (hdrs s' h) = p" "hsize (hdrs s' h) = n"
    using relinks_block[OF s'(4), of h] by (simp_all add: s2_def)
  have "get_hook s2 hk = Some h"
    using hk by (cases hk) (auto simp: s2_def upd_hdr_def lks_union)
  then have "get_hook s' hk = Some h"
    using relinks_get[OF s'(4), of hk] hk by (auto simp: lks_union)
  then have "tr s' (get_hook s' hk) (root_t h p n t)"
    using s'(2,3) blk by (cases "split_t p t") (simp add: root_t_def)
  moreover have "hdr_list s2 L"
    using hdr_list_alters[OF a2, of L] s1(2) d hk env_other[of s2 s1] by (auto simp: s2_def lks_def)
  then have "hdr_list s' L" using hdr_list_relinks[OF s'(4), of L] d by (auto simp: lks_def)
  moreover have "alters (set (h # L)) (insert hk (links t \<union> lks (set (h # L)))) s s'"
    by (rule alters_mono[OF alters_trans[OF alters_trans[OF s1(3) a2] relinks_alters[OF s'(4)]]]) (auto simp: lks_union)
  moreover have "env s' = env s" "Freehdrflag s' \<noteq> 0"
    using s'(4) s1(4,5) by (simp_all add: relinks_def s2_def)
  moreover have "insert_at f p n s hk = Inr s'"
    using s1(1) s'(1) by (simp add: insert_at_def s2_def)
  ultimately show ?thesis by blast
qed

lemma kinsert_descends:
  "tr s (get_hook s hk) t \<Longrightarrow> hdr_list s (h # L) \<Longrightarrow> distinct (ids t @ h # L) \<Longrightarrow> hk \<notin> links t \<Longrightarrow>
   hk \<notin> lks (set (h # L)) \<Longrightarrow> size t < f \<Longrightarrow> size t < g \<Longrightarrow> 0 < n \<Longrightarrow>
   \<exists>s'. andthen (insert_search f p n s hk) (insert_at g p n s) = Inr s' \<and>
     tr s' (get_hook s' hk) (ins_t h p n t) \<and> hdr_list s' L \<and>
     alters (set (h # L)) (insert hk (links t \<union> lks (set (h # L)))) s s' \<and> env s' = env s \<and> Freehdrflag s' \<noteq> 0"
proof (induction t arbitrary: f hk)
  case Tip
  then have "insert_search f p n s hk = Inr hk" by (cases f) (simp_all add: weight_def)
  with insert_at_spec[OF Tip(1-5,7), of p n] show ?case by (simp add: root_t_def)
next
  case (Br l i b m r)
  then obtain f' where f: "f = Suc f'" by (cases f) auto
  have x: "get_hook s hk = Some i" "block (hdrs s i) = b" "hsize (hdrs s i) = m" and
    sub: "tr s (left (hdrs s i)) l" "tr s (right (hdrs s i)) r" using Br.prems(1) by auto
  have d: "distinct (ids l @ h # L)" "distinct (ids r @ h # L)" "i \<notin> set (ids l)" "i \<notin> set (ids r)"
    "i \<notin> set (h # L)" "set (ids l) \<inter> (set (ids r) \<union> set (h # L)) = {}"
    "set (ids r) \<inter> (set (ids l) \<union> set (h # L)) = {}"
    using Br.prems(3) by auto
  have disj: "links l \<inter> (links r \<union> lks (set (h # L))) = {}" "links r \<inter> (links l \<union> lks (set (h # L))) = {}"
    using d(6,7) links_disjoint by (simp_all add: lks_union(1)[symmetric])
  have nl: "hk \<notin> insert (LeftOf i) (links l \<union> lks (set (h # L)))" "hk \<notin> insert (RightOf i) (links r \<union> lks (set (h # L)))"
    using Br.prems(4,5) by (auto simp: lks_union)
  show ?case
  proof (cases "m \<ge> n")
    case False
    then have "insert_search f p n s hk = Inr hk" using f x by (simp add: weight_def)
    with False insert_at_spec[OF Br.prems(1-5,7), of p n] show ?thesis by simp
  next
    case m: True
    show ?thesis
    proof (cases "p < b")
      case True
      have "tr s (get_hook s (LeftOf i)) l" using sub by simp
      from Br.IH(1)[OF this Br.prems(2) d(1), of f'] Br.prems(6-8) f d
      obtain s' where s': "andthen (insert_search f' p n s (LeftOf i)) (insert_at g p n s) = Inr s'"
        "tr s' (left (hdrs s' i)) (ins_t h p n l)" "hdr_list s' L"
        "alters (set (h # L)) (insert (LeftOf i) (links l \<union> lks (set (h # L)))) s s'" "env s' = env s"
        "Freehdrflag s' \<noteq> 0" by auto
      have "tr s' (get_hook s hk) (Br (ins_t h p n l) i b m r)"
        by (rule tr_left[OF Br.prems(1) _ s'(4,2)]) (use d disj Br.prems(3) in auto)
      moreover have "get_hook s' hk = get_hook s hk" by (rule alters_get[OF s'(4) nl(1)])
      moreover have "alters (set (h # L)) (insert hk (links (Br l i b m r) \<union> lks (set (h # L)))) s s'"
        by (rule alters_mono[OF s'(4)]) (auto simp: lks_union)
      ultimately show ?thesis using s' m True f x by (simp add: weight_def)
    next
      case False
      have "tr s (get_hook s (RightOf i)) r" using sub by simp
      from Br.IH(2)[OF this Br.prems(2) d(2), of f'] Br.prems(6-8) f d
      obtain s' where s': "andthen (insert_search f' p n s (RightOf i)) (insert_at g p n s) = Inr s'"
        "tr s' (right (hdrs s' i)) (ins_t h p n r)" "hdr_list s' L"
        "alters (set (h # L)) (insert (RightOf i) (links r \<union> lks (set (h # L)))) s s'" "env s' = env s"
        "Freehdrflag s' \<noteq> 0" by auto
      have "tr s' (get_hook s hk) (Br l i b m (ins_t h p n r))"
        by (rule tr_right[OF Br.prems(1) _ s'(4,2)]) (use d disj Br.prems(3) in auto)
      moreover have "get_hook s' hk = get_hook s hk" by (rule alters_get[OF s'(4) nl(2)])
      moreover have "alters (set (h # L)) (insert hk (links (Br l i b m r) \<union> lks (set (h # L)))) s s'"
        by (rule alters_mono[OF s'(4)]) (auto simp: lks_union)
      ultimately show ?thesis using s' m False f x by (simp add: weight_def)
    qed
  qed
qed

lemma kinsert_none:
  "hdr_list s [] \<Longrightarrow> insert_search f p n s hk = Inr k \<Longrightarrow> kinsert f p n hk s = Inl (Panic ''getfreehdr'')"
  by (simp add: kinsert_def insert_at_def getfreehdr_none)

section \<open>delete and demote\<close>

lemma join_left: "ver r \<Longrightarrow> wt r \<le> n \<Longrightarrow> join_t (Br a i b n c) r = Br a i b n (join_t c r)"
  by (cases r) auto

lemma join_right: "wt l < n \<Longrightarrow> join_t l (Br a i b n c) = Br (join_t l a) i b n c"
  by (cases l) auto

lemma delete_loop_spec:
  "tr s lb l \<Longrightarrow> tr s rb r \<Longrightarrow> distinct (ids l @ ids r) \<Longrightarrow> ver l \<Longrightarrow> ver r \<Longrightarrow> hk \<notin> links l \<union> links r \<Longrightarrow>
   size l + size r < f \<Longrightarrow>
   \<exists>s'. delete_loop f s hk lb rb = Inr s' \<and> tr s' (get_hook s' hk) (join_t l r) \<and>
        relinks (insert hk (links l \<union> links r)) s s'"
proof (induction f arbitrary: s hk lb rb l r)
  case (Suc f)
  note w = tr_weight(1)[OF Suc.prems(1)] tr_weight(1)[OF Suc.prems(2)]
  let ?s1 = "\<lambda>v. set_hook hk v s"
  have fr: "tr (?s1 v) q u = tr s q u" if "set (ids u) \<subseteq> set (ids l) \<union> set (ids r)" for v q u
    using tr_alters[OF relinks_alters[OF relinks_set]] that Suc.prems(6)
    by (metis Int_empty_right Int_insert_right_if0 lks_mono lks_union(1) subsetD)
  consider (none) "l = Tip" "r = Tip"
    | (left) a i b n c where "l = Br a i b n c" "wt r \<le> n" | (right) a i b n c where "r = Br a i b n c" "wt l < n"
    using Suc.prems(4,5) by (cases l; cases r) fastforce+
  then show ?case
  proof cases
    case none
    then show ?thesis using Suc.prems(1,2) relinks_set by (simp add: lks_union)
  next
    case left
    have lb: "lb = Some i" "lb \<noteq> rb" using Suc.prems(1-3) left by (cases r; auto)+
    have "tr (?s1 lb) (right (hdrs (?s1 lb) i)) c" "tr (?s1 lb) rb r"
      using Suc.prems(1,2,6) left fr by auto
    from Suc.IH[OF this, of "RightOf i"] Suc.prems left
    obtain s' where s': "delete_loop f (?s1 lb) (RightOf i) (right (hdrs (?s1 lb) i)) rb = Inr s'"
      "tr s' (right (hdrs s' i)) (join_t c r)" "relinks (insert (RightOf i) (links c \<union> links r)) (?s1 lb) s'" by auto
    have "tr (?s1 lb) (Some i) (Br a i b n c)" using fr[of l lb lb] Suc.prems(1) lb left by (auto simp del: tr.simps)
    from tr_right[OF this _ relinks_alters[OF s'(3)] s'(2)] Suc.prems(3) left
    have "tr s' (Some i) (Br a i b n (join_t c r))" by (auto simp: lks_def)
    moreover have "get_hook s' hk = Some i"
      using relinks_get[OF s'(3), of hk] Suc.prems(6) left lb by (auto simp: lks_union)
    moreover have "relinks (insert hk (links l \<union> links r)) s s'"
      by (rule relinks_via[OF relinks_set s'(3)]) (auto simp: lks_union left)
    ultimately show ?thesis
      using s'(1) left lb w join_left[OF Suc.prems(5)] by simp
  next
    case right
    have rb: "rb = Some i" "lb \<noteq> rb" using Suc.prems(1-3) right by (cases l; auto)+
    have "tr (?s1 rb) lb l" "tr (?s1 rb) (left (hdrs (?s1 rb) i)) a"
      using Suc.prems(1,2,6) right fr by auto
    from Suc.IH[OF this, of "LeftOf i"] Suc.prems right
    obtain s' where s': "delete_loop f (?s1 rb) (LeftOf i) lb (left (hdrs (?s1 rb) i)) = Inr s'"
      "tr s' (left (hdrs s' i)) (join_t l a)" "relinks (insert (LeftOf i) (links l \<union> links a)) (?s1 rb) s'" by auto
    have "tr (?s1 rb) (Some i) (Br a i b n c)" using fr[of r rb rb] Suc.prems(2) rb right by (auto simp del: tr.simps)
    from tr_left[OF this _ relinks_alters[OF s'(3)] s'(2)] Suc.prems(3) right
    have "tr s' (Some i) (Br (join_t l a) i b n c)" by (auto simp: lks_def)
    moreover have "get_hook s' hk = Some i"
      using relinks_get[OF s'(3), of hk] Suc.prems(6) right rb by (auto simp: lks_union)
    moreover have "relinks (insert hk (links l \<union> links r)) s s'"
      by (rule relinks_via[OF relinks_set s'(3)]) (auto simp: lks_union right)
    ultimately show ?thesis
      using s'(1) right rb w join_right[OF right(2)] by simp
  qed
qed simp

end
