(* ===== verification/Kmem_Free.thy ===== *)
theory Kmem_Free
  imports Kmem_Heap
begin

text \<open>
  \<open>delete\<close>, \<open>demote\<close> and \<open>kmem_free\<close> on the header array compute \<open>join_t\<close>,
  \<open>demote_t\<close> and \<open>free_t\<close>; more steps than the tree has nodes are never needed.
\<close>

declare set_hook.simps [simp del]

lemma kdelete_spec:
  assumes t: "tr s (get_hook s hk) (Br l i b n r)" and d: "distinct (ids (Br l i b n r) @ L)"
    and v: "ver (Br l i b n r)" and hk: "hk \<notin> links (Br l i b n r) \<union> lks (set L)"
    and L: "hdr_list s L" "Freehdrflag s \<noteq> 0" and f: "size l + size r < f"
  shows "\<exists>s'. kdelete f hk s = Inr s' \<and> tr s' (get_hook s' hk) (join_t l r) \<and> hdr_list s' (i # L) \<and>
     alters {i} (insert hk (links (Br l i b n r))) s s' \<and> env s' = env s \<and> Freehdrflag s' = Freehdrflag s"
proof -
  have nd: "distinct (ids l @ ids r)" "i \<notin> set (ids l) \<union> set (ids r) \<union> set L"
    "set L \<inter> (set (ids l) \<union> set (ids r)) = {}" using d by auto
  obtain s1 where s1: "delete_loop f s hk (left (hdrs s i)) (right (hdrs s i)) = Inr s1"
    "tr s1 (get_hook s1 hk) (join_t l r)" "relinks (insert hk (links l \<union> links r)) s s1"
    using delete_loop_spec[of s "left (hdrs s i)" l "right (hdrs s i)" r hk f] t v hk f nd(1) by (auto simp: lks_union)
  note fa = freehdr_alters[of i s1]
  have "tr (freehdr i s1) (get_hook s1 hk) (join_t l r)"
    using tr_alters[OF fa, of "join_t l r"] s1(2) nd(2) by (auto simp: lks_def)
  moreover have "get_hook (freehdr i s1) hk = get_hook s1 hk"
    using alters_get[OF fa, of hk] hk by (auto simp: lks_union)
  moreover have "hdr_list s1 L" using hdr_list_relinks[OF s1(3), of L] L(1) nd(3) hk by (auto simp: lks_def)
  then have "hdr_list (freehdr i s1) (i # L)"
    using freehdr_list[of s1 L i] nd(2) L(2) s1(3) by (simp add: relinks_def)
  moreover have "alters {i} (insert hk (links (Br l i b n r))) s (freehdr i s1)"
    by (rule alters_via[OF relinks_alters[OF s1(3)] fa]) (auto simp: lks_union)
  moreover have "kdelete f hk s = Inr (freehdr i s1)" using s1(1) t by (simp add: kdelete_def)
  ultimately show ?thesis using s1(3) L(2) by (auto simp: relinks_def)
qed

lemma demote_loop_spec:
  "tr s lb l \<Longrightarrow> tr s rb r \<Longrightarrow> distinct (x # ids l @ ids r) \<Longrightarrow> ver l \<Longrightarrow> ver r \<Longrightarrow> 0 < n \<Longrightarrow>
   hk \<notin> links l \<union> links r \<union> lks {x} \<Longrightarrow> block (hdrs s x) = p \<Longrightarrow> hsize (hdrs s x) = n \<Longrightarrow> size l + size r < f \<Longrightarrow>
   \<exists>s'. demote_loop f s x n hk lb rb = Inr s' \<and> tr s' (get_hook s' hk) (demote_t x p n l r) \<and>
        relinks (insert hk (links l \<union> links r \<union> lks {x})) s s'"
proof (induction f arbitrary: s hk lb rb l r)
  case (Suc f)
  note w = tr_weight(1)[OF Suc.prems(1)] tr_weight(1)[OF Suc.prems(2)]
  let ?s1 = "\<lambda>v. set_hook hk v s"
  have fr: "tr (?s1 v) q u = tr s q u" if "set (ids u) \<subseteq> set (ids l) \<union> set (ids r)" for v q u
    using tr_alters[OF relinks_alters[OF relinks_set]] that Suc.prems(7)
    by (metis Int_empty_right Int_insert_right_if0 UnI1 lks_mono lks_union(1) subsetD)
  consider (here) "\<not> wt l > n" "\<not> wt r > n"
    | (left) a i b m c where "wt l > n \<or> wt r > n" "wt l \<ge> wt r" "l = Br a i b m c"
    | (right) a i b m c where "wt l > n \<or> wt r > n" "\<not> wt l \<ge> wt r" "r = Br a i b m c"
    using Suc.prems(4-6) ver_wt[of l] ver_wt[of r] by (cases l; cases r) fastforce+
  then show ?case
  proof cases
    case here
    define s' where "s' = set_hook (RightOf x) rb (set_hook (LeftOf x) lb (set_hook hk (Some x) s))"
    have rl: "relinks ({hk} \<union> ({LeftOf x} \<union> {RightOf x})) s s'" unfolding s'_def
      by (rule relinks_trans[OF relinks_set relinks_trans[OF relinks_set relinks_set]])
    have "tr s' lb l" "tr s' rb r"
      by (rule tr_relinks[OF rl]; use Suc.prems in \<open>auto simp: lks_def\<close>)+
    then have "tr s' (get_hook s' hk) (demote_t x p n l r)"
      using here Suc.prems(7-9) by (subst demote_t.simps) (auto simp: s'_def lks_union)
    with here w show ?thesis using relinks_mono[OF rl] by (simp add: s'_def lks_union)
  next
    case left
    have lb: "lb = Some i" using Suc.prems(1) left by auto
    have "tr (?s1 lb) (right (hdrs (?s1 lb) i)) c" "tr (?s1 lb) rb r"
      using Suc.prems(1,2,7) left fr by (auto simp: lks_union)
    from Suc.IH[OF this, of "RightOf i"] Suc.prems left
    obtain s' where s': "demote_loop f (?s1 lb) x n (RightOf i) (right (hdrs (?s1 lb) i)) rb = Inr s'"
      "tr s' (right (hdrs s' i)) (demote_t x p n c r)"
      "relinks (insert (RightOf i) (links c \<union> links r \<union> lks {x})) (?s1 lb) s'" by auto
    have "tr (?s1 lb) (Some i) (Br a i b m c)" using fr[of l lb lb] Suc.prems(1) lb left by (auto simp del: tr.simps)
    from tr_right[OF this _ relinks_alters[OF s'(3)] s'(2)] Suc.prems(3) left
    have "tr s' (Some i) (Br a i b m (demote_t x p n c r))" by (auto simp: lks_def)
    moreover have "get_hook s' hk = Some i"
      using relinks_get[OF s'(3), of hk] Suc.prems(7) left lb by (auto simp: lks_union)
    moreover have "relinks (insert hk (links l \<union> links r \<union> lks {x})) s s'"
      by (rule relinks_via[OF relinks_set s'(3)]) (auto simp: lks_union left)
    moreover have "demote_t x p n l r = Br a i b m (demote_t x p n c r)"
      using left by (subst demote_t.simps) auto
    moreover have "demote_loop (Suc f) s x n hk lb rb = Inr s'" using s'(1) left(1,2) lb w by simp
    ultimately show ?thesis by metis
  next
    case right
    have rb: "rb = Some i" using Suc.prems(2) right by auto
    have "tr (?s1 rb) lb l" "tr (?s1 rb) (left (hdrs (?s1 rb) i)) a"
      using Suc.prems(1,2,7) right fr by (auto simp: lks_union)
    from Suc.IH[OF this, of "LeftOf i"] Suc.prems right
    obtain s' where s': "demote_loop f (?s1 rb) x n (LeftOf i) lb (left (hdrs (?s1 rb) i)) = Inr s'"
      "tr s' (left (hdrs s' i)) (demote_t x p n l a)"
      "relinks (insert (LeftOf i) (links l \<union> links a \<union> lks {x})) (?s1 rb) s'" by auto
    have "tr (?s1 rb) (Some i) (Br a i b m c)" using fr[of r rb rb] Suc.prems(2) rb right by (auto simp del: tr.simps)
    from tr_left[OF this _ relinks_alters[OF s'(3)] s'(2)] Suc.prems(3) right
    have "tr s' (Some i) (Br (demote_t x p n l a) i b m c)" by (auto simp: lks_def)
    moreover have "get_hook s' hk = Some i"
      using relinks_get[OF s'(3), of hk] Suc.prems(7) right rb by (auto simp: lks_union)
    moreover have "relinks (insert hk (links l \<union> links r \<union> lks {x})) s s'"
      by (rule relinks_via[OF relinks_set s'(3)]) (auto simp: lks_union right)
    moreover have "demote_t x p n l r = Br (demote_t x p n l a) i b m c"
      using right by (subst demote_t.simps) auto
    moreover have "demote_loop (Suc f) s x n hk lb rb = Inr s'" using s'(1) right(1,2) rb w by simp
    ultimately show ?thesis by metis
  qed
qed simp

lemma demote_spec:
  assumes "get_hook s hk = Some x" "tr s (left (hdrs s x)) l" "tr s (right (hdrs s x)) r"
    "distinct (x # ids l @ ids r)" "ver l" "ver r" "0 < hsize (hdrs s x)" "hk \<notin> links l \<union> links r \<union> lks {x}"
    "size l + size r < f"
  shows "\<exists>s'. demote f hk s = Inr s' \<and>
     tr s' (get_hook s' hk) (demote_t x (block (hdrs s x)) (hsize (hdrs s x)) l r) \<and>
     relinks (insert hk (links l \<union> links r \<union> lks {x})) s s'"
  using demote_loop_spec[OF assms(2-8) refl refl assms(9)] assms(1) by (simp add: demote_def weight_def)

section \<open>The loop of kmem_free\<close>

definition freed :: "kmem \<Rightarrow> hook \<Rightarrow> nat list \<Rightarrow> ctree \<Rightarrow> kerr + (int \<times> int \<times> kmem) \<Rightarrow>
    (ctree \<times> int \<times> int \<times> nat list) option \<Rightarrow> bool" where
  "freed s hk L t res spec =
     (case spec of
        None \<Rightarrow> (\<exists>m. res = Inl (Panic m))
      | Some (t', q, k, fr) \<Rightarrow> (\<exists>s'. res = Inr (q, k, s') \<and> tr s' (get_hook s' hk) t' \<and> hdr_list s' (fr @ L) \<and>
          alters (set (ids t)) (insert hk (links t)) s s' \<and> env s' = env s \<and> Freehdrflag s' = Freehdrflag s))"

lemma u32_sum: "0 \<le> (a::int) \<Longrightarrow> 0 \<le> b \<Longrightarrow> a + b < 4294967296 \<Longrightarrow> u32 (a + b) = a + b"
  by (simp add: u32_def)

lemma freed_join:
  assumes "freed s1 hk (i # L) (join_t l r) res (coalesce_t (join_t l r) q k)"
    and "alters {i} (insert hk (links (Br l i b m r))) s s1" "env s1 = env s" "Freehdrflag s1 \<noteq> 0" "Freehdrflag s = Freehdrflag s1"
  shows "freed s hk L (Br l i b m r) res
    (map_option (\<lambda>(t, q, k, fr). (t, q, k, fr @ [i])) (coalesce_t (join_t l r) q k))"
proof (cases "coalesce_t (join_t l r) q k")
  case None
  with assms show ?thesis by (simp add: freed_def)
next
  case (Some a)
  then obtain t' q' k' fr s' where a: "a = (t', q', k', fr)" and s': "res = Inr (q', k', s')" "tr s' (get_hook s' hk) t'"
    "hdr_list s' (fr @ i # L)" "alters (set (ids (join_t l r))) (insert hk (links (join_t l r))) s1 s'"
    "env s' = env s1" "Freehdrflag s' = Freehdrflag s1"
    using assms(1) by (cases a) (auto simp: freed_def)
  have "alters (set (ids (Br l i b m r))) (insert hk (links (Br l i b m r))) s s'"
    by (rule alters_via[OF assms(2) s'(4)]) (auto simp: lks_union)
  with s' assms(3-) Some a show ?thesis by (simp add: freed_def)
qed

lemma freed_below:
  assumes "freed s (if c then LeftOf i else RightOf i) L (if c then l else r) res (coalesce_t (if c then l else r) q k)"
    and t: "tr s (get_hook s hk) (Br l i b m r)" "distinct (ids (Br l i b m r) @ L)" "hk \<notin> links (Br l i b m r)"
  shows "freed s hk L (Br l i b m r) res
    (map_option (\<lambda>(t, q, k, fr). (if c then Br t i b m r else Br l i b m t, q, k, fr)) (coalesce_t (if c then l else r) q k))"
proof (cases "coalesce_t (if c then l else r) q k")
  case None
  with assms(1) show ?thesis by (simp add: freed_def)
next
  case (Some a)
  let ?u = "if c then l else r" and ?k = "if c then LeftOf i else RightOf i"
  obtain t' q' k' fr where a: "a = (t', q', k', fr)" by (cases a)
  obtain s' where s': "res = Inr (q', k', s')" "tr s' (get_hook s' ?k) t'"
    "hdr_list s' (fr @ L)" "alters (set (ids ?u)) (insert ?k (links ?u)) s s'" "env s' = env s" "Freehdrflag s' = Freehdrflag s"
    using assms(1) unfolding Some a freed_def by auto
  have d: "distinct (ids (Br l i b m r))" "set (ids l) \<inter> set (ids r) = {}" "i \<notin> set (ids l) \<union> set (ids r)" using t(2) by auto
  have "tr s' (get_hook s hk) (if c then Br t' i b m r else Br l i b m t')"
  proof (cases c)
    case True
    then show ?thesis using tr_left[OF t(1) d(1) s'(4), of t'] s'(2) d by (auto simp: lks_def)
  next
    case False
    then show ?thesis using tr_right[OF t(1) d(1) s'(4), of t'] s'(2) d by (auto simp: lks_def)
  qed
  moreover have "get_hook s' hk = get_hook s hk" by (rule alters_get[OF s'(4)]) (use t(3) in \<open>auto simp: lks_union\<close>)
  moreover have "alters (set (ids (Br l i b m r))) (insert hk (links (Br l i b m r))) s s'"
    by (rule alters_mono[OF s'(4)]) (auto simp: lks_union)
  ultimately show ?thesis using s' Some a by (simp add: freed_def)
qed

lemma kmem_free_loop_spec:
  "tr s (get_hook s hk) t \<Longrightarrow> distinct (ids t @ L) \<Longrightarrow> hk \<notin> links t \<union> lks (set L) \<Longrightarrow> hor lo hi t \<Longrightarrow> ver t \<Longrightarrow>
   lo \<le> p \<Longrightarrow> p + n \<le> hi \<Longrightarrow> 0 < n \<Longrightarrow> 0 \<le> lo \<Longrightarrow> hi < 4294967296 \<Longrightarrow> hdr_list s L \<Longrightarrow>
   t \<noteq> Tip \<longrightarrow> Freehdrflag s \<noteq> 0 \<Longrightarrow> size t < f \<Longrightarrow>
   freed s hk L t (kmem_free_loop f s hk p n) (coalesce_t t p n)"
proof (induction f arbitrary: s hk t L lo hi p n)
  case (Suc f)
  show ?case
  proof (cases t)
    case Tip
    then show ?thesis using Suc.prems by (auto simp: freed_def)
  next
    case t: (Br l i b m r)
    note prems = Suc.prems[unfolded t]
    have x: "get_hook s hk = Some i" "block (hdrs s i) = b" "hsize (hdrs s i) = m" using prems(1) by auto
    have pn: "u32 (p + n) = p + n" "u32 (b + m) = b + m"
      using prems(4-10) by (auto intro!: u32_sum)
    have wi: "p + n \<le> b \<Longrightarrow> u32 (n + m) = n + m" "b + m \<le> p \<Longrightarrow> u32 (n + m) = n + m"
      using prems(4-10) by (auto intro!: u32_sum)
    obtain s1 where s1: "kdelete f hk s = Inr s1" "tr s1 (get_hook s1 hk) (join_t l r)" "hdr_list s1 (i # L)"
      "alters {i} (insert hk (links (Br l i b m r))) s s1" "env s1 = env s" "Freehdrflag s1 \<noteq> 0"
      "Freehdrflag s1 = Freehdrflag s"
      using kdelete_spec[OF prems(1,2,5,3,11), of f] prems(12,13) by fastforce
    have join: "freed s hk L (Br l i b m r) (kmem_free_loop f s1 hk q (n + m))
        (map_option (\<lambda>(t, q, k, fr). (t, q, k, fr @ [i])) (coalesce_t (join_t l r) q (n + m)))"
      if "lo \<le> q" "q + (n + m) \<le> hi" for q
    proof (rule freed_join[OF _ s1(4-6) s1(7)[symmetric]])
      show "freed s1 hk (i # L) (join_t l r) (kmem_free_loop f s1 hk q (n + m)) (coalesce_t (join_t l r) q (n + m))"
        using join_sub[OF prems(4,5)] prems s1 that
        by (intro Suc.IH) (auto simp: lks_union)
    qed
    have below: "p + n < b \<Longrightarrow> freed s hk L (Br l i b m r) (kmem_free_loop f s (LeftOf i) p n)
        (map_option (\<lambda>(t, q, k, fr). (Br t i b m r, q, k, fr)) (coalesce_t l p n))"
      using freed_below[of s True i L l r "kmem_free_loop f s (LeftOf i) p n" p n hk b m]
        Suc.IH[of s "LeftOf i" l L lo "b - 1" p n] prems by (simp add: Int_Un_distrib)
    have above: "b + m < p \<Longrightarrow> freed s hk L (Br l i b m r) (kmem_free_loop f s (RightOf i) p n)
        (map_option (\<lambda>(t, q, k, fr). (Br l i b m t, q, k, fr)) (coalesce_t r p n))"
      using freed_below[of s False i L l r "kmem_free_loop f s (RightOf i) p n" p n hk b m]
        Suc.IH[of s "RightOf i" r L "b + m + 1" hi p n] prems by (simp add: Int_Un_distrib)
    consider "p < b" "p + n = b" | "p < b" "p + n > b" | "p < b" "p + n < b"
      | "p > b" "b + m = p" | "p > b" "b + m > p" | "p > b" "b + m < p" | "p = b"
      by linarith
    then show ?thesis
      using join[of p] join[of b] below above prems(4,6,7) x pn wi s1(1) unfolding t
      by cases (simp_all add: freed_def)
  qed
qed simp

section \<open>kmem_free\<close>

text \<open>
  The state is in order: the headers hold the tree \<open>t\<close> and the list \<open>L\<close>, all of them different
  headers of the array; the blocks lie in the arena, fully coalesced and in both orders.
\<close>

definition kmem_ok :: "kmem \<Rightarrow> ctree \<Rightarrow> nat list \<Rightarrow> bool" where
  "kmem_ok s t L =
     (tr s (free_root s) t \<and> hdr_list s L \<and> distinct (ids t @ L) \<and> set (ids t @ L) \<subseteq> {..< v_maxheader s} \<and>
      hor (CoreBegin s) (CoreEnd s) t \<and> ver t \<and> (t \<noteq> Tip \<longrightarrow> Freehdrflag s \<noteq> 0) \<and>
      0 \<le> Core s \<and> Core s \<le> CoreBegin s \<and> CoreEnd s < 4294967296)"

lemma kmem_ok_size: "kmem_ok s t L \<Longrightarrow> size t \<le> v_maxheader s"
proof -
  assume ok: "kmem_ok s t L"
  then have "card (set (ids t)) \<le> card {..< v_maxheader s}"
    by (intro card_mono) (auto simp: kmem_ok_def)
  with ok show ?thesis by (simp add: kmem_ok_def distinct_card length_ids)
qed

text \<open>Fields the tree and the headers do not depend on.\<close>

lemma other_fields_alters:
  "free_root s' = free_root s \<Longrightarrow> hdrs s' = hdrs s \<Longrightarrow> alters {} {} s s'"
proof -
  assume "free_root s' = free_root s" "hdrs s' = hdrs s"
  then have "get_hook s' k = get_hook s k" for k by (cases k) simp_all
  with \<open>hdrs s' = hdrs s\<close> show ?thesis by (simp add: alters_def)
qed

lemma kmem_ok_other:
  assumes "free_root s' = free_root s" "hdrs s' = hdrs s" "free_hdr_list s' = free_hdr_list s"
    "Freehdrflag s' = Freehdrflag s" "Core s' = Core s" "CoreEnd s' = CoreEnd s" "v_maxheader s' = v_maxheader s"
  shows "kmem_ok s' t L = kmem_ok s t L"
proof -
  note a = other_fields_alters[OF assms(1,2)]
  have "CoreBegin s' = CoreBegin s" using assms by (simp add: CoreBegin_def)
  moreover have "tr s' p t = tr s p t" for p using tr_alters[OF a] by simp
  moreover have "hdr_list s' L = hdr_list s L" using hdr_list_alters[OF a] assms by simp
  ultimately show ?thesis using assms by (simp add: kmem_ok_def)
qed

lemma env_ipl: "env (s\<lparr>ipl := l\<rparr>) = (env s)\<lparr>ipl := l\<rparr>" "env s\<lparr>ipl := ipl s\<rparr> = env s"
  by (simp_all add: env_def)

lemma CoreBegin_env: "env s' = env s \<Longrightarrow> CoreBegin s' = CoreBegin s"
  by (drule env_other) (simp add: CoreBegin_def)

lemma coalesce_apart: "apart p n t \<Longrightarrow> 0 < n \<Longrightarrow> hor lo hi t \<Longrightarrow> coalesce_t t p n = Some (t, p, n, [])"
  by (induction t arbitrary: lo hi) (simp, fastforce)

lemma coalesce_nothing: "coalesce_t t p n = Some (t', q, k, []) \<Longrightarrow> hor lo hi t \<Longrightarrow> 0 < n \<Longrightarrow> lo \<le> p \<Longrightarrow> p + n \<le> hi \<Longrightarrow> apart p n t"
proof (induction t arbitrary: t' lo hi)
  case (Br l i b m r)
  consider (left) u where "p + n < b" "coalesce_t l p n = Some (u, q, k, [])"
    | (right) u where "b + m < p" "coalesce_t r p n = Some (u, q, k, [])"
    using Br.prems(1) by (auto split: if_splits)
  then show ?case
  proof cases
    case left
    then show ?thesis using Br.IH(1)[OF left(2), of lo "b - 1"] Br.prems apart_right[of "b + m + 1" hi r p n] by auto
  next
    case right
    then show ?thesis using Br.IH(2)[OF right(2), of "b + m + 1" hi] Br.prems apart_left[of lo "b - 1" l p n] by auto
  qed
qed simp

text \<open>The calls \<open>kmem_free\<close> refuses: an overlap, or a run that would need a header when none is left.\<close>

definition refuses :: "ctree \<Rightarrow> nat list \<Rightarrow> int \<Rightarrow> int \<Rightarrow> bool" where
  "refuses t L p n = ({p ..< p + n} \<inter> bytes t \<noteq> {} \<or> L = [] \<and> apart p n t)"

lemma insert_search_ok:
  "tr s (get_hook s hk) t \<Longrightarrow> 0 < n \<Longrightarrow> size t < f \<Longrightarrow> \<exists>k. insert_search f p n s hk = Inr k"
proof (induction t arbitrary: f hk)
  case Tip
  then show ?case by (cases f) (simp_all add: weight_def)
next
  case (Br l i b m r)
  then obtain g where "f = Suc g" by (cases f) auto
  with Br.IH(1)[of "LeftOf i" g] Br.IH(2)[of "RightOf i" g] Br.prems show ?case
    by (auto simp: weight_def)
qed

lemma kmem_free_spec:
  assumes ok: "kmem_ok s t L" and p: "CoreBegin s \<le> p" "p + n \<le> CoreEnd s" "0 < n" and f: "v_maxheader s < f"
  shows "refuses t L p n \<Longrightarrow> \<exists>m. kmem_free f p n s = Inl (Panic m)"
    "\<not> refuses t L p n \<Longrightarrow> \<exists>s' t' L'. kmem_free f p n s = Inr s' \<and> kmem_ok s' t' L' \<and>
       bytes t' = bytes t \<union> {p ..< p + n} \<and> mset (ids t' @ L') = mset (ids t @ L) \<and> env s' = env s"
proof -
  define s0 where "s0 = s\<lparr>ipl := 6\<rparr>"
  have k0: "kmem_ok s0 t L" using ok kmem_ok_other[of s0 s t L] by (simp add: s0_def)
  have t0: "tr s0 (get_hook s0 Root) t" "distinct (ids t @ L)" "hor (CoreBegin s) (CoreEnd s) t" "ver t" "hdr_list s0 L"
    "t \<noteq> Tip \<longrightarrow> Freehdrflag s0 \<noteq> 0" "0 \<le> CoreBegin s" "CoreEnd s < 4294967296"
    using k0 ok by (simp_all add: kmem_ok_def s0_def)
  have size: "size t < f" using kmem_ok_size[OF ok] f by simp
  have loop: "freed s0 Root L t (kmem_free_loop f s0 Root p n) (coalesce_t t p n)"
    using t0 p size by (intro kmem_free_loop_spec[of s0 Root t L "CoreBegin s" "CoreEnd s"]) auto
  have run: "kmem_free f p n s = andthen (kmem_free_loop f s0 Root p n) (\<lambda>(ptr', nbytes', s1).
             andthen (kinsert f ptr' nbytes' Root s1) (\<lambda>s2. Inr (splx (ipl s) s2)))"
    using p ok by (auto simp: kmem_free_def splnet_def s0_def kmem_ok_def)
  have some: "\<exists>s1. kmem_free_loop f s0 Root p n = Inr (q, k, s1) \<and> tr s1 (get_hook s1 Root) t' \<and> hdr_list s1 (fr @ L) \<and>
      env s1 = env s0 \<and> Freehdrflag s1 = Freehdrflag s0 \<and> coalesced (CoreBegin s) (CoreEnd s) t p n (t', q, k, fr) \<and>
      distinct (ids t' @ fr @ L) \<and> size t' < f \<and> 0 < k"
    if co: "coalesce_t t p n = Some (t', q, k, fr)" for t' q k fr
  proof -
    have c: "coalesced (CoreBegin s) (CoreEnd s) t p n (t', q, k, fr)"
      using coalesce_some[OF t0(3,4) p co] .
    then have m: "mset (ids t' @ fr) = mset (ids t)" by (simp add: coalesced_def)
    then have "mset (ids t' @ fr @ L) = mset (ids t @ L)" by (simp add: ac_simps)
    then have "distinct (ids t' @ fr @ L)" using t0(2) mset_eq_imp_distinct_iff by blast
    moreover have "size t' \<le> size t" using arg_cong[OF m, of size] by (simp add: length_ids)
    ultimately show ?thesis using loop c co p(3) size by (auto simp: freed_def coalesced_def)
  qed
  {
    assume r: "refuses t L p n"
    show "\<exists>m. kmem_free f p n s = Inl (Panic m)"
    proof (cases "coalesce_t t p n")
      case None
      with loop run show ?thesis by (auto simp: freed_def)
    next
      case (Some a)
      then have "{p ..< p + n} \<inter> bytes t = {}" using coalesce_none[OF t0(3,4) p] by auto
      with r have L: "L = []" and "apart p n t" by (auto simp: refuses_def)
      then have co: "coalesce_t t p n = Some (t, p, n, [])" using coalesce_apart p(3) t0(3) by blast
      from some[OF co] obtain s1 where s1: "kmem_free_loop f s0 Root p n = Inr (p, n, s1)"
        "tr s1 (get_hook s1 Root) t" "hdr_list s1 []" using L by auto
      obtain k where "insert_search f p n s1 Root = Inr k" using insert_search_ok[OF s1(2) p(3) size] by blast
      with kinsert_none[OF s1(3)] s1(1) run show ?thesis by fastforce
    qed
  }
  assume r: "\<not> refuses t L p n"
  then obtain t' q k fr where co: "coalesce_t t p n = Some (t', q, k, fr)"
    using coalesce_none[OF t0(3,4) p] by (cases "coalesce_t t p n") (auto simp: refuses_def)
  from some[OF co] obtain s1 where s1: "kmem_free_loop f s0 Root p n = Inr (q, k, s1)"
    "tr s1 (get_hook s1 Root) t'" "hdr_list s1 (fr @ L)" "env s1 = env s0"
    "coalesced (CoreBegin s) (CoreEnd s) t p n (t', q, k, fr)" "distinct (ids t' @ fr @ L)" "size t' < f" "0 < k"
    by auto
  have "fr @ L \<noteq> []"
    using r coalesce_nothing[of t p n t' q k] co t0(3) p by (auto simp: refuses_def)
  then obtain h L' where hL: "fr @ L = h # L'" by (cases "fr @ L") auto
  obtain s2 where s2: "kinsert f q k Root s1 = Inr s2" "tr s2 (get_hook s2 Root) (ins_t h q k t')" "hdr_list s2 L'"
    "env s2 = env s1" "Freehdrflag s2 \<noteq> 0"
    using kinsert_descends[OF s1(2), of h L' f f k q] s1 hL by (auto simp: kinsert_def)
  define s' where "s' = splx (ipl s) s2"
  have kf: "kmem_free f p n s = Inr s'" using run s1(1) s2(1) by (simp add: s'_def)
  have env: "env s' = env s"
    using s2(4) s1(4) by (simp add: s'_def splx_def s0_def env_ipl)
  have m: "mset (ids (ins_t h q k t') @ L') = mset (ids t @ L)"
  proof -
    have "mset (ids t @ L) = mset (ids t') + (mset fr + mset L)"
      using s1(5) by (simp add: coalesced_def flip: add.assoc)
    also have "mset fr + mset L = add_mset h (mset L')" using arg_cong[OF hL, of mset] by simp
    finally show ?thesis using ins_ids[of h q k t'] by simp
  qed
  have d: "distinct (ids (ins_t h q k t') @ L')" using m t0(2) mset_eq_imp_distinct_iff by blast
  have sub: "set (ids (ins_t h q k t') @ L') \<subseteq> {..< v_maxheader s}"
    using mset_eq_setD[OF m] ok by (simp add: kmem_ok_def)
  have "hor (CoreBegin s) (CoreEnd s) (ins_t h q k t')" "ver (ins_t h q k t')"
    using s1(5,8) ins_hor ins_ver by (auto simp: coalesced_def)
  with s2 d sub ok env_other[OF s2(4)] env_other[OF s1(4)] have "kmem_ok s2 (ins_t h q k t') L'"
    using CoreBegin_env[OF s2(4)] CoreBegin_env[OF s1(4)] unfolding kmem_ok_def by (simp add: s0_def CoreBegin_def)
  then have "kmem_ok s' (ins_t h q k t') L'"
    using kmem_ok_other[of s' s2] by (simp add: s'_def splx_def)
  with kf m env s1(5) show "\<exists>s' t' L'. kmem_free f p n s = Inr s' \<and> kmem_ok s' t' L' \<and>
       bytes t' = bytes t \<union> {p ..< p + n} \<and> mset (ids t' @ L') = mset (ids t @ L) \<and> env s' = env s"
    by (intro exI[of _ s'] exI[of _ "ins_t h q k t'"] exI[of _ L']) (simp add: coalesced_def)
qed

end
