(* ===== verification/Kmem_Alloc.thy ===== *)
theory Kmem_Alloc
  imports Kmem_Free
begin

text \<open>
  The part of \<open>kmem_alloc\<close> that works on the tree: the descent to the best fitting block and the
  allocation from it, on the header array. The result is a run of free bytes, taken out of the tree.
\<close>

section \<open>The descent\<close>

lemma best_ids: "set (ids (best k t)) \<subseteq> set (ids t)" "distinct (ids t) \<Longrightarrow> distinct (ids (best k t))"
  by (induction t) auto

lemma best_size: "size (best k t) \<le> size t"
  by (induction t) auto

text \<open>
  \<open>focus\<close>: below the link hk' one finds \<open>best k t\<close>, and a state that differs only there and in the
  headers of X has, below hk, the tree with the new subtree in place.
\<close>

definition focus :: "kmem \<Rightarrow> hook \<Rightarrow> int \<Rightarrow> ctree \<Rightarrow> nat set \<Rightarrow> hook \<Rightarrow> nat \<Rightarrow> bool" where
  "focus s hk k t X hk' a =
     (get_hook s hk' = Some a \<and> tr s (Some a) (best k t) \<and> hk' \<notin> links (best k t) \<and> hk' \<notin> lks X \<and>
      (\<forall>s' u N H. alters N H s s' \<longrightarrow> N \<subseteq> set (ids (best k t)) \<union> X \<longrightarrow>
         H \<subseteq> insert hk' (links (best k t) \<union> lks X) \<longrightarrow> tr s' (get_hook s' hk') u \<longrightarrow>
         tr s' (get_hook s' hk) (at_best k u t)))"

lemma focus_below:
  assumes foc: "focus s (if c then LeftOf i else RightOf i) k (if c then l else r) X hk' a"
    and hk': "hk' = (if c then LeftOf i else RightOf i) \<or> hk' \<in> links (if c then l else r)"
    and t: "tr s (get_hook s hk) (Br l i b n r)" "distinct (ids (Br l i b n r))"
    and X: "set (ids (Br l i b n r)) \<inter> X = {}" "hk \<notin> links (Br l i b n r) \<union> lks X"
    and best: "best k (Br l i b n r) = best k (if c then l else r)"
    and at: "\<And>u. at_best k u (Br l i b n r) = (if c then Br (at_best k u l) i b n r else Br l i b n (at_best k u r))"
  shows "focus s hk k (Br l i b n r) X hk' a"
proof -
  let ?v = "if c then l else r"
  have bi: "set (ids (best k ?v)) \<subseteq> set (ids ?v)" by (rule best_ids(1))
  have "tr s' (get_hook s' hk) (at_best k u (Br l i b n r))"
    if al: "alters N H s s'" and N: "N \<subseteq> set (ids (best k ?v)) \<union> X"
      and H: "H \<subseteq> insert hk' (links (best k ?v) \<union> lks X)" and u: "tr s' (get_hook s' hk') u" for s' u N H
  proof -
    have w: "tr s' (get_hook s' (if c then LeftOf i else RightOf i)) (at_best k u ?v)"
      using foc al N H u by (auto simp: focus_def)
    have H': "H \<subseteq> insert (if c then LeftOf i else RightOf i) (links ?v \<union> lks X)"
      using H hk' lks_mono[OF bi] by blast
    have N': "N \<subseteq> set (ids ?v) \<union> X" using N bi by auto
    have "get_hook s' hk = get_hook s hk"
      by (rule alters_get[OF al]) (use H' X(2) in \<open>auto simp: lks_union split: if_splits\<close>)
    moreover have "tr s' (get_hook s hk) (if c then Br (at_best k u l) i b n r else Br l i b n (at_best k u r))"
    proof (cases c)
      case True
      have "RightOf i \<notin> H" "i \<notin> N" "links r \<inter> H = {}" "set (ids r) \<inter> N = {}"
        using H' N' True t(2) X(1) by (auto simp: lks_def)
      then show ?thesis using tr_left[OF t al] w True by auto
    next
      case False
      have "LeftOf i \<notin> H" "i \<notin> N" "links l \<inter> H = {}" "set (ids l) \<inter> N = {}"
        using H' N' False t(2) X(1) by (auto simp: lks_def)
      then show ?thesis using tr_right[OF t al] w False by auto
    qed
    ultimately show ?thesis using at by simp
  qed
  with foc best show ?thesis by (simp add: focus_def)
qed

lemma alloc_search_spec:
  "tr s (get_hook s hk) t \<Longrightarrow> t = Br l i b n r \<Longrightarrow> distinct (ids t) \<Longrightarrow> hk \<notin> links t \<union> lks X \<Longrightarrow>
   set (ids t) \<inter> X = {} \<Longrightarrow> 0 < k \<Longrightarrow> size t \<le> f \<Longrightarrow>
   \<exists>hk' a. alloc_search f k s hk i = Inr (hk', a) \<and> focus s hk k t X hk' a \<and> (hk' = hk \<or> hk' \<in> links t)"
proof (induction t arbitrary: f hk l i b n r)
  case (Br L j c m R)
  then have eq: "L = l" "j = i" "c = b" "m = n" "R = r" by simp_all
  note prems = Br.prems[unfolded eq] and IH = Br.IH[unfolded eq]
  obtain g where f: "f = Suc g" using prems(7) by (cases f) auto
  have x: "get_hook s hk = Some i" and l: "tr s (left (hdrs s i)) l" and r: "tr s (right (hdrs s i)) r"
    using prems(1) by auto
  note w = tr_weight(2)[OF l] tr_weight(2)[OF r]
  have below: "\<exists>hk' a. (case get_hook s (if d then LeftOf i else RightOf i) of None \<Rightarrow> Inl Fault
       | Some i' \<Rightarrow> alloc_search g k s (if d then LeftOf i else RightOf i) i') = Inr (hk', a) \<and>
       focus s hk k (Br l i b n r) X hk' a \<and> (hk' = hk \<or> hk' \<in> links (Br l i b n r))"
    if d: "mwt (if d then l else r) \<ge> k" "best k (Br l i b n r) = best k (if d then l else r)"
      "\<And>u. at_best k u (Br l i b n r) = (if d then Br (at_best k u l) i b n r else Br l i b n (at_best k u r))" for d
  proof -
    let ?v = "if d then l else r" and ?h = "if d then LeftOf i else RightOf i"
    obtain l' i' b' n' r' where v: "?v = Br l' i' b' n' r'" using d(1) prems(6) by (cases ?v) auto
    have tv: "tr s (get_hook s ?h) ?v" using l r by simp
    have dj: "distinct (ids ?v)" "?h \<notin> links ?v \<union> lks X" "set (ids ?v) \<inter> X = {}" "size ?v \<le> g"
      using prems(3,5,7) f by auto
    have "\<exists>hk' a. alloc_search g k s ?h i' = Inr (hk', a) \<and> focus s ?h k ?v X hk' a \<and> (hk' = ?h \<or> hk' \<in> links ?v)"
      using IH(1)[of ?h l' i' b' n' r' g] IH(2)[of ?h l' i' b' n' r' g] tv v dj prems(6) by (cases d) auto
    then obtain hk' a where s': "alloc_search g k s ?h i' = Inr (hk', a)" "focus s ?h k ?v X hk' a"
      "hk' = ?h \<or> hk' \<in> links ?v" by blast
    have "get_hook s ?h = Some i'" using tv v by simp
    moreover have "focus s hk k (Br l i b n r) X hk' a"
      by (rule focus_below[OF s'(2,3) prems(1,3,5,4) d(2,3)])
    moreover have "hk' \<in> links (Br l i b n r)" using s'(3) by (auto simp: lks_union split: if_splits)
    ultimately show ?thesis using s'(1) by (cases d) auto
  qed
  show ?case
  proof (cases "mwt l \<ge> k \<or> mwt r \<ge> k")
    case True
    then consider "mwt l \<ge> k" "mwt l \<le> mwt r" | "mwt l \<ge> k" "\<not> mwt r \<ge> k" | "mwt r \<ge> k" "\<not> mwt l \<le> mwt r"
      | "mwt r \<ge> k" "\<not> mwt l \<ge> k" by linarith
    then show ?thesis unfolding eq f using below[of True, unfolded if_True] below[of False, unfolded if_False] w x True
      by cases simp_all
  next
    case False
    have "focus s hk k (Br l i b n r) X hk i"
      using prems False by (auto simp: focus_def)
    with False w f eq show ?thesis by simp
  qed
qed simp

section \<open>The allocation from a node\<close>

lemma at_best_ok:
  assumes ok: "kmem_ok s t L" and v: "best k t = Br l a b m r" "t \<noteq> Tip" "0 < k"
    and t': "tr s' (free_root s') (at_best k u t)" "hdr_list s' L'" "env s' = env s" "Freehdrflag s' \<noteq> 0"
    and u: "\<And>lo hi. hor lo hi (Br l a b m r) \<Longrightarrow> hor lo hi u" "ver u" "wt u \<le> m"
    and i: "mset (ids u) + X = mset (ids (Br l a b m r)) + Y" "X + mset L = Y + mset L' + Z"
  shows "kmem_ok s' (at_best k u t) L'" "mset (ids (at_best k u t) @ L') + Z = mset (ids t @ L)"
proof -
  have m: "mset (ids (at_best k u t)) + X = mset (ids t) + Y" using at_best_ids[of u X k t Y] i v by simp
  have "(mset (ids (at_best k u t) @ L') + Z) + (X + Y) = (mset (ids (at_best k u t)) + X) + (Y + mset L' + Z)"
    by (simp add: ac_simps)
  also have "\<dots> = mset (ids t @ L) + (X + Y)" unfolding m i(2)[symmetric] by (simp add: ac_simps)
  finally show c: "mset (ids (at_best k u t) @ L') + Z = mset (ids t @ L)" by simp
  then have sub: "mset (ids (at_best k u t) @ L') \<subseteq># mset (ids t @ L)" by (metis mset_subset_eq_add_left)
  obtain zs where "mset zs = Z" using ex_mset by blast
  with c have "mset ((ids (at_best k u t) @ L') @ zs) = mset (ids t @ L)" by (simp add: ac_simps)
  then have "distinct ((ids (at_best k u t) @ L') @ zs)"
    using ok mset_eq_imp_distinct_iff unfolding kmem_ok_def by blast
  then have d: "distinct (ids (at_best k u t) @ L')" by (simp only: distinct_append)
  have "set (ids (at_best k u t) @ L') \<subseteq> set (ids t @ L)" using set_mset_mono[OF sub] by simp
  moreover have "hor (CoreBegin s) (CoreEnd s) (at_best k u t)"
    using ok u(1) v by (intro at_best_hor) (auto simp: kmem_ok_def)
  moreover have "ver (at_best k u t)" using at_best_ver[of t u k] ok u v by (simp add: kmem_ok_def)
  ultimately show "kmem_ok s' (at_best k u t) L'"
    using ok t' d env_other[OF t'(3)] CoreBegin_env[OF t'(3)] unfolding kmem_ok_def by auto
qed

text \<open>The whole block: its node is deleted.\<close>

lemma alloc_whole:
  assumes ok: "kmem_ok s t L" and v: "best k t = Br l a b m r" "t \<noteq> Tip" "0 < k"
    and foc: "focus s Root k t (set L) hk a" and f: "v_maxheader s < f"
  shows "\<exists>s' t'. kdelete f hk s = Inr s' \<and> kmem_ok s' t' (a # L) \<and> bytes t' = bytes t - {b ..< b + m} \<and>
     mset (ids t' @ a # L) = mset (ids t @ L) \<and> env s' = env s"
proof -
  have vt: "ver (Br l a b m r)" "set (ids (Br l a b m r)) \<subseteq> set (ids t)" "distinct (ids (Br l a b m r))"
    using best_ver[of t k] best_ids(1)[of k t] best_ids(2)[of t k] ok v by (auto simp: kmem_ok_def)
  obtain lo hi where ho: "hor lo hi (Br l a b m r)" using best_hor[of _ _ t k] ok v(1) by (metis kmem_ok_def)
  have d: "distinct (ids (Br l a b m r) @ L)" using vt ok by (auto simp: kmem_ok_def)
  have sz: "size l + size r < f" using best_size[of k t] kmem_ok_size[OF ok] f v(1) by simp
  have foc': "get_hook s hk = Some a" "tr s (Some a) (Br l a b m r)" "hk \<notin> links (Br l a b m r) \<union> lks (set L)"
    using foc v(1) by (auto simp: focus_def)
  obtain s' where s': "kdelete f hk s = Inr s'" "tr s' (get_hook s' hk) (join_t l r)" "hdr_list s' (a # L)"
     "alters {a} (insert hk (links (Br l a b m r))) s s'" "env s' = env s" "Freehdrflag s' = Freehdrflag s"
  proof -
    have "tr s (get_hook s hk) (Br l a b m r)" "hdr_list s L" "Freehdrflag s \<noteq> 0"
      using foc'(1,2) ok v(2) by (simp_all add: kmem_ok_def)
    from kdelete_spec[OF this(1) d vt(1) foc'(3) this(2,3) sz] show ?thesis using that by blast
  qed
  have "tr s' (get_hook s' Root) (at_best k (join_t l r) t)"
    using foc s'(2,4) v(1) unfolding focus_def by (elim conjE allE[of _ s'] allE[of _ "join_t l r"]) auto
  then have t1: "tr s' (free_root s') (at_best k (join_t l r) t)" by simp
  have fl: "Freehdrflag s' \<noteq> 0" using s'(6) ok v(2) by (simp add: kmem_ok_def)
  have u: "\<And>lo hi. hor lo hi (Br l a b m r) \<Longrightarrow> hor lo hi (join_t l r)" "ver (join_t l r)" "wt (join_t l r) \<le> m"
    using join_sub[OF _ vt(1)] ho by blast+
  have i: "mset (ids (join_t l r)) + {#a#} = mset (ids (Br l a b m r)) + {#}" "{#a#} + mset L = {#} + mset (a # L) + {#}"
    by simp_all
  have "bytes (at_best k (join_t l r) t) = bytes t - {b ..< b + m}"
    using ok v join_sub(4)[OF ho vt(1)]
    by (intro at_best_bytes[of "CoreBegin s" "CoreEnd s"]) (auto simp: kmem_ok_def)
  with at_best_ok[OF ok v t1 s'(3,5) fl u i] s'(1,5) show ?thesis by auto
qed

text \<open>A part of the block stays, under a new header x, which takes the place of a and is demoted.\<close>

lemma alloc_split:
  assumes ok: "kmem_ok s t (x # L)" and v: "best k t = Br l a b m r" "t \<noteq> Tip" "0 < k"
    and foc: "focus s Root k t (set (x # L)) hk a" and f: "v_maxheader s < f"
    and part: "b \<le> b'" "b' + m' \<le> b + m" "0 < m'"
  shows "\<exists>s1 s' t'. getfreehdr s = Inr (x, s1) \<and>
     demote f hk (set_hook hk (Some x) (upd_hdr x (\<lambda>X. X\<lparr>block := b', hsize := m', left := left (hdrs s a),
         right := right (hdrs s a)\<rparr>) s1)) = Inr s' \<and>
     kmem_ok s' t' L \<and> bytes t' = bytes t - ({b ..< b + m} - {b' ..< b' + m'}) \<and>
     mset (ids t' @ L) + {#a#} = mset (ids t @ x # L) \<and> env s' = env s \<and> Freehdrflag s' \<noteq> 0"
proof -
  have vt: "ver (Br l a b m r)" "set (ids (Br l a b m r)) \<subseteq> set (ids t)" "distinct (ids (Br l a b m r))"
    using best_ver[of t k] best_ids(1)[of k t] best_ids(2)[of t k] ok v by (auto simp: kmem_ok_def)
  obtain lo hi where ho: "hor lo hi (Br l a b m r)" using best_hor[of _ _ t k] ok v(1) by (metis kmem_ok_def)
  have d: "distinct (ids (Br l a b m r) @ x # L)" using vt ok by (auto simp: kmem_ok_def)
  have sz: "size l + size r < f" using best_size[of k t] kmem_ok_size[OF ok] f v(1) by simp
  have foc': "get_hook s hk = Some a" "tr s (Some a) (Br l a b m r)" "hk \<notin> links (Br l a b m r) \<union> lks (set (x # L))"
    using foc v(1) by (auto simp: focus_def)
  have okL: "hdr_list s (x # L)" "distinct (x # L)" using ok by (auto simp: kmem_ok_def)
  obtain s1 where s1: "getfreehdr s = Inr (x, s1)" "hdr_list s1 L" "alters (set L) (lks (set L)) s s1" "env s1 = env s"
    "Freehdrflag s1 \<noteq> 0" using getfreehdr_some[OF okL] by blast
  define s2 where "s2 = upd_hdr x (\<lambda>X. X\<lparr>block := b', hsize := m', left := left (hdrs s a), right := right (hdrs s a)\<rparr>) s1"
  define s3 where "s3 = set_hook hk (Some x) s2"
  have a3: "alters ({x} \<union> {}) (lks {x} \<union> {hk}) s1 s3"
    unfolding s3_def s2_def by (rule alters_trans[OF upd_hdr_alters relinks_alters[OF relinks_set]])
  have as3: "alters (set (x # L)) (insert hk (lks (set (x # L)))) s s3"
    by (rule alters_via[OF s1(3) a3]) (auto simp: lks_union)
  have x3: "get_hook s3 hk = Some x" "left (hdrs s3 x) = left (hdrs s a)" "right (hdrs s3 x) = right (hdrs s a)"
    "block (hdrs s3 x) = b'" "hsize (hdrs s3 x) = m'"
    using foc'(3) by (auto simp: s3_def s2_def lks_union)
  have sub3: "tr s3 (left (hdrs s3 x)) l" "tr s3 (right (hdrs s3 x)) r"
  proof -
    have "tr s3 p u = tr s p u" if "set (ids u) \<subseteq> set (ids l) \<union> set (ids r)" for p u
      using that d foc'(3) by (intro tr_alters[OF as3]) (auto simp: lks_def)
    then show "tr s3 (left (hdrs s3 x)) l" "tr s3 (right (hdrs s3 x)) r" using foc'(2) x3 by simp_all
  qed
  have dd: "distinct (x # ids l @ ids r)" "hk \<notin> links l \<union> links r \<union> lks {x}" using d foc'(3) by (auto simp: lks_union)
  obtain s' where s': "demote f hk s3 = Inr s'" "tr s' (get_hook s' hk) (demote_t x b' m' l r)"
    "relinks (insert hk (links l \<union> links r \<union> lks {x})) s3 s'"
    using demote_spec[OF x3(1) sub3 dd(1) _ _ _ dd(2) sz] vt(1) part(3) x3(4,5) by auto
  have al: "alters (set (x # L)) (insert hk (links (Br l a b m r) \<union> lks (set (x # L)))) s s'"
    by (rule alters_via[OF as3 relinks_alters[OF s'(3)]]) (auto simp: lks_union)
  have "tr s' (get_hook s' Root) (at_best k (demote_t x b' m' l r) t)"
    using foc s'(2) al v(1) unfolding focus_def by (elim conjE) (erule allE[of _ s'], auto)
  then have t1: "tr s' (free_root s') (at_best k (demote_t x b' m' l r) t)" by simp
  have e: "env s' = env s" "Freehdrflag s' \<noteq> 0" using s'(3) s1(4,5) by (simp_all add: relinks_def s3_def s2_def)
  have "hdr_list s3 L" using hdr_list_alters[OF a3, of L] s1(2) d foc'(3) env_other[of s3 s1]
    by (auto simp: s3_def s2_def lks_def)
  moreover have "set L \<inter> (set (ids l) \<union> set (ids r) \<union> {x}) = {}" using d by auto
  then have "LeftOf ` set L \<inter> insert hk (links l \<union> links r \<union> lks {x}) = {}" using foc'(3) by (auto simp: lks_def)
  ultimately have L': "hdr_list s' L" using hdr_list_relinks[OF s'(3), of L] by simp
  have u: "\<And>lo hi. hor lo hi (Br l a b m r) \<Longrightarrow> hor lo hi (demote_t x b' m' l r)"
    using vt(1) part by (intro demote_hor) (auto intro: hor_weaken)
  have u2: "ver (demote_t x b' m' l r)" "wt (demote_t x b' m' l r) \<le> m"
    using demote_ver[of l r m' x b'] vt(1) part by auto
  have i: "mset (ids (demote_t x b' m' l r)) + {#a#} = mset (ids (Br l a b m r)) + {#x#}"
    "{#a#} + mset (x # L) = {#x#} + mset L + {#a#}" using vt(1) part(3) by simp_all
  have "bytes (at_best k (demote_t x b' m' l r) t) = bytes t - ({b ..< b + m} - {b' ..< b' + m'})"
    using ok v join_sub(4)[OF ho vt(1)] vt(1) part
    by (intro at_best_bytes[of "CoreBegin s" "CoreEnd s"]) (auto simp: kmem_ok_def)
  with at_best_ok[OF ok v t1 L' e u u2 i] s1(1) s'(1) e show ?thesis
    by (auto simp: s3_def s2_def)
qed

lemma kmem_ok_freehdr:
  assumes "kmem_ok s t L" "a < v_maxheader s" "a \<notin> set (ids t @ L)" "Freehdrflag s \<noteq> 0"
  shows "kmem_ok (freehdr a s) t (a # L)"
proof -
  note fa = freehdr_alters[of a s]
  have "tr (freehdr a s) (free_root s) t" using tr_alters[OF fa, of t] assms by (auto simp: kmem_ok_def lks_def)
  moreover have "hdr_list (freehdr a s) (a # L)" using freehdr_list assms by (auto simp: kmem_ok_def)
  ultimately show ?thesis
    using assms env_other[of "freehdr a s" s] CoreBegin_env[of "freehdr a s" s] alters_get[OF fa, of Root]
    by (auto simp: kmem_ok_def)
qed

section \<open>kmem_alloc below the root\<close>

text \<open>What an allocation of k bytes from the tree \<open>t\<close> may end in.\<close>

definition took :: "kmem \<Rightarrow> ctree \<Rightarrow> nat list \<Rightarrow> int \<Rightarrow> kerr + (int \<times> kmem) \<Rightarrow> bool" where
  "took s t L k res =
     ((\<exists>m. res = Inl (Panic m)) \<and> length L < 2 \<or>
      (\<exists>b s' t' L'. res = Inr (b, s') \<and> kmem_ok s' t' L' \<and> {b ..< b + k} \<subseteq> bytes t \<and>
         bytes t' = bytes t - {b ..< b + k} \<and> mset (ids t' @ L') = mset (ids t @ L) \<and> env s' = env s \<and>
         (4 \<le> k \<longrightarrow> b mod 4 = 0)))"

lemma tookI:
  "\<lbrakk>res = Inr (b, s'); kmem_ok s' t' L'; {b ..< b + k} \<subseteq> bytes t; bytes t' = bytes t - {b ..< b + k};
    mset (ids t' @ L') = mset (ids t @ L); env s' = env s; 4 \<le> k \<Longrightarrow> b mod 4 = 0\<rbrakk> \<Longrightarrow> took s t L k res"
  unfolding took_def by (intro disjI2 exI conjI impI)

lemma ALIGNMORE_range: "0 < ALIGNMORE b \<and> ALIGNMORE b \<le> 4 \<and> (b mod 4 \<noteq> 0 \<longrightarrow> ALIGNMORE b < 4)"
proof -
  have "0 \<le> b mod 4" "b mod 4 < 4" by simp_all
  then show ?thesis by (auto simp: ALIGNMORE_def)
qed

lemma mweight_of_le: "mweight_of b m \<le> m"
  using ALIGNMORE_range[of b] by (simp add: mweight_of_def)

lemma block_bytes: "(b, m) \<in> set (blocks t) \<Longrightarrow> {b ..< b + m} \<subseteq> bytes t"
  by (auto simp: set_bytes_blocks)

lemma given_back: "mset xs + {#a#} = mset ys \<Longrightarrow> distinct ys \<Longrightarrow> a \<notin> set xs"
  using mset_eq_imp_distinct_iff[of "a # xs" ys] by simp

lemma alloc_node_whole:
  assumes ok: "kmem_ok s t L" and v: "best k t = Br l a b k r" "t \<noteq> Tip" "0 < k"
    and foc: "focus s Root k t (set L) hk a" and f: "v_maxheader s < f" and al: "mweight_of b k \<ge> k"
  shows "took s t L k (alloc_node f k s hk a)"
proof -
  have A: "block (hdrs s a) = b" "hsize (hdrs s a) = k" using foc v(1) by (simp_all add: focus_def)
  obtain s' t' where s': "kdelete f hk s = Inr s'" "kmem_ok s' t' (a # L)" "bytes t' = bytes t - {b ..< b + k}"
     "mset (ids t' @ a # L) = mset (ids t @ L)" "env s' = env s"
    using alloc_whole[OF ok v foc f] by blast
  have "{b ..< b + k} \<subseteq> bytes t" using best_blocks[of k t] v(1) block_bytes by simp
  moreover have "b mod 4 = 0" if "4 \<le> k"
    using al that ALIGNMORE_range[of b] by (auto simp: mweight_of_def split: if_splits)
  moreover have "alloc_node f k s hk a = Inr (b, s')" using s'(1) A by (simp add: alloc_node_def u32_def)
  ultimately show ?thesis using s' by (intro tookI[of _ b s' t' "a # L"])
qed

lemma alloc_node_part:
  assumes ok: "kmem_ok s t (x # L)" and v: "best k t = Br l a b m r" "t \<noteq> Tip" "0 < k"
    and foc: "focus s Root k t (set (x # L)) hk a" and f: "v_maxheader s < f"
    and m: "k < m" "mweight_of b m \<ge> k"
  shows "took s t (x # L) k (alloc_node f k s hk a)"
proof -
  have A: "block (hdrs s a) = b" "hsize (hdrs s a) = m" using foc v(1) by (simp_all add: focus_def)
  have bm: "{b ..< b + m} \<subseteq> bytes t" using best_blocks[of k t] v(1) block_bytes by simp
  have "(b, m) \<in> set (blocks t)" using best_blocks[of k t] v(1) by simp
  then have bnd: "CoreBegin s \<le> b" "b + m \<le> CoreEnd s" "0 \<le> b" "b + m < 4294967296" "CoreEnd s < 4294967296"
    using hor_block[of "CoreBegin s" "CoreEnd s" t b m] ok by (auto simp: kmem_ok_def)
  have am: "a \<in> set (ids t)" "a < v_maxheader s" "a \<notin> set (x # L)"
    using best_ids(1)[of k t] v(1) ok by (auto simp: kmem_ok_def)
  have u: "u32 (m - k) = m - k" using m v(3) bnd by (simp add: u32_def)
  note split = alloc_split[OF ok v foc f]
  show ?thesis
  proof (cases "b mod 4 \<noteq> 0 \<and> m > ALIGNMORE b")
    case False
    obtain s1 s' t' where s': "getfreehdr s = Inr (x, s1)"
      "demote f hk (set_hook hk (Some x) (upd_hdr x (\<lambda>X. X\<lparr>block := b + k, hsize := m - k, left := left (hdrs s a),
           right := right (hdrs s a)\<rparr>) s1)) = Inr s'"
      "kmem_ok s' t' L" "bytes t' = bytes t - ({b ..< b + m} - {b + k ..< b + k + (m - k)})"
      "mset (ids t' @ L) + {#a#} = mset (ids t @ x # L)" "env s' = env s" "Freehdrflag s' \<noteq> 0"
      using split[of "b + k" "m - k"] m v(3) by auto
    have "a \<notin> set (ids t' @ L)" by (rule given_back[OF s'(5)]) (use ok in \<open>simp add: kmem_ok_def\<close>)
    then have "kmem_ok (freehdr a s') t' (a # L)"
      using kmem_ok_freehdr s'(3,7) am(2) env_other[OF s'(6)] by simp
    moreover have "{b ..< b + m} - {b + k ..< b + k + (m - k)} = {b ..< b + k}" using m by auto
    then have "bytes t' = bytes t - {b ..< b + k}" using s'(4) by simp
    moreover have "b mod 4 = 0" if "4 \<le> k" using that False m ALIGNMORE_range[of b] by auto
    moreover have "alloc_node f k s hk a = Inr (b, freehdr a s')"
      using s'(1,2) A u m bnd v(3) u32_sum[of b k] by (simp add: alloc_node_def Let_def if_not_P[OF False])
    moreover have "{b ..< b + k} \<subseteq> bytes t" using bm m by auto
    moreover have "mset (ids t' @ a # L) = mset (ids t @ x # L)" using s'(5) by simp
    ultimately show ?thesis using s'(6) by (intro tookI[of _ b "freehdr a s'" t' "a # L"]) simp_all
  next
    case True
    let ?g = "ALIGNMORE b"
    have g: "0 < ?g" "k + ?g \<le> m" using ALIGNMORE_range[of b] m(2) True by (auto simp: mweight_of_def)
    have aligned: "(b + ?g) mod 4 = 0" unfolding ALIGNMORE_def by presburger
    obtain s1 s3 t3 where s3: "getfreehdr s = Inr (x, s1)"
      "demote f hk (set_hook hk (Some x) (upd_hdr x (\<lambda>X. X\<lparr>block := b, hsize := ?g, left := left (hdrs s a),
           right := right (hdrs s a)\<rparr>) s1)) = Inr s3"
      "kmem_ok s3 t3 L" "bytes t3 = bytes t - ({b ..< b + m} - {b ..< b + ?g})"
      "mset (ids t3 @ L) + {#a#} = mset (ids t @ x # L)" "env s3 = env s" "Freehdrflag s3 \<noteq> 0"
      using split[of b ?g] g m v(3) by auto
    have w: "u32 (k + ?g) = k + ?g" "u32 (b + ?g) = b + ?g" "u32 (b + (k + ?g)) = b + (k + ?g)" "u32 (m - (k + ?g)) = m - (k + ?g)"
      using g bnd v(3) by (simp_all add: u32_def)
    have run: "alloc_node f k s hk a =
        andthen (if m > k + ?g then kmem_free f (b + (k + ?g)) (m - (k + ?g)) s3 else Inr s3) (\<lambda>s4. Inr (b + ?g, freehdr a s4))"
      using s3(1,2) A True u m w by (simp add: alloc_node_def Let_def)
    have a3: "a \<notin> set (ids t3 @ L)" by (rule given_back[OF s3(5)]) (use ok in \<open>simp add: kmem_ok_def\<close>)
    have finish: "took s t (x # L) k (alloc_node f k s hk a)"
      if s4: "alloc_node f k s hk a = Inr (b + ?g, freehdr a s4)" "kmem_ok s4 t4 L4"
        "bytes t4 = bytes t - {b + ?g ..< b + ?g + k}" "mset (ids t4 @ L4) = mset (ids t3 @ L)" "env s4 = env s"
        "t4 \<noteq> Tip \<or> Freehdrflag s4 \<noteq> 0" for s4 t4 L4
    proof -
      have "a \<notin> set (ids t4 @ L4)" using a3 mset_eq_setD[OF s4(4)] by simp
      moreover have "Freehdrflag s4 \<noteq> 0" using s4(2,6) by (auto simp: kmem_ok_def)
      ultimately have "kmem_ok (freehdr a s4) t4 (a # L4)"
        using kmem_ok_freehdr s4(2) am(2) env_other[OF s4(5)] by simp
      moreover have "mset (ids t4 @ a # L4) = mset (ids t @ x # L)" using s4(4) s3(5) by simp
      moreover have "{b + ?g ..< b + ?g + k} \<subseteq> bytes t" using bm g by auto
      ultimately show ?thesis using s4 aligned by (intro tookI[of _ "b + ?g" "freehdr a s4" t4 "a # L4"]) simp_all
    qed
    show ?thesis
    proof (cases "m > k + ?g")
      case False
      then have "{b ..< b + m} - {b ..< b + ?g} = {b + ?g ..< b + ?g + k}" using g by auto
      then have "bytes t3 = bytes t - {b + ?g ..< b + ?g + k}" using s3(4) by simp
      with finish[of s3 t3 L] run False s3 show ?thesis by simp
    next
      case more: True
      have c: "CoreBegin s3 \<le> b + (k + ?g)" "b + (k + ?g) + (m - (k + ?g)) \<le> CoreEnd s3" "0 < m - (k + ?g)"
        "v_maxheader s3 < f"
        using bnd g v(3) more f env_other[OF s3(6)] CoreBegin_env[OF s3(6)] by auto
      note free = kmem_free_spec[OF s3(3) c]
      show ?thesis
      proof (cases "refuses t3 L (b + (k + ?g)) (m - (k + ?g))")
        case True
        have "L = []" using True s3(4) g v(3) by (auto simp: refuses_def)
        with free(1)[OF True] run more show ?thesis by (auto simp: took_def)
      next
        case False
        obtain s4 t4 L4 where s4: "kmem_free f (b + (k + ?g)) (m - (k + ?g)) s3 = Inr s4" "kmem_ok s4 t4 L4"
          "bytes t4 = bytes t3 \<union> {b + (k + ?g) ..< b + (k + ?g) + (m - (k + ?g))}"
          "mset (ids t4 @ L4) = mset (ids t3 @ L)" "env s4 = env s3"
          using free(2)[OF False] by blast
        have byt: "bytes t4 = bytes t - {b + ?g ..< b + ?g + k}"
      proof -
        have "{b ..< b + m} - {b ..< b + ?g} = {b + ?g ..< b + ?g + k} \<union> {b + (k + ?g) ..< b + m}"
          "{b + ?g ..< b + ?g + k} \<inter> {b + (k + ?g) ..< b + m} = {}" using g v(3) by auto
        then show ?thesis using s4(3) s3(4) bm by auto
      qed
        have "b \<in> bytes t4" using byt bm g v(3) m by auto
        then have "t4 \<noteq> Tip" by auto
        with finish[of s4 t4 L4] run more s4 byt s3(6) show ?thesis by simp
      qed
    qed
  qed
qed

lemma alloc_tree_spec:
  assumes ok: "kmem_ok s t L" and k: "mwt t \<ge> k" "0 < k" and f: "v_maxheader s < f"
  shows "\<exists>i. free_root s = Some i \<and> took s t L k (andthen (alloc_search f k s Root i) (\<lambda>(p, a). alloc_node f k s p a))"
proof -
  have tip: "t \<noteq> Tip" using k by auto
  then obtain l0 i b0 m0 r0 where t: "t = Br l0 i b0 m0 r0" by (cases t) auto
  have d: "distinct (ids t)" "set (ids t) \<inter> set L = {}" "tr s (get_hook s Root) t" using ok by (auto simp: kmem_ok_def)
  have root: "free_root s = Some i" using d(3) t by simp
  obtain hk a where sr: "alloc_search f k s Root i = Inr (hk, a)" "focus s Root k t (set L) hk a"
    using alloc_search_spec[OF d(3) t d(1) _ d(2) k(2), of f] kmem_ok_size[OF ok] f by auto
  obtain l a' b m r where v: "best k t = Br l a' b m r" "mweight_of b m \<ge> k" using best_fits[OF k(1) tip k(2)] by blast
  have a: "a' = a" using sr(2) v(1) by (simp add: focus_def)
  note v' = v(1)[unfolded a]
  have "took s t L k (alloc_node f k s hk a)"
  proof (cases "m = k")
    case True
    then show ?thesis using alloc_node_whole[OF ok _ tip k(2) sr(2) f] v' v(2) by simp
  next
    case False
    then have m: "k < m" using v(2) mweight_of_le[of b m] by simp
    show ?thesis
    proof (cases L)
      case Nil
      have "m < 4294967296" "0 \<le> m - k"
        using hor_block[of "CoreBegin s" "CoreEnd s" t b m] best_blocks[of k t] v(1) ok m by (auto simp: kmem_ok_def)
      then have "u32 (m - k) = m - k" using k(2) by (simp add: u32_def)
      then have "alloc_node f k s hk a = Inl (Panic ''getfreehdr'')"
        using getfreehdr_none[of s] ok Nil m sr(2) v' by (simp add: alloc_node_def focus_def kmem_ok_def)
      with Nil show ?thesis by (simp add: took_def)
    next
      case (Cons x L1)
      then show ?thesis using alloc_node_part[OF _ v' tip k(2) _ f m v(2)] ok sr(2) by simp
    qed
  qed
  with sr root show ?thesis by simp
qed

end
