(* ===== verification/Kmem_Defer.thy ===== *)
theory Kmem_Defer
  imports Kmem_Alloc
begin

text \<open>
  The blocks freed at interrupt level, waiting for the next \<open>kmem_alloc\<close>: the chain through the
  blocks themselves and the table of small ones. The invariant of the whole allocator: once the
  arena has been handed over, each of its bytes is free in the tree, waiting, or held by a client.
\<close>

section \<open>Runs of bytes\<close>

fun rbytes :: "(int \<times> int) list \<Rightarrow> int set" where
  "rbytes [] = {}"
| "rbytes ((a, n) # P) = {a ..< a + n} \<union> rbytes P"

fun disj :: "(int \<times> int) list \<Rightarrow> bool" where
  "disj [] = True"
| "disj ((a, n) # P) = ({a ..< a + n} \<inter> rbytes P = {} \<and> disj P)"

lemma rbytes_append [simp]: "rbytes (P @ Q) = rbytes P \<union> rbytes Q"
  by (induction P rule: rbytes.induct) auto

lemma disj_append: "disj (P @ Q) = (disj P \<and> disj Q \<and> rbytes P \<inter> rbytes Q = {})"
  by (induction P rule: rbytes.induct) auto

section \<open>The waiting blocks\<close>

fun ntf_chain :: "(int \<Rightarrow> int) \<Rightarrow> ntf_entry \<Rightarrow> (int \<times> int) list \<Rightarrow> bool" where
  "ntf_chain m e [] = (nf_addr e = 0)"
| "ntf_chain m e ((a, n) # P) =
     (nf_addr e = a \<and> nf_bytes e = n \<and> a \<noteq> 0 \<and> ntf_chain m \<lparr>nf_addr = m a, nf_bytes = m (a + 4)\<rparr> P)"

definition in_table :: "ntf_entry list \<Rightarrow> (int \<times> int) list" where
  "in_table es = map (\<lambda>e. (nf_addr e, nf_bytes e)) (filter (\<lambda>e. nf_addr e \<noteq> 0) es)"

lemma in_table_simps [simp]: "in_table [] = []"
  "in_table (e # es) = (if nf_addr e \<noteq> 0 then (nf_addr e, nf_bytes e) # in_table es else in_table es)"
  "in_table (es @ es') = in_table es @ in_table es'"
  by (simp_all add: in_table_def)

lemma ntf_slot_some:
  "ntf_slot u es = Some i \<Longrightarrow> \<exists>xs ys. es = xs @ es ! i # ys \<and> i = length xs \<and> (nf_addr (es ! i) \<noteq> 0) = u"
proof (induction es arbitrary: i)
  case (Cons e es)
  show ?case
  proof (cases "(nf_addr e \<noteq> 0) = u")
    case True
    with Cons.prems show ?thesis by (intro exI[of _ "[]"] exI[of _ es]) (auto split: if_splits)
  next
    case False
    then obtain j where j: "ntf_slot u es = Some j" "i = Suc j" using Cons.prems by (auto split: option.splits if_splits)
    from Cons.IH[OF j(1)] obtain xs ys where "es = xs @ es ! j # ys" "j = length xs" "(nf_addr (es ! j) \<noteq> 0) = u" by blast
    with j(2) show ?thesis by (intro exI[of _ "e # xs"] exI[of _ ys]) auto
  qed
qed simp

lemma ntf_slot_none: "ntf_slot True es = None \<Longrightarrow> in_table es = []"
  by (induction es) (auto split: option.splits if_splits)

lemma ntf_chain_store:
  "ntf_chain m e P \<Longrightarrow> (\<And>a n. (a, n) \<in> set P \<Longrightarrow> m' a = m a \<and> m' (a + 4) = m (a + 4)) \<Longrightarrow> ntf_chain m' e P"
proof (induction P arbitrary: e rule: rbytes.induct)
  case (2 a n P)
  have "m' a = m a" "m' (a + 4) = m (a + 4)" using 2(3)[of a n] by simp_all
  moreover have "ntf_chain m' \<lparr>nf_addr = m a, nf_bytes = m (a + 4)\<rparr> P"
    by (rule 2(1)) (use 2(2,3) in auto)
  ultimately show ?case using 2(2) by simp
qed simp

section \<open>The invariant\<close>

text \<open>The configuration: the address of the arena is not null, its end and every header exist.\<close>

definition kmem_cfg :: "kmem \<Rightarrow> bool" where
  "kmem_cfg s = (0 < Core s \<and> 0 \<le> v_maxcore s \<and> Core s + 4 + v_maxcore s < 4294967296 \<and> 0 < v_maxheader s)"

text \<open>
  \<open>t\<close>, \<open>L\<close>: tree and free headers, \<open>C\<close>: the chain, H: the bytes clients hold. Chained blocks can
  hold the chain (8 bytes, at a multiple of 4).
\<close>

definition kmem_parts :: "kmem \<Rightarrow> int set \<Rightarrow> ctree \<Rightarrow> nat list \<Rightarrow> (int \<times> int) list \<Rightarrow> bool" where
  "kmem_parts s H t L C =
     (kmem_cfg s \<and> kmem_ok s t L \<and> set (ids t @ L) = {..< v_maxheader s} \<and>
      ntf_chain (kmem_long s) (need_to_free_list s) C \<and> length (need_to_free s) = NEED_TO_FREE_SIZE \<and>
      (\<forall>(a, n) \<in> set C. 8 \<le> n \<and> a mod 4 = 0) \<and> (\<forall>(a, n) \<in> set (in_table (need_to_free s)). 0 < n) \<and>
      disj (C @ in_table (need_to_free s)) \<and>
      bytes t \<inter> rbytes (C @ in_table (need_to_free s)) = {} \<and>
      H \<inter> (bytes t \<union> rbytes (C @ in_table (need_to_free s))) = {} \<and>
      (if core_already_freed s
       then CoreEnd s = CoreBegin s + v_maxcore s \<and>
            H \<union> bytes t \<union> rbytes (C @ in_table (need_to_free s)) = {CoreBegin s ..< CoreEnd s}
       else CoreEnd s = 0 \<and> t = Tip \<and> H = {} \<and> C = [] \<and> in_table (need_to_free s) = []))"

definition kmem_inv :: "kmem \<Rightarrow> int set \<Rightarrow> bool" where
  "kmem_inv s H = (\<exists>t L C. kmem_parts s H t L C)"

text \<open>Steps enough for every loop: one per header, one per waiting block.\<close>

definition kmem_fuel :: "kmem \<Rightarrow> nat" where
  "kmem_fuel s = v_maxheader s + nat (v_maxcore s) + NEED_TO_FREE_SIZE + 2"

lemma and_not_3: "(x::int) AND NOT 3 = 4 * (x div 4)"
proof -
  have m: "(3::int) = mask 2" by (simp add: mask_eq_exp_minus_1)
  have "x AND NOT 3 = push_bit 2 (drop_bit 2 x)"
    by (rule bit_eqI) (auto simp: m bit_simps not_less dest!: le_Suc_ex)
  then show ?thesis by (simp add: push_bit_eq_mult drop_bit_eq_div)
qed

lemma CoreBegin_aligned:
  assumes "kmem_cfg s"
  shows "Core s \<le> CoreBegin s" "CoreBegin s < Core s + 4" "CoreBegin s mod 4 = 0" "0 < CoreBegin s"
    "u32 (CoreBegin s + v_maxcore s) = CoreBegin s + v_maxcore s"
proof -
  let ?b = "4 * ((Core s + 3) div 4)"
  have b: "Core s \<le> ?b" "?b < Core s + 4" by presburger+
  have "CoreBegin s = ?b" 
    using assms b unfolding CoreBegin_def and_not_3 by (simp add: kmem_cfg_def u32_def)
  with b show "Core s \<le> CoreBegin s" "CoreBegin s < Core s + 4" "CoreBegin s mod 4 = 0" by simp_all
  with assms show "0 < CoreBegin s" "u32 (CoreBegin s + v_maxcore s) = CoreBegin s + v_maxcore s"
    by (simp_all add: kmem_cfg_def u32_def)
qed

text \<open>The fuel covers the waiting blocks: those in the chain have eight bytes each.\<close>

lemma disj_size:
  assumes "disj P" "\<forall>(a, n) \<in> set P. 0 < n" "rbytes P \<subseteq> {lo ..< hi}"
  shows "length P \<le> nat (hi - lo)"
proof -
  have "finite (rbytes P) \<and> length P \<le> card (rbytes P)" using assms(1,2)
  proof (induction P rule: rbytes.induct)
    case (2 a n P)
    then have "finite (rbytes P)" "length P \<le> card (rbytes P)" "card {a ..< a + n} \<ge> 1" by auto
    moreover have "card ({a ..< a + n} \<union> rbytes P) = card {a ..< a + n} + card (rbytes P)"
      using 2 by (intro card_Un_disjoint) auto
    ultimately show ?case by simp
  qed simp
  moreover have "card (rbytes P) \<le> card {lo ..< hi}" using assms(3) by (intro card_mono) auto
  ultimately show ?thesis by simp
qed

lemma kmem_parts_fuel:
  assumes "kmem_parts s H t L C"
  shows "v_maxheader s < kmem_fuel s" "length C + length (in_table (need_to_free s)) < kmem_fuel s - v_maxheader s"
proof -
  show "v_maxheader s < kmem_fuel s" by (simp add: kmem_fuel_def)
  have "length C \<le> nat (v_maxcore s)"
  proof (cases "core_already_freed s")
    case True
    then have "rbytes C \<subseteq> {CoreBegin s ..< CoreBegin s + v_maxcore s}"
      using assms by (auto simp: kmem_parts_def)
    then have "length C \<le> nat (CoreBegin s + v_maxcore s - CoreBegin s)"
      using assms by (intro disj_size) (auto simp: kmem_parts_def disj_append)
    then show ?thesis by simp
  qed (use assms in \<open>simp add: kmem_parts_def\<close>)
  moreover have "length (in_table (need_to_free s)) \<le> NEED_TO_FREE_SIZE"
    using assms length_filter_le[of "\<lambda>e. nf_addr e \<noteq> 0" "need_to_free s"] by (simp add: in_table_def kmem_parts_def)
  ultimately show "length C + length (in_table (need_to_free s)) < kmem_fuel s - v_maxheader s"
    by (simp add: kmem_fuel_def)
qed

section \<open>kmem_free on the whole state\<close>

lemma kmem_parts_arena:
  "kmem_parts s H t L C \<Longrightarrow> core_already_freed s \<Longrightarrow>
   H \<union> bytes t \<union> rbytes (C @ in_table (need_to_free s)) = {CoreBegin s ..< CoreEnd s}"
  by (simp add: kmem_parts_def)

lemma kmem_parts_env:
  assumes "kmem_parts s H t L C" "env s' = env s" "kmem_ok s' t' L'" "mset (ids t' @ L') = mset (ids t @ L)"
    "core_already_freed s" "bytes t' \<union> H' = bytes t \<union> H" "bytes t' \<inter> H' = {}"
  shows "kmem_parts s' H' t' L' C"
proof -
  note e = env_other[OF assms(2)] and cb = CoreBegin_env[OF assms(2)]
  have "set (ids t' @ L') = {..< v_maxheader s'}" using mset_eq_setD[OF assms(4)] assms(1) e by (simp add: kmem_parts_def)
  moreover have "kmem_cfg s'" using assms(1) e by (simp add: kmem_parts_def kmem_cfg_def)
  moreover have "(bytes t' \<union> H') \<inter> rbytes (C @ in_table (need_to_free s)) = {}"
    using assms(1) unfolding assms(6) kmem_parts_def by blast
  then have "bytes t' \<inter> rbytes (C @ in_table (need_to_free s)) = {}"
    "H' \<inter> (bytes t' \<union> rbytes (C @ in_table (need_to_free s))) = {}" using assms(7) by blast+
  moreover have "H' \<union> bytes t' \<union> rbytes (C @ in_table (need_to_free s)) = H \<union> bytes t \<union> rbytes (C @ in_table (need_to_free s))"
    using assms(6) by blast
  ultimately show ?thesis using assms(1,3,5) by (simp add: kmem_parts_def e cb)
qed

text \<open>
  A call that frees bytes the clients hold either succeeds, or finds no header: it never runs into
  a free block, a null pointer or the end of the fuel.
\<close>

lemma kmem_free_parts:
  assumes parts: "kmem_parts s H t L C" and p: "{p ..< p + n} \<subseteq> H" "0 < n" and f: "v_maxheader s < f"
  shows "(\<exists>m. kmem_free f p n s = Inl (Panic m)) \<and> L = [] \<or>
    (\<exists>s' t' L'. kmem_free f p n s = Inr s' \<and> kmem_parts s' (H - {p ..< p + n}) t' L' C \<and> env s' = env s \<and>
       bytes t' = bytes t \<union> {p ..< p + n} \<and> mset (ids t' @ L') = mset (ids t @ L))"
proof -
  have core: "core_already_freed s" using parts p by (auto simp: kmem_parts_def split: if_splits)
  then have "{p ..< p + n} \<subseteq> {CoreBegin s ..< CoreEnd s}" using kmem_parts_arena[OF parts] p(1) by blast
  then have b: "CoreBegin s \<le> p" "p + n \<le> CoreEnd s" using p(2) by auto
  have ok: "kmem_ok s t L" using parts by (simp add: kmem_parts_def)
  note spec = kmem_free_spec[OF ok b p(2) f]
  have ov: "{p ..< p + n} \<inter> bytes t = {}" using parts p(1) by (auto simp: kmem_parts_def)
  show ?thesis
  proof (cases "refuses t L p n")
    case True
    with spec(1) ov show ?thesis by (auto simp: refuses_def)
  next
    case False
    then obtain s' t' L' where s': "kmem_free f p n s = Inr s'" "kmem_ok s' t' L'" "bytes t' = bytes t \<union> {p ..< p + n}"
      "mset (ids t' @ L') = mset (ids t @ L)" "env s' = env s" using spec(2) by blast
    have "bytes t' \<union> (H - {p ..< p + n}) = bytes t \<union> H" "bytes t' \<inter> (H - {p ..< p + n}) = {}"
      using s'(3) p(1) parts by (auto simp: kmem_parts_def)
    from kmem_parts_env[OF parts s'(5,2,4) core this] s' show ?thesis by blast
  qed
qed

section \<open>Waiting blocks come and go\<close>

lemma kmem_parts_ipl [simp]: "kmem_parts (s\<lparr>ipl := l\<rparr>) H t L C = kmem_parts s H t L C"
proof -
  have "kmem_ok (s\<lparr>ipl := l\<rparr>) t L = kmem_ok s t L" by (rule kmem_ok_other) simp_all
  then show ?thesis by (simp add: kmem_parts_def kmem_cfg_def CoreBegin_def)
qed

lemma chain_pop:
  assumes "kmem_parts s H t L ((a, n) # C)"
  shows "kmem_parts (s\<lparr>need_to_free_list := \<lparr>nf_addr = kmem_long s a, nf_bytes = kmem_long s (a + 4)\<rparr>\<rparr>)
     (H \<union> {a ..< a + n}) t L C" (is "kmem_parts ?s _ _ _ _")
proof -
  have "kmem_ok ?s t L = kmem_ok s t L" by (rule kmem_ok_other) simp_all
  moreover have "core_already_freed s" using assms by (auto simp: kmem_parts_def split: if_splits)
  moreover have "H \<inter> {a ..< a + n} = {}" "{a ..< a + n} \<inter> bytes t = {}"
    "{a ..< a + n} \<inter> rbytes (C @ in_table (need_to_free s)) = {}"
    using assms unfolding kmem_parts_def by auto
  ultimately show ?thesis using assms
    by (simp add: kmem_parts_def kmem_cfg_def CoreBegin_def Int_Un_distrib Int_Un_distrib2 Un_ac Int_commute)
qed

lemma table_pop:
  assumes parts: "kmem_parts s H t L C" and slot: "ntf_slot True (need_to_free s) = Some i"
  shows "kmem_parts (s\<lparr>need_to_free := (need_to_free s)[i := (need_to_free s ! i)\<lparr>nf_addr := 0\<rparr>]\<rparr>)
     (H \<union> {nf_addr (need_to_free s ! i) ..< nf_addr (need_to_free s ! i) + nf_bytes (need_to_free s ! i)}) t L C \<and>
     0 < nf_bytes (need_to_free s ! i) \<and>
     length (in_table (need_to_free s)) =
       Suc (length (in_table ((need_to_free s)[i := (need_to_free s ! i)\<lparr>nf_addr := 0\<rparr>])))"
    (is "kmem_parts ?s _ _ _ _ \<and> _ \<and> _")
proof -
  obtain xs e ys where es: "need_to_free s = xs @ e # ys" "i = length xs" "nf_addr e \<noteq> 0"
    using ntf_slot_some[OF slot] by auto
  then have e: "need_to_free s ! i = e" "(need_to_free s)[i := e\<lparr>nf_addr := 0\<rparr>] = xs @ e\<lparr>nf_addr := 0\<rparr> # ys"
    "in_table (xs @ e\<lparr>nf_addr := 0\<rparr> # ys) = in_table xs @ in_table ys" by simp_all
  have ok: "kmem_ok ?s t L = kmem_ok s t L" by (rule kmem_ok_other) simp_all
  have s: "need_to_free_list ?s = need_to_free_list s" "core_already_freed ?s = core_already_freed s"
    "CoreEnd ?s = CoreEnd s" "CoreBegin ?s = CoreBegin s" "v_maxcore ?s = v_maxcore s"
    "v_maxheader ?s = v_maxheader s" "Core ?s = Core s" "kmem_long ?s = kmem_long s"
    "length (need_to_free ?s) = length (need_to_free s)" "in_table (need_to_free ?s) = in_table xs @ in_table ys"
    using e es(1) by (simp_all add: CoreBegin_def)
  let ?a = "nf_addr e" and ?n = "nf_bytes e"
  have old: "in_table (need_to_free s) = in_table xs @ (?a, ?n) # in_table ys" using es by simp
  have core: "core_already_freed s" using parts old by (auto simp: kmem_parts_def split: if_splits)
  have d: "{?a ..< ?a + ?n} \<inter> (bytes t \<union> rbytes (C @ in_table xs @ in_table ys)) = {}"
    "disj (C @ in_table xs @ in_table ys)" "0 < ?n"
    using parts unfolding kmem_parts_def old by (auto simp: disj_append)
  have "kmem_parts ?s (H \<union> {?a ..< ?a + ?n}) t L C"
  proof -
    have "bytes t \<inter> rbytes (C @ in_table xs @ in_table ys) = {}"
      "\<forall>(a, n) \<in> set (in_table xs @ in_table ys). 0 < n"
      using parts unfolding kmem_parts_def old by auto
    moreover have "(H \<union> {?a ..< ?a + ?n}) \<inter> (bytes t \<union> rbytes (C @ in_table xs @ in_table ys)) = {}"
      using d(1) parts unfolding kmem_parts_def old by auto
    moreover have "(H \<union> {?a ..< ?a + ?n}) \<union> bytes t \<union> rbytes (C @ in_table xs @ in_table ys) = {CoreBegin s ..< CoreEnd s}"
      using kmem_parts_arena[OF parts core] unfolding old by auto
    ultimately show ?thesis using parts core d(2) ok unfolding kmem_parts_def s kmem_cfg_def by simp
  qed
  then show ?thesis using d(3) e s(10) old by simp
qed

lemma chain_push:
  assumes parts: "kmem_parts s H t L C" and p: "{p ..< p + n} \<subseteq> H" "8 \<le> n" "p mod 4 = 0"
  shows "kmem_parts (ntf_push p n s) (H - {p ..< p + n}) t L ((p, n) # C)"
proof -
  let ?s = "ntf_push p n s"
  have ok: "kmem_ok ?s t L = kmem_ok s t L" by (rule kmem_ok_other) (simp_all add: ntf_push_def)
  have core: "core_already_freed s" using parts p by (auto simp: kmem_parts_def split: if_splits)
  have H: "H \<inter> rbytes C = {}" "H \<inter> rbytes (in_table (need_to_free s)) = {}" "H \<inter> bytes t = {}"
    and arena: "H \<union> bytes t \<union> rbytes (C @ in_table (need_to_free s)) = {CoreBegin s ..< CoreEnd s}"
    using parts core by (auto simp: kmem_parts_def)
  have "p \<in> {p ..< p + n}" using p(2) by simp
  then have "p \<in> {CoreBegin s ..< CoreEnd s}" using arena p(1) by blast
  then have "p \<noteq> 0" using CoreBegin_aligned(4)[of s] parts by (auto simp: kmem_parts_def)
  moreover have "ntf_chain (kmem_long ?s) (need_to_free_list s) C"
  proof (rule ntf_chain_store)
    show "ntf_chain (kmem_long s) (need_to_free_list s) C" using parts by (simp add: kmem_parts_def)
  next
    fix a k assume ak: "(a, k) \<in> set C"
    have sub: "{a ..< a + k} \<subseteq> rbytes C" using ak by (induction C rule: rbytes.induct) auto
    have "8 \<le> k" "a mod 4 = 0" using ak parts by (auto simp: kmem_parts_def)
    then have "a \<in> rbytes C" "a + 4 \<in> rbytes C" using sub by auto
    moreover have "p \<in> H" "p + 4 \<in> H" using p by auto
    ultimately have "a \<noteq> p" "a \<noteq> p + 4" "a + 4 \<noteq> p" "a + 4 \<noteq> p + 4" using H(1) by auto
    then show "kmem_long ?s a = kmem_long s a \<and> kmem_long ?s (a + 4) = kmem_long s (a + 4)"
      by (simp add: ntf_push_def)
  qed
  ultimately have chain: "ntf_chain (kmem_long ?s) (need_to_free_list ?s) ((p, n) # C)"
    by (cases "need_to_free_list s") (simp add: ntf_push_def)
  have s: "need_to_free ?s = need_to_free s" "core_already_freed ?s = core_already_freed s" "CoreEnd ?s = CoreEnd s"
    "CoreBegin ?s = CoreBegin s" "v_maxcore ?s = v_maxcore s" "v_maxheader ?s = v_maxheader s" "Core ?s = Core s"
    by (simp_all add: ntf_push_def CoreBegin_def)
  have "(H - {p ..< p + n}) \<union> bytes t \<union> rbytes (((p, n) # C) @ in_table (need_to_free s)) = {CoreBegin s ..< CoreEnd s}"
    using arena p(1) by auto
  moreover have "{p ..< p + n} \<inter> (bytes t \<union> rbytes C \<union> rbytes (in_table (need_to_free s))) = {}" using H p(1) by blast
  then have d: "{p ..< p + n} \<inter> bytes t = {}" "{p ..< p + n} \<inter> rbytes C = {}"
    "{p ..< p + n} \<inter> rbytes (in_table (need_to_free s)) = {}" by blast+
  have pos: "\<forall>(a, n) \<in> set ((p, n) # C). 8 \<le> n \<and> a mod 4 = 0" using parts p by (simp add: kmem_parts_def)
  have dj: "disj (((p, n) # C) @ in_table (need_to_free s))" using parts d
    by (simp add: kmem_parts_def Int_Un_distrib)
  have fr: "bytes t \<inter> rbytes (((p, n) # C) @ in_table (need_to_free s)) = {}" using parts d
    by (simp add: kmem_parts_def Int_Un_distrib Int_commute)
  have hd: "(H - {p ..< p + n}) \<inter> (bytes t \<union> rbytes (((p, n) # C) @ in_table (need_to_free s))) = {}"
    using H by auto
  ultimately show ?thesis using parts core chain pos dj fr hd unfolding kmem_parts_def s kmem_cfg_def ok by simp
qed

lemma table_push:
  assumes parts: "kmem_parts s H t L C" and p: "{p ..< p + n} \<subseteq> H" "0 < n"
    and slot: "ntf_slot False (need_to_free s) = Some i"
  shows "kmem_parts (s\<lparr>need_to_free := (need_to_free s)[i := \<lparr>nf_addr = p, nf_bytes = n\<rparr>]\<rparr>) (H - {p ..< p + n}) t L C"
    (is "kmem_parts ?s _ _ _ _")
proof -
  obtain xs e ys where es: "need_to_free s = xs @ e # ys" "i = length xs" "nf_addr e = 0"
    using ntf_slot_some[OF slot] by auto
  then have e: "(need_to_free s)[i := \<lparr>nf_addr = p, nf_bytes = n\<rparr>] = xs @ \<lparr>nf_addr = p, nf_bytes = n\<rparr> # ys" by simp
  have ok: "kmem_ok ?s t L = kmem_ok s t L" by (rule kmem_ok_other) simp_all
  have core: "core_already_freed s" using parts p by (auto simp: kmem_parts_def split: if_splits)
  have H: "H \<inter> rbytes C = {}" "H \<inter> rbytes (in_table (need_to_free s)) = {}" "H \<inter> bytes t = {}"
    and arena: "H \<union> bytes t \<union> rbytes (C @ in_table (need_to_free s)) = {CoreBegin s ..< CoreEnd s}"
    using parts core by (auto simp: kmem_parts_def)
  have "p \<in> {p ..< p + n}" using p(2) by simp
  then have "p \<in> {CoreBegin s ..< CoreEnd s}" using arena p(1) by blast
  then have "p \<noteq> 0" using CoreBegin_aligned(4)[of s] parts by (auto simp: kmem_parts_def)
  then have tab: "in_table (need_to_free ?s) = in_table xs @ (p, n) # in_table ys" using e by simp
  have old: "in_table (need_to_free s) = in_table xs @ in_table ys" using es by simp
  have "(H - {p ..< p + n}) \<union> bytes t \<union> rbytes (C @ in_table (need_to_free ?s)) = {CoreBegin s ..< CoreEnd s}"
    using arena p(1) unfolding tab old by auto
  moreover have "{p ..< p + n} \<inter> (bytes t \<union> rbytes C \<union> rbytes (in_table xs) \<union> rbytes (in_table ys)) = {}"
    using H p(1) unfolding old by auto
  then have d: "{p ..< p + n} \<inter> bytes t = {}" "{p ..< p + n} \<inter> rbytes C = {}"
    "{p ..< p + n} \<inter> rbytes (in_table xs) = {}" "{p ..< p + n} \<inter> rbytes (in_table ys) = {}" by blast+
  have pos: "\<forall>(a, n) \<in> set (in_table (need_to_free ?s)). 0 < n" using parts p(2) unfolding tab
    by (simp add: kmem_parts_def old)
  have dj: "disj (C @ in_table (need_to_free ?s))" using parts d unfolding tab
    by (simp add: kmem_parts_def old disj_append Int_Un_distrib Int_Un_distrib2 Int_commute)
  have fr: "bytes t \<inter> rbytes (C @ in_table (need_to_free ?s)) = {}" using parts d unfolding tab
    by (simp add: kmem_parts_def old Int_Un_distrib Int_commute)
  have hd: "(H - {p ..< p + n}) \<inter> (bytes t \<union> rbytes (C @ in_table (need_to_free ?s))) = {}"
    using H unfolding tab old by auto
  have s: "need_to_free_list ?s = need_to_free_list s" "core_already_freed ?s = core_already_freed s"
    "CoreEnd ?s = CoreEnd s" "CoreBegin ?s = CoreBegin s" "v_maxcore ?s = v_maxcore s"
    "v_maxheader ?s = v_maxheader s" "Core ?s = Core s" "kmem_long ?s = kmem_long s"
    "length (need_to_free ?s) = length (need_to_free s)"
    by (simp_all add: CoreBegin_def)
  ultimately show ?thesis using parts core pos dj fr hd unfolding kmem_parts_def s kmem_cfg_def ok by simp
qed

end
