(* ===== verification/Kmem_Calls.thy ===== *)
theory Kmem_Calls
  imports Kmem_Defer
begin

text \<open>
  The entry points of the allocator over the whole state: \<open>check_need_to_free\<close>,
  \<open>kmem_free_intr\<close> and \<open>kmem_alloc\<close> keep the invariant and move exactly the bytes they are
  asked for between the clients, the tree and the waiting blocks. The step relation of the
  allocator's clients and its invariant.
\<close>

section \<open>check_need_to_free\<close>

text \<open>What no call changes.\<close>

definition same_cfg :: "kmem \<Rightarrow> kmem \<Rightarrow> bool" where
  "same_cfg s s' = (Core s' = Core s \<and> v_maxcore s' = v_maxcore s \<and> v_maxheader s' = v_maxheader s)"

lemma same_cfg_trans: "same_cfg s s' \<Longrightarrow> same_cfg s' s'' \<Longrightarrow> same_cfg s s''"
  by (simp add: same_cfg_def)

lemma env_same_cfg: "env s' = env s \<Longrightarrow> same_cfg s s'"
  by (drule env_other) (simp add: same_cfg_def)

definition waiting :: "kmem \<Rightarrow> (int \<times> int) list \<Rightarrow> nat" where
  "waiting s C = length C + length (in_table (need_to_free s))"

text \<open>One waiting block is freed: by the chain or by the table.\<close>

lemma free_waiting:
  assumes parts: "kmem_parts s1 (H \<union> {p ..< p + n}) t L C" and d: "H \<inter> {p ..< p + n} = {}" and n: "0 < n"
    and f: "v_maxheader s1 < f"
  shows "(\<exists>m. kmem_free f p n s1 = Inl (Panic m)) \<or>
    (\<exists>s' t' L'. kmem_free f p n s1 = Inr s' \<and> kmem_parts s' H t' L' C \<and> env s' = env s1)"
proof -
  have "(H \<union> {p ..< p + n}) - {p ..< p + n} = H" using d by blast
  with kmem_free_parts[OF parts Un_upper2 n f] show ?thesis by auto
qed

definition checked :: "kmem \<Rightarrow> int set \<Rightarrow> kerr + kmem \<Rightarrow> bool" where
  "checked s H res = ((\<exists>m. res = Inl (Panic m)) \<or>
     (\<exists>s' t' L'. res = Inr s' \<and> kmem_parts s' H t' L' [] \<and> in_table (need_to_free s') = [] \<and>
        ipl s' = ipl s \<and> same_cfg s s' \<and> core_already_freed s' = core_already_freed s))"

lemma checked_via:
  "\<lbrakk>checked s1 H res; ipl s1 = ipl s; same_cfg s s1; core_already_freed s1 = core_already_freed s\<rbrakk> \<Longrightarrow> checked s H res"
  unfolding checked_def using same_cfg_trans by metis

lemma run_apart:
  assumes "kmem_parts s H t L C" "(a, n) \<in> set (C @ in_table (need_to_free s))"
  shows "H \<inter> {a ..< a + n} = {}" "0 < n"
proof -
  have "{a ..< a + n} \<subseteq> rbytes P" if "(a, n) \<in> set P" for P
    using that by (induction P rule: rbytes.induct) auto
  then show "H \<inter> {a ..< a + n} = {}" using assms by (fastforce simp: kmem_parts_def)
  show "0 < n" using assms by (auto simp: kmem_parts_def)
qed

lemma check_spec:
  "kmem_parts s H t L C \<Longrightarrow> v_maxheader s + waiting s C < f \<Longrightarrow> checked s H (check_need_to_free f s)"
proof (induction f arbitrary: s t L C)
  case (Suc f)
  have next_block: "checked s H (andthen (kmem_free f p n s1) (check_need_to_free f))"
    if s1: "kmem_parts s1 (H \<union> {p ..< p + n}) t L C1" "H \<inter> {p ..< p + n} = {}" "0 < n" "ipl s1 = ipl s"
      "same_cfg s s1" "core_already_freed s1 = core_already_freed s" "Suc (waiting s1 C1) = waiting s C"
    for s1 p n C1
  proof -
    have f: "v_maxheader s1 < f" using Suc.prems(2) s1(5,7) by (simp add: same_cfg_def)
    from free_waiting[OF s1(1-3) f] show ?thesis
    proof (elim disjE exE conjE)
      fix s2 t2 L2
      assume s2: "kmem_free f p n s1 = Inr s2" "kmem_parts s2 H t2 L2 C1" "env s2 = env s1"
      note e = env_other[OF s2(3)]
      have "v_maxheader s2 + waiting s2 C1 < f"
        using Suc.prems(2) s1(5,7) e by (simp add: same_cfg_def waiting_def)
      from Suc.IH[OF s2(2) this] have "checked s H (check_need_to_free f s2)"
        by (rule checked_via) (use e s1(4-6) same_cfg_trans[OF s1(5) env_same_cfg[OF s2(3)]] in simp_all)
      with s2(1) show ?thesis by simp
    qed (simp add: checked_def)
  qed
  show ?case
  proof (cases C)
    case (Cons an C1)
    obtain a n where C: "C = (a, n) # C1" using Cons by (cases an) auto
    define s1 where "s1 = (s\<lparr>need_to_free_list := \<lparr>nf_addr = kmem_long s a, nf_bytes = kmem_long s (a + 4)\<rparr>\<rparr>)\<lparr>ipl := ipl s\<rparr>"
    have "kmem_parts s1 (H \<union> {a ..< a + n}) t L C1"
      unfolding s1_def kmem_parts_ipl using chain_pop Suc.prems(1) C by blast
    moreover have "H \<inter> {a ..< a + n} = {}" "0 < n" using run_apart[OF Suc.prems(1), of a n] C by auto
    moreover have "ipl s1 = ipl s" "same_cfg s s1" "core_already_freed s1 = core_already_freed s"
      "Suc (waiting s1 C1) = waiting s C" by (simp_all add: s1_def same_cfg_def waiting_def C)
    ultimately have "checked s H (andthen (kmem_free f a n s1) (check_need_to_free f))" by (rule next_block)
    moreover have "nf_addr (need_to_free_list s) = a" "nf_bytes (need_to_free_list s) = n" "a \<noteq> 0"
      using Suc.prems(1) C by (simp_all add: kmem_parts_def)
    ultimately show ?thesis by (simp add: splnet_def splx_def s1_def Let_def)
  next
    case Nil
    then have head: "nf_addr (need_to_free_list s) = 0" using Suc.prems(1) by (simp add: kmem_parts_def)
    show ?thesis
    proof (cases "ntf_slot True (need_to_free s)")
      case None
      have "check_need_to_free (Suc f) s = Inr (s\<lparr>ipl := ipl s\<rparr>)"
        using None head by (simp add: splnet_def splx_def Let_def)
      then show ?thesis using Suc.prems(1) Nil ntf_slot_none[OF None]
        by (auto simp: checked_def same_cfg_def)
    next
      case (Some i)
      define s1 where "s1 = (s\<lparr>need_to_free := (need_to_free s)[i := (need_to_free s ! i)\<lparr>nf_addr := 0\<rparr>]\<rparr>)\<lparr>ipl := ipl s\<rparr>"
      let ?a = "nf_addr (need_to_free s ! i)" and ?n = "nf_bytes (need_to_free s ! i)"
      note pop = table_pop[OF Suc.prems(1) Some]
      have "kmem_parts s1 (H \<union> {?a ..< ?a + ?n}) t L C" unfolding s1_def kmem_parts_ipl using pop by blast
      moreover have "(?a, ?n) \<in> set (in_table (need_to_free s))"
      proof -
        obtain xs ys where es: "need_to_free s = xs @ (need_to_free s ! i) # ys" "?a \<noteq> 0" using ntf_slot_some[OF Some] by auto
        then have "in_table (need_to_free s) = in_table xs @ (?a, ?n) # in_table ys" by (metis in_table_simps(2,3))
        then show ?thesis by simp
      qed
      then have "H \<inter> {?a ..< ?a + ?n} = {}" "0 < ?n" using run_apart[OF Suc.prems(1), of ?a ?n] by auto
      moreover have "ipl s1 = ipl s" "same_cfg s s1" "core_already_freed s1 = core_already_freed s"
        "Suc (waiting s1 C) = waiting s C" using pop by (simp_all add: s1_def same_cfg_def waiting_def)
      ultimately have "checked s H (andthen (kmem_free f ?a ?n s1) (check_need_to_free f))" by (rule next_block)
      then show ?thesis using Some head by (simp add: splnet_def splx_def s1_def Let_def)
    qed
  qed
qed simp

section \<open>kmem_free_intr\<close>

definition deferred :: "int set \<Rightarrow> kmem \<Rightarrow> nat \<Rightarrow> kerr + kmem \<Rightarrow> bool" where
  "deferred H s l res = ((\<exists>m. res = Inl (Panic m)) \<or>
     (\<exists>s' t L C. res = Inr s' \<and> kmem_parts s' H t L C \<and> ipl s' = l \<and> same_cfg s s' \<and>
        core_already_freed s' = core_already_freed s))"

lemma free_intr_direct:
  assumes parts: "kmem_parts s H t L C" and p: "{p ..< p + n} \<subseteq> H" "0 < n" and a: "n < 8 \<or> p mod 4 = 0"
  shows "deferred (H - {p ..< p + n}) s (ipl s) (kmem_free_intr p n s)"
proof (cases "8 \<le> n")
  case True
  then have "kmem_free_intr p n s = Inr ((ntf_push p n s)\<lparr>ipl := ipl s\<rparr>)"
    using a by (subst kmem_free_intr.simps) (simp add: splnet_def splx_def ntf_push_def Let_def)
  moreover have "kmem_parts ((ntf_push p n s)\<lparr>ipl := ipl s\<rparr>) (H - {p ..< p + n}) t L ((p, n) # C)"
    unfolding kmem_parts_ipl using chain_push[OF parts p(1) True] a True by simp
  ultimately show ?thesis by (auto simp: deferred_def same_cfg_def ntf_push_def)
next
  case False
  show ?thesis
  proof (cases "ntf_slot False (need_to_free s)")
    case None
    then show ?thesis using False by (subst kmem_free_intr.simps) (simp add: splnet_def Let_def deferred_def)
  next
    case (Some i)
    let ?s = "s\<lparr>need_to_free := (need_to_free s)[i := \<lparr>nf_addr = p, nf_bytes = n\<rparr>]\<rparr>"
    have "kmem_free_intr p n s = Inr (?s\<lparr>ipl := ipl s\<rparr>)"
      using False Some by (subst kmem_free_intr.simps) (simp add: splnet_def splx_def Let_def)
    moreover have "kmem_parts (?s\<lparr>ipl := ipl s\<rparr>) (H - {p ..< p + n}) t L C"
      unfolding kmem_parts_ipl by (rule table_push[OF parts p Some])
    ultimately show ?thesis by (auto simp: deferred_def same_cfg_def)
  qed
qed

text \<open>An unaligned long run is cut in two; both calls go through, but the level stays raised.\<close>

lemma free_intr_spec:
  assumes parts: "kmem_parts s H t L C" and p: "{p ..< p + n} \<subseteq> H" "0 < n"
  shows "deferred (H - {p ..< p + n}) s (if 8 \<le> n \<and> p mod 4 \<noteq> 0 then 6 else ipl s) (kmem_free_intr p n s)"
proof (cases "8 \<le> n \<and> p mod 4 \<noteq> 0")
  case False
  then show ?thesis using free_intr_direct[OF parts p] by auto
next
  case True
  let ?i = "ALIGNMORE p" and ?s0 = "s\<lparr>ipl := 6\<rparr>"
  have i: "0 < ?i" "?i < 4" "(p + ?i) mod 4 = 0"
    using ALIGNMORE_range[of p] True by (simp_all add: ALIGNMORE_def) presburger
  have core: "core_already_freed s" using parts p by (auto simp: kmem_parts_def split: if_splits)
  have "{p ..< p + n} \<subseteq> {CoreBegin s ..< CoreEnd s}" using kmem_parts_arena[OF parts core] p(1) by blast
  then have "0 \<le> p" "p + n < 4294967296"
    using p(2) parts CoreBegin_aligned(4)[of s] by (auto simp: kmem_parts_def kmem_ok_def)
  then have u: "u32 (p + ?i) = p + ?i" using i True by (simp add: u32_def)
  have run: "kmem_free_intr p n s = andthen (kmem_free_intr p ?i ?s0) (kmem_free_intr (p + ?i) (n - ?i))"
    using True u by (subst kmem_free_intr.simps) (simp add: splnet_def Let_def)
  have sub: "{p ..< p + ?i} \<subseteq> H" by (rule subset_trans[OF _ p(1)]) (use i True in auto)
  have "deferred (H - {p ..< p + ?i}) ?s0 6 (kmem_free_intr p ?i ?s0)"
    using sub free_intr_direct[of ?s0 H t L C p ?i] parts p i True by auto
  then show ?thesis
  proof (cases "\<exists>m. kmem_free_intr p ?i ?s0 = Inl (Panic m)")
    case True
    then show ?thesis using run by (auto simp: deferred_def)
  next
    case False
    then obtain s1 t1 L1 C1 where s1: "kmem_free_intr p ?i ?s0 = Inr s1" "kmem_parts s1 (H - {p ..< p + ?i}) t1 L1 C1"
      "ipl s1 = 6" "same_cfg s s1" "core_already_freed s1 = core_already_freed s"
      using \<open>deferred _ _ _ _\<close> by (auto simp: deferred_def same_cfg_def)
    have "{p + ?i ..< p + ?i + (n - ?i)} \<subseteq> H - {p ..< p + ?i}" using p(1) i by auto
    from free_intr_direct[OF s1(2) this] i True
    have "deferred (H - {p ..< p + ?i} - {p + ?i ..< p + ?i + (n - ?i)}) s1 6 (kmem_free_intr (p + ?i) (n - ?i) s1)"
      using s1(3) by simp
    moreover have "H - {p ..< p + ?i} - {p + ?i ..< p + ?i + (n - ?i)} = H - {p ..< p + n}" using i True by auto
    ultimately show ?thesis using run s1 True same_cfg_trans[OF s1(4)] by (auto simp: deferred_def)
  qed
qed

section \<open>morecore\<close>

lemma hor_empty: "hor lo hi t \<Longrightarrow> hi \<le> lo \<Longrightarrow> t = Tip"
  by (cases t) auto

text \<open>A coalesced tree that holds a whole interval is one node.\<close>

lemma one_block:
  assumes "hor lo hi t" "bytes t = {lo ..< hi}" "lo < hi"
  shows "\<exists>i. t = Br Tip i lo (hi - lo) Tip"
proof -
  obtain l i b n r where t: "t = Br l i b n r" using assms by (cases t) auto
  note o = assms(1)[unfolded t, simplified]
  have sub: "bytes l \<subseteq> {lo ..< b - 1}" "bytes r \<subseteq> {b + n + 1 ..< hi}" using o hor_bytes by auto
  have all: "bytes l \<union> {b ..< b + n} \<union> bytes r = {lo ..< hi}" using assms(2) t by simp
  have "b = lo"
  proof (rule ccontr)
    assume "b \<noteq> lo"
    then have "b - 1 \<in> {lo ..< hi}" "b - 1 \<notin> bytes l" "b - 1 \<notin> bytes r" using o sub by auto
    with all show False by fastforce
  qed
  moreover have "b + n = hi"
  proof (rule ccontr)
    assume "b + n \<noteq> hi"
    then have "b + n \<in> {lo ..< hi}" "b + n \<notin> bytes l" "b + n \<notin> bytes r" using o sub by auto
    with all show False by fastforce
  qed
  ultimately have "l = Tip" "r = Tip" using o hor_empty[of lo "b - 1" l] hor_empty[of "b + n + 1" hi r] by auto
  with \<open>b = lo\<close> \<open>b + n = hi\<close> t show ?thesis by auto
qed

lemma morecore_spec:
  assumes parts: "kmem_parts s H t L C" and core: "\<not> core_already_freed s" "0 < v_maxcore s" and f: "v_maxheader s < f"
  shows "\<exists>s' t' L'. morecore f k s = Inr (True, s') \<and> kmem_parts s' {} t' L' [] \<and> in_table (need_to_free s') = [] \<and>
     mwt t' = v_maxcore s \<and> ipl s' = ipl s \<and> same_cfg s s' \<and> core_already_freed s' \<and> H = {} \<and>
     mset (ids t' @ L') = mset L"
proof -
  have pre: "t = Tip" "H = {}" "C = []" "in_table (need_to_free s) = []" "kmem_ok s Tip L" "kmem_cfg s" "L \<noteq> []"
    "set L = {..< v_maxheader s}"
    using parts core by (auto simp: kmem_parts_def kmem_cfg_def)
  note cb = CoreBegin_aligned[OF pre(6)]
  define s1 where "s1 = s\<lparr>core_already_freed := True, CoreEnd := CoreBegin s + v_maxcore s\<rparr>"
  have a: "alters {} {} s s1" by (rule other_fields_alters) (simp_all add: s1_def)
  have s1: "CoreBegin s1 = CoreBegin s" "v_maxheader s1 = v_maxheader s" "v_maxcore s1 = v_maxcore s"
    "CoreEnd s1 = CoreBegin s + v_maxcore s" "Core s1 = Core s" "ipl s1 = ipl s"
    by (simp_all add: s1_def CoreBegin_def)
  have ok1: "kmem_ok s1 Tip L"
    using pre(5,6) cb hdr_list_alters[OF a, of L] by (simp add: kmem_ok_def s1 kmem_cfg_def) (simp add: s1_def)
  have "\<not> refuses Tip L (CoreBegin s) (v_maxcore s)" using pre(7) by (simp add: refuses_def)
  then obtain s' t' L' where s': "kmem_free f (CoreBegin s) (v_maxcore s) s1 = Inr s'" "kmem_ok s' t' L'"
    "bytes t' = {CoreBegin s ..< CoreBegin s + v_maxcore s}" "mset (ids t' @ L') = mset L" "env s' = env s1"
    using kmem_free_spec(2)[OF ok1, of "CoreBegin s" "v_maxcore s" f] s1 core(2) f by auto
  note e = env_other[OF s'(5)] and cb' = CoreBegin_env[OF s'(5)]
  have "hor (CoreBegin s) (CoreBegin s + v_maxcore s) t'" using s'(2) e cb' s1 by (simp add: kmem_ok_def)
  from one_block[OF this s'(3)] core(2) obtain i where t': "t' = Br Tip i (CoreBegin s) (v_maxcore s) Tip" by auto
  have "set (ids t' @ L') = {..< v_maxheader s'}" using mset_eq_setD[OF s'(4)] pre(8) e s1 by simp
  moreover have "kmem_cfg s'" using pre(6) e s1 by (simp add: kmem_cfg_def)
  moreover have "ntf_chain (kmem_long s') (need_to_free_list s') []" "length (need_to_free s') = NEED_TO_FREE_SIZE"
    "in_table (need_to_free s') = []" "core_already_freed s'"
    using parts e pre(3,4) by (simp_all add: kmem_parts_def s1_def)
  ultimately have "kmem_parts s' {} t' L' []"
    using s'(2,3) e cb' s1 by (simp add: kmem_parts_def)
  moreover have "morecore f k s = Inr (True, s')"
    using core s'(1) cb(5) by (simp add: morecore_def s1_def)
  moreover have "mwt t' = v_maxcore s" using t' cb(3) by (simp add: mweight_of_def)
  moreover have "same_cfg s s'" "ipl s' = ipl s" using e s1 by (simp_all add: same_cfg_def)
  ultimately show ?thesis using s'(4) pre(2) \<open>in_table (need_to_free s') = []\<close> \<open>core_already_freed s'\<close> by blast
qed

section \<open>kmem_alloc\<close>

definition allocated :: "kmem \<Rightarrow> int set \<Rightarrow> int \<Rightarrow> kerr + (int \<times> kmem) \<Rightarrow> bool" where
  "allocated s H k res = ((\<exists>m. res = Inl (Panic m)) \<or>
     (\<exists>b s' t L C. res = Inr (b, s') \<and> kmem_parts s' (H \<union> {b ..< b + k}) t L C \<and> H \<inter> {b ..< b + k} = {} \<and>
        ipl s' = ipl s \<and> same_cfg s s' \<and> core_already_freed s' \<and> (4 \<le> k \<longrightarrow> b mod 4 = 0)))"

definition carved :: "kmem \<Rightarrow> int set \<Rightarrow> nat list \<Rightarrow> int \<Rightarrow> kerr + (int \<times> kmem) \<Rightarrow> bool" where
  "carved s H L k res = ((\<exists>m. res = Inl (Panic m)) \<and> length L < 2 \<or>
     (\<exists>b s' t' L'. res = Inr (b, s') \<and> kmem_parts s' (H \<union> {b ..< b + k}) t' L' [] \<and> H \<inter> {b ..< b + k} = {} \<and>
        env s' = env s \<and> (4 \<le> k \<longrightarrow> b mod 4 = 0)))"

lemma alloc_from_tree:
  assumes parts: "kmem_parts s H t L []" and tab: "in_table (need_to_free s) = []" and core: "core_already_freed s"
    and k: "mwt t \<ge> k" "0 < k" and f: "v_maxheader s < f"
  shows "\<exists>i. free_root s = Some i \<and>
    carved s H L k (andthen (alloc_search f k s Root i) (\<lambda>(p, a). alloc_node f k s p a))"
proof -
  have ok: "kmem_ok s t L" using parts by (simp add: kmem_parts_def)
  obtain i where i: "free_root s = Some i"
    "took s t L k (andthen (alloc_search f k s Root i) (\<lambda>(p, a). alloc_node f k s p a))" (is "took s t L k ?res")
    using alloc_tree_spec[OF ok k f] by blast
  from i(2) have "carved s H L k ?res" unfolding took_def
  proof (elim disjE exE conjE)
    fix b s' t' L'
    assume r: "?res = Inr (b, s')"
      and s': "kmem_ok s' t' L'" "{b ..< b + k} \<subseteq> bytes t" "bytes t' = bytes t - {b ..< b + k}"
        "mset (ids t' @ L') = mset (ids t @ L)" "env s' = env s" "4 \<le> k \<longrightarrow> b mod 4 = 0"
    have "H \<inter> bytes t = {}" using parts by (simp add: kmem_parts_def Int_Un_distrib)
    then have b: "bytes t' \<union> (H \<union> {b ..< b + k}) = bytes t \<union> H" "bytes t' \<inter> (H \<union> {b ..< b + k}) = {}"
      "H \<inter> {b ..< b + k} = {}"
      unfolding s'(3) using s'(2) by blast+
    have "kmem_parts s' (H \<union> {b ..< b + k}) t' L' []" by (rule kmem_parts_env[OF parts s'(5,1,4) core b(1,2)])
    then show ?thesis unfolding carved_def using r b(3) s'(5,6) by (intro disjI2 exI conjI)
  qed (auto simp: carved_def)
  with i(1) show ?thesis by blast
qed

lemma andthen_assoc: "andthen (andthen r g) h = andthen r (\<lambda>x. andthen (g x) h)"
  by (cases r) auto

lemma kmem_alloc_run:
  assumes "0 < k"
  shows "kmem_alloc f k s = andthen (check_need_to_free f (s\<lparr>ipl := 6\<rparr>)) (\<lambda>s1.
    andthen (if mweight s1 (free_root s1) < k then morecore f k s1 else Inr (True, s1)) (\<lambda>(ok, s2).
      if \<not> ok then Inl (Panic ''kmem_alloc'')
      else (case free_root s2 of
              None \<Rightarrow> Inl Fault
            | Some a \<Rightarrow> andthen (andthen (alloc_search f k s2 Root a) (\<lambda>(p, a'). alloc_node f k s2 p a'))
                (\<lambda>(retblock, s3). Inr (retblock, splx (ipl s) s3)))))"
proof -
  show ?thesis using assms by (simp add: kmem_alloc_def splnet_def split_def andthen_assoc cong: option.case_cong if_cong)
qed

lemma kmem_alloc_spec:
  assumes parts: "kmem_parts s H t L C" and k: "0 < k" "core_already_freed s \<or> k \<le> v_maxcore s" and f: "kmem_fuel s \<le> f"
  shows "allocated s H k (kmem_alloc f k s)"
proof -
  let ?s0 = "s\<lparr>ipl := 6\<rparr>"
  have p0: "kmem_parts ?s0 H t L C" using parts by simp
  have w: "v_maxheader ?s0 + waiting ?s0 C < f"
    using kmem_parts_fuel(2)[OF parts] f by (simp add: waiting_def)
  have rest: "allocated s H k (case free_root s2 of None \<Rightarrow> Inl Fault
      | Some a \<Rightarrow> andthen (andthen (alloc_search f k s2 Root a) (\<lambda>(p, a'). alloc_node f k s2 p a'))
                (\<lambda>(retblock, s3). Inr (retblock, splx (ipl s) s3)))"
    if s2: "kmem_parts s2 H t2 L2 []" "in_table (need_to_free s2) = []" "core_already_freed s2" "mwt t2 \<ge> k" "same_cfg s s2"
    for s2 t2 L2
  proof -
    have f2: "v_maxheader s2 < f" using kmem_parts_fuel(1)[OF parts] f s2(5) by (simp add: same_cfg_def)
    obtain i where i: "free_root s2 = Some i"
      "carved s2 H L2 k (andthen (alloc_search f k s2 Root i) (\<lambda>(p, a). alloc_node f k s2 p a))"
      (is "carved s2 H L2 k ?res") using alloc_from_tree[OF s2(1-4) k(1) f2] by blast
    from i(2) have "allocated s H k (andthen ?res (\<lambda>(retblock, s3). Inr (retblock, splx (ipl s) s3)))" unfolding carved_def
    proof (elim disjE exE conjE)
      fix b s' t' L'
      assume s': "?res = Inr (b, s')" "kmem_parts s' (H \<union> {b ..< b + k}) t' L' []" "H \<inter> {b ..< b + k} = {}" "env s' = env s2"
        "4 \<le> k \<longrightarrow> b mod 4 = 0"
      have "kmem_parts (splx (ipl s) s') (H \<union> {b ..< b + k}) t' L' []" using s'(2) by (simp add: splx_def)
      moreover have "same_cfg s (splx (ipl s) s')" "core_already_freed (splx (ipl s) s')" "ipl (splx (ipl s) s') = ipl s"
        using s2(3,5) env_other[OF s'(4)] by (simp_all add: same_cfg_def splx_def)
      ultimately show ?thesis using s'(1,3,5) unfolding allocated_def by auto
    qed (simp add: allocated_def)
    with i(1) show ?thesis by simp
  qed
  have chk: "checked ?s0 H (check_need_to_free f ?s0)" by (rule check_spec[OF p0 w])
  then show ?thesis unfolding checked_def
  proof (elim disjE exE conjE)
    fix s1 t1 L1
    assume s1: "check_need_to_free f ?s0 = Inr s1" "kmem_parts s1 H t1 L1 []" "in_table (need_to_free s1) = []"
      "same_cfg ?s0 s1" "core_already_freed s1 = core_already_freed ?s0"
    have cfg: "same_cfg s s1" using s1(4) by (simp add: same_cfg_def)
    have m: "mweight s1 (free_root s1) = mwt t1" using s1(2) tr_weight(2) by (simp add: kmem_parts_def kmem_ok_def)
    show ?thesis
    proof (cases "mwt t1 < k")
      case False
      then have core: "core_already_freed s1" using s1(2) k(1) by (auto simp: kmem_parts_def split: if_splits)
      have run: "kmem_alloc f k s = (case free_root s1 of None \<Rightarrow> Inl Fault
         | Some a \<Rightarrow> andthen (andthen (alloc_search f k s1 Root a) (\<lambda>(p, a'). alloc_node f k s1 p a'))
                (\<lambda>(retblock, s3). Inr (retblock, splx (ipl s) s3)))"
        using False m s1(1) kmem_alloc_run[OF k(1), of f s] by simp
      show ?thesis unfolding run by (rule rest[OF s1(2,3) core _ cfg]) (use False in simp)
    next
      case True
      show ?thesis
      proof (cases "core_already_freed s1")
        case freed: True
        have "kmem_alloc f k s = Inl (Panic ''kmem_alloc'')"
          using True m s1(1) freed kmem_alloc_run[OF k(1), of f s] by (simp add: morecore_def)
        then show ?thesis by (simp add: allocated_def)
      next
        case False
        have "k \<le> v_maxcore s1" using False k(2) s1(5) cfg by (simp add: same_cfg_def)
        moreover have "v_maxheader s1 < f" using kmem_parts_fuel(1)[OF parts] f cfg by (simp add: same_cfg_def)
        ultimately obtain s2 t2 L2 where s2: "morecore f k s1 = Inr (True, s2)" "kmem_parts s2 {} t2 L2 []"
          "in_table (need_to_free s2) = []" "mwt t2 = v_maxcore s1" "same_cfg s1 s2" "core_already_freed s2" "H = {}"
          using morecore_spec[OF s1(2) False] k(1) by force
        have run: "kmem_alloc f k s = (case free_root s2 of None \<Rightarrow> Inl Fault
         | Some a \<Rightarrow> andthen (andthen (alloc_search f k s2 Root a) (\<lambda>(p, a'). alloc_node f k s2 p a'))
                (\<lambda>(retblock, s3). Inr (retblock, splx (ipl s) s3)))"
          using True m s1(1) s2(1) kmem_alloc_run[OF k(1), of f s] by simp
        have "kmem_parts s2 H t2 L2 []" "k \<le> mwt t2" using s2(2,4,7) \<open>k \<le> v_maxcore s1\<close> by simp_all
        then show ?thesis unfolding run by (rule rest[OF _ s2(3,6) _ same_cfg_trans[OF cfg s2(5)]])
      qed
    qed
  qed (use kmem_alloc_run[OF k(1), of f s] in \<open>auto simp: allocated_def\<close>)
qed

section \<open>The contract of the allocator\<close>

text \<open>
  What the clients of an allocator of bytes rely on: \<open>inv s H\<close> says that the state is in order when
  the clients hold the bytes H; a run handed out was held by nobody, a run given back is the caller's.
\<close>

locale byte_allocator =
  fixes inv :: "'s \<Rightarrow> int set \<Rightarrow> bool"
    and alloc :: "int \<Rightarrow> 's \<Rightarrow> kerr + int \<times> 's"
    and release :: "int \<Rightarrow> int \<Rightarrow> 's \<Rightarrow> kerr + 's"
    and ready :: "int \<Rightarrow> 's \<Rightarrow> bool"
  assumes alloc_law: "\<lbrakk>inv s H; 0 < k; ready k s; alloc k s = Inr (b, s')\<rbrakk> \<Longrightarrow>
      inv s' (H \<union> {b ..< b + k}) \<and> H \<inter> {b ..< b + k} = {}"
    and release_law: "\<lbrakk>inv s H; {p ..< p + n} \<subseteq> H; 0 < n; release p n s = Inr s'\<rbrakk> \<Longrightarrow> inv s' (H - {p ..< p + n})"
begin

lemma alloc_keeps: "\<lbrakk>inv s H; 0 < k; ready k s; alloc k s = Inr (b, s')\<rbrakk> \<Longrightarrow> inv s' (H \<union> {b ..< b + k})"
  using alloc_law by blast

text \<open>The run handed out last and given back at once leaves the clients with what they had.\<close>

lemma alloc_release:
  assumes "inv s H" "0 < k" "ready k s" "alloc k s = Inr (b, s1)" "release b k s1 = Inr s2"
  shows "inv s2 H"
proof -
  from alloc_law[OF assms(1-4)] have a: "inv s1 (H \<union> {b ..< b + k})" "H \<inter> {b ..< b + k} = {}" by auto
  have "(H \<union> {b ..< b + k}) - {b ..< b + k} = H" using a(2) by blast
  with release_law[OF a(1) Un_upper2 assms(2,5)] show ?thesis by simp
qed

text \<open>Clients i with holdings h i stay apart from each other.\<close>

lemma alloc_owners:
  assumes "inv s (\<Union>i. h i)" "\<And>i j. i \<noteq> j \<Longrightarrow> h i \<inter> h j = {}" "0 < k" "ready k s" "alloc k s = Inr (b, s')"
    and "h' = h(c := h c \<union> {b ..< b + k})"
  shows "inv s' (\<Union>i. h' i) \<and> (\<forall>i j. i \<noteq> j \<longrightarrow> h' i \<inter> h' j = {})"
proof -
  note a = alloc_law[OF assms(1,3-5)]
  have "(\<Union>i. h' i) = (\<Union>i. h i) \<union> {b ..< b + k}" using assms(6) by auto
  moreover have "h' i \<inter> h' j = {}" if "i \<noteq> j" for i j
    using that a assms(2)[OF that] unfolding assms(6) by auto
  ultimately show ?thesis using a by simp
qed

end

text \<open>Freed by \<open>kmem_free\<close>, or handed over at interrupt level by \<open>kmem_free_intr\<close>.\<close>

interpretation ka: byte_allocator kmem_inv "\<lambda>k s. kmem_alloc (kmem_fuel s) k s"
  "\<lambda>p n s. kmem_free (kmem_fuel s) p n s" "\<lambda>k s. core_already_freed s \<or> k \<le> v_maxcore s"
proof unfold_locales
  fix s :: kmem and H k b s'
  assume "kmem_inv s H" and r: "0 < k" "core_already_freed s \<or> k \<le> v_maxcore s" "kmem_alloc (kmem_fuel s) k s = Inr (b, s')"
  then obtain t L C where "kmem_parts s H t L C" by (auto simp: kmem_inv_def)
  from kmem_alloc_spec[OF this r(1,2) order_refl] r(3) show "kmem_inv s' (H \<union> {b ..< b + k}) \<and> H \<inter> {b ..< b + k} = {}"
    by (auto simp: allocated_def kmem_inv_def)
next
  fix s :: kmem and H p n s'
  assume "kmem_inv s H" and r: "{p ..< p + n} \<subseteq> H" "0 < n" "kmem_free (kmem_fuel s) p n s = Inr s'"
  then obtain t L C where parts: "kmem_parts s H t L C" by (auto simp: kmem_inv_def)
  from kmem_free_parts[OF parts r(1,2) kmem_parts_fuel(1)[OF parts]] r(3) show "kmem_inv s' (H - {p ..< p + n})"
    by (auto simp: kmem_inv_def)
qed

interpretation ki: byte_allocator kmem_inv "\<lambda>k s. kmem_alloc (kmem_fuel s) k s" kmem_free_intr
  "\<lambda>k s. core_already_freed s \<or> k \<le> v_maxcore s"
proof unfold_locales
  fix s :: kmem and H k b s'
  assume "kmem_inv s H" "0 < k" "core_already_freed s \<or> k \<le> v_maxcore s" "kmem_alloc (kmem_fuel s) k s = Inr (b, s')"
  then show "kmem_inv s' (H \<union> {b ..< b + k}) \<and> H \<inter> {b ..< b + k} = {}" by (rule ka.alloc_law)
next
  fix s :: kmem and H p n s'
  assume "kmem_inv s H" and r: "{p ..< p + n} \<subseteq> H" "0 < n" "kmem_free_intr p n s = Inr s'"
  then obtain t L C where parts: "kmem_parts s H t L C" by (auto simp: kmem_inv_def)
  from free_intr_spec[OF parts r(1,2)] r(3) show "kmem_inv s' (H - {p ..< p + n})"
    by (auto simp: deferred_def kmem_inv_def)
qed

end
