(* ===== verification/Kmem_Props.thy ===== *)
theory Kmem_Props
  imports Kmem_Calls
begin

text \<open>
  The allocator and its clients as a step relation, and the properties of COMMON/os/heap_kmem.c.
\<close>

section \<open>Clients\<close>

text \<open>
  A state is the allocator's and the set of bytes its clients hold. A step is a call that returns (a
  client allocates, frees a run of bytes it holds, at interrupt level or not), a store of a client
  into bytes it holds, or a change of the processor's level by other code. The very first
  request does not exceed the arena.
\<close>

inductive kstep :: "kmem \<times> int set \<Rightarrow> kmem \<times> int set \<Rightarrow> bool" where
  step_alloc: "\<lbrakk>0 < k; core_already_freed s \<or> k \<le> v_maxcore s; kmem_alloc (kmem_fuel s) k s = Inr (b, s')\<rbrakk> \<Longrightarrow>
    kstep (s, H) (s', H \<union> {b ..< b + k})"
| step_free: "\<lbrakk>{p ..< p + n} \<subseteq> H; 0 < n; kmem_free (kmem_fuel s) p n s = Inr s'\<rbrakk> \<Longrightarrow>
    kstep (s, H) (s', H - {p ..< p + n})"
| step_intr: "\<lbrakk>{p ..< p + n} \<subseteq> H; 0 < n; kmem_free_intr p n s = Inr s'\<rbrakk> \<Longrightarrow> kstep (s, H) (s', H - {p ..< p + n})"
| step_store: "(\<And>a. {a ..< a + 4} \<inter> H = {} \<Longrightarrow> m a = kmem_long s a) \<Longrightarrow> kstep (s, H) (s\<lparr>kmem_long := m\<rparr>, H)"
| step_spl: "kstep (s, H) (s\<lparr>ipl := l\<rparr>, H)"

text \<open>The statics before \<open>kmem_init\<close> are zero.\<close>

definition kmem_boot :: "kmem \<Rightarrow> bool" where
  "kmem_boot s = (kmem_cfg s \<and> Freehdrflag s = 0 \<and> \<not> core_already_freed s \<and> CoreEnd s = 0 \<and>
     nf_addr (need_to_free_list s) = 0 \<and> length (need_to_free s) = NEED_TO_FREE_SIZE)"

inductive kreach :: "kmem \<Rightarrow> int set \<Rightarrow> bool" where
  kreach_init: "kmem_boot s \<Longrightarrow> kreach (kmem_init s) {}"
| kreach_step: "kreach s H \<Longrightarrow> kstep (s, H) (s', H') \<Longrightarrow> kreach s' H'"

lemma in_table_cleared: "in_table (map (nf_addr_update (\<lambda>_. 0)) es) = []"
  by (induction es) auto

lemma kmem_init_parts:
  assumes "kmem_boot s"
  shows "kmem_parts (kmem_init s) {} Tip (0 # rev [1 ..< v_maxheader s]) []"
proof -
  note b = assms[unfolded kmem_boot_def]
  have cb: "CoreBegin (kmem_init s) = CoreBegin s" by (simp add: CoreBegin_def kmem_init_def)
  have L: "distinct (0 # rev [1 ..< v_maxheader s])" "set (0 # rev [1 ..< v_maxheader s]) = {..< v_maxheader s}"
    using b by (auto simp: kmem_cfg_def)
  have "kmem_ok (kmem_init s) Tip (0 # rev [1 ..< v_maxheader s])"
    unfolding kmem_ok_def cb using b L CoreBegin_aligned(1)[of s]
    by (simp add: hdr_list_def kmem_init_def kmem_cfg_def)
  then show ?thesis using b L by (simp add: kmem_parts_def kmem_init_def kmem_cfg_def in_table_cleared)
qed

lemma store_parts:
  assumes parts: "kmem_parts s H t L C" and m: "\<And>a. {a ..< a + 4} \<inter> H = {} \<Longrightarrow> m a = kmem_long s a"
  shows "kmem_parts (s\<lparr>kmem_long := m\<rparr>) H t L C"
proof -
  have ok: "kmem_ok (s\<lparr>kmem_long := m\<rparr>) t L = kmem_ok s t L" by (rule kmem_ok_other) simp_all
  have "ntf_chain m (need_to_free_list s) C"
  proof (rule ntf_chain_store)
    show "ntf_chain (kmem_long s) (need_to_free_list s) C" using parts by (simp add: kmem_parts_def)
    fix a n assume an: "(a, n) \<in> set C"
    then have "8 \<le> n" using parts by (auto simp: kmem_parts_def)
    then have "{a ..< a + 4} \<subseteq> {a ..< a + n}" "{a + 4 ..< a + 4 + 4} \<subseteq> {a ..< a + n}" by auto
    moreover have "H \<inter> {a ..< a + n} = {}" using run_apart(1)[OF parts, of a n] an by simp
    ultimately show "m a = kmem_long s a \<and> m (a + 4) = kmem_long s (a + 4)" by (intro conjI m) blast+
  qed
  moreover have s: "need_to_free_list (s\<lparr>kmem_long := m\<rparr>) = need_to_free_list s" "need_to_free (s\<lparr>kmem_long := m\<rparr>) = need_to_free s"
    "core_already_freed (s\<lparr>kmem_long := m\<rparr>) = core_already_freed s" "CoreEnd (s\<lparr>kmem_long := m\<rparr>) = CoreEnd s"
    "CoreBegin (s\<lparr>kmem_long := m\<rparr>) = CoreBegin s" "v_maxcore (s\<lparr>kmem_long := m\<rparr>) = v_maxcore s"
    "v_maxheader (s\<lparr>kmem_long := m\<rparr>) = v_maxheader s" "Core (s\<lparr>kmem_long := m\<rparr>) = Core s"
    "kmem_long (s\<lparr>kmem_long := m\<rparr>) = m"
    by (simp_all add: CoreBegin_def)
  ultimately show ?thesis using parts unfolding kmem_parts_def s kmem_cfg_def ok by (elim conjE) (intro conjI)
qed

lemma kstep_inv: "kstep (s, H) (s', H') \<Longrightarrow> kmem_inv s H \<Longrightarrow> kmem_inv s' H'"
proof -
  assume step: "kstep (s, H) (s', H')" and inv: "kmem_inv s H"
  from step show "kmem_inv s' H'"
  proof (cases rule: kstep.cases)
    case (step_alloc k b)
    with ka.alloc_keeps[OF inv step_alloc(2-4)] show ?thesis by simp
  next
    case (step_free p n)
    with ka.release_law[OF inv step_free(2-4)] show ?thesis by simp
  next
    case (step_intr p n)
    with ki.release_law[OF inv step_intr(2-4)] show ?thesis by simp
  next
    case (step_store m)
    with inv store_parts[of s H _ _ _ m] show ?thesis unfolding kmem_inv_def by blast
  next
    case (step_spl l)
    with inv show ?thesis by (auto simp: kmem_inv_def)
  qed
qed

lemma kreach_inv: "kreach s H \<Longrightarrow> kmem_inv s H"
proof (induction rule: kreach.induct)
  case (kreach_init s)
  then show ?case using kmem_init_parts by (auto simp: kmem_inv_def)
next
  case (kreach_step s H s' H')
  then show ?case by (blast intro: kstep_inv)
qed

section \<open>A small arena\<close>

text \<open>
  32 bytes at 1000 and 4 headers: the arena is allocated whole, then two runs of 8 bytes are freed,
  the first at an odd address.
\<close>

definition kdemo :: kmem where
  "kdemo = \<lparr>free_root = None, free_hdr_list = None, need_to_free_list = \<lparr>nf_addr = 0, nf_bytes = 0\<rparr>,
     need_to_free = replicate 10 \<lparr>nf_addr = 0, nf_bytes = 0\<rparr>,
     hdrs = (\<lambda>_. \<lparr>left = None, right = None, block = 0, hsize = 0\<rparr>), Freehdrflag = 0, core_already_freed = False,
     CoreEnd = 0, kmem_long = (\<lambda>_. 0), ipl = 0, Core = 1000, v_maxcore = 32, v_maxheader = 4\<rparr>"

definition kres :: "kerr + 'a \<Rightarrow> 'a \<Rightarrow> 'a" where
  "kres r d = (case r of Inl e \<Rightarrow> d | Inr v \<Rightarrow> v)"

definition kdemo1 :: kmem where "kdemo1 = snd (kres (kmem_alloc 48 32 (kmem_init kdemo)) (0, kdemo))"
definition kdemo2 :: kmem where "kdemo2 = kres (kmem_free 48 1001 8 kdemo1) kdemo"
definition kdemo3 :: kmem where "kdemo3 = kres (kmem_free 48 1012 8 kdemo2) kdemo"

lemma kres_alloc: "map_sum id fst r = Inr b \<Longrightarrow> r = Inr (b, snd (kres r d))"
  by (cases r) (auto simp: kres_def)

lemma kres_free: "map_sum id (\<lambda>_. ()) r = Inr () \<Longrightarrow> r = Inr (kres r d)"
  by (cases r) (auto simp: kres_def)

lemma kdemo_runs:
  "kmem_alloc 48 32 (kmem_init kdemo) = Inr (1000, kdemo1)"
  "kmem_free 48 1001 8 kdemo1 = Inr kdemo2"
  "kmem_free 48 1012 8 kdemo2 = Inr kdemo3"
proof -
  have "map_sum id fst (kmem_alloc 48 32 (kmem_init kdemo)) = Inr 1000" by code_simp
  then show "kmem_alloc 48 32 (kmem_init kdemo) = Inr (1000, kdemo1)" unfolding kdemo1_def by (rule kres_alloc)
  have "map_sum id (\<lambda>_. ()) (kmem_free 48 1001 8 kdemo1) = Inr ()" by code_simp
  then show "kmem_free 48 1001 8 kdemo1 = Inr kdemo2" unfolding kdemo2_def by (rule kres_free)
  have "map_sum id (\<lambda>_. ()) (kmem_free 48 1012 8 kdemo2) = Inr ()" by code_simp
  then show "kmem_free 48 1012 8 kdemo2 = Inr kdemo3" unfolding kdemo3_def by (rule kres_free)
qed

text \<open>The last state: its links, headers, waiting blocks and configuration.\<close>

definition kview :: "kmem \<Rightarrow> _" where
  "kview s = (free_root s, free_hdr_list s, Freehdrflag s, map (hdrs s) [0, 2, 3],
     nf_addr (need_to_free_list s), in_table (need_to_free s), core_already_freed s,
     Core s, v_maxcore s, v_maxheader s, ipl s)"

lemma kdemo3_view:
  "kview kdemo3 =
   (Some 0, Some 2, 1,
    [\<lparr>left = None, right = Some 3, block = 1001, hsize = 8\<rparr>, \<lparr>left = Some 1, right = None, block = 0, hsize = 0\<rparr>,
     \<lparr>left = None, right = None, block = 1012, hsize = 8\<rparr>],
    0, [], True, 1000, 32, 4, 0)"
  by code_simp

lemma kdemo3_state: "free_root kdemo3 = Some 0" "free_hdr_list kdemo3 = Some 2" "Freehdrflag kdemo3 = 1"
  "hdrs kdemo3 0 = \<lparr>left = None, right = Some 3, block = 1001, hsize = 8\<rparr>"
  "hdrs kdemo3 2 = \<lparr>left = Some 1, right = None, block = 0, hsize = 0\<rparr>"
  "hdrs kdemo3 3 = \<lparr>left = None, right = None, block = 1012, hsize = 8\<rparr>"
  "nf_addr (need_to_free_list kdemo3) = 0" "in_table (need_to_free kdemo3) = []" "core_already_freed kdemo3"
  "Core kdemo3 = 1000" "v_maxcore kdemo3 = 32" "v_maxheader kdemo3 = 4" "ipl kdemo3 = 0" "CoreBegin kdemo3 = 1000"
  using kdemo3_view by (simp_all add: kview_def CoreBegin_def and_not_3 u32_def)

definition ksize :: "kmem \<Rightarrow> int \<times> nat" where
  "ksize s = (v_maxcore s, v_maxheader s)"

lemma kdemo_cfg: "ksize kdemo1 = (32, 4)" "ksize kdemo2 = (32, 4)"
  by code_simp+

lemma kdemo_fuel: "kmem_fuel (kmem_init kdemo) = 48" "kmem_fuel kdemo1 = 48" "kmem_fuel kdemo2 = 48" "kmem_fuel kdemo3 = 48"
  using kdemo_cfg kdemo3_state by (simp_all add: ksize_def kmem_fuel_def kmem_init_def kdemo_def)

lemma kdemo_boot: "kmem_boot kdemo" "v_maxcore (kmem_init kdemo) = 32"
  by code_simp+

lemma kdemo_reach: "kreach (kmem_init kdemo) {}" "kreach kdemo1 {1000 ..< 1032}"
  "kreach kdemo2 ({1000 ..< 1032} - {1001 ..< 1009})"
  "kreach kdemo3 ({1000 ..< 1032} - {1001 ..< 1009} - {1012 ..< 1020})"
proof -
  show 0: "kreach (kmem_init kdemo) {}" by (rule kreach_init[OF kdemo_boot(1)])
  have "kstep (kmem_init kdemo, {}) (kdemo1, {} \<union> {1000 ..< 1000 + 32})"
    by (rule step_alloc) (simp_all add: kdemo_fuel kdemo_runs kdemo_boot)
  from kreach_step[OF 0 this] show 1: "kreach kdemo1 {1000 ..< 1032}" by simp
  have "kstep (kdemo1, {1000 ..< 1032}) (kdemo2, {1000 ..< 1032} - {1001 ..< 1001 + 8})"
    by (rule step_free) (simp_all add: kdemo_fuel kdemo_runs)
  from kreach_step[OF 1 this] show 2: "kreach kdemo2 ({1000 ..< 1032} - {1001 ..< 1009})" by simp
  have "kstep (kdemo2, {1000 ..< 1032} - {1001 ..< 1009})
      (kdemo3, {1000 ..< 1032} - {1001 ..< 1009} - {1012 ..< 1012 + 8})"
    by (rule step_free) (auto simp: kdemo_fuel kdemo_runs)
  from kreach_step[OF 2 this] show "kreach kdemo3 ({1000 ..< 1032} - {1001 ..< 1009} - {1012 ..< 1020})" by simp
qed

text \<open>The tree in the last state: the younger block lies below the older one of the same size.\<close>

definition kdemo3_tree :: ctree where
  "kdemo3_tree = Br Tip 0 1001 8 (Br Tip 3 1012 8 Tip)"

lemma kdemo3_tr: "tr kdemo3 (free_root kdemo3) kdemo3_tree"
  by (simp add: kdemo3_tree_def kdemo3_state)

lemma tr_unique: "tr s p t \<Longrightarrow> tr s p t' \<Longrightarrow> t = t'"
proof (induction t arbitrary: p t')
  case Tip
  then show ?case by (cases t') auto
next
  case (Br l i b n r)
  then show ?case by (cases t') auto
qed

lemma fl_unique: "fl s p L \<Longrightarrow> fl s p L' \<Longrightarrow> L = L'"
proof (induction L arbitrary: p L')
  case Nil
  then show ?case by (cases L') auto
next
  case (Cons i L)
  then show ?case by (cases L') auto
qed

lemma hdr_list_unique: "hdr_list s L \<Longrightarrow> hdr_list s L' \<Longrightarrow> L = L'"
  using fl_unique by (auto simp: hdr_list_def split: if_splits)

section \<open>Properties\<close>

text \<open>
  C2: In every reachable state of the allocator each byte of the arena is in exactly one place, free in
  the tree, waiting to be freed, or held by a client; the tree keeps the two orders of the source's
  comment and is fully coalesced, and every header of \<open>FreeHdr\<close> is in the tree or in the free list.
\<close>

theorem kmem_arena_owned:
  assumes "kreach s H"
  shows "\<exists>t L C. tr s (free_root s) t \<and> hor (CoreBegin s) (CoreEnd s) t \<and> ver t \<and>
     hdr_list s L \<and> distinct (ids t @ L) \<and> set (ids t @ L) = {..< v_maxheader s} \<and>
     ntf_chain (kmem_long s) (need_to_free_list s) C \<and> disj (C @ in_table (need_to_free s)) \<and>
     bytes t \<inter> rbytes (C @ in_table (need_to_free s)) = {} \<and>
     H \<inter> (bytes t \<union> rbytes (C @ in_table (need_to_free s))) = {} \<and>
     (core_already_freed s \<longrightarrow>
        H \<union> bytes t \<union> rbytes (C @ in_table (need_to_free s)) = {CoreBegin s ..< CoreBegin s + v_maxcore s})"
proof -
  obtain t L C where parts: "kmem_parts s H t L C" using kreach_inv[OF assms] by (auto simp: kmem_inv_def)
  show ?thesis
    using parts unfolding kmem_parts_def kmem_ok_def
    by (intro exI[of _ t] exI[of _ L] exI[of _ C]) (elim conjE, intro conjI, simp_all split: if_splits)
qed

theorem kmem_arena_owned_witness:
  "\<exists>t L. tr kdemo3 (free_root kdemo3) t \<and> hdr_list kdemo3 L \<and> set (ids t @ L) = {..< v_maxheader kdemo3} \<and> ver t"
  using kmem_arena_owned[OF kdemo_reach(4)] by (elim exE) blast

text \<open>
  C9: A request for k bytes in any reachable state, where k is at most the size of the arena if no
  request has been served before, ends in a panic or returns the address of k bytes of the arena nobody holds, at a
  multiple of 4 when k is at least 4; the processor's level is what it was before the call.
\<close>

theorem kmem_alloc_gives:
  assumes "kreach s H" "0 < k" "core_already_freed s \<or> k \<le> v_maxcore s"
  shows "(\<exists>m. kmem_alloc (kmem_fuel s) k s = Inl (Panic m)) \<or>
    (\<exists>b s'. kmem_alloc (kmem_fuel s) k s = Inr (b, s') \<and>
       {b ..< b + k} \<subseteq> {CoreBegin s ..< CoreBegin s + v_maxcore s} \<and> {b ..< b + k} \<inter> H = {} \<and>
       (4 \<le> k \<longrightarrow> b mod 4 = 0) \<and> ipl s' = ipl s)"
proof -
  obtain t L C where parts: "kmem_parts s H t L C" using kreach_inv[OF assms(1)] by (auto simp: kmem_inv_def)
  from kmem_alloc_spec[OF parts assms(2,3) order_refl] show ?thesis unfolding allocated_def
  proof (elim disjE exE conjE)
    fix b s' t' L' C'
    assume r: "kmem_alloc (kmem_fuel s) k s = Inr (b, s')" and p: "kmem_parts s' (H \<union> {b ..< b + k}) t' L' C'"
      and d: "H \<inter> {b ..< b + k} = {}" and e: "ipl s' = ipl s" "same_cfg s s'" "core_already_freed s'"
      and a: "4 \<le> k \<longrightarrow> b mod 4 = 0"
    have "CoreBegin s' = CoreBegin s" "v_maxcore s' = v_maxcore s" using e(2) by (simp_all add: same_cfg_def CoreBegin_def)
    moreover have "CoreEnd s' = CoreBegin s' + v_maxcore s'" using p e(3) by (simp add: kmem_parts_def)
    ultimately have "{b ..< b + k} \<subseteq> {CoreBegin s ..< CoreBegin s + v_maxcore s}"
      using kmem_parts_arena[OF p e(3)] by (metis Un_assoc Un_upper1 Un_upper2 subset_trans)
    moreover have "{b ..< b + k} \<inter> H = {}" using d by blast
    ultimately show ?thesis using r e(1) a by (intro disjI2 exI[of _ b] exI[of _ s'] conjI)
  qed blast
qed

theorem kmem_alloc_gives_witness:
  "kmem_alloc 48 32 (kmem_init kdemo) = Inr (1000, kdemo1) \<and> ipl kdemo1 = ipl (kmem_init kdemo)"
  using kmem_alloc_gives[OF kdemo_reach(1), of 32] by (auto simp: kdemo_fuel kdemo_boot kdemo_runs)

text \<open>
  C8: \<open>kmem_free\<close> of any run inside the arena, whoever holds it, panics exactly when a byte of the run
  is already free in the tree (a free header being left, without which \<open>getfreehdr\<close> panics); otherwise the run is in the tree
  afterwards, which is in order and coalesced, and nothing else of the state has changed.
\<close>

theorem kmem_free_exact:
  assumes "kreach s H" "tr s (free_root s) t" "hdr_list s (x # L)" "core_already_freed s"
    "CoreBegin s \<le> p" "p + n \<le> CoreBegin s + v_maxcore s" "0 < n"
  shows "if {p ..< p + n} \<inter> bytes t \<noteq> {} then \<exists>m. kmem_free (kmem_fuel s) p n s = Inl (Panic m)
    else \<exists>s' t'. kmem_free (kmem_fuel s) p n s = Inr s' \<and> tr s' (free_root s') t' \<and>
      hor (CoreBegin s) (CoreEnd s) t' \<and> ver t' \<and> bytes t' = bytes t \<union> {p ..< p + n} \<and> env s' = env s"
proof -
  obtain t' L' C where parts: "kmem_parts s H t' L' C" using kreach_inv[OF assms(1)] by (auto simp: kmem_inv_def)
  have "kmem_ok s t' L'" using parts by (simp add: kmem_parts_def)
  moreover from this have "t' = t" "L' = x # L"
    using tr_unique[OF _ assms(2)] hdr_list_unique[OF _ assms(3)] by (auto simp: kmem_ok_def)
  ultimately have ok: "kmem_ok s t (x # L)" by simp
  have e: "p + n \<le> CoreEnd s" using parts assms(4,6) by (simp add: kmem_parts_def)
  note spec = kmem_free_spec[OF ok assms(5) e assms(7) kmem_parts_fuel(1)[OF parts]]
  show ?thesis
  proof (cases "{p ..< p + n} \<inter> bytes t \<noteq> {}")
    case True
    with spec(1) show ?thesis by (simp add: refuses_def)
  next
    case False
    then obtain s' t' L' where s': "kmem_free (kmem_fuel s) p n s = Inr s'" "kmem_ok s' t' L'"
      "bytes t' = bytes t \<union> {p ..< p + n}" "env s' = env s"
      using spec(2) by (auto simp: refuses_def)
    then show ?thesis using False env_other[OF s'(4)] CoreBegin_env[OF s'(4)] by (auto simp: kmem_ok_def)
  qed
qed

text \<open>The run freed last is freed again, from the middle of the block.\<close>

lemma kdemo3_hdrs: "\<exists>x L. hdr_list kdemo3 (x # L)"
proof -
  obtain t L C where p: "kmem_parts kdemo3 ({1000 ..< 1032} - {1001 ..< 1009} - {1012 ..< 1020}) t L C"
    using kreach_inv[OF kdemo_reach(4)] by (auto simp: kmem_inv_def)
  then have "fl kdemo3 (Some 2) L" by (simp add: kmem_parts_def kmem_ok_def hdr_list_def kdemo3_state)
  then obtain x L' where "L = x # L'" by (cases L) auto
  with p show ?thesis by (auto simp: kmem_parts_def kmem_ok_def)
qed

theorem kmem_free_exact_witness:
  "\<exists>m. kmem_free 48 1014 2 kdemo3 = Inl (Panic m)"
proof -
  obtain x L where h: "hdr_list kdemo3 (x # L)" using kdemo3_hdrs by blast
  have "1014 \<in> {1014 ..< 1014 + 2} \<inter> bytes kdemo3_tree" by (simp add: kdemo3_tree_def)
  then have "{1014 ..< 1014 + 2} \<inter> bytes kdemo3_tree \<noteq> {}" by blast
  with kmem_free_exact[OF kdemo_reach(4) kdemo3_tr h kdemo3_state(9), of 1014 2] show ?thesis
    by (simp add: kdemo3_state kdemo_fuel)
qed

text \<open>
  C23: With \<open>kmem_fuel\<close> steps for its loops, or more, no call a client makes in a reachable state runs
  out of steps or uses a null pointer: it returns or panics.
\<close>

theorem kmem_calls_end:
  assumes "kreach s H" "kmem_fuel s \<le> f"
  shows "(0 < k \<and> (core_already_freed s \<or> k \<le> v_maxcore s) \<longrightarrow> kmem_alloc f k s \<notin> {Inl NoFuel, Inl Fault}) \<and>
    ({p ..< p + n} \<subseteq> H \<and> 0 < n \<longrightarrow>
       kmem_free f p n s \<notin> {Inl NoFuel, Inl Fault} \<and> kmem_free_intr p n s \<notin> {Inl NoFuel, Inl Fault})"
proof -
  obtain t L C where parts: "kmem_parts s H t L C" using kreach_inv[OF assms(1)] by (auto simp: kmem_inv_def)
  have f: "v_maxheader s < f" using kmem_parts_fuel(1)[OF parts] assms(2) by simp
  show ?thesis
    using kmem_alloc_spec[OF parts _ _ assms(2), of k] kmem_free_parts[OF parts _ _ f, of p n]
      free_intr_spec[OF parts, of p n]
    by (auto simp: allocated_def deferred_def)
qed

theorem kmem_calls_end_witness:
  "kmem_alloc 50 32 (kmem_init kdemo) \<notin> {Inl NoFuel, Inl Fault}"
  using kmem_calls_end[OF kdemo_reach(1), of 50 32] by (simp add: kdemo_fuel kdemo_boot)

text \<open>A call that finds nothing waiting goes to the tree at once.\<close>

lemma kmem_alloc_direct:
  assumes w: "nf_addr (need_to_free_list s) = 0" "in_table (need_to_free s) = []" and k: "0 < k" and f: "0 < f"
  shows "kmem_alloc f k s = andthen (if mweight s (free_root s) < k then morecore f k (s\<lparr>ipl := 6\<rparr>) else Inr (True, s\<lparr>ipl := 6\<rparr>))
     (\<lambda>(ok, s2). if \<not> ok then Inl (Panic ''kmem_alloc'')
      else (case free_root s2 of
              None \<Rightarrow> Inl Fault
            | Some a \<Rightarrow> andthen (andthen (alloc_search f k s2 Root a) (\<lambda>(p, a'). alloc_node f k s2 p a'))
                (\<lambda>(retblock, s3). Inr (retblock, splx (ipl s) s3))))"
proof -
  obtain g where f: "f = Suc g" using f by (cases f) auto
  have "ntf_slot True es = None" if "in_table es = []" for es using that by (induction es) (auto split: if_splits)
  then have "check_need_to_free f (s\<lparr>ipl := 6\<rparr>) = Inr (s\<lparr>ipl := 6\<rparr>)"
    using w f by (simp add: splnet_def splx_def Let_def)
  moreover have "mweight (s\<lparr>ipl := 6\<rparr>) (free_root s) = mweight s (free_root s)" by (simp add: mweight_def cong: option.case_cong)
  ultimately show ?thesis using kmem_alloc_run[OF k, of f s] by simp
qed

lemma mweight_aligned: "b mod 4 = 0 \<Longrightarrow> mweight_of b n = n"
  by (simp add: mweight_of_def)

text \<open>
  C25: A request that can be met is met: when nothing is waiting, two headers are free and every free
  block starts at a multiple of 4, \<open>kmem_alloc\<close> returns for every size up to that of some free block.
\<close>

theorem kmem_alloc_meets_request:
  assumes "kreach s H" "tr s (free_root s) t" "hdr_list s (x # y # L)" "\<forall>(b, n) \<in> set (blocks t). b mod 4 = 0"
    "nf_addr (need_to_free_list s) = 0" "in_table (need_to_free s) = []" "(b, n) \<in> set (blocks t)" "0 < k" "k \<le> n"
  shows "\<exists>a s'. kmem_alloc (kmem_fuel s) k s = Inr (a, s')"
proof -
  obtain t' L' C where parts: "kmem_parts s H t' L' C" using kreach_inv[OF assms(1)] by (auto simp: kmem_inv_def)
  then have tL: "t' = t" "L' = x # y # L"
    using tr_unique[OF _ assms(2)] hdr_list_unique[OF _ assms(3)] by (simp_all add: kmem_parts_def kmem_ok_def)
  have "ntf_chain (kmem_long s) (need_to_free_list s) C" using parts by (simp add: kmem_parts_def)
  then have C: "C = []" using assms(5) by (cases C) auto
  let ?s = "s\<lparr>ipl := 6\<rparr>"
  have p: "kmem_parts ?s H t (x # y # L) []" using parts tL C by simp
  have v: "ver t" "tr s (free_root s) t" using p assms(2) by (simp_all add: kmem_parts_def kmem_ok_def)
  obtain l i b0 n0 r where t: "t = Br l i b0 n0 r" using assms(7) by (cases t) auto
  have "mwt t = wt t" using assms(4) t mweight_aligned by simp
  then have mw: "k \<le> mwt t" using ver_block[OF v(1) assms(7)] assms(9) by simp
  have core: "core_already_freed ?s" using p t by (auto simp: kmem_parts_def split: if_splits)
  have f: "v_maxheader ?s < kmem_fuel s" "0 < kmem_fuel s" by (simp_all add: kmem_fuel_def)
  obtain i where i: "free_root s = Some i"
    "carved ?s H (x # y # L) k (andthen (alloc_search (kmem_fuel s) k ?s Root i) (\<lambda>(p, a). alloc_node (kmem_fuel s) k ?s p a))"
    (is "carved _ _ _ _ ?res") using alloc_from_tree[OF p _ core mw assms(8) f(1)] assms(6) by auto
  then obtain a s' where "?res = Inr (a, s')" by (auto simp: carved_def)
  then have "kmem_alloc (kmem_fuel s) k s = Inr (a, splx (ipl s) s')"
    using kmem_alloc_direct[OF assms(5,6,8) f(2)] tr_weight(2)[OF v(2)] mw i(1) by simp
  then show ?thesis by blast
qed

definition kdemo4 :: kmem where "kdemo4 = kres (kmem_free 48 1008 8 kdemo1) kdemo"

lemma kdemo4_view: "map_sum id kview (kmem_free 48 1008 8 kdemo1) = Inr (Some 0, Some 3, 1,
    [\<lparr>left = None, right = None, block = 1008, hsize = 8\<rparr>, \<lparr>left = Some 1, right = None, block = 0, hsize = 0\<rparr>,
     \<lparr>left = Some 2, right = None, block = 0, hsize = 0\<rparr>], 0, [], True, 1000, 32, 4, 0)"
  by code_simp

theorem kmem_alloc_meets_request_witness:
  "\<exists>a s'. kmem_alloc 48 5 kdemo4 = Inr (a, s')"
proof -
  obtain s where s: "kmem_free 48 1008 8 kdemo1 = Inr s" using kdemo4_view by (cases "kmem_free 48 1008 8 kdemo1") auto
  then have v: "kview s = (Some 0, Some 3, 1,
    [\<lparr>left = None, right = None, block = 1008, hsize = 8\<rparr>, \<lparr>left = Some 1, right = None, block = 0, hsize = 0\<rparr>,
     \<lparr>left = Some 2, right = None, block = 0, hsize = 0\<rparr>], 0, [], True, 1000, 32, 4, 0)" and k4: "kdemo4 = s"
    using kdemo4_view by (simp_all add: kdemo4_def kres_def)
  have st: "kstep (kdemo1, {1000 ..< 1032}) (s, {1000 ..< 1032} - {1008 ..< 1008 + 8})"
    by (rule step_free) (simp_all add: kdemo_fuel s)
  note r = kreach_step[OF kdemo_reach(2) st]
  obtain t L C where p: "kmem_parts s ({1000 ..< 1032} - {1008 ..< 1008 + 8}) t L C"
    using kreach_inv[OF r] by (auto simp: kmem_inv_def)
  then have "fl s (Some 3) L" using v by (simp add: kmem_parts_def kmem_ok_def hdr_list_def kview_def)
  then obtain x y L' where L: "L = x # y # L'" using v by (cases L; cases "tl L") (auto simp: kview_def)
  have tr: "tr s (free_root s) (Br Tip 0 1008 8 Tip)" and h: "hdr_list s (x # y # L')"
    using v p L by (simp_all add: kview_def kmem_parts_def kmem_ok_def)
  have "kmem_fuel s = 48" using v by (simp add: kview_def kmem_fuel_def)
  with kmem_alloc_meets_request[OF r tr h, of 1008 8 5] v show ?thesis by (simp add: kview_def k4)
qed

text \<open>
  C38: \<open>kmem_alloc\<close> looks for an aligned run only in the root before it gives up: in a reachable state
  with nothing waiting, a request for 8 bytes panics although the tree holds a free block of 8 bytes at
  a multiple of 4, below a root of the same size at an odd address.
\<close>

theorem kmem_alloc_misses_block:
  "\<exists>s H t. kreach s H \<and> tr s (free_root s) t \<and> (1012, 8) \<in> set (blocks t) \<and>
     nf_addr (need_to_free_list s) = 0 \<and> in_table (need_to_free s) = [] \<and>
     kmem_alloc (kmem_fuel s) 8 s = Inl (Panic ''kmem_alloc'')"
proof -
  have "mweight kdemo3 (free_root kdemo3) < 8"
    by (simp add: tr_weight(2)[OF kdemo3_tr] kdemo3_tree_def mweight_of_def ALIGNMORE_def)
  then have "kmem_alloc (kmem_fuel kdemo3) 8 kdemo3 = Inl (Panic ''kmem_alloc'')"
    using kmem_alloc_direct[of kdemo3 8 "kmem_fuel kdemo3"] by (simp add: kdemo3_state kdemo_fuel morecore_def)
  moreover have "(1012, 8) \<in> set (blocks kdemo3_tree)" by (simp add: kdemo3_tree_def)
  ultimately show ?thesis using kdemo_reach(4) kdemo3_tr kdemo3_state(7,8) by blast
qed

text \<open>
  \<open>kmem_free_intr\<close> returns at the level it was called at, except for a run of 8 bytes or more at an
  address that is no multiple of 4: then the processor stays at level 6.
\<close>

theorem kmem_free_intr_level:
  assumes "kreach s H" "{p ..< p + n} \<subseteq> H" "0 < n" "kmem_free_intr p n s = Inr s'"
  shows "ipl s' = (if 8 \<le> n \<and> p mod 4 \<noteq> 0 then 6 else ipl s)"
proof -
  obtain t L C where parts: "kmem_parts s H t L C" using kreach_inv[OF assms(1)] by (auto simp: kmem_inv_def)
  from free_intr_spec[OF parts assms(2,3)] assms(4) show ?thesis by (auto simp: deferred_def)
qed

theorem kmem_free_intr_level_witness:
  "\<exists>s'. kmem_free_intr 1021 9 kdemo3 = Inr s' \<and> ipl kdemo3 = 0 \<and> ipl s' = 6"
proof -
  have e: "map_sum id ipl (kmem_free_intr 1021 9 kdemo3) = Inr 6" by code_simp
  then obtain s' where s': "kmem_free_intr 1021 9 kdemo3 = Inr s'" by (cases "kmem_free_intr 1021 9 kdemo3") auto
  have "ipl s' = (if 8 \<le> (9::int) \<and> (1021::int) mod 4 \<noteq> 0 then 6 else ipl kdemo3)"
    by (rule kmem_free_intr_level[OF kdemo_reach(4) _ _ s']) auto
  with s' show ?thesis by (simp add: kdemo3_state)
qed

text \<open>A request for more than the size of the only block of the arena, which \<open>kmem_alloc\<close> does not check.\<close>

lemma alloc_node_wraps:
  assumes parts: "kmem_parts s {} (Br Tip a b m Tip) (x # L) []" and b: "b mod 4 = 0"
    and k: "m < k" "k < 4294967296" and f: "0 < f"
  shows "\<exists>s'. alloc_node f k s Root a = Inr (b, s') \<and> CoreEnd s' = CoreEnd s \<and>
     (\<exists>i. free_root s' = Some i \<and> block (hdrs s' i) = u32 (b + k) \<and> hsize (hdrs s' i) = 4294967296 + m - k)"
proof -
  have ok: "kmem_ok s (Br Tip a b m Tip) (x # L)" using parts by (simp add: kmem_parts_def)
  then have A: "free_root s = Some a" "block (hdrs s a) = b" "hsize (hdrs s a) = m" "left (hdrs s a) = None"
    "right (hdrs s a) = None" "0 < m" and d: "a \<noteq> x" "a \<notin> set L" "x \<notin> set L" "distinct L" "hdr_list s (x # L)"
    by (auto simp: kmem_ok_def)
  have "(m - k) mod 4294967296 = (m - k + 4294967296) mod 4294967296" by simp
  also have "\<dots> = 4294967296 + m - k" using k A(6) by (subst mod_pos_pos_trivial) simp_all
  finally have u: "u32 (m - k) = 4294967296 + m - k" by (simp add: u32_def)
  obtain s1 where s1: "getfreehdr s = Inr (x, s1)" "alters (set L) (lks (set L)) s s1" "env s1 = env s"
    using getfreehdr_some[OF d(5)] d by auto
  define s2 where "s2 = set_hook Root (Some x) (upd_hdr x (\<lambda>X. X\<lparr>block := u32 (b + k), hsize := 4294967296 + m - k,
     left := None, right := None\<rparr>) s1)"
  have x2: "get_hook s2 Root = Some x" "left (hdrs s2 x) = None" "right (hdrs s2 x) = None"
    "block (hdrs s2 x) = u32 (b + k)" "hsize (hdrs s2 x) = 4294967296 + m - k"
    by (simp_all add: s2_def)
  obtain s' where s': "demote f Root s2 = Inr s'" "tr s' (get_hook s' Root) (demote_t x (u32 (b + k)) (4294967296 + m - k) Tip Tip)"
    "relinks (insert Root (links Tip \<union> links Tip \<union> lks {x})) s2 s'"
    using demote_spec[OF x2(1), of Tip Tip f] x2 k A(6) f by auto
  have t: "tr s' (free_root s') (Br Tip x (u32 (b + k)) (4294967296 + m - k) Tip)"
    using s'(2) k A(6) by (subst (asm) demote_t.simps) simp
  have "alloc_node f k s Root a = Inr (b, freehdr a s')"
    using A u s1(1) s'(1) b k by (simp add: alloc_node_def Let_def s2_def)
  moreover have "CoreEnd (freehdr a s') = CoreEnd s"
    using env_other[of "freehdr a s'" s'] env_other[of s' s2] s'(3) env_other[OF s1(3)]
    by (simp add: relinks_def s2_def freehdr_def upd_hdr_def set_hook.simps)
  moreover have "free_root (freehdr a s') = free_root s'" "hdrs (freehdr a s') x = hdrs s' x"
    using d(1) by (simp_all add: freehdr_def upd_hdr_def)
  ultimately show ?thesis using t by auto
qed

text \<open>
  \<open>morecore\<close> answers true whatever the size of the arena: when the first request asks for more
  than the arena's \<open>v_maxcore\<close> bytes, \<open>kmem_alloc\<close> returns the start of the arena as if k bytes were
  there, and the free tree then holds a block behind the arena whose size has wrapped around.
\<close>

theorem kmem_alloc_oversized:
  assumes "kmem_boot s" "0 < v_maxcore s" "v_maxcore s < k" "k < 4294967296" "2 \<le> v_maxheader s"
  shows "\<exists>s' i. kmem_alloc (kmem_fuel s) k (kmem_init s) = Inr (CoreBegin s, s') \<and>
     CoreEnd s' = CoreBegin s + v_maxcore s \<and> free_root s' = Some i \<and>
     block (hdrs s' i) = u32 (CoreBegin s + k) \<and> hsize (hdrs s' i) = 4294967296 + v_maxcore s - k"
proof -
  let ?s = "(kmem_init s)\<lparr>ipl := 6\<rparr>"
  have p: "kmem_parts ?s {} Tip (0 # rev [1 ..< v_maxheader s]) []" using kmem_init_parts[OF assms(1)] by simp
  have cfg: "kmem_cfg s" using assms(1) by (simp add: kmem_boot_def)
  have core: "\<not> core_already_freed ?s" "v_maxcore ?s = v_maxcore s" "v_maxheader ?s = v_maxheader s" "CoreBegin ?s = CoreBegin s"
    using assms(1) by (simp_all add: kmem_boot_def kmem_init_def CoreBegin_def)
  have f: "v_maxheader ?s < kmem_fuel s" "0 < kmem_fuel s" using core by (simp_all add: kmem_fuel_def)
  obtain s2 t2 L2 where s2: "morecore (kmem_fuel s) k ?s = Inr (True, s2)" "kmem_parts s2 {} t2 L2 []"
    "in_table (need_to_free s2) = []" "same_cfg ?s s2" "core_already_freed s2"
    "mset (ids t2 @ L2) = mset (0 # rev [1 ..< v_maxheader s])"
    using morecore_spec[OF p core(1) _ f(1), of k] assms(2) core(2) by auto
  have cb: "CoreBegin s2 = CoreBegin s" "v_maxcore s2 = v_maxcore s"
    using s2(4) core by (simp_all add: same_cfg_def CoreBegin_def)
  then have e: "CoreEnd s2 = CoreBegin s + v_maxcore s" using s2(2,5) by (simp add: kmem_parts_def)
  have "hor (CoreBegin s) (CoreBegin s + v_maxcore s) t2" "bytes t2 = {CoreBegin s ..< CoreBegin s + v_maxcore s}"
    using s2(2,3,5) cb e kmem_parts_arena[OF s2(2,5)] by (simp_all add: kmem_parts_def kmem_ok_def)
  from one_block[OF this] assms(2) obtain a where t2: "t2 = Br Tip a (CoreBegin s) (v_maxcore s) Tip" by auto
  have "Suc (length L2) = v_maxheader s" using arg_cong[OF s2(6), of size] t2 assms(5) by simp
  then obtain x L where L2: "L2 = x # L" using assms(5) by (cases L2) auto
  obtain s' i where s': "alloc_node (kmem_fuel s) k s2 Root a = Inr (CoreBegin s, s')" "CoreEnd s' = CoreEnd s2"
    "free_root s' = Some i" "block (hdrs s' i) = u32 (CoreBegin s + k)" "hsize (hdrs s' i) = 4294967296 + v_maxcore s - k"
    using alloc_node_wraps[OF s2(2)[unfolded t2 L2] CoreBegin_aligned(3)[OF cfg] assms(3,4) f(2)] by auto
  have root: "free_root s2 = Some a" "left (hdrs s2 a) = None" "right (hdrs s2 a) = None"
    using s2(2) t2 by (simp_all add: kmem_parts_def kmem_ok_def)
  obtain g where g: "kmem_fuel s = Suc g" using f(2) by (cases "kmem_fuel s") auto
  have "alloc_search (kmem_fuel s) k s2 Root a = Inr (Root, a)"
    using root assms(2,3) by (simp add: g mweight_def)
  moreover have "kmem_alloc (kmem_fuel s) k (kmem_init s) = andthen (morecore (kmem_fuel s) k ?s)
     (\<lambda>(ok, s2). if \<not> ok then Inl (Panic ''kmem_alloc'')
      else (case free_root s2 of
              None \<Rightarrow> Inl Fault
            | Some a \<Rightarrow> andthen (andthen (alloc_search (kmem_fuel s) k s2 Root a) (\<lambda>(p, a'). alloc_node (kmem_fuel s) k s2 p a'))
                (\<lambda>(retblock, s3). Inr (retblock, splx (ipl (kmem_init s)) s3))))"
  proof -
    have "nf_addr (need_to_free_list (kmem_init s)) = 0" "in_table (need_to_free (kmem_init s)) = []"
      "mweight (kmem_init s) (free_root (kmem_init s)) < k"
      using assms(1-3) in_table_cleared by (simp_all add: kmem_boot_def kmem_init_def mweight_def)
    then show ?thesis using kmem_alloc_direct[of "kmem_init s" k "kmem_fuel s"] assms(2,3) f(2) by simp
  qed
  ultimately have "kmem_alloc (kmem_fuel s) k (kmem_init s) = Inr (CoreBegin s, splx (ipl (kmem_init s)) s')"
    using s2(1) root(1) s'(1) by simp
  moreover have "CoreEnd (splx l s') = CoreEnd s'" "free_root (splx l s') = free_root s'" "hdrs (splx l s') = hdrs s'" for l
    by (simp_all add: splx_def)
  ultimately show ?thesis using s' e by auto
qed

theorem kmem_alloc_oversized_witness:
  "\<exists>s'. kmem_alloc 48 100 (kmem_init kdemo) = Inr (1000, s') \<and> CoreEnd s' = 1032"
proof -
  have v: "v_maxcore kdemo = 32" "v_maxheader kdemo = 4" "CoreBegin kdemo = 1000" "kmem_fuel kdemo = 48"
    by (simp_all add: kdemo_def CoreBegin_def and_not_3 u32_def kmem_fuel_def)
  show ?thesis using kmem_alloc_oversized[OF kdemo_boot(1), of 100] unfolding v by auto
qed

end
