(* ===== verification/Dnlc.thy ===== *)
theory Dnlc
  imports Prelude
begin

text \<open>
  The directory name lookup cache of COMMON/os/vfs_dnlc.c and include/sys/dnlc.h, with the queue
  routines and the byte comparison of PAGING/os/syslocal.c, the reference counts of vnodes
  (include/sys/vnode.h, COMMON/os/vfs_vnode.c) and of credentials (include/sys/user.h,
  PAGING/os/syslocal.c) that it keeps. The links of the hash chains and of the LRU list are
  rewritten in place. The code casts the heads \<open>&nc_hash[h]\<close> and \<open>&nc_lru\<close> to
  \<open>struct ncache *\<close>: an \<open>nptr\<close> names an entry or a head, and the memory gives each a
  \<open>struct ncache\<close> of which a head uses its links only. Vnodes and credentials are addresses, 0 is
  the null pointer. \<open>VN_RELE\<close> and therefore \<open>dnlc_enter\<close> and \<open>dnlc_rm\<close> may sleep:
  these two are composed of the stretches between the sleeps, so that Dnlc_Reach can interleave them.
\<close>

section \<open>Data\<close>

abbreviation (input) NC_SIZE :: nat where "NC_SIZE \<equiv> 32"
abbreviation (input) NC_HASH_SIZE :: nat where "NC_HASH_SIZE \<equiv> 8"
abbreviation (input) NC_NAMLEN :: nat where "NC_NAMLEN \<equiv> 15"
abbreviation (input) ANYCRED :: int where "ANYCRED \<equiv> - 1"
abbreviation (input) NOCRED :: int where "NOCRED \<equiv> 0"

datatype nptr = NcNull | NcEnt nat | NcHash nat | NcLru

record ncache =
  hash_next :: nptr
  hash_prev :: nptr
  lru_next :: nptr
  lru_prev :: nptr
  nc_vp :: int
  nc_dp :: int
  nc_namlen :: int
  nc_name :: string
  nc_cred :: int

record ncstats =
  hits :: int
  misses :: int
  long_enter :: int
  long_look :: int
  lru_empty :: int
  purges :: int

text \<open>
  The statics of the file, the counts \<open>v_count\<close> and \<open>cr_ref\<close> (unsigned shorts), the free list of
  credentials, and the vnodes given to \<open>VOP_INACTIVE\<close>, in order: the file system behind a vnode is
  reached through its operation table.
\<close>

record ncst =
  nc_mem :: "nptr \<Rightarrow> ncache"
  nc_stats :: ncstats
  doingcache :: int
  v_count :: "int \<Rightarrow> int"
  inactive :: "int list"
  cr_ref :: "int \<Rightarrow> int"
  crfreelist :: "int list"
  cractive :: int

definition upd_nc :: "nptr \<Rightarrow> (ncache \<Rightarrow> ncache) \<Rightarrow> ncst \<Rightarrow> ncst" where
  "upd_nc p f s = s\<lparr>nc_mem := (nc_mem s)(p := f (nc_mem s p))\<rparr>"

definition upd_stats :: "(ncstats \<Rightarrow> ncstats) \<Rightarrow> ncst \<Rightarrow> ncst" where
  "upd_stats f s = s\<lparr>nc_stats := f (nc_stats s)\<rparr>"

section \<open>Counts of references\<close>

definition VN_HOLD :: "int \<Rightarrow> ncst \<Rightarrow> ncst" where
  "VN_HOLD v s = s\<lparr>v_count := (v_count s)(v := u16 (v_count s v + 1))\<rparr>"

definition vn_rele :: "int \<Rightarrow> ncst \<Rightarrow> kerr + ncst" where
  "vn_rele v s =
     (if v_count s v = 0 then Inl (Panic ''vn_rele'')
      else let n = u16 (v_count s v - 1); s1 = s\<lparr>v_count := (v_count s)(v := n)\<rparr>
           in Inr (if n = 0 then s1\<lparr>inactive := inactive s1 @ [v]\<rparr> else s1))"

definition crhold :: "int \<Rightarrow> ncst \<Rightarrow> ncst" where
  "crhold c s = s\<lparr>cr_ref := (cr_ref s)(c := u16 (cr_ref s c + 1))\<rparr>"

text \<open>
  The link \<open>cl_next\<close> of the free list lies over the start of the structure, so it overwrites
  \<open>cr_ref\<close> with the upper half of an address.
\<close>

definition crfree :: "int \<Rightarrow> ncst \<Rightarrow> ncst" where
  "crfree c s =
     (let n = u16 (cr_ref s c - 1); s1 = s\<lparr>cr_ref := (cr_ref s)(c := n)\<rparr>
      in if n \<noteq> 0 then s1
         else let nxt = (case crfreelist s1 of [] \<Rightarrow> 0 | x # _ \<Rightarrow> x)
              in s1\<lparr>cr_ref := (cr_ref s1)(c := u16 (nxt div 2 ^ 16)),
                   crfreelist := c # crfreelist s1,
                   cractive := i32 (cractive s1 - 1)\<rparr>)"

section \<open>Queues\<close>

definition insque :: "nptr \<Rightarrow> nptr \<Rightarrow> ncst \<Rightarrow> ncst" where
  "insque elem prev s =
     (let s1 = upd_nc elem (hash_next_update (\<lambda>_. hash_next (nc_mem s prev))) s;
          s2 = upd_nc elem (hash_prev_update (\<lambda>_. prev)) s1;
          f = hash_next (nc_mem s2 prev);
          s3 = (if f \<noteq> NcNull then upd_nc f (hash_prev_update (\<lambda>_. elem)) s2 else s2)
      in upd_nc prev (hash_next_update (\<lambda>_. elem)) s3)"

definition remque :: "nptr \<Rightarrow> ncst \<Rightarrow> kerr + ncst" where
  "remque elem s =
     (let b = hash_prev (nc_mem s elem) in
      if b = NcNull then Inl Fault
      else let s1 = upd_nc b (hash_next_update (\<lambda>_. hash_next (nc_mem s elem))) s;
               f = hash_next (nc_mem s1 elem)
           in Inr (if f \<noteq> NcNull
                   then upd_nc f (hash_prev_update (\<lambda>_. hash_prev (nc_mem s1 elem))) s1 else s1))"

definition insque2 :: "nptr \<Rightarrow> nptr \<Rightarrow> ncst \<Rightarrow> kerr + ncst" where
  "insque2 ncp2 ncp1 s =
     (let ncp3 = lru_next (nc_mem s ncp1);
          s1 = upd_nc ncp1 (lru_next_update (\<lambda>_. ncp2)) s;
          s2 = upd_nc ncp2 (lru_next_update (\<lambda>_. ncp3)) s1
      in if ncp3 = NcNull then Inl Fault
         else Inr (upd_nc ncp2 (lru_prev_update (\<lambda>_. ncp1))
                     (upd_nc ncp3 (lru_prev_update (\<lambda>_. ncp2)) s2)))"

definition remque2 :: "nptr \<Rightarrow> ncst \<Rightarrow> kerr + ncst" where
  "remque2 ncp s =
     (let b = lru_prev (nc_mem s ncp) in
      if b = NcNull then Inl Fault
      else let s1 = upd_nc b (lru_next_update (\<lambda>_. lru_next (nc_mem s ncp))) s;
               f = lru_next (nc_mem s1 ncp)
           in if f = NcNull then Inl Fault
              else Inr (upd_nc f (lru_prev_update (\<lambda>_. lru_prev (nc_mem s1 ncp))) s1))"

definition NULL_HASH :: "nptr \<Rightarrow> ncst \<Rightarrow> ncst" where
  "NULL_HASH ncp s = upd_nc ncp (\<lambda>e. e\<lparr>hash_next := ncp, hash_prev := ncp\<rparr>) s"

text \<open>
  \<open>bcmp\<close>: the count is tested after the comparison, so with the count 0 it wraps and the comparison
  runs on, up to \<open>2 ^ 32\<close> bytes. The lists are what may be read at the two addresses.
\<close>

fun bcmp_loop :: "string \<Rightarrow> string \<Rightarrow> nat \<Rightarrow> kerr + nat" where
  "bcmp_loop (a # s1) (b # s2) n =
     (if a \<noteq> b then Inr n else if n - 1 = 0 then Inr 0 else bcmp_loop s1 s2 (n - 1))"
| "bcmp_loop [] s2 n = Inl Fault"
| "bcmp_loop s1 [] n = Inl Fault"

definition bcmp :: "string \<Rightarrow> string \<Rightarrow> nat \<Rightarrow> kerr + nat" where
  "bcmp s1 s2 n =
     andthen (bcmp_loop s1 s2 (if n = 0 then 2 ^ 32 else n)) (\<lambda>r. Inr (r mod 2 ^ 32))"

section \<open>Search\<close>

text \<open>A name is the characters before its NUL; the hash of an empty name reads the byte before it.\<close>

definition NC_HASH :: "string \<Rightarrow> nat \<Rightarrow> int \<Rightarrow> kerr + nat" where
  "NC_HASH name namlen vp =
     (if namlen = 0 then Inl Fault
      else Inr (nat ((of_char (name ! 0) + of_char (name ! (namlen - 1)) + int namlen + vp)
                     mod int NC_HASH_SIZE)))"

primrec search_loop ::
    "nat \<Rightarrow> ncst \<Rightarrow> int \<Rightarrow> string \<Rightarrow> nat \<Rightarrow> int \<Rightarrow> nptr \<Rightarrow> nptr \<Rightarrow> kerr + nptr option" where
  "search_loop 0 s dp name namlen cred nhp ncp = Inl NoFuel"
| "search_loop (Suc f) s dp name namlen cred nhp ncp =
     (if ncp = nhp then Inr None
      else if ncp = NcNull then Inl Fault
      else let e = nc_mem s ncp in
        if nc_dp e = dp \<and> nc_namlen e = int namlen \<and> (cred = ANYCRED \<or> nc_cred e = cred)
        then andthen (bcmp (nc_name e) (name @ [CHR 0x00]) namlen) (\<lambda>r.
               if r = 0 then Inr (Some ncp)
               else search_loop f s dp name namlen cred nhp (hash_next e))
        else search_loop f s dp name namlen cred nhp (hash_next e))"

text \<open>A chain has at most \<open>NC_SIZE\<close> entries, so \<open>NC_SIZE + 1\<close> steps reach its end.\<close>

definition dnlc_search ::
    "ncst \<Rightarrow> int \<Rightarrow> string \<Rightarrow> nat \<Rightarrow> nat \<Rightarrow> int \<Rightarrow> kerr + nptr option" where
  "dnlc_search s dp name namlen hash cred =
     search_loop (NC_SIZE + 1) s dp name namlen cred (NcHash hash) (hash_next (nc_mem s (NcHash hash)))"

section \<open>Initialisation\<close>

primrec init_entries :: "nat list \<Rightarrow> ncst \<Rightarrow> kerr + ncst" where
  "init_entries [] s = Inr s"
| "init_entries (i # is) s =
     andthen (insque2 (NcEnt i) NcLru s) (\<lambda>s1.
       init_entries is (upd_nc (NcEnt i) (\<lambda>e. e\<lparr>nc_dp := 0, nc_vp := 0\<rparr>) (NULL_HASH (NcEnt i) s1)))"

definition dnlc_init :: "ncst \<Rightarrow> kerr + ncst" where
  "dnlc_init s =
     andthen (init_entries [0 ..< NC_SIZE]
               (upd_nc NcLru (\<lambda>e. e\<lparr>lru_next := NcLru, lru_prev := NcLru\<rparr>) s)) (\<lambda>s1.
     Inr (fold (\<lambda>i. NULL_HASH (NcHash i)) [0 ..< NC_HASH_SIZE] s1))"

section \<open>dnlc_enter\<close>

text \<open>Up to the first sleep: the entry taken off both lists, with its hash.\<close>

definition enter_take ::
    "int \<Rightarrow> string \<Rightarrow> int \<Rightarrow> ncst \<Rightarrow> kerr + ncst \<times> (nptr \<times> nat) option" where
  "enter_take dp name cred s =
     (if doingcache s = 0 then Inr (s, None)
      else let namlen = length name in
      if namlen > NC_NAMLEN
      then Inr (upd_stats (long_enter_update (\<lambda>n. i32 (n + 1))) s, None)
      else andthen (NC_HASH name namlen dp) (\<lambda>hash.
           andthen (dnlc_search s dp name namlen hash cred) (\<lambda>r.
           if r \<noteq> None then Inr (s, None)
           else let ncp = lru_next (nc_mem s NcLru) in
             if ncp = NcLru
             then Inr (upd_stats (lru_empty_update (\<lambda>n. i32 (n + 1))) s, None)
             else andthen (remque2 ncp s) (\<lambda>s1.
                  andthen (remque ncp s1) (\<lambda>s2.
                  Inr (s2, Some (ncp, hash)))))))"

definition rele_dp :: "nptr \<Rightarrow> ncst \<Rightarrow> kerr + ncst" where
  "rele_dp ncp s = (if nc_dp (nc_mem s ncp) \<noteq> 0 then vn_rele (nc_dp (nc_mem s ncp)) s else Inr s)"

definition rele_vp :: "nptr \<Rightarrow> ncst \<Rightarrow> kerr + ncst" where
  "rele_vp ncp s = (if nc_vp (nc_mem s ncp) \<noteq> 0 then vn_rele (nc_vp (nc_mem s ncp)) s else Inr s)"

definition enter_fill ::
    "nptr \<Rightarrow> nat \<Rightarrow> int \<Rightarrow> string \<Rightarrow> int \<Rightarrow> int \<Rightarrow> ncst \<Rightarrow> kerr + ncst" where
  "enter_fill ncp hash dp name vp cred s =
     (let namlen = length name;
          s1 = VN_HOLD dp (upd_nc ncp (nc_dp_update (\<lambda>_. dp)) s);
          s2 = VN_HOLD vp (upd_nc ncp (nc_vp_update (\<lambda>_. vp)) s1);
          s3 = upd_nc ncp (\<lambda>e. e\<lparr>nc_namlen := int namlen, nc_name := name @ drop namlen (nc_name e)\<rparr>) s2;
          s4 = upd_nc ncp (nc_cred_update (\<lambda>_. cred)) s3;
          s5 = (if cred \<noteq> NOCRED then crhold cred s4 else s4)
      in andthen (insque2 ncp (lru_prev (nc_mem s5 NcLru)) s5) (\<lambda>s6.
         Inr (insque ncp (NcHash hash) s6)))"

definition dnlc_enter :: "int \<Rightarrow> string \<Rightarrow> int \<Rightarrow> int \<Rightarrow> ncst \<Rightarrow> kerr + ncst" where
  "dnlc_enter dp name vp cred s =
     andthen (enter_take dp name cred s) (\<lambda>(s1, r).
       case r of
         None \<Rightarrow> Inr s1
       | Some (ncp, hash) \<Rightarrow>
           andthen (rele_dp ncp s1) (\<lambda>s2.
           andthen (rele_vp ncp s2) (\<lambda>s3.
           enter_fill ncp hash dp name vp cred s3)))"

section \<open>dnlc_lookup\<close>

text \<open>Move an entry one place towards the head of its chain.\<close>

definition move_forward :: "nptr \<Rightarrow> nat \<Rightarrow> ncst \<Rightarrow> kerr + ncst" where
  "move_forward ncp hash s =
     (let b = hash_prev (nc_mem s ncp) in
      if b \<noteq> NcHash hash
      then if b = NcNull then Inl Fault
           else let prev = hash_prev (nc_mem s b)
                in andthen (remque ncp s) (\<lambda>s1. Inr (insque ncp prev s1))
      else Inr s)"

definition dnlc_lookup :: "int \<Rightarrow> string \<Rightarrow> int \<Rightarrow> ncst \<Rightarrow> kerr + int \<times> ncst" where
  "dnlc_lookup dp name cred s =
     (if doingcache s = 0 then Inr (0, s)
      else let namlen = length name in
      if namlen > NC_NAMLEN
      then Inr (0, upd_stats (long_look_update (\<lambda>n. i32 (n + 1))) s)
      else andthen (NC_HASH name namlen dp) (\<lambda>hash.
           andthen (dnlc_search s dp name namlen hash cred) (\<lambda>r.
           case r of
             None \<Rightarrow> Inr (0, upd_stats (misses_update (\<lambda>n. i32 (n + 1))) s)
           | Some ncp \<Rightarrow>
               let s1 = upd_stats (hits_update (\<lambda>n. i32 (n + 1))) s in
               andthen (remque2 ncp s1) (\<lambda>s2.
               andthen (insque2 ncp (lru_prev (nc_mem s2 NcLru)) s2) (\<lambda>s3.
               andthen (move_forward ncp hash s3) (\<lambda>s4.
               Inr (nc_vp (nc_mem s4 ncp), s4)))))))"

section \<open>dnlc_rm, dnlc_remove and dnlc_purge\<close>

definition rm_take :: "nptr \<Rightarrow> ncst \<Rightarrow> kerr + ncst" where
  "rm_take ncp s = andthen (remque2 ncp s) (\<lambda>s1. remque ncp s1)"

definition rm_rele_dp :: "nptr \<Rightarrow> ncst \<Rightarrow> kerr + ncst" where
  "rm_rele_dp ncp s = vn_rele (nc_dp (nc_mem s ncp)) s"

definition rm_rele_vp :: "nptr \<Rightarrow> ncst \<Rightarrow> kerr + ncst" where
  "rm_rele_vp ncp s =
     (let s1 = upd_nc ncp (nc_dp_update (\<lambda>_. 0)) s in vn_rele (nc_vp (nc_mem s1 ncp)) s1)"

text \<open>After the last sleep.\<close>

definition rm_put :: "nptr \<Rightarrow> ncst \<Rightarrow> kerr + ncst" where
  "rm_put ncp s =
     (let s1 = upd_nc ncp (nc_vp_update (\<lambda>_. 0)) s;
          c = nc_cred (nc_mem s1 ncp);
          s2 = (if c \<noteq> NOCRED then upd_nc ncp (nc_cred_update (\<lambda>_. NOCRED)) (crfree c s1) else s1)
      in andthen (insque2 ncp NcLru s2) (\<lambda>s3. Inr (NULL_HASH ncp s3)))"

definition dnlc_rm :: "nptr \<Rightarrow> ncst \<Rightarrow> kerr + ncst" where
  "dnlc_rm ncp s =
     andthen (rm_take ncp s) (\<lambda>s1.
     andthen (rm_rele_dp ncp s1) (\<lambda>s2.
     andthen (rm_rele_vp ncp s2) (\<lambda>s3.
     rm_put ncp s3)))"

primrec remove_loop :: "nat \<Rightarrow> int \<Rightarrow> string \<Rightarrow> nat \<Rightarrow> nat \<Rightarrow> ncst \<Rightarrow> kerr + ncst" where
  "remove_loop 0 dp name namlen hash s = Inl NoFuel"
| "remove_loop (Suc f) dp name namlen hash s =
     andthen (dnlc_search s dp name namlen hash ANYCRED) (\<lambda>r.
       case r of
         None \<Rightarrow> Inr s
       | Some ncp \<Rightarrow> andthen (dnlc_rm ncp s) (remove_loop f dp name namlen hash))"

definition dnlc_remove :: "nat \<Rightarrow> int \<Rightarrow> string \<Rightarrow> ncst \<Rightarrow> kerr + ncst" where
  "dnlc_remove f dp name s =
     (let namlen = length name in
      if namlen > NC_NAMLEN then Inr s
      else andthen (NC_HASH name namlen dp) (\<lambda>hash. remove_loop f dp name namlen hash s))"

text \<open>The scan for the first nonempty chain; each removal starts it again.\<close>

primrec purge_find :: "ncst \<Rightarrow> nat list \<Rightarrow> nptr option" where
  "purge_find s [] = None"
| "purge_find s (h # hs) =
     (let ncp = hash_next (nc_mem s (NcHash h)) in
      if ncp \<noteq> NcHash h then Some ncp else purge_find s hs)"

primrec purge_loop :: "nat \<Rightarrow> ncst \<Rightarrow> kerr + ncst" where
  "purge_loop 0 s = Inl NoFuel"
| "purge_loop (Suc f) s =
     (case purge_find s [0 ..< NC_HASH_SIZE] of
        None \<Rightarrow> Inr s
      | Some ncp \<Rightarrow>
          if ncp = NcNull then Inl Fault
          else if nc_dp (nc_mem s ncp) = 0 \<or> nc_vp (nc_mem s ncp) = 0
          then Inl (Panic ''dnlc_purge: zero vp'')
          else andthen (dnlc_rm ncp s) (purge_loop f))"

definition dnlc_purge :: "nat \<Rightarrow> ncst \<Rightarrow> kerr + ncst" where
  "dnlc_purge f s = purge_loop f (upd_stats (purges_update (\<lambda>n. i32 (n + 1))) s)"

end
