(* ===== verification/Dnlc_Ring.thy ===== *)
theory Dnlc_Ring
  imports Dnlc
begin

text \<open>
  Circular doubly linked lists. \<open>ring nx pv a xs\<close> says that the forward links \<open>nx\<close> lead from the
  head \<open>a\<close> through \<open>xs\<close> back to \<open>a\<close> and that the backward links \<open>pv\<close> are their converse.
  Insertion and removal are stated for any link functions that changed at the right places, and then
  instantiated for the two pairs of links the cache keeps.
\<close>

section \<open>Rings\<close>

fun chain :: "('p \<Rightarrow> 'p) \<Rightarrow> ('p \<Rightarrow> 'p) \<Rightarrow> 'p \<Rightarrow> 'p list \<Rightarrow> 'p \<Rightarrow> bool" where
  "chain nx pv p [] q = (nx p = q \<and> pv q = p)"
| "chain nx pv p (x # xs) q = (nx p = x \<and> pv x = p \<and> chain nx pv x xs q)"

definition ring :: "('p \<Rightarrow> 'p) \<Rightarrow> ('p \<Rightarrow> 'p) \<Rightarrow> 'p \<Rightarrow> 'p list \<Rightarrow> bool" where
  "ring nx pv a xs = (distinct (a # xs) \<and> chain nx pv a xs a)"

lemma chain_append: "chain nx pv p (xs @ y # ys) q = (chain nx pv p xs y \<and> chain nx pv y ys q)"
  by (induction xs arbitrary: p) auto

lemma chain_next: "chain nx pv p xs q \<Longrightarrow> nx p = hd (xs @ [q])"
  by (cases xs) auto

lemma chain_prev: "chain nx pv p xs q \<Longrightarrow> pv q = last (p # xs)"
  by (induction xs arbitrary: p) auto

lemma dchain_cong:
  assumes "chain nx pv p xs q" "\<And>x. x \<in> set (p # xs) \<Longrightarrow> nx' x = nx x"
    "\<And>x. x \<in> set (xs @ [q]) \<Longrightarrow> pv' x = pv x"
  shows "chain nx' pv' p xs q"
  using assms by (induction xs arbitrary: p) auto

text \<open>Redirecting the last link of a chain.\<close>

lemma chain_last:
  assumes "chain nx pv p xs q" "q \<notin> set xs" "distinct (p # xs)" "nx' (last (p # xs)) = q'" "pv' q' = last (p # xs)"
    "\<And>x. x \<in> set (p # xs) \<Longrightarrow> x \<noteq> last (p # xs) \<Longrightarrow> nx' x = nx x"
    "\<And>x. x \<in> set xs \<Longrightarrow> pv' x = pv x"
  shows "chain nx' pv' p xs q'"
  using assms
proof (induction xs arbitrary: p)
  case (Cons x xs)
  have "p \<noteq> last (x # xs)" using Cons.prems(3) by auto
  then show ?case using Cons.IH[of x] Cons.prems by auto
qed auto

text \<open>Redirecting its first link.\<close>

lemma chain_first:
  assumes "chain nx pv p xs q" "distinct (xs @ [q])" "p \<notin> set xs" "nx' p' = hd (xs @ [q])" "pv' (hd (xs @ [q])) = p'"
    "\<And>x. x \<in> set xs \<Longrightarrow> nx' x = nx x"
    "\<And>x. x \<in> set (xs @ [q]) \<Longrightarrow> x \<noteq> hd (xs @ [q]) \<Longrightarrow> pv' x = pv x"
  shows "chain nx' pv' p' xs q"
proof (cases xs)
  case Nil
  then show ?thesis using assms by auto
next
  case (Cons x ys)
  have "chain nx' pv' x ys q"
    by (rule dchain_cong[of nx pv]) (use assms Cons in auto)
  then show ?thesis using assms Cons by auto
qed

lemma ring_distinct: "ring nx pv a xs \<Longrightarrow> distinct xs \<and> a \<notin> set xs"
  by (simp add: ring_def)

lemma ring_next: "ring nx pv a xs \<Longrightarrow> nx a = hd (xs @ [a])"
  using chain_next[of nx pv a xs a] by (simp add: ring_def)

lemma ring_prev: "ring nx pv a xs \<Longrightarrow> pv a = last (a # xs)"
  using chain_prev[of nx pv a xs a] by (simp add: ring_def)

lemma ring_at:
  assumes "ring nx pv a (xs @ e # ys)"
  shows "nx e = hd (ys @ [a])" "pv e = last (a # xs)"
  using assms by (auto simp: ring_def chain_append dest: chain_next chain_prev)

lemma ring_cong:
  assumes "ring nx pv a xs" "\<And>x. x \<in> set (a # xs) \<Longrightarrow> nx' x = nx x \<and> pv' x = pv x"
  shows "ring nx' pv' a xs"
  using assms unfolding ring_def by (auto intro: dchain_cong[of nx pv])

lemma last_in: "last (a # xs) \<in> set (a # xs)"
  by (rule last_in_set) simp

lemma hd_in: "hd (ys @ [a]) \<in> set (a # ys)"
  by (cases ys) auto

lemma ring_insert:
  assumes R: "ring nx pv a (xs @ ys)" and e: "e \<notin> set (a # xs @ ys)"
    and p: "p = last (a # xs)" and n: "n = nx p"
    and nx': "nx' p = e" "nx' e = n" "\<And>x. x \<in> set (a # xs @ ys) \<Longrightarrow> x \<noteq> p \<Longrightarrow> nx' x = nx x"
    and pv': "pv' n = e" "pv' e = p" "\<And>x. x \<in> set (a # xs @ ys) \<Longrightarrow> x \<noteq> n \<Longrightarrow> pv' x = pv x"
  shows "ring nx' pv' a (xs @ e # ys)"
proof -
  have d: "distinct (a # xs @ ys)" using R by (simp add: ring_def)
  have pin: "p \<in> set (a # xs)" unfolding p by (rule last_in)
  have c2: "n = hd (ys @ [a])"
  proof (cases xs rule: rev_cases)
    case Nil
    then show ?thesis using R p n by (simp add: ring_next)
  next
    case (snoc zs z)
    then show ?thesis using R p n ring_at(1)[of nx pv a zs z ys] by simp
  qed
  have nin: "n \<in> set (a # ys)" unfolding c2 by (rule hd_in)
  have A: "chain nx' pv' a xs e"
  proof (cases ys)
    case Nil
    then have "chain nx pv a xs a" using R by (simp add: ring_def)
    then show ?thesis by (rule chain_last) (use d p nx' pv' c2 Nil in auto)
  next
    case (Cons y zs)
    then have "chain nx pv a xs y" using R by (simp add: ring_def chain_append)
    then show ?thesis by (rule chain_last) (use d p nx' pv' c2 Cons in auto)
  qed
  have B: "chain nx' pv' e ys a"
  proof (cases xs rule: rev_cases)
    case Nil
    then have "chain nx pv a ys a" using R by (simp add: ring_def)
    then show ?thesis by (rule chain_first) (use d p nx' pv' c2 Nil in auto)
  next
    case (snoc zs z)
    then have "chain nx pv z ys a" using R by (simp add: ring_def chain_append)
    then show ?thesis by (rule chain_first) (use d p nx' pv' c2 snoc in auto)
  qed
  show ?thesis using A B d e by (auto simp: ring_def chain_append)
qed

lemma ring_delete:
  assumes R: "ring nx pv a (xs @ e # ys)"
    and nx': "nx' (pv e) = nx e" "\<And>x. x \<in> set (a # xs @ ys) \<Longrightarrow> x \<noteq> pv e \<Longrightarrow> nx' x = nx x"
    and pv': "pv' (nx e) = pv e" "\<And>x. x \<in> set (a # xs @ ys) \<Longrightarrow> x \<noteq> nx e \<Longrightarrow> pv' x = pv x"
  shows "ring nx' pv' a (xs @ ys)"
proof -
  have d: "distinct (a # xs @ e # ys)" using R by (simp add: ring_def)
  note at = ring_at[OF R]
  have A: "chain nx pv a xs e" and B: "chain nx pv e ys a" using R by (simp_all add: ring_def chain_append)
  have "chain nx' pv' a (xs @ ys) a"
  proof (cases ys)
    case Nil
    have "chain nx' pv' a xs a"
      by (rule chain_last[OF A]) (use d nx' pv' at Nil in auto)
    then show ?thesis using Nil by simp
  next
    case (Cons y zs)
    have "chain nx' pv' a xs y"
      by (rule chain_last[OF A]) (use d nx' pv' at Cons in auto)
    moreover have "chain nx' pv' y zs a"
    proof (rule dchain_cong)
      show "chain nx pv y zs a" using B Cons by simp
      show "nx' x = nx x" if "x \<in> set (y # zs)" for x
      proof (rule nx'(2))
        show "x \<noteq> pv e" using that at(2) last_in[of a xs] d Cons by auto
      qed (use that Cons in auto)
      show "pv' x = pv x" if "x \<in> set (zs @ [a])" for x
      proof (rule pv'(2))
        show "x \<noteq> nx e" using that at(1) d Cons by auto
      qed (use that Cons in auto)
    qed
    ultimately show ?thesis using Cons by (simp add: chain_append)
  qed
  then show ?thesis using d by (simp add: ring_def)
qed

end
