(* ===== verification/Dnlc_Inv.thy ===== *)
theory Dnlc_Inv
  imports Dnlc_Ring
begin

text \<open>
  What holds of the links and contents of the cache: the LRU list and the hash chains as lists of
  entries, the invariant \<open>nc_struct\<close> that ties them to the contents, and what the queue routines, the
  search and the stretches of \<open>dnlc_enter\<close>, \<open>dnlc_lookup\<close> and \<open>dnlc_rm\<close> do to them.
\<close>

section \<open>Frames\<close>

abbreviation ent :: "ncst \<Rightarrow> nat \<Rightarrow> ncache" where
  "ent s e \<equiv> nc_mem s (NcEnt e)"

definition lru_blank :: "ncache \<Rightarrow> ncache" where
  "lru_blank n = n\<lparr>lru_next := NcNull, lru_prev := NcNull\<rparr>"

definition hash_blank :: "ncache \<Rightarrow> ncache" where
  "hash_blank n = n\<lparr>hash_next := NcNull, hash_prev := NcNull\<rparr>"

text \<open>Only LRU links, only hash links differ; \<open>same_refs\<close>: the counts are the same.\<close>

definition lru_only :: "ncst \<Rightarrow> ncst \<Rightarrow> bool" where
  "lru_only s s' = ((\<forall>p. lru_blank (nc_mem s' p) = lru_blank (nc_mem s p)) \<and> s'\<lparr>nc_mem := nc_mem s\<rparr> = s)"

definition hash_only :: "ncst \<Rightarrow> ncst \<Rightarrow> bool" where
  "hash_only s s' = ((\<forall>p. hash_blank (nc_mem s' p) = hash_blank (nc_mem s p)) \<and> s'\<lparr>nc_mem := nc_mem s\<rparr> = s)"

text \<open>What an entry says, without its links.\<close>

definition body :: "ncache \<Rightarrow> int \<times> int \<times> int \<times> string \<times> int" where
  "body n = (nc_dp n, nc_vp n, nc_namlen n, nc_name n, nc_cred n)"

definition links_only :: "ncst \<Rightarrow> ncst \<Rightarrow> bool" where
  "links_only s s' = ((\<forall>p. body (nc_mem s' p) = body (nc_mem s p)) \<and> s'\<lparr>nc_mem := nc_mem s\<rparr> = s)"

named_theorems nc_frames "fields outside the links that changed"

lemma lru_onlyD [nc_frames]:
  assumes "lru_only s s'"
  shows "hash_next (nc_mem s' p) = hash_next (nc_mem s p)" "hash_prev (nc_mem s' p) = hash_prev (nc_mem s p)"
    "body (nc_mem s' p) = body (nc_mem s p)"
proof -
  have "lru_blank (nc_mem s' p) = lru_blank (nc_mem s p)" using assms by (simp add: lru_only_def)
  then show "hash_next (nc_mem s' p) = hash_next (nc_mem s p)" "hash_prev (nc_mem s' p) = hash_prev (nc_mem s p)"
    "body (nc_mem s' p) = body (nc_mem s p)"
    by (cases "nc_mem s' p"; cases "nc_mem s p"; simp add: lru_blank_def body_def)+
qed

lemma hash_onlyD [nc_frames]:
  assumes "hash_only s s'"
  shows "lru_next (nc_mem s' p) = lru_next (nc_mem s p)" "lru_prev (nc_mem s' p) = lru_prev (nc_mem s p)"
    "body (nc_mem s' p) = body (nc_mem s p)"
proof -
  have "hash_blank (nc_mem s' p) = hash_blank (nc_mem s p)" using assms by (simp add: hash_only_def)
  then show "lru_next (nc_mem s' p) = lru_next (nc_mem s p)" "lru_prev (nc_mem s' p) = lru_prev (nc_mem s p)"
    "body (nc_mem s' p) = body (nc_mem s p)"
    by (cases "nc_mem s' p"; cases "nc_mem s p"; simp add: hash_blank_def body_def)+
qed

lemma body_eqD:
  assumes "body n = body n'"
  shows "nc_dp n = nc_dp n'" "nc_vp n = nc_vp n'" "nc_namlen n = nc_namlen n'" "nc_name n = nc_name n'"
    "nc_cred n = nc_cred n'"
  using assms by (simp_all add: body_def)

lemma mem_only_fields:
  assumes "s'\<lparr>nc_mem := m\<rparr> = (s::ncst)"
  shows "nc_stats s' = nc_stats s" "doingcache s' = doingcache s" "v_count s' = v_count s"
    "inactive s' = inactive s" "cr_ref s' = cr_ref s" "crfreelist s' = crfreelist s" "cractive s' = cractive s"
  using assms by (cases s'; cases s; simp)+

lemma links_onlyD:
  assumes "links_only s s'"
  shows "body (nc_mem s' p) = body (nc_mem s p)" "nc_stats s' = nc_stats s" "doingcache s' = doingcache s"
    "v_count s' = v_count s" "inactive s' = inactive s" "cr_ref s' = cr_ref s" "crfreelist s' = crfreelist s"
    "cractive s' = cractive s"
  using assms unfolding links_only_def by (blast dest: mem_only_fields)+

lemma links_only_trans: "links_only s t \<Longrightarrow> links_only t u \<Longrightarrow> links_only s u"
  unfolding links_only_def by (cases s; cases t; cases u; simp)

lemma hash_only_trans: "hash_only s t \<Longrightarrow> hash_only t u \<Longrightarrow> hash_only s u"
  unfolding hash_only_def by (cases s; cases t; cases u; simp)

lemma lru_only_links: "lru_only s s' \<Longrightarrow> links_only s s'"
  using lru_onlyD(3) by (auto simp: links_only_def lru_only_def)

lemma hash_only_links: "hash_only s s' \<Longrightarrow> links_only s s'"
  using hash_onlyD(3) by (auto simp: links_only_def hash_only_def)

section \<open>The two lists\<close>

definition lru_ring :: "ncst \<Rightarrow> nat list \<Rightarrow> bool" where
  "lru_ring s L = ring (\<lambda>p. lru_next (nc_mem s p)) (\<lambda>p. lru_prev (nc_mem s p)) NcLru (map NcEnt L)"

definition hash_ring :: "ncst \<Rightarrow> nat \<Rightarrow> nat list \<Rightarrow> bool" where
  "hash_ring s h xs = ring (\<lambda>p. hash_next (nc_mem s p)) (\<lambda>p. hash_prev (nc_mem s p)) (NcHash h) (map NcEnt xs)"

lemma lru_ring_distinct: "lru_ring s L \<Longrightarrow> distinct L"
  by (auto simp: lru_ring_def ring_def distinct_map)

lemma hash_ring_distinct: "hash_ring s h L \<Longrightarrow> distinct L"
  by (auto simp: hash_ring_def ring_def distinct_map)

lemma lru_ring_cong:
  "lru_ring s L \<Longrightarrow> (\<And>p. p \<in> insert NcLru (NcEnt ` set L) \<Longrightarrow>
      lru_next (nc_mem s' p) = lru_next (nc_mem s p) \<and> lru_prev (nc_mem s' p) = lru_prev (nc_mem s p))
   \<Longrightarrow> lru_ring s' L"
  unfolding lru_ring_def by (rule ring_cong) simp_all

lemma hash_ring_cong:
  "hash_ring s h L \<Longrightarrow> (\<And>p. p \<in> insert (NcHash h) (NcEnt ` set L) \<Longrightarrow>
      hash_next (nc_mem s' p) = hash_next (nc_mem s p) \<and> hash_prev (nc_mem s' p) = hash_prev (nc_mem s p))
   \<Longrightarrow> hash_ring s' h L"
  unfolding hash_ring_def by (rule ring_cong) simp_all

lemma last_nptr: "last (NcHash h # map NcEnt xs) \<noteq> NcNull" "last (NcLru # map NcEnt xs) \<noteq> NcNull"
  "hd (map NcEnt xs @ [NcHash h]) \<noteq> NcNull" "hd (map NcEnt xs @ [NcLru]) \<noteq> NcNull"
  by (cases xs rule: rev_cases; simp) (cases xs rule: rev_cases; simp; fail | cases xs; simp)+

lemma remque2_ring:
  assumes R: "lru_ring s (xs @ e # ys)"
  obtains s' where "remque2 (NcEnt e) s = Inr s'" "lru_ring s' (xs @ ys)" "lru_only s s'"
proof -
  have R': "ring (\<lambda>p. lru_next (nc_mem s p)) (\<lambda>p. lru_prev (nc_mem s p)) NcLru
      (map NcEnt xs @ NcEnt e # map NcEnt ys)"
    using R by (simp add: lru_ring_def)
  note at = ring_at[OF R']
  have d: "distinct (NcLru # map NcEnt xs @ NcEnt e # map NcEnt ys)" using R' by (simp add: ring_def)
  define b where "b = lru_prev (ent s e)"
  define f where "f = lru_next (ent s e)"
  have bf: "b \<noteq> NcEnt e" "f \<noteq> NcEnt e" "b \<noteq> NcNull" "f \<noteq> NcNull"
    using at d last_in[of NcLru "map NcEnt xs"] hd_in[of "map NcEnt ys" NcLru] last_nptr
    by (auto simp: b_def f_def)
  let ?s = "upd_nc f (lru_prev_update (\<lambda>_. b)) (upd_nc b (lru_next_update (\<lambda>_. f)) s)"
  have "remque2 (NcEnt e) s = Inr ?s"
    using bf by (simp add: remque2_def Let_def b_def[symmetric] f_def[symmetric] upd_nc_def)
  moreover have "lru_ring ?s (xs @ ys)"
    unfolding lru_ring_def map_append
    by (rule ring_delete[OF R']) (use bf in \<open>auto simp: upd_nc_def b_def[symmetric] f_def[symmetric]\<close>)
  moreover have "lru_only s ?s"
    by (auto simp: lru_only_def upd_nc_def lru_blank_def)
  ultimately show ?thesis by (rule that)
qed

lemma insque2_ring:
  assumes R: "lru_ring s (xs @ ys)" and e: "e \<notin> set (xs @ ys)" and p: "p = last (NcLru # map NcEnt xs)"
  obtains s' where "insque2 (NcEnt e) p s = Inr s'" "lru_ring s' (xs @ e # ys)" "lru_only s s'"
proof -
  have R': "ring (\<lambda>p. lru_next (nc_mem s p)) (\<lambda>p. lru_prev (nc_mem s p)) NcLru (map NcEnt xs @ map NcEnt ys)"
    using R by (simp add: lru_ring_def)
  define n where "n = lru_next (nc_mem s p)"
  have pin: "p \<in> set (NcLru # map NcEnt xs)" unfolding p by (rule last_in)
  have nin: "n \<in> set (NcLru # map NcEnt ys)"
  proof (cases xs rule: rev_cases)
    case Nil
    then show ?thesis using ring_next[OF R'] p hd_in[of "map NcEnt ys" NcLru] by (simp add: n_def)
  next
    case (snoc zs z)
    then have "n = hd (map NcEnt ys @ [NcLru])"
      using R' p ring_at(1)[of _ _ NcLru "map NcEnt zs" "NcEnt z" "map NcEnt ys"] by (simp add: n_def)
    then show ?thesis using hd_in[of "map NcEnt ys" NcLru] by simp
  qed
  have ne: "p \<noteq> NcEnt e" "n \<noteq> NcEnt e" "n \<noteq> NcNull" using pin nin e by auto
  let ?s = "upd_nc (NcEnt e) (lru_prev_update (\<lambda>_. p)) (upd_nc n (lru_prev_update (\<lambda>_. NcEnt e))
     (upd_nc (NcEnt e) (lru_next_update (\<lambda>_. n)) (upd_nc p (lru_next_update (\<lambda>_. NcEnt e)) s)))"
  have "insque2 (NcEnt e) p s = Inr ?s"
    using ne by (simp add: insque2_def Let_def n_def[symmetric])
  moreover have "lru_ring ?s (xs @ e # ys)"
    unfolding lru_ring_def map_append list.map
    by (rule ring_insert[OF R' _ p n_def]) (use ne e in \<open>auto simp: upd_nc_def\<close>)
  moreover have "lru_only s ?s"
    by (auto simp: lru_only_def upd_nc_def lru_blank_def)
  ultimately show ?thesis by (rule that)
qed

lemma remque_ring:
  assumes R: "hash_ring s h (xs @ e # ys)"
  obtains s' where "remque (NcEnt e) s = Inr s'" "hash_ring s' h (xs @ ys)" "hash_only s s'"
    "\<And>p. p \<notin> insert (NcHash h) (NcEnt ` set (xs @ ys)) \<Longrightarrow> nc_mem s' p = nc_mem s p"
proof -
  have R': "ring (\<lambda>p. hash_next (nc_mem s p)) (\<lambda>p. hash_prev (nc_mem s p)) (NcHash h)
      (map NcEnt xs @ NcEnt e # map NcEnt ys)"
    using R by (simp add: hash_ring_def)
  note at = ring_at[OF R']
  have d: "distinct (NcHash h # map NcEnt xs @ NcEnt e # map NcEnt ys)" using R' by (simp add: ring_def)
  define b where "b = hash_prev (ent s e)"
  define f where "f = hash_next (ent s e)"
  have bin: "b \<in> insert (NcHash h) (NcEnt ` set (xs @ ys))" and fin: "f \<in> insert (NcHash h) (NcEnt ` set (xs @ ys))"
    using at last_in[of "NcHash h" "map NcEnt xs"] hd_in[of "map NcEnt ys" "NcHash h"] by (auto simp: b_def f_def)
  then have bf: "b \<noteq> NcEnt e" "f \<noteq> NcEnt e" "b \<noteq> NcNull" "f \<noteq> NcNull" using d by auto
  let ?s = "upd_nc f (hash_prev_update (\<lambda>_. b)) (upd_nc b (hash_next_update (\<lambda>_. f)) s)"
  have "remque (NcEnt e) s = Inr ?s"
    using bf by (simp add: remque_def Let_def b_def[symmetric] f_def[symmetric] upd_nc_def)
  moreover have "hash_ring ?s h (xs @ ys)"
    unfolding hash_ring_def map_append
    by (rule ring_delete[OF R']) (use bf in \<open>auto simp: upd_nc_def b_def[symmetric] f_def[symmetric]\<close>)
  moreover have "hash_only s ?s"
    by (auto simp: hash_only_def upd_nc_def hash_blank_def)
  moreover have "nc_mem ?s p = nc_mem s p" if "p \<notin> insert (NcHash h) (NcEnt ` set (xs @ ys))" for p
    using that bin fin by (auto simp: upd_nc_def)
  ultimately show ?thesis by (rule that)
qed

lemma remque_self:
  assumes "hash_next (ent s e) = NcEnt e" "hash_prev (ent s e) = NcEnt e"
  obtains s' where "remque (NcEnt e) s = Inr s'" "hash_only s s'" "\<And>p. nc_mem s' p = nc_mem s p"
proof -
  let ?s = "upd_nc (NcEnt e) (hash_prev_update (\<lambda>_. NcEnt e)) (upd_nc (NcEnt e) (hash_next_update (\<lambda>_. NcEnt e)) s)"
  have "remque (NcEnt e) s = Inr ?s"
    using assms by (simp add: remque_def Let_def upd_nc_def)
  moreover have "hash_only s ?s"
    by (auto simp: hash_only_def upd_nc_def hash_blank_def)
  moreover have "nc_mem ?s p = nc_mem s p" for p
    using assms by (auto simp: upd_nc_def)
  ultimately show ?thesis by (rule that)
qed

lemma insque_ring:
  assumes R: "hash_ring s h (xs @ ys)" and e: "e \<notin> set (xs @ ys)" and p: "p = last (NcHash h # map NcEnt xs)"
  shows "hash_ring (insque (NcEnt e) p s) h (xs @ e # ys)" "hash_only s (insque (NcEnt e) p s)"
    "\<And>q. q \<notin> insert (NcHash h) (NcEnt ` set (xs @ e # ys)) \<Longrightarrow> nc_mem (insque (NcEnt e) p s) q = nc_mem s q"
proof -
  have R': "ring (\<lambda>p. hash_next (nc_mem s p)) (\<lambda>p. hash_prev (nc_mem s p)) (NcHash h) (map NcEnt xs @ map NcEnt ys)"
    using R by (simp add: hash_ring_def)
  define n where "n = hash_next (nc_mem s p)"
  have pin: "p \<in> set (NcHash h # map NcEnt xs)" unfolding p by (rule last_in)
  have nin: "n \<in> set (NcHash h # map NcEnt ys)"
  proof (cases xs rule: rev_cases)
    case Nil
    then show ?thesis using ring_next[OF R'] p hd_in[of "map NcEnt ys" "NcHash h"] by (simp add: n_def)
  next
    case (snoc zs z)
    then have "n = hd (map NcEnt ys @ [NcHash h])"
      using R' p ring_at(1)[of _ _ "NcHash h" "map NcEnt zs" "NcEnt z" "map NcEnt ys"] by (simp add: n_def)
    then show ?thesis using hd_in[of "map NcEnt ys" "NcHash h"] by simp
  qed
  have ne: "p \<noteq> NcEnt e" "n \<noteq> NcEnt e" "n \<noteq> NcNull" using pin nin e by auto
  let ?s = "upd_nc p (hash_next_update (\<lambda>_. NcEnt e)) (upd_nc n (hash_prev_update (\<lambda>_. NcEnt e))
     (upd_nc (NcEnt e) (hash_prev_update (\<lambda>_. p)) (upd_nc (NcEnt e) (hash_next_update (\<lambda>_. n)) s)))"
  have I: "insque (NcEnt e) p s = ?s"
    using ne by (simp add: insque_def Let_def n_def[symmetric] upd_nc_def)
  show "hash_ring (insque (NcEnt e) p s) h (xs @ e # ys)"
    unfolding I hash_ring_def map_append list.map
    by (rule ring_insert[OF R' _ p n_def]) (use ne e in \<open>auto simp: upd_nc_def\<close>)
  show "hash_only s (insque (NcEnt e) p s)"
    unfolding I by (auto simp: hash_only_def upd_nc_def hash_blank_def)
  show "nc_mem (insque (NcEnt e) p s) q = nc_mem s q" if "q \<notin> insert (NcHash h) (NcEnt ` set (xs @ e # ys))" for q
    unfolding I using that pin nin by (auto simp: upd_nc_def)
qed

lemma hash_ring_next:
  assumes "hash_ring s h xs"
  shows "hash_next (nc_mem s (NcHash h)) = hd (map NcEnt xs @ [NcHash h])"
  using assms unfolding hash_ring_def by (rule ring_next)

lemma lru_ring_ends:
  assumes "lru_ring s L"
  shows "lru_next (nc_mem s NcLru) = hd (map NcEnt L @ [NcLru])" "lru_prev (nc_mem s NcLru) = last (NcLru # map NcEnt L)"
  using ring_next[OF assms[unfolded lru_ring_def]] ring_prev[OF assms[unfolded lru_ring_def]] by simp_all

section \<open>Search\<close>

lemma bcmp_loop_spec:
  "0 < n \<Longrightarrow> n \<le> length s1 \<Longrightarrow> n \<le> length s2 \<Longrightarrow>
   \<exists>r. bcmp_loop s1 s2 n = Inr r \<and> r \<le> n \<and> (r = 0) = (take n s1 = take n s2)"
proof (induction s1 s2 n rule: bcmp_loop.induct)
  case (1 a s1 b s2 n)
  show ?case
  proof (cases "a = b \<and> n - 1 \<noteq> 0")
    case True
    then obtain r where "bcmp_loop s1 s2 (n - 1) = Inr r" "r \<le> n - 1"
      "(r = 0) = (take (n - 1) s1 = take (n - 1) s2)"
      using 1 by fastforce
    then show ?thesis using True 1(2) by (cases n) auto
  next
    case False
    then show ?thesis using 1(2) by (cases n) auto
  qed
qed auto

lemma bcmp_spec:
  assumes "0 < n" "n \<le> length s1" "n \<le> length s2" "n < 2 ^ 32"
  shows "\<exists>r. bcmp s1 s2 n = Inr r \<and> (r = 0) = (take n s1 = take n s2)"
  using bcmp_loop_spec[OF assms(1-3)] assms(1,4) by (auto simp: bcmp_def)

definition matches :: "int \<Rightarrow> string \<Rightarrow> int \<Rightarrow> ncache \<Rightarrow> bool" where
  "matches dp name cred n =
     (nc_dp n = dp \<and> nc_namlen n = int (length name) \<and> (cred = ANYCRED \<or> nc_cred n = cred) \<and>
      take (length name) (nc_name n) = name)"

lemma search_loop_spec:
  assumes "chain (\<lambda>p. hash_next (nc_mem s p)) pv p (map NcEnt xs) (NcHash h)"
    "ncp = hd (map NcEnt xs @ [NcHash h])" "length xs < f" "name \<noteq> []" "length name < 2 ^ 32"
    "\<And>e. e \<in> set xs \<Longrightarrow> nat (nc_namlen (ent s e)) \<le> length (nc_name (ent s e))"
  shows "search_loop f s dp name (length name) cred (NcHash h) ncp
    = Inr (map_option NcEnt (find (\<lambda>e. matches dp name cred (ent s e)) xs))"
  using assms
proof (induction xs arbitrary: f p ncp)
  case Nil
  then show ?case by (cases f) auto
next
  case (Cons e xs)
  obtain g where f: "f = Suc g" using Cons.prems(3) by (cases f) auto
  have nxt: "hash_next (ent s e) = hd (map NcEnt xs @ [NcHash h])"
    using Cons.prems(1) by (auto dest: chain_next)
  have IH: "search_loop g s dp name (length name) cred (NcHash h) (hash_next (ent s e))
    = Inr (map_option NcEnt (find (\<lambda>e. matches dp name cred (ent s e)) xs))"
    by (rule Cons.IH[of "NcEnt e"]) (use Cons.prems f nxt in auto)
  show ?case
  proof (cases "nc_dp (ent s e) = dp \<and> nc_namlen (ent s e) = int (length name) \<and> (cred = ANYCRED \<or> nc_cred (ent s e) = cred)")
    case True
    then have "length name \<le> length (nc_name (ent s e))" using Cons.prems(6)[of e] by auto
    then obtain r where r: "bcmp (nc_name (ent s e)) (name @ [CHR 0x00]) (length name) = Inr r"
      "(r = 0) = (take (length name) (nc_name (ent s e)) = name)"
      using bcmp_spec[of "length name" "nc_name (ent s e)" "name @ [CHR 0x00]"] Cons.prems(4,5) by auto
    then show ?thesis using True Cons.prems(2) IH by (auto simp: f Let_def matches_def)
  next
    case False
    then have "\<not> matches dp name cred (ent s e)" by (auto simp: matches_def)
    then show ?thesis using False Cons.prems(2) IH by (simp only: f search_loop.simps Let_def) auto
  qed
qed

end
