(* ===== verification/Dnlc_Ops.thy ===== *)
theory Dnlc_Ops
  imports Dnlc_Inv
begin

text \<open>
  The invariant \<open>nc_struct s F L H\<close> of the cache: \<open>L\<close> is the LRU list, \<open>H h\<close> the chain of hash
  \<open>h\<close>, and \<open>F\<close> the entries that are on no list because a sleeping call holds them. Every entry is
  in \<open>L\<close> or in \<open>F\<close>; a listed entry with a directory is on the chain of its own hash and on no other,
  one without is linked to itself. The stretches between the sleeps keep it.
\<close>

section \<open>The invariant\<close>

definition nhash :: "ncache \<Rightarrow> nat" where
  "nhash n = nat ((of_char (nc_name n ! 0) + of_char (nc_name n ! (nat (nc_namlen n) - 1)) + nc_namlen n
                   + nc_dp n) mod int NC_HASH_SIZE)"

definition entry_ok :: "ncache \<Rightarrow> bool" where
  "entry_ok n = (nc_dp n \<noteq> 0 \<and> nc_vp n \<noteq> 0 \<and> 1 \<le> nc_namlen n \<and> nc_namlen n \<le> int NC_NAMLEN \<and>
     nat (nc_namlen n) \<le> length (nc_name n))"

definition free_ok :: "ncst \<Rightarrow> nat \<Rightarrow> bool" where
  "free_ok s e = (nc_dp (ent s e) = 0 \<and> nc_vp (ent s e) = 0 \<and> nc_cred (ent s e) = NOCRED \<and>
     hash_next (ent s e) = NcEnt e \<and> hash_prev (ent s e) = NcEnt e)"

definition chained :: "ncst \<Rightarrow> nat list \<Rightarrow> nat \<Rightarrow> nat set" where
  "chained s L h = {e \<in> set L. nc_dp (ent s e) \<noteq> 0 \<and> nhash (ent s e) = h}"

definition nc_struct :: "ncst \<Rightarrow> nat set \<Rightarrow> nat list \<Rightarrow> (nat \<Rightarrow> nat list) \<Rightarrow> bool" where
  "nc_struct s F L H =
     (lru_ring s L \<and> (\<forall>h < NC_HASH_SIZE. hash_ring s h (H h)) \<and> set L \<inter> F = {} \<and> set L \<union> F = {..< NC_SIZE} \<and>
      (\<forall>h < NC_HASH_SIZE. set (H h) = chained s L h) \<and>
      (\<forall>e \<in> set L. if nc_dp (ent s e) = 0 then free_ok s e else entry_ok (ent s e)))"

lemma nc_structD:
  assumes "nc_struct s F L H"
  shows "lru_ring s L" "h < NC_HASH_SIZE \<Longrightarrow> hash_ring s h (H h)" "set L \<inter> F = {}" "set L \<union> F = {..< NC_SIZE}"
    "h < NC_HASH_SIZE \<Longrightarrow> set (H h) = chained s L h"
    "e \<in> set L \<Longrightarrow> nc_dp (ent s e) = 0 \<Longrightarrow> free_ok s e"
    "e \<in> set L \<Longrightarrow> nc_dp (ent s e) \<noteq> 0 \<Longrightarrow> entry_ok (ent s e)" "distinct L"
  using assms lru_ring_distinct by (auto simp: nc_struct_def)

lemma nhash_less: "nhash n < NC_HASH_SIZE"
  by (simp add: nhash_def nat_less_iff)

lemma nhash_body: "body n = body n' \<Longrightarrow> nhash n = nhash n'"
  by (simp add: nhash_def body_def)

lemma entry_ok_body: "body n = body n' \<Longrightarrow> entry_ok n = entry_ok n'"
  by (simp add: entry_ok_def body_def)

lemma matches_body: "body n = body n' \<Longrightarrow> matches dp name cred n = matches dp name cred n'"
  by (simp add: matches_def body_def)

lemma NC_HASH_nhash:
  assumes "matches dp name cred n" "name \<noteq> []"
  shows "NC_HASH name (length name) dp = Inr (nhash n)"
proof -
  have l: "nc_namlen n = int (length name)" and t: "take (length name) (nc_name n) = name" and "nc_dp n = dp"
    using assms by (auto simp: matches_def)
  have *: "name ! i = nc_name n ! i" if "i < length name" for i
    using that t by (metis nth_take)
  have "name ! 0 = nc_name n ! 0" "name ! (length name - 1) = nc_name n ! (length name - 1)"
    using assms(2) by (auto intro: *)
  then show ?thesis using assms(2) l \<open>nc_dp n = dp\<close> by (simp add: NC_HASH_def nhash_def)
qed

lemma NC_HASH_Inr:
  assumes "name \<noteq> []"
  obtains h where "NC_HASH name (length name) dp = Inr h" "h < NC_HASH_SIZE"
  using assms by (simp add: NC_HASH_def nat_less_iff)

text \<open>Cells of entries that are not listed, and heads' contents, do not matter.\<close>

lemma nc_struct_cong:
  assumes S: "nc_struct s F L H" and same: "\<And>p. p \<notin> NcEnt ` F \<Longrightarrow> nc_mem s' p = nc_mem s p"
  shows "nc_struct s' F L H"
proof -
  have out: "NcEnt e \<notin> NcEnt ` F" if "e \<in> set L" for e
    using that nc_structD(3)[OF S] by auto
  have L: "ent s' e = ent s e" if "e \<in> set L" for e using same out that by blast
  have ch: "chained s' L h = chained s L h" for h
    unfolding chained_def using L by (auto simp: L)
  have sub: "set (H h) \<subseteq> set L" if "h < NC_HASH_SIZE" for h
    using nc_structD(5)[OF S that] by (auto simp: chained_def)
  have hd: "nc_mem s' NcLru = nc_mem s NcLru" "nc_mem s' (NcHash h) = nc_mem s (NcHash h)" for h
    by (rule same, auto)+
  have "lru_ring s' L"
    by (rule lru_ring_cong[OF nc_structD(1)[OF S]]) (use L hd in auto)
  moreover have "hash_ring s' h (H h)" if "h < NC_HASH_SIZE" for h
    by (rule hash_ring_cong[OF nc_structD(2)[OF S that]]) (use L hd sub[OF that] in auto)
  moreover have "if nc_dp (ent s' e) = 0 then free_ok s' e else entry_ok (ent s' e)" if "e \<in> set L" for e
    using nc_structD(6,7)[OF S that] L[OF that] by (auto simp: free_ok_def)
  ultimately show ?thesis using S ch by (simp add: nc_struct_def)
qed

text \<open>Search in the invariant.\<close>

lemma dnlc_search_spec:
  assumes S: "nc_struct s F L H" and h: "h < NC_HASH_SIZE" and n: "name \<noteq> []" "length name \<le> NC_NAMLEN"
  shows "dnlc_search s dp name (length name) h cred = Inr (map_option NcEnt (find (\<lambda>e. matches dp name cred (ent s e)) (H h)))"
proof -
  have R: "hash_ring s h (H h)" using S h by (simp add: nc_structD)
  have sub: "set (H h) \<subseteq> set L" "set (H h) \<subseteq> {..< 32}"
    and ok: "e \<in> set (H h) \<Longrightarrow> entry_ok (ent s e)" for e
    using nc_structD(4,5,7)[OF S] h by (auto simp: chained_def)
  have "card (set (H h)) \<le> card {..< 32 :: nat}" using sub(2) by (intro card_mono) simp_all
  then have len: "length (H h) < NC_SIZE + 1" using hash_ring_distinct[OF R] by (simp add: distinct_card)
  have "chain (\<lambda>p. hash_next (nc_mem s p)) (\<lambda>p. hash_prev (nc_mem s p)) (NcHash h) (map NcEnt (H h)) (NcHash h)"
    using R by (simp add: hash_ring_def ring_def)
  then show ?thesis unfolding dnlc_search_def
    by (rule search_loop_spec) (use hash_ring_next[OF R] len n ok in \<open>auto simp: entry_ok_def\<close>)
qed

lemma find_SomeD: "find P xs = Some x \<Longrightarrow> x \<in> set xs \<and> P x"
  by (induction xs) (auto split: if_splits)

text \<open>A match is found in its chain exactly when there is one in the LRU list.\<close>

lemma find_in_chain:
  assumes S: "nc_struct s F L H" and H: "NC_HASH name (length name) dp = Inr h" and n: "name \<noteq> []" and dp: "dp \<noteq> 0"
  shows "find (\<lambda>e. matches dp name cred (ent s e)) (H h) = Some e \<Longrightarrow> e \<in> set L \<and> matches dp name cred (ent s e)"
    and "find (\<lambda>e. matches dp name cred (ent s e)) (H h) = None \<Longrightarrow> e \<in> set L \<Longrightarrow> \<not> matches dp name cred (ent s e)"
proof -
  have h: "h < NC_HASH_SIZE" using NC_HASH_Inr[OF n, of dp] H by auto
  have set: "set (H h) = chained s L h" by (rule nc_structD(5)[OF S h])
  show "e \<in> set L \<and> matches dp name cred (ent s e)" if "find (\<lambda>e. matches dp name cred (ent s e)) (H h) = Some e"
    using find_SomeD[OF that] set by (auto simp: chained_def)
  show "\<not> matches dp name cred (ent s e)" if "find (\<lambda>e. matches dp name cred (ent s e)) (H h) = None" "e \<in> set L"
  proof
    assume m: "matches dp name cred (ent s e)"
    then have "nhash (ent s e) = h" "nc_dp (ent s e) \<noteq> 0"
      using NC_HASH_nhash[OF m n] H dp by (auto simp: matches_def)
    then have "e \<in> set (H h)" using that(2) set by (auto simp: chained_def)
    then show False using that(1) m by (auto simp: find_None_iff)
  qed
qed

section \<open>Taking an entry off the lists\<close>

lemma chained_sub: "nc_struct s F L H \<Longrightarrow> h < NC_HASH_SIZE \<Longrightarrow> set (H h) \<subseteq> set L"
  using nc_structD(5) by (auto simp: chained_def)

lemma rm_take_struct:
  assumes S: "nc_struct s F (xs @ e # ys) H"
  obtains s' where "rm_take (NcEnt e) s = Inr s'" "nc_struct s' (insert e F) (xs @ ys) (\<lambda>h. removeAll e (H h))"
    "links_only s s'"
proof -
  note result = that
  let ?L = "xs @ e # ys"
  have d: "distinct ?L" by (rule nc_structD(8)[OF S])
  obtain s1 where s1: "remque2 (NcEnt e) s = Inr s1" "lru_ring s1 (xs @ ys)" "lru_only s s1"
    by (rule remque2_ring[OF nc_structD(1)[OF S]])
  have hr1: "hash_ring s1 h (H h)" if "h < NC_HASH_SIZE" for h
    by (rule hash_ring_cong[OF nc_structD(2)[OF S that]]) (simp add: lru_onlyD[OF s1(3)])
  have b1: "body (nc_mem s1 p) = body (nc_mem s p)" for p by (rule lru_onlyD[OF s1(3)])
  have dp1: "nc_dp (nc_mem s1 p) = nc_dp (nc_mem s p)" for p by (rule body_eqD[OF b1])
  have fin: thesis
    if s2: "remque (NcEnt e) s1 = Inr s2" "hash_only s1 s2"
      and hr2: "\<And>h. h < NC_HASH_SIZE \<Longrightarrow> hash_ring s2 h (removeAll e (H h))"
      and out: "\<And>p. p \<notin> NcEnt ` {f \<in> set (xs @ ys). nc_dp (ent s f) \<noteq> 0} \<Longrightarrow> p \<notin> range NcHash \<Longrightarrow> nc_mem s2 p = nc_mem s1 p" for s2
  proof (rule result)
    show "rm_take (NcEnt e) s = Inr s2" using s1(1) s2(1) by (simp add: rm_take_def)
    show lo: "links_only s s2" using lru_only_links[OF s1(3)] hash_only_links[OF s2(2)] by (rule links_only_trans)
    have b2: "body (nc_mem s2 p) = body (nc_mem s p)" for p by (rule links_onlyD[OF lo])
    have dp2: "nc_dp (nc_mem s2 p) = nc_dp (nc_mem s p)" for p by (rule body_eqD[OF b2])
    have ch: "chained s2 (xs @ ys) h = chained s ?L h - {e}" for h
      unfolding chained_def using d by (auto simp: dp2 nhash_body[OF b2])
    have ok: "if nc_dp (ent s2 f) = 0 then free_ok s2 f else entry_ok (ent s2 f)" if f: "f \<in> set (xs @ ys)" for f
    proof (cases "nc_dp (ent s f) = 0")
      case True
      then have "free_ok s f" using nc_structD(6)[OF S] f by auto
      moreover have "ent s2 f = ent s1 f" by (rule out) (use True in auto)
      ultimately show ?thesis using True b1[of "NcEnt f"]
        by (simp add: free_ok_def dp2 body_def lru_onlyD[OF s1(3)])
    next
      case False
      then have "entry_ok (ent s f)" using nc_structD(7)[OF S] f by auto
      then show ?thesis using False by (simp add: dp2 entry_ok_body[OF b2])
    qed
    have "lru_ring s2 (xs @ ys)"
      by (rule lru_ring_cong[OF s1(2)]) (simp add: hash_onlyD[OF s2(2)])
    then show "nc_struct s2 (insert e F) (xs @ ys) (\<lambda>h. removeAll e (H h))"
      using hr2 ok ch d nc_structD(3,4,5)[OF S] by (auto simp: nc_struct_def)
  qed
  show thesis
  proof (cases "nc_dp (ent s e) = 0")
    case True
    then have "free_ok s e" using nc_structD(6)[OF S] by auto
    then obtain s2 where s2: "remque (NcEnt e) s1 = Inr s2" "hash_only s1 s2" "\<And>p. nc_mem s2 p = nc_mem s1 p"
      using remque_self[of s1 e] by (auto simp: free_ok_def lru_onlyD[OF s1(3)])
    show ?thesis
    proof (rule fin[OF s2(1,2)])
      fix h :: nat assume h: "h < NC_HASH_SIZE"
      have "e \<notin> set (H h)" using True nc_structD(5)[OF S h] by (auto simp: chained_def)
      then show "hash_ring s2 h (removeAll e (H h))" using hr1[OF h] s2(3) by (auto intro: hash_ring_cong)
    qed (use s2(3) in auto)
  next
    case False
    let ?k = "nhash (ent s e)"
    have k: "?k < NC_HASH_SIZE" by (rule nhash_less)
    have "e \<in> set (H ?k)" using False nc_structD(5)[OF S k] by (auto simp: chained_def)
    then obtain as bs where H: "H ?k = as @ e # bs" by (auto simp: in_set_conv_decomp)
    have dH: "distinct (as @ e # bs)" using hash_ring_distinct[OF hr1[OF k]] H by simp
    then have rm: "removeAll e (H ?k) = as @ bs" using H by simp
    obtain s2 where s2: "remque (NcEnt e) s1 = Inr s2" "hash_ring s2 ?k (as @ bs)" "hash_only s1 s2"
      "\<And>p. p \<notin> insert (NcHash ?k) (NcEnt ` set (as @ bs)) \<Longrightarrow> nc_mem s2 p = nc_mem s1 p"
      using remque_ring[of s1 ?k as e bs] hr1[OF k] H by auto
    have ab: "set (as @ bs) = chained s ?L ?k - {e}" using nc_structD(5)[OF S k] H dH by auto
    show ?thesis
    proof (rule fin[OF s2(1,3)])
      fix h :: nat assume h: "h < NC_HASH_SIZE"
      show "hash_ring s2 h (removeAll e (H h))"
      proof (cases "h = ?k")
        case True
        then show ?thesis using s2(2) rm by simp
      next
        case False
        have Hh: "set (H h) = chained s ?L h" by (rule nc_structD(5)[OF S h])
        have "e \<notin> set (H h)" using False Hh by (auto simp: chained_def)
        moreover have "hash_ring s2 h (H h)"
        proof (rule hash_ring_cong[OF hr1[OF h]])
          fix p assume "p \<in> insert (NcHash h) (NcEnt ` set (H h))"
          then have "p \<notin> insert (NcHash ?k) (NcEnt ` set (as @ bs))"
            using False Hh ab by (auto simp: chained_def)
          then show "hash_next (nc_mem s2 p) = hash_next (nc_mem s1 p) \<and> hash_prev (nc_mem s2 p) = hash_prev (nc_mem s1 p)"
            by (simp add: s2(4))
        qed
        ultimately show ?thesis by simp
      qed
    next
      fix p assume "p \<notin> NcEnt ` {f \<in> set (xs @ ys). nc_dp (ent s f) \<noteq> 0}" "p \<notin> range NcHash"
      then show "nc_mem s2 p = nc_mem s1 p"
        using ab d by (intro s2(4)) (auto simp: chained_def)
    qed
  qed
qed

section \<open>Putting an entry back\<close>

text \<open>What is left to show when an entry \<open>e\<close> came back to the LRU list.\<close>

lemma nc_struct_put:
  assumes S: "nc_struct s F (xs @ ys) H" and e: "e \<in> F" and lo: "links_only s s'"
    and R: "lru_ring s' (xs @ e # ys)" and hr: "\<And>h. h < NC_HASH_SIZE \<Longrightarrow> hash_ring s' h (H' h)"
    and H': "\<And>h. h < NC_HASH_SIZE \<Longrightarrow>
      set (H' h) = set (H h) \<union> (if nc_dp (ent s e) \<noteq> 0 \<and> nhash (ent s e) = h then {e} else {})"
    and ok: "if nc_dp (ent s e) = 0 then free_ok s' e else entry_ok (ent s e)"
    and self: "\<And>f. f \<in> set (xs @ ys) \<Longrightarrow> nc_dp (ent s f) = 0 \<Longrightarrow>
      hash_next (ent s' f) = hash_next (ent s f) \<and> hash_prev (ent s' f) = hash_prev (ent s f)"
  shows "nc_struct s' (F - {e}) (xs @ e # ys) H'"
proof -
  have b: "body (nc_mem s' p) = body (nc_mem s p)" for p by (rule links_onlyD[OF lo])
  note bd = body_eqD[OF b]
  have e': "e \<notin> set (xs @ ys)" "e < NC_SIZE" using e nc_structD(3,4)[OF S] by auto
  have "if nc_dp (ent s' f) = 0 then free_ok s' f else entry_ok (ent s' f)" if f: "f \<in> set (xs @ e # ys)" for f
  proof (cases "f = e")
    case True
    then show ?thesis using ok by (simp add: bd entry_ok_body[OF b])
  next
    case False
    then have f: "f \<in> set (xs @ ys)" using f by auto
    show ?thesis using nc_structD(6,7)[OF S f] self[OF f] by (auto simp: free_ok_def bd entry_ok_body[OF b])
  qed
  moreover have "chained s' (xs @ e # ys) h = chained s (xs @ ys) h \<union> (if nc_dp (ent s e) \<noteq> 0 \<and> nhash (ent s e) = h then {e} else {})" for h
    by (auto simp: chained_def bd nhash_body[OF b])
  ultimately show ?thesis
    using R hr H' e e' nc_structD(3,4,5)[OF S] by (auto simp: nc_struct_def)
qed

lemma put_free:
  assumes S: "nc_struct s F L H" and e: "e \<in> F" and z: "nc_dp (ent s e) = 0" "nc_vp (ent s e) = 0" "nc_cred (ent s e) = NOCRED"
  obtains s1 where "insque2 (NcEnt e) NcLru s = Inr s1" "nc_struct (NULL_HASH (NcEnt e) s1) (F - {e}) (e # L) H"
    "links_only s (NULL_HASH (NcEnt e) s1)"
proof -
  have e': "e \<notin> set L" using e nc_structD(3)[OF S] by auto
  obtain s1 where s1: "insque2 (NcEnt e) NcLru s = Inr s1" "lru_ring s1 ([] @ e # L)" "lru_only s s1"
    using insque2_ring[of s "[]" L e NcLru] nc_structD(1)[OF S] e' by auto
  let ?s = "NULL_HASH (NcEnt e) s1"
  have ho: "hash_only s1 ?s" by (auto simp: hash_only_def NULL_HASH_def upd_nc_def hash_blank_def)
  have lo: "links_only s ?s" by (rule links_only_trans[OF lru_only_links[OF s1(3)] hash_only_links[OF ho]])
  have other: "nc_mem ?s p = nc_mem s1 p" if "p \<noteq> NcEnt e" for p using that by (simp add: NULL_HASH_def upd_nc_def)
  have "nc_struct ?s (F - {e}) ([] @ e # L) H"
  proof (rule nc_struct_put[OF _ e lo])
    show "nc_struct s F ([] @ L) H" using S by simp
    show "lru_ring ?s ([] @ e # L)" by (rule lru_ring_cong[OF s1(2)]) (simp add: hash_onlyD[OF ho])
    show "hash_ring ?s h (H h)" if h: "h < NC_HASH_SIZE" for h
    proof (rule hash_ring_cong[OF nc_structD(2)[OF S h]])
      fix p assume "p \<in> insert (NcHash h) (NcEnt ` set (H h))"
      then have "p \<noteq> NcEnt e" using chained_sub[OF S h] e' by auto
      then show "hash_next (nc_mem ?s p) = hash_next (nc_mem s p) \<and> hash_prev (nc_mem ?s p) = hash_prev (nc_mem s p)"
        by (simp add: other lru_onlyD[OF s1(3)])
    qed
    show "if nc_dp (ent s e) = 0 then free_ok ?s e else entry_ok (ent s e)"
      using z body_eqD[OF links_onlyD(1)[OF lo], of "NcEnt e"] by (simp add: free_ok_def NULL_HASH_def upd_nc_def)
    show "hash_next (ent ?s f) = hash_next (ent s f) \<and> hash_prev (ent ?s f) = hash_prev (ent s f)"
      if "f \<in> set ([] @ L)" for f
      using that e' by (subst (1 2) other) (auto simp: lru_onlyD[OF s1(3)])
  qed (use z in auto)
  then show ?thesis using that s1(1) lo by simp
qed

lemma put_cached:
  assumes S: "nc_struct s F L H" and e: "e \<in> F" and ok: "entry_ok (ent s e)" and h: "h = nhash (ent s e)"
  obtains s1 where "insque2 (NcEnt e) (lru_prev (nc_mem s NcLru)) s = Inr s1"
    "nc_struct (insque (NcEnt e) (NcHash h) s1) (F - {e}) (L @ [e]) (H(h := e # H h))"
    "links_only s (insque (NcEnt e) (NcHash h) s1)"
proof -
  have e': "e \<notin> set L" using e nc_structD(3)[OF S] by auto
  have hk: "h < NC_HASH_SIZE" using h nhash_less by simp
  have dp: "nc_dp (ent s e) \<noteq> 0" using ok by (simp add: entry_ok_def)
  obtain s1 where s1: "insque2 (NcEnt e) (lru_prev (nc_mem s NcLru)) s = Inr s1" "lru_ring s1 (L @ e # [])" "lru_only s s1"
    using insque2_ring[of s L "[]" e "lru_prev (nc_mem s NcLru)"] nc_structD(1)[OF S] lru_ring_ends(2)[OF nc_structD(1)[OF S]] e' by auto
  let ?s = "insque (NcEnt e) (NcHash h) s1"
  have hr1: "hash_ring s1 k (H k)" if k: "k < NC_HASH_SIZE" for k
    by (rule hash_ring_cong[OF nc_structD(2)[OF S k]]) (simp add: lru_onlyD[OF s1(3)])
  have eh: "e \<notin> set (H k)" if k: "k < NC_HASH_SIZE" for k using chained_sub[OF S k] e' by auto
  have i: "hash_ring ?s h (e # H h)" "hash_only s1 ?s"
    "\<And>q. q \<notin> insert (NcHash h) (NcEnt ` set (e # H h)) \<Longrightarrow> nc_mem ?s q = nc_mem s1 q"
    using insque_ring[of s1 h "[]" "H h" e "NcHash h"] hr1[OF hk] eh[OF hk] by auto
  have lo: "links_only s ?s" by (rule links_only_trans[OF lru_only_links[OF s1(3)] hash_only_links[OF i(2)]])
  have "nc_struct ?s (F - {e}) (L @ e # []) (H(h := e # H h))"
  proof (rule nc_struct_put[OF _ e lo])
    show "nc_struct s F (L @ []) H" using S by simp
    show "lru_ring ?s (L @ e # [])" by (rule lru_ring_cong[OF s1(2)]) (simp add: hash_onlyD[OF i(2)])
    show "hash_ring ?s k ((H(h := e # H h)) k)" if k: "k < NC_HASH_SIZE" for k
    proof (cases "k = h")
      case True
      then show ?thesis using i(1) by simp
    next
      case False
      have "hash_ring ?s k (H k)"
      proof (rule hash_ring_cong[OF hr1[OF k]])
        fix p assume "p \<in> insert (NcHash k) (NcEnt ` set (H k))"
        then have "p \<notin> insert (NcHash h) (NcEnt ` set (e # H h))"
          using False eh[OF k] nc_structD(5)[OF S k] nc_structD(5)[OF S hk] by (auto simp: chained_def)
        then show "hash_next (nc_mem ?s p) = hash_next (nc_mem s1 p) \<and> hash_prev (nc_mem ?s p) = hash_prev (nc_mem s1 p)"
          by (simp add: i(3))
      qed
      then show ?thesis using False by simp
    qed
    show "set ((H(h := e # H h)) k) = set (H k) \<union> (if nc_dp (ent s e) \<noteq> 0 \<and> nhash (ent s e) = k then {e} else {})" for k
      using dp h by auto
    show "hash_next (ent ?s f) = hash_next (ent s f) \<and> hash_prev (ent ?s f) = hash_prev (ent s f)"
      if f: "f \<in> set (L @ [])" "nc_dp (ent s f) = 0" for f
    proof -
      have "NcEnt f \<notin> insert (NcHash h) (NcEnt ` set (e # H h))"
        using f e' nc_structD(5)[OF S hk] by (auto simp: chained_def)
      then show ?thesis by (simp add: i(3) lru_onlyD[OF s1(3)])
    qed
  qed (use ok dp in auto)
  then show ?thesis using that s1(1) lo by simp
qed

section \<open>Touching an entry\<close>

lemma nc_struct_same_set:
  assumes S: "nc_struct s F L H" and lo: "links_only s s'" and R: "lru_ring s' L'" and L': "set L' = set L"
    and hr: "\<And>h. h < NC_HASH_SIZE \<Longrightarrow> hash_ring s' h (H' h) \<and> set (H' h) = set (H h)"
    and self: "\<And>f. f \<in> set L \<Longrightarrow> nc_dp (ent s f) = 0 \<Longrightarrow>
      hash_next (ent s' f) = hash_next (ent s f) \<and> hash_prev (ent s' f) = hash_prev (ent s f)"
  shows "nc_struct s' F L' H'"
proof -
  have b: "body (nc_mem s' p) = body (nc_mem s p)" for p by (rule links_onlyD[OF lo])
  note bd = body_eqD[OF b]
  have "if nc_dp (ent s' f) = 0 then free_ok s' f else entry_ok (ent s' f)" if f: "f \<in> set L" for f
    using nc_structD(6,7)[OF S f] self[OF f] by (auto simp: free_ok_def bd entry_ok_body[OF b])
  moreover have "chained s' L' h = chained s L h" for h
    by (auto simp: chained_def bd nhash_body[OF b] L')
  ultimately show ?thesis
    using R hr L' nc_structD(3,4,5)[OF S] by (auto simp: nc_struct_def)
qed

lemma move_forward_ring:
  assumes R: "hash_ring s h (as @ e # bs)"
  obtains s' as' bs' where "move_forward (NcEnt e) h s = Inr s'" "hash_ring s' h (as' @ e # bs')" "set (as' @ bs') = set (as @ bs)"
    "hash_only s s'" "\<And>p. p \<notin> insert (NcHash h) (NcEnt ` set (as @ e # bs)) \<Longrightarrow> nc_mem s' p = nc_mem s p"
proof -
  have R': "ring (\<lambda>p. hash_next (nc_mem s p)) (\<lambda>p. hash_prev (nc_mem s p)) (NcHash h)
      (map NcEnt as @ NcEnt e # map NcEnt bs)"
    using R by (simp add: hash_ring_def)
  have pv: "hash_prev (ent s e) = last (NcHash h # map NcEnt as)" by (rule ring_at(2)[OF R'])
  show ?thesis
  proof (cases as rule: rev_cases)
    case Nil
    then have "move_forward (NcEnt e) h s = Inr s" using pv by (simp add: move_forward_def)
    moreover have "hash_only s s" by (simp add: hash_only_def)
    ultimately show ?thesis using that[of s as bs] R by simp
  next
    case (snoc cs z)
    have d: "distinct (cs @ z # e # bs)" using hash_ring_distinct[OF R] snoc by auto
    have pz: "hash_prev (ent s z) = last (NcHash h # map NcEnt cs)"
      using ring_at(2)[of "\<lambda>p. hash_next (nc_mem s p)" "\<lambda>p. hash_prev (nc_mem s p)" "NcHash h"
          "map NcEnt cs" "NcEnt z" "NcEnt e # map NcEnt bs"] R' snoc by simp
    obtain s1 where s1: "remque (NcEnt e) s = Inr s1" "hash_ring s1 h (as @ bs)" "hash_only s s1"
      "\<And>p. p \<notin> insert (NcHash h) (NcEnt ` set (as @ bs)) \<Longrightarrow> nc_mem s1 p = nc_mem s p"
      using remque_ring[OF R] by blast
    let ?s = "insque (NcEnt e) (last (NcHash h # map NcEnt cs)) s1"
    have i: "hash_ring ?s h (cs @ e # z # bs)" "hash_only s1 ?s"
      "\<And>q. q \<notin> insert (NcHash h) (NcEnt ` set (cs @ e # z # bs)) \<Longrightarrow> nc_mem ?s q = nc_mem s1 q"
      using insque_ring[of s1 h cs "z # bs" e] s1(2) d snoc by auto
    show ?thesis
    proof (rule that)
      show "move_forward (NcEnt e) h s = Inr ?s"
        using pv pz s1(1) snoc by (simp add: move_forward_def)
      show "hash_only s ?s" by (rule hash_only_trans[OF s1(3) i(2)])
      show "hash_ring ?s h (cs @ e # (z # bs))" by (rule i(1))
      show "set (cs @ z # bs) = set (as @ bs)" using snoc by auto
      show "nc_mem ?s p = nc_mem s p" if "p \<notin> insert (NcHash h) (NcEnt ` set (as @ e # bs))" for p
        using that snoc by (subst i(3)) (auto intro!: s1(4))
    qed
  qed
qed

lemma touch_struct:
  assumes S: "nc_struct s F (xs @ e # ys) H" and h: "h < NC_HASH_SIZE" and eh: "e \<in> set (H h)"
  obtains s2 s3 s4 H' where "remque2 (NcEnt e) s = Inr s2" "insque2 (NcEnt e) (lru_prev (nc_mem s2 NcLru)) s2 = Inr s3"
    "move_forward (NcEnt e) h s3 = Inr s4" "nc_struct s4 F (xs @ ys @ [e]) H'" "links_only s s4"
proof -
  let ?L = "xs @ e # ys"
  have d: "distinct ?L" by (rule nc_structD(8)[OF S])
  obtain s2 where s2: "remque2 (NcEnt e) s = Inr s2" "lru_ring s2 (xs @ ys)" "lru_only s s2"
    by (rule remque2_ring[OF nc_structD(1)[OF S]])
  obtain s3 where s3: "insque2 (NcEnt e) (lru_prev (nc_mem s2 NcLru)) s2 = Inr s3" "lru_ring s3 ((xs @ ys) @ e # [])" "lru_only s2 s3"
    using insque2_ring[of s2 "xs @ ys" "[]" e "lru_prev (nc_mem s2 NcLru)"] s2(2) lru_ring_ends(2)[OF s2(2)] d by auto
  have hl: "hash_next (nc_mem s3 p) = hash_next (nc_mem s p)" "hash_prev (nc_mem s3 p) = hash_prev (nc_mem s p)" for p
    by (simp_all add: lru_onlyD[OF s3(3)] lru_onlyD[OF s2(3)])
  have hr3: "hash_ring s3 k (H k)" if k: "k < NC_HASH_SIZE" for k
    by (rule hash_ring_cong[OF nc_structD(2)[OF S k]]) (simp add: hl)
  obtain as bs where H: "H h = as @ e # bs" using eh by (auto simp: in_set_conv_decomp)
  obtain s4 as' bs' where s4: "move_forward (NcEnt e) h s3 = Inr s4" "hash_ring s4 h (as' @ e # bs')" "set (as' @ bs') = set (as @ bs)"
    "hash_only s3 s4" "\<And>p. p \<notin> insert (NcHash h) (NcEnt ` set (as @ e # bs)) \<Longrightarrow> nc_mem s4 p = nc_mem s3 p"
    using move_forward_ring[of s3 h as e bs] hr3[OF h] H by auto
  have lo: "links_only s s4"
    by (rule links_only_trans[OF lru_only_links[OF s2(3)] links_only_trans[OF lru_only_links[OF s3(3)] hash_only_links[OF s4(4)]]])
  have Hh: "set (H h) = chained s ?L h" by (rule nc_structD(5)[OF S h])
  have "nc_struct s4 F (xs @ ys @ [e]) (H(h := as' @ e # bs'))"
  proof (rule nc_struct_same_set[OF S lo])
    show "lru_ring s4 (xs @ ys @ [e])" by (rule lru_ring_cong[of s3]) (use s3(2) in \<open>simp_all add: hash_onlyD[OF s4(4)]\<close>)
    show "hash_ring s4 k ((H(h := as' @ e # bs')) k) \<and> set ((H(h := as' @ e # bs')) k) = set (H k)" if k: "k < NC_HASH_SIZE" for k
    proof (cases "k = h")
      case True
      then show ?thesis using s4(2,3) H by auto
    next
      case False
      have "hash_ring s4 k (H k)"
      proof (rule hash_ring_cong[OF hr3[OF k]])
        fix p assume "p \<in> insert (NcHash k) (NcEnt ` set (H k))"
        then have "p \<notin> insert (NcHash h) (NcEnt ` set (H h))"
          using False Hh nc_structD(5)[OF S k] by (auto simp: chained_def)
        then show "hash_next (nc_mem s4 p) = hash_next (nc_mem s3 p) \<and> hash_prev (nc_mem s4 p) = hash_prev (nc_mem s3 p)"
          using H by (simp add: s4(5))
      qed
      then show ?thesis using False by simp
    qed
    show "hash_next (ent s4 f) = hash_next (ent s f) \<and> hash_prev (ent s4 f) = hash_prev (ent s f)"
      if f: "f \<in> set ?L" "nc_dp (ent s f) = 0" for f
    proof -
      have "NcEnt f \<notin> insert (NcHash h) (NcEnt ` set (as @ e # bs))"
        using f Hh H by (auto simp: chained_def)
      then show ?thesis by (simp add: s4(5) hl)
    qed
  qed auto
  then show ?thesis using that s2(1) s3(1) s4(1) lo by blast
qed

end
