(* ===== verification/Dnlc_Refs.thy ===== *)
theory Dnlc_Refs
  imports Dnlc_Ops
begin

text \<open>
  The references the cache holds on vnodes and credentials, and the calls in flight. A call that
  sleeps in \<open>VN_RELE\<close> holds an entry that is on no list; its phase says what it does next.
  \<open>nc_ok\<close> adds the counts to the invariant: for every vnode and credential the counter is at
  least the number of references the cache holds. Every stretch of a call returns and keeps
  \<open>nc_ok\<close>, and keeps the references that others hold (\<open>vbal\<close>).
\<close>

section \<open>Calls in flight\<close>

record nc_args =
  a_dp :: int
  a_name :: string
  a_vp :: int
  a_cred :: int
  a_hash :: nat

text \<open>The next stretch: of \<open>dnlc_enter\<close>, \<open>rele_dp\<close>, \<open>rele_vp\<close> or \<open>enter_fill\<close>; of \<open>dnlc_rm\<close> likewise.\<close>

datatype nc_phase = EnterDp nc_args | EnterVp nc_args | EnterFill nc_args | RmDp | RmVp | RmPut

type_synonym nc_flight = "nat \<Rightarrow> nc_phase option"

definition holds_dp :: "nc_phase option \<Rightarrow> bool" where
  "holds_dp p = (case p of None \<Rightarrow> True | Some (EnterDp _) \<Rightarrow> True | Some RmDp \<Rightarrow> True | Some _ \<Rightarrow> False)"

definition holds_vp :: "nc_phase option \<Rightarrow> bool" where
  "holds_vp p = (case p of Some (EnterFill _) \<Rightarrow> False | Some RmPut \<Rightarrow> False | _ \<Rightarrow> True)"

definition args_ok :: "nc_args \<Rightarrow> bool" where
  "args_ok a = (a_dp a \<noteq> 0 \<and> a_vp a \<noteq> 0 \<and> a_cred a \<noteq> ANYCRED \<and> a_name a \<noteq> [] \<and> length (a_name a) \<le> NC_NAMLEN \<and>
     NC_HASH (a_name a) (length (a_name a)) (a_dp a) = Inr (a_hash a))"

fun phase_ok :: "ncache \<Rightarrow> nc_phase \<Rightarrow> bool" where
  "phase_ok n (EnterDp a) = args_ok a"
| "phase_ok n (EnterVp a) = args_ok a"
| "phase_ok n (EnterFill a) = args_ok a"
| "phase_ok n RmDp = (nc_dp n \<noteq> 0 \<and> nc_vp n \<noteq> 0)"
| "phase_ok n RmVp = (nc_vp n \<noteq> 0)"
| "phase_ok n RmPut = (nc_dp n = 0)"

section \<open>References\<close>

definition vterm :: "ncache \<Rightarrow> nc_phase option \<Rightarrow> int \<Rightarrow> int" where
  "vterm n p v = (if holds_dp p \<and> nc_dp n = v then 1 else 0) + (if holds_vp p \<and> nc_vp n = v then 1 else 0)"

definition cterm :: "ncache \<Rightarrow> int \<Rightarrow> int" where
  "cterm n c = (if nc_cred n = c then 1 else 0)"

definition vrefs :: "ncst \<Rightarrow> nc_flight \<Rightarrow> int \<Rightarrow> int" where
  "vrefs s \<phi> v = (\<Sum>e < NC_SIZE. vterm (ent s e) (\<phi> e) v)"

definition crefs :: "ncst \<Rightarrow> int \<Rightarrow> int" where
  "crefs s c = (\<Sum>e < NC_SIZE. cterm (ent s e) c)"

text \<open>The references that are not the cache's.\<close>

definition vbal :: "ncst \<Rightarrow> nc_flight \<Rightarrow> int \<Rightarrow> int" where
  "vbal s \<phi> v = v_count s v - vrefs s \<phi> v"

definition cbal :: "ncst \<Rightarrow> int \<Rightarrow> int" where
  "cbal s c = cr_ref s c - crefs s c"

definition refs_ok :: "ncst \<Rightarrow> nc_flight \<Rightarrow> bool" where
  "refs_ok s \<phi> = ((\<forall>v. v \<noteq> 0 \<longrightarrow> 0 \<le> vbal s \<phi> v \<and> v_count s v < 65536) \<and>
     (\<forall>c. c \<noteq> 0 \<longrightarrow> 0 \<le> cbal s c \<and> cr_ref s c < 65536))"

definition nc_ok :: "ncst \<Rightarrow> nc_flight \<Rightarrow> nat list \<Rightarrow> (nat \<Rightarrow> nat list) \<Rightarrow> bool" where
  "nc_ok s \<phi> L H = (nc_struct s (dom \<phi>) L H \<and> (\<forall>e p. \<phi> e = Some p \<longrightarrow> phase_ok (ent s e) p) \<and> refs_ok s \<phi>)"

lemma nc_okD:
  assumes "nc_ok s \<phi> L H"
  shows "nc_struct s (dom \<phi>) L H" "\<phi> e = Some p \<Longrightarrow> phase_ok (ent s e) p" "refs_ok s \<phi>" "\<phi> e = Some p \<Longrightarrow> e < NC_SIZE"
    "v \<noteq> 0 \<Longrightarrow> 0 \<le> vbal s \<phi> v" "v \<noteq> 0 \<Longrightarrow> v_count s v < 65536" "c \<noteq> 0 \<Longrightarrow> 0 \<le> cbal s c" "c \<noteq> 0 \<Longrightarrow> cr_ref s c < 65536"
proof -
  show "nc_struct s (dom \<phi>) L H" using assms by (simp add: nc_ok_def)
  from nc_structD(4)[OF this] show "\<phi> e = Some p \<Longrightarrow> e < NC_SIZE" by auto
qed (use assms in \<open>auto simp: nc_ok_def refs_ok_def\<close>)

text \<open>How the sums change when one entry does.\<close>

lemma sum_one:
  fixes f g :: "nat \<Rightarrow> int"
  assumes "e < n" "\<And>x. x < n \<Longrightarrow> x \<noteq> e \<Longrightarrow> g x = f x"
  shows "sum g {..< n} = sum f {..< n} - f e + g e"
proof -
  have "sum g {..< n} = g e + sum g ({..< n} - {e})" "sum f {..< n} = f e + sum f ({..< n} - {e})"
    using assms(1) by (simp_all add: sum.remove)
  moreover have "sum g ({..< n} - {e}) = sum f ({..< n} - {e})"
    by (rule sum.cong) (use assms(2) in auto)
  ultimately show ?thesis by simp
qed

lemma vrefs_one:
  assumes "e < NC_SIZE" "\<And>f. f \<noteq> e \<Longrightarrow> body (ent s' f) = body (ent s f)" "\<And>f. f \<noteq> e \<Longrightarrow> \<phi>' f = \<phi> f"
  shows "vrefs s' \<phi>' v = vrefs s \<phi> v - vterm (ent s e) (\<phi> e) v + vterm (ent s' e) (\<phi>' e) v"
  unfolding vrefs_def by (rule sum_one[OF assms(1)]) (use assms(3) body_eqD[OF assms(2)] in \<open>simp add: vterm_def\<close>)

lemma crefs_one:
  assumes "e < NC_SIZE" "\<And>f. f \<noteq> e \<Longrightarrow> body (ent s' f) = body (ent s f)"
  shows "crefs s' c = crefs s c - cterm (ent s e) c + cterm (ent s' e) c"
  unfolding crefs_def by (rule sum_one[OF assms(1)]) (use body_eqD[OF assms(2)] in \<open>simp add: cterm_def\<close>)

lemma vrefs_same:
  assumes "\<And>f. body (ent s' f) = body (ent s f)" "\<And>f. holds_dp (\<phi>' f) = holds_dp (\<phi> f) \<and> holds_vp (\<phi>' f) = holds_vp (\<phi> f)"
  shows "vrefs s' \<phi>' v = vrefs s \<phi> v"
  unfolding vrefs_def by (rule sum.cong) (use assms(2) body_eqD[OF assms(1)] in \<open>simp_all add: vterm_def\<close>)

lemma crefs_same:
  assumes "\<And>f. body (ent s' f) = body (ent s f)"
  shows "crefs s' c = crefs s c"
  unfolding crefs_def by (rule sum.cong) (use body_eqD[OF assms] in \<open>simp_all add: cterm_def\<close>)

lemma vterm_nonneg: "0 \<le> vterm n p v"
  by (simp add: vterm_def)

lemma vterm_le_vrefs: "e < NC_SIZE \<Longrightarrow> vterm (ent s e) (\<phi> e) v \<le> vrefs s \<phi> v"
  unfolding vrefs_def by (rule member_le_sum) (simp_all add: vterm_nonneg)

lemma cterm_le_crefs: "e < NC_SIZE \<Longrightarrow> cterm (ent s e) c \<le> crefs s c"
  unfolding crefs_def by (rule member_le_sum) (simp_all add: cterm_def)

lemma vrefs_nonneg: "0 \<le> vrefs s \<phi> v"
  unfolding vrefs_def by (rule sum_nonneg) (simp add: vterm_nonneg)

lemma crefs_nonneg: "0 \<le> crefs s c"
  unfolding crefs_def by (rule sum_nonneg) (simp add: cterm_def)

text \<open>Changes of links and statistics, and of phases that hold the same references.\<close>

lemma refs_ok_links:
  assumes "refs_ok s \<phi>" "links_only s s'"
    "\<And>f. holds_dp (\<phi>' f) = holds_dp (\<phi> f) \<and> holds_vp (\<phi>' f) = holds_vp (\<phi> f)"
  shows "refs_ok s' \<phi>'" "vbal s' \<phi>' v = vbal s \<phi> v" "cbal s' c = cbal s c"
  using assms(1) vrefs_same[of s' s \<phi>' \<phi>, OF links_onlyD(1)[OF assms(2)] assms(3)]
    crefs_same[of s' s, OF links_onlyD(1)[OF assms(2)]]
  by (simp_all add: refs_ok_def vbal_def cbal_def links_onlyD[OF assms(2)])

lemma phase_ok_body: "body n = body n' \<Longrightarrow> phase_ok n p = phase_ok n' p"
  by (cases p) (auto simp: body_def)

section \<open>Taking an entry\<close>

lemma nc_ok_links:
  assumes "nc_ok s \<phi> L H" "links_only s s'" "nc_struct s' (dom \<phi>) L' H'"
  shows "nc_ok s' \<phi> L' H'"
  using assms refs_ok_links(1)[OF nc_okD(3)[OF assms(1)] assms(2), of \<phi>] nc_okD(2)[OF assms(1)]
  by (auto simp: nc_ok_def phase_ok_body[OF links_onlyD(1)[OF assms(2)]])

lemma take_ok:
  assumes ok: "nc_ok s \<phi> (xs @ e # ys) H"
    and p: "holds_dp (Some p)" "holds_vp (Some p)" "phase_ok (ent s e) p"
  obtains s' where "rm_take (NcEnt e) s = Inr s'" "nc_ok s' (\<phi>(e \<mapsto> p)) (xs @ ys) (\<lambda>h. removeAll e (H h))"
    "links_only s s'" "\<And>v. vbal s' (\<phi>(e \<mapsto> p)) v = vbal s \<phi> v" "\<And>c. cbal s' c = cbal s c"
proof -
  note S = nc_okD(1)[OF ok]
  obtain s' where s': "rm_take (NcEnt e) s = Inr s'" "nc_struct s' (insert e (dom \<phi>)) (xs @ ys) (\<lambda>h. removeAll e (H h))"
    "links_only s s'"
    by (rule rm_take_struct[OF S])
  have n: "\<phi> e = None" using nc_structD(3)[OF S] by auto
  have hs: "holds_dp ((\<phi>(e \<mapsto> p)) f) = holds_dp (\<phi> f) \<and> holds_vp ((\<phi>(e \<mapsto> p)) f) = holds_vp (\<phi> f)" for f
    using p n by (simp add: holds_dp_def holds_vp_def)
  note r = refs_ok_links[OF nc_okD(3)[OF ok] s'(3), of "\<phi>(e \<mapsto> p)", OF hs]
  have "nc_ok s' (\<phi>(e \<mapsto> p)) (xs @ ys) (\<lambda>h. removeAll e (H h))"
    using s'(2) r(1) p(3) nc_okD(2)[OF ok] by (auto simp: nc_ok_def phase_ok_body[OF links_onlyD(1)[OF s'(3)]])
  then show ?thesis using that s' r by blast
qed

section \<open>Releasing its vnodes\<close>

text \<open>A release of one reference the cache holds, with the entry's phase moving on.\<close>

lemma vn_rele_ok:
  assumes ok: "nc_ok s \<phi> L H" and e: "\<phi> e = Some p" and v: "v \<noteq> 0"
    and t: "\<And>w. w \<noteq> 0 \<Longrightarrow> vterm (ent s e) (Some q) w = vterm (ent s e) (Some p) w - (if w = v then 1 else 0)"
    and q: "phase_ok (ent s e) q"
  obtains s' where "vn_rele v s = Inr s'" "nc_ok s' (\<phi>(e \<mapsto> q)) L H" "nc_mem s' = nc_mem s"
    "\<And>w. w \<noteq> 0 \<Longrightarrow> vbal s' (\<phi>(e \<mapsto> q)) w = vbal s \<phi> w" "cr_ref s' = cr_ref s" "doingcache s' = doingcache s"
proof -
  have e32: "e < NC_SIZE" by (rule nc_okD(4)[OF ok e])
  have "1 \<le> vterm (ent s e) (\<phi> e) v" using t[OF v] e vterm_nonneg[of "ent s e" "Some q" v] by simp
  also have "\<dots> \<le> vrefs s \<phi> v" by (rule vterm_le_vrefs[OF e32])
  also have "\<dots> \<le> v_count s v" using nc_okD(5)[OF ok v] by (simp add: vbal_def)
  finally have c1: "1 \<le> v_count s v" .
  have u: "u16 (v_count s v - 1) = v_count s v - 1"
    using c1 nc_okD(6)[OF ok v] by (intro u16_id) simp_all
  let ?s1 = "s\<lparr>v_count := (v_count s)(v := v_count s v - 1)\<rparr>"
  let ?s = "if v_count s v - 1 = 0 then ?s1\<lparr>inactive := inactive ?s1 @ [v]\<rparr> else ?s1"
  have R: "vn_rele v s = Inr ?s"
    using c1 by (simp add: vn_rele_def Let_def u)
  have m: "nc_mem ?s = nc_mem s" "cr_ref ?s = cr_ref s" "doingcache ?s = doingcache s"
    "v_count ?s = (v_count s)(v := v_count s v - 1)" by auto
  have vr: "vrefs ?s (\<phi>(e \<mapsto> q)) w = vrefs s \<phi> w - (if w = v then 1 else 0)" if "w \<noteq> 0" for w
    using vrefs_one[of e ?s s "\<phi>(e \<mapsto> q)" \<phi> w] e32 t[OF that] e by (simp only: m) simp
  have b: "vbal ?s (\<phi>(e \<mapsto> q)) w = vbal s \<phi> w" if "w \<noteq> 0" for w
    using vr[OF that] by (simp only: vbal_def m) simp
  have st: "nc_struct ?s (dom (\<phi>(e \<mapsto> q))) L H"
    by (rule nc_struct_cong) (use nc_okD(1)[OF ok] e m in \<open>auto simp: insert_absorb domI\<close>)
  have ro: "refs_ok ?s (\<phi>(e \<mapsto> q))"
    using b nc_okD(5-8)[OF ok] nc_okD(6)[OF ok v] crefs_same[of ?s s] unfolding refs_ok_def cbal_def m
    by (auto simp: less_diff_eq)
  have "nc_ok ?s (\<phi>(e \<mapsto> q)) L H"
    using st ro q nc_okD(2)[OF ok] m by (auto simp: nc_ok_def)
  then show ?thesis using that R m b by blast
qed

text \<open>The four releases: nothing to do, or one reference less.\<close>

lemma no_rele_ok:
  assumes ok: "nc_ok s \<phi> L H" and e: "\<phi> e = Some p"
    and t: "\<And>w. w \<noteq> 0 \<Longrightarrow> vterm (ent s e) (Some q) w = vterm (ent s e) (Some p) w"
    and q: "phase_ok (ent s e) q"
  shows "nc_ok s (\<phi>(e \<mapsto> q)) L H" "w \<noteq> 0 \<Longrightarrow> vbal s (\<phi>(e \<mapsto> q)) w = vbal s \<phi> w"
proof -
  have b: "vbal s (\<phi>(e \<mapsto> q)) w = vbal s \<phi> w" if "w \<noteq> 0" for w
    using vrefs_one[of e s s "\<phi>(e \<mapsto> q)" \<phi> w] nc_okD(4)[OF ok e] t[OF that] e by (simp add: vbal_def)
  then show "w \<noteq> 0 \<Longrightarrow> vbal s (\<phi>(e \<mapsto> q)) w = vbal s \<phi> w" .
  have "dom (\<phi>(e \<mapsto> q)) = dom \<phi>" using e by auto
  then show "nc_ok s (\<phi>(e \<mapsto> q)) L H"
    using nc_okD(1-3)[OF ok] q b by (auto simp: nc_ok_def refs_ok_def)
qed

lemma rele_dp_ok:
  assumes ok: "nc_ok s \<phi> L H" and e: "\<phi> e = Some (EnterDp a)"
  obtains s' where "rele_dp (NcEnt e) s = Inr s'" "nc_ok s' (\<phi>(e \<mapsto> EnterVp a)) L H" "nc_mem s' = nc_mem s"
    "\<And>w. w \<noteq> 0 \<Longrightarrow> vbal s' (\<phi>(e \<mapsto> EnterVp a)) w = vbal s \<phi> w" "cr_ref s' = cr_ref s" "doingcache s' = doingcache s"
proof (cases "nc_dp (ent s e) = 0")
  case True
  then show ?thesis
    using that[of s] no_rele_ok[OF ok e, of "EnterVp a"] nc_okD(2)[OF ok e]
    by (simp add: rele_dp_def vterm_def holds_dp_def holds_vp_def)
next
  case False
  have t: "vterm (ent s e) (Some (EnterVp a)) w = vterm (ent s e) (Some (EnterDp a)) w - (if w = nc_dp (ent s e) then 1 else 0)" for w
    by (simp add: vterm_def holds_dp_def holds_vp_def)
  have q: "phase_ok (ent s e) (EnterVp a)" using nc_okD(2)[OF ok e] by simp
  have E: "rele_dp (NcEnt e) s = vn_rele (nc_dp (ent s e)) s" using False by (simp add: rele_dp_def)
  show ?thesis
    by (rule vn_rele_ok[OF ok e False t q]) (rule that[unfolded E], assumption, assumption, assumption, blast)
qed

lemma rele_vp_ok:
  assumes ok: "nc_ok s \<phi> L H" and e: "\<phi> e = Some (EnterVp a)"
  obtains s' where "rele_vp (NcEnt e) s = Inr s'" "nc_ok s' (\<phi>(e \<mapsto> EnterFill a)) L H" "nc_mem s' = nc_mem s"
    "\<And>w. w \<noteq> 0 \<Longrightarrow> vbal s' (\<phi>(e \<mapsto> EnterFill a)) w = vbal s \<phi> w" "cr_ref s' = cr_ref s" "doingcache s' = doingcache s"
proof (cases "nc_vp (ent s e) = 0")
  case True
  then show ?thesis
    using that[of s] no_rele_ok[OF ok e, of "EnterFill a"] nc_okD(2)[OF ok e]
    by (simp add: rele_vp_def vterm_def holds_dp_def holds_vp_def)
next
  case False
  have t: "vterm (ent s e) (Some (EnterFill a)) w = vterm (ent s e) (Some (EnterVp a)) w - (if w = nc_vp (ent s e) then 1 else 0)" for w
    by (simp add: vterm_def holds_dp_def holds_vp_def)
  have q: "phase_ok (ent s e) (EnterFill a)" using nc_okD(2)[OF ok e] by simp
  have E: "rele_vp (NcEnt e) s = vn_rele (nc_vp (ent s e)) s" using False by (simp add: rele_vp_def)
  show ?thesis
    by (rule vn_rele_ok[OF ok e False t q]) (rule that[unfolded E], assumption, assumption, assumption, blast)
qed

lemma rm_rele_dp_ok:
  assumes ok: "nc_ok s \<phi> L H" and e: "\<phi> e = Some RmDp"
  obtains s' where "rm_rele_dp (NcEnt e) s = Inr s'" "nc_ok s' (\<phi>(e \<mapsto> RmVp)) L H" "nc_mem s' = nc_mem s"
    "\<And>w. w \<noteq> 0 \<Longrightarrow> vbal s' (\<phi>(e \<mapsto> RmVp)) w = vbal s \<phi> w" "cr_ref s' = cr_ref s" "doingcache s' = doingcache s"
proof -
  have v: "nc_dp (ent s e) \<noteq> 0" and q: "phase_ok (ent s e) RmVp" using nc_okD(2)[OF ok e] by auto
  have t: "vterm (ent s e) (Some RmVp) w = vterm (ent s e) (Some RmDp) w - (if w = nc_dp (ent s e) then 1 else 0)" for w
    by (simp add: vterm_def holds_dp_def holds_vp_def)
  have E: "rm_rele_dp (NcEnt e) s = vn_rele (nc_dp (ent s e)) s" using v by (simp add: rm_rele_dp_def)
  show ?thesis
    by (rule vn_rele_ok[OF ok e v t q]) (rule that[unfolded E], assumption, assumption, assumption, blast)
qed

text \<open>A change of an entry in flight that no term sees.\<close>

lemma upd_flight:
  assumes ok: "nc_ok s \<phi> L H" and e: "\<phi> e = Some p"
    and t: "\<And>w. w \<noteq> 0 \<Longrightarrow> vterm (f (ent s e)) (Some p) w = vterm (ent s e) (Some p) w"
    and c: "nc_cred (f (ent s e)) = nc_cred (ent s e)" and p: "phase_ok (f (ent s e)) p"
  shows "nc_ok (upd_nc (NcEnt e) f s) \<phi> L H" "w \<noteq> 0 \<Longrightarrow> vbal (upd_nc (NcEnt e) f s) \<phi> w = vbal s \<phi> w"
    "cbal (upd_nc (NcEnt e) f s) x = cbal s x"
proof -
  let ?s = "upd_nc (NcEnt e) f s"
  have e32: "e < NC_SIZE" by (rule nc_okD(4)[OF ok e])
  have b: "vbal ?s \<phi> w = vbal s \<phi> w" if "w \<noteq> 0" for w
    using vrefs_one[of e ?s s \<phi> \<phi> w] e32 t[OF that] e by (simp add: vbal_def upd_nc_def)
  have cb: "cbal ?s x = cbal s x" for x
    using crefs_one[of e ?s s x] e32 c by (simp add: cbal_def upd_nc_def cterm_def)
  show "w \<noteq> 0 \<Longrightarrow> vbal ?s \<phi> w = vbal s \<phi> w" by (rule b)
  show "cbal ?s x = cbal s x" by (rule cb)
  have "nc_struct ?s (dom \<phi>) L H"
    by (rule nc_struct_cong[OF nc_okD(1)[OF ok]]) (use e in \<open>auto simp: upd_nc_def\<close>)
  then show "nc_ok ?s \<phi> L H"
    using nc_okD(2,3)[OF ok] p b cb e by (auto simp: nc_ok_def refs_ok_def upd_nc_def)
qed

lemma rm_rele_vp_ok:
  assumes ok: "nc_ok s \<phi> L H" and e: "\<phi> e = Some RmVp"
  obtains s' where "rm_rele_vp (NcEnt e) s = Inr s'" "nc_ok s' (\<phi>(e \<mapsto> RmPut)) L H"
    "\<And>f. f \<noteq> e \<Longrightarrow> ent s' f = ent s f" "nc_cred (ent s' e) = nc_cred (ent s e)"
    "\<And>w. w \<noteq> 0 \<Longrightarrow> vbal s' (\<phi>(e \<mapsto> RmPut)) w = vbal s \<phi> w" "\<And>c. cbal s' c = cbal s c" "cr_ref s' = cr_ref s"
    "doingcache s' = doingcache s"
proof -
  let ?s = "upd_nc (NcEnt e) (nc_dp_update (\<lambda>_. 0)) s"
  have v: "nc_vp (ent s e) \<noteq> 0" using nc_okD(2)[OF ok e] by simp
  have u: "nc_ok ?s \<phi> L H" "w \<noteq> 0 \<Longrightarrow> vbal ?s \<phi> w = vbal s \<phi> w" "cbal ?s x = cbal s x" for w x
    by (rule upd_flight[OF ok e]; use v in \<open>simp add: vterm_def holds_dp_def holds_vp_def\<close>)+
  have m: "ent ?s e = (ent s e)\<lparr>nc_dp := 0\<rparr>" "f \<noteq> e \<Longrightarrow> ent ?s f = ent s f" for f by (simp_all add: upd_nc_def)
  have t: "vterm (ent ?s e) (Some RmPut) w = vterm (ent ?s e) (Some RmVp) w - (if w = nc_vp (ent s e) then 1 else 0)" for w
    by (simp add: m vterm_def holds_dp_def holds_vp_def)
  have q: "phase_ok (ent ?s e) RmPut" by (simp add: m)
  obtain s' where s': "vn_rele (nc_vp (ent s e)) ?s = Inr s'" "nc_ok s' (\<phi>(e \<mapsto> RmPut)) L H" "nc_mem s' = nc_mem ?s"
    "\<And>w. w \<noteq> 0 \<Longrightarrow> vbal s' (\<phi>(e \<mapsto> RmPut)) w = vbal ?s \<phi> w" "cr_ref s' = cr_ref ?s" "doingcache s' = doingcache ?s"
    using vn_rele_ok[OF u(1) e v t q] by blast
  have "cbal s' c = cbal s c" for c
    using u(3)[of c] s'(5) crefs_same[of s' ?s c] s'(3) by (simp add: cbal_def)
  moreover have "rm_rele_vp (NcEnt e) s = Inr s'" using s'(1) by (simp add: rm_rele_vp_def m)
  ultimately show ?thesis using that s' u(2) by (simp add: m) (simp add: upd_nc_def)
qed

section \<open>Putting it back\<close>

lemma crfree_spec:
  assumes "1 \<le> cr_ref s c" "cr_ref s c < 65536"
  obtains x where "x = cr_ref s c - 1 \<or> cr_ref s c = 1 \<and> 0 \<le> x \<and> x < 65536" "cr_ref (crfree c s) = (cr_ref s)(c := x)"
    "nc_mem (crfree c s) = nc_mem s" "v_count (crfree c s) = v_count s" "doingcache (crfree c s) = doingcache s"
proof -
  have u: "u16 (cr_ref s c - 1) = cr_ref s c - 1" using assms by (intro u16_id) simp_all
  show ?thesis
  proof (rule that[of "cr_ref (crfree c s) c"])
    show "cr_ref (crfree c s) c = cr_ref s c - 1 \<or> cr_ref s c = 1 \<and> 0 \<le> cr_ref (crfree c s) c \<and> cr_ref (crfree c s) c < 65536"
      using u16_range by (simp add: crfree_def Let_def u)
  qed (auto simp: crfree_def Let_def)
qed

lemma rm_put_ok:
  assumes ok: "nc_ok s \<phi> L H" and e: "\<phi> e = Some RmPut"
  obtains s' where "rm_put (NcEnt e) s = Inr s'" "nc_ok s' (\<phi>(e := None)) (e # L) H"
    "\<And>f. f \<noteq> e \<Longrightarrow> body (ent s' f) = body (ent s f)" "nc_dp (ent s' e) = 0"
    "\<And>w. w \<noteq> 0 \<Longrightarrow> vbal s' (\<phi>(e := None)) w = vbal s \<phi> w"
    "\<And>x. x \<noteq> 0 \<Longrightarrow> x \<noteq> nc_cred (ent s e) \<or> cr_ref s x \<noteq> 1 \<Longrightarrow> cbal s' x = cbal s x"
    "doingcache s' = doingcache s"
proof -
  let ?c = "nc_cred (ent s e)"
  let ?s1 = "upd_nc (NcEnt e) (nc_vp_update (\<lambda>_. 0)) s"
  have e32: "e < NC_SIZE" by (rule nc_okD(4)[OF ok e])
  have dp: "nc_dp (ent s e) = 0" using nc_okD(2)[OF ok e] by simp
  define s2 where "s2 = (if ?c \<noteq> NOCRED then upd_nc (NcEnt e) (nc_cred_update (\<lambda>_. NOCRED)) (crfree ?c ?s1) else ?s1)"
  have cr1: "1 \<le> cr_ref s ?c \<and> cr_ref s ?c < 65536" if "?c \<noteq> 0"
    using cterm_le_crefs[OF e32, of s ?c] nc_okD(7,8)[OF ok that] by (simp add: cbal_def cterm_def)
  have m2: "v_count s2 = v_count s" "doingcache s2 = doingcache s" "nc_mem s2 p = (if p = NcEnt e then (ent s e)\<lparr>nc_vp := 0, nc_cred := NOCRED\<rparr> else nc_mem s p)" for p
    by (auto simp: s2_def upd_nc_def crfree_def Let_def)
  have c2: "(x \<noteq> ?c \<or> cr_ref s x \<noteq> 1 \<longrightarrow> cbal s2 x = cbal s x) \<and> 0 \<le> cbal s2 x \<and> cr_ref s2 x < 65536" if x: "x \<noteq> 0" for x
  proof (cases "?c = 0")
    case True
    then have "cr_ref s2 = cr_ref s" by (simp add: s2_def upd_nc_def)
    moreover have "crefs s2 x = crefs s x"
      using crefs_one[of e s2 s x] e32 True x by (simp add: m2 cterm_def)
    ultimately show ?thesis using nc_okD(7,8)[OF ok x] by (simp add: cbal_def)
  next
    case False
    obtain y where y: "y = cr_ref s ?c - 1 \<or> cr_ref s ?c = 1 \<and> 0 \<le> y \<and> y < 65536" "cr_ref (crfree ?c ?s1) = (cr_ref s)(?c := y)"
      using crfree_spec[of ?s1 ?c] cr1[OF False] by (auto simp: upd_nc_def)
    have r: "cr_ref s2 = (cr_ref s)(?c := y)" using False y(2) by (simp add: s2_def) (simp add: upd_nc_def)
    have k: "crefs s2 x = crefs s x - (if x = ?c then 1 else 0)"
      using crefs_one[of e s2 s x] e32 x by (simp add: m2 cterm_def)
    show ?thesis
      using y(1) k r nc_okD(7,8)[OF ok x] crefs_nonneg[of s2 x] crefs_nonneg[of s x] by (auto simp: cbal_def)
  qed
  have st2: "nc_struct s2 (dom \<phi>) L H"
    by (rule nc_struct_cong[OF nc_okD(1)[OF ok]]) (use e in \<open>auto simp: m2\<close>)
  obtain s3 where s3: "insque2 (NcEnt e) NcLru s2 = Inr s3" "nc_struct (NULL_HASH (NcEnt e) s3) (dom \<phi> - {e}) (e # L) H"
    "links_only s2 (NULL_HASH (NcEnt e) s3)"
    by (rule put_free[OF st2, of e]) (use e dp in \<open>auto simp: m2\<close>)
  let ?s = "NULL_HASH (NcEnt e) s3"
  have b: "body (nc_mem ?s p) = body (nc_mem s2 p)" for p by (rule links_onlyD[OF s3(3)])
  have b': "body (ent ?s f) = body (ent s f)" if "f \<noteq> e" for f using b[of "NcEnt f"] that by (simp add: m2)
  have vb: "vbal ?s (\<phi>(e := None)) w = vbal s \<phi> w" if "w \<noteq> 0" for w
    using vrefs_one[of e ?s s "\<phi>(e := None)" \<phi> w] e32 b' that e dp body_eqD[OF b, of "NcEnt e"]
    by (simp add: vbal_def links_onlyD(4)[OF s3(3)] m2 vterm_def holds_dp_def holds_vp_def)
  have cb: "cbal ?s x = cbal s2 x" for x
    using crefs_same[of ?s s2 x, OF b] by (simp add: cbal_def links_onlyD(6)[OF s3(3)])
  have "nc_ok ?s (\<phi>(e := None)) (e # L) H"
    using s3(2) nc_okD(2)[OF ok] nc_okD(5,6)[OF ok] vb c2 b' phase_ok_body[OF b']
    by (auto simp: nc_ok_def refs_ok_def cb links_onlyD(4,6)[OF s3(3)] m2)
  moreover have "rm_put (NcEnt e) s = Inr ?s"
  proof -
    have "nc_cred (ent ?s1 e) = ?c" by (simp add: upd_nc_def)
    then have "rm_put (NcEnt e) s = andthen (insque2 (NcEnt e) NcLru s2) (\<lambda>s3. Inr (NULL_HASH (NcEnt e) s3))"
      by (simp add: rm_put_def Let_def s2_def)
    then show ?thesis using s3(1) by simp
  qed
  moreover have "nc_dp (ent ?s e) = 0" using body_eqD(1)[OF b, of "NcEnt e"] dp by (simp add: m2)
  ultimately show ?thesis using that[of ?s] b' vb cb c2 by (simp add: links_onlyD(3)[OF s3(3)] m2)
qed

lemma enter_fill_ok:
  assumes ok: "nc_ok s \<phi> L H" and e: "\<phi> e = Some (EnterFill a)"
    and room: "v_count s (a_dp a) + 2 < 65536" "v_count s (a_vp a) + 2 < 65536" "a_cred a \<noteq> 0 \<Longrightarrow> cr_ref s (a_cred a) + 1 < 65536"
  obtains s' H' where "enter_fill (NcEnt e) (a_hash a) (a_dp a) (a_name a) (a_vp a) (a_cred a) s = Inr s'"
    "nc_ok s' (\<phi>(e := None)) (L @ [e]) H'" "\<And>f. f \<noteq> e \<Longrightarrow> body (ent s' f) = body (ent s f)"
    "body (ent s' e) = (a_dp a, a_vp a, int (length (a_name a)), a_name a @ drop (length (a_name a)) (nc_name (ent s e)), a_cred a)"
    "\<And>w. w \<noteq> 0 \<Longrightarrow> vbal s' (\<phi>(e := None)) w = vbal s \<phi> w"
    "\<And>x. x \<noteq> 0 \<Longrightarrow> cbal s' x = cbal s x + cterm (ent s e) x" "doingcache s' = doingcache s"
proof -
  let ?dp = "a_dp a" and ?vp = "a_vp a" and ?nm = "a_name a" and ?c = "a_cred a"
  let ?n = "length ?nm"
  have e32: "e < NC_SIZE" by (rule nc_okD(4)[OF ok e])
  have args: "args_ok a" using nc_okD(2)[OF ok e] by simp
  define s3 where "s3 = upd_nc (NcEnt e) (\<lambda>e. e\<lparr>nc_namlen := int ?n, nc_name := ?nm @ drop ?n (nc_name e)\<rparr>)
      (VN_HOLD ?vp (upd_nc (NcEnt e) (nc_vp_update (\<lambda>_. ?vp)) (VN_HOLD ?dp (upd_nc (NcEnt e) (nc_dp_update (\<lambda>_. ?dp)) s))))"
  define s5 where "s5 = (let s4 = upd_nc (NcEnt e) (nc_cred_update (\<lambda>_. ?c)) s3 in if ?c \<noteq> NOCRED then crhold ?c s4 else s4)"
  have vn: "0 \<le> v_count s w" if "w \<noteq> 0" for w
    using nc_okD(5)[OF ok that] vrefs_nonneg[of s \<phi> w] by (simp add: vbal_def)
  have ur: "u16 (v_count s ?dp + 1) = v_count s ?dp + 1" "u16 (v_count s ?vp + 1) = v_count s ?vp + 1"
    "u16 (2 + v_count s ?dp) = 2 + v_count s ?dp"
    using room(1,2) args vn by (auto simp: args_ok_def intro!: u16_id)
  have v5: "v_count s5 w = v_count s w + (if ?dp = w then 1 else 0) + (if ?vp = w then 1 else 0)" for w
    by (auto simp: s5_def s3_def Let_def VN_HOLD_def crhold_def upd_nc_def ur)
  have c5: "cr_ref s5 x = cr_ref s x + (if ?c = x then 1 else 0)" if "x \<noteq> 0" for x
  proof -
    have "u16 (cr_ref s ?c + 1) = cr_ref s ?c + 1" if "?c \<noteq> 0"
      using room(3)[OF that] nc_okD(7)[OF ok that] crefs_nonneg[of s ?c] by (intro u16_id) (simp_all add: cbal_def)
    then show ?thesis using that by (auto simp: s5_def s3_def Let_def VN_HOLD_def crhold_def upd_nc_def)
  qed
  have m5: "doingcache s5 = doingcache s"
    "nc_mem s5 p = (if p = NcEnt e then (ent s e)\<lparr>nc_dp := ?dp, nc_vp := ?vp, nc_namlen := int ?n,
        nc_name := ?nm @ drop ?n (nc_name (ent s e)), nc_cred := ?c\<rparr> else nc_mem s p)" for p
    by (auto simp: s5_def s3_def Let_def VN_HOLD_def crhold_def upd_nc_def)
  have st5: "nc_struct s5 (dom \<phi>) L H"
    by (rule nc_struct_cong[OF nc_okD(1)[OF ok]]) (use e in \<open>auto simp: m5\<close>)
  have eok: "entry_ok (ent s5 e)"
    using args by (auto simp: m5 entry_ok_def args_ok_def Suc_le_eq)
  have mt: "matches ?dp ?nm ANYCRED (ent s5 e)" by (simp add: matches_def m5)
  have hh: "a_hash a = nhash (ent s5 e)"
    using NC_HASH_nhash[OF mt] args by (simp add: args_ok_def)
  obtain s6 where s6: "insque2 (NcEnt e) (lru_prev (nc_mem s5 NcLru)) s5 = Inr s6"
    "nc_struct (insque (NcEnt e) (NcHash (a_hash a)) s6) (dom \<phi> - {e}) (L @ [e]) (H(a_hash a := e # H (a_hash a)))"
    "links_only s5 (insque (NcEnt e) (NcHash (a_hash a)) s6)"
    by (rule put_cached[OF st5 _ eok hh]) (use e in auto)
  let ?s = "insque (NcEnt e) (NcHash (a_hash a)) s6"
  have b: "body (nc_mem ?s p) = body (nc_mem s5 p)" for p by (rule links_onlyD[OF s6(3)])
  have b': "body (ent ?s f) = body (ent s f)" if "f \<noteq> e" for f using b[of "NcEnt f"] that by (simp add: m5)
  have be: "body (ent ?s e) = (?dp, ?vp, int ?n, ?nm @ drop ?n (nc_name (ent s e)), ?c)"
    using b[of "NcEnt e"] by (simp add: m5 body_def)
  have vb: "vbal ?s (\<phi>(e := None)) w = vbal s \<phi> w" if "w \<noteq> 0" for w
    using vrefs_one[of e ?s s "\<phi>(e := None)" \<phi> w] e32 b' that e be
    by (simp add: vbal_def links_onlyD(4)[OF s6(3)] v5 vterm_def holds_dp_def holds_vp_def body_def)
  have cb: "cbal ?s x = cbal s x + cterm (ent s e) x" if "x \<noteq> 0" for x
    using crefs_one[of e ?s s x] e32 b' be that
    by (simp add: cbal_def links_onlyD(6)[OF s6(3)] c5 cterm_def body_def)
  have vlt: "v_count s5 w < 65536" if "w \<noteq> 0" for w
    using nc_okD(6)[OF ok that] room(1,2) by (auto simp: v5)
  have clt: "cr_ref s5 x < 65536" if "x \<noteq> 0" for x
    using nc_okD(8)[OF ok that] room(3) that by (cases "x = a_cred a") (simp_all add: c5)
  have "nc_ok ?s (\<phi>(e := None)) (L @ [e]) (H(a_hash a := e # H (a_hash a)))"
    using s6(2) nc_okD(2)[OF ok] nc_okD(5,7)[OF ok] vb cb b' phase_ok_body[OF b'] vlt clt
    by (auto simp: nc_ok_def refs_ok_def links_onlyD(4,6)[OF s6(3)] cterm_def)
  moreover have "enter_fill (NcEnt e) (a_hash a) ?dp ?nm ?vp ?c s = Inr ?s"
    using s6(1) by (simp add: enter_fill_def Let_def s5_def s3_def)
  ultimately show ?thesis using that[of ?s] b' be vb cb by (simp add: links_onlyD(3)[OF s6(3)] m5)
qed

end
