(* ===== verification/Dnlc_Seq.thy ===== *)
theory Dnlc_Seq
  imports Dnlc_Refs
begin

text \<open>
  What a whole call does when nothing else runs between its stretches: the cache seen as a list of
  entries from the least to the most recently used, and \<open>dnlc_init\<close>, \<open>dnlc_enter\<close>,
  \<open>dnlc_lookup\<close>, \<open>dnlc_rm\<close>, \<open>dnlc_remove\<close> and \<open>dnlc_purge\<close> on that list. Other calls may
  be asleep meanwhile: their entries are on no list and are not touched.
\<close>

section \<open>The cache as a list\<close>

datatype centry = Free | Cached (c_dp: int) (c_name: string) (c_cred: int) (c_vp: int)

definition cview :: "ncache \<Rightarrow> centry" where
  "cview n = (if nc_dp n = 0 then Free else Cached (nc_dp n) (take (nat (nc_namlen n)) (nc_name n)) (nc_cred n) (nc_vp n))"

primrec lru_walk :: "nat \<Rightarrow> ncst \<Rightarrow> nptr \<Rightarrow> nat list" where
  "lru_walk 0 s p = []"
| "lru_walk (Suc n) s p = (case p of NcEnt e \<Rightarrow> e # lru_walk n s (lru_next (nc_mem s p)) | _ \<Rightarrow> [])"

definition lru_list :: "ncst \<Rightarrow> nat list" where
  "lru_list s = lru_walk NC_SIZE s (lru_next (nc_mem s NcLru))"

definition cache_view :: "ncst \<Rightarrow> centry list" where
  "cache_view s = map (\<lambda>e. cview (ent s e)) (lru_list s)"

fun is_name :: "int \<Rightarrow> string \<Rightarrow> int \<Rightarrow> centry \<Rightarrow> bool" where
  "is_name dp name cred Free = False"
| "is_name dp name cred (Cached d n c v) = (d = dp \<and> n = name \<and> (cred = ANYCRED \<or> c = cred))"

lemma lru_walk_chain:
  "chain (\<lambda>p. lru_next (nc_mem s p)) pv p (map NcEnt L) NcLru \<Longrightarrow> length L \<le> n \<Longrightarrow>
   lru_walk n s (hd (map NcEnt L @ [NcLru])) = L"
proof (induction L arbitrary: p n)
  case Nil
  then show ?case by (cases n) simp_all
next
  case (Cons e L)
  obtain m where m: "n = Suc m" using Cons.prems(2) by (cases n) auto
  have "lru_next (ent s e) = hd (map NcEnt L @ [NcLru])" using Cons.prems(1) by (auto dest: chain_next)
  then show ?case using Cons.IH[of "NcEnt e" m] Cons.prems m by simp
qed

lemma lru_list_ring:
  assumes "nc_struct s F L H"
  shows "lru_list s = L"
proof -
  note R = nc_structD(1)[OF assms]
  have "card (set L) \<le> card {..< 32 :: nat}" using nc_structD(4)[OF assms] by (intro card_mono) auto
  then have "length L \<le> NC_SIZE" using nc_structD(8)[OF assms] by (simp add: distinct_card)
  moreover have "chain (\<lambda>p. lru_next (nc_mem s p)) (\<lambda>p. lru_prev (nc_mem s p)) NcLru (map NcEnt L) NcLru"
    using R by (simp add: lru_ring_def ring_def)
  ultimately show ?thesis using lru_ring_ends(1)[OF R] by (simp add: lru_list_def lru_walk_chain)
qed

lemma cview_body: "body n = body n' \<Longrightarrow> cview n = cview n'"
  by (simp add: cview_def body_def)

lemma is_name_matches:
  assumes "nc_dp n = 0 \<or> entry_ok n" "dp \<noteq> 0"
  shows "is_name dp name cred (cview n) = matches dp name cred n"
  using assms by (auto simp: cview_def matches_def entry_ok_def)

lemma listed_name:
  assumes "nc_ok s \<phi> L H" "e \<in> set L" "dp \<noteq> 0"
  shows "is_name dp name cred (cview (ent s e)) = matches dp name cred (ent s e)"
  using nc_structD(7)[OF nc_okD(1)[OF assms(1)] assms(2)] assms(3) by (intro is_name_matches) auto

lemma cache_view_ok: "nc_ok s \<phi> L H \<Longrightarrow> cache_view s = map (\<lambda>e. cview (ent s e)) L"
  by (simp add: cache_view_def lru_list_ring[OF nc_okD(1)])

section \<open>Initialisation\<close>

lemma init_entries_spec:
  "lru_ring s L \<Longrightarrow> distinct is \<Longrightarrow> set is \<inter> set L = {} \<Longrightarrow>
   \<exists>s'. init_entries is s = Inr s' \<and> lru_ring s' (rev is @ L) \<and> s'\<lparr>nc_mem := nc_mem s\<rparr> = s \<and>
     (\<forall>e. nc_cred (ent s' e) = nc_cred (ent s e)) \<and>
     (\<forall>e. if e \<in> set is
          then nc_dp (ent s' e) = 0 \<and> nc_vp (ent s' e) = 0 \<and> hash_next (ent s' e) = NcEnt e \<and> hash_prev (ent s' e) = NcEnt e
          else nc_dp (ent s' e) = nc_dp (ent s e) \<and> nc_vp (ent s' e) = nc_vp (ent s e) \<and>
               hash_next (ent s' e) = hash_next (ent s e) \<and> hash_prev (ent s' e) = hash_prev (ent s e))"
proof (induction "is" arbitrary: s L)
  case Nil
  then show ?case by simp
next
  case (Cons i "is")
  obtain s1 where s1: "insque2 (NcEnt i) NcLru s = Inr s1" "lru_ring s1 ([] @ i # L)" "lru_only s s1"
    using insque2_ring[of s "[]" L i NcLru] Cons.prems by auto
  let ?s2 = "upd_nc (NcEnt i) (\<lambda>e. e\<lparr>nc_dp := 0, nc_vp := 0\<rparr>) (NULL_HASH (NcEnt i) s1)"
  have m: "nc_mem ?s2 p = (if p = NcEnt i then (nc_mem s1 p)\<lparr>hash_next := p, hash_prev := p, nc_dp := 0, nc_vp := 0\<rparr> else nc_mem s1 p)" for p
    by (simp add: upd_nc_def NULL_HASH_def)
  have "lru_ring ?s2 (i # L)" by (rule lru_ring_cong[of s1]) (use s1(2) in \<open>auto simp: m\<close>)
  then obtain s' where s': "init_entries is ?s2 = Inr s'" "lru_ring s' (rev is @ i # L)" "s'\<lparr>nc_mem := nc_mem ?s2\<rparr> = ?s2"
    "\<forall>e. nc_cred (ent s' e) = nc_cred (ent ?s2 e)"
    "\<forall>e. if e \<in> set is
          then nc_dp (ent s' e) = 0 \<and> nc_vp (ent s' e) = 0 \<and> hash_next (ent s' e) = NcEnt e \<and> hash_prev (ent s' e) = NcEnt e
          else nc_dp (ent s' e) = nc_dp (ent ?s2 e) \<and> nc_vp (ent s' e) = nc_vp (ent ?s2 e) \<and>
               hash_next (ent s' e) = hash_next (ent ?s2 e) \<and> hash_prev (ent s' e) = hash_prev (ent ?s2 e)"
    using Cons.IH[of ?s2 "i # L"] Cons.prems by auto
  have "s'\<lparr>nc_mem := nc_mem s\<rparr> = s"
    using s'(3) s1(3) unfolding lru_only_def upd_nc_def NULL_HASH_def by (cases s; cases s1; cases s'; simp)
  moreover note b = lru_onlyD[OF s1(3)]
  note bd = body_eqD[OF b(3)]
  have "init_entries (i # is) s = Inr s'" using s1(1) s'(1) by simp
  moreover have "\<forall>e. nc_cred (ent s' e) = nc_cred (ent s e)" using s'(4) by (simp add: m bd)
  moreover have "\<forall>e. if e \<in> set (i # is)
          then nc_dp (ent s' e) = 0 \<and> nc_vp (ent s' e) = 0 \<and> hash_next (ent s' e) = NcEnt e \<and> hash_prev (ent s' e) = NcEnt e
          else nc_dp (ent s' e) = nc_dp (ent s e) \<and> nc_vp (ent s' e) = nc_vp (ent s e) \<and>
               hash_next (ent s' e) = hash_next (ent s e) \<and> hash_prev (ent s' e) = hash_prev (ent s e)"
  proof
    fix e
    show "if e \<in> set (i # is)
          then nc_dp (ent s' e) = 0 \<and> nc_vp (ent s' e) = 0 \<and> hash_next (ent s' e) = NcEnt e \<and> hash_prev (ent s' e) = NcEnt e
          else nc_dp (ent s' e) = nc_dp (ent s e) \<and> nc_vp (ent s' e) = nc_vp (ent s e) \<and>
               hash_next (ent s' e) = hash_next (ent s e) \<and> hash_prev (ent s' e) = hash_prev (ent s e)"
      using s'(5)[rule_format, of e] by (cases "e \<in> set is"; cases "e = i") (simp_all add: m b bd)
  qed
  ultimately show ?case using s'(2) by simp
qed

text \<open>The kernel's statics start as zeros; the counts are unsigned shorts.\<close>

definition boot_ok :: "ncst \<Rightarrow> bool" where
  "boot_ok s = ((\<forall>e. nc_cred (ent s e) = NOCRED) \<and> (\<forall>v. 0 \<le> v_count s v \<and> v_count s v < 65536) \<and>
     (\<forall>c. 0 \<le> cr_ref s c \<and> cr_ref s c < 65536))"

lemma fold_NULL_HASH:
  "nc_mem (fold (\<lambda>i. NULL_HASH (NcHash i)) is s) p =
     (if p \<in> NcHash ` set is then (nc_mem s p)\<lparr>hash_next := p, hash_prev := p\<rparr> else nc_mem s p)"
  "(fold (\<lambda>i. NULL_HASH (NcHash i)) is s)\<lparr>nc_mem := m\<rparr> = s\<lparr>nc_mem := m\<rparr>"
  by (induction "is" arbitrary: s) (auto simp: NULL_HASH_def upd_nc_def)

lemma dnlc_init_ok:
  assumes "boot_ok s"
  obtains s' where "dnlc_init s = Inr s'" "nc_ok s' Map.empty (rev [0 ..< NC_SIZE]) (\<lambda>_. [])"
    "s'\<lparr>nc_mem := nc_mem s\<rparr> = s" "\<And>v. v \<noteq> 0 \<Longrightarrow> vbal s' Map.empty v = v_count s v" "\<And>c. c \<noteq> 0 \<Longrightarrow> cbal s' c = cr_ref s c"
    "cache_view s' = replicate NC_SIZE Free"
proof -
  let ?s0 = "upd_nc NcLru (\<lambda>e. e\<lparr>lru_next := NcLru, lru_prev := NcLru\<rparr>) s"
  have "lru_ring ?s0 []" by (simp add: lru_ring_def ring_def upd_nc_def)
  then obtain s1 where s1: "init_entries [0 ..< NC_SIZE] ?s0 = Inr s1" "lru_ring s1 (rev [0 ..< NC_SIZE] @ [])" "s1\<lparr>nc_mem := nc_mem ?s0\<rparr> = ?s0"
    "\<forall>e. nc_cred (ent s1 e) = nc_cred (ent ?s0 e)"
    "\<forall>e. if e \<in> set [0 ..< NC_SIZE]
          then nc_dp (ent s1 e) = 0 \<and> nc_vp (ent s1 e) = 0 \<and> hash_next (ent s1 e) = NcEnt e \<and> hash_prev (ent s1 e) = NcEnt e
          else nc_dp (ent s1 e) = nc_dp (ent ?s0 e) \<and> nc_vp (ent s1 e) = nc_vp (ent ?s0 e) \<and>
               hash_next (ent s1 e) = hash_next (ent ?s0 e) \<and> hash_prev (ent s1 e) = hash_prev (ent ?s0 e)"
    using init_entries_spec[of ?s0 "[]" "[0 ..< NC_SIZE]"] by auto
  define s' where "s' = fold (\<lambda>i. NULL_HASH (NcHash i)) [0 ..< NC_HASH_SIZE] s1"
  have m: "ent s' e = ent s1 e" "nc_mem s' NcLru = nc_mem s1 NcLru" for e
    by (auto simp: s'_def fold_NULL_HASH(1))
  have hm: "hash_next (nc_mem s' (NcHash h)) = NcHash h" "hash_prev (nc_mem s' (NcHash h)) = NcHash h" if "h < NC_HASH_SIZE" for h
    using that by (auto simp: s'_def fold_NULL_HASH(1))
  have mo: "s'\<lparr>nc_mem := nc_mem s\<rparr> = s"
    using s1(3) fold_NULL_HASH(2)[of "nc_mem s" "[0 ..< NC_HASH_SIZE]" s1] unfolding s'_def[symmetric] upd_nc_def
    by (cases s; cases s1; cases s'; simp)
  have fr: "free_ok s' e" if "e < NC_SIZE" for e
    using s1(4,5)[rule_format, of e] that assms by (simp add: free_ok_def m upd_nc_def boot_ok_def)
  have z: "nc_dp (ent s' e) = 0" "nc_vp (ent s' e) = 0" "nc_cred (ent s' e) = 0" if "e < NC_SIZE" for e
    using fr[OF that] by (simp_all add: free_ok_def)
  have R: "lru_ring s' (rev [0 ..< NC_SIZE])" by (rule lru_ring_cong[of s1]) (use s1(2) in \<open>auto simp: m\<close>)
  have st: "nc_struct s' {} (rev [0 ..< NC_SIZE]) (\<lambda>_. [])"
    unfolding nc_struct_def
  proof (intro conjI allI impI ballI)
    show "hash_ring s' h []" if "h < NC_HASH_SIZE" for h
      using hm[OF that] by (simp add: hash_ring_def ring_def)
    show "if nc_dp (ent s' e) = 0 then free_ok s' e else entry_ok (ent s' e)" if "e \<in> set (rev [0 ..< NC_SIZE])" for e
      using z[of e] fr[of e] that by simp
    show "set [] = chained s' (rev [0 ..< NC_SIZE]) h" for h using z by (auto simp: chained_def)
  qed (use R in auto)
  have vr: "vrefs s' Map.empty v = 0" if "v \<noteq> 0" for v
    unfolding vrefs_def by (rule sum.neutral) (use z that in \<open>auto simp: vterm_def\<close>)
  have cr: "crefs s' c = 0" if "c \<noteq> 0" for c
    unfolding crefs_def by (rule sum.neutral) (use z that in \<open>auto simp: cterm_def\<close>)
  note f = mem_only_fields[OF mo]
  have ok: "nc_ok s' Map.empty (rev [0 ..< NC_SIZE]) (\<lambda>_. [])"
    using st assms by (auto simp: nc_ok_def refs_ok_def vbal_def cbal_def vr cr f boot_ok_def)
  have "map (\<lambda>e. cview (ent s' e)) (rev [0 ..< NC_SIZE]) = map (\<lambda>e. Free) (rev [0 ..< NC_SIZE])"
    by (rule map_cong) (use z in \<open>auto simp: cview_def\<close>)
  then have "cache_view s' = replicate NC_SIZE Free"
    unfolding cache_view_ok[OF ok] by (simp add: map_replicate_const del: upt_conv_Cons)
  moreover have "dnlc_init s = Inr s'" using s1(1) by (simp add: dnlc_init_def s'_def)
  ultimately show ?thesis using that mo ok vr cr f by (auto simp: vbal_def cbal_def)
qed

section \<open>One call\<close>

definition nc_good :: "ncst \<Rightarrow> nc_flight \<Rightarrow> bool" where
  "nc_good s \<phi> = (\<exists>L H. nc_ok s \<phi> L H)"

lemma nc_goodI: "nc_ok s \<phi> L H \<Longrightarrow> nc_good s \<phi>"
  by (auto simp: nc_good_def)

text \<open>Statistics matter to nothing else.\<close>

lemma upd_stats_simps [simp]:
  "nc_mem (upd_stats f s) = nc_mem s" "v_count (upd_stats f s) = v_count s" "cr_ref (upd_stats f s) = cr_ref s"
  "doingcache (upd_stats f s) = doingcache s"
  by (simp_all add: upd_stats_def)

lemma upd_stats_bal [simp]:
  "vbal (upd_stats f s) \<phi> v = vbal s \<phi> v" "cbal (upd_stats f s) c = cbal s c" "cache_view (upd_stats f s) = cache_view s"
proof -
  have "lru_walk n (upd_stats f s) p = lru_walk n s p" for n p
    by (induction n arbitrary: p) (simp_all split: nptr.split)
  then show "cache_view (upd_stats f s) = cache_view s" by (simp add: cache_view_def lru_list_def)
qed (simp_all add: vbal_def cbal_def vrefs_def crefs_def)

lemma nc_ok_stats: "nc_ok s \<phi> L H \<Longrightarrow> nc_ok (upd_stats f s) \<phi> L H"
  using nc_struct_cong[of s "dom \<phi>" L H "upd_stats f s"] by (simp add: nc_ok_def refs_ok_def)

lemma vrefs_le: "vrefs s \<phi> v \<le> 64"
proof -
  have "vrefs s \<phi> v \<le> (\<Sum>e < NC_SIZE. 2)" unfolding vrefs_def by (rule sum_mono) (simp add: vterm_def)
  then show ?thesis by simp
qed

lemma crefs_le: "crefs s c \<le> 32"
proof -
  have "crefs s c \<le> (\<Sum>e < NC_SIZE. 1)" unfolding crefs_def by (rule sum_mono) (simp add: cterm_def)
  then show ?thesis by simp
qed

text \<open>The names of a chain and of the whole list.\<close>

lemma view_find:
  assumes ok: "nc_ok s \<phi> L H" and n: "name \<noteq> []" "length name \<le> NC_NAMLEN" and dp: "dp \<noteq> 0"
  obtains h r where "NC_HASH name (length name) dp = Inr h" "h < NC_HASH_SIZE"
    "dnlc_search s dp name (length name) h cred = Inr (map_option NcEnt r)"
    "case r of None \<Rightarrow> \<not> (\<exists>x \<in> set (cache_view s). is_name dp name cred x)
     | Some e \<Rightarrow> e \<in> set L \<and> e \<in> set (H h) \<and> is_name dp name cred (cview (ent s e))"
proof -
  note S = nc_okD(1)[OF ok]
  obtain h where h: "NC_HASH name (length name) dp = Inr h" "h < NC_HASH_SIZE" by (rule NC_HASH_Inr[OF n(1)])
  let ?r = "find (\<lambda>e. matches dp name cred (ent s e)) (H h)"
  have "case ?r of None \<Rightarrow> \<not> (\<exists>x \<in> set (cache_view s). is_name dp name cred x)
     | Some e \<Rightarrow> e \<in> set L \<and> e \<in> set (H h) \<and> is_name dp name cred (cview (ent s e))"
  proof (cases ?r)
    case None
    then show ?thesis
      using find_in_chain(2)[OF S h(1) n(1) dp None] listed_name[OF ok _ dp] by (auto simp: cache_view_ok[OF ok])
  next
    case (Some e)
    then show ?thesis
      using find_in_chain(1)[OF S h(1) n(1) dp Some] listed_name[OF ok _ dp] find_SomeD[OF Some] by auto
  qed
  then show ?thesis using that h dnlc_search_spec[OF S h(2) n] by blast
qed

lemma dnlc_lookup_ok:
  assumes ok: "nc_ok s \<phi> L H" and n: "name \<noteq> []" and dp: "dp \<noteq> 0"
  obtains v s' where "dnlc_lookup dp name cred s = Inr (v, s')" "nc_good s' \<phi>"
    "\<And>w. vbal s' \<phi> w = vbal s \<phi> w" "\<And>c. cbal s' c = cbal s c" "doingcache s' = doingcache s"
    "if doingcache s = 0 \<or> length name > NC_NAMLEN \<or> \<not> (\<exists>x \<in> set (cache_view s). is_name dp name cred x)
     then v = 0 \<and> cache_view s' = cache_view s
     else \<exists>xs x ys. cache_view s = xs @ x # ys \<and> is_name dp name cred x \<and> v = c_vp x \<and> cache_view s' = xs @ ys @ [x]"
proof -
  consider (off) "doingcache s = 0 \<or> length name > NC_NAMLEN" | (on) "doingcache s \<noteq> 0" "length name \<le> NC_NAMLEN" by linarith
  then show ?thesis
  proof cases
    case off
    let ?s = "if doingcache s = 0 then s else upd_stats (long_look_update (\<lambda>n. i32 (n + 1))) s"
    have "dnlc_lookup dp name cred s = Inr (0, ?s)" using off by (cases "doingcache s = 0") (simp_all add: dnlc_lookup_def Let_def)
    moreover have "nc_good ?s \<phi>" using nc_goodI[OF ok] nc_goodI[OF nc_ok_stats[OF ok]] by simp
    ultimately show ?thesis using that[of 0 ?s] off by auto
  next
    case on
    obtain h r where h: "NC_HASH name (length name) dp = Inr h" "h < NC_HASH_SIZE"
      "dnlc_search s dp name (length name) h cred = Inr (map_option NcEnt r)"
      "case r of None \<Rightarrow> \<not> (\<exists>x \<in> set (cache_view s). is_name dp name cred x)
       | Some e \<Rightarrow> e \<in> set L \<and> e \<in> set (H h) \<and> is_name dp name cred (cview (ent s e))"
      by (rule view_find[OF ok n on(2) dp])
    show ?thesis
    proof (cases r)
      case None
      let ?s = "upd_stats (misses_update (\<lambda>n. i32 (n + 1))) s"
      have "dnlc_lookup dp name cred s = Inr (0, ?s)" using on h None by (simp add: dnlc_lookup_def Let_def)
      moreover have "nc_good ?s \<phi>" using nc_ok_stats[OF ok] by (rule nc_goodI)
      ultimately show ?thesis using that[of 0 ?s] h(4) None by simp
    next
      case (Some e)
      let ?s1 = "upd_stats (hits_update (\<lambda>n. i32 (n + 1))) s"
      have e: "e \<in> set L" "e \<in> set (H h)" "is_name dp name cred (cview (ent s e))" using h(4) Some by auto
      obtain xs ys where L: "L = xs @ e # ys" using e(1) by (auto simp: in_set_conv_decomp)
      have ok1: "nc_ok ?s1 \<phi> (xs @ e # ys) H" using nc_ok_stats[OF ok] L by simp
      obtain s2 s3 s4 H' where s: "remque2 (NcEnt e) ?s1 = Inr s2" "insque2 (NcEnt e) (lru_prev (nc_mem s2 NcLru)) s2 = Inr s3"
        "move_forward (NcEnt e) h s3 = Inr s4" "nc_struct s4 (dom \<phi>) (xs @ ys @ [e]) H'" "links_only ?s1 s4"
        by (rule touch_struct[OF nc_okD(1)[OF ok1] h(2) e(2)])
      have ok4: "nc_ok s4 \<phi> (xs @ ys @ [e]) H'" by (rule nc_ok_links[OF ok1 s(5,4)])
      note b = links_onlyD(1)[OF s(5)]
      have cv: "cview (ent s4 f) = cview (ent s f)" for f using cview_body[OF b[of "NcEnt f"]] by simp
      have "nc_dp (ent s e) \<noteq> 0" using e(3) by (auto simp: cview_def split: if_splits)
      then have v: "nc_vp (ent s4 e) = c_vp (cview (ent s e))"
        using body_eqD(2)[OF b, of "NcEnt e"] by (simp add: cview_def)
      have "cache_view s = map (\<lambda>e. cview (ent s e)) xs @ cview (ent s e) # map (\<lambda>e. cview (ent s e)) ys"
        "cache_view s4 = map (\<lambda>e. cview (ent s e)) xs @ map (\<lambda>e. cview (ent s e)) ys @ [cview (ent s e)]"
        by (simp_all add: cache_view_ok[OF ok] cache_view_ok[OF ok4] L cv)
      moreover have "dnlc_lookup dp name cred s = Inr (nc_vp (ent s4 e), s4)"
        using on h(1,3) Some s(1-3) by (simp add: dnlc_lookup_def Let_def)
      moreover have "\<exists>x \<in> set (cache_view s). is_name dp name cred x"
        using e(1,3) by (auto simp: cache_view_ok[OF ok])
      ultimately show ?thesis
        using that[of "nc_vp (ent s4 e)" s4] nc_goodI[OF ok4] refs_ok_links[OF nc_okD(3)[OF ok1] s(5), of \<phi>] on e(3) v
          links_onlyD(3)[OF s(5)] by fastforce
    qed
  qed
qed

lemma enter_take_run:
  assumes "nc_struct s F (e # ys) H" "doingcache s \<noteq> 0" "length name \<le> NC_NAMLEN"
    "NC_HASH name (length name) dp = Inr h" "dnlc_search s dp name (length name) h cred = Inr None"
    "rm_take (NcEnt e) s = Inr s1"
  shows "enter_take dp name cred s = Inr (s1, Some (NcEnt e, h))"
proof -
  have "lru_next (nc_mem s NcLru) = NcEnt e" using lru_ring_ends(1)[OF nc_structD(1)[OF assms(1)]] by simp
  moreover obtain s0 where "remque2 (NcEnt e) s = Inr s0" "remque (NcEnt e) s0 = Inr s1"
    using assms(6) by (cases "remque2 (NcEnt e) s") (auto simp: rm_take_def)
  ultimately show ?thesis using assms(2-5) by (simp add: enter_take_def Let_def)
qed

lemma dnlc_enter_ok:
  assumes ok: "nc_ok s \<phi> L H" and n: "name \<noteq> []" and dp: "dp \<noteq> 0" and vp: "vp \<noteq> 0" and cred: "cred \<noteq> ANYCRED"
    and room: "vbal s \<phi> dp < 65000" "vbal s \<phi> vp < 65000" "cred \<noteq> 0 \<Longrightarrow> cbal s cred < 65000"
  obtains s' where "dnlc_enter dp name vp cred s = Inr s'" "nc_good s' \<phi>"
    "\<And>w. w \<noteq> 0 \<Longrightarrow> vbal s' \<phi> w = vbal s \<phi> w" "doingcache s' = doingcache s"
    "if doingcache s = 0 \<or> length name > NC_NAMLEN \<or> (\<exists>x \<in> set (cache_view s). is_name dp name cred x) \<or> cache_view s = []
     then cache_view s' = cache_view s \<and> (\<forall>c. cbal s' c = cbal s c)
     else \<exists>x t. cache_view s = x # t \<and> cache_view s' = t @ [Cached dp name cred vp] \<and>
       (\<forall>c. c \<noteq> 0 \<longrightarrow> cbal s' c = cbal s c + (if x \<noteq> Free \<and> c_cred x = c then 1 else 0))"
proof -
  note S = nc_okD(1)[OF ok]
  note cv = cache_view_ok[OF ok]
  consider (off) "doingcache s = 0 \<or> length name > NC_NAMLEN" | (on) "doingcache s \<noteq> 0" "length name \<le> NC_NAMLEN" by linarith
  then show ?thesis
  proof cases
    case off
    let ?s = "if doingcache s = 0 then s else upd_stats (long_enter_update (\<lambda>n. i32 (n + 1))) s"
    have "dnlc_enter dp name vp cred s = Inr ?s" using off by (cases "doingcache s = 0") (simp_all add: dnlc_enter_def enter_take_def Let_def)
    moreover have "nc_good ?s \<phi>" using nc_goodI[OF ok] nc_goodI[OF nc_ok_stats[OF ok]] by simp
    ultimately show ?thesis using that[of ?s] off by auto
  next
    case on
    obtain h r where h: "NC_HASH name (length name) dp = Inr h" "h < NC_HASH_SIZE"
      "dnlc_search s dp name (length name) h cred = Inr (map_option NcEnt r)"
      "case r of None \<Rightarrow> \<not> (\<exists>x \<in> set (cache_view s). is_name dp name cred x)
       | Some e \<Rightarrow> e \<in> set L \<and> e \<in> set (H h) \<and> is_name dp name cred (cview (ent s e))"
      by (rule view_find[OF ok n on(2) dp])
    show ?thesis
    proof (cases r)
      case (Some e)
      then have "dnlc_enter dp name vp cred s = Inr s" using on h(1,3) by (simp add: dnlc_enter_def enter_take_def Let_def)
      moreover have "\<exists>x \<in> set (cache_view s). is_name dp name cred x" using h(4) Some by (auto simp: cv)
      ultimately show ?thesis using that[of s] nc_goodI[OF ok] by simp
    next
      case None
      then have none: "\<not> (\<exists>x \<in> set (cache_view s). is_name dp name cred x)" using h(4) by simp
      show ?thesis
      proof (cases L)
        case Nil
        let ?s = "upd_stats (lru_empty_update (\<lambda>n. i32 (n + 1))) s"
        have "dnlc_enter dp name vp cred s = Inr ?s"
          using on h(1,3) None lru_ring_ends(1)[OF nc_structD(1)[OF S]] Nil by (simp add: dnlc_enter_def enter_take_def Let_def)
        then show ?thesis using that[of ?s] nc_goodI[OF nc_ok_stats[OF ok]] cv Nil by simp
      next
        case (Cons e ys)
        let ?a = "\<lparr>a_dp = dp, a_name = name, a_vp = vp, a_cred = cred, a_hash = h\<rparr>"
        have ok0: "nc_ok s \<phi> ([] @ e # ys) H" using ok Cons by simp
        have eN: "\<phi> e = None" using nc_structD(3)[OF S] Cons by auto
        have args: "args_ok ?a" using n dp vp cred on h(1) by (simp add: args_ok_def)
        obtain s1 where s1: "rm_take (NcEnt e) s = Inr s1" "nc_ok s1 (\<phi>(e \<mapsto> EnterDp ?a)) ([] @ ys) (\<lambda>h. removeAll e (H h))"
          "links_only s s1" "\<And>v. vbal s1 (\<phi>(e \<mapsto> EnterDp ?a)) v = vbal s \<phi> v" "\<And>c. cbal s1 c = cbal s c"
          by (rule take_ok[OF ok0, of "EnterDp ?a"]) (use args in \<open>simp_all add: holds_dp_def holds_vp_def\<close>)
        have T: "enter_take dp name cred s = Inr (s1, Some (NcEnt e, h))"
          by (rule enter_take_run[OF _ on h(1)]) (use S Cons h(3) None s1(1) in simp_all)
        obtain s2 where s2: "rele_dp (NcEnt e) s1 = Inr s2" "nc_ok s2 (\<phi>(e \<mapsto> EnterDp ?a, e \<mapsto> EnterVp ?a)) ([] @ ys) (\<lambda>h. removeAll e (H h))"
          "nc_mem s2 = nc_mem s1" "\<And>w. w \<noteq> 0 \<Longrightarrow> vbal s2 (\<phi>(e \<mapsto> EnterDp ?a, e \<mapsto> EnterVp ?a)) w = vbal s1 (\<phi>(e \<mapsto> EnterDp ?a)) w"
          "cr_ref s2 = cr_ref s1" "doingcache s2 = doingcache s1"
          using rele_dp_ok[OF s1(2), of e ?a] by auto
        obtain s3 where s3: "rele_vp (NcEnt e) s2 = Inr s3" "nc_ok s3 (\<phi>(e \<mapsto> EnterFill ?a)) ys (\<lambda>h. removeAll e (H h))"
          "nc_mem s3 = nc_mem s2" "\<And>w. w \<noteq> 0 \<Longrightarrow> vbal s3 (\<phi>(e \<mapsto> EnterFill ?a)) w = vbal s2 (\<phi>(e \<mapsto> EnterVp ?a)) w"
          "cr_ref s3 = cr_ref s2" "doingcache s3 = doingcache s2"
          using rele_vp_ok[OF s2(2), of e ?a] by auto
        have b3: "body (ent s3 f) = body (ent s f)" for f using links_onlyD(1)[OF s1(3)] by (simp add: s2(3) s3(3))
        have vb3: "vbal s3 (\<phi>(e \<mapsto> EnterFill ?a)) w = vbal s \<phi> w" if "w \<noteq> 0" for w
          using s1(4)[of w] s2(4)[OF that] s3(4)[OF that] by simp
        have cb3: "cbal s3 c = cbal s c" for c
          using s1(5)[of c] crefs_same[of s3 s1 c] by (simp add: cbal_def s2(3,5) s3(3,5))
        have v3: "v_count s3 w < 65064" if "w \<noteq> 0" "vbal s \<phi> w < 65000" for w
          using vb3[OF that(1)] that(2) vrefs_le[of s3 "\<phi>(e \<mapsto> EnterFill ?a)" w] by (simp add: vbal_def)
        have c3: "cr_ref s3 cred < 65032" if "cred \<noteq> 0"
          using cb3[of cred] room(3)[OF that] crefs_le[of s3 cred] by (simp add: cbal_def)
        obtain s' H' where s': "enter_fill (NcEnt e) h dp name vp cred s3 = Inr s'"
          "nc_ok s' ((\<phi>(e \<mapsto> EnterFill ?a))(e := None)) (ys @ [e]) H'" "\<And>f. f \<noteq> e \<Longrightarrow> body (ent s' f) = body (ent s3 f)"
          "body (ent s' e) = (dp, vp, int (length name), name @ drop (length name) (nc_name (ent s3 e)), cred)"
          "\<And>w. w \<noteq> 0 \<Longrightarrow> vbal s' ((\<phi>(e \<mapsto> EnterFill ?a))(e := None)) w = vbal s3 (\<phi>(e \<mapsto> EnterFill ?a)) w"
          "\<And>x. x \<noteq> 0 \<Longrightarrow> cbal s' x = cbal s3 x + cterm (ent s3 e) x" "doingcache s' = doingcache s3"
          by (rule enter_fill_ok[OF s3(2), of e ?a]) (use v3[OF dp room(1)] v3[OF vp room(2)] c3 in auto)
        have \<phi>: "(\<phi>(e \<mapsto> EnterFill ?a))(e := None) = \<phi>" using eN by auto
        have ok': "nc_ok s' \<phi> (ys @ [e]) H'" using s'(2) unfolding \<phi> .
        have "e \<notin> set ys" using nc_structD(8)[OF S] Cons by simp
        then have vy: "map (\<lambda>f. cview (ent s' f)) ys = map (\<lambda>f. cview (ent s f)) ys"
          by (intro map_cong) (use s'(3) b3 cview_body in \<open>metis\<close>)+
        have ve: "cview (ent s' e) = Cached dp name cred vp"
          using s'(4) dp by (simp add: cview_def body_def)
        have ct: "cterm (ent s3 e) c = (if cview (ent s e) \<noteq> Free \<and> c_cred (cview (ent s e)) = c then 1 else 0)" if "c \<noteq> 0" for c
          using body_eqD(5)[OF b3, of e] nc_structD(6)[OF S, of e] Cons that by (auto simp: cterm_def cview_def free_ok_def)
        have E: "dnlc_enter dp name vp cred s = Inr s'"
          using T s2(1) s3(1) s'(1) by (simp add: dnlc_enter_def)
        show ?thesis
        proof (rule that[OF E nc_goodI[OF ok']])
          show "vbal s' \<phi> w = vbal s \<phi> w" if "w \<noteq> 0" for w using s'(5)[OF that] vb3[OF that] unfolding \<phi> by simp
          show "doingcache s' = doingcache s" using s'(7) s3(6) s2(6) links_onlyD(3)[OF s1(3)] by simp
          show "if doingcache s = 0 \<or> length name > NC_NAMLEN \<or> (\<exists>x \<in> set (cache_view s). is_name dp name cred x) \<or> cache_view s = []
     then cache_view s' = cache_view s \<and> (\<forall>c. cbal s' c = cbal s c)
     else \<exists>x t. cache_view s = x # t \<and> cache_view s' = t @ [Cached dp name cred vp] \<and>
       (\<forall>c. c \<noteq> 0 \<longrightarrow> cbal s' c = cbal s c + (if x \<noteq> Free \<and> c_cred x = c then 1 else 0))"
            using on none s'(6) ct cb3 by (simp add: cv cache_view_ok[OF ok'] Cons vy ve)
        qed
      qed
    qed
  qed
qed

section \<open>Removal\<close>

lemma dnlc_rm_ok:
  assumes ok: "nc_ok s \<phi> L H" and e: "e \<in> set L" "nc_dp (ent s e) \<noteq> 0"
  obtains s' xs ys where "dnlc_rm (NcEnt e) s = Inr s'" "nc_ok s' \<phi> (e # xs @ ys) (\<lambda>h. removeAll e (H h))" "L = xs @ e # ys"
    "cache_view s' = Free # map (\<lambda>f. cview (ent s f)) (xs @ ys)"
    "\<And>w. w \<noteq> 0 \<Longrightarrow> vbal s' \<phi> w = vbal s \<phi> w" "\<And>c. c \<noteq> 0 \<Longrightarrow> 1 \<le> cbal s c \<Longrightarrow> cbal s' c = cbal s c"
    "doingcache s' = doingcache s"
proof -
  note S = nc_okD(1)[OF ok]
  obtain xs ys where L: "L = xs @ e # ys" using e(1) by (auto simp: in_set_conv_decomp)
  have d: "distinct (xs @ e # ys)" using nc_structD(8)[OF S] L by simp
  have ok0: "nc_ok s \<phi> (xs @ e # ys) H" using ok L by simp
  have eN: "\<phi> e = None" and e32: "e < NC_SIZE" using nc_structD(3,4)[OF S] e(1) by auto
  have eo: "entry_ok (ent s e)" by (rule nc_structD(7)[OF S e])
  obtain s1 where s1: "rm_take (NcEnt e) s = Inr s1" "nc_ok s1 (\<phi>(e \<mapsto> RmDp)) (xs @ ys) (\<lambda>h. removeAll e (H h))"
    "links_only s s1" "\<And>v. vbal s1 (\<phi>(e \<mapsto> RmDp)) v = vbal s \<phi> v" "\<And>c. cbal s1 c = cbal s c"
    by (rule take_ok[OF ok0, of RmDp]) (use eo in \<open>simp_all add: holds_dp_def holds_vp_def entry_ok_def\<close>)
  obtain s2 where s2: "rm_rele_dp (NcEnt e) s1 = Inr s2" "nc_ok s2 (\<phi>(e \<mapsto> RmVp)) (xs @ ys) (\<lambda>h. removeAll e (H h))"
    "nc_mem s2 = nc_mem s1" "\<And>w. w \<noteq> 0 \<Longrightarrow> vbal s2 (\<phi>(e \<mapsto> RmVp)) w = vbal s1 (\<phi>(e \<mapsto> RmDp)) w"
    "cr_ref s2 = cr_ref s1" "doingcache s2 = doingcache s1"
    using rm_rele_dp_ok[OF s1(2), of e] by auto
  obtain s3 where s3: "rm_rele_vp (NcEnt e) s2 = Inr s3" "nc_ok s3 (\<phi>(e \<mapsto> RmPut)) (xs @ ys) (\<lambda>h. removeAll e (H h))"
    "\<And>f. f \<noteq> e \<Longrightarrow> ent s3 f = ent s2 f" "nc_cred (ent s3 e) = nc_cred (ent s2 e)"
    "\<And>w. w \<noteq> 0 \<Longrightarrow> vbal s3 (\<phi>(e \<mapsto> RmPut)) w = vbal s2 (\<phi>(e \<mapsto> RmVp)) w" "\<And>c. cbal s3 c = cbal s2 c" "cr_ref s3 = cr_ref s2"
    "doingcache s3 = doingcache s2"
    using rm_rele_vp_ok[OF s2(2), of e] by auto
  obtain s4 where s4: "rm_put (NcEnt e) s3 = Inr s4" "nc_ok s4 ((\<phi>(e \<mapsto> RmPut))(e := None)) (e # xs @ ys) (\<lambda>h. removeAll e (H h))"
    "\<And>f. f \<noteq> e \<Longrightarrow> body (ent s4 f) = body (ent s3 f)" "nc_dp (ent s4 e) = 0"
    "\<And>w. w \<noteq> 0 \<Longrightarrow> vbal s4 ((\<phi>(e \<mapsto> RmPut))(e := None)) w = vbal s3 (\<phi>(e \<mapsto> RmPut)) w"
    "\<And>x. x \<noteq> 0 \<Longrightarrow> x \<noteq> nc_cred (ent s3 e) \<or> cr_ref s3 x \<noteq> 1 \<Longrightarrow> cbal s4 x = cbal s3 x" "doingcache s4 = doingcache s3"
    using rm_put_ok[OF s3(2), of e] by auto
  have \<phi>: "(\<phi>(e \<mapsto> RmPut))(e := None) = \<phi>" using eN by auto
  have ok4: "nc_ok s4 \<phi> (e # xs @ ys) (\<lambda>h. removeAll e (H h))" using s4(2) unfolding \<phi> .
  have b4: "body (ent s4 f) = body (ent s f)" if "f \<noteq> e" for f
    using s4(3)[OF that] s3(3)[OF that] links_onlyD(1)[OF s1(3)] by (simp add: s2(3))
  have "map (\<lambda>f. cview (ent s4 f)) (xs @ ys) = map (\<lambda>f. cview (ent s f)) (xs @ ys)"
  proof (rule map_cong[OF refl])
    fix f assume "f \<in> set (xs @ ys)"
    then have "f \<noteq> e" using d by auto
    then show "cview (ent s4 f) = cview (ent s f)" by (intro cview_body b4)
  qed
  then have v: "cache_view s4 = Free # map (\<lambda>f. cview (ent s f)) (xs @ ys)"
    using s4(4) by (simp add: cache_view_ok[OF ok4] cview_def)
  have cs: "cbal s3 c = cbal s c" for c
    using s1(5)[of c] s3(6)[of c] crefs_same[of s2 s1 c] by (simp add: cbal_def s2(3,5))
  have cr: "cbal s4 c = cbal s c" if c: "c \<noteq> 0" "1 \<le> cbal s c" for c
  proof -
    have "cr_ref s3 c \<noteq> 1" if "c = nc_cred (ent s3 e)"
      using cterm_le_crefs[OF e32, of s3 c] that cs[of c] c(2) by (simp add: cterm_def cbal_def)
    then show ?thesis using s4(6)[OF c(1)] cs[of c] by auto
  qed
  show ?thesis
  proof (rule that[OF _ ok4 L v])
    show "dnlc_rm (NcEnt e) s = Inr s4" using s1(1) s2(1) s3(1) s4(1) by (simp add: dnlc_rm_def)
    show "vbal s4 \<phi> w = vbal s \<phi> w" if "w \<noteq> 0" for w
      using s4(5)[OF that] s3(5)[OF that] s2(4)[OF that] s1(4)[of w] unfolding \<phi> by simp
    show "doingcache s4 = doingcache s" using s4(7) s3(8) s2(6) links_onlyD(3)[OF s1(3)] by simp
  qed (rule cr)
qed

text \<open>What is left when all entries with a property are gone.\<close>

definition drop_all :: "(centry \<Rightarrow> bool) \<Rightarrow> centry list \<Rightarrow> centry list" where
  "drop_all P l = replicate (length (filter P l)) Free @ filter (\<lambda>x. \<not> P x) l"

lemma drop_all_none: "\<not> (\<exists>x \<in> set l. P x) \<Longrightarrow> drop_all P l = l"
  by (simp add: drop_all_def filter_id_conv)

lemma drop_all_step:
  assumes "P x" "\<not> P Free"
  shows "drop_all P (Free # xs @ ys) = drop_all P (xs @ x # ys)"
  using assms by (simp add: drop_all_def replicate_app_Cons_same)

lemma count_step:
  assumes "P x" "\<not> P Free"
  shows "length (filter P (xs @ x # ys)) = Suc (length (filter P (Free # xs @ ys)))"
  using assms by simp

text \<open>One removal, on the list of views.\<close>

lemma dnlc_rm_view:
  assumes ok: "nc_ok s \<phi> L H" and e: "e \<in> set L" "P (cview (ent s e))" and P: "\<not> P Free"
  obtains s' L' H' where "dnlc_rm (NcEnt e) s = Inr s'" "nc_ok s' \<phi> L' H'"
    "drop_all P (cache_view s') = drop_all P (cache_view s)"
    "length (filter P (cache_view s)) = Suc (length (filter P (cache_view s')))"
    "\<And>w. w \<noteq> 0 \<Longrightarrow> vbal s' \<phi> w = vbal s \<phi> w" "\<And>c. c \<noteq> 0 \<Longrightarrow> 1 \<le> cbal s c \<Longrightarrow> cbal s' c = cbal s c"
    "doingcache s' = doingcache s"
proof -
  have "nc_dp (ent s e) \<noteq> 0" using e(2) P by (auto simp: cview_def)
  then obtain s' xs ys where s': "dnlc_rm (NcEnt e) s = Inr s'" "nc_ok s' \<phi> (e # xs @ ys) (\<lambda>h. removeAll e (H h))" "L = xs @ e # ys"
    "cache_view s' = Free # map (\<lambda>f. cview (ent s f)) (xs @ ys)"
    "\<And>w. w \<noteq> 0 \<Longrightarrow> vbal s' \<phi> w = vbal s \<phi> w" "\<And>c. c \<noteq> 0 \<Longrightarrow> 1 \<le> cbal s c \<Longrightarrow> cbal s' c = cbal s c"
    "doingcache s' = doingcache s"
    using dnlc_rm_ok[OF ok e(1)] by blast
  have v: "cache_view s = map (\<lambda>f. cview (ent s f)) xs @ cview (ent s e) # map (\<lambda>f. cview (ent s f)) ys"
    using s'(3) by (simp add: cache_view_ok[OF ok])
  show ?thesis
  proof (rule that[OF s'(1,2) _ _ s'(5-7)])
    show "drop_all P (cache_view s') = drop_all P (cache_view s)"
      unfolding v s'(4) map_append by (rule drop_all_step[where P = P, OF e(2) P])
    show "length (filter P (cache_view s)) = Suc (length (filter P (cache_view s')))"
      unfolding v s'(4) map_append by (rule count_step[where P = P, OF e(2) P])
  qed
qed

lemma remove_loop_ok:
  assumes "nc_ok s \<phi> L H" "name \<noteq> []" "length name \<le> NC_NAMLEN" "dp \<noteq> 0" "NC_HASH name (length name) dp = Inr h"
    "length (filter (is_name dp name ANYCRED) (cache_view s)) < f"
  shows "\<exists>s'. remove_loop f dp name (length name) h s = Inr s' \<and> nc_good s' \<phi> \<and>
    cache_view s' = drop_all (is_name dp name ANYCRED) (cache_view s) \<and>
    (\<forall>w. w \<noteq> 0 \<longrightarrow> vbal s' \<phi> w = vbal s \<phi> w) \<and> (\<forall>c. c \<noteq> 0 \<longrightarrow> 1 \<le> cbal s c \<longrightarrow> cbal s' c = cbal s c) \<and>
    doingcache s' = doingcache s"
  using assms
proof (induction f arbitrary: s L H)
  case (Suc f)
  let ?P = "is_name dp name ANYCRED"
  note ok = Suc.prems(1)
  obtain k r where k: "NC_HASH name (length name) dp = Inr k"
    "dnlc_search s dp name (length name) k ANYCRED = Inr (map_option NcEnt r)"
    "case r of None \<Rightarrow> \<not> (\<exists>x \<in> set (cache_view s). ?P x)
     | Some e \<Rightarrow> e \<in> set L \<and> e \<in> set (H k) \<and> ?P (cview (ent s e))"
    by (rule view_find[OF ok Suc.prems(2-4), of ANYCRED])
  have "k = h" using k(1) Suc.prems(5) by simp
  note r = k(2,3)[unfolded this]
  show ?case
  proof (cases r)
    case None
    then show ?thesis using r nc_goodI[OF ok] by (simp add: drop_all_none)
  next
    case (Some e)
    obtain s1 L1 H1 where s1: "dnlc_rm (NcEnt e) s = Inr s1" "nc_ok s1 \<phi> L1 H1"
      "drop_all ?P (cache_view s1) = drop_all ?P (cache_view s)"
      "length (filter ?P (cache_view s)) = Suc (length (filter ?P (cache_view s1)))"
      "\<And>w. w \<noteq> 0 \<Longrightarrow> vbal s1 \<phi> w = vbal s \<phi> w" "\<And>c. c \<noteq> 0 \<Longrightarrow> 1 \<le> cbal s c \<Longrightarrow> cbal s1 c = cbal s c"
      "doingcache s1 = doingcache s"
      by (rule dnlc_rm_view[OF ok, of e ?P]) (use r(2) Some in auto)
    have "length (filter ?P (cache_view s1)) < f" using s1(4) Suc.prems(6) by simp
    note IH = Suc.IH[OF s1(2) Suc.prems(2-5) this]
    show ?thesis using IH r(1) Some s1 by auto
  qed
qed simp

lemma view_length: "nc_ok s \<phi> L H \<Longrightarrow> length (cache_view s) \<le> NC_SIZE"
proof -
  assume ok: "nc_ok s \<phi> L H"
  have "card (set L) \<le> card {..< 32 :: nat}" using nc_structD(4)[OF nc_okD(1)[OF ok]] by (intro card_mono) auto
  then show ?thesis using nc_structD(8)[OF nc_okD(1)[OF ok]] by (simp add: cache_view_ok[OF ok] distinct_card)
qed

lemma dnlc_remove_ok:
  assumes ok: "nc_ok s \<phi> L H" and n: "name \<noteq> []" and dp: "dp \<noteq> 0" and f: "NC_SIZE < f"
  shows "\<exists>s'. dnlc_remove f dp name s = Inr s' \<and> nc_good s' \<phi> \<and>
    cache_view s' = drop_all (is_name dp name ANYCRED) (cache_view s) \<and>
    (\<forall>w. w \<noteq> 0 \<longrightarrow> vbal s' \<phi> w = vbal s \<phi> w) \<and> (\<forall>c. c \<noteq> 0 \<longrightarrow> 1 \<le> cbal s c \<longrightarrow> cbal s' c = cbal s c) \<and>
    doingcache s' = doingcache s"
proof (cases "length name > NC_NAMLEN")
  case True
  have "\<not> is_name dp name ANYCRED x" if "x \<in> set (cache_view s)" for x
  proof -
    from that obtain e where e: "e \<in> set L" "x = cview (ent s e)" by (auto simp: cache_view_ok[OF ok])
    then show ?thesis using nc_structD(7)[OF nc_okD(1)[OF ok] e(1)] True by (auto simp: cview_def entry_ok_def)
  qed
  then show ?thesis using True nc_goodI[OF ok] by (auto simp: dnlc_remove_def drop_all_none)
next
  case False
  obtain h where h: "NC_HASH name (length name) dp = Inr h" by (rule NC_HASH_Inr[OF n])
  have "length (filter (is_name dp name ANYCRED) (cache_view s)) < f"
    using view_length[OF ok] f by (meson length_filter_le le_less_trans)
  then show ?thesis using remove_loop_ok[OF ok n _ dp h, of f] False h by (simp add: dnlc_remove_def Let_def)
qed

section \<open>Purge\<close>

lemma purge_find_spec:
  assumes S: "nc_struct s F L H" and hs: "\<forall>h \<in> set hs. h < NC_HASH_SIZE"
  shows "case purge_find s hs of
      None \<Rightarrow> \<forall>h \<in> set hs. H h = []
    | Some p \<Rightarrow> \<exists>h \<in> set hs. \<exists>e \<in> set (H h). p = NcEnt e"
  using hs
proof (induction hs)
  case (Cons h hs)
  have n: "hash_next (nc_mem s (NcHash h)) = hd (map NcEnt (H h) @ [NcHash h])"
    using hash_ring_next[OF nc_structD(2)[OF S]] Cons.prems by simp
  show ?case
  proof (cases "H h")
    case Nil
    then show ?thesis using n Cons by (auto split: option.splits)
  next
    case (Cons e es)
    then show ?thesis using n by auto
  qed
qed simp

lemma purge_find_view:
  assumes ok: "nc_ok s \<phi> L H"
  shows "case purge_find s [0 ..< NC_HASH_SIZE] of
      None \<Rightarrow> \<forall>x \<in> set (cache_view s). x = Free
    | Some p \<Rightarrow> \<exists>e \<in> set L. p = NcEnt e \<and> nc_dp (ent s e) \<noteq> 0 \<and> nc_vp (ent s e) \<noteq> 0"
proof -
  note S = nc_okD(1)[OF ok]
  have P: "case purge_find s [0 ..< NC_HASH_SIZE] of
      None \<Rightarrow> \<forall>h \<in> set [0 ..< NC_HASH_SIZE]. H h = []
    | Some p \<Rightarrow> \<exists>h \<in> set [0 ..< NC_HASH_SIZE]. \<exists>e \<in> set (H h). p = NcEnt e"
    by (rule purge_find_spec[OF S]) simp
  show ?thesis
  proof (cases "purge_find s [0 ..< NC_HASH_SIZE]")
    case None
    have "cview (ent s e) = Free" if "e \<in> set L" for e
    proof (rule ccontr)
      assume "cview (ent s e) \<noteq> Free"
      then have "e \<in> chained s L (nhash (ent s e))" using that by (auto simp: chained_def cview_def split: if_splits)
      then have "e \<in> set (H (nhash (ent s e)))" using nc_structD(5)[OF S nhash_less] by simp
      then show False using P None nhash_less[of "ent s e"] by auto
    qed
    then show ?thesis using None by (simp add: cache_view_ok[OF ok])
  next
    case (Some p)
    then obtain h e where h: "h < NC_HASH_SIZE" "e \<in> set (H h)" "p = NcEnt e" using P by auto
    then have "e \<in> set L" "nc_dp (ent s e) \<noteq> 0" using nc_structD(5)[OF S h(1)] by (auto simp: chained_def)
    then show ?thesis using Some h(3) nc_structD(7)[OF S, of e] by (auto simp: entry_ok_def)
  qed
qed

lemma purge_loop_ok:
  assumes "nc_ok s \<phi> L H" "length (filter (\<lambda>x. x \<noteq> Free) (cache_view s)) < f"
  shows "\<exists>s'. purge_loop f s = Inr s' \<and> nc_good s' \<phi> \<and>
    cache_view s' = drop_all (\<lambda>x. x \<noteq> Free) (cache_view s) \<and>
    (\<forall>w. w \<noteq> 0 \<longrightarrow> vbal s' \<phi> w = vbal s \<phi> w) \<and> (\<forall>c. c \<noteq> 0 \<longrightarrow> 1 \<le> cbal s c \<longrightarrow> cbal s' c = cbal s c) \<and>
    doingcache s' = doingcache s"
  using assms
proof (induction f arbitrary: s L H)
  case (Suc f)
  let ?P = "\<lambda>x. x \<noteq> Free"
  note ok = Suc.prems(1)
  note pf = purge_find_view[OF ok]
  show ?case
  proof (cases "purge_find s [0 ..< NC_HASH_SIZE]")
    case None
    then show ?thesis using pf nc_goodI[OF ok] drop_all_none[of "cache_view s" ?P] by auto
  next
    case (Some p)
    then obtain e where e: "e \<in> set L" "p = NcEnt e" "nc_dp (ent s e) \<noteq> 0" "nc_vp (ent s e) \<noteq> 0" using pf by auto
    obtain s1 L1 H1 where s1: "dnlc_rm (NcEnt e) s = Inr s1" "nc_ok s1 \<phi> L1 H1"
      "drop_all ?P (cache_view s1) = drop_all ?P (cache_view s)"
      "length (filter ?P (cache_view s)) = Suc (length (filter ?P (cache_view s1)))"
      "\<And>w. w \<noteq> 0 \<Longrightarrow> vbal s1 \<phi> w = vbal s \<phi> w" "\<And>c. c \<noteq> 0 \<Longrightarrow> 1 \<le> cbal s c \<Longrightarrow> cbal s1 c = cbal s c"
      "doingcache s1 = doingcache s"
      by (rule dnlc_rm_view[OF ok e(1), of ?P]) (use e(3) in \<open>simp_all add: cview_def\<close>)
    have "length (filter ?P (cache_view s1)) < f" using s1(4) Suc.prems(2) by simp
    note IH = Suc.IH[OF s1(2) this]
    show ?thesis using IH Some e(2-4) s1 by (auto simp del: upt_conv_Cons)
  qed
qed simp

lemma dnlc_purge_ok:
  assumes ok: "nc_ok s \<phi> L H" and f: "NC_SIZE < f"
  shows "\<exists>s'. dnlc_purge f s = Inr s' \<and> nc_good s' \<phi> \<and> cache_view s' = replicate (length (cache_view s)) Free \<and>
    (\<forall>w. w \<noteq> 0 \<longrightarrow> vbal s' \<phi> w = vbal s \<phi> w) \<and> (\<forall>c. c \<noteq> 0 \<longrightarrow> 1 \<le> cbal s c \<longrightarrow> cbal s' c = cbal s c) \<and>
    doingcache s' = doingcache s"
proof -
  let ?s = "upd_stats (purges_update (\<lambda>n. i32 (n + 1))) s"
  have "length (filter (\<lambda>x. x \<noteq> Free) (cache_view ?s)) < f"
    using view_length[OF ok] f by simp (meson length_filter_le le_less_trans)
  note P = purge_loop_ok[OF nc_ok_stats[OF ok] this]
  have all: "filter (\<lambda>x. x = Free) l = replicate (length (filter (\<lambda>x. x = Free) l)) Free" for l
    by (induction l) auto
  have "drop_all (\<lambda>x. x \<noteq> Free) l = replicate (length l) Free" for l
  proof -
    have "drop_all (\<lambda>x. x \<noteq> Free) l = replicate (length (filter (\<lambda>x. x \<noteq> Free) l) + length (filter (\<lambda>x. x = Free) l)) Free"
      using all[of l] by (simp add: drop_all_def replicate_add)
    then show ?thesis using sum_length_filter_compl[of "\<lambda>x. x \<noteq> Free" l] by simp
  qed
  then show ?thesis using P by (simp add: dnlc_purge_def)
qed

end
