(* ===== verification/Dnlc_Spec.thy ===== *)
theory Dnlc_Spec
  imports Dnlc_Seq
begin

text \<open>
  The abstract specification of the cache: a list of \<open>NC_SIZE\<close> places from the least to the most
  recently used name. \<open>lru_do\<close> is what a call does to it; \<open>nc_do_ok\<close> shows that the code does the
  same and counts its references accordingly, whatever other calls are asleep.
\<close>

section \<open>The specification\<close>

datatype nc_call =
    Enter int string int int
  | Lookup int string int
  | Remove int string
  | Purge

fun nc_do :: "nc_call \<Rightarrow> ncst \<Rightarrow> kerr + int \<times> ncst" where
  "nc_do (Enter dp name vp cred) s = andthen (dnlc_enter dp name vp cred s) (\<lambda>s'. Inr (0, s'))"
| "nc_do (Lookup dp name cred) s = dnlc_lookup dp name cred s"
| "nc_do (Remove dp name) s = andthen (dnlc_remove (NC_SIZE + 1) dp name s) (\<lambda>s'. Inr (0, s'))"
| "nc_do Purge s = andthen (dnlc_purge (NC_SIZE + 1) s) (\<lambda>s'. Inr (0, s'))"

fun lru_do :: "nc_call \<Rightarrow> centry list \<Rightarrow> int \<times> centry list" where
  "lru_do (Enter dp name vp cred) l =
     (0, if length name > NC_NAMLEN \<or> (\<exists>x \<in> set l. is_name dp name cred x) \<or> l = [] then l
         else tl l @ [Cached dp name cred vp])"
| "lru_do (Lookup dp name cred) l =
     (case find (is_name dp name cred) l of
        None \<Rightarrow> (0, l)
      | Some x \<Rightarrow> (c_vp x, remove1 x l @ [x]))"
| "lru_do (Remove dp name) l = (0, drop_all (is_name dp name ANYCRED) l)"
| "lru_do Purge l = (0, replicate (length l) Free)"

text \<open>The credential an entry loses without releasing its reference when \<open>dnlc_enter\<close> reuses the entry.\<close>

fun leaks :: "nc_call \<Rightarrow> centry list \<Rightarrow> int \<Rightarrow> int" where
  "leaks (Enter dp name vp cred) (Cached d n c v # t) k =
     (if length name > NC_NAMLEN \<or> (\<exists>x \<in> set (Cached d n c v # t). is_name dp name cred x) \<or> c \<noteq> k then 0 else 1)"
| "leaks _ _ k = 0"

fun call_ok :: "nc_call \<Rightarrow> bool" where
  "call_ok (Enter dp name vp cred) = (dp \<noteq> 0 \<and> name \<noteq> [] \<and> vp \<noteq> 0 \<and> cred \<noteq> ANYCRED)"
| "call_ok (Lookup dp name cred) = (dp \<noteq> 0 \<and> name \<noteq> [] \<and> cred \<noteq> ANYCRED)"
| "call_ok (Remove dp name) = (dp \<noteq> 0 \<and> name \<noteq> [])"
| "call_ok Purge = True"

fun call_cred :: "nc_call \<Rightarrow> int set" where
  "call_cred (Enter dp name vp cred) = {cred} - {NOCRED}"
| "call_cred _ = {}"

primrec nc_run :: "nc_call list \<Rightarrow> ncst \<Rightarrow> kerr + int list \<times> ncst" where
  "nc_run [] s = Inr ([], s)"
| "nc_run (c # cs) s = andthen (nc_do c s) (\<lambda>(r, s1). andthen (nc_run cs s1) (\<lambda>(rs, s2). Inr (r # rs, s2)))"

primrec lru_run :: "nc_call list \<Rightarrow> centry list \<Rightarrow> int list \<times> centry list" where
  "lru_run [] l = ([], l)"
| "lru_run (c # cs) l = (let (r, l1) = lru_do c l; (rs, l2) = lru_run cs l1 in (r # rs, l2))"

primrec lru_leaks :: "nc_call list \<Rightarrow> centry list \<Rightarrow> int \<Rightarrow> int" where
  "lru_leaks [] l k = 0"
| "lru_leaks (c # cs) l k = leaks c l k + lru_leaks cs (snd (lru_do c l)) k"

text \<open>The references a list of entries stands for.\<close>

fun entry_vrefs :: "int \<Rightarrow> centry \<Rightarrow> int" where
  "entry_vrefs v Free = 0"
| "entry_vrefs v (Cached d n c p) = (if d = v then 1 else 0) + (if p = v then 1 else 0)"

fun entry_crefs :: "int \<Rightarrow> centry \<Rightarrow> int" where
  "entry_crefs k Free = 0"
| "entry_crefs k (Cached d n c p) = (if c = k then 1 else 0)"

definition view_vrefs :: "centry list \<Rightarrow> int \<Rightarrow> int" where
  "view_vrefs l v = sum_list (map (entry_vrefs v) l)"

definition view_crefs :: "centry list \<Rightarrow> int \<Rightarrow> int" where
  "view_crefs l k = sum_list (map (entry_crefs k) l)"

section \<open>Each name at most once\<close>

definition unique :: "centry list \<Rightarrow> bool" where
  "unique l = (\<forall>d n c. c \<noteq> ANYCRED \<longrightarrow> length (filter (is_name d n c) l) \<le> 1)"

lemma uniqueD: "unique l \<Longrightarrow> c \<noteq> ANYCRED \<Longrightarrow> length (filter (is_name d n c) l) \<le> 1"
  unfolding unique_def by blast

lemma unique_split:
  assumes "unique (xs @ x # ys)" "is_name d n c x" "c \<noteq> ANYCRED"
  shows "find (is_name d n c) (xs @ x # ys) = Some x" "remove1 x (xs @ x # ys) = xs @ ys"
proof -
  have "length (filter (is_name d n c) (xs @ x # ys)) \<le> 1" using assms(1,3) by (rule uniqueD)
  then have "filter (is_name d n c) xs = []" using assms(2) by simp
  then have no: "\<forall>y \<in> set xs. \<not> is_name d n c y" by (simp add: filter_empty_conv)
  then show "find (is_name d n c) (xs @ x # ys) = Some x" using assms(2) by (induction xs) auto
  have "x \<notin> set xs" using no assms(2) by auto
  then show "remove1 x (xs @ x # ys) = xs @ ys" by (simp add: remove1_append)
qed

lemma unique_tl: "unique (x # t) \<Longrightarrow> unique t"
  by (force simp: unique_def split: if_splits)

lemma unique_free: "unique (replicate n Free)"
  by (simp add: unique_def)

lemma unique_snoc:
  assumes "unique t" "\<forall>x \<in> set t. \<not> is_name dp name cred x"
  shows "unique (t @ [Cached dp name cred vp])"
  unfolding unique_def
proof (intro allI impI)
  fix d n c assume c: "(c :: int) \<noteq> ANYCRED"
  show "length (filter (is_name d n c) (t @ [Cached dp name cred vp])) \<le> 1"
  proof (cases "is_name d n c (Cached dp name cred vp)")
    case True
    then have "filter (is_name d n c) t = []" using assms(2) c by (auto simp: filter_empty_conv)
    then show ?thesis by simp
  next
    case False
    then show ?thesis using uniqueD[OF assms(1) c, of d n] by (simp del: is_name.simps)
  qed
qed

lemma unique_rotate:
  assumes "unique (xs @ x # ys)"
  shows "unique (xs @ ys @ [x])"
  unfolding unique_def
proof (intro allI impI)
  fix d n c assume "(c :: int) \<noteq> ANYCRED"
  note uniqueD[OF assms this, of d n]
  then show "length (filter (is_name d n c) (xs @ ys @ [x])) \<le> 1" by (cases "is_name d n c x") simp_all
qed

lemma unique_drop_all:
  assumes "unique l"
  shows "unique (drop_all P l)"
  unfolding unique_def
proof (intro allI impI)
  fix d n c assume c: "(c :: int) \<noteq> ANYCRED"
  have "length (filter (is_name d n c) (filter (\<lambda>x. \<not> P x) l)) = length (filter (\<lambda>x. \<not> P x) (filter (is_name d n c) l))"
    by (simp add: conj_commute)
  also have "\<dots> \<le> length (filter (is_name d n c) l)" by (rule length_filter_le)
  also have "\<dots> \<le> 1" by (rule uniqueD[OF assms c])
  finally show "length (filter (is_name d n c) (drop_all P l)) \<le> 1" by (simp add: drop_all_def)
qed

section \<open>One call does what the specification says\<close>

lemma nc_do_ok:
  assumes ok: "nc_ok s \<phi> L H" and on: "doingcache s \<noteq> 0" and c: "call_ok call" and u: "unique (cache_view s)"
    and room: "\<And>v. v \<noteq> 0 \<Longrightarrow> vbal s \<phi> v < 65000" "\<And>k. k \<in> call_cred call \<Longrightarrow> cbal s k < 65000"
  shows "\<exists>r s'. nc_do call s = Inr (r, s') \<and> nc_good s' \<phi> \<and> (r, cache_view s') = lru_do call (cache_view s) \<and>
    unique (cache_view s') \<and> doingcache s' \<noteq> 0 \<and> (\<forall>v. v \<noteq> 0 \<longrightarrow> vbal s' \<phi> v = vbal s \<phi> v) \<and>
    (\<forall>k. k \<noteq> 0 \<longrightarrow> 1 \<le> cbal s k \<longrightarrow> cbal s' k = cbal s k + leaks call (cache_view s) k)"
proof (cases call)
  case (Enter dp name vp cred)
  have a: "name \<noteq> []" "dp \<noteq> 0" "vp \<noteq> 0" "cred \<noteq> ANYCRED" using c Enter by auto
  have r: "cred \<noteq> 0 \<Longrightarrow> cbal s cred < 65000" using room(2)[of cred] Enter by simp
  obtain s' where s': "dnlc_enter dp name vp cred s = Inr s'" "nc_good s' \<phi>"
    "\<And>w. w \<noteq> 0 \<Longrightarrow> vbal s' \<phi> w = vbal s \<phi> w" "doingcache s' = doingcache s"
    "if doingcache s = 0 \<or> length name > NC_NAMLEN \<or> (\<exists>x \<in> set (cache_view s). is_name dp name cred x) \<or> cache_view s = []
     then cache_view s' = cache_view s \<and> (\<forall>c. cbal s' c = cbal s c)
     else \<exists>x t. cache_view s = x # t \<and> cache_view s' = t @ [Cached dp name cred vp] \<and>
       (\<forall>c. c \<noteq> 0 \<longrightarrow> cbal s' c = cbal s c + (if x \<noteq> Free \<and> c_cred x = c then 1 else 0))"
    using dnlc_enter_ok[OF ok a room(1)[OF a(2)] room(1)[OF a(3)] r] by blast
  show ?thesis
  proof (cases "length name > NC_NAMLEN \<or> (\<exists>x \<in> set (cache_view s). is_name dp name cred x) \<or> cache_view s = []")
    case True
    then have "cache_view s' = cache_view s" "\<forall>c. cbal s' c = cbal s c" using s'(5) by auto
    moreover have "leaks call (cache_view s) k = 0" for k
      using True Enter by (cases "(call, cache_view s, k)" rule: leaks.cases) auto
    ultimately show ?thesis using s'(1-4) True Enter u on by simp
  next
    case False
    then obtain x t where x: "cache_view s = x # t" "cache_view s' = t @ [Cached dp name cred vp]"
       "\<forall>c. c \<noteq> 0 \<longrightarrow> cbal s' c = cbal s c + (if x \<noteq> Free \<and> c_cred x = c then 1 else 0)"
      using s'(5) on by auto
    have "unique (cache_view s')" unfolding x(2) by (rule unique_snoc) (use u x(1) False unique_tl in auto)
    moreover have "leaks call (cache_view s) k = (if x \<noteq> Free \<and> c_cred x = k then 1 else 0)" for k
      using False Enter x(1) by (cases x) auto
    moreover have "(0, cache_view s') = lru_do call (cache_view s)" using False Enter x(1,2) by simp
    ultimately show ?thesis using s'(1-4) Enter on x(3) by auto
  qed
next
  case (Lookup dp name cred)
  have a: "name \<noteq> []" "dp \<noteq> 0" "cred \<noteq> ANYCRED" using c Lookup by auto
  obtain v s' where s': "dnlc_lookup dp name cred s = Inr (v, s')" "nc_good s' \<phi>"
    "\<And>w. vbal s' \<phi> w = vbal s \<phi> w" "\<And>c. cbal s' c = cbal s c" "doingcache s' = doingcache s"
    "if doingcache s = 0 \<or> length name > NC_NAMLEN \<or> \<not> (\<exists>x \<in> set (cache_view s). is_name dp name cred x)
     then v = 0 \<and> cache_view s' = cache_view s
     else \<exists>xs x ys. cache_view s = xs @ x # ys \<and> is_name dp name cred x \<and> v = c_vp x \<and> cache_view s' = xs @ ys @ [x]"
    using dnlc_lookup_ok[OF ok a(1,2)] by blast
  have long: "\<not> (\<exists>x \<in> set (cache_view s). is_name dp name cred x)" if "length name > NC_NAMLEN"
  proof -
    have "\<not> is_name dp name cred (cview (ent s e))" if "e \<in> set L" for e
      using nc_structD(7)[OF nc_okD(1)[OF ok] that] \<open>length name > NC_NAMLEN\<close> by (auto simp: cview_def entry_ok_def)
    then show ?thesis by (auto simp: cache_view_ok[OF ok])
  qed
  show ?thesis
  proof (cases "\<exists>x \<in> set (cache_view s). is_name dp name cred x")
    case False
    then have "v = 0" "cache_view s' = cache_view s" using s'(6) by auto
    moreover have "find (is_name dp name cred) (cache_view s) = None" using False by (simp add: find_None_iff)
    ultimately show ?thesis using s'(1-5) Lookup u on by simp
  next
    case True
    then have "\<not> (doingcache s = 0 \<or> length name > NC_NAMLEN \<or> \<not> (\<exists>x \<in> set (cache_view s). is_name dp name cred x))"
      using on long by blast
    then obtain xs x ys where x: "cache_view s = xs @ x # ys" "is_name dp name cred x" "v = c_vp x" "cache_view s' = xs @ ys @ [x]"
      using s'(6) by (simp only: if_False) blast
    have "unique (cache_view s')" unfolding x(4) by (rule unique_rotate) (use u x(1) in simp)
    moreover have "(v, cache_view s') = lru_do call (cache_view s)"
      using Lookup unique_split[OF u[unfolded x(1)] x(2) a(3)] x by simp
    ultimately show ?thesis using s'(1-5) Lookup on by simp
  qed
next
  case (Remove dp name)
  have a: "name \<noteq> []" "dp \<noteq> 0" using c Remove by auto
  show ?thesis using dnlc_remove_ok[OF ok a, of "NC_SIZE + 1"] Remove unique_drop_all[OF u] on by auto
next
  case Purge
  show ?thesis using dnlc_purge_ok[OF ok, of "NC_SIZE + 1"] Purge unique_free on by auto
qed

section \<open>The references the entries stand for\<close>

lemma vrefs_view:
  assumes ok: "nc_ok s Map.empty L H" and v: "v \<noteq> 0"
  shows "vrefs s Map.empty v = view_vrefs (cache_view s) v"
proof -
  note S = nc_okD(1)[OF ok]
  have L: "set L = {..< NC_SIZE}" using nc_structD(3,4)[OF S] by auto
  have t: "vterm (ent s e) None v = entry_vrefs v (cview (ent s e))" if "e \<in> set L" for e
    using nc_structD(6)[OF S that] v by (auto simp: vterm_def holds_dp_def holds_vp_def cview_def free_ok_def)
  have "vrefs s Map.empty v = (\<Sum>e \<in> set L. entry_vrefs v (cview (ent s e)))"
    unfolding vrefs_def L[symmetric] by (rule sum.cong) (use t in simp_all)
  also have "\<dots> = view_vrefs (cache_view s) v"
    using nc_structD(8)[OF S] by (simp add: view_vrefs_def cache_view_ok[OF ok] sum_list_distinct_conv_sum_set comp_def)
  finally show ?thesis .
qed

lemma crefs_view:
  assumes ok: "nc_ok s Map.empty L H" and k: "k \<noteq> 0"
  shows "crefs s k = view_crefs (cache_view s) k"
proof -
  note S = nc_okD(1)[OF ok]
  have L: "set L = {..< NC_SIZE}" using nc_structD(3,4)[OF S] by auto
  have t: "cterm (ent s e) k = entry_crefs k (cview (ent s e))" if "e \<in> set L" for e
    using nc_structD(6)[OF S that] k by (auto simp: cterm_def cview_def free_ok_def)
  have "crefs s k = (\<Sum>e \<in> set L. entry_crefs k (cview (ent s e)))"
    unfolding crefs_def L[symmetric] by (rule sum.cong) (use t in simp_all)
  also have "\<dots> = view_crefs (cache_view s) k"
    using nc_structD(8)[OF S] by (simp add: view_crefs_def cache_view_ok[OF ok] sum_list_distinct_conv_sum_set comp_def)
  finally show ?thesis .
qed

section \<open>Runs\<close>

definition run_creds :: "nc_call list \<Rightarrow> int set" where
  "run_creds cs = \<Union> (call_cred ` set cs)"

lemma leaks_range: "0 \<le> leaks c l k \<and> leaks c l k \<le> 1"
  by (induction c l k rule: leaks.induct) auto

lemma call_cred_nonzero: "k \<in> call_cred c \<Longrightarrow> k \<noteq> 0"
  by (cases c) auto

lemma nc_run_ok:
  assumes "nc_ok s \<phi> L H" "doingcache s \<noteq> 0" "\<forall>c \<in> set cs. call_ok c" "unique (cache_view s)"
    "\<And>v. v \<noteq> 0 \<Longrightarrow> vbal s \<phi> v < 65000"
    "\<And>k. k \<in> run_creds cs \<Longrightarrow> 1 \<le> cbal s k \<and> cbal s k + int (length cs) < 65000"
  shows "\<exists>rs s'. nc_run cs s = Inr (rs, s') \<and> nc_good s' \<phi> \<and> (rs, cache_view s') = lru_run cs (cache_view s) \<and>
    unique (cache_view s') \<and> doingcache s' \<noteq> 0 \<and> (\<forall>v. v \<noteq> 0 \<longrightarrow> vbal s' \<phi> v = vbal s \<phi> v) \<and>
    (\<forall>k. k \<noteq> 0 \<longrightarrow> 1 \<le> cbal s k \<longrightarrow> cbal s' k = cbal s k + lru_leaks cs (cache_view s) k)"
  using assms
proof (induction cs arbitrary: s L H)
  case Nil
  then show ?case by (auto intro: nc_goodI)
next
  case (Cons c cs)
  have "cbal s k < 65000" if "k \<in> call_cred c" for k
    using Cons.prems(6)[of k] that by (simp add: run_creds_def)
  then obtain r s1 where s1: "nc_do c s = Inr (r, s1)" "nc_good s1 \<phi>" "(r, cache_view s1) = lru_do c (cache_view s)"
    "unique (cache_view s1)" "doingcache s1 \<noteq> 0" "\<forall>v. v \<noteq> 0 \<longrightarrow> vbal s1 \<phi> v = vbal s \<phi> v"
    "\<forall>k. k \<noteq> 0 \<longrightarrow> 1 \<le> cbal s k \<longrightarrow> cbal s1 k = cbal s k + leaks c (cache_view s) k"
    using nc_do_ok[of s \<phi> L H c] Cons.prems by auto
  obtain L1 H1 where ok1: "nc_ok s1 \<phi> L1 H1" using s1(2) by (auto simp: nc_good_def)
  have cb: "1 \<le> cbal s1 k \<and> cbal s1 k + int (length cs) < 65000" if "k \<in> run_creds cs" for k
  proof -
    have "k \<noteq> 0" using that call_cred_nonzero by (auto simp: run_creds_def)
    moreover have "1 \<le> cbal s k \<and> cbal s k + int (length (c # cs)) < 65000"
      using Cons.prems(6)[of k] that by (simp add: run_creds_def)
    ultimately show ?thesis using s1(7) leaks_range[of c "cache_view s" k] by simp
  qed
  have vb: "vbal s1 \<phi> v < 65000" if "v \<noteq> 0" for v using Cons.prems(5)[OF that] s1(6) that by simp
  obtain rs s' where s': "nc_run cs s1 = Inr (rs, s')" "nc_good s' \<phi>" "(rs, cache_view s') = lru_run cs (cache_view s1)"
    "unique (cache_view s')" "doingcache s' \<noteq> 0" "\<forall>v. v \<noteq> 0 \<longrightarrow> vbal s' \<phi> v = vbal s1 \<phi> v"
    "\<forall>k. k \<noteq> 0 \<longrightarrow> 1 \<le> cbal s1 k \<longrightarrow> cbal s' k = cbal s1 k + lru_leaks cs (cache_view s1) k"
    using Cons.IH[OF ok1 s1(5) _ s1(4) vb cb] Cons.prems(3) by auto
  have "lru_run (c # cs) (cache_view s) = (r # rs, cache_view s')"
    using s1(3) s'(3) by (simp add: Let_def split_def prod_eq_iff)
  moreover have "cbal s' k = cbal s k + lru_leaks (c # cs) (cache_view s) k" if "k \<noteq> 0" "1 \<le> cbal s k" for k
  proof -
    have "1 \<le> cbal s1 k" using s1(7) that leaks_range[of c "cache_view s" k] by simp
    moreover have "snd (lru_do c (cache_view s)) = cache_view s1" using s1(3) by (metis snd_conv)
    ultimately show ?thesis using s1(7) s'(7) that by simp
  qed
  ultimately show ?case using s1(1,6) s'(1,2,4-6) by simp
qed

end
