(* ===== verification/Dnlc_Reach.thy ===== *)
theory Dnlc_Reach
  imports Dnlc_Spec
begin

text \<open>
  The cache under interleaving. \<open>dnlc_enter\<close> and \<open>dnlc_rm\<close> may sleep in each \<open>VN_RELE\<close>, so a
  process may run between two of their stretches. A configuration is the state with the calls in
  flight; a step is a call that runs through, one stretch of a call that slept, or a change that the
  rest of the kernel makes to counts it holds itself. Every reachable configuration is well-formed.
\<close>

section \<open>Steps\<close>

text \<open>Others hold fewer than 65000 references, so that no unsigned short overflows.\<close>

definition nc_room :: "ncst \<Rightarrow> nc_flight \<Rightarrow> int \<Rightarrow> int \<Rightarrow> int \<Rightarrow> bool" where
  "nc_room s \<phi> dp vp cred = (vbal s \<phi> dp < 65000 \<and> vbal s \<phi> vp < 65000 \<and> (cred \<noteq> NOCRED \<longrightarrow> cbal s cred < 65000))"

fun call_room :: "ncst \<Rightarrow> nc_flight \<Rightarrow> nc_call \<Rightarrow> bool" where
  "call_room s \<phi> (Enter dp name vp cred) = nc_room s \<phi> dp vp cred"
| "call_room s \<phi> _ = True"

text \<open>What \<open>dnlc_remove\<close> and \<open>dnlc_purge\<close> hand to \<open>dnlc_rm\<close>.\<close>

definition rm_victim :: "ncst \<Rightarrow> nptr \<Rightarrow> bool" where
  "rm_victim s p = (purge_find s [0 ..< NC_HASH_SIZE] = Some p \<or>
     (\<exists>dp name h. dp \<noteq> 0 \<and> name \<noteq> [] \<and> length name \<le> NC_NAMLEN \<and> NC_HASH name (length name) dp = Inr h \<and>
        dnlc_search s dp name (length name) h ANYCRED = Inr (Some p)))"

inductive nc_step :: "ncst \<times> nc_flight \<Rightarrow> ncst \<times> nc_flight \<Rightarrow> bool" where
  others: "s' = s\<lparr>v_count := vc, inactive := ia, cr_ref := cc, crfreelist := fl, cractive := n, doingcache := d\<rparr> \<Longrightarrow>
     refs_ok s' \<phi> \<Longrightarrow> nc_step (s, \<phi>) (s', \<phi>)"
| call: "call_ok c \<Longrightarrow> call_room s \<phi> c \<Longrightarrow> nc_do c s = Inr (r, s') \<Longrightarrow> nc_step (s, \<phi>) (s', \<phi>)"
| enter_sleeps: "call_ok (Enter dp name vp cred) \<Longrightarrow> enter_take dp name cred s = Inr (s', Some (NcEnt e, h)) \<Longrightarrow>
     nc_dp (ent s e) \<noteq> 0 \<Longrightarrow>
     nc_step (s, \<phi>) (s', \<phi>(e \<mapsto> EnterDp \<lparr>a_dp = dp, a_name = name, a_vp = vp, a_cred = cred, a_hash = h\<rparr>))"
| enter_dp: "\<phi> e = Some (EnterDp a) \<Longrightarrow> rele_dp (NcEnt e) s = Inr s' \<Longrightarrow> nc_step (s, \<phi>) (s', \<phi>(e \<mapsto> EnterVp a))"
| enter_vp: "\<phi> e = Some (EnterVp a) \<Longrightarrow> rele_vp (NcEnt e) s = Inr s' \<Longrightarrow> nc_step (s, \<phi>) (s', \<phi>(e \<mapsto> EnterFill a))"
| enter_fill: "\<phi> e = Some (EnterFill a) \<Longrightarrow> nc_room s \<phi> (a_dp a) (a_vp a) (a_cred a) \<Longrightarrow>
     enter_fill (NcEnt e) (a_hash a) (a_dp a) (a_name a) (a_vp a) (a_cred a) s = Inr s' \<Longrightarrow>
     nc_step (s, \<phi>) (s', \<phi>(e := None))"
| rm_sleeps: "rm_victim s (NcEnt e) \<Longrightarrow> rm_take (NcEnt e) s = Inr s' \<Longrightarrow> nc_step (s, \<phi>) (s', \<phi>(e \<mapsto> RmDp))"
| rm_dp: "\<phi> e = Some RmDp \<Longrightarrow> rm_rele_dp (NcEnt e) s = Inr s' \<Longrightarrow> nc_step (s, \<phi>) (s', \<phi>(e \<mapsto> RmVp))"
| rm_vp: "\<phi> e = Some RmVp \<Longrightarrow> rm_rele_vp (NcEnt e) s = Inr s' \<Longrightarrow> nc_step (s, \<phi>) (s', \<phi>(e \<mapsto> RmPut))"
| rm_put: "\<phi> e = Some RmPut \<Longrightarrow> rm_put (NcEnt e) s = Inr s' \<Longrightarrow> nc_step (s, \<phi>) (s', \<phi>(e := None))"

inductive nc_reach :: "ncst \<times> nc_flight \<Rightarrow> bool" where
  init: "boot_ok s0 \<Longrightarrow> dnlc_init s0 = Inr s \<Longrightarrow> nc_reach (s, Map.empty)"
| step: "nc_reach c \<Longrightarrow> nc_step c c' \<Longrightarrow> nc_reach c'"

section \<open>Every step keeps the invariant\<close>

lemma nc_do_good:
  assumes ok: "nc_ok s \<phi> L H" and c: "call_ok c" and room: "call_room s \<phi> c"
  obtains r s' where "nc_do c s = Inr (r, s')" "nc_good s' \<phi>" "\<And>v. v \<noteq> 0 \<Longrightarrow> vbal s' \<phi> v = vbal s \<phi> v"
proof (cases c)
  case (Enter dp name vp cred)
  have a: "name \<noteq> []" "dp \<noteq> 0" "vp \<noteq> 0" "cred \<noteq> ANYCRED" using c Enter by auto
  obtain s' where "dnlc_enter dp name vp cred s = Inr s'" "nc_good s' \<phi>" "\<And>w. w \<noteq> 0 \<Longrightarrow> vbal s' \<phi> w = vbal s \<phi> w"
    by (rule dnlc_enter_ok[OF ok a]) (use room Enter in \<open>auto simp: nc_room_def\<close>)
  then show ?thesis using that Enter by auto
next
  case (Lookup dp name cred)
  have a: "name \<noteq> []" "dp \<noteq> 0" using c Lookup by auto
  show ?thesis
  proof (rule dnlc_lookup_ok[OF ok a, of cred])
    fix v s' assume "dnlc_lookup dp name cred s = Inr (v, s')" "nc_good s' \<phi>" "\<And>w. vbal s' \<phi> w = vbal s \<phi> w"
    then show ?thesis using that[of v s'] Lookup by simp
  qed
next
  case (Remove dp name)
  have a: "name \<noteq> []" "dp \<noteq> 0" using c Remove by auto
  show ?thesis using that dnlc_remove_ok[OF ok a, of "NC_SIZE + 1"] Remove by auto
next
  case Purge
  show ?thesis using that dnlc_purge_ok[OF ok, of "NC_SIZE + 1"] Purge by auto
qed

lemma rm_victim_listed:
  assumes ok: "nc_ok s \<phi> L H" and v: "rm_victim s p"
  obtains e where "p = NcEnt e" "e \<in> set L" "nc_dp (ent s e) \<noteq> 0" "nc_vp (ent s e) \<noteq> 0"
proof -
  have "\<exists>e \<in> set L. p = NcEnt e \<and> nc_dp (ent s e) \<noteq> 0"
    using v unfolding rm_victim_def
  proof
    assume "purge_find s [0 ..< NC_HASH_SIZE] = Some p"
    then show ?thesis using purge_find_view[OF ok] by auto
  next
    assume "\<exists>dp name h. dp \<noteq> 0 \<and> name \<noteq> [] \<and> length name \<le> NC_NAMLEN \<and> NC_HASH name (length name) dp = Inr h \<and>
        dnlc_search s dp name (length name) h ANYCRED = Inr (Some p)"
    then obtain dp name h where d: "dp \<noteq> 0" "name \<noteq> []" "length name \<le> NC_NAMLEN" "NC_HASH name (length name) dp = Inr h"
        "dnlc_search s dp name (length name) h ANYCRED = Inr (Some p)" by auto
    obtain k r where k: "NC_HASH name (length name) dp = Inr k"
      "dnlc_search s dp name (length name) k ANYCRED = Inr (map_option NcEnt r)"
      "case r of None \<Rightarrow> \<not> (\<exists>x \<in> set (cache_view s). is_name dp name ANYCRED x)
       | Some e \<Rightarrow> e \<in> set L \<and> e \<in> set (H k) \<and> is_name dp name ANYCRED (cview (ent s e))"
      by (rule view_find[OF ok d(2,3,1), of ANYCRED])
    have "map_option NcEnt r = Some p" using k(1,2) d(4,5) by simp
    then show ?thesis using k(3) by (auto simp: cview_def split: if_splits)
  qed
  then obtain e where e: "e \<in> set L" "p = NcEnt e" "nc_dp (ent s e) \<noteq> 0" by auto
  then show ?thesis using that nc_structD(7)[OF nc_okD(1)[OF ok]] by (auto simp: entry_ok_def)
qed

text \<open>A call of \<open>dnlc_enter\<close> that takes an entry takes the least recently used one.\<close>

lemma enter_take_victim:
  assumes ok: "nc_ok s \<phi> L H" and c: "call_ok (Enter dp name vp cred)" and t: "enter_take dp name cred s = Inr (s', Some (p, h))"
  obtains e ys where "L = e # ys" "p = NcEnt e" "rm_take (NcEnt e) s = Inr s'" "length name \<le> NC_NAMLEN"
    "NC_HASH name (length name) dp = Inr h" "\<not> (\<exists>x \<in> set (cache_view s). is_name dp name cred x)"
proof -
  have a: "name \<noteq> []" "dp \<noteq> 0" using c by auto
  have len: "length name \<le> NC_NAMLEN" and on: "doingcache s \<noteq> 0"
    using t by (auto simp: enter_take_def Let_def split: if_splits)
  obtain k r where k: "NC_HASH name (length name) dp = Inr k"
    "dnlc_search s dp name (length name) k cred = Inr (map_option NcEnt r)"
    "case r of None \<Rightarrow> \<not> (\<exists>x \<in> set (cache_view s). is_name dp name cred x)
     | Some e \<Rightarrow> e \<in> set L \<and> e \<in> set (H k) \<and> is_name dp name cred (cview (ent s e))"
    by (rule view_find[OF ok a(1) len a(2), of cred])
  have rN: "r = None" using t k(1,2) len on by (cases r) (auto simp: enter_take_def Let_def)
  note nx = lru_ring_ends(1)[OF nc_structD(1)[OF nc_okD(1)[OF ok]]]
  obtain e ys where L: "L = e # ys" using t k(1,2) rN len on nx by (cases L) (auto simp: enter_take_def Let_def)
  obtain xs0 where T: "rm_take (NcEnt e) s = Inr xs0"
    using rm_take_struct[of s "dom \<phi>" "[]" e ys H] nc_okD(1)[OF ok] L by auto
  have "enter_take dp name cred s = Inr (xs0, Some (NcEnt e, k))"
    by (rule enter_take_run[OF _ on len k(1) _ T]) (use nc_okD(1)[OF ok] L k(2) rN in simp_all)
  then show ?thesis using that[OF L] t T len k(1,3) rN by simp
qed

lemma nc_room_counts:
  assumes "nc_room s \<phi> dp vp cred"
  shows "v_count s dp + 2 < 65536" "v_count s vp + 2 < 65536" "cred \<noteq> 0 \<Longrightarrow> cr_ref s cred + 1 < 65536"
proof -
  have "v_count s w < 65064" if "vbal s \<phi> w < 65000" for w using that vrefs_le[of s \<phi> w] by (simp add: vbal_def)
  moreover have "cr_ref s w < 65032" if "cbal s w < 65000" for w using that crefs_le[of s w] by (simp add: cbal_def)
  ultimately show "v_count s dp + 2 < 65536" "v_count s vp + 2 < 65536" "cred \<noteq> 0 \<Longrightarrow> cr_ref s cred + 1 < 65536"
    using assms unfolding nc_room_def by force+
qed

lemma nc_step_ok:
  assumes "nc_step c c'" "nc_good (fst c) (snd c)"
  shows "nc_good (fst c') (snd c')"
  using assms
proof (induction rule: nc_step.induct)
  case (others s' d n fl cc ia vc s \<phi>)
  then obtain L H where ok: "nc_ok s \<phi> L H" by (auto simp: nc_good_def)
  have "nc_struct s' (dom \<phi>) L H" by (rule nc_struct_cong[OF nc_okD(1)[OF ok]]) (simp add: others(1))
  then have "nc_ok s' \<phi> L H" using others(1,2) nc_okD(2)[OF ok] by (simp add: nc_ok_def)
  then show ?case by (auto intro: nc_goodI)
next
  case (call c s \<phi> r s')
  then obtain L H where ok: "nc_ok s \<phi> L H" by (auto simp: nc_good_def)
  show ?case by (rule nc_do_good[OF ok call(1,2)]) (use call(3) in simp)
next
  case (enter_sleeps dp name vp cred s s' e h \<phi>)
  let ?a = "\<lparr>a_dp = dp, a_name = name, a_vp = vp, a_cred = cred, a_hash = h\<rparr>"
  obtain L H where ok: "nc_ok s \<phi> L H" using enter_sleeps by (auto simp: nc_good_def)
  obtain e' ys where L: "L = e' # ys" "NcEnt e = NcEnt e'" "rm_take (NcEnt e') s = Inr s'" "length name \<le> NC_NAMLEN"
    "NC_HASH name (length name) dp = Inr h"
    by (rule enter_take_victim[OF ok enter_sleeps(1,2)])
  have ok0: "nc_ok s \<phi> ([] @ e # ys) H" using ok L(1,2) by simp
  obtain s1 where s1: "rm_take (NcEnt e) s = Inr s1" "nc_ok s1 (\<phi>(e \<mapsto> EnterDp ?a)) ([] @ ys) (\<lambda>h. removeAll e (H h))"
    by (rule take_ok[OF ok0, of "EnterDp ?a"])
      (use enter_sleeps(1) L in \<open>simp_all add: holds_dp_def holds_vp_def args_ok_def\<close>)
  have "s' = s1" using s1(1) L(2,3) by simp
  then show ?case using nc_goodI[OF s1(2)] by (simp only: fst_conv snd_conv)
next
  case (enter_dp \<phi> e a s s')
  then obtain L H where ok: "nc_ok s \<phi> L H" by (auto simp: nc_good_def)
  obtain s1 where s1: "rele_dp (NcEnt e) s = Inr s1" "nc_ok s1 (\<phi>(e \<mapsto> EnterVp a)) L H"
    by (rule rele_dp_ok[OF ok enter_dp(1)])
  have "s' = s1" using s1(1) enter_dp(2) by simp
  then show ?case using nc_goodI[OF s1(2)] by (simp only: fst_conv snd_conv)
next
  case (enter_vp \<phi> e a s s')
  then obtain L H where ok: "nc_ok s \<phi> L H" by (auto simp: nc_good_def)
  obtain s1 where s1: "rele_vp (NcEnt e) s = Inr s1" "nc_ok s1 (\<phi>(e \<mapsto> EnterFill a)) L H"
    by (rule rele_vp_ok[OF ok enter_vp(1)])
  have "s' = s1" using s1(1) enter_vp(2) by simp
  then show ?case using nc_goodI[OF s1(2)] by (simp only: fst_conv snd_conv)
next
  case (enter_fill \<phi> e a s s')
  then obtain L H where ok: "nc_ok s \<phi> L H" by (auto simp: nc_good_def)
  note room = nc_room_counts[OF enter_fill(2)]
  obtain s1 H' where s1: "enter_fill (NcEnt e) (a_hash a) (a_dp a) (a_name a) (a_vp a) (a_cred a) s = Inr s1" "nc_ok s1 (\<phi>(e := None)) (L @ [e]) H'"
    by (rule enter_fill_ok[OF ok enter_fill(1) room])
  have "s' = s1" using s1(1) enter_fill(3) by simp
  then show ?case using nc_goodI[OF s1(2)] by (simp only: fst_conv snd_conv)
next
  case (rm_sleeps s e s' \<phi>)
  then obtain L H where ok: "nc_ok s \<phi> L H" by (auto simp: nc_good_def)
  obtain e' where e: "NcEnt e = NcEnt e'" "e' \<in> set L" "nc_dp (ent s e') \<noteq> 0" "nc_vp (ent s e') \<noteq> 0"
    by (rule rm_victim_listed[OF ok rm_sleeps(1)])
  then obtain xs ys where L: "L = xs @ e # ys" by (auto simp: in_set_conv_decomp)
  have ok0: "nc_ok s \<phi> (xs @ e # ys) H" using ok L by simp
  obtain s1 where s1: "rm_take (NcEnt e) s = Inr s1" "nc_ok s1 (\<phi>(e \<mapsto> RmDp)) (xs @ ys) (\<lambda>h. removeAll e (H h))"
    by (rule take_ok[OF ok0, of RmDp]) (use e in \<open>simp_all add: holds_dp_def holds_vp_def\<close>)
  have "s' = s1" using s1(1) rm_sleeps(2) by simp
  then show ?case using nc_goodI[OF s1(2)] by (simp only: fst_conv snd_conv)
next
  case (rm_dp \<phi> e s s')
  then obtain L H where ok: "nc_ok s \<phi> L H" by (auto simp: nc_good_def)
  obtain s1 where s1: "rm_rele_dp (NcEnt e) s = Inr s1" "nc_ok s1 (\<phi>(e \<mapsto> RmVp)) L H"
    by (rule rm_rele_dp_ok[OF ok rm_dp(1)])
  have "s' = s1" using s1(1) rm_dp(2) by simp
  then show ?case using nc_goodI[OF s1(2)] by (simp only: fst_conv snd_conv)
next
  case (rm_vp \<phi> e s s')
  then obtain L H where ok: "nc_ok s \<phi> L H" by (auto simp: nc_good_def)
  obtain s1 where s1: "rm_rele_vp (NcEnt e) s = Inr s1" "nc_ok s1 (\<phi>(e \<mapsto> RmPut)) L H"
    by (rule rm_rele_vp_ok[OF ok rm_vp(1)])
  have "s' = s1" using s1(1) rm_vp(2) by simp
  then show ?case using nc_goodI[OF s1(2)] by (simp only: fst_conv snd_conv)
next
  case (rm_put \<phi> e s s')
  then obtain L H where ok: "nc_ok s \<phi> L H" by (auto simp: nc_good_def)
  obtain s1 where s1: "rm_put (NcEnt e) s = Inr s1" "nc_ok s1 (\<phi>(e := None)) (e # L) H"
    by (rule rm_put_ok[OF ok rm_put(1)])
  have "s' = s1" using s1(1) rm_put(2) by simp
  then show ?case using nc_goodI[OF s1(2)] by (simp only: fst_conv snd_conv)
qed

lemma nc_reach_good: "nc_reach c \<Longrightarrow> nc_good (fst c) (snd c)"
proof (induction rule: nc_reach.induct)
  case (init s0 s)
  show ?case by (rule dnlc_init_ok[OF init(1)]) (use init(2) in \<open>auto intro: nc_goodI\<close>)
next
  case (step c c')
  show ?case by (rule nc_step_ok[OF step(2,3)])
qed

section \<open>Runs are reachable\<close>

lemma nc_run_reach:
  assumes "nc_reach (s, \<phi>)" "nc_ok s \<phi> L H" "doingcache s \<noteq> 0" "\<forall>c \<in> set cs. call_ok c" "unique (cache_view s)"
    "\<And>v. v \<noteq> 0 \<Longrightarrow> vbal s \<phi> v < 65000"
    "\<And>k. k \<in> run_creds cs \<Longrightarrow> 1 \<le> cbal s k \<and> cbal s k + int (length cs) < 65000"
    "nc_run cs s = Inr (rs, s')"
  shows "nc_reach (s', \<phi>)"
  using assms
proof (induction cs arbitrary: s L H rs)
  case (Cons c cs)
  have k: "cbal s k < 65000" if "k \<in> call_cred c" for k
    using Cons.prems(7)[of k] that by (simp add: run_creds_def)
  obtain r s1 where s1: "nc_do c s = Inr (r, s1)" "nc_good s1 \<phi>" "(r, cache_view s1) = lru_do c (cache_view s)"
    "unique (cache_view s1)" "doingcache s1 \<noteq> 0" "\<forall>v. v \<noteq> 0 \<longrightarrow> vbal s1 \<phi> v = vbal s \<phi> v"
    "\<forall>k. k \<noteq> 0 \<longrightarrow> 1 \<le> cbal s k \<longrightarrow> cbal s1 k = cbal s k + leaks c (cache_view s) k"
    using nc_do_ok[of s \<phi> L H c] Cons.prems k by auto
  obtain L1 H1 where ok1: "nc_ok s1 \<phi> L1 H1" using s1(2) by (auto simp: nc_good_def)
  have "call_room s \<phi> c" using Cons.prems(4,6) k by (cases c) (auto simp: nc_room_def)
  then have "nc_step (s, \<phi>) (s1, \<phi>)" using s1(1) Cons.prems(4) by (auto intro: nc_step.call)
  then have R: "nc_reach (s1, \<phi>)" by (rule nc_reach.step[OF Cons.prems(1)])
  have cb: "1 \<le> cbal s1 k \<and> cbal s1 k + int (length cs) < 65000" if "k \<in> run_creds cs" for k
  proof -
    have "k \<noteq> 0" using that call_cred_nonzero by (auto simp: run_creds_def)
    moreover have "1 \<le> cbal s k \<and> cbal s k + int (length (c # cs)) < 65000"
      using Cons.prems(7)[of k] that by (simp add: run_creds_def)
    ultimately show ?thesis using s1(7) leaks_range[of c "cache_view s" k] by simp
  qed
  have vb: "vbal s1 \<phi> v < 65000" if "v \<noteq> 0" for v using Cons.prems(6)[OF that] s1(6) that by simp
  obtain rs' where "nc_run cs s1 = Inr (rs', s')"
    using Cons.prems(8) s1(1) by (cases "nc_run cs s1") auto
  then show ?case using Cons.IH[OF R ok1 s1(5) _ s1(4) vb cb] Cons.prems(4) by auto
qed simp

end
