(* ===== verification/Dnlc_Client.thy ===== *)
theory Dnlc_Client
  imports Dnlc_Spec
begin

text \<open>
  What a caller may rely on. The locale states the laws of a name cache that is asked, told and
  cleared by calls that do not overlap; inside it, any answer is shown to have been entered under the
  very name asked for, since the name was last removed and the cache last purged. The laws are
  discharged for the model of vfs_dnlc.c. That a caller removes a name before it changes its directory,
  and under the same characters it asks for, is the caller's part and is not modelled: the System V
  file system compares 14 characters of a name where the cache keeps 15.
\<close>

section \<open>Sequences of calls\<close>

datatype 'k cache_call = Ask 'k | Put 'k int | Drop 'k | Clear

text \<open>The vnodes entered under a name since it was last removed, of the calls done, the last one first.\<close>

fun known :: "'k \<Rightarrow> 'k cache_call list \<Rightarrow> int set" where
  "known k [] = {}"
| "known k (Ask k' # past) = known k past"
| "known k (Put k' v # past) = (if k' = k then insert v (known k past) else known k past)"
| "known k (Drop k' # past) = (if k' = k then {} else known k past)"
| "known k (Clear # past) = {}"

text \<open>Answers, one for each question, are no vnode or a known one.\<close>

fun answers_known :: "'k cache_call list \<Rightarrow> 'k cache_call list \<Rightarrow> int list \<Rightarrow> bool" where
  "answers_known past [] vs = (vs = [])"
| "answers_known past (Ask k # cs) vs =
     (vs \<noteq> [] \<and> (hd vs = 0 \<or> hd vs \<in> known k past) \<and> answers_known (Ask k # past) cs (tl vs))"
| "answers_known past (c # cs) vs = answers_known (c # past) cs vs"

primrec cache_run ::
    "('k \<Rightarrow> 's \<Rightarrow> kerr + int \<times> 's) \<Rightarrow> ('k \<Rightarrow> int \<Rightarrow> 's \<Rightarrow> kerr + 's) \<Rightarrow> ('k \<Rightarrow> 's \<Rightarrow> kerr + 's) \<Rightarrow> ('s \<Rightarrow> kerr + 's) \<Rightarrow>
     'k cache_call list \<Rightarrow> 's \<Rightarrow> kerr + int list \<times> 's" where
  "cache_run look enter forget flush [] s = Inr ([], s)"
| "cache_run look enter forget flush (c # cs) s =
     (case c of
        Ask k \<Rightarrow> andthen (look k s) (\<lambda>(v, s1).
          andthen (cache_run look enter forget flush cs s1) (\<lambda>(vs, s2). Inr (v # vs, s2)))
      | Put k v \<Rightarrow> andthen (enter k v s) (cache_run look enter forget flush cs)
      | Drop k \<Rightarrow> andthen (forget k s) (cache_run look enter forget flush cs)
      | Clear \<Rightarrow> andthen (flush s) (cache_run look enter forget flush cs))"

fun cache_call_ok :: "('k \<Rightarrow> bool) \<Rightarrow> 'k cache_call \<Rightarrow> bool" where
  "cache_call_ok key (Ask k) = key k"
| "cache_call_ok key (Put k v) = (key k \<and> v \<noteq> 0)"
| "cache_call_ok key (Drop k) = key k"
| "cache_call_ok key Clear = True"

section \<open>The contract of a name cache\<close>

text \<open>\<open>held s k\<close>: the vnodes the cache knows under a name.\<close>

locale name_cache =
  fixes look :: "'k \<Rightarrow> 's \<Rightarrow> kerr + int \<times> 's" and enter :: "'k \<Rightarrow> int \<Rightarrow> 's \<Rightarrow> kerr + 's"
    and forget :: "'k \<Rightarrow> 's \<Rightarrow> kerr + 's" and flush :: "'s \<Rightarrow> kerr + 's"
    and good :: "'s \<Rightarrow> bool" and key :: "'k \<Rightarrow> bool" and held :: "'s \<Rightarrow> 'k \<Rightarrow> int set"
  assumes look_law: "good s \<Longrightarrow> key k \<Longrightarrow>
      \<exists>v s'. look k s = Inr (v, s') \<and> good s' \<and> held s' = held s \<and> (if v = 0 then held s k = {} else v \<in> held s k)"
    and enter_law: "good s \<Longrightarrow> key k \<Longrightarrow> v \<noteq> 0 \<Longrightarrow>
      \<exists>s'. enter k v s = Inr s' \<and> good s' \<and> (\<forall>k'. held s' k' \<subseteq> held s k' \<union> (if k' = k then {v} else {}))"
    and forget_law: "good s \<Longrightarrow> key k \<Longrightarrow> \<exists>s'. forget k s = Inr s' \<and> good s' \<and> held s' = (held s)(k := {})"
    and flush_law: "good s \<Longrightarrow> \<exists>s'. flush s = Inr s' \<and> good s' \<and> held s' = (\<lambda>_. {})"
begin

lemma cache_run_known:
  assumes "good s" "\<forall>k. held s k \<subseteq> known k past" "list_all (cache_call_ok key) cs"
  shows "\<exists>vs s'. cache_run look enter forget flush cs s = Inr (vs, s') \<and> answers_known past cs vs \<and> good s'"
  using assms
proof (induction cs arbitrary: past s)
  case (Cons c cs)
  have ks: "list_all (cache_call_ok key) cs" using Cons.prems(3) by simp
  show ?case
  proof (cases c)
    case (Ask k)
    obtain v s1 where l: "look k s = Inr (v, s1)" "good s1" "held s1 = held s" "if v = 0 then held s k = {} else v \<in> held s k"
      using look_law [OF Cons.prems(1), of k] Cons.prems(3) Ask by auto
    have "\<forall>k'. held s1 k' \<subseteq> known k' (Ask k # past)" using Cons.prems(2) l(3) by simp
    from Cons.IH [OF l(2) this ks] obtain vs s' where
      r: "cache_run look enter forget flush cs s1 = Inr (vs, s')" "answers_known (Ask k # past) cs vs" "good s'" by blast
    have "v = 0 \<or> v \<in> known k past" using l(4) Cons.prems(2) by (auto split: if_splits)
    then have "answers_known past (c # cs) (v # vs)" using r(2) Ask by simp
    moreover have "cache_run look enter forget flush (c # cs) s = Inr (v # vs, s')" using l(1) r(1) Ask by simp
    ultimately show ?thesis using r(3) by blast
  next
    case (Put k v)
    obtain s1 where e: "enter k v s = Inr s1" "good s1" "\<forall>k'. held s1 k' \<subseteq> held s k' \<union> (if k' = k then {v} else {})"
      using enter_law [OF Cons.prems(1), of k v] Cons.prems(3) Put by auto
    have "\<forall>k'. held s1 k' \<subseteq> known k' (Put k v # past)" using Cons.prems(2) e(3) by fastforce
    from Cons.IH [OF e(2) this ks] show ?thesis using e(1) Put by simp
  next
    case (Drop k)
    obtain s1 where f: "forget k s = Inr s1" "good s1" "held s1 = (held s)(k := {})"
      using forget_law [OF Cons.prems(1), of k] Cons.prems(3) Drop by auto
    have "\<forall>k'. held s1 k' \<subseteq> known k' (Drop k # past)" using Cons.prems(2) f(3) by simp
    from Cons.IH [OF f(2) this ks] show ?thesis using f(1) Drop by simp
  next
    case Clear
    obtain s1 where f: "flush s = Inr s1" "good s1" "held s1 = (\<lambda>_. {})" using flush_law [OF Cons.prems(1)] by blast
    have "\<forall>k'. held s1 k' \<subseteq> known k' (Clear # past)" using f(3) by simp
    from Cons.IH [OF f(2) this ks] show ?thesis using f(1) Clear by simp
  qed
qed simp

end

section \<open>The model of vfs_dnlc.c is a name cache\<close>

text \<open>As the System V file system calls it: without credentials.\<close>

definition nc_look :: "int \<times> string \<Rightarrow> ncst \<Rightarrow> kerr + int \<times> ncst" where
  "nc_look k s = dnlc_lookup (fst k) (snd k) NOCRED s"

definition nc_enter :: "int \<times> string \<Rightarrow> int \<Rightarrow> ncst \<Rightarrow> kerr + ncst" where
  "nc_enter k v s = dnlc_enter (fst k) (snd k) v NOCRED s"

definition nc_forget :: "int \<times> string \<Rightarrow> ncst \<Rightarrow> kerr + ncst" where
  "nc_forget k s = dnlc_remove (NC_SIZE + 1) (fst k) (snd k) s"

definition nc_flush :: "ncst \<Rightarrow> kerr + ncst" where
  "nc_flush s = dnlc_purge (NC_SIZE + 1) s"

definition nc_key :: "int \<times> string \<Rightarrow> bool" where
  "nc_key k = (fst k \<noteq> 0 \<and> snd k \<noteq> [])"

definition nc_idle :: "ncst \<Rightarrow> bool" where
  "nc_idle s = (nc_good s Map.empty \<and> doingcache s \<noteq> 0 \<and> unique (cache_view s) \<and> (\<forall>v. v \<noteq> 0 \<longrightarrow> vbal s Map.empty v < 65000) \<and>
     (\<forall>x \<in> set (cache_view s). x \<noteq> Free \<longrightarrow> c_cred x = NOCRED))"

definition nc_held :: "ncst \<Rightarrow> int \<times> string \<Rightarrow> int set" where
  "nc_held s k = {v. Cached (fst k) (snd k) NOCRED v \<in> set (cache_view s)}"

lemma view_vp_nonzero:
  assumes "nc_good s \<phi>" "x \<in> set (cache_view s)" "x \<noteq> Free"
  shows "c_vp x \<noteq> 0"
proof -
  from assms(1) obtain L H where ok: "nc_ok s \<phi> L H" by (auto simp: nc_good_def)
  from assms(2) obtain e where e: "e \<in> set L" "x = cview (ent s e)" by (auto simp: cache_view_ok[OF ok])
  then have "nc_dp (ent s e) \<noteq> 0" using assms(3) by (auto simp: cview_def)
  then have "entry_ok (ent s e)" using nc_structD(7)[OF nc_okD(1)[OF ok] e(1)] by simp
  then show ?thesis using e(2) by (simp add: cview_def entry_ok_def)
qed

text \<open>One call of a client without credentials.\<close>

lemma nc_idle_do:
  assumes i: "nc_idle s" and c: "call_ok call" and k: "call_cred call = {}"
    and cr: "\<forall>x \<in> set (snd (lru_do call (cache_view s))). x \<noteq> Free \<longrightarrow> c_cred x = NOCRED"
  obtains r s' where "nc_do call s = Inr (r, s')" "nc_idle s'" "(r, cache_view s') = lru_do call (cache_view s)"
proof -
  obtain L H where ok: "nc_ok s Map.empty L H" using i by (auto simp: nc_idle_def nc_good_def)
  obtain r s' where s': "nc_do call s = Inr (r, s')" "nc_good s' Map.empty" "(r, cache_view s') = lru_do call (cache_view s)"
    "unique (cache_view s')" "doingcache s' \<noteq> 0" "\<forall>v. v \<noteq> 0 \<longrightarrow> vbal s' Map.empty v = vbal s Map.empty v"
    using nc_do_ok[OF ok _ c] i k unfolding nc_idle_def by auto
  have "cache_view s' = snd (lru_do call (cache_view s))" using s'(3) by (metis snd_conv)
  then have "nc_idle s'" using s'(2,4-6) i cr by (auto simp: nc_idle_def)
  then show ?thesis using that s'(1,3) by blast
qed

lemma drop_all_in: "x \<in> set (drop_all P l) \<Longrightarrow> x \<noteq> Free \<Longrightarrow> x \<in> set l \<and> \<not> P x"
  by (auto simp: drop_all_def)

lemma nc_look_law:
  assumes i: "nc_idle s" and k: "nc_key k"
  shows "\<exists>v s'. nc_look k s = Inr (v, s') \<and> nc_idle s' \<and> nc_held s' = nc_held s \<and>
    (if v = 0 then nc_held s k = {} else v \<in> nc_held s k)"
proof -
  let ?P = "is_name (fst k) (snd k) NOCRED"
  have cs: "\<forall>x \<in> set (cache_view s). x \<noteq> Free \<longrightarrow> c_cred x = NOCRED" using i by (simp add: nc_idle_def)
  have "insert x (set (remove1 x l)) = insert x (set l)" for x :: centry and l
    by (induction l) auto
  then have rot: "set (remove1 x (cache_view s) @ [x]) = set (cache_view s)" if "x \<in> set (cache_view s)" for x
    using that by auto
  have "\<forall>x \<in> set (snd (lru_do (Lookup (fst k) (snd k) NOCRED) (cache_view s))). x \<noteq> Free \<longrightarrow> c_cred x = NOCRED"
  proof (cases "find ?P (cache_view s)")
    case (Some x)
    then show ?thesis using cs rot[of x] find_SomeD[OF Some] by simp
  qed (use cs in simp)
  then obtain r s' where s': "nc_do (Lookup (fst k) (snd k) NOCRED) s = Inr (r, s')" "nc_idle s'"
    "(r, cache_view s') = lru_do (Lookup (fst k) (snd k) NOCRED) (cache_view s)"
    by (rule nc_idle_do[OF i, rotated 2]) (use k in \<open>simp_all add: nc_key_def\<close>)
  show ?thesis
  proof (cases "find ?P (cache_view s)")
    case None
    then have "nc_held s k = {}" by (auto simp: nc_held_def find_None_iff)
    then show ?thesis using s' None by (auto simp: nc_look_def nc_held_def)
  next
    case (Some x)
    have x: "x \<in> set (cache_view s)" "?P x" using find_SomeD[OF Some] by auto
    have "x = Cached (fst k) (snd k) NOCRED (c_vp x)" using x(2) by (induction x) auto
    then have "c_vp x \<in> nc_held s k" using x(1) by (simp add: nc_held_def)
    moreover have "x \<noteq> Free" using x(2) by auto
    then have "c_vp x \<noteq> 0"
      using view_vp_nonzero[of s Map.empty x] x(1) i by (simp add: nc_idle_def)
    moreover have "set (cache_view s') = set (cache_view s)" using s'(3) Some rot[OF x(1)] by simp
    ultimately show ?thesis using s' Some by (auto simp: nc_look_def nc_held_def)
  qed
qed

lemma nc_enter_law:
  assumes i: "nc_idle s" and k: "nc_key k" and v: "v \<noteq> 0"
  shows "\<exists>s'. nc_enter k v s = Inr s' \<and> nc_idle s' \<and> (\<forall>k'. nc_held s' k' \<subseteq> nc_held s k' \<union> (if k' = k then {v} else {}))"
proof -
  let ?c = "Enter (fst k) (snd k) v NOCRED"
  have sub: "set (snd (lru_do ?c (cache_view s))) \<subseteq> insert (Cached (fst k) (snd k) NOCRED v) (set (cache_view s))"
    by (cases "cache_view s") auto
  then have "\<forall>x \<in> set (snd (lru_do ?c (cache_view s))). x \<noteq> Free \<longrightarrow> c_cred x = NOCRED"
    using i unfolding nc_idle_def by (metis centry.sel(3) insertE subsetD)
  then obtain r s' where s': "nc_do ?c s = Inr (r, s')" "nc_idle s'" "(r, cache_view s') = lru_do ?c (cache_view s)"
    by (rule nc_idle_do[OF i, rotated 2]) (use k v in \<open>simp_all add: nc_key_def\<close>)
  have "set (cache_view s') \<subseteq> insert (Cached (fst k) (snd k) NOCRED v) (set (cache_view s))"
    using sub s'(3) by (metis snd_conv)
  then have "\<forall>k'. nc_held s' k' \<subseteq> nc_held s k' \<union> (if k' = k then {v} else {})"
    by (auto simp: nc_held_def prod_eq_iff)
  moreover have "nc_enter k v s = Inr s'"
    using s'(1) by (cases "dnlc_enter (fst k) (snd k) v NOCRED s") (auto simp: nc_enter_def)
  ultimately show ?thesis using s'(2) by blast
qed

lemma nc_forget_law:
  assumes i: "nc_idle s" and k: "nc_key k"
  shows "\<exists>s'. nc_forget k s = Inr s' \<and> nc_idle s' \<and> nc_held s' = (nc_held s)(k := {})"
proof -
  let ?c = "Remove (fst k) (snd k)"
  have "\<forall>x \<in> set (snd (lru_do ?c (cache_view s))). x \<noteq> Free \<longrightarrow> c_cred x = NOCRED"
    using i drop_all_in by (fastforce simp: nc_idle_def)
  then obtain r s' where s': "nc_do ?c s = Inr (r, s')" "nc_idle s'" "(r, cache_view s') = lru_do ?c (cache_view s)"
    by (rule nc_idle_do[OF i, rotated 2]) (use k in \<open>simp_all add: nc_key_def\<close>)
  have v: "cache_view s' = drop_all (is_name (fst k) (snd k) ANYCRED) (cache_view s)" using s'(3) by simp
  have "nc_held s' k' = ((nc_held s)(k := {})) k'" for k'
    by (auto simp: nc_held_def v drop_all_def prod_eq_iff)
  then have "nc_held s' = (nc_held s)(k := {})" by blast
  moreover have "nc_forget k s = Inr s'"
    using s'(1) by (cases "dnlc_remove (NC_SIZE + 1) (fst k) (snd k) s") (auto simp: nc_forget_def)
  ultimately show ?thesis using s'(2) by blast
qed

lemma nc_flush_law:
  assumes i: "nc_idle s"
  shows "\<exists>s'. nc_flush s = Inr s' \<and> nc_idle s' \<and> nc_held s' = (\<lambda>_. {})"
proof -
  obtain r s' where s': "nc_do Purge s = Inr (r, s')" "nc_idle s'" "(r, cache_view s') = lru_do Purge (cache_view s)"
    by (rule nc_idle_do[OF i, of Purge]) simp_all
  then have "nc_held s' = (\<lambda>_. {})" by (auto simp: nc_held_def)
  moreover have "nc_flush s = Inr s'"
    using s'(1) by (cases "dnlc_purge (NC_SIZE + 1) s") (auto simp: nc_flush_def)
  ultimately show ?thesis using s'(2) by blast
qed

interpretation dnlc: name_cache nc_look nc_enter nc_forget nc_flush nc_idle nc_key nc_held
  by unfold_locales (rule nc_look_law nc_enter_law nc_forget_law nc_flush_law; assumption)+

end
