(* ===== verification/Dnlc_Props.thy ===== *)
theory Dnlc_Props
  imports Dnlc_Reach Dnlc_Client
begin

text \<open>
  The properties of the directory name lookup cache, with a concrete state of the kernel after its
  statics are initialised, on which the hypotheses are shown to hold.
\<close>

section \<open>A booted kernel\<close>

definition nc_boot :: ncst where
  "nc_boot =
     \<lparr>nc_mem = (\<lambda>_. \<lparr>hash_next = NcNull, hash_prev = NcNull, lru_next = NcNull, lru_prev = NcNull, nc_vp = 0, nc_dp = 0,
        nc_namlen = 0, nc_name = replicate NC_NAMLEN (CHR 0x00), nc_cred = 0\<rparr>),
      nc_stats = \<lparr>hits = 0, misses = 0, long_enter = 0, long_look = 0, lru_empty = 0, purges = 0\<rparr>,
      doingcache = 1, v_count = (\<lambda>_. 1), inactive = [], cr_ref = (\<lambda>_. 1), crfreelist = [], cractive = 1\<rparr>"

lemma nc_boot_ok: "boot_ok nc_boot" "doingcache nc_boot \<noteq> 0" "v_count nc_boot v = 1" "cr_ref nc_boot k = 1"
  by (simp_all add: boot_ok_def nc_boot_def)

text \<open>A run from initialisation, with everything that is known of it.\<close>

lemma nc_boot_run:
  assumes b: "boot_ok s0" "doingcache s0 \<noteq> 0" and c: "\<forall>c \<in> set cs. call_ok c" and v: "\<forall>v. v_count s0 v < 65000"
    and k: "\<forall>k \<in> run_creds cs. 1 \<le> cr_ref s0 k \<and> cr_ref s0 k + int (length cs) < 65000"
  obtains s rs s' where "dnlc_init s0 = Inr s" "nc_run cs s = Inr (rs, s')" "(rs, cache_view s') = lru_run cs (replicate NC_SIZE Free)"
    "nc_reach (s', Map.empty)" "unique (cache_view s')"
    "doingcache s' \<noteq> 0" "\<And>v. v \<noteq> 0 \<Longrightarrow> v_count s' v = v_count s0 v + view_vrefs (cache_view s') v"
    "\<And>k. k \<noteq> 0 \<Longrightarrow> 1 \<le> cr_ref s0 k \<Longrightarrow>
       cr_ref s' k = cr_ref s0 k + view_crefs (cache_view s') k + lru_leaks cs (replicate NC_SIZE Free) k"
proof -
  obtain s where s: "dnlc_init s0 = Inr s" "nc_ok s Map.empty (rev [0 ..< NC_SIZE]) (\<lambda>_. [])" "s\<lparr>nc_mem := nc_mem s0\<rparr> = s0"
    "\<And>v. v \<noteq> 0 \<Longrightarrow> vbal s Map.empty v = v_count s0 v" "\<And>c. c \<noteq> 0 \<Longrightarrow> cbal s c = cr_ref s0 c"
    "cache_view s = replicate NC_SIZE Free"
    using dnlc_init_ok[OF b(1)] by blast
  have on: "doingcache s \<noteq> 0" using mem_only_fields(2)[OF s(3)] b(2) by simp
  have u: "unique (cache_view s)" unfolding s(6) by (rule unique_free)
  have vb: "vbal s Map.empty v < 65000" if "v \<noteq> 0" for v using s(4)[OF that] v by simp
  have cb: "1 \<le> cbal s k \<and> cbal s k + int (length cs) < 65000" if "k \<in> run_creds cs" for k
    using s(5)[of k] k that call_cred_nonzero by (auto simp: run_creds_def)
  obtain rs s' where s': "nc_run cs s = Inr (rs, s')" "nc_good s' Map.empty" "(rs, cache_view s') = lru_run cs (cache_view s)"
    "unique (cache_view s')" "doingcache s' \<noteq> 0" "\<forall>v. v \<noteq> 0 \<longrightarrow> vbal s' Map.empty v = vbal s Map.empty v"
    "\<forall>k. k \<noteq> 0 \<longrightarrow> 1 \<le> cbal s k \<longrightarrow> cbal s' k = cbal s k + lru_leaks cs (cache_view s) k"
    using nc_run_ok[OF s(2) on c u vb cb] by auto
  obtain L H where ok: "nc_ok s' Map.empty L H" using s'(2) by (auto simp: nc_good_def)
  have "nc_reach (s', Map.empty)"
    by (rule nc_run_reach[OF nc_reach.init[OF b(1) s(1)] s(2) on c u vb cb s'(1)])
  moreover have "v_count s' v = v_count s0 v + view_vrefs (cache_view s') v" if "v \<noteq> 0" for v
    using s'(6)[rule_format, OF that] s(4)[OF that] vrefs_view[OF ok that] by (simp add: vbal_def)
  moreover have "cr_ref s' k = cr_ref s0 k + view_crefs (cache_view s') k + lru_leaks cs (replicate NC_SIZE Free) k"
    if "k \<noteq> 0" "1 \<le> cr_ref s0 k" for k
    using s'(7)[rule_format, OF that(1)] s(5)[OF that(1)] crefs_view[OF ok that(1)] that(2) s(6) by (simp add: cbal_def)
  moreover have "(rs, cache_view s') = lru_run cs (replicate NC_SIZE Free)" using s'(3) s(6) by simp
  ultimately show ?thesis using that s(1) s'(1,4,5) by blast
qed

section \<open>Filling the cache\<close>

lemma lru_run_Cons: "snd (lru_run (c # cs) l) = snd (lru_run cs (snd (lru_do c l)))"
  by (simp add: split_def Let_def)

lemma lru_run_append: "snd (lru_run (cs @ ds) l) = snd (lru_run ds (snd (lru_run cs l)))"
  by (induction cs arbitrary: l) (simp_all only: append_Nil append_Cons lru_run_Cons lru_run.simps(1) snd_conv)

lemma lru_leaks_append: "lru_leaks (cs @ ds) l k = lru_leaks cs l k + lru_leaks ds (snd (lru_run cs l)) k"
  by (induction cs arbitrary: l) (simp_all only: append_Nil append_Cons lru_run_Cons lru_run.simps(1) snd_conv lru_leaks.simps add_0 add.assoc)

text \<open>Entering new names into places of which the first are free.\<close>

lemma lru_fill:
  assumes "distinct ns" "\<forall>n \<in> set ns. length n \<le> NC_NAMLEN" "\<forall>x \<in> set l. \<forall>n \<in> set ns. \<not> is_name d n k x"
    "length ns \<le> length l" "\<forall>x \<in> set (take (length ns) l). x = Free"
  shows "snd (lru_run (map (\<lambda>n. Enter d n v k) ns) l) = drop (length ns) l @ map (\<lambda>n. Cached d n k v) ns"
    "lru_leaks (map (\<lambda>n. Enter d n v k) ns) l j = 0"
  using assms
proof (induction ns arbitrary: l)
  case (Cons n ns)
  case 1
  obtain t where l: "l = Free # t" using 1(4,5) by (cases l) auto
  have e: "snd (lru_do (Enter d n v k) l) = t @ [Cached d n k v]" using 1(2,3) l by auto
  show ?case
    using Cons(1)[of "t @ [Cached d n k v]"] 1 l by (simp only: list.map lru_run_Cons e) auto
next
  case (Cons n ns)
  case 2
  obtain t where l: "l = Free # t" using 2(4,5) by (cases l) auto
  have e: "snd (lru_do (Enter d n v k) l) = t @ [Cached d n k v]" using 2(2,3) l by auto
  have "leaks (Enter d n v k) l j = 0" by (simp add: l)
  then show ?case
    using Cons(2)[of "t @ [Cached d n k v]"] 2 l by (simp only: list.map lru_leaks.simps e) auto
qed simp_all

text \<open>33 names.\<close>

definition nm :: "nat \<Rightarrow> string" where
  "nm i = [char_of (65 + i)]"

lemma nm_inj: "nm i = nm j \<Longrightarrow> i < 64 \<Longrightarrow> j < 64 \<Longrightarrow> i = j"
proof -
  assume "nm i = nm j" and b: "i < 64" "j < 64"
  then have "(of_char (char_of (65 + i)) :: nat) = of_char (char_of (65 + j))" by (simp add: nm_def)
  then show "i = j" using b by simp
qed

lemma nm_distinct: "distinct (map nm [0 ..< 32])"
  by (auto simp: distinct_map inj_on_def dest: nm_inj)

section \<open>Properties\<close>

text \<open>
  C3: After dnlc_init, any sequence of enters, lookups, removals and purges returns, and gives exactly
  the answers and the contents of the specification: a list of 32 places in which a lookup moves the
  name found to the end, an enter of a new name of at most 15 characters takes the place of the first,
  and a removal clears every place of the name, under whatever credentials.
\<close>

theorem dnlc_refines_lru:
  assumes "boot_ok s0" "doingcache s0 \<noteq> 0" "\<forall>c \<in> set cs. call_ok c" "\<forall>v. v_count s0 v < 65000"
    "\<forall>k \<in> run_creds cs. 1 \<le> cr_ref s0 k \<and> cr_ref s0 k + int (length cs) < 65000"
  shows "\<exists>s rs s'. dnlc_init s0 = Inr s \<and> nc_run cs s = Inr (rs, s') \<and>
    (rs, cache_view s') = lru_run cs (replicate NC_SIZE Free)"
  by (rule nc_boot_run[OF assms]) blast

lemma dnlc_refines_lru_witness:
  "\<exists>s rs s'. dnlc_init nc_boot = Inr s \<and>
     nc_run [Enter 1000 ''usr'' 2000 7, Lookup 1000 ''usr'' 7, Lookup 1000 ''usr'' 0, Remove 1000 ''usr'', Lookup 1000 ''usr'' 7] s
       = Inr (rs, s') \<and> rs = [0, 2000, 0, 0, 0]"
proof -
  let ?cs = "[Enter 1000 ''usr'' 2000 7, Lookup 1000 ''usr'' 7, Lookup 1000 ''usr'' 0, Remove 1000 ''usr'', Lookup 1000 ''usr'' 7]"
  have "\<exists>s rs s'. dnlc_init nc_boot = Inr s \<and> nc_run ?cs s = Inr (rs, s') \<and> (rs, cache_view s') = lru_run ?cs (replicate NC_SIZE Free)"
    by (rule dnlc_refines_lru) (simp_all add: nc_boot_ok run_creds_def)
  moreover have "fst (lru_run ?cs (replicate NC_SIZE Free)) = [0, 2000, 0, 0, 0]" by code_simp
  ultimately show ?thesis by (metis fst_conv)
qed

text \<open>
  C12: In every configuration reached by any interleaving of the stretches of sleeping calls, every
  entry is on the LRU list or held by exactly one sleeping call; a listed entry that caches a name is
  on the hash chain of that name and on no other, an empty one is linked to itself; both lists are
  doubly linked rings; and every vnode and credential counts at least the references the cache holds.
\<close>

theorem dnlc_cache_whole:
  assumes "nc_reach (s, \<phi>)"
  shows "\<exists>L H. nc_struct s (dom \<phi>) L H \<and> (\<forall>e p. \<phi> e = Some p \<longrightarrow> phase_ok (ent s e) p) \<and>
    (\<forall>v. v \<noteq> 0 \<longrightarrow> vrefs s \<phi> v \<le> v_count s v) \<and> (\<forall>k. k \<noteq> 0 \<longrightarrow> crefs s k \<le> cr_ref s k)"
proof -
  obtain L H where "nc_ok s \<phi> L H" using nc_reach_good[OF assms] by (auto simp: nc_good_def)
  note d = nc_okD[OF this]
  show ?thesis using d(1,2,5,7) by (fastforce simp: vbal_def cbal_def)
qed

lemma dnlc_cache_whole_witness:
  "\<exists>s L H. dnlc_init nc_boot = Inr s \<and> nc_struct s {} L H"
proof -
  obtain s where s: "dnlc_init nc_boot = Inr s" by (rule dnlc_init_ok[OF nc_boot_ok(1)])
  have "nc_reach (s, Map.empty)" by (rule nc_reach.init[OF nc_boot_ok(1) s])
  from dnlc_cache_whole[OF this] s show ?thesis by auto
qed

text \<open>
  C14: In every reachable configuration every call returns, and so does every further stretch of every
  call that sleeps: no loop runs on, no null pointer is used, and neither panic, that of vn_rele on a
  zero count and that of dnlc_purge on a zero vp, can happen, as long as others hold fewer than 65000
  references.
\<close>

theorem dnlc_never_stuck:
  assumes "nc_reach (s, \<phi>)"
  shows "(\<forall>c. call_ok c \<and> call_room s \<phi> c \<longrightarrow> (\<exists>r s'. nc_do c s = Inr (r, s'))) \<and>
    (\<forall>e a. \<phi> e = Some (EnterDp a) \<longrightarrow> (\<exists>s'. rele_dp (NcEnt e) s = Inr s')) \<and>
    (\<forall>e a. \<phi> e = Some (EnterVp a) \<longrightarrow> (\<exists>s'. rele_vp (NcEnt e) s = Inr s')) \<and>
    (\<forall>e a. \<phi> e = Some (EnterFill a) \<and> nc_room s \<phi> (a_dp a) (a_vp a) (a_cred a) \<longrightarrow>
       (\<exists>s'. enter_fill (NcEnt e) (a_hash a) (a_dp a) (a_name a) (a_vp a) (a_cred a) s = Inr s')) \<and>
    (\<forall>p. rm_victim s p \<longrightarrow> (\<exists>s'. rm_take p s = Inr s')) \<and>
    (\<forall>e. \<phi> e = Some RmDp \<longrightarrow> (\<exists>s'. rm_rele_dp (NcEnt e) s = Inr s')) \<and>
    (\<forall>e. \<phi> e = Some RmVp \<longrightarrow> (\<exists>s'. rm_rele_vp (NcEnt e) s = Inr s')) \<and>
    (\<forall>e. \<phi> e = Some RmPut \<longrightarrow> (\<exists>s'. rm_put (NcEnt e) s = Inr s'))"
proof -
  obtain L H where ok: "nc_ok s \<phi> L H" using nc_reach_good[OF assms] by (auto simp: nc_good_def)
  have take: "\<exists>s'. rm_take p s = Inr s'" if v: "rm_victim s p" for p
  proof -
    obtain e where e: "p = NcEnt e" "e \<in> set L" by (rule rm_victim_listed[OF ok v])
    then obtain xs ys where "L = xs @ e # ys" by (auto simp: in_set_conv_decomp)
    then show ?thesis using rm_take_struct[of s "dom \<phi>" xs e ys H] nc_okD(1)[OF ok] e(1) by auto
  qed
  have fill: "\<exists>s'. enter_fill (NcEnt e) (a_hash a) (a_dp a) (a_name a) (a_vp a) (a_cred a) s = Inr s'"
    if e: "\<phi> e = Some (EnterFill a)" and r: "nc_room s \<phi> (a_dp a) (a_vp a) (a_cred a)" for e a
  proof -
    obtain s' H' where "enter_fill (NcEnt e) (a_hash a) (a_dp a) (a_name a) (a_vp a) (a_cred a) s = Inr s'"
      by (rule enter_fill_ok[OF ok e nc_room_counts[OF r]])
    then show ?thesis by blast
  qed
  show ?thesis
    by (intro conjI allI impI)
      (use take fill nc_do_good[OF ok] rele_dp_ok[OF ok] rele_vp_ok[OF ok] rm_rele_dp_ok[OF ok] rm_rele_vp_ok[OF ok] rm_put_ok[OF ok] in \<open>metis\<close>)+
qed

text \<open>
  C15: After any such run every vnode counts exactly the references it had and one for each place of
  the cache that names it as directory or as vnode. A credential somebody holds counts the references
  it had, one for each place that has it, and one more for each time dnlc_enter took the place of an
  entry with it: dnlc_enter, unlike dnlc_rm, does not give the old entry's credential back.
\<close>

theorem dnlc_counts_exact:
  assumes "boot_ok s0" "doingcache s0 \<noteq> 0" "\<forall>c \<in> set cs. call_ok c" "\<forall>v. v_count s0 v < 65000"
    "\<forall>k \<in> run_creds cs. 1 \<le> cr_ref s0 k \<and> cr_ref s0 k + int (length cs) < 65000"
    "dnlc_init s0 = Inr s" "nc_run cs s = Inr (rs, s')"
  shows "(\<forall>v. v \<noteq> 0 \<longrightarrow> v_count s' v = v_count s0 v + view_vrefs (cache_view s') v) \<and>
    (\<forall>k. k \<noteq> 0 \<and> 1 \<le> cr_ref s0 k \<longrightarrow>
       cr_ref s' k = cr_ref s0 k + view_crefs (cache_view s') k + lru_leaks cs (replicate NC_SIZE Free) k)"
  by (rule nc_boot_run[OF assms(1-5)]) (use assms(6,7) in auto)

text \<open>33 names under one credential, then a purge: the cache is empty, the vnodes are released, the
  credential is not.\<close>

definition leak_calls :: "nc_call list" where
  "leak_calls = map (\<lambda>n. Enter 1000 n 2000 7) (map nm [0 ..< 32]) @ [Enter 1000 (nm 32) 2000 7, Purge]"

lemma leak_calls_ok: "\<forall>c \<in> set leak_calls. call_ok c" "run_creds leak_calls = {7}" "length leak_calls = 34"
  by (auto simp: leak_calls_def run_creds_def nm_def)

lemma leak_calls_lru:
  "snd (lru_run leak_calls (replicate NC_SIZE Free)) = replicate NC_SIZE Free"
  "lru_leaks leak_calls (replicate NC_SIZE Free) 7 = 1"
proof -
  let ?l = "map (\<lambda>n. Cached 1000 n 7 2000) (map nm [0 ..< 32])"
  have fresh: "\<forall>x \<in> set ?l. \<not> is_name 1000 (nm 32) 7 x" by (auto dest: nm_inj)
  have l: "?l = Cached 1000 (nm 0) 7 2000 # map (\<lambda>n. Cached 1000 n 7 2000) (map nm [1 ..< 32])"
    by (simp add: upt_conv_Cons del: upt_Suc)
  note f = lru_fill[of "map nm [0 ..< 32]" "replicate NC_SIZE Free" 1000 7 2000]
  have f: "snd (lru_run (map (\<lambda>n. Enter 1000 n 2000 7) (map nm [0 ..< 32])) (replicate NC_SIZE Free)) = ?l"
    "lru_leaks (map (\<lambda>n. Enter 1000 n 2000 7) (map nm [0 ..< 32])) (replicate NC_SIZE Free) 7 = 0"
    using f[OF nm_distinct] by (simp_all add: nm_def del: upt_conv_Cons)
  have e: "snd (lru_do (Enter 1000 (nm 32) 2000 7) ?l) = tl ?l @ [Cached 1000 (nm 32) 7 2000]"
    "leaks (Enter 1000 (nm 32) 2000 7) ?l 7 = 1"
    using fresh unfolding l by (simp_all add: nm_def)
  show "snd (lru_run leak_calls (replicate NC_SIZE Free)) = replicate NC_SIZE Free"
    unfolding leak_calls_def lru_run_append f(1) by (simp only: lru_run_Cons e(1) snd_conv) simp
  show "lru_leaks leak_calls (replicate NC_SIZE Free) 7 = 1"
    unfolding leak_calls_def lru_leaks_append f by (simp only: lru_leaks.simps e(2)) simp
qed

lemma view_refs_free: "view_vrefs (replicate n Free) v = 0" "view_crefs (replicate n Free) k = 0"
  by (simp_all add: view_vrefs_def view_crefs_def sum_list_replicate)

lemma dnlc_counts_exact_witness:
  "\<exists>s rs s'. dnlc_init nc_boot = Inr s \<and> nc_run leak_calls s = Inr (rs, s') \<and>
     cache_view s' = replicate NC_SIZE Free \<and> v_count s' 1000 = v_count nc_boot 1000 \<and> cr_ref s' 7 = cr_ref nc_boot 7 + 1"
proof -
  obtain s rs s' where s: "dnlc_init nc_boot = Inr s" "nc_run leak_calls s = Inr (rs, s')"
    "(rs, cache_view s') = lru_run leak_calls (replicate NC_SIZE Free)"
    by (rule nc_boot_run[of nc_boot leak_calls]) (simp_all add: nc_boot_ok leak_calls_ok)
  have v: "cache_view s' = replicate NC_SIZE Free" using s(3) leak_calls_lru(1) by (metis snd_conv)
  have "(\<forall>v. v \<noteq> 0 \<longrightarrow> v_count s' v = v_count nc_boot v + view_vrefs (cache_view s') v) \<and>
    (\<forall>k. k \<noteq> 0 \<and> 1 \<le> cr_ref nc_boot k \<longrightarrow>
       cr_ref s' k = cr_ref nc_boot k + view_crefs (cache_view s') k + lru_leaks leak_calls (replicate NC_SIZE Free) k)"
    by (rule dnlc_counts_exact[OF _ _ _ _ _ s(1,2)]) (simp_all add: nc_boot_ok leak_calls_ok)
  from this[THEN conjunct1, rule_format, of 1000] this[THEN conjunct2, rule_format, of 7]
  have "v_count s' 1000 = v_count nc_boot 1000" "cr_ref s' 7 = cr_ref nc_boot 7 + 1"
    unfolding v leak_calls_lru view_refs_free by (simp_all add: nc_boot_ok)
  then show ?thesis using s(1,2) v by auto
qed

text \<open>
  C24: In every reachable configuration, whatever calls sleep and even when a race has left a name in
  the cache twice, 33 rounds are enough for dnlc_remove and for dnlc_purge: dnlc_remove ends with no
  place for the name under any credential and the other places as they were, dnlc_purge with no name
  at all, and both give back exactly the references of the places they cleared.
\<close>

theorem dnlc_removal_ends:
  assumes "nc_reach (s, \<phi>)" "dp \<noteq> 0" "name \<noteq> []" "NC_SIZE < f"
  shows "(\<exists>s'. dnlc_remove f dp name s = Inr s' \<and> cache_view s' = drop_all (is_name dp name ANYCRED) (cache_view s) \<and>
      (\<forall>v. v \<noteq> 0 \<longrightarrow> vbal s' \<phi> v = vbal s \<phi> v)) \<and>
    (\<exists>s'. dnlc_purge f s = Inr s' \<and> cache_view s' = replicate (length (cache_view s)) Free \<and>
      (\<forall>v. v \<noteq> 0 \<longrightarrow> vbal s' \<phi> v = vbal s \<phi> v))"
proof -
  obtain L H where ok: "nc_ok s \<phi> L H" using nc_reach_good[OF assms(1)] by (auto simp: nc_good_def)
  show ?thesis using dnlc_remove_ok[OF ok assms(3,2,4)] dnlc_purge_ok[OF ok assms(4)] by blast
qed

lemma dnlc_removal_ends_witness:
  "\<exists>s s'. dnlc_init nc_boot = Inr s \<and> dnlc_remove 33 1000 ''usr'' s = Inr s' \<and>
     cache_view s' = drop_all (is_name 1000 ''usr'' ANYCRED) (cache_view s)"
proof -
  obtain s where s: "dnlc_init nc_boot = Inr s" by (rule dnlc_init_ok[OF nc_boot_ok(1)])
  have "nc_reach (s, Map.empty)" by (rule nc_reach.init[OF nc_boot_ok(1) s])
  from dnlc_removal_ends[OF this, of 1000 "''usr''" 33] s show ?thesis by auto
qed

text \<open>
  No answer is stale: in any sequence of lookups, entries, removals and purges that do not overlap,
  a lookup answers no vnode or one that was entered under the very name since the name was last
  removed and the cache last purged.
\<close>

theorem dnlc_answers_known:
  assumes "boot_ok s0" "doingcache s0 \<noteq> 0" "\<forall>v. v_count s0 v < 65000" "list_all (cache_call_ok nc_key) cs"
  shows "\<exists>s vs s'. dnlc_init s0 = Inr s \<and> cache_run nc_look nc_enter nc_forget nc_flush cs s = Inr (vs, s') \<and>
    answers_known [] cs vs"
proof -
  obtain s where s: "dnlc_init s0 = Inr s" "nc_ok s Map.empty (rev [0 ..< NC_SIZE]) (\<lambda>_. [])" "s\<lparr>nc_mem := nc_mem s0\<rparr> = s0"
    "\<And>v. v \<noteq> 0 \<Longrightarrow> vbal s Map.empty v = v_count s0 v" "\<And>c. c \<noteq> 0 \<Longrightarrow> cbal s c = cr_ref s0 c"
    "cache_view s = replicate NC_SIZE Free"
    using dnlc_init_ok[OF assms(1)] by blast
  have "nc_idle s"
    using nc_goodI[OF s(2)] mem_only_fields(2)[OF s(3)] s(4,6) assms(2,3) unique_free by (simp add: nc_idle_def)
  moreover have "\<forall>k. nc_held s k \<subseteq> known k []" by (simp add: nc_held_def s(6))
  ultimately show ?thesis using dnlc.cache_run_known[OF _ _ assms(4), of s "[]"] s(1) by blast
qed

theorem dnlc_answers_known_witness:
  "\<exists>s s'. dnlc_init nc_boot = Inr s \<and>
    cache_run nc_look nc_enter nc_forget nc_flush [Put (1000, ''usr'') 2000, Drop (1000, ''usr''), Ask (1000, ''usr'')] s
    = Inr ([0], s')"
proof -
  let ?cs = "[Put (1000 :: int, ''usr'') 2000, Drop (1000, ''usr''), Ask (1000, ''usr'')]"
  have "\<exists>s vs s'. dnlc_init nc_boot = Inr s \<and> cache_run nc_look nc_enter nc_forget nc_flush ?cs s = Inr (vs, s') \<and>
      answers_known [] ?cs vs"
    by (rule dnlc_answers_known) (simp_all add: nc_boot_ok nc_key_def)
  then obtain s vs s' where r: "dnlc_init nc_boot = Inr s" "cache_run nc_look nc_enter nc_forget nc_flush ?cs s = Inr (vs, s')"
    "answers_known [] ?cs vs" by blast
  have "vs = [0]" using r(3) by (cases vs) auto
  with r(1,2) show ?thesis by blast
qed

section \<open>A name that comes back\<close>

lemma remove_absent:
  assumes "nc_ok s \<phi> L H" "dp \<noteq> 0" "name \<noteq> []" "length name \<le> NC_NAMLEN" "\<not> (\<exists>x \<in> set (cache_view s). is_name dp name ANYCRED x)"
  shows "dnlc_remove (Suc f) dp name s = Inr s"
proof -
  obtain h r where h: "NC_HASH name (length name) dp = Inr h"
    "dnlc_search s dp name (length name) h ANYCRED = Inr (map_option NcEnt r)"
    "case r of None \<Rightarrow> \<not> (\<exists>x \<in> set (cache_view s). is_name dp name ANYCRED x)
     | Some e \<Rightarrow> e \<in> set L \<and> e \<in> set (H h) \<and> is_name dp name ANYCRED (cview (ent s e))"
    by (rule view_find[OF assms(1,3,4,2), of ANYCRED])
  have "r = None" using h(3) assms(5) by (auto simp: cache_view_ok[OF assms(1)] split: option.splits)
  then show ?thesis using h(1,2) assms(4) by (simp add: dnlc_remove_def Let_def)
qed

text \<open>
  The start of a call of \<open>dnlc_enter\<close> that takes the place of a cached entry and sleeps in its first
  VN_RELE, and the rest of it, when nobody has touched the entry since.
\<close>

lemma enter_starts:
  assumes ok: "nc_ok s \<phi> L H" and on: "doingcache s \<noteq> 0" and c: "call_ok (Enter dp name vp cred)" and n: "length name \<le> NC_NAMLEN"
    and full: "cache_view s = Cached d m k v # t" and new: "\<forall>x \<in> set (cache_view s). \<not> is_name dp name ANYCRED x"
  obtains s1 e h L1 H1 where "\<phi> e = None" "nc_step (s, \<phi>) (s1, \<phi>(e \<mapsto> EnterDp \<lparr>a_dp = dp, a_name = name, a_vp = vp, a_cred = cred, a_hash = h\<rparr>))"
    "nc_ok s1 (\<phi>(e \<mapsto> EnterDp \<lparr>a_dp = dp, a_name = name, a_vp = vp, a_cred = cred, a_hash = h\<rparr>)) L1 H1"
    "set (cache_view s1) \<subseteq> set (cache_view s)"
    "\<forall>v. vbal s1 (\<phi>(e \<mapsto> EnterDp \<lparr>a_dp = dp, a_name = name, a_vp = vp, a_cred = cred, a_hash = h\<rparr>)) v = vbal s \<phi> v"
    "\<forall>c. cbal s1 c = cbal s c"
proof -
  note S = nc_okD(1)[OF ok]
  have a: "dp \<noteq> 0" "name \<noteq> []" "vp \<noteq> 0" "cred \<noteq> ANYCRED" using c by auto
  obtain e ys where L: "L = e # ys" using full by (auto simp: cache_view_ok[OF ok])
  have e: "nc_dp (ent s e) \<noteq> 0" using full L by (auto simp: cache_view_ok[OF ok] cview_def split: if_splits)
  have eN: "\<phi> e = None" using nc_structD(3)[OF S] L by auto
  obtain h q where h: "NC_HASH name (length name) dp = Inr h"
    "dnlc_search s dp name (length name) h cred = Inr (map_option NcEnt q)"
    "case q of None \<Rightarrow> \<not> (\<exists>x \<in> set (cache_view s). is_name dp name cred x)
     | Some e \<Rightarrow> e \<in> set L \<and> e \<in> set (H h) \<and> is_name dp name cred (cview (ent s e))"
    by (rule view_find[OF ok a(2) n a(1), of cred])
  have any: "is_name dp name cred x \<Longrightarrow> is_name dp name ANYCRED x" for x by (cases x) auto
  have qN: "q = None" using h(3) new any by (auto simp: cache_view_ok[OF ok] split: option.splits)
  let ?a = "\<lparr>a_dp = dp, a_name = name, a_vp = vp, a_cred = cred, a_hash = h\<rparr>"
  have ok0: "nc_ok s \<phi> ([] @ e # ys) H" using ok L by simp
  obtain s1 where s1: "rm_take (NcEnt e) s = Inr s1" "nc_ok s1 (\<phi>(e \<mapsto> EnterDp ?a)) ([] @ ys) (\<lambda>h. removeAll e (H h))"
    "links_only s s1" "\<And>v. vbal s1 (\<phi>(e \<mapsto> EnterDp ?a)) v = vbal s \<phi> v" "\<And>c. cbal s1 c = cbal s c"
    by (rule take_ok[OF ok0, of "EnterDp ?a"]) (use a n h(1) in \<open>simp_all add: holds_dp_def holds_vp_def args_ok_def\<close>)
  have T: "enter_take dp name cred s = Inr (s1, Some (NcEnt e, h))"
    by (rule enter_take_run[OF _ on n h(1)]) (use S L h(2) qN s1(1) in simp_all)
  have st: "nc_step (s, \<phi>) (s1, \<phi>(e \<mapsto> EnterDp ?a))" by (rule nc_step.enter_sleeps[OF c T e])
  have sub: "set (cache_view s1) \<subseteq> set (cache_view s)"
    using cview_body[OF links_onlyD(1)[OF s1(3)]] by (auto simp: cache_view_ok[OF ok] cache_view_ok[OF s1(2)] L)
  show ?thesis by (rule that[OF eN st s1(2) sub]) (simp_all only: s1(4,5) simp_thms)
qed

lemma enter_finishes:
  assumes ok1: "nc_ok s1 (\<phi>(e \<mapsto> EnterDp a)) L H" and eN: "\<phi> e = None"
    and room: "nc_room s1 (\<phi>(e \<mapsto> EnterDp a)) (a_dp a) (a_vp a) (a_cred a)"
  shows "\<exists>s'. nc_step\<^sup>*\<^sup>* (s1, \<phi>(e \<mapsto> EnterDp a)) (s', \<phi>) \<and>
    Cached (a_dp a) (a_name a) (a_cred a) (a_vp a) \<in> set (cache_view s')"
proof -
  have a: "a_dp a \<noteq> 0" "a_vp a \<noteq> 0" using nc_okD(2)[OF ok1, of e "EnterDp a"] by (simp_all add: args_ok_def)
  obtain s2 where s2: "rele_dp (NcEnt e) s1 = Inr s2" "nc_ok s2 (\<phi>(e \<mapsto> EnterDp a, e \<mapsto> EnterVp a)) L H"
    "nc_mem s2 = nc_mem s1" "\<And>w. w \<noteq> 0 \<Longrightarrow> vbal s2 (\<phi>(e \<mapsto> EnterDp a, e \<mapsto> EnterVp a)) w = vbal s1 (\<phi>(e \<mapsto> EnterDp a)) w"
    "cr_ref s2 = cr_ref s1"
    using rele_dp_ok[OF ok1, of e a] by auto
  obtain s3 where s3: "rele_vp (NcEnt e) s2 = Inr s3" "nc_ok s3 (\<phi>(e \<mapsto> EnterFill a)) L H"
    "nc_mem s3 = nc_mem s2" "\<And>w. w \<noteq> 0 \<Longrightarrow> vbal s3 (\<phi>(e \<mapsto> EnterFill a)) w = vbal s2 (\<phi>(e \<mapsto> EnterVp a)) w"
    "cr_ref s3 = cr_ref s2"
    using rele_vp_ok[OF s2(2), of e a] by auto
  have cb3: "cbal s3 c = cbal s1 c" for c
    using crefs_same[of s3 s1 c] by (simp add: cbal_def s2(3,5) s3(3,5))
  have room3: "nc_room s3 (\<phi>(e \<mapsto> EnterFill a)) (a_dp a) (a_vp a) (a_cred a)"
    using room s2(4)[OF a(1)] s2(4)[OF a(2)] s3(4)[OF a(1)] s3(4)[OF a(2)] cb3[of "a_cred a"]
    by (simp add: nc_room_def)
  obtain s' H' where s': "enter_fill (NcEnt e) (a_hash a) (a_dp a) (a_name a) (a_vp a) (a_cred a) s3 = Inr s'"
    "nc_ok s' ((\<phi>(e \<mapsto> EnterFill a))(e := None)) (L @ [e]) H'"
    "body (ent s' e) = (a_dp a, a_vp a, int (length (a_name a)), a_name a @ drop (length (a_name a)) (nc_name (ent s3 e)), a_cred a)"
    by (rule enter_fill_ok[OF s3(2), of e a]) (use nc_room_counts[OF room3] in auto)
  have \<phi>: "(\<phi>(e \<mapsto> EnterFill a))(e := None) = \<phi>" using eN by auto
  have "cview (ent s' e) = Cached (a_dp a) (a_name a) (a_cred a) (a_vp a)" using s'(3) a(1) by (simp add: cview_def body_def)
  then have "Cached (a_dp a) (a_name a) (a_cred a) (a_vp a) \<in> set (cache_view s')" using cache_view_ok[OF s'(2)] by auto
  moreover have "nc_step (s1, \<phi>(e \<mapsto> EnterDp a)) (s2, \<phi>(e \<mapsto> EnterVp a))"
    using nc_step.enter_dp[of "\<phi>(e \<mapsto> EnterDp a)" e a s1 s2] s2(1) by simp
  moreover have "nc_step (s2, \<phi>(e \<mapsto> EnterVp a)) (s3, \<phi>(e \<mapsto> EnterFill a))"
    using nc_step.enter_vp[of "\<phi>(e \<mapsto> EnterVp a)" e a s2 s3] s3(1) by simp
  moreover have "nc_step (s3, \<phi>(e \<mapsto> EnterFill a)) (s', \<phi>)"
    using nc_step.enter_fill[of "\<phi>(e \<mapsto> EnterFill a)" e a s3 s'] room3 s'(1) \<phi> by simp
  ultimately show ?thesis by (meson converse_rtranclp_into_rtranclp rtranclp.rtrancl_refl)
qed

text \<open>
  C39: dnlc_enter searches before it sleeps and inserts after. In every reachable configuration in which
  the least recently used entry caches a name, a call dnlc_enter for a name that is not cached may
  sleep in VN_RELE; a dnlc_remove of that name that runs meanwhile returns and finds nothing; and when
  the sleeper has finished, the removed name is in the cache again.
\<close>

theorem dnlc_enter_revives:
  assumes r: "nc_reach (s, \<phi>)" and on: "doingcache s \<noteq> 0" and c: "call_ok (Enter dp name vp cred)" and n: "length name \<le> NC_NAMLEN"
    and room: "nc_room s \<phi> dp vp cred" and full: "cache_view s = Cached d m k v # t"
    and new: "\<forall>x \<in> set (cache_view s). \<not> is_name dp name ANYCRED x"
  shows "\<exists>s1 e a s2 s'. nc_step (s, \<phi>) (s1, \<phi>(e \<mapsto> EnterDp a)) \<and>
    nc_do (Remove dp name) s1 = Inr (0, s2) \<and> (\<forall>x \<in> set (cache_view s2). \<not> is_name dp name ANYCRED x) \<and>
    nc_step\<^sup>*\<^sup>* (s2, \<phi>(e \<mapsto> EnterDp a)) (s', \<phi>) \<and> Cached dp name cred vp \<in> set (cache_view s')"
proof -
  obtain L H where ok: "nc_ok s \<phi> L H" using nc_reach_good[OF r] by (auto simp: nc_good_def)
  have a: "dp \<noteq> 0" "name \<noteq> []" using c by auto
  obtain s1 e h L1 H1 where eN: "\<phi> e = None"
    and st: "nc_step (s, \<phi>) (s1, \<phi>(e \<mapsto> EnterDp \<lparr>a_dp = dp, a_name = name, a_vp = vp, a_cred = cred, a_hash = h\<rparr>))"
    and ok1: "nc_ok s1 (\<phi>(e \<mapsto> EnterDp \<lparr>a_dp = dp, a_name = name, a_vp = vp, a_cred = cred, a_hash = h\<rparr>)) L1 H1"
    and sub: "set (cache_view s1) \<subseteq> set (cache_view s)"
    and vb: "\<forall>v. vbal s1 (\<phi>(e \<mapsto> EnterDp \<lparr>a_dp = dp, a_name = name, a_vp = vp, a_cred = cred, a_hash = h\<rparr>)) v = vbal s \<phi> v"
    and cb: "\<forall>c. cbal s1 c = cbal s c"
    by (rule enter_starts[OF ok on c n full new])
  have new1: "\<forall>x \<in> set (cache_view s1). \<not> is_name dp name ANYCRED x" using new sub by blast
  have R: "nc_do (Remove dp name) s1 = Inr (0, s1)" using remove_absent[OF ok1 a n, of 32] new1 by simp
  obtain s' where "nc_step\<^sup>*\<^sup>* (s1, \<phi>(e \<mapsto> EnterDp \<lparr>a_dp = dp, a_name = name, a_vp = vp, a_cred = cred, a_hash = h\<rparr>)) (s', \<phi>)"
    "Cached dp name cred vp \<in> set (cache_view s')"
    using enter_finishes[OF ok1 eN] room by (auto simp: nc_room_def vb cb)
  then show ?thesis using st R new1 by blast
qed

text \<open>A full cache.\<close>

definition full_calls :: "nc_call list" where
  "full_calls = map (\<lambda>n. Enter 1000 n 2000 0) (map nm [0 ..< 32])"

lemma full_calls_ok: "\<forall>c \<in> set full_calls. call_ok c" "run_creds full_calls = {}"
  by (auto simp: full_calls_def run_creds_def nm_def)

lemma full_calls_lru:
  "snd (lru_run full_calls (replicate NC_SIZE Free)) = map (\<lambda>n. Cached 1000 n 0 2000) (map nm [0 ..< 32])"
  using lru_fill(1)[of "map nm [0 ..< 32]" "replicate NC_SIZE Free" 1000 0 2000, OF nm_distinct]
  unfolding full_calls_def by (simp add: nm_def del: upt_conv_Cons)

lemma full_state:
  obtains s where "nc_reach (s, Map.empty)" "cache_view s = map (\<lambda>n. Cached 1000 n 0 2000) (map nm [0 ..< 32])"
    "\<And>w. w \<noteq> 0 \<Longrightarrow> vbal s Map.empty w = 1" "doingcache s \<noteq> 0"
proof -
  obtain s rs s0 where s: "dnlc_init nc_boot = Inr s0" "nc_run full_calls s0 = Inr (rs, s)"
    "(rs, cache_view s) = lru_run full_calls (replicate NC_SIZE Free)" "nc_reach (s, Map.empty)"
    "\<And>v. v \<noteq> 0 \<Longrightarrow> v_count s v = v_count nc_boot v + view_vrefs (cache_view s) v" "doingcache s \<noteq> 0"
    by (rule nc_boot_run[of nc_boot full_calls]) (simp_all add: nc_boot_ok full_calls_ok)
  have v: "cache_view s = map (\<lambda>n. Cached 1000 n 0 2000) (map nm [0 ..< 32])"
    using s(3) full_calls_lru by (metis snd_conv)
  obtain L H where ok: "nc_ok s Map.empty L H" using nc_reach_good[OF s(4)] by (auto simp: nc_good_def)
  have "vbal s Map.empty w = 1" if "w \<noteq> 0" for w
    using s(5)[OF that] vrefs_view[OF ok that] by (simp add: vbal_def nc_boot_ok)
  then show ?thesis using that s(4,6) v by blast
qed

lemma dnlc_never_stuck_witness:
  "\<exists>s. nc_reach (s, Map.empty) \<and> length (cache_view s) = 32 \<and>
     (\<exists>r s'. nc_do (Enter 1000 ''usr'' 3000 0) s = Inr (r, s')) \<and> (\<exists>r s'. nc_do Purge s = Inr (r, s'))"
proof -
  obtain s where s: "nc_reach (s, Map.empty)" "cache_view s = map (\<lambda>n. Cached 1000 n 0 2000) (map nm [0 ..< 32])"
    "\<And>w. w \<noteq> 0 \<Longrightarrow> vbal s Map.empty w = 1" "doingcache s \<noteq> 0"
    using full_state by blast
  have "call_room s Map.empty (Enter 1000 ''usr'' 3000 0)" by (simp add: nc_room_def s(3))
  then have "\<exists>r s'. nc_do (Enter 1000 ''usr'' 3000 0) s = Inr (r, s')"
    using conjunct1[OF dnlc_never_stuck[OF s(1)]] by (simp del: nc_do.simps)
  moreover have "\<exists>r s'. nc_do Purge s = Inr (r, s')"
    using conjunct1[OF dnlc_never_stuck[OF s(1)]] by (simp del: nc_do.simps)
  ultimately show ?thesis using s(1,2) by auto
qed

lemma dnlc_enter_revives_witness:
  "\<exists>s s1 e a s2 s'. nc_reach (s, Map.empty) \<and> nc_step (s, Map.empty) (s1, [e \<mapsto> EnterDp a]) \<and>
     nc_do (Remove 1000 ''usr'') s1 = Inr (0, s2) \<and> (\<forall>x \<in> set (cache_view s2). \<not> is_name 1000 ''usr'' ANYCRED x) \<and>
     nc_step\<^sup>*\<^sup>* (s2, [e \<mapsto> EnterDp a]) (s', Map.empty) \<and> Cached 1000 ''usr'' 0 3000 \<in> set (cache_view s')"
proof -
  obtain s where s: "nc_reach (s, Map.empty)" "cache_view s = map (\<lambda>n. Cached 1000 n 0 2000) (map nm [0 ..< 32])"
    "\<And>w. w \<noteq> 0 \<Longrightarrow> vbal s Map.empty w = 1" "doingcache s \<noteq> 0"
    using full_state by blast
  have f: "cache_view s = Cached 1000 (nm 0) 0 2000 # map (\<lambda>n. Cached 1000 n 0 2000) (map nm [1 ..< 32])"
    unfolding s(2) by (simp add: upt_conv_Cons del: upt_Suc)
  have "\<exists>s1 e a s2 s'. nc_step (s, Map.empty) (s1, Map.empty(e \<mapsto> EnterDp a)) \<and>
    nc_do (Remove 1000 ''usr'') s1 = Inr (0, s2) \<and> (\<forall>x \<in> set (cache_view s2). \<not> is_name 1000 ''usr'' ANYCRED x) \<and>
    nc_step\<^sup>*\<^sup>* (s2, Map.empty(e \<mapsto> EnterDp a)) (s', Map.empty) \<and> Cached 1000 ''usr'' 0 3000 \<in> set (cache_view s')"
  proof (rule dnlc_enter_revives[OF s(1) s(4) _ _ _ f])
    show "nc_room s Map.empty 1000 3000 0" by (simp add: nc_room_def s(3))
    show "\<forall>x \<in> set (cache_view s). \<not> is_name 1000 ''usr'' ANYCRED x" unfolding s(2) by (simp add: nm_def)
  qed simp_all
  then show ?thesis using s(1) by blast
qed

end
