(* ===== verification/Nfs_Xdr.thy ===== *)
theory Nfs_Xdr
  imports Rpc_Prot
begin

text \<open>
  NFS's XDR routines (NET/sys/nfs_xdr.c) on the structures of include/nfs/nfs.h. A status and the union behind it are two fields of a record; a file handle is
  the 32 bytes it is on the wire; a pointer to bytes is \<open>None\<close> when NULL.
\<close>

unbundle bit_operations_syntax

section \<open>Constants and structures (include/nfs/nfs.h)\<close>

definition NFS_MAXDATA :: "32 word" where "NFS_MAXDATA = 8192"
definition NFS_MAXNAMLEN :: "32 word" where "NFS_MAXNAMLEN = 255"
definition NFS_MAXPATHLEN :: "32 word" where "NFS_MAXPATHLEN = 1024"
definition MAXPATHLEN :: "32 word" where "MAXPATHLEN = 1024"
definition NFS_FHSIZE :: "32 word" where "NFS_FHSIZE = 32"
definition NFS_OK :: "32 word" where "NFS_OK = 0"

type_synonym fhandle = "byte list"

record timeval =
  tv_sec :: "32 word"
  tv_usec :: "32 word"

record nfswriteargs =
  wa_fhandle :: fhandle
  wa_begoff :: "32 word"
  wa_offset :: "32 word"
  wa_totcount :: "32 word"
  wa_count :: "32 word"
  wa_data :: "byte list option"

record nfsfattr =
  na_type :: "32 word"
  na_mode :: "32 word"
  na_nlink :: "32 word"
  na_uid :: "32 word"
  na_gid :: "32 word"
  na_size :: "32 word"
  na_blocksize :: "32 word"
  na_rdev :: "32 word"
  na_blocks :: "32 word"
  na_fsid :: "32 word"
  na_nodeid :: "32 word"
  na_atime :: timeval
  na_mtime :: timeval
  na_ctime :: timeval

record nfsreadargs =
  ra_fhandle :: fhandle
  ra_offset :: "32 word"
  ra_count :: "32 word"
  ra_totcount :: "32 word"

text \<open>
  The data of a read reply: their bytes, and \<open>rrok_where\<close>, the address they have, which only the
  server's path without a copy uses.
\<close>

record nfsrrok =
  rrok_attr :: nfsfattr
  rrok_count :: "32 word"
  rrok_data :: "byte list option"
  rrok_where :: addr
  rrok_bp :: addr
  rrok_vp :: addr

record nfsrdresult =
  rr_status :: "32 word"
  rr_ok :: nfsrrok

record nfssattr =
  sa_mode :: "32 word"
  sa_uid :: "32 word"
  sa_gid :: "32 word"
  sa_size :: "32 word"
  sa_atime :: timeval
  sa_mtime :: timeval

record nfsattrstat =
  ns_status :: "32 word"
  ns_attr :: nfsfattr

record nfssrok =
  srok_count :: "32 word"
  srok_data :: "byte list option"

record nfsrdlnres =
  rl_status :: "32 word"
  rl_srok :: nfssrok

record nfsrddirargs =
  rda_fh :: fhandle
  rda_offset :: "32 word"
  rda_count :: "32 word"

text \<open>\<open>rd_entries\<close> is the memory the pointer leads to, by the distance from it.\<close>

record nfsrddirres =
  rd_bufsize :: "32 word"
  rd_status :: "32 word"
  rd_offset :: "32 word"
  rd_size :: "32 word"
  rd_eof :: "32 word"
  rd_entries :: memory

record nfsdiropargs =
  da_fhandle :: fhandle
  da_name :: "byte list option"

record nfsdrok =
  drok_fhandle :: fhandle
  drok_attr :: nfsfattr

record nfsdiropres =
  dr_status :: "32 word"
  dr_drok :: nfsdrok

record nfssaargs =
  saa_fh :: fhandle
  saa_sa :: nfssattr

record nfscreatargs =
  ca_da :: nfsdiropargs
  ca_sa :: nfssattr

record nfslinkargs =
  la_from :: fhandle
  la_to :: nfsdiropargs

record nfsrnmargs =
  rna_from :: nfsdiropargs
  rna_to :: nfsdiropargs

record nfsslargs =
  sla_from :: nfsdiropargs
  sla_tnm :: "byte list option"
  sla_sa :: nfssattr

record nfsstatfsok =
  fsok_tsize :: "32 word"
  fsok_bsize :: "32 word"
  fsok_blocks :: "32 word"
  fsok_bfree :: "32 word"
  fsok_bavail :: "32 word"

record nfsstatfs =
  fs_status :: "32 word"
  fs_fsok :: nfsstatfsok

section \<open>Handles, writes, attributes, reads\<close>

definition xdr_fhandle :: "fhandle xdrproc" where
  "xdr_fhandle x fh = xdr_opaque x fh NFS_FHSIZE"

definition xdr_writeargs :: "nfswriteargs xdrproc" where
  "xdr_writeargs = seqps
     [membr xdr_fhandle wa_fhandle wa_fhandle_update,
      membr xdr_long wa_begoff wa_begoff_update,
      membr xdr_long wa_offset wa_offset_update,
      membr xdr_long wa_totcount wa_totcount_update,
      fld (xdr_bytes NFS_MAXDATA) (\<lambda>r. (wa_data r, wa_count r)) (\<lambda>(d, n) r. r\<lparr>wa_data := d, wa_count := n\<rparr>)]"

definition xdr_timeval :: "timeval xdrproc" where
  "xdr_timeval = seqps [membr xdr_long tv_sec tv_sec_update, membr xdr_long tv_usec tv_usec_update]"

text \<open>The 17 longs of the attributes, in line or through the generic routines.\<close>

definition fattr_put :: "xdr \<Rightarrow> addr \<Rightarrow> nfsfattr \<Rightarrow> xdr" where
  "fattr_put x ptr na = fst (ixdr_puts x ptr
     [na_type na, na_mode na, na_nlink na, na_uid na, na_gid na, na_size na, na_blocksize na,
      na_rdev na, na_blocks na, na_fsid na, na_nodeid na, tv_sec (na_atime na), tv_usec (na_atime na),
      tv_sec (na_mtime na), tv_usec (na_mtime na), tv_sec (na_ctime na), tv_usec (na_ctime na)])"

definition fattr_get :: "xdr \<Rightarrow> addr \<Rightarrow> nfsfattr" where
  "fattr_get x ptr =
     (let (ty, p1) = IXDR_GET_LONG x ptr; (mode, p2) = IXDR_GET_LONG x p1; (nlink, p3) = IXDR_GET_LONG x p2;
          (uid, p4) = IXDR_GET_LONG x p3; (gid, p5) = IXDR_GET_LONG x p4; (siz, p6) = IXDR_GET_LONG x p5;
          (bsize, p7) = IXDR_GET_LONG x p6; (rdev, p8) = IXDR_GET_LONG x p7; (blocks, p9) = IXDR_GET_LONG x p8;
          (fsid, p10) = IXDR_GET_LONG x p9; (nodeid, p11) = IXDR_GET_LONG x p10;
          (as, p12) = IXDR_GET_LONG x p11; (au, p13) = IXDR_GET_LONG x p12;
          (ms, p14) = IXDR_GET_LONG x p13; (mu, p15) = IXDR_GET_LONG x p14;
          (cs, p16) = IXDR_GET_LONG x p15; (cu, p17) = IXDR_GET_LONG x p16 in
      \<lparr>na_type = ty, na_mode = mode, na_nlink = nlink, na_uid = uid, na_gid = gid, na_size = siz,
       na_blocksize = bsize, na_rdev = rdev, na_blocks = blocks, na_fsid = fsid, na_nodeid = nodeid,
       na_atime = \<lparr>tv_sec = as, tv_usec = au\<rparr>, na_mtime = \<lparr>tv_sec = ms, tv_usec = mu\<rparr>,
       na_ctime = \<lparr>tv_sec = cs, tv_usec = cu\<rparr>\<rparr>)"

definition fattr_generic :: "nfsfattr xdrproc" where
  "fattr_generic = seqps
     [membr xdr_enum na_type na_type_update,
      membr xdr_u_long na_mode na_mode_update,
      membr xdr_u_long na_nlink na_nlink_update,
      membr xdr_u_long na_uid na_uid_update,
      membr xdr_u_long na_gid na_gid_update,
      membr xdr_u_long na_size na_size_update,
      membr xdr_u_long na_blocksize na_blocksize_update,
      membr xdr_u_long na_rdev na_rdev_update,
      membr xdr_u_long na_blocks na_blocks_update,
      membr xdr_u_long na_fsid na_fsid_update,
      membr xdr_u_long na_nodeid na_nodeid_update,
      membr xdr_timeval na_atime na_atime_update,
      membr xdr_timeval na_mtime na_mtime_update,
      membr xdr_timeval na_ctime na_ctime_update]"

definition xdr_fattr :: "nfsfattr xdrproc" where
  "xdr_fattr x na =
     (if x_op x = XDR_ENCODE then
        (case XDR_INLINE x (17 * BYTES_PER_XDR_UNIT) of
           (Some ptr, x1) \<Rightarrow> (True, na, fattr_put x1 ptr na)
         | (None, x1) \<Rightarrow> fattr_generic x1 na)
      else
        (case XDR_INLINE x (17 * BYTES_PER_XDR_UNIT) of
           (Some ptr, x1) \<Rightarrow> (True, fattr_get x1 ptr, x1)
         | (None, x1) \<Rightarrow> fattr_generic x1 na))"

definition xdr_readargs :: "nfsreadargs xdrproc" where
  "xdr_readargs = seqps
     [membr xdr_fhandle ra_fhandle ra_fhandle_update,
      membr xdr_long ra_offset ra_offset_update,
      membr xdr_long ra_count ra_count_update,
      membr xdr_long ra_totcount ra_totcount_update]"

section \<open>Read replies\<close>

text \<open>
  The server sends a block of the buffer cache without copying it. \<open>struct rrokinfo\<close> lies at the
  start of an mbuf of its own and says what to release when the network is done with the block: four
  longs \<open>func\<close>, \<open>done\<close>, \<open>vp\<close>, \<open>bp\<close>. \<open>re_mget\<close> is the data address of the mbuf MGET finds,
  \<open>re_got\<close> whether \<open>mclgetx\<close> finds one, \<open>re_free\<close> the address of \<open>rrokfree\<close>.
\<close>

record rrokenv =
  re_mget :: "addr option"
  re_got :: bool
  re_free :: addr

definition rip_func :: addr where "rip_func = 0"
definition rip_done :: addr where "rip_done = 4"
definition rip_vp :: addr where "rip_vp = 8"
definition rip_bp :: addr where "rip_bp = 12"

definition rip_get :: "memory \<Rightarrow> addr \<Rightarrow> addr \<Rightarrow> 32 word" where
  "rip_get m rip f = un_be32 (rdmem m (rip + f) 4)"

definition rip_set :: "addr \<Rightarrow> addr \<Rightarrow> 32 word \<Rightarrow> memory \<Rightarrow> memory" where
  "rip_set rip f v m = wrmem m (rip + f) (be32 v)"

text \<open>
  \<open>rrokfree\<close> runs in the server: \<open>None\<close> is the sleep on \<open>rip\<close>, after which it looks again;
  \<open>rrokwakeup\<close> is called when the mbuf on the block is freed, and wakes the sleepers on \<open>rip\<close>.
\<close>

datatype rrok_act = Brelse addr addr | VnRele addr | Mfree addr

definition rrokfree :: "addr \<Rightarrow> memory \<Rightarrow> rrok_act list option" where
  "rrokfree rip m =
     (if rip_get m rip rip_done = 0 then None
      else Some [Brelse (rip_get m rip rip_vp) (rip_get m rip rip_bp), VnRele (rip_get m rip rip_vp), Mfree rip])"

definition rrokwakeup :: "addr \<Rightarrow> memory \<Rightarrow> memory \<times> addr" where
  "rrokwakeup rip m = (rip_set rip rip_done 1 m, rip)"

definition xdr_rrok :: "rrokenv \<Rightarrow> nfsrrok xdrproc" where
  "xdr_rrok env x rrok0 =
     (let (ok, rrok, x1) = membr xdr_fattr rrok_attr rrok_attr_update x rrok0 in
      if \<not> ok then (False, rrok, x1)
      else if x_op x1 = XDR_ENCODE \<and> rrok_bp rrok \<noteq> 0 then
        (case re_mget env of
           None \<Rightarrow> (False, rrok, x1)
         | Some rip \<Rightarrow>
             (let m = rip_set rip rip_bp (rrok_bp rrok) (rip_set rip rip_vp (rrok_vp rrok)
                        (rip_set rip rip_done 0 (rip_set rip rip_func (re_free env) (x_mem x1))));
                  (ok2, x2) = xdrmbuf_putbuf (x1\<lparr>x_mem := m, x_public := rip\<rparr>) (rrok_where rrok) (rrok_count rrok)
                                (re_got env) in
              if ok2 then (True, rrok, x2)
              else (False, rrok, x2\<lparr>x_mem := rip_set rip rip_done 1 (x_mem x2)\<rparr>)))
      else
        fld (xdr_bytes NFS_MAXDATA) (\<lambda>r. (rrok_data r, rrok_count r))
          (\<lambda>(d, n) r. r\<lparr>rrok_data := d, rrok_count := n\<rparr>) x1 rrok)"

definition xdr_rdresult :: "rrokenv \<Rightarrow> nfsrdresult xdrproc" where
  "xdr_rdresult env = fld (xdr_union [(NFS_OK, xdr_rrok env)] (Some xdr_void))
     (\<lambda>r. (rr_status r, rr_ok r)) (\<lambda>(s, k) r. r\<lparr>rr_status := s, rr_ok := k\<rparr>)"

section \<open>Attributes to set, statuses, links\<close>

definition xdr_sattr :: "nfssattr xdrproc" where
  "xdr_sattr = seqps
     [membr xdr_u_long sa_mode sa_mode_update,
      membr xdr_u_long sa_uid sa_uid_update,
      membr xdr_u_long sa_gid sa_gid_update,
      membr xdr_u_long sa_size sa_size_update,
      membr xdr_timeval sa_atime sa_atime_update,
      membr xdr_timeval sa_mtime sa_mtime_update]"

definition xdr_attrstat :: "nfsattrstat xdrproc" where
  "xdr_attrstat = fld (xdr_union [(NFS_OK, xdr_fattr)] (Some xdr_void))
     (\<lambda>r. (ns_status r, ns_attr r)) (\<lambda>(s, a) r. r\<lparr>ns_status := s, ns_attr := a\<rparr>)"

definition xdr_srok :: "nfssrok xdrproc" where
  "xdr_srok = fld (xdr_bytes NFS_MAXPATHLEN) (\<lambda>r. (srok_data r, srok_count r))
     (\<lambda>(d, n) r. r\<lparr>srok_data := d, srok_count := n\<rparr>)"

definition xdr_rdlnres :: "nfsrdlnres xdrproc" where
  "xdr_rdlnres = fld (xdr_union [(NFS_OK, xdr_srok)] (Some xdr_void))
     (\<lambda>r. (rl_status r, rl_srok r)) (\<lambda>(s, k) r. r\<lparr>rl_status := s, rl_srok := k\<rparr>)"

definition xdr_rddirargs :: "nfsrddirargs xdrproc" where
  "xdr_rddirargs = seqps
     [membr xdr_fhandle rda_fh rda_fh_update,
      membr xdr_u_long rda_offset rda_offset_update,
      membr xdr_u_long rda_count rda_count_update]"

section \<open>Directory reply\<close>

text \<open>
  \<open>struct direct\<close> (include/sys/dir.h) in memory: a long \<open>d_fileno\<close>, the shorts \<open>d_reclen\<close> and
  \<open>d_namlen\<close>, and \<open>d_name\<close>.
\<close>

definition be16 :: "16 word \<Rightarrow> byte list" where
  "be16 w = [ucast (drop_bit 8 w), ucast w]"

definition un_be16 :: "byte list \<Rightarrow> 16 word" where
  "un_be16 bs = (push_bit 8 (ucast (bs ! 0))) OR ucast (bs ! 1)"

definition d_fileno :: "memory \<Rightarrow> addr \<Rightarrow> 32 word" where "d_fileno m dp = un_be32 (rdmem m dp 4)"
definition d_reclen :: "memory \<Rightarrow> addr \<Rightarrow> 16 word" where "d_reclen m dp = un_be16 (rdmem m (dp + 4) 2)"
definition d_namlen :: "memory \<Rightarrow> addr \<Rightarrow> 16 word" where "d_namlen m dp = un_be16 (rdmem m (dp + 6) 2)"
definition d_name :: "memory \<Rightarrow> addr \<Rightarrow> nat \<Rightarrow> byte list" where "d_name m dp n = rdmem m (dp + 8) n"

definition set_fileno :: "addr \<Rightarrow> 32 word \<Rightarrow> memory \<Rightarrow> memory" where "set_fileno dp v m = wrmem m dp (be32 v)"
definition set_reclen :: "addr \<Rightarrow> 16 word \<Rightarrow> memory \<Rightarrow> memory" where "set_reclen dp v m = wrmem m (dp + 4) (be16 v)"
definition set_namlen :: "addr \<Rightarrow> 16 word \<Rightarrow> memory \<Rightarrow> memory" where "set_namlen dp v m = wrmem m (dp + 6) (be16 v)"
definition set_name :: "addr \<Rightarrow> nat \<Rightarrow> byte list \<Rightarrow> memory \<Rightarrow> memory" where
  "set_name dp i bs m = wrmem m (dp + 8 + of_nat i) bs"

definition MAXNAMLEN :: nat where "MAXNAMLEN = 255"
definition sizeof_direct :: nat where "sizeof_direct = 8 + (MAXNAMLEN + 1)"
definition sizeof_svfsdirect :: "32 word" where "sizeof_svfsdirect = 16"

definition nextdp :: "memory \<Rightarrow> addr \<Rightarrow> addr" where
  "nextdp m dp = dp + ucast (d_reclen m dp)"

definition DIRSIZ :: "memory \<Rightarrow> addr \<Rightarrow> nat" where
  "DIRSIZ m dp = sizeof_direct - MAXNAMLEN + unat (d_namlen m dp)"

text \<open>The objects one entry is encoded from: \<open>true\<close>, \<open>dp->d_fileno\<close>, \<open>name\<close>, \<open>namlen\<close>, \<open>offset\<close>.\<close>

record dirent =
  de_valid :: "32 word"
  de_fileno :: "32 word"
  de_name :: "byte list option"
  de_namlen :: "32 word"
  de_offset :: "32 word"

definition put_dirent :: "dirent xdrproc" where
  "put_dirent = seqps
     [membr xdr_bool de_valid de_valid_update,
      membr xdr_u_long de_fileno de_fileno_update,
      fld (xdr_bytes NFS_MAXNAMLEN) (\<lambda>e. (de_name e, de_namlen e)) (\<lambda>(b, n) e. e\<lparr>de_name := b, de_namlen := n\<rparr>),
      membr xdr_u_long de_offset de_offset_update]"

text \<open>The loop of \<open>xdr_putrddirres\<close>: the result, \<open>rd_eof\<close> and the stream.\<close>

lemma uint_pos: "w \<noteq> 0 \<Longrightarrow> 0 < uint w"
  using uint_0_iff[of w] uint_ge_0[of w] by linarith

function putdir_loop ::
    "memory \<Rightarrow> 32 word \<Rightarrow> 32 word \<Rightarrow> xdr \<Rightarrow> addr \<Rightarrow> int \<Rightarrow> 32 word \<Rightarrow> 32 word \<Rightarrow> bool \<times> 32 word \<times> xdr" where
  "putdir_loop m bufsize xdrpos x dp siz offset eof =
     (if siz > 0 then
        (if d_reclen m dp = 0 \<or> DIRSIZ m dp > unat (d_reclen m dp) then (False, eof, x)
         else
           (let offset1 = offset + sizeof_svfsdirect; size1 = siz - uint (d_reclen m dp) in
            if d_fileno m dp = 0 then putdir_loop m bufsize xdrpos x (nextdp m dp) size1 offset1 eof
            else
              (let (ok, e, x1) = put_dirent x
                     \<lparr>de_valid = 1, de_fileno = d_fileno m dp,
                      de_name = Some (d_name m dp (unat (d_namlen m dp))), de_namlen = ucast (d_namlen m dp),
                      de_offset = offset1\<rparr> in
               if \<not> ok then (False, eof, x1)
               else if XDR_GETPOS x1 - xdrpos \<ge> bufsize then (True, 0, x1)
               else putdir_loop m bufsize xdrpos x1 (nextdp m dp) size1 offset1 eof)))
      else (True, eof, x))"
  by pat_completeness auto

termination
  by (relation "measure (\<lambda>(m, bufsize, xdrpos, x, dp, siz, offset, eof). nat siz)") (auto simp: uint_pos)

declare putdir_loop.simps [simp del]

definition xdr_putrddirres :: "nfsrddirres xdrproc" where
  "xdr_putrddirres x rd0 =
     (if x_op x \<noteq> XDR_ENCODE then (False, rd0, x)
      else
        (let (ok, st, x1) = xdr_enum x (rd_status rd0); rd = rd0\<lparr>rd_status := st\<rparr> in
         if \<not> ok then (False, rd, x1)
         else if st \<noteq> NFS_OK then (True, rd, x1)
         else
           (let (ok2, eof, x2) = putdir_loop (rd_entries rd) (rd_bufsize rd) (XDR_GETPOS x1) x1 0
                                   (sint (rd_size rd)) (rd_offset rd) (rd_eof rd);
                rd2 = rd\<lparr>rd_eof := eof\<rparr> in
            if \<not> ok2 then (False, rd2, x2)
            else
              (let (ok3, v, x3) = xdr_bool x2 0 in
               if \<not> ok3 then (False, rd2, x3)
               else membr xdr_bool rd_eof rd_eof_update x3 rd2))))"

text \<open>\<open>roundtoint\<close> adds a whole unit before it rounds down.\<close>

definition roundtoint :: "32 word \<Rightarrow> 32 word" where
  "roundtoint n = (n + 4) AND NOT 3"

definition reclen :: "16 word \<Rightarrow> 32 word" where
  "reclen namlen = roundtoint (ucast namlen + 1 + 4 + 2 * 2)"

text \<open>One entry, written to the record at \<open>dp\<close> as it is read; \<open>siz\<close> (\<open>size\<close>) is the room left behind \<open>dp\<close>.\<close>

definition get_dirent :: "xdr \<Rightarrow> memory \<Rightarrow> addr \<Rightarrow> int \<Rightarrow> 32 word \<Rightarrow> bool \<times> memory \<times> 32 word \<times> xdr" where
  "get_dirent x m dp siz offset =
     (let (ok1, fileno, x1) = xdr_u_long x (d_fileno m dp); m1 = set_fileno dp fileno m in
      if \<not> ok1 then (False, m1, offset, x1)
      else
        (let (ok2, namlen, x2) = xdr_u_short x1 (d_namlen m1 dp); m2 = set_namlen dp namlen m1 in
         if \<not> ok2 then (False, m2, offset, x2)
         else if reclen namlen > word_of_int siz then (False, m2, offset, x2)
         else
           (let (ok3, name, x3) = xdr_opaque x2 (d_name m2 dp (unat namlen)) (ucast namlen);
                m3 = set_name dp 0 name m2 in
            if \<not> ok3 then (False, m3, offset, x3)
            else (let (ok4, offset1, x4) = xdr_u_long x3 offset in (ok4, m3, offset1, x4)))))"

text \<open>
  The endless loop of \<open>xdr_getrddirres\<close> with a fuel; the result is \<open>None\<close> when the fuel is used up.
  \<open>valid\<close> is uninitialised: 0 here, and always overwritten when decoding.
\<close>

fun getdir_loop ::
    "nat \<Rightarrow> xdr \<Rightarrow> memory \<Rightarrow> addr \<Rightarrow> int \<Rightarrow> 32 word \<Rightarrow> (bool \<times> memory \<times> addr \<times> 32 word \<times> xdr) option" where
  "getdir_loop 0 x m dp siz offset = None"
| "getdir_loop (Suc f) x m dp siz offset =
     (let (ok, valid, x1) = xdr_bool x 0 in
      if \<not> ok then Some (False, m, dp, offset, x1)
      else if valid = 0 then Some (True, m, dp, offset, x1)
      else
        (let (ok2, m1, offset1, x2) = get_dirent x1 m dp siz offset in
         if \<not> ok2 then Some (False, m1, dp, offset1, x2)
         else
           (let m2 = set_reclen dp (ucast (reclen (d_namlen m1 dp))) m1;
                m3 = set_name dp (unat (d_namlen m2 dp)) [0] m2;
                size1 = siz - uint (d_reclen m3 dp) in
            if size1 \<le> 0 then Some (False, m3, dp, offset1, x2)
            else getdir_loop f x2 m3 (nextdp m3 dp) size1 offset1)))"

declare getdir_loop.simps [simp del]

definition xdr_getrddirres :: "xdr \<Rightarrow> nfsrddirres \<Rightarrow> (bool \<times> nfsrddirres \<times> xdr) option" where
  "xdr_getrddirres x rd0 =
     (let (ok, st, x1) = xdr_enum x (rd_status rd0); rd = rd0\<lparr>rd_status := st\<rparr> in
      if \<not> ok then Some (False, rd, x1)
      else if st \<noteq> NFS_OK then Some (True, rd, x1)
      else
        (case getdir_loop (Suc (nat (sint (rd_size rd)))) x1 (rd_entries rd) 0 (sint (rd_size rd)) (- 1) of
           None \<Rightarrow> None
         | Some (ok2, m, dp, offset, x2) \<Rightarrow>
             (let rd2 = rd\<lparr>rd_entries := m\<rparr> in
              if \<not> ok2 then Some (False, rd2, x2)
              else
                (let (ok3, rd3, x3) = membr xdr_bool rd_eof rd_eof_update x2 rd2 in
                 if \<not> ok3 then Some (False, rd3, x3)
                 else Some (True, rd3\<lparr>rd_size := dp, rd_offset := offset\<rparr>, x3)))))"

section \<open>Directory operations and the rest\<close>

definition xdr_diropargs :: "nfsdiropargs xdrproc" where
  "xdr_diropargs = seqps
     [membr xdr_fhandle da_fhandle da_fhandle_update,
      membr (xdr_string NFS_MAXNAMLEN) da_name da_name_update]"

definition xdr_drok :: "nfsdrok xdrproc" where
  "xdr_drok = seqps
     [membr xdr_fhandle drok_fhandle drok_fhandle_update,
      membr xdr_fattr drok_attr drok_attr_update]"

definition xdr_diropres :: "nfsdiropres xdrproc" where
  "xdr_diropres = fld (xdr_union [(NFS_OK, xdr_drok)] (Some xdr_void))
     (\<lambda>r. (dr_status r, dr_drok r)) (\<lambda>(s, k) r. r\<lparr>dr_status := s, dr_drok := k\<rparr>)"

definition xdr_saargs :: "nfssaargs xdrproc" where
  "xdr_saargs = seqps
     [membr xdr_fhandle saa_fh saa_fh_update,
      membr xdr_sattr saa_sa saa_sa_update]"

definition xdr_creatargs :: "nfscreatargs xdrproc" where
  "xdr_creatargs = seqps
     [membr xdr_diropargs ca_da ca_da_update,
      membr xdr_sattr ca_sa ca_sa_update]"

definition xdr_linkargs :: "nfslinkargs xdrproc" where
  "xdr_linkargs = seqps
     [membr xdr_fhandle la_from la_from_update,
      membr xdr_diropargs la_to la_to_update]"

definition xdr_rnmargs :: "nfsrnmargs xdrproc" where
  "xdr_rnmargs = seqps
     [membr xdr_diropargs rna_from rna_from_update,
      membr xdr_diropargs rna_to rna_to_update]"

definition xdr_slargs :: "nfsslargs xdrproc" where
  "xdr_slargs = seqps
     [membr xdr_diropargs sla_from sla_from_update,
      membr (xdr_string MAXPATHLEN) sla_tnm sla_tnm_update,
      membr xdr_sattr sla_sa sla_sa_update]"

definition xdr_fsok :: "nfsstatfsok xdrproc" where
  "xdr_fsok = seqps
     [membr xdr_long fsok_tsize fsok_tsize_update,
      membr xdr_long fsok_bsize fsok_bsize_update,
      membr xdr_long fsok_blocks fsok_blocks_update,
      membr xdr_long fsok_bfree fsok_bfree_update,
      membr xdr_long fsok_bavail fsok_bavail_update]"

definition xdr_statfs :: "nfsstatfs xdrproc" where
  "xdr_statfs = fld (xdr_union [(NFS_OK, xdr_fsok)] (Some xdr_void))
     (\<lambda>r. (fs_status r, fs_fsok r)) (\<lambda>(s, k) r. r\<lparr>fs_status := s, fs_fsok := k\<rparr>)"

end
