(* ===== verification/Nfs_Laws.thy ===== *)
theory Nfs_Laws
  imports Nfs_Xdr Rpc_Call
begin

text \<open>
  The wire format of NFS's structures as reference parsers and encoders, and the proofs, in the locales
  of the stream contracts, that each routine of nfs_xdr.c implements them: attributes on both paths,
  arguments, and results with a status.
\<close>

section \<open>The wire format\<close>

definition p_fhandle :: "fhandle parser" where "p_fhandle = p_opaque 32"
definition e_fhandle :: "fhandle encoder" where "e_fhandle = e_opaque 32"

definition p_writeargs :: "nfswriteargs parser" where
  "p_writeargs = p_seqs
     [p_membr p_fhandle wa_fhandle wa_fhandle_update, p_membr p_long wa_begoff wa_begoff_update,
      p_membr p_long wa_offset wa_offset_update, p_membr p_long wa_totcount wa_totcount_update,
      p_fld (p_bytes NFS_MAXDATA) (\<lambda>r. (wa_data r, wa_count r)) (\<lambda>(d, n) r. r\<lparr>wa_data := d, wa_count := n\<rparr>)]"

definition e_writeargs :: "nfswriteargs encoder" where
  "e_writeargs = e_seqs
     [e_fld e_fhandle wa_fhandle, e_fld e_long wa_begoff, e_fld e_long wa_offset, e_fld e_long wa_totcount,
      e_fld (e_bytes NFS_MAXDATA) (\<lambda>r. (wa_data r, wa_count r))]"

definition p_timeval :: "timeval parser" where
  "p_timeval = p_seqs [p_membr p_long tv_sec tv_sec_update, p_membr p_long tv_usec tv_usec_update]"

definition e_timeval :: "timeval encoder" where
  "e_timeval = e_seqs [e_fld e_long tv_sec, e_fld e_long tv_usec]"

definition p_fattr :: "nfsfattr parser" where
  "p_fattr = p_seqs
     [p_membr p_long na_type na_type_update, p_membr p_long na_mode na_mode_update,
      p_membr p_long na_nlink na_nlink_update, p_membr p_long na_uid na_uid_update,
      p_membr p_long na_gid na_gid_update, p_membr p_long na_size na_size_update,
      p_membr p_long na_blocksize na_blocksize_update, p_membr p_long na_rdev na_rdev_update,
      p_membr p_long na_blocks na_blocks_update, p_membr p_long na_fsid na_fsid_update,
      p_membr p_long na_nodeid na_nodeid_update, p_membr p_timeval na_atime na_atime_update,
      p_membr p_timeval na_mtime na_mtime_update, p_membr p_timeval na_ctime na_ctime_update]"

definition e_fattr :: "nfsfattr encoder" where
  "e_fattr = e_seqs
     [e_fld e_long na_type, e_fld e_long na_mode, e_fld e_long na_nlink, e_fld e_long na_uid, e_fld e_long na_gid,
      e_fld e_long na_size, e_fld e_long na_blocksize, e_fld e_long na_rdev, e_fld e_long na_blocks,
      e_fld e_long na_fsid, e_fld e_long na_nodeid, e_fld e_timeval na_atime, e_fld e_timeval na_mtime,
      e_fld e_timeval na_ctime]"

definition p_readargs :: "nfsreadargs parser" where
  "p_readargs = p_seqs
     [p_membr p_fhandle ra_fhandle ra_fhandle_update, p_membr p_long ra_offset ra_offset_update,
      p_membr p_long ra_count ra_count_update, p_membr p_long ra_totcount ra_totcount_update]"

definition e_readargs :: "nfsreadargs encoder" where
  "e_readargs = e_seqs
     [e_fld e_fhandle ra_fhandle, e_fld e_long ra_offset, e_fld e_long ra_count, e_fld e_long ra_totcount]"

text \<open>A status and what follows it when it is \<open>NFS_OK\<close>.\<close>

definition p_okunion :: "'u parser \<Rightarrow> (32 word \<times> 'u) parser" where
  "p_okunion P = p_union (\<lambda>d. if d = NFS_OK then Some P else Some p_void)"

definition e_okunion :: "'u encoder \<Rightarrow> (32 word \<times> 'u) encoder" where
  "e_okunion E = e_union (\<lambda>d. if d = NFS_OK then Some E else Some e_void)"

definition p_rrok :: "nfsrrok parser" where
  "p_rrok = p_seqs
     [p_membr p_fattr rrok_attr rrok_attr_update,
      p_fld (p_bytes NFS_MAXDATA) (\<lambda>r. (rrok_data r, rrok_count r)) (\<lambda>(d, n) r. r\<lparr>rrok_data := d, rrok_count := n\<rparr>)]"

definition e_rrok :: "nfsrrok encoder" where
  "e_rrok = e_seqs [e_fld e_fattr rrok_attr, e_fld (e_bytes NFS_MAXDATA) (\<lambda>r. (rrok_data r, rrok_count r))]"

definition p_rdresult :: "nfsrdresult parser" where
  "p_rdresult = p_fld (p_okunion p_rrok) (\<lambda>r. (rr_status r, rr_ok r)) (\<lambda>(s, k) r. r\<lparr>rr_status := s, rr_ok := k\<rparr>)"

definition e_rdresult :: "nfsrdresult encoder" where
  "e_rdresult = e_fld (e_okunion e_rrok) (\<lambda>r. (rr_status r, rr_ok r))"

definition p_sattr :: "nfssattr parser" where
  "p_sattr = p_seqs
     [p_membr p_long sa_mode sa_mode_update, p_membr p_long sa_uid sa_uid_update,
      p_membr p_long sa_gid sa_gid_update, p_membr p_long sa_size sa_size_update,
      p_membr p_timeval sa_atime sa_atime_update, p_membr p_timeval sa_mtime sa_mtime_update]"

definition e_sattr :: "nfssattr encoder" where
  "e_sattr = e_seqs
     [e_fld e_long sa_mode, e_fld e_long sa_uid, e_fld e_long sa_gid, e_fld e_long sa_size,
      e_fld e_timeval sa_atime, e_fld e_timeval sa_mtime]"

definition p_attrstat :: "nfsattrstat parser" where
  "p_attrstat = p_fld (p_okunion p_fattr) (\<lambda>r. (ns_status r, ns_attr r)) (\<lambda>(s, a) r. r\<lparr>ns_status := s, ns_attr := a\<rparr>)"

definition e_attrstat :: "nfsattrstat encoder" where
  "e_attrstat = e_fld (e_okunion e_fattr) (\<lambda>r. (ns_status r, ns_attr r))"

definition p_srok :: "nfssrok parser" where
  "p_srok = p_fld (p_bytes NFS_MAXPATHLEN) (\<lambda>r. (srok_data r, srok_count r))
     (\<lambda>(d, n) r. r\<lparr>srok_data := d, srok_count := n\<rparr>)"

definition e_srok :: "nfssrok encoder" where
  "e_srok = e_fld (e_bytes NFS_MAXPATHLEN) (\<lambda>r. (srok_data r, srok_count r))"

definition p_rdlnres :: "nfsrdlnres parser" where
  "p_rdlnres = p_fld (p_okunion p_srok) (\<lambda>r. (rl_status r, rl_srok r)) (\<lambda>(s, k) r. r\<lparr>rl_status := s, rl_srok := k\<rparr>)"

definition e_rdlnres :: "nfsrdlnres encoder" where
  "e_rdlnres = e_fld (e_okunion e_srok) (\<lambda>r. (rl_status r, rl_srok r))"

definition p_rddirargs :: "nfsrddirargs parser" where
  "p_rddirargs = p_seqs
     [p_membr p_fhandle rda_fh rda_fh_update, p_membr p_long rda_offset rda_offset_update,
      p_membr p_long rda_count rda_count_update]"

definition e_rddirargs :: "nfsrddirargs encoder" where
  "e_rddirargs = e_seqs [e_fld e_fhandle rda_fh, e_fld e_long rda_offset, e_fld e_long rda_count]"

definition p_diropargs :: "nfsdiropargs parser" where
  "p_diropargs = p_seqs
     [p_membr p_fhandle da_fhandle da_fhandle_update, p_membr (p_string NFS_MAXNAMLEN) da_name da_name_update]"

definition e_diropargs :: "nfsdiropargs encoder" where
  "e_diropargs = e_seqs [e_fld e_fhandle da_fhandle, e_fld (e_string NFS_MAXNAMLEN) da_name]"

definition p_drok :: "nfsdrok parser" where
  "p_drok = p_seqs
     [p_membr p_fhandle drok_fhandle drok_fhandle_update, p_membr p_fattr drok_attr drok_attr_update]"

definition e_drok :: "nfsdrok encoder" where
  "e_drok = e_seqs [e_fld e_fhandle drok_fhandle, e_fld e_fattr drok_attr]"

definition p_diropres :: "nfsdiropres parser" where
  "p_diropres = p_fld (p_okunion p_drok) (\<lambda>r. (dr_status r, dr_drok r)) (\<lambda>(s, k) r. r\<lparr>dr_status := s, dr_drok := k\<rparr>)"

definition e_diropres :: "nfsdiropres encoder" where
  "e_diropres = e_fld (e_okunion e_drok) (\<lambda>r. (dr_status r, dr_drok r))"

definition p_saargs :: "nfssaargs parser" where
  "p_saargs = p_seqs [p_membr p_fhandle saa_fh saa_fh_update, p_membr p_sattr saa_sa saa_sa_update]"

definition e_saargs :: "nfssaargs encoder" where
  "e_saargs = e_seqs [e_fld e_fhandle saa_fh, e_fld e_sattr saa_sa]"

definition p_creatargs :: "nfscreatargs parser" where
  "p_creatargs = p_seqs [p_membr p_diropargs ca_da ca_da_update, p_membr p_sattr ca_sa ca_sa_update]"

definition e_creatargs :: "nfscreatargs encoder" where
  "e_creatargs = e_seqs [e_fld e_diropargs ca_da, e_fld e_sattr ca_sa]"

definition p_linkargs :: "nfslinkargs parser" where
  "p_linkargs = p_seqs [p_membr p_fhandle la_from la_from_update, p_membr p_diropargs la_to la_to_update]"

definition e_linkargs :: "nfslinkargs encoder" where
  "e_linkargs = e_seqs [e_fld e_fhandle la_from, e_fld e_diropargs la_to]"

definition p_rnmargs :: "nfsrnmargs parser" where
  "p_rnmargs = p_seqs [p_membr p_diropargs rna_from rna_from_update, p_membr p_diropargs rna_to rna_to_update]"

definition e_rnmargs :: "nfsrnmargs encoder" where
  "e_rnmargs = e_seqs [e_fld e_diropargs rna_from, e_fld e_diropargs rna_to]"

definition p_slargs :: "nfsslargs parser" where
  "p_slargs = p_seqs
     [p_membr p_diropargs sla_from sla_from_update, p_membr (p_string MAXPATHLEN) sla_tnm sla_tnm_update,
      p_membr p_sattr sla_sa sla_sa_update]"

definition e_slargs :: "nfsslargs encoder" where
  "e_slargs = e_seqs [e_fld e_diropargs sla_from, e_fld (e_string MAXPATHLEN) sla_tnm, e_fld e_sattr sla_sa]"

definition p_fsok :: "nfsstatfsok parser" where
  "p_fsok = p_seqs
     [p_membr p_long fsok_tsize fsok_tsize_update, p_membr p_long fsok_bsize fsok_bsize_update,
      p_membr p_long fsok_blocks fsok_blocks_update, p_membr p_long fsok_bfree fsok_bfree_update,
      p_membr p_long fsok_bavail fsok_bavail_update]"

definition e_fsok :: "nfsstatfsok encoder" where
  "e_fsok = e_seqs [e_fld e_long fsok_tsize, e_fld e_long fsok_bsize, e_fld e_long fsok_blocks,
     e_fld e_long fsok_bfree, e_fld e_long fsok_bavail]"

definition p_statfs :: "nfsstatfs parser" where
  "p_statfs = p_fld (p_okunion p_fsok) (\<lambda>r. (fs_status r, fs_fsok r)) (\<lambda>(s, k) r. r\<lparr>fs_status := s, fs_fsok := k\<rparr>)"

definition e_statfs :: "nfsstatfs encoder" where
  "e_statfs = e_fld (e_okunion e_fsok) (\<lambda>r. (fs_status r, fs_fsok r))"

named_theorems nfs_wire \<open>the reference parsers and encoders of NFS's structures\<close>

lemmas [nfs_wire] =
  p_fhandle_def p_writeargs_def p_timeval_def p_readargs_def p_sattr_def p_srok_def p_rddirargs_def
  p_diropargs_def p_drok_def p_saargs_def p_creatargs_def p_linkargs_def p_rnmargs_def p_slargs_def p_fsok_def
  e_fhandle_def e_writeargs_def e_timeval_def e_readargs_def e_sattr_def e_srok_def e_rddirargs_def
  e_diropargs_def e_drok_def e_saargs_def e_creatargs_def e_linkargs_def e_rnmargs_def e_slargs_def e_fsok_def

section \<open>Parsers that take a fixed number of bytes\<close>

definition takes :: "nat \<Rightarrow> 'a parser \<Rightarrow> bool" where
  "takes n P = (\<forall>i v v' r. P i v = Some (v', r) \<longrightarrow> length i = n + length r)"

lemma takes_long: "takes 4 p_long"
  by (auto simp: takes_def p_long_def split: if_splits)

lemma takes_membr: "takes n P \<Longrightarrow> takes n (p_membr P get upd)"
  by (fastforce simp: takes_def p_membr_def p_fld_def split: option.splits)

lemma takes_seq: "takes n P \<Longrightarrow> takes m Q \<Longrightarrow> takes (n + m) (p_seq P Q)"
  by (fastforce simp: takes_def p_seq_def split: option.splits)

lemma takes_seqs: "list_all2 takes ns Ps \<Longrightarrow> takes (sum_list ns) (p_seqs Ps)"
proof (induction rule: list_all2_induct)
  case Nil
  then show ?case by (auto simp: takes_def p_seqs_def p_void_def)
next
  case (Cons n ns P Ps)
  then show ?case using takes_seq[of n P "sum_list ns" "p_seqs Ps"] by (simp add: p_seqs_def)
qed

lemma takes_timeval: "takes 8 p_timeval"
  using takes_seqs[of "[4, 4]" "[p_membr p_long tv_sec tv_sec_update, p_membr p_long tv_usec tv_usec_update]"]
  by (simp add: p_timeval_def takes_membr takes_long)

lemma takes_fattr: "takes 68 p_fattr"
proof -
  have "takes (sum_list [4, 4, 4, 4, 4, 4, 4, 4, 4, 4, 4, 8, 8, 8 :: nat]) p_fattr"
    unfolding p_fattr_def by (rule takes_seqs) (simp add: takes_membr takes_long takes_timeval)
  then show ?thesis by simp
qed

text \<open>The attributes that 17 longs stand for.\<close>

definition fattr_longs :: "byte list \<Rightarrow> nfsfattr" where
  "fattr_longs i = \<lparr>na_type = lw 0 i, na_mode = lw 1 i, na_nlink = lw 2 i, na_uid = lw 3 i, na_gid = lw 4 i,
     na_size = lw 5 i, na_blocksize = lw 6 i, na_rdev = lw 7 i, na_blocks = lw 8 i, na_fsid = lw 9 i,
     na_nodeid = lw 10 i, na_atime = \<lparr>tv_sec = lw 11 i, tv_usec = lw 12 i\<rparr>,
     na_mtime = \<lparr>tv_sec = lw 13 i, tv_usec = lw 14 i\<rparr>, na_ctime = \<lparr>tv_sec = lw 15 i, tv_usec = lw 16 i\<rparr>\<rparr>"

lemma p_long_at: "4 * k + 4 \<le> length i \<Longrightarrow> p_long (drop (4 * k) i) v = Some (lw k i, drop (4 * (k + 1)) i)"
  by (simp add: p_long_lw lw_def add.commute)

lemma p_timeval_at:
  assumes "4 * k + 8 \<le> length i"
  shows "p_timeval (drop (4 * k) i) v = Some (\<lparr>tv_sec = lw k i, tv_usec = lw (k + 1) i\<rparr>, drop (4 * (k + 2)) i)"
proof -
  have "p_long (drop (4 * k) i) a = Some (lw k i, drop (4 * (k + 1)) i)"
    "p_long (drop (4 * (k + 1)) i) a = Some (lw (k + 1) i, drop (4 * (k + 1 + 1)) i)" for a
    using assms by (intro p_long_at; simp)+
  then show ?thesis
    by (simp add: p_timeval_def p_seqs_def p_membr_def p_seq_def p_fld_def p_void_def)
qed

lemma p_fattr_longs: "p_fattr i v = (if length i < 68 then None else Some (fattr_longs i, drop 68 i))"
proof (cases "length i < 68")
  case True
  then have "p_fattr i v = None" using takes_fattr by (cases "p_fattr i v") (auto simp: takes_def)
  then show ?thesis using True by simp
next
  case False
  then have len: "68 \<le> length i" by simp
  have l: "p_long (drop (4 * k) i) a = Some (lw k i, drop (4 * (k + 1)) i)" if "k \<le> 16" for k a
    using len that by (intro p_long_at) simp
  have t: "p_timeval (drop (4 * k) i) a = Some (\<lparr>tv_sec = lw k i, tv_usec = lw (k + 1) i\<rparr>, drop (4 * (k + 2)) i)"
    if "k \<le> 15" for k a
    using len that by (intro p_timeval_at) simp
  note ls = l[of 0, simplified] l[of 1, simplified] l[of 2, simplified] l[of 3, simplified] l[of 4, simplified]
    l[of 5, simplified] l[of 6, simplified] l[of 7, simplified] l[of 8, simplified] l[of 9, simplified] l[of 10, simplified]
    t[of 11, simplified] t[of 13, simplified] t[of 15, simplified]
  show ?thesis using False
    by (simp add: p_fattr_def p_seqs_def p_membr_def p_seq_def p_fld_def p_void_def ls fattr_longs_def)
qed

section \<open>Attributes, on both paths\<close>

lemma fattr_get_longs:
  fixes x :: xdr
  assumes "rdmem (x_mem x) buf 68 = take 68 i" "68 \<le> length i"
  shows "fattr_get x buf = fattr_longs i"
proof -
  have g: "IXDR_GET_LONG x (buf + of_nat (4 * k)) = (lw k i, buf + of_nat (4 * (k + 1)))" if "k \<le> 16" for k
    using that by (intro get_long_at[OF assms]) simp_all
  note gs = g[of 0, simplified] g[of 1, simplified] g[of 2, simplified] g[of 3, simplified] g[of 4, simplified]
    g[of 5, simplified] g[of 6, simplified] g[of 7, simplified] g[of 8, simplified] g[of 9, simplified]
    g[of 10, simplified] g[of 11, simplified] g[of 12, simplified] g[of 13, simplified] g[of 14, simplified]
    g[of 15, simplified] g[of 16, simplified]
  show ?thesis unfolding fattr_get_def by (simp only: gs Let_def split_conv) (simp add: fattr_longs_def)
qed

definition fattr_words :: "nfsfattr \<Rightarrow> 32 word list" where
  "fattr_words na = [na_type na, na_mode na, na_nlink na, na_uid na, na_gid na, na_size na, na_blocksize na,
     na_rdev na, na_blocks na, na_fsid na, na_nodeid na, tv_sec (na_atime na), tv_usec (na_atime na),
     tv_sec (na_mtime na), tv_usec (na_mtime na), tv_sec (na_ctime na), tv_usec (na_ctime na)]"

lemma e_fattr_words: "e_fattr na = Some (concat (map be32 (fattr_words na)))"
  by (simp add: e_fattr_def e_timeval_def e_seqs_def e_fld_def e_seq_def e_void_def e_long_def fattr_words_def)

lemma length_be32s: "length (concat (map be32 vs)) = 4 * length vs"
  by (induction vs) auto

context xdr_decoder
begin

lemma parses_opaque:
  assumes "unat n < 2 ^ 31 - 4"
  shows "parses good inp (\<lambda>x v. xdr_opaque x v n) (p_opaque (unat n)) v"
proof (rule parsesI)
  fix x assume "good x" "4 dvd length (inp x)" "p_opaque (unat n) (inp x) v = None"
  then show "\<not> fst (xdr_opaque x v n)" using opaque_none assms by blast
next
  fix x v' r assume "good x" "4 dvd length (inp x)" "p_opaque (unat n) (inp x) v = Some (v', r)"
  then show "\<exists>x'. xdr_opaque x v n = (True, v', x') \<and> good x' \<and> inp x' = r \<and> 4 dvd length r"
    using opaque_some assms by blast
qed

lemma parses_fhandle: "parses good inp xdr_fhandle p_fhandle v"
  using parses_opaque[of NFS_FHSIZE v] by (simp add: xdr_fhandle_def[abs_def] p_fhandle_def NFS_FHSIZE_def)

text \<open>A routine that takes its object in line when the bytes are at hand, and generically otherwise.\<close>

lemma parses_inline:
  assumes slow: "parses good inp q P v"
    and eq: "\<And>x. good x \<Longrightarrow> p x v = (case XDR_INLINE x w of (Some b, x1) \<Rightarrow> (True, get x1 b, x1) | (None, x1) \<Rightarrow> q x1 v)"
    and fast: "\<And>x b i. rdmem (x_mem x) b (unat w) = take (unat w) i \<Longrightarrow> unat w \<le> length i \<Longrightarrow>
      P i v = Some (get x b, drop (unat w) i)"
    and w: "unat w < 2 ^ 31" "4 dvd unat w"
  shows "parses good inp p P v"
proof -
  have some: "P (inp x) v = Some (get x1 b, inp x1) \<and> p x v = (True, get x1 b, x1) \<and> good x1 \<and> inp x1 = drop (unat w) (inp x)"
    if "good x" "XDR_INLINE x w = (Some b, x1)" for x x1 b
    using inline_some[OF that w(1)] fast[of x1 b "inp x"] eq[OF that(1)] that(2) by simp
  have none: "p x v = q x v" if "good x" "fst (XDR_INLINE x w) = None" for x
    using that eq[OF that(1)] inline_none[OF that(1), of w] by (cases "XDR_INLINE x w") auto
  show ?thesis
  proof (rule parsesI)
    fix x assume x: "good x" "4 dvd length (inp x)" "P (inp x) v = None"
    then have "fst (XDR_INLINE x w) = None" using some[OF x(1)] by (cases "fst (XDR_INLINE x w)") (auto simp: prod_eq_iff)
    then show "\<not> fst (p x v)" using none[OF x(1)] parses_None[OF slow x] by simp
  next
    fix x v' r assume x: "good x" "4 dvd length (inp x)" "P (inp x) v = Some (v', r)"
    show "\<exists>x'. p x v = (True, v', x') \<and> good x' \<and> inp x' = r \<and> 4 dvd length r"
    proof (cases "fst (XDR_INLINE x w)")
      case None
      then show ?thesis using none[OF x(1)] parses_Some[OF slow x] by metis
    next
      case (Some b)
      then have "XDR_INLINE x w = (Some b, snd (XDR_INLINE x w))" by (metis prod.collapse)
      from some[OF x(1) this] x(2,3) w(2) show ?thesis by (auto simp: dvd_diff_nat)
    qed
  qed
qed

lemmas decodes_base = decodes_membr decodesI[OF parses_long] decodesI[OF parses_u_long] decodesI[OF parses_enum]
  decodesI[OF parses_fhandle]

lemma decodes_timeval: "decodes good inp xdr_timeval p_timeval"
  unfolding xdr_timeval_def p_timeval_def
  by (rule decodes_seqps) (simp add: decodes_base)

lemma decodes_fattr_generic: "decodes good inp fattr_generic p_fattr"
  unfolding fattr_generic_def p_fattr_def
  by (rule decodes_seqps) (simp add: decodes_base decodes_timeval)

lemma parses_fattr: "parses good inp xdr_fattr p_fattr v"
proof (rule parses_inline[OF decodesD[OF decodes_fattr_generic], where w = 68 and get = fattr_get])
  fix x assume x: "good x"
  show "xdr_fattr x v = (case XDR_INLINE x 68 of (Some b, x1) \<Rightarrow> (True, fattr_get x1 b, x1) | (None, x1) \<Rightarrow> fattr_generic x1 v)"
    using dec_op[OF x] by (simp add: xdr_fattr_def BYTES_PER_XDR_UNIT_def)
next
  fix x :: xdr and b i assume "rdmem (x_mem x) b (unat (68 :: 32 word)) = take (unat (68 :: 32 word)) i" "unat (68 :: 32 word) \<le> length i"
  then show "p_fattr i v = Some (fattr_get x b, drop (unat (68 :: 32 word)) i)" by (simp add: p_fattr_longs fattr_get_longs)
qed simp_all

end

section \<open>Decoding the other structures\<close>

lemma nfs_bounds: "unat NFS_MAXDATA < 2 ^ 31 - 4" "unat NFS_MAXNAMLEN < 2 ^ 31 - 4"
  "unat NFS_MAXPATHLEN < 2 ^ 31 - 4" "unat MAXPATHLEN < 2 ^ 31 - 4"
  by (simp_all add: NFS_MAXDATA_def NFS_MAXNAMLEN_def NFS_MAXPATHLEN_def MAXPATHLEN_def)

lemma pick_ok: "pick_arm [(NFS_OK, p)] (Some q) d = Some (if d = NFS_OK then p else q)"
  by (simp add: pick_arm_def)

context xdr_decoder
begin

lemma decodes_okunion:
  assumes "decodes good inp p P"
  shows "decodes good inp (xdr_union [(NFS_OK, p)] (Some xdr_void)) (p_okunion P)"
proof (rule decodesI)
  fix v :: "32 word \<times> 'a"
  have "parses good inp (xdr_union [(NFS_OK, p)] (Some xdr_void)) (p_okunion P) (fst v, snd v)"
    unfolding p_okunion_def
    by (rule parses_union) (use assms in \<open>auto simp: pick_ok decodes_def\<close>)
  then show "parses good inp (xdr_union [(NFS_OK, p)] (Some xdr_void)) (p_okunion P) v" by simp
qed

lemmas decodes_structs = decodes_base decodes_timeval decodesI[OF parses_fattr]
  decodes_fld[OF decodesI[OF parses_bytes[OF nfs_bounds(1)]]] decodes_fld[OF decodesI[OF parses_bytes[OF nfs_bounds(3)]]]
  decodesI[OF parses_string[OF nfs_bounds(2)]] decodesI[OF parses_string[OF nfs_bounds(4)]]

lemma decodes_writeargs: "decodes good inp xdr_writeargs p_writeargs"
  unfolding xdr_writeargs_def p_writeargs_def by (rule decodes_seqps) (simp add: decodes_structs)

lemma decodes_readargs: "decodes good inp xdr_readargs p_readargs"
  unfolding xdr_readargs_def p_readargs_def by (rule decodes_seqps) (simp add: decodes_structs)

lemma decodes_sattr: "decodes good inp xdr_sattr p_sattr"
  unfolding xdr_sattr_def p_sattr_def by (rule decodes_seqps) (simp add: decodes_structs)

lemma decodes_rddirargs: "decodes good inp xdr_rddirargs p_rddirargs"
  unfolding xdr_rddirargs_def p_rddirargs_def by (rule decodes_seqps) (simp add: decodes_structs)

lemma decodes_diropargs: "decodes good inp xdr_diropargs p_diropargs"
  unfolding xdr_diropargs_def p_diropargs_def by (rule decodes_seqps) (simp add: decodes_structs)

lemma decodes_drok: "decodes good inp xdr_drok p_drok"
  unfolding xdr_drok_def p_drok_def by (rule decodes_seqps) (simp add: decodes_structs)

lemma decodes_saargs: "decodes good inp xdr_saargs p_saargs"
  unfolding xdr_saargs_def p_saargs_def by (rule decodes_seqps) (simp add: decodes_structs decodes_sattr)

lemma decodes_creatargs: "decodes good inp xdr_creatargs p_creatargs"
  unfolding xdr_creatargs_def p_creatargs_def
  by (rule decodes_seqps) (simp add: decodes_structs decodes_sattr decodes_diropargs)

lemma decodes_linkargs: "decodes good inp xdr_linkargs p_linkargs"
  unfolding xdr_linkargs_def p_linkargs_def by (rule decodes_seqps) (simp add: decodes_structs decodes_diropargs)

lemma decodes_rnmargs: "decodes good inp xdr_rnmargs p_rnmargs"
  unfolding xdr_rnmargs_def p_rnmargs_def by (rule decodes_seqps) (simp add: decodes_structs decodes_diropargs)

lemma decodes_slargs: "decodes good inp xdr_slargs p_slargs"
  unfolding xdr_slargs_def p_slargs_def
  by (rule decodes_seqps) (simp add: decodes_structs decodes_sattr decodes_diropargs)

lemma decodes_fsok: "decodes good inp xdr_fsok p_fsok"
  unfolding xdr_fsok_def p_fsok_def by (rule decodes_seqps) (simp add: decodes_structs)

lemma decodes_srok: "decodes good inp xdr_srok p_srok"
  unfolding xdr_srok_def p_srok_def by (rule decodes_structs)

lemma parses_cong_at:
  assumes "parses good inp p P v" "\<And>x. good x \<Longrightarrow> 4 dvd length (inp x) \<Longrightarrow> q x v = p x v"
  shows "parses good inp q P v"
proof (rule parsesI)
  fix x assume x: "good x" "4 dvd length (inp x)" "P (inp x) v = None"
  then show "\<not> fst (q x v)" using parses_None[OF assms(1) x] assms(2)[OF x(1,2)] by simp
next
  fix x v' r assume x: "good x" "4 dvd length (inp x)" "P (inp x) v = Some (v', r)"
  then show "\<exists>x'. q x v = (True, v', x') \<and> good x' \<and> inp x' = r \<and> 4 dvd length r"
    using parses_Some[OF assms(1) x] assms(2)[OF x(1,2)] by metis
qed

lemma decodes_rrok: "decodes good inp (xdr_rrok env) p_rrok"
proof -
  let ?b = "fld (xdr_bytes NFS_MAXDATA) (\<lambda>r. (rrok_data r, rrok_count r)) (\<lambda>(d, n) r. r\<lparr>rrok_data := d, rrok_count := n\<rparr>)"
  have eq: "xdr_rrok env x v = seqps [membr xdr_fattr rrok_attr rrok_attr_update, ?b] x v" if x: "good x" "4 dvd length (inp x)" for x v
  proof -
    have A: "parses good inp (membr xdr_fattr rrok_attr rrok_attr_update) (p_membr p_fattr rrok_attr rrok_attr_update) v"
      by (rule parses_membr[OF parses_fattr])
    show ?thesis
    proof (cases "p_membr p_fattr rrok_attr rrok_attr_update (inp x) v")
      case None
      then have "\<not> fst (membr xdr_fattr rrok_attr rrok_attr_update x v)" by (rule parses_None[OF A x])
      then show ?thesis by (auto simp: xdr_rrok_def seqps_def seqp_def split: prod.split)
    next
      case (Some vr)
      then have p: "p_membr p_fattr rrok_attr rrok_attr_update (inp x) v = Some (fst vr, snd vr)" by simp
      obtain x1 where "membr xdr_fattr rrok_attr rrok_attr_update x v = (True, fst vr, x1)" "good x1"
        by (rule parses_Some[OF A x p])
      then show ?thesis using dec_op by (auto simp: xdr_rrok_def seqps_def seqp_def xdr_void_def split: prod.split)
    qed
  qed
  have S: "decodes good inp (seqps [membr xdr_fattr rrok_attr rrok_attr_update, ?b]) p_rrok"
    unfolding p_rrok_def by (rule decodes_seqps) (simp add: decodes_structs)
  show ?thesis
    by (rule decodesI, rule parses_cong_at[OF decodesD[OF S]], rule eq)
qed

lemma decodes_results:
  "decodes good inp (xdr_rdresult env) p_rdresult" "decodes good inp xdr_attrstat p_attrstat"
  "decodes good inp xdr_rdlnres p_rdlnres" "decodes good inp xdr_diropres p_diropres" "decodes good inp xdr_statfs p_statfs"
  unfolding xdr_rdresult_def p_rdresult_def xdr_attrstat_def p_attrstat_def xdr_rdlnres_def p_rdlnres_def
    xdr_diropres_def p_diropres_def xdr_statfs_def p_statfs_def
  by (intro decodes_fld decodes_okunion decodes_rrok decodesI[OF parses_fattr] decodes_srok decodes_drok decodes_fsok)+

end

section \<open>Encoding\<close>

context xdr_encoder
begin

lemma encodes_opaque:
  assumes "unat n < 2 ^ 31 - 4"
  shows "encodes good out room (\<lambda>x v. xdr_opaque x v n) (e_opaque (unat n)) v"
proof -
  let ?bs = "rdbuf v (unat n) @ replicate (padlen (unat n)) 0"
  have d: "4 dvd length ?bs" using padlen_dvd[of "unat n"] by simp
  show ?thesis
    by (rule encodesI; unfold e_opaque_def; use opaque_encode[OF _ assms, of _ v] d in fastforce)
qed

lemma encodes_fhandle: "encodes good out room xdr_fhandle e_fhandle v"
  using encodes_opaque[of NFS_FHSIZE v] by (simp add: xdr_fhandle_def[abs_def] e_fhandle_def NFS_FHSIZE_def)

lemma encodes_timeval: "encodes good out room xdr_timeval e_timeval v"
  unfolding xdr_timeval_def e_timeval_def by (rule encodes_seqps) (simp add: encodes_membr encodes_long)

lemma encodes_fattr_generic: "encodes good out room fattr_generic e_fattr v"
  unfolding fattr_generic_def e_fattr_def
  by (rule encodes_seqps) (simp add: encodes_membr encodes_enum encodes_u_long encodes_timeval)

text \<open>A routine that stores its longs in line when there is room at hand, and generically otherwise.\<close>

lemma encodes_inline:
  assumes slow: "encodes good out room q E v"
    and eq: "\<And>x. good x \<Longrightarrow> p x v = (case XDR_INLINE x w of (Some b, x1) \<Rightarrow> (True, v, fst (ixdr_puts x1 b vs))
      | (None, x1) \<Rightarrow> q x1 v)"
    and E: "E v = Some (concat (map be32 vs))" and w: "unat w < 2 ^ 31" "unat w = 4 * length vs"
  shows "encodes good out room p E v"
proof -
  let ?bs = "concat (map be32 vs)"
  have l: "length ?bs = unat w" using w(2) by (simp add: length_be32s)
  have some: "unat w \<le> room x \<and> (\<exists>x'. p x v = (True, v, x') \<and> good x' \<and> out x' = out x @ ?bs \<and> room x' + length ?bs = room x)"
    if "good x" "XDR_INLINE x w = (Some b, x1)" for x x1 b
  proof -
    define x' where "x' = x1\<lparr>x_mem := wrmem (x_mem x1) b ?bs\<rparr>"
    have "ixdr_puts x1 b vs = (x', b + of_nat (4 * length vs))"
      unfolding x'_def by (rule puts_wrmem) (use w in simp)
    then have "p x v = (True, v, x')" using eq[OF that(1)] that(2) by simp
    moreover have "unat w \<le> room x \<and> good x' \<and> out x' = out x @ rdmem (wrmem (x_mem x1) b ?bs) b (unat w) \<and> room x' + unat w = room x"
      unfolding x'_def by (rule inline_some[OF that w(1)]) (simp add: wrmem_def l)
    moreover have "rdmem (wrmem (x_mem x1) b ?bs) b (unat w) = ?bs"
      using rdmem_wrmem_same[of ?bs "x_mem x1" b] w l by simp
    ultimately show ?thesis using l by simp
  qed
  have none: "p x v = q x v" if "good x" "fst (XDR_INLINE x w) = None" for x
    using that eq[OF that(1)] inline_none[OF that(1), of w] by (cases "XDR_INLINE x w") auto
  have d: "4 dvd length ?bs" by (simp add: l w(2))
  show ?thesis
  proof (rule encodesI)
    fix x bs assume x: "good x" "4 dvd room x" "E v = Some bs" "room x < length bs"
    then have "fst (XDR_INLINE x w) = None" using some[OF x(1)] E l by (cases "fst (XDR_INLINE x w)") (auto simp: prod_eq_iff)
    then show "\<not> fst (p x v)" using none[OF x(1)] encodes_full[OF slow x] by simp
  next
    fix x bs assume x: "good x" "4 dvd room x" "E v = Some bs" "length bs \<le> room x"
    show "\<exists>x'. p x v = (True, v, x') \<and> good x' \<and> out x' = out x @ bs \<and> room x' + length bs = room x \<and> 4 dvd length bs"
    proof (cases "fst (XDR_INLINE x w)")
      case None
      then show ?thesis using none[OF x(1)] encodes_Some[OF slow x] by metis
    next
      case (Some b)
      then have "XDR_INLINE x w = (Some b, snd (XDR_INLINE x w))" by (metis prod.collapse)
      from some[OF x(1) this] show ?thesis using x(3) E d by auto
    qed
  qed (use E in simp)
qed

lemma encodes_fattr: "encodes good out room xdr_fattr e_fattr v"
proof (rule encodes_inline[OF encodes_fattr_generic, where w = 68])
  fix x assume "good x"
  then show "xdr_fattr x v = (case XDR_INLINE x 68 of (Some b, x1) \<Rightarrow> (True, v, fst (ixdr_puts x1 b (fattr_words v)))
      | (None, x1) \<Rightarrow> fattr_generic x1 v)"
    using enc_op
    by (auto simp: xdr_fattr_def BYTES_PER_XDR_UNIT_def fattr_put_def fattr_words_def simp del: ixdr_puts.simps
        split: prod.split option.split)
qed (simp_all add: e_fattr_words fattr_words_def)

lemma encodes_okunion:
  assumes "d = NFS_OK \<Longrightarrow> encodes good out room p E u"
  shows "encodes good out room (xdr_union [(NFS_OK, p)] (Some xdr_void)) (e_okunion E) (d, u)"
  unfolding e_okunion_def
  by (rule encodes_pick) (use assms in \<open>auto simp: pick_ok\<close>)

lemma encodes_bytes_fld:
  assumes "unat m < 2 ^ 31 - 4" "put (get r) r = r"
  shows "encodes good out room (fld (xdr_bytes m) get put) (e_fld (e_bytes m) get) r"
  using encodes_bytes[OF assms(1), of "fst (get r)" "snd (get r)"] assms(2) by (intro encodes_fld) simp_all

lemmas encodes_structs = encodes_membr encodes_long encodes_u_long encodes_enum encodes_fhandle encodes_timeval encodes_fattr
  encodes_bytes_fld[OF nfs_bounds(1)] encodes_bytes_fld[OF nfs_bounds(3)]
  encodes_string[OF nfs_bounds(2)] encodes_string[OF nfs_bounds(4)]

lemma encodes_writeargs: "encodes good out room xdr_writeargs e_writeargs v"
  unfolding xdr_writeargs_def e_writeargs_def by (rule encodes_seqps) (simp add: encodes_structs)

lemma encodes_readargs: "encodes good out room xdr_readargs e_readargs v"
  unfolding xdr_readargs_def e_readargs_def by (rule encodes_seqps) (simp add: encodes_structs)

lemma encodes_sattr: "encodes good out room xdr_sattr e_sattr v"
  unfolding xdr_sattr_def e_sattr_def by (rule encodes_seqps) (simp add: encodes_structs)

lemma encodes_rddirargs: "encodes good out room xdr_rddirargs e_rddirargs v"
  unfolding xdr_rddirargs_def e_rddirargs_def by (rule encodes_seqps) (simp add: encodes_structs)

lemma encodes_diropargs:
  "strlen (bytes_at (da_name v)) < 2 ^ 32 \<Longrightarrow> encodes good out room xdr_diropargs e_diropargs v"
  unfolding xdr_diropargs_def e_diropargs_def by (rule encodes_seqps) (simp add: encodes_structs)

lemma encodes_drok: "encodes good out room xdr_drok e_drok v"
  unfolding xdr_drok_def e_drok_def by (rule encodes_seqps) (simp add: encodes_structs)

lemma encodes_saargs: "encodes good out room xdr_saargs e_saargs v"
  unfolding xdr_saargs_def e_saargs_def by (rule encodes_seqps) (simp add: encodes_structs encodes_sattr)

lemma encodes_creatargs:
  "strlen (bytes_at (da_name (ca_da v))) < 2 ^ 32 \<Longrightarrow> encodes good out room xdr_creatargs e_creatargs v"
  unfolding xdr_creatargs_def e_creatargs_def
  by (rule encodes_seqps) (simp add: encodes_structs encodes_sattr encodes_diropargs)

lemma encodes_linkargs:
  "strlen (bytes_at (da_name (la_to v))) < 2 ^ 32 \<Longrightarrow> encodes good out room xdr_linkargs e_linkargs v"
  unfolding xdr_linkargs_def e_linkargs_def
  by (rule encodes_seqps) (simp add: encodes_structs encodes_diropargs)

lemma encodes_rnmargs:
  "strlen (bytes_at (da_name (rna_from v))) < 2 ^ 32 \<Longrightarrow> strlen (bytes_at (da_name (rna_to v))) < 2 ^ 32 \<Longrightarrow>
   encodes good out room xdr_rnmargs e_rnmargs v"
  unfolding xdr_rnmargs_def e_rnmargs_def
  by (rule encodes_seqps) (simp add: encodes_structs encodes_diropargs)

lemma encodes_slargs:
  "strlen (bytes_at (da_name (sla_from v))) < 2 ^ 32 \<Longrightarrow> strlen (bytes_at (sla_tnm v)) < 2 ^ 32 \<Longrightarrow>
   encodes good out room xdr_slargs e_slargs v"
  unfolding xdr_slargs_def e_slargs_def
  by (rule encodes_seqps) (simp add: encodes_structs encodes_diropargs encodes_sattr)

lemma encodes_fsok: "encodes good out room xdr_fsok e_fsok v"
  unfolding xdr_fsok_def e_fsok_def by (rule encodes_seqps) (simp add: encodes_structs)

lemma encodes_srok: "encodes good out room xdr_srok e_srok v"
  unfolding xdr_srok_def e_srok_def by (rule encodes_bytes_fld[OF nfs_bounds(3)]) simp

lemma encodes_rrok:
  assumes "rrok_bp v = 0"
  shows "encodes good out room (xdr_rrok env) e_rrok v"
proof -
  let ?b = "fld (xdr_bytes NFS_MAXDATA) (\<lambda>r. (rrok_data r, rrok_count r)) (\<lambda>(d, n) r. r\<lparr>rrok_data := d, rrok_count := n\<rparr>)"
  have eq: "xdr_rrok env x v = seqps [membr xdr_fattr rrok_attr rrok_attr_update, ?b] x v" for x
  proof (cases "membr xdr_fattr rrok_attr rrok_attr_update x v")
    case (fields ok r1 x1)
    have "rrok_bp (fst (snd (membr xdr_fattr rrok_attr rrok_attr_update x v))) = 0"
      using assms by (auto simp: membr_def fld_def split: prod.split)
    then have "rrok_bp r1 = 0" using fields by simp
    then show ?thesis by (simp add: xdr_rrok_def fields seqps_def seqp_def xdr_void_def split: prod.split)
  qed
  have "encodes good out room (seqps [membr xdr_fattr rrok_attr rrok_attr_update, ?b]) e_rrok v"
    unfolding e_rrok_def by (rule encodes_seqps) (simp add: encodes_structs)
  then show ?thesis unfolding encodes_def eq .
qed

lemma encodes_results:
  "rrok_bp (rr_ok v1) = 0 \<Longrightarrow> encodes good out room (xdr_rdresult env) e_rdresult v1"
  "encodes good out room xdr_attrstat e_attrstat v2" "encodes good out room xdr_rdlnres e_rdlnres v3"
  "encodes good out room xdr_diropres e_diropres v4" "encodes good out room xdr_statfs e_statfs v5"
  unfolding xdr_rdresult_def e_rdresult_def xdr_attrstat_def e_attrstat_def xdr_rdlnres_def e_rdlnres_def
    xdr_diropres_def e_diropres_def xdr_statfs_def e_statfs_def
  by (intro encodes_fld encodes_okunion encodes_rrok encodes_fattr encodes_srok encodes_drok encodes_fsok; simp)+

end

end
