(* ===== verification/Nfs_Args.thy ===== *)
theory Nfs_Args
  imports Nfs_Laws Xdr_Props
begin

text \<open>
  The XDR columns of the dispatch table of NET/sys/nfs_server.c, and what one side encodes the other
  reads back. The space for arguments and for results is zeroed and used as whatever structure the
  procedure takes: a record with a field for each of them.
\<close>

section \<open>The dispatch table (NET/sys/nfs_server.c)\<close>

record rfsargs =
  rfa_fh :: fhandle
  rfa_sa :: nfssaargs
  rfa_dirop :: nfsdiropargs
  rfa_read :: nfsreadargs
  rfa_write :: nfswriteargs
  rfa_creat :: nfscreatargs
  rfa_rnm :: nfsrnmargs
  rfa_link :: nfslinkargs
  rfa_sl :: nfsslargs
  rfa_rddir :: nfsrddirargs

record rfsres =
  rfr_stat :: "32 word"
  rfr_attr :: nfsattrstat
  rfr_dirop :: nfsdiropres
  rfr_rdln :: nfsrdlnres
  rfr_read :: nfsrdresult
  rfr_rddir :: nfsrddirres
  rfr_statfs :: nfsstatfs

datatype rfsproc =
  Rfs_null | Rfs_getattr | Rfs_setattr | Rfs_error | Rfs_lookup | Rfs_readlink | Rfs_read | Rfs_write | Rfs_create
  | Rfs_remove | Rfs_rename | Rfs_link | Rfs_symlink | Rfs_mkdir | Rfs_rmdir | Rfs_readdir | Rfs_statfs

definition RFS_NULL :: nat where "RFS_NULL = 0"
definition RFS_READDIR :: nat where "RFS_READDIR = 16"
definition RFS_NPROC :: nat where "RFS_NPROC = 18"

record rfsdisp =
  dis_proc :: rfsproc
  dis_xdrargs :: "rfsargs xdrproc"
  dis_xdrres :: "rfsres xdrproc"

definition rfsdisptab :: "rrokenv \<Rightarrow> rfsdisp list" where
  "rfsdisptab env =
     (let void = \<lparr>dis_proc = Rfs_error, dis_xdrargs = xdr_void, dis_xdrres = xdr_void\<rparr>;
          fh = membr xdr_fhandle rfa_fh rfa_fh_update;
          dirop = membr xdr_diropargs rfa_dirop rfa_dirop_update;
          creat = membr xdr_creatargs rfa_creat rfa_creat_update;
          attr = membr xdr_attrstat rfr_attr rfr_attr_update;
          dirres = membr xdr_diropres rfr_dirop rfr_dirop_update;
          stat = membr xdr_enum rfr_stat rfr_stat_update in
      [void\<lparr>dis_proc := Rfs_null\<rparr>,
       \<lparr>dis_proc = Rfs_getattr, dis_xdrargs = fh, dis_xdrres = attr\<rparr>,
       \<lparr>dis_proc = Rfs_setattr, dis_xdrargs = membr xdr_saargs rfa_sa rfa_sa_update, dis_xdrres = attr\<rparr>,
       void,
       \<lparr>dis_proc = Rfs_lookup, dis_xdrargs = dirop, dis_xdrres = dirres\<rparr>,
       \<lparr>dis_proc = Rfs_readlink, dis_xdrargs = fh, dis_xdrres = membr xdr_rdlnres rfr_rdln rfr_rdln_update\<rparr>,
       \<lparr>dis_proc = Rfs_read, dis_xdrargs = membr xdr_readargs rfa_read rfa_read_update,
        dis_xdrres = membr (xdr_rdresult env) rfr_read rfr_read_update\<rparr>,
       void,
       \<lparr>dis_proc = Rfs_write, dis_xdrargs = membr xdr_writeargs rfa_write rfa_write_update, dis_xdrres = attr\<rparr>,
       \<lparr>dis_proc = Rfs_create, dis_xdrargs = creat, dis_xdrres = dirres\<rparr>,
       \<lparr>dis_proc = Rfs_remove, dis_xdrargs = dirop, dis_xdrres = stat\<rparr>,
       \<lparr>dis_proc = Rfs_rename, dis_xdrargs = membr xdr_rnmargs rfa_rnm rfa_rnm_update, dis_xdrres = stat\<rparr>,
       \<lparr>dis_proc = Rfs_link, dis_xdrargs = membr xdr_linkargs rfa_link rfa_link_update, dis_xdrres = stat\<rparr>,
       \<lparr>dis_proc = Rfs_symlink, dis_xdrargs = membr xdr_slargs rfa_sl rfa_sl_update, dis_xdrres = stat\<rparr>,
       \<lparr>dis_proc = Rfs_mkdir, dis_xdrargs = creat, dis_xdrres = dirres\<rparr>,
       \<lparr>dis_proc = Rfs_rmdir, dis_xdrargs = dirop, dis_xdrres = stat\<rparr>,
       \<lparr>dis_proc = Rfs_readdir, dis_xdrargs = membr xdr_rddirargs rfa_rddir rfa_rddir_update,
        dis_xdrres = membr xdr_putrddirres rfr_rddir rfr_rddir_update\<rparr>,
       \<lparr>dis_proc = Rfs_statfs, dis_xdrargs = fh, dis_xdrres = membr xdr_statfs rfr_statfs rfr_statfs_update\<rparr>])"

text \<open>The zeroed space of \<open>rfsget\<close> and \<open>bzero\<close>.\<close>

definition fh0 :: fhandle where "fh0 = replicate 32 0"
definition tv0 :: timeval where "tv0 = \<lparr>tv_sec = 0, tv_usec = 0\<rparr>"
definition fattr0 :: nfsfattr where
  "fattr0 = \<lparr>na_type = 0, na_mode = 0, na_nlink = 0, na_uid = 0, na_gid = 0, na_size = 0, na_blocksize = 0, na_rdev = 0,
     na_blocks = 0, na_fsid = 0, na_nodeid = 0, na_atime = tv0, na_mtime = tv0, na_ctime = tv0\<rparr>"
definition sattr0 :: nfssattr where
  "sattr0 = \<lparr>sa_mode = 0, sa_uid = 0, sa_gid = 0, sa_size = 0, sa_atime = tv0, sa_mtime = tv0\<rparr>"
definition dirop0 :: nfsdiropargs where "dirop0 = \<lparr>da_fhandle = fh0, da_name = None\<rparr>"

definition args0 :: rfsargs where
  "args0 = \<lparr>rfa_fh = fh0, rfa_sa = \<lparr>saa_fh = fh0, saa_sa = sattr0\<rparr>, rfa_dirop = dirop0,
     rfa_read = \<lparr>ra_fhandle = fh0, ra_offset = 0, ra_count = 0, ra_totcount = 0\<rparr>,
     rfa_write = \<lparr>wa_fhandle = fh0, wa_begoff = 0, wa_offset = 0, wa_totcount = 0, wa_count = 0, wa_data = None\<rparr>,
     rfa_creat = \<lparr>ca_da = dirop0, ca_sa = sattr0\<rparr>, rfa_rnm = \<lparr>rna_from = dirop0, rna_to = dirop0\<rparr>,
     rfa_link = \<lparr>la_from = fh0, la_to = dirop0\<rparr>, rfa_sl = \<lparr>sla_from = dirop0, sla_tnm = None, sla_sa = sattr0\<rparr>,
     rfa_rddir = \<lparr>rda_fh = fh0, rda_offset = 0, rda_count = 0\<rparr>\<rparr>"

definition res0 :: rfsres where
  "res0 = \<lparr>rfr_stat = 0, rfr_attr = \<lparr>ns_status = 0, ns_attr = fattr0\<rparr>,
     rfr_dirop = \<lparr>dr_status = 0, dr_drok = \<lparr>drok_fhandle = fh0, drok_attr = fattr0\<rparr>\<rparr>,
     rfr_rdln = \<lparr>rl_status = 0, rl_srok = \<lparr>srok_count = 0, srok_data = None\<rparr>\<rparr>,
     rfr_read = \<lparr>rr_status = 0, rr_ok = \<lparr>rrok_attr = fattr0, rrok_count = 0, rrok_data = None, rrok_where = 0, rrok_bp = 0, rrok_vp = 0\<rparr>\<rparr>,
     rfr_rddir = \<lparr>rd_bufsize = 0, rd_status = 0, rd_offset = 0, rd_size = 0, rd_eof = 0, rd_entries = (\<lambda>_. 0)\<rparr>,
     rfr_statfs = \<lparr>fs_status = 0, fs_fsok = \<lparr>fsok_tsize = 0, fsok_bsize = 0, fsok_blocks = 0, fsok_bfree = 0, fsok_bavail = 0\<rparr>\<rparr>\<rparr>"

section \<open>Reading back\<close>

text \<open>What \<open>E\<close> makes of \<open>v\<close>, \<open>P\<close> reads over \<open>v0\<close> as \<open>v'\<close>, and leaves what follows.\<close>

definition reads_back :: "'a parser \<Rightarrow> 'a encoder \<Rightarrow> 'a \<Rightarrow> 'a \<Rightarrow> 'a \<Rightarrow> bool" where
  "reads_back P E v v0 v' = (\<forall>w rest. E v = Some w \<longrightarrow> P (w @ rest) v0 = Some (v', rest))"

lemma rb_long: "reads_back p_long e_long v v0 v"
  by (simp add: reads_back_def e_long_def p_long_def)

lemma rb_void: "reads_back p_void e_void r r0 r0"
  by (simp add: reads_back_def e_void_def p_void_def)

lemma rb_fld: "reads_back P E (get r) (get r0) a \<Longrightarrow> reads_back (p_fld P get put) (e_fld E get) r r0 (put a r0)"
  by (simp add: reads_back_def p_fld_def e_fld_def)

lemma rb_membr: "reads_back P E (get r) (get r0) a \<Longrightarrow> reads_back (p_membr P get upd) (e_fld E get) r r0 (upd (\<lambda>_. a) r0)"
  unfolding p_membr_def by (rule rb_fld)

lemma rb_seq:
  assumes "reads_back P E r r0 r1" "reads_back Q F r r1 r2"
  shows "reads_back (p_seq P Q) (e_seq E F) r r0 r2"
  using assms unfolding reads_back_def by (auto simp: e_seq_def p_seq_def split: option.splits)

lemma rb_nil: "reads_back (p_seqs []) (e_seqs []) r r0 r0"
  by (simp add: p_seqs_def e_seqs_def rb_void)

lemma rb_cons:
  "reads_back P E r r0 r1 \<Longrightarrow> reads_back (p_seqs Ps) (e_seqs Es) r r1 r2 \<Longrightarrow> reads_back (p_seqs (P # Ps)) (e_seqs (E # Es)) r r0 r2"
  by (simp add: p_seqs_def e_seqs_def rb_seq)

lemma rb_eq: "reads_back P E v v0 v1 \<Longrightarrow> v1 = v' \<Longrightarrow> reads_back P E v v0 v'"
  by simp

lemma rb_fhandle: "length fh = 32 \<Longrightarrow> length f0 = 32 \<Longrightarrow> reads_back p_fhandle e_fhandle fh f0 fh"
  by (simp add: reads_back_def p_fhandle_def e_fhandle_def p_opaque_def e_opaque_def rdbuf_def wrbuf_def padlen_def)

text \<open>Counted data whose length is the count, and C strings: bytes that are not null, and a null.\<close>

definition counted :: "byte list option \<Rightarrow> 32 word \<Rightarrow> bool" where
  "counted p n = (\<exists>bs. p = Some bs \<and> length bs = unat n)"

definition cstring :: "byte list option \<Rightarrow> bool" where
  "cstring p = (\<exists>s. p = Some (s @ [0]) \<and> 0 \<notin> set s \<and> length s < 2 ^ 32)"

lemma cstring_strlen: "cstring p \<Longrightarrow> \<exists>s. p = Some (s @ [0]) \<and> strlen (bytes_at p) = length s \<and> length s < 2 ^ 32"
  by (auto simp: cstring_def strlen_def bytes_at_def takeWhile_append takeWhile_eq_all_conv)

lemma rb_string: "cstring p \<Longrightarrow> reads_back (p_string m) (e_string m) p None p"
  using cstring_strlen[of p] p_string_roundtrip[of m p]
  by (auto simp: reads_back_def bytes_at_def)

lemma rb_bytes: "counted p n \<Longrightarrow> reads_back (p_bytes m) (e_bytes m) (p, n) (None, n0) (p, n)"
  by (auto simp: counted_def reads_back_def e_bytes_def p_bytes_def p_long_def p_opaque_def wrbuf_def bytes_at_def rdbuf_def)

lemma rb_okunion:
  assumes "d = NFS_OK \<Longrightarrow> reads_back P E u u0 u'" "d \<noteq> NFS_OK \<Longrightarrow> u' = u0"
  shows "reads_back (p_okunion P) (e_okunion E) (d, u) (d0, u0) (d, u')"
  using assms
  by (auto simp: reads_back_def p_okunion_def e_okunion_def p_union_def e_union_def p_long_def e_void_def p_void_def
      split: if_splits option.splits)

section \<open>Reading back the structures\<close>

lemma rb_timeval: "reads_back p_timeval e_timeval t t0 t"
  unfolding p_timeval_def e_timeval_def
  by (rule rb_eq, (rule rb_cons rb_membr rb_long rb_nil)+, simp)

lemma rb_fattr: "reads_back p_fattr e_fattr a a0 a"
  unfolding p_fattr_def e_fattr_def
  by (rule rb_eq, (rule rb_cons rb_membr rb_long rb_timeval rb_nil)+, simp)

lemma rb_sattr: "reads_back p_sattr e_sattr a a0 a"
  unfolding p_sattr_def e_sattr_def
  by (rule rb_eq, (rule rb_cons rb_membr rb_long rb_timeval rb_nil)+, simp)

lemma rb_fsok: "reads_back p_fsok e_fsok a a0 a"
  unfolding p_fsok_def e_fsok_def
  by (rule rb_eq, (rule rb_cons rb_membr rb_long rb_nil)+, simp)

definition fh_ok :: "fhandle \<Rightarrow> bool" where "fh_ok fh = (length fh = 32)"
definition dirop_ok :: "nfsdiropargs \<Rightarrow> bool" where "dirop_ok a = (fh_ok (da_fhandle a) \<and> cstring (da_name a))"

lemma fh0_ok: "fh_ok fh0"
  by (simp add: fh_ok_def fh0_def)

lemma rb_fh: "fh_ok fh \<Longrightarrow> fh_ok f0 \<Longrightarrow> reads_back p_fhandle e_fhandle fh f0 fh"
  by (simp add: fh_ok_def rb_fhandle)

lemma rb_name: "cstring p \<Longrightarrow> q = None \<Longrightarrow> reads_back (p_string m) (e_string m) p q p"
  by (simp add: rb_string)

lemma rb_data: "counted (fst v) (snd v) \<Longrightarrow> fst v0 = None \<Longrightarrow> reads_back (p_bytes m) (e_bytes m) v v0 v"
  using rb_bytes[of "fst v" "snd v" m "snd v0"] by (cases v0) simp

lemmas rb_rules = rb_cons rb_nil rb_membr rb_fld rb_fh rb_name rb_data rb_long rb_timeval rb_fattr rb_sattr rb_fsok

definition dirop_new :: "nfsdiropargs \<Rightarrow> bool" where "dirop_new a = (fh_ok (da_fhandle a) \<and> da_name a = None)"

lemma rb_diropargs: "dirop_ok a \<Longrightarrow> dirop_new a0 \<Longrightarrow> reads_back p_diropargs e_diropargs a a0 a"
  unfolding p_diropargs_def e_diropargs_def
  by (rule rb_eq, (rule rb_rules | simp add: dirop_ok_def dirop_new_def)+)

lemma rb_readargs: "fh_ok (ra_fhandle a) \<Longrightarrow> fh_ok (ra_fhandle a0) \<Longrightarrow> reads_back p_readargs e_readargs a a0 a"
  unfolding p_readargs_def e_readargs_def by (rule rb_eq, (rule rb_rules | simp)+)

lemma rb_rddirargs: "fh_ok (rda_fh a) \<Longrightarrow> fh_ok (rda_fh a0) \<Longrightarrow> reads_back p_rddirargs e_rddirargs a a0 a"
  unfolding p_rddirargs_def e_rddirargs_def by (rule rb_eq, (rule rb_rules | simp)+)

lemma rb_writeargs:
  "fh_ok (wa_fhandle a) \<Longrightarrow> counted (wa_data a) (wa_count a) \<Longrightarrow> fh_ok (wa_fhandle a0) \<Longrightarrow> wa_data a0 = None \<Longrightarrow>
   reads_back p_writeargs e_writeargs a a0 a"
  unfolding p_writeargs_def e_writeargs_def by (rule rb_eq, (rule rb_rules | simp)+)

lemma rb_saargs: "fh_ok (saa_fh a) \<Longrightarrow> fh_ok (saa_fh a0) \<Longrightarrow> reads_back p_saargs e_saargs a a0 a"
  unfolding p_saargs_def e_saargs_def by (rule rb_eq, (rule rb_rules | simp)+)

lemma rb_creatargs: "dirop_ok (ca_da a) \<Longrightarrow> dirop_new (ca_da a0) \<Longrightarrow> reads_back p_creatargs e_creatargs a a0 a"
  unfolding p_creatargs_def e_creatargs_def by (rule rb_eq, (rule rb_rules rb_diropargs | simp)+)

lemma rb_linkargs:
  "fh_ok (la_from a) \<Longrightarrow> dirop_ok (la_to a) \<Longrightarrow> fh_ok (la_from a0) \<Longrightarrow> dirop_new (la_to a0) \<Longrightarrow>
   reads_back p_linkargs e_linkargs a a0 a"
  unfolding p_linkargs_def e_linkargs_def by (rule rb_eq, (rule rb_rules rb_diropargs | simp)+)

lemma rb_rnmargs:
  "dirop_ok (rna_from a) \<Longrightarrow> dirop_ok (rna_to a) \<Longrightarrow> dirop_new (rna_from a0) \<Longrightarrow> dirop_new (rna_to a0) \<Longrightarrow>
   reads_back p_rnmargs e_rnmargs a a0 a"
  unfolding p_rnmargs_def e_rnmargs_def by (rule rb_eq, (rule rb_rules rb_diropargs | simp)+)

lemma rb_slargs:
  "dirop_ok (sla_from a) \<Longrightarrow> cstring (sla_tnm a) \<Longrightarrow> dirop_new (sla_from a0) \<Longrightarrow> sla_tnm a0 = None \<Longrightarrow>
   reads_back p_slargs e_slargs a a0 a"
  unfolding p_slargs_def e_slargs_def by (rule rb_eq, (rule rb_rules rb_diropargs | simp)+)

lemma rb_drok: "fh_ok (drok_fhandle a) \<Longrightarrow> fh_ok (drok_fhandle a0) \<Longrightarrow> reads_back p_drok e_drok a a0 a"
  unfolding p_drok_def e_drok_def by (rule rb_eq, (rule rb_rules | simp)+)

lemma rb_srok: "counted (srok_data a) (srok_count a) \<Longrightarrow> srok_data a0 = None \<Longrightarrow> reads_back p_srok e_srok a a0 a"
  unfolding p_srok_def e_srok_def by (rule rb_eq, (rule rb_rules | simp)+)

section \<open>Encoders and parsers of the table\<close>

text \<open>The reference formats of the arguments of the 18 procedures.\<close>

definition p_nfsargs :: "nat \<Rightarrow> rfsargs parser" where
  "p_nfsargs n = [p_void, p_membr p_fhandle rfa_fh rfa_fh_update, p_membr p_saargs rfa_sa rfa_sa_update, p_void,
     p_membr p_diropargs rfa_dirop rfa_dirop_update, p_membr p_fhandle rfa_fh rfa_fh_update,
     p_membr p_readargs rfa_read rfa_read_update, p_void, p_membr p_writeargs rfa_write rfa_write_update,
     p_membr p_creatargs rfa_creat rfa_creat_update, p_membr p_diropargs rfa_dirop rfa_dirop_update,
     p_membr p_rnmargs rfa_rnm rfa_rnm_update, p_membr p_linkargs rfa_link rfa_link_update,
     p_membr p_slargs rfa_sl rfa_sl_update, p_membr p_creatargs rfa_creat rfa_creat_update,
     p_membr p_diropargs rfa_dirop rfa_dirop_update, p_membr p_rddirargs rfa_rddir rfa_rddir_update,
     p_membr p_fhandle rfa_fh rfa_fh_update] ! n"

definition e_nfsargs :: "nat \<Rightarrow> rfsargs encoder" where
  "e_nfsargs n = [e_void, e_fld e_fhandle rfa_fh, e_fld e_saargs rfa_sa, e_void, e_fld e_diropargs rfa_dirop,
     e_fld e_fhandle rfa_fh, e_fld e_readargs rfa_read, e_void, e_fld e_writeargs rfa_write, e_fld e_creatargs rfa_creat,
     e_fld e_diropargs rfa_dirop, e_fld e_rnmargs rfa_rnm, e_fld e_linkargs rfa_link, e_fld e_slargs rfa_sl,
     e_fld e_creatargs rfa_creat, e_fld e_diropargs rfa_dirop, e_fld e_rddirargs rfa_rddir, e_fld e_fhandle rfa_fh] ! n"

text \<open>Arguments a client can mean: handles of 32 bytes, names that are C strings, data as long as it says.\<close>

definition args_ok :: "rfsargs \<Rightarrow> bool" where
  "args_ok a =
     (fh_ok (rfa_fh a) \<and> fh_ok (saa_fh (rfa_sa a)) \<and> dirop_ok (rfa_dirop a) \<and> fh_ok (ra_fhandle (rfa_read a)) \<and>
      fh_ok (wa_fhandle (rfa_write a)) \<and> counted (wa_data (rfa_write a)) (wa_count (rfa_write a)) \<and>
      dirop_ok (ca_da (rfa_creat a)) \<and> dirop_ok (rna_from (rfa_rnm a)) \<and> dirop_ok (rna_to (rfa_rnm a)) \<and>
      fh_ok (la_from (rfa_link a)) \<and> dirop_ok (la_to (rfa_link a)) \<and> dirop_ok (sla_from (rfa_sl a)) \<and>
      cstring (sla_tnm (rfa_sl a)) \<and> fh_ok (rda_fh (rfa_rddir a)))"

text \<open>The arguments as procedure \<open>n\<close> takes them, in a space otherwise zero.\<close>

definition args_for :: "nat \<Rightarrow> rfsargs \<Rightarrow> rfsargs" where
  "args_for n a = [args0, args0\<lparr>rfa_fh := rfa_fh a\<rparr>, args0\<lparr>rfa_sa := rfa_sa a\<rparr>, args0, args0\<lparr>rfa_dirop := rfa_dirop a\<rparr>,
     args0\<lparr>rfa_fh := rfa_fh a\<rparr>, args0\<lparr>rfa_read := rfa_read a\<rparr>, args0, args0\<lparr>rfa_write := rfa_write a\<rparr>,
     args0\<lparr>rfa_creat := rfa_creat a\<rparr>, args0\<lparr>rfa_dirop := rfa_dirop a\<rparr>, args0\<lparr>rfa_rnm := rfa_rnm a\<rparr>,
     args0\<lparr>rfa_link := rfa_link a\<rparr>, args0\<lparr>rfa_sl := rfa_sl a\<rparr>, args0\<lparr>rfa_creat := rfa_creat a\<rparr>,
     args0\<lparr>rfa_dirop := rfa_dirop a\<rparr>, args0\<lparr>rfa_rddir := rfa_rddir a\<rparr>, args0\<lparr>rfa_fh := rfa_fh a\<rparr>] ! n"

lemma proc_all [consumes 1]:
  assumes "n < RFS_NPROC" "P 0 \<and> P 1 \<and> list_all P [2..<18]"
  shows "P n"
proof -
  have "n = 0 \<or> n = 1 \<or> n \<in> set [2..<18]"
    using assms(1) by (auto simp: RFS_NPROC_def simp del: upt_rec_numeral)
  then show ?thesis using assms(2) by (auto simp: list_all_iff simp del: upt_rec_numeral)
qed

lemma args0_new: "fh_ok (rfa_fh args0)" "fh_ok (saa_fh (rfa_sa args0))" "dirop_new (rfa_dirop args0)"
  "fh_ok (ra_fhandle (rfa_read args0))" "fh_ok (wa_fhandle (rfa_write args0))" "wa_data (rfa_write args0) = None"
  "dirop_new (ca_da (rfa_creat args0))" "dirop_new (rna_from (rfa_rnm args0))" "dirop_new (rna_to (rfa_rnm args0))"
  "fh_ok (la_from (rfa_link args0))" "dirop_new (la_to (rfa_link args0))" "dirop_new (sla_from (rfa_sl args0))"
  "sla_tnm (rfa_sl args0) = None" "fh_ok (rda_fh (rfa_rddir args0))"
  by (simp_all add: args0_def fh0_ok dirop0_def dirop_new_def)

lemma rb_args:
  assumes n: "n < RFS_NPROC" and ok: "args_ok a"
  shows "reads_back (p_nfsargs n) (e_nfsargs n) a args0 (args_for n a)"
proof -
  note ok' = ok[unfolded args_ok_def]
  show ?thesis using n
    by (induction n rule: proc_all)
      (simp add: p_nfsargs_def e_nfsargs_def args_for_def rb_void rb_membr rb_fh rb_saargs rb_diropargs rb_readargs
        rb_writeargs rb_creatargs rb_rnmargs rb_linkargs rb_slargs rb_rddirargs args0_new ok')
qed

text \<open>The results, all but those of a directory read.\<close>

definition p_nfsres :: "nat \<Rightarrow> rfsres parser" where
  "p_nfsres n = (let attr = p_membr p_attrstat rfr_attr rfr_attr_update;
       dirres = p_membr p_diropres rfr_dirop rfr_dirop_update; stat = p_membr p_long rfr_stat rfr_stat_update in
     [p_void, attr, attr, p_void, dirres, p_membr p_rdlnres rfr_rdln rfr_rdln_update,
      p_membr p_rdresult rfr_read rfr_read_update, p_void, attr, dirres, stat, stat, stat, stat, dirres, stat, p_void,
      p_membr p_statfs rfr_statfs rfr_statfs_update] ! n)"

definition e_nfsres :: "nat \<Rightarrow> rfsres encoder" where
  "e_nfsres n = (let attr = e_fld e_attrstat rfr_attr; dirres = e_fld e_diropres rfr_dirop; stat = e_fld e_long rfr_stat in
     [e_void, attr, attr, e_void, dirres, e_fld e_rdlnres rfr_rdln, e_fld e_rdresult rfr_read, e_void, attr, dirres,
      stat, stat, stat, stat, dirres, stat, e_void, e_fld e_statfs rfr_statfs] ! n)"

definition res_ok :: "rfsres \<Rightarrow> bool" where
  "res_ok r =
     ((dr_status (rfr_dirop r) = NFS_OK \<longrightarrow> fh_ok (drok_fhandle (dr_drok (rfr_dirop r)))) \<and>
      (rl_status (rfr_rdln r) = NFS_OK \<longrightarrow> counted (srok_data (rl_srok (rfr_rdln r))) (srok_count (rl_srok (rfr_rdln r)))) \<and>
      rrok_bp (rr_ok (rfr_read r)) = 0 \<and>
      (rr_status (rfr_read r) = NFS_OK \<longrightarrow> counted (rrok_data (rr_ok (rfr_read r))) (rrok_count (rr_ok (rfr_read r)))))"

text \<open>
  What arrives: the status, and what it says is there; the rest of the space stays zero. The buffer and
  vnode pointers of a read result do not travel.
\<close>

definition got_ok :: "32 word \<Rightarrow> 'a \<Rightarrow> 'a \<Rightarrow> 'a" where
  "got_ok st v v0 = (if st = NFS_OK then v else v0)"

definition res_for :: "nat \<Rightarrow> rfsres \<Rightarrow> rfsres" where
  "res_for n r =
     (let a = rfr_attr r; d = rfr_dirop r; l = rfr_rdln r; k = rfr_read r; f = rfr_statfs r;
          attr = res0\<lparr>rfr_attr := \<lparr>ns_status = ns_status a, ns_attr = got_ok (ns_status a) (ns_attr a) fattr0\<rparr>\<rparr>;
          dirres = res0\<lparr>rfr_dirop := \<lparr>dr_status = dr_status d, dr_drok = got_ok (dr_status d) (dr_drok d) (dr_drok (rfr_dirop res0))\<rparr>\<rparr>;
          stat = res0\<lparr>rfr_stat := rfr_stat r\<rparr> in
      [res0, attr, attr, res0, dirres,
       res0\<lparr>rfr_rdln := \<lparr>rl_status = rl_status l, rl_srok = got_ok (rl_status l) (rl_srok l) (rl_srok (rfr_rdln res0))\<rparr>\<rparr>,
       res0\<lparr>rfr_read := \<lparr>rr_status = rr_status k, rr_ok = got_ok (rr_status k)
          ((rr_ok k)\<lparr>rrok_where := 0, rrok_bp := 0, rrok_vp := 0\<rparr>) (rr_ok (rfr_read res0))\<rparr>\<rparr>,
       res0, attr, dirres, stat, stat, stat, stat, dirres, stat, res0,
       res0\<lparr>rfr_statfs := \<lparr>fs_status = fs_status f, fs_fsok = got_ok (fs_status f) (fs_fsok f) (fs_fsok (rfr_statfs res0))\<rparr>\<rparr>] ! n)"

lemma rb_rrok:
  assumes "counted (rrok_data k) (rrok_count k)" "rrok_data k0 = None"
  shows "reads_back p_rrok e_rrok k k0 (k\<lparr>rrok_where := rrok_where k0, rrok_bp := rrok_bp k0, rrok_vp := rrok_vp k0\<rparr>)"
  unfolding p_rrok_def e_rrok_def
  by (rule rb_eq, (rule rb_rules | simp add: assms)+)

lemma rb_okfld:
  assumes "fst (get r) = NFS_OK \<Longrightarrow> reads_back P E (snd (get r)) (snd (get r0)) u'"
  shows "reads_back (p_fld (p_okunion P) get put) (e_fld (e_okunion E) get) r r0
    (put (fst (get r), got_ok (fst (get r)) u' (snd (get r0))) r0)"
proof (rule rb_fld)
  have "reads_back (p_okunion P) (e_okunion E) (fst (get r), snd (get r)) (fst (get r0), snd (get r0))
      (fst (get r), got_ok (fst (get r)) u' (snd (get r0)))"
    by (rule rb_okunion) (use assms in \<open>auto simp: got_ok_def\<close>)
  then show "reads_back (p_okunion P) (e_okunion E) (get r) (get r0) (fst (get r), got_ok (fst (get r)) u' (snd (get r0)))"
    by simp
qed

lemma rb_attrstat:
  "reads_back p_attrstat e_attrstat a a0 \<lparr>ns_status = ns_status a, ns_attr = got_ok (ns_status a) (ns_attr a) (ns_attr a0)\<rparr>"
  unfolding p_attrstat_def e_attrstat_def by (rule rb_eq, rule rb_okfld, rule rb_fattr, simp)

lemma rb_statfs:
  "reads_back p_statfs e_statfs f f0 \<lparr>fs_status = fs_status f, fs_fsok = got_ok (fs_status f) (fs_fsok f) (fs_fsok f0)\<rparr>"
  unfolding p_statfs_def e_statfs_def by (rule rb_eq, rule rb_okfld, rule rb_fsok, simp)

lemma rb_diropres:
  assumes "dr_status d = NFS_OK \<longrightarrow> fh_ok (drok_fhandle (dr_drok d))" "fh_ok (drok_fhandle (dr_drok d0))"
  shows "reads_back p_diropres e_diropres d d0 \<lparr>dr_status = dr_status d, dr_drok = got_ok (dr_status d) (dr_drok d) (dr_drok d0)\<rparr>"
  unfolding p_diropres_def e_diropres_def by (rule rb_eq, rule rb_okfld, rule rb_drok) (use assms in simp_all)

lemma rb_rdlnres:
  assumes "rl_status l = NFS_OK \<longrightarrow> counted (srok_data (rl_srok l)) (srok_count (rl_srok l))" "srok_data (rl_srok l0) = None"
  shows "reads_back p_rdlnres e_rdlnres l l0 \<lparr>rl_status = rl_status l, rl_srok = got_ok (rl_status l) (rl_srok l) (rl_srok l0)\<rparr>"
  unfolding p_rdlnres_def e_rdlnres_def by (rule rb_eq, rule rb_okfld, rule rb_srok) (use assms in simp_all)

lemma rb_rdresult:
  assumes "rr_status k = NFS_OK \<longrightarrow> counted (rrok_data (rr_ok k)) (rrok_count (rr_ok k))" "rrok_data (rr_ok k0) = None"
  shows "reads_back p_rdresult e_rdresult k k0 \<lparr>rr_status = rr_status k, rr_ok = got_ok (rr_status k)
     ((rr_ok k)\<lparr>rrok_where := rrok_where (rr_ok k0), rrok_bp := rrok_bp (rr_ok k0), rrok_vp := rrok_vp (rr_ok k0)\<rparr>) (rr_ok k0)\<rparr>"
  unfolding p_rdresult_def e_rdresult_def by (rule rb_eq, rule rb_okfld, rule rb_rrok) (use assms in simp_all)

lemma rb_res:
  assumes n: "n < RFS_NPROC" "n \<noteq> RFS_READDIR" and ok: "res_ok r"
  shows "reads_back (p_nfsres n) (e_nfsres n) r res0 (res_for n r)"
proof -
  note ok' = ok[unfolded res_ok_def]
  have z: "ns_attr (rfr_attr res0) = fattr0" "fh_ok (drok_fhandle (dr_drok (rfr_dirop res0)))"
    "srok_data (rl_srok (rfr_rdln res0)) = None" "rrok_data (rr_ok (rfr_read res0)) = None"
    "rrok_where (rr_ok (rfr_read res0)) = 0" "rrok_bp (rr_ok (rfr_read res0)) = 0" "rrok_vp (rr_ok (rfr_read res0)) = 0"
    by (simp_all add: res0_def fh0_ok)
  note rb = rb_attrstat[of "rfr_attr r" "rfr_attr res0"] rb_statfs[of "rfr_statfs r" "rfr_statfs res0"]
    rb_diropres[of "rfr_dirop r" "rfr_dirop res0"] rb_rdlnres[of "rfr_rdln r" "rfr_rdln res0"]
    rb_rdresult[of "rfr_read r" "rfr_read res0"]
  have m: "reads_back P E (get r) (get res0) a \<Longrightarrow> upd (\<lambda>_. a) res0 = r' \<Longrightarrow> reads_back (p_membr P get upd) (e_fld E get) r res0 r'"
    for P E get a upd and r' :: rfsres
    using rb_membr[of P E get r res0 a upd] by simp
  show ?thesis using n
    by (induction n rule: proc_all)
      (use rb ok' in \<open>simp add: RFS_READDIR_def p_nfsres_def e_nfsres_def res_for_def Let_def rb_void z m[OF rb_long] m\<close>)
qed

section \<open>The table implements the formats\<close>

lemma cstring_bound: "cstring p \<Longrightarrow> strlen (bytes_at p) < 2 ^ 32"
  using cstring_strlen[of p] by auto

context xdr_decoder
begin

lemma decodes_table:
  assumes "n < RFS_NPROC"
  shows "decodes good inp (dis_xdrargs (rfsdisptab env ! n)) (p_nfsargs n)"
    "n \<noteq> RFS_READDIR \<Longrightarrow> decodes good inp (dis_xdrres (rfsdisptab env ! n)) (p_nfsres n)"
  using assms
  by (induction n rule: proc_all; simp add: RFS_READDIR_def rfsdisptab_def p_nfsargs_def p_nfsres_def Let_def decodes_membr decodesI[OF parses_void]
      decodesI[OF parses_fhandle] decodes_saargs decodes_diropargs decodes_readargs decodes_writeargs decodes_creatargs
      decodes_rnmargs decodes_linkargs decodes_slargs decodes_rddirargs decodes_results decodesI[OF parses_enum])+

end

context xdr_encoder
begin

lemma encodes_table:
  assumes n: "n < RFS_NPROC" and ok: "args_ok a"
  shows "encodes good out room (dis_xdrargs (rfsdisptab env ! n)) (e_nfsargs n) a"
proof -
  have s: "strlen (bytes_at (da_name (rfa_dirop a))) < 2 ^ 32" "strlen (bytes_at (da_name (ca_da (rfa_creat a)))) < 2 ^ 32"
    "strlen (bytes_at (da_name (rna_from (rfa_rnm a)))) < 2 ^ 32" "strlen (bytes_at (da_name (rna_to (rfa_rnm a)))) < 2 ^ 32"
    "strlen (bytes_at (da_name (la_to (rfa_link a)))) < 2 ^ 32" "strlen (bytes_at (da_name (sla_from (rfa_sl a)))) < 2 ^ 32"
    "strlen (bytes_at (sla_tnm (rfa_sl a))) < 2 ^ 32"
    using ok unfolding args_ok_def dirop_ok_def by (simp_all only: cstring_bound)
  note e = encodes_void encodes_membr encodes_fhandle encodes_saargs encodes_diropargs[OF s(1)]
    encodes_readargs encodes_writeargs encodes_creatargs[OF s(2)] encodes_rnmargs[OF s(3,4)] encodes_linkargs[OF s(5)]
    encodes_slargs[OF s(6,7)] encodes_rddirargs
  show ?thesis using n
    by (induction n rule: proc_all) (simp add: rfsdisptab_def e_nfsargs_def Let_def e)
qed

lemma encodes_table_res:
  assumes n: "n < RFS_NPROC" "n \<noteq> RFS_READDIR" and ok: "res_ok r"
  shows "encodes good out room (dis_xdrres (rfsdisptab env ! n)) (e_nfsres n) r"
proof -
  have bp: "rrok_bp (rr_ok (rfr_read r)) = 0" using ok by (simp add: res_ok_def)
  note e = encodes_void encodes_membr encodes_results(2-5) encodes_results(1)[OF bp] encodes_enum
  show ?thesis using n
    by (induction n rule: proc_all) (simp add: RFS_READDIR_def rfsdisptab_def e_nfsres_def Let_def e)
qed

end

text \<open>Both streams at once.\<close>

lemma table_reading:
  assumes n: "n < RFS_NPROC" and x: "reading x i" "4 dvd length i"
  shows "case p_nfsargs n i v of None \<Rightarrow> \<not> fst (dis_xdrargs (rfsdisptab env ! n) x v)
    | Some (v', r) \<Rightarrow> \<exists>x'. dis_xdrargs (rfsdisptab env ! n) x v = (True, v', x') \<and> reading x' r \<and> 4 dvd length r"
  by (rule reading_parses[OF decodesD[OF memdec.decodes_table(1)] decodesD[OF mbufdec.decodes_table(1)] x]) (rule n)+

lemma table_reading_res:
  assumes n: "n < RFS_NPROC" "n \<noteq> RFS_READDIR" and x: "reading x i" "4 dvd length i"
  shows "case p_nfsres n i v of None \<Rightarrow> \<not> fst (dis_xdrres (rfsdisptab env ! n) x v)
    | Some (v', r) \<Rightarrow> \<exists>x'. dis_xdrres (rfsdisptab env ! n) x v = (True, v', x') \<and> reading x' r \<and> 4 dvd length r"
  by (rule reading_parses[OF decodesD[OF memdec.decodes_table(2)] decodesD[OF mbufdec.decodes_table(2)] x]) (rule n)+

lemma table_writing:
  assumes n: "n < RFS_NPROC" and a: "args_ok a" and x: "writing x out r" "4 dvd r"
  shows "case e_nfsargs n a of None \<Rightarrow> \<not> fst (dis_xdrargs (rfsdisptab env ! n) x a)
    | Some w \<Rightarrow> if length w \<le> r
        then \<exists>x'. dis_xdrargs (rfsdisptab env ! n) x a = (True, a, x') \<and> writing x' (out @ w) (r - length w)
        else \<not> fst (dis_xdrargs (rfsdisptab env ! n) x a)"
  by (rule writing_encodes[OF memenc.encodes_table[OF n a] mbufenc.encodes_table[OF n a] x])

lemma table_writing_res:
  assumes n: "n < RFS_NPROC" "n \<noteq> RFS_READDIR" and a: "res_ok v" and x: "writing x out r" "4 dvd r"
  shows "case e_nfsres n v of None \<Rightarrow> \<not> fst (dis_xdrres (rfsdisptab env ! n) x v)
    | Some w \<Rightarrow> if length w \<le> r
        then \<exists>x'. dis_xdrres (rfsdisptab env ! n) x v = (True, v, x') \<and> writing x' (out @ w) (r - length w)
        else \<not> fst (dis_xdrres (rfsdisptab env ! n) x v)"
  by (rule writing_encodes[OF memenc.encodes_table_res[OF n a] mbufenc.encodes_table_res[OF n a] x])

end
