(* ===== verification/Nfs_Dir.thy ===== *)
theory Nfs_Dir
  imports Nfs_Args
begin

text \<open>
  The reply to a directory read: what a buffer of \<open>struct direct\<close> records lists, the entries the
  server sends of it, and the records the client makes of a reply.
\<close>

section \<open>Records in memory\<close>

lemma length_be16 [simp]: "length (be16 w) = 2"
  by (simp add: be16_def)

lemma un_be16_be16 [simp]: "un_be16 (be16 w) = w"
proof -
  have "bit (un_be16 (be16 w)) n = bit w n" if "n < 16" for n
    using that by (auto simp: un_be16_def be16_def bit_simps)
  then show ?thesis by (intro bit_word_eqI) simp
qed

lemma wrmem_into:
  assumes "k + length cs \<le> length bs" "length bs \<le> 2 ^ 32"
  shows "wrmem (wrmem m p bs) (p + of_nat k) cs = wrmem m p (take k bs @ cs @ drop (k + length cs) bs)"
proof
  fix a
  define d where "d = unat (a - p)"
  have a: "a = p + of_nat d" by (simp add: d_def)
  have d: "d < 2 ^ 32" unfolding d_def using unsigned_less[of "a - p"] by simp
  have l: "k + length cs \<le> 2 ^ 32" using assms by simp
  have r: "wrmem m p (take k bs @ cs @ drop (k + length cs) bs) a =
      (if d < length bs then (take k bs @ cs @ drop (k + length cs) bs) ! d else m a)"
    using assms by (simp add: wrmem_def d_def[symmetric])
  have q: "wrmem m p bs a = (if d < length bs then bs ! d else m a)" by (simp add: wrmem_def d_def[symmetric])
  consider "d < k" | "k \<le> d" "d < k + length cs" | "k + length cs \<le> d" by linarith
  then show "wrmem (wrmem m p bs) (p + of_nat k) cs a = wrmem m p (take k bs @ cs @ drop (k + length cs) bs) a"
  proof cases
    case 1
    then have "wrmem (wrmem m p bs) (p + of_nat k) cs a = wrmem m p bs a" unfolding a by (rule wrmem_below[OF _ l])
    then show ?thesis unfolding r q using 1 assms(1) by (simp add: nth_append)
  next
    case 2
    then have "wrmem (wrmem m p bs) (p + of_nat k) cs a = cs ! (d - k)" unfolding a by (rule wrmem_at[OF _ _ l])
    moreover have "d - k < length cs" using 2 by linarith
    ultimately show ?thesis unfolding r using 2 assms(1) by (simp add: nth_append)
  next
    case 3
    then have "wrmem (wrmem m p bs) (p + of_nat k) cs a = wrmem m p bs a" unfolding a by (rule wrmem_above[OF _ d])
    moreover have "\<not> d < k" "\<not> d - k < length cs" using 3 by linarith+
    ultimately show ?thesis unfolding r q using 3 assms(1) by (simp add: nth_append)
  qed
qed

lemma rdmem_inside:
  assumes "k + n \<le> length bs" "length bs \<le> 2 ^ 32"
  shows "rdmem (wrmem m p bs) (p + of_nat k) n = take n (drop k bs)"
proof -
  have "rdmem (wrmem m p bs) (p + of_nat k) n = take n (drop k (rdmem (wrmem m p bs) p (length bs)))"
    using assms(1) by (simp add: drop_rdmem take_rdmem)
  then show ?thesis by (simp add: rdmem_wrmem_same[OF assms(2)])
qed

text \<open>A whole record: file number, length, name and its null.\<close>

definition rec_bytes :: "32 word \<Rightarrow> 16 word \<Rightarrow> 16 word \<Rightarrow> byte list \<Rightarrow> byte list" where
  "rec_bytes f rl nl nm = be32 f @ be16 rl @ be16 nl @ nm"

lemma rec_fields:
  assumes "rdmem m dp (8 + length nm) = rec_bytes f rl nl nm"
  shows "d_fileno m dp = f" "d_reclen m dp = rl" "d_namlen m dp = nl" "d_name m dp (length nm) = nm"
proof -
  have r: "rdmem m (dp + of_nat k) n = take n (drop k (rec_bytes f rl nl nm))" if "k + n \<le> 8 + length nm" for k n
    using that by (simp add: assms[symmetric] drop_rdmem take_rdmem)
  show "d_fileno m dp = f" using r[of 0 4] by (simp add: d_fileno_def rec_bytes_def)
  show "d_reclen m dp = rl" using r[of 4 2] by (simp add: d_reclen_def rec_bytes_def)
  show "d_namlen m dp = nl" using r[of 6 2] by (simp add: d_namlen_def rec_bytes_def)
  show "d_name m dp (length nm) = nm" using r[of 8 "length nm"] by (simp add: d_name_def rec_bytes_def)
qed

text \<open>The stores of one turn of the client's loop make one record.\<close>

lemma rec_written:
  assumes n: "length nm = unat nl"
  shows "set_name dp (unat nl) [0] (set_reclen dp rl (set_name dp 0 nm (set_namlen dp nl (set_fileno dp f m))))
    = wrmem m dp (rec_bytes f rl nl (nm @ [0]))"
proof -
  have nl: "unat nl < 65536" using unsigned_less[of nl] by simp
  define r1 r2 r3 r4 where "r1 = rdmem m (dp + 4) 2" and "r2 = rdmem m (dp + 6) 2" and "r3 = rdmem m (dp + 8) (unat nl)"
    and "r4 = rdmem m (dp + 8 + of_nat (unat nl)) 1"
  have len: "length r1 = 2" "length r2 = 2" "length r3 = unat nl" "length r4 = 1"
    by (simp_all add: r1_def r2_def r3_def r4_def)
  have "rdmem m dp (9 + unat nl) = rdmem m dp 4 @ r1 @ r2 @ r3 @ r4"
    using rdmem_add[of m dp 4 "5 + unat nl"] rdmem_add[of m "dp + 4" 2 "3 + unat nl"]
      rdmem_add[of m "dp + 6" 2 "1 + unat nl"] rdmem_add[of m "dp + 8" "unat nl" 1]
    by (simp add: r1_def r2_def r3_def r4_def add.assoc add.commute numeral_eq_Suc)
  then have m: "m = wrmem m dp (rdmem m dp 4 @ r1 @ r2 @ r3 @ r4)" by (metis wrmem_rdmem)
  have w: "wrmem (wrmem m dp bs) (dp + of_nat k) cs = wrmem m dp (take k bs @ cs @ drop (k + length cs) bs)"
    if "length bs = 9 + unat nl" "k + length cs \<le> 9 + unat nl" for bs cs k
    using that nl by (intro wrmem_into) simp_all
  have s1: "set_fileno dp f m = wrmem m dp (be32 f @ r1 @ r2 @ r3 @ r4)"
    using w[of "rdmem m dp 4 @ r1 @ r2 @ r3 @ r4" 0 "be32 f"] len m by (simp add: set_fileno_def)
  have s2: "set_namlen dp nl (set_fileno dp f m) = wrmem m dp (be32 f @ r1 @ be16 nl @ r3 @ r4)"
    using w[of "be32 f @ r1 @ r2 @ r3 @ r4" 6 "be16 nl"] len by (simp add: s1 set_namlen_def)
  have s3: "set_name dp 0 nm (set_namlen dp nl (set_fileno dp f m)) = wrmem m dp (be32 f @ r1 @ be16 nl @ nm @ r4)"
    using w[of "be32 f @ r1 @ be16 nl @ r3 @ r4" 8 nm] len n by (simp add: s2 set_name_def)
  have s4: "set_reclen dp rl (set_name dp 0 nm (set_namlen dp nl (set_fileno dp f m)))
      = wrmem m dp (be32 f @ be16 rl @ be16 nl @ nm @ r4)"
    using w[of "be32 f @ r1 @ be16 nl @ nm @ r4" 4 "be16 rl"] len n by (simp add: s3 set_reclen_def)
  show ?thesis unfolding s4
    using w[of "be32 f @ be16 rl @ be16 nl @ nm @ r4" "8 + unat nl" "[0]"] len n
    by (simp add: set_name_def rec_bytes_def add.assoc)
qed

section \<open>What a buffer lists\<close>

text \<open>
  The records from \<open>dp\<close> on, \<open>siz\<close> bytes of them: file numbers and names, when every record is as long
  as its name needs; \<open>live\<close> leaves out the free ones.
\<close>

function dir_walk :: "memory \<Rightarrow> addr \<Rightarrow> int \<Rightarrow> (32 word \<times> byte list) list option" where
  "dir_walk m dp siz =
     (if siz > 0 then
        (if d_reclen m dp = 0 \<or> DIRSIZ m dp > unat (d_reclen m dp) then None
         else map_option (Cons (d_fileno m dp, d_name m dp (unat (d_namlen m dp))))
                (dir_walk m (nextdp m dp) (siz - uint (d_reclen m dp))))
      else Some [])"
  by pat_completeness auto

termination
  by (relation "measure (\<lambda>(m, dp, siz). nat siz)") (auto simp: uint_pos)

declare dir_walk.simps [simp del]

definition live :: "(32 word \<times> byte list) list \<Rightarrow> (32 word \<times> byte list) list" where
  "live es = filter (\<lambda>(f, nm). f \<noteq> 0) es"

text \<open>An entry on the wire, with the offset behind it.\<close>

type_synonym dent = "32 word \<times> byte list \<times> 32 word"

definition dent_wire :: "dent \<Rightarrow> byte list" where
  "dent_wire = (\<lambda>(f, nm, off). be32 1 @ be32 f @ be32 (of_nat (length nm)) @ nm @ replicate (padlen (length nm)) 0 @ be32 off)"

definition dent_len :: "byte list \<Rightarrow> nat" where
  "dent_len nm = 16 + (length nm + padlen (length nm))"

lemma length_dent_wire: "length (dent_wire (f, nm, off)) = dent_len nm"
  by (simp add: dent_wire_def dent_len_def)

lemma dent_len_dvd: "4 dvd dent_len nm"
  using padlen_dvd[of "length nm"] by (simp add: dent_len_def)

definition dents_wire :: "dent list \<Rightarrow> byte list" where
  "dents_wire es = concat (map dent_wire es)"

text \<open>
  The entries the server sends: the live ones in order, until \<open>b\<close> bytes are reached, \<open>p\<close> being the
  bytes sent already; and whether it stopped for that.
\<close>

fun put_dents :: "nat \<Rightarrow> nat \<Rightarrow> 32 word \<Rightarrow> (32 word \<times> byte list) list \<Rightarrow> dent list \<times> bool" where
  "put_dents b p off [] = ([], False)"
| "put_dents b p off ((f, nm) # es) =
     (let off1 = off + 16; p1 = p + dent_len nm in
      if f = 0 then put_dents b p off1 es
      else if b \<le> p1 then ([(f, nm, off1)], True)
      else (let (l, s) = put_dents b p1 off1 es in ((f, nm, off1) # l, s)))"

text \<open>The whole reply to a read that went well.\<close>

definition dirres_wire :: "dent list \<Rightarrow> 32 word \<Rightarrow> byte list" where
  "dirres_wire l eof = be32 NFS_OK @ dents_wire l @ be32 0 @ be32 (if eof \<noteq> 0 then 1 else 0)"

section \<open>The server's loop\<close>

definition dirent_of :: "32 word \<Rightarrow> byte list \<Rightarrow> 32 word \<Rightarrow> dirent" where
  "dirent_of f nm off = \<lparr>de_valid = 1, de_fileno = f, de_name = Some nm, de_namlen = of_nat (length nm), de_offset = off\<rparr>"

definition e_dirent :: "dirent encoder" where
  "e_dirent = e_seqs
     [e_fld (\<lambda>v. e_long (if v \<noteq> 0 then 1 else 0)) de_valid, e_fld e_long de_fileno,
      e_fld (e_bytes NFS_MAXNAMLEN) (\<lambda>e. (de_name e, de_namlen e)), e_fld e_long de_offset]"

lemma e_dirent_wire: "length nm \<le> 255 \<Longrightarrow> e_dirent (dirent_of f nm off) = Some (dent_wire (f, nm, off))"
  by (simp add: e_dirent_def e_seqs_def e_seq_def e_fld_def e_void_def e_long_def dirent_of_def e_bytes_def
      NFS_MAXNAMLEN_def dent_wire_def bytes_at_def word_less_nat_alt unat_of_nat)

text \<open>One turn of the loop, for the record at \<open>dp\<close>.\<close>

lemma putdir_turn:
  assumes "siz > 0" "d_reclen m dp \<noteq> 0" "DIRSIZ m dp \<le> unat (d_reclen m dp)"
  shows "putdir_loop m bufsize xdrpos x dp siz off eof =
    (if d_fileno m dp = 0
     then putdir_loop m bufsize xdrpos x (nextdp m dp) (siz - uint (d_reclen m dp)) (off + 16) eof
     else
       (let (ok, e, x1) = put_dirent x (dirent_of (d_fileno m dp) (d_name m dp (unat (d_namlen m dp))) (off + 16)) in
        if \<not> ok then (False, eof, x1)
        else if XDR_GETPOS x1 - xdrpos \<ge> bufsize then (True, 0, x1)
        else putdir_loop m bufsize xdrpos x1 (nextdp m dp) (siz - uint (d_reclen m dp)) (off + 16) eof))"
proof -
  have l: "length (d_name m dp k) = k" for k by (simp add: d_name_def)
  show ?thesis using assms
    by (subst putdir_loop.simps) (simp add: dirent_of_def l sizeof_svfsdirect_def Let_def not_less)
qed

context xdr_encoder
begin

lemma encodes_dirent: "encodes good out room put_dirent e_dirent v"
  unfolding put_dirent_def e_dirent_def
  by (rule encodes_seqps) (simp add: encodes_structs encodes_bool encodes_bytes_fld[OF nfs_bounds(2)])

end

text \<open>Streams whose position is the number of bytes written.\<close>

locale xdr_positioned = xdr_encoder +
  assumes getpos_out: "good x \<Longrightarrow> XDR_GETPOS x = of_nat (length (out x))"
begin

lemma putdir_loop_run:
  assumes "dir_walk m dp siz = Some es" "\<forall>(f, nm) \<in> set es. length nm \<le> 255"
    and "put_dents (unat bufsize) p off es = (l, s)" "length (dents_wire l) \<le> room x"
    and "good x" "4 dvd room x" "length (out x) = p0 + p" "unat bufsize < 2 ^ 31" "p \<le> unat bufsize"
  shows "\<exists>x'. putdir_loop m bufsize (of_nat p0) x dp siz off eof = (True, if s then 0 else eof, x') \<and> good x' \<and>
    out x' = out x @ dents_wire l \<and> room x' + length (dents_wire l) = room x \<and> 4 dvd room x'"
  using assms
proof (induction m dp siz arbitrary: es p off l x rule: dir_walk.induct)
  case (1 m dp siz)
  show ?case
  proof (cases "siz > 0")
    case False
    then show ?thesis using "1.prems" by (auto simp: dir_walk.simps[of m dp siz] putdir_loop.simps[of m _ _ _ dp siz] dents_wire_def)
  next
    case True
    define f nm rl where "f = d_fileno m dp" and "nm = d_name m dp (unat (d_namlen m dp))" and "rl = d_reclen m dp"
    from True "1.prems"(1) have R: "rl \<noteq> 0" "DIRSIZ m dp \<le> unat rl"
      by (auto simp: dir_walk.simps[of m dp siz] rl_def split: if_splits)
    then have bad: "\<not> (d_reclen m dp = 0 \<or> unat (d_reclen m dp) < DIRSIZ m dp)" by (auto simp: rl_def)
    from True "1.prems"(1) R obtain es' where es': "dir_walk m (nextdp m dp) (siz - uint rl) = Some es'" "es = (f, nm) # es'"
      by (auto simp: dir_walk.simps[of m dp siz] rl_def f_def nm_def)
    note IH = "1.IH"[OF True bad]
    have nm: "length nm \<le> 255" and names: "\<forall>(f, nm) \<in> set es'. length nm \<le> 255" using "1.prems"(2) es'(2) by auto
    note turn = putdir_turn[OF True R(1)[unfolded rl_def] R(2)[unfolded rl_def], of bufsize "of_nat p0" x off eof,
        folded f_def nm_def rl_def]
    show ?thesis
    proof (cases "f = 0")
      case f0: True
      have "put_dents (unat bufsize) p (off + 16) es' = (l, s)"
        using "1.prems"(3) f0 by (simp add: es'(2) Let_def)
      from IH[OF es'(1)[unfolded rl_def] names this "1.prems"(4-9)] f0 show ?thesis
        by (simp add: turn rl_def)
    next
      case f1: False
      define e where "e = dirent_of f nm (off + 16)"
      obtain l' where l: "l = (f, nm, off + 16) # l'"
        using "1.prems"(3) f1 by (auto simp: es'(2) Let_def split: if_splits prod.splits)
      have wire: "e_dirent e = Some (dent_wire (f, nm, off + 16))" using nm by (simp add: e_def e_dirent_wire)
      have fits: "length (dent_wire (f, nm, off + 16)) \<le> room x" using "1.prems"(4) by (simp add: l dents_wire_def)
      obtain x1 where x1: "put_dirent x e = (True, e, x1)" "good x1" "out x1 = out x @ dent_wire (f, nm, off + 16)"
        "room x1 + length (dent_wire (f, nm, off + 16)) = room x" "4 dvd room x1"
        by (rule encodes_Some[OF encodes_dirent "1.prems"(5,6) wire fits])
      define p1 where "p1 = p + dent_len nm"
      have pad: "dent_len nm \<le> 274" using nm padlen_less[of "length nm"] by (simp add: dent_len_def)
      have len: "length (out x1) = p0 + p1" using "1.prems"(7) by (simp add: x1(3) length_dent_wire p1_def)
      have "p1 < 2 ^ 32" using "1.prems"(8,9) pad by (simp add: p1_def)
      then have "unat (XDR_GETPOS x1 - of_nat p0) = p1" by (simp add: getpos_out[OF x1(2)] len unat_of_nat)
      then have stop: "XDR_GETPOS x1 - of_nat p0 \<ge> bufsize \<longleftrightarrow> unat bufsize \<le> p1" by (simp add: word_le_nat_alt)
      show ?thesis
      proof (cases "unat bufsize \<le> p1")
        case full: True
        then have "l' = []" "s" using "1.prems"(3) f1 by (auto simp: es'(2) l Let_def p1_def)
        with x1 f1 full stop show ?thesis by (simp add: turn e_def l dents_wire_def)
      next
        case more: False
        then have "put_dents (unat bufsize) p1 (off + 16) es' = (l', s)"
          using "1.prems"(3) f1 by (auto simp: es'(2) l Let_def p1_def split: prod.splits)
        moreover have "length (dents_wire l') \<le> room x1" using "1.prems"(4) x1(4) by (simp add: l dents_wire_def)
        ultimately obtain x' where "putdir_loop m bufsize (of_nat p0) x1 (nextdp m dp) (siz - uint rl) (off + 16) eof =
            (True, if s then 0 else eof, x')" "good x'" "out x' = out x1 @ dents_wire l'"
          "room x' + length (dents_wire l') = room x1" "4 dvd room x'"
          using IH[OF es'(1)[unfolded rl_def] names _ _ x1(2,5) len "1.prems"(8)] more unfolding rl_def by force
        with x1 f1 more stop show ?thesis by (auto simp: turn e_def l dents_wire_def)
      qed
    qed
  qed
qed

lemma putrddir_run:
  assumes st: "rd_status rd = NFS_OK" and x: "good x" "4 dvd room x" and b: "unat (rd_bufsize rd) < 2 ^ 31"
    and es: "dir_walk (rd_entries rd) 0 (sint (rd_size rd)) = Some es" "\<forall>(f, nm) \<in> set es. length nm \<le> 255"
    and l: "put_dents (unat (rd_bufsize rd)) 0 (rd_offset rd) es = (l, s)"
    and fits: "length (dirres_wire l eof) \<le> room x" and eof: "eof = (if s then 0 else rd_eof rd)"
  shows "\<exists>x'. xdr_putrddirres x rd = (True, rd\<lparr>rd_eof := eof\<rparr>, x') \<and> good x' \<and>
    out x' = out x @ dirres_wire l eof \<and> room x' + length (dirres_wire l eof) = room x"
proof -
  have fits': "12 + length (dents_wire l) \<le> room x" using fits by (simp add: dirres_wire_def)
  have "length (be32 NFS_OK) \<le> room x" using fits' by simp
  from encodes_Some[OF encodes_enum[of NFS_OK] x _ this] obtain x1 where x1: "xdr_enum x NFS_OK = (True, NFS_OK, x1)"
    "good x1" "out x1 = out x @ be32 NFS_OK" "room x1 + 4 = room x" "4 dvd room x1" by (auto simp: e_long_def)
  have len: "length (out x1) = length (out x1) + 0" by simp
  have room1: "length (dents_wire l) \<le> room x1" using fits' x1(4) by simp
  obtain x2 where x2: "putdir_loop (rd_entries rd) (rd_bufsize rd) (XDR_GETPOS x1) x1 0 (sint (rd_size rd)) (rd_offset rd)
      (rd_eof rd) = (True, eof, x2)" "good x2" "out x2 = out x1 @ dents_wire l"
    "room x2 + length (dents_wire l) = room x1" "4 dvd room x2"
    using putdir_loop_run[OF es l room1 x1(2,5) len b, of "rd_eof rd"]
    unfolding getpos_out[OF x1(2)] eof by auto
  have "length (be32 0) \<le> room x2" using fits' x1(4) x2(4) by simp
  from encodes_Some[OF encodes_bool[of 0] x2(2,5) _ this] obtain x3 where x3: "xdr_bool x2 0 = (True, 0, x3)"
    "good x3" "out x3 = out x2 @ be32 0" "room x3 + 4 = room x2" "4 dvd room x3" by (auto simp: e_long_def)
  have "length (be32 (if eof \<noteq> 0 then 1 else 0)) \<le> room x3" using fits' x1(4) x2(4) x3(4) by simp
  from encodes_Some[OF encodes_bool[of eof] x3(2,5) _ this] obtain x4 where x4: "xdr_bool x3 eof = (True, eof, x4)"
    "good x4" "out x4 = out x3 @ be32 (if eof \<noteq> 0 then 1 else 0)" "room x4 + 4 = room x3" by (auto simp: e_long_def)
  have "xdr_putrddirres x rd = (True, rd\<lparr>rd_eof := eof\<rparr>, x4)"
    using x1(1) x2(1) x3(1) x4(1) enc_op[OF x(1)] st
    by (simp add: xdr_putrddirres_def Let_def membr_def fld_def)
  moreover have "out x4 = out x @ dirres_wire l eof" using x1(3) x2(3) x3(3) x4(3) by (simp add: dirres_wire_def)
  moreover have "room x4 + length (dirres_wire l eof) = room x"
    using x1(4) x2(4) x3(4) x4(4) by (simp add: dirres_wire_def)
  ultimately show ?thesis using x4(2) by blast
qed

end

text \<open>A flat buffer always is such a stream; an mbuf chain as long as it is one mbuf.\<close>

interpretation mempos: xdr_positioned memenc_good mem_out mem_room
  by unfold_locales (simp add: memenc_good_def XDR_GETPOS_def xdrmem_getpos_def mem_out_def)

definition mbuf1_good :: "xdr \<Rightarrow> bool" where
  "mbuf1_good x = (mbufenc_good x \<and> x_past x = [] \<and> tl (x_chain x) = [])"

lemma mbuf1_chain: "mbuf1_good x \<Longrightarrow> \<exists>m. x_chain x = [m]"
  by (metis list.collapse mbuf1_good_def mbufenc_good_def)

lemma mbuf1_stays:
  assumes "mbuf1_good x" "mbufenc_good x'" "x_past x' = x_past x" "x_chain x' = x_chain x"
  shows "mbuf1_good x'"
  using assms by (simp add: mbuf1_good_def)

lemma mbuf1_putlong: "\<lbrakk>mbuf1_good x; XDR_PUTLONG x v = (True, x')\<rbrakk> \<Longrightarrow> x_past x' = x_past x \<and> x_chain x' = x_chain x"
  using mbuf1_chain[of x]
  by (auto simp: mbuf1_good_def mbufenc_good_def XDR_PUTLONG_def xdrmbuf_putlong_def Let_def split: if_splits)

lemma mbuf1_putbytes: "\<lbrakk>mbuf1_good x; XDR_PUTBYTES x bs = (True, x')\<rbrakk> \<Longrightarrow> x_past x' = x_past x \<and> x_chain x' = x_chain x"
  using mbuf1_chain[of x]
  by (auto simp: mbuf1_good_def mbufenc_good_def XDR_PUTBYTES_def xdrmbuf_putbytes_def xdrmbuf_put_loop.simps Let_def
      split: if_splits prod.splits)

lemma mbuf1_inline: "\<lbrakk>mbuf1_good x; XDR_INLINE x n = (b, x')\<rbrakk> \<Longrightarrow> x_past x' = x_past x \<and> x_chain x' = x_chain x"
  by (auto simp: mbuf1_good_def mbufenc_good_def XDR_INLINE_def xdrmbuf_inline_def split: if_splits)

interpretation mbuf1pos: xdr_positioned mbuf1_good mbuf_out mbuf_room
proof unfold_locales
  fix x assume "mbuf1_good x"
  then show "x_op x = XDR_ENCODE" using mbufenc.enc_op by (simp add: mbuf1_good_def)
next
  fix x v assume g: "mbuf1_good x" and r: "4 dvd mbuf_room x" "4 \<le> mbuf_room x"
  with mbufenc.putlong_ok[of x v] mbuf1_putlong[OF g, of v]
  show "\<exists>x'. XDR_PUTLONG x v = (True, x') \<and> mbuf1_good x' \<and> mbuf_out x' = mbuf_out x @ be32 v \<and> mbuf_room x' + 4 = mbuf_room x"
    by (auto simp: mbuf1_good_def)
next
  fix x v assume "mbuf1_good x" "mbuf_room x < 4"
  then show "\<not> fst (XDR_PUTLONG x v)" using mbufenc.putlong_full by (simp add: mbuf1_good_def)
next
  fix x and bs :: "byte list" assume g: "mbuf1_good x" and r: "length bs \<le> mbuf_room x" "length bs < 2 ^ 31"
  with mbufenc.putbytes_ok[of x bs] mbuf1_putbytes[OF g, of bs]
  show "\<exists>x'. XDR_PUTBYTES x bs = (True, x') \<and> mbuf1_good x' \<and> mbuf_out x' = mbuf_out x @ bs
      \<and> mbuf_room x' + length bs = mbuf_room x"
    by (auto simp: mbuf1_good_def)
next
  fix x and bs :: "byte list" assume "mbuf1_good x" "mbuf_room x < length bs" "length bs < 2 ^ 31"
  then show "\<not> fst (XDR_PUTBYTES x bs)" using mbufenc.putbytes_full by (simp add: mbuf1_good_def)
next
  fix x b x' m and n :: "32 word"
  assume g: "mbuf1_good x" and i: "XDR_INLINE x n = (Some b, x')" and n: "unat n < 2 ^ 31"
    and m: "\<And>a. unat n \<le> unat (a - b) \<Longrightarrow> m a = x_mem x' a"
  have "mbufenc_good x" using g by (simp add: mbuf1_good_def)
  from mbufenc.inline_some[OF this i n m] mbuf1_inline[OF g i] g
  show "unat n \<le> mbuf_room x \<and> mbuf1_good (x'\<lparr>x_mem := m\<rparr>)
      \<and> mbuf_out (x'\<lparr>x_mem := m\<rparr>) = mbuf_out x @ rdmem m b (unat n) \<and> mbuf_room (x'\<lparr>x_mem := m\<rparr>) + unat n = mbuf_room x"
    by (simp add: mbuf1_good_def)
next
  fix x x' and n :: "32 word" assume "mbuf1_good x" "XDR_INLINE x n = (None, x')"
  then show "x' = x" using mbufenc.inline_none by (simp add: mbuf1_good_def)
next
  fix x assume "mbuf1_good x"
  then show "XDR_GETPOS x = of_nat (length (mbuf_out x))"
    by (simp add: mbuf1_good_def mbufenc_good_def XDR_GETPOS_def xdrmbuf_getpos_def mbuf_out_def)
qed

end
