(* ===== verification/Nfs_Dirget.thy ===== *)
theory Nfs_Dirget
  imports Nfs_Dir
begin

text \<open>
  The client's side of a directory read: what it accepts as a reply, and the records it leaves in the
  caller's buffer.
\<close>

section \<open>What a reply lists\<close>

text \<open>One entry behind its flag, with \<open>siz\<close> bytes left: file number, name, offset and the rest.\<close>

definition p_dirent :: "int \<Rightarrow> byte list \<Rightarrow> (32 word \<times> byte list \<times> 32 word \<times> byte list) option" where
  "p_dirent siz inp =
     (if length inp < 8 then None
      else
        (let nl = ucast (un_be32 (take 4 (drop 4 inp))) :: 16 word; r = drop 8 inp; k = unat nl + padlen (unat nl) in
         if reclen nl > word_of_int siz \<or> length r < k + 4 then None
         else Some (un_be32 (take 4 inp), take (unat nl) r, un_be32 (take 4 (drop k r)), drop (k + 4) r)))"

lemma p_dirent_shorter: "p_dirent siz inp = Some (f, nm, off, r) \<Longrightarrow> length r < length inp"
  by (auto simp: p_dirent_def Let_def split: if_splits)

definition rec_len :: "byte list \<Rightarrow> nat" where
  "rec_len nm = unat (reclen (of_nat (length nm)))"

function p_dents :: "int \<Rightarrow> 32 word \<Rightarrow> byte list \<Rightarrow> ((32 word \<times> byte list) list \<times> 32 word \<times> byte list) option" where
  "p_dents siz off inp =
     (if length inp < 4 then None
      else if un_be32 (take 4 inp) = 0 then Some ([], off, drop 4 inp)
      else (case p_dirent siz (drop 4 inp) of
              None \<Rightarrow> None
            | Some (f, nm, off1, r) \<Rightarrow>
                if siz - int (rec_len nm) \<le> 0 then None
                else map_option (\<lambda>(es, o1, r1). ((f, nm) # es, o1, r1)) (p_dents (siz - int (rec_len nm)) off1 r)))"
  by pat_completeness auto

termination
  by (relation "measure (\<lambda>(siz, off, inp). length inp)") (auto dest!: p_dirent_shorter)

declare p_dents.simps [simp del]

definition recs_len :: "(32 word \<times> byte list) list \<Rightarrow> nat" where
  "recs_len es = (\<Sum>(f, nm) \<leftarrow> es. rec_len nm)"

lemma recs_len_simps [simp]: "recs_len [] = 0" "recs_len ((f, nm) # es) = rec_len nm + recs_len es"
  by (simp_all add: recs_len_def)

definition p_rddirres ::
    "int \<Rightarrow> byte list \<Rightarrow> (32 word \<times> ((32 word \<times> byte list) list \<times> 32 word \<times> 32 word) option \<times> byte list) option" where
  "p_rddirres siz inp =
     (case p_long inp 0 of None \<Rightarrow> None
      | Some (st, r) \<Rightarrow>
          if st \<noteq> NFS_OK then Some (st, None, r)
          else (case p_dents siz (- 1) r of None \<Rightarrow> None
                | Some (es, off, r1) \<Rightarrow>
                    (case p_bool r1 0 of None \<Rightarrow> None | Some (eof, r2) \<Rightarrow> Some (st, Some (es, off, eof), r2))))"

text \<open>The length of a record: room for the name and its null, a multiple of four.\<close>

lemma word_and_not3: "unat (w AND NOT 3 :: 32 word) = unat w div 4 * 4"
proof -
  have m: "(3 :: 32 word) = mask 2" by (simp add: mask_eq_exp_minus_1)
  have "w AND NOT 3 = push_bit 2 (drop_bit 2 w)"
    unfolding m by (rule bit_word_eqI) (auto simp: bit_simps not_less dest!: le_Suc_ex)
  moreover have "unat (push_bit 2 (drop_bit 2 w)) = unat w div 4 * 4"
  proof -
    have "unat w div 4 * 4 < 2 ^ 32" using unsigned_less[of w, where 'a = nat] by (simp add: less_mult_imp_div_less)
    then show ?thesis by (simp only: unsigned_push_bit_eq unsigned_drop_bit_eq) (simp add: push_bit_eq_mult drop_bit_eq_div take_bit_eq_mod)
  qed
  ultimately show ?thesis by simp
qed
lemma unat_ushort: "unat (ucast (nl :: 16 word) :: 32 word) = unat nl"
proof -
  have "unat nl < 2 ^ 32" using unsigned_less[of nl, where 'a = nat] by simp
  then show ?thesis by (simp add: unsigned_ucast_eq take_bit_nat_eq_self)
qed
lemma reclen_unat: "unat (reclen nl) = (unat nl + 13) div 4 * 4"
proof -
  have nl: "unat nl < 65536" using unsigned_less[of nl] by simp
  have "unat (ucast nl + 13 :: 32 word) = unat nl + 13"
    using nl by (simp add: unat_word_ariths unat_ushort)
  then show ?thesis using word_and_not3[of "ucast nl + 13"] by (simp add: reclen_def roundtoint_def add.commute)
qed

lemma rec_len: "length nm < 65536 \<Longrightarrow> rec_len nm = (length nm + 13) div 4 * 4"
  by (simp add: rec_len_def reclen_unat unat_of_nat)

lemma reclen_le:
  assumes "0 \<le> siz" "siz < 2 ^ 31"
  shows "reclen nl > word_of_int siz \<longleftrightarrow> siz < int (unat (reclen nl))"
proof -
  obtain k where k: "siz = int k" using assms(1) by (metis nonneg_int_cases)
  then have u: "unat (word_of_int siz :: 32 word) = k" using assms(2) by (simp add: unat_of_nat)
  show ?thesis by (simp only: word_less_nat_alt u) (simp only: k of_nat_less_iff)
qed

text \<open>A good entry leaves its record inside the room there is.\<close>

lemma p_dirent_room:
  assumes "p_dirent siz inp = Some (f, nm, off, r)" "0 \<le> siz" "siz < 65536"
  shows "length nm < 65536" "8 + (length nm + 1) \<le> rec_len nm" "int (rec_len nm) \<le> siz" "rec_len nm < 65536"
proof -
  define nl where "nl = (ucast (un_be32 (take 4 (drop 4 inp))) :: 16 word)"
  have "unat nl < 65536" using unsigned_less[of nl, where 'a = nat] by simp
  moreover have n: "length nm = unat nl" "\<not> reclen nl > word_of_int siz"
    using assms(1) by (auto simp: p_dirent_def Let_def nl_def[symmetric] split: if_splits)
  ultimately show l: "length nm < 65536" by simp
  have "of_nat (length nm) = nl" by (simp add: n(1))
  then have "int (rec_len nm) \<le> siz" using n(2) assms(2,3) by (simp add: rec_len_def reclen_le)
  with rec_len[OF l] assms(3) show "8 + (length nm + 1) \<le> rec_len nm" "int (rec_len nm) \<le> siz" "rec_len nm < 65536"
    by presburger+
qed

section \<open>The loop of the client\<close>

lemma wrmem_range:
  assumes "unat a < k \<or> k + length bs \<le> unat a" "k + length bs \<le> 2 ^ 32"
  shows "wrmem m (of_nat k) bs a = m a"
proof -
  have a: "a = 0 + of_nat (unat a)" by simp
  have l: "unat a < 2 ^ 32" using unsigned_less[of a, where 'a = nat] by simp
  from assms(1) show ?thesis
    using wrmem_below[of "unat a" k bs m 0] wrmem_above[of k bs "unat a" m 0] assms(2) l by auto
qed

text \<open>What the stores of one turn leave: the record, whose length leads to the next.\<close>

lemma rec_turn:
  fixes dp :: addr and m :: memory and f :: "32 word"
  assumes n: "length nm = unat nl"
  defines "m1 \<equiv> set_name dp 0 nm (set_namlen dp nl (set_fileno dp f m))"
  shows "d_namlen m1 dp = nl" "d_namlen (set_reclen dp rl m1) dp = nl"
    "set_name dp (unat nl) [0] (set_reclen dp rl m1) = wrmem m dp (rec_bytes f rl nl (nm @ [0]))"
proof -
  have n16: "length nm < 65536" using n unsigned_less[of nl, where 'a = nat] by simp
  have l: "8 + length nm \<le> 2 ^ 32" using n16 by simp
  have "rdmem (wrmem (set_namlen dp nl (set_fileno dp f m)) (dp + of_nat 8) nm) (dp + 6) 2
      = rdmem (set_namlen dp nl (set_fileno dp f m)) (dp + 6) 2"
  proof (rule rdmem_cong)
    fix i :: nat assume "i < 2"
    then show "wrmem (set_namlen dp nl (set_fileno dp f m)) (dp + of_nat 8) nm (dp + 6 + of_nat i)
        = set_namlen dp nl (set_fileno dp f m) (dp + 6 + of_nat i)"
      using wrmem_below[OF _ l, of "6 + i" _ dp] by (simp add: add.assoc)
  qed
  then have r: "rdmem m1 (dp + 6) 2 = be16 nl"
    using rdmem_wrmem_same[of "be16 nl" "set_fileno dp f m" "dp + 6"] by (simp add: m1_def set_name_def set_namlen_def)
  then show "d_namlen m1 dp = nl" by (simp add: d_namlen_def)
  have "rdmem (set_reclen dp rl m1) (dp + 6) 2 = rdmem m1 (dp + 6) 2"
    unfolding set_reclen_def
  proof (rule rdmem_cong)
    fix i :: nat assume "i < 2"
    then show "wrmem m1 (dp + 4) (be16 rl) (dp + 6 + of_nat i) = m1 (dp + 6 + of_nat i)"
      using wrmem_above[of 4 "be16 rl" "6 + i" m1 dp] by (simp add: add.assoc)
  qed
  then show "d_namlen (set_reclen dp rl m1) dp = nl" by (simp add: d_namlen_def r)
  show "set_name dp (unat nl) [0] (set_reclen dp rl m1) = wrmem m dp (rec_bytes f rl nl (nm @ [0]))"
    unfolding m1_def by (rule rec_written[OF n])
qed

lemma length_rec_bytes: "length (rec_bytes f rl nl nm) = 8 + length nm"
  by (simp add: rec_bytes_def)

text \<open>The record as the walk of the buffer reads it.\<close>

lemma walk_rec:
  assumes m: "\<And>a. unat a < d + rec_len nm \<Longrightarrow> m' a = wrmem m (of_nat d) (rec_bytes f (of_nat (rec_len nm)) (of_nat (length nm)) (nm @ [0])) a"
    and d: "d + rec_len nm < 131072" and nm: "8 + (length nm + 1) \<le> rec_len nm" "length nm < 65536" "rec_len nm < 65536"
    and rest: "dir_walk m' (of_nat (d + rec_len nm)) siz = Some es" and siz: "0 \<le> siz"
  shows "dir_walk m' (of_nat d) (int (rec_len nm) + siz) = Some ((f, nm) # es)"
proof -
  let ?b = "rec_bytes f (of_nat (rec_len nm)) (of_nat (length nm)) (nm @ [0])"
  have "rdmem m' (of_nat d) (9 + length nm) = rdmem (wrmem m (of_nat d) ?b) (of_nat d) (length ?b)"
    unfolding length_rec_bytes
  proof (simp, rule rdmem_cong)
    fix i assume "i < 9 + length nm"
    then have i: "d + i < d + rec_len nm" using nm(1) by simp
    then have "unat (of_nat (d + i) :: addr) = d + i" using d by (simp only: unat_of_nat) simp
    then show "m' (of_nat d + of_nat i) = wrmem m (of_nat d) ?b (of_nat d + of_nat i)" using i m[of "of_nat (d + i)"] by simp
  qed
  also have "\<dots> = ?b" by (rule rdmem_wrmem_same) (use nm(2) in \<open>simp add: length_rec_bytes\<close>)
  finally have "take (8 + length nm) (rdmem m' (of_nat d) (9 + length nm)) = take (8 + length nm) ?b" by simp
  then have "rdmem m' (of_nat d) (8 + length nm) = rec_bytes f (of_nat (rec_len nm)) (of_nat (length nm)) nm"
    by (simp add: take_rdmem) (simp add: rec_bytes_def)
  note r = rec_fields[OF this]
  have u: "unat (of_nat (rec_len nm) :: 16 word) = rec_len nm" "unat (of_nat (length nm) :: 16 word) = length nm"
    using nm by (simp_all add: unat_of_nat)
  have z: "(of_nat (rec_len nm) :: 16 word) \<noteq> 0" using u(1) nm(1) by auto
  have i: "uint (of_nat (rec_len nm) :: 16 word) = int (rec_len nm)" by (metis u(1) of_nat_unat)
  have n: "nextdp m' (of_nat d) = of_nat (d + rec_len nm)"
    by (simp add: nextdp_def r(2)) (metis u(1) of_nat_unat)
  have s: "DIRSIZ m' (of_nat d) \<le> rec_len nm"
    using nm(1) by (simp add: DIRSIZ_def sizeof_direct_def MAXNAMLEN_def r(3) u(2))
  show ?thesis
    using siz z s nm(1) rest r
    by (subst dir_walk.simps) (simp add: u i n not_less)
qed

definition outside :: "nat \<Rightarrow> nat \<Rightarrow> memory \<Rightarrow> memory \<Rightarrow> bool" where
  "outside d k m m' = (\<forall>a. unat a < d \<or> d + k \<le> unat a \<longrightarrow> m' a = m a)"

text \<open>What a reply leaves: the entries as records at the start of the buffer, and nothing else changed in it.\<close>

definition got_dir ::
    "nfsrddirres \<Rightarrow> 32 word \<Rightarrow> (32 word \<times> byte list) list \<Rightarrow> 32 word \<Rightarrow> 32 word \<Rightarrow> nfsrddirres \<Rightarrow> bool" where
  "got_dir rd st es off eof rd' =
     (rd_status rd' = st \<and> rd_bufsize rd' = rd_bufsize rd \<and> rd_offset rd' = off \<and> rd_eof rd' = eof \<and>
      sint (rd_size rd') = int (recs_len es) \<and> recs_len es < nat (sint (rd_size rd)) \<and>
      dir_walk (rd_entries rd') 0 (sint (rd_size rd')) = Some es \<and>
      outside 0 (recs_len es) (rd_entries rd) (rd_entries rd'))"

text \<open>A stream that never hands over more bytes than it was asked for.\<close>

locale xdr_careful = xdr_decoder +
  assumes getbytes_len: "\<lbrakk>good x; unat n < 2 ^ 31\<rbrakk> \<Longrightarrow> length (fst (snd (XDR_GETBYTES x n))) \<le> unat n"
begin

lemma opaque_len:
  assumes "good x" "length cp = unat n" "unat n < 2 ^ 31"
  shows "length (fst (snd (xdr_opaque x cp n))) = unat n"
  using getbytes_len[OF assms(1,3)] dec_op[OF assms(1)] assms(2)
  by (auto simp: xdr_opaque_def wrbuf_def Let_def split: prod.splits)

lemma parses_good:
  assumes "parses good inp p P v" "good x" "4 dvd length (inp x)" "p x v = (True, v', x')"
  shows "good x' \<and> 4 dvd length (inp x')"
  using parsesD[OF assms(1-3)] assms(4) by (auto split: option.splits)

lemma get_dirent_some:
  assumes x: "good x" "4 dvd length (inp x)" and p: "p_dirent siz (inp x) = Some (f, nm, o1, r)"
  shows "\<exists>x'. get_dirent x m dp siz off =
      (True, set_name dp 0 nm (set_namlen dp (of_nat (length nm)) (set_fileno dp f m)), o1, x') \<and>
    good x' \<and> inp x' = r \<and> 4 dvd length r"
proof -
  define nl where "nl = (ucast (un_be32 (take 4 (drop 4 (inp x)))) :: 16 word)"
  define k where "k = unat nl + padlen (unat nl)"
  from p have long: "\<not> length (inp x) < 8" "\<not> reclen nl > word_of_int siz" "\<not> length (drop 8 (inp x)) < k + 4"
    and res: "f = un_be32 (take 4 (inp x))" "nm = take (unat nl) (drop 8 (inp x))"
      "o1 = un_be32 (take 4 (drop k (drop 8 (inp x))))" "r = drop (k + 4) (drop 8 (inp x))"
    by (auto simp: p_dirent_def Let_def nl_def[symmetric] k_def[symmetric] split: if_splits)
  have n16: "unat nl < 65536" using unsigned_less[of nl, where 'a = nat] by simp
  have "p_long (inp x) (d_fileno m dp) = Some (f, drop 4 (inp x))" using long(1) by (simp add: p_long_def res(1))
  from parses_Some[OF parses_u_long x this] obtain x1 where x1: "xdr_u_long x (d_fileno m dp) = (True, f, x1)" "good x1"
    "inp x1 = drop 4 (inp x)" "4 dvd length (inp x1)" by auto
  have "p_short (inp x1) (d_namlen (set_fileno dp f m) dp) = Some (nl, drop 8 (inp x))"
    using long(1) x1(3) by (simp add: p_short_def p_long_def nl_def)
  from parses_Some[OF parses_u_short x1(2,4) this] obtain x2 where x2:
    "xdr_u_short x1 (d_namlen (set_fileno dp f m) dp) = (True, nl, x2)" "good x2" "inp x2 = drop 8 (inp x)" "4 dvd length (inp x2)"
    by auto
  let ?m2 = "set_namlen dp nl (set_fileno dp f m)"
  have n31: "unat (ucast nl :: 32 word) < 2 ^ 31 - 4" using n16 by (simp add: unat_ushort)
  have lnm: "length nm = unat nl" using long(3) by (simp add: res(2) k_def)
  have "p_opaque (unat (ucast nl :: 32 word)) (inp x2) (d_name ?m2 dp (unat nl)) = Some (nm, drop k (drop 8 (inp x)))"
    using long(3) x2(3) lnm
    by (simp add: p_opaque_def unat_ushort k_def[symmetric] res(2)[symmetric] wrbuf_full d_name_def not_less)
  from opaque_some[OF x2(2) n31 x2(4) this] obtain x3 where x3:
    "xdr_opaque x2 (d_name ?m2 dp (unat nl)) (ucast nl) = (True, nm, x3)" "good x3" "inp x3 = drop k (drop 8 (inp x))"
    "4 dvd length (inp x3)" by auto
  have "p_long (inp x3) off = Some (o1, r)" using long(3) x3(3) by (simp add: p_long_def res(3,4) add.commute)
  from parses_Some[OF parses_u_long x3(2,4) this] obtain x4 where x4: "xdr_u_long x3 off = (True, o1, x4)" "good x4"
    "inp x4 = r" "4 dvd length r" by auto
  have "of_nat (length nm) = nl" by (simp add: lnm)
  with x1(1) x2(1) x3(1) x4 long(2) show ?thesis by (simp add: get_dirent_def Let_def)
qed

lemma get_dirent_none:
  assumes x: "good x" "4 dvd length (inp x)" and p: "p_dirent siz (inp x) = None"
  shows "\<not> fst (get_dirent x m dp siz off)"
proof
  assume ok: "fst (get_dirent x m dp siz off)"
  obtain f x1 where x1: "xdr_u_long x (d_fileno m dp) = (True, f, x1)"
    using ok by (auto simp: get_dirent_def Let_def split: prod.splits if_splits)
  have f: "4 \<le> length (inp x)" "inp x1 = drop 4 (inp x)"
    using parsesD[OF parses_u_long x, of "d_fileno m dp"] x1 by (auto simp: p_long_def split: if_splits)
  note g1 = parses_good[OF parses_u_long x x1]
  obtain nl x2 where x2: "xdr_u_short x1 (d_namlen (set_fileno dp f m) dp) = (True, nl, x2)"
    using ok x1 by (auto simp: get_dirent_def Let_def split: prod.splits if_splits)
  have nl: "8 \<le> length (inp x)" "nl = ucast (un_be32 (take 4 (drop 4 (inp x))))" "inp x2 = drop 8 (inp x)"
    using parsesD[OF parses_u_short g1[THEN conjunct1] g1[THEN conjunct2], of "d_namlen (set_fileno dp f m) dp"] x2 f
    by (auto simp: p_short_def p_long_def split: if_splits)
  note g2 = parses_good[OF parses_u_short g1[THEN conjunct1] g1[THEN conjunct2] x2]
  let ?cp = "d_name (set_namlen dp nl (set_fileno dp f m)) dp (unat nl)"
  have r: "\<not> reclen nl > word_of_int siz" using ok x1 x2 by (auto simp: get_dirent_def Let_def split: prod.splits if_splits)
  obtain nm x3 where x3: "xdr_opaque x2 ?cp (ucast nl) = (True, nm, x3)"
    using ok x1 x2 by (auto simp: get_dirent_def Let_def split: prod.splits if_splits)
  have n16: "unat nl < 65536" using unsigned_less[of nl, where 'a = nat] by simp
  then have n31: "unat (ucast nl :: 32 word) < 2 ^ 31 - 4" by (simp add: unat_ushort)
  obtain bs r3 where o: "p_opaque (unat nl) (inp x2) ?cp = Some (bs, r3)"
    using opaque_none[OF g2[THEN conjunct1] n31, of ?cp] x3 by (cases "p_opaque (unat nl) (inp x2) ?cp") (auto simp: unat_ushort)
  from opaque_some[OF g2[THEN conjunct1] n31 g2[THEN conjunct2], of ?cp bs r3] o x3
  have g3: "good x3" "inp x3 = r3" "4 dvd length (inp x3)" by (auto simp: unat_ushort)
  have k: "unat nl + padlen (unat nl) \<le> length (drop 8 (inp x))" "r3 = drop (unat nl + padlen (unat nl)) (drop 8 (inp x))"
    using o nl(3) by (auto simp: p_opaque_def split: if_splits)
  have "fst (xdr_u_long x3 off)"
    using ok x1 x2 x3 by (auto simp: get_dirent_def Let_def split: prod.splits if_splits)
  then have "4 \<le> length r3"
    using parsesD[OF parses_u_long g3(1,3), of off] g3(2) by (auto simp: p_long_def split: if_splits)
  then have "p_dirent siz (inp x) \<noteq> None"
    using nl k r by (auto simp: p_dirent_def Let_def)
  with p show False by simp
qed

text \<open>Whatever comes, an entry is written from its record on, and not past the room left or the eighth byte.\<close>

lemma get_dirent_frame:
  assumes x: "good x" "4 dvd length (inp x)" and siz: "0 \<le> siz" "siz < 65536" and d: "d < 131072"
    and a: "unat a < d \<or> d + 8 \<le> unat a \<and> d + nat siz \<le> unat a"
    and e: "get_dirent x m (of_nat d) siz off = (ok, m', o1, x')"
  shows "m' a = m a"
proof -
  have f: "set_fileno (of_nat d) v m a = m a" for v m unfolding set_fileno_def by (rule wrmem_range) (use a d in auto)
  have n: "set_namlen (of_nat d) v m a = m a" for v m
    using wrmem_range[of a "d + 6" "be16 v" m] a d by (auto simp: set_namlen_def add.commute)
  obtain ok1 f1 x1 where x1: "xdr_u_long x (d_fileno m (of_nat d)) = (ok1, f1, x1)" by (cases rule: prod_cases3) blast
  let ?m1 = "set_fileno (of_nat d) f1 m"
  obtain ok2 nl x2 where x2: "xdr_u_short x1 (d_namlen ?m1 (of_nat d)) = (ok2, nl, x2)" by (cases rule: prod_cases3) blast
  let ?m2 = "set_namlen (of_nat d) nl ?m1"
  obtain ok3 nm x3 where x3: "xdr_opaque x2 (d_name ?m2 (of_nat d) (unat nl)) (ucast nl) = (ok3, nm, x3)"
    by (cases rule: prod_cases3) blast
  consider "m' = ?m1" | "m' = ?m2" | "ok1" "ok2" "\<not> reclen nl > word_of_int siz" "m' = set_name (of_nat d) 0 nm ?m2"
    using e x1 x2 x3 by (auto simp: get_dirent_def Let_def split: prod.splits if_splits)
  then show ?thesis
  proof cases
    case 3
    have g1: "good x1 \<and> 4 dvd length (inp x1)" using parses_good[OF parses_u_long x] x1 3(1) by metis
    have g2: "good x2" using parses_good[OF parses_u_short g1[THEN conjunct1] g1[THEN conjunct2]] x2 3(2) by metis
    have n16: "unat nl < 65536" using unsigned_less[of nl, where 'a = nat] by simp
    have "length nm = unat nl"
      using opaque_len[OF g2, of "d_name ?m2 (of_nat d) (unat nl)" "ucast nl"] x3 n16 by (simp add: unat_ushort d_name_def)
    moreover have "int (unat nl + 9) \<le> siz"
    proof -
      have siz31: "siz < 2 ^ 31" using siz(2) by simp
      from 3(3) have "\<not> siz < int (unat (reclen nl))" unfolding reclen_le[OF siz(1) siz31] .
      then show ?thesis unfolding reclen_unat by presburger
    qed
    ultimately have "length nm + 9 \<le> nat siz" by linarith
    then have "set_name (of_nat d) 0 nm ?m2 a = ?m2 a"
      using wrmem_range[of a "d + 8" nm ?m2] a d siz by (auto simp: set_name_def add.commute)
    then show ?thesis using 3(4) f n by simp
  qed (simp_all add: f n)
qed

lemma outside_widen:
  assumes "outside d j m m3" "outside (d + j) c m3 m'" "j + c \<le> b"
  shows "outside d b m m'"
  unfolding outside_def
proof (intro allI impI)
  fix a :: addr assume "unat a < d \<or> d + b \<le> unat a"
  then have "unat a < d \<or> d + j \<le> unat a" "unat a < d + j \<or> d + j + c \<le> unat a" using assms(3) by auto
  then have "m3 a = m a" "m' a = m3 a" using assms(1,2) unfolding outside_def by blast+
  then show "m' a = m a" by simp
qed

text \<open>One turn on a good entry.\<close>

lemma getdir_entry:
  assumes x: "xdr_bool x 0 = (True, v, x1)" "v \<noteq> 0" "good x1" "4 dvd length (inp x1)"
    and p: "p_dirent siz (inp x1) = Some (f, nm, o1, r)" and siz: "0 < siz" "siz < 65536"
  shows "\<exists>x2. good x2 \<and> inp x2 = r \<and> 4 dvd length r \<and> getdir_loop (Suc k) x m (of_nat d) siz off =
    (let m3 = wrmem m (of_nat d) (rec_bytes f (of_nat (rec_len nm)) (of_nat (length nm)) (nm @ [0])) in
     if siz - int (rec_len nm) \<le> 0 then Some (False, m3, of_nat d, o1, x2)
     else getdir_loop k x2 m3 (of_nat (d + rec_len nm)) (siz - int (rec_len nm)) o1)"
proof -
  define nl where "nl = (of_nat (length nm) :: 16 word)"
  define rl where "rl = (ucast (reclen nl) :: 16 word)"
  have siz0: "0 \<le> siz" using siz(1) by simp
  note room = p_dirent_room[OF p siz0 siz(2)]
  have n: "length nm = unat nl" using room(1) by (simp add: nl_def unat_of_nat)
  have rl: "rl = of_nat (rec_len nm)" unfolding rl_def rec_len_def nl_def[symmetric] by simp
  have u: "unat rl = rec_len nm" using room(4) by (simp add: rl unat_of_nat)
  then have ui: "uint rl = int (rec_len nm)" by (metis of_nat_unat)
  define m1 where "m1 = set_name (of_nat d) 0 nm (set_namlen (of_nat d) nl (set_fileno (of_nat d) f m))"
  define m3 where "m3 = wrmem m (of_nat d) (rec_bytes f rl nl (nm @ [0]))"
  have t: "d_namlen m1 (of_nat d) = nl" "d_namlen (set_reclen (of_nat d) rl m1) (of_nat d) = nl"
    "set_name (of_nat d) (unat nl) [0] (set_reclen (of_nat d) rl m1) = m3"
    unfolding m1_def m3_def by (rule rec_turn[OF n])+
  have "rdmem m3 (of_nat d) (length (rec_bytes f rl nl (nm @ [0]))) = rec_bytes f rl nl (nm @ [0])"
    unfolding m3_def by (rule rdmem_wrmem_same) (use room(1) in \<open>simp add: length_rec_bytes\<close>)
  then have "rdmem m3 (of_nat d) (8 + length (nm @ [0])) = rec_bytes f rl nl (nm @ [0])" by (simp add: length_rec_bytes)
  note fields = rec_fields[OF this]
  have nx: "nextdp m3 (of_nat d) = of_nat (d + rec_len nm)"
    by (simp add: nextdp_def fields(2)) (metis of_nat_unat u)
  obtain x2 where x2: "get_dirent x1 m (of_nat d) siz off = (True, m1, o1, x2)" "good x2" "inp x2 = r" "4 dvd length r"
    using get_dirent_some[OF x(3,4) p, of m "of_nat d" off] by (auto simp: m1_def nl_def)
  have "getdir_loop (Suc k) x m (of_nat d) siz off =
    (if siz - int (rec_len nm) \<le> 0 then Some (False, m3, of_nat d, o1, x2)
     else getdir_loop k x2 m3 (of_nat (d + rec_len nm)) (siz - int (rec_len nm)) o1)"
    unfolding getdir_loop.simps(2) x(1) x2(1) Let_def split_conv t(1) rl_def[symmetric] t(2,3) fields(2) ui nx
    using x(2) by simp
  then show ?thesis using x2(2-4) unfolding m3_def Let_def rl nl_def by blast
qed

lemma getdir_loop_parses:
  assumes "good x" "4 dvd length (inp x)" "0 < siz" "siz < 65536" "nat siz < fuel" "d + nat siz < 131072"
  shows "case p_dents siz off (inp x) of
      None \<Rightarrow> \<exists>m' dp o' x'. getdir_loop fuel x m (of_nat d) siz off = Some (False, m', dp, o', x') \<and> outside d (nat siz + 7) m m'
    | Some (es, o1, r) \<Rightarrow>
        \<exists>m' x'. getdir_loop fuel x m (of_nat d) siz off = Some (True, m', of_nat (d + recs_len es), o1, x') \<and>
          good x' \<and> inp x' = r \<and> 4 dvd length r \<and> int (recs_len es) < siz \<and>
          dir_walk m' (of_nat d) (int (recs_len es)) = Some es \<and> outside d (recs_len es) m m'"
  using assms
proof (induction fuel arbitrary: x m d siz off)
  case 0
  then show ?case by simp
next
  case (Suc k)
  note x = Suc.prems(1,2) and siz = Suc.prems(3,4) and d = Suc.prems(6)
  show ?case
  proof (cases "length (inp x) < 4")
    case True
    then have "p_bool (inp x) 0 = None" by (simp add: p_bool_def p_long_def)
    from parses_None[OF parses_bool x this] obtain v x1 where "xdr_bool x 0 = (False, v, x1)" by (cases "xdr_bool x 0") auto
    moreover have "p_dents siz off (inp x) = None" using True by (simp add: p_dents.simps)
    ultimately show ?thesis by (simp add: getdir_loop.simps outside_def)
  next
    case lr: False
    define v where "v = (if un_be32 (take 4 (inp x)) = 0 then 0 else 1 :: 32 word)"
    have "p_bool (inp x) 0 = Some (v, drop 4 (inp x))" using lr by (simp add: p_bool_def p_long_def v_def)
    from parses_Some[OF parses_bool x this] obtain x1 where x1: "xdr_bool x 0 = (True, v, x1)" "good x1"
      "inp x1 = drop 4 (inp x)" "4 dvd length (inp x1)" by auto
    show ?thesis
    proof (cases "v = 0")
      case True
      then have "p_dents siz off (inp x) = Some ([], off, drop 4 (inp x))"
        using lr by (simp add: p_dents.simps v_def split: if_splits)
      then show ?thesis using True x1 siz
        by (simp add: getdir_loop.simps dir_walk.simps[of m "of_nat d" 0] outside_def)
    next
      case v: False
      then have nz: "un_be32 (take 4 (inp x)) \<noteq> 0" by (simp add: v_def split: if_splits)
      show ?thesis
      proof (cases "p_dirent siz (inp x1)")
        case None
        obtain m' o' x' where g: "get_dirent x1 m (of_nat d) siz off = (False, m', o', x')"
          using get_dirent_none[OF x1(2,4) None, of m "of_nat d" off] by (cases "get_dirent x1 m (of_nat d) siz off") auto
        have "outside d (nat siz + 7) m m'"
          unfolding outside_def
          using get_dirent_frame[OF x1(2,4) _ siz(2) _ _ g] siz d by auto
        moreover have "p_dents siz off (inp x) = None" using lr nz None x1(3) by (simp add: p_dents.simps)
        ultimately show ?thesis using x1(1) v g by (simp add: getdir_loop.simps)
      next
        case (Some e)
        obtain f nm o1 r where p: "p_dirent siz (inp x1) = Some (f, nm, o1, r)" using Some by (cases e) auto
        note room = p_dirent_room[OF p _ siz(2)]
        define rn where "rn = rec_len nm"
        define m3 where "m3 = wrmem m (of_nat d) (rec_bytes f (of_nat rn) (of_nat (length nm)) (nm @ [0]))"
        obtain x2 where x2: "good x2" "inp x2 = r" "4 dvd length r" and turn: "getdir_loop (Suc k) x m (of_nat d) siz off =
            (if siz - int rn \<le> 0 then Some (False, m3, of_nat d, o1, x2)
             else getdir_loop k x2 m3 (of_nat (d + rn)) (siz - int rn) o1)"
          using getdir_entry[OF x1(1) v x1(2,4) p siz, of k m d off] unfolding m3_def rn_def Let_def by blast
        have rn: "8 + (length nm + 1) \<le> rn" "int rn \<le> siz" "length nm < 65536" "rn < 65536"
          using room siz(1) by (simp_all add: rn_def)
        have m3: "outside d rn m m3"
          unfolding outside_def m3_def
          by (intro allI impI wrmem_range) (use rn d in \<open>auto simp: length_rec_bytes\<close>)
        have pd: "p_dents siz off (inp x) = (if siz - int rn \<le> 0 then None
            else map_option (\<lambda>(es, o1, r1). ((f, nm) # es, o1, r1)) (p_dents (siz - int rn) o1 r))"
          using lr nz p x1(3) by (subst p_dents.simps) (simp add: rn_def)
        show ?thesis
        proof (cases "siz - int rn \<le> 0")
          case True
          have "outside d (nat siz + 7) m m3" using m3 rn(2) by (auto simp: outside_def)
          then show ?thesis using True by (simp add: pd turn)
        next
          case more: False
          have "0 < siz - int rn" "siz - int rn < 65536" "nat (siz - int rn) < k" "d + rn + nat (siz - int rn) < 131072"
            using more siz rn(1) Suc.prems(5) d by simp_all
          note IH = Suc.IH[OF x2(1) x2(3)[folded x2(2)] this, of m3 o1]
          have go: "getdir_loop (Suc k) x m (of_nat d) siz off = getdir_loop k x2 m3 (of_nat (d + rn)) (siz - int rn) o1"
            using turn more by simp
          note widen = outside_widen[OF m3]
          show ?thesis
          proof (cases "p_dents (siz - int rn) o1 r")
            case None
            with IH x2(2) obtain m' dp o' x' where
              "getdir_loop k x2 m3 (of_nat (d + rn)) (siz - int rn) o1 = Some (False, m', dp, o', x')"
              "outside (d + rn) (nat (siz - int rn) + 7) m3 m'" by auto
            with widen[of "nat (siz - int rn) + 7" m' "nat siz + 7"] rn(2) None more show ?thesis by (simp add: pd go)
          next
            case (Some res)
            obtain es o2 r2 where res: "res = (es, o2, r2)" by (cases res)
            with IH Some x2(2) obtain m' x' where loop:
              "getdir_loop k x2 m3 (of_nat (d + rn)) (siz - int rn) o1 = Some (True, m', of_nat (d + rn + recs_len es), o2, x')"
              "good x'" "inp x' = r2" "4 dvd length r2" "int (recs_len es) < siz - int rn"
              "dir_walk m' (of_nat (d + rn)) (int (recs_len es)) = Some es" "outside (d + rn) (recs_len es) m3 m'" by auto
            have "m' a = m3 a" if "unat a < d + rec_len nm" for a using loop(7) that by (simp add: outside_def rn_def)
            from walk_rec[OF this[unfolded m3_def rn_def] _ rn(1,3,4)[unfolded rn_def] loop(6)[unfolded rn_def]] d siz rn(2)
            have "dir_walk m' (of_nat d) (int (recs_len ((f, nm) # es))) = Some ((f, nm) # es)" by (simp add: rn_def)
            moreover have "outside d (recs_len ((f, nm) # es)) m m'" by (rule widen[OF loop(7)]) (simp add: rn_def)
            ultimately show ?thesis using loop(1-5) Some more res by (simp add: pd go rn_def add.assoc)
          qed
        qed
      qed
    qed
  qed
qed

text \<open>The whole reply, in a buffer of \<open>siz\<close> bytes.\<close>

lemma getrddir_run:
  assumes x: "good x" "4 dvd length (inp x)" and siz: "siz = sint (rd_size rd)" "0 < siz" "siz < 65536"
  shows "case p_rddirres siz (inp x) of
      None \<Rightarrow> \<exists>rd' x'. xdr_getrddirres x rd = Some (False, rd', x') \<and> outside 0 (nat siz + 7) (rd_entries rd) (rd_entries rd')
    | Some (st, None, r) \<Rightarrow>
        \<exists>x'. xdr_getrddirres x rd = Some (True, rd\<lparr>rd_status := st\<rparr>, x') \<and> good x' \<and> inp x' = r
    | Some (st, Some (es, off, eof), r) \<Rightarrow>
        \<exists>rd' x'. xdr_getrddirres x rd = Some (True, rd', x') \<and> good x' \<and> inp x' = r \<and> got_dir rd st es off eof rd'"
proof -
  have fuel: "nat siz < Suc (nat siz)" "(0::nat) + nat siz < 131072" using siz(3) by auto
  show ?thesis
  proof (cases "p_long (inp x) (rd_status rd)")
    case None
    obtain st x1 where x1: "xdr_enum x (rd_status rd) = (False, st, x1)"
      using parses_None[OF parses_enum x None] by (cases "xdr_enum x (rd_status rd)") auto
    have "p_rddirres siz (inp x) = None" using None by (simp add: p_rddirres_def p_long_def split: if_splits)
    with x1 show ?thesis by (simp add: xdr_getrddirres_def outside_def)
  next
    case (Some sr)
    obtain st r where sr: "sr = (st, r)" by (cases sr)
    obtain x1 where x1: "xdr_enum x (rd_status rd) = (True, st, x1)" "good x1" "inp x1 = r" "4 dvd length (inp x1)"
      using parses_Some[OF parses_enum x Some[unfolded sr]] by metis
    have p0: "p_long (inp x) 0 = Some (st, r)" using Some sr by (simp add: p_long_def)
    show ?thesis
    proof (cases "st = NFS_OK")
      case False
      with x1 p0 show ?thesis by (simp add: xdr_getrddirres_def p_rddirres_def)
    next
      case ok: True
      define run where "run = getdir_loop (Suc (nat siz)) x1 (rd_entries rd) 0 siz (- 1)"
      have go: "xdr_getrddirres x rd = (case run of None \<Rightarrow> None | Some (ok2, m, dp, offset, x2) \<Rightarrow>
          (let rd2 = rd\<lparr>rd_status := st, rd_entries := m\<rparr> in
           if \<not> ok2 then Some (False, rd2, x2)
           else (let (ok3, rd3, x3) = membr xdr_bool rd_eof rd_eof_update x2 rd2 in
                 if \<not> ok3 then Some (False, rd3, x3) else Some (True, rd3\<lparr>rd_size := dp, rd_offset := offset\<rparr>, x3))))"
        using x1(1) siz(1) unfolding ok by (simp add: xdr_getrddirres_def run_def Let_def)
      note L = getdir_loop_parses[OF x1(2,4) siz(2,3) fuel, of "rd_entries rd" "- 1", folded run_def]
      show ?thesis
      proof (cases "p_dents siz (- 1) r")
        case None
        then have "p_rddirres siz (inp x) = None" using p0 ok by (simp add: p_rddirres_def)
        with L None x1(3) show ?thesis by (auto simp: go run_def)
      next
        case (Some e)
        obtain es off r1 where e: "e = (es, off, r1)" by (cases e)
        obtain m' x2 where x2: "run = Some (True, m', of_nat (recs_len es), off, x2)" "good x2" "inp x2 = r1" "4 dvd length r1"
          "int (recs_len es) < siz" "dir_walk m' 0 (int (recs_len es)) = Some es" "outside 0 (recs_len es) (rd_entries rd) m'"
          using L Some e x1(3) by (auto simp: run_def)
        have wide: "outside 0 (nat siz + 7) (rd_entries rd) m'" using x2(5,7) by (auto simp: outside_def)
        have d2: "4 dvd length (inp x2)" using x2(3,4) by simp
        show ?thesis
        proof (cases "p_bool r1 (rd_eof rd)")
          case None
          obtain v x3 where "xdr_bool x2 (rd_eof rd) = (False, v, x3)"
            using parses_None[OF parses_bool x2(2) d2, of "rd_eof rd"] None x2(3) by (cases "xdr_bool x2 (rd_eof rd)") auto
          moreover have "p_bool r1 0 = None" using None by (simp add: p_bool_def)
          then have "p_rddirres siz (inp x) = None" using p0 ok Some e by (simp add: p_rddirres_def)
          ultimately show ?thesis using x2(1) wide by (simp add: go membr_def fld_def)
        next
          case eofS: (Some er)
          obtain eof r2 where er: "er = (eof, r2)" by (cases er)
          obtain x3 where x3: "xdr_bool x2 (rd_eof rd) = (True, eof, x3)" "good x3" "inp x3 = r2"
            using parses_Some[OF parses_bool x2(2) d2] eofS er x2(3) by metis
          have "p_bool r1 0 = Some (eof, r2)" using eofS er by (simp add: p_bool_def)
          then have "p_rddirres siz (inp x) = Some (st, Some (es, off, eof), r2)"
            using p0 ok Some e by (simp add: p_rddirres_def)
          moreover have "sint (of_nat (recs_len es) :: 32 word) = int (recs_len es)"
            using x2(5) siz(3) sint_word_of_int_in_range[of "int (recs_len es)"] by simp
          ultimately show ?thesis using x2 x3 siz(1) by (simp add: go membr_def fld_def got_dir_def)
        qed
      qed
    qed
  qed
qed

text \<open>An entry whose record does not fit has its number and the length of its name stored all the same.\<close>

lemma get_dirent_toolong:
  assumes x: "good x" "4 dvd length (inp x)" and p: "8 \<le> length (inp x)"
    and nl: "nl = ucast (un_be32 (take 4 (drop 4 (inp x))))" "reclen nl > word_of_int siz"
  shows "\<exists>x'. get_dirent x m dp siz off =
    (False, set_namlen dp nl (set_fileno dp (un_be32 (take 4 (inp x))) m), off, x')"
proof -
  have "p_long (inp x) (d_fileno m dp) = Some (un_be32 (take 4 (inp x)), drop 4 (inp x))" using p by (simp add: p_long_def)
  from parses_Some[OF parses_u_long x this] obtain x1 where x1:
    "xdr_u_long x (d_fileno m dp) = (True, un_be32 (take 4 (inp x)), x1)" "good x1" "inp x1 = drop 4 (inp x)"
    "4 dvd length (inp x1)" by auto
  let ?m = "set_fileno dp (un_be32 (take 4 (inp x))) m"
  have "p_short (inp x1) (d_namlen ?m dp) = Some (nl, drop 8 (inp x))"
    using p x1(3) by (simp add: p_short_def p_long_def nl(1))
  from parses_Some[OF parses_u_short x1(2,4) this] obtain x2 where "xdr_u_short x1 (d_namlen ?m dp) = (True, nl, x2)" by auto
  then show ?thesis using x1(1) nl(2) by (simp add: get_dirent_def)
qed

end

section \<open>Both streams\<close>

interpretation memcare: xdr_careful memdec_good mem_inp
  by unfold_locales (simp add: memdec_good_def XDR_GETBYTES_def xdrmem_getbytes_def Let_def)

lemma get_loop_len:
  assumes "mbufdec_good x" "x_chain x = m # ms" "unat n < 2 ^ 31"
  shows "length (fst (snd (xdrmbuf_get_loop (x\<lparr>x_handy := x_handy x - n\<rparr>) acc n)))
    + unat (fst (snd (snd (xdrmbuf_get_loop (x\<lparr>x_handy := x_handy x - n\<rparr>) acc n)))) \<le> length acc + unat n"
  using assms
proof (induction ms arbitrary: x m n acc)
  case Nil
  have h31: "unat (x_handy x) < 2 ^ 31" using Nil.prems(1) by (simp add: mbufdec_good_def)
  show ?case
  proof (cases "unat (x_handy x) < unat n")
    case True
    then have "unat (n - x_handy x) = unat n - unat (x_handy x)" by (simp add: unat_sub word_le_nat_alt)
    with True show ?thesis by (simp add: get_loop_step[OF Nil.prems(2) True Nil.prems(3)])
  next
    case False
    then show ?thesis using handy_sub[OF h31 Nil.prems(3)] by (simp add: xdrmbuf_get_loop.simps not_less)
  qed
next
  case (Cons m' ms)
  have h31: "unat (x_handy x) < 2 ^ 31" using Cons.prems(1) by (simp add: mbufdec_good_def)
  show ?case
  proof (cases "unat (x_handy x) < unat n")
    case True
    define y where "y = mbuf_step x m m' ms"
    define k where "k = n - x_handy x"
    have k: "unat k = unat n - unat (x_handy x)" using True by (simp add: k_def unat_sub word_le_nat_alt)
    have y: "mbufdec_good y" "x_chain y = m' # ms" "unat k < 2 ^ 31"
      using mbuf_step_good[OF Cons.prems(1,2)] Cons.prems(3) by (auto simp: y_def k)
    have run: "xdrmbuf_get_loop (x\<lparr>x_handy := x_handy x - n\<rparr>) acc n =
        xdrmbuf_get_loop (y\<lparr>x_handy := x_handy y - k\<rparr>) (acc @ rdmem (x_mem x) (x_private x) (unat (x_handy x))) k"
      by (simp add: get_loop_step[OF Cons.prems(2) True Cons.prems(3)] y_def k_def)
    show ?thesis unfolding run using Cons.IH[OF y, of "acc @ rdmem (x_mem x) (x_private x) (unat (x_handy x))"] True k
      by simp
  next
    case False
    then show ?thesis using handy_sub[OF h31 Cons.prems(3)] by (simp add: xdrmbuf_get_loop.simps not_less)
  qed
qed

interpretation mbufcare: xdr_careful mbufdec_good mbuf_inp
proof unfold_locales
  fix x and n :: "32 word" assume x: "mbufdec_good x" and n: "unat n < 2 ^ 31"
  obtain m ms where c: "x_chain x = m # ms" using x by (auto simp: mbufdec_good_def neq_Nil_conv)
  obtain ok acc k x1 where r: "xdrmbuf_get_loop (x\<lparr>x_handy := x_handy x - n\<rparr>) [] n = (ok, acc, k, x1)"
    by (metis prod.exhaust)
  then show "length (fst (snd (XDR_GETBYTES x n))) \<le> unat n"
    using get_loop_len[OF x c n, of "[]"] x
    by (simp add: XDR_GETBYTES_def xdrmbuf_getbytes_def mbufdec_good_def)
qed

lemma reading_rddir:
  assumes x: "reading x i" "4 dvd length i" and siz: "siz = sint (rd_size rd)" "0 < siz" "siz < 65536"
  shows "case p_rddirres siz i of
      None \<Rightarrow> \<exists>rd' x'. xdr_getrddirres x rd = Some (False, rd', x') \<and> outside 0 (nat siz + 7) (rd_entries rd) (rd_entries rd')
    | Some (st, None, r) \<Rightarrow> \<exists>x'. xdr_getrddirres x rd = Some (True, rd\<lparr>rd_status := st\<rparr>, x') \<and> reading x' r
    | Some (st, Some (es, off, eof), r) \<Rightarrow>
        \<exists>rd' x'. xdr_getrddirres x rd = Some (True, rd', x') \<and> reading x' r \<and> got_dir rd st es off eof rd'"
proof -
  consider "memdec_good x" "mem_inp x = i" | "mbufdec_good x" "mbuf_inp x = i" using x(1) by (auto simp: reading_def)
  then show ?thesis
  proof cases
    case g: 1
    have "4 dvd length (mem_inp x)" using x(2) g(2) by simp
    from memcare.getrddir_run[OF g(1) this siz] show ?thesis
      unfolding g(2) reading_def by (auto split: option.splits)
  next
    case g: 2
    have "4 dvd length (mbuf_inp x)" using x(2) g(2) by simp
    from mbufcare.getrddir_run[OF g(1) this siz] show ?thesis
      unfolding g(2) reading_def by (auto split: option.splits)
  qed
qed

end
