(* ===== verification/Nfs_Props.thy ===== *)
theory Nfs_Props
  imports Nfs_Dirget
begin

text \<open>
  The properties of NFS's wire formats: calls and replies arrive as they were sent, a directory read
  brings the client the entries of the server's buffer, and what the client does with a reply that is
  not as it should be.
\<close>

section \<open>A reply read back\<close>

definition sent :: "dent list \<Rightarrow> (32 word \<times> byte list) list" where
  "sent l = map (\<lambda>(f, nm, off). (f, nm)) l"

definition last_off :: "32 word \<Rightarrow> dent list \<Rightarrow> 32 word" where
  "last_off off l = (if l = [] then off else snd (snd (last l)))"

lemma sent_simps [simp]: "sent [] = []" "sent ((f, nm, off) # l) = (f, nm) # sent l"
  by (simp_all add: sent_def)

lemma last_off_simps [simp]: "last_off off [] = off" "last_off off ((f, nm, o1) # l) = last_off o1 l"
  by (simp_all add: last_off_def)

lemma p_dirent_wire:
  assumes nm: "length nm \<le> 255" and siz: "int (rec_len nm) \<le> siz" "siz < 65536"
  shows "p_dirent siz (be32 f @ be32 (of_nat (length nm)) @ nm @ replicate (padlen (length nm)) 0 @ be32 off @ rest)
    = Some (f, nm, off, rest)"
proof -
  have n: "(ucast (of_nat (length nm) :: 32 word) :: 16 word) = of_nat (length nm)"
    using nm by (simp add: unsigned_of_nat take_bit_nat_eq_self)
  have u: "unat (of_nat (length nm) :: 16 word) = length nm" using nm by (simp add: unat_of_nat)
  have "\<not> reclen (of_nat (length nm)) > word_of_int siz"
    using reclen_le[of siz "of_nat (length nm)"] siz by (simp add: rec_len_def)
  then show ?thesis using nm by (simp add: p_dirent_def n u)
qed

lemma p_dents_wire:
  assumes "\<forall>(f, nm, o1) \<in> set l. length nm \<le> 255" "int (recs_len (sent l)) < siz" "siz < 65536"
  shows "p_dents siz off (dents_wire l @ be32 0 @ rest) = Some (sent l, last_off off l, rest)"
  using assms
proof (induction l arbitrary: siz off)
  case Nil
  then show ?case by (simp add: p_dents.simps dents_wire_def)
next
  case (Cons e l)
  obtain f nm o1 where e: "e = (f, nm, o1)" by (cases e)
  have nm: "length nm \<le> 255" using Cons.prems(1) e by simp
  have room: "int (rec_len nm) \<le> siz" using Cons.prems(2) e by simp
  have "p_dirent siz (drop 4 (dents_wire (e # l) @ be32 0 @ rest)) = Some (f, nm, o1, dents_wire l @ be32 0 @ rest)"
    using p_dirent_wire[OF nm room Cons.prems(3), of f o1 "dents_wire l @ be32 0 @ rest"]
    by (simp add: dents_wire_def dent_wire_def e)
  moreover have "p_dents (siz - int (rec_len nm)) o1 (dents_wire l @ be32 0 @ rest) = Some (sent l, last_off o1 l, rest)"
    using Cons.prems e by (intro Cons.IH) auto
  moreover have "un_be32 (take 4 (dents_wire (e # l) @ be32 0 @ rest)) = 1" "4 \<le> length (dents_wire (e # l) @ be32 0 @ rest)"
    by (simp_all add: dents_wire_def dent_wire_def e)
  ultimately show ?case using Cons.prems(2) e by (subst p_dents.simps) simp
qed

lemma p_rddirres_wire:
  assumes "\<forall>(f, nm, o1) \<in> set l. length nm \<le> 255" "int (recs_len (sent l)) < siz" "siz < 65536"
  shows "p_rddirres siz (dirres_wire l eof @ rest) = Some (NFS_OK, Some (sent l, last_off (- 1) l, if eof \<noteq> 0 then 1 else 0), rest)"
proof -
  have "p_dents siz (- 1) (dents_wire l @ be32 0 @ be32 (if eof \<noteq> 0 then 1 else 0) @ rest)
      = Some (sent l, last_off (- 1) l, be32 (if eof \<noteq> 0 then 1 else 0) @ rest)"
    by (rule p_dents_wire[OF assms])
  then show ?thesis by (simp add: p_rddirres_def dirres_wire_def p_long_def p_bool_def)
qed

section \<open>What the server sends\<close>

text \<open>The entries sent are the live ones of a part of the buffer from its start, and the last offset is the one behind it.\<close>

lemma put_dents_part:
  assumes "put_dents b p off es = (l, s)"
  shows "\<exists>es1 es2. es = es1 @ es2 \<and> sent l = live es1 \<and>
    (if s then l \<noteq> [] \<and> (\<forall>o0. last_off o0 l = off + 16 * of_nat (length es1)) else es2 = [])"
  using assms
proof (induction es arbitrary: p off l s)
  case Nil
  then show ?case by (auto simp: live_def)
next
  case (Cons e es)
  obtain f nm where e: "e = (f, nm)" by (cases e)
  show ?case
  proof (cases "f = 0")
    case True
    then have "put_dents b p (off + 16) es = (l, s)" using Cons.prems e by (simp add: Let_def)
    from Cons.IH[OF this] obtain es1 es2 where ih: "es = es1 @ es2" "sent l = live es1"
      "if s then l \<noteq> [] \<and> (\<forall>o0. last_off o0 l = off + 16 + 16 * of_nat (length es1)) else es2 = []" by blast
    then show ?thesis using True e
      by (intro exI[of _ "e # es1"] exI[of _ es2]) (simp add: live_def algebra_simps)
  next
    case f: False
    show ?thesis
    proof (cases "b \<le> p + dent_len nm")
      case True
      then have "l = [(f, nm, off + 16)]" "s" using Cons.prems e f by (simp_all add: Let_def)
      then show ?thesis using e f by (intro exI[of _ "[e]"] exI[of _ es]) (simp add: live_def)
    next
      case False
      then obtain l' where l': "put_dents b (p + dent_len nm) (off + 16) es = (l', s)" "l = (f, nm, off + 16) # l'"
        using Cons.prems e f by (auto simp: Let_def split: prod.splits)
      from Cons.IH[OF l'(1)] obtain es1 es2 where ih: "es = es1 @ es2" "sent l' = live es1"
        "if s then l' \<noteq> [] \<and> (\<forall>o0. last_off o0 l' = off + 16 + 16 * of_nat (length es1)) else es2 = []" by blast
      then show ?thesis using f e l'(2)
        by (intro exI[of _ "e # es1"] exI[of _ es2]) (simp add: live_def algebra_simps)
    qed
  qed
qed

lemma put_dents_names: "put_dents b p off es = (l, s) \<Longrightarrow> (f, nm, o1) \<in> set l \<Longrightarrow> \<exists>f. (f, nm) \<in> set es"
proof (induction es arbitrary: p off l s)
  case (Cons e es)
  then show ?case by (cases e) (fastforce simp: Let_def split: if_splits prod.splits)
qed simp

text \<open>With names of at most 14 bytes and room for a directory block, the records of what is sent fit the room.\<close>

lemma dent_sizes:
  assumes "length nm \<le> 14"
  shows "dent_len nm \<le> 32" "8 * rec_len nm \<le> 7 * dent_len nm"
proof -
  define q t where "q = length nm div 4" and "t = length nm mod 4"
  have n: "length nm = 4 * q + t" "t < 4" by (simp_all add: q_def t_def)
  have "(4 * q + t + 13) div 4 = q + (t + 13) div 4" by presburger
  then have r: "rec_len nm = (q + (t + 13) div 4) * 4" using assms rec_len[of nm] by (simp only: n(1))
  have d: "dent_len nm = 16 + (4 * q + t + (4 - t) mod 4)"
    unfolding dent_len_def padlen_def t_def[symmetric] by (simp add: n(1))
  have q: "q \<le> 3" using assms n(1) by linarith
  consider "t = 0" | "t = 1" | "t = 2" | "t = 3" using n(2) by linarith
  then have "dent_len nm \<le> 32 \<and> 8 * rec_len nm \<le> 7 * dent_len nm"
    by cases (use q in \<open>simp_all add: r d\<close>)
  then show "dent_len nm \<le> 32" "8 * rec_len nm \<le> 7 * dent_len nm" by simp_all
qed

lemma dents_wire_Cons: "length (dents_wire ((f, nm, o1) # l)) = dent_len nm + length (dents_wire l)"
  by (simp add: dents_wire_def length_dent_wire)

lemma put_dents_fit:
  assumes "put_dents b p off es = (l, s)" "\<forall>(f, nm) \<in> set es. length nm \<le> 14" "p < b"
  shows "p + length (dents_wire l) < b + 32 \<and> 8 * recs_len (sent l) \<le> 7 * length (dents_wire l)"
  using assms
proof (induction es arbitrary: p off l s)
  case Nil
  then show ?case by (simp add: dents_wire_def)
next
  case (Cons e es)
  obtain f nm where e: "e = (f, nm)" by (cases e)
  have nm: "length nm \<le> 14" and es: "\<forall>(f, nm) \<in> set es. length nm \<le> 14" using Cons.prems(2) e by auto
  note size = dent_sizes[OF nm]
  show ?case
  proof (cases "f = 0")
    case True
    then have "put_dents b p (off + 16) es = (l, s)" using Cons.prems(1) e by (simp add: Let_def)
    then show ?thesis by (rule Cons.IH[OF _ es Cons.prems(3)])
  next
    case f: False
    show ?thesis
    proof (cases "b \<le> p + dent_len nm")
      case True
      then have "l = [(f, nm, off + 16)]" using Cons.prems(1) e f by (simp add: Let_def)
      then show ?thesis using size Cons.prems(3) by (simp add: dents_wire_def length_dent_wire)
    next
      case False
      then obtain l' where l': "put_dents b (p + dent_len nm) (off + 16) es = (l', s)" "l = (f, nm, off + 16) # l'"
        using Cons.prems(1) e f by (auto simp: Let_def split: prod.splits)
      have "p + dent_len nm < b" using False by simp
      from Cons.IH[OF l'(1) es this] size show ?thesis by (simp add: l'(2) dents_wire_Cons)
    qed
  qed
qed

section \<open>Server and client\<close>

text \<open>\<open>writing\<close>, on the streams whose position counts what was written.\<close>

definition posting :: "xdr \<Rightarrow> byte list \<Rightarrow> nat \<Rightarrow> bool" where
  "posting x out r = (memenc_good x \<and> mem_out x = out \<and> mem_room x = r
     \<or> mbuf1_good x \<and> mbuf_out x = out \<and> mbuf_room x = r)"

lemma posting_putrddir:
  assumes x: "posting x out r" "4 dvd r" and st: "rd_status rd = NFS_OK" and b: "unat (rd_bufsize rd) < 2 ^ 31"
    and es: "dir_walk (rd_entries rd) 0 (sint (rd_size rd)) = Some es" "\<forall>(f, nm) \<in> set es. length nm \<le> 255"
    and l: "put_dents (unat (rd_bufsize rd)) 0 (rd_offset rd) es = (l, s)"
    and fits: "length (dirres_wire l eof) \<le> r" and eof: "eof = (if s then 0 else rd_eof rd)"
  shows "\<exists>x'. xdr_putrddirres x rd = (True, rd\<lparr>rd_eof := eof\<rparr>, x') \<and>
    posting x' (out @ dirres_wire l eof) (r - length (dirres_wire l eof))"
proof -
  consider "memenc_good x" "mem_out x = out" "mem_room x = r" | "mbuf1_good x" "mbuf_out x = out" "mbuf_room x = r"
    using x(1) by (auto simp: posting_def)
  then show ?thesis
  proof cases
    case g: 1
    have d: "4 dvd mem_room x" "length (dirres_wire l eof) \<le> mem_room x" using x(2) fits g(3) by simp_all
    obtain x' where "xdr_putrddirres x rd = (True, rd\<lparr>rd_eof := eof\<rparr>, x')" "memenc_good x'"
      "mem_out x' = mem_out x @ dirres_wire l eof" "mem_room x' + length (dirres_wire l eof) = mem_room x"
      using mempos.putrddir_run[OF st g(1) d(1) b es l d(2) eof] by blast
    then show ?thesis unfolding posting_def g(2,3)[symmetric] by (metis add_diff_cancel_right')
  next
    case g: 2
    have d: "4 dvd mbuf_room x" "length (dirres_wire l eof) \<le> mbuf_room x" using x(2) fits g(3) by simp_all
    obtain x' where "xdr_putrddirres x rd = (True, rd\<lparr>rd_eof := eof\<rparr>, x')" "mbuf1_good x'"
      "mbuf_out x' = mbuf_out x @ dirres_wire l eof" "mbuf_room x' + length (dirres_wire l eof) = mbuf_room x"
      using mbuf1pos.putrddir_run[OF st g(1) d(1) b es l d(2) eof] by blast
    then show ?thesis unfolding posting_def g(2,3)[symmetric] by (metis add_diff_cancel_right')
  qed
qed

text \<open>
  C17: a directory read. The server's buffer lists entries with names of at most 14 bytes (those of the
  System V file system), its size limit is the client's buffer size and at least a directory block, and
  the reply stream, memory or one mbuf, has room and is of whole units. Then \<open>xdr_putrddirres\<close>
  succeeds, and from the bytes it appended \<open>xdr_getrddirres\<close>, on either kind of stream, leaves in
  the client's buffer exactly the live entries of a part of the directory from its start: the whole of
  it with the server's end mark, or a part without an end mark that ends at the entry whose offset the
  client gets, to go on from (a buffer that ends without the directory's end is sent whole as well).
\<close>

theorem readdir_roundtrip:
  assumes x: "posting x out r" "4 dvd r" and st: "rd_status rd = NFS_OK"
    and es: "dir_walk (rd_entries rd) 0 (sint (rd_size rd)) = Some es" "\<forall>(f, nm) \<in> set es. length nm \<le> 14"
    and b: "512 \<le> unat (rd_bufsize rd)" "unat (rd_bufsize rd) < 65536"
    and room: "unat (rd_bufsize rd) + 44 \<le> r" and c: "sint (rd_size cl) = int (unat (rd_bufsize rd))"
  shows "\<exists>rd' x' w es1 es2. xdr_putrddirres x rd = (True, rd', x') \<and> posting x' (out @ w) (r - length w) \<and>
    es = es1 @ es2 \<and>
    (\<forall>y rest. reading y (w @ rest) \<and> 4 dvd length (w @ rest) \<longrightarrow>
       (\<exists>cl' y'. xdr_getrddirres y cl = Some (True, cl', y') \<and> reading y' rest \<and>
          dir_walk (rd_entries cl') 0 (sint (rd_size cl')) = Some (live es1) \<and>
          (if es2 = [] \<and> rd_eof rd' \<noteq> 0 then rd_eof cl' = 1
           else rd_eof cl' = 0 \<and> (rd_eof rd = 0 \<and> es2 = [] \<or> rd_offset cl' = rd_offset rd + 16 * of_nat (length es1)))))"
proof -
  define siz where "siz = unat (rd_bufsize rd)"
  obtain l s where l: "put_dents siz 0 (rd_offset rd) es = (l, s)" by (metis prod.exhaust)
  define eof where "eof = (if s then 0 else rd_eof rd)"
  obtain es1 es2 where part: "es = es1 @ es2" "sent l = live es1"
    "if s then l \<noteq> [] \<and> (\<forall>o0. last_off o0 l = rd_offset rd + 16 * of_nat (length es1)) else es2 = []"
    using put_dents_part[OF l] by blast
  have "0 < siz" using b(1) by (simp add: siz_def)
  from put_dents_fit[OF l es(2) this] have D: "length (dents_wire l) < siz + 32" "8 * recs_len (sent l) \<le> 7 * length (dents_wire l)"
    by simp_all
  have b31: "unat (rd_bufsize rd) < 2 ^ 31" using b(2) by simp
  have names: "\<forall>(f, nm) \<in> set es. length nm \<le> 255" using es(2) by fastforce
  have fits: "length (dirres_wire l eof) \<le> r" using D(1) room by (simp add: dirres_wire_def siz_def)
  obtain x' where x': "xdr_putrddirres x rd = (True, rd\<lparr>rd_eof := eof\<rparr>, x')"
    "posting x' (out @ dirres_wire l eof) (r - length (dirres_wire l eof))"
    using posting_putrddir[OF x st b31 es(1) names l[unfolded siz_def] fits eof_def] by blast
  have lnames: "\<forall>(f, nm, o1) \<in> set l. length nm \<le> 255"
    using put_dents_names[OF l] names by fastforce
  have "512 \<le> siz" "siz < 65536" using b by (simp_all only: siz_def)
  with D have small: "int (recs_len (sent l)) < int siz" and pos: "0 < int siz" "int siz < 65536" by simp_all
  have size: "int siz = sint (rd_size cl)" "0 < int siz" "int siz < 65536" using c pos by (simp_all only: siz_def)
  note wire = p_rddirres_wire[OF lnames small size(3)]
  have "\<exists>cl' y'. xdr_getrddirres y cl = Some (True, cl', y') \<and> reading y' rest \<and>
      dir_walk (rd_entries cl') 0 (sint (rd_size cl')) = Some (live es1) \<and>
      (if es2 = [] \<and> eof \<noteq> 0 then rd_eof cl' = 1
       else rd_eof cl' = 0 \<and> (rd_eof rd = 0 \<and> es2 = [] \<or> rd_offset cl' = rd_offset rd + 16 * of_nat (length es1)))"
    if y: "reading y (dirres_wire l eof @ rest)" "4 dvd length (dirres_wire l eof @ rest)" for y rest
  proof -
    obtain cl' y' where "xdr_getrddirres y cl = Some (True, cl', y')" "reading y' rest"
      "got_dir cl NFS_OK (sent l) (last_off (- 1) l) (if eof \<noteq> 0 then 1 else 0) cl'"
      using reading_rddir[OF y size] by (auto simp: wire)
    then show ?thesis using part unfolding got_dir_def eof_def
      by (intro exI[of _ cl'] exI[of _ y']) (auto split: if_splits)
  qed
  then show ?thesis using x' part(1)
    by (intro exI[of _ "rd\<lparr>rd_eof := eof\<rparr>"] exI[of _ x'] exI[of _ "dirres_wire l eof"] exI[of _ es1] exI[of _ es2]) simp
qed

definition dots :: "byte list" where
  "dots = rec_bytes 2 12 1 [46, 0, 0, 0] @ rec_bytes 7 12 2 [46, 46, 0, 0] @ rec_bytes 0 12 1 [120, 0, 0, 0]"

definition dots_buf :: memory where
  "dots_buf = wrmem (\<lambda>_. 0) 0 dots"

text \<open>A directory block with the entries \<open>.\<close> and \<open>..\<close> and a free one.\<close>

lemma dots_at: "k + n \<le> 36 \<Longrightarrow> rdmem dots_buf (of_nat k) n = take n (drop k dots)"
  using rdmem_inside[of k n dots "\<lambda>_. 0" 0] by (simp add: dots_buf_def dots_def rec_bytes_def)

lemma dots_walk: "dir_walk dots_buf 0 36 = Some [(2, [46]), (7, [46, 46]), (0, [120])]"
proof -
  have r: "rdmem dots_buf 0 9 = rec_bytes 2 12 1 [46]" "rdmem dots_buf 12 10 = rec_bytes 7 12 2 [46, 46]"
    "rdmem dots_buf 24 9 = rec_bytes 0 12 1 [120]"
    using dots_at[of 0 9] dots_at[of 12 10] dots_at[of 24 9] by (simp_all add: dots_def rec_bytes_def)
  note f0 = rec_fields[where nm = "[46]" and m = dots_buf and dp = 0, simplified, OF r(1)]
    and f1 = rec_fields[where nm = "[46, 46]" and m = dots_buf and dp = 12, simplified, OF r(2)]
    and f2 = rec_fields[where nm = "[120]" and m = dots_buf and dp = 24, simplified, OF r(3)]
  have n1: "d_name dots_buf 12 2 = [46, 46]" using f1 by (simp add: numeral_2_eq_2)
  show ?thesis
    by (simp add: dir_walk.simps f0 f1 f2 n1 nextdp_def DIRSIZ_def sizeof_direct_def MAXNAMLEN_def)
qed

definition dots_rd :: nfsrddirres where
  "dots_rd = \<lparr>rd_bufsize = 512, rd_status = 0, rd_offset = 0, rd_size = 36, rd_eof = 1, rd_entries = dots_buf\<rparr>"

definition empty_rd :: "32 word \<Rightarrow> nfsrddirres" where
  "empty_rd n = \<lparr>rd_bufsize = 0, rd_status = 0, rd_offset = 0, rd_size = n, rd_eof = 0, rd_entries = (\<lambda>_. 0)\<rparr>"

lemma mem_encoder_posting: "unat n < 2 ^ 31 \<Longrightarrow> posting (mem_encoder n) [] (unat n)"
  by (simp add: posting_def memenc_good_def mem_out_def mem_room_def mem_encoder_def xdrmem_create_def xdr0_def)

theorem readdir_roundtrip_witness:
  "\<exists>rd' x' w es1 es2. xdr_putrddirres (mem_encoder 1024) dots_rd = (True, rd', x') \<and> posting x' w (1024 - length w) \<and>
    [(2, [46]), (7, [46, 46]), (0, [120])] = es1 @ es2 \<and>
    (\<forall>y rest. reading y (w @ rest) \<and> 4 dvd length (w @ rest) \<longrightarrow>
       (\<exists>cl' y'. xdr_getrddirres y (empty_rd 512) = Some (True, cl', y') \<and> reading y' rest \<and>
          dir_walk (rd_entries cl') 0 (sint (rd_size cl')) = Some (live es1) \<and>
          (if es2 = [] \<and> rd_eof rd' \<noteq> 0 then rd_eof cl' = 1
           else rd_eof cl' = 0 \<and> (rd_eof dots_rd = 0 \<and> es2 = [] \<or> rd_offset cl' = rd_offset dots_rd + 16 * of_nat (length es1)))))"
proof -
  have p: "posting (mem_encoder 1024) [] 1024" using mem_encoder_posting[of 1024] by simp
  have w: "dir_walk (rd_entries dots_rd) 0 (sint (rd_size dots_rd)) = Some [(2, [46]), (7, [46, 46]), (0, [120])]"
    using dots_walk by (simp add: dots_rd_def)
  show ?thesis
    using readdir_roundtrip[OF p _ _ w, of "empty_rd 512"] by (simp add: dots_rd_def empty_rd_def NFS_OK_def)
qed

section \<open>What the client makes of any reply\<close>

text \<open>
  C18: whatever whole units a server sends, on either kind of stream, \<open>xdr_getrddirres\<close> with a
  buffer of 1 to 65535 bytes returns, and accepts exactly the replies the reference reader accepts. After
  a good reply the buffer starts with records that list the entries of the reply, within its
  size, and is unchanged behind them; after a bad one nothing but the buffer and the seven bytes behind it can
  have changed.
\<close>

theorem rddir_decode_exact:
  assumes "reading x i" "4 dvd length i" and "0 < sint (rd_size rd)" "sint (rd_size rd) < 65536"
  shows "case p_rddirres (sint (rd_size rd)) i of
      None \<Rightarrow> \<exists>rd' x'. xdr_getrddirres x rd = Some (False, rd', x') \<and>
        outside 0 (nat (sint (rd_size rd)) + 7) (rd_entries rd) (rd_entries rd')
    | Some (st, None, r) \<Rightarrow> \<exists>x'. xdr_getrddirres x rd = Some (True, rd\<lparr>rd_status := st\<rparr>, x') \<and> reading x' r
    | Some (st, Some (es, off, eof), r) \<Rightarrow>
        \<exists>rd' x'. xdr_getrddirres x rd = Some (True, rd', x') \<and> reading x' r \<and> got_dir rd st es off eof rd'"
  using reading_rddir[OF assms(1,2) refl assms(3,4)] .

theorem rddir_decode_exact_witness:
  "\<exists>rd' x'. xdr_getrddirres (mem_decoder (dirres_wire [(2, [46], 16)] 1)) (empty_rd 512) = Some (True, rd', x') \<and>
    reading x' [] \<and> got_dir (empty_rd 512) NFS_OK [(2, [46])] 16 1 rd'"
proof -
  define w where "w = dirres_wire [(2, [46], 16)] 1"
  have l: "length w = 32" by (simp add: w_def dirres_wire_def dents_wire_def length_dent_wire dent_len_def padlen_def)
  have r: "reading (mem_decoder w) w" using mem_decoder_reading[of w] l by (simp add: reading_def)
  have p: "p_rddirres (sint (rd_size (empty_rd 512))) w = Some (NFS_OK, Some ([(2, [46])], 16, 1), [])"
    using p_rddirres_wire[of "[(2, [46], 16)]" 512 1 "[]"] by (simp add: w_def empty_rd_def rec_len)
  have s: "0 < sint (rd_size (empty_rd 512))" "sint (rd_size (empty_rd 512)) < 65536" by (simp_all add: empty_rd_def)
  show ?thesis using rddir_decode_exact[OF r _ s] l by (simp add: p w_def[symmetric])
qed

abbreviation dots_reply :: "32 word \<Rightarrow> 32 word \<Rightarrow> 32 word \<Rightarrow> 32 word \<Rightarrow> 32 word \<Rightarrow> byte list" where
  "dots_reply f1 o1 f2 o2 eof \<equiv> dirres_wire [(f1, [46], o1), (f2, [46, 46], o2)] eof"

context xdr_careful
begin

lemma dots_overflow:
  assumes y: "good y" "inp y = dots_reply f1 o1 f2 o2 eof @ rest" "4 dvd length (inp y)" and cl: "rd_size cl = 16"
  shows "\<exists>cl' y'. xdr_getrddirres y cl = Some (False, cl', y') \<and> rd_entries cl' 18 = 0 \<and> rd_entries cl' 19 = 2"
proof -
  define t2 where "t2 = be32 f2 @ be32 (of_nat (length [46 :: byte, 46])) @ [46, 46] @
    replicate (padlen (length [46 :: byte, 46])) 0 @ be32 o2 @ be32 0 @ be32 (if eof \<noteq> 0 then 1 else 0) @ rest"
  define t1 where "t1 = be32 f1 @ be32 (of_nat (length [46 :: byte])) @ [46] @ replicate (padlen (length [46 :: byte])) 0 @ be32 o1 @ be32 1 @ t2"
  have i: "inp y = be32 NFS_OK @ be32 1 @ t1"
    by (simp add: y(2) dirres_wire_def dents_wire_def dent_wire_def t1_def t2_def)
  have "p_long (inp y) (rd_status cl) = Some (NFS_OK, be32 1 @ t1)" by (simp add: i p_long_def)
  from parses_Some[OF parses_enum y(1,3) this] obtain y1 where y1: "xdr_enum y (rd_status cl) = (True, NFS_OK, y1)" "good y1"
    "inp y1 = be32 1 @ t1" "4 dvd length (inp y1)" by auto
  have "p_bool (inp y1) 0 = Some (1, t1)" by (simp add: y1(3) p_bool_def p_long_def)
  from parses_Some[OF parses_bool y1(2,4) this] obtain y2 where y2: "xdr_bool y1 0 = (True, 1, y2)" "good y2"
    "inp y2 = t1" "4 dvd length (inp y2)" by auto
  have r1: "rec_len [46] = 12" by (simp add: rec_len)
  have "p_dirent 16 (inp y2) = Some (f1, [46], o1, be32 1 @ t2)"
    unfolding y2(3) t1_def by (rule p_dirent_wire) (simp_all add: r1)
  from getdir_entry[OF y2(1) _ y2(2,4) this, of 16 "rd_entries cl" 0 "- 1"] obtain y3 m3 where
    y3: "good y3" "inp y3 = be32 1 @ t2" "4 dvd length (inp y3)"
    and turn: "getdir_loop (Suc 16) y1 (rd_entries cl) 0 16 (- 1) = getdir_loop 16 y3 m3 12 4 o1"
    by (auto simp: r1 Let_def)
  have "p_bool (inp y3) 0 = Some (1, t2)" by (simp add: y3(2) p_bool_def p_long_def)
  from parses_Some[OF parses_bool y3(1,3) this] obtain y4 where y4: "xdr_bool y3 0 = (True, 1, y4)" "good y4"
    "inp y4 = t2" "4 dvd length (inp y4)" by auto
  have nl: "(2 :: 16 word) = ucast (un_be32 (take 4 (drop 4 (inp y4))))" by (simp add: y4(3) t2_def)
  have "8 \<le> length (inp y4)" by (simp add: y4(3) t2_def)
  moreover have "reclen 2 > word_of_int 4" by (simp add: reclen_def roundtoint_def)
  ultimately obtain y5 where y5: "get_dirent y4 m3 12 4 o1 =
      (False, set_namlen 12 2 (set_fileno 12 (un_be32 (take 4 (inp y4))) m3), o1, y5)"
    using get_dirent_toolong[OF y4(2,4) _ nl, of 4 m3 12 o1] by blast
  have "getdir_loop 16 y3 m3 12 4 o1 = Some (False, set_namlen 12 2 (set_fileno 12 (un_be32 (take 4 (inp y4))) m3), 12, o1, y5)"
    using y4(1) y5 getdir_loop.simps(2)[of 15 y3 m3 12 4 o1] by simp
  then have "getdir_loop (Suc (nat (sint (rd_size cl)))) y1 (rd_entries cl) 0 (sint (rd_size cl)) (- 1) =
      Some (False, set_namlen 12 2 (set_fileno 12 (un_be32 (take 4 (inp y4))) m3), 12, o1, y5)"
    using turn by (simp add: cl)
  then have "xdr_getrddirres y cl = Some (False, cl\<lparr>rd_status := NFS_OK,
      rd_entries := set_namlen 12 2 (set_fileno 12 (un_be32 (take 4 (inp y4))) m3)\<rparr>, y5)"
    using y1(1) by (simp add: xdr_getrddirres_def)
  moreover have "set_namlen 12 2 m 18 = 0" "set_namlen 12 2 m 19 = 2" for m
    by (simp_all add: set_namlen_def wrmem_def be16_def)
  ultimately show ?thesis by simp
qed

end

text \<open>
  C40: an entry's number and name length are stored before its record is known to fit. A reply that
  lists \<open>.\<close> and \<open>..\<close> to a client that asked for 16 bytes is refused, but the
  name length of the second entry has been written at bytes 18 and 19, behind the buffer.
\<close>

theorem readdir_overflow:
  assumes "reading y (dots_reply f1 o1 f2 o2 eof @ rest)" "4 dvd length (dots_reply f1 o1 f2 o2 eof @ rest)"
    and "rd_size cl = 16"
  shows "\<exists>cl' y'. xdr_getrddirres y cl = Some (False, cl', y') \<and> rd_entries cl' 18 = 0 \<and> rd_entries cl' 19 = 2"
  using assms memcare.dots_overflow[of y f1 o1 f2 o2 eof rest cl] mbufcare.dots_overflow[of y f1 o1 f2 o2 eof rest cl]
  by (auto simp: reading_def)

theorem readdir_overflow_witness:
  "\<exists>cl' y'. xdr_getrddirres (mem_decoder (dots_reply 2 16 7 32 1)) (empty_rd 16) = Some (False, cl', y') \<and>
    rd_entries (empty_rd 16) 19 = 0 \<and> rd_entries cl' 19 = 2"
proof -
  have l: "length (dots_reply 2 16 7 32 1) = 52" by (simp add: dirres_wire_def dents_wire_def length_dent_wire dent_len_def padlen_def)
  have "reading (mem_decoder (dots_reply 2 16 7 32 1)) (dots_reply 2 16 7 32 1 @ [])"
    using mem_decoder_reading[of "dots_reply 2 16 7 32 1"] l by (simp add: reading_def)
  from readdir_overflow[OF this, of "empty_rd 16"] l show ?thesis by (auto simp: empty_rd_def)
qed

section \<open>Calls and results\<close>

text \<open>
  C19: the arguments of each of the 18 procedures, as the dispatch table encodes them on either kind of
  stream of whole units, are decoded by the table, on either kind of stream, into a cleared space as the same arguments. Encoding fails
  exactly when a name or the data is longer than the protocol allows or the stream has no room.
\<close>

theorem nfs_args_roundtrip:
  assumes n: "n < RFS_NPROC" and a: "args_ok a" and x: "writing x out r" "4 dvd r"
  shows "case e_nfsargs n a of
      None \<Rightarrow> \<not> fst (dis_xdrargs (rfsdisptab env ! n) x a)
    | Some w \<Rightarrow>
        if length w \<le> r
        then \<exists>x'. dis_xdrargs (rfsdisptab env ! n) x a = (True, a, x') \<and> writing x' (out @ w) (r - length w) \<and>
          (\<forall>y rest. reading y (w @ rest) \<and> 4 dvd length (w @ rest) \<longrightarrow>
             (\<exists>y'. dis_xdrargs (rfsdisptab env' ! n) y args0 = (True, args_for n a, y') \<and> reading y' rest))
        else \<not> fst (dis_xdrargs (rfsdisptab env ! n) x a)"
proof (cases "e_nfsargs n a")
  case None
  then show ?thesis using table_writing[OF n a x] by simp
next
  case (Some w)
  have "p_nfsargs n (w @ rest) args0 = Some (args_for n a, rest)" for rest
    using rb_args[OF n a] Some by (simp add: reads_back_def)
  then have "\<exists>y'. dis_xdrargs (rfsdisptab env' ! n) y args0 = (True, args_for n a, y') \<and> reading y' rest"
    if "reading y (w @ rest)" "4 dvd length (w @ rest)" for y rest
    using table_reading[OF n that, of env' args0] by auto
  then show ?thesis using table_writing[OF n a x, of env] Some by auto
qed

text \<open>
  C20: the same for results, of every procedure but the directory read, when a read result is not sent
  from the buffer cache: status, attributes, handle, link text and data arrive in a cleared space, and with an
  error status nothing but the status.
\<close>

theorem nfs_results_roundtrip:
  assumes n: "n < RFS_NPROC" "n \<noteq> RFS_READDIR" and v: "res_ok v" and x: "writing x out r" "4 dvd r"
  shows "case e_nfsres n v of
      None \<Rightarrow> \<not> fst (dis_xdrres (rfsdisptab env ! n) x v)
    | Some w \<Rightarrow>
        if length w \<le> r
        then \<exists>x'. dis_xdrres (rfsdisptab env ! n) x v = (True, v, x') \<and> writing x' (out @ w) (r - length w) \<and>
          (\<forall>y rest. reading y (w @ rest) \<and> 4 dvd length (w @ rest) \<longrightarrow>
             (\<exists>y'. dis_xdrres (rfsdisptab env' ! n) y res0 = (True, res_for n v, y') \<and> reading y' rest))
        else \<not> fst (dis_xdrres (rfsdisptab env ! n) x v)"
proof (cases "e_nfsres n v")
  case None
  then show ?thesis using table_writing_res[OF n v x] by simp
next
  case (Some w)
  have "p_nfsres n (w @ rest) res0 = Some (res_for n v, rest)" for rest
    using rb_res[OF n v] Some by (simp add: reads_back_def)
  then have "\<exists>y'. dis_xdrres (rfsdisptab env' ! n) y res0 = (True, res_for n v, y') \<and> reading y' rest"
    if "reading y (w @ rest)" "4 dvd length (w @ rest)" for y rest
    using table_reading_res[OF n that, of env' res0] by auto
  then show ?thesis using table_writing_res[OF n v x, of env] Some by auto
qed

definition name_a :: "byte list option" where "name_a = Some [97, 0]"

definition dirop1 :: nfsdiropargs where "dirop1 = \<lparr>da_fhandle = fh0, da_name = name_a\<rparr>"

definition args1 :: rfsargs where
  "args1 = args0\<lparr>rfa_dirop := dirop1, rfa_write := (rfa_write args0)\<lparr>wa_data := Some []\<rparr>, rfa_creat := (rfa_creat args0)\<lparr>ca_da := dirop1\<rparr>,
     rfa_rnm := \<lparr>rna_from = dirop1, rna_to = dirop1\<rparr>, rfa_link := (rfa_link args0)\<lparr>la_to := dirop1\<rparr>,
     rfa_sl := (rfa_sl args0)\<lparr>sla_from := dirop1, sla_tnm := name_a\<rparr>\<rparr>"

definition env0 :: rrokenv where "env0 = \<lparr>re_mget = None, re_got = False, re_free = 0\<rparr>"

lemma args1_ok: "args_ok args1"
  using args0_new
  by (simp add: args_ok_def args1_def dirop_ok_def dirop1_def fh0_ok name_a_def cstring_def counted_def args0_def)

theorem nfs_args_roundtrip_witness:
  "\<exists>w x'. dis_xdrargs (rfsdisptab env0 ! 4) (mem_encoder 64) args1 = (True, args1, x') \<and> length w = 40 \<and>
    (\<forall>y rest. reading y (w @ rest) \<and> 4 dvd length (w @ rest) \<longrightarrow>
       (\<exists>y'. dis_xdrargs (rfsdisptab env0 ! 4) y args0 = (True, args0\<lparr>rfa_dirop := dirop1\<rparr>, y') \<and> reading y' rest))"
proof -
  have n: "4 < RFS_NPROC" by (simp add: RFS_NPROC_def)
  obtain w where w: "e_nfsargs 4 args1 = Some w" "length w = 40"
    by (simp add: e_nfsargs_def e_fld_def args1_def dirop1_def name_a_def e_diropargs_def e_seqs_def e_seq_def e_void_def
        e_fhandle_def e_opaque_def fh0_def rdbuf_def padlen_def e_string_def bytes_at_def strlen_def NFS_MAXNAMLEN_def Let_def NFS_FHSIZE_def)
  have "args_for 4 args1 = args0\<lparr>rfa_dirop := dirop1\<rparr>" by (simp add: args_for_def args1_def)
  then show ?thesis using nfs_args_roundtrip[OF n args1_ok mem_encoder_writing, of env0 env0] w by auto
qed

definition res1 :: rfsres where
  "res1 = res0\<lparr>rfr_rdln := (rfr_rdln res0)\<lparr>rl_status := 2\<rparr>, rfr_read := (rfr_read res0)\<lparr>rr_status := 5\<rparr>,
     rfr_statfs := \<lparr>fs_status = 0, fs_fsok = \<lparr>fsok_tsize = 8192, fsok_bsize = 1024, fsok_blocks = 20000, fsok_bfree = 300, fsok_bavail = 270\<rparr>\<rparr>\<rparr>"

lemma res1_ok: "res_ok res1"
  by (simp add: res_ok_def res1_def res0_def fh0_ok NFS_OK_def)

theorem nfs_results_roundtrip_witness:
  "\<exists>w x'. dis_xdrres (rfsdisptab env0 ! 17) (mem_encoder 64) res1 = (True, res1, x') \<and> length w = 24 \<and>
    (\<forall>y rest. reading y (w @ rest) \<and> 4 dvd length (w @ rest) \<longrightarrow>
       (\<exists>y'. dis_xdrres (rfsdisptab env0 ! 17) y res0 = (True, res0\<lparr>rfr_statfs := rfr_statfs res1\<rparr>, y') \<and> reading y' rest))"
proof -
  have n: "17 < RFS_NPROC" "17 \<noteq> RFS_READDIR" by (simp_all add: RFS_NPROC_def RFS_READDIR_def)
  obtain w where w: "e_nfsres 17 res1 = Some w" "length w = 24"
    by (simp add: e_nfsres_def e_fld_def res1_def e_statfs_def e_okunion_def e_union_def e_fsok_def e_seqs_def e_seq_def e_void_def
        e_long_def NFS_OK_def Let_def)
  have "res_for 17 res1 = res0\<lparr>rfr_statfs := rfr_statfs res1\<rparr>"
    by (simp add: res_for_def res1_def got_ok_def NFS_OK_def Let_def)
  then show ?thesis using nfs_results_roundtrip[OF n res1_ok mem_encoder_writing, of env0 env0] w by auto
qed

end
