(* ===== verification/Spec2Isabelle.thy ===== *)
theory Spec2Isabelle
  imports Rmap Ipc Msg_Props Sem_Props Xdr_Props Flock_Props Kmem_Props Dnlc_Props Nfs_Props
begin

text \<open>
  A model of kernel facilities of A/UX, Apple's System V kernel for the Macintosh II with Berkeley networking
  and Sun's NFS and RPC, and their correctness.

  \<^bold>\<open>The program and the part modelled.\<close> The kernel is a library of subsystems below the
  system calls. Modelled are those that keep their state in memory structures of their own:

  \<^item> resource maps, \<open>malloc\<close> and \<open>mfree\<close> (PAGING/os/malloc.c,
    include/sys/map.h);
  \<^item> System V IPC: the common routines (PAGING/os/ipc.c), message queues (PAGING/os/msg.c), semaphores
    (PAGING/os/sem.c). Both draw from resource maps, \<open>msgmap\<close> for message text and
    \<open>semmap\<close> for runs of semaphores, and both look entries up and create them through
    \<open>ipcget\<close>;
  \<^item> Sun RPC's data representation: memory and mbuf streams (RPC/sys/xdr_mem.c, xdr_mbuf.c), the routines
    (xdr.c, xdr_array.c, xdr_ref.c), and the RPC messages and credentials built from them (rpc_prot.c,
    auth_uprot.c);
  \<^item> record locks (COMMON/os/flock.c), called by the file systems for \<open>fcntl\<close> and at close;
  \<^item> the kernel memory allocator (COMMON/os/heap_kmem.c), which RPC and NFS draw from;
  \<^item> the directory name lookup cache (COMMON/os/vfs_dnlc.c) that file systems ask before they read a
    directory, with the queue routines and \<open>bcmp\<close> of PAGING/os/syslocal.c, \<open>vn_rele\<close>
    (COMMON/os/vfs_vnode.c) and \<open>crfree\<close> as it uses them;
  \<^item> the NFS wire formats (NET/sys/nfs_xdr.c, include/nfs/nfs.h) over the XDR streams, with the table of
    argument and result routines by which the server dispatches (\<open>rfsdisptab\<close> of
    NET/sys/nfs_server.c).

  \<^bold>\<open>Theories.\<close> Each component has its definitions in the order of the source file, each
  definition with the name of the function, macro or type it translates; a loop or a branch that is a definition
  of its own has that name with a suffix.

  \<^item> Prelude: the machine's integers, error numbers, the part of the user area the calls read, user memory
    with \<open>copyin\<close> and \<open>copyout\<close>, and the outcome of a call that may sleep.
  \<^item> Rmap: a map is the list of its slots. The lemmas give the free units of a map; the locale
    \<open>resource_map\<close> states what clients rely on, its interpretation \<open>rm\<close> discharges it
    for the model, and Msg_Inv and Sem_Reach use its ledger of held units.
  \<^item> Ipc: \<open>ipcaccess\<close> and \<open>ipcget\<close> over \<open>ipc_perm\<close>.
  \<^item> Msg (definitions), Msg_Inv (the invariant of headers, chains and text pool), Msg_Spec (each queue is
    a list of messages, and every operation is refined to its specification on lists), Msg_Props.
  \<^item> Sem (definitions), Sem_Undo (the undo structures and their order), Sem_Op (the operation list: all or
    nothing), Sem_Reach (the invariant of the tables, \<open>sem_inv\<close>, and of the adjustments,
    \<open>undo_in\<close>; the reachable states), Sem_Props.
  \<^item> Xdr_Stream and Xdr (definitions), Xdr_Laws (the locale of an XDR routine that decodes what it
    encodes), Xdr_Dec and Xdr_Enc (exact decoding and encoding of both streams, whatever the division into
    mbufs), Xdr_Inst and Xdr_Inst_Enc (the interpretations), Rpc_Prot and Rpc_Call (messages, in place and field
    by field), Xdr_Props.
  \<^item> Flock (definitions), Flock_Inv (the edits a call makes to the table), Flock_Spec (the byte locks a
    chain stands for, and \<open>claim\<close>, the specification of setting a lock), Flock_Order (chains
    sorted), Flock_Table (records and identifiers are conserved), Flock_Reach (the step relation and deadlock
    detection), Flock_Calls (exclusion), Flock_Props.
  \<^item> Kmem (definitions), Kmem_Tree (Cartesian trees as values, the specification), Kmem_Heap, Kmem_Free
    and Kmem_Alloc (the link-rewriting loops refine the operations on trees), Kmem_Defer (blocks freed at
    interrupt level and the invariant of the whole allocator), Kmem_Calls (the entry points; the locale
    \<open>byte_allocator\<close> with its interpretations for \<open>kmem_free\<close> and
    \<open>kmem_free_intr\<close>), Kmem_Props.
  \<^item> Dnlc (definitions), Dnlc_Ring (inserting into and deleting from doubly linked rings), Dnlc_Inv (the
    LRU and hash rings of a cache, the search), Dnlc_Ops and Dnlc_Refs (the invariant with calls in flight, and
    the counts of vnodes and credentials), Dnlc_Seq and Dnlc_Spec (whole calls, refined to a list in order of
    use), Dnlc_Reach (interleaved calls), Dnlc_Client (the locale \<open>name_cache\<close>: no answer is stale;
    its interpretation \<open>dnlc\<close>), Dnlc_Props.
  \<^item> Nfs_Xdr (definitions), Nfs_Laws (encoders and readers of the protocol's bytes, and the locale of XDR
    routines applied to them), Nfs_Args (arguments and results of the 18 procedures), Nfs_Dir and Nfs_Dirget
    (the loops over directory entries of the server and of the client; the locales
    \<open>xdr_positioned\<close>, a stream that tells its position while it is written, and
    \<open>xdr_careful\<close>, a stream whose failing reads are known, interpreted for both kinds of stream),
    Nfs_Props.

  \<^bold>\<open>State.\<close> The statics of a source file are the fields of one record
  (\<open>msgsys\<close>, \<open>semst\<close>, \<open>flcks\<close>, \<open>kmem\<close>, \<open>ncst\<close>,
  \<open>xdr\<close>); arrays of structures are functions or lists over the index, and a pointer into an array
  is its index. In msg.c, heap_kmem.c and vfs_dnlc.c links are kept as links (the list heads that vfs_dnlc.c
  casts to entries are constructors of the pointer type \<open>nptr\<close>); in sem.c and flock.c a chain is
  the list of its indices, which those files never share or make circular. An int is 32 bits, a short 16, and
  each store truncates as the source's types do (\<open>i32\<close>, \<open>s16\<close>, \<open>u16\<close>,
  \<open>u32\<close>). Errors are values: an \<open>errno\<close>, a false result of an XDR routine, a panic.

  \<^bold>\<open>Sleeping.\<close> The kernel is not preempted. A call runs to its return or to a
  \<open>sleep\<close> of the modelled file, and this is one step; copies of user memory are taken not to sleep,
  that is, the user's pages are resident. (On a page that is not, \<open>copyin\<close>, \<open>copyout\<close>
  and \<open>uiomove\<close>, PAGING/os/umove.c, fault and sleep in \<open>vfault\<close>. Then other calls run
  in the middle of \<open>msgrcv\<close>, \<open>msgsnd\<close> and \<open>semop\<close>, which do not look
  again at what they chose before the copy. The step relations leave this out; \<open>msgrcv_double_free\<close>
  shows it for two readers.) What the call does when it wakes is another definition
  (\<open>msgrcv_resume\<close>, \<open>semop_resume\<close>, \<open>setflck_resume\<close> and so on). The step
  relations (\<open>mq_reach\<close>, \<open>sem_reach\<close>, \<open>lk_reach\<close>, \<open>kreach\<close>,
  \<open>nc_reach\<close>) interleave such steps of any number of processes with each other, and the invariants
  hold in every state they reach. Wakeups are logged in the state, so that a lost one can be stated. The name
  cache sleeps where it releases a vnode, so \<open>dnlc_enter\<close> and \<open>dnlc_rm\<close> are cut there
  into stretches (\<open>enter_take\<close>, \<open>rele_dp\<close>, \<open>rele_vp\<close>,
  \<open>enter_fill\<close>; \<open>rm_take\<close> to \<open>rm_put\<close>) of which the whole calls are
  composed. The allocator runs at level 6, which holds off every interrupt that calls it: its entry points are
  single steps.

  \<^bold>\<open>What is shown.\<close> For message queues: queues behave as lists, selection by type, the
  counts and the text pool agree with the chains in every reachable state, a removed identifier is refused until
  the sequence number of its slot has wrapped. For semaphores: a list of operations is done wholly or not at
  all, undo entries restore on exit, are bounded and name semaphores of live sets, as long as the list a
  sleeping call finds again names semaphores of its set. For maps and the allocator: exactly the requested units
  change hands, none is lost or given twice, the structure stays ordered and coalesced. For XDR and RPC: the
  decoder accepts exactly the encodings, independently of how the bytes are split over mbufs. For record locks:
  a request changes exactly the caller's bytes of its range, conflicting locks exclude each other, deadlock
  detection is exact. For the name cache: the rings and counts are right however sleeping calls interleave,
  every call returns, undisturbed calls act as on a list of 32 places kept in order of use. For NFS: what either
  side encodes the other decodes, for arguments, results and directory reads, and the client's reader of
  directory replies accepts exactly the well-formed ones. The theorems about error paths state the defects met
  on the way on concrete reachable states: lost map units and wakeups in msg.c, an unchecked second
  \<open>copyin\<close> in sem.c, missing bounds in the XDR streams and replies, a misplaced lock piece in
  flock.c, a free block that is not found, an unchecked arena size and a raised processor level in heap_kmem.c,
  a credential not given back and a name that comes back after its removal in vfs_dnlc.c, bytes written behind
  the buffer of a directory read in nfs_xdr.c.

  \<^bold>\<open>Bounds.\<close> A loop over links takes a fuel. For a message queue it is \<open>msgtql +
  1\<close>, one more than there are headers; for deadlock detection one more than there are sleeping locks; for
  record locks \<open>lk_fuel\<close>; for the allocator \<open>kmem_fuel\<close>, one step per header and per
  block that may wait; for the name cache 33 rounds, one more than there are entries; for a directory reply one
  more than the bytes of the buffer. In each case the theorems show that a reachable state never uses it up.
  Sorted chains are not kept by every request flock.c accepts (\<open>unlock_breaks_exclusion\<close> shows
  one), so its theorems on exclusion are about \<open>fair_req\<close>: requests whose clearing or changing of a
  middle piece leaves no piece behind another process's lock (\<open>unsplit\<close>); that is the condition the
  code would need to re-establish.

  \<^bold>\<open>Parameters.\<close> \<open>copyin\<close>, \<open>copyout\<close> and \<open>uiomove\<close> go
  through page tables and the fault handler; \<open>sleep\<close>, \<open>wakeup\<close> and the spl entries are
  the scheduler's or machine code; the model keeps what the callers see. Memory given out to XDR routines in
  decode mode is fresh memory of the model. What a file system does with the last reference to a vnode
  (VOP_INACTIVE) is logged; that PAGING then also drops the vnode's cached blocks (\<open>freeblklst\<close>) is
  left out. The mbuf in which a read reply keeps what it must release and the address of \<open>rrokfree\<close>
  are the fields of \<open>rrokenv\<close>. The RPC result and argument routines are parameters, with the laws
  of the locale in Xdr_Laws as hypotheses, and the witnesses use the routines of xdr.c.

  \<^bold>\<open>Not modelled.\<close> Processes, signals, paging and regions (with shared memory, whose
  operations are calls into regions), the file systems and the NFS procedures above XDR, sockets, mbufs beyond
  what the XDR stream reads and the Internet protocols, streams and terminals, device drivers, machine start-up,
  configuration tables and the assembler files: they act on devices, page tables, interrupt timing or through
  tables of procedures of other subsystems. Of the modelled files the following is left out: debugging output,
  the user-level builds and unused functions (\<open>notneeded\<close> in vfs_dnlc.c) the preprocessor leaves
  out, and the PDP-11 helper of sem.c. Read replies sent from the buffer cache are modelled
  (\<open>xdr_rrok\<close>) but not in the theorems on results.
\<close>

end
